(* ===== verification/Rust_Prelude.thy ===== *)
theory Rust_Prelude
  imports Main "HOL-Library.Word" "HOL-Library.Char_ord" "HOL-Library.List_Lexorder"
    "HOL-Library.Product_Lexorder"
begin

text \<open>
  Shared ground of the development: the machine integers and byte strings of the Rust
  sources, the result type of its fallible functions, the checked, saturating and
  wrapping operations of \<^verbatim>\<open>u64\<close>, and the two ordered containers the sources iterate over
  (\<^verbatim>\<open>BTreeMap\<close> and \<^verbatim>\<open>BTreeSet\<close>), kept as strictly sorted lists so that iteration order is
  part of the model.

  A Rust \<^verbatim>\<open>String\<close>, \<^verbatim>\<open>&str\<close>, \<^verbatim>\<open>Vec<u8>\<close> or \<^verbatim>\<open>Bytes\<close> is a \<open>string\<close>: a list of \<open>char\<close>, and a \<open>char\<close> of
  Isabelle is exactly one byte. That a \<^verbatim>\<open>String\<close> holds valid UTF-8 is the predicate
  \<open>utf8_valid\<close> of the next theory. The order of \<open>string\<close> is the lexicographic order of its bytes,
  which is the order of \<^verbatim>\<open>str\<close> and \<^verbatim>\<open>[u8]\<close> in Rust and the key order of the storage engine.
\<close>

named_theorems text_simps \<open>facts on printing, parsing and splitting text\<close>
named_theorems key_simps \<open>facts on the shape of storage keys\<close>
named_theorems codec_simps \<open>round trips of record encodings\<close>

type_synonym u64 = "64 word"
type_synonym i64 = "64 word"
type_synonym bytes = string

subsection \<open>Results\<close>

text \<open>\<open>rbind\<close> is the question mark operator: stop at the first error, else go on with the value.\<close>

fun rbind :: "'e + 'a \<Rightarrow> ('a \<Rightarrow> 'e + 'b) \<Rightarrow> 'e + 'b" where
  "rbind (Inl e) f = Inl e"
| "rbind (Inr x) f = f x"

fun map_err :: "('e \<Rightarrow> 'f) \<Rightarrow> 'e + 'a \<Rightarrow> 'f + 'a" where
  "map_err f (Inl e) = Inl (f e)"
| "map_err f (Inr x) = Inr x"

fun map_ok :: "('a \<Rightarrow> 'b) \<Rightarrow> 'e + 'a \<Rightarrow> 'e + 'b" where
  "map_ok f (Inl e) = Inl e"
| "map_ok f (Inr x) = Inr (f x)"

definition ok_or :: "'e \<Rightarrow> 'a option \<Rightarrow> 'e + 'a" where
  "ok_or e x = (case x of None \<Rightarrow> Inl e | Some v \<Rightarrow> Inr v)"

definition is_ok :: "'e + 'a \<Rightarrow> bool" where
  "is_ok r \<longleftrightarrow> (case r of Inl _ \<Rightarrow> False | Inr _ \<Rightarrow> True)"

lemma ok_or_simps [simp]:
  "ok_or e None = Inl e" "ok_or e (Some v) = Inr v"
  by (simp_all add: ok_or_def)

lemma is_ok_simps [simp]:
  "\<not> is_ok (Inl e)" "is_ok (Inr x)"
  by (simp_all add: is_ok_def)

lemma rbind_Inr_iff: "rbind m f = Inr y \<longleftrightarrow> (\<exists>x. m = Inr x \<and> f x = Inr y)"
  by (cases m) auto

lemma rbind_Inl_iff: "rbind m f = Inl e \<longleftrightarrow> m = Inl e \<or> (\<exists>x. m = Inr x \<and> f x = Inl e)"
  by (cases m) auto

lemma map_ok_Inr_iff: "map_ok f m = Inr y \<longleftrightarrow> (\<exists>x. m = Inr x \<and> y = f x)"
  by (cases m) auto

lemma map_err_Inr_iff: "map_err f m = Inr y \<longleftrightarrow> m = Inr y"
  by (cases m) auto

lemma is_ok_iff: "is_ok r \<longleftrightarrow> (\<exists>x. r = Inr x)"
  by (cases r) auto

text \<open>A loop that threads an accumulator and stops at the first error.\<close>

fun rfold :: "('a \<Rightarrow> 's \<Rightarrow> 'e + 's) \<Rightarrow> 'a list \<Rightarrow> 's \<Rightarrow> 'e + 's" where
  "rfold f [] s = Inr s"
| "rfold f (x # xs) s = rbind (f x s) (rfold f xs)"

lemma rfold_append: "rfold f (xs @ ys) s = rbind (rfold f xs s) (rfold f ys)"
proof (induction xs arbitrary: s)
  case (Cons x xs)
  then show ?case by (cases "f x s") simp_all
qed simp

lemma rfold_invariant:
  assumes "\<And>x s s'. x \<in> set xs \<Longrightarrow> P s \<Longrightarrow> f x s = Inr s' \<Longrightarrow> P s'"
    and "P s" and "rfold f xs s = Inr s'"
  shows "P s'"
  using assms
proof (induction xs arbitrary: s)
  case (Cons x xs)
  from Cons.prems(3) obtain t where t: "f x s = Inr t" "rfold f xs t = Inr s'"
    by (auto simp: rbind_Inr_iff)
  have "P t"
    using Cons.prems(1)[of x s t] Cons.prems(2) t(1) by simp
  then show ?case
    using Cons.IH[of t] Cons.prems(1) t(2) by (meson list.set_intros(2))
qed simp

subsection \<open>Arithmetic of u64\<close>

definition checked_add :: "u64 \<Rightarrow> u64 \<Rightarrow> u64 option" where
  "checked_add a b = (if unat a + unat b < 2 ^ 64 then Some (a + b) else None)"

definition saturating_add :: "u64 \<Rightarrow> u64 \<Rightarrow> u64" where
  "saturating_add a b = (if unat a + unat b < 2 ^ 64 then a + b else - 1)"

definition saturating_sub :: "u64 \<Rightarrow> u64 \<Rightarrow> u64" where
  "saturating_sub a b = (if b \<le> a then a - b else 0)"

lemma u64_max: "unat (- 1 :: u64) = 2 ^ 64 - 1"
  by (simp add: unsigned_minus_1_eq_mask mask_eq_exp_minus_1)

lemma u64_bound: "unat (a :: u64) < 2 ^ 64"
  using unsigned_less[of a] by simp

lemma checked_add_Some:
  "checked_add a b = Some c \<longleftrightarrow> unat a + unat b < 2 ^ 64 \<and> unat c = unat a + unat b"
  unfolding checked_add_def
  by (auto simp: unat_word_ariths word_unat_eq_iff)

lemma checked_add_None: "checked_add a b = None \<longleftrightarrow> 2 ^ 64 \<le> unat a + unat b"
  by (auto simp: checked_add_def)

lemma checked_add_1_less:
  "checked_add a 1 = Some c \<Longrightarrow> a < c"
  by (simp add: checked_add_Some word_less_nat_alt)

lemma saturating_add_unat: "unat (saturating_add a b) = min (unat a + unat b) (2 ^ 64 - 1)"
  using u64_max by (auto simp: saturating_add_def unat_word_ariths min_def)

lemma saturating_sub_unat: "unat (saturating_sub a b) = unat a - unat b"
  by (auto simp: saturating_sub_def unat_sub word_le_nat_alt)

end
