(* ===== verification/Rust_Text.thy ===== *)
theory Rust_Text
  imports Rust_Prelude
begin

text \<open>
  What the sources use of the standard library on text: decimal and hexadecimal formatting
  (\<^verbatim>\<open>{}\<close>, \<^verbatim>\<open>{:020}\<close>, \<^verbatim>\<open>{:016x}\<close>), the integer parsers with their four error kinds,
  \<^verbatim>\<open>split\<close>, \<^verbatim>\<open>split_once\<close>, \<^verbatim>\<open>lines\<close>, \<^verbatim>\<open>trim_end_matches\<close>, \<^verbatim>\<open>strip_prefix\<close>, UTF-8 validation with
  the position and length of the first error, lossy decoding, and big-endian integers.
  The lemmas are the round trips of each pair and the fact the storage layout rests on:
  zero-padded numbers compare as the numbers do (\<open>fmt_020_less\<close>, \<open>fmt_016x_less\<close>).
\<close>

subsection \<open>Digits\<close>

definition digit_char :: "nat \<Rightarrow> char" where
  "digit_char d = (if d < 10 then char_of (48 + d) else char_of (87 + d))"

definition to_digit :: "nat \<Rightarrow> char \<Rightarrow> nat option" where
  "to_digit radix c =
     (let n = of_char c;
          d = (if 48 \<le> n \<and> n \<le> 57 then n - 48
               else if 97 \<le> n \<and> n \<le> 122 then n - 87
               else if 65 \<le> n \<and> n \<le> 90 then n - 55
               else radix)
      in if d < radix then Some d else None)"

fun radix_digits :: "nat \<Rightarrow> nat \<Rightarrow> string" where
  "radix_digits b n =
     (if n < b \<or> b < 2 then [digit_char n] else radix_digits b (n div b) @ [digit_char (n mod b)])"

declare radix_digits.simps [simp del]

definition pad_left :: "nat \<Rightarrow> string \<Rightarrow> string" where
  "pad_left w s = replicate (w - length s) (CHR ''0'') @ s"

definition to_dec :: "nat \<Rightarrow> string" where
  "to_dec n = radix_digits 10 n"

definition fmt_u64 :: "u64 \<Rightarrow> string" where
  "fmt_u64 w = to_dec (unat w)"

definition fmt_020 :: "u64 \<Rightarrow> string" where
  "fmt_020 w = pad_left 20 (to_dec (unat w))"

definition fmt_016x :: "u64 \<Rightarrow> string" where
  "fmt_016x w = pad_left 16 (radix_digits 16 (unat w))"

definition fmt_i64 :: "i64 \<Rightarrow> string" where
  "fmt_i64 v = (if sint v < 0 then ''-'' @ to_dec (nat (- sint v)) else to_dec (nat (sint v)))"

subsection \<open>Integer parsing\<close>

datatype int_error = IntEmpty | IntInvalidDigit | IntPosOverflow | IntNegOverflow

fun int_error_display :: "int_error \<Rightarrow> string" where
  "int_error_display IntEmpty = ''cannot parse integer from empty string''"
| "int_error_display IntInvalidDigit = ''invalid digit found in string''"
| "int_error_display IntPosOverflow = ''number too large to fit in target type''"
| "int_error_display IntNegOverflow = ''number too small to fit in target type''"

text \<open>Digits are consumed left to right; an invalid digit is reported before an overflow at the
  same position.\<close>

fun parse_digits :: "nat \<Rightarrow> nat \<Rightarrow> int_error \<Rightarrow> nat \<Rightarrow> string \<Rightarrow> int_error + nat" where
  "parse_digits radix bound ovf acc [] = Inr acc"
| "parse_digits radix bound ovf acc (c # cs) =
     (case to_digit radix c of
        None \<Rightarrow> Inl IntInvalidDigit
      | Some d \<Rightarrow> if acc * radix + d < bound then parse_digits radix bound ovf (acc * radix + d) cs
                  else Inl ovf)"

definition u64_from_str_radix :: "nat \<Rightarrow> string \<Rightarrow> int_error + u64" where
  "u64_from_str_radix radix s =
     (if s = [] then Inl IntEmpty
      else if s = ''+'' \<or> s = ''-'' then Inl IntInvalidDigit
      else map_ok word_of_nat
             (parse_digits radix (2 ^ 64) IntPosOverflow 0 (if hd s = CHR ''+'' then tl s else s)))"

definition str_parse_u64 :: "string \<Rightarrow> int_error + u64" where
  "str_parse_u64 s = u64_from_str_radix 10 s"

definition str_parse_i64 :: "string \<Rightarrow> int_error + i64" where
  "str_parse_i64 s =
     (if s = [] then Inl IntEmpty
      else if s = ''+'' \<or> s = ''-'' then Inl IntInvalidDigit
      else if hd s = CHR ''-'' then
        map_ok (\<lambda>n. - word_of_nat n) (parse_digits 10 (2 ^ 63 + 1) IntNegOverflow 0 (tl s))
      else map_ok word_of_nat
             (parse_digits 10 (2 ^ 63) IntPosOverflow 0 (if hd s = CHR ''+'' then tl s else s)))"

subsection \<open>Splitting\<close>

fun split_on :: "char \<Rightarrow> string \<Rightarrow> string list" where
  "split_on sep [] = [[]]"
| "split_on sep (c # cs) =
     (if c = sep then [] # split_on sep cs
      else case split_on sep cs of [] \<Rightarrow> [[c]] | w # ws \<Rightarrow> (c # w) # ws)"

fun join_with :: "char \<Rightarrow> string list \<Rightarrow> string" where
  "join_with sep [] = []"
| "join_with sep [w] = w"
| "join_with sep (w # ws) = w @ sep # join_with sep ws"

fun split_once :: "char \<Rightarrow> string \<Rightarrow> (string \<times> string) option" where
  "split_once sep [] = None"
| "split_once sep (c # cs) =
     (if c = sep then Some ([], cs)
      else case split_once sep cs of None \<Rightarrow> None | Some (a, b) \<Rightarrow> Some (c # a, b))"

definition strip_prefix :: "string \<Rightarrow> string \<Rightarrow> string option" where
  "strip_prefix p s = (if take (length p) s = p then Some (drop (length p) s) else None)"

definition starts_with :: "string \<Rightarrow> string \<Rightarrow> bool" where
  "starts_with p s \<longleftrightarrow> take (length p) s = p"

definition trim_end_matches :: "char \<Rightarrow> string \<Rightarrow> string" where
  "trim_end_matches c s = rev (dropWhile (\<lambda>x. x = c) (rev s))"

fun split_inclusive :: "char \<Rightarrow> string \<Rightarrow> string list" where
  "split_inclusive sep [] = []"
| "split_inclusive sep (c # cs) =
     (if c = sep then [c] # split_inclusive sep cs
      else case split_inclusive sep cs of [] \<Rightarrow> [[c]] | w # ws \<Rightarrow> (c # w) # ws)"

abbreviation "NL \<equiv> CHR 0x0A"
abbreviation "CR \<equiv> CHR 0x0D"
abbreviation "TAB \<equiv> CHR 0x09"
abbreviation "NUL \<equiv> CHR 0x00"
abbreviation "SLASH \<equiv> CHR ''/''"

definition strip_line_end :: "string \<Rightarrow> string" where
  "strip_line_end w =
     (if w \<noteq> [] \<and> last w = NL
      then (let u = butlast w in if u \<noteq> [] \<and> last u = CR then butlast u else u)
      else w)"

definition str_lines :: "string \<Rightarrow> string list" where
  "str_lines s = map strip_line_end (split_inclusive NL s)"

subsection \<open>UTF-8\<close>

text \<open>One step of the validator: a character of the given length, or an error whose length is
  absent when the input ends inside a character.\<close>

datatype utf8_step = Utf8Char nat | Utf8Bad "nat option"

definition is_cont :: "char \<Rightarrow> bool" where
  "is_cont c \<longleftrightarrow> (let n = of_char c :: nat in 128 \<le> n \<and> n < 192)"

definition utf8_second3 :: "nat \<Rightarrow> nat \<Rightarrow> bool" where
  "utf8_second3 a b \<longleftrightarrow>
     (a = 0xE0 \<and> 0xA0 \<le> b \<and> b \<le> 0xBF) \<or> (0xE1 \<le> a \<and> a \<le> 0xEC \<and> 0x80 \<le> b \<and> b \<le> 0xBF)
     \<or> (a = 0xED \<and> 0x80 \<le> b \<and> b \<le> 0x9F) \<or> (0xEE \<le> a \<and> a \<le> 0xEF \<and> 0x80 \<le> b \<and> b \<le> 0xBF)"

definition utf8_second4 :: "nat \<Rightarrow> nat \<Rightarrow> bool" where
  "utf8_second4 a b \<longleftrightarrow>
     (a = 0xF0 \<and> 0x90 \<le> b \<and> b \<le> 0xBF) \<or> (0xF1 \<le> a \<and> a \<le> 0xF3 \<and> 0x80 \<le> b \<and> b \<le> 0xBF)
     \<or> (a = 0xF4 \<and> 0x80 \<le> b \<and> b \<le> 0x8F)"

definition utf8_next :: "char \<Rightarrow> string \<Rightarrow> utf8_step" where
  "utf8_next c cs =
     (let a = of_char c :: nat in
      if a < 128 then Utf8Char 1
      else if 0xC2 \<le> a \<and> a \<le> 0xDF then
        (case cs of [] \<Rightarrow> Utf8Bad None
         | d # _ \<Rightarrow> if is_cont d then Utf8Char 2 else Utf8Bad (Some 1))
      else if 0xE0 \<le> a \<and> a \<le> 0xEF then
        (case cs of [] \<Rightarrow> Utf8Bad None
         | d # ds \<Rightarrow> if \<not> utf8_second3 a (of_char d) then Utf8Bad (Some 1)
             else (case ds of [] \<Rightarrow> Utf8Bad None
                   | e # _ \<Rightarrow> if is_cont e then Utf8Char 3 else Utf8Bad (Some 2)))
      else if 0xF0 \<le> a \<and> a \<le> 0xF4 then
        (case cs of [] \<Rightarrow> Utf8Bad None
         | d # ds \<Rightarrow> if \<not> utf8_second4 a (of_char d) then Utf8Bad (Some 1)
             else (case ds of [] \<Rightarrow> Utf8Bad None
                   | e # es \<Rightarrow> if \<not> is_cont e then Utf8Bad (Some 2)
                       else (case es of [] \<Rightarrow> Utf8Bad None
                             | f # _ \<Rightarrow> if is_cont f then Utf8Char 4 else Utf8Bad (Some 3))))
      else Utf8Bad (Some 1))"

fun utf8_error :: "nat \<Rightarrow> bytes \<Rightarrow> (nat \<times> nat option) option" where
  "utf8_error i [] = None"
| "utf8_error i (c # cs) =
     (case utf8_next c cs of
        Utf8Char n \<Rightarrow> utf8_error (i + n) (drop (n - 1) cs)
      | Utf8Bad e \<Rightarrow> Some (i, e))"

definition utf8_valid :: "bytes \<Rightarrow> bool" where
  "utf8_valid s \<longleftrightarrow> utf8_error 0 s = None"

fun utf8_error_display :: "nat \<times> nat option \<Rightarrow> string" where
  "utf8_error_display (i, Some k) =
     ''invalid utf-8 sequence of '' @ to_dec k @ '' bytes from index '' @ to_dec i"
| "utf8_error_display (i, None) = ''incomplete utf-8 byte sequence from index '' @ to_dec i"

definition from_utf8 :: "bytes \<Rightarrow> (nat \<times> nat option) + string" where
  "from_utf8 s = (case utf8_error 0 s of None \<Rightarrow> Inr s | Some e \<Rightarrow> Inl e)"

definition replacement_char :: string where
  "replacement_char = [CHR 0xEF, CHR 0xBF, CHR 0xBD]"

fun from_utf8_lossy :: "bytes \<Rightarrow> string" where
  "from_utf8_lossy [] = []"
| "from_utf8_lossy (c # cs) =
     (case utf8_next c cs of
        Utf8Char n \<Rightarrow> take n (c # cs) @ from_utf8_lossy (drop (n - 1) cs)
      | Utf8Bad (Some k) \<Rightarrow> replacement_char @ from_utf8_lossy (drop (k - 1) cs)
      | Utf8Bad None \<Rightarrow> replacement_char)"

subsection \<open>Big-endian integers\<close>

fun be_bytes :: "nat \<Rightarrow> nat \<Rightarrow> bytes" where
  "be_bytes 0 n = []"
| "be_bytes (Suc k) n = be_bytes k (n div 256) @ [char_of (n mod 256)]"

definition to_be_bytes :: "u64 \<Rightarrow> bytes" where
  "to_be_bytes w = be_bytes 8 (unat w)"

definition be_value :: "bytes \<Rightarrow> nat" where
  "be_value bs = foldl (\<lambda>a c. a * 256 + of_char c) 0 bs"

definition from_be_bytes :: "bytes \<Rightarrow> u64" where
  "from_be_bytes bs = word_of_nat (be_value bs)"


subsection \<open>Digits and their order\<close>

lemma of_char_digit_char:
  "d < 10 \<Longrightarrow> of_char (digit_char d) = 48 + d"
  "10 \<le> d \<Longrightarrow> d < 16 \<Longrightarrow> of_char (digit_char d) = 87 + d"
  by (auto simp: digit_char_def of_char_of take_bit_eq_mod)

lemma of_char_digit_char16:
  "d < 16 \<Longrightarrow> of_char (digit_char d) = (if d < 10 then 48 + d else 87 + d)"
  using of_char_digit_char[of d] by auto

lemma to_digit_digit_char: "d < radix \<Longrightarrow> radix \<le> 16 \<Longrightarrow> to_digit radix (digit_char d) = Some d"
  by (auto simp: to_digit_def of_char_digit_char16 Let_def)

lemma digit_char_less: "d < 16 \<Longrightarrow> e < 16 \<Longrightarrow> digit_char d < digit_char e \<longleftrightarrow> d < e"
  by (auto simp: less_char_def of_char_digit_char16 split: if_splits)

lemma digit_char_inj: "d < 16 \<Longrightarrow> e < 16 \<Longrightarrow> digit_char d = digit_char e \<longleftrightarrow> d = e"
  by (metis digit_char_less less_irrefl linorder_neqE_nat)

lemma digit_char_0: "digit_char 0 = CHR ''0''"
  by code_simp

text \<open>The fixed-width form of a number: what zero-padding yields.\<close>

fun fixed_digits :: "nat \<Rightarrow> nat \<Rightarrow> nat \<Rightarrow> string" where
  "fixed_digits b 0 n = []"
| "fixed_digits b (Suc w) n = fixed_digits b w (n div b) @ [digit_char (n mod b)]"

lemma length_fixed_digits [simp]: "length (fixed_digits b w n) = w"
  by (induction w arbitrary: n) auto

lemma fixed_digits_0: "fixed_digits b w 0 = replicate w (CHR ''0'')"
  by (induction w) (auto simp: digit_char_0 replicate_append_same)

lemma length_radix_digits:
  "n < b ^ w \<Longrightarrow> 2 \<le> b \<Longrightarrow> 0 < w \<Longrightarrow> length (radix_digits b n) \<le> w"
proof (induction w arbitrary: n)
  case (Suc w)
  show ?case
  proof (cases "n < b")
    case True
    then show ?thesis by (simp add: radix_digits.simps[of b n])
  next
    case False
    have "n div b < b ^ w"
      using Suc.prems by (simp add: less_mult_imp_div_less mult.commute)
    moreover have "0 < w"
      using False Suc.prems by (cases w) auto
    ultimately show ?thesis
      using Suc.IH[of "n div b"] False Suc.prems by (simp add: radix_digits.simps[of b n])
  qed
qed simp

lemma pad_left_radix_digits:
  "n < b ^ w \<Longrightarrow> 2 \<le> b \<Longrightarrow> 0 < w \<Longrightarrow> pad_left w (radix_digits b n) = fixed_digits b w n"
proof (induction w arbitrary: n)
  case (Suc w)
  show ?case
  proof (cases "n < b")
    case True
    then show ?thesis
      by (simp add: radix_digits.simps[of b n] pad_left_def fixed_digits_0)
  next
    case False
    have d: "n div b < b ^ w"
      using Suc.prems by (simp add: less_mult_imp_div_less mult.commute)
    have w: "0 < w"
      using False Suc.prems by (cases w) auto
    show ?thesis
      using Suc.IH[OF d] w False Suc.prems length_radix_digits[OF d]
      by (simp add: radix_digits.simps[of b n] pad_left_def)
  qed
qed simp

lemma list_less_snoc:
  fixes xs ys :: "'a::linorder list"
  assumes "length xs = length ys"
  shows "xs @ [x] < ys @ [y] \<longleftrightarrow> xs < ys \<or> (xs = ys \<and> x < y)"
  using assms by (induction xs ys rule: list_induct2) auto

lemma fixed_digits_inj:
  "m < b ^ w \<Longrightarrow> n < b ^ w \<Longrightarrow> 2 \<le> b \<Longrightarrow> b \<le> 16 \<Longrightarrow>
     fixed_digits b w m = fixed_digits b w n \<longleftrightarrow> m = n"
proof (induction w arbitrary: m n)
  case (Suc w)
  then have "m div b < b ^ w" "n div b < b ^ w" "m mod b < 16" "n mod b < 16"
    by (auto simp: less_mult_imp_div_less mult.commute intro: less_le_trans[OF mod_less_divisor])
  then show ?case
    using Suc by (auto simp: digit_char_inj) (metis div_mod_decomp)
qed simp

lemma fixed_digits_less:
  "m < b ^ w \<Longrightarrow> n < b ^ w \<Longrightarrow> 2 \<le> b \<Longrightarrow> b \<le> 16 \<Longrightarrow>
     fixed_digits b w m < fixed_digits b w n \<longleftrightarrow> m < n"
proof (induction w arbitrary: m n)
  case (Suc w)
  then have d: "m div b < b ^ w" "n div b < b ^ w" and r: "m mod b < 16" "n mod b < 16"
    by (auto simp: less_mult_imp_div_less mult.commute intro: less_le_trans[OF mod_less_divisor])
  have "fixed_digits b (Suc w) m < fixed_digits b (Suc w) n \<longleftrightarrow>
      m div b < n div b \<or> m div b = n div b \<and> m mod b < n mod b"
    using Suc.IH[OF d] fixed_digits_inj[OF d] Suc.prems(3,4) r
    by (simp add: list_less_snoc digit_char_less)
  also have "\<dots> \<longleftrightarrow> m < n"
  proof -
    have "m = m div b * b + m mod b" "n = n div b * b + n mod b"
      by simp_all
    moreover have "m div b < n div b \<Longrightarrow> m < n"
      by (metis div_le_mono leD leI)
    moreover have "m < n \<Longrightarrow> m div b \<le> n div b"
      by (simp add: div_le_mono)
    ultimately show ?thesis
      by (metis add_less_cancel_left le_neq_implies_less)
  qed
  finally show ?case .
qed simp

lemma u64_less_dec: "unat (w :: u64) < 10 ^ 20"
  using u64_bound[of w] by simp

lemma u64_less_hex: "unat (w :: u64) < 16 ^ 16"
  using u64_bound[of w] by simp

lemma fmt_020_fixed: "fmt_020 w = fixed_digits 10 20 (unat w)"
  using u64_less_dec[of w] by (simp add: fmt_020_def to_dec_def pad_left_radix_digits)

lemma fmt_016x_fixed: "fmt_016x w = fixed_digits 16 16 (unat w)"
  using u64_less_hex[of w] by (simp add: fmt_016x_def pad_left_radix_digits)

lemma length_fmt_020 [text_simps, simp]: "length (fmt_020 w) = 20"
  by (simp add: fmt_020_fixed)

lemma length_fmt_016x [text_simps, simp]: "length (fmt_016x w) = 16"
  by (simp add: fmt_016x_fixed)

lemma fmt_020_less [text_simps]: "fmt_020 v < fmt_020 w \<longleftrightarrow> v < w"
  using u64_less_dec[of v] u64_less_dec[of w]
  by (simp add: fmt_020_fixed fixed_digits_less word_less_nat_alt)

lemma fmt_020_inj [text_simps, simp]: "fmt_020 v = fmt_020 w \<longleftrightarrow> v = w"
  by (metis fmt_020_less less_irrefl linorder_less_linear)

lemma fmt_016x_less [text_simps]: "fmt_016x v < fmt_016x w \<longleftrightarrow> v < w"
  using u64_less_hex[of v] u64_less_hex[of w]
  by (simp add: fmt_016x_fixed fixed_digits_less word_less_nat_alt)

lemma fmt_016x_inj [text_simps, simp]: "fmt_016x v = fmt_016x w \<longleftrightarrow> v = w"
  by (metis fmt_016x_less less_irrefl linorder_less_linear)

text \<open>The bytes of a number are digits, so they are no separators and no signs.\<close>

definition is_digit_of :: "nat \<Rightarrow> char \<Rightarrow> bool" where
  "is_digit_of b c \<longleftrightarrow> (\<exists>d < b. c = digit_char d)"

lemma is_digit_ofI [intro]: "d < b \<Longrightarrow> is_digit_of b (digit_char d)"
  by (auto simp: is_digit_of_def)

lemma fixed_digits_digits: "0 < b \<Longrightarrow> \<forall>c \<in> set (fixed_digits b w n). is_digit_of b c"
  by (induction w arbitrary: n) auto

lemma radix_digits_digits: "2 \<le> b \<Longrightarrow> \<forall>c \<in> set (radix_digits b n). is_digit_of b c"
proof (induction b n rule: radix_digits.induct)
  case (1 b n)
  then show ?case by (auto simp: radix_digits.simps[of b n])
qed

lemma is_digit_of_code: "is_digit_of b c \<Longrightarrow> b \<le> 16 \<Longrightarrow>
    (48 \<le> (of_char c :: nat) \<and> of_char c < (58 :: nat)) \<or> (97 \<le> (of_char c :: nat) \<and> of_char c < (103 :: nat))"
  by (auto simp: is_digit_of_def of_char_digit_char16 split: if_splits)

lemma radix_digits_nonempty [simp]: "radix_digits b n \<noteq> []"
  by (simp add: radix_digits.simps[of b n])

lemma digits_avoid:
  assumes "\<forall>c \<in> set s. is_digit_of b c" "b \<le> 16"
    and "(of_char x :: nat) < 48 \<or> (58 \<le> (of_char x :: nat) \<and> of_char x < (97 :: nat)) \<or> 103 \<le> (of_char x :: nat)"
  shows "x \<notin> set s"
  using assms is_digit_of_code by fastforce

lemma fmt_020_digits: "\<forall>c \<in> set (fmt_020 w). is_digit_of 10 c"
  by (simp add: fmt_020_fixed fixed_digits_digits)

lemma fmt_u64_digits: "\<forall>c \<in> set (fmt_u64 w). is_digit_of 10 c"
  by (simp add: fmt_u64_def to_dec_def radix_digits_digits)

lemma fmt_016x_digits: "\<forall>c \<in> set (fmt_016x w). is_digit_of 16 c"
  by (simp add: fmt_016x_fixed fixed_digits_digits)

lemma fmt_u64_nonempty [simp]: "fmt_u64 w \<noteq> []"
  by (simp add: fmt_u64_def to_dec_def)

subsection \<open>Printing and parsing integers\<close>

text \<open>The number a list of digits denotes.\<close>

definition digits_value :: "nat \<Rightarrow> nat \<Rightarrow> string \<Rightarrow> nat" where
  "digits_value b a s = foldl (\<lambda>acc c. acc * b + the (to_digit b c)) a s"

lemma digits_value_simps [simp]:
  "digits_value b a [] = a"
  "digits_value b a (c # s) = digits_value b (a * b + the (to_digit b c)) s"
  "digits_value b a (s @ t) = digits_value b (digits_value b a s) t"
  by (simp_all add: digits_value_def)

lemma digits_value_ge: "0 < b \<Longrightarrow> a \<le> digits_value b a s"
proof (induction s arbitrary: a)
  case (Cons c s)
  have "a \<le> a * b + the (to_digit b c)"
    using Cons.prems by (simp add: trans_le_add1)
  also have "\<dots> \<le> digits_value b (a * b + the (to_digit b c)) s"
    by (rule Cons.IH[OF Cons.prems])
  finally show ?case by simp
qed simp

lemma parse_digits_value:
  "\<forall>c \<in> set s. is_digit_of b c \<Longrightarrow> 0 < b \<Longrightarrow> b \<le> 16 \<Longrightarrow> digits_value b a s < bound \<Longrightarrow>
     parse_digits b bound ovf a s = Inr (digits_value b a s)"
proof (induction s arbitrary: a)
  case (Cons c s)
  then obtain d where d: "to_digit b c = Some d"
    by (auto simp: is_digit_of_def to_digit_digit_char)
  have "a * b + d \<le> digits_value b (a * b + d) s"
    by (rule digits_value_ge[OF Cons.prems(2)])
  with Cons d show ?case by simp
qed simp

lemma digits_value_radix_digits:
  "2 \<le> b \<Longrightarrow> b \<le> 16 \<Longrightarrow> digits_value b 0 (radix_digits b n) = n"
proof (induction b n rule: radix_digits.induct)
  case (1 b n)
  then show ?case
    by (auto simp: radix_digits.simps[of b n] to_digit_digit_char)
qed

lemma digits_value_fixed_digits:
  "n < b ^ w \<Longrightarrow> 2 \<le> b \<Longrightarrow> b \<le> 16 \<Longrightarrow> digits_value b 0 (fixed_digits b w n) = n"
proof (induction w arbitrary: n)
  case (Suc w)
  then have "n div b < b ^ w"
    by (simp add: less_mult_imp_div_less mult.commute)
  with Suc show ?case by (simp add: to_digit_digit_char)
qed simp

lemma u64_from_str_radix_digits:
  assumes "s \<noteq> []" "\<forall>c \<in> set s. is_digit_of b c" "2 \<le> b" "b \<le> 16"
    and "digits_value b 0 s < 2 ^ 64"
  shows "u64_from_str_radix b s = Inr (word_of_nat (digits_value b 0 s))"
proof -
  have "CHR ''+'' \<notin> set s" "CHR ''-'' \<notin> set s"
    using digits_avoid[OF assms(2,4)] by auto
  then have "s \<noteq> ''+''" "s \<noteq> ''-''" "hd s \<noteq> CHR ''+''"
    using assms(1) by (auto simp: neq_Nil_conv)
  then show ?thesis
    using assms by (simp add: u64_from_str_radix_def parse_digits_value)
qed

lemma parse_fmt_u64 [text_simps, simp]: "str_parse_u64 (fmt_u64 w) = Inr w"
proof -
  have "digits_value 10 0 (fmt_u64 w) = unat w"
    by (simp add: fmt_u64_def to_dec_def digits_value_radix_digits)
  then show ?thesis
    using u64_from_str_radix_digits[of "fmt_u64 w" 10] fmt_u64_digits[of w] u64_bound[of w]
    by (simp add: str_parse_u64_def)
qed

lemma parse_fmt_020 [text_simps, simp]: "str_parse_u64 (fmt_020 w) = Inr w"
proof -
  have "digits_value 10 0 (fmt_020 w) = unat w"
    using u64_less_dec[of w] by (simp add: fmt_020_fixed digits_value_fixed_digits)
  moreover have "fmt_020 w \<noteq> []"
    using length_fmt_020[of w] by (metis length_0_conv zero_neq_numeral)
  ultimately show ?thesis
    using u64_from_str_radix_digits[of "fmt_020 w" 10] fmt_020_digits[of w] u64_bound[of w]
    by (simp add: str_parse_u64_def)
qed

lemma parse_fmt_016x [text_simps, simp]: "u64_from_str_radix 16 (fmt_016x w) = Inr w"
proof -
  have "digits_value 16 0 (fmt_016x w) = unat w"
    using u64_less_hex[of w] by (simp add: fmt_016x_fixed digits_value_fixed_digits)
  moreover have "fmt_016x w \<noteq> []"
    using length_fmt_016x[of w] by (metis length_0_conv zero_neq_numeral)
  ultimately show ?thesis
    using u64_from_str_radix_digits[of "fmt_016x w" 16] fmt_016x_digits[of w] u64_bound[of w]
    by simp
qed

lemma parse_fmt_i64 [text_simps, simp]: "str_parse_i64 (fmt_i64 v) = Inr v"
proof (cases "sint v < 0")
  case True
  let ?m = "nat (- sint v)"
  have m: "?m < 2 ^ 63 + 1"
    using sint_ge[of v] by simp
  have "parse_digits 10 (2 ^ 63 + 1) IntNegOverflow 0 (to_dec ?m) = Inr ?m"
    using parse_digits_value[of "to_dec ?m" 10 0 "2 ^ 63 + 1"] m radix_digits_digits[of 10 ?m]
    by (simp add: to_dec_def digits_value_radix_digits)
  moreover have "- word_of_nat ?m = v"
    using True by (simp add: of_nat_nat)
  ultimately show ?thesis
    using True by (simp add: str_parse_i64_def fmt_i64_def to_dec_def)
next
  case False
  let ?m = "nat (sint v)"
  have m: "?m < 2 ^ 63"
    using sint_lt[of v] by simp
  have digits: "\<forall>c \<in> set (to_dec ?m). is_digit_of 10 c"
    by (simp add: to_dec_def radix_digits_digits)
  then have "CHR ''+'' \<notin> set (to_dec ?m)" "CHR ''-'' \<notin> set (to_dec ?m)"
    using digits_avoid[OF digits] by auto
  moreover have "to_dec ?m \<noteq> []"
    by (simp add: to_dec_def)
  ultimately have "to_dec ?m \<noteq> ''+''" "to_dec ?m \<noteq> ''-''"
      "hd (to_dec ?m) \<noteq> CHR ''+''" "hd (to_dec ?m) \<noteq> CHR ''-''"
    by (auto simp: neq_Nil_conv)
  moreover have "parse_digits 10 (2 ^ 63) IntPosOverflow 0 (to_dec ?m) = Inr ?m"
    using parse_digits_value[OF digits, of 0 "2 ^ 63"] m
    by (simp add: to_dec_def digits_value_radix_digits)
  moreover have "word_of_nat ?m = v"
    using False by (simp add: of_nat_nat)
  ultimately show ?thesis
    using False \<open>to_dec ?m \<noteq> []\<close> by (simp add: str_parse_i64_def fmt_i64_def)
qed

lemma fmt_i64_bytes: "c \<in> set (fmt_i64 v) \<Longrightarrow> c = CHR ''-'' \<or> is_digit_of 10 c"
  using radix_digits_digits[of 10 "nat (- sint v)"] radix_digits_digits[of 10 "nat (sint v)"]
  by (auto simp: fmt_i64_def to_dec_def split: if_splits)

subsection \<open>Splitting and joining\<close>

lemma split_on_nonempty [simp]: "split_on sep s \<noteq> []"
  by (cases s) (auto split: list.splits)

lemma split_on_no_sep: "sep \<notin> set s \<Longrightarrow> split_on sep s = [s]"
  by (induction s) auto

lemma split_on_append: "sep \<notin> set w \<Longrightarrow> split_on sep (w @ sep # s) = w # split_on sep s"
  by (induction w) auto

lemma split_on_join_with [text_simps]:
  "ws \<noteq> [] \<Longrightarrow> \<forall>w \<in> set ws. sep \<notin> set w \<Longrightarrow> split_on sep (join_with sep ws) = ws"
  by (induction sep ws rule: join_with.induct) (auto simp: split_on_no_sep split_on_append)

lemma join_with_split_on [text_simps]: "join_with sep (split_on sep s) = s"
proof (induction s)
  case (Cons c cs)
  obtain w ws where ws: "split_on sep cs = w # ws"
    by (metis neq_Nil_conv split_on_nonempty)
  with Cons show ?case by (cases ws) auto
qed simp

lemma split_on_parts: "w \<in> set (split_on sep s) \<Longrightarrow> sep \<notin> set w"
proof (induction s arbitrary: w)
  case (Cons c cs)
  obtain v vs where "split_on sep cs = v # vs"
    by (metis neq_Nil_conv split_on_nonempty)
  with Cons show ?case by (auto split: if_splits)
qed simp

lemma join_with_Cons: "ws \<noteq> [] \<Longrightarrow> join_with sep (w # ws) = w @ sep # join_with sep ws"
  by (cases ws) auto

lemma join_with_inj:
  assumes "vs \<noteq> []" "ws \<noteq> []" "\<forall>w \<in> set vs. sep \<notin> set w" "\<forall>w \<in> set ws. sep \<notin> set w"
  shows "join_with sep vs = join_with sep ws \<longleftrightarrow> vs = ws"
  using assms by (metis split_on_join_with)

lemma split_once_append: "sep \<notin> set a \<Longrightarrow> split_once sep (a @ sep # b) = Some (a, b)"
  by (induction a) auto

lemma split_once_None: "split_once sep s = None \<longleftrightarrow> sep \<notin> set s"
  by (induction s) (auto split: option.splits)

lemma strip_prefix_append [simp]: "strip_prefix p (p @ s) = Some s"
  by (simp add: strip_prefix_def)

lemma strip_prefix_Some: "strip_prefix p s = Some t \<longleftrightarrow> s = p @ t"
  by (auto simp: strip_prefix_def) (metis append_take_drop_id)

lemma starts_with_iff: "starts_with p s \<longleftrightarrow> (\<exists>t. s = p @ t)"
  by (auto simp: starts_with_def) (metis append_take_drop_id)

lemma trim_end_matches_snoc [simp]: "trim_end_matches c (s @ [c]) = trim_end_matches c s"
  by (simp add: trim_end_matches_def)

lemma trim_end_matches_id: "c \<notin> set s \<Longrightarrow> trim_end_matches c s = s"
  by (cases "rev s") (auto simp: trim_end_matches_def)

lemma trim_end_matches_last: "s \<noteq> [] \<Longrightarrow> last s \<noteq> c \<Longrightarrow> trim_end_matches c s = s"
  by (cases s rule: rev_cases) (auto simp: trim_end_matches_def)

lemma split_inclusive_line: "sep \<notin> set l \<Longrightarrow> split_inclusive sep (l @ sep # s) = (l @ [sep]) # split_inclusive sep s"
  by (induction l) auto

text \<open>A document of lines, each ended by a newline, reads back as its lines.\<close>

lemma str_lines_concat [text_simps]:
  "\<forall>l \<in> set ls. NL \<notin> set l \<and> CR \<notin> set l \<Longrightarrow> str_lines (concat (map (\<lambda>l. l @ [NL]) ls)) = ls"
proof (induction ls)
  case (Cons l ls)
  have "strip_line_end (l @ [NL]) = l"
  proof (cases "l = []")
    case False
    with Cons.prems have "last l \<noteq> CR" by (metis last_in_set list.set_intros(1))
    then show ?thesis by (simp add: strip_line_end_def)
  qed (simp add: strip_line_end_def)
  with Cons show ?case by (simp add: str_lines_def split_inclusive_line)
qed (simp add: str_lines_def)

subsection \<open>UTF-8 of ASCII text\<close>

definition is_ascii :: "string \<Rightarrow> bool" where
  "is_ascii s \<longleftrightarrow> (\<forall>c \<in> set s. (of_char c :: nat) < 128)"

lemma is_ascii_simps [simp]:
  "is_ascii []" "is_ascii (c # s) \<longleftrightarrow> (of_char c :: nat) < 128 \<and> is_ascii s"
  "is_ascii (s @ t) \<longleftrightarrow> is_ascii s \<and> is_ascii t"
  by (auto simp: is_ascii_def)

lemma is_ascii_concat [simp]: "is_ascii (concat ss) \<longleftrightarrow> (\<forall>s \<in> set ss. is_ascii s)"
  by (induction ss) auto

lemma utf8_next_ascii: "(of_char c :: nat) < 128 \<Longrightarrow> utf8_next c cs = Utf8Char 1"
  by (simp add: utf8_next_def)

lemma utf8_error_ascii: "is_ascii s \<Longrightarrow> utf8_error i s = None"
  by (induction s arbitrary: i) (auto simp: utf8_next_ascii)

lemma ascii_utf8_valid [simp, intro]: "is_ascii s \<Longrightarrow> utf8_valid s"
  by (simp add: utf8_valid_def utf8_error_ascii)

lemma from_utf8_valid [simp]: "utf8_valid s \<Longrightarrow> from_utf8 s = Inr s"
  by (simp add: utf8_valid_def from_utf8_def)

lemma from_utf8_Inr: "from_utf8 s = Inr t \<longleftrightarrow> t = s \<and> utf8_valid s"
  by (auto simp: utf8_valid_def from_utf8_def split: option.splits)

lemma from_utf8_lossy_valid_aux: "utf8_error i s = None \<Longrightarrow> from_utf8_lossy s = s"
proof (induction i s rule: utf8_error.induct)
  case (2 i c cs)
  then obtain n where n: "utf8_next c cs = Utf8Char n" "utf8_error (i + n) (drop (n - 1) cs) = None"
    by (auto split: utf8_step.splits)
  have "1 \<le> n"
    using n(1) by (auto simp: utf8_next_def Let_def split: if_splits list.splits)
  with 2 n show ?case by (cases n) auto
qed simp

lemma from_utf8_lossy_valid [simp]: "utf8_valid s \<Longrightarrow> from_utf8_lossy s = s"
  by (auto simp: utf8_valid_def intro: from_utf8_lossy_valid_aux)

lemma digits_ascii: "\<forall>c \<in> set s. is_digit_of b c \<Longrightarrow> b \<le> 16 \<Longrightarrow> is_ascii s"
  using is_digit_of_code by (fastforce simp: is_ascii_def)

lemma fmt_ascii [simp]: "is_ascii (fmt_u64 w)" "is_ascii (fmt_020 w)" "is_ascii (fmt_016x w)"
  using digits_ascii[OF fmt_u64_digits] digits_ascii[OF fmt_020_digits] digits_ascii[OF fmt_016x_digits]
  by simp_all

lemma fmt_i64_ascii [simp]: "is_ascii (fmt_i64 v)"
  using fmt_i64_bytes[of _ v] is_digit_of_code[of 10] by (fastforce simp: is_ascii_def)

subsection \<open>Big-endian round trip\<close>

lemma length_be_bytes [simp]: "length (be_bytes k n) = k"
  by (induction k arbitrary: n) auto

lemma length_to_be_bytes [simp]: "length (to_be_bytes w) = 8"
  by (simp add: to_be_bytes_def)

lemma be_value_be_bytes: "n < 256 ^ k \<Longrightarrow> be_value (be_bytes k n) = n"
proof (induction k arbitrary: n)
  case (Suc k)
  then have "n div 256 < 256 ^ k"
    by (simp add: less_mult_imp_div_less mult.commute)
  with Suc show ?case by (simp add: be_value_def of_char_of take_bit_eq_mod)
qed (simp add: be_value_def)

lemma from_to_be_bytes [simp]: "from_be_bytes (to_be_bytes w) = w"
  using u64_bound[of w] by (simp add: from_be_bytes_def to_be_bytes_def be_value_be_bytes)

lemma be_bytes_be_value: "length bs = k \<Longrightarrow> be_bytes k (be_value bs) = bs"
proof (induction bs arbitrary: k rule: rev_induct)
  case (snoc c bs)
  have "(be_value bs * 256 + of_char c) div 256 = be_value bs"
    "(be_value bs * 256 + of_char c) mod 256 = of_char c"
    by (simp_all add: div_add1_eq)
  with snoc show ?case by (auto simp: be_value_def)
qed simp

lemma be_value_bound: "be_value bs < 256 ^ length bs"
proof (induction bs rule: rev_induct)
  case (snoc c bs)
  have "of_char c < (256 :: nat)" by simp
  then have "be_value bs * 256 + of_char c < (be_value bs + 1) * 256" by simp
  also have "\<dots> \<le> 256 ^ length bs * 256"
    using snoc by (intro mult_le_mono1) simp
  finally show ?case by (simp add: be_value_def mult.commute)
qed (simp add: be_value_def)

lemma to_from_be_bytes: "length bs = 8 \<Longrightarrow> to_be_bytes (from_be_bytes bs) = bs"
  using be_value_bound[of bs]
  by (simp add: to_be_bytes_def from_be_bytes_def unat_of_nat be_bytes_be_value)

end
