(* ===== verification/Graph_Error.thy ===== *)
theory Graph_Error
  imports Rust_Text
begin

text \<open>
  \<^verbatim>\<open>src/core/error.rs\<close>: the error type of every fallible operation of the kernel, its display
  text and its coarse class. The two payloads that come from other crates are kept as what the
  kernel observes of them: the display text of an object store error, and the display text of
  a SlateDB error together with its kind. A \<^verbatim>\<open>Duration\<close> is its
  number of nanoseconds.
\<close>

type_synonym storage_sequence = u64
type_synonym duration = nat

datatype slate_kind = Transaction | Invalid | DatabaseMissing | ClosedFenced | ClosedOther | OtherKind

datatype slate_error = SlateError (slate_text: string) (slate_kind: slate_kind)

datatype graph_error =
    Slate slate_error
  | ObjectStore string
  | ConditionalWriteConflict string string
  | UnsafeDurabilityConfig string string
  | RoutedWriterConfigMismatch string string duration duration
  | InvalidKeyComponent string string
  | CorruptValue string string
  | IdempotencyConflict string string string
  | ControlMetadataConflict string "u64 option" "u64 option"
  | RetryExhausted string nat
  | ControlWatermarkRegression string string storage_sequence storage_sequence
  | SnapshotAhead string storage_sequence storage_sequence
  | UnknownShard string
  | GraphScopeMismatch string string
  | GraphScopeAccessDenied string string string
  | WriteRequiresWriter string string
  | NotCellWriter string "string option"
  | RoutingUnavailable string
  | ReadOnlyShardStorage
  | CellDropped string string
  | SnapshotExpired string string storage_sequence storage_sequence
  | SnapshotChanged string string string storage_sequence storage_sequence
  | QueryStatsSnapshotChanged string string storage_sequence storage_sequence
  | AdmissionRejected string u64 u64
  | SparseKernel string string
  | QueryParse string string
  | MissingQueryParameter string string
  | QueryTimeout string u64 u64
  | UnsupportedQuery string string

type_synonym 'a result = "graph_error + 'a"

text \<open>Debug text of an optional integer and of a duration (the largest unit that is not zero,
  the fraction without trailing zeros).\<close>

fun opt_u64_debug :: "u64 option \<Rightarrow> string" where
  "opt_u64_debug None = ''None''"
| "opt_u64_debug (Some w) = ''Some('' @ fmt_u64 w @ '')''"

definition fraction_text :: "nat \<Rightarrow> nat \<Rightarrow> string" where
  "fraction_text width n =
     (let s = trim_end_matches (CHR ''0'') (pad_left width (to_dec n))
      in if n = 0 then [] else CHR ''.'' # s)"

definition duration_debug :: "duration \<Rightarrow> string" where
  "duration_debug d =
     (if 1000000000 \<le> d then to_dec (d div 1000000000) @ fraction_text 9 (d mod 1000000000) @ ''s''
      else if 1000000 \<le> d then to_dec (d div 1000000) @ fraction_text 6 (d mod 1000000) @ ''ms''
      else if 1000 \<le> d then to_dec (d div 1000) @ fraction_text 3 (d mod 1000) @ [CHR 0xC2, CHR 0xB5] @ ''s''
      else to_dec d @ ''ns'')"

fun graph_error_display :: "graph_error \<Rightarrow> string" where
  "graph_error_display (Slate e) = ''slatedb error: '' @ slate_text e"
| "graph_error_display (ObjectStore e) = ''object store error: '' @ e"
| "graph_error_display (ConditionalWriteConflict operation key) =
     ''conditional graph write conflict for '' @ operation @ '' at '' @ key"
| "graph_error_display (UnsafeDurabilityConfig operation reason) =
     operation @ '' requires await_durable_writes=true: '' @ reason"
| "graph_error_display (RoutedWriterConfigMismatch path node_id existing requested) =
     ''routed writer configuration mismatch for '' @ path @ '' on node '' @ node_id
     @ '': existing fence backoff '' @ duration_debug existing @ '', requested '' @ duration_debug requested"
| "graph_error_display (InvalidKeyComponent component value) =
     ''invalid '' @ component @ '' key component: '' @ value"
| "graph_error_display (CorruptValue key reason) = ''corrupt value at '' @ key @ '': '' @ reason"
| "graph_error_display (IdempotencyConflict operation idempotency_key reason) =
     ''idempotency key conflict for '' @ operation @ '' request key '' @ idempotency_key @ '': '' @ reason"
| "graph_error_display (ControlMetadataConflict key expected_generation actual_generation) =
     ''control metadata conflict at '' @ key @ '': expected generation '' @ opt_u64_debug expected_generation
     @ '', actual generation '' @ opt_u64_debug actual_generation"
| "graph_error_display (RetryExhausted operation attempts) =
     operation @ '' exhausted retry budget after '' @ to_dec attempts @ '' attempts''"
| "graph_error_display (ControlWatermarkRegression cell_id field requested_epoch current_epoch) =
     ''control watermark regression for '' @ field @ '' on cell '' @ cell_id @ '': requested ''
     @ fmt_u64 requested_epoch @ '', current '' @ fmt_u64 current_epoch"
| "graph_error_display (SnapshotAhead cell_id read_epoch current_epoch) =
     ''snapshot epoch '' @ fmt_u64 read_epoch @ '' is ahead of current epoch '' @ fmt_u64 current_epoch
     @ '' for cell '' @ cell_id"
| "graph_error_display (UnknownShard cell_id) =
     ''cell '' @ cell_id @ '' is not present in the node directory''"
| "graph_error_display (GraphScopeMismatch expected actual) =
     ''graph scope mismatch: expected '' @ expected @ '', received '' @ actual"
| "graph_error_display (GraphScopeAccessDenied principal_id action scope) =
     ''principal '' @ principal_id @ '' is not authorized to '' @ action @ '' graph scope '' @ scope"
| "graph_error_display (WriteRequiresWriter operation cell_id) =
     operation @ '' requires the fenced SlateDB writer for cell '' @ cell_id"
| "graph_error_display (NotCellWriter cell_id owner_id) =
     ''cell '' @ cell_id @ '' is not owned by this node; owner: ''
     @ (case owner_id of None \<Rightarrow> ''unknown'' | Some n \<Rightarrow> n)"
| "graph_error_display (RoutingUnavailable reason) =
     ''routing is unavailable on this node: '' @ reason"
| "graph_error_display ReadOnlyShardStorage = ''operation requires writable SlateDB shard storage''"
| "graph_error_display (CellDropped operation cell_id) =
     ''cell '' @ cell_id @ '' has been dropped; '' @ operation @ '' is rejected''"
| "graph_error_display (SnapshotExpired cell_id edge_type read_epoch min_epoch) =
     ''snapshot epoch '' @ fmt_u64 read_epoch @ '' for cell '' @ cell_id @ '' edge '' @ edge_type
     @ '' is below compacted watermark '' @ fmt_u64 min_epoch"
| "graph_error_display (SnapshotChanged operation cell_id edge_type read_epoch current_epoch) =
     operation @ '' snapshot epoch '' @ fmt_u64 read_epoch @ '' for cell '' @ cell_id @ '' edge '' @ edge_type
     @ '' changed while building; current epoch is '' @ fmt_u64 current_epoch"
| "graph_error_display (QueryStatsSnapshotChanged operation cell_id read_epoch current_epoch) =
     operation @ '' stats snapshot epoch '' @ fmt_u64 read_epoch @ '' for cell '' @ cell_id
     @ '' changed while refreshing; current epoch is '' @ fmt_u64 current_epoch"
| "graph_error_display (AdmissionRejected operation actual limit) =
     operation @ '' rejected by admission control: actual '' @ fmt_u64 actual @ '' exceeds limit '' @ fmt_u64 limit"
| "graph_error_display (SparseKernel backend reason) =
     ''sparse kernel '' @ backend @ '' failed: '' @ reason"
| "graph_error_display (QueryParse dialect reason) = dialect @ '' parse error: '' @ reason"
| "graph_error_display (MissingQueryParameter dialect name) =
     ''missing '' @ dialect @ '' query parameter $'' @ name"
| "graph_error_display (QueryTimeout operation elapsed_ms limit_ms) =
     operation @ '' exceeded query timeout after '' @ fmt_u64 elapsed_ms @ '' ms; limit is ''
     @ fmt_u64 limit_ms @ '' ms''"
| "graph_error_display (UnsupportedQuery dialect feature) =
     dialect @ '' query is not supported yet: '' @ feature"

definition classes :: "string list" where
  "classes = [''contention'', ''fencing'', ''routing'', ''freshness'', ''admission'', ''timeout'',
     ''query'', ''authz'', ''corruption'', ''config'', ''storage'', ''kernel'']"

fun class_index :: "graph_error \<Rightarrow> nat" where
  "class_index (ConditionalWriteConflict _ _) = 0"
| "class_index (IdempotencyConflict _ _ _) = 0"
| "class_index (ControlMetadataConflict _ _ _) = 0"
| "class_index (RetryExhausted _ _) = 0"
| "class_index (WriteRequiresWriter _ _) = 1"
| "class_index (CellDropped _ _) = 1"
| "class_index (NotCellWriter _ _) = 2"
| "class_index (UnknownShard _) = 2"
| "class_index (RoutingUnavailable _) = 2"
| "class_index (SnapshotAhead _ _ _) = 3"
| "class_index (SnapshotExpired _ _ _ _) = 3"
| "class_index (SnapshotChanged _ _ _ _ _) = 3"
| "class_index (QueryStatsSnapshotChanged _ _ _ _) = 3"
| "class_index (ControlWatermarkRegression _ _ _ _) = 3"
| "class_index (AdmissionRejected _ _ _) = 4"
| "class_index (QueryTimeout _ _ _) = 5"
| "class_index (QueryParse _ _) = 6"
| "class_index (UnsupportedQuery _ _) = 6"
| "class_index (MissingQueryParameter _ _) = 6"
| "class_index (GraphScopeMismatch _ _) = 7"
| "class_index (GraphScopeAccessDenied _ _ _) = 7"
| "class_index (CorruptValue _ _) = 8"
| "class_index (InvalidKeyComponent _ _) = 8"
| "class_index (UnsafeDurabilityConfig _ _) = 9"
| "class_index (RoutedWriterConfigMismatch _ _ _ _) = 9"
| "class_index ReadOnlyShardStorage = 9"
| "class_index (Slate e) = (if slate_kind e = ClosedFenced then 1 else 10)"
| "class_index (ObjectStore _) = 10"
| "class_index (SparseKernel _ _) = 11"

definition error_class :: "graph_error \<Rightarrow> string" where
  "error_class e = classes ! class_index e"

lemma class_index_bound: "class_index e < length classes"
  by (cases e) (auto simp: classes_def)

lemma distinct_classes: "distinct classes"
  by (simp add: classes_def)

lemma error_class_eq_iff: "error_class e = error_class f \<longleftrightarrow> class_index e = class_index f"
  by (simp add: error_class_def nth_eq_iff_index_eq distinct_classes class_index_bound)

end
