(* ===== verification/Rust_BTree.thy ===== *)
theory Rust_BTree
  imports Rust_Prelude
begin

text \<open>
  The standard library's ordered containers. A \<^verbatim>\<open>BTreeMap\<close> is the list of its entries in key
  order and a \<^verbatim>\<open>BTreeSet\<close> the list of its elements in order: the sources iterate over both when
  they encode, hash or merge, so the order has to be part of the value. \<open>bt_ok\<close> and \<open>bs_ok\<close> are
  the representation invariants; on representations that satisfy them, equal contents mean
  equal lists (\<open>bt_ext\<close>, \<open>bs_ext\<close>), which is the equality of the Rust types.

  The locale \<open>ordered_map\<close> states the contract a client relies on, and its lemmas on bulk
  insertion (\<^verbatim>\<open>extend\<close>) are proved from the contract alone.
\<close>

type_synonym ('k, 'v) btmap = "('k \<times> 'v) list"
type_synonym 'k btset = "'k list"

fun bt_insert :: "'k::linorder \<Rightarrow> 'v \<Rightarrow> ('k, 'v) btmap \<Rightarrow> ('k, 'v) btmap" where
  "bt_insert k v [] = [(k, v)]"
| "bt_insert k v (p # ps) =
     (if fst p < k then p # bt_insert k v ps
      else if fst p = k then (k, v) # ps
      else (k, v) # p # ps)"

definition bt_get :: "('k, 'v) btmap \<Rightarrow> 'k \<Rightarrow> 'v option" where
  "bt_get m k = map_of m k"

definition bt_remove :: "'k \<Rightarrow> ('k, 'v) btmap \<Rightarrow> ('k, 'v) btmap" where
  "bt_remove k m = filter (\<lambda>p. fst p \<noteq> k) m"

definition bt_ok :: "('k::linorder, 'v) btmap \<Rightarrow> bool" where
  "bt_ok m \<longleftrightarrow> sorted_wrt (<) (map fst m)"

definition bt_extend :: "('k::linorder, 'v) btmap \<Rightarrow> ('k \<times> 'v) list \<Rightarrow> ('k, 'v) btmap" where
  "bt_extend m es = fold (\<lambda>(k, v). bt_insert k v) es m"

fun bs_insert :: "'k::linorder \<Rightarrow> 'k btset \<Rightarrow> 'k btset" where
  "bs_insert x [] = [x]"
| "bs_insert x (y # ys) = (if y < x then y # bs_insert x ys else if y = x then y # ys else x # y # ys)"

definition bs_ok :: "'k::linorder btset \<Rightarrow> bool" where
  "bs_ok s \<longleftrightarrow> sorted_wrt (<) s"

definition bs_extend :: "'k::linorder btset \<Rightarrow> 'k list \<Rightarrow> 'k btset" where
  "bs_extend s xs = fold bs_insert xs s"

subsection \<open>Maps\<close>

lemma bt_insert_keys: "fst ` set (bt_insert k v m) = insert k (fst ` set m)"
  by (induction m) auto

lemma set_bt_insert: "set (bt_insert k v m) \<subseteq> insert (k, v) (set m)"
  by (induction m) auto

lemma bt_ok_Nil [simp]: "bt_ok []"
  by (simp add: bt_ok_def)

lemma bt_ok_Cons: "bt_ok (p # ps) \<longleftrightarrow> (\<forall>q \<in> set ps. fst p < fst q) \<and> bt_ok ps"
  by (auto simp: bt_ok_def)

lemma bt_ok_append:
  "bt_ok (xs @ ys) \<longleftrightarrow> bt_ok xs \<and> bt_ok ys \<and> (\<forall>p \<in> set xs. \<forall>q \<in> set ys. fst p < fst q)"
  by (induction xs) (auto simp: bt_ok_Cons)

lemma bt_ok_distinct: "bt_ok m \<Longrightarrow> distinct (map fst m)"
  by (induction m) (auto simp: bt_ok_Cons)

lemma bt_ok_insert [simp]: "bt_ok m \<Longrightarrow> bt_ok (bt_insert k v m)"
proof (induction m)
  case (Cons p ps)
  have "\<forall>q \<in> set (bt_insert k v ps). fst p < fst q" if "fst p < k"
    using Cons.prems that bt_insert_keys[of k v ps] by (fastforce simp: bt_ok_Cons)
  with Cons show ?case by (auto simp: bt_ok_Cons)
qed (simp add: bt_ok_Cons)

lemma bt_ok_remove [simp]: "bt_ok m \<Longrightarrow> bt_ok (bt_remove k m)"
  by (induction m) (auto simp: bt_ok_Cons bt_remove_def)

lemma bt_get_Nil [simp]: "bt_get [] = (\<lambda>_. None)"
  by (simp add: bt_get_def fun_eq_iff)

lemma bt_get_insert: "bt_ok m \<Longrightarrow> bt_get (bt_insert k v m) = (bt_get m)(k := Some v)"
proof (induction m)
  case (Cons p ps)
  have "map_of ps k = None" if "\<not> fst p < k" "fst p \<noteq> k"
  proof -
    have "k \<notin> fst ` set ps"
      using Cons.prems that by (force simp: bt_ok_Cons)
    then show ?thesis by (simp add: map_of_eq_None_iff)
  qed
  with Cons show ?case by (cases p) (auto simp: bt_get_def bt_ok_Cons fun_eq_iff)
qed (simp add: bt_get_def fun_eq_iff)

lemma bt_get_remove: "bt_get (bt_remove k m) = (bt_get m)(k := None)"
  by (induction m) (auto simp: bt_get_def bt_remove_def fun_eq_iff)

lemma bt_get_Some_iff: "bt_ok m \<Longrightarrow> bt_get m k = Some v \<longleftrightarrow> (k, v) \<in> set m"
  by (simp add: bt_get_def bt_ok_distinct)

lemma bt_get_None_iff: "bt_get m k = None \<longleftrightarrow> k \<notin> fst ` set m"
  by (simp add: bt_get_def map_of_eq_None_iff)

lemma bt_insert_snoc:
  "\<forall>q \<in> set m. fst q < k \<Longrightarrow> bt_insert k v m = m @ [(k, v)]"
  by (induction m) auto

lemma bt_extend_rebuild:
  "bt_ok (m @ es) \<Longrightarrow> bt_extend m es = m @ es"
proof (induction es arbitrary: m)
  case Nil
  then show ?case by (simp add: bt_extend_def)
next
  case (Cons e es)
  then have "bt_insert (fst e) (snd e) m = m @ [e]"
    by (intro bt_insert_snoc[THEN trans]) (auto simp: bt_ok_append)
  with Cons.IH[of "m @ [e]"] Cons.prems show ?case
    by (simp add: bt_extend_def case_prod_beta)
qed

lemma bt_ok_extend: "bt_ok m \<Longrightarrow> bt_ok (bt_extend m es)"
  by (induction es arbitrary: m) (auto simp: bt_extend_def)

lemma bt_ext:
  "bt_ok m \<Longrightarrow> bt_ok n \<Longrightarrow> bt_get m = bt_get n \<Longrightarrow> m = n"
proof (rule map_sorted_distinct_set_unique[where f = fst])
  assume ok: "bt_ok m" "bt_ok n" and eq: "bt_get m = bt_get n"
  show "sorted (map fst m)" "sorted (map fst n)"
    using ok by (auto simp: bt_ok_def intro: strict_sorted_imp_sorted)
  show "distinct (map fst m)" "distinct (map fst n)"
    using ok by (auto intro: bt_ok_distinct)
  show sets: "set m = set n"
    using ok eq by (auto simp: bt_get_Some_iff[symmetric])
  show "inj_on fst (set m \<union> set n)"
    using sets bt_ok_distinct[OF ok(2)] by (simp add: distinct_map)
qed

subsection \<open>Sets\<close>

lemma bs_ok_Nil [simp]: "bs_ok []"
  by (simp add: bs_ok_def)

lemma bs_ok_Cons: "bs_ok (x # xs) \<longleftrightarrow> (\<forall>y \<in> set xs. x < y) \<and> bs_ok xs"
  by (simp add: bs_ok_def)

lemma bs_ok_append:
  "bs_ok (xs @ ys) \<longleftrightarrow> bs_ok xs \<and> bs_ok ys \<and> (\<forall>x \<in> set xs. \<forall>y \<in> set ys. x < y)"
  by (auto simp: bs_ok_def sorted_wrt_append)

lemma set_bs_insert [simp]: "set (bs_insert x s) = insert x (set s)"
  by (induction s) auto

lemma bs_ok_insert [simp]: "bs_ok s \<Longrightarrow> bs_ok (bs_insert x s)"
  by (induction s) (auto simp: bs_ok_Cons)

lemma bs_ok_distinct: "bs_ok s \<Longrightarrow> distinct s"
  by (simp add: bs_ok_def strict_sorted_iff)

lemma bs_ext: "bs_ok s \<Longrightarrow> bs_ok t \<Longrightarrow> set s = set t \<Longrightarrow> s = t"
  unfolding bs_ok_def by (metis strict_sorted_equal)

lemma bs_insert_snoc: "\<forall>y \<in> set s. y < x \<Longrightarrow> bs_insert x s = s @ [x]"
  by (induction s) auto

lemma set_bs_extend [simp]: "set (bs_extend s xs) = set s \<union> set xs"
  by (induction xs arbitrary: s) (auto simp: bs_extend_def)

lemma bs_ok_extend: "bs_ok s \<Longrightarrow> bs_ok (bs_extend s xs)"
  by (induction xs arbitrary: s) (auto simp: bs_extend_def)

lemma bs_extend_rebuild: "bs_ok (s @ xs) \<Longrightarrow> bs_extend s xs = s @ xs"
proof (induction xs arbitrary: s)
  case (Cons x xs)
  then have "bs_insert x s = s @ [x]"
    by (intro bs_insert_snoc) (auto simp: bs_ok_append)
  with Cons.IH[of "s @ [x]"] Cons.prems show ?case by (simp add: bs_extend_def)
qed (simp add: bs_extend_def)

subsection \<open>The contract of an ordered map\<close>

locale ordered_map =
  fixes empty :: 'm
    and insert :: "'k \<Rightarrow> 'v \<Rightarrow> 'm \<Rightarrow> 'm"
    and remove :: "'k \<Rightarrow> 'm \<Rightarrow> 'm"
    and lookup :: "'m \<Rightarrow> 'k \<Rightarrow> 'v option"
    and invar :: "'m \<Rightarrow> bool"
  assumes invar_empty: "invar empty"
    and invar_insert: "invar m \<Longrightarrow> invar (insert k v m)"
    and invar_remove: "invar m \<Longrightarrow> invar (remove k m)"
    and lookup_empty: "lookup empty k = None"
    and lookup_insert: "invar m \<Longrightarrow> lookup (insert k v m) j = (if j = k then Some v else lookup m j)"
    and lookup_remove: "invar m \<Longrightarrow> lookup (remove k m) j = (if j = k then None else lookup m j)"
    and lookup_inject: "invar m \<Longrightarrow> invar n \<Longrightarrow> (\<And>k. lookup m k = lookup n k) \<Longrightarrow> m = n"
begin

lemma invar_fold_insert: "invar m \<Longrightarrow> invar (fold (\<lambda>(k, v). insert k v) es m)"
  by (induction es arbitrary: m) (auto simp: invar_insert)

lemma lookup_fold_insert:
  "invar m \<Longrightarrow> lookup (fold (\<lambda>(k, v). insert k v) es m) j =
     (case map_of (rev es) j of Some v \<Rightarrow> Some v | None \<Rightarrow> lookup m j)"
proof (induction es arbitrary: m)
  case (Cons e es)
  obtain k v where e: "e = (k, v)" by (cases e)
  show ?case
    using Cons.IH[of "insert k v m"] Cons.prems
    by (auto simp: e invar_insert lookup_insert map_add_def split: option.splits)
qed simp

lemma insert_remove: "invar m \<Longrightarrow> insert k v (remove k m) = insert k v m"
  by (rule lookup_inject) (auto simp: invar_insert invar_remove lookup_insert lookup_remove)

lemma insert_commute:
  "invar m \<Longrightarrow> j \<noteq> k \<Longrightarrow> insert j u (insert k v m) = insert k v (insert j u m)"
  by (rule lookup_inject) (auto simp: invar_insert lookup_insert)

lemma insert_same: "invar m \<Longrightarrow> lookup m k = Some v \<Longrightarrow> insert k v m = m"
  by (rule lookup_inject) (auto simp: invar_insert lookup_insert)

end

interpretation bt: ordered_map "[]" bt_insert bt_remove bt_get bt_ok
proof unfold_locales
  fix m n :: "('k::linorder \<times> 'v) list"
  assume "bt_ok m" "bt_ok n" "\<And>k. bt_get m k = bt_get n k"
  then show "m = n" by (intro bt_ext) auto
qed (auto simp: bt_get_insert bt_get_remove)

lemma map_of_rev_distinct: "distinct (map fst xs) \<Longrightarrow> map_of (rev xs) k = map_of xs k"
proof (induction xs)
  case (Cons x xs)
  then have "map_of (rev xs) (fst x) = None" by (simp add: map_of_eq_None_iff)
  with Cons show ?case by (cases x) (auto simp: map_add_def split: option.splits)
qed simp

lemma bt_get_extend:
  assumes "bt_ok m" and "bt_ok es"
  shows "bt_get (bt_extend m es) k = (case bt_get es k of Some v \<Rightarrow> Some v | None \<Rightarrow> bt_get m k)"
proof -
  have "map_of (rev es) k = bt_get es k"
    using bt_ok_distinct[OF assms(2)] by (simp add: bt_get_def map_of_rev_distinct)
  then show ?thesis
    using bt.lookup_fold_insert[OF assms(1), of es k] by (simp add: bt_extend_def)
qed

lemma bt_extend_idem: "bt_ok m \<Longrightarrow> bt_ok es \<Longrightarrow> bt_extend (bt_extend m es) es = bt_extend m es"
  by (rule bt_ext) (auto simp: bt_ok_extend bt_get_extend fun_eq_iff split: option.splits)

end
