(* ===== verification/Graph_Model.thy ===== *)
theory Graph_Model
  imports Graph_Error Rust_BTree
begin

text \<open>
  \<^verbatim>\<open>src/core/model.rs\<close>: the data of the graph store. Vertices and edges carry property maps;
  mutations name an edge and an idempotency key; every operation returns a small result record.
  A float is its 64 bits, as \<^verbatim>\<open>QueryFloat\<close> compares and stores it. Field names carry a prefix,
  because the records share names such as \<^verbatim>\<open>cell_id\<close>.
\<close>

type_synonym vertex_id = u64
type_synonym relationship_id = u64
type_synonym query_float = u64

datatype vertex_property_value =
    VInteger u64
  | VSignedInteger i64
  | VBool bool
  | VFloat query_float
  | VString string

type_synonym properties = "(string, vertex_property_value) btmap"

text \<open>\<^verbatim>\<open>QueryFloat\<close>'s order is \<^verbatim>\<open>f64::total_cmp\<close>: flip the low 63 bits of negative numbers and compare
  as signed integers.\<close>

definition total_cmp_key :: "query_float \<Rightarrow> int" where
  "total_cmp_key bits = sint (if bit bits 63 then xor bits (mask 63) else bits)"

definition query_float_less :: "query_float \<Rightarrow> query_float \<Rightarrow> bool" where
  "query_float_less a b \<longleftrightarrow> total_cmp_key a < total_cmp_key b"

definition from_i64 :: "i64 \<Rightarrow> vertex_property_value" where
  "from_i64 value = (if 0 \<le> sint value then VInteger value else VSignedInteger value)"

record vertex_metadata =
  vm_labels :: "string btset"
  vm_properties :: properties

record edge_metadata =
  ed_properties :: properties

definition vertex_metadata_default :: vertex_metadata where
  "vertex_metadata_default = \<lparr>vm_labels = [], vm_properties = []\<rparr>"

definition edge_metadata_default :: edge_metadata where
  "edge_metadata_default = \<lparr>ed_properties = []\<rparr>"

definition edge_with_property :: "edge_metadata \<Rightarrow> string \<Rightarrow> vertex_property_value \<Rightarrow> edge_metadata" where
  "edge_with_property self name value = self\<lparr>ed_properties := bt_insert name value (ed_properties self)\<rparr>"

definition vertex_with_label :: "vertex_metadata \<Rightarrow> string \<Rightarrow> vertex_metadata" where
  "vertex_with_label self label = self\<lparr>vm_labels := bs_insert label (vm_labels self)\<rparr>"

definition vertex_with_property ::
    "vertex_metadata \<Rightarrow> string \<Rightarrow> vertex_property_value \<Rightarrow> vertex_metadata" where
  "vertex_with_property self name value =
     self\<lparr>vm_properties := bt_insert name value (vm_properties self)\<rparr>"

record edge_mutation =
  em_cell_id :: string
  em_edge_type :: string
  em_src :: vertex_id
  em_dst :: vertex_id
  em_idempotency_key :: string

record edge_record =
  er_cell_id :: string
  er_edge_type :: string
  er_src :: vertex_id
  er_dst :: vertex_id

record relationship_mutation =
  rm_cell_id :: string
  rm_edge_type :: string
  rm_src :: vertex_id
  rm_dst :: vertex_id
  rm_relationship_id :: relationship_id
  rm_metadata :: edge_metadata

record relationship_record =
  rr_cell_id :: string
  rr_edge_type :: string
  rr_src :: vertex_id
  rr_dst :: vertex_id
  rr_relationship_id :: relationship_id
  rr_metadata :: edge_metadata

record relationship_create_result =
  rc_epoch :: storage_sequence
  rc_relationship_id :: relationship_id
  rc_structural_edge_inserted :: bool
  rc_already_created :: bool

record out_edge_segment =
  os_cell_id :: string
  os_edge_type :: string
  os_src :: vertex_id
  os_storage_sequence :: storage_sequence
  os_destinations :: "vertex_id list"

record commit_result =
  cr_epoch :: storage_sequence
  cr_already_existed :: bool

record delete_result =
  dr_epoch :: storage_sequence
  dr_deleted :: bool

record vertex_delete_result =
  vd_epoch :: storage_sequence
  vd_vertex_deleted :: bool
  vd_incident_edges_deleted :: u64
  vd_relationships_deleted :: u64

record graph_cell_drop_result =
  cd_marker_epoch :: storage_sequence
  cd_deleted_keys :: u64
  cd_batches :: u64
  cd_already_dropped :: bool

record segment_compaction_result =
  sc_compacted_through_epoch :: storage_sequence
  sc_source_segments :: u64
  sc_deleted_segment_keys :: u64
  sc_deleted_tombstone_keys :: u64
  sc_input_edges :: u64
  sc_output_edges :: u64

record bulk_import_result =
  bi_start_epoch :: storage_sequence
  bi_end_epoch :: storage_sequence
  bi_inserted :: u64
  bi_already_existed :: u64

record relationship_import_result =
  ri_start_epoch :: storage_sequence
  ri_end_epoch :: storage_sequence
  ri_relationships_inserted :: u64
  ri_relationships_already_existed :: u64
  ri_structural_edges_inserted :: u64
  ri_structural_edges_already_existed :: u64

record edge_mutation_batch_result =
  mb_start_epoch :: storage_sequence
  mb_end_epoch :: storage_sequence
  mb_inserted :: u64
  mb_already_existed :: u64
  mb_results :: "commit_result list"

record query_stats_record =
  qs_count :: u64
  qs_read_epoch :: storage_sequence
  qs_refreshed_at_ms :: u64
  qs_distinct_values :: u64
  qs_total_values :: u64
  qs_most_common_count :: u64

definition point_count :: "u64 \<Rightarrow> storage_sequence \<Rightarrow> u64 \<Rightarrow> query_stats_record" where
  "point_count count read_epoch refreshed_at_ms =
     \<lparr>qs_count = count, qs_read_epoch = read_epoch, qs_refreshed_at_ms = refreshed_at_ms,
      qs_distinct_values = 1, qs_total_values = count, qs_most_common_count = count\<rparr>"

text \<open>The type invariants of the Rust values: ordered containers are in order, strings are UTF-8.
  \<open>normal_value\<close> holds of the values that \<^verbatim>\<open>from_i64\<close> and the decoders produce: a signed integer
  is negative, since a non-negative one is stored as an unsigned integer.\<close>

fun wf_value :: "vertex_property_value \<Rightarrow> bool" where
  "wf_value (VString s) \<longleftrightarrow> utf8_valid s"
| "wf_value _ \<longleftrightarrow> True"

fun normal_value :: "vertex_property_value \<Rightarrow> bool" where
  "normal_value (VSignedInteger v) \<longleftrightarrow> sint v < 0"
| "normal_value _ \<longleftrightarrow> True"

lemma from_i64_normal: "normal_value (from_i64 v)"
  by (simp add: from_i64_def)

lemma from_i64_signed: "sint v < 0 \<Longrightarrow> from_i64 v = VSignedInteger v"
  by (simp add: from_i64_def)

lemma vm_default_simps [simp]:
  "vm_labels vertex_metadata_default = []" "vm_properties vertex_metadata_default = []"
  "ed_properties edge_metadata_default = []"
  by (simp_all add: vertex_metadata_default_def edge_metadata_default_def)

end
