(* ===== verification/Codec_Basic.thy ===== *)
theory Codec_Basic
  imports Graph_Model
begin

text \<open>
  The leaf functions of \<^verbatim>\<open>src/codec.rs\<close>: validation of key components, fixed-width integers, the
  field parsers shared by every record decoder, admission limits, and the validation of a
  batch of edge mutations. \<open>valid_component\<close> is the specification of \<^verbatim>\<open>validate_component\<close>; its
  consequences (no separator, no control byte, ASCII) are what the key and record formats need.
\<close>

definition component_byte :: "char \<Rightarrow> bool" where
  "component_byte c \<longleftrightarrow>
     (let n = of_char c :: nat in
      (48 \<le> n \<and> n \<le> 57) \<or> (65 \<le> n \<and> n \<le> 90) \<or> (97 \<le> n \<and> n \<le> 122)
      \<or> c = CHR ''_'' \<or> c = CHR ''-'' \<or> c = CHR ''.'')"

definition validate_component :: "string \<Rightarrow> string \<Rightarrow> unit result" where
  "validate_component component value =
     (if value = [] \<or> \<not> list_all component_byte value
      then Inl (InvalidKeyComponent component value) else Inr ())"

definition encode_u64 :: "u64 \<Rightarrow> bytes" where
  "encode_u64 value = to_be_bytes value"

definition decode_u64 :: "string \<Rightarrow> bytes \<Rightarrow> u64 result" where
  "decode_u64 key value =
     (if length value = 8 then Inr (from_be_bytes value)
      else Inl (CorruptValue key (''expected 8 bytes, got '' @ to_dec (length value))))"

definition parse_u64 :: "string \<Rightarrow> string \<Rightarrow> string \<Rightarrow> u64 result" where
  "parse_u64 key value field =
     map_err (\<lambda>err. CorruptValue key (''invalid '' @ field @ '': '' @ int_error_display err))
       (str_parse_u64 value)"

definition parse_bool_u8 :: "string \<Rightarrow> string \<Rightarrow> string \<Rightarrow> bool result" where
  "parse_bool_u8 key value field =
     (if value = ''0'' then Inr False
      else if value = ''1'' then Inr True
      else Inl (CorruptValue key (''invalid '' @ field @ '': expected 0 or 1'')))"

definition decode_bool_flag :: "string \<Rightarrow> string \<Rightarrow> string \<Rightarrow> bool result" where
  "decode_bool_flag key value field =
     (if value = ''0'' then Inr False
      else if value = ''1'' then Inr True
      else Inl (CorruptValue key (''invalid '' @ field @ '' flag '' @ value)))"

definition fmt_bool_u8 :: "bool \<Rightarrow> string" where
  "fmt_bool_u8 b = (if b then ''1'' else ''0'')"

definition ensure_limit :: "string \<Rightarrow> u64 \<Rightarrow> u64 \<Rightarrow> unit result" where
  "ensure_limit operation actual limit =
     (if limit < actual then Inl (AdmissionRejected operation actual limit) else Inr ())"

fun validate_edge_mutations_loop ::
    "string \<Rightarrow> string \<Rightarrow> edge_mutation list \<Rightarrow> string btset \<Rightarrow> unit result" where
  "validate_edge_mutations_loop cell_id operation [] idempotency_keys = Inr ()"
| "validate_edge_mutations_loop cell_id operation (m # ms) idempotency_keys =
     rbind (validate_component ''cell_id'' (em_cell_id m)) (\<lambda>_.
     rbind (validate_component ''edge_type'' (em_edge_type m)) (\<lambda>_.
     rbind (validate_component ''idempotency_key'' (em_idempotency_key m)) (\<lambda>_.
       if em_cell_id m \<noteq> cell_id then
         Inl (CorruptValue (''cell/'' @ cell_id @ ''/'' @ operation)
                (''batch contains mutation for different cell '' @ em_cell_id m))
       else if em_idempotency_key m \<in> set idempotency_keys then
         Inl (IdempotencyConflict ''create'' (em_idempotency_key m)
                ''the same key appears twice in one batch'')
       else validate_edge_mutations_loop cell_id operation ms
              (bs_insert (em_idempotency_key m) idempotency_keys))))"

definition validate_edge_mutations_for_cell ::
    "string \<Rightarrow> edge_mutation list \<Rightarrow> string \<Rightarrow> unit result" where
  "validate_edge_mutations_for_cell cell_id mutations operation =
     validate_edge_mutations_loop cell_id operation mutations []"

definition valid_component :: "string \<Rightarrow> bool" where
  "valid_component s \<longleftrightarrow> s \<noteq> [] \<and> (\<forall>c \<in> set s. component_byte c)"

subsection \<open>Components\<close>

lemma validate_component_iff: "validate_component name s = Inr u \<longleftrightarrow> valid_component s"
  by (auto simp: validate_component_def valid_component_def list_all_iff)

lemma validate_component_ok [simp]: "valid_component s \<Longrightarrow> validate_component name s = Inr ()"
  by (simp add: validate_component_iff)

lemma validate_component_err [simp]:
  "\<not> valid_component s \<Longrightarrow> validate_component name s = Inl (InvalidKeyComponent name s)"
  by (auto simp: validate_component_def valid_component_def list_all_iff)

lemma component_byte_code:
  "component_byte c \<Longrightarrow> (of_char c :: nat) < 128 \<and> c \<noteq> SLASH \<and> c \<noteq> TAB \<and> c \<noteq> NL \<and> c \<noteq> CR \<and> c \<noteq> NUL
     \<and> c \<noteq> CHR '':''"
  by (auto simp: component_byte_def Let_def)

lemma valid_component_avoids:
  assumes "valid_component s"
  shows "SLASH \<notin> set s" "TAB \<notin> set s" "NL \<notin> set s" "CR \<notin> set s" "NUL \<notin> set s" "CHR '':'' \<notin> set s"
  using assms component_byte_code by (auto simp: valid_component_def)

lemma valid_component_ascii [simp]: "valid_component s \<Longrightarrow> is_ascii s"
  using component_byte_code by (auto simp: valid_component_def is_ascii_def)

lemma valid_component_nonempty: "valid_component s \<Longrightarrow> s \<noteq> []"
  by (simp add: valid_component_def)

lemma digit_component_byte: "is_digit_of b c \<Longrightarrow> b \<le> 16 \<Longrightarrow> component_byte c"
  using is_digit_of_code[of b c] by (auto simp: component_byte_def Let_def)

lemma fmt_020_component [simp]: "valid_component (fmt_020 w)"
proof -
  have "fmt_020 w \<noteq> []" using length_fmt_020[of w] by (metis length_0_conv zero_neq_numeral)
  then show ?thesis
    using fmt_020_digits[of w] digit_component_byte[of 10] by (auto simp: valid_component_def)
qed

lemma fmt_u64_component [simp]: "valid_component (fmt_u64 w)"
  using fmt_u64_digits[of w] digit_component_byte[of 10] by (auto simp: valid_component_def)

lemma fmt_bool_component [simp]: "valid_component (fmt_bool_u8 b)"
  by (cases b) (auto simp: fmt_bool_u8_def valid_component_def component_byte_def)

subsection \<open>Integers and flags\<close>

lemma decode_encode_u64 [codec_simps, simp]: "decode_u64 key (encode_u64 w) = Inr w"
  by (simp add: decode_u64_def encode_u64_def)

lemma decode_u64_Inr: "decode_u64 key bs = Inr w \<longleftrightarrow> bs = encode_u64 w"
  using to_from_be_bytes[of bs] by (auto simp: decode_u64_def encode_u64_def split: if_splits)

lemma length_encode_u64 [simp]: "length (encode_u64 w) = 8"
  by (simp add: encode_u64_def)

lemma encode_u64_inj [simp]: "encode_u64 v = encode_u64 w \<longleftrightarrow> v = w"
  by (metis decode_encode_u64 sum.inject(2))

lemma parse_u64_fmt [codec_simps, simp]:
  "parse_u64 key (fmt_u64 w) field = Inr w" "parse_u64 key (fmt_020 w) field = Inr w"
  by (simp_all add: parse_u64_def)

lemma parse_bool_fmt [codec_simps, simp]:
  "parse_bool_u8 key (fmt_bool_u8 b) field = Inr b" "decode_bool_flag key (fmt_bool_u8 b) field = Inr b"
  by (simp_all add: parse_bool_u8_def decode_bool_flag_def fmt_bool_u8_def)

lemma ensure_limit_iff: "ensure_limit op actual limit = Inr u \<longleftrightarrow> actual \<le> limit"
  by (auto simp: ensure_limit_def)

subsection \<open>Batches\<close>

lemma validate_edge_mutations_loop_Cons:
  "validate_edge_mutations_loop cell op (m # ms) seen = Inr () \<longleftrightarrow>
     valid_component (em_cell_id m) \<and> valid_component (em_edge_type m)
     \<and> valid_component (em_idempotency_key m) \<and> em_cell_id m = cell
     \<and> em_idempotency_key m \<notin> set seen
     \<and> validate_edge_mutations_loop cell op ms (bs_insert (em_idempotency_key m) seen) = Inr ()"
  unfolding validate_edge_mutations_loop.simps rbind_Inr_iff validate_component_iff
  by (cases "em_cell_id m = cell"; cases "em_idempotency_key m \<in> set seen") simp_all

lemma validate_edge_mutations_loop_iff:
  "validate_edge_mutations_loop cell op ms seen = Inr () \<longleftrightarrow>
     (\<forall>m \<in> set ms. valid_component (em_cell_id m) \<and> valid_component (em_edge_type m)
        \<and> valid_component (em_idempotency_key m) \<and> em_cell_id m = cell
        \<and> em_idempotency_key m \<notin> set seen)
     \<and> distinct (map em_idempotency_key ms)"
proof (induction ms arbitrary: seen)
  case (Cons m ms)
  show ?case
    unfolding validate_edge_mutations_loop_Cons Cons.IH set_bs_insert list.map distinct.simps set_simps
    by (auto simp del: rbind.simps) (metis image_eqI)
qed simp

end
