(* ===== verification/Graph_Keys.thy ===== *)
theory Graph_Keys
  imports Codec_Basic
begin

text \<open>
  \<^verbatim>\<open>src/keys.rs\<close>: the storage key of every record and the prefix of every scan, one definition
  per function, with the format strings of the source. \<open>graph_key\<close> is the abstract key space: one
  constructor per kind of record. \<open>render\<close> maps an abstract key to its bytes through the source's
  functions, and the lemmas show that the byte layout implements the abstract key space: rendering
  is injective, a prefix scan selects exactly one family, and byte order is the order of the
  numeric fields.
\<close>

definition cell_prefix :: "string \<Rightarrow> string" where
  "cell_prefix cell_id =
     ''cell/'' @ cell_id @ ''/''"

definition cell_drop_marker :: "string \<Rightarrow> string" where
  "cell_drop_marker cell_id =
     ''graph/drop/cell/'' @ cell_id"

definition cell_drop_pending_marker :: "string \<Rightarrow> string" where
  "cell_drop_pending_marker cell_id =
     ''graph/drop/pending/'' @ cell_id"

definition cell_drop_idempotency :: "string \<Rightarrow> string \<Rightarrow> string" where
  "cell_drop_idempotency cell_id idempotency_key =
     ''graph/drop/idem/'' @ cell_id @ ''/'' @ idempotency_key"

definition last_relationship_id :: "string \<Rightarrow> string" where
  "last_relationship_id cell_id =
     ''cell/'' @ cell_id @ ''/meta/last_relationship_id''"

definition matrix_dirty_prefix :: "string \<Rightarrow> string" where
  "matrix_dirty_prefix cell_id =
     ''cell/'' @ cell_id @ ''/meta/matrix_dirty/''"

definition matrix_dirty :: "string \<Rightarrow> string \<Rightarrow> string" where
  "matrix_dirty cell_id edge_type =
     matrix_dirty_prefix cell_id @ edge_type"

definition adjacency_generation :: "string \<Rightarrow> string \<Rightarrow> string" where
  "adjacency_generation cell_id edge_type =
     ''cell/'' @ cell_id @ ''/meta/adjacency_generation/'' @ edge_type"

definition xlog_entry :: "string \<Rightarrow> string \<Rightarrow> u64 \<Rightarrow> u64 \<Rightarrow> u64 \<Rightarrow> string" where
  "xlog_entry cell_id edge_type sequence src dst =
     ''cell/'' @ cell_id @ ''/xlog/'' @ edge_type @ ''/'' @ fmt_020 sequence @ ''/'' @ fmt_020 src @ ''/'' @ fmt_020 dst"

definition xlog_type_prefix :: "string \<Rightarrow> string \<Rightarrow> string" where
  "xlog_type_prefix cell_id edge_type =
     ''cell/'' @ cell_id @ ''/xlog/'' @ edge_type @ ''/''"

definition xlog_low_water :: "string \<Rightarrow> string \<Rightarrow> string" where
  "xlog_low_water cell_id edge_type =
     ''cell/'' @ cell_id @ ''/meta/xlog_low/'' @ edge_type"

definition idempotency :: "string \<Rightarrow> string \<Rightarrow> string \<Rightarrow> string" where
  "idempotency cell_id operation idempotency_key =
     ''cell/'' @ cell_id @ ''/idem/'' @ operation @ ''/'' @ idempotency_key"

definition edge_key :: "string \<Rightarrow> string \<Rightarrow> u64 \<Rightarrow> u64 \<Rightarrow> string" where
  "edge_key cell_id edge_type src dst =
     ''cell/'' @ cell_id @ ''/edge/'' @ edge_type @ ''/'' @ fmt_020 src @ ''/'' @ fmt_020 dst"

definition out_edge :: "string \<Rightarrow> string \<Rightarrow> u64 \<Rightarrow> u64 \<Rightarrow> string" where
  "out_edge cell_id edge_type src dst =
     ''cell/'' @ cell_id @ ''/e/out/'' @ edge_type @ ''/'' @ fmt_020 src @ ''/'' @ fmt_020 dst"

definition in_edge :: "string \<Rightarrow> string \<Rightarrow> u64 \<Rightarrow> u64 \<Rightarrow> string" where
  "in_edge cell_id edge_type dst src =
     ''cell/'' @ cell_id @ ''/e/in/'' @ edge_type @ ''/'' @ fmt_020 dst @ ''/'' @ fmt_020 src"

definition out_edge_type_prefix :: "string \<Rightarrow> string \<Rightarrow> string" where
  "out_edge_type_prefix cell_id edge_type =
     ''cell/'' @ cell_id @ ''/e/out/'' @ edge_type @ ''/''"

definition out_edge_cell_prefix :: "string \<Rightarrow> string" where
  "out_edge_cell_prefix cell_id =
     ''cell/'' @ cell_id @ ''/e/out/''"

definition in_edge_type_prefix :: "string \<Rightarrow> string \<Rightarrow> string" where
  "in_edge_type_prefix cell_id edge_type =
     ''cell/'' @ cell_id @ ''/e/in/'' @ edge_type @ ''/''"

definition out_prefix :: "string \<Rightarrow> string \<Rightarrow> u64 \<Rightarrow> string" where
  "out_prefix cell_id edge_type src =
     ''cell/'' @ cell_id @ ''/e/out/'' @ edge_type @ ''/'' @ fmt_020 src @ ''/''"

definition out_segment :: "string \<Rightarrow> string \<Rightarrow> u64 \<Rightarrow> u64 \<Rightarrow> string \<Rightarrow> string" where
  "out_segment cell_id edge_type src storage_sequence segment_id =
     ''cell/'' @ cell_id @ ''/seg/out/'' @ edge_type @ ''/'' @ fmt_020 src @ ''/'' @ fmt_020 storage_sequence @ ''/'' @ segment_id"

definition out_segment_edge_type_prefix :: "string \<Rightarrow> string \<Rightarrow> string" where
  "out_segment_edge_type_prefix cell_id edge_type =
     ''cell/'' @ cell_id @ ''/seg/out/'' @ edge_type @ ''/''"

definition out_segment_cell_prefix :: "string \<Rightarrow> string" where
  "out_segment_cell_prefix cell_id =
     ''cell/'' @ cell_id @ ''/seg/out/''"

definition out_segment_src_prefix :: "string \<Rightarrow> string \<Rightarrow> u64 \<Rightarrow> string" where
  "out_segment_src_prefix cell_id edge_type src =
     ''cell/'' @ cell_id @ ''/seg/out/'' @ edge_type @ ''/'' @ fmt_020 src @ ''/''"

definition out_segment_tombstone :: "string \<Rightarrow> string \<Rightarrow> u64 \<Rightarrow> u64 \<Rightarrow> string" where
  "out_segment_tombstone cell_id edge_type src dst =
     ''cell/'' @ cell_id @ ''/seg/tomb/out/'' @ edge_type @ ''/'' @ fmt_020 src @ ''/'' @ fmt_020 dst"

definition out_segment_tombstone_edge_type_prefix :: "string \<Rightarrow> string \<Rightarrow> string" where
  "out_segment_tombstone_edge_type_prefix cell_id edge_type =
     ''cell/'' @ cell_id @ ''/seg/tomb/out/'' @ edge_type @ ''/''"

definition out_segment_tombstone_src_prefix :: "string \<Rightarrow> string \<Rightarrow> u64 \<Rightarrow> string" where
  "out_segment_tombstone_src_prefix cell_id edge_type src =
     ''cell/'' @ cell_id @ ''/seg/tomb/out/'' @ edge_type @ ''/'' @ fmt_020 src @ ''/''"

definition in_prefix :: "string \<Rightarrow> string \<Rightarrow> u64 \<Rightarrow> string" where
  "in_prefix cell_id edge_type dst =
     ''cell/'' @ cell_id @ ''/e/in/'' @ edge_type @ ''/'' @ fmt_020 dst @ ''/''"

definition edge_metadata_key :: "string \<Rightarrow> string \<Rightarrow> u64 \<Rightarrow> u64 \<Rightarrow> string" where
  "edge_metadata_key cell_id edge_type src dst =
     ''cell/'' @ cell_id @ ''/emeta/'' @ edge_type @ ''/'' @ fmt_020 src @ ''/'' @ fmt_020 dst"

definition relationship_key :: "string \<Rightarrow> string \<Rightarrow> u64 \<Rightarrow> u64 \<Rightarrow> u64 \<Rightarrow> string" where
  "relationship_key cell_id edge_type src dst relationship_id =
     ''cell/'' @ cell_id @ ''/rel/'' @ edge_type @ ''/'' @ fmt_020 src @ ''/'' @ fmt_020 dst @ ''/'' @ fmt_020 relationship_id"

definition relationship_edge_prefix :: "string \<Rightarrow> string \<Rightarrow> u64 \<Rightarrow> u64 \<Rightarrow> string" where
  "relationship_edge_prefix cell_id edge_type src dst =
     ''cell/'' @ cell_id @ ''/rel/'' @ edge_type @ ''/'' @ fmt_020 src @ ''/'' @ fmt_020 dst @ ''/''"

definition relationship_cell_prefix :: "string \<Rightarrow> string" where
  "relationship_cell_prefix cell_id =
     ''cell/'' @ cell_id @ ''/rel/''"

definition relationship_source_prefix :: "string \<Rightarrow> string \<Rightarrow> u64 \<Rightarrow> string" where
  "relationship_source_prefix cell_id edge_type src =
     ''cell/'' @ cell_id @ ''/rel/'' @ edge_type @ ''/'' @ fmt_020 src @ ''/''"

definition relationship_id_key :: "string \<Rightarrow> u64 \<Rightarrow> string" where
  "relationship_id_key cell_id relationship_id =
     ''cell/'' @ cell_id @ ''/rel_id/'' @ fmt_020 relationship_id"

definition relationship_count :: "string \<Rightarrow> string \<Rightarrow> u64 \<Rightarrow> u64 \<Rightarrow> string" where
  "relationship_count cell_id edge_type src dst =
     ''cell/'' @ cell_id @ ''/rel_count/'' @ edge_type @ ''/'' @ fmt_020 src @ ''/'' @ fmt_020 dst"

definition degree_out_prefix :: "string \<Rightarrow> string \<Rightarrow> string" where
  "degree_out_prefix cell_id edge_type =
     ''cell/'' @ cell_id @ ''/cnt/out/'' @ edge_type @ ''/''"

definition degree_in_prefix :: "string \<Rightarrow> string \<Rightarrow> string" where
  "degree_in_prefix cell_id edge_type =
     ''cell/'' @ cell_id @ ''/cnt/in/'' @ edge_type @ ''/''"

definition degree_out :: "string \<Rightarrow> string \<Rightarrow> u64 \<Rightarrow> string" where
  "degree_out cell_id edge_type src =
     ''cell/'' @ cell_id @ ''/cnt/out/'' @ edge_type @ ''/'' @ fmt_020 src"

definition degree_in :: "string \<Rightarrow> string \<Rightarrow> u64 \<Rightarrow> string" where
  "degree_in cell_id edge_type dst =
     ''cell/'' @ cell_id @ ''/cnt/in/'' @ edge_type @ ''/'' @ fmt_020 dst"

definition vertex_key :: "string \<Rightarrow> u64 \<Rightarrow> string" where
  "vertex_key cell_id vertex_id =
     ''cell/'' @ cell_id @ ''/vertex/'' @ fmt_020 vertex_id"

definition vertex_label :: "string \<Rightarrow> string \<Rightarrow> u64 \<Rightarrow> string" where
  "vertex_label cell_id label vertex_id =
     ''cell/'' @ cell_id @ ''/vlabel/'' @ label @ ''/'' @ fmt_020 vertex_id"

definition vertex_label_prefix :: "string \<Rightarrow> string \<Rightarrow> string" where
  "vertex_label_prefix cell_id label =
     ''cell/'' @ cell_id @ ''/vlabel/'' @ label @ ''/''"

definition vertex_property_index :: "string \<Rightarrow> string \<Rightarrow> string \<Rightarrow> u64 \<Rightarrow> string" where
  "vertex_property_index cell_id property encoded_value vertex_id =
     ''cell/'' @ cell_id @ ''/vprop_idx/'' @ property @ ''/'' @ encoded_value @ ''/'' @ fmt_020 vertex_id"

definition vertex_property_index_prefix :: "string \<Rightarrow> string \<Rightarrow> string \<Rightarrow> string" where
  "vertex_property_index_prefix cell_id property encoded_value =
     ''cell/'' @ cell_id @ ''/vprop_idx/'' @ property @ ''/'' @ encoded_value @ ''/''"

definition vertex_property_index_property_prefix :: "string \<Rightarrow> string \<Rightarrow> string" where
  "vertex_property_index_property_prefix cell_id property =
     ''cell/'' @ cell_id @ ''/vprop_idx/'' @ property @ ''/''"

definition edge_property_index :: "string \<Rightarrow> string \<Rightarrow> string \<Rightarrow> string \<Rightarrow> u64 \<Rightarrow> u64 \<Rightarrow> string" where
  "edge_property_index cell_id edge_type property encoded_value src dst =
     ''cell/'' @ cell_id @ ''/eprop_idx/'' @ edge_type @ ''/'' @ property @ ''/'' @ encoded_value @ ''/'' @ fmt_020 src @ ''/'' @ fmt_020 dst"

definition relationship_property_index :: "string \<Rightarrow> string \<Rightarrow> string \<Rightarrow> string \<Rightarrow> u64 \<Rightarrow> u64 \<Rightarrow> u64 \<Rightarrow> string" where
  "relationship_property_index cell_id edge_type property encoded_value src dst relationship_id =
     ''cell/'' @ cell_id @ ''/rprop_idx/'' @ edge_type @ ''/'' @ property @ ''/'' @ encoded_value @ ''/'' @ fmt_020 src @ ''/'' @ fmt_020 dst @ ''/'' @ fmt_020 relationship_id"

definition relationship_property_index_prefix :: "string \<Rightarrow> string \<Rightarrow> string \<Rightarrow> string \<Rightarrow> string" where
  "relationship_property_index_prefix cell_id edge_type property encoded_value =
     ''cell/'' @ cell_id @ ''/rprop_idx/'' @ edge_type @ ''/'' @ property @ ''/'' @ encoded_value @ ''/''"

definition relationship_property_index_edge_prefix :: "string \<Rightarrow> string \<Rightarrow> string \<Rightarrow> string \<Rightarrow> u64 \<Rightarrow> u64 \<Rightarrow> string" where
  "relationship_property_index_edge_prefix cell_id edge_type property encoded_value src dst =
     ''cell/'' @ cell_id @ ''/rprop_idx/'' @ edge_type @ ''/'' @ property @ ''/'' @ encoded_value @ ''/'' @ fmt_020 src @ ''/'' @ fmt_020 dst @ ''/''"

definition edge_property_index_prefix :: "string \<Rightarrow> string \<Rightarrow> string \<Rightarrow> string \<Rightarrow> string" where
  "edge_property_index_prefix cell_id edge_type property encoded_value =
     ''cell/'' @ cell_id @ ''/eprop_idx/'' @ edge_type @ ''/'' @ property @ ''/'' @ encoded_value @ ''/''"

definition edge_property_index_property_prefix :: "string \<Rightarrow> string \<Rightarrow> string \<Rightarrow> string" where
  "edge_property_index_property_prefix cell_id edge_type property =
     ''cell/'' @ cell_id @ ''/eprop_idx/'' @ edge_type @ ''/'' @ property @ ''/''"

definition query_stats_edge_type :: "string \<Rightarrow> string \<Rightarrow> string" where
  "query_stats_edge_type cell_id edge_type =
     ''cell/'' @ cell_id @ ''/qstats/edge_type/'' @ edge_type"

definition query_stats_vertex_label :: "string \<Rightarrow> string \<Rightarrow> string" where
  "query_stats_vertex_label cell_id label =
     ''cell/'' @ cell_id @ ''/qstats/vlabel/'' @ label"

definition query_stats_vertex_property :: "string \<Rightarrow> string \<Rightarrow> string \<Rightarrow> string" where
  "query_stats_vertex_property cell_id property encoded_value =
     ''cell/'' @ cell_id @ ''/qstats/vprop/'' @ property @ ''/'' @ encoded_value"

definition query_stats_vertex_property_prefix :: "string \<Rightarrow> string \<Rightarrow> string" where
  "query_stats_vertex_property_prefix cell_id property =
     ''cell/'' @ cell_id @ ''/qstats/vprop/'' @ property @ ''/''"

definition query_stats_edge_property :: "string \<Rightarrow> string \<Rightarrow> string \<Rightarrow> string \<Rightarrow> string" where
  "query_stats_edge_property cell_id edge_type property encoded_value =
     ''cell/'' @ cell_id @ ''/qstats/eprop/'' @ edge_type @ ''/'' @ property @ ''/'' @ encoded_value"

definition query_stats_edge_property_prefix :: "string \<Rightarrow> string \<Rightarrow> string \<Rightarrow> string" where
  "query_stats_edge_property_prefix cell_id edge_type property =
     ''cell/'' @ cell_id @ ''/qstats/eprop/'' @ edge_type @ ''/'' @ property @ ''/''"

definition query_stats_vertex_property_histogram :: "string \<Rightarrow> string \<Rightarrow> string" where
  "query_stats_vertex_property_histogram cell_id property =
     ''cell/'' @ cell_id @ ''/qstats/vprop_hist/'' @ property"

definition query_stats_edge_property_histogram :: "string \<Rightarrow> string \<Rightarrow> string \<Rightarrow> string" where
  "query_stats_edge_property_histogram cell_id edge_type property =
     ''cell/'' @ cell_id @ ''/qstats/eprop_hist/'' @ edge_type @ ''/'' @ property"

definition query_stats_record_key :: "string \<Rightarrow> string" where
  "query_stats_record_key count_key =
     count_key @ ''/record''"

lemmas key_defs =
  cell_prefix_def cell_drop_marker_def cell_drop_pending_marker_def cell_drop_idempotency_def
  last_relationship_id_def matrix_dirty_prefix_def matrix_dirty_def adjacency_generation_def
  xlog_entry_def xlog_type_prefix_def xlog_low_water_def idempotency_def edge_key_def
  out_edge_def in_edge_def out_edge_type_prefix_def out_edge_cell_prefix_def
  in_edge_type_prefix_def out_prefix_def out_segment_def out_segment_edge_type_prefix_def
  out_segment_cell_prefix_def out_segment_src_prefix_def out_segment_tombstone_def
  out_segment_tombstone_edge_type_prefix_def out_segment_tombstone_src_prefix_def in_prefix_def
  edge_metadata_key_def relationship_key_def relationship_edge_prefix_def
  relationship_cell_prefix_def relationship_source_prefix_def relationship_id_key_def
  relationship_count_def degree_out_prefix_def degree_in_prefix_def degree_out_def degree_in_def
  vertex_key_def vertex_label_def vertex_label_prefix_def vertex_property_index_def
  vertex_property_index_prefix_def vertex_property_index_property_prefix_def
  edge_property_index_def relationship_property_index_def relationship_property_index_prefix_def
  relationship_property_index_edge_prefix_def edge_property_index_prefix_def
  edge_property_index_property_prefix_def query_stats_edge_type_def query_stats_vertex_label_def
  query_stats_vertex_property_def query_stats_vertex_property_prefix_def
  query_stats_edge_property_def query_stats_edge_property_prefix_def
  query_stats_vertex_property_histogram_def query_stats_edge_property_histogram_def
  query_stats_record_key_def

subsection \<open>The abstract key space\<close>

datatype qstats_key =
    QEdgeType string
  | QVertexLabel string
  | QVertexProperty string string
  | QEdgeProperty string string string
  | QVertexHistogram string
  | QEdgeHistogram string string

datatype graph_key =
    KCellDropMarker string
  | KCellDropPending string
  | KCellDropIdempotency string string
  | KLastRelationshipId string
  | KMatrixDirty string string
  | KAdjacencyGeneration string string
  | KXlogEntry string string u64 u64 u64
  | KXlogLowWater string string
  | KIdempotency string string string
  | KEdge string string u64 u64
  | KOutEdge string string u64 u64
  | KInEdge string string u64 u64
  | KOutSegment string string u64 u64 string
  | KOutTombstone string string u64 u64
  | KEdgeMetadata string string u64 u64
  | KRelationship string string u64 u64 u64
  | KRelationshipId string u64
  | KRelationshipCount string string u64 u64
  | KDegreeOut string string u64
  | KDegreeIn string string u64
  | KVertex string u64
  | KVertexLabel string string u64
  | KVertexProperty string string string u64
  | KEdgeProperty string string string string u64 u64
  | KRelationshipProperty string string string string u64 u64 u64
  | KQueryStats string qstats_key
  | KQueryStatsRecord string qstats_key

fun render_qstats :: "string \<Rightarrow> qstats_key \<Rightarrow> string" where
  "render_qstats c (QEdgeType t) = query_stats_edge_type c t"
| "render_qstats c (QVertexLabel l) = query_stats_vertex_label c l"
| "render_qstats c (QVertexProperty p v) = query_stats_vertex_property c p v"
| "render_qstats c (QEdgeProperty t p v) = query_stats_edge_property c t p v"
| "render_qstats c (QVertexHistogram p) = query_stats_vertex_property_histogram c p"
| "render_qstats c (QEdgeHistogram t p) = query_stats_edge_property_histogram c t p"

fun render :: "graph_key \<Rightarrow> string" where
  "render (KCellDropMarker c) = cell_drop_marker c"
| "render (KCellDropPending c) = cell_drop_pending_marker c"
| "render (KCellDropIdempotency c i) = cell_drop_idempotency c i"
| "render (KLastRelationshipId c) = last_relationship_id c"
| "render (KMatrixDirty c t) = matrix_dirty c t"
| "render (KAdjacencyGeneration c t) = adjacency_generation c t"
| "render (KXlogEntry c t q s d) = xlog_entry c t q s d"
| "render (KXlogLowWater c t) = xlog_low_water c t"
| "render (KIdempotency c oper i) = idempotency c oper i"
| "render (KEdge c t s d) = edge_key c t s d"
| "render (KOutEdge c t s d) = out_edge c t s d"
| "render (KInEdge c t d s) = in_edge c t d s"
| "render (KOutSegment c t s q g) = out_segment c t s q g"
| "render (KOutTombstone c t s d) = out_segment_tombstone c t s d"
| "render (KEdgeMetadata c t s d) = edge_metadata_key c t s d"
| "render (KRelationship c t s d r) = relationship_key c t s d r"
| "render (KRelationshipId c r) = relationship_id_key c r"
| "render (KRelationshipCount c t s d) = relationship_count c t s d"
| "render (KDegreeOut c t s) = degree_out c t s"
| "render (KDegreeIn c t d) = degree_in c t d"
| "render (KVertex c v) = vertex_key c v"
| "render (KVertexLabel c l v) = vertex_label c l v"
| "render (KVertexProperty c p e v) = vertex_property_index c p e v"
| "render (KEdgeProperty c t p e s d) = edge_property_index c t p e s d"
| "render (KRelationshipProperty c t p e s d r) = relationship_property_index c t p e s d r"
| "render (KQueryStats c q) = render_qstats c q"
| "render (KQueryStatsRecord c q) = query_stats_record_key (render_qstats c q)"

text \<open>The same keys as lists of path components.\<close>

fun qstats_parts :: "qstats_key \<Rightarrow> string list" where
  "qstats_parts (QEdgeType t) = [''edge_type'', t]"
| "qstats_parts (QVertexLabel l) = [''vlabel'', l]"
| "qstats_parts (QVertexProperty p v) = [''vprop'', p, v]"
| "qstats_parts (QEdgeProperty t p v) = [''eprop'', t, p, v]"
| "qstats_parts (QVertexHistogram p) = [''vprop_hist'', p]"
| "qstats_parts (QEdgeHistogram t p) = [''eprop_hist'', t, p]"

fun key_parts :: "graph_key \<Rightarrow> string list" where
  "key_parts (KCellDropMarker c) = [''graph'', ''drop'', ''cell'', c]"
| "key_parts (KCellDropPending c) = [''graph'', ''drop'', ''pending'', c]"
| "key_parts (KCellDropIdempotency c i) = [''graph'', ''drop'', ''idem'', c, i]"
| "key_parts (KLastRelationshipId c) = [''cell'', c, ''meta'', ''last_relationship_id'']"
| "key_parts (KMatrixDirty c t) = [''cell'', c, ''meta'', ''matrix_dirty'', t]"
| "key_parts (KAdjacencyGeneration c t) = [''cell'', c, ''meta'', ''adjacency_generation'', t]"
| "key_parts (KXlogEntry c t q s d) = [''cell'', c, ''xlog'', t, fmt_020 q, fmt_020 s, fmt_020 d]"
| "key_parts (KXlogLowWater c t) = [''cell'', c, ''meta'', ''xlog_low'', t]"
| "key_parts (KIdempotency c oper i) = [''cell'', c, ''idem'', oper, i]"
| "key_parts (KEdge c t s d) = [''cell'', c, ''edge'', t, fmt_020 s, fmt_020 d]"
| "key_parts (KOutEdge c t s d) = [''cell'', c, ''e'', ''out'', t, fmt_020 s, fmt_020 d]"
| "key_parts (KInEdge c t d s) = [''cell'', c, ''e'', ''in'', t, fmt_020 d, fmt_020 s]"
| "key_parts (KOutSegment c t s q g) = [''cell'', c, ''seg'', ''out'', t, fmt_020 s, fmt_020 q, g]"
| "key_parts (KOutTombstone c t s d) = [''cell'', c, ''seg'', ''tomb'', ''out'', t, fmt_020 s, fmt_020 d]"
| "key_parts (KEdgeMetadata c t s d) = [''cell'', c, ''emeta'', t, fmt_020 s, fmt_020 d]"
| "key_parts (KRelationship c t s d r) = [''cell'', c, ''rel'', t, fmt_020 s, fmt_020 d, fmt_020 r]"
| "key_parts (KRelationshipId c r) = [''cell'', c, ''rel_id'', fmt_020 r]"
| "key_parts (KRelationshipCount c t s d) = [''cell'', c, ''rel_count'', t, fmt_020 s, fmt_020 d]"
| "key_parts (KDegreeOut c t s) = [''cell'', c, ''cnt'', ''out'', t, fmt_020 s]"
| "key_parts (KDegreeIn c t d) = [''cell'', c, ''cnt'', ''in'', t, fmt_020 d]"
| "key_parts (KVertex c v) = [''cell'', c, ''vertex'', fmt_020 v]"
| "key_parts (KVertexLabel c l v) = [''cell'', c, ''vlabel'', l, fmt_020 v]"
| "key_parts (KVertexProperty c p e v) = [''cell'', c, ''vprop_idx'', p, e, fmt_020 v]"
| "key_parts (KEdgeProperty c t p e s d) = [''cell'', c, ''eprop_idx'', t, p, e, fmt_020 s, fmt_020 d]"
| "key_parts (KRelationshipProperty c t p e s d r) =
     [''cell'', c, ''rprop_idx'', t, p, e, fmt_020 s, fmt_020 d, fmt_020 r]"
| "key_parts (KQueryStats c q) = [''cell'', c, ''qstats''] @ qstats_parts q"
| "key_parts (KQueryStatsRecord c q) = [''cell'', c, ''qstats''] @ qstats_parts q @ [''record'']"

text \<open>A key is valid when its textual components passed \<^verbatim>\<open>validate_component\<close>.\<close>

definition valid_key :: "graph_key \<Rightarrow> bool" where
  "valid_key k \<longleftrightarrow> list_all valid_component (key_parts k)"

text \<open>The cell a key belongs to, as \<^verbatim>\<open>drop_cell\<close> sees it: the drop markers live outside of it.\<close>

fun key_cell :: "graph_key \<Rightarrow> string option" where
  "key_cell (KCellDropMarker c) = None"
| "key_cell (KCellDropPending c) = None"
| "key_cell (KCellDropIdempotency c i) = None"
| "key_cell k = Some (key_parts k ! 1)"

subsection \<open>Rendering\<close>

lemma render_qstats_parts:
  "render_qstats c q = join_with SLASH ([''cell'', c, ''qstats''] @ qstats_parts q)"
  by (cases q) (simp_all add: key_defs)

lemma join_with_snoc: "ws \<noteq> [] \<Longrightarrow> join_with sep (ws @ [w]) = join_with sep ws @ sep # w"
  by (induction sep ws rule: join_with.induct) auto

lemma render_parts: "render k = join_with SLASH (key_parts k)"
proof (cases k)
  case (KQueryStatsRecord c q)
  then show ?thesis
    using join_with_snoc[of "[''cell'', c, ''qstats''] @ qstats_parts q" SLASH "''record''"]
    by (simp add: render_qstats_parts query_stats_record_key_def)
qed (simp_all add: key_defs render_qstats_parts)

lemma key_parts_nonempty [simp]: "key_parts k \<noteq> []"
  by (cases k) simp_all

lemma valid_key_no_slash: "valid_key k \<Longrightarrow> \<forall>w \<in> set (key_parts k). SLASH \<notin> set w"
  using valid_component_avoids(1) by (auto simp: valid_key_def list_all_iff)

lemma split_render: "valid_key k \<Longrightarrow> split_on SLASH (render k) = key_parts k"
  by (simp add: render_parts split_on_join_with valid_key_no_slash)

lemma qstats_parts_inj: "qstats_parts p = qstats_parts q \<longleftrightarrow> p = q"
  by (cases p; cases q) simp_all

lemma qstats_parts_record: "qstats_parts p \<noteq> qstats_parts q @ [''record'']"
  by (cases p; cases q) simp_all

lemma key_parts_inj: "key_parts a = key_parts b \<Longrightarrow> a = b"
  by (cases a; cases b)
    (simp_all add: qstats_parts_inj qstats_parts_record qstats_parts_record[symmetric])

subsection \<open>Prefixes\<close>

text \<open>A path prefix that ends in the separator matches whole components.\<close>

lemma starts_with_join:
  assumes "\<forall>w \<in> set ps. sep \<notin> set w" "\<forall>w \<in> set qs. sep \<notin> set w" "ps \<noteq> []" "qs \<noteq> []"
  shows "starts_with (join_with sep ps @ [sep]) (join_with sep qs) \<longleftrightarrow> (\<exists>rs. rs \<noteq> [] \<and> qs = ps @ rs)"
proof
  assume "\<exists>rs. rs \<noteq> [] \<and> qs = ps @ rs"
  then obtain r rs where qs: "qs = ps @ r # rs" by (metis neq_Nil_conv)
  have "join_with sep (ps @ r # rs) = (join_with sep ps @ [sep]) @ join_with sep (r # rs)"
    using assms(3) by (induction sep ps rule: join_with.induct) (auto simp: join_with_Cons)
  then show "starts_with (join_with sep ps @ [sep]) (join_with sep qs)"
    by (metis qs starts_with_iff)
next
  assume "starts_with (join_with sep ps @ [sep]) (join_with sep qs)"
  then obtain t where t: "join_with sep qs = join_with sep ps @ sep # t"
    by (auto simp: starts_with_iff)
  have "split_on sep (join_with sep ps @ sep # t) = ps @ split_on sep t"
    using assms(1,3) by (induction sep ps rule: join_with.induct) (auto simp: split_on_append)
  then have "qs = ps @ split_on sep t"
    using t assms(2,4) by (metis split_on_join_with)
  then show "\<exists>rs. rs \<noteq> [] \<and> qs = ps @ rs"
    by (metis split_on_nonempty)
qed

lemma prefix_render:
  assumes "valid_key k" "ps \<noteq> []" "\<forall>p \<in> set ps. valid_component p"
  shows "starts_with (join_with SLASH ps @ [SLASH]) (render k) \<longleftrightarrow>
    (\<exists>rs. rs \<noteq> [] \<and> key_parts k = ps @ rs)"
  unfolding render_parts
  using assms by (intro starts_with_join) (auto simp: valid_key_no_slash valid_component_avoids(1))

lemma literal_component:
  "valid_component ''cell''" "valid_component ''e''" "valid_component ''out''" "valid_component ''in''"
  "valid_component ''seg''" "valid_component ''tomb''" "valid_component ''rel''" "valid_component ''xlog''"
  "valid_component ''vlabel''" "valid_component ''cnt''" "valid_component ''vprop_idx''"
  "valid_component ''rprop_idx''" "valid_component ''eprop_idx''"
  by (simp_all add: valid_component_def component_byte_def)

text \<open>Inversion: which keys extend a given path.\<close>

lemma key_parts_cell: "(\<exists>rs. rs \<noteq> [] \<and> key_parts k = [''cell'', c] @ rs) \<longleftrightarrow> key_cell k = Some c"
  by (cases k) auto

lemma key_parts_out: "(\<exists>rs. rs \<noteq> [] \<and> key_parts k = [''cell'', c, ''e'', ''out'', t, fmt_020 s] @ rs)
    \<longleftrightarrow> (\<exists>d. k = KOutEdge c t s d)"
  by (cases k) auto

lemma key_parts_in: "(\<exists>rs. rs \<noteq> [] \<and> key_parts k = [''cell'', c, ''e'', ''in'', t, fmt_020 d] @ rs)
    \<longleftrightarrow> (\<exists>s. k = KInEdge c t d s)"
  by (cases k) auto

lemma key_parts_segment: "(\<exists>rs. rs \<noteq> [] \<and> key_parts k = [''cell'', c, ''seg'', ''out'', t, fmt_020 s] @ rs)
    \<longleftrightarrow> (\<exists>q g. k = KOutSegment c t s q g)"
  by (cases k) auto

lemma key_parts_tombstone:
  "(\<exists>rs. rs \<noteq> [] \<and> key_parts k = [''cell'', c, ''seg'', ''tomb'', ''out'', t, fmt_020 s] @ rs)
    \<longleftrightarrow> (\<exists>d. k = KOutTombstone c t s d)"
  by (cases k) auto

lemma key_parts_relationship:
  "(\<exists>rs. rs \<noteq> [] \<and> key_parts k = [''cell'', c, ''rel'', t, fmt_020 s, fmt_020 d] @ rs)
    \<longleftrightarrow> (\<exists>r. k = KRelationship c t s d r)"
  by (cases k) auto

lemma key_parts_xlog: "(\<exists>rs. rs \<noteq> [] \<and> key_parts k = [''cell'', c, ''xlog'', t] @ rs)
    \<longleftrightarrow> (\<exists>q s d. k = KXlogEntry c t q s d)"
  by (cases k) auto

subsection \<open>Byte order\<close>

lemma list_less_append_same: "(p @ a :: 'a::linorder list) < p @ b \<longleftrightarrow> a < b"
  by (induction p) auto

lemma list_less_append:
  fixes x x' y y' :: "'a::linorder list"
  assumes "length x = length x'"
  shows "x @ y < x' @ y' \<longleftrightarrow> x < x' \<or> (x = x' \<and> y < y')"
  using assms by (induction x x' rule: list_induct2) auto

lemma fmt_020_append_less:
  "fmt_020 a @ x < fmt_020 b @ y \<longleftrightarrow> a < b \<or> (a = b \<and> x < y)"
  by (simp add: list_less_append fmt_020_less)

lemmas render_validity = valid_key_def valid_component_def component_byte_def

subsection \<open>Properties\<close>

text \<open>C26 (render_injective). Two records with validated components never share a storage key:
  rendering an abstract key to bytes is injective over the whole key space, across all record
  families and all cells.\<close>

theorem render_injective:
  assumes "valid_key a" and "valid_key b"
  shows "render a = render b \<longleftrightarrow> a = b"
proof
  assume "render a = render b"
  then have "key_parts a = key_parts b"
    using assms by (metis split_render)
  then show "a = b" by (rule key_parts_inj)
qed simp

theorem render_injective_witness:
  "valid_key (KOutEdge ''c1'' ''KNOWS'' 1 2) \<and> valid_key (KInEdge ''c1'' ''KNOWS'' 1 2)
   \<and> render (KOutEdge ''c1'' ''KNOWS'' 1 2) \<noteq> render (KInEdge ''c1'' ''KNOWS'' 1 2)"
proof -
  have v: "valid_key (KOutEdge ''c1'' ''KNOWS'' 1 2)" "valid_key (KInEdge ''c1'' ''KNOWS'' 1 2)"
    using fmt_020_component[of 1] fmt_020_component[of 2] by (simp_all add: render_validity)
  show ?thesis using v render_injective[OF v] by simp
qed

text \<open>C27 (prefix_scans_exact). The prefixes the store scans with select exactly the records they
  are meant to: among valid keys, those below \<^verbatim>\<open>out_prefix\<close>, \<^verbatim>\<open>in_prefix\<close>, the segment, tombstone,
  relationship and changelog prefixes are exactly the keys of that family with that cell, edge
  type and vertex, and no key of another family, cell, type or vertex.\<close>

theorem prefix_scans_exact:
  assumes "valid_key k" and "valid_component c" and "valid_component t"
  shows "(starts_with (out_prefix c t s) (render k) \<longleftrightarrow> (\<exists>d. k = KOutEdge c t s d))
    \<and> (starts_with (in_prefix c t s) (render k) \<longleftrightarrow> (\<exists>d. k = KInEdge c t s d))
    \<and> (starts_with (out_segment_src_prefix c t s) (render k) \<longleftrightarrow> (\<exists>q g. k = KOutSegment c t s q g))
    \<and> (starts_with (out_segment_tombstone_src_prefix c t s) (render k)
         \<longleftrightarrow> (\<exists>d. k = KOutTombstone c t s d))
    \<and> (starts_with (relationship_edge_prefix c t s d) (render k) \<longleftrightarrow> (\<exists>r. k = KRelationship c t s d r))
    \<and> (starts_with (xlog_type_prefix c t) (render k) \<longleftrightarrow> (\<exists>q x y. k = KXlogEntry c t q x y))"
proof (intro conjI)
  note lits = literal_component and go = prefix_render[OF assms(1)]
  show "starts_with (out_prefix c t s) (render k) \<longleftrightarrow> (\<exists>d. k = KOutEdge c t s d)"
    using go[of "[''cell'', c, ''e'', ''out'', t, fmt_020 s]"] assms(2,3) lits
    by (simp add: out_prefix_def key_parts_out[simplified])
  show "starts_with (in_prefix c t s) (render k) \<longleftrightarrow> (\<exists>d. k = KInEdge c t s d)"
    using go[of "[''cell'', c, ''e'', ''in'', t, fmt_020 s]"] assms(2,3) lits
    by (simp add: in_prefix_def key_parts_in[simplified])
  show "starts_with (out_segment_src_prefix c t s) (render k) \<longleftrightarrow> (\<exists>q g. k = KOutSegment c t s q g)"
    using go[of "[''cell'', c, ''seg'', ''out'', t, fmt_020 s]"] assms(2,3) lits
    by (simp add: out_segment_src_prefix_def key_parts_segment[simplified])
  show "starts_with (out_segment_tombstone_src_prefix c t s) (render k)
      \<longleftrightarrow> (\<exists>d. k = KOutTombstone c t s d)"
    using go[of "[''cell'', c, ''seg'', ''tomb'', ''out'', t, fmt_020 s]"] assms(2,3) lits
    by (simp add: out_segment_tombstone_src_prefix_def key_parts_tombstone[simplified])
  show "starts_with (relationship_edge_prefix c t s d) (render k) \<longleftrightarrow> (\<exists>r. k = KRelationship c t s d r)"
    using go[of "[''cell'', c, ''rel'', t, fmt_020 s, fmt_020 d]"] assms(2,3) lits
    by (simp add: relationship_edge_prefix_def key_parts_relationship[simplified])
  show "starts_with (xlog_type_prefix c t) (render k) \<longleftrightarrow> (\<exists>q x y. k = KXlogEntry c t q x y)"
    using go[of "[''cell'', c, ''xlog'', t]"] assms(2,3) lits
    by (simp add: xlog_type_prefix_def key_parts_xlog[simplified])
qed

theorem prefix_scans_exact_witness:
  "starts_with (out_prefix ''c1'' ''T'' 7) (render (KOutEdge ''c1'' ''T'' 7 9))
   \<and> \<not> starts_with (out_prefix ''c1'' ''T'' 7) (render (KOutTombstone ''c1'' ''T'' 7 9))"
proof -
  have v: "valid_key (KOutEdge ''c1'' ''T'' 7 9)" "valid_key (KOutTombstone ''c1'' ''T'' 7 9)"
      "valid_component ''c1''" "valid_component ''T''"
    using fmt_020_component[of 7] fmt_020_component[of 9] by (simp_all add: render_validity)
  show ?thesis
    using prefix_scans_exact[OF v(1,3,4), of 7] prefix_scans_exact[OF v(2,3,4), of 7] by simp
qed

text \<open>The prefix \<^verbatim>\<open>drop_cell\<close> deletes below selects exactly the keys of that
  cell: no key of another cell, even one whose name extends it, and none of the drop markers
  that record the deletion itself.\<close>

theorem cell_prefix_exact:
  assumes "valid_key k" and "valid_component c"
  shows "starts_with (cell_prefix c) (render k) \<longleftrightarrow> key_cell k = Some c"
  using prefix_render[OF assms(1), of "[''cell'', c]"] key_parts_cell[of k c] assms(2) literal_component(1)
  by (simp add: cell_prefix_def)

text \<open>Within one cell and edge type, the byte order of changelog
  keys is the order of commit sequence, then source, then destination: a forward scan replays
  the changes in commit order.\<close>

theorem xlog_order_is_commit_order:
  "xlog_entry c t q s d < xlog_entry c t q' s' d' \<longleftrightarrow>
     q < q' \<or> (q = q' \<and> (s < s' \<or> (s = s' \<and> d < d')))"
proof -
  have "fmt_020 q @ SLASH # fmt_020 s @ SLASH # fmt_020 d < fmt_020 q' @ SLASH # fmt_020 s' @ SLASH # fmt_020 d'
      \<longleftrightarrow> q < q' \<or> (q = q' \<and> (s < s' \<or> (s = s' \<and> d < d')))"
    by (simp add: fmt_020_append_less fmt_020_less)
  then show ?thesis
    by (simp add: xlog_entry_def list_less_append_same)
qed

end
