(* ===== verification/Codec_Value.thy ===== *)
theory Codec_Value
  imports Codec_Basic
begin

text \<open>
  \<^verbatim>\<open>src/codec.rs\<close>, property values: the text a value has in a metadata record, and the text it has
  as a component of an index key. The record text round trips; the key text is a valid key
  component, determines the value, and within one kind of value its byte order is the order of
  the values, floats included, so that an index range scan visits values in order.
\<close>

unbundle bit_operations_syntax

definition sign_bit :: u64 where
  "sign_bit = push_bit 63 1"

definition sortable_float_bits :: "query_float \<Rightarrow> u64" where
  "sortable_float_bits bits =
     (if bits AND sign_bit = 0 then bits XOR sign_bit else NOT bits)"

fun hex_encode :: "bytes \<Rightarrow> string" where
  "hex_encode [] = []"
| "hex_encode (c # cs) =
     digit_char (of_char c div 16) # digit_char (of_char c mod 16) # hex_encode cs"

definition hex_value :: "char \<Rightarrow> nat option" where
  "hex_value c =
     (let n = of_char c :: nat in
      if 48 \<le> n \<and> n \<le> 57 then Some (n - 48)
      else if 97 \<le> n \<and> n \<le> 102 then Some (n - 97 + 10)
      else if 65 \<le> n \<and> n \<le> 70 then Some (n - 65 + 10)
      else None)"

text \<open>\<^verbatim>\<open>byte as char\<close> is the Latin-1 character of the byte, printed in UTF-8.\<close>

definition byte_as_char :: "char \<Rightarrow> string" where
  "byte_as_char c =
     (let n = of_char c :: nat in
      if n < 128 then [c] else [char_of (192 + n div 64), char_of (128 + n mod 64)])"

fun hex_decode_loop :: "string \<Rightarrow> string \<Rightarrow> bytes result" where
  "hex_decode_loop key (a # b # cs) =
     rbind (ok_or (CorruptValue key (''invalid hex digit '' @ byte_as_char a)) (hex_value a)) (\<lambda>high.
     rbind (ok_or (CorruptValue key (''invalid hex digit '' @ byte_as_char b)) (hex_value b)) (\<lambda>low.
     map_ok (\<lambda>rest. char_of (high * 16 + low) # rest) (hex_decode_loop key cs)))"
| "hex_decode_loop key _ = Inr []"

definition hex_decode :: "string \<Rightarrow> string \<Rightarrow> bytes result" where
  "hex_decode key text =
     (if odd (length text) then Inl (CorruptValue key ''odd-length hex string'')
      else hex_decode_loop key text)"

fun encode_vertex_property_value_key :: "vertex_property_value \<Rightarrow> string" where
  "encode_vertex_property_value_key (VInteger value) = ''i'' @ fmt_020 value"
| "encode_vertex_property_value_key (VSignedInteger value) = ''j'' @ fmt_016x (value XOR sign_bit)"
| "encode_vertex_property_value_key (VBool b) = (if b then ''b1'' else ''b0'')"
| "encode_vertex_property_value_key (VFloat bits) = ''n'' @ fmt_016x (sortable_float_bits bits)"
| "encode_vertex_property_value_key (VString value) = ''s'' @ hex_encode value"

fun encode_vertex_property_value_record :: "vertex_property_value \<Rightarrow> string" where
  "encode_vertex_property_value_record (VInteger value) = ''i:'' @ fmt_u64 value"
| "encode_vertex_property_value_record (VSignedInteger value) = ''j:'' @ fmt_i64 value"
| "encode_vertex_property_value_record (VBool b) = (if b then ''b:true'' else ''b:false'')"
| "encode_vertex_property_value_record (VFloat bits) = ''f:'' @ fmt_016x bits"
| "encode_vertex_property_value_record (VString value) = ''s:'' @ hex_encode value"

definition decode_vertex_property_value_record ::
    "string \<Rightarrow> string \<Rightarrow> vertex_property_value result" where
  "decode_vertex_property_value_record key value =
     (case split_once (CHR '':'') value of
        None \<Rightarrow> Inl (CorruptValue key (''invalid vertex property value '' @ value))
      | Some (kind, payload) \<Rightarrow>
          if kind = ''i'' then
            map_err (\<lambda>err. CorruptValue key
                (''invalid integer vertex property '' @ payload @ '': '' @ int_error_display err))
              (map_ok VInteger (str_parse_u64 payload))
          else if kind = ''j'' then
            map_err (\<lambda>err. CorruptValue key
                (''invalid signed integer vertex property '' @ payload @ '': '' @ int_error_display err))
              (map_ok from_i64 (str_parse_i64 payload))
          else if kind = ''b'' then
            (if payload = ''true'' then Inr (VBool True)
             else if payload = ''false'' then Inr (VBool False)
             else Inl (CorruptValue key (''invalid boolean vertex property '' @ payload)))
          else if kind = ''f'' then
            map_err (\<lambda>err. CorruptValue key
                (''invalid float vertex property '' @ payload @ '': '' @ int_error_display err))
              (map_ok VFloat (u64_from_str_radix 16 payload))
          else if kind = ''s'' then
            rbind (hex_decode key payload) (\<lambda>bytes.
              map_err (\<lambda>err. CorruptValue key (utf8_error_display err))
                (map_ok VString (from_utf8 bytes)))
          else Inl (CorruptValue key (''unsupported vertex property kind '' @ kind)))"

text \<open>The stored form of a value: a non-negative signed integer reads back as an unsigned one.\<close>

fun stored_value :: "vertex_property_value \<Rightarrow> vertex_property_value" where
  "stored_value (VSignedInteger v) = from_i64 v"
| "stored_value v = v"

fun same_kind :: "vertex_property_value \<Rightarrow> vertex_property_value \<Rightarrow> bool" where
  "same_kind (VInteger _) (VInteger _) = True"
| "same_kind (VSignedInteger _) (VSignedInteger _) = True"
| "same_kind (VBool _) (VBool _) = True"
| "same_kind (VFloat _) (VFloat _) = True"
| "same_kind (VString _) (VString _) = True"
| "same_kind _ _ = False"

text \<open>The order of the derived \<^verbatim>\<open>Ord\<close> of the value type inside one kind.\<close>

fun value_less :: "vertex_property_value \<Rightarrow> vertex_property_value \<Rightarrow> bool" where
  "value_less (VInteger a) (VInteger b) \<longleftrightarrow> a < b"
| "value_less (VSignedInteger a) (VSignedInteger b) \<longleftrightarrow> sint a < sint b"
| "value_less (VBool a) (VBool b) \<longleftrightarrow> \<not> a \<and> b"
| "value_less (VFloat a) (VFloat b) \<longleftrightarrow> query_float_less a b"
| "value_less (VString a) (VString b) \<longleftrightarrow> a < b"
| "value_less _ _ \<longleftrightarrow> False"

subsection \<open>Hexadecimal text\<close>

lemma length_hex_encode: "length (hex_encode s) = 2 * length s"
  by (induction s) auto

lemma of_char_bounds: "(of_char c :: nat) div 16 < 16" "(of_char c :: nat) mod 16 < 16"
  using of_char_mod_256[of c, where ?'a = nat] by (simp_all add: less_mult_imp_div_less)

lemma hex_value_digit_char: "d < 16 \<Longrightarrow> hex_value (digit_char d) = Some d"
  by (auto simp: hex_value_def of_char_digit_char16 Let_def)

lemma hex_decode_loop_encode: "hex_decode_loop key (hex_encode s) = Inr s"
  by (induction s) (simp_all add: hex_value_digit_char of_char_bounds)

lemma hex_decode_encode [codec_simps, simp]: "hex_decode key (hex_encode s) = Inr s"
  by (simp add: hex_decode_def length_hex_encode hex_decode_loop_encode)

lemma hex_encode_inj [simp]: "hex_encode s = hex_encode t \<longleftrightarrow> s = t"
  by (metis hex_decode_encode sum.inject(2))

lemma hex_encode_digits: "\<forall>c \<in> set (hex_encode s). is_digit_of 16 c"
  by (induction s) (auto simp: of_char_bounds)

lemma char_less_digits:
  "c < d \<longleftrightarrow> (of_char c :: nat) div 16 < of_char d div 16
     \<or> ((of_char c :: nat) div 16 = of_char d div 16 \<and> (of_char c :: nat) mod 16 < of_char d mod 16)"
proof -
  have "(of_char c :: nat) = 16 * (of_char c div 16) + of_char c mod 16"
    "(of_char d :: nat) = 16 * (of_char d div 16) + of_char d mod 16" by simp_all
  then show ?thesis
    using of_char_bounds(2)[of c] of_char_bounds(2)[of d] unfolding less_char_def by linarith
qed

lemma hex_encode_less: "hex_encode s < hex_encode t \<longleftrightarrow> s < t"
proof (induction s arbitrary: t)
  case Nil
  then show ?case by (cases t) auto
next
  case (Cons c s)
  show ?case
  proof (cases t)
    case (Cons d t')
    have eq: "c = d \<longleftrightarrow> (of_char c :: nat) div 16 = of_char d div 16 \<and> (of_char c :: nat) mod 16 = of_char d mod 16"
      by (metis div_mult_mod_eq of_char_eq_iff)
    show ?thesis
      unfolding Cons hex_encode.simps Cons_less_Cons Cons.IH char_less_digits[of c d]
      by (auto simp: digit_char_less digit_char_inj of_char_bounds eq)
  qed simp
qed

subsection \<open>Sortable bits\<close>

lemma xor_sign_bit: "uint ((v :: u64) XOR sign_bit) = sint v + 2 ^ 63"
proof -
  define k where "k = uint v"
  have k: "0 \<le> k" "k < 2 ^ 64"
    using uint_bounded[of v] by (simp_all add: k_def)
  have "uint (v XOR sign_bit) = flip_bit 63 k"
    by (simp add: k_def unsigned_xor_eq sign_bit_def flip_bit_eq_xor)
  also have "\<dots> = (if bit k 63 then k - 2 ^ 63 else k + 2 ^ 63)"
    by (simp add: flip_bit_eq_if set_bit_eq unset_bit_eq)
  also have "\<dots> = sint v + 2 ^ 63"
  proof -
    have "k div 2 ^ 63 = (if 2 ^ 63 \<le> k then 1 else 0)"
      using k by (auto intro: div_pos_pos_trivial int_div_pos_eq[of _ _ _ "k - 2 ^ 63"])
    then have "bit k 63 \<longleftrightarrow> 2 ^ 63 \<le> k"
      by (simp add: bit_iff_odd)
    moreover have "sint v = signed_take_bit 63 k"
      by (simp add: k_def sint_uint)
    moreover have "take_bit 64 (k + 2 ^ 63) = (if 2 ^ 63 \<le> k then k - 2 ^ 63 else k + 2 ^ 63)"
      using k mod_pos_geq[of "2 ^ 64" "k + 2 ^ 63"] by (auto simp: take_bit_eq_mod)
    ultimately show ?thesis by (simp add: signed_take_bit_eq_take_bit_shift)
  qed
  finally show ?thesis .
qed

lemma bit_sign_bit [simp]: "bit sign_bit n \<longleftrightarrow> n = 63"
  unfolding sign_bit_def push_bit_of_1 bit_exp_iff by (auto simp: possible_bit_word)

lemma and_sign_bit: "(b :: u64) AND sign_bit = 0 \<longleftrightarrow> \<not> bit b 63"
proof
  assume "b AND sign_bit = 0"
  then have "\<not> bit (b AND sign_bit) 63" by simp
  then show "\<not> bit b 63" by (simp add: bit_and_iff)
next
  assume "\<not> bit b 63"
  then show "b AND sign_bit = 0" by (intro bit_word_eqI) (auto simp: bit_and_iff)
qed

lemma not_eq_xor: "NOT (b :: u64) = (b XOR mask 63) XOR sign_bit"
  by (rule bit_word_eqI) (auto simp: bit_not_iff bit_xor_iff bit_mask_iff)

definition total_cmp_bits :: "u64 \<Rightarrow> u64" where
  "total_cmp_bits b = (if bit b 63 then b XOR mask 63 else b)"

lemma sortable_float_bits_eq: "sortable_float_bits b = total_cmp_bits b XOR sign_bit"
  by (simp add: sortable_float_bits_def total_cmp_bits_def and_sign_bit not_eq_xor)

lemma sortable_float_bits_total: "uint (sortable_float_bits b) = total_cmp_key b + 2 ^ 63"
  by (simp add: sortable_float_bits_eq xor_sign_bit total_cmp_key_def total_cmp_bits_def)

lemma total_cmp_bits_inj: "total_cmp_bits a = total_cmp_bits b \<longleftrightarrow> a = b"
proof
  assume eq: "total_cmp_bits a = total_cmp_bits b"
  have sign: "bit (total_cmp_bits x) 63 = bit x 63" for x
    by (simp add: total_cmp_bits_def bit_xor_iff bit_mask_iff)
  have "(x XOR mask 63) XOR mask 63 = x" for x :: u64
    by (simp add: xor.assoc)
  moreover have "bit a 63 = bit b 63" using eq sign by metis
  ultimately show "a = b"
    using eq unfolding total_cmp_bits_def by metis
qed simp

lemma sortable_float_bits_less:
  "sortable_float_bits a < sortable_float_bits b \<longleftrightarrow> query_float_less a b"
  by (simp add: word_less_def sortable_float_bits_total query_float_less_def)

lemma xor_sign_less: "(v :: u64) XOR sign_bit < w XOR sign_bit \<longleftrightarrow> sint v < sint w"
  by (simp only: word_less_def xor_sign_bit) simp

lemma xor_sign_inj [simp]: "(v :: u64) XOR sign_bit = w XOR sign_bit \<longleftrightarrow> v = w"
proof
  assume "v XOR sign_bit = w XOR sign_bit"
  then have "(v XOR sign_bit) XOR sign_bit = (w XOR sign_bit) XOR sign_bit" by simp
  then show "v = w" by (simp add: xor.assoc)
qed simp

lemma sortable_float_bits_inj [simp]: "sortable_float_bits a = sortable_float_bits b \<longleftrightarrow> a = b"
  by (simp add: sortable_float_bits_eq total_cmp_bits_inj)

subsection \<open>Record text\<close>

lemma decode_value_record:
  "wf_value v \<Longrightarrow> decode_vertex_property_value_record key (encode_vertex_property_value_record v)
     = Inr (stored_value v)"
  by (cases v) (simp_all add: decode_vertex_property_value_record_def)

lemma stored_value_normal: "normal_value (stored_value v)"
  by (cases v) (simp_all add: from_i64_normal)

lemma stored_value_id: "normal_value v \<Longrightarrow> stored_value v = v"
  by (cases v) (simp_all add: from_i64_signed)

lemma value_record_ascii [simp]: "is_ascii (encode_vertex_property_value_record v)"
  using digits_ascii[OF hex_encode_digits] by (cases v) simp_all

lemma value_record_avoids:
  "TAB \<notin> set (encode_vertex_property_value_record v)"
  "NL \<notin> set (encode_vertex_property_value_record v)"
  "CR \<notin> set (encode_vertex_property_value_record v)"
proof -
  have *: "x \<notin> set (encode_vertex_property_value_record v)" if "(of_char x :: nat) < 33" for x
  proof -
    have ne: "x \<noteq> CHR ''-''" "x \<notin> set (fmt_u64 w)" "x \<notin> set (fmt_016x w)" "x \<notin> set (hex_encode s)" for w s
      using that digits_avoid[OF fmt_u64_digits] digits_avoid[OF fmt_016x_digits]
        digits_avoid[OF hex_encode_digits] by auto
    have "x \<notin> set (fmt_i64 w)" for w
      using that ne(1) fmt_i64_bytes[of x w] is_digit_of_code[of 10 x] by auto
    then show ?thesis using that ne by (cases v) auto
  qed
  show "TAB \<notin> set (encode_vertex_property_value_record v)"
    "NL \<notin> set (encode_vertex_property_value_record v)"
    "CR \<notin> set (encode_vertex_property_value_record v)" by (rule *; simp)+
qed

subsection \<open>Key text\<close>

lemma kind_component: "component_byte k \<Longrightarrow> \<forall>c \<in> set s. is_digit_of b c \<Longrightarrow> b \<le> 16 \<Longrightarrow> valid_component (k # s)"
  using digit_component_byte by (auto simp: valid_component_def)

lemma kind_letters:
  "component_byte CHR ''i''" "component_byte CHR ''j''" "component_byte CHR ''n''" "component_byte CHR ''s''"
  by (simp_all add: component_byte_def)

lemma bool_key_component: "valid_component ''b0''" "valid_component ''b1''"
  by (simp_all add: valid_component_def component_byte_def)

lemma value_key_component [simp]: "valid_component (encode_vertex_property_value_key v)"
  by (cases v)
    (simp_all add: bool_key_component kind_component[OF _ fmt_020_digits] kind_component[OF _ fmt_016x_digits]
      kind_component[OF _ hex_encode_digits] kind_letters)

lemma value_key_inj: "encode_vertex_property_value_key v = encode_vertex_property_value_key w \<longleftrightarrow> v = w"
  by (cases v; cases w) (auto split: if_splits)

lemma value_key_less:
  "same_kind v w \<Longrightarrow>
     encode_vertex_property_value_key v < encode_vertex_property_value_key w \<longleftrightarrow> value_less v w"
  by (cases v; cases w)
    (simp_all add: fmt_020_less fmt_016x_less hex_encode_less xor_sign_less sortable_float_bits_less)

lemma decode_value_wf:
  "decode_vertex_property_value_record key t = Inr v \<Longrightarrow> wf_value v \<and> normal_value v"
  by (auto simp: decode_vertex_property_value_record_def map_err_Inr_iff map_ok_Inr_iff rbind_Inr_iff from_utf8_Inr
      from_i64_normal from_i64_def split: option.splits if_splits)

subsection \<open>Properties\<close>

text \<open>The text of a property value in a metadata record decodes to the
  value: integers, booleans, all 64 bits of a float (not-a-number payloads included) and any UTF-8
  string. A non-negative signed integer comes back as the unsigned integer with the same bits, and
  every value a decoder returns is in that normal form, so decoding is stable after one pass.\<close>

theorem value_record_roundtrip:
  assumes "wf_value v"
  shows "decode_vertex_property_value_record key (encode_vertex_property_value_record v) = Inr (stored_value v)
    \<and> (normal_value v \<longrightarrow> stored_value v = v) \<and> normal_value (stored_value v)"
  using assms decode_value_record stored_value_id stored_value_normal by blast

theorem value_record_roundtrip_witness:
  "decode_vertex_property_value_record ''k'' (encode_vertex_property_value_record (VString ''a:b/c''))
     = Inr (VString ''a:b/c'')
   \<and> decode_vertex_property_value_record ''k'' (encode_vertex_property_value_record (VSignedInteger (- 5)))
     = Inr (VSignedInteger (- 5))"
proof -
  have "wf_value (VString ''a:b/c'')" by simp
  from value_record_roundtrip[OF this, of "''k''"]
    value_record_roundtrip[of "VSignedInteger (- 5)" "''k''"]
  show ?thesis by (simp add: from_i64_def)
qed

text \<open>C38 (value_key_order). The text of a property value in an index key is a valid key component,
  two values share it only when they are equal, and among values of one kind its byte order is the
  order of the values: numeric for both integer kinds, the IEEE total order for floats, bytewise
  for strings. Hence a scan over a property index returns values in increasing order.\<close>

theorem value_key_order:
  "valid_component (encode_vertex_property_value_key v)
   \<and> (encode_vertex_property_value_key v = encode_vertex_property_value_key w \<longleftrightarrow> v = w)
   \<and> (same_kind v w \<longrightarrow>
        (encode_vertex_property_value_key v < encode_vertex_property_value_key w \<longleftrightarrow> value_less v w))"
  using value_key_component value_key_inj value_key_less by blast

theorem value_key_order_witness:
  "encode_vertex_property_value_key (VSignedInteger (- 7)) < encode_vertex_property_value_key (VSignedInteger 3)
   \<and> valid_component (encode_vertex_property_value_key (VString ''x y''))"
  using value_key_order[of "VSignedInteger (- 7)" "VSignedInteger 3"] value_key_order[of "VString ''x y''"]
  by simp

end
