(* ===== verification/Codec_Keys.thy ===== *)
theory Codec_Keys
  imports Graph_Keys Codec_Value
begin

text \<open>
  \<^verbatim>\<open>src/codec.rs\<close>, the key parsers: several records store no identity of their own and take it from
  the key they are found under. The parsers split the key at the slashes and match on the parts.
  \<open>key_parsers_exact\<close> states that they invert the key functions of \<^verbatim>\<open>src/keys.rs\<close> and reject
  the keys of every other family.
\<close>

definition parse_edge_fields ::
    "string \<Rightarrow> string \<Rightarrow> string \<Rightarrow> string \<Rightarrow> string \<Rightarrow> edge_record result" where
  "parse_edge_fields key cell_id edge_type src dst =
     rbind (validate_component ''cell_id'' cell_id) (\<lambda>_.
     rbind (validate_component ''edge_type'' edge_type) (\<lambda>_.
     rbind (parse_u64 key src ''src'') (\<lambda>s.
     rbind (parse_u64 key dst ''dst'') (\<lambda>d.
       Inr \<lparr>er_cell_id = cell_id, er_edge_type = edge_type, er_src = s, er_dst = d\<rparr>))))"

definition parse_edge_record_key :: "string \<Rightarrow> edge_record result" where
  "parse_edge_record_key key =
     (let bad = Inl (CorruptValue key ''cannot infer edge record identity from key'') in
      case split_on SLASH key of
        [a, cell_id, b, edge_type, src, dst] \<Rightarrow>
          if a = ''cell'' \<and> b = ''edge'' then parse_edge_fields key cell_id edge_type src dst else bad
      | [a, cell_id, b, c, edge_type, x, y] \<Rightarrow>
          if a = ''cell'' \<and> b = ''e'' \<and> c = ''out'' then parse_edge_fields key cell_id edge_type x y
          else if a = ''cell'' \<and> b = ''e'' \<and> c = ''in'' then parse_edge_fields key cell_id edge_type y x
          else bad
      | _ \<Rightarrow> bad)"

definition parse_relationship_record_key :: "string \<Rightarrow> relationship_record result" where
  "parse_relationship_record_key key =
     (let bad = Inl (CorruptValue key ''cannot infer relationship record identity from key'') in
      case split_on SLASH key of
        [a, cell_id, b, edge_type, src, dst, relationship_id] \<Rightarrow>
          if a = ''cell'' \<and> b = ''rel'' then
            rbind (validate_component ''cell_id'' cell_id) (\<lambda>_.
            rbind (validate_component ''edge_type'' edge_type) (\<lambda>_.
            rbind (parse_u64 key src ''src'') (\<lambda>s.
            rbind (parse_u64 key dst ''dst'') (\<lambda>d.
            rbind (parse_u64 key relationship_id ''relationship_id'') (\<lambda>r.
              Inr \<lparr>rr_cell_id = cell_id, rr_edge_type = edge_type, rr_src = s, rr_dst = d,
                   rr_relationship_id = r, rr_metadata = edge_metadata_default\<rparr>)))))
          else bad
      | _ \<Rightarrow> bad)"

definition parse_relationship_property_index_key ::
    "string \<Rightarrow> (string \<times> string \<times> string \<times> string \<times> vertex_id \<times> vertex_id \<times> relationship_id) result" where
  "parse_relationship_property_index_key key =
     (let bad = Inl (CorruptValue key ''expected relationship property index key'') in
      case split_on SLASH key of
        [a, cell_id, b, edge_type, property, encoded, src, dst, relationship_id] \<Rightarrow>
          if a = ''cell'' \<and> b = ''rprop_idx'' then
            rbind (parse_u64 key src ''src'') (\<lambda>s.
            rbind (parse_u64 key dst ''dst'') (\<lambda>d.
            rbind (parse_u64 key relationship_id ''relationship_id'') (\<lambda>r.
              Inr (cell_id, edge_type, property, encoded, s, d, r))))
          else bad
      | _ \<Rightarrow> bad)"

definition parse_out_edge_segment_key ::
    "string \<Rightarrow> (string \<times> string \<times> vertex_id \<times> storage_sequence) result" where
  "parse_out_edge_segment_key key =
     (let bad = Inl (CorruptValue key ''expected canonical outbound segment key'') in
      case split_on SLASH key of
        [a, cell_id, b, c, edge_type, src, storage_sequence, segment_id] \<Rightarrow>
          if a = ''cell'' \<and> b = ''seg'' \<and> c = ''out'' then
            rbind (validate_component ''cell_id'' cell_id) (\<lambda>_.
            rbind (validate_component ''edge_type'' edge_type) (\<lambda>_.
            rbind (validate_component ''segment_id'' segment_id) (\<lambda>_.
            rbind (parse_u64 key src ''src'') (\<lambda>s.
            rbind (parse_u64 key storage_sequence ''storage_sequence'') (\<lambda>q.
              Inr (cell_id, edge_type, s, q))))))
          else bad
      | _ \<Rightarrow> bad)"

definition parse_out_edge_segment_tombstone_key ::
    "string \<Rightarrow> (string \<times> string \<times> vertex_id \<times> vertex_id) result" where
  "parse_out_edge_segment_tombstone_key key =
     (let bad = Inl (CorruptValue key ''expected canonical outbound segment tombstone key'') in
      case split_on SLASH key of
        [a, cell_id, b, c, d, edge_type, src, dst] \<Rightarrow>
          if a = ''cell'' \<and> b = ''seg'' \<and> c = ''tomb'' \<and> d = ''out'' then
            rbind (validate_component ''cell_id'' cell_id) (\<lambda>_.
            rbind (validate_component ''edge_type'' edge_type) (\<lambda>_.
            rbind (parse_u64 key src ''src'') (\<lambda>s.
            rbind (parse_u64 key dst ''dst'') (\<lambda>t.
              Inr (cell_id, edge_type, s, t)))))
          else bad
      | _ \<Rightarrow> bad)"

text \<open>What each parser should return for an abstract key.\<close>

fun edge_identity :: "graph_key \<Rightarrow> edge_record option" where
  "edge_identity (KEdge c t s d) = Some \<lparr>er_cell_id = c, er_edge_type = t, er_src = s, er_dst = d\<rparr>"
| "edge_identity (KOutEdge c t s d) = Some \<lparr>er_cell_id = c, er_edge_type = t, er_src = s, er_dst = d\<rparr>"
| "edge_identity (KInEdge c t d s) = Some \<lparr>er_cell_id = c, er_edge_type = t, er_src = s, er_dst = d\<rparr>"
| "edge_identity _ = None"

fun relationship_identity :: "graph_key \<Rightarrow> relationship_record option" where
  "relationship_identity (KRelationship c t s d r) =
     Some \<lparr>rr_cell_id = c, rr_edge_type = t, rr_src = s, rr_dst = d, rr_relationship_id = r,
           rr_metadata = edge_metadata_default\<rparr>"
| "relationship_identity _ = None"

fun segment_identity :: "graph_key \<Rightarrow> (string \<times> string \<times> vertex_id \<times> storage_sequence) option" where
  "segment_identity (KOutSegment c t s q g) = Some (c, t, s, q)"
| "segment_identity _ = None"

fun tombstone_identity :: "graph_key \<Rightarrow> (string \<times> string \<times> vertex_id \<times> vertex_id) option" where
  "tombstone_identity (KOutTombstone c t s d) = Some (c, t, s, d)"
| "tombstone_identity _ = None"

fun relationship_index_identity ::
    "graph_key \<Rightarrow> (string \<times> string \<times> string \<times> string \<times> vertex_id \<times> vertex_id \<times> relationship_id) option" where
  "relationship_index_identity (KRelationshipProperty c t p v s d r) = Some (c, t, p, v, s, d, r)"
| "relationship_index_identity _ = None"

text \<open>The value of a result, its error forgotten: \<^verbatim>\<open>Result::ok\<close>.\<close>

definition result_ok :: "'e + 'a \<Rightarrow> 'a option" where
  "result_ok r = (case r of Inl _ \<Rightarrow> None | Inr x \<Rightarrow> Some x)"

lemma result_ok_simps [simp]: "result_ok (Inl e) = None" "result_ok (Inr x) = Some x"
  by (simp_all add: result_ok_def)

lemma parse_edge_render:
  "valid_key k \<Longrightarrow> result_ok (parse_edge_record_key (render k)) = edge_identity k"
  unfolding parse_edge_record_key_def parse_edge_fields_def valid_key_def Let_def
  by (subst split_render, simp add: valid_key_def) (cases k; simp split: list.split)

lemma parse_relationship_render:
  "valid_key k \<Longrightarrow> result_ok (parse_relationship_record_key (render k)) = relationship_identity k"
  unfolding parse_relationship_record_key_def valid_key_def Let_def
  by (subst split_render, simp add: valid_key_def) (cases k; simp split: list.split)

lemma parse_segment_render:
  "valid_key k \<Longrightarrow> result_ok (parse_out_edge_segment_key (render k)) = segment_identity k"
  unfolding parse_out_edge_segment_key_def valid_key_def Let_def
  by (subst split_render, simp add: valid_key_def) (cases k; simp split: list.split)

lemma parse_tombstone_render:
  "valid_key k \<Longrightarrow> result_ok (parse_out_edge_segment_tombstone_key (render k)) = tombstone_identity k"
  unfolding parse_out_edge_segment_tombstone_key_def valid_key_def Let_def
  by (subst split_render, simp add: valid_key_def) (cases k; simp split: list.split)

lemma parse_relationship_index_render:
  "valid_key k \<Longrightarrow> result_ok (parse_relationship_property_index_key (render k)) = relationship_index_identity k"
  unfolding parse_relationship_property_index_key_def valid_key_def Let_def
  by (subst split_render, simp add: valid_key_def) (cases k; simp split: list.split)

lemma result_ok_Some: "result_ok r = Some x \<longleftrightarrow> r = Inr x"
  by (cases r) simp_all

lemmas parse_render = parse_edge_render parse_relationship_render parse_segment_render
  parse_tombstone_render parse_relationship_index_render

lemma parse_relationship_key [codec_simps]:
  assumes "valid_component c" "valid_component t"
  shows "parse_relationship_record_key (relationship_key c t s d r) =
    Inr \<lparr>rr_cell_id = c, rr_edge_type = t, rr_src = s, rr_dst = d, rr_relationship_id = r,
         rr_metadata = edge_metadata_default\<rparr>"
  using parse_relationship_render[of "KRelationship c t s d r"] assms literal_component
  by (simp add: valid_key_def result_ok_Some)

lemma parse_segment_key [codec_simps]:
  assumes "valid_component c" "valid_component t" "valid_component g"
  shows "parse_out_edge_segment_key (out_segment c t s q g) = Inr (c, t, s, q)"
  using parse_segment_render[of "KOutSegment c t s q g"] assms literal_component
  by (simp add: valid_key_def result_ok_Some)

lemma parse_tombstone_key [codec_simps]:
  assumes "valid_component c" "valid_component t"
  shows "parse_out_edge_segment_tombstone_key (out_segment_tombstone c t s d) = Inr (c, t, s, d)"
  using parse_tombstone_render[of "KOutTombstone c t s d"] assms literal_component
  by (simp add: valid_key_def result_ok_Some)

lemma edge_literal: "valid_component ''edge''"
  by (simp add: valid_component_def component_byte_def)

lemma parse_edge_keys [codec_simps]:
  assumes "valid_component c" "valid_component t"
  shows "parse_edge_record_key (edge_key c t s d) = Inr \<lparr>er_cell_id = c, er_edge_type = t, er_src = s, er_dst = d\<rparr>"
    "parse_edge_record_key (out_edge c t s d) = Inr \<lparr>er_cell_id = c, er_edge_type = t, er_src = s, er_dst = d\<rparr>"
    "parse_edge_record_key (in_edge c t d s) = Inr \<lparr>er_cell_id = c, er_edge_type = t, er_src = s, er_dst = d\<rparr>"
  using parse_edge_render[of "KEdge c t s d"] parse_edge_render[of "KOutEdge c t s d"]
    parse_edge_render[of "KInEdge c t d s"] assms literal_component edge_literal
  by (simp_all add: valid_key_def result_ok_Some)

subsection \<open>Properties\<close>

text \<open>C33 (key_parsers_exact). On the storage keys the program writes, each key parser returns the
  identity the key was built from when the key belongs to its family, and fails on the keys of
  every other family: edge records (primary, outgoing and incoming copies), relationships, outgoing
  segments, segment tombstones and the relationship property index.\<close>

theorem key_parsers_exact:
  assumes "valid_key k"
  shows "result_ok (parse_edge_record_key (render k)) = edge_identity k
    \<and> result_ok (parse_relationship_record_key (render k)) = relationship_identity k
    \<and> result_ok (parse_out_edge_segment_key (render k)) = segment_identity k
    \<and> result_ok (parse_out_edge_segment_tombstone_key (render k)) = tombstone_identity k
    \<and> result_ok (parse_relationship_property_index_key (render k)) = relationship_index_identity k"
  using assms parse_render by blast

theorem key_parsers_exact_witness:
  "valid_key (KInEdge ''c1'' ''KNOWS'' 4 9)
   \<and> result_ok (parse_edge_record_key (render (KInEdge ''c1'' ''KNOWS'' 4 9)))
       = Some \<lparr>er_cell_id = ''c1'', er_edge_type = ''KNOWS'', er_src = 9, er_dst = 4\<rparr>
   \<and> result_ok (parse_out_edge_segment_key (render (KInEdge ''c1'' ''KNOWS'' 4 9))) = None"
proof -
  have v: "valid_key (KInEdge ''c1'' ''KNOWS'' 4 9)"
    by (simp add: valid_key_def literal_component) (simp add: valid_component_def component_byte_def)
  with key_parsers_exact[OF v] show ?thesis by simp
qed

end
