(* ===== verification/Codec_Metadata.thy ===== *)
theory Codec_Metadata
  imports Codec_Keys
begin

text \<open>
  \<^verbatim>\<open>src/codec.rs\<close>, the text records: query statistics, vertex metadata, edge metadata and
  relationship records. Each is a header line followed by one line per field; the decoder splits
  the text into lines and each line at its tabs. The lemmas show that encoding and then decoding
  is the identity on well-formed values and that a decoder returns well-formed values only,
  whatever bytes it reads.
\<close>

definition utf8_text :: "string \<Rightarrow> bytes \<Rightarrow> string result" where
  "utf8_text key value = map_err (\<lambda>err. CorruptValue key (utf8_error_display err)) (from_utf8 value)"

subsection \<open>Query statistics\<close>

definition encode_query_stats_record :: "query_stats_record \<Rightarrow> bytes" where
  "encode_query_stats_record record =
     ''query-stats-v1'' @ [NL] @ ''count'' @ [TAB] @ fmt_u64 (qs_count record) @ [NL]
     @ ''read_epoch'' @ [TAB] @ fmt_u64 (qs_read_epoch record) @ [NL]
     @ ''refreshed_at_ms'' @ [TAB] @ fmt_u64 (qs_refreshed_at_ms record) @ [NL]
     @ ''distinct_values'' @ [TAB] @ fmt_u64 (qs_distinct_values record) @ [NL]
     @ ''total_values'' @ [TAB] @ fmt_u64 (qs_total_values record) @ [NL]
     @ ''most_common_count'' @ [TAB] @ fmt_u64 (qs_most_common_count record) @ [NL]"

record query_stats_fields =
  qf_count :: "u64 option"
  qf_read_epoch :: "u64 option"
  qf_refreshed_at_ms :: "u64 option"
  qf_distinct_values :: "u64 option"
  qf_total_values :: "u64 option"
  qf_most_common_count :: "u64 option"

definition query_stats_line :: "string \<Rightarrow> string \<Rightarrow> query_stats_fields \<Rightarrow> query_stats_fields result" where
  "query_stats_line key line acc =
     (case split_on TAB line of
        [field, value] \<Rightarrow>
          rbind (map_err (\<lambda>err. CorruptValue key
                   (''invalid query stats '' @ field @ '' value '' @ value @ '': '' @ int_error_display err))
                  (str_parse_u64 value)) (\<lambda>parsed.
            if field = ''count'' then Inr (acc\<lparr>qf_count := Some parsed\<rparr>)
            else if field = ''read_epoch'' then Inr (acc\<lparr>qf_read_epoch := Some parsed\<rparr>)
            else if field = ''refreshed_at_ms'' then Inr (acc\<lparr>qf_refreshed_at_ms := Some parsed\<rparr>)
            else if field = ''distinct_values'' then Inr (acc\<lparr>qf_distinct_values := Some parsed\<rparr>)
            else if field = ''total_values'' then Inr (acc\<lparr>qf_total_values := Some parsed\<rparr>)
            else if field = ''most_common_count'' then Inr (acc\<lparr>qf_most_common_count := Some parsed\<rparr>)
            else Inl (CorruptValue key (''unknown query stats field '' @ field)))
      | _ \<Rightarrow> Inl (CorruptValue key (''invalid query stats line '' @ line)))"

definition required_query_stats_field :: "string \<Rightarrow> string \<Rightarrow> u64 option \<Rightarrow> u64 result" where
  "required_query_stats_field key field value =
     ok_or (CorruptValue key (''missing query stats field '' @ field)) value"

definition decode_query_stats_record :: "string \<Rightarrow> bytes \<Rightarrow> query_stats_record result" where
  "decode_query_stats_record key value =
     (if length value = 8 then
        rbind (decode_u64 key value) (\<lambda>count. Inr (point_count count 0 0))
      else rbind (utf8_text key value) (\<lambda>text.
        case str_lines text of
          [] \<Rightarrow> Inl (CorruptValue key ''empty query stats record'')
        | header # lines \<Rightarrow>
            if header \<noteq> ''query-stats-v1''
            then Inl (CorruptValue key (''unsupported query stats version '' @ header))
            else rbind (rfold (query_stats_line key) lines
                \<lparr>qf_count = None, qf_read_epoch = None, qf_refreshed_at_ms = None,
                 qf_distinct_values = None, qf_total_values = None, qf_most_common_count = None\<rparr>) (\<lambda>f.
              rbind (required_query_stats_field key ''count'' (qf_count f)) (\<lambda>count.
              rbind (required_query_stats_field key ''read_epoch'' (qf_read_epoch f)) (\<lambda>read_epoch.
              rbind (required_query_stats_field key ''refreshed_at_ms'' (qf_refreshed_at_ms f)) (\<lambda>refreshed.
              rbind (required_query_stats_field key ''distinct_values'' (qf_distinct_values f)) (\<lambda>distinct.
              rbind (required_query_stats_field key ''total_values'' (qf_total_values f)) (\<lambda>total.
              rbind (required_query_stats_field key ''most_common_count'' (qf_most_common_count f)) (\<lambda>common.
                Inr \<lparr>qs_count = count, qs_read_epoch = read_epoch, qs_refreshed_at_ms = refreshed,
                     qs_distinct_values = distinct, qs_total_values = total,
                     qs_most_common_count = common\<rparr>)))))))))"

subsection \<open>Metadata\<close>

definition property_line :: "string \<times> vertex_property_value \<Rightarrow> string" where
  "property_line p =
     ''property'' @ [TAB] @ fst p @ [TAB] @ encode_vertex_property_value_record (snd p) @ [NL]"

definition encode_vertex_metadata :: "vertex_metadata \<Rightarrow> bytes" where
  "encode_vertex_metadata metadata =
     ''vertex-metadata-v1'' @ [NL]
     @ concat (map (\<lambda>label. ''label'' @ [TAB] @ label @ [NL]) (vm_labels metadata))
     @ concat (map property_line (vm_properties metadata))"

definition insert_property :: "string \<Rightarrow> string \<Rightarrow> string \<Rightarrow> properties \<Rightarrow> properties result" where
  "insert_property key name encoded properties =
     rbind (validate_component ''property'' name) (\<lambda>_.
     rbind (decode_vertex_property_value_record key encoded) (\<lambda>value.
       Inr (bt_insert name value properties)))"

definition vertex_metadata_line :: "string \<Rightarrow> string \<Rightarrow> vertex_metadata \<Rightarrow> vertex_metadata result" where
  "vertex_metadata_line key line metadata =
     (let bad = Inl (CorruptValue key (''invalid vertex metadata line '' @ line)) in
      case split_on TAB line of
        [a, label] \<Rightarrow>
          if a = ''label'' then
            rbind (validate_component ''label'' label) (\<lambda>_.
              Inr (metadata\<lparr>vm_labels := bs_insert label (vm_labels metadata)\<rparr>))
          else bad
      | [a, name, encoded] \<Rightarrow>
          if a = ''property'' then
            map_ok (\<lambda>ps. metadata\<lparr>vm_properties := ps\<rparr>)
              (insert_property key name encoded (vm_properties metadata))
          else bad
      | _ \<Rightarrow> bad)"

definition decode_vertex_metadata :: "string \<Rightarrow> bytes \<Rightarrow> vertex_metadata result" where
  "decode_vertex_metadata key value =
     rbind (utf8_text key value) (\<lambda>text.
       case str_lines text of
         [] \<Rightarrow> Inl (CorruptValue key ''empty vertex metadata'')
       | header # lines \<Rightarrow>
           if header \<noteq> ''vertex-metadata-v1''
           then Inl (CorruptValue key (''unsupported vertex metadata version '' @ header))
           else rfold (vertex_metadata_line key) lines vertex_metadata_default)"

definition encode_edge_metadata :: "edge_metadata \<Rightarrow> bytes" where
  "encode_edge_metadata metadata =
     ''edge-metadata-v1'' @ [NL] @ concat (map property_line (ed_properties metadata))"

definition property_only_line :: "string \<Rightarrow> string \<Rightarrow> string \<Rightarrow> properties \<Rightarrow> properties result" where
  "property_only_line what key line properties =
     (let bad = Inl (CorruptValue key (''invalid '' @ what @ '' line '' @ line)) in
      case split_on TAB line of
        [a, name, encoded] \<Rightarrow>
          if a = ''property'' then insert_property key name encoded properties else bad
      | _ \<Rightarrow> bad)"

definition decode_edge_metadata :: "string \<Rightarrow> bytes \<Rightarrow> edge_metadata result" where
  "decode_edge_metadata key value =
     rbind (utf8_text key value) (\<lambda>text.
       case str_lines text of
         [] \<Rightarrow> Inl (CorruptValue key ''empty edge metadata'')
       | header # lines \<Rightarrow>
           if header \<noteq> ''edge-metadata-v1''
           then Inl (CorruptValue key (''unsupported edge metadata version '' @ header))
           else map_ok (\<lambda>ps. \<lparr>ed_properties = ps\<rparr>)
             (rfold (property_only_line ''edge metadata'' key) lines (ed_properties edge_metadata_default)))"

definition encode_relationship_record :: "relationship_record \<Rightarrow> bytes" where
  "encode_relationship_record record =
     ''relationship'' @ [NL] @ concat (map property_line (ed_properties (rr_metadata record)))"

definition decode_relationship_record :: "string \<Rightarrow> bytes \<Rightarrow> relationship_record result" where
  "decode_relationship_record key value =
     rbind (utf8_text key value) (\<lambda>text.
       case str_lines text of
         [] \<Rightarrow> Inl (CorruptValue key ''empty relationship record'')
       | header # lines \<Rightarrow>
           if header \<noteq> ''relationship''
           then Inl (CorruptValue key ''expected relationship header'')
           else rbind (parse_relationship_record_key key) (\<lambda>record.
             map_ok (\<lambda>ps. record\<lparr>rr_metadata := (rr_metadata record)\<lparr>ed_properties := ps\<rparr>\<rparr>)
               (rfold (property_only_line ''relationship record'' key) lines
                  (ed_properties (rr_metadata record)))))"

text \<open>Well-formed metadata: names are key components, values are in stored form, containers in order.\<close>

definition wf_properties :: "properties \<Rightarrow> bool" where
  "wf_properties ps \<longleftrightarrow> bt_ok ps
     \<and> (\<forall>(name, v) \<in> set ps. valid_component name \<and> wf_value v \<and> normal_value v)"

definition wf_vertex_metadata :: "vertex_metadata \<Rightarrow> bool" where
  "wf_vertex_metadata m \<longleftrightarrow>
     bs_ok (vm_labels m) \<and> (\<forall>l \<in> set (vm_labels m). valid_component l) \<and> wf_properties (vm_properties m)"

definition wf_edge_metadata :: "edge_metadata \<Rightarrow> bool" where
  "wf_edge_metadata m \<longleftrightarrow> wf_properties (ed_properties m)"

subsection \<open>Lines\<close>

lemma utf8_text_ascii [simp]: "is_ascii s \<Longrightarrow> utf8_text key s = Inr s"
  by (simp add: utf8_text_def)

lemma split_tab2: "TAB \<notin> set a \<Longrightarrow> TAB \<notin> set b \<Longrightarrow> split_on TAB (a @ TAB # b) = [a, b]"
  using split_on_join_with[of "[a, b]" TAB] by simp

lemma split_tab3:
  "TAB \<notin> set a \<Longrightarrow> TAB \<notin> set b \<Longrightarrow> TAB \<notin> set c \<Longrightarrow> split_on TAB (a @ TAB # b @ TAB # c) = [a, b, c]"
  using split_on_join_with[of "[a, b, c]" TAB] by simp

definition property_text :: "string \<times> vertex_property_value \<Rightarrow> string" where
  "property_text p = ''property'' @ TAB # fst p @ TAB # encode_vertex_property_value_record (snd p)"

definition label_text :: "string \<Rightarrow> string" where
  "label_text l = ''label'' @ TAB # l"

lemma property_line_text: "property_line p = property_text p @ [NL]"
  by (simp add: property_line_def property_text_def)

lemma split_property_text:
  "valid_component (fst p) \<Longrightarrow>
     split_on TAB (property_text p) = [''property'', fst p, encode_vertex_property_value_record (snd p)]"
  unfolding property_text_def
  by (rule split_tab3) (simp_all add: valid_component_avoids value_record_avoids)

lemma split_label_text: "valid_component l \<Longrightarrow> split_on TAB (label_text l) = [''label'', l]"
  unfolding label_text_def by (rule split_tab2) (simp_all add: valid_component_avoids)

lemma text_line_ok:
  "valid_component (fst p) \<Longrightarrow> NL \<notin> set (property_text p) \<and> CR \<notin> set (property_text p) \<and> is_ascii (property_text p)"
  "valid_component l \<Longrightarrow> NL \<notin> set (label_text l) \<and> CR \<notin> set (label_text l) \<and> is_ascii (label_text l)"
  by (auto simp: property_text_def label_text_def valid_component_avoids value_record_avoids)

text \<open>A text of clean lines, each ended by a newline, splits into these lines.\<close>

lemma text_record_lines:
  assumes "\<forall>l \<in> set ls. NL \<notin> set l \<and> CR \<notin> set l \<and> is_ascii l"
  shows "utf8_text key (concat (map (\<lambda>l. l @ [NL]) ls)) = Inr (concat (map (\<lambda>l. l @ [NL]) ls))"
    and "str_lines (concat (map (\<lambda>l. l @ [NL]) ls)) = ls"
proof -
  show "utf8_text key (concat (map (\<lambda>l. l @ [NL]) ls)) = Inr (concat (map (\<lambda>l. l @ [NL]) ls))"
    using assms by (intro utf8_text_ascii) auto
  show "str_lines (concat (map (\<lambda>l. l @ [NL]) ls)) = ls"
    using assms by (intro str_lines_concat) auto
qed

lemma insert_property_ok:
  "valid_component name \<Longrightarrow> wf_value v \<Longrightarrow> normal_value v \<Longrightarrow>
     insert_property key name (encode_vertex_property_value_record v) ps = Inr (bt_insert name v ps)"
  by (simp add: insert_property_def decode_value_record stored_value_id)

lemma fold_property_lines:
  "\<forall>(name, v) \<in> set ps. valid_component name \<and> wf_value v \<and> normal_value v \<Longrightarrow>
     rfold (property_only_line what key) (map property_text ps) acc = Inr (bt_extend acc ps)"
proof (induction ps arbitrary: acc)
  case (Cons p ps)
  obtain name v where p: "p = (name, v)" by (cases p)
  then have "property_only_line what key (property_text p) acc = Inr (bt_insert name v acc)"
    using Cons.prems by (simp add: property_only_line_def split_property_text insert_property_ok)
  then show ?case using Cons p by (simp add: bt_extend_def)
qed (simp add: bt_extend_def)

lemma fold_vertex_property_lines:
  "\<forall>(name, v) \<in> set ps. valid_component name \<and> wf_value v \<and> normal_value v \<Longrightarrow>
     rfold (vertex_metadata_line key) (map property_text ps) m
       = Inr (m\<lparr>vm_properties := bt_extend (vm_properties m) ps\<rparr>)"
proof (induction ps arbitrary: m)
  case (Cons p ps)
  obtain name v where p: "p = (name, v)" by (cases p)
  then have "vertex_metadata_line key (property_text p) m
      = Inr (m\<lparr>vm_properties := bt_insert name v (vm_properties m)\<rparr>)"
    using Cons.prems by (simp add: vertex_metadata_line_def split_property_text insert_property_ok)
  then show ?case using Cons p by (simp add: bt_extend_def)
qed (simp add: bt_extend_def)

lemma fold_label_lines:
  "\<forall>l \<in> set ls. valid_component l \<Longrightarrow>
     rfold (vertex_metadata_line key) (map label_text ls) m
       = Inr (m\<lparr>vm_labels := bs_extend (vm_labels m) ls\<rparr>)"
proof (induction ls arbitrary: m)
  case (Cons l ls)
  then have "vertex_metadata_line key (label_text l) m
      = Inr (m\<lparr>vm_labels := bs_insert l (vm_labels m)\<rparr>)"
    by (simp add: vertex_metadata_line_def split_label_text)
  then show ?case using Cons by (simp add: bs_extend_def)
qed (simp add: bs_extend_def)

subsection \<open>Round trips\<close>

lemma encode_vertex_metadata_lines:
  "encode_vertex_metadata m = concat (map (\<lambda>l. l @ [NL])
     (''vertex-metadata-v1'' # map label_text (vm_labels m) @ map property_text (vm_properties m)))"
  by (simp add: encode_vertex_metadata_def label_text_def property_line_text[abs_def] comp_def)

lemma encode_edge_metadata_lines:
  "encode_edge_metadata m =
     concat (map (\<lambda>l. l @ [NL]) (''edge-metadata-v1'' # map property_text (ed_properties m)))"
  by (simp add: encode_edge_metadata_def property_line_text[abs_def] comp_def)

lemma encode_relationship_record_lines:
  "encode_relationship_record r =
     concat (map (\<lambda>l. l @ [NL]) (''relationship'' # map property_text (ed_properties (rr_metadata r))))"
  by (simp add: encode_relationship_record_def property_line_text[abs_def] comp_def)

lemma property_texts_clean:
  "wf_properties ps \<Longrightarrow> \<forall>l \<in> set (map property_text ps). NL \<notin> set l \<and> CR \<notin> set l \<and> is_ascii l"
  using text_line_ok(1) by (fastforce simp: wf_properties_def)

lemma label_texts_clean:
  "\<forall>l \<in> set ls. valid_component l \<Longrightarrow> \<forall>l \<in> set (map label_text ls). NL \<notin> set l \<and> CR \<notin> set l \<and> is_ascii l"
  using text_line_ok(2) by auto

lemma vertex_metadata_roundtrip:
  assumes "wf_vertex_metadata m"
  shows "decode_vertex_metadata key (encode_vertex_metadata m) = Inr m"
proof -
  let ?ls = "map label_text (vm_labels m) @ map property_text (vm_properties m)"
  note wf = assms[unfolded wf_vertex_metadata_def]
  have clean: "\<forall>l \<in> set (''vertex-metadata-v1'' # ?ls). NL \<notin> set l \<and> CR \<notin> set l \<and> is_ascii l"
    using label_texts_clean[of "vm_labels m"] property_texts_clean[of "vm_properties m"] wf by auto
  have "rfold (vertex_metadata_line key) ?ls vertex_metadata_default =
      Inr (vertex_metadata_default\<lparr>vm_labels := bs_extend [] (vm_labels m),
             vm_properties := bt_extend [] (vm_properties m)\<rparr>)"
    using wf by (simp add: rfold_append fold_label_lines fold_vertex_property_lines wf_properties_def)
  also have "\<dots> = Inr m"
    using wf bs_extend_rebuild[of "[]" "vm_labels m"] bt_extend_rebuild[of "[]" "vm_properties m"]
    by (simp add: wf_properties_def)
  finally show ?thesis
    unfolding decode_vertex_metadata_def encode_vertex_metadata_lines text_record_lines(1)[OF clean]
      rbind.simps text_record_lines(2)[OF clean] by simp
qed

lemma property_lines_rebuild:
  "wf_properties ps \<Longrightarrow> rfold (property_only_line what key) (map property_text ps) [] = Inr ps"
  using bt_extend_rebuild[of "[]" ps] by (simp add: wf_properties_def fold_property_lines)

lemma edge_metadata_roundtrip:
  assumes "wf_edge_metadata m"
  shows "decode_edge_metadata key (encode_edge_metadata m) = Inr m"
proof -
  let ?ls = "map property_text (ed_properties m)"
  have wf: "wf_properties (ed_properties m)" using assms by (simp add: wf_edge_metadata_def)
  have clean: "\<forall>l \<in> set (''edge-metadata-v1'' # ?ls). NL \<notin> set l \<and> CR \<notin> set l \<and> is_ascii l"
    using property_texts_clean[OF wf] by auto
  show ?thesis
    unfolding decode_edge_metadata_def encode_edge_metadata_lines text_record_lines(1)[OF clean]
      rbind.simps text_record_lines(2)[OF clean]
    by (simp add: property_lines_rebuild[OF wf])
qed

lemma relationship_record_roundtrip:
  assumes "wf_edge_metadata (rr_metadata r)" "valid_component (rr_cell_id r)" "valid_component (rr_edge_type r)"
  shows "decode_relationship_record
      (relationship_key (rr_cell_id r) (rr_edge_type r) (rr_src r) (rr_dst r) (rr_relationship_id r))
      (encode_relationship_record r) = Inr r"
proof -
  let ?ls = "map property_text (ed_properties (rr_metadata r))"
  have wf: "wf_properties (ed_properties (rr_metadata r))" using assms by (simp add: wf_edge_metadata_def)
  have clean: "\<forall>l \<in> set (''relationship'' # ?ls). NL \<notin> set l \<and> CR \<notin> set l \<and> is_ascii l"
    using property_texts_clean[OF wf] by auto
  show ?thesis
    unfolding decode_relationship_record_def encode_relationship_record_lines text_record_lines(1)[OF clean]
      rbind.simps text_record_lines(2)[OF clean]
    using assms by (simp add: property_lines_rebuild[OF wf] parse_relationship_key)
qed

lemma encode_query_stats_lines:
  "encode_query_stats_record r = concat (map (\<lambda>l. l @ [NL])
     [''query-stats-v1'', ''count'' @ TAB # fmt_u64 (qs_count r), ''read_epoch'' @ TAB # fmt_u64 (qs_read_epoch r),
      ''refreshed_at_ms'' @ TAB # fmt_u64 (qs_refreshed_at_ms r),
      ''distinct_values'' @ TAB # fmt_u64 (qs_distinct_values r),
      ''total_values'' @ TAB # fmt_u64 (qs_total_values r),
      ''most_common_count'' @ TAB # fmt_u64 (qs_most_common_count r)])"
  by (simp add: encode_query_stats_record_def)

lemma query_stats_line_ok:
  "TAB \<notin> set f \<Longrightarrow> query_stats_line key (f @ TAB # fmt_u64 w) acc =
     (if f = ''count'' then Inr (acc\<lparr>qf_count := Some w\<rparr>)
      else if f = ''read_epoch'' then Inr (acc\<lparr>qf_read_epoch := Some w\<rparr>)
      else if f = ''refreshed_at_ms'' then Inr (acc\<lparr>qf_refreshed_at_ms := Some w\<rparr>)
      else if f = ''distinct_values'' then Inr (acc\<lparr>qf_distinct_values := Some w\<rparr>)
      else if f = ''total_values'' then Inr (acc\<lparr>qf_total_values := Some w\<rparr>)
      else if f = ''most_common_count'' then Inr (acc\<lparr>qf_most_common_count := Some w\<rparr>)
      else Inl (CorruptValue key (''unknown query stats field '' @ f)))"
  unfolding query_stats_line_def
  by (subst split_tab2) (simp_all add: valid_component_avoids[OF fmt_u64_component])

lemmas query_stats_lines =
  query_stats_line_ok[of "''count''", simplified] query_stats_line_ok[of "''read_epoch''", simplified]
  query_stats_line_ok[of "''refreshed_at_ms''", simplified]
  query_stats_line_ok[of "''distinct_values''", simplified]
  query_stats_line_ok[of "''total_values''", simplified]
  query_stats_line_ok[of "''most_common_count''", simplified]

lemma query_stats_roundtrip:
  "decode_query_stats_record key (encode_query_stats_record r) = Inr r"
proof -
  let ?ls = "[''count'' @ TAB # fmt_u64 (qs_count r), ''read_epoch'' @ TAB # fmt_u64 (qs_read_epoch r),
      ''refreshed_at_ms'' @ TAB # fmt_u64 (qs_refreshed_at_ms r),
      ''distinct_values'' @ TAB # fmt_u64 (qs_distinct_values r),
      ''total_values'' @ TAB # fmt_u64 (qs_total_values r),
      ''most_common_count'' @ TAB # fmt_u64 (qs_most_common_count r)]"
  have clean: "\<forall>l \<in> set (''query-stats-v1'' # ?ls). NL \<notin> set l \<and> CR \<notin> set l \<and> is_ascii l"
    by (auto simp: valid_component_avoids[OF fmt_u64_component])
  have len: "length (encode_query_stats_record r) \<noteq> 8"
    by (simp add: encode_query_stats_record_def)
  have fields: "rfold (query_stats_line key) ?ls
      \<lparr>qf_count = None, qf_read_epoch = None, qf_refreshed_at_ms = None,
       qf_distinct_values = None, qf_total_values = None, qf_most_common_count = None\<rparr> =
      Inr \<lparr>qf_count = Some (qs_count r), qf_read_epoch = Some (qs_read_epoch r),
       qf_refreshed_at_ms = Some (qs_refreshed_at_ms r), qf_distinct_values = Some (qs_distinct_values r),
       qf_total_values = Some (qs_total_values r), qf_most_common_count = Some (qs_most_common_count r)\<rparr>"
    by (simp add: query_stats_lines)
  show ?thesis
    using len unfolding decode_query_stats_record_def encode_query_stats_lines text_record_lines(1)[OF clean]
      rbind.simps text_record_lines(2)[OF clean] list.case fields
    by (simp add: required_query_stats_field_def)
qed

subsection \<open>Decoders return well-formed values\<close>

lemma wf_properties_Nil [simp]: "wf_properties []"
  by (simp add: wf_properties_def)

lemma wf_properties_insert:
  "wf_properties ps \<Longrightarrow> valid_component name \<Longrightarrow> wf_value v \<Longrightarrow> normal_value v \<Longrightarrow>
     wf_properties (bt_insert name v ps)"
  using set_bt_insert[of name v ps] by (fastforce simp: wf_properties_def)

lemma insert_property_wf:
  "insert_property key name encoded ps = Inr qs \<Longrightarrow> wf_properties ps \<Longrightarrow> wf_properties qs"
  using decode_value_wf wf_properties_insert
  unfolding insert_property_def rbind_Inr_iff validate_component_iff by blast

lemma property_only_line_wf:
  "property_only_line what key line ps = Inr qs \<Longrightarrow> wf_properties ps \<Longrightarrow> wf_properties qs"
  unfolding property_only_line_def Let_def
  by (simp split: list.splits if_splits add: insert_property_wf)

lemma vertex_metadata_line_wf:
  assumes "vertex_metadata_line key line m = Inr n" "wf_vertex_metadata m"
  shows "wf_vertex_metadata n"
proof -
  consider (label) l where "valid_component l" "n = m\<lparr>vm_labels := bs_insert l (vm_labels m)\<rparr>"
    | (property) name enc ps where "insert_property key name enc (vm_properties m) = Inr ps"
        "n = m\<lparr>vm_properties := ps\<rparr>"
    using assms(1) unfolding vertex_metadata_line_def Let_def
    by (simp split: list.splits if_splits add: map_ok_Inr_iff rbind_Inr_iff validate_component_iff) blast+
  then show ?thesis
  proof cases
    case label
    then show ?thesis using assms(2) by (auto simp: wf_vertex_metadata_def)
  next
    case property
    then show ?thesis using assms(2) insert_property_wf by (auto simp: wf_vertex_metadata_def)
  qed
qed

lemma header_case:
  "(case ls of [] \<Rightarrow> Inl e | h # t \<Rightarrow> if h \<noteq> h0 then Inl (g h) else f t) = Inr y \<longleftrightarrow>
     (\<exists>t. ls = h0 # t \<and> f t = Inr y)"
  by (auto split: list.split)

lemma decode_vertex_metadata_wf:
  assumes "decode_vertex_metadata key bs = Inr m"
  shows "wf_vertex_metadata m"
proof -
  from assms obtain lines where "rfold (vertex_metadata_line key) lines vertex_metadata_default = Inr m"
    unfolding decode_vertex_metadata_def rbind_Inr_iff header_case by blast
  moreover have "wf_vertex_metadata vertex_metadata_default"
    by (simp add: wf_vertex_metadata_def)
  ultimately show ?thesis
    using vertex_metadata_line_wf by (blast intro: rfold_invariant[where P = wf_vertex_metadata])
qed

lemma fold_property_lines_wf:
  "rfold (property_only_line what key) lines ps = Inr qs \<Longrightarrow> wf_properties ps \<Longrightarrow> wf_properties qs"
  using property_only_line_wf by (blast intro: rfold_invariant[where P = wf_properties])

lemma decode_edge_metadata_wf:
  assumes "decode_edge_metadata key bs = Inr m"
  shows "wf_edge_metadata m"
proof -
  from assms obtain lines ps where "rfold (property_only_line ''edge metadata'' key) lines [] = Inr ps"
    "m = \<lparr>ed_properties = ps\<rparr>"
    unfolding decode_edge_metadata_def rbind_Inr_iff header_case map_ok_Inr_iff by auto
  then show ?thesis using fold_property_lines_wf by (auto simp: wf_edge_metadata_def)
qed

lemma parse_relationship_default:
  "parse_relationship_record_key key = Inr r \<Longrightarrow> rr_metadata r = edge_metadata_default
     \<and> valid_component (rr_cell_id r) \<and> valid_component (rr_edge_type r)"
  unfolding parse_relationship_record_key_def Let_def
  by (auto simp: rbind_Inr_iff validate_component_iff split: list.splits if_splits)

lemma decode_relationship_record_wf:
  assumes "decode_relationship_record key bs = Inr r"
  shows "wf_edge_metadata (rr_metadata r) \<and> valid_component (rr_cell_id r) \<and> valid_component (rr_edge_type r)"
proof -
  from assms obtain lines ps r' where r: "parse_relationship_record_key key = Inr r'"
    "rfold (property_only_line ''relationship record'' key) lines (ed_properties (rr_metadata r')) = Inr ps"
    "r = r'\<lparr>rr_metadata := (rr_metadata r')\<lparr>ed_properties := ps\<rparr>\<rparr>"
    unfolding decode_relationship_record_def rbind_Inr_iff header_case map_ok_Inr_iff by blast
  with parse_relationship_default[OF r(1)] fold_property_lines_wf[OF r(2)] show ?thesis
    by (simp add: wf_edge_metadata_def)
qed

subsection \<open>Properties\<close>

text \<open>C34 (metadata_roundtrip). Vertex metadata, edge metadata and a relationship record (decoded
  under the key it is stored at) survive encoding and decoding unchanged when their names are key
  components and their values are in stored form.\<close>

theorem metadata_roundtrip:
  assumes "wf_vertex_metadata m" and "wf_edge_metadata e"
    and "valid_component c" and "valid_component t"
  shows "decode_vertex_metadata key (encode_vertex_metadata m) = Inr m
    \<and> decode_edge_metadata key (encode_edge_metadata e) = Inr e
    \<and> decode_relationship_record (relationship_key c t s d r)
        (encode_relationship_record \<lparr>rr_cell_id = c, rr_edge_type = t, rr_src = s, rr_dst = d,
           rr_relationship_id = r, rr_metadata = e\<rparr>)
        = Inr \<lparr>rr_cell_id = c, rr_edge_type = t, rr_src = s, rr_dst = d,
           rr_relationship_id = r, rr_metadata = e\<rparr>"
  using assms vertex_metadata_roundtrip edge_metadata_roundtrip
    relationship_record_roundtrip[of "\<lparr>rr_cell_id = c, rr_edge_type = t, rr_src = s, rr_dst = d,
       rr_relationship_id = r, rr_metadata = e\<rparr>"] by simp

theorem metadata_roundtrip_witness:
  "decode_vertex_metadata ''k'' (encode_vertex_metadata
      \<lparr>vm_labels = [''Person''], vm_properties = [(''age'', VInteger 7)]\<rparr>)
    = Inr \<lparr>vm_labels = [''Person''], vm_properties = [(''age'', VInteger 7)]\<rparr>"
proof -
  have m: "wf_vertex_metadata \<lparr>vm_labels = [''Person''], vm_properties = [(''age'', VInteger 7)]\<rparr>"
    by (simp add: wf_vertex_metadata_def wf_properties_def bs_ok_def bt_ok_def valid_component_def component_byte_def)
  have e: "wf_edge_metadata edge_metadata_default" by (simp add: wf_edge_metadata_def)
  from metadata_roundtrip[OF m e literal_component(1) literal_component(3)] show ?thesis by blast
qed

text \<open>C35 (metadata_decoders_sound). Whatever bytes are stored, a metadata decoder that succeeds
  returns well-formed data: labels and property names that are valid key components (so that the
  index keys built from them are valid), ordered containers without duplicates, and values in
  stored form.\<close>

theorem metadata_decoders_sound:
  "(decode_vertex_metadata key bs = Inr m \<longrightarrow> wf_vertex_metadata m)
   \<and> (decode_edge_metadata key bs = Inr e \<longrightarrow> wf_edge_metadata e)
   \<and> (decode_relationship_record key bs = Inr r \<longrightarrow>
        wf_edge_metadata (rr_metadata r) \<and> valid_component (rr_cell_id r) \<and> valid_component (rr_edge_type r))"
  using decode_vertex_metadata_wf decode_edge_metadata_wf decode_relationship_record_wf by blast

theorem metadata_decoders_sound_witness:
  "\<exists>m. decode_vertex_metadata ''k'' (encode_vertex_metadata (vertex_with_label vertex_metadata_default ''A'')) = Inr m
     \<and> wf_vertex_metadata m"
proof -
  have "wf_vertex_metadata (vertex_with_label vertex_metadata_default ''A'')"
    by (simp add: wf_vertex_metadata_def vertex_with_label_def bs_ok_def valid_component_def component_byte_def)
  from vertex_metadata_roundtrip[OF this, of "''k''"] metadata_decoders_sound show ?thesis by blast
qed

text \<open>A query statistics record decodes to itself, and the 8-byte
  counter the program wrote before the text format decodes to the record with that count.\<close>

theorem query_stats_roundtrip_both:
  "decode_query_stats_record key (encode_query_stats_record r) = Inr r
   \<and> decode_query_stats_record key (encode_u64 n) = Inr (point_count n 0 0)"
  by (simp add: query_stats_roundtrip decode_query_stats_record_def[of _ "encode_u64 n"])

end
