(* ===== verification/Codec_Idempotency.thy ===== *)
theory Codec_Idempotency
  imports Codec_Metadata
begin

text \<open>
  \<^verbatim>\<open>src/codec.rs\<close>, the idempotency records: every mutating operation stores its result under its
  idempotency key, together with the identity of what it was asked to do. A repeated request reads
  the record back instead of writing again. The properties: the same request gets the stored
  result, and a different request under the same key is refused with a conflict, never answered
  with the result of the other one.
\<close>

text \<open>The short-circuiting disjunction whose operands may fail.\<close>

definition or_else :: "bool result \<Rightarrow> bool result \<Rightarrow> bool result" where
  "or_else a b = rbind a (\<lambda>x. if x then Inr True else b)"

definition parsed_differs :: "string \<Rightarrow> string \<Rightarrow> string \<Rightarrow> u64 \<Rightarrow> bool result" where
  "parsed_differs key value field expected =
     rbind (parse_u64 key value field) (\<lambda>v. Inr (v \<noteq> expected))"

definition tab_record :: "string list \<Rightarrow> bytes" where
  "tab_record fs = join_with TAB fs @ [NL]"

definition record_parts :: "string \<Rightarrow> bytes \<Rightarrow> string list result" where
  "record_parts key value =
     rbind (utf8_text key value) (\<lambda>text. Inr (split_on TAB (trim_end_matches NL text)))"

definition encode_commit_idempotency :: "edge_mutation \<Rightarrow> commit_result \<Rightarrow> bytes" where
  "encode_commit_idempotency mutation result =
     tab_record [''graph-commit-idempotency-v1'', fmt_u64 (cr_epoch result),
       fmt_bool_u8 (cr_already_existed result), em_cell_id mutation, em_edge_type mutation,
       fmt_u64 (em_src mutation), fmt_u64 (em_dst mutation)]"

definition encode_delete_idempotency :: "edge_mutation \<Rightarrow> delete_result \<Rightarrow> bytes" where
  "encode_delete_idempotency mutation result =
     tab_record [''graph-delete-idempotency-v1'', fmt_u64 (dr_epoch result),
       fmt_bool_u8 (dr_deleted result), em_cell_id mutation, em_edge_type mutation,
       fmt_u64 (em_src mutation), fmt_u64 (em_dst mutation)]"

definition encode_relationship_delete_idempotency ::
    "edge_mutation \<Rightarrow> relationship_id \<Rightarrow> delete_result \<Rightarrow> bytes" where
  "encode_relationship_delete_idempotency mutation relationship_id result =
     tab_record [''relationship_delete1'', fmt_u64 (dr_epoch result),
       fmt_bool_u8 (dr_deleted result), em_cell_id mutation, em_edge_type mutation,
       fmt_u64 (em_src mutation), fmt_u64 (em_dst mutation), fmt_u64 relationship_id]"

definition encode_vertex_delete_idempotency ::
    "string \<Rightarrow> vertex_id \<Rightarrow> vertex_delete_result \<Rightarrow> bytes" where
  "encode_vertex_delete_idempotency cell_id vertex_id result =
     tab_record [''vertex_delete1'', fmt_u64 (vd_epoch result), fmt_bool_u8 (vd_vertex_deleted result),
       fmt_u64 (vd_incident_edges_deleted result), fmt_u64 (vd_relationships_deleted result),
       cell_id, fmt_u64 vertex_id]"

definition encode_cell_drop_idempotency ::
    "string \<Rightarrow> string \<Rightarrow> graph_cell_drop_result \<Rightarrow> bytes" where
  "encode_cell_drop_idempotency cell_id idempotency_key result =
     tab_record [''cell_drop1'', fmt_u64 (cd_marker_epoch result), fmt_u64 (cd_deleted_keys result),
       fmt_u64 (cd_batches result), fmt_bool_u8 (cd_already_dropped result), cell_id, idempotency_key]"

definition encode_bulk_import_idempotency ::
    "string \<Rightarrow> u64 \<Rightarrow> bulk_import_result \<Rightarrow> bytes" where
  "encode_bulk_import_idempotency idempotency_key fingerprint result =
     tab_record [''bulk_import1'', fmt_u64 (bi_start_epoch result), fmt_u64 (bi_end_epoch result),
       fmt_u64 (bi_inserted result), fmt_u64 (bi_already_existed result), fmt_u64 fingerprint,
       idempotency_key]"

definition encode_relationship_import_idempotency ::
    "string \<Rightarrow> u64 \<Rightarrow> relationship_import_result \<Rightarrow> bytes" where
  "encode_relationship_import_idempotency idempotency_key fingerprint result =
     tab_record [''relationship_import1'', fmt_u64 (ri_start_epoch result), fmt_u64 (ri_end_epoch result),
       fmt_u64 (ri_relationships_inserted result), fmt_u64 (ri_relationships_already_existed result),
       fmt_u64 (ri_structural_edges_inserted result),
       fmt_u64 (ri_structural_edges_already_existed result), fmt_u64 fingerprint, idempotency_key]"

definition encode_relationship_create_idempotency ::
    "edge_mutation \<Rightarrow> u64 \<Rightarrow> relationship_create_result \<Rightarrow> bytes" where
  "encode_relationship_create_idempotency mutation fingerprint result =
     tab_record [''relationship_create1'', fmt_u64 (rc_epoch result), fmt_u64 (rc_relationship_id result),
       fmt_bool_u8 (rc_structural_edge_inserted result), fmt_bool_u8 (rc_already_created result),
       fmt_u64 fingerprint, em_cell_id mutation, em_edge_type mutation, fmt_u64 (em_src mutation),
       fmt_u64 (em_dst mutation)]"

definition encode_segment_compaction_idempotency ::
    "string \<Rightarrow> segment_compaction_result \<Rightarrow> bytes" where
  "encode_segment_compaction_idempotency idempotency_key result =
     tab_record [''segment_compact1'', fmt_u64 (sc_compacted_through_epoch result),
       fmt_u64 (sc_source_segments result), fmt_u64 (sc_deleted_segment_keys result),
       fmt_u64 (sc_deleted_tombstone_keys result), fmt_u64 (sc_input_edges result),
       fmt_u64 (sc_output_edges result), idempotency_key]"

definition ensure_idempotent_edge ::
    "string \<Rightarrow> string \<Rightarrow> edge_mutation \<Rightarrow> string list \<Rightarrow> unit result" where
  "ensure_idempotent_edge key operation mutation fs =
     (case fs of
        [cell_id, edge_type, src, dst] \<Rightarrow>
          rbind (or_else (Inr (cell_id \<noteq> em_cell_id mutation))
                (or_else (Inr (edge_type \<noteq> em_edge_type mutation))
                (or_else (parsed_differs key src ''src'' (em_src mutation))
                         (parsed_differs key dst ''dst'' (em_dst mutation))))) (\<lambda>differs.
            if differs then
              Inl (IdempotencyConflict operation (em_idempotency_key mutation)
                     ''this key already stored a result for a different edge'')
            else Inr ())
      | _ \<Rightarrow> Inl (CorruptValue key ''expected idempotency edge identity''))"

definition decode_bulk_import_idempotency ::
    "string \<Rightarrow> string \<Rightarrow> u64 \<Rightarrow> bytes \<Rightarrow> bulk_import_result result" where
  "decode_bulk_import_idempotency key idempotency_key fingerprint value =
     rbind (record_parts key value) (\<lambda>parts.
       if length parts \<noteq> 7 \<or> parts ! 0 \<noteq> ''bulk_import1'' then
         Inl (CorruptValue key ''expected bulk_import1 record with 7 fields'')
       else if parts ! 6 \<noteq> idempotency_key then
         Inl (IdempotencyConflict ''bulk-import'' idempotency_key ''the stored record names a different key'')
       else rbind (parsed_differs key (parts ! 5) ''fingerprint'' fingerprint) (\<lambda>differs.
         if differs then
           Inl (IdempotencyConflict ''bulk-import'' idempotency_key
                  ''this key already stored a result for a different payload'')
         else
           rbind (parse_u64 key (parts ! 1) ''start_epoch'') (\<lambda>start_epoch.
           rbind (parse_u64 key (parts ! 2) ''end_epoch'') (\<lambda>end_epoch.
           rbind (parse_u64 key (parts ! 3) ''inserted'') (\<lambda>inserted.
           rbind (parse_u64 key (parts ! 4) ''already_existed'') (\<lambda>already_existed.
             Inr \<lparr>bi_start_epoch = start_epoch, bi_end_epoch = end_epoch, bi_inserted = inserted,
                  bi_already_existed = already_existed\<rparr>))))))"

definition decode_relationship_import_idempotency ::
    "string \<Rightarrow> string \<Rightarrow> u64 \<Rightarrow> bytes \<Rightarrow> relationship_import_result result" where
  "decode_relationship_import_idempotency key idempotency_key fingerprint value =
     rbind (record_parts key value) (\<lambda>parts.
       if length parts \<noteq> 9 \<or> parts ! 0 \<noteq> ''relationship_import1'' then
         Inl (CorruptValue key ''expected relationship_import1 record with 9 fields'')
       else if parts ! 8 \<noteq> idempotency_key then
         Inl (IdempotencyConflict ''relationship-import'' idempotency_key
                ''the stored record names a different key'')
       else rbind (parsed_differs key (parts ! 7) ''fingerprint'' fingerprint) (\<lambda>differs.
         if differs then
           Inl (IdempotencyConflict ''relationship-import'' idempotency_key
                  ''this key already stored a result for a different payload'')
         else
           rbind (parse_u64 key (parts ! 1) ''start_epoch'') (\<lambda>start_epoch.
           rbind (parse_u64 key (parts ! 2) ''end_epoch'') (\<lambda>end_epoch.
           rbind (parse_u64 key (parts ! 3) ''relationships_inserted'') (\<lambda>inserted.
           rbind (parse_u64 key (parts ! 4) ''relationships_already_existed'') (\<lambda>existed.
           rbind (parse_u64 key (parts ! 5) ''structural_edges_inserted'') (\<lambda>edges_inserted.
           rbind (parse_u64 key (parts ! 6) ''structural_edges_already_existed'') (\<lambda>edges_existed.
             Inr \<lparr>ri_start_epoch = start_epoch, ri_end_epoch = end_epoch,
                  ri_relationships_inserted = inserted, ri_relationships_already_existed = existed,
                  ri_structural_edges_inserted = edges_inserted,
                  ri_structural_edges_already_existed = edges_existed\<rparr>))))))))"

definition decode_relationship_create_idempotency ::
    "string \<Rightarrow> edge_mutation \<Rightarrow> u64 \<Rightarrow> bytes \<Rightarrow> relationship_create_result result" where
  "decode_relationship_create_idempotency key mutation fingerprint value =
     rbind (record_parts key value) (\<lambda>parts.
       if length parts \<noteq> 10 \<or> parts ! 0 \<noteq> ''relationship_create1'' then
         Inl (CorruptValue key ''expected relationship_create1 record with 10 fields'')
       else rbind
         (or_else (parsed_differs key (parts ! 5) ''fingerprint'' fingerprint)
         (or_else (Inr (parts ! 6 \<noteq> em_cell_id mutation))
         (or_else (Inr (parts ! 7 \<noteq> em_edge_type mutation))
         (or_else (parsed_differs key (parts ! 8) ''src'' (em_src mutation))
                  (parsed_differs key (parts ! 9) ''dst'' (em_dst mutation)))))) (\<lambda>differs.
         if differs then
           Inl (IdempotencyConflict ''relationship-create'' (em_idempotency_key mutation)
                  ''this key already stored a result for a different edge or payload'')
         else
           rbind (parse_u64 key (parts ! 1) ''epoch'') (\<lambda>epoch.
           rbind (parse_u64 key (parts ! 2) ''relationship_id'') (\<lambda>relationship_id.
           rbind (parse_bool_u8 key (parts ! 3) ''structural_edge_inserted'') (\<lambda>inserted.
           rbind (parse_bool_u8 key (parts ! 4) ''already_created'') (\<lambda>already_created.
             Inr \<lparr>rc_epoch = epoch, rc_relationship_id = relationship_id,
                  rc_structural_edge_inserted = inserted, rc_already_created = already_created\<rparr>))))))"

definition decode_delete_idempotency ::
    "string \<Rightarrow> edge_mutation \<Rightarrow> bytes \<Rightarrow> delete_result result" where
  "decode_delete_idempotency key mutation value =
     rbind (record_parts key value) (\<lambda>parts.
       if length parts \<noteq> 7 \<or> parts ! 0 \<noteq> ''graph-delete-idempotency-v1'' then
         Inl (CorruptValue key ''expected graph-delete-idempotency-v1 record with 7 fields'')
       else
         rbind (ensure_idempotent_edge key ''delete'' mutation (take 4 (drop 3 parts))) (\<lambda>_.
         rbind (decode_bool_flag key (parts ! 2) ''deleted'') (\<lambda>deleted.
         rbind (parse_u64 key (parts ! 1) ''epoch'') (\<lambda>epoch.
           Inr \<lparr>dr_epoch = epoch, dr_deleted = deleted\<rparr>))))"

definition decode_relationship_delete_idempotency ::
    "string \<Rightarrow> edge_mutation \<Rightarrow> relationship_id \<Rightarrow> bytes \<Rightarrow> delete_result result" where
  "decode_relationship_delete_idempotency key mutation relationship_id value =
     rbind (record_parts key value) (\<lambda>parts.
       if length parts \<noteq> 8 \<or> parts ! 0 \<noteq> ''relationship_delete1'' then
         Inl (CorruptValue key ''expected relationship_delete1 record with 8 fields'')
       else rbind
         (or_else (Inr (parts ! 3 \<noteq> em_cell_id mutation))
         (or_else (Inr (parts ! 4 \<noteq> em_edge_type mutation))
         (or_else (parsed_differs key (parts ! 5) ''src'' (em_src mutation))
         (or_else (parsed_differs key (parts ! 6) ''dst'' (em_dst mutation))
                  (parsed_differs key (parts ! 7) ''relationship_id'' relationship_id))))) (\<lambda>differs.
         if differs then
           Inl (IdempotencyConflict ''relationship-delete'' (em_idempotency_key mutation)
                  ''this key already stored a result for a different relationship'')
         else
           rbind (parse_u64 key (parts ! 1) ''epoch'') (\<lambda>epoch.
           rbind (parse_bool_u8 key (parts ! 2) ''deleted'') (\<lambda>deleted.
             Inr \<lparr>dr_epoch = epoch, dr_deleted = deleted\<rparr>))))"

definition decode_vertex_delete_idempotency ::
    "string \<Rightarrow> string \<Rightarrow> vertex_id \<Rightarrow> string \<Rightarrow> bytes \<Rightarrow> vertex_delete_result result" where
  "decode_vertex_delete_idempotency key cell_id vertex_id idempotency_key value =
     rbind (record_parts key value) (\<lambda>parts.
       if length parts \<noteq> 7 \<or> parts ! 0 \<noteq> ''vertex_delete1'' then
         Inl (CorruptValue key ''expected vertex_delete1 record with 7 fields'')
       else rbind
         (or_else (Inr (parts ! 5 \<noteq> cell_id)) (parsed_differs key (parts ! 6) ''vertex_id'' vertex_id)) (\<lambda>differs.
         if differs then
           Inl (IdempotencyConflict ''vertex-delete'' idempotency_key
                  ''this key already stored a result for a different vertex'')
         else
           rbind (parse_u64 key (parts ! 1) ''epoch'') (\<lambda>epoch.
           rbind (parse_bool_u8 key (parts ! 2) ''vertex_deleted'') (\<lambda>vertex_deleted.
           rbind (parse_u64 key (parts ! 3) ''incident_edges_deleted'') (\<lambda>edges.
           rbind (parse_u64 key (parts ! 4) ''relationships_deleted'') (\<lambda>relationships.
             Inr \<lparr>vd_epoch = epoch, vd_vertex_deleted = vertex_deleted,
                  vd_incident_edges_deleted = edges, vd_relationships_deleted = relationships\<rparr>))))))"

definition decode_cell_drop_idempotency ::
    "string \<Rightarrow> string \<Rightarrow> string \<Rightarrow> bytes \<Rightarrow> graph_cell_drop_result result" where
  "decode_cell_drop_idempotency key cell_id idempotency_key value =
     rbind (record_parts key value) (\<lambda>parts.
       if length parts \<noteq> 7 \<or> parts ! 0 \<noteq> ''cell_drop1'' then
         Inl (CorruptValue key ''expected cell_drop1 record with 7 fields'')
       else if parts ! 5 \<noteq> cell_id \<or> parts ! 6 \<noteq> idempotency_key then
         Inl (IdempotencyConflict ''cell-drop'' idempotency_key
                ''this key already stored a result for a different cell'')
       else
         rbind (parse_u64 key (parts ! 1) ''marker_epoch'') (\<lambda>marker_epoch.
         rbind (parse_u64 key (parts ! 2) ''deleted_keys'') (\<lambda>deleted_keys.
         rbind (parse_u64 key (parts ! 3) ''batches'') (\<lambda>batches.
         rbind (parse_bool_u8 key (parts ! 4) ''already_dropped'') (\<lambda>already_dropped.
           Inr \<lparr>cd_marker_epoch = marker_epoch, cd_deleted_keys = deleted_keys, cd_batches = batches,
                cd_already_dropped = already_dropped\<rparr>)))))"

definition decode_commit_idempotency ::
    "string \<Rightarrow> edge_mutation \<Rightarrow> bytes \<Rightarrow> commit_result result" where
  "decode_commit_idempotency key mutation value =
     rbind (record_parts key value) (\<lambda>parts.
       if length parts \<noteq> 7 \<or> parts ! 0 \<noteq> ''graph-commit-idempotency-v1'' then
         Inl (CorruptValue key ''expected graph-commit-idempotency-v1 record with 7 fields'')
       else
         rbind (ensure_idempotent_edge key ''create'' mutation (take 4 (drop 3 parts))) (\<lambda>_.
         rbind (decode_bool_flag key (parts ! 2) ''already_existed'') (\<lambda>already_existed.
         rbind (parse_u64 key (parts ! 1) ''epoch'') (\<lambda>epoch.
           Inr \<lparr>cr_epoch = epoch, cr_already_existed = already_existed\<rparr>))))"

definition decode_segment_compaction_idempotency ::
    "string \<Rightarrow> string \<Rightarrow> storage_sequence \<Rightarrow> bytes \<Rightarrow> segment_compaction_result result" where
  "decode_segment_compaction_idempotency key idempotency_key compacted_through_epoch value =
     rbind (record_parts key value) (\<lambda>parts.
       if length parts \<noteq> 8 \<or> parts ! 0 \<noteq> ''segment_compact1'' then
         Inl (CorruptValue key ''expected segment_compact1 record with 8 fields'')
       else if parts ! 7 \<noteq> idempotency_key then
         Inl (IdempotencyConflict ''segment-compact'' idempotency_key
                ''the stored record names a different key'')
       else rbind (parse_u64 key (parts ! 1) ''compacted_through_epoch'') (\<lambda>recorded_epoch.
         if recorded_epoch \<noteq> compacted_through_epoch then
           Inl (IdempotencyConflict ''segment-compact'' idempotency_key
                  ''a stored result for this key compacted through a different epoch'')
         else
           rbind (parse_u64 key (parts ! 2) ''source_segments'') (\<lambda>source_segments.
           rbind (parse_u64 key (parts ! 3) ''deleted_segment_keys'') (\<lambda>deleted_segment_keys.
           rbind (parse_u64 key (parts ! 4) ''deleted_tombstone_keys'') (\<lambda>deleted_tombstone_keys.
           rbind (parse_u64 key (parts ! 5) ''input_edges'') (\<lambda>input_edges.
           rbind (parse_u64 key (parts ! 6) ''output_edges'') (\<lambda>output_edges.
             Inr \<lparr>sc_compacted_through_epoch = recorded_epoch, sc_source_segments = source_segments,
                  sc_deleted_segment_keys = deleted_segment_keys,
                  sc_deleted_tombstone_keys = deleted_tombstone_keys, sc_input_edges = input_edges,
                  sc_output_edges = output_edges\<rparr>)))))))"

subsection \<open>Tab records\<close>

lemma or_else_simps [simp]:
  "or_else (Inr True) b = Inr True" "or_else (Inr False) b = b" "or_else (Inl e) b = Inl e"
  by (simp_all add: or_else_def)

lemma or_else_Inr: "or_else (Inr x) (Inr y) = Inr (x \<or> y)"
  by (cases x) simp_all

lemma parsed_differs_fmt [simp]: "parsed_differs key (fmt_u64 w) field v = Inr (w \<noteq> v)"
  by (simp add: parsed_differs_def)

lemma join_with_set: "c \<in> set (join_with sep ws) \<Longrightarrow> c = sep \<or> (\<exists>w \<in> set ws. c \<in> set w)"
  by (induction sep ws rule: join_with.induct) auto

lemma record_parts_tab_record:
  assumes "fs \<noteq> []" "\<forall>f \<in> set fs. valid_component f"
  shows "record_parts key (tab_record fs) = Inr fs"
proof -
  have "is_ascii (tab_record fs)"
    using assms(2) valid_component_ascii join_with_set[of _ TAB fs]
    by (fastforce simp: tab_record_def is_ascii_def)
  moreover have "NL \<notin> set (join_with TAB fs)"
    using assms(2) valid_component_avoids(3) join_with_set[of NL TAB fs] by auto
  ultimately show ?thesis
    using assms valid_component_avoids(2)
    by (simp add: record_parts_def tab_record_def trim_end_matches_id split_on_join_with)
qed

lemma record_headers:
  "valid_component ''graph-commit-idempotency-v1''" "valid_component ''graph-delete-idempotency-v1''"
  "valid_component ''relationship_delete1''" "valid_component ''vertex_delete1''"
  "valid_component ''cell_drop1''" "valid_component ''bulk_import1''"
  "valid_component ''relationship_import1''" "valid_component ''relationship_create1''"
  "valid_component ''segment_compact1''"
  by (simp_all add: valid_component_def component_byte_def)

definition valid_mutation :: "edge_mutation \<Rightarrow> bool" where
  "valid_mutation m \<longleftrightarrow> valid_component (em_cell_id m) \<and> valid_component (em_edge_type m)
     \<and> valid_component (em_idempotency_key m)"

definition same_edge :: "edge_mutation \<Rightarrow> edge_mutation \<Rightarrow> bool" where
  "same_edge m n \<longleftrightarrow> em_cell_id m = em_cell_id n \<and> em_edge_type m = em_edge_type n
     \<and> em_src m = em_src n \<and> em_dst m = em_dst n"

definition is_conflict :: "'a result \<Rightarrow> bool" where
  "is_conflict r \<longleftrightarrow> (case r of Inl (IdempotencyConflict _ _ _) \<Rightarrow> True | _ \<Rightarrow> False)"

lemma is_conflict_simps [simp]:
  "is_conflict (Inl (IdempotencyConflict a b c))" "\<not> is_conflict (Inr x)"
  by (simp_all add: is_conflict_def)

text \<open>Decoding a stored record: the result for the same request, a conflict for another one.\<close>

lemma decode_commit_record:
  "valid_mutation n \<Longrightarrow> decode_commit_idempotency key m (encode_commit_idempotency n r) =
     (if same_edge m n then Inr r else
      Inl (IdempotencyConflict ''create'' (em_idempotency_key m)
        ''this key already stored a result for a different edge''))"
  unfolding decode_commit_idempotency_def encode_commit_idempotency_def
  by (subst record_parts_tab_record)
    (auto simp: record_headers valid_mutation_def ensure_idempotent_edge_def or_else_Inr same_edge_def)

lemma decode_delete_record:
  "valid_mutation n \<Longrightarrow> decode_delete_idempotency key m (encode_delete_idempotency n r) =
     (if same_edge m n then Inr r else
      Inl (IdempotencyConflict ''delete'' (em_idempotency_key m)
        ''this key already stored a result for a different edge''))"
  unfolding decode_delete_idempotency_def encode_delete_idempotency_def
  by (subst record_parts_tab_record)
    (auto simp: record_headers valid_mutation_def ensure_idempotent_edge_def or_else_Inr same_edge_def)

lemma decode_relationship_delete_record:
  "valid_mutation n \<Longrightarrow>
     decode_relationship_delete_idempotency key m i (encode_relationship_delete_idempotency n j r) =
     (if same_edge m n \<and> i = j then Inr r else
      Inl (IdempotencyConflict ''relationship-delete'' (em_idempotency_key m)
        ''this key already stored a result for a different relationship''))"
  unfolding decode_relationship_delete_idempotency_def encode_relationship_delete_idempotency_def
  by (subst record_parts_tab_record)
    (auto simp: record_headers valid_mutation_def or_else_Inr same_edge_def)

lemma decode_vertex_delete_record:
  "valid_component c \<Longrightarrow>
     decode_vertex_delete_idempotency key c' v' i (encode_vertex_delete_idempotency c v r) =
     (if c' = c \<and> v' = v then Inr r else
      Inl (IdempotencyConflict ''vertex-delete'' i
        ''this key already stored a result for a different vertex''))"
  unfolding decode_vertex_delete_idempotency_def encode_vertex_delete_idempotency_def
  by (subst record_parts_tab_record) (auto simp: record_headers or_else_Inr)

lemma decode_cell_drop_record:
  "valid_component c \<Longrightarrow> valid_component i \<Longrightarrow>
     decode_cell_drop_idempotency key c' i' (encode_cell_drop_idempotency c i r) =
     (if c' = c \<and> i' = i then Inr r else
      Inl (IdempotencyConflict ''cell-drop'' i' ''this key already stored a result for a different cell''))"
  unfolding decode_cell_drop_idempotency_def encode_cell_drop_idempotency_def
  by (subst record_parts_tab_record) (auto simp: record_headers)

lemma decode_bulk_import_record:
  "valid_component i \<Longrightarrow>
     decode_bulk_import_idempotency key i f' (encode_bulk_import_idempotency i f r) =
     (if f' = f then Inr r else
      Inl (IdempotencyConflict ''bulk-import'' i ''this key already stored a result for a different payload''))"
  unfolding decode_bulk_import_idempotency_def encode_bulk_import_idempotency_def
  by (subst record_parts_tab_record) (auto simp: record_headers)

lemma decode_relationship_import_record:
  "valid_component i \<Longrightarrow>
     decode_relationship_import_idempotency key i f' (encode_relationship_import_idempotency i f r) =
     (if f' = f then Inr r else
      Inl (IdempotencyConflict ''relationship-import'' i
        ''this key already stored a result for a different payload''))"
  unfolding decode_relationship_import_idempotency_def encode_relationship_import_idempotency_def
  by (subst record_parts_tab_record) (auto simp: record_headers)

lemma decode_relationship_create_record:
  "valid_mutation n \<Longrightarrow>
     decode_relationship_create_idempotency key m f' (encode_relationship_create_idempotency n f r) =
     (if same_edge m n \<and> f' = f then Inr r else
      Inl (IdempotencyConflict ''relationship-create'' (em_idempotency_key m)
        ''this key already stored a result for a different edge or payload''))"
  unfolding decode_relationship_create_idempotency_def encode_relationship_create_idempotency_def
  by (subst record_parts_tab_record)
    (auto simp: record_headers valid_mutation_def or_else_Inr same_edge_def)

lemma decode_segment_compaction_record:
  "valid_component i \<Longrightarrow>
     decode_segment_compaction_idempotency key i q (encode_segment_compaction_idempotency i r) =
     (if q = sc_compacted_through_epoch r then Inr r else
      Inl (IdempotencyConflict ''segment-compact'' i
        ''a stored result for this key compacted through a different epoch''))"
  unfolding decode_segment_compaction_idempotency_def encode_segment_compaction_idempotency_def
  by (subst record_parts_tab_record) (auto simp: record_headers)

lemmas stored_record_decoders =
  decode_commit_record decode_delete_record decode_relationship_delete_record
  decode_relationship_create_record decode_vertex_delete_record decode_cell_drop_record
  decode_bulk_import_record decode_relationship_import_record decode_segment_compaction_record

subsection \<open>Properties\<close>

text \<open>C16 (idempotency_replay). A request repeated under its idempotency key reads back exactly the
  result that was stored for it, for each of the nine kinds of idempotent operation: edge create and
  delete, relationship create and delete, vertex delete, cell drop, bulk import, relationship import
  and segment compaction.\<close>

theorem idempotency_replay:
  assumes "valid_mutation m" and "valid_component c" and "valid_component i"
  shows "decode_commit_idempotency key m (encode_commit_idempotency m commit) = Inr commit
    \<and> decode_delete_idempotency key m (encode_delete_idempotency m delete) = Inr delete
    \<and> decode_relationship_create_idempotency key m f (encode_relationship_create_idempotency m f created) = Inr created
    \<and> decode_relationship_delete_idempotency key m r (encode_relationship_delete_idempotency m r delete) = Inr delete
    \<and> decode_vertex_delete_idempotency key c v i (encode_vertex_delete_idempotency c v vertex_delete) = Inr vertex_delete
    \<and> decode_cell_drop_idempotency key c i (encode_cell_drop_idempotency c i drop_result) = Inr drop_result
    \<and> decode_bulk_import_idempotency key i f (encode_bulk_import_idempotency i f imported) = Inr imported
    \<and> decode_relationship_import_idempotency key i f (encode_relationship_import_idempotency i f rels) = Inr rels
    \<and> decode_segment_compaction_idempotency key i (sc_compacted_through_epoch compacted)
        (encode_segment_compaction_idempotency i compacted) = Inr compacted"
  using assms by (simp add: stored_record_decoders same_edge_def)

theorem idempotency_replay_witness:
  "decode_commit_idempotency ''k''
     \<lparr>em_cell_id = ''c1'', em_edge_type = ''T'', em_src = 1, em_dst = 2, em_idempotency_key = ''i-1''\<rparr>
     (encode_commit_idempotency
       \<lparr>em_cell_id = ''c1'', em_edge_type = ''T'', em_src = 1, em_dst = 2, em_idempotency_key = ''i-1''\<rparr>
       \<lparr>cr_epoch = 9, cr_already_existed = False\<rparr>) = Inr \<lparr>cr_epoch = 9, cr_already_existed = False\<rparr>"
proof -
  have "valid_mutation
      \<lparr>em_cell_id = ''c1'', em_edge_type = ''T'', em_src = 1, em_dst = 2, em_idempotency_key = ''i-1''\<rparr>"
    by (simp add: valid_mutation_def valid_component_def component_byte_def)
  from idempotency_replay[OF this literal_component(1) literal_component(2)] show ?thesis by blast
qed

text \<open>C17 (idempotency_conflict). A request that reuses an idempotency key for something else (another
  edge, relationship, vertex, cell, payload fingerprint or compaction horizon) is refused with an
  idempotency conflict: it is neither answered with the stored result nor reported as corruption.\<close>

theorem idempotency_conflict:
  assumes "valid_mutation n" and "valid_component c" and "valid_component i"
  shows "(\<not> same_edge m n \<longrightarrow>
        is_conflict (decode_commit_idempotency key m (encode_commit_idempotency n commit))
        \<and> is_conflict (decode_delete_idempotency key m (encode_delete_idempotency n delete)))
    \<and> (\<not> same_edge m n \<or> f' \<noteq> f \<longrightarrow>
        is_conflict (decode_relationship_create_idempotency key m f'
          (encode_relationship_create_idempotency n f created)))
    \<and> (\<not> same_edge m n \<or> r' \<noteq> r \<longrightarrow>
        is_conflict (decode_relationship_delete_idempotency key m r'
          (encode_relationship_delete_idempotency n r delete)))
    \<and> (c' \<noteq> c \<or> v' \<noteq> v \<longrightarrow>
        is_conflict (decode_vertex_delete_idempotency key c' v' i (encode_vertex_delete_idempotency c v vertex_delete)))
    \<and> (c' \<noteq> c \<or> i' \<noteq> i \<longrightarrow>
        is_conflict (decode_cell_drop_idempotency key c' i' (encode_cell_drop_idempotency c i drop_result)))
    \<and> (f' \<noteq> f \<longrightarrow>
        is_conflict (decode_bulk_import_idempotency key i f' (encode_bulk_import_idempotency i f imported))
        \<and> is_conflict (decode_relationship_import_idempotency key i f'
             (encode_relationship_import_idempotency i f rels)))
    \<and> (q \<noteq> sc_compacted_through_epoch compacted \<longrightarrow>
        is_conflict (decode_segment_compaction_idempotency key i q
          (encode_segment_compaction_idempotency i compacted)))"
  using assms by (auto simp: stored_record_decoders)

theorem idempotency_conflict_witness:
  "is_conflict (decode_commit_idempotency ''k''
     \<lparr>em_cell_id = ''c1'', em_edge_type = ''T'', em_src = 1, em_dst = 3, em_idempotency_key = ''i-1''\<rparr>
     (encode_commit_idempotency
       \<lparr>em_cell_id = ''c1'', em_edge_type = ''T'', em_src = 1, em_dst = 2, em_idempotency_key = ''i-1''\<rparr>
       \<lparr>cr_epoch = 9, cr_already_existed = False\<rparr>))"
proof -
  have v: "valid_mutation
      \<lparr>em_cell_id = ''c1'', em_edge_type = ''T'', em_src = 1, em_dst = 2, em_idempotency_key = ''i-1''\<rparr>"
    by (simp add: valid_mutation_def valid_component_def component_byte_def)
  have "\<not> same_edge
      \<lparr>em_cell_id = ''c1'', em_edge_type = ''T'', em_src = 1, em_dst = 3, em_idempotency_key = ''i-1''\<rparr>
      \<lparr>em_cell_id = ''c1'', em_edge_type = ''T'', em_src = 1, em_dst = 2, em_idempotency_key = ''i-1''\<rparr>"
    by (simp add: same_edge_def)
  with idempotency_conflict[OF v literal_component(1) literal_component(2)] show ?thesis by blast
qed

end
