(* ===== verification/Rust_Hash.thy ===== *)
theory Rust_Hash
  imports Rust_Prelude
begin

text \<open>
  The hash kernel shared by \<^verbatim>\<open>src/codec.rs\<close> and the placement crate: FNV-1a over a byte string, and
  the facts that one FNV-1a step and one xor-shift-multiply round are injective on 64-bit words.
\<close>

unbundle bit_operations_syntax

definition fnv_offset :: u64 where
  "fnv_offset = 0xcbf29ce484222325"

definition fnv_prime :: u64 where
  "fnv_prime = 0x00000100000001b3"

definition u64_from_byte :: "char \<Rightarrow> u64" where
  "u64_from_byte byte = word_of_nat (of_char byte)"

definition fnv_step :: "char \<Rightarrow> u64 \<Rightarrow> u64" where
  "fnv_step byte hash = (hash XOR u64_from_byte byte) * fnv_prime"

definition fnv_update :: "bytes \<Rightarrow> u64 \<Rightarrow> u64" where
  "fnv_update bytes hash = fold fnv_step bytes hash"

subsection \<open>Injective rounds\<close>

lemma odd_mult_inj:
  fixes a b k :: u64
  assumes "odd (uint k)"
  shows "a * k = b * k \<longleftrightarrow> a = b"
proof
  assume eq: "a * k = b * k"
  have "coprime (uint k) (2 ^ 64)"
    using assms coprime_power_right_iff[of "uint k" 2 64] coprime_right_2_iff_odd[of "uint k"] by blast
  moreover have "2 ^ 64 dvd (uint a - uint b) * uint k"
  proof -
    have "uint (a * k) = uint (b * k)" using eq by simp
    then have "(uint a * uint k) mod 2 ^ 64 = (uint b * uint k) mod 2 ^ 64"
      by (simp add: uint_word_ariths)
    then show ?thesis by (simp add: mod_eq_dvd_iff left_diff_distrib)
  qed
  ultimately have "2 ^ 64 dvd uint a - uint b"
    by (metis coprime_commute coprime_dvd_mult_left_iff)
  moreover have "\<bar>uint a - uint b\<bar> < 2 ^ 64"
  proof -
    have "0 \<le> uint a" "0 \<le> uint b" by simp_all
    moreover have "uint a < 2 ^ 64" "uint b < 2 ^ 64"
      using uint_bounded[of a] uint_bounded[of b] by simp_all
    ultimately show ?thesis unfolding abs_less_iff by linarith
  qed
  ultimately have "uint a - uint b = 0"
    by (metis dvd_imp_le_int linorder_not_less abs_numeral abs_of_nonneg zero_le_power zero_le_numeral)
  then show "a = b" by (simp add: word_uint_eq_iff)
qed simp

lemma xor_cancel: "(a :: u64) XOR c = b XOR c \<longleftrightarrow> a = b"
proof
  assume "a XOR c = b XOR c"
  then have "(a XOR c) XOR c = (b XOR c) XOR c" by simp
  then show "a = b" by (simp add: xor.assoc)
qed simp

lemma xorshift_inj:
  fixes a b :: u64
  assumes "0 < k"
  shows "a XOR drop_bit k a = b XOR drop_bit k b \<longleftrightarrow> a = b"
proof
  assume eq: "a XOR drop_bit k a = b XOR drop_bit k b"
  have bits: "bit a n = bit b n" if "64 - n = m" for n m
    using that
  proof (induction m arbitrary: n rule: less_induct)
    case (less m)
    show ?case
    proof (cases "n < 64")
      case True
      then have "bit a (n + k) = bit b (n + k)"
        using less.IH[of "64 - (n + k)" "n + k"] less.prems assms by simp
      moreover have "bit (a XOR drop_bit k a) n = bit (b XOR drop_bit k b) n" using eq by simp
      ultimately show ?thesis by (auto simp: bit_xor_iff bit_drop_bit_eq add.commute)
    next
      case False
      then show ?thesis using bit_imp_le_length[of a n] bit_imp_le_length[of b n] by auto
    qed
  qed
  show "a = b" by (rule bit_word_eqI) (use bits in blast)
qed simp

lemma of_char_256: "(of_char c :: nat) < 256"
  using of_char_mod_256[of c, where ?'a = nat] mod_less_divisor[of 256 "of_char c :: nat"] by simp

lemma u64_from_byte_inj [simp]: "u64_from_byte c = u64_from_byte d \<longleftrightarrow> c = d"
proof
  assume eq: "u64_from_byte c = u64_from_byte d"
  have "unat (u64_from_byte x) = of_char x" for x
    using less_trans[OF of_char_256[of x], of "2 ^ 64"]
    by (simp add: u64_from_byte_def unat_of_nat take_bit_eq_mod)
  then have "(of_char c :: nat) = of_char d" using eq by metis
  then show "c = d" by simp
qed simp

lemma fnv_prime_odd: "odd (uint fnv_prime)"
  by (simp add: fnv_prime_def)

lemma fnv_step_inj [simp]: "fnv_step c h = fnv_step c h' \<longleftrightarrow> h = h'"
  by (simp add: fnv_step_def odd_mult_inj fnv_prime_odd xor_cancel)

lemma fnv_step_byte: "fnv_step c h = fnv_step d h \<longleftrightarrow> c = d"
  using xor_cancel[of "u64_from_byte c" h "u64_from_byte d"]
  by (simp add: fnv_step_def odd_mult_inj fnv_prime_odd xor.commute)

lemma fnv_update_inj [simp]: "fnv_update bs h = fnv_update bs h' \<longleftrightarrow> h = h'"
  by (induction bs arbitrary: h h') (simp_all add: fnv_update_def)

lemma fnv_update_append: "fnv_update (xs @ ys) h = fnv_update ys (fnv_update xs h)"
  by (simp add: fnv_update_def)

lemma fnv_update_byte:
  "fnv_update (a @ x # b) h = fnv_update (a @ y # b) h \<longleftrightarrow> x = y"
proof -
  have "fnv_update (a @ z # b) h = fnv_update b (fnv_step z (fnv_update a h))" for z
    by (simp add: fnv_update_def)
  then show ?thesis by (simp add: fnv_step_byte)
qed

lemma xor_cancel_left: "(c :: u64) XOR a = c XOR b \<longleftrightarrow> a = b"
  using xor_cancel[of a c b] by (simp add: xor.commute)

lemma rotl_inj: "word_rotl n (a :: u64) = word_rotl n b \<longleftrightarrow> a = b"
  by (metis word_rot_lr)

text \<open>The rounds of the splitmix64 finalizer.\<close>

definition xorshift :: "nat \<Rightarrow> u64 \<Rightarrow> u64" where
  "xorshift k v = v XOR drop_bit k v"

definition mix_round :: "nat \<Rightarrow> u64 \<Rightarrow> u64 \<Rightarrow> u64" where
  "mix_round k m v = (v XOR drop_bit k v) * m"

lemma xorshift_eq_inj: "0 < k \<Longrightarrow> xorshift k a = xorshift k b \<longleftrightarrow> a = b"
  unfolding xorshift_def by (rule xorshift_inj)

lemma mix_round_inj: "0 < k \<Longrightarrow> odd (uint m) \<Longrightarrow> mix_round k m a = mix_round k m b \<longleftrightarrow> a = b"
  unfolding mix_round_def using odd_mult_inj[of m] xorshift_inj[of k a b] by blast

end
