(* ===== verification/Codec_Hash.thy ===== *)
theory Codec_Hash
  imports Codec_Idempotency Rust_Hash "HOL-Library.Multiset"
begin

text \<open>
  \<^verbatim>\<open>src/codec.rs\<close>, hashes and counters: the FNV-1a fingerprints stored with import and create
  results, the writer lane of a cell, the shuffled order of a bulk import, and the merging of batch
  results into an ingest summary.
\<close>

unbundle bit_operations_syntax

definition bulk_import_fingerprint ::
    "string \<Rightarrow> string \<Rightarrow> (vertex_id \<times> vertex_id) list \<Rightarrow> u64" where
  "bulk_import_fingerprint cell_id edge_type edges =
     (let hash = fnv_offset;
          hash = fnv_update cell_id hash;
          hash = fnv_update [NUL] hash;
          hash = fnv_update edge_type hash;
          hash = fnv_update [NUL] hash in
      fold (\<lambda>(src, dst) hash. fnv_update (to_be_bytes dst) (fnv_update (to_be_bytes src) hash)) edges hash)"

definition fingerprint_property :: "string \<Rightarrow> string \<times> vertex_property_value \<Rightarrow> u64 \<Rightarrow> u64" where
  "fingerprint_property tag p hash =
     fnv_update [NUL] (fnv_update (encode_vertex_property_value_record (snd p))
       (fnv_update ''='' (fnv_update (fst p) (fnv_update tag hash))))"

definition relationship_import_fingerprint ::
    "string \<Rightarrow> string \<Rightarrow> relationship_mutation list \<Rightarrow> u64" where
  "relationship_import_fingerprint cell_id edge_type relationships =
     (let hash = fnv_offset;
          hash = fnv_update cell_id hash;
          hash = fnv_update [NUL] hash;
          hash = fnv_update edge_type hash;
          hash = fnv_update [NUL] hash in
      fold (\<lambda>r hash.
          fold (fingerprint_property []) (ed_properties (rm_metadata r))
            (fnv_update (to_be_bytes (rm_relationship_id r))
              (fnv_update (to_be_bytes (rm_dst r)) (fnv_update (to_be_bytes (rm_src r)) hash))))
        relationships hash)"

definition relationship_create_fingerprint ::
    "edge_mutation \<Rightarrow> (vertex_id \<times> vertex_metadata) list \<Rightarrow> edge_metadata \<Rightarrow> u64" where
  "relationship_create_fingerprint mutation metadata_updates edge_metadata =
     (let hash = fnv_offset;
          hash = fnv_update (em_cell_id mutation) hash;
          hash = fnv_update [NUL] hash;
          hash = fnv_update (em_edge_type mutation) hash;
          hash = fnv_update [NUL] hash;
          hash = fnv_update (to_be_bytes (em_src mutation)) hash;
          hash = fnv_update (to_be_bytes (em_dst mutation)) hash;
          hash = fnv_update [NUL] hash;
          hash = fold (\<lambda>(vertex_id, metadata) hash.
              fold (fingerprint_property ''vprop:'') (vm_properties metadata)
                (fold (\<lambda>label hash. fnv_update [NUL] (fnv_update label (fnv_update ''label:'' hash)))
                  (vm_labels metadata) (fnv_update (to_be_bytes vertex_id) hash)))
            metadata_updates hash in
      fold (fingerprint_property ''rprop:'') (ed_properties edge_metadata) hash)"

definition bulk_import_chunk_order :: "vertex_id \<Rightarrow> vertex_id \<Rightarrow> u64" where
  "bulk_import_chunk_order src dst =
     (let value = (src XOR word_rotl 32 dst) XOR 0x9e3779b97f4a7c15;
          value = (value XOR drop_bit 30 value) * 0xbf58476d1ce4e5b9;
          value = (value XOR drop_bit 27 value) * 0x94d049bb133111eb in
      value XOR drop_bit 31 value)"

definition segment_compaction_idempotency_operation :: "string \<Rightarrow> vertex_id \<Rightarrow> string" where
  "segment_compaction_idempotency_operation edge_type src =
     ''segment-compact-'' @ edge_type @ ''-'' @ fmt_020 src"

definition graph_write_lanes :: nat where
  "graph_write_lanes = 64"

definition writer_lane_index :: "string \<Rightarrow> nat" where
  "writer_lane_index cell_id = unat (fnv_update cell_id fnv_offset) mod graph_write_lanes"

definition duration_micros_u64 :: "duration \<Rightarrow> u64" where
  "duration_micros_u64 d = (if d div 1000 < 2 ^ 64 then word_of_nat (d div 1000) else - 1)"

text \<open>The five mutable counters of an ingest run, updated by each batch.\<close>

record ingest_totals =
  it_start_epoch :: "storage_sequence option"
  it_end_epoch :: storage_sequence
  it_inserted :: u64
  it_already_existed :: u64
  it_batches :: u64

definition merge_ingest_batch :: "edge_mutation_batch_result \<Rightarrow> ingest_totals \<Rightarrow> ingest_totals" where
  "merge_ingest_batch batch totals =
     \<lparr>it_start_epoch =
        (if 0 < mb_inserted batch then
           Some (case it_start_epoch totals of
             None \<Rightarrow> mb_start_epoch batch | Some epoch \<Rightarrow> min epoch (mb_start_epoch batch))
         else it_start_epoch totals),
      it_end_epoch = max (it_end_epoch totals) (mb_end_epoch batch),
      it_inserted = saturating_add (it_inserted totals) (mb_inserted batch),
      it_already_existed = saturating_add (it_already_existed totals) (mb_already_existed batch),
      it_batches = saturating_add (it_batches totals) 1\<rparr>"

subsection \<open>Payloads\<close>

definition edge_payload :: "vertex_id \<times> vertex_id \<Rightarrow> bytes" where
  "edge_payload e = to_be_bytes (fst e) @ to_be_bytes (snd e)"

definition property_payload :: "string \<Rightarrow> string \<times> vertex_property_value \<Rightarrow> bytes" where
  "property_payload tag p = tag @ fst p @ ''='' @ encode_vertex_property_value_record (snd p) @ [NUL]"

definition relationship_payload :: "relationship_mutation \<Rightarrow> bytes" where
  "relationship_payload r = to_be_bytes (rm_src r) @ to_be_bytes (rm_dst r)
     @ to_be_bytes (rm_relationship_id r) @ concat (map (property_payload []) (ed_properties (rm_metadata r)))"

definition vertex_payload :: "vertex_id \<times> vertex_metadata \<Rightarrow> bytes" where
  "vertex_payload u = to_be_bytes (fst u) @ concat (map (\<lambda>l. ''label:'' @ l @ [NUL]) (vm_labels (snd u)))
     @ concat (map (property_payload ''vprop:'') (vm_properties (snd u)))"

lemma fold_fnv_update:
  "(\<And>x h. f x h = fnv_update (g x) h) \<Longrightarrow> fold f xs h = fnv_update (concat (map g xs)) h"
  by (induction xs arbitrary: h) (simp_all add: fnv_update_def)

lemma fingerprint_property_payload: "fingerprint_property tag p h = fnv_update (property_payload tag p) h"
  by (simp add: fingerprint_property_def property_payload_def fnv_update_append[symmetric])

lemma fold_fingerprint_property:
  "fold (fingerprint_property tag) ps h = fnv_update (concat (map (property_payload tag) ps)) h"
  by (rule fold_fnv_update) (rule fingerprint_property_payload)

lemma bulk_import_fingerprint_payload:
  "bulk_import_fingerprint c t es =
     fnv_update (c @ [NUL] @ t @ [NUL] @ concat (map edge_payload es)) fnv_offset"
proof -
  have "fold (\<lambda>(src, dst) hash. fnv_update (to_be_bytes dst) (fnv_update (to_be_bytes src) hash)) es h
      = fnv_update (concat (map edge_payload es)) h" for h
    by (rule fold_fnv_update) (simp add: edge_payload_def fnv_update_append split_beta)
  then show ?thesis by (simp add: bulk_import_fingerprint_def fnv_update_append[symmetric] Let_def)
qed

lemma relationship_import_fingerprint_payload:
  "relationship_import_fingerprint c t rs =
     fnv_update (c @ [NUL] @ t @ [NUL] @ concat (map relationship_payload rs)) fnv_offset"
proof -
  have "fold (\<lambda>r hash. fold (fingerprint_property []) (ed_properties (rm_metadata r))
          (fnv_update (to_be_bytes (rm_relationship_id r))
            (fnv_update (to_be_bytes (rm_dst r)) (fnv_update (to_be_bytes (rm_src r)) hash)))) rs h
      = fnv_update (concat (map relationship_payload rs)) h" for h
    by (rule fold_fnv_update)
      (simp add: relationship_payload_def fnv_update_append fold_fingerprint_property)
  then show ?thesis by (simp add: relationship_import_fingerprint_def fnv_update_append[symmetric] Let_def)
qed

lemma relationship_create_fingerprint_payload:
  "relationship_create_fingerprint m us e =
     fnv_update (em_cell_id m @ [NUL] @ em_edge_type m @ [NUL] @ to_be_bytes (em_src m)
       @ to_be_bytes (em_dst m) @ [NUL] @ concat (map vertex_payload us)
       @ concat (map (property_payload ''rprop:'') (ed_properties e))) fnv_offset"
proof -
  have labels: "fold (\<lambda>label hash. fnv_update [NUL] (fnv_update label (fnv_update ''label:'' hash))) ls h
      = fnv_update (concat (map (\<lambda>l. ''label:'' @ l @ [NUL]) ls)) h" for ls h
    by (rule fold_fnv_update) (simp add: fnv_update_append[symmetric])
  have "fold (\<lambda>(vertex_id, metadata) hash.
          fold (fingerprint_property ''vprop:'') (vm_properties metadata)
            (fold (\<lambda>label hash. fnv_update [NUL] (fnv_update label (fnv_update ''label:'' hash)))
              (vm_labels metadata) (fnv_update (to_be_bytes vertex_id) hash))) us h
      = fnv_update (concat (map vertex_payload us)) h" for h
    by (rule fold_fnv_update)
      (simp add: vertex_payload_def fnv_update_append fold_fingerprint_property labels split_beta)
  then show ?thesis
    by (simp add: relationship_create_fingerprint_def fnv_update_append[symmetric] Let_def
        fold_fingerprint_property)
qed

lemma chunk_order_rounds:
  "bulk_import_chunk_order s d = xorshift 31 (mix_round 27 0x94d049bb133111eb
     (mix_round 30 0xbf58476d1ce4e5b9 ((s XOR word_rotl 32 d) XOR 0x9e3779b97f4a7c15)))"
  by (simp only: bulk_import_chunk_order_def Let_def mix_round_def xorshift_def)

subsection \<open>Ingest totals\<close>

lemma saturating_add_left_commute:
  "saturating_add (saturating_add t a) b = saturating_add (saturating_add t b) a"
  by (rule word_unat_eq_iff[THEN iffD2]) (simp add: saturating_add_unat)

lemma merge_ingest_commute:
  "merge_ingest_batch a (merge_ingest_batch b t) = merge_ingest_batch b (merge_ingest_batch a t)"
  by (auto simp: merge_ingest_batch_def saturating_add_left_commute max.commute max.left_commute
      min.commute min.left_commute max.assoc min.assoc split: option.splits)

lemma merge_ingest_inserted:
  "unat (it_inserted (fold merge_ingest_batch bs t)) =
     min (unat (it_inserted t) + sum_list (map (\<lambda>b. unat (mb_inserted b)) bs)) (2 ^ 64 - 1)"
proof (induction bs arbitrary: t)
  case Nil
  then show ?case using u64_bound[of "it_inserted t"] by simp
next
  case (Cons b bs)
  have "unat (it_inserted (merge_ingest_batch b t))
      = min (unat (it_inserted t) + unat (mb_inserted b)) (2 ^ 64 - 1)"
    by (simp add: merge_ingest_batch_def saturating_add_unat)
  then show ?case using Cons by (simp add: min_def)
qed

subsection \<open>Properties\<close>

text \<open>Each payload fingerprint is the FNV-1a hash of one serialisation
  of the whole request (cell, edge type, every edge or relationship, every property and label), and
  two serialisations of equal length that differ in exactly one byte have different fingerprints: a
  retried import with one altered byte is never taken for the original.\<close>

theorem fingerprint_covers_payload:
  "bulk_import_fingerprint c t es =
     fnv_update (c @ [NUL] @ t @ [NUL] @ concat (map edge_payload es)) fnv_offset
   \<and> relationship_import_fingerprint c t rs =
     fnv_update (c @ [NUL] @ t @ [NUL] @ concat (map relationship_payload rs)) fnv_offset
   \<and> relationship_create_fingerprint m us e =
     fnv_update (em_cell_id m @ [NUL] @ em_edge_type m @ [NUL] @ to_be_bytes (em_src m)
       @ to_be_bytes (em_dst m) @ [NUL] @ concat (map vertex_payload us)
       @ concat (map (property_payload ''rprop:'') (ed_properties e))) fnv_offset
   \<and> (fnv_update (p @ x # q) fnv_offset = fnv_update (p @ y # q) fnv_offset \<longleftrightarrow> x = y)"
  using bulk_import_fingerprint_payload relationship_import_fingerprint_payload
    relationship_create_fingerprint_payload fnv_update_byte by simp

text \<open>The shuffling key of a bulk import is injective in the source for a
  fixed destination and in the destination for a fixed source: edges that share an endpoint never
  collide in the shuffled order.\<close>

theorem chunk_order_injective:
  "(bulk_import_chunk_order s d = bulk_import_chunk_order s' d \<longleftrightarrow> s = s')
   \<and> (bulk_import_chunk_order s d = bulk_import_chunk_order s d' \<longleftrightarrow> d = d')"
  by (simp add: chunk_order_rounds mix_round_inj xorshift_eq_inj xor_cancel xor_cancel_left rotl_inj)

text \<open>Merging batch results into the totals of an ingest run does
  not depend on the order in which the batches complete, and the inserted total is the exact sum of
  the batches, capped at the largest 64-bit value instead of wrapping around.\<close>

theorem ingest_totals_order_independent:
  assumes "mset bs = mset bs'"
  shows "fold merge_ingest_batch bs t = fold merge_ingest_batch bs' t
    \<and> unat (it_inserted (fold merge_ingest_batch bs t)) =
        min (unat (it_inserted t) + sum_list (map (\<lambda>b. unat (mb_inserted b)) bs)) (2 ^ 64 - 1)"
proof
  show "fold merge_ingest_batch bs t = fold merge_ingest_batch bs' t"
    using fold_multiset_equiv[of bs merge_ingest_batch bs'] merge_ingest_commute assms
    by (simp add: fun_eq_iff)
qed (rule merge_ingest_inserted)

theorem ingest_totals_order_independent_witness:
  "fold merge_ingest_batch
     [\<lparr>mb_start_epoch = 4, mb_end_epoch = 6, mb_inserted = 2, mb_already_existed = 0, mb_results = []\<rparr>,
      \<lparr>mb_start_epoch = 1, mb_end_epoch = 3, mb_inserted = 3, mb_already_existed = 1, mb_results = []\<rparr>]
     \<lparr>it_start_epoch = None, it_end_epoch = 0, it_inserted = 0, it_already_existed = 0, it_batches = 0\<rparr> =
   fold merge_ingest_batch
     [\<lparr>mb_start_epoch = 1, mb_end_epoch = 3, mb_inserted = 3, mb_already_existed = 1, mb_results = []\<rparr>,
      \<lparr>mb_start_epoch = 4, mb_end_epoch = 6, mb_inserted = 2, mb_already_existed = 0, mb_results = []\<rparr>]
     \<lparr>it_start_epoch = None, it_end_epoch = 0, it_inserted = 0, it_already_existed = 0, it_batches = 0\<rparr>"
proof -
  have "mset [a, b] = mset [b, a]" for a b :: edge_mutation_batch_result by simp
  from ingest_totals_order_independent[OF this] show ?thesis by blast
qed

lemma writer_lane_bound: "writer_lane_index cell_id < graph_write_lanes"
  by (simp add: writer_lane_index_def graph_write_lanes_def)

end
