(* ===== verification/Placement_Hash.thy ===== *)
theory Placement_Hash
  imports Rust_Text Rust_Hash "HOL-Library.Multiset"
begin

text \<open>
  \<^verbatim>\<open>crates/placement/src/hash.rs\<close>: rendezvous placement. Every node scores every live node for a scope
  and cell; the best score owns the cell, ties broken by node id. The properties are the ones the
  fleet relies on: the ranking does not depend on the order in which nodes are listed, a node's
  departure moves only the cells it owned, and an arrival takes cells for itself only.
\<close>

unbundle bit_operations_syntax

definition fnv1a64 :: "bytes list \<Rightarrow> u64" where
  "fnv1a64 chunks = fold (\<lambda>chunk h. fold (\<lambda>b h. (h XOR u64_from_byte b) * fnv_prime) chunk h) chunks fnv_offset"

definition mix64 :: "u64 \<Rightarrow> u64" where
  "mix64 z =
     (let z = z + 0x9e3779b97f4a7c15;
          z = (z XOR drop_bit 30 z) * 0xbf58476d1ce4e5b9;
          z = (z XOR drop_bit 27 z) * 0x94d049bb133111eb in
      z XOR drop_bit 31 z)"

definition score :: "string \<Rightarrow> string \<Rightarrow> string \<Rightarrow> u64" where
  "score scope cell_id node_id = mix64 (fnv1a64 [scope, [NUL], cell_id, [NUL], node_id])"

text \<open>The comparator of \<^verbatim>\<open>rank\<close> as a sort key: score descending, then node id ascending.\<close>

definition rank_key :: "u64 \<times> string \<Rightarrow> int \<times> string" where
  "rank_key p = (- uint (fst p), snd p)"

definition rank :: "string \<Rightarrow> string \<Rightarrow> string list \<Rightarrow> string list" where
  "rank scope cell_id live =
     map snd (sort_key rank_key (map (\<lambda>n. (score scope cell_id n, n)) live))"

definition owner :: "string \<Rightarrow> string \<Rightarrow> string list \<Rightarrow> string option" where
  "owner scope cell_id live =
     (case rank scope cell_id live of [] \<Rightarrow> None | n # _ \<Rightarrow> Some n)"

text \<open>One node beats another for a scope and cell.\<close>

definition beats :: "string \<Rightarrow> string \<Rightarrow> string \<Rightarrow> string \<Rightarrow> bool" where
  "beats scope cell_id a b \<longleftrightarrow>
     score scope cell_id b < score scope cell_id a \<or> (score scope cell_id a = score scope cell_id b \<and> a < b)"

subsection \<open>The mixer\<close>

lemma mix64_rounds:
  "mix64 z = xorshift 31 (mix_round 27 0x94d049bb133111eb (mix_round 30 0xbf58476d1ce4e5b9 (z + 0x9e3779b97f4a7c15)))"
  by (simp only: mix64_def Let_def mix_round_def xorshift_def)

lemma mix64_inj: "mix64 a = mix64 b \<longleftrightarrow> a = b"
  by (simp add: mix64_rounds mix_round_inj xorshift_eq_inj)

lemma fnv1a64_update: "fnv1a64 chunks = fnv_update (concat chunks) fnv_offset"
proof -
  have "fold (\<lambda>chunk h. fold (\<lambda>b h. (h XOR u64_from_byte b) * fnv_prime) chunk h) chunks h = fnv_update (concat chunks) h" for h
    by (induction chunks arbitrary: h) (simp_all add: fnv_update_def fnv_step_def[abs_def])
  then show ?thesis by (simp add: fnv1a64_def)
qed

lemma score_last_byte: "score s c (n @ [x]) = score s c (n @ [y]) \<longleftrightarrow> x = y"
proof -
  have "fnv1a64 [s, [NUL], c, [NUL], n @ [z]] = fnv_update ((s @ NUL # c @ NUL # n) @ z # []) fnv_offset" for z
    by (simp add: fnv1a64_update)
  then show ?thesis
    using fnv_update_byte[of "s @ NUL # c @ NUL # n" x "[]" fnv_offset y] by (simp only: score_def mix64_inj)
qed

subsection \<open>Ranking\<close>

lemma rank_key_inj: "rank_key (score s c a, a) = rank_key (score s c b, b) \<longleftrightarrow> a = b"
  by (auto simp: rank_key_def)

lemma rank_key_less: "rank_key (score s c a, a) < rank_key (score s c b, b) \<longleftrightarrow> beats s c a b"
  by (auto simp: rank_key_def beats_def word_less_def word_uint_eq_iff)

lemma rank_sort: "rank s c live = sort_key (\<lambda>n. rank_key (score s c n, n)) live"
proof -
  let ?f = "\<lambda>n. (score s c n, n)"
  have "\<exists>xs. sort_key rank_key (map ?f live) = map ?f xs \<and> xs = sort_key (\<lambda>n. rank_key (?f n)) live"
  proof (induction live)
    case (Cons x live)
    have "insort_key rank_key (?f x) (map ?f xs) = map ?f (insort_key (\<lambda>n. rank_key (?f n)) x xs)" for xs
      by (induction xs) simp_all
    with Cons show ?case by (auto simp: sort_key_def)
  qed simp
  then show ?thesis by (auto simp: rank_def comp_def)
qed

lemma mset_rank [simp]: "mset (rank s c live) = mset live"
  by (simp add: rank_sort)

lemma set_rank [simp]: "set (rank s c live) = set live"
  by (simp add: rank_sort)

lemma rank_sorted: "sorted (map (\<lambda>n. rank_key (score s c n, n)) (rank s c live))"
  by (simp add: rank_sort)

lemma rank_order_irrelevant: "mset live = mset live' \<Longrightarrow> rank s c live = rank s c live'"
  unfolding rank_sort
  by (rule properties_for_sort_key) (simp_all add: rank_key_inj replicate_count_mset_eq_filter_eq[symmetric])

lemma owner_None [simp]: "owner s c live = None \<longleftrightarrow> live = []"
proof -
  have "rank s c live = [] \<longleftrightarrow> live = []" by (metis mset_rank mset_zero_iff)
  then show ?thesis by (auto simp: owner_def split: list.split)
qed

lemma beats_linear: "beats s c a b \<or> a = b \<or> beats s c b a"
  by (auto simp: beats_def not_less_iff_gr_or_eq)

lemma beats_asym: "beats s c a b \<Longrightarrow> \<not> beats s c b a"
  by (auto simp: beats_def)

lemma owner_wins:
  assumes "owner s c live = Some n"
  shows "n \<in> set live" and "m \<in> set live \<Longrightarrow> m = n \<or> beats s c n m"
proof -
  obtain rest where r: "rank s c live = n # rest"
    using assms unfolding owner_def by (cases "rank s c live") simp_all
  have live: "set live = insert n (set rest)"
    unfolding set_rank[of s c live, symmetric] r by simp
  then show "n \<in> set live" by simp
  have "\<forall>m \<in> set rest. rank_key (score s c n, n) \<le> rank_key (score s c m, m)"
    using rank_sorted[of s c live] unfolding r by simp
  then show "m = n \<or> beats s c n m" if "m \<in> set live"
    using that rank_key_less[of s c n m] rank_key_inj[of s c n m] unfolding live le_less by blast
qed

lemma owner_unique:
  assumes "n \<in> set live" and "\<And>m. m \<in> set live \<Longrightarrow> m = n \<or> beats s c n m"
  shows "owner s c live = Some n"
proof -
  obtain k where k: "owner s c live = Some k"
    using assms(1) owner_None[of s c live] by (cases "owner s c live") auto
  have "k = n"
    using owner_wins[OF k] assms beats_asym[of s c k n] by metis
  with k show ?thesis by simp
qed

lemma owner_Some:
  "owner s c live = Some n \<longleftrightarrow> n \<in> set live \<and> (\<forall>m \<in> set live. m = n \<or> beats s c n m)"
  by (meson owner_wins owner_unique)

text \<open>The frozen scores of the crate's own regression test.\<close>

lemma scores_are_frozen:
  "score ''acme/graphs/social'' ''cell-a'' ''graph-node-0'' = 0xf446a8f8dd607f2f"
  "score ''acme/graphs/social'' ''cell-a'' ''graph-node-1'' = 0x535527081c8d0fb0"
  "score ''acme/graphs/social'' ''cell-b'' ''graph-node-0'' = 0x36c7be50a933a232"
  "score ''acme/graphs/other'' ''cell-a'' ''graph-node-0'' = 0x29d54f9b37598022"
  by code_simp+

subsection \<open>Properties\<close>

text \<open>C23 (owner_agreement). The owner of a cell is the unique live node that beats every other live
  node (higher score, or equal score and smaller id); there is one exactly when some node is live,
  and it depends on the set of live nodes only, not on the order or multiplicity in which they are
  listed. Hence all nodes with the same view agree on it.\<close>

theorem owner_agreement:
  "(owner s c live = Some n \<longleftrightarrow> n \<in> set live \<and> (\<forall>m \<in> set live. m = n \<or> beats s c n m))
   \<and> (owner s c live = None \<longleftrightarrow> live = [])
   \<and> (set live = set live' \<longrightarrow> owner s c live = owner s c live')"
proof (intro conjI impI)
  assume eq: "set live = set live'"
  show "owner s c live = owner s c live'"
  proof (cases "owner s c live")
    case None
    then show ?thesis using eq by simp
  next
    case (Some n)
    then show ?thesis using eq owner_Some[of s c live n] owner_Some[of s c live' n] by simp
  qed
qed (rule owner_Some, rule owner_None)

theorem owner_agreement_witness:
  "set [''graph-node-0'', ''graph-node-1''] = set [''graph-node-1'', ''graph-node-0'']
   \<and> owner ''acme/graphs/social'' ''cell-a'' [''graph-node-0'', ''graph-node-1''] =
     owner ''acme/graphs/social'' ''cell-a'' [''graph-node-1'', ''graph-node-0'']"
  using owner_agreement[of "''acme/graphs/social''" "''cell-a''" "[''graph-node-0'', ''graph-node-1'']" "[]"
      "[''graph-node-1'', ''graph-node-0'']"] by (metis insert_commute list.simps(15))

text \<open>C22 (owner_minimal_disruption). When a node leaves, a cell it did not own keeps its owner; when a
  node joins, every cell either keeps its owner or moves to the new node.\<close>

theorem owner_minimal_disruption:
  "(owner s c live \<noteq> Some gone \<longrightarrow> owner s c (filter (\<lambda>m. m \<noteq> gone) live) = owner s c live)
   \<and> (owner s c (new # live) = owner s c live \<or> owner s c (new # live) = Some new)"
proof (intro conjI impI)
  assume ne: "owner s c live \<noteq> Some gone"
  show "owner s c (filter (\<lambda>m. m \<noteq> gone) live) = owner s c live"
  proof (cases "owner s c live")
    case None
    then show ?thesis by simp
  next
    case (Some n)
    then have "owner s c (filter (\<lambda>m. m \<noteq> gone) live) = Some n"
      using ne owner_wins[OF Some] by (intro owner_unique) auto
    then show ?thesis using Some by simp
  qed
next
  show "owner s c (new # live) = owner s c live \<or> owner s c (new # live) = Some new"
  proof (cases "owner s c (new # live)")
    case (Some k)
    then show ?thesis
      using owner_wins[OF Some] owner_unique[of k live s c] by (cases "k = new") auto
  qed simp
qed

theorem owner_minimal_disruption_witness:
  "owner ''acme/graphs/social'' ''cell-a'' [''graph-node-0'', ''graph-node-1''] \<noteq> Some ''graph-node-1''
   \<and> owner ''acme/graphs/social'' ''cell-a''
       (filter (\<lambda>m. m \<noteq> ''graph-node-1'') [''graph-node-0'', ''graph-node-1'']) = Some ''graph-node-0''"
proof -
  have o: "owner ''acme/graphs/social'' ''cell-a'' [''graph-node-0'', ''graph-node-1''] = Some ''graph-node-0''"
    by (simp add: owner_Some beats_def scores_are_frozen)
  then have n: "owner ''acme/graphs/social'' ''cell-a'' [''graph-node-0'', ''graph-node-1''] \<noteq> Some ''graph-node-1''"
    by simp
  from owner_minimal_disruption[THEN conjunct1, THEN mp, OF n] o n show ?thesis by (intro conjI) simp_all
qed

end
