(* ===== verification/Placement_Liveness.thy ===== *)
theory Placement_Liveness
  imports Placement_Hash Graph_Keys
begin

text \<open>
  \<^verbatim>\<open>crates/placement/src/liveness.rs\<close> and the naming rules of \<^verbatim>\<open>heartbeat.rs\<close>: which configured nodes
  are live, and what a node may do when it cannot list the heartbeats. A \<^verbatim>\<open>Duration\<close> is a number of
  nanoseconds; the location of a heartbeat object is opaque text.
\<close>

record heartbeat_entry =
  he_node_id :: string
  he_age :: duration
  he_location :: string

record node_view =
  nv_node_id :: string
  nv_age :: duration

definition youngest_step ::
    "heartbeat_entry \<Rightarrow> (string, heartbeat_entry) btmap \<Rightarrow> (string, heartbeat_entry) btmap" where
  "youngest_step entry by_id =
     (case bt_get by_id (he_node_id entry) of
        Some existing \<Rightarrow>
          if he_age existing \<le> he_age entry then by_id else bt_insert (he_node_id entry) entry by_id
      | None \<Rightarrow> bt_insert (he_node_id entry) entry by_id)"

definition youngest_per_node :: "heartbeat_entry list \<Rightarrow> (string, heartbeat_entry) btmap" where
  "youngest_per_node entries = fold youngest_step entries []"

definition live_nodes :: "heartbeat_entry list \<Rightarrow> duration \<Rightarrow> node_view list" where
  "live_nodes entries timeout =
     map (\<lambda>entry. \<lparr>nv_node_id = he_node_id entry, nv_age = he_age entry\<rparr>)
       (filter (\<lambda>entry. he_age entry < timeout) (map snd (youngest_per_node entries)))"

datatype heartbeat_action = Publish | Withdraw

datatype view_state = Fresh | Grace | Shed

fun view_state_as_str :: "view_state \<Rightarrow> string" where
  "view_state_as_str Fresh = ''fresh''"
| "view_state_as_str Grace = ''grace''"
| "view_state_as_str Shed = ''shed''"

fun state_heartbeat_action :: "view_state \<Rightarrow> heartbeat_action" where
  "state_heartbeat_action Fresh = Publish"
| "state_heartbeat_action Grace = Publish"
| "state_heartbeat_action Shed = Withdraw"

definition is_ready :: "view_state \<Rightarrow> bool" where
  "is_ready s \<longleftrightarrow> s \<noteq> Shed"

datatype live_view = LiveFresh "node_view list" | LiveGrace "node_view list" | LiveShed

fun live_view_state :: "live_view \<Rightarrow> view_state" where
  "live_view_state (LiveFresh _) = Fresh"
| "live_view_state (LiveGrace _) = Grace"
| "live_view_state LiveShed = Shed"

fun view_nodes :: "live_view \<Rightarrow> node_view list" where
  "view_nodes (LiveFresh nodes) = nodes"
| "view_nodes (LiveGrace nodes) = nodes"
| "view_nodes LiveShed = []"

fun candidates :: "live_view \<Rightarrow> string list option" where
  "candidates (LiveFresh nodes) = Some (map nv_node_id nodes)"
| "candidates (LiveGrace nodes) = Some (map nv_node_id nodes)"
| "candidates LiveShed = None"

definition view_heartbeat_action :: "live_view \<Rightarrow> heartbeat_action" where
  "view_heartbeat_action v = state_heartbeat_action (live_view_state v)"

record live_node_set =
  ls_local_node_id :: string
  ls_members :: "string btset"
  ls_heartbeat_timeout :: duration
  ls_cached :: "node_view list"

definition live_node_set_new :: "string \<Rightarrow> string list \<Rightarrow> duration \<Rightarrow> live_node_set" where
  "live_node_set_new local_node_id members heartbeat_timeout =
     (let members = bs_insert local_node_id (bs_extend [] members) in
      \<lparr>ls_local_node_id = local_node_id, ls_members = members,
       ls_heartbeat_timeout = heartbeat_timeout,
       ls_cached = map (\<lambda>id. \<lparr>nv_node_id = id, nv_age = 0\<rparr>) members\<rparr>)"

definition grace :: "live_node_set \<Rightarrow> duration" where
  "grace self = ls_heartbeat_timeout self"

definition last_known :: "live_node_set \<Rightarrow> node_view list" where
  "last_known self = ls_cached self"

definition insert_member_views ::
    "string btset \<Rightarrow> node_view list \<Rightarrow> (string, node_view) btmap \<Rightarrow> (string, node_view) btmap" where
  "insert_member_views members views live =
     fold (\<lambda>view live. if nv_node_id view \<in> set members then bt_insert (nv_node_id view) view live else live)
       views live"

definition insert_unseen_members ::
    "(string, heartbeat_entry) btmap \<Rightarrow> string btset \<Rightarrow> (string, node_view) btmap \<Rightarrow> (string, node_view) btmap" where
  "insert_unseen_members youngest members live =
     fold (\<lambda>member live.
         if bt_get youngest member = None \<and> bt_get live member = None
         then bt_insert member \<lparr>nv_node_id = member, nv_age = 0\<rparr> live else live)
       members live"

definition observe_list ::
    "live_node_set \<Rightarrow> heartbeat_entry list \<Rightarrow> duration \<Rightarrow> live_view \<times> live_node_set" where
  "observe_list self entries since_start =
     (let youngest = youngest_per_node entries;
          live = insert_member_views (ls_members self) (live_nodes entries (ls_heartbeat_timeout self)) [];
          live = (if since_start < ls_heartbeat_timeout self
                  then insert_unseen_members youngest (ls_members self) live else live);
          self_age = (case bt_get youngest (ls_local_node_id self) of
                        None \<Rightarrow> 0 | Some entry \<Rightarrow> he_age entry);
          live = bt_insert (ls_local_node_id self)
                   \<lparr>nv_node_id = ls_local_node_id self, nv_age = self_age\<rparr> live;
          self = self\<lparr>ls_cached := map snd live\<rparr> in
      (LiveFresh (ls_cached self), self))"

definition observe_list_failure :: "live_node_set \<Rightarrow> duration \<Rightarrow> live_view" where
  "observe_list_failure self since_last_success =
     (if since_last_success < ls_heartbeat_timeout self then LiveGrace (ls_cached self) else LiveShed)"

subsection \<open>Object names\<close>

definition name_rule_violation :: "string \<Rightarrow> string option" where
  "name_rule_violation value =
     (if value = [] then Some ''must not be empty''
      else if value = ''.'' \<or> value = ''..'' then Some ''must not be a relative path segment''
      else if \<not> list_all component_byte value then 
        Some (''must be ASCII alphanumeric, '_', '-' or '.'' @ [CHR 0x27])
      else None)"

datatype placement_error =
    InvalidNodeId string string
  | PlacementObjectStore string string string
  | InvalidCellId string string
  | EncodeBody string string
  | EncodeRecord string string
  | DecodeRecord string string

definition validate_node_id :: "string \<Rightarrow> placement_error + unit" where
  "validate_node_id node_id =
     (case name_rule_violation node_id of
        Some reason \<Rightarrow> Inl (InvalidNodeId node_id reason) | None \<Rightarrow> Inr ())"

definition validate_cell_id :: "string \<Rightarrow> placement_error + unit" where
  "validate_cell_id cell_id =
     (case name_rule_violation cell_id of
        Some reason \<Rightarrow> Inl (InvalidCellId cell_id reason) | None \<Rightarrow> Inr ())"

definition heartbeat_object_name :: "string \<Rightarrow> placement_error + string" where
  "heartbeat_object_name node_id = rbind (validate_node_id node_id) (\<lambda>_. Inr node_id)"

definition heartbeat_parse_object_name :: "string \<Rightarrow> string option" where
  "heartbeat_parse_object_name name = (case validate_node_id name of Inl _ \<Rightarrow> None | Inr _ \<Rightarrow> Some name)"

definition cell_writer_object_name :: "string \<Rightarrow> placement_error + string" where
  "cell_writer_object_name cell_id = rbind (validate_cell_id cell_id) (\<lambda>_. Inr cell_id)"

definition cell_writer_parse_object_name :: "string \<Rightarrow> string option" where
  "cell_writer_parse_object_name name = (case validate_cell_id name of Inl _ \<Rightarrow> None | Inr _ \<Rightarrow> Some name)"

lemma youngest_step_ok [simp]: "bt_ok m \<Longrightarrow> bt_ok (youngest_step e m)"
  by (simp add: youngest_step_def split: option.split)

lemma youngest_fold_ok: "bt_ok m \<Longrightarrow> bt_ok (fold youngest_step es m)"
  by (induction es arbitrary: m) simp_all

definition youngest_inv :: "heartbeat_entry set \<Rightarrow> (string, heartbeat_entry) btmap \<Rightarrow> bool" where
  "youngest_inv seen m \<longleftrightarrow> bt_ok m
     \<and> (\<forall>n. bt_get m n = None \<longleftrightarrow> (\<forall>e \<in> seen. he_node_id e \<noteq> n))
     \<and> (\<forall>n e. bt_get m n = Some e \<longrightarrow> e \<in> seen \<and> he_node_id e = n
          \<and> (\<forall>e' \<in> seen. he_node_id e' = n \<longrightarrow> he_age e \<le> he_age e'))"

lemma youngest_step_inv:
  assumes "youngest_inv seen m"
  shows "youngest_inv (insert e seen) (youngest_step e m)"
proof (cases "bt_get m (he_node_id e)")
  case None
  then have "youngest_step e m = bt_insert (he_node_id e) e m" by (simp add: youngest_step_def)
  then show ?thesis using assms None by (auto simp: youngest_inv_def bt_get_insert)
next
  case (Some x)
  note inv = assms[unfolded youngest_inv_def]
  show ?thesis
  proof (cases "he_age x \<le> he_age e")
    case True
    then have "youngest_step e m = m" using Some by (simp add: youngest_step_def)
    moreover have "\<exists>e' \<in> seen. he_node_id e' = he_node_id e" using inv Some by blast
    ultimately show ?thesis using inv Some True by (auto simp: youngest_inv_def)
  next
    case False
    then have "youngest_step e m = bt_insert (he_node_id e) e m" using Some by (simp add: youngest_step_def)
    moreover have "\<forall>e' \<in> seen. he_node_id e' = he_node_id e \<longrightarrow> he_age e \<le> he_age e'"
      using inv Some False by (meson le_trans nle_le)
    ultimately show ?thesis using inv by (auto simp: youngest_inv_def bt_get_insert)
  qed
qed

lemma youngest_fold_inv: "youngest_inv seen m \<Longrightarrow> youngest_inv (set es \<union> seen) (fold youngest_step es m)"
proof (induction es arbitrary: seen m)
  case (Cons e es)
  from Cons.IH[OF youngest_step_inv[OF Cons.prems, of e]] show ?case by simp
qed simp

lemma youngest_per_node_inv: "youngest_inv (set es) (youngest_per_node es)"
  using youngest_fold_inv[of "{}" "[]" es] by (simp add: youngest_per_node_def youngest_inv_def)

lemma youngest_fresh:
  "(\<exists>e. bt_get (youngest_per_node es) n = Some e \<and> he_age e < t) \<longleftrightarrow>
     (\<exists>e \<in> set es. he_node_id e = n \<and> he_age e < t)"
proof -
  note inv = youngest_per_node_inv[of es, unfolded youngest_inv_def]
  show ?thesis
  proof
    assume "\<exists>e \<in> set es. he_node_id e = n \<and> he_age e < t"
    then obtain e where e: "e \<in> set es" "he_node_id e = n" "he_age e < t" by blast
    with inv obtain x where "bt_get (youngest_per_node es) n = Some x" by (metis not_None_eq)
    moreover from this inv e(1,2) have "he_age x \<le> he_age e" by blast
    ultimately show "\<exists>e. bt_get (youngest_per_node es) n = Some e \<and> he_age e < t"
      using e(3) by (intro exI[of _ x]) simp
  qed (use inv in blast)
qed

lemma youngest_absent: "bt_get (youngest_per_node es) n = None \<longleftrightarrow> (\<forall>e \<in> set es. he_node_id e \<noteq> n)"
  using youngest_per_node_inv[of es] by (simp add: youngest_inv_def)

lemma live_nodes_ids:
  "n \<in> nv_node_id ` set (live_nodes es t) \<longleftrightarrow> (\<exists>e \<in> set es. he_node_id e = n \<and> he_age e < t)"
proof -
  let ?y = "youngest_per_node es"
  have ok: "bt_ok ?y" and id: "\<And>k e. bt_get ?y k = Some e \<Longrightarrow> he_node_id e = k"
    using youngest_per_node_inv[of es] by (auto simp: youngest_inv_def)
  have "nv_node_id ` set (live_nodes es t) = he_node_id ` {e \<in> snd ` set ?y. he_age e < t}"
    by (simp add: live_nodes_def image_image)
  then have "n \<in> nv_node_id ` set (live_nodes es t) \<longleftrightarrow>
      (\<exists>e. e \<in> snd ` set ?y \<and> he_age e < t \<and> he_node_id e = n)" by auto
  also have "\<dots> \<longleftrightarrow> (\<exists>e k. bt_get ?y k = Some e \<and> he_age e < t \<and> he_node_id e = n)"
    unfolding bt_get_Some_iff[OF ok] image_iff by auto
  also have "\<dots> \<longleftrightarrow> (\<exists>e. bt_get ?y n = Some e \<and> he_age e < t)"
    using id by blast
  finally show ?thesis using youngest_fresh by simp
qed

text \<open>The maps of live nodes are keyed by the id of the view they hold.\<close>

definition keyed :: "(string, node_view) btmap \<Rightarrow> bool" where
  "keyed m \<longleftrightarrow> bt_ok m \<and> (\<forall>(k, v) \<in> set m. nv_node_id v = k)"

lemma keyed_Nil [simp]: "keyed []"
  by (simp add: keyed_def)

lemma keyed_insert: "keyed m \<Longrightarrow> nv_node_id v = k \<Longrightarrow> keyed (bt_insert k v m)"
  using set_bt_insert[of k v m] unfolding keyed_def by fastforce

lemma keyed_ids: "keyed m \<Longrightarrow> map nv_node_id (map snd m) = map fst m"
  by (auto simp: keyed_def)

lemma insert_member_views_spec:
  "keyed m \<Longrightarrow> keyed (insert_member_views ms vs m)
     \<and> fst ` set (insert_member_views ms vs m) = fst ` set m \<union> (nv_node_id ` set vs \<inter> set ms)"
proof (induction vs arbitrary: m)
  case (Cons v vs)
  let ?m = "if nv_node_id v \<in> set ms then bt_insert (nv_node_id v) v m else m"
  have "keyed ?m" using Cons.prems by (simp add: keyed_insert)
  from Cons.IH[OF this] show ?case
    by (auto simp: insert_member_views_def bt_insert_keys split: if_splits)
qed (simp add: insert_member_views_def)

lemma insert_unseen_members_spec:
  "keyed m \<Longrightarrow> keyed (insert_unseen_members y ms m)
     \<and> fst ` set (insert_unseen_members y ms m) = fst ` set m \<union> {n \<in> set ms. bt_get y n = None}"
proof (induction ms arbitrary: m)
  case (Cons n ms)
  let ?m = "if bt_get y n = None \<and> bt_get m n = None
    then bt_insert n \<lparr>nv_node_id = n, nv_age = 0\<rparr> m else m"
  have k: "keyed ?m" using Cons.prems by (simp add: keyed_insert)
  have "fst ` set ?m = fst ` set m \<union> {k. k = n \<and> bt_get y n = None}"
    by (auto simp: bt_insert_keys bt_get_None_iff)
  with Cons.IH[OF k] show ?case
    by (auto simp: insert_unseen_members_def)
qed (simp add: insert_unseen_members_def)

subsection \<open>The live set as a state machine\<close>

text \<open>What a successful listing makes of a node id.\<close>

definition counts_live ::
    "live_node_set \<Rightarrow> heartbeat_entry list \<Rightarrow> duration \<Rightarrow> string \<Rightarrow> bool" where
  "counts_live self entries since_start n \<longleftrightarrow>
     n = ls_local_node_id self
     \<or> n \<in> set (ls_members self)
       \<and> ((\<exists>e \<in> set entries. he_node_id e = n \<and> he_age e < ls_heartbeat_timeout self)
          \<or> since_start < ls_heartbeat_timeout self \<and> (\<forall>e \<in> set entries. he_node_id e \<noteq> n))"

definition cached_ids :: "live_node_set \<Rightarrow> string list" where
  "cached_ids self = map nv_node_id (ls_cached self)"

lemma observe_list_cached:
  assumes "observe_list self entries since_start = (view, self')"
  shows "\<exists>live. keyed live \<and> ls_cached self' = map snd live
    \<and> fst ` set live = {n. counts_live self entries since_start n}"
proof -
  let ?y = "youngest_per_node entries"
  let ?a = "insert_member_views (ls_members self) (live_nodes entries (ls_heartbeat_timeout self)) []"
  let ?b = "if since_start < ls_heartbeat_timeout self
    then insert_unseen_members ?y (ls_members self) ?a else ?a"
  let ?v = "\<lparr>nv_node_id = ls_local_node_id self,
    nv_age = (case bt_get ?y (ls_local_node_id self) of None \<Rightarrow> 0 | Some entry \<Rightarrow> he_age entry)\<rparr>"
  let ?c = "bt_insert (ls_local_node_id self) ?v ?b"
  have a: "keyed ?a" "fst ` set ?a = nv_node_id ` set (live_nodes entries (ls_heartbeat_timeout self)) \<inter> set (ls_members self)"
    using insert_member_views_spec[OF keyed_Nil] by simp_all
  have b: "keyed ?b" "fst ` set ?b = fst ` set ?a \<union>
      {n \<in> set (ls_members self). since_start < ls_heartbeat_timeout self \<and> bt_get ?y n = None}"
    using insert_unseen_members_spec[OF a(1), of ?y "ls_members self"] a(1) by auto
  have "keyed ?c" using b(1) by (simp add: keyed_insert)
  moreover have "ls_cached self' = map snd ?c"
    using assms by (auto simp: observe_list_def Let_def)
  moreover have "fst ` set ?c = {n. counts_live self entries since_start n}"
    unfolding bt_insert_keys b(2) a(2) counts_live_def
    using live_nodes_ids[of _ entries "ls_heartbeat_timeout self"] youngest_absent[of entries] by auto
  ultimately show ?thesis by blast
qed

lemma observe_list_ids:
  assumes "observe_list self entries since_start = (view, self')"
  shows "set (cached_ids self') = {n. counts_live self entries since_start n}"
    and "sorted_wrt (<) (cached_ids self')"
proof -
  obtain live where l: "keyed live" "ls_cached self' = map snd live"
    "fst ` set live = {n. counts_live self entries since_start n}"
    using observe_list_cached[OF assms] by blast
  then have ids: "cached_ids self' = map fst live"
    unfolding cached_ids_def l(2) by (rule_tac keyed_ids)
  show "set (cached_ids self') = {n. counts_live self entries since_start n}"
    unfolding ids set_map by (rule l(3))
  show "sorted_wrt (<) (cached_ids self')"
    unfolding ids using l(1) by (simp add: keyed_def bt_ok_def)
qed

lemma observe_list_config:
  "observe_list self entries since_start = (view, self') \<Longrightarrow>
     view = LiveFresh (ls_cached self') \<and> ls_local_node_id self' = ls_local_node_id self
     \<and> ls_members self' = ls_members self \<and> ls_heartbeat_timeout self' = ls_heartbeat_timeout self"
  by (auto simp: observe_list_def Let_def)

text \<open>A node's life: the state it starts with, then any sequence of successful and failed listings.
  The view is the last answer the node got.\<close>

inductive lives :: "live_node_set \<Rightarrow> live_node_set \<Rightarrow> live_view \<Rightarrow> bool" for start where
  lives_start: "lives start start (LiveFresh (ls_cached start))"
| lives_list: "lives start self v \<Longrightarrow> observe_list self entries since_start = (v', self') \<Longrightarrow> lives start self' v'"
| lives_failure: "lives start self v \<Longrightarrow> observe_list_failure self since_last_success = v' \<Longrightarrow> lives start self v'"

definition live_set_inv :: "live_node_set \<Rightarrow> bool" where
  "live_set_inv self \<longleftrightarrow> sorted_wrt (<) (cached_ids self) \<and> ls_local_node_id self \<in> set (cached_ids self)
     \<and> set (cached_ids self) \<subseteq> insert (ls_local_node_id self) (set (ls_members self))"

lemma live_set_inv_new: "live_set_inv (live_node_set_new local_id members timeout)"
proof -
  have "bs_ok (bs_insert local_id (bs_extend [] members))"
    by (simp add: bs_ok_extend)
  then show ?thesis
    by (auto simp: live_set_inv_def live_node_set_new_def cached_ids_def Let_def comp_def bs_ok_def)
qed

lemma live_set_inv_observe:
  "observe_list self entries since_start = (view, self') \<Longrightarrow> live_set_inv self'"
  using observe_list_ids[of self entries since_start view self']
    observe_list_config[of self entries since_start view self']
  by (auto simp: live_set_inv_def counts_live_def)

lemma lives_inv: "lives start self v \<Longrightarrow> live_set_inv start \<Longrightarrow> live_set_inv self \<and>
    (case v of LiveFresh ns \<Rightarrow> ns = ls_cached self | LiveGrace ns \<Rightarrow> ns = ls_cached self | LiveShed \<Rightarrow> True)"
proof (induction rule: lives.induct)
  case (lives_list self v entries since_start v' self')
  then show ?case using live_set_inv_observe observe_list_config[OF lives_list.hyps(2)] by auto
next
  case (lives_failure self v since_last_success v')
  then show ?case by (auto simp: observe_list_failure_def split: if_splits)
qed simp

subsection \<open>Properties\<close>

text \<open>C24 (observe_list_exact). After a successful listing a node counts as live exactly itself, every
  configured member with a heartbeat strictly younger than the timeout, and, during the first
  timeout after start, every configured member that has published nothing at all. An expired
  heartbeat is never resurrected, unknown nodes are never counted, and the ids come out in strictly
  increasing order.\<close>

theorem observe_list_exact:
  assumes "observe_list self entries since_start = (view, self')"
  shows "view = LiveFresh (ls_cached self')
    \<and> sorted_wrt (<) (cached_ids self')
    \<and> set (cached_ids self') =
        insert (ls_local_node_id self)
          {n \<in> set (ls_members self).
             (\<exists>e \<in> set entries. he_node_id e = n \<and> he_age e < ls_heartbeat_timeout self)
             \<or> since_start < ls_heartbeat_timeout self \<and> (\<forall>e \<in> set entries. he_node_id e \<noteq> n)}"
  using observe_list_ids[OF assms] observe_list_config[OF assms] by (auto simp: counts_live_def)

theorem observe_list_exact_witness:
  "\<exists>view self'. observe_list (live_node_set_new ''n0'' [''n1''] 15) [] 20 = (view, self')
     \<and> set (cached_ids self') = {''n0''}"
proof -
  obtain view self' where o: "observe_list (live_node_set_new ''n0'' [''n1''] 15) [] 20 = (view, self')"
    by fastforce
  from observe_list_exact[OF o] have "set (cached_ids self') = {''n0''}"
    by (simp add: live_node_set_new_def Let_def)
  with o show ?thesis by blast
qed

text \<open>C21 (placement_agreement). Two nodes of one fleet configuration that list the same heartbeats after
  their startup windows, both with fresh heartbeats of their own, derive the same candidates and
  therefore name the same owner for every scope and cell.\<close>

theorem placement_agreement:
  assumes "observe_list a entries since_a = (va, a')" and "observe_list b entries since_b = (vb, b')"
    and "set (ls_members a) = set (ls_members b)" and "ls_heartbeat_timeout a = ls_heartbeat_timeout b"
    and "ls_heartbeat_timeout a \<le> since_a" and "ls_heartbeat_timeout b \<le> since_b"
    and "\<forall>n \<in> {ls_local_node_id a, ls_local_node_id b}. n \<in> set (ls_members a)
           \<and> (\<exists>e \<in> set entries. he_node_id e = n \<and> he_age e < ls_heartbeat_timeout a)"
  shows "candidates va = candidates vb
    \<and> map_option (owner scope cell) (candidates va) = map_option (owner scope cell) (candidates vb)"
proof -
  have "set (cached_ids a') = set (cached_ids b')"
    unfolding observe_list_ids(1)[OF assms(1)] observe_list_ids(1)[OF assms(2)] counts_live_def
    using assms(3-7) by auto
  then have "cached_ids a' = cached_ids b'"
    using observe_list_ids(2)[OF assms(1)] observe_list_ids(2)[OF assms(2)] by (metis strict_sorted_equal)
  then have "candidates va = candidates vb"
    using observe_list_config[OF assms(1)] observe_list_config[OF assms(2)] by (simp add: cached_ids_def)
  then show ?thesis by simp
qed

theorem placement_agreement_witness:
  "\<exists>va a' vb b'.
     observe_list (live_node_set_new ''n0'' [''n1''] 15)
       [\<lparr>he_node_id = ''n0'', he_age = 3, he_location = ''p''\<rparr>, \<lparr>he_node_id = ''n1'', he_age = 4, he_location = ''q''\<rparr>] 20
       = (va, a')
     \<and> observe_list (live_node_set_new ''n1'' [''n0''] 15)
       [\<lparr>he_node_id = ''n0'', he_age = 3, he_location = ''p''\<rparr>, \<lparr>he_node_id = ''n1'', he_age = 4, he_location = ''q''\<rparr>] 99
       = (vb, b')
     \<and> candidates va = candidates vb"
proof -
  let ?es = "[\<lparr>he_node_id = ''n0'', he_age = 3, he_location = ''p''\<rparr>, \<lparr>he_node_id = ''n1'', he_age = 4, he_location = ''q''\<rparr>]"
  obtain va a' where a: "observe_list (live_node_set_new ''n0'' [''n1''] 15) ?es 20 = (va, a')" by fastforce
  obtain vb b' where b: "observe_list (live_node_set_new ''n1'' [''n0''] 15) ?es 99 = (vb, b')" by fastforce
  have "candidates va = candidates vb"
    by (rule placement_agreement[OF a b, THEN conjunct1])
      (auto simp: live_node_set_new_def Let_def)
  with a b show ?thesis by blast
qed

text \<open>C25 (view_safety). Through any sequence of successful and failed listings the node's view is sorted,
  contains the node itself and only configured nodes; a failed listing answers with the last
  successful set while it is younger than the timeout and sheds at the timeout; and the node offers
  no candidates, is not ready and must withdraw its heartbeat exactly when it has shed.\<close>

theorem view_safety:
  assumes "lives (live_node_set_new local_id members timeout) self v"
  shows "live_set_inv self
    \<and> (observe_list_failure self d = LiveShed \<longleftrightarrow> ls_heartbeat_timeout self \<le> d)
    \<and> (d < ls_heartbeat_timeout self \<longrightarrow> candidates (observe_list_failure self d) = Some (cached_ids self))
    \<and> (candidates v = None \<longleftrightarrow> v = LiveShed)
    \<and> (v \<noteq> LiveShed \<longrightarrow> candidates v = Some (cached_ids self))
    \<and> (view_heartbeat_action v = Withdraw \<longleftrightarrow> candidates v = None)
    \<and> (is_ready (live_view_state v) \<longleftrightarrow> candidates v \<noteq> None)"
proof -
  have inv: "live_set_inv self" and v: "case v of LiveFresh ns \<Rightarrow> ns = ls_cached self | LiveGrace ns \<Rightarrow> ns = ls_cached self | LiveShed \<Rightarrow> True"
    using lives_inv[OF assms live_set_inv_new] by simp_all
  show ?thesis
    using inv v by (cases v) (simp_all add: observe_list_failure_def view_heartbeat_action_def is_ready_def cached_ids_def)
qed

theorem view_safety_witness:
  "lives (live_node_set_new ''n0'' [''n1''] 15) (live_node_set_new ''n0'' [''n1''] 15)
       (observe_list_failure (live_node_set_new ''n0'' [''n1''] 15) 20)
   \<and> candidates (observe_list_failure (live_node_set_new ''n0'' [''n1''] 15) 20) = None"
proof -
  let ?s = "live_node_set_new ''n0'' [''n1''] 15"
  have l: "lives ?s ?s (observe_list_failure ?s 20)"
    by (rule lives_failure[OF lives_start]) simp
  have "observe_list_failure ?s 20 = LiveShed"
    by (simp add: observe_list_failure_def live_node_set_new_def Let_def)
  with view_safety[OF l, of 20] l show ?thesis by simp
qed

text \<open>The object name of a heartbeat or a cell writer record is accepted for
  exactly the ids that are valid key components of the kernel and are not a relative path segment,
  and parsing a name returns the id it was made from.\<close>

theorem object_names_exact:
  "(heartbeat_object_name n = Inr n \<longleftrightarrow> valid_component n \<and> n \<noteq> ''.'' \<and> n \<noteq> ''..'')
   \<and> (heartbeat_parse_object_name n = (if valid_component n \<and> n \<noteq> ''.'' \<and> n \<noteq> ''..'' then Some n else None))
   \<and> (cell_writer_object_name n = Inr n \<longleftrightarrow> valid_component n \<and> n \<noteq> ''.'' \<and> n \<noteq> ''..'')
   \<and> (cell_writer_parse_object_name n = (if valid_component n \<and> n \<noteq> ''.'' \<and> n \<noteq> ''..'' then Some n else None))"
proof -
  have v: "name_rule_violation n = None \<longleftrightarrow> valid_component n \<and> n \<noteq> ''.'' \<and> n \<noteq> ''..''"
    by (auto simp: name_rule_violation_def valid_component_def list_all_iff)
  show ?thesis
  proof (cases "name_rule_violation n")
    case None
    then show ?thesis using v
      by (simp add: heartbeat_object_name_def heartbeat_parse_object_name_def cell_writer_object_name_def
          cell_writer_parse_object_name_def validate_node_id_def validate_cell_id_def)
  next
    case (Some r)
    then have "\<not> (valid_component n \<and> n \<noteq> ''.'' \<and> n \<noteq> ''..'')" using v by simp
    with Some show ?thesis
      by (simp add: heartbeat_object_name_def heartbeat_parse_object_name_def cell_writer_object_name_def
          cell_writer_parse_object_name_def validate_node_id_def validate_cell_id_def)
  qed
qed

end
