(* ===== verification/Namespace.thy ===== *)
theory Namespace
  imports Graph_Keys
begin

text \<open>
  \<^verbatim>\<open>src/core/namespace.rs\<close>: tenant namespaces, their nesting up to eight levels, and the scope of a
  graph. A scope determines the object store path its data lives under and, through its display
  text, its placement. Both are injective on valid scopes, and no scope's store path lies inside
  another's. The newtypes over \<^verbatim>\<open>String\<close> are strings whose constructor checks them.
\<close>

type_synonym namespace_id = string
type_synonym graph_id = string

definition default_namespace_id :: string where
  "default_namespace_id = ''default''"

definition default_graph_id :: string where
  "default_graph_id = ''default''"

definition max_namespace_depth :: nat where
  "max_namespace_depth = 8"

definition namespace_id_new :: "string \<Rightarrow> namespace_id result" where
  "namespace_id_new value = rbind (validate_component ''namespace_id'' value) (\<lambda>_. Inr value)"

definition graph_id_new :: "string \<Rightarrow> graph_id result" where
  "graph_id_new value = rbind (validate_component ''graph_id'' value) (\<lambda>_. Inr value)"

record namespace_path =
  np_segments :: "namespace_id list"

definition namespace_root :: "namespace_id \<Rightarrow> namespace_path" where
  "namespace_root namespace_id = \<lparr>np_segments = [namespace_id]\<rparr>"

definition namespace_path_new :: "namespace_id list \<Rightarrow> namespace_path result" where
  "namespace_path_new segments =
     (if segments = [] then
        Inl (CorruptValue ''namespace_path'' ''namespace path must contain a tenant namespace'')
      else if max_namespace_depth < length segments then
        Inl (AdmissionRejected ''namespace_depth'' (word_of_nat (length segments))
               (word_of_nat max_namespace_depth))
      else Inr \<lparr>np_segments = segments\<rparr>)"

definition namespace_child :: "namespace_path \<Rightarrow> namespace_id \<Rightarrow> namespace_path result" where
  "namespace_child self namespace_id = namespace_path_new (np_segments self @ [namespace_id])"

definition tenant_id :: "namespace_path \<Rightarrow> namespace_id" where
  "tenant_id self = np_segments self ! 0"

definition namespace_leaf :: "namespace_path \<Rightarrow> namespace_id" where
  "namespace_leaf self = last (np_segments self)"

definition namespace_depth :: "namespace_path \<Rightarrow> nat" where
  "namespace_depth self = length (np_segments self)"

definition ancestors_inclusive :: "namespace_path \<Rightarrow> namespace_path list" where
  "ancestors_inclusive self =
     map (\<lambda>len. \<lparr>np_segments = take len (np_segments self)\<rparr>) [1..<length (np_segments self) + 1]"

definition is_descendant_of :: "namespace_path \<Rightarrow> namespace_path \<Rightarrow> bool" where
  "is_descendant_of self ancestor \<longleftrightarrow>
     take (length (np_segments ancestor)) (np_segments self) = np_segments ancestor"

definition storage_suffix :: "namespace_path \<Rightarrow> string" where
  "storage_suffix self =
     ''namespaces/'' @ np_segments self ! 0
     @ concat (map (\<lambda>segment. ''/subnamespaces/'' @ segment) (drop 1 (np_segments self)))"

definition namespace_path_default :: namespace_path where
  "namespace_path_default = namespace_root default_namespace_id"

definition namespace_path_display :: "namespace_path \<Rightarrow> string" where
  "namespace_path_display self = join_with SLASH (np_segments self)"

record graph_scope =
  gs_namespace :: namespace_path
  gs_graph_id :: graph_id

definition graph_scope_new :: "namespace_path \<Rightarrow> graph_id \<Rightarrow> graph_scope" where
  "graph_scope_new namespace graph_id = \<lparr>gs_namespace = namespace, gs_graph_id = graph_id\<rparr>"

definition graph_scope_tenant :: "namespace_id \<Rightarrow> graph_id \<Rightarrow> graph_scope" where
  "graph_scope_tenant namespace_id graph_id = graph_scope_new (namespace_root namespace_id) graph_id"

definition scoped_store_path :: "graph_scope \<Rightarrow> string \<Rightarrow> string" where
  "scoped_store_path self base_path =
     (let base_path = trim_end_matches SLASH base_path;
          scoped_path = storage_suffix (gs_namespace self) @ ''/graphs/'' @ gs_graph_id self in
      if base_path = [] then scoped_path else base_path @ ''/'' @ scoped_path)"

definition graph_scope_default :: graph_scope where
  "graph_scope_default = graph_scope_new namespace_path_default default_graph_id"

definition graph_scope_is_default :: "graph_scope \<Rightarrow> bool" where
  "graph_scope_is_default self \<longleftrightarrow> self = graph_scope_default"

definition graph_scope_display :: "graph_scope \<Rightarrow> string" where
  "graph_scope_display self = namespace_path_display (gs_namespace self) @ ''/graphs/'' @ gs_graph_id self"

text \<open>Scopes the constructors can build.\<close>

definition valid_path :: "namespace_path \<Rightarrow> bool" where
  "valid_path p \<longleftrightarrow> np_segments p \<noteq> [] \<and> length (np_segments p) \<le> max_namespace_depth
     \<and> (\<forall>s \<in> set (np_segments p). valid_component s)"

definition valid_scope :: "graph_scope \<Rightarrow> bool" where
  "valid_scope s \<longleftrightarrow> valid_path (gs_namespace s) \<and> valid_component (gs_graph_id s)"

subsection \<open>Paths as lists of parts\<close>

definition store_parts :: "graph_scope \<Rightarrow> string list" where
  "store_parts s = ''namespaces'' # hd (np_segments (gs_namespace s))
     # concat (map (\<lambda>u. [''subnamespaces'', u]) (tl (np_segments (gs_namespace s))))
     @ [''graphs'', gs_graph_id s]"

lemma join_with_append:
  "xs \<noteq> [] \<Longrightarrow> ys \<noteq> [] \<Longrightarrow> join_with sep (xs @ ys) = join_with sep xs @ sep # join_with sep ys"
  by (induction sep xs rule: join_with.induct) (auto simp: neq_Nil_conv)

lemma sub_parts_join:
  "xs \<noteq> [] \<Longrightarrow> join_with SLASH (xs @ concat (map (\<lambda>u. [''subnamespaces'', u]) ts))
     = join_with SLASH xs @ concat (map (\<lambda>u. ''/subnamespaces/'' @ u) ts)"
proof (induction ts arbitrary: xs)
  case (Cons t ts)
  have "join_with SLASH ((xs @ [''subnamespaces'', t]) @ concat (map (\<lambda>u. [''subnamespaces'', u]) ts))
      = join_with SLASH (xs @ [''subnamespaces'', t]) @ concat (map (\<lambda>u. ''/subnamespaces/'' @ u) ts)"
    by (rule Cons.IH) simp
  then show ?case using Cons.prems by (simp add: join_with_append)
qed simp

lemma store_path_parts:
  assumes "np_segments (gs_namespace s) \<noteq> []"
  shows "storage_suffix (gs_namespace s) @ ''/graphs/'' @ gs_graph_id s = join_with SLASH (store_parts s)"
proof -
  obtain t ts where seg: "np_segments (gs_namespace s) = t # ts" using assms by (cases "np_segments (gs_namespace s)") auto
  let ?xs = "[''namespaces'', t] @ concat (map (\<lambda>u. [''subnamespaces'', u]) ts)"
  have "join_with SLASH (?xs @ [''graphs'', gs_graph_id s]) = join_with SLASH ?xs @ SLASH # join_with SLASH [''graphs'', gs_graph_id s]"
    by (rule join_with_append) simp_all
  moreover have "join_with SLASH ?xs = storage_suffix (gs_namespace s)"
    unfolding storage_suffix_def seg by (subst sub_parts_join) simp_all
  moreover have "store_parts s = ?xs @ [''graphs'', gs_graph_id s]"
    by (simp add: store_parts_def seg)
  ultimately show ?thesis by simp
qed

lemma sub_parts_prefix:
  "concat (map (\<lambda>u. [''subnamespaces'', u]) xs) @ [''graphs'', g] @ rs
     = concat (map (\<lambda>u. [''subnamespaces'', u]) ys) @ [''graphs'', h] \<Longrightarrow> xs = ys \<and> g = h \<and> rs = []"
proof (induction xs arbitrary: ys)
  case Nil
  then show ?case by (cases ys) simp_all
next
  case (Cons x xs)
  then show ?case by (cases ys) simp_all
qed

lemma store_parts_prefix:
  assumes "store_parts a @ rs = store_parts b"
    and "np_segments (gs_namespace a) \<noteq> []" "np_segments (gs_namespace b) \<noteq> []"
  shows "a = b" and "rs = []"
proof -
  have *: "hd (np_segments (gs_namespace a)) = hd (np_segments (gs_namespace b))"
    "tl (np_segments (gs_namespace a)) = tl (np_segments (gs_namespace b))" "gs_graph_id a = gs_graph_id b" "rs = []"
    using assms(1) sub_parts_prefix[of "tl (np_segments (gs_namespace a))" "gs_graph_id a" rs
        "tl (np_segments (gs_namespace b))" "gs_graph_id b"] by (simp_all add: store_parts_def)
  show "rs = []" by (rule *)
  have "np_segments (gs_namespace a) = np_segments (gs_namespace b)"
    using *(1,2) assms(2,3) by (metis list.expand)
  then show "a = b" using *(3) by simp
qed

lemma store_parts_valid: "valid_scope s \<Longrightarrow> \<forall>w \<in> set (store_parts s). SLASH \<notin> set w"
proof -
  assume v: "valid_scope s"
  then have "hd (np_segments (gs_namespace s)) \<in> set (np_segments (gs_namespace s))"
    by (simp add: valid_scope_def valid_path_def)
  moreover have "set (tl (np_segments (gs_namespace s))) \<subseteq> set (np_segments (gs_namespace s))"
    by (rule list.set_sel(2)[THEN subsetI]) (use v in \<open>auto simp: valid_scope_def valid_path_def\<close>)
  ultimately show ?thesis
    using v valid_component_avoids(1) by (auto simp: store_parts_def valid_scope_def valid_path_def)
qed

lemma starts_with_same: "starts_with (p @ x) (p @ y) \<longleftrightarrow> starts_with x y"
  by (simp add: starts_with_def)

lemma scoped_store_path_base:
  "\<exists>p. \<forall>s. scoped_store_path s base = p @ storage_suffix (gs_namespace s) @ ''/graphs/'' @ gs_graph_id s"
  by (rule exI[of _ "if trim_end_matches SLASH base = [] then [] else trim_end_matches SLASH base @ ''/''"])
    (simp add: scoped_store_path_def Let_def)

lemma display_parts:
  "np_segments (gs_namespace s) \<noteq> [] \<Longrightarrow>
     graph_scope_display s = join_with SLASH (np_segments (gs_namespace s) @ [''graphs'', gs_graph_id s])"
  by (simp add: graph_scope_display_def namespace_path_display_def join_with_append)

subsection \<open>Properties\<close>

text \<open>C39 (scope_isolation). Two different graph scopes have different store paths under the same base
  path, and neither store lies inside the other: no scope's path is a directory prefix of another
  scope's path, however namespaces are nested or named (including names such as graphs or
  subnamespaces).\<close>

theorem scope_isolation:
  assumes "valid_scope a" and "valid_scope b" and "a \<noteq> b"
  shows "scoped_store_path a base \<noteq> scoped_store_path b base
    \<and> \<not> starts_with (scoped_store_path a base @ ''/'') (scoped_store_path b base)"
proof -
  have ne: "np_segments (gs_namespace a) \<noteq> []" "np_segments (gs_namespace b) \<noteq> []"
    using assms by (simp_all add: valid_scope_def valid_path_def)
  obtain p where p: "\<And>s. scoped_store_path s base = p @ storage_suffix (gs_namespace s) @ ''/graphs/'' @ gs_graph_id s"
    using scoped_store_path_base[of base] by blast
  have pa: "scoped_store_path a base = p @ join_with SLASH (store_parts a)"
    and pb: "scoped_store_path b base = p @ join_with SLASH (store_parts b)"
    using p store_path_parts ne by simp_all
  note sl = store_parts_valid[OF assms(1)] store_parts_valid[OF assms(2)]
  have parts: "store_parts a \<noteq> []" "store_parts b \<noteq> []" by (simp_all add: store_parts_def)
  have "store_parts a \<noteq> store_parts b"
    using store_parts_prefix(1)[of a "[]" b] ne assms(3) by auto
  then have "join_with SLASH (store_parts a) \<noteq> join_with SLASH (store_parts b)"
    using join_with_inj[OF parts sl] by simp
  moreover have "\<not> starts_with (join_with SLASH (store_parts a) @ [SLASH]) (join_with SLASH (store_parts b))"
    using starts_with_join[OF sl parts] store_parts_prefix[of a _ b] ne by metis
  ultimately show ?thesis unfolding pa pb append_assoc by (simp add: starts_with_same)
qed

theorem scope_isolation_witness:
  "valid_scope (graph_scope_tenant ''a'' ''g'')
   \<and> scoped_store_path (graph_scope_tenant ''a'' ''g'') ''data''
     \<noteq> scoped_store_path (graph_scope_tenant ''b'' ''g'') ''data''"
proof -
  have v: "valid_scope (graph_scope_tenant ''a'' ''g'')" "valid_scope (graph_scope_tenant ''b'' ''g'')"
    by (simp_all add: valid_scope_def valid_path_def graph_scope_tenant_def graph_scope_new_def
        namespace_root_def max_namespace_depth_def valid_component_def component_byte_def)
  have "graph_scope_tenant ''a'' ''g'' \<noteq> graph_scope_tenant ''b'' ''g''"
    by (simp add: graph_scope_tenant_def graph_scope_new_def namespace_root_def)
  from scope_isolation[OF v this] v(1) show ?thesis by blast
qed

text \<open>The display text of a scope, which is the placement key and the text
  of access errors, determines the scope.\<close>

lemma scope_display_injective:
  assumes "valid_scope a" and "valid_scope b"
  shows "graph_scope_display a = graph_scope_display b \<longleftrightarrow> a = b"
proof -
  let ?p = "\<lambda>s. np_segments (gs_namespace s) @ [''graphs'', gs_graph_id s]"
  have ne: "np_segments (gs_namespace a) \<noteq> []" "np_segments (gs_namespace b) \<noteq> []"
    using assms by (simp_all add: valid_scope_def valid_path_def)
  have "\<forall>w \<in> set (?p a). SLASH \<notin> set w" "\<forall>w \<in> set (?p b). SLASH \<notin> set w"
    using assms valid_component_avoids(1) by (auto simp: valid_scope_def valid_path_def)
  then have "graph_scope_display a = graph_scope_display b \<longleftrightarrow> ?p a = ?p b"
    using display_parts ne by (simp add: join_with_inj)
  also have "\<dots> \<longleftrightarrow> a = b" by auto
  finally show ?thesis .
qed

theorem scope_display_injective_witness:
  "valid_scope (graph_scope_tenant ''a'' ''g'')
   \<and> graph_scope_display (graph_scope_tenant ''a'' ''g'') \<noteq> graph_scope_display (graph_scope_tenant ''b'' ''g'')"
proof -
  have v: "valid_scope (graph_scope_tenant ''a'' ''g'')" "valid_scope (graph_scope_tenant ''b'' ''g'')"
    by (simp_all add: valid_scope_def valid_path_def graph_scope_tenant_def graph_scope_new_def
        namespace_root_def max_namespace_depth_def valid_component_def component_byte_def)
  from scope_display_injective[OF v] v(1) show ?thesis
    by (simp add: graph_scope_tenant_def graph_scope_new_def namespace_root_def)
qed

text \<open>Namespace paths form a forest of bounded depth: a path is accepted exactly when
  it has between one and eight segments; a child extends its parent by one level, keeps its tenant
  and is refused at depth eight; and the ancestors of a path are exactly the paths it descends from.\<close>

theorem namespace_tree:
  "(is_ok (namespace_path_new segs) \<longleftrightarrow> segs \<noteq> [] \<and> length segs \<le> 8)
   \<and> (np_segments p \<noteq> [] \<longrightarrow>
        (is_ok (namespace_child p n) \<longleftrightarrow> namespace_depth p < 8)
        \<and> (\<forall>q. namespace_child p n = Inr q \<longrightarrow> namespace_depth q = namespace_depth p + 1
             \<and> tenant_id q = tenant_id p \<and> namespace_leaf q = n \<and> is_descendant_of q p)
        \<and> (\<forall>a. np_segments a \<noteq> [] \<longrightarrow> (a \<in> set (ancestors_inclusive p) \<longleftrightarrow> is_descendant_of p a)))"
proof (intro conjI impI allI)
  show "is_ok (namespace_path_new segs) \<longleftrightarrow> segs \<noteq> [] \<and> length segs \<le> 8"
    by (simp add: namespace_path_new_def max_namespace_depth_def)
  assume p: "np_segments p \<noteq> []"
  show "is_ok (namespace_child p n) \<longleftrightarrow> namespace_depth p < 8"
    by (simp add: namespace_child_def namespace_path_new_def max_namespace_depth_def namespace_depth_def)
  {
    fix q assume "namespace_child p n = Inr q"
    then have q: "np_segments q = np_segments p @ [n]"
      by (auto simp: namespace_child_def namespace_path_new_def split: if_splits)
    show "namespace_depth q = namespace_depth p + 1" by (simp add: namespace_depth_def q)
    show "tenant_id q = tenant_id p" using p by (simp add: tenant_id_def q nth_append)
    show "namespace_leaf q = n" by (simp add: namespace_leaf_def q)
    show "is_descendant_of q p" by (simp add: is_descendant_of_def q)
  }
  fix a :: namespace_path assume a: "np_segments a \<noteq> []"
  show "a \<in> set (ancestors_inclusive p) \<longleftrightarrow> is_descendant_of p a"
  proof
    assume "a \<in> set (ancestors_inclusive p)"
    then show "is_descendant_of p a"
      by (auto simp: ancestors_inclusive_def is_descendant_of_def min_def)
  next
    assume d: "is_descendant_of p a"
    then have len: "length (np_segments a) \<le> length (np_segments p)"
      unfolding is_descendant_of_def by (metis length_take min.cobounded1 min.commute)
    have "a = \<lparr>np_segments = take (length (np_segments a)) (np_segments p)\<rparr>"
      using d by (simp add: is_descendant_of_def)
    moreover have "length (np_segments a) \<in> set [1..<length (np_segments p) + 1]"
    proof -
      have "1 \<le> length (np_segments a)" using a by (simp add: Suc_le_eq)
      then show ?thesis using len unfolding set_upt atLeastLessThan_iff by linarith
    qed
    ultimately show "a \<in> set (ancestors_inclusive p)"
      unfolding ancestors_inclusive_def set_map by blast
  qed
qed

end
