(* ===== verification/Locality.thy ===== *)
theory Locality
  imports Graph_Keys
begin

text \<open>
  \<^verbatim>\<open>src/locality.rs\<close>: the segment extractor that tells the storage engine which cell a key belongs to,
  and the survey of a key set it is judged by. The result agrees with the abstract key space: the
  extractor finds the cell of every cell key and none for the drop markers.
\<close>

datatype storage_layout = OneDbPerLocalityCell | SegmentedLocalityKeyspace

record locality_layout_experiment =
  le_total_keys :: nat
  le_segmentable_keys :: nat
  le_cells :: "(string, nat) btmap"
  le_unsegmentable_keys :: "string list"
  le_recommended_layout :: storage_layout

definition segment_extractor_safe :: "locality_layout_experiment \<Rightarrow> bool" where
  "segment_extractor_safe self \<longleftrightarrow>
     le_total_keys self = le_segmentable_keys self \<and> le_unsegmentable_keys self = []"

fun position :: "char \<Rightarrow> bytes \<Rightarrow> nat option" where
  "position b [] = None"
| "position b (c # cs) = (if c = b then Some 0 else map_option Suc (position b cs))"

definition locality_cell_prefix_len :: "bytes \<Rightarrow> nat option" where
  "locality_cell_prefix_len key =
     (if \<not> starts_with ''cell/'' key then None
      else case position SLASH (drop 5 key) of
        None \<Rightarrow> None
      | Some relative_end \<Rightarrow> if relative_end = 0 then None else Some (5 + relative_end + 1))"

definition locality_cell_id :: "bytes \<Rightarrow> string option" where
  "locality_cell_id key =
     (case locality_cell_prefix_len key of
        None \<Rightarrow> None
      | Some prefix_len \<Rightarrow>
          (case from_utf8 (drop 5 (take (prefix_len - 1) key)) of Inl _ \<Rightarrow> None | Inr s \<Rightarrow> Some s))"

definition locality_cell_prefix :: "string \<Rightarrow> bytes" where
  "locality_cell_prefix cell_id = ''cell/'' @ cell_id @ ''/''"

definition extractor_prefix :: "bytes \<Rightarrow> bytes option" where
  "extractor_prefix key = map_option (\<lambda>len. take len key) (locality_cell_prefix_len key)"

datatype prefix_target = PointTarget bytes | PrefixTarget bytes

fun extractor_prefix_len :: "prefix_target \<Rightarrow> nat option" where
  "extractor_prefix_len (PointTarget key) = locality_cell_prefix_len key"
| "extractor_prefix_len (PrefixTarget prefix) = locality_cell_prefix_len prefix"

definition layout_step :: "string \<Rightarrow> locality_layout_experiment \<Rightarrow> locality_layout_experiment" where
  "layout_step key acc =
     (let acc = acc\<lparr>le_total_keys := le_total_keys acc + 1\<rparr> in
      case locality_cell_id key of
        Some cell_id \<Rightarrow>
          acc\<lparr>le_segmentable_keys := le_segmentable_keys acc + 1,
              le_cells := bt_insert cell_id
                (case bt_get (le_cells acc) cell_id of None \<Rightarrow> 1 | Some n \<Rightarrow> n + 1) (le_cells acc)\<rparr>
      | None \<Rightarrow> acc\<lparr>le_unsegmentable_keys := le_unsegmentable_keys acc @ [key]\<rparr>)"

definition compare_locality_layouts :: "string list \<Rightarrow> locality_layout_experiment" where
  "compare_locality_layouts keys =
     fold layout_step keys
       \<lparr>le_total_keys = 0, le_segmentable_keys = 0, le_cells = [], le_unsegmentable_keys = [],
        le_recommended_layout = OneDbPerLocalityCell\<rparr>"

subsection \<open>Lemmas\<close>

lemma position_append: "b \<notin> set xs \<Longrightarrow> position b (xs @ b # ys) = Some (length xs)"
  by (induction xs) auto

lemma prefix_len_cell:
  "valid_component c \<Longrightarrow> locality_cell_prefix_len (''cell/'' @ c @ SLASH # rest) = Some (length (cell_prefix c))"
  by (simp add: locality_cell_prefix_len_def starts_with_def position_append valid_component_avoids
      valid_component_nonempty cell_prefix_def)

lemma cell_id_cell:
  "valid_component c \<Longrightarrow> locality_cell_id (''cell/'' @ c @ SLASH # rest) = Some c"
  unfolding locality_cell_id_def by (subst prefix_len_cell) (simp_all add: cell_prefix_def)

lemma render_in_cell:
  assumes "valid_key k" "key_cell k = Some c"
  shows "valid_component c" and "\<exists>rest. render k = ''cell/'' @ c @ SLASH # rest"
proof -
  obtain rs where rs: "rs \<noteq> []" "key_parts k = [''cell'', c] @ rs"
    using key_parts_cell[of k c] assms(2) by blast
  then show "valid_component c" using assms(1) by (simp add: valid_key_def)
  have "render k = join_with SLASH ([''cell'', c] @ rs)" by (simp only: render_parts rs(2))
  then show "\<exists>rest. render k = ''cell/'' @ c @ SLASH # rest"
    using rs(1) by (cases rs) auto
qed

lemma key_cell_None: "key_cell k = None \<Longrightarrow> \<exists>ps. key_parts k = ''graph'' # ps \<and> ps \<noteq> []"
  by (cases k) simp_all

lemma render_outside_cell:
  assumes "key_cell k = None"
  shows "locality_cell_prefix_len (render k) = None"
proof -
  obtain p ps where "key_parts k = ''graph'' # p # ps"
    using key_cell_None[OF assms] by (metis neq_Nil_conv)
  then have "render k = ''graph'' @ SLASH # join_with SLASH (p # ps)"
    by (simp add: render_parts)
  then show ?thesis by (simp add: locality_cell_prefix_len_def starts_with_def)
qed

lemma layout_step_counts:
  "le_total_keys (fold layout_step ks acc) = le_total_keys acc + length ks"
  "le_segmentable_keys (fold layout_step ks acc) + length (le_unsegmentable_keys (fold layout_step ks acc))
     = le_segmentable_keys acc + length (le_unsegmentable_keys acc) + length ks"
  by (induction ks arbitrary: acc) (simp_all add: layout_step_def Let_def split: option.split)

lemma layout_step_unsegmentable:
  "le_unsegmentable_keys (fold layout_step ks acc)
     = le_unsegmentable_keys acc @ filter (\<lambda>k. locality_cell_id k = None) ks"
  by (induction ks arbitrary: acc) (simp_all add: layout_step_def Let_def split: option.split)

lemma layout_step_cells:
  "bt_ok (le_cells acc) \<Longrightarrow> bt_ok (le_cells (fold layout_step ks acc))
     \<and> (case bt_get (le_cells (fold layout_step ks acc)) c of None \<Rightarrow> 0 | Some n \<Rightarrow> n)
       = (case bt_get (le_cells acc) c of None \<Rightarrow> 0 | Some n \<Rightarrow> n)
         + length (filter (\<lambda>k. locality_cell_id k = Some c) ks)"
proof (induction ks arbitrary: acc)
  case (Cons k ks)
  have "bt_ok (le_cells (layout_step k acc))"
    using Cons.prems by (simp add: layout_step_def Let_def split: option.split)
  note IH = Cons.IH[OF this]
  have "(case bt_get (le_cells (layout_step k acc)) c of None \<Rightarrow> 0 | Some n \<Rightarrow> n)
      = (case bt_get (le_cells acc) c of None \<Rightarrow> 0 | Some n \<Rightarrow> n) + (if locality_cell_id k = Some c then 1 else 0)"
    using Cons.prems by (simp add: layout_step_def Let_def bt_get_insert split: option.split)
  with IH show ?case by simp
qed simp

subsection \<open>Properties\<close>

text \<open>On every key the program writes, the extractor's cell is the cell
  of the key and the extracted prefix is that cell's scan prefix; the keys outside every cell (the
  drop markers) have no extracted prefix, so dropping a cell's segment never drops its marker.\<close>

theorem locality_matches_keyspace:
  assumes "valid_key k"
  shows "locality_cell_id (render k) = key_cell k
    \<and> extractor_prefix (render k) = map_option cell_prefix (key_cell k)"
proof (cases "key_cell k")
  case None
  then show ?thesis
    using render_outside_cell[OF None] by (simp add: locality_cell_id_def extractor_prefix_def)
next
  case (Some c)
  from render_in_cell[OF assms Some] obtain rest
    where c: "valid_component c" and r: "render k = ''cell/'' @ c @ SLASH # rest" by blast
  have "extractor_prefix (render k) = Some (cell_prefix c)"
    unfolding extractor_prefix_def r prefix_len_cell[OF c] by (simp add: cell_prefix_def)
  moreover have "locality_cell_id (render k) = Some c"
    unfolding r by (rule cell_id_cell[OF c])
  ultimately show ?thesis using Some by simp
qed

theorem locality_matches_keyspace_witness:
  "valid_key (KOutEdge ''c1'' ''T'' 1 2) \<and> locality_cell_id (render (KOutEdge ''c1'' ''T'' 1 2)) = Some ''c1''"
proof -
  have v: "valid_key (KOutEdge ''c1'' ''T'' 1 2)"
    by (simp add: valid_key_def literal_component) (simp add: valid_component_def component_byte_def)
  from locality_matches_keyspace[OF v] v show ?thesis by simp
qed

text \<open>The layout survey counts every key once, attributes to each cell exactly
  the keys extracted to it, lists the other keys in order, and calls the extractor safe exactly when
  every key has a cell.\<close>

theorem layout_survey_exact:
  "le_total_keys (compare_locality_layouts ks) = length ks
   \<and> le_unsegmentable_keys (compare_locality_layouts ks) = filter (\<lambda>k. locality_cell_id k = None) ks
   \<and> (case bt_get (le_cells (compare_locality_layouts ks)) c of None \<Rightarrow> 0 | Some n \<Rightarrow> n)
      = length (filter (\<lambda>k. locality_cell_id k = Some c) ks)
   \<and> (segment_extractor_safe (compare_locality_layouts ks) \<longleftrightarrow> list_all (\<lambda>k. locality_cell_id k \<noteq> None) ks)"
proof -
  let ?z = "\<lparr>le_total_keys = 0, le_segmentable_keys = 0, le_cells = [], le_unsegmentable_keys = [],
    le_recommended_layout = OneDbPerLocalityCell\<rparr>"
  have u: "le_unsegmentable_keys (compare_locality_layouts ks) = filter (\<lambda>k. locality_cell_id k = None) ks"
    by (simp add: compare_locality_layouts_def layout_step_unsegmentable)
  have t: "le_total_keys (compare_locality_layouts ks) = length ks"
    and s: "le_segmentable_keys (compare_locality_layouts ks)
      + length (le_unsegmentable_keys (compare_locality_layouts ks)) = length ks"
    using layout_step_counts[of ks ?z] by (simp_all add: compare_locality_layouts_def)
  have "segment_extractor_safe (compare_locality_layouts ks) \<longleftrightarrow>
      le_unsegmentable_keys (compare_locality_layouts ks) = []"
    unfolding segment_extractor_safe_def using t s by auto
  then show ?thesis
    using t u layout_step_cells[of ?z ks c]
    by (simp add: compare_locality_layouts_def filter_empty_conv list_all_iff)
qed

end
