(* ===== verification/Codec_Segment.thy ===== *)
theory Codec_Segment
  imports Codec_Keys
begin

text \<open>
  \<^verbatim>\<open>src/codec.rs\<close>, edge records and outgoing edge segments. An edge record is a constant: its identity
  is its key. A segment is a header, a 64-bit count and that many 64-bit destinations; the decoder
  checks the count against the length of the value before it reads a destination. Counts are
  \<^verbatim>\<open>u64\<close> and \<^verbatim>\<open>usize\<close> is 64 bits wide.
\<close>

definition edge_record_text :: bytes where
  "edge_record_text = ''graph-edge'' @ [NL]"

definition encode_edge_record :: "edge_record \<Rightarrow> bytes" where
  "encode_edge_record record = edge_record_text"

definition decode_edge_record :: "string \<Rightarrow> bytes \<Rightarrow> edge_record result" where
  "decode_edge_record key value =
     (if value \<noteq> edge_record_text then Inl (CorruptValue key ''expected graph-edge record'')
      else parse_edge_record_key key)"

definition segment_header :: bytes where
  "segment_header = ''graph-out-segment'' @ [NL]"

definition encode_out_edge_segment_records :: "vertex_id list \<Rightarrow> bytes" where
  "encode_out_edge_segment_records destinations =
     segment_header @ to_be_bytes (word_of_nat (length destinations))
     @ concat (map to_be_bytes destinations)"

fun chunks_exact8 :: "bytes \<Rightarrow> bytes list" where
  "chunks_exact8 bs = (if length bs < 8 then [] else take 8 bs # chunks_exact8 (drop 8 bs))"

declare chunks_exact8.simps [simp del]

definition decode_out_edge_segment :: "string \<Rightarrow> bytes \<Rightarrow> out_edge_segment result" where
  "decode_out_edge_segment key value =
     rbind (parse_out_edge_segment_key key) (\<lambda>(cell_id, edge_type, src, storage_sequence).
       case strip_prefix segment_header value of
         None \<Rightarrow> Inl (CorruptValue key ''expected graph-out-segment record'')
       | Some body \<Rightarrow>
           if length body < 8 then
             Inl (CorruptValue key
               (''expected graph-out-segment count, got '' @ to_dec (length body) @ '' bytes''))
           else
             let expected = from_be_bytes (take 8 body);
                 edge_bytes = drop 8 body in
             if 2 ^ 64 \<le> unat expected * 8 then
               Inl (CorruptValue key (''graph-out-segment count '' @ fmt_u64 expected @ '' is too large''))
             else if length edge_bytes \<noteq> unat expected * 8 then
               Inl (CorruptValue key
                 (''expected '' @ to_dec (unat expected * 8) @ '' graph-out-segment destination bytes, got ''
                  @ to_dec (length edge_bytes)))
             else
               Inr \<lparr>os_cell_id = cell_id, os_edge_type = edge_type, os_src = src,
                    os_storage_sequence = storage_sequence,
                    os_destinations = map from_be_bytes (chunks_exact8 edge_bytes)\<rparr>)"

definition segment_edge_visible :: "storage_sequence \<Rightarrow> storage_sequence option \<Rightarrow> bool" where
  "segment_edge_visible edge_epoch tombstone_epoch =
     (case tombstone_epoch of None \<Rightarrow> True | Some epoch \<Rightarrow> epoch < edge_epoch)"

subsection \<open>Lemmas\<close>

lemma chunks_concat: "chunks_exact8 (concat (map to_be_bytes ds)) = map to_be_bytes ds"
  by (induction ds) (simp_all add: chunks_exact8.simps)

lemma length_destinations [simp]: "length (concat (map to_be_bytes ds)) = 8 * length ds"
  by (induction ds) simp_all

lemma concat_chunks:
  "length bs = 8 * n \<Longrightarrow> concat (chunks_exact8 bs) = bs \<and> length (chunks_exact8 bs) = n
     \<and> (\<forall>c \<in> set (chunks_exact8 bs). length c = 8)"
proof (induction n arbitrary: bs)
  case 0
  then show ?case by (simp add: chunks_exact8.simps)
next
  case (Suc n)
  then have "length (drop 8 bs) = 8 * n" by simp
  note IH = Suc.IH[OF this]
  have "\<not> length bs < 8" using Suc.prems by simp
  then have "chunks_exact8 bs = take 8 bs # chunks_exact8 (drop 8 bs)"
    by (simp only: chunks_exact8.simps[of bs] if_False)
  with IH Suc.prems show ?case by simp
qed

lemma unat_length: "length ds < 2 ^ 64 \<Longrightarrow> unat (word_of_nat (length ds) :: u64) = length ds"
  by (simp add: unat_of_nat take_bit_eq_mod)

lemma decode_segment_encode:
  assumes "valid_component c" "valid_component t" "valid_component g" "8 * length ds < 2 ^ 64"
  shows "decode_out_edge_segment (out_segment c t s q g) (encode_out_edge_segment_records ds) =
    Inr \<lparr>os_cell_id = c, os_edge_type = t, os_src = s, os_storage_sequence = q, os_destinations = ds\<rparr>"
proof -
  have "unat (word_of_nat (length ds) :: u64) = length ds"
    using assms(4) by (intro unat_length) simp
  then show ?thesis
    using assms
    by (simp add: decode_out_edge_segment_def encode_out_edge_segment_records_def parse_segment_key
        chunks_concat comp_def mult.commute)
qed

lemma decode_segment_shape:
  assumes "decode_out_edge_segment key value = Inr seg"
  shows "\<exists>body. value = segment_header @ body \<and> 8 \<le> length body
    \<and> length (drop 8 body) = unat (from_be_bytes (take 8 body)) * 8
    \<and> os_destinations seg = map from_be_bytes (chunks_exact8 (drop 8 body))"
proof -
  obtain c t s q where *: "(case strip_prefix segment_header value of
         None \<Rightarrow> Inl (CorruptValue key ''expected graph-out-segment record'')
       | Some body \<Rightarrow>
           if length body < 8 then
             Inl (CorruptValue key
               (''expected graph-out-segment count, got '' @ to_dec (length body) @ '' bytes''))
           else
             let expected = from_be_bytes (take 8 body);
                 edge_bytes = drop 8 body in
             if 2 ^ 64 \<le> unat expected * 8 then
               Inl (CorruptValue key (''graph-out-segment count '' @ fmt_u64 expected @ '' is too large''))
             else if length edge_bytes \<noteq> unat expected * 8 then
               Inl (CorruptValue key
                 (''expected '' @ to_dec (unat expected * 8) @ '' graph-out-segment destination bytes, got ''
                  @ to_dec (length edge_bytes)))
             else
               Inr \<lparr>os_cell_id = c, os_edge_type = t, os_src = s, os_storage_sequence = q,
                    os_destinations = map from_be_bytes (chunks_exact8 edge_bytes)\<rparr>) = Inr seg"
    using assms unfolding decode_out_edge_segment_def rbind_Inr_iff case_prod_unfold by blast
  show ?thesis
  proof (cases "strip_prefix segment_header value")
    case None
    with * show ?thesis by simp
  next
    case (Some body)
    show ?thesis
    proof (intro exI[of _ body] conjI)
      show "value = segment_header @ body" using Some by (simp add: strip_prefix_Some)
      show len: "8 \<le> length body" using * Some by (cases "length body < 8") simp_all
      show n: "length (drop 8 body) = unat (from_be_bytes (take 8 body)) * 8"
        using * Some len by (simp add: Let_def split: if_splits)
      show "os_destinations seg = map from_be_bytes (chunks_exact8 (drop 8 body))"
        using * Some len n by (auto simp: Let_def split: if_splits)
    qed
  qed
qed

lemma decode_segment_sound:
  assumes "decode_out_edge_segment key value = Inr seg"
  shows "value = encode_out_edge_segment_records (os_destinations seg)"
proof -
  obtain body where v: "value = segment_header @ body" and len: "8 \<le> length body"
    and n: "length (drop 8 body) = unat (from_be_bytes (take 8 body)) * 8"
    and ds: "os_destinations seg = map from_be_bytes (chunks_exact8 (drop 8 body))"
    using decode_segment_shape[OF assms] by (elim exE conjE) (rule that)
  let ?cs = "chunks_exact8 (drop 8 body)" and ?n = "from_be_bytes (take 8 body)"
  have cs: "concat ?cs = drop 8 body" "length ?cs = unat ?n" "\<forall>c \<in> set ?cs. length c = 8"
    using concat_chunks[of "drop 8 body" "unat ?n"] n[unfolded mult.commute[of _ 8]] by blast+
  have be: "map to_be_bytes (os_destinations seg) = ?cs"
    unfolding ds list.map_comp by (rule map_idI) (simp add: cs(3) to_from_be_bytes)
  have "length (os_destinations seg) = unat ?n" unfolding ds length_map cs(2) ..
  then have "word_of_nat (length (os_destinations seg)) = ?n" by (simp only: of_nat_unat ucast_id)
  then have "to_be_bytes (word_of_nat (length (os_destinations seg))) = take 8 body"
    using to_from_be_bytes[of "take 8 body"] len by (simp only: length_take min_absorb2)
  then show ?thesis
    unfolding encode_out_edge_segment_records_def be v cs(1) by simp
qed

subsection \<open>Properties\<close>

text \<open>C32 (segment_codec_exact). An outgoing segment stored under its key decodes to the destinations,
  source, edge type and sequence it was written with; conversely any value the decoder accepts is
  byte for byte the encoding of the destinations it returns, so truncated, extended or miscounted
  segments are rejected.\<close>

theorem segment_codec_exact:
  assumes "valid_component c" and "valid_component t" and "valid_component g"
    and "8 * length ds < 2 ^ 64"
  shows "decode_out_edge_segment (out_segment c t s q g) (encode_out_edge_segment_records ds) =
      Inr \<lparr>os_cell_id = c, os_edge_type = t, os_src = s, os_storage_sequence = q, os_destinations = ds\<rparr>
    \<and> (decode_out_edge_segment key value = Inr seg \<longrightarrow>
         value = encode_out_edge_segment_records (os_destinations seg))"
  using assms decode_segment_encode decode_segment_sound by blast

theorem segment_codec_exact_witness:
  "decode_out_edge_segment (out_segment ''cell'' ''out'' 5 7 ''seg'') (encode_out_edge_segment_records [3, 9]) =
     Inr \<lparr>os_cell_id = ''cell'', os_edge_type = ''out'', os_src = 5, os_storage_sequence = 7,
          os_destinations = [3, 9]\<rparr>"
proof -
  have "8 * length [3 :: vertex_id, 9] < 2 ^ 64" by simp
  from segment_codec_exact[OF literal_component(1) literal_component(3) literal_component(5) this]
  show ?thesis by blast
qed

end
