(* ===== verification/Txn_Store.thy ===== *)
theory Txn_Store
  imports Codec_Segment Codec_Metadata Codec_Idempotency
begin

text \<open>
  The transactions the write path runs in. SlateDB is not part of the sources, so a transaction is a
  parameter: a record of the operations of \<^verbatim>\<open>Db\<close> and \<^verbatim>\<open>DbTransaction\<close> that the kernel calls, over a
  state type of its own that holds the store and the open transaction. The locale \<open>txn_refines\<close> states what the kernel relies on: an operation that succeeds
  behaves like the same operation on a map from keys to values (reads see the snapshot overlaid by
  the transaction's own writes, a prefix scan returns the matching records in key order, a commit
  makes the overlay durable at the requested sequence and yields no
  handle when nothing was written). Beginning a transaction drops the writes of
  one that was not committed, and reads of the database see what was committed. Operations may fail
  at any time. The client
  programs are written once, over any operations, and \<open>sim\<close> transports a successful run to the
  reference operations \<open>map_ops\<close>.

  A program is a state transformer that keeps the state when it fails, as Rust does: what was
  changed before an error stays changed. The state holds the transaction and the shard's cache of
  edge types whose changelog floor is known to exist.
\<close>

record 't txn_ops =
  begin_op :: "'t \<Rightarrow> unit result \<times> 't"
  mark_read_op :: "bytes list \<Rightarrow> 't \<Rightarrow> unit result \<times> 't"
  get_op :: "bytes \<Rightarrow> 't \<Rightarrow> bytes option result \<times> 't"
  scan_prefix_op :: "bytes \<Rightarrow> 't \<Rightarrow> (bytes \<times> bytes) list result \<times> 't"
  put_op :: "bytes \<Rightarrow> bytes \<Rightarrow> 't \<Rightarrow> unit result \<times> 't"
  delete_op :: "bytes \<Rightarrow> 't \<Rightarrow> unit result \<times> 't"
  seqnum_op :: "'t \<Rightarrow> storage_sequence"
  commit_op :: "bool \<Rightarrow> storage_sequence \<Rightarrow> 't \<Rightarrow> storage_sequence option result \<times> 't"
  db_get_op :: "bytes \<Rightarrow> 't \<Rightarrow> bytes option result \<times> 't"
  db_scan_op :: "bytes \<Rightarrow> bytes option \<Rightarrow> bytes option \<Rightarrow> 't \<Rightarrow> (bytes \<times> bytes) list result \<times> 't"
  db_seq_op :: "'t \<Rightarrow> storage_sequence result \<times> 't"

record 't shard_state =
  ss_txn :: 't
  ss_floor :: "string btset"

type_synonym ('s, 'a) prog = "'s \<Rightarrow> 'a result \<times> 's"

subsection \<open>Programs\<close>

definition preturn :: "'a \<Rightarrow> ('s, 'a) prog" where
  "preturn x s = (Inr x, s)"

definition pfail :: "graph_error \<Rightarrow> ('s, 'a) prog" where
  "pfail e s = (Inl e, s)"

definition pbind :: "('s, 'a) prog \<Rightarrow> ('a \<Rightarrow> ('s, 'b) prog) \<Rightarrow> ('s, 'b) prog" where
  "pbind m f s = (case m s of (Inl e, s') \<Rightarrow> (Inl e, s') | (Inr x, s') \<Rightarrow> f x s')"

definition plift :: "'a result \<Rightarrow> ('s, 'a) prog" where
  "plift r s = (r, s)"

definition pif :: "bool \<Rightarrow> ('s, 'a) prog \<Rightarrow> ('s, 'a) prog \<Rightarrow> ('s, 'a) prog" where
  "pif b m n = (if b then m else n)"

fun pfor :: "'a list \<Rightarrow> ('a \<Rightarrow> ('s, unit) prog) \<Rightarrow> ('s, unit) prog" where
  "pfor [] f = preturn ()"
| "pfor (x # xs) f = pbind (f x) (\<lambda>_. pfor xs f)"

fun pfold :: "'a list \<Rightarrow> ('a \<Rightarrow> 'b \<Rightarrow> ('s, 'b) prog) \<Rightarrow> 'b \<Rightarrow> ('s, 'b) prog" where
  "pfold [] f acc = preturn acc"
| "pfold (x # xs) f acc = pbind (f x acc) (pfold xs f)"

definition on_txn :: "('t, 'a) prog \<Rightarrow> ('t shard_state, 'a) prog" where
  "on_txn m s = (case m (ss_txn s) of (r, t) \<Rightarrow> (r, s\<lparr>ss_txn := t\<rparr>))"

definition txn_put :: "'t txn_ops \<Rightarrow> bytes \<Rightarrow> bytes \<Rightarrow> ('t shard_state, unit) prog" where
  "txn_put ops key value = on_txn (put_op ops key value)"

definition txn_delete :: "'t txn_ops \<Rightarrow> bytes \<Rightarrow> ('t shard_state, unit) prog" where
  "txn_delete ops key = on_txn (delete_op ops key)"

definition txn_scan_prefix :: "'t txn_ops \<Rightarrow> bytes \<Rightarrow> ('t shard_state, (bytes \<times> bytes) list) prog" where
  "txn_scan_prefix ops prefix = on_txn (scan_prefix_op ops prefix)"

definition txn_begin :: "'t txn_ops \<Rightarrow> ('t shard_state, unit) prog" where
  "txn_begin ops = on_txn (begin_op ops)"

definition db_scan :: "'t txn_ops \<Rightarrow> bytes \<Rightarrow> bytes option \<Rightarrow> bytes option \<Rightarrow>
    ('t shard_state, (bytes \<times> bytes) list) prog" where
  "db_scan ops prefix lo hi = on_txn (db_scan_op ops prefix lo hi)"

definition db_seq :: "'t txn_ops \<Rightarrow> ('t shard_state, storage_sequence) prog" where
  "db_seq ops = on_txn (db_seq_op ops)"

definition txn_seqnum :: "'t txn_ops \<Rightarrow> ('t shard_state, storage_sequence) prog" where
  "txn_seqnum ops s = (Inr (seqnum_op ops (ss_txn s)), s)"

subsection \<open>Shared transaction helpers of the codec\<close>

definition read_txn_remote :: "'t txn_ops \<Rightarrow> string \<Rightarrow> ('t shard_state, bytes option) prog" where
  "read_txn_remote ops key =
     pbind (on_txn (mark_read_op ops [key])) (\<lambda>_. on_txn (get_op ops key))"

definition read_remote :: "'t txn_ops \<Rightarrow> string \<Rightarrow> ('t shard_state, bytes option) prog" where
  "read_remote ops key = on_txn (db_get_op ops key)"

definition scan_remote_prefix :: "'t txn_ops \<Rightarrow> string \<Rightarrow> ('t shard_state, (bytes \<times> bytes) list) prog" where
  "scan_remote_prefix ops prefix = db_scan ops prefix None None"

definition read_counter_txn :: "'t txn_ops \<Rightarrow> string \<Rightarrow> ('t shard_state, u64) prog" where
  "read_counter_txn ops key =
     pbind (read_txn_remote ops key) (\<lambda>value.
       case value of Some v \<Rightarrow> plift (decode_u64 key v) | None \<Rightarrow> preturn 0)"

definition next_epoch_txn :: "'t txn_ops \<Rightarrow> string \<Rightarrow> ('t shard_state, storage_sequence) prog" where
  "next_epoch_txn ops cell_id =
     pbind (txn_seqnum ops) (\<lambda>seq.
       plift (ok_or (CorruptValue (''cell/'' @ cell_id @ ''/storage_sequence'')
                ''SlateDB storage sequence overflow'') (checked_add seq 1)))"

definition commit_txn_strict_with_sequence ::
    "'t txn_ops \<Rightarrow> bool \<Rightarrow> ('t shard_state, storage_sequence option) prog" where
  "commit_txn_strict_with_sequence ops await_durable =
     pbind (txn_seqnum ops) (\<lambda>seq.
     pbind (plift (ok_or (CorruptValue ''storage_sequence'' ''SlateDB storage sequence overflow'')
              (checked_add seq 1))) (\<lambda>sequence.
       on_txn (commit_op ops await_durable sequence)))"

definition commit_txn_strict :: "'t txn_ops \<Rightarrow> bool \<Rightarrow> ('t shard_state, unit) prog" where
  "commit_txn_strict ops await_durable =
     pbind (commit_txn_strict_with_sequence ops await_durable) (\<lambda>_. preturn ())"

subsection \<open>Reference transactions\<close>

record map_txn =
  mt_view :: "(bytes, bytes) btmap"
  mt_durable :: "(bytes, bytes) btmap"
  mt_seq :: storage_sequence
  mt_dirty :: bool

text \<open>A bounded scan selects the keys with the prefix whose remainder lies in a half-open interval.\<close>

definition in_subrange :: "bytes \<Rightarrow> bytes option \<Rightarrow> bytes option \<Rightarrow> bytes \<Rightarrow> bool" where
  "in_subrange p lo hi key \<longleftrightarrow> starts_with p key
     \<and> (case lo of None \<Rightarrow> True | Some a \<Rightarrow> a \<le> drop (length p) key)
     \<and> (case hi of None \<Rightarrow> True | Some b \<Rightarrow> drop (length p) key < b)"

definition map_ops :: "map_txn txn_ops" where
  "map_ops =
     \<lparr>begin_op = (\<lambda>t. (Inr (), t\<lparr>mt_view := mt_durable t, mt_dirty := False\<rparr>)),
      mark_read_op = (\<lambda>ks t. (Inr (), t)),
      get_op = (\<lambda>k t. (Inr (bt_get (mt_view t) k), t)),
      scan_prefix_op = (\<lambda>p t. (Inr (filter (\<lambda>kv. starts_with p (fst kv)) (mt_view t)), t)),
      put_op = (\<lambda>k v t. (Inr (), t\<lparr>mt_view := bt_insert k v (mt_view t), mt_dirty := True\<rparr>)),
      delete_op = (\<lambda>k t. (Inr (), t\<lparr>mt_view := bt_remove k (mt_view t), mt_dirty := True\<rparr>)),
      seqnum_op = mt_seq,
      commit_op = (\<lambda>d q t. if mt_dirty t then (Inr (Some q), t\<lparr>mt_durable := mt_view t, mt_seq := q, mt_dirty := False\<rparr>)
                   else (Inr None, t)),
      db_get_op = (\<lambda>k t. (Inr (bt_get (mt_durable t) k), t)),
      db_scan_op = (\<lambda>p lo hi t. (Inr (filter (\<lambda>kv. in_subrange p lo hi (fst kv)) (mt_durable t)), t)),
      db_seq_op = (\<lambda>t. (Inr (mt_seq t), t))\<rparr>"

lemma map_ops_simps [simp]:
  "begin_op map_ops t = (Inr (), t\<lparr>mt_view := mt_durable t, mt_dirty := False\<rparr>)"
  "mark_read_op map_ops ks t = (Inr (), t)"
  "get_op map_ops k t = (Inr (bt_get (mt_view t) k), t)"
  "scan_prefix_op map_ops p t = (Inr (filter (\<lambda>kv. starts_with p (fst kv)) (mt_view t)), t)"
  "put_op map_ops k v t = (Inr (), t\<lparr>mt_view := bt_insert k v (mt_view t), mt_dirty := True\<rparr>)"
  "delete_op map_ops k t = (Inr (), t\<lparr>mt_view := bt_remove k (mt_view t), mt_dirty := True\<rparr>)"
  "seqnum_op map_ops t = mt_seq t"
  "commit_op map_ops d q t =
     (if mt_dirty t then (Inr (Some q), t\<lparr>mt_durable := mt_view t, mt_seq := q, mt_dirty := False\<rparr>) else (Inr None, t))"
  "db_get_op map_ops k t = (Inr (bt_get (mt_durable t) k), t)"
  "db_scan_op map_ops p lo hi t = (Inr (filter (\<lambda>kv. in_subrange p lo hi (fst kv)) (mt_durable t)), t)"
  "db_seq_op map_ops t = (Inr (mt_seq t), t)"
  by (simp_all add: map_ops_def)

text \<open>Program steps compute.\<close>

named_theorems prog_simps \<open>evaluation of programs\<close>

lemma prog_eval [prog_simps]:
  "preturn x s = (Inr x, s)" "pfail e s = (Inl e, s)" "plift r s = (r, s)"
  "pif True m n = m" "pif False m n = n"
  by (simp_all add: preturn_def pfail_def plift_def pif_def)

lemma pbind_eval [prog_simps]:
  "m s = (Inr x, s') \<Longrightarrow> pbind m f s = f x s'"
  "m s = (Inl e, s') \<Longrightarrow> pbind m f s = (Inl e, s')"
  by (simp_all add: pbind_def)

lemma pbind_preturn [prog_simps]: "pbind (preturn x) f = f x"
  by (simp add: pbind_def preturn_def fun_eq_iff)

lemma pbind_plift [prog_simps]:
  "pbind (plift (Inr x)) f = f x" "pbind (plift (Inl e)) f = pfail e"
  by (simp_all add: pbind_def plift_def pfail_def fun_eq_iff)

lemma pbind_Inr: "pbind m f s = (Inr y, s'') \<longleftrightarrow> (\<exists>x s'. m s = (Inr x, s') \<and> f x s' = (Inr y, s''))"
  by (auto simp: pbind_def split: prod.splits sum.splits)

lemma pbind_assoc: "pbind (pbind m f) g = pbind m (\<lambda>x. pbind (f x) g)"
proof (rule ext)
  fix s
  obtain r s' where m: "m s = (r, s')" by (cases "m s")
  show "pbind (pbind m f) g s = pbind m (\<lambda>x. pbind (f x) g) s"
    by (cases r) (simp_all add: pbind_def m)
qed

subsection \<open>Refinement\<close>

locale txn_refines =
  fixes ops :: "'t txn_ops"
    and abs :: "'t \<Rightarrow> map_txn"
  assumes begin_refines: "begin_op ops t = (Inr u, t') \<Longrightarrow> begin_op map_ops (abs t) = (Inr u, abs t')"
    and mark_read_refines:
      "mark_read_op ops ks t = (Inr u, t') \<Longrightarrow> mark_read_op map_ops ks (abs t) = (Inr u, abs t')"
    and get_refines: "get_op ops k t = (Inr found, t') \<Longrightarrow> get_op map_ops k (abs t) = (Inr found, abs t')"
    and scan_refines:
      "scan_prefix_op ops p t = (Inr kvs, t') \<Longrightarrow> scan_prefix_op map_ops p (abs t) = (Inr kvs, abs t')"
    and put_refines: "put_op ops k v t = (Inr u, t') \<Longrightarrow> put_op map_ops k v (abs t) = (Inr u, abs t')"
    and delete_refines: "delete_op ops k t = (Inr u, t') \<Longrightarrow> delete_op map_ops k (abs t) = (Inr u, abs t')"
    and seqnum_refines: "seqnum_op ops t = seqnum_op map_ops (abs t)"
    and commit_refines:
      "commit_op ops d q t = (Inr h, t') \<Longrightarrow> commit_op map_ops d q (abs t) = (Inr h, abs t')"
    and db_get_refines: "db_get_op ops k t = (Inr found, t') \<Longrightarrow> db_get_op map_ops k (abs t) = (Inr found, abs t')"
    and db_scan_refines:
      "db_scan_op ops p lo hi t = (Inr kvs, t') \<Longrightarrow> db_scan_op map_ops p lo hi (abs t) = (Inr kvs, abs t')"
    and db_seq_refines: "db_seq_op ops t = (Inr q, t') \<Longrightarrow> db_seq_op map_ops (abs t) = (Inr q, abs t')"
begin

definition abs_state :: "'t shard_state \<Rightarrow> map_txn shard_state" where
  "abs_state s = \<lparr>ss_txn = abs (ss_txn s), ss_floor = ss_floor s\<rparr>"

definition sim :: "('t shard_state, 'a) prog \<Rightarrow> (map_txn shard_state, 'a) prog \<Rightarrow> bool" where
  "sim m n \<longleftrightarrow> (\<forall>s x s'. m s = (Inr x, s') \<longrightarrow> n (abs_state s) = (Inr x, abs_state s'))"

lemma simD: "sim m n \<Longrightarrow> m s = (Inr x, s') \<Longrightarrow> n (abs_state s) = (Inr x, abs_state s')"
  by (simp add: sim_def)

lemma sim_preturn: "sim (preturn x) (preturn x)"
  by (simp add: sim_def preturn_def)

lemma sim_pfail: "sim (pfail e) (pfail e)"
  by (simp add: sim_def pfail_def)

lemma sim_plift: "sim (plift r) (plift r)"
  by (simp add: sim_def plift_def)

lemma sim_pbind: "sim m n \<Longrightarrow> (\<And>x. sim (f x) (g x)) \<Longrightarrow> sim (pbind m f) (pbind n g)"
  by (fastforce simp: sim_def pbind_def split: prod.splits sum.splits)

lemma sim_pif: "sim m n \<Longrightarrow> sim m' n' \<Longrightarrow> sim (pif b m m') (pif b n n')"
  by (simp add: pif_def)

lemma sim_case_option:
  "sim m n \<Longrightarrow> (\<And>x. sim (f x) (g x)) \<Longrightarrow> sim (case_option m f v) (case_option n g v)"
  by (cases v) simp_all

lemma sim_case_prod: "(\<And>x y. sim (f x y) (g x y)) \<Longrightarrow> sim (case_prod f p) (case_prod g p)"
  by (cases p) simp

lemma sim_pfor: "(\<And>x. sim (f x) (g x)) \<Longrightarrow> sim (pfor xs f) (pfor xs g)"
  by (induction xs) (auto intro: sim_preturn sim_pbind)

lemma sim_pfold: "(\<And>x a. sim (f x a) (g x a)) \<Longrightarrow> sim (pfold xs f a) (pfold xs g a)"
  by (induction xs arbitrary: a) (auto intro: sim_preturn sim_pbind)

lemma sim_on_txn:
  "(\<And>t x t'. m t = (Inr x, t') \<Longrightarrow> n (abs t) = (Inr x, abs t')) \<Longrightarrow> sim (on_txn m) (on_txn n)"
  by (fastforce simp: sim_def on_txn_def abs_state_def split: prod.splits)

lemma sim_ops:
  "sim (txn_put ops k v) (txn_put map_ops k v)"
  "sim (txn_delete ops k) (txn_delete map_ops k)"
  "sim (txn_scan_prefix ops p) (txn_scan_prefix map_ops p)"
  "sim (read_txn_remote ops k) (read_txn_remote map_ops k)"
  "sim (txn_begin ops) (txn_begin map_ops)"
  "sim (read_remote ops k) (read_remote map_ops k)"
  "sim (db_scan ops p lo hi) (db_scan map_ops p lo hi)"
  "sim (scan_remote_prefix ops p) (scan_remote_prefix map_ops p)"
  "sim (db_seq ops) (db_seq map_ops)"
  unfolding txn_put_def txn_delete_def txn_scan_prefix_def read_txn_remote_def txn_begin_def read_remote_def
    scan_remote_prefix_def db_scan_def db_seq_def
  by (intro sim_on_txn sim_pbind put_refines delete_refines scan_refines mark_read_refines get_refines
      begin_refines db_get_refines db_scan_refines db_seq_refines; assumption)+

lemma sim_seqnum: "sim (txn_seqnum ops) (txn_seqnum map_ops)"
  by (simp add: sim_def txn_seqnum_def abs_state_def seqnum_refines)

lemma sim_commit_op: "sim (on_txn (commit_op ops d q)) (on_txn (commit_op map_ops d q))"
  by (rule sim_on_txn) (rule commit_refines)

lemmas sim_rules = sim_preturn sim_pfail sim_plift sim_pbind sim_pif sim_case_option sim_case_prod
  sim_pfor sim_pfold sim_ops sim_seqnum sim_commit_op

lemma sim_read_counter: "sim (read_counter_txn ops k) (read_counter_txn map_ops k)"
  unfolding read_counter_txn_def by (intro sim_rules)

lemma sim_next_epoch: "sim (next_epoch_txn ops c) (next_epoch_txn map_ops c)"
  unfolding next_epoch_txn_def by (intro sim_rules)

lemma sim_commit: "sim (commit_txn_strict ops d) (commit_txn_strict map_ops d)"
  unfolding commit_txn_strict_def commit_txn_strict_with_sequence_def by (intro sim_rules)

lemmas sim_helpers = sim_rules sim_read_counter sim_next_epoch sim_commit

end

interpretation reference: txn_refines map_ops "\<lambda>t. t"
  by unfold_locales simp_all

end
