(* ===== verification/Segment_Read.thy ===== *)
theory Segment_Read
  imports Txn_Store
begin

text \<open>
  \<^verbatim>\<open>src/codec.rs\<close>, adjacency reads inside a transaction: outgoing neighbours are the direct edge records
  plus the destinations of outgoing segments that are not hidden by a tombstone. The segment scan
  stops at the first segment above the read epoch, which is right only because the storage order of
  segment keys is the order of their sequences.
\<close>

definition tombstone_scan_step ::
    "string \<Rightarrow> string \<Rightarrow> vertex_id \<Rightarrow> storage_sequence \<Rightarrow> bytes \<times> bytes
     \<Rightarrow> (vertex_id, storage_sequence) btmap \<Rightarrow> (vertex_id, storage_sequence) btmap result" where
  "tombstone_scan_step cell_id edge_type src read_epoch kv tombstones =
     (let key = from_utf8_lossy (fst kv) in
      rbind (parse_out_edge_segment_tombstone_key key) (\<lambda>(key_cell_id, key_edge_type, key_src, dst).
        if key_cell_id \<noteq> cell_id \<or> key_edge_type \<noteq> edge_type \<or> key_src \<noteq> src then
          Inl (CorruptValue key ''segment tombstone identity does not match scan prefix'')
        else rbind (decode_u64 key (snd kv)) (\<lambda>epoch.
          Inr (if epoch \<le> read_epoch then bt_insert dst epoch tombstones else tombstones))))"

definition add_segment_edge ::
    "(vertex_id, storage_sequence) btmap \<Rightarrow> storage_sequence \<Rightarrow> vertex_id
     \<Rightarrow> (vertex_id, storage_sequence) btmap \<Rightarrow> (vertex_id, storage_sequence) btmap" where
  "add_segment_edge tombstones seq dst edges =
     (if segment_edge_visible seq (bt_get tombstones dst) then
        bt_insert dst (case bt_get edges dst of None \<Rightarrow> seq | Some current \<Rightarrow> max current seq) edges
      else edges)"

fun segment_scan_loop ::
    "storage_sequence \<Rightarrow> (vertex_id, storage_sequence) btmap \<Rightarrow> (bytes \<times> bytes) list
     \<Rightarrow> (vertex_id, storage_sequence) btmap \<Rightarrow> (vertex_id, storage_sequence) btmap result" where
  "segment_scan_loop read_epoch tombstones [] edges = Inr edges"
| "segment_scan_loop read_epoch tombstones (kv # kvs) edges =
     rbind (decode_out_edge_segment (from_utf8_lossy (fst kv)) (snd kv)) (\<lambda>segment.
       if read_epoch < os_storage_sequence segment then Inr edges
       else segment_scan_loop read_epoch tombstones kvs
              (fold (add_segment_edge tombstones (os_storage_sequence segment))
                 (os_destinations segment) edges))"

definition out_segment_edges_for_src_txn ::
    "'t txn_ops \<Rightarrow> string \<Rightarrow> string \<Rightarrow> vertex_id \<Rightarrow> storage_sequence
     \<Rightarrow> ('t shard_state, (vertex_id, storage_sequence) btmap) prog" where
  "out_segment_edges_for_src_txn ops cell_id edge_type src read_epoch =
     pbind (txn_scan_prefix ops (out_segment_tombstone_src_prefix cell_id edge_type src)) (\<lambda>kvs.
     pbind (plift (rfold (tombstone_scan_step cell_id edge_type src read_epoch) kvs [])) (\<lambda>tombstones.
     pbind (txn_scan_prefix ops (out_segment_src_prefix cell_id edge_type src)) (\<lambda>segments.
       plift (segment_scan_loop read_epoch tombstones segments []))))"

definition out_segment_neighbors_for_src_txn ::
    "'t txn_ops \<Rightarrow> string \<Rightarrow> string \<Rightarrow> vertex_id \<Rightarrow> storage_sequence
     \<Rightarrow> ('t shard_state, vertex_id btset) prog" where
  "out_segment_neighbors_for_src_txn ops cell_id edge_type src read_epoch =
     pbind (out_segment_edges_for_src_txn ops cell_id edge_type src read_epoch) (\<lambda>edges.
       preturn (bs_extend [] (map fst edges)))"

definition edge_scan_step :: "bytes \<times> bytes \<Rightarrow> vertex_id btset \<Rightarrow> vertex_id btset result" where
  "edge_scan_step kv neighbors =
     rbind (decode_edge_record (from_utf8_lossy (fst kv)) (snd kv)) (\<lambda>record.
       Inr (bs_insert (er_dst record) neighbors))"

definition out_neighbors_for_src_txn ::
    "'t txn_ops \<Rightarrow> string \<Rightarrow> string \<Rightarrow> vertex_id \<Rightarrow> storage_sequence
     \<Rightarrow> ('t shard_state, vertex_id btset) prog" where
  "out_neighbors_for_src_txn ops cell_id edge_type src read_epoch =
     pbind (txn_scan_prefix ops (out_prefix cell_id edge_type src)) (\<lambda>kvs.
     pbind (plift (rfold edge_scan_step kvs [])) (\<lambda>neighbors.
     pbind (out_segment_neighbors_for_src_txn ops cell_id edge_type src read_epoch) (\<lambda>segment.
       preturn (bs_extend neighbors segment))))"

definition edge_epoch_at_txn ::
    "'t txn_ops \<Rightarrow> string \<Rightarrow> string \<Rightarrow> vertex_id \<Rightarrow> vertex_id \<Rightarrow> storage_sequence
     \<Rightarrow> ('t shard_state, storage_sequence option) prog" where
  "edge_epoch_at_txn ops cell_id edge_type src dst read_epoch =
     (let edge_key = out_edge cell_id edge_type src dst in
      pbind (read_txn_remote ops edge_key) (\<lambda>value.
        case value of
          Some v \<Rightarrow> pbind (plift (decode_edge_record edge_key v)) (\<lambda>_. preturn (Some read_epoch))
        | None \<Rightarrow>
            pbind (out_segment_edges_for_src_txn ops cell_id edge_type src read_epoch) (\<lambda>edges.
              preturn (bt_get edges dst))))"

context txn_refines
begin

lemma sim_segment_edges:
  "sim (out_segment_edges_for_src_txn ops c t s q) (out_segment_edges_for_src_txn map_ops c t s q)"
  unfolding out_segment_edges_for_src_txn_def by (intro sim_rules)

lemma sim_out_neighbors:
  "sim (out_neighbors_for_src_txn ops c t s q) (out_neighbors_for_src_txn map_ops c t s q)"
  unfolding out_neighbors_for_src_txn_def out_segment_neighbors_for_src_txn_def
  by (intro sim_rules sim_segment_edges)

lemma sim_edge_epoch:
  "sim (edge_epoch_at_txn ops c t s d q) (edge_epoch_at_txn map_ops c t s d q)"
  unfolding edge_epoch_at_txn_def Let_def by (intro sim_rules sim_segment_edges)

end

subsection \<open>Well-keyed stores\<close>

text \<open>Every key of the store is a rendered key with validated components.\<close>

definition well_keyed :: "(bytes, bytes) btmap \<Rightarrow> bool" where
  "well_keyed m \<longleftrightarrow> bt_ok m \<and> (\<forall>kv \<in> set m. \<exists>k. valid_key k \<and> fst kv = render k)"

definition kview :: "(bytes, bytes) btmap \<Rightarrow> graph_key \<Rightarrow> bytes option" where
  "kview m k = bt_get m (render k)"

lemma render_ascii [simp]: "valid_key k \<Longrightarrow> is_ascii (render k)"
proof -
  assume "valid_key k"
  then have "is_ascii (join_with SLASH (key_parts k))"
    using join_with_set[of _ SLASH "key_parts k"] valid_component_ascii
    by (fastforce simp: valid_key_def list_all_iff is_ascii_def)
  then show ?thesis by (simp add: render_parts)
qed

lemma render_lossy [simp]: "valid_key k \<Longrightarrow> from_utf8_lossy (render k) = render k"
  by (simp add: ascii_utf8_valid)

lemma render_eq_iff: "valid_key a \<Longrightarrow> valid_key b \<Longrightarrow> render a = render b \<longleftrightarrow> a = b"
  using key_parts_inj split_render by metis

lemma kview_insert [simp]:
  "bt_ok m \<Longrightarrow> valid_key k \<Longrightarrow> valid_key j \<Longrightarrow>
     kview (bt_insert (render k) v m) j = (if j = k then Some v else kview m j)"
  by (auto simp: kview_def bt_get_insert render_eq_iff)

lemma kview_remove [simp]:
  "valid_key k \<Longrightarrow> valid_key j \<Longrightarrow> kview (bt_remove (render k) m) j = (if j = k then None else kview m j)"
  by (auto simp: kview_def bt_get_remove render_eq_iff)

lemma well_keyed_insert [simp]: "well_keyed m \<Longrightarrow> valid_key k \<Longrightarrow> well_keyed (bt_insert (render k) v m)"
  using set_bt_insert[of "render k" v m] by (fastforce simp: well_keyed_def)

lemma well_keyed_remove [simp]: "well_keyed m \<Longrightarrow> well_keyed (bt_remove k m)"
  by (auto simp: well_keyed_def bt_remove_def bt_ok_remove[unfolded bt_remove_def])

lemma well_keyed_ok [simp]: "well_keyed m \<Longrightarrow> bt_ok m"
  by (simp add: well_keyed_def)

lemma segment_prefix_render:
  assumes "valid_key k" "valid_component c" "valid_component t"
  shows "starts_with (out_segment_src_prefix c t s) (render k) \<longleftrightarrow> (\<exists>q g. k = KOutSegment c t s q g)"
proof -
  have "out_segment_src_prefix c t s = join_with SLASH [''cell'', c, ''seg'', ''out'', t, fmt_020 s] @ [SLASH]"
    by (simp add: key_defs)
  then show ?thesis
    using prefix_render[OF assms(1), of "[''cell'', c, ''seg'', ''out'', t, fmt_020 s]"] key_parts_segment[of k c t s]
      assms(2,3) literal_component by simp
qed

lemma tombstone_prefix_render:
  assumes "valid_key k" "valid_component c" "valid_component t"
  shows "starts_with (out_segment_tombstone_src_prefix c t s) (render k) \<longleftrightarrow> (\<exists>d. k = KOutTombstone c t s d)"
proof -
  have "out_segment_tombstone_src_prefix c t s
      = join_with SLASH [''cell'', c, ''seg'', ''tomb'', ''out'', t, fmt_020 s] @ [SLASH]"
    by (simp add: key_defs)
  then show ?thesis
    using prefix_render[OF assms(1), of "[''cell'', c, ''seg'', ''tomb'', ''out'', t, fmt_020 s]"]
      key_parts_tombstone[of k c t s] assms(2,3) literal_component by simp
qed

lemma out_prefix_render:
  assumes "valid_key k" "valid_component c" "valid_component t"
  shows "starts_with (out_prefix c t s) (render k) \<longleftrightarrow> (\<exists>d. k = KOutEdge c t s d)"
proof -
  have "out_prefix c t s = join_with SLASH [''cell'', c, ''e'', ''out'', t, fmt_020 s] @ [SLASH]"
    by (simp add: key_defs)
  then show ?thesis
    using prefix_render[OF assms(1), of "[''cell'', c, ''e'', ''out'', t, fmt_020 s]"] key_parts_out[of k c t s]
      assms(2,3) literal_component by simp
qed

lemma segment_key_order:
  "render (KOutSegment c t s q g) < render (KOutSegment c t s q' g') \<Longrightarrow> q \<le> q'"
proof -
  assume less: "render (KOutSegment c t s q g) < render (KOutSegment c t s q' g')"
  have "render (KOutSegment c t s u h) = out_segment_src_prefix c t s @ fmt_020 u @ ''/'' @ h" for u h
    by (simp add: key_defs)
  then have "fmt_020 q @ ''/'' @ g < fmt_020 q' @ ''/'' @ g'"
    using less by (simp only: list_less_append_same)
  then show ?thesis unfolding fmt_020_append_less by auto
qed

text \<open>A prefix scan that selects one family of keys lists the records of the family in key order.\<close>

definition family_kv :: "('x \<Rightarrow> graph_key) \<Rightarrow> ('y \<Rightarrow> bytes) \<Rightarrow> 'x \<times> 'y \<Rightarrow> bytes \<times> bytes" where
  "family_kv F enc p = (render (F (fst p)), enc (snd p))"

definition scan :: "bytes \<Rightarrow> (bytes, bytes) btmap \<Rightarrow> (bytes \<times> bytes) list" where
  "scan prefix m = filter (\<lambda>kv. starts_with prefix (fst kv)) m"

lemma ex_map_valid:
  "\<forall>y \<in> set ys. \<exists>x. y = f x \<and> P x \<Longrightarrow> \<exists>xs. ys = map f xs \<and> (\<forall>x \<in> set xs. P x)"
proof (induction ys)
  case (Cons y ys)
  then obtain x xs where "y = f x" "P x" "ys = map f xs" "\<forall>x \<in> set xs. P x" by auto
  then show ?case by (intro exI[of _ "x # xs"]) simp
qed simp

lemma scan_family:
  assumes m: "well_keyed m"
    and pre: "\<And>k. valid_key k \<Longrightarrow> starts_with prefix (render k) \<longleftrightarrow> (\<exists>x. k = F x)"
    and dec: "\<And>x v. valid_key (F x) \<Longrightarrow> kview m (F x) = Some v \<Longrightarrow> \<exists>y. v = enc y"
    and F: "inj F" and enc: "inj enc"
  shows "\<exists>ts. scan prefix m = map (family_kv F enc) ts
    \<and> sorted_wrt (<) (map (\<lambda>p. render (F (fst p))) ts)
    \<and> (\<forall>x y. (x, y) \<in> set ts \<longleftrightarrow> valid_key (F x) \<and> kview m (F x) = Some (enc y))"
proof -
  have ok: "bt_ok m" using m by simp
  have form: "\<exists>p. kv = family_kv F enc p \<and> valid_key (F (fst p))" if kv: "kv \<in> set (scan prefix m)" for kv
  proof -
    from kv have in_m: "(fst kv, snd kv) \<in> set m" and st: "starts_with prefix (fst kv)"
      by (simp_all add: scan_def)
    obtain k where k: "valid_key k" "fst kv = render k"
      using m in_m unfolding well_keyed_def by fastforce
    then obtain x where x: "k = F x" using st pre[OF k(1)] by auto
    have "kview m (F x) = Some (snd kv)"
      using in_m k(2) x bt_get_Some_iff[OF ok] by (simp add: kview_def)
    then obtain y where "snd kv = enc y" using dec k(1) x by blast
    then show ?thesis using k x by (intro exI[of _ "(x, y)"]) (simp add: family_kv_def prod_eq_iff)
  qed
  obtain ts where ts: "scan prefix m = map (family_kv F enc) ts" and val: "\<forall>p \<in> set ts. valid_key (F (fst p))"
    using ex_map_valid[of "scan prefix m" "family_kv F enc" "\<lambda>p. valid_key (F (fst p))"] form by blast
  have inj: "p = (x, y)" if "family_kv F enc p = family_kv F enc (x, y)" "valid_key (F (fst p))" "valid_key (F x)" for p x y
    using that F enc by (auto simp: family_kv_def render_eq_iff prod_eq_iff inj_eq)
  have "(x, y) \<in> set ts \<longleftrightarrow> valid_key (F x) \<and> kview m (F x) = Some (enc y)" for x y
  proof
    assume t: "(x, y) \<in> set ts"
    then have "family_kv F enc (x, y) \<in> set (scan prefix m)" unfolding ts by simp
    then have "(render (F x), enc y) \<in> set m" by (simp add: scan_def family_kv_def)
    then show "valid_key (F x) \<and> kview m (F x) = Some (enc y)"
      using val t by (auto simp: kview_def bt_get_Some_iff[OF ok])
  next
    assume a: "valid_key (F x) \<and> kview m (F x) = Some (enc y)"
    then have "(render (F x), enc y) \<in> set m" by (simp add: kview_def bt_get_Some_iff[OF ok])
    then have "family_kv F enc (x, y) \<in> set (scan prefix m)"
      using a pre[of "F x"] by (auto simp: scan_def family_kv_def)
    then obtain p where "p \<in> set ts" "family_kv F enc p = family_kv F enc (x, y)" unfolding ts by auto
    then show "(x, y) \<in> set ts" using inj[of p x y] val a by blast
  qed
  moreover have "sorted_wrt (<) (map fst (scan prefix m))"
    using ok by (simp add: scan_def bt_ok_def sorted_wrt_filter sorted_wrt_map)
  then have "sorted_wrt (<) (map (\<lambda>p. render (F (fst p))) ts)"
    unfolding ts by (simp add: family_kv_def comp_def)
  ultimately show ?thesis using ts by blast
qed

subsection \<open>The tombstone scan\<close>

lemma valid_segment_keys [simp]:
  assumes "valid_component c" "valid_component t"
  shows "valid_key (KOutTombstone c t s d)" "valid_key (KOutEdge c t s d)"
    "valid_key (KOutSegment c t s q g) \<longleftrightarrow> valid_component g"
  using assms literal_component by (simp_all add: valid_key_def)

lemma inj_encode_u64: "inj encode_u64"
  by (auto intro: injI)

lemma tombstone_fold:
  assumes "valid_component c" "valid_component t"
  shows "rfold (tombstone_scan_step c t s r) (map (family_kv (KOutTombstone c t s) encode_u64) ts) acc
    = Inr (bt_extend acc (filter (\<lambda>p. snd p \<le> r) ts))"
proof (induction ts arbitrary: acc)
  case (Cons p ts)
  have "tombstone_scan_step c t s r (family_kv (KOutTombstone c t s) encode_u64 p) acc
      = Inr (if snd p \<le> r then bt_insert (fst p) (snd p) acc else acc)"
    using assms parse_tombstone_key[OF assms, of s "fst p"] render_lossy[OF valid_segment_keys(1)[OF assms, of s "fst p"]]
    by (simp add: tombstone_scan_step_def family_kv_def Let_def)
  then show ?case using Cons by (simp add: bt_extend_def split_beta)
qed (simp add: bt_extend_def)

lemma distinct_fst_render:
  "sorted_wrt (<) (map (\<lambda>p. render (F (fst p))) ts) \<Longrightarrow> distinct (map fst ts)"
proof -
  assume "sorted_wrt (<) (map (\<lambda>p. render (F (fst p))) ts)"
  then have "distinct (map (\<lambda>x. render (F x)) (map fst ts))"
    by (simp add: strict_sorted_iff comp_def)
  then show ?thesis by (simp only: distinct_map)
qed

lemma bt_get_extend_distinct:
  "distinct (map fst es) \<Longrightarrow> bt_get (bt_extend [] es) k = map_of es k"
  using bt.lookup_fold_insert[of "[]" es k] by (simp add: bt_extend_def map_of_rev_distinct split: option.splits)

subsection \<open>The segment scan\<close>

text \<open>The largest sequence of each destination among the pairs seen so far.\<close>

definition latest_of :: "(vertex_id \<times> storage_sequence) set \<Rightarrow> (vertex_id, storage_sequence) btmap \<Rightarrow> bool" where
  "latest_of seen edges \<longleftrightarrow> bt_ok edges
     \<and> (\<forall>d. bt_get edges d = None \<longleftrightarrow> (\<forall>q. (d, q) \<notin> seen))
     \<and> (\<forall>d q. bt_get edges d = Some q \<longrightarrow> (d, q) \<in> seen \<and> (\<forall>q'. (d, q') \<in> seen \<longrightarrow> q' \<le> q))"

lemma latest_of_add:
  assumes "latest_of seen edges"
  shows "latest_of (seen \<union> {p. p = (d, q) \<and> segment_edge_visible q (bt_get tombs d)}) (add_segment_edge tombs q d edges)"
proof (cases "segment_edge_visible q (bt_get tombs d)")
  case True
  show ?thesis
  proof (cases "bt_get edges d")
    case None
    then have "add_segment_edge tombs q d edges = bt_insert d q edges"
      using True by (simp add: add_segment_edge_def)
    then show ?thesis using assms True None by (auto simp: latest_of_def bt_get_insert)
  next
    case (Some q0)
    then have "(d, q0) \<in> seen" "\<forall>q'. (d, q') \<in> seen \<longrightarrow> q' \<le> q0"
      using assms by (auto simp: latest_of_def)
    moreover have "add_segment_edge tombs q d edges = bt_insert d (max q0 q) edges"
      using True Some by (simp add: add_segment_edge_def)
    moreover from calculation have "(d, q') \<in> seen \<Longrightarrow> q' \<le> max q0 q" for q'
      by (meson max.coboundedI1)
    moreover have "max q0 q = q0 \<or> max q0 q = q" by (simp add: max_def)
    ultimately show ?thesis
      using assms True by (auto simp: latest_of_def bt_get_insert)
  qed
next
  case False
  then show ?thesis using assms by (simp add: add_segment_edge_def)
qed

lemma latest_of_fold:
  "latest_of seen edges \<Longrightarrow>
     latest_of (seen \<union> {(d, q') |d q'. q' = q \<and> d \<in> set ds \<and> segment_edge_visible q (bt_get tombs d)})
       (fold (add_segment_edge tombs q) ds edges)"
proof (induction ds arbitrary: seen edges)
  case (Cons d ds)
  have "seen \<union> {(d', q') |d' q'. q' = q \<and> d' \<in> set (d # ds) \<and> segment_edge_visible q (bt_get tombs d')}
      = (seen \<union> {p. p = (d, q) \<and> segment_edge_visible q (bt_get tombs d)})
        \<union> {(d', q') |d' q'. q' = q \<and> d' \<in> set ds \<and> segment_edge_visible q (bt_get tombs d')}" by auto
  then show ?case using Cons.IH[OF latest_of_add[OF Cons.prems, of d q tombs]] by simp
qed simp

definition segment_kv :: "string \<Rightarrow> string \<Rightarrow> vertex_id \<Rightarrow> (storage_sequence \<times> string) \<times> vertex_id list \<Rightarrow> bytes \<times> bytes" where
  "segment_kv c t s = family_kv (\<lambda>p. KOutSegment c t s (fst p) (snd p)) encode_out_edge_segment_records"

definition segment_pairs ::
    "storage_sequence \<Rightarrow> (vertex_id, storage_sequence) btmap \<Rightarrow> ((storage_sequence \<times> string) \<times> vertex_id list) list
     \<Rightarrow> (vertex_id \<times> storage_sequence) set" where
  "segment_pairs r tombs ss = {(d, q). q \<le> r \<and> segment_edge_visible q (bt_get tombs d)
     \<and> (\<exists>g ds. ((q, g), ds) \<in> set ss \<and> d \<in> set ds)}"

lemma decode_segment_kv:
  assumes "valid_component c" "valid_component t" "valid_component g" "8 * length ds < 2 ^ 64"
  shows "decode_out_edge_segment (from_utf8_lossy (fst (segment_kv c t s ((q, g), ds)))) (snd (segment_kv c t s ((q, g), ds))) =
    Inr \<lparr>os_cell_id = c, os_edge_type = t, os_src = s, os_storage_sequence = q, os_destinations = ds\<rparr>"
  using decode_segment_encode[OF assms(1,2), of g ds s q] render_lossy[of "KOutSegment c t s q g"] assms
  by (simp add: segment_kv_def family_kv_def)

lemma segment_loop_latest:
  assumes v: "valid_component c" "valid_component t"
  shows "\<forall>p \<in> set ss. valid_component (snd (fst p)) \<and> 8 * length (snd p) < 2 ^ 64 \<Longrightarrow>
    sorted (map (\<lambda>p. fst (fst p)) ss) \<Longrightarrow> latest_of seen edges \<Longrightarrow>
    \<exists>edges'. segment_scan_loop r tombs (map (segment_kv c t s) ss) edges = Inr edges'
      \<and> latest_of (seen \<union> segment_pairs r tombs ss) edges'"
proof (induction ss arbitrary: seen edges)
  case Nil
  then show ?case by (simp add: segment_pairs_def)
next
  case (Cons p ss)
  obtain q g ds where p: "p = ((q, g), ds)" by (metis surj_pair)
  have dec: "decode_out_edge_segment (from_utf8_lossy (fst (segment_kv c t s p))) (snd (segment_kv c t s p)) =
      Inr \<lparr>os_cell_id = c, os_edge_type = t, os_src = s, os_storage_sequence = q, os_destinations = ds\<rparr>"
    using decode_segment_kv[OF v] Cons.prems(1) by (simp add: p)
  show ?case
  proof (cases "r < q")
    case True
    have "q \<le> fst (fst p')" if "p' \<in> set (p # ss)" for p'
      using Cons.prems(2) that p by auto
    then have "segment_pairs r tombs (p # ss) = {}"
      using True by (fastforce simp: segment_pairs_def)
    then show ?thesis using True dec Cons.prems(3) by simp
  next
    case False
    let ?new = "{(d, q') |d q'. q' = q \<and> d \<in> set ds \<and> segment_edge_visible q (bt_get tombs d)}"
    have "latest_of (seen \<union> ?new) (fold (add_segment_edge tombs q) ds edges)"
      by (rule latest_of_fold[OF Cons.prems(3)])
    from Cons.IH[OF _ _ this] Cons.prems(1,2) obtain edges' where
      e: "segment_scan_loop r tombs (map (segment_kv c t s) ss) (fold (add_segment_edge tombs q) ds edges) = Inr edges'"
      "latest_of (seen \<union> ?new \<union> segment_pairs r tombs ss) edges'" by auto
    have "segment_pairs r tombs (p # ss) = ?new \<union> segment_pairs r tombs ss"
      using False p by (auto simp: segment_pairs_def)
    then show ?thesis using e dec False by (auto simp: Un_assoc)
  qed
qed

subsection \<open>Well-formed stores\<close>

text \<open>Each record holds what its family stores.\<close>

fun wf_record :: "graph_key \<Rightarrow> bytes \<Rightarrow> bool" where
  "wf_record (KEdge _ _ _ _) v \<longleftrightarrow> v = edge_record_text"
| "wf_record (KOutEdge _ _ _ _) v \<longleftrightarrow> v = edge_record_text"
| "wf_record (KInEdge _ _ _ _) v \<longleftrightarrow> v = edge_record_text"
| "wf_record (KOutSegment _ _ _ _ _) v \<longleftrightarrow>
     (\<exists>ds. v = encode_out_edge_segment_records ds \<and> 8 * length ds < 2 ^ 64)"
| "wf_record (KOutTombstone _ _ _ _) v \<longleftrightarrow> (\<exists>e. v = encode_u64 e)"
| "wf_record (KDegreeOut _ _ _) v \<longleftrightarrow> (\<exists>n. v = encode_u64 n)"
| "wf_record (KDegreeIn _ _ _) v \<longleftrightarrow> (\<exists>n. v = encode_u64 n)"
| "wf_record (KXlogLowWater _ _) v \<longleftrightarrow> (\<exists>e. v = encode_u64 e)"
| "wf_record (KXlogEntry _ _ _ _ _) v \<longleftrightarrow> v = [CHR 0x00] \<or> v = [CHR 0x01]"
| "wf_record (KVertex _ _) v \<longleftrightarrow> (\<exists>m. wf_vertex_metadata m \<and> v = encode_vertex_metadata m)"
| "wf_record (KEdgeMetadata _ _ _ _) v \<longleftrightarrow> (\<exists>m. wf_edge_metadata m \<and> v = encode_edge_metadata m)"
| "wf_record (KRelationship c t s d r) v \<longleftrightarrow> (\<exists>m. wf_edge_metadata m \<and>
     v = encode_relationship_record \<lparr>rr_cell_id = c, rr_edge_type = t, rr_src = s, rr_dst = d,
           rr_relationship_id = r, rr_metadata = m\<rparr>)"
| "wf_record _ v \<longleftrightarrow> True"

definition wf_store :: "(bytes, bytes) btmap \<Rightarrow> bool" where
  "wf_store m \<longleftrightarrow> well_keyed m \<and> (\<forall>k v. valid_key k \<longrightarrow> kview m k = Some v \<longrightarrow> wf_record k v)"

lemma wf_store_insert:
  "wf_store m \<Longrightarrow> valid_key k \<Longrightarrow> wf_record k v \<Longrightarrow> wf_store (bt_insert (render k) v m)"
  by (auto simp: wf_store_def)

lemma wf_store_remove: "wf_store m \<Longrightarrow> valid_key k \<Longrightarrow> wf_store (bt_remove (render k) m)"
  by (auto simp: wf_store_def)

lemma wf_store_keyed [simp]: "wf_store m \<Longrightarrow> well_keyed m"
  by (simp add: wf_store_def)

lemma wf_store_record: "wf_store m \<Longrightarrow> valid_key k \<Longrightarrow> kview m k = Some v \<Longrightarrow> wf_record k v"
  by (simp add: wf_store_def)

lemma inj_encode_segment: "inj encode_out_edge_segment_records"
proof (rule injI)
  fix xs ys assume "encode_out_edge_segment_records xs = encode_out_edge_segment_records ys"
  then have "concat (map to_be_bytes xs) = concat (map to_be_bytes ys)"
    by (simp add: encode_out_edge_segment_records_def)
  then have "map to_be_bytes xs = map to_be_bytes ys" using chunks_concat by metis
  then have "map from_be_bytes (map to_be_bytes xs) = map from_be_bytes (map to_be_bytes ys)" by (rule arg_cong)
  then show "xs = ys" by (simp add: comp_def)
qed

text \<open>The destinations a reader at an epoch should see in the segments of a source, with the
  sequence of the segment.\<close>

definition segment_visible ::
    "(bytes, bytes) btmap \<Rightarrow> string \<Rightarrow> string \<Rightarrow> vertex_id \<Rightarrow> storage_sequence \<Rightarrow> vertex_id \<Rightarrow> storage_sequence \<Rightarrow> bool" where
  "segment_visible m c t s r d q \<longleftrightarrow> q \<le> r
     \<and> (\<exists>g ds. valid_component g \<and> kview m (KOutSegment c t s q g) = Some (encode_out_edge_segment_records ds) \<and> d \<in> set ds)
     \<and> (\<forall>e. kview m (KOutTombstone c t s d) = Some (encode_u64 e) \<and> e \<le> r \<longrightarrow> e < q)"

lemma scan_eval [prog_simps]:
  "txn_scan_prefix map_ops p st = (Inr (scan p (mt_view (ss_txn st))), st)"
  by (simp add: txn_scan_prefix_def on_txn_def scan_def)

lemma read_eval [prog_simps]:
  "read_txn_remote map_ops k st = (Inr (bt_get (mt_view (ss_txn st)) k), st)"
  by (simp add: read_txn_remote_def pbind_def on_txn_def)

lemma segment_scan_family:
  assumes wf: "wf_store m" and v: "valid_component c" "valid_component t"
  shows "\<exists>ss. scan (out_segment_src_prefix c t s) m = map (segment_kv c t s) ss
    \<and> sorted (map (\<lambda>p. fst (fst p)) ss)
    \<and> (\<forall>p \<in> set ss. valid_component (snd (fst p)) \<and> 8 * length (snd p) < 2 ^ 64)
    \<and> (\<forall>q g ds. ((q, g), ds) \<in> set ss \<longleftrightarrow>
          valid_component g \<and> kview m (KOutSegment c t s q g) = Some (encode_out_edge_segment_records ds))"
proof -
  let ?F = "\<lambda>p :: storage_sequence \<times> string. KOutSegment c t s (fst p) (snd p)"
  have pre: "starts_with (out_segment_src_prefix c t s) (render k) \<longleftrightarrow> (\<exists>x. k = ?F x)" if "valid_key k" for k
    using segment_prefix_render[OF that v] by simp
  have dec: "\<exists>ds. w = encode_out_edge_segment_records ds" if "valid_key (?F x)" "kview m (?F x) = Some w" for x w
    using wf_store_record[OF wf that] by auto
  have "inj ?F" by (auto simp: inj_on_def)
  have "\<exists>ss. scan (out_segment_src_prefix c t s) m = map (family_kv ?F encode_out_edge_segment_records) ss
      \<and> sorted_wrt (<) (map (\<lambda>p. render (?F (fst p))) ss)
      \<and> (\<forall>x ds. (x, ds) \<in> set ss \<longleftrightarrow> valid_key (?F x) \<and> kview m (?F x) = Some (encode_out_edge_segment_records ds))"
    by (rule scan_family[OF wf_store_keyed[OF wf] pre _ \<open>inj ?F\<close> inj_encode_segment]) (assumption, rule dec)
  then obtain ss where
    ss: "scan (out_segment_src_prefix c t s) m = map (segment_kv c t s) ss"
    "sorted_wrt (<) (map (\<lambda>p. render (?F (fst p))) ss)"
    "\<And>x ds. (x, ds) \<in> set ss \<longleftrightarrow> valid_key (?F x) \<and> kview m (?F x) = Some (encode_out_edge_segment_records ds)"
    unfolding segment_kv_def by blast
  have "sorted_wrt (\<lambda>a b. fst (fst a) \<le> fst (fst b)) ss"
    using ss(2) segment_key_order unfolding sorted_wrt_map by (rule sorted_wrt_mono_rel[rotated]) blast
  then have sorted: "sorted (map (\<lambda>p. fst (fst p)) ss)" by (simp add: sorted_map)
  have "valid_component (snd (fst p)) \<and> 8 * length (snd p) < 2 ^ 64" if "p \<in> set ss" for p
  proof -
    have p: "valid_key (?F (fst p))" "kview m (?F (fst p)) = Some (encode_out_edge_segment_records (snd p))"
      using ss(3)[of "fst p" "snd p"] that by simp_all
    then obtain ds where "encode_out_edge_segment_records (snd p) = encode_out_edge_segment_records ds" "8 * length ds < 2 ^ 64"
      using wf_store_record[OF wf p] by auto
    then show ?thesis using p(1) v inj_encode_segment by (simp add: inj_eq)
  qed
  then show ?thesis using ss(1) ss(3)[of "(q, g)" for q g] sorted v by (intro exI[of _ ss]) simp
qed

lemma tombstone_scan_family:
  assumes wf: "wf_store m" and v: "valid_component c" "valid_component t"
  shows "\<exists>T. rfold (tombstone_scan_step c t s r) (scan (out_segment_tombstone_src_prefix c t s) m) [] = Inr T
    \<and> (\<forall>d e. bt_get T d = Some e \<longleftrightarrow> kview m (KOutTombstone c t s d) = Some (encode_u64 e) \<and> e \<le> r)"
proof -
  have tdec: "\<exists>e. w = encode_u64 e" if "valid_key (KOutTombstone c t s x)" "kview m (KOutTombstone c t s x) = Some w" for x w
    using wf_store_record[OF wf that] by simp
  have "inj (KOutTombstone c t s)" by (auto simp: inj_on_def)
  then have "\<exists>ts. scan (out_segment_tombstone_src_prefix c t s) m = map (family_kv (KOutTombstone c t s) encode_u64) ts
      \<and> sorted_wrt (<) (map (\<lambda>p. render (KOutTombstone c t s (fst p))) ts)
      \<and> (\<forall>d e. (d, e) \<in> set ts \<longleftrightarrow>
            valid_key (KOutTombstone c t s d) \<and> kview m (KOutTombstone c t s d) = Some (encode_u64 e))"
    using scan_family[OF wf_store_keyed[OF wf] tombstone_prefix_render[OF _ v] _ _ inj_encode_u64] tdec by blast
  then obtain ts where
    ts: "scan (out_segment_tombstone_src_prefix c t s) m = map (family_kv (KOutTombstone c t s) encode_u64) ts"
    "sorted_wrt (<) (map (\<lambda>p. render (KOutTombstone c t s (fst p))) ts)"
    "\<And>d e. (d, e) \<in> set ts \<longleftrightarrow> kview m (KOutTombstone c t s d) = Some (encode_u64 e)"
    using valid_segment_keys(1)[OF v] by metis
  let ?T = "bt_extend [] (filter (\<lambda>p. snd p \<le> r) ts)"
  have "distinct (map fst (filter (\<lambda>p. snd p \<le> r) ts))"
    using distinct_fst_render[OF ts(2)] by (rule distinct_map_filter)
  then have "bt_get ?T d = Some e \<longleftrightarrow> kview m (KOutTombstone c t s d) = Some (encode_u64 e) \<and> e \<le> r" for d e
    using ts(3) by (simp add: bt_get_extend_distinct)
  then show ?thesis unfolding ts(1) tombstone_fold[OF v] by blast
qed

lemma segment_edges_exact:
  assumes wf: "wf_store (mt_view (ss_txn st))" and v: "valid_component c" "valid_component t"
  shows "\<exists>edges. out_segment_edges_for_src_txn map_ops c t s r st = (Inr edges, st)
    \<and> latest_of {(d, q). segment_visible (mt_view (ss_txn st)) c t s r d q} edges"
proof -
  let ?m = "mt_view (ss_txn st)"
  obtain T where T: "rfold (tombstone_scan_step c t s r) (scan (out_segment_tombstone_src_prefix c t s) ?m) [] = Inr T"
    "\<And>d e. bt_get T d = Some e \<longleftrightarrow> kview ?m (KOutTombstone c t s d) = Some (encode_u64 e) \<and> e \<le> r"
    using tombstone_scan_family[OF assms] by blast
  have vis: "segment_edge_visible q (bt_get T d) \<longleftrightarrow>
      (\<forall>e. kview ?m (KOutTombstone c t s d) = Some (encode_u64 e) \<and> e \<le> r \<longrightarrow> e < q)" for q d
    unfolding T(2)[symmetric] by (cases "bt_get T d") (simp_all add: segment_edge_visible_def)
  obtain ss where ss: "scan (out_segment_src_prefix c t s) ?m = map (segment_kv c t s) ss"
    "sorted (map (\<lambda>p. fst (fst p)) ss)"
    "\<forall>p \<in> set ss. valid_component (snd (fst p)) \<and> 8 * length (snd p) < 2 ^ 64"
    "\<forall>q g ds. ((q, g), ds) \<in> set ss \<longleftrightarrow>
       valid_component g \<and> kview ?m (KOutSegment c t s q g) = Some (encode_out_edge_segment_records ds)"
    using segment_scan_family[OF assms] by blast
  have "latest_of {} []" by (simp add: latest_of_def)
  from segment_loop_latest[OF v ss(3,2) this, of r T s] obtain edges where
    e: "segment_scan_loop r T (map (segment_kv c t s) ss) [] = Inr edges"
    "latest_of (segment_pairs r T ss) edges" by auto
  have "segment_pairs r T ss = {(d, q). segment_visible ?m c t s r d q}"
    using ss(4) unfolding segment_pairs_def segment_visible_def vis by auto
  moreover have "out_segment_edges_for_src_txn map_ops c t s r st = (Inr edges, st)"
    unfolding out_segment_edges_for_src_txn_def by (simp add: prog_simps T(1) ss(1) e(1))
  ultimately show ?thesis using e(2) by auto
qed

subsection \<open>Neighbours\<close>

definition edge_visible ::
    "(bytes, bytes) btmap \<Rightarrow> string \<Rightarrow> string \<Rightarrow> vertex_id \<Rightarrow> storage_sequence \<Rightarrow> vertex_id \<Rightarrow> bool" where
  "edge_visible m c t s r d \<longleftrightarrow> kview m (KOutEdge c t s d) \<noteq> None \<or> (\<exists>q. segment_visible m c t s r d q)"

lemma decode_edge_key [simp]:
  "valid_component c \<Longrightarrow> valid_component t \<Longrightarrow> decode_edge_record (render (KOutEdge c t s d)) edge_record_text
     = Inr \<lparr>er_cell_id = c, er_edge_type = t, er_src = s, er_dst = d\<rparr>"
  by (simp add: decode_edge_record_def parse_edge_keys)

lemma edge_scan_fold:
  assumes "valid_component c" "valid_component t"
  shows "rfold edge_scan_step (map (family_kv (KOutEdge c t s) (\<lambda>u :: unit. edge_record_text)) ts) acc
    = Inr (bs_extend acc (map fst ts))"
proof (induction ts arbitrary: acc)
  case (Cons p ts)
  have "edge_scan_step (family_kv (KOutEdge c t s) (\<lambda>u. edge_record_text) p) acc = Inr (bs_insert (fst p) acc)"
    unfolding edge_scan_step_def family_kv_def fst_conv snd_conv
    using assms by (subst render_lossy) (simp_all only: decode_edge_key valid_segment_keys rbind.simps edge_record.simps)
  then show ?case using Cons by (simp add: bs_extend_def)
qed (simp add: bs_extend_def)

lemma out_scan_exact:
  assumes wf: "wf_store m" and v: "valid_component c" "valid_component t"
  shows "\<exists>ns. rfold edge_scan_step (scan (out_prefix c t s) m) [] = Inr ns \<and> bs_ok ns
    \<and> set ns = {d. kview m (KOutEdge c t s d) \<noteq> None}"
proof -
  let ?e = "\<lambda>u :: unit. edge_record_text"
  have dec: "\<exists>u. w = ?e u" if "valid_key (KOutEdge c t s x)" "kview m (KOutEdge c t s x) = Some w" for x w
    using wf_store_record[OF wf that] by simp
  have "\<exists>ts. scan (out_prefix c t s) m = map (family_kv (KOutEdge c t s) ?e) ts
      \<and> sorted_wrt (<) (map (\<lambda>p. render (KOutEdge c t s (fst p))) ts)
      \<and> (\<forall>x u. (x, u) \<in> set ts \<longleftrightarrow> valid_key (KOutEdge c t s x) \<and> kview m (KOutEdge c t s x) = Some (?e u))"
    by (rule scan_family[OF wf_store_keyed[OF wf] out_prefix_render[OF _ v]])
      (assumption, rule dec, auto simp: inj_on_def)
  then obtain ts where ts: "scan (out_prefix c t s) m = map (family_kv (KOutEdge c t s) ?e) ts"
    "\<And>x u. (x, u) \<in> set ts \<longleftrightarrow> valid_key (KOutEdge c t s x) \<and> kview m (KOutEdge c t s x) = Some (?e u)"
    by blast
  have "x \<in> fst ` set ts \<longleftrightarrow> kview m (KOutEdge c t s x) \<noteq> None" for x
  proof
    assume "x \<in> fst ` set ts"
    then show "kview m (KOutEdge c t s x) \<noteq> None" using ts(2) by force
  next
    assume "kview m (KOutEdge c t s x) \<noteq> None"
    then obtain w where "kview m (KOutEdge c t s x) = Some w" by blast
    with dec[of x w] v have "(x, ()) \<in> set ts" using ts(2) by auto
    then show "x \<in> fst ` set ts" by force
  qed
  then have "set (bs_extend [] (map fst ts)) = {d. kview m (KOutEdge c t s d) \<noteq> None}" by auto
  then show ?thesis
    unfolding ts(1) edge_scan_fold[OF v] using bs_ok_extend[of "[]" "map fst ts"] by simp
qed

lemma latest_of_keys: "latest_of seen edges \<Longrightarrow> fst ` set edges = {d. \<exists>q. (d, q) \<in> seen}"
  using bt_get_None_iff[of edges] by (force simp: latest_of_def)

lemma out_neighbors_exact:
  assumes wf: "wf_store (mt_view (ss_txn st))" and v: "valid_component c" "valid_component t"
  shows "\<exists>ns. out_neighbors_for_src_txn map_ops c t s r st = (Inr ns, st) \<and> bs_ok ns
    \<and> set ns = {d. edge_visible (mt_view (ss_txn st)) c t s r d}"
proof -
  obtain ns where ns: "rfold edge_scan_step (scan (out_prefix c t s) (mt_view (ss_txn st))) [] = Inr ns" "bs_ok ns"
    "set ns = {d. kview (mt_view (ss_txn st)) (KOutEdge c t s d) \<noteq> None}" using out_scan_exact[OF assms] by blast
  obtain edges where e: "out_segment_edges_for_src_txn map_ops c t s r st = (Inr edges, st)"
    "latest_of {(d, q). segment_visible (mt_view (ss_txn st)) c t s r d q} edges"
    using segment_edges_exact[OF assms] by blast
  have "out_neighbors_for_src_txn map_ops c t s r st = (Inr (bs_extend ns (bs_extend [] (map fst edges))), st)"
    unfolding out_neighbors_for_src_txn_def out_segment_neighbors_for_src_txn_def
    by (simp add: prog_simps ns(1) e(1))
  moreover have "set (bs_extend ns (bs_extend [] (map fst edges))) = {d. edge_visible (mt_view (ss_txn st)) c t s r d}"
    using ns(3) latest_of_keys[OF e(2)] by (auto simp: edge_visible_def)
  ultimately show ?thesis using bs_ok_extend[OF ns(2)] by blast
qed

lemma edge_epoch_exact:
  assumes wf: "wf_store (mt_view (ss_txn st))" and v: "valid_component c" "valid_component t"
  shows "\<exists>e. edge_epoch_at_txn map_ops c t s d r st = (Inr e, st)
    \<and> (e = None \<longleftrightarrow> \<not> edge_visible (mt_view (ss_txn st)) c t s r d)
    \<and> (\<forall>q. e = Some q \<longrightarrow> q \<le> r)"
proof (cases "kview (mt_view (ss_txn st)) (KOutEdge c t s d)")
  case None
  then have n: "bt_get (mt_view (ss_txn st)) (out_edge c t s d) = None" by (simp add: kview_def)
  obtain edges where e: "out_segment_edges_for_src_txn map_ops c t s r st = (Inr edges, st)"
    "latest_of {(d, q). segment_visible (mt_view (ss_txn st)) c t s r d q} edges"
    using segment_edges_exact[OF assms] by blast
  have "edge_epoch_at_txn map_ops c t s d r st = (Inr (bt_get edges d), st)"
    by (simp add: edge_epoch_at_txn_def Let_def prog_simps n e(1))
  then show ?thesis
    using e(2) None by (auto simp: latest_of_def edge_visible_def segment_visible_def)
next
  case (Some w)
  then have w: "bt_get (mt_view (ss_txn st)) (out_edge c t s d) = Some edge_record_text"
    using wf_store_record[OF wf, of "KOutEdge c t s d" w] v by (simp add: kview_def)
  have "edge_epoch_at_txn map_ops c t s d r st = (Inr (Some r), st)"
    using decode_edge_key[OF v, of s d] by (simp add: edge_epoch_at_txn_def Let_def prog_simps w)
  then show ?thesis using Some by (auto simp: edge_visible_def)
qed

subsection \<open>Properties\<close>

text \<open>C6 (adjacency_reads_exact). Inside a transaction on a well-formed store, the neighbours of a source
  at a read epoch are exactly the destinations of its direct edge records and of its segments at or
  below the epoch that no tombstone at or below the epoch hides; the existence check of a single
  edge agrees with it, and a read never changes the transaction's contents. On the reference store
  both reads succeed; on any store that refines it, a read that succeeds returns that answer. In
  particular stopping the segment scan at the first newer segment loses no edge.\<close>

theorem adjacency_reads_exact:
  assumes "txn_refines ops absf" and "valid_component c" and "valid_component t"
    and "wf_store (mt_view (absf (ss_txn st)))"
  shows "(out_neighbors_for_src_txn ops c t s r st = (Inr ns, st') \<longrightarrow>
        bs_ok ns \<and> set ns = {d. edge_visible (mt_view (absf (ss_txn st))) c t s r d} \<and> absf (ss_txn st') = absf (ss_txn st))
    \<and> (edge_epoch_at_txn ops c t s d r st = (Inr e, st') \<longrightarrow>
        (e \<noteq> None \<longleftrightarrow> edge_visible (mt_view (absf (ss_txn st))) c t s r d) \<and> absf (ss_txn st') = absf (ss_txn st))
    \<and> is_ok (fst (out_neighbors_for_src_txn map_ops c t s r \<lparr>ss_txn = absf (ss_txn st), ss_floor = ss_floor st\<rparr>))
    \<and> is_ok (fst (edge_epoch_at_txn map_ops c t s d r \<lparr>ss_txn = absf (ss_txn st), ss_floor = ss_floor st\<rparr>))"
proof -
  let ?a = "\<lambda>st. \<lparr>ss_txn = absf (ss_txn st), ss_floor = ss_floor st\<rparr>"
  have wf: "wf_store (mt_view (ss_txn (?a st)))" using assms(4) by simp
  note n = out_neighbors_exact[OF wf assms(2,3), of s r] and e' = edge_epoch_exact[OF wf assms(2,3), of s d r]
  note sim = txn_refines.simD[OF assms(1) txn_refines.sim_out_neighbors[OF assms(1)], unfolded txn_refines.abs_state_def[OF assms(1)]]
    txn_refines.simD[OF assms(1) txn_refines.sim_edge_epoch[OF assms(1)], unfolded txn_refines.abs_state_def[OF assms(1)]]
  show ?thesis
  proof (intro conjI impI)
    assume "out_neighbors_for_src_txn ops c t s r st = (Inr ns, st')"
    from sim(1)[OF this] n show "bs_ok ns" "set ns = {d. edge_visible (mt_view (absf (ss_txn st))) c t s r d}"
      "absf (ss_txn st') = absf (ss_txn st)" by auto
  next
    assume "edge_epoch_at_txn ops c t s d r st = (Inr e, st')"
    from sim(2)[OF this] e' show "e \<noteq> None \<longleftrightarrow> edge_visible (mt_view (absf (ss_txn st))) c t s r d"
      "absf (ss_txn st') = absf (ss_txn st)" by auto
  next
    show "is_ok (fst (out_neighbors_for_src_txn map_ops c t s r (?a st)))" using n by auto
    show "is_ok (fst (edge_epoch_at_txn map_ops c t s d r (?a st)))" using e' by auto
  qed
qed

text \<open>A store with a direct edge to 2, a segment at sequence 3 with destinations 7 and 8, and a
  tombstone for 8 at sequence 4.\<close>

definition sample_view :: "(bytes, bytes) btmap" where
  "sample_view =
     bt_insert (render (KOutTombstone ''c'' ''t'' 1 8)) (encode_u64 4)
      (bt_insert (render (KOutSegment ''c'' ''t'' 1 3 ''s'')) (encode_out_edge_segment_records [7, 8])
        (bt_insert (render (KOutEdge ''c'' ''t'' 1 2)) edge_record_text []))"

definition sample_shard :: "map_txn shard_state" where
  "sample_shard = \<lparr>ss_txn = \<lparr>mt_view = sample_view, mt_durable = sample_view, mt_seq = 4, mt_dirty = False\<rparr>, ss_floor = []\<rparr>"

lemma sample_components [simp]: "valid_component ''c''" "valid_component ''t''" "valid_component ''s''"
  by code_simp+

lemma wf_store_empty [simp]: "wf_store []"
  by (simp add: wf_store_def well_keyed_def kview_def)

lemma sample_view_wf [simp]: "wf_store sample_view"
  unfolding sample_view_def by (intro wf_store_insert) (auto intro: exI[of _ "[7, 8]"])

theorem adjacency_reads_exact_witness:
  "\<exists>ns st'. out_neighbors_for_src_txn map_ops ''c'' ''t'' 1 5 sample_shard = (Inr ns, st')
     \<and> set ns = {d. edge_visible sample_view ''c'' ''t'' 1 5 d}"
proof -
  note th = adjacency_reads_exact[OF reference.txn_refines_axioms sample_components(1,2), of sample_shard]
  obtain r st' where r: "out_neighbors_for_src_txn map_ops ''c'' ''t'' 1 5 sample_shard = (r, st')" by fastforce
  have "is_ok r" using th[of 1 5] r by (simp add: sample_shard_def)
  then obtain ns where "r = Inr ns" by (cases r) auto
  with r th[of 1 5 ns st'] show ?thesis by (auto simp: sample_shard_def)
qed

end
