(* ===== verification/Txn_Logic.thy ===== *)
theory Txn_Logic
  imports Segment_Read
begin

text \<open>
  A program logic for transactions on the reference store. \<open>wp m Q s\<close> says that the program succeeds
  from a state and that its result and final state satisfy a postcondition. \<open>models H a s\<close> relates a
  state to an abstract one, whose map sends keys to values instead of key text to values; the records
  whose keys satisfy \<open>H\<close> are left open, which keeps metadata and index records out of the statements
  about the topology. The rules below are what the proofs of the write path apply.
\<close>

definition wp :: "('s, 'a) prog \<Rightarrow> ('a \<Rightarrow> 's \<Rightarrow> bool) \<Rightarrow> 's \<Rightarrow> bool" where
  "wp m Q s \<longleftrightarrow> (\<exists>x s'. m s = (Inr x, s') \<and> Q x s')"

lemma wp_pbind: "wp m (\<lambda>x. wp (f x) Q) s \<Longrightarrow> wp (pbind m f) Q s"
  by (auto simp: wp_def pbind_Inr)

lemma wp_mono: "wp m P s \<Longrightarrow> (\<And>x s'. P x s' \<Longrightarrow> Q x s') \<Longrightarrow> wp m Q s"
  by (auto simp: wp_def)

lemma wp_preturn: "Q x s \<Longrightarrow> wp (preturn x) Q s"
  by (simp add: wp_def preturn_def)

lemma wp_plift: "r = Inr x \<Longrightarrow> Q x s \<Longrightarrow> wp (plift r) Q s"
  by (simp add: wp_def plift_def)

lemma wp_pif: "(b \<Longrightarrow> wp m Q s) \<Longrightarrow> (\<not> b \<Longrightarrow> wp n Q s) \<Longrightarrow> wp (pif b m n) Q s"
  by (simp add: pif_def)

lemma wp_pfor:
  assumes "\<And>x s. x \<in> set xs \<Longrightarrow> I s \<Longrightarrow> wp (f x) (\<lambda>_. I) s" and "I s" and "\<And>s'. I s' \<Longrightarrow> Q () s'"
  shows "wp (pfor xs f) Q s"
  using assms
proof (induction xs arbitrary: s)
  case (Cons x xs)
  have "wp (f x) (\<lambda>_. I) s" by (rule Cons.prems) (simp_all add: Cons.prems)
  then have "wp (f x) (\<lambda>_. wp (pfor xs f) Q) s" by (rule wp_mono) (rule Cons.IH, use Cons.prems in auto)
  then show ?case by (auto intro: wp_pbind)
qed (auto intro: wp_preturn)

lemma wpD: "wp m Q s \<Longrightarrow> m s = (Inr x, s') \<Longrightarrow> Q x s'"
  by (simp add: wp_def)

lemma wp_is_ok: "wp m Q s \<Longrightarrow> is_ok (fst (m s))"
  by (auto simp: wp_def)

subsection \<open>Abstract stores\<close>

record abstract_store =
  as_map :: "graph_key \<Rightarrow> bytes option"
  as_durable :: "(bytes, bytes) btmap"
  as_seq :: storage_sequence
  as_floor :: "string btset"
  as_dirty :: bool

definition models :: "(graph_key \<Rightarrow> bool) \<Rightarrow> abstract_store \<Rightarrow> map_txn shard_state \<Rightarrow> bool" where
  "models H a s \<longleftrightarrow> wf_store (mt_view (ss_txn s))
     \<and> (\<forall>k. valid_key k \<longrightarrow> \<not> H k \<longrightarrow> kview (mt_view (ss_txn s)) k = as_map a k)
     \<and> mt_durable (ss_txn s) = as_durable a \<and> mt_seq (ss_txn s) = as_seq a \<and> ss_floor s = as_floor a
     \<and> (as_dirty a \<longrightarrow> mt_dirty (ss_txn s))"

definition put_as :: "graph_key \<Rightarrow> bytes \<Rightarrow> abstract_store \<Rightarrow> abstract_store" where
  "put_as k v a = a\<lparr>as_map := (as_map a)(k := Some v), as_dirty := True\<rparr>"

definition delete_as :: "graph_key \<Rightarrow> abstract_store \<Rightarrow> abstract_store" where
  "delete_as k a = a\<lparr>as_map := (as_map a)(k := None), as_dirty := True\<rparr>"

lemma put_as_simps [simp]:
  "as_map (put_as k v a) = (as_map a)(k := Some v)" "as_durable (put_as k v a) = as_durable a"
  "as_seq (put_as k v a) = as_seq a" "as_floor (put_as k v a) = as_floor a" "as_dirty (put_as k v a)"
  "as_map (delete_as k a) = (as_map a)(k := None)" "as_durable (delete_as k a) = as_durable a"
  "as_seq (delete_as k a) = as_seq a" "as_floor (delete_as k a) = as_floor a" "as_dirty (delete_as k a)"
  by (simp_all add: put_as_def delete_as_def)

lemma models_wf: "models H a s \<Longrightarrow> wf_store (mt_view (ss_txn s))"
  by (simp add: models_def)

lemma models_view: "models H a s \<Longrightarrow> valid_key k \<Longrightarrow> \<not> H k \<Longrightarrow> kview (mt_view (ss_txn s)) k = as_map a k"
  by (simp add: models_def)

lemma models_eqs:
  "models H a s \<Longrightarrow> mt_durable (ss_txn s) = as_durable a" "models H a s \<Longrightarrow> mt_seq (ss_txn s) = as_seq a"
  "models H a s \<Longrightarrow> ss_floor s = as_floor a"
  by (simp_all add: models_def)

lemma put_eval [prog_simps]:
  "txn_put map_ops k v s = (Inr (), s\<lparr>ss_txn := (ss_txn s)\<lparr>mt_view := bt_insert k v (mt_view (ss_txn s)), mt_dirty := True\<rparr>\<rparr>)"
  by (simp add: txn_put_def on_txn_def)

lemma delete_eval [prog_simps]:
  "txn_delete map_ops k s = (Inr (), s\<lparr>ss_txn := (ss_txn s)\<lparr>mt_view := bt_remove k (mt_view (ss_txn s)), mt_dirty := True\<rparr>\<rparr>)"
  by (simp add: txn_delete_def on_txn_def)

lemma wp_put:
  assumes "models H a s" "valid_key k" "wf_record k v"
    and "\<And>s'. models H (if H k then a else put_as k v a) s' \<Longrightarrow> Q () s'"
  shows "wp (txn_put map_ops (render k) v) Q s"
  unfolding wp_def put_eval using assms(1-3)
  by (auto intro!: assms(4) wf_store_insert simp: models_def)

lemma wp_delete:
  assumes "models H a s" "valid_key k"
    and "\<And>s'. models H (if H k then a else delete_as k a) s' \<Longrightarrow> Q () s'"
  shows "wp (txn_delete map_ops (render k)) Q s"
  unfolding wp_def delete_eval using assms(1-2)
  by (auto intro!: assms(3) wf_store_remove simp: models_def)

lemma wp_read:
  assumes "models H a s" "valid_key k" "\<not> H k" "Q (as_map a k) s"
  shows "wp (read_txn_remote map_ops (render k)) Q s"
  using assms by (simp add: wp_def read_eval models_def kview_def)

lemma wp_read_hidden:
  assumes "models H a s" "valid_key k" "\<And>v. (\<And>w. v = Some w \<Longrightarrow> wf_record k w) \<Longrightarrow> Q v s"
  shows "wp (read_txn_remote map_ops (render k)) Q s"
  using wf_store_record[OF models_wf[OF assms(1)] assms(2)] by (auto simp: wp_def read_eval kview_def intro: assms(3))

definition counter_of :: "bytes option \<Rightarrow> u64" where
  "counter_of v = (case v of None \<Rightarrow> 0 | Some w \<Rightarrow> from_be_bytes w)"

lemma counter_of_simps [simp]: "counter_of None = 0" "counter_of (Some (encode_u64 n)) = n"
  by (simp_all add: counter_of_def encode_u64_def)

lemma wp_counter:
  assumes "models H a s" "valid_key k" "\<not> H k" "\<And>w. wf_record k w \<Longrightarrow> \<exists>n. w = encode_u64 n"
    and "Q (counter_of (as_map a k)) s"
  shows "wp (read_counter_txn map_ops (render k)) Q s"
  unfolding read_counter_txn_def
proof (rule wp_pbind, rule wp_read[OF assms(1-3)])
  show "wp (case as_map a k of None \<Rightarrow> preturn 0 | Some v \<Rightarrow> plift (decode_u64 (render k) v)) Q s"
  proof (cases "as_map a k")
    case (Some w)
    then have "wf_record k w" using wf_store_record[OF models_wf[OF assms(1)] assms(2)] models_view[OF assms(1-3)] by simp
    then obtain n where "w = encode_u64 n" using assms(4) by blast
    then show ?thesis using assms(5) Some by (simp add: wp_plift)
  qed (use assms(5) in \<open>simp add: wp_preturn\<close>)
qed

lemma wp_seqnum: "models H a s \<Longrightarrow> Q (as_seq a) s \<Longrightarrow> wp (txn_seqnum map_ops) Q s"
  by (simp add: wp_def txn_seqnum_def models_def)

lemma checked_add_one: "a \<noteq> - 1 \<Longrightarrow> checked_add a 1 = Some (a + 1)"
proof -
  assume "a \<noteq> - 1"
  then have "unat a \<noteq> unat (- 1 :: u64)" by (metis word_unat_eq_iff)
  then have "unat a + 1 < 2 ^ 64" using u64_max u64_bound[of a] by linarith
  then show ?thesis by (simp add: checked_add_def)
qed

lemma wp_next_epoch:
  assumes "models H a s" "as_seq a \<noteq> - 1" "Q (as_seq a + 1) s"
  shows "wp (next_epoch_txn map_ops c) Q s"
  unfolding next_epoch_txn_def
  by (rule wp_pbind, rule wp_seqnum[OF assms(1)], rule wp_plift[of _ "as_seq a + 1"])
    (simp add: checked_add_one assms(2), rule assms(3))

text \<open>A transaction starts from the committed records and a commit makes its view the committed one.\<close>

definition opened :: "map_txn shard_state \<Rightarrow> abstract_store" where
  "opened s = \<lparr>as_map = kview (mt_durable (ss_txn s)), as_durable = mt_durable (ss_txn s),
     as_seq = mt_seq (ss_txn s), as_floor = ss_floor s, as_dirty = False\<rparr>"

lemma opened_simps [simp]:
  "as_map (opened s) = kview (mt_durable (ss_txn s))" "as_durable (opened s) = mt_durable (ss_txn s)"
  "as_seq (opened s) = mt_seq (ss_txn s)" "as_floor (opened s) = ss_floor s" "\<not> as_dirty (opened s)"
  by (simp_all add: opened_def)

lemma wp_begin:
  assumes "wf_store (mt_durable (ss_txn s))" "\<And>s'. models H (opened s) s' \<Longrightarrow> Q () s'"
  shows "wp (txn_begin map_ops) Q s"
  using assms by (auto simp: wp_def txn_begin_def on_txn_def models_def)

definition committed :: "(graph_key \<Rightarrow> bool) \<Rightarrow> abstract_store \<Rightarrow> map_txn shard_state \<Rightarrow> bool" where
  "committed H a s \<longleftrightarrow> wf_store (mt_durable (ss_txn s))
     \<and> (\<forall>k. valid_key k \<longrightarrow> \<not> H k \<longrightarrow> kview (mt_durable (ss_txn s)) k = as_map a k)
     \<and> mt_seq (ss_txn s) = as_seq a + 1 \<and> ss_floor s = as_floor a"

lemma wp_commit:
  assumes "models H a s" "as_dirty a" "as_seq a \<noteq> - 1" "\<And>s'. committed H a s' \<Longrightarrow> Q () s'"
  shows "wp (commit_txn_strict map_ops d) Q s"
  unfolding commit_txn_strict_def commit_txn_strict_with_sequence_def
proof (rule wp_pbind, rule wp_pbind, rule wp_seqnum[OF assms(1)], rule wp_pbind, rule wp_plift)
  show "ok_or (CorruptValue ''storage_sequence'' ''SlateDB storage sequence overflow'') (checked_add (as_seq a) 1)
      = Inr (as_seq a + 1)" by (simp add: checked_add_one assms(3))
  have "mt_dirty (ss_txn s)" using assms(1,2) by (simp add: models_def)
  moreover have "committed H a (s\<lparr>ss_txn := (ss_txn s)\<lparr>mt_durable := mt_view (ss_txn s), mt_seq := as_seq a + 1, mt_dirty := False\<rparr>\<rparr>)"
    using assms(1) by (simp add: models_def committed_def)
  ultimately show "wp (on_txn (commit_op map_ops d (as_seq a + 1))) (\<lambda>x. wp (preturn ()) Q) s"
    using assms(4) by (simp add: wp_def on_txn_def preturn_def)
qed

end
