(* ===== verification/Write_Metadata.thy ===== *)
theory Write_Metadata
  imports Codec_Metadata "HOL-Library.Product_Lexorder"
begin

text \<open>
  The pure part of \<^verbatim>\<open>src/shard/write.rs\<close>: validation of metadata and of relationship batches, merging
  of metadata, coalescing of the updates of one batch, the guarded merge of the query batch API and
  the check that a delete batch names an edge once. \<open>QueryBatchMergePolicy\<close> is from
  \<^verbatim>\<open>src/query/algebra.rs\<close>.

  Coalescing several updates of a batch is shown to mean applying them one after the other, a guarded
  merge to move its guard forward only and to be idempotent, and each rejection to happen exactly on
  the conflict it names.
\<close>

subsection \<open>Validation and merging\<close>

definition validate_properties :: "properties \<Rightarrow> unit result" where
  "validate_properties ps = rfold (\<lambda>property _. validate_component ''property'' property) (map fst ps) ()"

definition validate_vertex_metadata :: "vertex_metadata \<Rightarrow> unit result" where
  "validate_vertex_metadata metadata =
     rbind (rfold (\<lambda>label _. validate_component ''label'' label) (vm_labels metadata) ()) (\<lambda>_.
       validate_properties (vm_properties metadata))"

definition validate_edge_metadata :: "edge_metadata \<Rightarrow> unit result" where
  "validate_edge_metadata metadata = validate_properties (ed_properties metadata)"

definition merge_vertex_metadata :: "vertex_metadata \<Rightarrow> vertex_metadata \<Rightarrow> vertex_metadata" where
  "merge_vertex_metadata previous requested =
     \<lparr>vm_labels = bs_extend (vm_labels previous) (vm_labels requested),
      vm_properties = bt_extend (vm_properties previous) (vm_properties requested)\<rparr>"

definition merge_edge_metadata :: "edge_metadata \<Rightarrow> edge_metadata \<Rightarrow> edge_metadata" where
  "merge_edge_metadata previous requested =
     \<lparr>ed_properties = bt_extend (ed_properties previous) (ed_properties requested)\<rparr>"

subsection \<open>Coalescing\<close>

definition coalesce_property ::
    "vertex_id \<Rightarrow> string \<times> vertex_property_value \<Rightarrow> properties \<Rightarrow> properties result" where
  "coalesce_property vertex_id p props =
     (case p of (property, v) \<Rightarrow>
        (case bt_get props property of
           Some existing \<Rightarrow>
             if existing \<noteq> v
             then Inl (UnsupportedQuery ''GraphQuery''
                    (''conflicting metadata values for vertex '' @ fmt_u64 vertex_id @ '' property '' @ property))
             else Inr (bt_insert property v props)
         | None \<Rightarrow> Inr (bt_insert property v props)))"

definition coalesce_vertex_step ::
    "vertex_id \<times> vertex_metadata \<Rightarrow> (vertex_id, vertex_metadata) btmap \<Rightarrow> (vertex_id, vertex_metadata) btmap result" where
  "coalesce_vertex_step u by_vertex =
     (case u of (vertex_id, metadata) \<Rightarrow>
        rbind (validate_vertex_metadata metadata) (\<lambda>_.
          let entry = (case bt_get by_vertex vertex_id of Some e \<Rightarrow> e | None \<Rightarrow> vertex_metadata_default);
              labels = bs_extend (vm_labels entry) (vm_labels metadata)
          in rbind (rfold (coalesce_property vertex_id) (vm_properties metadata) (vm_properties entry)) (\<lambda>props.
               Inr (bt_insert vertex_id \<lparr>vm_labels = labels, vm_properties = props\<rparr> by_vertex))))"

definition coalesce_vertex_metadata_updates ::
    "(vertex_id \<times> vertex_metadata) list \<Rightarrow> (vertex_id \<times> vertex_metadata) list result" where
  "coalesce_vertex_metadata_updates updates = rfold coalesce_vertex_step updates []"

text \<open>The insert-if-absent loop the edge and relationship variants share.\<close>

definition insert_same ::
    "('k::linorder) \<Rightarrow> 'v \<Rightarrow> graph_error \<Rightarrow> ('k, 'v) btmap \<Rightarrow> ('k, 'v) btmap result" where
  "insert_same k v conflict m =
     (case bt_get m k of
        Some existing \<Rightarrow> if existing \<noteq> v then Inl conflict else Inr m
      | None \<Rightarrow> Inr (bt_insert k v m))"

definition coalesce_edge_step ::
    "vertex_id \<times> vertex_id \<times> edge_metadata \<Rightarrow> (vertex_id \<times> vertex_id, edge_metadata) btmap
       \<Rightarrow> (vertex_id \<times> vertex_id, edge_metadata) btmap result" where
  "coalesce_edge_step u by_edge =
     (case u of (src, dst, metadata) \<Rightarrow>
        rbind (validate_edge_metadata metadata) (\<lambda>_.
          insert_same (src, dst) metadata
            (UnsupportedQuery ''GraphQuery''
               (''conflicting metadata values for edge '' @ fmt_u64 src @ ''->'' @ fmt_u64 dst @ '' in one batch''))
            by_edge))"

definition coalesce_edge_metadata_updates ::
    "(vertex_id \<times> vertex_id \<times> edge_metadata) list \<Rightarrow> (vertex_id \<times> vertex_id \<times> edge_metadata) list result" where
  "coalesce_edge_metadata_updates updates =
     map_ok (map (\<lambda>((src, dst), metadata). (src, dst, metadata))) (rfold coalesce_edge_step updates [])"

definition validate_relationship_batch_entry :: "string \<Rightarrow> string \<Rightarrow> relationship_mutation \<Rightarrow> unit result" where
  "validate_relationship_batch_entry cell_id edge_type relationship =
     rbind (validate_component ''cell_id'' (rm_cell_id relationship)) (\<lambda>_.
     rbind (validate_component ''edge_type'' (rm_edge_type relationship)) (\<lambda>_.
     rbind (validate_edge_metadata (rm_metadata relationship)) (\<lambda>_.
       if rm_cell_id relationship \<noteq> cell_id
       then Inl (CorruptValue (''cell/'' @ cell_id @ ''/relationship_import'')
              (''batch contains relationship for different cell '' @ rm_cell_id relationship))
       else if rm_edge_type relationship \<noteq> edge_type
       then Inl (CorruptValue (''cell/'' @ cell_id @ ''/relationship_import/'' @ edge_type)
              (''batch contains relationship for different edge type '' @ rm_edge_type relationship))
       else Inr ())))"

definition validate_relationship_creates ::
    "string \<Rightarrow> string \<Rightarrow> relationship_mutation list \<Rightarrow> relationship_mutation list result" where
  "validate_relationship_creates cell_id edge_type relationships =
     rfold (\<lambda>relationship acc.
         rbind (validate_relationship_batch_entry cell_id edge_type relationship) (\<lambda>_. Inr (acc @ [relationship])))
       relationships []"

definition coalesce_relationship_step ::
    "string \<Rightarrow> string \<Rightarrow> relationship_mutation \<Rightarrow> (relationship_id, relationship_mutation) btmap
       \<Rightarrow> (relationship_id, relationship_mutation) btmap result" where
  "coalesce_relationship_step cell_id edge_type relationship by_id =
     rbind (validate_relationship_batch_entry cell_id edge_type relationship) (\<lambda>_.
       insert_same (rm_relationship_id relationship) relationship
         (IdempotencyConflict ''relationship-import'' (fmt_020 (rm_relationship_id relationship))
            ''the batch carries this relationship id twice with different endpoints or properties (key shown is the relationship id)'')
         by_id)"

definition coalesce_relationship_imports ::
    "string \<Rightarrow> string \<Rightarrow> relationship_mutation list \<Rightarrow> relationship_mutation list result" where
  "coalesce_relationship_imports cell_id edge_type relationships =
     map_ok (map snd) (rfold (coalesce_relationship_step cell_id edge_type) relationships [])"

definition delete_identity :: "edge_mutation \<Rightarrow> string \<times> vertex_id \<times> vertex_id" where
  "delete_identity mutation = (em_edge_type mutation, em_src mutation, em_dst mutation)"

definition unique_delete_step ::
    "edge_mutation \<Rightarrow> (string \<times> vertex_id \<times> vertex_id, string) btmap
       \<Rightarrow> (string \<times> vertex_id \<times> vertex_id, string) btmap result" where
  "unique_delete_step mutation identities =
     (case bt_get identities (delete_identity mutation) of
        Some first_key \<Rightarrow>
          Inl (IdempotencyConflict ''delete'' (first_key @ '','' @ em_idempotency_key mutation)
            ''two keys in one batch delete the same edge'')
      | None \<Rightarrow> Inr (bt_insert (delete_identity mutation) (em_idempotency_key mutation) identities))"

definition validate_unique_delete_mutation_identities :: "edge_mutation list \<Rightarrow> unit result" where
  "validate_unique_delete_mutation_identities mutations =
     rbind (rfold unique_delete_step mutations []) (\<lambda>_. Inr ())"

subsection \<open>Guarded merge\<close>

record query_batch_merge_policy =
  mp_update_if_newer_by :: string
  mp_create_only_properties :: "string btset"

definition merge_policy_validate :: "query_batch_merge_policy \<Rightarrow> unit result" where
  "merge_policy_validate self =
     rbind (validate_component ''property'' (mp_update_if_newer_by self)) (\<lambda>_.
     rbind (rfold (\<lambda>property _. validate_component ''property'' property) (mp_create_only_properties self) ()) (\<lambda>_.
       if mp_update_if_newer_by self \<in> set (mp_create_only_properties self)
       then Inl (UnsupportedQuery ''QueryBatch''
              (''update guard '' @ mp_update_if_newer_by self @ '' cannot also be create-only''))
       else Inr ()))"

text \<open>Whether the stored guard is below the incoming one; values of different kinds, and booleans, have
  no order.\<close>

fun guard_less :: "vertex_property_value \<Rightarrow> vertex_property_value \<Rightarrow> bool option" where
  "guard_less (VInteger left) (VInteger right) = Some (left < right)"
| "guard_less (VSignedInteger left) (VSignedInteger right) = Some (sint left < sint right)"
| "guard_less (VFloat left) (VFloat right) = Some (query_float_less left right)"
| "guard_less (VString left) (VString right) = Some (left < right)"
| "guard_less _ _ = None"

definition guarded_metadata_patch ::
    "properties \<Rightarrow> properties \<Rightarrow> query_batch_merge_policy \<Rightarrow> string \<Rightarrow> properties option result" where
  "guarded_metadata_patch previous requested policy key =
     rbind (merge_policy_validate policy) (\<lambda>_.
     rbind (ok_or (UnsupportedQuery ''QueryBatch''
              (''guarded merge is missing incoming property '' @ mp_update_if_newer_by policy))
            (bt_get requested (mp_update_if_newer_by policy))) (\<lambda>requested_guard.
       let requested = fold bt_remove (mp_create_only_properties policy) requested
       in case bt_get previous (mp_update_if_newer_by policy) of
            None \<Rightarrow> Inr (Some requested)
          | Some previous_guard \<Rightarrow>
              (case guard_less previous_guard requested_guard of
                 None \<Rightarrow> Inl (CorruptValue key
                   (''guarded merge property '' @ mp_update_if_newer_by policy
                     @ '' must have matching ordered scalar types''))
               | Some newer \<Rightarrow> if \<not> newer then Inr None else Inr (Some requested))))"

subsection \<open>Counters of a batched read\<close>

definition counter_value :: "(string, bytes option) btmap \<Rightarrow> string \<Rightarrow> bool \<Rightarrow> u64 result" where
  "counter_value values key fresh_cell =
     (if fresh_cell then Inr 0
      else case bt_get values key of
        Some (Some v) \<Rightarrow> decode_u64 key v
      | Some None \<Rightarrow> Inr 0
      | None \<Rightarrow> Inl (CorruptValue key ''batched counter read did not include the requested key''))"

subsection \<open>Validation lemmas\<close>

lemma rfold_check:
  "rfold (\<lambda>x _. validate_component name x) xs () = Inr u \<longleftrightarrow> (\<forall>x \<in> set xs. valid_component x)"
  by (induction xs) (auto simp: rbind_Inr_iff validate_component_iff)

lemma validate_properties_iff: "validate_properties ps = Inr u \<longleftrightarrow> (\<forall>x \<in> fst ` set ps. valid_component x)"
  by (simp add: validate_properties_def rfold_check)

lemma validate_vertex_metadata_iff:
  "validate_vertex_metadata m = Inr u \<longleftrightarrow>
     (\<forall>l \<in> set (vm_labels m). valid_component l) \<and> (\<forall>x \<in> fst ` set (vm_properties m). valid_component x)"
  by (auto simp: validate_vertex_metadata_def rbind_Inr_iff rfold_check validate_properties_iff)

lemma validate_edge_metadata_iff:
  "validate_edge_metadata m = Inr u \<longleftrightarrow> (\<forall>x \<in> fst ` set (ed_properties m). valid_component x)"
  by (simp add: validate_edge_metadata_def validate_properties_iff)

lemma wf_validates [simp]:
  "wf_vertex_metadata v \<Longrightarrow> validate_vertex_metadata v = Inr ()"
  "wf_edge_metadata e \<Longrightarrow> validate_edge_metadata e = Inr ()"
  by (auto simp: validate_vertex_metadata_iff validate_edge_metadata_iff wf_vertex_metadata_def
      wf_edge_metadata_def wf_properties_def)

lemma set_bt_extend: "set (bt_extend m es) \<subseteq> set m \<union> set es"
proof (induction es arbitrary: m)
  case (Cons e es)
  have "set (bt_extend (bt_insert (fst e) (snd e) m) es) \<subseteq> set (bt_insert (fst e) (snd e) m) \<union> set es" by (rule Cons)
  also have "\<dots> \<subseteq> set m \<union> set (e # es)" using set_bt_insert[of "fst e" "snd e" m] by auto
  finally show ?case by (simp add: bt_extend_def case_prod_beta)
qed (simp add: bt_extend_def)

lemma wf_properties_extend: "wf_properties a \<Longrightarrow> wf_properties b \<Longrightarrow> wf_properties (bt_extend a b)"
  using set_bt_extend[of a b] unfolding wf_properties_def by (blast intro: bt_ok_extend)

lemma wf_merge [simp]:
  "wf_vertex_metadata a \<Longrightarrow> wf_vertex_metadata b \<Longrightarrow> wf_vertex_metadata (merge_vertex_metadata a b)"
  "wf_edge_metadata x \<Longrightarrow> wf_edge_metadata y \<Longrightarrow> wf_edge_metadata (merge_edge_metadata x y)"
  by (auto simp: wf_vertex_metadata_def wf_edge_metadata_def merge_vertex_metadata_def merge_edge_metadata_def
      bs_ok_extend wf_properties_extend)

lemma wf_default [simp]: "wf_vertex_metadata vertex_metadata_default" "wf_edge_metadata edge_metadata_default"
  by (simp_all add: wf_vertex_metadata_def wf_edge_metadata_def wf_properties_def)

lemma merge_fields [simp]:
  "vm_labels (merge_vertex_metadata a b) = bs_extend (vm_labels a) (vm_labels b)"
  "vm_properties (merge_vertex_metadata a b) = bt_extend (vm_properties a) (vm_properties b)"
  "ed_properties (merge_edge_metadata x y) = bt_extend (ed_properties x) (ed_properties y)"
  by (simp_all add: merge_vertex_metadata_def merge_edge_metadata_def)

lemma bs_extend_idem: "bs_ok s \<Longrightarrow> bs_extend (bs_extend s xs) xs = bs_extend s xs"
  by (rule bs_ext) (auto simp: bs_ok_extend)

text \<open>Merging the same request twice changes nothing the second time.\<close>

lemma merge_idem:
  "wf_vertex_metadata a \<Longrightarrow> wf_vertex_metadata b \<Longrightarrow>
     merge_vertex_metadata (merge_vertex_metadata a b) b = merge_vertex_metadata a b"
  "wf_edge_metadata x \<Longrightarrow> wf_edge_metadata y \<Longrightarrow>
     merge_edge_metadata (merge_edge_metadata x y) y = merge_edge_metadata x y"
  by (auto simp: merge_vertex_metadata_def merge_edge_metadata_def wf_vertex_metadata_def wf_edge_metadata_def
      wf_properties_def bt_extend_idem bs_extend_idem)

subsection \<open>Unique insertion\<close>

definition unique_map :: "('x \<Rightarrow> 'k::linorder) \<Rightarrow> ('x \<Rightarrow> 'v) \<Rightarrow> 'x set \<Rightarrow> ('k, 'v) btmap \<Rightarrow> bool" where
  "unique_map key val xs m \<longleftrightarrow> bt_ok m \<and> (\<forall>k v. bt_get m k = Some v \<longleftrightarrow> (\<exists>x \<in> xs. key x = k \<and> val x = v))"

definition consistent :: "('x \<Rightarrow> 'k) \<Rightarrow> ('x \<Rightarrow> 'v) \<Rightarrow> 'x set \<Rightarrow> bool" where
  "consistent key val xs \<longleftrightarrow> (\<forall>x \<in> xs. \<forall>y \<in> xs. key x = key y \<longrightarrow> val x = val y)"

lemma unique_map_consistent: "unique_map key val xs m \<Longrightarrow> consistent key val xs"
  unfolding unique_map_def consistent_def by (metis option.inject)

lemma unique_map_insert_same:
  assumes "unique_map key val xs m" and "insert_same (key x) (val x) e m = Inr m'"
  shows "unique_map key val (insert x xs) m'"
proof (cases "bt_get m (key x)")
  case None
  then have m': "m' = bt_insert (key x) (val x) m" using assms(2) by (simp add: insert_same_def)
  have "\<forall>y \<in> xs. key y \<noteq> key x" using assms(1) None unfolding unique_map_def by (metis option.distinct(1))
  then show ?thesis using assms(1) unfolding unique_map_def m' by (auto simp: bt_get_insert)
next
  case (Some v)
  then have "m' = m" "v = val x" using assms(2) by (auto simp: insert_same_def split: if_splits)
  then show ?thesis using assms(1) Some unfolding unique_map_def by auto
qed

lemma insert_same_ok:
  assumes "unique_map key val xs m" and "consistent key val (insert x xs)"
  shows "is_ok (insert_same (key x) (val x) e m)"
proof (cases "bt_get m (key x)")
  case (Some v)
  then obtain y where "y \<in> xs" "key y = key x" "val y = v" using assms(1) unfolding unique_map_def by blast
  then have "v = val x" using assms(2) unfolding consistent_def by blast
  then show ?thesis using Some by (simp add: insert_same_def)
qed (simp add: insert_same_def)

lemma consistent_mono: "consistent key val ys \<Longrightarrow> xs \<subseteq> ys \<Longrightarrow> consistent key val xs"
  unfolding consistent_def by blast

lemma coalesce_fold:
  fixes chk :: "'x \<Rightarrow> unit result" and key :: "'x \<Rightarrow> 'k::linorder" and val :: "'x \<Rightarrow> 'v" and err :: "'x \<Rightarrow> graph_error"
  defines "f \<equiv> \<lambda>x m. rbind (chk x) (\<lambda>_. insert_same (key x) (val x) (err x) m)"
  assumes start: "unique_map key val ys m0"
  shows "rfold f xs m0 = Inr m \<Longrightarrow> unique_map key val (ys \<union> set xs) m \<and> (\<forall>x \<in> set xs. is_ok (chk x))"
    and "is_ok (rfold f xs m0) \<longleftrightarrow> (\<forall>x \<in> set xs. is_ok (chk x)) \<and> consistent key val (ys \<union> set xs)"
proof -
  have sound: "unique_map key val (ys \<union> set xs) m \<and> (\<forall>x \<in> set xs. is_ok (chk x))" if "rfold f xs m0 = Inr m" for xs m
    using that
  proof (induction xs arbitrary: m rule: rev_induct)
    case (snoc x xs)
    then obtain n where n: "rfold f xs m0 = Inr n" "f x n = Inr m"
      by (auto simp: rfold_append rbind_Inr_iff)
    then have "is_ok (chk x)" "insert_same (key x) (val x) (err x) n = Inr m"
      by (auto simp: f_def rbind_Inr_iff)
    with snoc.IH[OF n(1)] show ?case using unique_map_insert_same[of key val "ys \<union> set xs" n x] by auto
  qed (simp add: start)
  then show "rfold f xs m0 = Inr m \<Longrightarrow> unique_map key val (ys \<union> set xs) m \<and> (\<forall>x \<in> set xs. is_ok (chk x))" .
  have complete: "is_ok (rfold f xs m0)" if "\<forall>x \<in> set xs. is_ok (chk x)" "consistent key val (ys \<union> set xs)" for xs
    using that
  proof (induction xs rule: rev_induct)
    case (snoc x xs)
    then have "is_ok (rfold f xs m0)" using consistent_mono[OF snoc.prems(2)] by auto
    then obtain n where n: "rfold f xs m0 = Inr n" by (auto simp: is_ok_iff)
    from snoc.prems(1) have "chk x = Inr ()" by (auto simp: is_ok_iff)
    with insert_same_ok[of key val "ys \<union> set xs" n x "err x"] sound[OF n] snoc.prems(2) show ?case
      unfolding f_def by (auto simp: rfold_append n[unfolded f_def] is_ok_iff)
  qed simp
  show "is_ok (rfold f xs m0) \<longleftrightarrow> (\<forall>x \<in> set xs. is_ok (chk x)) \<and> consistent key val (ys \<union> set xs)"
  proof
    assume "is_ok (rfold f xs m0)"
    then obtain n where "rfold f xs m0 = Inr n" by (cases "rfold f xs m0") auto
    from sound[OF this] show "(\<forall>x \<in> set xs. is_ok (chk x)) \<and> consistent key val (ys \<union> set xs)"
      using unique_map_consistent[of key val "ys \<union> set xs" n] by blast
  qed (use complete[of xs] in blast)
qed

lemma unique_map_empty [simp]: "unique_map key val {} []"
  by (simp add: unique_map_def)

lemma unique_map_set:
  assumes m: "unique_map key val xs m"
  shows "set m = (\<lambda>x. (key x, val x)) ` xs"
proof -
  have "(k, v) \<in> set m \<longleftrightarrow> (k, v) \<in> (\<lambda>x. (key x, val x)) ` xs" for k v
  proof -
    have "(k, v) \<in> set m \<longleftrightarrow> bt_get m k = Some v" using bt_get_Some_iff[of m k v] m by (simp add: unique_map_def)
    also have "\<dots> \<longleftrightarrow> (\<exists>x \<in> xs. key x = k \<and> val x = v)" using m unfolding unique_map_def by blast
    finally show ?thesis by blast
  qed
  then show ?thesis by (intro set_eqI) (metis surj_pair)
qed

lemma unique_delete_fold:
  "is_ok (rfold unique_delete_step ms []) \<longleftrightarrow> distinct (map delete_identity ms)"
proof -
  have "(\<forall>m. rfold unique_delete_step ms [] = Inr m \<longrightarrow>
          bt_ok m \<and> fst ` set m = delete_identity ` set ms)
        \<and> (is_ok (rfold unique_delete_step ms []) \<longleftrightarrow> distinct (map delete_identity ms))"
  proof (induction ms rule: rev_induct)
    case (snoc x ms)
    show ?case
    proof (cases "rfold unique_delete_step ms []")
      case (Inr n)
      then have n: "bt_ok n" "fst ` set n = delete_identity ` set ms" "distinct (map delete_identity ms)"
        using snoc by auto
      have "rfold unique_delete_step (ms @ [x]) [] = unique_delete_step x n"
        by (cases "unique_delete_step x n") (simp_all add: rfold_append Inr)
      moreover have "bt_get n (delete_identity x) = None \<longleftrightarrow> delete_identity x \<notin> delete_identity ` set ms"
        using n(2) by (simp add: bt_get_None_iff)
      ultimately have "rfold unique_delete_step (ms @ [x]) [] = (if delete_identity x \<in> delete_identity ` set ms
            then Inl (IdempotencyConflict ''delete'' (the (bt_get n (delete_identity x)) @ '','' @ em_idempotency_key x)
                   ''two keys in one batch delete the same edge'')
            else Inr (bt_insert (delete_identity x) (em_idempotency_key x) n))"
        by (auto simp: unique_delete_step_def split: option.split)
      then show ?thesis using n by (simp add: bt_insert_keys)
    qed (use snoc in \<open>auto simp: rfold_append\<close>)
  qed simp
  then show ?thesis by blast
qed

subsection \<open>Coalescing of vertex updates\<close>

lemma unique_map_self: "bt_ok m \<Longrightarrow> unique_map fst snd (set m) m"
  by (force simp: unique_map_def bt_get_Some_iff)

lemma coalesce_property_insert:
  "bt_ok props \<Longrightarrow> coalesce_property v p props =
     rbind (Inr ()) (\<lambda>_. insert_same (fst p) (snd p)
       (UnsupportedQuery ''GraphQuery''
          (''conflicting metadata values for vertex '' @ fmt_u64 v @ '' property '' @ fst p)) props)"
  by (auto simp: coalesce_property_def insert_same_def case_prod_beta bt.insert_same split: option.splits)

lemma coalesce_properties_fold:
  assumes "unique_map fst snd ys props"
  shows "rfold (coalesce_property v) ps props = Inr q \<Longrightarrow> unique_map fst snd (ys \<union> set ps) q"
    and "is_ok (rfold (coalesce_property v) ps props) \<longleftrightarrow> consistent fst snd (ys \<union> set ps)"
proof -
  let ?e = "\<lambda>p :: string \<times> vertex_property_value. UnsupportedQuery ''GraphQuery''
    (''conflicting metadata values for vertex '' @ fmt_u64 v @ '' property '' @ fst p)"
  let ?f = "\<lambda>p m. rbind (Inr () :: unit result) (\<lambda>_. insert_same (fst p) (snd p) (?e p) m)"
  have "rfold (coalesce_property v) ps props = rfold ?f ps props" using assms
  proof (induction ps arbitrary: ys props)
    case (Cons p ps)
    then have "coalesce_property v p props = ?f p props"
      by (intro coalesce_property_insert) (simp add: unique_map_def)
    with Cons show ?case
      using unique_map_insert_same[OF Cons.prems, of p "?e p"] by (cases "?f p props") auto
  qed simp
  with coalesce_fold[OF assms, of "\<lambda>_. Inr ()" ?e ps]
  show "rfold (coalesce_property v) ps props = Inr q \<Longrightarrow> unique_map fst snd (ys \<union> set ps) q"
    "is_ok (rfold (coalesce_property v) ps props) \<longleftrightarrow> consistent fst snd (ys \<union> set ps)" by auto
qed

definition updates_for :: "vertex_id \<Rightarrow> (vertex_id \<times> vertex_metadata) list \<Rightarrow> vertex_metadata list" where
  "updates_for v us = map snd (filter (\<lambda>u. fst u = v) us)"

abbreviation all_properties :: "vertex_metadata list \<Rightarrow> (string \<times> vertex_property_value) set" where
  "all_properties ms \<equiv> \<Union>m \<in> set ms. set (vm_properties m)"

definition union_entry :: "vertex_metadata list \<Rightarrow> vertex_metadata \<Rightarrow> bool" where
  "union_entry ms e \<longleftrightarrow> bs_ok (vm_labels e) \<and> set (vm_labels e) = (\<Union>m \<in> set ms. set (vm_labels m))
     \<and> unique_map fst snd (all_properties ms) (vm_properties e)"

definition vertex_table ::
    "(vertex_id \<times> vertex_metadata) list \<Rightarrow> (vertex_id, vertex_metadata) btmap \<Rightarrow> bool" where
  "vertex_table us m \<longleftrightarrow> bt_ok m
     \<and> (\<forall>v. bt_get m v = None \<longleftrightarrow> updates_for v us = [])
     \<and> (\<forall>v e. bt_get m v = Some e \<longrightarrow> union_entry (updates_for v us) e)"

lemma updates_for_snoc:
  "updates_for v (us @ [(w, m)]) = updates_for v us @ (if v = w then [m] else [])"
  by (simp add: updates_for_def)

lemma entry_union:
  assumes "vertex_table us m"
  shows "union_entry (updates_for v us) (case bt_get m v of Some e \<Rightarrow> e | None \<Rightarrow> vertex_metadata_default)"
proof (cases "bt_get m v")
  case None
  then have "updates_for v us = []" using assms by (simp add: vertex_table_def)
  then show ?thesis by (simp add: None union_entry_def)
qed (use assms in \<open>simp add: vertex_table_def\<close>)

lemma coalesce_vertex_step_Inr:
  assumes "vertex_table us m" and "coalesce_vertex_step (v, x) m = Inr m'"
  shows "vertex_table (us @ [(v, x)]) m' \<and> is_ok (validate_vertex_metadata x)"
proof -
  let ?e = "case bt_get m v of Some e \<Rightarrow> e | None \<Rightarrow> vertex_metadata_default"
  from assms(2) obtain ps where ps: "rfold (coalesce_property v) (vm_properties x) (vm_properties ?e) = Inr ps"
    "m' = bt_insert v \<lparr>vm_labels = bs_extend (vm_labels ?e) (vm_labels x), vm_properties = ps\<rparr> m"
    "is_ok (validate_vertex_metadata x)"
    by (auto simp: coalesce_vertex_step_def Let_def rbind_Inr_iff)
  have e: "union_entry (updates_for v us) ?e" by (rule entry_union[OF assms(1)])
  have "unique_map fst snd (all_properties (updates_for v us) \<union> set (vm_properties x)) ps"
    using coalesce_properties_fold(1)[OF _ ps(1)] e unfolding union_entry_def by blast
  then have "union_entry (updates_for v us @ [x]) \<lparr>vm_labels = bs_extend (vm_labels ?e) (vm_labels x), vm_properties = ps\<rparr>"
    using e by (simp add: union_entry_def bs_ok_extend Un_commute)
  then show ?thesis
    using assms(1) ps(2,3) by (auto simp: vertex_table_def updates_for_snoc bt_get_insert)
qed

lemma coalesce_vertex_step_ok:
  assumes "vertex_table us m"
  shows "is_ok (coalesce_vertex_step (v, x) m) \<longleftrightarrow> is_ok (validate_vertex_metadata x)
    \<and> consistent fst snd (all_properties (updates_for v us @ [x]))"
proof -
  let ?e = "case bt_get m v of Some e \<Rightarrow> e | None \<Rightarrow> vertex_metadata_default"
  have "unique_map fst snd (all_properties (updates_for v us)) (vm_properties ?e)"
    using entry_union[OF assms, of v] unfolding union_entry_def by blast
  from coalesce_properties_fold(2)[OF this, of v "vm_properties x"] show ?thesis
    by (auto simp: coalesce_vertex_step_def Let_def is_ok_iff rbind_Inr_iff Un_commute)
qed

lemma coalesce_vertex_table:
  "rfold coalesce_vertex_step us [] = Inr m \<Longrightarrow> vertex_table us m"
proof (induction us arbitrary: m rule: rev_induct)
  case (snoc u us)
  then obtain n where n: "rfold coalesce_vertex_step us [] = Inr n" "coalesce_vertex_step u n = Inr m"
    by (auto simp: rfold_append rbind_Inr_iff)
  with coalesce_vertex_step_Inr[OF snoc.IH[OF n(1)]] show ?case by (cases u) auto
qed (simp add: vertex_table_def updates_for_def)

lemma coalesce_vertex_ok:
  "is_ok (rfold coalesce_vertex_step us []) \<longleftrightarrow>
     (\<forall>u \<in> set us. is_ok (validate_vertex_metadata (snd u)))
     \<and> (\<forall>v. consistent fst snd (all_properties (updates_for v us)))"
proof (induction us rule: rev_induct)
  case (snoc u us)
  obtain v x where u: "u = (v, x)" by (cases u)
  have mono: "consistent fst snd (all_properties (updates_for w us))"
    if "consistent fst snd (all_properties (updates_for w (us @ [u])))" for w
    by (rule consistent_mono[OF that]) (auto simp: u updates_for_snoc)
  show ?case
  proof (cases "rfold coalesce_vertex_step us []")
    case (Inr n)
    have "rfold coalesce_vertex_step (us @ [u]) [] = coalesce_vertex_step u n"
      by (cases "coalesce_vertex_step u n") (simp_all add: rfold_append Inr)
    moreover have "(\<forall>w. consistent fst snd (all_properties (updates_for w (us @ [u]))))
        \<longleftrightarrow> consistent fst snd (all_properties (updates_for v us @ [x]))"
    proof
      assume "\<forall>w. consistent fst snd (all_properties (updates_for w (us @ [u])))"
      from spec[OF this, of v] show "consistent fst snd (all_properties (updates_for v us @ [x]))"
        by (simp add: u updates_for_snoc)
    next
      assume c: "consistent fst snd (all_properties (updates_for v us @ [x]))"
      show "\<forall>w. consistent fst snd (all_properties (updates_for w (us @ [u])))"
      proof
        fix w show "consistent fst snd (all_properties (updates_for w (us @ [u])))"
          using c snoc Inr by (cases "w = v") (simp_all add: u updates_for_snoc)
      qed
    qed
    ultimately show ?thesis
      using coalesce_vertex_step_ok[OF coalesce_vertex_table[OF Inr], of v x] snoc Inr by (auto simp: u)
  next
    case (Inl e)
    then show ?thesis using snoc mono by (auto simp: rfold_append)
  qed
qed (simp add: updates_for_def consistent_def)

text \<open>Applying the updates of a vertex one after the other is merging their union.\<close>

abbreviation merge_all :: "vertex_metadata list \<Rightarrow> vertex_metadata \<Rightarrow> vertex_metadata" where
  "merge_all ms \<equiv> fold (\<lambda>m previous. merge_vertex_metadata previous m) ms"

lemma merge_all_wf:
  "wf_vertex_metadata prev \<Longrightarrow> \<forall>m \<in> set ms. wf_vertex_metadata m \<Longrightarrow> wf_vertex_metadata (merge_all ms prev)"
  by (induction ms arbitrary: prev) auto

lemma merge_all_labels:
  "set (vm_labels (merge_all ms prev)) = set (vm_labels prev) \<union> (\<Union>m \<in> set ms. set (vm_labels m))"
  by (induction ms arbitrary: prev) auto

lemma merge_all_property:
  assumes "wf_vertex_metadata prev" "\<forall>m \<in> set ms. wf_vertex_metadata m" "consistent fst snd (all_properties ms)"
  shows "((p, x) \<in> all_properties ms \<longrightarrow> bt_get (vm_properties (merge_all ms prev)) p = Some x)
    \<and> ((\<forall>x. (p, x) \<notin> all_properties ms) \<longrightarrow> bt_get (vm_properties (merge_all ms prev)) p = bt_get (vm_properties prev) p)"
  using assms(2,3)
proof (induction ms rule: rev_induct)
  case (snoc m ms)
  let ?P = "vm_properties (merge_all ms prev)"
  have wf: "bt_ok (vm_properties m)" "bt_ok ?P"
    using snoc.prems(1) merge_all_wf[OF assms(1), of ms] by (auto simp: wf_vertex_metadata_def wf_properties_def)
  have get: "bt_get (vm_properties (merge_all (ms @ [m]) prev)) p
      = (case bt_get (vm_properties m) p of Some y \<Rightarrow> Some y | None \<Rightarrow> bt_get ?P p)"
    using wf by (simp add: bt_get_extend)
  have IH: "((p, x) \<in> all_properties ms \<longrightarrow> bt_get ?P p = Some x)
      \<and> ((\<forall>x. (p, x) \<notin> all_properties ms) \<longrightarrow> bt_get ?P p = bt_get (vm_properties prev) p)"
    using snoc.prems by (intro snoc.IH) (auto intro: consistent_mono)
  show ?case
  proof (cases "bt_get (vm_properties m) p")
    case None
    then have "\<forall>x. (p, x) \<notin> set (vm_properties m)" using bt_get_None_iff[of "vm_properties m" p] by force
    with IH show ?thesis unfolding get None by auto
  next
    case (Some y)
    then have y: "(p, y) \<in> set (vm_properties m)" using wf by (simp add: bt_get_Some_iff)
    have "x = y" if "(p, x) \<in> all_properties (ms @ [m])"
    proof -
      have "fst (p, x) = fst (p, y) \<longrightarrow> snd (p, x) = snd (p, y)"
        using snoc.prems(2) that y unfolding consistent_def by (metis (no_types, lifting) UN_I in_set_conv_decomp)
      then show ?thesis by simp
    qed
    then show ?thesis unfolding get Some using y by auto
  qed
qed simp

lemma merge_union_entry:
  assumes wf: "wf_vertex_metadata prev" "\<forall>m \<in> set ms. wf_vertex_metadata m" and e: "union_entry ms e"
  shows "merge_all ms prev = merge_vertex_metadata prev e"
proof -
  have um: "unique_map fst snd (all_properties ms) (vm_properties e)" using e by (simp add: union_entry_def)
  have ok: "bt_ok (vm_properties e)" "bt_ok (vm_properties prev)" "bs_ok (vm_labels e)" "bs_ok (vm_labels prev)"
    using e wf um by (auto simp: union_entry_def unique_map_def wf_vertex_metadata_def wf_properties_def)
  have wfm: "bs_ok (vm_labels (merge_all ms prev))" "bt_ok (vm_properties (merge_all ms prev))"
    using merge_all_wf[OF wf] by (auto simp: wf_vertex_metadata_def wf_properties_def)
  have "vm_labels (merge_all ms prev) = bs_extend (vm_labels prev) (vm_labels e)"
    using e ok wfm by (intro bs_ext) (auto simp: bs_ok_extend merge_all_labels union_entry_def)
  moreover have "bt_get (vm_properties (merge_all ms prev)) p = bt_get (bt_extend (vm_properties prev) (vm_properties e)) p" for p
  proof (cases "bt_get (vm_properties e) p")
    case None
    then have "\<forall>x. (p, x) \<notin> all_properties ms" using um unfolding unique_map_def by (metis fst_conv option.distinct(1))
    then show ?thesis
      using merge_all_property[OF wf unique_map_consistent[OF um], of p] ok None by (simp add: bt_get_extend)
  next
    case (Some x)
    then have "(p, x) \<in> all_properties ms" using um unfolding unique_map_def by (metis prod.collapse)
    then show ?thesis
      using merge_all_property[OF wf unique_map_consistent[OF um], of p x] ok Some by (simp add: bt_get_extend)
  qed
  then have "vm_properties (merge_all ms prev) = bt_extend (vm_properties prev) (vm_properties e)"
    using ok wfm by (intro bt_ext) (auto simp: bt_ok_extend)
  ultimately show ?thesis by (cases "merge_all ms prev") (simp add: merge_vertex_metadata_def)
qed

subsection \<open>Guarded merge lemmas\<close>

lemma bt_get_fold_remove: "bt_get (fold bt_remove ks m) p = (if p \<in> set ks then None else bt_get m p)"
  by (induction ks arbitrary: m) (auto simp: bt_get_remove)

lemma bt_ok_fold_remove: "bt_ok m \<Longrightarrow> bt_ok (fold bt_remove ks m)"
  by (induction ks arbitrary: m) auto

lemma guard_less_irrefl: "guard_less v v \<noteq> Some True"
  by (cases v) (auto simp: query_float_less_def)

lemma guard_less_value: "guard_less v w = Some b \<Longrightarrow> b \<longleftrightarrow> value_less v w"
  by (cases v; cases w) auto

lemma guard_less_defined: "guard_less v w = Some b \<Longrightarrow> guard_less w w = Some False"
  by (cases v; cases w) (auto simp: query_float_less_def)

subsection \<open>The batch operations\<close>

lemma in_all_properties:
  "(p, x) \<in> all_properties (updates_for v us) \<longleftrightarrow> (\<exists>m. (v, m) \<in> set us \<and> (p, x) \<in> set (vm_properties m))"
  by (force simp: updates_for_def)

lemma coalesce_vertex_ok_iff:
  "is_ok (coalesce_vertex_metadata_updates us) \<longleftrightarrow>
     (\<forall>u \<in> set us. is_ok (validate_vertex_metadata (snd u)))
     \<and> (\<forall>v m n p x y. (v, m) \<in> set us \<longrightarrow> (v, n) \<in> set us \<longrightarrow> (p, x) \<in> set (vm_properties m)
          \<longrightarrow> (p, y) \<in> set (vm_properties n) \<longrightarrow> x = y)"
proof -
  have "consistent fst snd S \<longleftrightarrow> (\<forall>p x y. (p, x) \<in> S \<longrightarrow> (p, y) \<in> S \<longrightarrow> x = y)"
    for S :: "(string \<times> vertex_property_value) set"
    unfolding consistent_def by (metis fst_conv prod.collapse snd_conv)
  then show ?thesis
    unfolding coalesce_vertex_metadata_updates_def coalesce_vertex_ok by (simp only: in_all_properties) blast
qed

lemma coalesce_vertex_merge:
  assumes res: "coalesce_vertex_metadata_updates us = Inr res" and wf: "wf_vertex_metadata prev"
    and all: "\<forall>u \<in> set us. wf_vertex_metadata (snd u)"
  shows "bt_ok res \<and> merge_all (updates_for v us) prev
    = (case bt_get res v of Some e \<Rightarrow> merge_vertex_metadata prev e | None \<Rightarrow> prev)"
proof -
  have t: "vertex_table us res" using res coalesce_vertex_table by (simp add: coalesce_vertex_metadata_updates_def)
  have "\<forall>m \<in> set (updates_for v us). wf_vertex_metadata m" using all by (auto simp: updates_for_def)
  note m = merge_union_entry[OF wf this]
  show ?thesis
  proof (cases "bt_get res v")
    case None
    then have "updates_for v us = []" using t by (simp add: vertex_table_def)
    then show ?thesis using t unfolding None by (simp add: vertex_table_def)
  next
    case (Some e)
    then show ?thesis using t m[of e] by (simp add: vertex_table_def)
  qed
qed

lemma coalesce_edge_fold:
  "coalesce_edge_step = (\<lambda>u m. rbind (validate_edge_metadata (snd (snd u))) (\<lambda>_.
     insert_same (fst u, fst (snd u)) (snd (snd u))
       (UnsupportedQuery ''GraphQuery'' (''conflicting metadata values for edge '' @ fmt_u64 (fst u) @ ''->''
          @ fmt_u64 (fst (snd u)) @ '' in one batch'')) m))"
  by (simp add: coalesce_edge_step_def fun_eq_iff case_prod_beta)

lemmas coalesce_edges = coalesce_fold[OF unique_map_empty, where chk = "\<lambda>u. validate_edge_metadata (snd (snd u))"
    and key = "\<lambda>u. (fst u, fst (snd u))" and val = "\<lambda>u. snd (snd u)"
    and err = "\<lambda>u. UnsupportedQuery ''GraphQuery'' (''conflicting metadata values for edge '' @ fmt_u64 (fst u) @ ''->''
          @ fmt_u64 (fst (snd u)) @ '' in one batch'')", folded coalesce_edge_fold, simplified]

lemma coalesce_edge_ok_iff:
  "is_ok (coalesce_edge_metadata_updates us) \<longleftrightarrow>
     (\<forall>(s, d, m) \<in> set us. is_ok (validate_edge_metadata m) \<and> (\<forall>n. (s, d, n) \<in> set us \<longrightarrow> n = m))"
proof -
  have "is_ok (coalesce_edge_metadata_updates us) \<longleftrightarrow> is_ok (rfold coalesce_edge_step us [])"
    by (simp add: coalesce_edge_metadata_updates_def is_ok_iff map_ok_Inr_iff)
  moreover have "consistent (\<lambda>u. (fst u, fst (snd u))) (\<lambda>u. snd (snd u)) S \<longleftrightarrow>
      (\<forall>s d m n. (s, d, m) \<in> S \<longrightarrow> (s, d, n) \<in> S \<longrightarrow> n = m)" for S :: "(vertex_id \<times> vertex_id \<times> edge_metadata) set"
    unfolding consistent_def Ball_def split_paired_All fst_conv snd_conv prod.inject by blast
  ultimately show ?thesis unfolding coalesce_edges(2) Ball_def split_paired_All prod.case snd_conv by blast
qed

lemma coalesce_edge_result:
  assumes "coalesce_edge_metadata_updates us = Inr res"
  shows "set res = set us \<and> sorted_wrt (<) (map (\<lambda>(s, d, m). (s, d)) res)"
proof -
  obtain m where m: "rfold coalesce_edge_step us [] = Inr m" "res = map (\<lambda>((s, d), md). (s, d, md)) m"
    using assms by (auto simp: coalesce_edge_metadata_updates_def map_ok_Inr_iff)
  note u = coalesce_edges(1)[OF m(1)]
  have "set m = (\<lambda>x. ((fst x, fst (snd x)), snd (snd x))) ` set us" using unique_map_set[of _ _ "set us" m] u by blast
  then have "set res = set us" unfolding m(2) by (simp add: image_image)
  moreover have "map (\<lambda>(s, d, md). (s, d)) res = map fst m" unfolding m(2) by (simp add: case_prod_beta)
  ultimately show ?thesis using u by (simp add: unique_map_def bt_ok_def)
qed

lemma coalesce_relationship_fold:
  "coalesce_relationship_step c t = (\<lambda>x m. rbind (validate_relationship_batch_entry c t x) (\<lambda>_.
     insert_same (rm_relationship_id x) x (IdempotencyConflict ''relationship-import'' (fmt_020 (rm_relationship_id x))
       ''the batch carries this relationship id twice with different endpoints or properties (key shown is the relationship id)'') m))"
  by (simp add: coalesce_relationship_step_def fun_eq_iff)

lemmas coalesce_relationships = coalesce_fold[OF unique_map_empty, where chk = "validate_relationship_batch_entry c t"
    and key = rm_relationship_id and val = "\<lambda>x. x"
    and err = "\<lambda>x. IdempotencyConflict ''relationship-import'' (fmt_020 (rm_relationship_id x))
       ''the batch carries this relationship id twice with different endpoints or properties (key shown is the relationship id)''" for c t,
    folded coalesce_relationship_fold, simplified]

lemma coalesce_relationship_ok_iff:
  "is_ok (coalesce_relationship_imports c t rs) \<longleftrightarrow>
     (\<forall>r \<in> set rs. is_ok (validate_relationship_batch_entry c t r)
        \<and> (\<forall>q \<in> set rs. rm_relationship_id q = rm_relationship_id r \<longrightarrow> q = r))"
proof -
  have "is_ok (coalesce_relationship_imports c t rs) \<longleftrightarrow> is_ok (rfold (coalesce_relationship_step c t) rs [])"
    by (simp add: coalesce_relationship_imports_def is_ok_iff map_ok_Inr_iff)
  then show ?thesis unfolding coalesce_relationships(2) consistent_def by blast
qed

lemma coalesce_relationship_result:
  assumes "coalesce_relationship_imports c t rs = Inr res"
  shows "set res = set rs \<and> sorted_wrt (<) (map rm_relationship_id res)"
proof -
  obtain m where m: "rfold (coalesce_relationship_step c t) rs [] = Inr m" "res = map snd m"
    using assms by (auto simp: coalesce_relationship_imports_def map_ok_Inr_iff)
  note u = coalesce_relationships(1)[OF m(1)]
  have sm: "set m = (\<lambda>x. (rm_relationship_id x, x)) ` set rs" using unique_map_set[of _ _ "set rs" m] u by blast
  then have "set res = set rs" unfolding m(2) by force
  moreover have "map rm_relationship_id res = map fst m" unfolding m(2) using sm by auto
  ultimately show ?thesis using u by (simp add: unique_map_def bt_ok_def)
qed

lemma unique_deletes_iff:
  "is_ok (validate_unique_delete_mutation_identities ms) \<longleftrightarrow> distinct (map delete_identity ms)"
  using unique_delete_fold[of ms]
  by (auto simp: validate_unique_delete_mutation_identities_def is_ok_iff rbind_Inr_iff)

lemma guarded_patch_eval:
  assumes "is_ok (merge_policy_validate policy)" "bt_get requested (mp_update_if_newer_by policy) = Some g"
  shows "guarded_metadata_patch previous requested policy key =
    (case bt_get previous (mp_update_if_newer_by policy) of
       None \<Rightarrow> Inr (Some (fold bt_remove (mp_create_only_properties policy) requested))
     | Some h \<Rightarrow> (case guard_less h g of
          None \<Rightarrow> Inl (CorruptValue key (''guarded merge property '' @ mp_update_if_newer_by policy
                    @ '' must have matching ordered scalar types''))
        | Some newer \<Rightarrow> if newer then Inr (Some (fold bt_remove (mp_create_only_properties policy) requested)) else Inr None))"
  using assms by (auto simp: guarded_metadata_patch_def is_ok_iff Let_def split: option.splits)

lemma policy_guard_kept:
  "is_ok (merge_policy_validate policy) \<Longrightarrow> mp_update_if_newer_by policy \<notin> set (mp_create_only_properties policy)"
  by (auto simp: merge_policy_validate_def is_ok_iff rbind_Inr_iff split: if_splits)

subsection \<open>Properties\<close>

text \<open>C37 (batch_coalescing_exact). Coalescing the vertex updates of a batch fails exactly when an update has
  an invalid name or two updates give a property of one vertex different values; otherwise merging
  the coalesced entry of a vertex has the effect of merging its updates one after the other.
  Coalescing edge updates and relationship imports fails exactly on an invalid entry or on two
  entries of one edge or id that differ; otherwise the result holds the entries of the batch, once
  each and in key order. A delete batch is refused exactly when it names an edge twice.\<close>

theorem batch_coalescing_exact:
  "(\<forall>us. is_ok (coalesce_vertex_metadata_updates us) \<longleftrightarrow>
        (\<forall>u \<in> set us. is_ok (validate_vertex_metadata (snd u)))
        \<and> (\<forall>v m n p x y. (v, m) \<in> set us \<longrightarrow> (v, n) \<in> set us \<longrightarrow> (p, x) \<in> set (vm_properties m)
             \<longrightarrow> (p, y) \<in> set (vm_properties n) \<longrightarrow> x = y))
   \<and> (\<forall>us res v prev. coalesce_vertex_metadata_updates us = Inr res \<longrightarrow> wf_vertex_metadata prev
        \<longrightarrow> (\<forall>u \<in> set us. wf_vertex_metadata (snd u))
        \<longrightarrow> bt_ok res \<and> merge_all (updates_for v us) prev
              = (case bt_get res v of Some e \<Rightarrow> merge_vertex_metadata prev e | None \<Rightarrow> prev))
   \<and> (\<forall>us. is_ok (coalesce_edge_metadata_updates us) \<longleftrightarrow>
        (\<forall>(s, d, m) \<in> set us. is_ok (validate_edge_metadata m) \<and> (\<forall>n. (s, d, n) \<in> set us \<longrightarrow> n = m)))
   \<and> (\<forall>us res. coalesce_edge_metadata_updates us = Inr res \<longrightarrow>
        set res = set us \<and> sorted_wrt (<) (map (\<lambda>(s, d, m). (s, d)) res))
   \<and> (\<forall>rs. is_ok (coalesce_relationship_imports c t rs) \<longleftrightarrow>
        (\<forall>r \<in> set rs. is_ok (validate_relationship_batch_entry c t r)
           \<and> (\<forall>q \<in> set rs. rm_relationship_id q = rm_relationship_id r \<longrightarrow> q = r)))
   \<and> (\<forall>rs res. coalesce_relationship_imports c t rs = Inr res \<longrightarrow>
        set res = set rs \<and> sorted_wrt (<) (map rm_relationship_id res))
   \<and> (\<forall>ms. is_ok (validate_unique_delete_mutation_identities ms) \<longleftrightarrow> distinct (map delete_identity ms))"
  by (intro conjI allI impI coalesce_vertex_ok_iff coalesce_edge_ok_iff coalesce_relationship_ok_iff unique_deletes_iff)
    (blast dest: coalesce_vertex_merge coalesce_edge_result coalesce_relationship_result)+

definition sample_updates :: "(vertex_id \<times> vertex_metadata) list" where
  "sample_updates =
     [(1, \<lparr>vm_labels = [''b''], vm_properties = [(''p'', VBool True)]\<rparr>),
      (1, \<lparr>vm_labels = [''a''], vm_properties = [(''p'', VBool True)]\<rparr>)]"

theorem batch_coalescing_exact_witness:
  "coalesce_vertex_metadata_updates sample_updates
     = Inr [(1, \<lparr>vm_labels = [''a'', ''b''], vm_properties = [(''p'', VBool True)]\<rparr>)]
   \<and> merge_all (updates_for 1 sample_updates) vertex_metadata_default
     = merge_vertex_metadata vertex_metadata_default \<lparr>vm_labels = [''a'', ''b''], vm_properties = [(''p'', VBool True)]\<rparr>"
proof
  show e: "coalesce_vertex_metadata_updates sample_updates
     = Inr [(1, \<lparr>vm_labels = [''a'', ''b''], vm_properties = [(''p'', VBool True)]\<rparr>)]" by code_simp
  have "valid_component ''a''" "valid_component ''b''" "valid_component ''p''" by code_simp+
  then have "\<forall>u \<in> set sample_updates. wf_vertex_metadata (snd u)"
    by (simp add: sample_updates_def wf_vertex_metadata_def wf_properties_def bt_ok_def bs_ok_def)
  with batch_coalescing_exact[THEN conjunct2, THEN conjunct1, rule_format, OF e wf_default(1), of 1]
  show "merge_all (updates_for 1 sample_updates) vertex_metadata_default
     = merge_vertex_metadata vertex_metadata_default \<lparr>vm_labels = [''a'', ''b''], vm_properties = [(''p'', VBool True)]\<rparr>"
    by (simp add: bt_get_def)
qed

text \<open>C36 (guarded_merge_forward). A guarded merge that is accepted carries no create-only property and
  otherwise exactly the requested properties, and it moves the guard strictly forward; repeating the
  same request on the merged record is refused as not newer. A refused merge means the stored guard
  is not below the incoming one. The guard's values must be of one ordered kind, and the policy and
  the incoming guard are required in any case.\<close>

theorem guarded_merge_forward:
  assumes "bt_ok previous" and "bt_ok requested"
    and "is_ok (merge_policy_validate policy)" and "bt_get requested (mp_update_if_newer_by policy) = Some g"
  shows "(\<forall>patch. guarded_metadata_patch previous requested policy key = Inr (Some patch) \<longrightarrow>
            (\<forall>p. bt_get patch p = (if p \<in> set (mp_create_only_properties policy) then None else bt_get requested p))
            \<and> (\<forall>p \<in> set (mp_create_only_properties policy). bt_get (bt_extend previous patch) p = bt_get previous p)
            \<and> bt_get (bt_extend previous patch) (mp_update_if_newer_by policy) = Some g
            \<and> (\<forall>h. bt_get previous (mp_update_if_newer_by policy) = Some h \<longrightarrow> value_less h g)
            \<and> guarded_metadata_patch (bt_extend previous patch) requested policy key
                = (if guard_less g g = None then Inl (CorruptValue key
                     (''guarded merge property '' @ mp_update_if_newer_by policy
                       @ '' must have matching ordered scalar types'')) else Inr None))
    \<and> (guarded_metadata_patch previous requested policy key = Inr None \<longrightarrow>
            (\<exists>h. bt_get previous (mp_update_if_newer_by policy) = Some h \<and> \<not> value_less h g))
    \<and> (is_ok (guarded_metadata_patch previous requested policy key) \<longleftrightarrow>
            (\<forall>h. bt_get previous (mp_update_if_newer_by policy) = Some h \<longrightarrow> guard_less h g \<noteq> None))"
proof (intro conjI)
  let ?c = "mp_create_only_properties policy" and ?g = "mp_update_if_newer_by policy"
  let ?q = "fold bt_remove ?c requested"
  note eval = guarded_patch_eval[OF assms(3,4)]
  have q: "bt_get ?q p = (if p \<in> set ?c then None else bt_get requested p)" for p by (rule bt_get_fold_remove)
  have ext: "bt_get (bt_extend previous ?q) p = (case bt_get ?q p of Some v \<Rightarrow> Some v | None \<Rightarrow> bt_get previous p)" for p
    using bt_get_extend[OF assms(1) bt_ok_fold_remove[OF assms(2)]] by blast
  have guard: "bt_get (bt_extend previous ?q) ?g = Some g"
    using ext[of ?g] q[of ?g] policy_guard_kept[OF assms(3)] assms(4) by simp
  show "\<forall>patch. guarded_metadata_patch previous requested policy key = Inr (Some patch) \<longrightarrow>
      (\<forall>p. bt_get patch p = (if p \<in> set ?c then None else bt_get requested p))
      \<and> (\<forall>p \<in> set ?c. bt_get (bt_extend previous patch) p = bt_get previous p)
      \<and> bt_get (bt_extend previous patch) ?g = Some g
      \<and> (\<forall>h. bt_get previous ?g = Some h \<longrightarrow> value_less h g)
      \<and> guarded_metadata_patch (bt_extend previous patch) requested policy key
          = (if guard_less g g = None then Inl (CorruptValue key (''guarded merge property '' @ ?g
               @ '' must have matching ordered scalar types'')) else Inr None)"
  proof (intro allI impI)
    fix patch assume "guarded_metadata_patch previous requested policy key = Inr (Some patch)"
    then have p: "patch = ?q" and less: "\<And>h. bt_get previous ?g = Some h \<Longrightarrow> guard_less h g = Some True"
      unfolding eval by (auto split: option.splits if_splits)
    have again: "guarded_metadata_patch (bt_extend previous ?q) requested policy key
        = (if guard_less g g = None then Inl (CorruptValue key (''guarded merge property '' @ ?g
             @ '' must have matching ordered scalar types'')) else Inr None)"
      unfolding eval guard using guard_less_irrefl[of g] by (auto split: option.split)
    show "(\<forall>p. bt_get patch p = (if p \<in> set ?c then None else bt_get requested p))
      \<and> (\<forall>p \<in> set ?c. bt_get (bt_extend previous patch) p = bt_get previous p)
      \<and> bt_get (bt_extend previous patch) ?g = Some g
      \<and> (\<forall>h. bt_get previous ?g = Some h \<longrightarrow> value_less h g)
      \<and> guarded_metadata_patch (bt_extend previous patch) requested policy key
          = (if guard_less g g = None then Inl (CorruptValue key (''guarded merge property '' @ ?g
               @ '' must have matching ordered scalar types'')) else Inr None)"
      unfolding p using q ext guard again less guard_less_value by fastforce
  qed
  show "guarded_metadata_patch previous requested policy key = Inr None \<longrightarrow>
      (\<exists>h. bt_get previous ?g = Some h \<and> \<not> value_less h g)"
    unfolding eval using guard_less_value by (auto split: option.splits if_splits)
  show "is_ok (guarded_metadata_patch previous requested policy key) \<longleftrightarrow>
      (\<forall>h. bt_get previous ?g = Some h \<longrightarrow> guard_less h g \<noteq> None)"
    unfolding eval by (auto split: option.splits)
qed

theorem guarded_merge_forward_witness:
  "guarded_metadata_patch [(''c'', VInteger 7), (''u'', VInteger 1)] [(''c'', VInteger 9), (''u'', VInteger 2)]
       \<lparr>mp_update_if_newer_by = ''u'', mp_create_only_properties = [''c'']\<rparr> ''k'' = Inr (Some [(''u'', VInteger 2)])
   \<and> bt_get (bt_extend [(''c'', VInteger 7), (''u'', VInteger 1)] [(''u'', VInteger 2)]) ''u'' = Some (VInteger 2)"
proof
  let ?p = "[(''c'', VInteger 7), (''u'', VInteger 1)]" and ?r = "[(''c'', VInteger 9), (''u'', VInteger 2)]"
    and ?pol = "\<lparr>mp_update_if_newer_by = ''u'', mp_create_only_properties = [''c'']\<rparr>"
  show e: "guarded_metadata_patch ?p ?r ?pol ''k'' = Inr (Some [(''u'', VInteger 2)])" by code_simp
  have "bt_ok ?p" "bt_ok ?r" "is_ok (merge_policy_validate ?pol)" "bt_get ?r (mp_update_if_newer_by ?pol) = Some (VInteger 2)"
    by code_simp+
  from guarded_merge_forward[OF this] e show "bt_get (bt_extend ?p [(''u'', VInteger 2)]) ''u'' = Some (VInteger 2)" by simp
qed

end
