(* ===== verification/Write_Txn.thy ===== *)
theory Write_Txn
  imports Txn_Logic Write_Metadata
begin

text \<open>
  The transaction helpers of \<^verbatim>\<open>src/shard/write.rs\<close> that both edge writes and deletes use: the write fence
  (\<^verbatim>\<open>src/shard/lifecycle.rs\<close>), the metadata records with their secondary indexes, the relationships of
  an edge, the changelog entry of a topology change, the retry loop around a transaction, and the
  segment read of \<^verbatim>\<open>src/shard/query.rs\<close> that a delete needs.

  \<open>shard_env\<close> is what a shard does not change while it runs an operation: its policy, its write
  authority, whether its writer is open, and the outcomes of the admission gate and of refreshing the
  writer fence, which are input to the kernel. Spans, metrics and locks have no effect on the values
  and are left out: the writer lane makes the writes of a cell one sequence of transactions, which is
  how they appear here.
\<close>

datatype graph_index_policy = Full | OutboundOnly

definition write_reverse_index :: "graph_index_policy \<Rightarrow> bool" where
  "write_reverse_index self \<longleftrightarrow> self = Full"

datatype graph_write_authority = AuthReadOnly | AuthPromotable | AuthWriter

record shard_env =
  sh_index_policy :: graph_index_policy
  sh_write_authority :: graph_write_authority
  sh_await_durable_writes :: bool
  sh_writer_open :: bool
  sh_write_permit :: "string \<Rightarrow> unit result"
  sh_refresh_writer_fence :: "unit result"

definition writes_reverse_index :: "shard_env \<Rightarrow> bool" where
  "writes_reverse_index sh = write_reverse_index (sh_index_policy sh)"

definition db_writer :: "shard_env \<Rightarrow> unit result" where
  "db_writer sh = (if sh_writer_open sh then Inr () else Inl ReadOnlyShardStorage)"

definition ensure_write_authority :: "shard_env \<Rightarrow> string \<Rightarrow> string \<Rightarrow> unit result" where
  "ensure_write_authority sh cell_id operation =
     (case sh_write_authority sh of
        AuthReadOnly \<Rightarrow> Inl (WriteRequiresWriter operation cell_id)
      | _ \<Rightarrow> db_writer sh)"

definition validate_write_fence_txn ::
    "'t txn_ops \<Rightarrow> shard_env \<Rightarrow> string \<Rightarrow> string \<Rightarrow> ('t shard_state, unit) prog" where
  "validate_write_fence_txn ops sh cell_id operation =
     pbind
       (pif (operation \<noteq> ''drop_cell'')
          (pbind (read_txn_remote ops (cell_drop_marker cell_id)) (\<lambda>marker.
           pbind (pif (marker \<noteq> None) (preturn True)
                    (pbind (read_txn_remote ops (cell_drop_pending_marker cell_id)) (\<lambda>pending.
                       preturn (pending \<noteq> None)))) (\<lambda>dropped.
             pif dropped (pfail (CellDropped operation cell_id)) (preturn ()))))
          (preturn ()))
       (\<lambda>_. plift (ensure_write_authority sh cell_id operation))"

definition acquire_local_write_guard :: "shard_env \<Rightarrow> string \<Rightarrow> string \<Rightarrow> unit result" where
  "acquire_local_write_guard sh cell_id operation =
     rbind (validate_component ''cell_id'' cell_id) (\<lambda>_.
     rbind (validate_component ''operation'' operation) (\<lambda>_.
       sh_refresh_writer_fence sh))"

subsection \<open>Retries\<close>

definition is_retryable_write_conflict :: "graph_error \<Rightarrow> bool" where
  "is_retryable_write_conflict err =
     (case err of Slate e \<Rightarrow> slate_kind e = Transaction \<or> slate_kind e = Invalid | _ \<Rightarrow> False)"

definition GRAPH_TXN_MAX_RETRIES :: nat where
  "GRAPH_TXN_MAX_RETRIES = 32"

text \<open>The argument counts the attempts that are left, so the last attempt returns its error.\<close>

fun txn_attempts :: "nat \<Rightarrow> ('s, 'a) prog \<Rightarrow> ('s, 'a) prog" where
  "txn_attempts 0 m s = (Inl (RetryExhausted ''graph transaction'' GRAPH_TXN_MAX_RETRIES), s)"
| "txn_attempts (Suc n) m s =
     (case m s of
        (Inl err, s') \<Rightarrow>
          if is_retryable_write_conflict err \<and> n \<noteq> 0 then txn_attempts n m s' else (Inl err, s')
      | (Inr x, s') \<Rightarrow> (Inr x, s'))"

subsection \<open>Metadata and its indexes\<close>

definition read_vertex_metadata_txn :: "'t txn_ops \<Rightarrow> string \<Rightarrow> vertex_id \<Rightarrow> ('t shard_state, vertex_metadata) prog" where
  "read_vertex_metadata_txn ops cell_id vertex_id =
     (let key = vertex_key cell_id vertex_id in
      pbind (read_txn_remote ops key) (\<lambda>value.
        case value of Some v \<Rightarrow> plift (decode_vertex_metadata key v) | None \<Rightarrow> preturn vertex_metadata_default))"

definition read_edge_metadata_txn ::
    "'t txn_ops \<Rightarrow> string \<Rightarrow> string \<Rightarrow> vertex_id \<Rightarrow> vertex_id \<Rightarrow> ('t shard_state, edge_metadata) prog" where
  "read_edge_metadata_txn ops cell_id edge_type src dst =
     (let key = edge_metadata_key cell_id edge_type src dst in
      pbind (read_txn_remote ops key) (\<lambda>value.
        case value of Some v \<Rightarrow> plift (decode_edge_metadata key v) | None \<Rightarrow> preturn edge_metadata_default))"

definition put_vertex_metadata_indexes_txn ::
    "'t txn_ops \<Rightarrow> string \<Rightarrow> vertex_id \<Rightarrow> vertex_metadata \<Rightarrow> ('t shard_state, unit) prog" where
  "put_vertex_metadata_indexes_txn ops cell_id vertex_id metadata =
     pbind (pfor (vm_labels metadata) (\<lambda>label.
              txn_put ops (vertex_label cell_id label vertex_id) (encode_u64 vertex_id))) (\<lambda>_.
       pfor (vm_properties metadata) (\<lambda>(property, v).
         txn_put ops (vertex_property_index cell_id property (encode_vertex_property_value_key v) vertex_id)
           (encode_u64 vertex_id)))"

definition delete_vertex_metadata_indexes_txn ::
    "'t txn_ops \<Rightarrow> string \<Rightarrow> vertex_id \<Rightarrow> vertex_metadata \<Rightarrow> ('t shard_state, unit) prog" where
  "delete_vertex_metadata_indexes_txn ops cell_id vertex_id metadata =
     pbind (pfor (vm_labels metadata) (\<lambda>label. txn_delete ops (vertex_label cell_id label vertex_id))) (\<lambda>_.
       pfor (vm_properties metadata) (\<lambda>(property, v).
         txn_delete ops (vertex_property_index cell_id property (encode_vertex_property_value_key v) vertex_id)))"

definition apply_vertex_metadata_update_txn ::
    "'t txn_ops \<Rightarrow> string \<Rightarrow> vertex_id \<Rightarrow> vertex_metadata \<Rightarrow> vertex_metadata \<Rightarrow> storage_sequence
       \<Rightarrow> ('t shard_state, unit) prog" where
  "apply_vertex_metadata_update_txn ops cell_id vertex_id previous after epoch =
     pbind (plift (validate_vertex_metadata after)) (\<lambda>_.
     pbind (delete_vertex_metadata_indexes_txn ops cell_id vertex_id previous) (\<lambda>_.
       pif (vm_labels after = [] \<and> vm_properties after = [])
         (txn_delete ops (vertex_key cell_id vertex_id))
         (pbind (txn_put ops (vertex_key cell_id vertex_id) (encode_vertex_metadata after)) (\<lambda>_.
            put_vertex_metadata_indexes_txn ops cell_id vertex_id after))))"

record edge_metadata_target =
  mt_cell_id :: string
  mt_edge_type :: string
  mt_src :: vertex_id
  mt_dst :: vertex_id

definition put_edge_metadata_indexes_txn ::
    "'t txn_ops \<Rightarrow> edge_metadata_target \<Rightarrow> edge_metadata \<Rightarrow> ('t shard_state, unit) prog" where
  "put_edge_metadata_indexes_txn ops target metadata =
     pfor (ed_properties metadata) (\<lambda>(property, v).
       txn_put ops
         (edge_property_index (mt_cell_id target) (mt_edge_type target) property
            (encode_vertex_property_value_key v) (mt_src target) (mt_dst target))
         (encode_u64 (mt_dst target)))"

definition delete_edge_metadata_indexes_txn ::
    "'t txn_ops \<Rightarrow> edge_metadata_target \<Rightarrow> edge_metadata \<Rightarrow> ('t shard_state, unit) prog" where
  "delete_edge_metadata_indexes_txn ops target metadata =
     pfor (ed_properties metadata) (\<lambda>(property, v).
       txn_delete ops
         (edge_property_index (mt_cell_id target) (mt_edge_type target) property
            (encode_vertex_property_value_key v) (mt_src target) (mt_dst target)))"

definition apply_edge_metadata_update_txn ::
    "'t txn_ops \<Rightarrow> edge_metadata_target \<Rightarrow> edge_metadata \<Rightarrow> edge_metadata \<Rightarrow> storage_sequence
       \<Rightarrow> ('t shard_state, unit) prog" where
  "apply_edge_metadata_update_txn ops target previous after epoch =
     pbind (plift (validate_edge_metadata after)) (\<lambda>_.
       let key = edge_metadata_key (mt_cell_id target) (mt_edge_type target) (mt_src target) (mt_dst target) in
       pbind (delete_edge_metadata_indexes_txn ops target previous) (\<lambda>_.
         pif (ed_properties after = [])
           (txn_delete ops key)
           (pbind (txn_put ops key (encode_edge_metadata after)) (\<lambda>_.
              put_edge_metadata_indexes_txn ops target after))))"

subsection \<open>Relationships of an edge\<close>

definition put_relationship_property_indexes_txn ::
    "'t txn_ops \<Rightarrow> relationship_record \<Rightarrow> ('t shard_state, unit) prog" where
  "put_relationship_property_indexes_txn ops r =
     pfor (ed_properties (rr_metadata r)) (\<lambda>(property, v).
       txn_put ops
         (relationship_property_index (rr_cell_id r) (rr_edge_type r) property
            (encode_vertex_property_value_key v) (rr_src r) (rr_dst r) (rr_relationship_id r))
         (encode_u64 (rr_relationship_id r)))"

definition delete_relationship_property_indexes_txn ::
    "'t txn_ops \<Rightarrow> relationship_record \<Rightarrow> edge_metadata \<Rightarrow> ('t shard_state, unit) prog" where
  "delete_relationship_property_indexes_txn ops r metadata =
     pfor (ed_properties metadata) (\<lambda>(property, v).
       txn_delete ops
         (relationship_property_index (rr_cell_id r) (rr_edge_type r) property
            (encode_vertex_property_value_key v) (rr_src r) (rr_dst r) (rr_relationship_id r)))"

definition live_relationships_for_edge_txn ::
    "'t txn_ops \<Rightarrow> string \<Rightarrow> string \<Rightarrow> vertex_id \<Rightarrow> vertex_id \<Rightarrow> storage_sequence
       \<Rightarrow> ('t shard_state, relationship_record list) prog" where
  "live_relationships_for_edge_txn ops cell_id edge_type src dst read_epoch =
     pbind (txn_scan_prefix ops (relationship_edge_prefix cell_id edge_type src dst)) (\<lambda>kvs.
       plift (rfold (\<lambda>kv records.
           rbind (decode_relationship_record (from_utf8_lossy (fst kv)) (snd kv)) (\<lambda>r. Inr (records @ [r])))
         kvs []))"

text \<open>The number of relationships fits into 64 bits, so the conversion of the count does not fail.\<close>

definition delete_relationships_for_structural_edge_txn ::
    "'t txn_ops \<Rightarrow> edge_mutation \<Rightarrow> storage_sequence \<Rightarrow> ('t shard_state, u64) prog" where
  "delete_relationships_for_structural_edge_txn ops mutation read_epoch =
     pbind (live_relationships_for_edge_txn ops (em_cell_id mutation) (em_edge_type mutation)
              (em_src mutation) (em_dst mutation) read_epoch) (\<lambda>relationships.
     pbind (pfor relationships (\<lambda>r.
              pbind (txn_delete ops (relationship_key (rr_cell_id r) (rr_edge_type r) (rr_src r) (rr_dst r)
                       (rr_relationship_id r))) (\<lambda>_.
              pbind (txn_delete ops (relationship_id_key (rr_cell_id r) (rr_relationship_id r))) (\<lambda>_.
                delete_relationship_property_indexes_txn ops r (rr_metadata r))))) (\<lambda>_.
     pbind (txn_delete ops (relationship_count (em_cell_id mutation) (em_edge_type mutation)
              (em_src mutation) (em_dst mutation))) (\<lambda>_.
       preturn (word_of_nat (length relationships)))))"

subsection \<open>Topology changes\<close>

definition floor_token :: "string \<Rightarrow> string \<Rightarrow> string" where
  "floor_token cell_id edge_type = cell_id @ ''/'' @ edge_type"

definition floor_ensured :: "string \<Rightarrow> ('t shard_state, bool) prog" where
  "floor_ensured token s = (Inr (token \<in> set (ss_floor s)), s)"

definition ensure_floor :: "string \<Rightarrow> ('t shard_state, unit) prog" where
  "ensure_floor token s = (Inr (), s\<lparr>ss_floor := bs_insert token (ss_floor s)\<rparr>)"

definition mark_topology_change_txn ::
    "'t txn_ops \<Rightarrow> string \<Rightarrow> string \<Rightarrow> storage_sequence \<Rightarrow> (vertex_id \<times> vertex_id \<times> bool) list
       \<Rightarrow> ('t shard_state, unit) prog" where
  "mark_topology_change_txn ops cell_id edge_type epoch changes =
     pbind (txn_put ops (matrix_dirty cell_id edge_type) (encode_u64 epoch)) (\<lambda>_.
     pbind (txn_put ops (adjacency_generation cell_id edge_type) (encode_u64 epoch)) (\<lambda>_.
       pif (changes = []) (preturn ())
         (pbind (floor_ensured (floor_token cell_id edge_type)) (\<lambda>ensured.
          pbind (pif (\<not> ensured)
                   (pbind (read_txn_remote ops (xlog_low_water cell_id edge_type)) (\<lambda>value.
                      case value of
                        Some _ \<Rightarrow> ensure_floor (floor_token cell_id edge_type)
                      | None \<Rightarrow> txn_put ops (xlog_low_water cell_id edge_type) (encode_u64 epoch)))
                   (preturn ())) (\<lambda>_.
            pfor changes (\<lambda>(src, dst, exists).
              txn_put ops (xlog_entry cell_id edge_type epoch src dst)
                (if exists then [CHR 0x01] else [CHR 0x00])))))))"

definition delete_structural_edge_txn ::
    "'t txn_ops \<Rightarrow> shard_env \<Rightarrow> edge_mutation \<Rightarrow> storage_sequence \<Rightarrow> ('t shard_state, unit) prog" where
  "delete_structural_edge_txn ops sh mutation epoch =
     (let c = em_cell_id mutation; t = em_edge_type mutation; src = em_src mutation; dst = em_dst mutation in
      pbind (read_txn_remote ops (out_edge c t src dst)) (\<lambda>found.
        pif (found = None) (preturn ())
          (pbind (mark_topology_change_txn ops c t epoch [(src, dst, False)]) (\<lambda>_.
           pbind (read_counter_txn ops (degree_out c t src)) (\<lambda>out_base.
           pbind (pif (writes_reverse_index sh)
                    (pbind (read_counter_txn ops (degree_in c t dst)) (\<lambda>base. preturn (Some (saturating_sub base 1))))
                    (preturn None)) (\<lambda>in_degree.
           pbind (read_edge_metadata_txn ops c t src dst) (\<lambda>previous.
           pbind (pif (ed_properties previous \<noteq> [])
                    (apply_edge_metadata_update_txn ops
                       \<lparr>mt_cell_id = c, mt_edge_type = t, mt_src = src, mt_dst = dst\<rparr>
                       previous edge_metadata_default epoch)
                    (preturn ())) (\<lambda>_.
           pbind (txn_delete ops (edge_key c t src dst)) (\<lambda>_.
           pbind (txn_delete ops (out_edge c t src dst)) (\<lambda>_.
           pbind (pif (writes_reverse_index sh) (txn_delete ops (in_edge c t dst src)) (preturn ())) (\<lambda>_.
           pbind (txn_put ops (degree_out c t src) (encode_u64 (saturating_sub out_base 1))) (\<lambda>_.
             case in_degree of
               Some n \<Rightarrow> txn_put ops (degree_in c t dst) (encode_u64 n)
             | None \<Rightarrow> preturn ()))))))))))))"

subsection \<open>Segment reads of the shard\<close>

definition out_segment_tombstone_epoch_at ::
    "'t txn_ops \<Rightarrow> string \<Rightarrow> string \<Rightarrow> vertex_id \<Rightarrow> vertex_id \<Rightarrow> storage_sequence
       \<Rightarrow> ('t shard_state, storage_sequence option) prog" where
  "out_segment_tombstone_epoch_at ops cell_id edge_type src dst read_epoch =
     (let key = out_segment_tombstone cell_id edge_type src dst in
      pbind (read_remote ops key) (\<lambda>value.
        case value of
          None \<Rightarrow> preturn None
        | Some v \<Rightarrow> pbind (plift (decode_u64 key v)) (\<lambda>epoch.
            preturn (if epoch \<le> read_epoch then Some epoch else None))))"

text \<open>The scan without a query budget, which is how a delete calls it.\<close>

fun segment_records_loop ::
    "storage_sequence \<Rightarrow> (bytes \<times> bytes) list \<Rightarrow> (storage_sequence \<times> edge_record) list
       \<Rightarrow> (storage_sequence \<times> edge_record) list result" where
  "segment_records_loop read_epoch [] edges = Inr edges"
| "segment_records_loop read_epoch (kv # kvs) edges =
     rbind (decode_out_edge_segment (from_utf8_lossy (fst kv)) (snd kv)) (\<lambda>segment.
       if read_epoch < os_storage_sequence segment then Inr edges
       else segment_records_loop read_epoch kvs (edges @ map (\<lambda>dst. (os_storage_sequence segment,
              \<lparr>er_cell_id = os_cell_id segment, er_edge_type = os_edge_type segment, er_src = os_src segment,
               er_dst = dst\<rparr>)) (os_destinations segment)))"

definition scan_out_segments_for_src_at ::
    "'t txn_ops \<Rightarrow> string \<Rightarrow> string \<Rightarrow> vertex_id \<Rightarrow> storage_sequence
       \<Rightarrow> ('t shard_state, (storage_sequence \<times> edge_record) list) prog" where
  "scan_out_segments_for_src_at ops cell_id edge_type src read_epoch =
     pbind (scan_remote_prefix ops (out_segment_src_prefix cell_id edge_type src)) (\<lambda>kvs.
       plift (segment_records_loop read_epoch kvs []))"

definition out_segment_edge_record_at ::
    "'t txn_ops \<Rightarrow> string \<Rightarrow> string \<Rightarrow> vertex_id \<Rightarrow> vertex_id \<Rightarrow> storage_sequence
       \<Rightarrow> ('t shard_state, (storage_sequence \<times> edge_record) option) prog" where
  "out_segment_edge_record_at ops cell_id edge_type src dst read_epoch =
     pbind (out_segment_tombstone_epoch_at ops cell_id edge_type src dst read_epoch) (\<lambda>tombstone_epoch.
     pbind (scan_out_segments_for_src_at ops cell_id edge_type src read_epoch) (\<lambda>edges.
       preturn (fold (\<lambda>(sequence, edge) latest.
           if er_dst edge = dst \<and> segment_edge_visible sequence tombstone_epoch
           then Some (sequence, edge) else latest) edges None)))"

subsection \<open>Refinement of the helpers\<close>

context txn_refines
begin

lemmas sim_reads = sim_helpers sim_edge_epoch sim_out_neighbors

lemma sim_fence: "sim (validate_write_fence_txn ops sh c oper) (validate_write_fence_txn map_ops sh c oper)"
  unfolding validate_write_fence_txn_def by (intro sim_helpers)

lemma sim_metadata_reads:
  "sim (read_vertex_metadata_txn ops c v) (read_vertex_metadata_txn map_ops c v)"
  "sim (read_edge_metadata_txn ops c t x y) (read_edge_metadata_txn map_ops c t x y)"
  unfolding read_vertex_metadata_txn_def read_edge_metadata_txn_def Let_def by (intro sim_helpers)+

lemma sim_apply_vertex:
  "sim (apply_vertex_metadata_update_txn ops c v m n e) (apply_vertex_metadata_update_txn map_ops c v m n e)"
  unfolding apply_vertex_metadata_update_txn_def put_vertex_metadata_indexes_txn_def
    delete_vertex_metadata_indexes_txn_def by (intro sim_helpers)

lemma sim_apply_edge:
  "sim (apply_edge_metadata_update_txn ops g m n e) (apply_edge_metadata_update_txn map_ops g m n e)"
  unfolding apply_edge_metadata_update_txn_def put_edge_metadata_indexes_txn_def
    delete_edge_metadata_indexes_txn_def Let_def by (intro sim_helpers)

lemma sim_delete_relationships:
  "sim (delete_relationships_for_structural_edge_txn ops m e) (delete_relationships_for_structural_edge_txn map_ops m e)"
  unfolding delete_relationships_for_structural_edge_txn_def live_relationships_for_edge_txn_def
    delete_relationship_property_indexes_txn_def by (intro sim_helpers)

lemma sim_floor:
  "sim (floor_ensured token) (floor_ensured token)" "sim (ensure_floor token) (ensure_floor token)"
  by (simp_all add: sim_def floor_ensured_def ensure_floor_def abs_state_def)

lemma sim_mark_topology:
  "sim (mark_topology_change_txn ops c t e xs) (mark_topology_change_txn map_ops c t e xs)"
  unfolding mark_topology_change_txn_def by (intro sim_helpers sim_floor)

lemma sim_delete_structural:
  "sim (delete_structural_edge_txn ops sh m e) (delete_structural_edge_txn map_ops sh m e)"
  unfolding delete_structural_edge_txn_def Let_def
  by (intro sim_helpers sim_mark_topology sim_metadata_reads sim_apply_edge)

lemma sim_segment_record:
  "sim (out_segment_edge_record_at ops c t x y e) (out_segment_edge_record_at map_ops c t x y e)"
  unfolding out_segment_edge_record_at_def out_segment_tombstone_epoch_at_def scan_out_segments_for_src_at_def Let_def
  by (intro sim_helpers)

lemmas sim_write_helpers = sim_reads sim_fence sim_metadata_reads sim_apply_vertex sim_apply_edge
  sim_delete_relationships sim_mark_topology sim_delete_structural sim_segment_record

end

text \<open>A successful retry loop ran one successful attempt; without retryable errors it is that attempt.\<close>

lemma txn_attempts_Inr: "txn_attempts n m s = (Inr x, s') \<Longrightarrow> \<exists>s1. m s1 = (Inr x, s')"
  by (induction n arbitrary: s) (auto split: prod.splits sum.splits if_splits)

lemma wp_txn_attempts: "wp m Q s \<Longrightarrow> wp (txn_attempts (Suc n) m) Q s"
  by (auto simp: wp_def)

subsection \<open>Metadata operations keep the topology\<close>

fun is_meta :: "graph_key \<Rightarrow> bool" where
  "is_meta (KVertex _ _) \<longleftrightarrow> True"
| "is_meta (KVertexLabel _ _ _) \<longleftrightarrow> True"
| "is_meta (KVertexProperty _ _ _ _) \<longleftrightarrow> True"
| "is_meta (KEdgeMetadata _ _ _ _) \<longleftrightarrow> True"
| "is_meta (KEdgeProperty _ _ _ _ _ _) \<longleftrightarrow> True"
| "is_meta (KRelationship _ _ _ _ _) \<longleftrightarrow> True"
| "is_meta (KRelationshipId _ _) \<longleftrightarrow> True"
| "is_meta (KRelationshipCount _ _ _ _) \<longleftrightarrow> True"
| "is_meta (KRelationshipProperty _ _ _ _ _ _ _) \<longleftrightarrow> True"
| "is_meta _ \<longleftrightarrow> False"

lemma family_components:
  "valid_component ''meta''" "valid_component ''matrix_dirty''" "valid_component ''adjacency_generation''"
  "valid_component ''xlog_low''" "valid_component ''idem''" "valid_component ''edge''" "valid_component ''emeta''"
  "valid_component ''rel_id''" "valid_component ''rel_count''" "valid_component ''vertex''"
  "valid_component ''graph''" "valid_component ''drop''" "valid_component ''pending''"
  "valid_component ''create''" "valid_component ''delete''"
  by (simp_all add: valid_component_def component_byte_def)

lemma valid_keys:
  assumes c: "valid_component c"
  shows "valid_key (KCellDropMarker c)" "valid_key (KCellDropPending c)" "valid_key (KVertex c v)"
    "valid_component l \<Longrightarrow> valid_key (KVertexLabel c l v)"
    "valid_component p \<Longrightarrow> valid_component e \<Longrightarrow> valid_key (KVertexProperty c p e v)"
    "valid_key (KRelationshipId c r)"
    "valid_component p \<Longrightarrow> valid_component e \<Longrightarrow> valid_key (KIdempotency c p e)"
  using c by (simp_all add: valid_key_def literal_component family_components)

lemma valid_edge_keys:
  assumes c: "valid_component c" and t: "valid_component t"
  shows "valid_key (KMatrixDirty c t)" "valid_key (KAdjacencyGeneration c t)" "valid_key (KXlogEntry c t q x y)"
    "valid_key (KXlogLowWater c t)" "valid_key (KEdge c t x y)" "valid_key (KOutEdge c t x y)" "valid_key (KInEdge c t x y)"
    "valid_key (KOutTombstone c t x y)" "valid_key (KEdgeMetadata c t x y)" "valid_key (KRelationship c t x y r)"
    "valid_key (KRelationshipCount c t x y)" "valid_key (KDegreeOut c t x)" "valid_key (KDegreeIn c t x)"
    "valid_component p \<Longrightarrow> valid_component e \<Longrightarrow> valid_key (KEdgeProperty c t p e x y)"
    "valid_component p \<Longrightarrow> valid_component e \<Longrightarrow> valid_key (KRelationshipProperty c t p e x y r)"
  using c t by (simp_all add: valid_key_def literal_component family_components)

lemma wf_vertex_parts:
  "wf_vertex_metadata m \<Longrightarrow> l \<in> set (vm_labels m) \<Longrightarrow> valid_component l"
  "wf_vertex_metadata m \<Longrightarrow> (p, v) \<in> set (vm_properties m) \<Longrightarrow> valid_component p"
  "wf_edge_metadata e \<Longrightarrow> (p, v) \<in> set (ed_properties e) \<Longrightarrow> valid_component p"
  by (auto simp: wf_vertex_metadata_def wf_edge_metadata_def wf_properties_def)

text \<open>Writing and deleting a hidden record.\<close>

lemma wp_put_meta:
  "models is_meta a s \<Longrightarrow> is_meta k \<Longrightarrow> valid_key k \<Longrightarrow> wf_record k v \<Longrightarrow>
     (\<And>s'. models is_meta a s' \<Longrightarrow> Q () s') \<Longrightarrow> wp (txn_put map_ops (render k) v) Q s"
  by (rule wp_put[of is_meta a s k v]) simp_all

lemma wp_delete_meta:
  "models is_meta a s \<Longrightarrow> is_meta k \<Longrightarrow> valid_key k \<Longrightarrow>
     (\<And>s'. models is_meta a s' \<Longrightarrow> Q () s') \<Longrightarrow> wp (txn_delete map_ops (render k)) Q s"
  by (rule wp_delete[of is_meta a s k]) simp_all

lemma wp_for_meta:
  assumes "models is_meta a s" and "\<And>s'. models is_meta a s' \<Longrightarrow> Q () s'"
    and "\<And>x s. x \<in> set xs \<Longrightarrow> models is_meta a s \<Longrightarrow> wp (f x) (\<lambda>_. models is_meta a) s"
  shows "wp (pfor xs f) Q s"
  by (rule wp_pfor[where I = "models is_meta a"]) (use assms in auto)

lemma wp_vertex_indexes:
  assumes "models is_meta a s" "valid_component c" "wf_vertex_metadata m" "\<And>s'. models is_meta a s' \<Longrightarrow> Q () s'"
  shows "wp (put_vertex_metadata_indexes_txn map_ops c v m) Q s"
    and "wp (delete_vertex_metadata_indexes_txn map_ops c v m) Q s"
proof -
  note [simp] = wf_vertex_parts(1,2)[OF assms(3)] valid_keys[OF assms(2)]
  note put = wp_put_meta[where k = "KVertexLabel c l v" for l, unfolded render.simps]
    wp_put_meta[where k = "KVertexProperty c p e v" for p e, unfolded render.simps]
  note del = wp_delete_meta[where k = "KVertexLabel c l v" for l, unfolded render.simps]
    wp_delete_meta[where k = "KVertexProperty c p e v" for p e, unfolded render.simps]
  show "wp (put_vertex_metadata_indexes_txn map_ops c v m) Q s"
    unfolding put_vertex_metadata_indexes_txn_def
    by (rule wp_pbind, rule wp_for_meta[OF assms(1)], rule wp_for_meta, assumption, erule assms(4))
      (auto intro!: put split: prod.splits)
  show "wp (delete_vertex_metadata_indexes_txn map_ops c v m) Q s"
    unfolding delete_vertex_metadata_indexes_txn_def
    by (rule wp_pbind, rule wp_for_meta[OF assms(1)], rule wp_for_meta, assumption, erule assms(4))
      (auto intro!: del split: prod.splits)
qed

lemma wp_apply_vertex:
  assumes "models is_meta a s" "valid_component c" "wf_vertex_metadata m" "wf_vertex_metadata n"
    "\<And>s'. models is_meta a s' \<Longrightarrow> Q () s'"
  shows "wp (apply_vertex_metadata_update_txn map_ops c v m n e) Q s"
proof -
  note put = wp_put_meta[where k = "KVertex c v", unfolded render.simps]
    and del = wp_delete_meta[where k = "KVertex c v", unfolded render.simps]
  show ?thesis
    unfolding apply_vertex_metadata_update_txn_def
    by (rule wp_pbind, rule wp_plift[of _ "()"], simp add: assms(4), rule wp_pbind,
        rule wp_vertex_indexes(2)[OF assms(1-3)], rule wp_pif, erule del)
      (auto intro!: wp_pbind put wp_vertex_indexes(1) assms exI[of _ n] simp: valid_keys(3)[OF assms(2)])
qed

lemma wp_edge_indexes:
  assumes "models is_meta a s" "valid_component (mt_cell_id g)" "valid_component (mt_edge_type g)" "wf_edge_metadata m"
    "\<And>s'. models is_meta a s' \<Longrightarrow> Q () s'"
  shows "wp (put_edge_metadata_indexes_txn map_ops g m) Q s"
    and "wp (delete_edge_metadata_indexes_txn map_ops g m) Q s"
proof -
  note [simp] = wf_vertex_parts(3)[OF assms(4)] valid_edge_keys[OF assms(2,3)]
  note put = wp_put_meta[where k = "KEdgeProperty c t p e x y" for c t p e x y, unfolded render.simps]
    and del = wp_delete_meta[where k = "KEdgeProperty c t p e x y" for c t p e x y, unfolded render.simps]
  show "wp (put_edge_metadata_indexes_txn map_ops g m) Q s"
    unfolding put_edge_metadata_indexes_txn_def
    by (rule wp_for_meta[OF assms(1)], erule assms(5)) (auto intro!: put split: prod.splits)
  show "wp (delete_edge_metadata_indexes_txn map_ops g m) Q s"
    unfolding delete_edge_metadata_indexes_txn_def
    by (rule wp_for_meta[OF assms(1)], erule assms(5)) (auto intro!: del split: prod.splits)
qed

lemma wp_apply_edge:
  assumes "models is_meta a s" "valid_component (mt_cell_id g)" "valid_component (mt_edge_type g)"
    "wf_edge_metadata m" "wf_edge_metadata n" "\<And>s'. models is_meta a s' \<Longrightarrow> Q () s'"
  shows "wp (apply_edge_metadata_update_txn map_ops g m n e) Q s"
proof -
  let ?k = "KEdgeMetadata (mt_cell_id g) (mt_edge_type g) (mt_src g) (mt_dst g)"
  note put = wp_put_meta[where k = ?k, unfolded render.simps] and del = wp_delete_meta[where k = ?k, unfolded render.simps]
  show ?thesis
    unfolding apply_edge_metadata_update_txn_def Let_def
    by (rule wp_pbind, rule wp_plift[of _ "()"], simp add: assms(5), rule wp_pbind,
        rule wp_edge_indexes(2)[OF assms(1-4)], rule wp_pif, erule del)
      (auto intro!: wp_pbind put wp_edge_indexes(1) assms exI[of _ n] simp: valid_edge_keys(9)[OF assms(2,3)])
qed

lemma wp_read_edge_metadata:
  assumes "models is_meta a s" "valid_component c" "valid_component t" "\<And>m. wf_edge_metadata m \<Longrightarrow> Q m s"
  shows "wp (read_edge_metadata_txn map_ops c t x y) Q s"
  unfolding read_edge_metadata_txn_def Let_def
proof (rule wp_pbind, rule wp_read_hidden[where k = "KEdgeMetadata c t x y", unfolded render.simps, OF assms(1)])
  fix v assume v: "\<And>w. v = Some w \<Longrightarrow> wf_record (KEdgeMetadata c t x y) w"
  show "wp (case v of None \<Rightarrow> preturn edge_metadata_default
      | Some w \<Rightarrow> plift (decode_edge_metadata (edge_metadata_key c t x y) w)) Q s"
  proof (cases v)
    case (Some w)
    then obtain m where m: "wf_edge_metadata m" "w = encode_edge_metadata m" using v by auto
    then show ?thesis using edge_metadata_roundtrip[OF m(1)] assms(4) Some by (auto intro: wp_plift)
  qed (simp add: wp_preturn assms(4))
qed (simp add: valid_edge_keys assms)

lemma wp_read_vertex_metadata:
  assumes "models is_meta a s" "valid_component c" "\<And>m. wf_vertex_metadata m \<Longrightarrow> Q m s"
  shows "wp (read_vertex_metadata_txn map_ops c x) Q s"
  unfolding read_vertex_metadata_txn_def Let_def
proof (rule wp_pbind, rule wp_read_hidden[where k = "KVertex c x", unfolded render.simps, OF assms(1)])
  fix v assume v: "\<And>w. v = Some w \<Longrightarrow> wf_record (KVertex c x) w"
  show "wp (case v of None \<Rightarrow> preturn vertex_metadata_default
      | Some w \<Rightarrow> plift (decode_vertex_metadata (vertex_key c x) w)) Q s"
  proof (cases v)
    case (Some w)
    then obtain m where m: "wf_vertex_metadata m" "w = encode_vertex_metadata m" using v by auto
    then show ?thesis using vertex_metadata_roundtrip[OF m(1)] assms(3) Some by (auto intro: wp_plift)
  qed (simp add: wp_preturn assms(3))
qed (simp add: valid_keys assms)

lemma relationship_prefix_render:
  assumes "valid_key k" "valid_component c" "valid_component t"
  shows "starts_with (relationship_edge_prefix c t x y) (render k) \<longleftrightarrow> (\<exists>r. k = KRelationship c t x y r)"
proof -
  have "relationship_edge_prefix c t x y = join_with SLASH [''cell'', c, ''rel'', t, fmt_020 x, fmt_020 y] @ [SLASH]"
    by (simp add: key_defs)
  then show ?thesis
    using prefix_render[OF assms(1), of "[''cell'', c, ''rel'', t, fmt_020 x, fmt_020 y]"] key_parts_relationship[of k c t x y]
      assms(2,3) literal_component by simp
qed

definition edge_relationship :: "string \<Rightarrow> string \<Rightarrow> vertex_id \<Rightarrow> vertex_id \<Rightarrow> relationship_record \<Rightarrow> bool" where
  "edge_relationship c t x y r \<longleftrightarrow> rr_cell_id r = c \<and> rr_edge_type r = t \<and> rr_src r = x \<and> rr_dst r = y
     \<and> wf_edge_metadata (rr_metadata r)"

lemma relationship_scan:
  assumes "wf_store m" "valid_component c" "valid_component t" "kv \<in> set (scan (relationship_edge_prefix c t x y) m)"
  shows "\<exists>r. decode_relationship_record (from_utf8_lossy (fst kv)) (snd kv) = Inr r \<and> edge_relationship c t x y r"
proof -
  have kv: "kv \<in> set m" "starts_with (relationship_edge_prefix c t x y) (fst kv)" using assms(4) by (auto simp: scan_def)
  obtain k where k: "valid_key k" "fst kv = render k" using assms(1) kv(1) by (auto simp: wf_store_def well_keyed_def)
  then obtain r where r: "k = KRelationship c t x y r" using kv(2) relationship_prefix_render[OF k(1) assms(2,3)] by auto
  have "(render k, snd kv) \<in> set m" using kv(1) k(2) by (metis prod.collapse)
  then have "kview m k = Some (snd kv)" using bt_get_Some_iff[of m "render k" "snd kv"] assms(1) by (simp add: kview_def)
  with wf_store_record[OF assms(1) k(1)] obtain d where d: "wf_edge_metadata d"
    "snd kv = encode_relationship_record \<lparr>rr_cell_id = c, rr_edge_type = t, rr_src = x, rr_dst = y,
       rr_relationship_id = r, rr_metadata = d\<rparr>" unfolding r by auto
  let ?r = "\<lparr>rr_cell_id = c, rr_edge_type = t, rr_src = x, rr_dst = y, rr_relationship_id = r, rr_metadata = d\<rparr>"
  have "decode_relationship_record (render k) (snd kv) = Inr ?r"
    using relationship_record_roundtrip[of ?r] d assms(2,3) by (simp add: r)
  then have "decode_relationship_record (from_utf8_lossy (fst kv)) (snd kv) = Inr ?r" using k by simp
  moreover have "edge_relationship c t x y ?r" using d(1) by (simp add: edge_relationship_def)
  ultimately show ?thesis by blast
qed

lemma decode_relationships:
  assumes "\<And>kv. kv \<in> set kvs \<Longrightarrow> \<exists>r. dec kv = Inr r \<and> P r"
  shows "\<exists>rs. rfold (\<lambda>kv records. rbind (dec kv) (\<lambda>r. Inr (records @ [r]))) kvs acc = Inr (acc @ rs) \<and> (\<forall>r \<in> set rs. P r)"
  using assms
proof (induction kvs arbitrary: acc)
  case (Cons kv kvs)
  obtain r where r: "dec kv = Inr r" "P r" using Cons.prems by auto
  obtain rs where "rfold (\<lambda>kv records. rbind (dec kv) (\<lambda>r. Inr (records @ [r]))) kvs (acc @ [r]) = Inr ((acc @ [r]) @ rs)"
    "\<forall>r \<in> set rs. P r" using Cons.IH[of "acc @ [r]"] Cons.prems by auto
  then show ?case using r by (intro exI[of _ "r # rs"]) simp
qed simp

lemma wp_delete_relationships:
  assumes a: "models is_meta a s" and v: "valid_component (em_cell_id m)" "valid_component (em_edge_type m)"
    and Q: "\<And>n s'. models is_meta a s' \<Longrightarrow> Q n s'"
  shows "wp (delete_relationships_for_structural_edge_txn map_ops m e) Q s"
proof -
  let ?P = "edge_relationship (em_cell_id m) (em_edge_type m) (em_src m) (em_dst m)"
  let ?kvs = "scan (relationship_edge_prefix (em_cell_id m) (em_edge_type m) (em_src m) (em_dst m)) (mt_view (ss_txn s))"
  obtain rs where rs: "rfold (\<lambda>kv records. rbind (decode_relationship_record (from_utf8_lossy (fst kv)) (snd kv))
      (\<lambda>r. Inr (records @ [r]))) ?kvs [] = Inr ([] @ rs)" "\<forall>r \<in> set rs. ?P r"
    using decode_relationships[of ?kvs "\<lambda>kv. decode_relationship_record (from_utf8_lossy (fst kv)) (snd kv)" ?P "[]"]
      relationship_scan[OF models_wf[OF a] v] by blast
  note del = wp_delete_meta[where k = "KRelationship c t x y r" for c t x y r, unfolded render.simps]
    wp_delete_meta[where k = "KRelationshipId c r" for c r, unfolded render.simps]
    wp_delete_meta[where k = "KRelationshipProperty c t p v x y r" for c t p v x y r, unfolded render.simps]
    wp_delete_meta[where k = "KRelationshipCount c t x y" for c t x y, unfolded render.simps]
  note keys = valid_edge_keys[OF v] valid_keys(6)[OF v(1)]
  have one: "wp (pbind (txn_delete map_ops (relationship_key (rr_cell_id r) (rr_edge_type r) (rr_src r) (rr_dst r)
                 (rr_relationship_id r))) (\<lambda>_.
        pbind (txn_delete map_ops (relationship_id_key (rr_cell_id r) (rr_relationship_id r))) (\<lambda>_.
          delete_relationship_property_indexes_txn map_ops r (rr_metadata r)))) (\<lambda>_. models is_meta a) s"
    if "r \<in> set rs" "models is_meta a s" for r s
  proof -
    have r: "rr_cell_id r = em_cell_id m" "rr_edge_type r = em_edge_type m" "wf_edge_metadata (rr_metadata r)"
      using rs(2) that(1) by (auto simp: edge_relationship_def)
    note [simp] = wf_vertex_parts(3)[OF r(3)] keys r(1,2)
    show ?thesis
      unfolding delete_relationship_property_indexes_txn_def
      by (rule wp_pbind, rule del(1)[OF that(2)]) (auto intro!: wp_pbind del(2,3) wp_for_meta split: prod.splits)
  qed
  have live: "wp (live_relationships_for_edge_txn map_ops (em_cell_id m) (em_edge_type m) (em_src m) (em_dst m) e)
      (\<lambda>x s'. x = rs \<and> s' = s) s"
    unfolding live_relationships_for_edge_txn_def using rs(1) by (simp add: wp_def prog_simps)
  show ?thesis
    unfolding delete_relationships_for_structural_edge_txn_def
  proof (rule wp_pbind, rule wp_mono[OF live], elim conjE, hypsubst)
    show "wp (pbind (pfor rs (\<lambda>r. pbind (txn_delete map_ops (relationship_key (rr_cell_id r) (rr_edge_type r) (rr_src r)
              (rr_dst r) (rr_relationship_id r))) (\<lambda>_.
            pbind (txn_delete map_ops (relationship_id_key (rr_cell_id r) (rr_relationship_id r))) (\<lambda>_.
              delete_relationship_property_indexes_txn map_ops r (rr_metadata r))))) (\<lambda>_.
          pbind (txn_delete map_ops (relationship_count (em_cell_id m) (em_edge_type m) (em_src m) (em_dst m))) (\<lambda>_.
            preturn (word_of_nat (length rs))))) Q s"
      by (rule wp_pbind, rule wp_for_meta[OF a], rule wp_pbind, erule del(4))
        (auto intro: one Q wp_preturn simp: keys)
  qed
qed

subsection \<open>The effect of a topology mark\<close>

definition xlog_value :: "bool \<Rightarrow> bytes" where
  "xlog_value exists = (if exists then [CHR 0x01] else [CHR 0x00])"

definition log_change :: "string \<Rightarrow> string \<Rightarrow> storage_sequence \<Rightarrow> vertex_id \<times> vertex_id \<times> bool \<Rightarrow> abstract_store \<Rightarrow> abstract_store" where
  "log_change c t e p = (case p of (x, y, exists) \<Rightarrow> put_as (KXlogEntry c t e x y) (xlog_value exists))"

definition set_floor :: "string \<Rightarrow> string \<Rightarrow> storage_sequence \<Rightarrow> abstract_store \<Rightarrow> abstract_store" where
  "set_floor c t e a =
     (if floor_token c t \<in> set (as_floor a) then a
      else if as_map a (KXlogLowWater c t) = None then put_as (KXlogLowWater c t) (encode_u64 e) a
      else a\<lparr>as_floor := bs_insert (floor_token c t) (as_floor a)\<rparr>)"

definition mark_dirty :: "string \<Rightarrow> string \<Rightarrow> storage_sequence \<Rightarrow> abstract_store \<Rightarrow> abstract_store" where
  "mark_dirty c t e a = put_as (KAdjacencyGeneration c t) (encode_u64 e) (put_as (KMatrixDirty c t) (encode_u64 e) a)"

definition mark_as ::
    "string \<Rightarrow> string \<Rightarrow> storage_sequence \<Rightarrow> (vertex_id \<times> vertex_id \<times> bool) list \<Rightarrow> abstract_store \<Rightarrow> abstract_store" where
  "mark_as c t e changes a =
     (if changes = [] then mark_dirty c t e a
      else fold (log_change c t e) changes (set_floor c t e (mark_dirty c t e a)))"

lemma wp_put_plain:
  assumes "models is_meta a s" "\<not> is_meta k" "valid_key k" "wf_record k v"
    and "\<And>s'. models is_meta (put_as k v a) s' \<Longrightarrow> Q () s'"
  shows "wp (txn_put map_ops (render k) v) Q s"
  by (rule wp_put[OF assms(1,3,4)]) (use assms in simp)

lemma wp_delete_plain:
  assumes "models is_meta a s" "\<not> is_meta k" "valid_key k"
    and "\<And>s'. models is_meta (delete_as k a) s' \<Longrightarrow> Q () s'"
  shows "wp (txn_delete map_ops (render k)) Q s"
  by (rule wp_delete[OF assms(1,3)]) (use assms in simp)

lemma wp_log_changes:
  assumes "models is_meta a s" "valid_component c" "valid_component t"
    and "\<And>s'. models is_meta (fold (log_change c t e) changes a) s' \<Longrightarrow> Q () s'"
  shows "wp (pfor changes (\<lambda>(src, dst, exists).
      txn_put map_ops (xlog_entry c t e src dst) (if exists then [CHR 0x01] else [CHR 0x00]))) Q s"
  using assms
proof (induction changes arbitrary: a s)
  case (Cons p changes)
  obtain x y b where p: "p = (x, y, b)" by (cases p)
  show ?case
    unfolding p pfor.simps prod.case
  proof (rule wp_pbind, rule wp_put_plain[where k = "KXlogEntry c t e x y", unfolded render.simps, OF Cons.prems(1)])
    fix s' assume "models is_meta (put_as (KXlogEntry c t e x y) (if b then [CHR 0x01] else [CHR 0x00]) a) s'"
    then have "models is_meta (log_change c t e p a) s'" by (simp add: p log_change_def xlog_value_def)
    from Cons.IH[OF this Cons.prems(2,3)] Cons.prems(4)
    show "wp (pfor changes (\<lambda>(src, dst, exists).
      txn_put map_ops (xlog_entry c t e src dst) (if exists then [CHR 0x01] else [CHR 0x00]))) Q s'" by simp
  qed (simp_all add: valid_edge_keys[OF Cons.prems(2,3)])
qed (simp add: wp_preturn)

lemma wp_set_floor:
  assumes "models is_meta a s" "valid_component c" "valid_component t"
    and "\<And>s'. models is_meta (set_floor c t e a) s' \<Longrightarrow> Q () s'"
  shows "wp (pbind (floor_ensured (floor_token c t)) (\<lambda>ensured.
      pif (\<not> ensured)
        (pbind (read_txn_remote map_ops (xlog_low_water c t)) (\<lambda>value.
           case value of Some _ \<Rightarrow> ensure_floor (floor_token c t)
           | None \<Rightarrow> txn_put map_ops (xlog_low_water c t) (encode_u64 e)))
        (preturn ()))) Q s"
proof (cases "floor_token c t \<in> set (as_floor a)")
  case True
  then have "Q () s" using assms(1,4) by (simp add: set_floor_def)
  then show ?thesis using True models_eqs(3)[OF assms(1)]
    by (simp add: wp_def floor_ensured_def prog_simps)
next
  case False
  let ?k = "KXlogLowWater c t"
  note keys = valid_edge_keys[OF assms(2,3)]
  have "wp (pbind (read_txn_remote map_ops (xlog_low_water c t)) (\<lambda>value.
           case value of Some _ \<Rightarrow> ensure_floor (floor_token c t)
           | None \<Rightarrow> txn_put map_ops (xlog_low_water c t) (encode_u64 e))) Q s"
  proof (rule wp_pbind, rule wp_read[where k = ?k, unfolded render.simps, OF assms(1)])
    show "wp (case as_map a ?k of Some _ \<Rightarrow> ensure_floor (floor_token c t)
        | None \<Rightarrow> txn_put map_ops (xlog_low_water c t) (encode_u64 e)) Q s"
    proof (cases "as_map a ?k")
      case None
      then show ?thesis
        using assms False by (auto intro!: wp_put_plain[where k = ?k, unfolded render.simps, OF assms(1)] simp: keys set_floor_def)
    next
      case (Some w)
      have "models is_meta (set_floor c t e a) (s\<lparr>ss_floor := bs_insert (floor_token c t) (ss_floor s)\<rparr>)"
        using assms(1) False Some by (simp add: models_def set_floor_def)
      then show ?thesis using assms(4) Some by (simp add: wp_def ensure_floor_def)
    qed
  qed (simp_all add: keys)
  then show ?thesis using False models_eqs(3)[OF assms(1)]
    by (auto simp: wp_def floor_ensured_def pbind_def pif_def)
qed

lemma wp_mark_topology:
  assumes a: "models is_meta a s" and v: "valid_component c" "valid_component t"
    and Q: "\<And>s'. models is_meta (mark_as c t e changes a) s' \<Longrightarrow> Q () s'"
  shows "wp (mark_topology_change_txn map_ops c t e changes) Q s"
proof -
  note keys = valid_edge_keys[OF v]
  note put = wp_put_plain[where k = "KMatrixDirty c t", unfolded render.simps]
    wp_put_plain[where k = "KAdjacencyGeneration c t", unfolded render.simps]
  show ?thesis
    unfolding mark_topology_change_txn_def
  proof (rule wp_pbind, rule put(1)[OF a], simp_all add: keys, rule wp_pbind, erule put(2), simp_all add: keys)
    fix s' assume d: "models is_meta (put_as (KAdjacencyGeneration c t) (encode_u64 e) (put_as (KMatrixDirty c t) (encode_u64 e) a)) s'"
    show "wp (pif (changes = []) (preturn ())
         (pbind (floor_ensured (floor_token c t)) (\<lambda>ensured.
          pbind (pif (\<not> ensured)
                   (pbind (read_txn_remote map_ops (xlog_low_water c t)) (\<lambda>value.
                      case value of None \<Rightarrow> txn_put map_ops (xlog_low_water c t) (encode_u64 e)
                      | Some _ \<Rightarrow> ensure_floor (floor_token c t)))
                   (preturn ())) (\<lambda>_.
            pfor changes (\<lambda>(src, dst, exists).
              txn_put map_ops (xlog_entry c t e src dst) (if exists then [CHR 0x01] else [CHR 0x00])))))) Q s'"
    proof (rule wp_pif)
      assume "changes = []"
      then show "wp (preturn ()) Q s'" using d Q by (simp add: mark_as_def mark_dirty_def wp_preturn)
    next
      assume ne: "changes \<noteq> []"
      show "wp (pbind (floor_ensured (floor_token c t)) (\<lambda>ensured.
          pbind (pif (\<not> ensured)
                   (pbind (read_txn_remote map_ops (xlog_low_water c t)) (\<lambda>value.
                      case value of None \<Rightarrow> txn_put map_ops (xlog_low_water c t) (encode_u64 e)
                      | Some _ \<Rightarrow> ensure_floor (floor_token c t)))
                   (preturn ())) (\<lambda>_.
            pfor changes (\<lambda>(src, dst, exists).
              txn_put map_ops (xlog_entry c t e src dst) (if exists then [CHR 0x01] else [CHR 0x00]))))) Q s'"
        unfolding pbind_assoc[symmetric]
        by (rule wp_pbind, rule wp_set_floor[OF d v], rule wp_log_changes[OF _ v], assumption, rule Q)
          (simp add: mark_as_def mark_dirty_def ne)
    qed
  qed
qed

subsection \<open>Fence and segment records\<close>

definition writable :: "shard_env \<Rightarrow> bool" where
  "writable sh \<longleftrightarrow> sh_writer_open sh \<and> sh_write_authority sh \<noteq> AuthReadOnly"

lemma authority_ok: "ensure_write_authority sh c oper = Inr u \<longleftrightarrow> writable sh"
  by (cases "sh_write_authority sh") (auto simp: ensure_write_authority_def db_writer_def writable_def)

lemma wp_fence:
  assumes "models is_meta a s" "valid_component c" "writable sh" "Q () s"
    and "as_map a (KCellDropMarker c) = None" "as_map a (KCellDropPending c) = None"
  shows "wp (validate_write_fence_txn map_ops sh c oper) Q s"
proof -
  note read = wp_read[where k = "KCellDropMarker c", unfolded render.simps, OF assms(1)]
    wp_read[where k = "KCellDropPending c", unfolded render.simps, OF assms(1)]
  have last: "wp (plift (ensure_write_authority sh c oper')) Q s" for oper'
    using assms(3,4) authority_ok by (auto intro: wp_plift)
  show ?thesis
    unfolding validate_write_fence_txn_def
    by (rule wp_pbind, rule wp_pif) (auto intro!: wp_pbind read wp_pif wp_preturn last valid_keys assms(2) simp: assms(5,6))
qed

text \<open>A drop marker stops every other operation.\<close>

lemma fence_dropped:
  assumes "models is_meta a s" "valid_component c" "oper \<noteq> ''drop_cell''"
    and "as_map a (KCellDropMarker c) \<noteq> None \<or> as_map a (KCellDropPending c) \<noteq> None"
  shows "validate_write_fence_txn map_ops sh c oper s = (Inl (CellDropped oper c), s)"
proof -
  note view = models_view[OF assms(1), of "KCellDropMarker c"] models_view[OF assms(1), of "KCellDropPending c"]
  have "bt_get (mt_view (ss_txn s)) (cell_drop_marker c) = as_map a (KCellDropMarker c)"
    "bt_get (mt_view (ss_txn s)) (cell_drop_pending_marker c) = as_map a (KCellDropPending c)"
    using view valid_keys(1,2)[OF assms(2)] by (simp_all add: kview_def)
  then show ?thesis
    using assms(3,4) by (auto simp: validate_write_fence_txn_def pbind_def pif_def read_eval preturn_def pfail_def)
qed

lemma segment_records_eval:
  assumes v: "valid_component c" "valid_component t"
  shows "\<forall>p \<in> set ss. valid_component (snd (fst p)) \<and> 8 * length (snd p) < 2 ^ 64 \<Longrightarrow>
    sorted (map (\<lambda>p. fst (fst p)) ss) \<Longrightarrow>
    \<exists>es. segment_records_loop r (map (segment_kv c t x) ss) acc = Inr (acc @ es)
      \<and> set es = {(q, \<lparr>er_cell_id = c, er_edge_type = t, er_src = x, er_dst = d\<rparr>) |q d.
            q \<le> r \<and> (\<exists>g ds. ((q, g), ds) \<in> set ss \<and> d \<in> set ds)}"
proof (induction ss arbitrary: acc)
  case (Cons p ss)
  obtain q g ds where p: "p = ((q, g), ds)" by (metis surj_pair)
  have dec: "decode_out_edge_segment (from_utf8_lossy (fst (segment_kv c t x p))) (snd (segment_kv c t x p)) =
      Inr \<lparr>os_cell_id = c, os_edge_type = t, os_src = x, os_storage_sequence = q, os_destinations = ds\<rparr>"
    using decode_segment_kv[OF v] Cons.prems(1) by (simp add: p)
  show ?case
  proof (cases "r < q")
    case True
    have "q \<le> fst (fst p')" if "p' \<in> set (p # ss)" for p' using Cons.prems(2) that p by auto
    then have "\<not> (\<exists>q' g' ds'. q' \<le> r \<and> ((q', g'), ds') \<in> set (p # ss))" using True by force
    then show ?thesis using True dec by (intro exI[of _ "[]"]) auto
  next
    case False
    let ?es = "map (\<lambda>dst. (q, \<lparr>er_cell_id = c, er_edge_type = t, er_src = x, er_dst = dst\<rparr>)) ds"
    obtain es where es: "segment_records_loop r (map (segment_kv c t x) ss) (acc @ ?es) = Inr ((acc @ ?es) @ es)"
      "set es = {(q, \<lparr>er_cell_id = c, er_edge_type = t, er_src = x, er_dst = d\<rparr>) |q d.
            q \<le> r \<and> (\<exists>g ds. ((q, g), ds) \<in> set ss \<and> d \<in> set ds)}"
      using Cons.IH[of "acc @ ?es"] Cons.prems by auto
    have "segment_records_loop r (map (segment_kv c t x) (p # ss)) acc = Inr (acc @ (?es @ es))"
      using False dec es(1) by simp
    moreover have "set (?es @ es) = {(q, \<lparr>er_cell_id = c, er_edge_type = t, er_src = x, er_dst = d\<rparr>) |q d.
            q \<le> r \<and> (\<exists>g ds. ((q, g), ds) \<in> set (p # ss) \<and> d \<in> set ds)}"
      unfolding set_append es(2) using False by (auto simp: p not_less; blast)
    ultimately show ?thesis by blast
  qed
qed simp

lemma fold_latest:
  fixes P :: "'q \<Rightarrow> 'e \<Rightarrow> bool"
  defines "f \<equiv> \<lambda>(q, e) latest. if P q e then Some (q, e) else latest"
  shows "(fold f xs None = None \<longleftrightarrow> (\<forall>q e. (q, e) \<in> set xs \<longrightarrow> \<not> P q e))
     \<and> (\<forall>q e. fold f xs None = Some (q, e) \<longrightarrow> (q, e) \<in> set xs \<and> P q e)"
proof (induction xs rule: rev_induct)
  case (snoc x xs)
  obtain q e where x: "x = (q, e)" by (cases x)
  have "fold f (xs @ [x]) None = (if P q e then Some (q, e) else fold f xs None)" by (simp add: x f_def)
  then show ?case using snoc by (cases "P q e") (auto simp: x)
qed simp

lemma wp_segment_record:
  assumes wf: "wf_store (mt_durable (ss_txn s))" and v: "valid_component c" "valid_component t"
    and Q: "\<And>res. (res = None \<longleftrightarrow> (\<forall>q. \<not> segment_visible (mt_durable (ss_txn s)) c t x r y q)) \<Longrightarrow>
      (\<And>q e. res = Some (q, e) \<Longrightarrow> segment_visible (mt_durable (ss_txn s)) c t x r y q) \<Longrightarrow> Q res s"
  shows "wp (out_segment_edge_record_at map_ops c t x y r) Q s"
proof -
  let ?D = "mt_durable (ss_txn s)"
  let ?k = "KOutTombstone c t x y"
  obtain ss where ss: "scan (out_segment_src_prefix c t x) ?D = map (segment_kv c t x) ss"
    "sorted (map (\<lambda>p. fst (fst p)) ss)"
    "\<forall>p \<in> set ss. valid_component (snd (fst p)) \<and> 8 * length (snd p) < 2 ^ 64"
    "\<forall>q g ds. ((q, g), ds) \<in> set ss \<longleftrightarrow>
       valid_component g \<and> kview ?D (KOutSegment c t x q g) = Some (encode_out_edge_segment_records ds)"
    using segment_scan_family[OF wf v] by blast
  from segment_records_eval[OF v ss(3,2), of r x "[]"] obtain es where
    es: "segment_records_loop r (map (segment_kv c t x) ss) [] = Inr es"
    "set es = {(q, \<lparr>er_cell_id = c, er_edge_type = t, er_src = x, er_dst = d\<rparr>) |q d.
            q \<le> r \<and> (\<exists>g ds. ((q, g), ds) \<in> set ss \<and> d \<in> set ds)}" by auto
  define tomb where "tomb = (case kview ?D ?k of None \<Rightarrow> None
    | Some w \<Rightarrow> if from_be_bytes w \<le> r then Some (from_be_bytes w :: u64) else None)"
  have tk: "kview ?D ?k = Some w \<Longrightarrow> \<exists>e. w = encode_u64 e" for w
    using wf_store_record[OF wf, of ?k w] v by simp
  then have te: "out_segment_tombstone_epoch_at map_ops c t x y r s = (Inr tomb, s)"
    by (auto simp: out_segment_tombstone_epoch_at_def Let_def pbind_def read_remote_def on_txn_def preturn_def plift_def
        tomb_def kview_def encode_u64_def decode_u64_def split: option.splits)
  have vis: "segment_edge_visible q tomb \<longleftrightarrow> (\<forall>e. kview ?D ?k = Some (encode_u64 e) \<and> e \<le> r \<longrightarrow> e < q)" for q
  proof (cases "kview ?D ?k")
    case (Some w)
    then obtain e where "w = encode_u64 e" using tk by blast
    moreover have "from_be_bytes (encode_u64 e) = e" by (simp add: encode_u64_def)
    ultimately show ?thesis using Some inj_encode_u64 by (auto simp: tomb_def segment_edge_visible_def inj_eq)
  qed (simp add: tomb_def segment_edge_visible_def)
  let ?f = "\<lambda>(sequence, edge) latest.
    if er_dst edge = y \<and> segment_edge_visible sequence tomb then Some (sequence, edge) else latest"
  have "out_segment_edge_record_at map_ops c t x y r s = (Inr (fold ?f es None), s)"
    by (simp add: out_segment_edge_record_at_def scan_out_segments_for_src_at_def pbind_def te scan_remote_prefix_def
        db_scan_def on_txn_def in_subrange_def ss(1)[unfolded scan_def] es(1) plift_def preturn_def)
  moreover have "Q (fold ?f es None) s"
  proof (rule Q)
    note fl = fold_latest[of "\<lambda>q e. er_dst e = y \<and> segment_edge_visible q tomb" es]
    have char: "(q, e) \<in> set es \<and> er_dst e = y \<and> segment_edge_visible q tomb \<longleftrightarrow>
        segment_visible ?D c t x r y q \<and> e = \<lparr>er_cell_id = c, er_edge_type = t, er_src = x, er_dst = y\<rparr>" for q e
      unfolding es(2) segment_visible_def vis using ss(4) by auto
    show "(fold ?f es None = None) \<longleftrightarrow> (\<forall>q. \<not> segment_visible ?D c t x r y q)"
      using conjunct1[OF fl] char by blast
    show "segment_visible ?D c t x r y q" if "fold ?f es None = Some (q, e)" for q e
      using conjunct2[OF fl] char[of q e] that by blast
  qed
  ultimately show ?thesis by (simp add: wp_def)
qed

end
