(* ===== verification/Write_Edge.thy ===== *)
theory Write_Edge
  imports Write_Txn
begin

text \<open>
  Edge writes and deletes of \<^verbatim>\<open>src/shard/write.rs\<close>: \<^verbatim>\<open>write_edge\<close> with its metadata variants and
  \<^verbatim>\<open>delete_edge\<close>, each the validation, the admission, the retry loop and the whole transaction.
\<close>

subsection \<open>Writing an edge\<close>

definition changed_vertex_metadata ::
    "'t txn_ops \<Rightarrow> string \<Rightarrow> (vertex_id \<times> vertex_metadata) list
       \<Rightarrow> ('t shard_state, (vertex_id \<times> vertex_metadata \<times> vertex_metadata) list) prog" where
  "changed_vertex_metadata ops cell_id updates =
     pfold updates (\<lambda>u changed. case u of (vertex_id, requested) \<Rightarrow>
       pbind (read_vertex_metadata_txn ops cell_id vertex_id) (\<lambda>previous.
         let after = merge_vertex_metadata previous requested
         in preturn (if previous \<noteq> after then changed @ [(vertex_id, previous, after)] else changed))) []"

definition commit_edge_result ::
    "'t txn_ops \<Rightarrow> shard_env \<Rightarrow> edge_mutation \<Rightarrow> commit_result \<Rightarrow> ('t shard_state, commit_result) prog" where
  "commit_edge_result ops sh mutation res =
     pbind (txn_put ops (idempotency (em_cell_id mutation) ''create'' (em_idempotency_key mutation))
              (encode_commit_idempotency mutation res)) (\<lambda>_.
     pbind (commit_txn_strict ops (sh_await_durable_writes sh)) (\<lambda>_.
       preturn res))"

definition insert_edge_txn ::
    "'t txn_ops \<Rightarrow> shard_env \<Rightarrow> edge_mutation \<Rightarrow> storage_sequence \<Rightarrow> ('t shard_state, unit) prog" where
  "insert_edge_txn ops sh mutation epoch =
     (let c = em_cell_id mutation; t = em_edge_type mutation; src = em_src mutation; dst = em_dst mutation;
          edge_value = encode_edge_record \<lparr>er_cell_id = c, er_edge_type = t, er_src = src, er_dst = dst\<rparr> in
      pbind (mark_topology_change_txn ops c t epoch [(src, dst, True)]) (\<lambda>_.
      pbind (read_counter_txn ops (degree_out c t src)) (\<lambda>out_base.
      pbind (pif (writes_reverse_index sh)
               (pbind (read_counter_txn ops (degree_in c t dst)) (\<lambda>base. preturn (Some (base + 1))))
               (preturn None)) (\<lambda>in_degree.
      pbind (txn_put ops (out_edge c t src dst) edge_value) (\<lambda>_.
      pbind (pif (writes_reverse_index sh) (txn_put ops (in_edge c t dst src) edge_value) (preturn ())) (\<lambda>_.
      pbind (txn_put ops (degree_out c t src) (encode_u64 (out_base + 1))) (\<lambda>_.
        case in_degree of
          Some n \<Rightarrow> txn_put ops (degree_in c t dst) (encode_u64 n)
        | None \<Rightarrow> preturn ())))))))"

definition write_edge_body_txn ::
    "'t txn_ops \<Rightarrow> shard_env \<Rightarrow> edge_mutation \<Rightarrow> (vertex_id \<times> vertex_metadata) list \<Rightarrow> edge_metadata
       \<Rightarrow> ('t shard_state, commit_result) prog" where
  "write_edge_body_txn ops sh mutation updates edge_metadata =
     (let c = em_cell_id mutation; t = em_edge_type mutation; src = em_src mutation; dst = em_dst mutation in
      pbind (txn_seqnum ops) (\<lambda>current_epoch.
      pbind (edge_epoch_at_txn ops c t src dst current_epoch) (\<lambda>existing.
      pbind (changed_vertex_metadata ops c updates) (\<lambda>changed.
      pbind (read_edge_metadata_txn ops c t src dst) (\<lambda>previous_edge.
        let next_edge = merge_edge_metadata previous_edge edge_metadata in
        pif (existing \<noteq> None \<and> changed = [] \<and> previous_edge = next_edge)
          (commit_edge_result ops sh mutation \<lparr>cr_epoch = (case existing of Some existing_epoch \<Rightarrow> existing_epoch | None \<Rightarrow> current_epoch), cr_already_existed = True\<rparr>)
          (pbind (plift (ok_or (CorruptValue ''storage_sequence'' ''epoch overflow'') (checked_add current_epoch 1))) (\<lambda>epoch.
           pbind (pfor changed (\<lambda>(vertex_id, previous, after).
                    apply_vertex_metadata_update_txn ops c vertex_id previous after epoch)) (\<lambda>_.
           pbind (pif (previous_edge \<noteq> next_edge)
                    (apply_edge_metadata_update_txn ops
                       \<lparr>mt_cell_id = c, mt_edge_type = t, mt_src = src, mt_dst = dst\<rparr> previous_edge next_edge epoch)
                    (preturn ())) (\<lambda>_.
           pbind (pif (existing \<noteq> None) (preturn ()) (insert_edge_txn ops sh mutation epoch)) (\<lambda>_.
             commit_edge_result ops sh mutation
               \<lparr>cr_epoch = epoch, cr_already_existed = (existing \<noteq> None)\<rparr>))))))))))"

definition write_edge_txn_locked_with_metadata ::
    "'t txn_ops \<Rightarrow> shard_env \<Rightarrow> edge_mutation \<Rightarrow> (vertex_id \<times> vertex_metadata) list \<Rightarrow> edge_metadata \<Rightarrow> string
       \<Rightarrow> ('t shard_state, commit_result) prog" where
  "write_edge_txn_locked_with_metadata ops sh mutation updates edge_metadata operation =
     pbind (plift (db_writer sh)) (\<lambda>_.
     pbind (txn_begin ops) (\<lambda>_.
     pbind (validate_write_fence_txn ops sh (em_cell_id mutation) operation) (\<lambda>_.
       let idem_key = idempotency (em_cell_id mutation) ''create'' (em_idempotency_key mutation) in
       pbind (read_txn_remote ops idem_key) (\<lambda>found.
         case found of
           Some v \<Rightarrow> plift (decode_commit_idempotency idem_key mutation v)
         | None \<Rightarrow> write_edge_body_txn ops sh mutation updates edge_metadata))))"

definition validate_edge_mutation :: "edge_mutation \<Rightarrow> unit result" where
  "validate_edge_mutation mutation =
     rbind (validate_component ''cell_id'' (em_cell_id mutation)) (\<lambda>_.
     rbind (validate_component ''edge_type'' (em_edge_type mutation)) (\<lambda>_.
       validate_component ''idempotency_key'' (em_idempotency_key mutation)))"

definition guarded_write :: "shard_env \<Rightarrow> string \<Rightarrow> string \<Rightarrow> ('s, 'a) prog \<Rightarrow> ('s, 'a) prog" where
  "guarded_write sh cell_id operation m =
     pbind (plift (sh_write_permit sh operation)) (\<lambda>_.
       txn_attempts GRAPH_TXN_MAX_RETRIES
         (pbind (plift (acquire_local_write_guard sh cell_id operation)) (\<lambda>_. m)))"

definition write_edge ::
    "'t txn_ops \<Rightarrow> shard_env \<Rightarrow> edge_mutation \<Rightarrow> ('t shard_state, commit_result) prog" where
  "write_edge ops sh mutation =
     pbind (plift (validate_edge_mutation mutation)) (\<lambda>_.
     pbind (plift (ensure_write_authority sh (em_cell_id mutation) ''write_edge'')) (\<lambda>_.
       guarded_write sh (em_cell_id mutation) ''write_edge''
         (write_edge_txn_locked_with_metadata ops sh mutation [] edge_metadata_default ''write_edge'')))"

definition write_edge_with_vertex_metadata ::
    "'t txn_ops \<Rightarrow> shard_env \<Rightarrow> edge_mutation \<Rightarrow> vertex_metadata \<Rightarrow> vertex_metadata
       \<Rightarrow> ('t shard_state, commit_result) prog" where
  "write_edge_with_vertex_metadata ops sh mutation src_metadata dst_metadata =
     pbind (plift (validate_edge_mutation mutation)) (\<lambda>_.
     pbind (plift (validate_vertex_metadata src_metadata)) (\<lambda>_.
     pbind (plift (validate_vertex_metadata dst_metadata)) (\<lambda>_.
     pbind (plift (ensure_write_authority sh (em_cell_id mutation) ''write_edge_with_vertex_metadata'')) (\<lambda>_.
     pbind (plift (coalesce_vertex_metadata_updates
              [(em_src mutation, src_metadata), (em_dst mutation, dst_metadata)])) (\<lambda>updates.
       guarded_write sh (em_cell_id mutation) ''write_edge_with_vertex_metadata''
         (write_edge_txn_locked_with_metadata ops sh mutation updates edge_metadata_default
            ''write_edge_with_vertex_metadata''))))))"

definition write_edge_with_full_metadata ::
    "'t txn_ops \<Rightarrow> shard_env \<Rightarrow> edge_mutation \<Rightarrow> vertex_metadata \<Rightarrow> vertex_metadata \<Rightarrow> edge_metadata
       \<Rightarrow> ('t shard_state, commit_result) prog" where
  "write_edge_with_full_metadata ops sh mutation src_metadata dst_metadata edge_metadata =
     pbind (plift (validate_edge_mutation mutation)) (\<lambda>_.
     pbind (plift (validate_vertex_metadata src_metadata)) (\<lambda>_.
     pbind (plift (validate_vertex_metadata dst_metadata)) (\<lambda>_.
     pbind (plift (validate_edge_metadata edge_metadata)) (\<lambda>_.
     pbind (plift (ensure_write_authority sh (em_cell_id mutation) ''write_edge_with_full_metadata'')) (\<lambda>_.
     pbind (plift (coalesce_vertex_metadata_updates
              [(em_src mutation, src_metadata), (em_dst mutation, dst_metadata)])) (\<lambda>updates.
       guarded_write sh (em_cell_id mutation) ''write_edge_with_full_metadata''
         (write_edge_txn_locked_with_metadata ops sh mutation updates edge_metadata
            ''write_edge_with_full_metadata'')))))))"

subsection \<open>Deleting an edge\<close>

definition commit_delete_result ::
    "'t txn_ops \<Rightarrow> shard_env \<Rightarrow> edge_mutation \<Rightarrow> delete_result \<Rightarrow> ('t shard_state, delete_result) prog" where
  "commit_delete_result ops sh mutation res =
     pbind (txn_put ops (idempotency (em_cell_id mutation) ''delete'' (em_idempotency_key mutation))
              (encode_delete_idempotency mutation res)) (\<lambda>_.
     pbind (commit_txn_strict ops (sh_await_durable_writes sh)) (\<lambda>_.
       preturn res))"

definition clear_edge_metadata_txn ::
    "'t txn_ops \<Rightarrow> edge_mutation \<Rightarrow> storage_sequence \<Rightarrow> storage_sequence \<Rightarrow> edge_metadata \<Rightarrow> ('t shard_state, unit) prog" where
  "clear_edge_metadata_txn ops mutation read_epoch epoch previous =
     pbind (delete_relationships_for_structural_edge_txn ops mutation read_epoch) (\<lambda>_.
       pif (ed_properties previous \<noteq> [])
         (apply_edge_metadata_update_txn ops
            \<lparr>mt_cell_id = em_cell_id mutation, mt_edge_type = em_edge_type mutation, mt_src = em_src mutation,
             mt_dst = em_dst mutation\<rparr> previous edge_metadata_default epoch)
         (preturn ()))"

definition delete_segment_edge_txn ::
    "'t txn_ops \<Rightarrow> shard_env \<Rightarrow> edge_mutation \<Rightarrow> storage_sequence \<Rightarrow> ('t shard_state, delete_result) prog" where
  "delete_segment_edge_txn ops sh mutation current_epoch =
     (let c = em_cell_id mutation; t = em_edge_type mutation; src = em_src mutation; dst = em_dst mutation in
      pbind (plift (ok_or (CorruptValue ''storage_sequence'' ''epoch overflow'') (checked_add current_epoch 1))) (\<lambda>epoch.
      pbind (mark_topology_change_txn ops c t epoch [(src, dst, False)]) (\<lambda>_.
      pbind (read_counter_txn ops (degree_out c t src)) (\<lambda>out_base.
      pbind (read_edge_metadata_txn ops c t src dst) (\<lambda>previous.
      pbind (clear_edge_metadata_txn ops mutation current_epoch epoch previous) (\<lambda>_.
      pbind (txn_put ops (out_segment_tombstone c t src dst) (encode_u64 epoch)) (\<lambda>_.
      pbind (txn_put ops (degree_out c t src) (encode_u64 (saturating_sub out_base 1))) (\<lambda>_.
        commit_delete_result ops sh mutation \<lparr>dr_epoch = epoch, dr_deleted = True\<rparr>))))))))"

definition delete_absent_edge_txn ::
    "'t txn_ops \<Rightarrow> shard_env \<Rightarrow> edge_mutation \<Rightarrow> ('t shard_state, delete_result) prog" where
  "delete_absent_edge_txn ops sh mutation =
     (let c = em_cell_id mutation; t = em_edge_type mutation; src = em_src mutation; dst = em_dst mutation in
      pbind (txn_seqnum ops) (\<lambda>current_epoch.
      pbind (pif (writes_reverse_index sh) (preturn None)
               (out_segment_edge_record_at ops c t src dst current_epoch)) (\<lambda>segment_edge.
        case segment_edge of
          None \<Rightarrow> commit_delete_result ops sh mutation \<lparr>dr_epoch = current_epoch, dr_deleted = False\<rparr>
        | Some p \<Rightarrow>
            pbind (read_txn_remote ops (out_segment_tombstone c t src dst)) (\<lambda>found.
            pbind (case found of
                     Some v \<Rightarrow> pbind (plift (decode_u64 (out_segment_tombstone c t src dst) v)) (\<lambda>tombstone_epoch.
                       preturn (\<not> segment_edge_visible (fst p) (Some tombstone_epoch)))
                   | None \<Rightarrow> preturn False) (\<lambda>hidden.
              pif hidden
                (commit_delete_result ops sh mutation \<lparr>dr_epoch = current_epoch, dr_deleted = False\<rparr>)
                (delete_segment_edge_txn ops sh mutation current_epoch))))))"

definition delete_direct_edge_txn ::
    "'t txn_ops \<Rightarrow> shard_env \<Rightarrow> edge_mutation \<Rightarrow> ('t shard_state, delete_result) prog" where
  "delete_direct_edge_txn ops sh mutation =
     (let c = em_cell_id mutation; t = em_edge_type mutation; src = em_src mutation; dst = em_dst mutation in
      pbind (next_epoch_txn ops c) (\<lambda>epoch.
      pbind (mark_topology_change_txn ops c t epoch [(src, dst, False)]) (\<lambda>_.
      pbind (read_counter_txn ops (degree_out c t src)) (\<lambda>out_base.
      pbind (pif (writes_reverse_index sh)
               (pbind (read_counter_txn ops (degree_in c t dst)) (\<lambda>base. preturn (Some (saturating_sub base 1))))
               (preturn None)) (\<lambda>in_degree.
      pbind (read_edge_metadata_txn ops c t src dst) (\<lambda>previous.
      pbind (clear_edge_metadata_txn ops mutation (saturating_sub epoch 1) epoch previous) (\<lambda>_.
      pbind (txn_delete ops (edge_key c t src dst)) (\<lambda>_.
      pbind (txn_delete ops (out_edge c t src dst)) (\<lambda>_.
      pbind (txn_delete ops (in_edge c t dst src)) (\<lambda>_.
      pbind (txn_put ops (degree_out c t src) (encode_u64 (saturating_sub out_base 1))) (\<lambda>_.
      pbind (case in_degree of
               Some n \<Rightarrow> txn_put ops (degree_in c t dst) (encode_u64 n)
             | None \<Rightarrow> preturn ()) (\<lambda>_.
        commit_delete_result ops sh mutation \<lparr>dr_epoch = epoch, dr_deleted = True\<rparr>))))))))))))"

definition delete_edge_txn_locked ::
    "'t txn_ops \<Rightarrow> shard_env \<Rightarrow> edge_mutation \<Rightarrow> ('t shard_state, delete_result) prog" where
  "delete_edge_txn_locked ops sh mutation =
     pbind (plift (db_writer sh)) (\<lambda>_.
     pbind (txn_begin ops) (\<lambda>_.
     pbind (validate_write_fence_txn ops sh (em_cell_id mutation) ''delete_edge'') (\<lambda>_.
       let idem_key = idempotency (em_cell_id mutation) ''delete'' (em_idempotency_key mutation);
           key = out_edge (em_cell_id mutation) (em_edge_type mutation) (em_src mutation) (em_dst mutation) in
       pbind (read_txn_remote ops idem_key) (\<lambda>found.
         case found of
           Some v \<Rightarrow> plift (decode_delete_idempotency idem_key mutation v)
         | None \<Rightarrow>
             pbind (read_txn_remote ops key) (\<lambda>existing.
               case existing of
                 None \<Rightarrow> delete_absent_edge_txn ops sh mutation
               | Some v \<Rightarrow> pbind (plift (decode_edge_record key v)) (\<lambda>_.
                   delete_direct_edge_txn ops sh mutation))))))"

definition delete_edge ::
    "'t txn_ops \<Rightarrow> shard_env \<Rightarrow> edge_mutation \<Rightarrow> ('t shard_state, delete_result) prog" where
  "delete_edge ops sh mutation =
     pbind (plift (validate_edge_mutation mutation)) (\<lambda>_.
     pbind (plift (ensure_write_authority sh (em_cell_id mutation) ''delete_edge'')) (\<lambda>_.
       guarded_write sh (em_cell_id mutation) ''delete_edge'' (delete_edge_txn_locked ops sh mutation)))"

subsection \<open>Refinement\<close>

context txn_refines
begin

lemma sim_write_edge_body:
  "sim (write_edge_body_txn ops sh m us e) (write_edge_body_txn map_ops sh m us e)"
  unfolding write_edge_body_txn_def insert_edge_txn_def commit_edge_result_def changed_vertex_metadata_def Let_def
  by (intro sim_write_helpers)

lemma sim_write_edge_locked:
  "sim (write_edge_txn_locked_with_metadata ops sh m us e oper) (write_edge_txn_locked_with_metadata map_ops sh m us e oper)"
  unfolding write_edge_txn_locked_with_metadata_def Let_def by (intro sim_write_helpers sim_write_edge_body)

lemma sim_delete_edge_locked:
  "sim (delete_edge_txn_locked ops sh m) (delete_edge_txn_locked map_ops sh m)"
  unfolding delete_edge_txn_locked_def delete_absent_edge_txn_def delete_segment_edge_txn_def delete_direct_edge_txn_def
    clear_edge_metadata_txn_def commit_delete_result_def Let_def
  by (intro sim_write_helpers)

end

subsection \<open>The abstract effect of a write\<close>

definition counter_at :: "abstract_store \<Rightarrow> graph_key \<Rightarrow> u64" where
  "counter_at a k = counter_of (as_map a k)"

definition insert_as :: "shard_env \<Rightarrow> edge_mutation \<Rightarrow> storage_sequence \<Rightarrow> abstract_store \<Rightarrow> abstract_store" where
  "insert_as sh m e a =
     (let c = em_cell_id m; t = em_edge_type m; x = em_src m; y = em_dst m;
          a1 = put_as (KOutEdge c t x y) edge_record_text (mark_as c t e [(x, y, True)] a);
          a2 = (if writes_reverse_index sh then put_as (KInEdge c t y x) edge_record_text a1 else a1);
          a3 = put_as (KDegreeOut c t x) (encode_u64 (counter_at a (KDegreeOut c t x) + 1)) a2
      in if writes_reverse_index sh
         then put_as (KDegreeIn c t y) (encode_u64 (counter_at a (KDegreeIn c t y) + 1)) a3 else a3)"

lemma mark_as_untouched:
  "k \<noteq> KMatrixDirty c t \<Longrightarrow> k \<noteq> KAdjacencyGeneration c t \<Longrightarrow> k \<noteq> KXlogLowWater c t \<Longrightarrow> k \<noteq> KXlogEntry c t e x y \<Longrightarrow>
     as_map (mark_as c t e [(x, y, b)] a) k = as_map a k"
  by (simp add: mark_as_def mark_dirty_def set_floor_def log_change_def)

lemma mark_as_fields [simp]:
  "as_seq (mark_as c t e [(x, y, b)] a) = as_seq a" "as_durable (mark_as c t e [(x, y, b)] a) = as_durable a"
  "as_dirty (mark_as c t e [(x, y, b)] a)"
  by (simp_all add: mark_as_def mark_dirty_def set_floor_def log_change_def)

lemma wp_insert_edge:
  assumes a: "models is_meta a s" and v: "valid_mutation m"
    and Q: "\<And>s'. models is_meta (insert_as sh m e a) s' \<Longrightarrow> Q () s'"
  shows "wp (insert_edge_txn map_ops sh m e) Q s"
proof -
  let ?c = "em_cell_id m" and ?t = "em_edge_type m" and ?x = "em_src m" and ?y = "em_dst m"
  have v': "valid_component ?c" "valid_component ?t" using v by (simp_all add: valid_mutation_def)
  note keys = valid_edge_keys[OF v']
  let ?a0 = "mark_as ?c ?t e [(?x, ?y, True)] a"
  let ?a1 = "put_as (KOutEdge ?c ?t ?x ?y) edge_record_text ?a0"
  let ?a2 = "if writes_reverse_index sh then put_as (KInEdge ?c ?t ?y ?x) edge_record_text ?a1 else ?a1"
  let ?o = "KDegreeOut ?c ?t ?x" and ?i = "KDegreeIn ?c ?t ?y"
  let ?a3 = "put_as ?o (encode_u64 (counter_at a ?o + 1)) ?a2"
  have cnt: "counter_of (as_map ?a0 ?o) = counter_at a ?o" "counter_of (as_map ?a0 ?i) = counter_at a ?i"
    by (simp_all add: counter_at_def mark_as_untouched)
  have last: "wp (case if writes_reverse_index sh then Some (counter_at a ?i + 1) else None of
        Some n \<Rightarrow> txn_put map_ops (degree_in ?c ?t ?y) (encode_u64 n) | None \<Rightarrow> preturn ()) Q s'"
    if "models is_meta ?a3 s'" for s'
  proof (cases "writes_reverse_index sh")
    case True
    then show ?thesis
      using that Q by (auto intro!: wp_put_plain[where k = ?i, unfolded render.simps, OF that] simp: keys insert_as_def Let_def)
  next
    case False
    then show ?thesis using that Q by (auto intro!: wp_preturn simp: insert_as_def Let_def)
  qed
  have inner: "wp (pbind (txn_put map_ops (out_edge ?c ?t ?x ?y) edge_record_text) (\<lambda>_.
      pbind (pif (writes_reverse_index sh) (txn_put map_ops (in_edge ?c ?t ?y ?x) edge_record_text) (preturn ())) (\<lambda>_.
      pbind (txn_put map_ops (degree_out ?c ?t ?x) (encode_u64 (counter_at a ?o + 1))) (\<lambda>_.
        case if writes_reverse_index sh then Some (counter_at a ?i + 1) else None of
          Some n \<Rightarrow> txn_put map_ops (degree_in ?c ?t ?y) (encode_u64 n) | None \<Rightarrow> preturn ())))) Q s'"
    if a0: "models is_meta ?a0 s'" for s'
  proof (rule wp_pbind, rule wp_put_plain[where k = "KOutEdge ?c ?t ?x ?y", unfolded render.simps, OF a0], simp, simp add: keys, simp,
      rule wp_pbind)
    fix s'' assume a1: "models is_meta ?a1 s''"
    have "wp (pif (writes_reverse_index sh) (txn_put map_ops (in_edge ?c ?t ?y ?x) edge_record_text) (preturn ()))
        (\<lambda>_. models is_meta ?a2) s''"
      by (rule wp_pif, rule wp_put_plain[where k = "KInEdge ?c ?t ?y ?x", unfolded render.simps, OF a1])
        (use a1 in \<open>simp_all add: keys wp_preturn\<close>)
    then show "wp (pif (writes_reverse_index sh) (txn_put map_ops (in_edge ?c ?t ?y ?x) edge_record_text) (preturn ()))
       (\<lambda>_. wp (pbind (txn_put map_ops (degree_out ?c ?t ?x) (encode_u64 (counter_at a ?o + 1))) (\<lambda>_.
        case if writes_reverse_index sh then Some (counter_at a ?i + 1) else None of
          Some n \<Rightarrow> txn_put map_ops (degree_in ?c ?t ?y) (encode_u64 n) | None \<Rightarrow> preturn ())) Q) s''"
      by (rule wp_mono) (rule wp_pbind, rule wp_put_plain[where k = ?o, unfolded render.simps], assumption,
          simp, simp add: keys, simp, erule last)
  qed
  show ?thesis
    unfolding insert_edge_txn_def Let_def encode_edge_record_def
  proof (rule wp_pbind, rule wp_mark_topology[OF a v'], rule wp_pbind)
    fix s' assume a0: "models is_meta ?a0 s'"
    have cin: "wp (pif (writes_reverse_index sh)
           (pbind (read_counter_txn map_ops (degree_in ?c ?t ?y)) (\<lambda>base. preturn (Some (base + 1)))) (preturn None))
         (\<lambda>r s''. s'' = s' \<and> r = (if writes_reverse_index sh then Some (counter_at a ?i + 1) else None)) s'"
      by (rule wp_pif, rule wp_pbind, rule wp_counter[where k = ?i, unfolded render.simps, OF a0])
        (simp_all add: keys cnt wp_preturn)
    show "wp (read_counter_txn map_ops (degree_out ?c ?t ?x)) (\<lambda>out_base. wp (pbind (pif (writes_reverse_index sh)
           (pbind (read_counter_txn map_ops (degree_in ?c ?t ?y)) (\<lambda>base. preturn (Some (base + 1)))) (preturn None)) (\<lambda>in_degree.
        pbind (txn_put map_ops (out_edge ?c ?t ?x ?y) edge_record_text) (\<lambda>_.
        pbind (pif (writes_reverse_index sh) (txn_put map_ops (in_edge ?c ?t ?y ?x) edge_record_text) (preturn ())) (\<lambda>_.
        pbind (txn_put map_ops (degree_out ?c ?t ?x) (encode_u64 (out_base + 1))) (\<lambda>_.
          case in_degree of Some n \<Rightarrow> txn_put map_ops (degree_in ?c ?t ?y) (encode_u64 n) | None \<Rightarrow> preturn ()))))) Q) s'"
      by (rule wp_counter[where k = ?o, unfolded render.simps, OF a0]; (simp add: keys)?)
        (unfold cnt, rule wp_pbind, rule wp_mono[OF cin], elim conjE, hypsubst, rule inner[OF a0])
  qed
qed

subsection \<open>Visibility on abstract maps\<close>

definition segment_in :: "(graph_key \<Rightarrow> bytes option) \<Rightarrow> string \<Rightarrow> string \<Rightarrow> vertex_id \<Rightarrow> storage_sequence \<Rightarrow> vertex_id
    \<Rightarrow> storage_sequence \<Rightarrow> bool" where
  "segment_in f c t x r y q \<longleftrightarrow> q \<le> r
     \<and> (\<exists>g ds. valid_component g \<and> f (KOutSegment c t x q g) = Some (encode_out_edge_segment_records ds) \<and> y \<in> set ds)
     \<and> (\<forall>e. f (KOutTombstone c t x y) = Some (encode_u64 e) \<and> e \<le> r \<longrightarrow> e < q)"

definition visible_in :: "(graph_key \<Rightarrow> bytes option) \<Rightarrow> string \<Rightarrow> string \<Rightarrow> vertex_id \<Rightarrow> storage_sequence \<Rightarrow> vertex_id \<Rightarrow> bool" where
  "visible_in f c t x r y \<longleftrightarrow> f (KOutEdge c t x y) \<noteq> None \<or> (\<exists>q. segment_in f c t x r y q)"

lemma edge_visible_in: "edge_visible D c t x r y \<longleftrightarrow> visible_in (kview D) c t x r y"
  by (simp add: edge_visible_def visible_in_def segment_visible_def segment_in_def)

lemma segment_visible_in: "segment_visible D c t x r y q \<longleftrightarrow> segment_in (kview D) c t x r y q"
  by (simp add: segment_visible_def segment_in_def)

text \<open>Visibility reads the keys of three families of one cell and type only.\<close>

lemma visible_in_cong:
  assumes "valid_component c" "valid_component t" "\<And>k. valid_key k \<Longrightarrow> \<not> is_meta k \<Longrightarrow> f k = g k"
  shows "visible_in f c t x r y \<longleftrightarrow> visible_in g c t x r y" "segment_in f c t x r y q \<longleftrightarrow> segment_in g c t x r y q"
proof -
  have *: "f (KOutEdge c t x y) = g (KOutEdge c t x y)" "f (KOutTombstone c t x y) = g (KOutTombstone c t x y)"
    "valid_component h \<Longrightarrow> f (KOutSegment c t x q h) = g (KOutSegment c t x q h)" for q h
    using assms by (auto intro!: assms(3))
  then show seg: "segment_in f c t x r y q \<longleftrightarrow> segment_in g c t x r y q" for q
    unfolding segment_in_def *(2) using *(3) by (metis (no_types, lifting))
  show "visible_in f c t x r y \<longleftrightarrow> visible_in g c t x r y" by (simp add: visible_in_def *(1) seg)
qed

lemma models_visible:
  assumes "models is_meta a s" "valid_component c" "valid_component t"
  shows "edge_visible (mt_view (ss_txn s)) c t x r y \<longleftrightarrow> visible_in (as_map a) c t x r y"
  unfolding edge_visible_in
  by (rule visible_in_cong[OF assms(2,3)]) (use models_view[OF assms(1)] in blast)

lemma u64_le_add_one: "a \<noteq> - 1 \<Longrightarrow> x \<le> a \<Longrightarrow> x \<le> (a + 1 :: u64)"
  using checked_add_1_less[OF checked_add_one[of a]] by auto

subsection \<open>The transaction of a write\<close>

lemma wp_edge_epoch:
  assumes "models is_meta a s" "valid_component c" "valid_component t"
    and "\<And>e. (e = None \<longleftrightarrow> \<not> visible_in (as_map a) c t x r y) \<Longrightarrow> (\<And>q. e = Some q \<Longrightarrow> q \<le> r) \<Longrightarrow> Q e s"
  shows "wp (edge_epoch_at_txn map_ops c t x y r) Q s"
  using edge_epoch_exact[OF models_wf[OF assms(1)] assms(2,3), of x y r] models_visible[OF assms(1-3), of x r y] assms(4)
  by (auto simp: wp_def)

lemma wp_pfold:
  assumes "\<And>x acc s. x \<in> set xs \<Longrightarrow> I acc s \<Longrightarrow> wp (f x acc) I s" and "I acc s" and "\<And>r s'. I r s' \<Longrightarrow> Q r s'"
  shows "wp (pfold xs f acc) Q s"
  using assms
proof (induction xs arbitrary: acc s)
  case (Cons x xs)
  have "wp (f x acc) I s" by (rule Cons.prems) (simp_all add: Cons.prems)
  then have "wp (f x acc) (\<lambda>r. wp (pfold xs f r) Q) s" by (rule wp_mono) (rule Cons.IH, use Cons.prems in auto)
  then show ?case by (auto intro: wp_pbind)
qed (auto intro: wp_preturn)

definition wf_updates :: "(vertex_id \<times> vertex_metadata) list \<Rightarrow> bool" where
  "wf_updates us \<longleftrightarrow> (\<forall>u \<in> set us. wf_vertex_metadata (snd u))"

lemma wp_changed_metadata:
  assumes "models is_meta a s" "valid_component c" "wf_updates us"
    and "\<And>ch. (\<forall>(v, p, n) \<in> set ch. wf_vertex_metadata p \<and> wf_vertex_metadata n) \<Longrightarrow> Q ch s"
  shows "wp (changed_vertex_metadata map_ops c us) Q s"
  unfolding changed_vertex_metadata_def
proof (rule wp_pfold[where I = "\<lambda>ch s'. s' = s \<and> (\<forall>(v, p, n) \<in> set ch. wf_vertex_metadata p \<and> wf_vertex_metadata n)"])
  fix u :: "vertex_id \<times> vertex_metadata" and ch :: "(vertex_id \<times> vertex_metadata \<times> vertex_metadata) list" and s'
  assume u: "u \<in> set us" and I: "s' = s \<and> (\<forall>(v, p, n) \<in> set ch. wf_vertex_metadata p \<and> wf_vertex_metadata n)"
  obtain v n where uv: "u = (v, n)" by (cases u)
  then have "wf_vertex_metadata n" using assms(3) u by (auto simp: wf_updates_def)
  then show "wp (case u of (vertex_id, requested) \<Rightarrow> pbind (read_vertex_metadata_txn map_ops c vertex_id) (\<lambda>previous.
         let after = merge_vertex_metadata previous requested
         in preturn (if previous \<noteq> after then ch @ [(vertex_id, previous, after)] else ch)))
       (\<lambda>ch s'. s' = s \<and> (\<forall>(v, p, n) \<in> set ch. wf_vertex_metadata p \<and> wf_vertex_metadata n)) s'"
    using I unfolding uv prod.case Let_def
    by (intro wp_pbind wp_read_vertex_metadata[of a]) (auto intro!: wp_preturn simp: assms)
qed (use assms in auto)

definition idem_create :: "edge_mutation \<Rightarrow> graph_key" where
  "idem_create m = KIdempotency (em_cell_id m) ''create'' (em_idempotency_key m)"

definition idem_delete :: "edge_mutation \<Rightarrow> graph_key" where
  "idem_delete m = KIdempotency (em_cell_id m) ''delete'' (em_idempotency_key m)"

lemma idem_keys:
  "valid_mutation m \<Longrightarrow> valid_key (idem_create m)" "valid_mutation m \<Longrightarrow> valid_key (idem_delete m)"
  "\<not> is_meta (idem_create m)" "\<not> is_meta (idem_delete m)" "wf_record (idem_create m) w" "wf_record (idem_delete m) w"
  "render (idem_create m) = idempotency (em_cell_id m) ''create'' (em_idempotency_key m)"
  "render (idem_delete m) = idempotency (em_cell_id m) ''delete'' (em_idempotency_key m)"
  by (auto simp: idem_create_def idem_delete_def valid_mutation_def intro!: valid_keys family_components)

lemma wp_commit_edge_result:
  assumes "models is_meta a s" "valid_mutation m" "as_seq a \<noteq> - 1"
    and "\<And>s'. committed is_meta (put_as (idem_create m) (encode_commit_idempotency m res) a) s' \<Longrightarrow> Q res s'"
  shows "wp (commit_edge_result map_ops sh m res) Q s"
  unfolding commit_edge_result_def
  by (rule wp_pbind, rule wp_put_plain[of a s "idem_create m", unfolded idem_keys(7), OF assms(1) idem_keys(3) idem_keys(1)[OF assms(2)] idem_keys(5)],
      rule wp_pbind, erule wp_commit) (auto intro!: wp_preturn simp: assms)

lemma wp_write_body:
  assumes a: "models is_meta a s" and v: "valid_mutation m" and q: "as_seq a \<noteq> - 1"
    and us: "wf_updates us" and em: "wf_edge_metadata em"
    and vis: "vis \<longleftrightarrow> visible_in (as_map a) (em_cell_id m) (em_edge_type m) (em_src m) (as_seq a) (em_dst m)"
    and Q: "\<And>res s'. committed is_meta (put_as (idem_create m) (encode_commit_idempotency m res)
          (if vis then a else insert_as sh m (as_seq a + 1) a)) s' \<Longrightarrow>
        cr_already_existed res = vis \<Longrightarrow> (\<not> vis \<Longrightarrow> cr_epoch res = as_seq a + 1) \<Longrightarrow> cr_epoch res \<le> as_seq a + 1 \<Longrightarrow> Q res s'"
  shows "wp (write_edge_body_txn map_ops sh m us em) Q s"
proof -
  let ?c = "em_cell_id m" and ?t = "em_edge_type m" and ?x = "em_src m" and ?y = "em_dst m" and ?q = "as_seq a"
  have v': "valid_component ?c" "valid_component ?t" using v by (simp_all add: valid_mutation_def)
  have insert: "wp (pif (e \<noteq> None) (preturn ()) (insert_edge_txn map_ops sh m (?q + 1)))
      (\<lambda>_. models is_meta (if vis then a else insert_as sh m (?q + 1) a)) s'"
    if "models is_meta a s'" "e = None \<longleftrightarrow> \<not> vis" for e :: "storage_sequence option" and s'
    by (rule wp_pif) (use that in \<open>auto intro!: wp_preturn wp_insert_edge[OF _ v]\<close>)
  show ?thesis
    unfolding write_edge_body_txn_def Let_def
  proof (rule wp_pbind, rule wp_seqnum[OF a], rule wp_pbind, rule wp_edge_epoch[OF a v'], rule wp_pbind,
      rule wp_changed_metadata[OF a v'(1) us], rule wp_pbind, rule wp_read_edge_metadata[OF a v'], rule wp_pif)
    fix e :: "storage_sequence option" and ch :: "(vertex_id \<times> vertex_metadata \<times> vertex_metadata) list" and pe :: edge_metadata
    assume e: "(e = None) = (\<not> visible_in (as_map a) ?c ?t ?x ?q ?y)" "\<And>r. e = Some r \<Longrightarrow> r \<le> ?q"
      and ch: "\<forall>(v, p, n) \<in> set ch. wf_vertex_metadata p \<and> wf_vertex_metadata n" and pe: "wf_edge_metadata pe"
    {
      assume "e \<noteq> None \<and> ch = [] \<and> pe = merge_edge_metadata pe em"
      then obtain r where "e = Some r" "vis" "r \<le> ?q + 1" using e vis u64_le_add_one[OF q] by auto
      then show "wp (commit_edge_result map_ops sh m \<lparr>cr_epoch = (case e of Some existing_epoch \<Rightarrow> existing_epoch | None \<Rightarrow> ?q), cr_already_existed = True\<rparr>) Q s"
        by (intro wp_commit_edge_result[OF a v q] Q) auto
    }
    have seq: "as_seq (if vis then a else insert_as sh m (?q + 1) a) = ?q"
      by (simp add: insert_as_def Let_def)
    have fin: "wp (commit_edge_result map_ops sh m \<lparr>cr_epoch = ?q + 1, cr_already_existed = (e \<noteq> None)\<rparr>) Q s'"
      if "models is_meta (if vis then a else insert_as sh m (?q + 1) a) s'" for s'
      by (rule wp_commit_edge_result[OF that v], unfold seq, rule q, erule Q) (use e vis in auto)
    have ev: "e = None \<longleftrightarrow> \<not> vis" using e(1) vis by blast
    let ?g = "\<lparr>mt_cell_id = ?c, mt_edge_type = ?t, mt_src = ?x, mt_dst = ?y\<rparr>"
    have em': "wf_edge_metadata (merge_edge_metadata pe em)" using pe em by simp
    show "wp (pbind (plift (ok_or (CorruptValue ''storage_sequence'' ''epoch overflow'') (checked_add ?q 1))) (\<lambda>epoch.
        pbind (pfor ch (\<lambda>(vertex_id, previous, after). apply_vertex_metadata_update_txn map_ops ?c vertex_id previous after epoch)) (\<lambda>_.
        pbind (pif (pe \<noteq> merge_edge_metadata pe em)
            (apply_edge_metadata_update_txn map_ops ?g pe (merge_edge_metadata pe em) epoch) (preturn ())) (\<lambda>_.
        pbind (pif (e \<noteq> None) (preturn ()) (insert_edge_txn map_ops sh m epoch)) (\<lambda>_.
          commit_edge_result map_ops sh m \<lparr>cr_epoch = epoch, cr_already_existed = (e \<noteq> None)\<rparr>))))) Q s"
    proof (rule wp_pbind, rule wp_plift[of _ "?q + 1"], simp add: checked_add_one[OF q], rule wp_pbind, rule wp_for_meta[OF a])
      fix s' assume s': "models is_meta a s'"
      have meta: "wp (pif (pe \<noteq> merge_edge_metadata pe em)
            (apply_edge_metadata_update_txn map_ops ?g pe (merge_edge_metadata pe em) (?q + 1)) (preturn ())) (\<lambda>_. models is_meta a) s'"
        by (rule wp_pif, rule wp_apply_edge[OF s']) (use v' pe em' s' in \<open>auto intro: wp_preturn\<close>)
      have rest: "wp (pbind (pif (e \<noteq> None) (preturn ()) (insert_edge_txn map_ops sh m (?q + 1))) (\<lambda>_.
          commit_edge_result map_ops sh m \<lparr>cr_epoch = ?q + 1, cr_already_existed = (e \<noteq> None)\<rparr>)) Q s''"
        if "models is_meta a s''" for s''
        by (rule wp_pbind, rule wp_mono[OF insert[OF that ev]], erule fin)
      show "wp (pbind (pif (pe \<noteq> merge_edge_metadata pe em)
            (apply_edge_metadata_update_txn map_ops ?g pe (merge_edge_metadata pe em) (?q + 1)) (preturn ())) (\<lambda>_.
        pbind (pif (e \<noteq> None) (preturn ()) (insert_edge_txn map_ops sh m (?q + 1))) (\<lambda>_.
          commit_edge_result map_ops sh m \<lparr>cr_epoch = ?q + 1, cr_already_existed = (e \<noteq> None)\<rparr>))) Q s'"
        by (rule wp_pbind, rule wp_mono[OF meta], erule rest)
    next
      fix p s' assume p: "p \<in> set ch" and s': "models is_meta a s'"
      then show "wp (case p of (vertex_id, previous, after) \<Rightarrow>
          apply_vertex_metadata_update_txn map_ops ?c vertex_id previous after (?q + 1)) (\<lambda>_. models is_meta a) s'"
        using ch by (cases p) (auto intro!: wp_apply_vertex[OF s' v'(1)])
    qed
  qed
qed

text \<open>A cell that accepts writes: no drop marker, and the shard holds the writer.\<close>

definition accepts :: "shard_env \<Rightarrow> string \<Rightarrow> map_txn shard_state \<Rightarrow> bool" where
  "accepts sh c s \<longleftrightarrow> writable sh \<and> wf_store (mt_durable (ss_txn s)) \<and> mt_seq (ss_txn s) \<noteq> - 1
     \<and> kview (mt_durable (ss_txn s)) (KCellDropMarker c) = None
     \<and> kview (mt_durable (ss_txn s)) (KCellDropPending c) = None"

lemma wp_open:
  assumes "accepts sh c s" "valid_component c" "\<And>s'. models is_meta (opened s) s' \<Longrightarrow> wp m Q s'"
  shows "wp (pbind (plift (db_writer sh)) (\<lambda>_. pbind (txn_begin map_ops) (\<lambda>_.
    pbind (validate_write_fence_txn map_ops sh c oper) (\<lambda>_. m)))) Q s"
proof -
  have a: "writable sh" "wf_store (mt_durable (ss_txn s))" "as_map (opened s) (KCellDropMarker c) = None"
    "as_map (opened s) (KCellDropPending c) = None" using assms(1) by (simp_all add: accepts_def)
  show ?thesis
  proof (rule wp_pbind, rule wp_plift[of _ "()"])
    show "db_writer sh = Inr ()" using a(1) by (simp add: db_writer_def writable_def)
    show "wp (pbind (txn_begin map_ops) (\<lambda>_. pbind (validate_write_fence_txn map_ops sh c oper) (\<lambda>_. m))) Q s"
      by (rule wp_pbind, rule wp_begin[OF a(2)], rule wp_pbind,
          rule wp_fence[OF _ assms(2) a(1) _ a(3,4)], assumption, erule assms(3))
  qed
qed

lemma wp_write_locked:
  assumes "accepts sh (em_cell_id m) s" "valid_mutation m" "wf_updates us" "wf_edge_metadata em"
    and "kview (mt_durable (ss_txn s)) (idem_create m) = None"
    and vis: "vis \<longleftrightarrow> edge_visible (mt_durable (ss_txn s)) (em_cell_id m) (em_edge_type m) (em_src m) (mt_seq (ss_txn s)) (em_dst m)"
    and Q: "\<And>res s'. committed is_meta (put_as (idem_create m) (encode_commit_idempotency m res)
          (if vis then opened s else insert_as sh m (mt_seq (ss_txn s) + 1) (opened s))) s' \<Longrightarrow>
        cr_already_existed res = vis \<Longrightarrow> (\<not> vis \<Longrightarrow> cr_epoch res = mt_seq (ss_txn s) + 1) \<Longrightarrow>
        cr_epoch res \<le> mt_seq (ss_txn s) + 1 \<Longrightarrow> Q res s'"
  shows "wp (write_edge_txn_locked_with_metadata map_ops sh m us em oper) Q s"
  unfolding write_edge_txn_locked_with_metadata_def Let_def
proof (rule wp_open[OF assms(1)])
  show "valid_component (em_cell_id m)" using assms(2) by (simp add: valid_mutation_def)
  fix s' assume a: "models is_meta (opened s) s'"
  have q: "as_seq (opened s) \<noteq> - 1" using assms(1) by (simp add: accepts_def)
  have none: "as_map (opened s) (idem_create m) = None" using assms(5) by simp
  have vis': "vis \<longleftrightarrow> visible_in (as_map (opened s)) (em_cell_id m) (em_edge_type m) (em_src m) (as_seq (opened s)) (em_dst m)"
    unfolding vis edge_visible_in by simp
  show "wp (pbind (read_txn_remote map_ops (idempotency (em_cell_id m) ''create'' (em_idempotency_key m))) (\<lambda>found.
      case found of Some v \<Rightarrow> plift (decode_commit_idempotency (idempotency (em_cell_id m) ''create'' (em_idempotency_key m)) m v)
      | None \<Rightarrow> write_edge_body_txn map_ops sh m us em)) Q s'"
    by (rule wp_pbind, rule wp_read[of is_meta "opened s" s' "idem_create m", unfolded idem_keys(7), OF a idem_keys(1)[OF assms(2)] idem_keys(3)],
        unfold none option.case, rule wp_write_body[OF a assms(2) q assms(3,4) vis', unfolded opened_simps(3)], rule Q)
qed

text \<open>A repeated request returns the stored result and commits nothing.\<close>

lemma wp_write_replay:
  assumes "accepts sh (em_cell_id m) s" "valid_mutation m"
    and "kview (mt_durable (ss_txn s)) (idem_create m) = Some (encode_commit_idempotency m res)"
    and Q: "\<And>s'. models is_meta (opened s) s' \<Longrightarrow> Q res s'"
  shows "wp (write_edge_txn_locked_with_metadata map_ops sh m us em oper) Q s"
  unfolding write_edge_txn_locked_with_metadata_def Let_def
proof (rule wp_open[OF assms(1)])
  show "valid_component (em_cell_id m)" using assms(2) by (simp add: valid_mutation_def)
  fix s' assume a: "models is_meta (opened s) s'"
  have some: "as_map (opened s) (idem_create m) = Some (encode_commit_idempotency m res)" using assms(3) by simp
  have dec: "decode_commit_idempotency key m (encode_commit_idempotency m res) = Inr res" for key
    using decode_commit_record[OF assms(2), of key m res] by (simp add: same_edge_def)
  show "wp (pbind (read_txn_remote map_ops (idempotency (em_cell_id m) ''create'' (em_idempotency_key m))) (\<lambda>found.
      case found of Some v \<Rightarrow> plift (decode_commit_idempotency (idempotency (em_cell_id m) ''create'' (em_idempotency_key m)) m v)
      | None \<Rightarrow> write_edge_body_txn map_ops sh m us em)) Q s'"
    by (rule wp_pbind, rule wp_read[of is_meta "opened s" s' "idem_create m", unfolded idem_keys(7), OF a idem_keys(1)[OF assms(2)] idem_keys(3)],
        unfold some option.case, rule wp_plift[OF dec], rule Q[OF a])
qed

end
