(* ===== verification/Delete_Edge.thy ===== *)
theory Delete_Edge
  imports Write_Edge
begin

text \<open>
  The effect of \<^verbatim>\<open>delete_edge\<close> on the reference store: a direct record is removed together with its mirror
  and its metadata, an edge that only a segment holds gets a tombstone, and in both cases the change is
  logged and the degree counters go down.
\<close>

definition delete_direct_as :: "shard_env \<Rightarrow> edge_mutation \<Rightarrow> storage_sequence \<Rightarrow> abstract_store \<Rightarrow> abstract_store" where
  "delete_direct_as sh m e a =
     (let c = em_cell_id m; t = em_edge_type m; x = em_src m; y = em_dst m;
          a1 = delete_as (KInEdge c t y x) (delete_as (KOutEdge c t x y) (delete_as (KEdge c t x y)
                 (mark_as c t e [(x, y, False)] a)));
          a2 = put_as (KDegreeOut c t x) (encode_u64 (saturating_sub (counter_at a (KDegreeOut c t x)) 1)) a1
      in if writes_reverse_index sh
         then put_as (KDegreeIn c t y) (encode_u64 (saturating_sub (counter_at a (KDegreeIn c t y)) 1)) a2 else a2)"

definition delete_segment_as :: "edge_mutation \<Rightarrow> storage_sequence \<Rightarrow> abstract_store \<Rightarrow> abstract_store" where
  "delete_segment_as m e a =
     (let c = em_cell_id m; t = em_edge_type m; x = em_src m; y = em_dst m
      in put_as (KDegreeOut c t x) (encode_u64 (saturating_sub (counter_at a (KDegreeOut c t x)) 1))
           (put_as (KOutTombstone c t x y) (encode_u64 e) (mark_as c t e [(x, y, False)] a)))"

lemma delete_as_fields [simp]:
  "as_seq (delete_direct_as sh m e a) = as_seq a" "as_seq (delete_segment_as m e a) = as_seq a"
  "as_dirty (delete_direct_as sh m e a)" "as_dirty (delete_segment_as m e a)"
  by (simp_all add: delete_direct_as_def delete_segment_as_def Let_def)

lemma wp_commit_delete_result:
  assumes "models is_meta a s" "valid_mutation m" "as_seq a \<noteq> - 1"
    and "\<And>s'. committed is_meta (put_as (idem_delete m) (encode_delete_idempotency m res) a) s' \<Longrightarrow> Q res s'"
  shows "wp (commit_delete_result map_ops sh m res) Q s"
  unfolding commit_delete_result_def
  by (rule wp_pbind, rule wp_put_plain[of a s "idem_delete m", unfolded idem_keys(8), OF assms(1) idem_keys(4) idem_keys(2)[OF assms(2)] idem_keys(6)],
      rule wp_pbind, erule wp_commit) (auto intro!: wp_preturn simp: assms)

lemma wp_clear_metadata:
  assumes "models is_meta a s" "valid_mutation m" "wf_edge_metadata p" "\<And>s'. models is_meta a s' \<Longrightarrow> Q () s'"
  shows "wp (clear_edge_metadata_txn map_ops m r e p) Q s"
proof -
  have v: "valid_component (em_cell_id m)" "valid_component (em_edge_type m)" using assms(2) by (simp_all add: valid_mutation_def)
  show ?thesis
    unfolding clear_edge_metadata_txn_def
    by (rule wp_pbind, rule wp_delete_relationships[OF assms(1) v], rule wp_pif, rule wp_apply_edge, assumption)
      (auto intro: assms(4) wp_preturn simp: v assms(3))
qed

lemma wp_delete_segment:
  assumes a: "models is_meta a s" and v: "valid_mutation m" and q: "as_seq a \<noteq> - 1"
    and Q: "\<And>s'. committed is_meta (put_as (idem_delete m) (encode_delete_idempotency m \<lparr>dr_epoch = as_seq a + 1, dr_deleted = True\<rparr>)
        (delete_segment_as m (as_seq a + 1) a)) s' \<Longrightarrow> Q \<lparr>dr_epoch = as_seq a + 1, dr_deleted = True\<rparr> s'"
  shows "wp (delete_segment_edge_txn map_ops sh m (as_seq a)) Q s"
proof -
  let ?c = "em_cell_id m" and ?t = "em_edge_type m" and ?x = "em_src m" and ?y = "em_dst m" and ?e = "as_seq a + 1"
  have v': "valid_component ?c" "valid_component ?t" using v by (simp_all add: valid_mutation_def)
  note keys = valid_edge_keys[OF v']
  let ?o = "KDegreeOut ?c ?t ?x" and ?T = "KOutTombstone ?c ?t ?x ?y"
  let ?a0 = "mark_as ?c ?t ?e [(?x, ?y, False)] a"
  have cnt: "counter_of (as_map ?a0 ?o) = counter_at a ?o" by (simp add: counter_at_def mark_as_untouched)
  show ?thesis
    unfolding delete_segment_edge_txn_def Let_def
  proof (rule wp_pbind, rule wp_plift[of _ ?e], simp add: checked_add_one[OF q], rule wp_pbind,
      rule wp_mark_topology[OF a v'], rule wp_pbind, rule wp_counter[where k = ?o, unfolded render.simps], assumption,
      simp add: keys, simp, simp, unfold cnt, rule wp_pbind, rule wp_read_edge_metadata[OF _ v'], assumption,
      rule wp_pbind, rule wp_clear_metadata[OF _ v], assumption, assumption, rule wp_pbind,
      rule wp_put_plain[where k = ?T, unfolded render.simps], assumption, simp, simp add: keys, simp, rule wp_pbind,
      rule wp_put_plain[where k = ?o, unfolded render.simps], assumption, simp, simp add: keys, simp)
    fix s1 s2 s3 s4 p
    assume "models is_meta (put_as ?o (encode_u64 (saturating_sub (counter_at a ?o) 1)) (put_as ?T (encode_u64 ?e) ?a0)) s4"
    then have "models is_meta (delete_segment_as m ?e a) s4" by (simp add: delete_segment_as_def Let_def)
    from wp_commit_delete_result[OF this v, of "\<lparr>dr_epoch = ?e, dr_deleted = True\<rparr>"]
    show "wp (commit_delete_result map_ops sh m \<lparr>dr_epoch = ?e, dr_deleted = True\<rparr>) Q s4"
      using q Q by simp
  qed
qed

lemma wp_delete_direct:
  assumes a: "models is_meta a s" and v: "valid_mutation m" and q: "as_seq a \<noteq> - 1"
    and Q: "\<And>s'. committed is_meta (put_as (idem_delete m) (encode_delete_idempotency m \<lparr>dr_epoch = as_seq a + 1, dr_deleted = True\<rparr>)
        (delete_direct_as sh m (as_seq a + 1) a)) s' \<Longrightarrow> Q \<lparr>dr_epoch = as_seq a + 1, dr_deleted = True\<rparr> s'"
  shows "wp (delete_direct_edge_txn map_ops sh m) Q s"
proof -
  let ?c = "em_cell_id m" and ?t = "em_edge_type m" and ?x = "em_src m" and ?y = "em_dst m" and ?e = "as_seq a + 1"
  have v': "valid_component ?c" "valid_component ?t" using v by (simp_all add: valid_mutation_def)
  note keys = valid_edge_keys[OF v']
  let ?o = "KDegreeOut ?c ?t ?x" and ?i = "KDegreeIn ?c ?t ?y"
  let ?a0 = "mark_as ?c ?t ?e [(?x, ?y, False)] a"
  let ?a1 = "delete_as (KInEdge ?c ?t ?y ?x) (delete_as (KOutEdge ?c ?t ?x ?y) (delete_as (KEdge ?c ?t ?x ?y) ?a0))"
  let ?a2 = "put_as ?o (encode_u64 (saturating_sub (counter_at a ?o) 1)) ?a1"
  let ?in = "if writes_reverse_index sh then Some (saturating_sub (counter_at a ?i) 1) else None"
  have cnt: "counter_of (as_map ?a0 ?o) = counter_at a ?o" "counter_of (as_map ?a0 ?i) = counter_at a ?i"
    by (simp_all add: counter_at_def mark_as_untouched)
  have in_step: "wp (pif (writes_reverse_index sh)
        (pbind (read_counter_txn map_ops (degree_in ?c ?t ?y)) (\<lambda>base. preturn (Some (saturating_sub base 1)))) (preturn None))
      (\<lambda>r s'. s' = s0 \<and> r = ?in) s0" if "models is_meta ?a0 s0" for s0
    by (rule wp_pif, rule wp_pbind, rule wp_counter[where k = ?i, unfolded render.simps, OF that])
      (simp_all add: keys cnt wp_preturn)
  have last: "wp (pbind (case ?in of Some n \<Rightarrow> txn_put map_ops (degree_in ?c ?t ?y) (encode_u64 n) | None \<Rightarrow> preturn ()) (\<lambda>_.
      commit_delete_result map_ops sh m \<lparr>dr_epoch = ?e, dr_deleted = True\<rparr>)) Q s'" if a2: "models is_meta ?a2 s'" for s'
  proof (rule wp_pbind)
    have "wp (case ?in of Some n \<Rightarrow> txn_put map_ops (degree_in ?c ?t ?y) (encode_u64 n) | None \<Rightarrow> preturn ())
        (\<lambda>_. models is_meta (delete_direct_as sh m ?e a)) s'"
    proof (cases "writes_reverse_index sh")
      case True
      then show ?thesis
        by (auto intro!: wp_put_plain[where k = ?i, unfolded render.simps, OF a2] simp: keys delete_direct_as_def Let_def)
    next
      case False
      then show ?thesis using a2 by (auto intro!: wp_preturn simp: delete_direct_as_def Let_def)
    qed
    then show "wp (case ?in of Some n \<Rightarrow> txn_put map_ops (degree_in ?c ?t ?y) (encode_u64 n) | None \<Rightarrow> preturn ())
        (\<lambda>_. wp (commit_delete_result map_ops sh m \<lparr>dr_epoch = ?e, dr_deleted = True\<rparr>) Q) s'"
      by (rule wp_mono) (erule wp_commit_delete_result[OF _ v], simp add: q, erule Q)
  qed
  have rest: "wp (pbind (read_edge_metadata_txn map_ops ?c ?t ?x ?y) (\<lambda>previous.
      pbind (clear_edge_metadata_txn map_ops m (saturating_sub ?e 1) ?e previous) (\<lambda>_.
      pbind (txn_delete map_ops (edge_key ?c ?t ?x ?y)) (\<lambda>_.
      pbind (txn_delete map_ops (out_edge ?c ?t ?x ?y)) (\<lambda>_.
      pbind (txn_delete map_ops (in_edge ?c ?t ?y ?x)) (\<lambda>_.
      pbind (txn_put map_ops (degree_out ?c ?t ?x) (encode_u64 (saturating_sub (counter_at a ?o) 1))) (\<lambda>_.
      pbind (case ?in of Some n \<Rightarrow> txn_put map_ops (degree_in ?c ?t ?y) (encode_u64 n) | None \<Rightarrow> preturn ()) (\<lambda>_.
        commit_delete_result map_ops sh m \<lparr>dr_epoch = ?e, dr_deleted = True\<rparr>))))))))  Q s0" if a0: "models is_meta ?a0 s0" for s0
    by (rule wp_pbind, rule wp_read_edge_metadata[OF a0 v'], rule wp_pbind, rule wp_clear_metadata[OF a0 v], assumption,
        rule wp_pbind, rule wp_delete_plain[where k = "KEdge ?c ?t ?x ?y", unfolded render.simps], assumption, simp, simp add: keys,
        rule wp_pbind, rule wp_delete_plain[where k = "KOutEdge ?c ?t ?x ?y", unfolded render.simps], assumption, simp, simp add: keys,
        rule wp_pbind, rule wp_delete_plain[where k = "KInEdge ?c ?t ?y ?x", unfolded render.simps], assumption, simp, simp add: keys,
        rule wp_pbind, rule wp_put_plain[where k = ?o, unfolded render.simps], assumption, simp, simp add: keys, simp, erule last)
  show ?thesis
    unfolding delete_direct_edge_txn_def Let_def
    by (rule wp_pbind, rule wp_next_epoch[OF a q], rule wp_pbind, rule wp_mark_topology[OF a v'], rule wp_pbind,
        rule wp_counter[where k = ?o, unfolded render.simps], assumption, simp add: keys, simp, simp, unfold cnt, rule wp_pbind,
        rule wp_mono[OF in_step], assumption, elim conjE, hypsubst, erule rest)
qed

text \<open>What a delete does: \<open>None\<close> when the edge was not there.\<close>

definition delete_effect :: "shard_env \<Rightarrow> edge_mutation \<Rightarrow> abstract_store \<Rightarrow> abstract_store option" where
  "delete_effect sh m a =
     (let c = em_cell_id m; t = em_edge_type m; x = em_src m; y = em_dst m
      in if as_map a (KOutEdge c t x y) \<noteq> None then Some (delete_direct_as sh m (as_seq a + 1) a)
         else if \<not> writes_reverse_index sh \<and> (\<exists>q. segment_in (as_map a) c t x (as_seq a) y q)
         then Some (delete_segment_as m (as_seq a + 1) a)
         else None)"

definition delete_outcome :: "shard_env \<Rightarrow> edge_mutation \<Rightarrow> abstract_store \<Rightarrow> delete_result" where
  "delete_outcome sh m a =
     (case delete_effect sh m a of
        None \<Rightarrow> \<lparr>dr_epoch = as_seq a, dr_deleted = False\<rparr>
      | Some _ \<Rightarrow> \<lparr>dr_epoch = as_seq a + 1, dr_deleted = True\<rparr>)"

definition after_delete :: "shard_env \<Rightarrow> edge_mutation \<Rightarrow> abstract_store \<Rightarrow> abstract_store" where
  "after_delete sh m a =
     put_as (idem_delete m) (encode_delete_idempotency m (delete_outcome sh m a))
       (case delete_effect sh m a of None \<Rightarrow> a | Some b \<Rightarrow> b)"

definition bounded_tombstone :: "abstract_store \<Rightarrow> edge_mutation \<Rightarrow> bool" where
  "bounded_tombstone a m \<longleftrightarrow> (\<forall>e. as_map a (KOutTombstone (em_cell_id m) (em_edge_type m) (em_src m) (em_dst m))
      = Some (encode_u64 e) \<longrightarrow> e \<le> as_seq a)"

lemma wp_delete_absent:
  assumes a: "models is_meta a s" and v: "valid_mutation m" and q: "as_seq a \<noteq> - 1"
    and D: "wf_store (as_durable a)" "as_map a = kview (as_durable a)" and b: "bounded_tombstone a m"
    and none: "as_map a (KOutEdge (em_cell_id m) (em_edge_type m) (em_src m) (em_dst m)) = None"
    and Q: "\<And>s'. committed is_meta (after_delete sh m a) s' \<Longrightarrow> Q (delete_outcome sh m a) s'"
  shows "wp (delete_absent_edge_txn map_ops sh m) Q s"
proof -
  let ?c = "em_cell_id m" and ?t = "em_edge_type m" and ?x = "em_src m" and ?y = "em_dst m" and ?q = "as_seq a"
  have v': "valid_component ?c" "valid_component ?t" using v by (simp_all add: valid_mutation_def)
  let ?T = "KOutTombstone ?c ?t ?x ?y"
  have dur: "mt_durable (ss_txn s) = as_durable a" by (rule models_eqs(1)[OF a])
  have seg_read: "wp (pif (writes_reverse_index sh) (preturn None) (out_segment_edge_record_at map_ops ?c ?t ?x ?y ?q))
      (\<lambda>res s'. s' = s \<and> (res = None \<longleftrightarrow> delete_effect sh m a = None)
         \<and> (\<forall>r e. res = Some (r, e) \<longrightarrow> segment_in (as_map a) ?c ?t ?x ?q ?y r)) s"
  proof (rule wp_pif)
    assume "writes_reverse_index sh"
    then show "wp (preturn None) (\<lambda>res s'. s' = s \<and> (res = None \<longleftrightarrow> delete_effect sh m a = None)
         \<and> (\<forall>r e. res = Some (r, e) \<longrightarrow> segment_in (as_map a) ?c ?t ?x ?q ?y r)) s"
      using none by (simp add: wp_preturn delete_effect_def Let_def)
  next
    assume r: "\<not> writes_reverse_index sh"
    show "wp (out_segment_edge_record_at map_ops ?c ?t ?x ?y ?q) (\<lambda>res s'. s' = s \<and> (res = None \<longleftrightarrow> delete_effect sh m a = None)
         \<and> (\<forall>r e. res = Some (r, e) \<longrightarrow> segment_in (as_map a) ?c ?t ?x ?q ?y r)) s"
      by (rule wp_segment_record[OF _ v']) (use D dur r none in \<open>auto simp: segment_visible_in delete_effect_def Let_def\<close>)
  qed
  have no: "wp (commit_delete_result map_ops sh m \<lparr>dr_epoch = ?q, dr_deleted = False\<rparr>) Q s" if "delete_effect sh m a = None"
    by (rule wp_commit_delete_result[OF a v q]) (use Q that in \<open>simp add: after_delete_def delete_outcome_def\<close>)
  have yes: "wp (pbind (read_txn_remote map_ops (out_segment_tombstone ?c ?t ?x ?y)) (\<lambda>found.
      pbind (case found of
               Some v \<Rightarrow> pbind (plift (decode_u64 (out_segment_tombstone ?c ?t ?x ?y) v)) (\<lambda>tombstone_epoch.
                 preturn (\<not> segment_edge_visible (fst p) (Some tombstone_epoch)))
             | None \<Rightarrow> preturn False) (\<lambda>hidden.
        pif hidden (commit_delete_result map_ops sh m \<lparr>dr_epoch = ?q, dr_deleted = False\<rparr>)
          (delete_segment_edge_txn map_ops sh m ?q)))) Q s"
    if p: "segment_in (as_map a) ?c ?t ?x ?q ?y (fst p)" and eff: "delete_effect sh m a \<noteq> None" for p :: "storage_sequence \<times> edge_record"
  proof (rule wp_pbind, rule wp_read[where k = ?T, unfolded render.simps, OF a], simp add: v', simp, rule wp_pbind)
    have seg: "delete_effect sh m a = Some (delete_segment_as m (?q + 1) a)"
      using eff none by (auto simp: delete_effect_def Let_def split: if_splits)
    have go: "wp (pif False (commit_delete_result map_ops sh m \<lparr>dr_epoch = ?q, dr_deleted = False\<rparr>)
          (delete_segment_edge_txn map_ops sh m ?q)) Q s"
      by (rule wp_pif, simp, rule wp_delete_segment[OF a v q])
        (use Q seg in \<open>simp add: after_delete_def delete_outcome_def\<close>)
    show "wp (case as_map a ?T of
               Some v \<Rightarrow> pbind (plift (decode_u64 (out_segment_tombstone ?c ?t ?x ?y) v)) (\<lambda>tombstone_epoch.
                 preturn (\<not> segment_edge_visible (fst p) (Some tombstone_epoch)))
             | None \<Rightarrow> preturn False) (\<lambda>hidden. wp (
        pif hidden (commit_delete_result map_ops sh m \<lparr>dr_epoch = ?q, dr_deleted = False\<rparr>)
          (delete_segment_edge_txn map_ops sh m ?q)) Q) s"
    proof (cases "as_map a ?T")
      case None
      then show ?thesis using go by (simp add: wp_preturn)
    next
      case (Some w)
      then obtain e where e: "w = encode_u64 e"
        using wf_store_record[OF D(1), of ?T w] D(2) v' by auto
      then have "e \<le> ?q" "e < fst p" using b Some p by (auto simp: bounded_tombstone_def segment_in_def)
      then have "segment_edge_visible (fst p) (Some e)" by (simp add: segment_edge_visible_def)
      then show ?thesis using go Some e by (auto intro!: wp_pbind wp_plift wp_preturn)
    qed
  qed
  show ?thesis
    unfolding delete_absent_edge_txn_def Let_def
  proof (rule wp_pbind, rule wp_seqnum[OF a], rule wp_pbind, rule wp_mono[OF seg_read], elim conjE, hypsubst)
    fix res :: "(storage_sequence \<times> edge_record) option"
    assume r: "(res = None) = (delete_effect sh m a = None)"
      "\<forall>r e. res = Some (r, e) \<longrightarrow> segment_in (as_map a) ?c ?t ?x ?q ?y r"
    show "wp (case res of None \<Rightarrow> commit_delete_result map_ops sh m \<lparr>dr_epoch = ?q, dr_deleted = False\<rparr>
      | Some p \<Rightarrow> pbind (read_txn_remote map_ops (out_segment_tombstone ?c ?t ?x ?y)) (\<lambda>found.
          pbind (case found of
               None \<Rightarrow> preturn False
             | Some v \<Rightarrow> pbind (plift (decode_u64 (out_segment_tombstone ?c ?t ?x ?y) v)) (\<lambda>tombstone_epoch.
                 preturn (\<not> segment_edge_visible (fst p) (Some tombstone_epoch)))) (\<lambda>hidden.
        pif hidden (commit_delete_result map_ops sh m \<lparr>dr_epoch = ?q, dr_deleted = False\<rparr>)
          (delete_segment_edge_txn map_ops sh m ?q)))) Q s"
    proof (cases res)
      case None
      then show ?thesis using no r(1) by simp
    next
      case (Some p)
      then have "segment_in (as_map a) ?c ?t ?x ?q ?y (fst p)" "delete_effect sh m a \<noteq> None"
        using r by (metis prod.collapse, simp)
      then show ?thesis unfolding Some option.case by (rule yes)
    qed
  qed
qed

lemma wp_delete_locked:
  assumes acc: "accepts sh (em_cell_id m) s" and v: "valid_mutation m"
    and fresh: "kview (mt_durable (ss_txn s)) (idem_delete m) = None" and b: "bounded_tombstone (opened s) m"
    and Q: "\<And>s'. committed is_meta (after_delete sh m (opened s)) s' \<Longrightarrow> Q (delete_outcome sh m (opened s)) s'"
  shows "wp (delete_edge_txn_locked map_ops sh m) Q s"
  unfolding delete_edge_txn_locked_def Let_def
proof (rule wp_open[OF acc])
  let ?c = "em_cell_id m" and ?t = "em_edge_type m" and ?x = "em_src m" and ?y = "em_dst m"
  let ?k = "KOutEdge ?c ?t ?x ?y" and ?ik = "idempotency ?c ''delete'' (em_idempotency_key m)"
  have v': "valid_component ?c" "valid_component ?t" using v by (simp_all add: valid_mutation_def)
  then show "valid_component ?c" by simp
  have q: "as_seq (opened s) \<noteq> - 1" and wf: "wf_store (mt_durable (ss_txn s))" using acc by (simp_all add: accepts_def)
  fix s' assume a: "models is_meta (opened s) s'"
  have none: "as_map (opened s) (idem_delete m) = None" using fresh by simp
  have body: "wp (pbind (read_txn_remote map_ops (out_edge ?c ?t ?x ?y)) (\<lambda>existing. case existing of
        None \<Rightarrow> delete_absent_edge_txn map_ops sh m
      | Some v \<Rightarrow> pbind (plift (decode_edge_record (out_edge ?c ?t ?x ?y) v)) (\<lambda>_. delete_direct_edge_txn map_ops sh m))) Q s'"
  proof (rule wp_pbind, rule wp_read[where k = ?k, unfolded render.simps, OF a], simp add: v', simp)
    show "wp (case as_map (opened s) ?k of None \<Rightarrow> delete_absent_edge_txn map_ops sh m
      | Some v \<Rightarrow> pbind (plift (decode_edge_record (out_edge ?c ?t ?x ?y) v)) (\<lambda>_. delete_direct_edge_txn map_ops sh m)) Q s'"
    proof (cases "as_map (opened s) ?k")
      case None
      show ?thesis
        unfolding None option.case
        by (rule wp_delete_absent[OF a v q _ _ b None]) (simp add: wf, simp, rule Q)
    next
      case (Some w)
      have w: "w = edge_record_text" using wf_store_record[OF wf, of ?k w] Some v' by simp
      have eff: "delete_effect sh m (opened s) = Some (delete_direct_as sh m (as_seq (opened s) + 1) (opened s))"
        using Some by (simp add: delete_effect_def Let_def)
      have direct: "wp (delete_direct_edge_txn map_ops sh m) Q s'"
        by (rule wp_delete_direct[OF a v q]) (use Q eff in \<open>simp add: after_delete_def delete_outcome_def\<close>)
      show ?thesis
        unfolding Some option.case w
        by (rule wp_pbind, rule wp_plift[OF decode_edge_key[OF v', of ?x ?y, unfolded render.simps]], rule direct)
    qed
  qed
  show "wp (pbind (read_txn_remote map_ops ?ik) (\<lambda>found. case found of
        None \<Rightarrow> pbind (read_txn_remote map_ops (out_edge ?c ?t ?x ?y)) (\<lambda>existing. case existing of
            None \<Rightarrow> delete_absent_edge_txn map_ops sh m
          | Some v \<Rightarrow> pbind (plift (decode_edge_record (out_edge ?c ?t ?x ?y) v)) (\<lambda>_. delete_direct_edge_txn map_ops sh m))
      | Some v \<Rightarrow> plift (decode_delete_idempotency ?ik m v))) Q s'"
    by (rule wp_pbind, rule wp_read[of is_meta "opened s" s' "idem_delete m", unfolded idem_keys(8), OF a idem_keys(2)[OF v] idem_keys(4)],
        unfold none option.case, rule body)
qed

lemma wp_delete_replay:
  assumes "accepts sh (em_cell_id m) s" "valid_mutation m"
    and "kview (mt_durable (ss_txn s)) (idem_delete m) = Some (encode_delete_idempotency m res)"
    and Q: "\<And>s'. models is_meta (opened s) s' \<Longrightarrow> Q res s'"
  shows "wp (delete_edge_txn_locked map_ops sh m) Q s"
  unfolding delete_edge_txn_locked_def Let_def
proof (rule wp_open[OF assms(1)])
  show "valid_component (em_cell_id m)" using assms(2) by (simp add: valid_mutation_def)
  fix s' assume a: "models is_meta (opened s) s'"
  let ?ik = "idempotency (em_cell_id m) ''delete'' (em_idempotency_key m)"
  let ?oe = "out_edge (em_cell_id m) (em_edge_type m) (em_src m) (em_dst m)"
  have some: "as_map (opened s) (idem_delete m) = Some (encode_delete_idempotency m res)" using assms(3) by simp
  have dec: "decode_delete_idempotency key m (encode_delete_idempotency m res) = Inr res" for key
    using decode_delete_record[OF assms(2), of key m res] by (simp add: same_edge_def)
  show "wp (pbind (read_txn_remote map_ops ?ik) (\<lambda>found. case found of
        None \<Rightarrow> pbind (read_txn_remote map_ops ?oe) (\<lambda>existing. case existing of
            None \<Rightarrow> delete_absent_edge_txn map_ops sh m
          | Some v \<Rightarrow> pbind (plift (decode_edge_record ?oe v)) (\<lambda>_. delete_direct_edge_txn map_ops sh m))
      | Some v \<Rightarrow> plift (decode_delete_idempotency ?ik m v))) Q s'"
    by (rule wp_pbind, rule wp_read[of is_meta "opened s" s' "idem_delete m", unfolded idem_keys(8), OF a idem_keys(2)[OF assms(2)] idem_keys(4)],
        unfold some option.case, rule wp_plift[OF dec], rule Q[OF a])
qed

end
