(* ===== verification/Txn_Faults.thy ===== *)
theory Txn_Faults
  imports Delete_Edge
begin

text \<open>
  Operations that fail. The locale \<open>txn_faults\<close> adds to \<open>txn_refines\<close> what an error leaves behind: every
  operation but the commit leaves the committed records alone, and a commit that reports an error has
  either done nothing or everything, since the error may be about the acknowledgement. The write and
  delete transactions then change the committed records all at once or not at all, and the retry loop
  repeats them safely. The laws hold of the reference store and of \<open>flaky_ops\<close>, a store that fails
  by script, which is how a lost acknowledgement and a conflict are run.
\<close>

abbreviation db :: "map_txn shard_state \<Rightarrow> (bytes, bytes) btmap" where
  "db s \<equiv> mt_durable (ss_txn s)"

abbreviation seq :: "map_txn shard_state \<Rightarrow> storage_sequence" where
  "seq s \<equiv> mt_seq (ss_txn s)"

definition same_store :: "map_txn \<Rightarrow> map_txn \<Rightarrow> bool" where
  "same_store t t' \<longleftrightarrow> mt_durable t' = mt_durable t \<and> mt_seq t' = mt_seq t"

abbreviation unchanged :: "map_txn shard_state \<Rightarrow> map_txn shard_state \<Rightarrow> bool" where
  "unchanged s s' \<equiv> same_store (ss_txn s) (ss_txn s')"

lemma same_store_refl [simp]: "same_store t t"
  by (simp add: same_store_def)

lemma same_store_sym: "same_store s t \<Longrightarrow> same_store t s"
  by (simp add: same_store_def)

lemma same_store_trans: "same_store r s \<Longrightarrow> same_store s t \<Longrightarrow> same_store r t"
  by (simp add: same_store_def)

lemma map_ops_quiet:
  "begin_op map_ops a = (Inr u, a') \<Longrightarrow> same_store a a'" "mark_read_op map_ops ks a = (Inr u, a') \<Longrightarrow> same_store a a'"
  "get_op map_ops k a = (Inr f, a') \<Longrightarrow> same_store a a'" "scan_prefix_op map_ops p a = (Inr kvs, a') \<Longrightarrow> same_store a a'"
  "put_op map_ops k v a = (Inr u, a') \<Longrightarrow> same_store a a'" "delete_op map_ops k a = (Inr u, a') \<Longrightarrow> same_store a a'"
  "db_get_op map_ops k a = (Inr f, a') \<Longrightarrow> same_store a a'" "db_scan_op map_ops p lo hi a = (Inr kvs, a') \<Longrightarrow> same_store a a'"
  "db_seq_op map_ops a = (Inr q, a') \<Longrightarrow> same_store a a'"
  by (auto simp: same_store_def)

named_theorems quiet_rules \<open>programs that do not commit\<close>

locale txn_faults = txn_refines ops abs for ops :: "'t txn_ops" and abs :: "'t \<Rightarrow> map_txn" +
  assumes begin_fault: "begin_op ops t = (Inl e, t') \<Longrightarrow> same_store (abs t) (abs t')"
    and mark_read_fault: "mark_read_op ops ks t = (Inl e, t') \<Longrightarrow> same_store (abs t) (abs t')"
    and get_fault: "get_op ops k t = (Inl e, t') \<Longrightarrow> same_store (abs t) (abs t')"
    and scan_fault: "scan_prefix_op ops p t = (Inl e, t') \<Longrightarrow> same_store (abs t) (abs t')"
    and put_fault: "put_op ops k v t = (Inl e, t') \<Longrightarrow> same_store (abs t) (abs t')"
    and delete_fault: "delete_op ops k t = (Inl e, t') \<Longrightarrow> same_store (abs t) (abs t')"
    and commit_fault: "commit_op ops d q t = (Inl e, t') \<Longrightarrow>
      same_store (abs t) (abs t') \<or> same_store (snd (commit_op map_ops d q (abs t))) (abs t')"
    and db_get_fault: "db_get_op ops k t = (Inl e, t') \<Longrightarrow> same_store (abs t) (abs t')"
    and db_scan_fault: "db_scan_op ops p lo hi t = (Inl e, t') \<Longrightarrow> same_store (abs t) (abs t')"
    and db_seq_fault: "db_seq_op ops t = (Inl e, t') \<Longrightarrow> same_store (abs t) (abs t')"
begin

definition quiet :: "('t shard_state, 'a) prog \<Rightarrow> bool" where
  "quiet m \<longleftrightarrow> (\<forall>s r s'. m s = (r, s') \<longrightarrow> same_store (abs (ss_txn s)) (abs (ss_txn s')))"

lemma quietD: "quiet m \<Longrightarrow> m s = (r, s') \<Longrightarrow> same_store (abs (ss_txn s)) (abs (ss_txn s'))"
  by (simp add: quiet_def)

lemma quiet_preturn [quiet_rules]: "quiet (preturn x)" "quiet (pfail e)" "quiet (plift r)"
  by (simp_all add: quiet_def preturn_def pfail_def plift_def)

lemma quiet_pbind [quiet_rules]:
  assumes "quiet m" "\<And>x. quiet (f x)"
  shows "quiet (pbind m f)"
  unfolding quiet_def
proof (intro allI impI)
  fix s r s'' assume run: "pbind m f s = (r, s'')"
  obtain x s' where m: "m s = (x, s')" by fastforce
  note q = quietD[OF assms(1) m]
  show "same_store (abs (ss_txn s)) (abs (ss_txn s''))"
  proof (cases x)
    case (Inr y)
    then have "f y s' = (r, s'')" using run m by (simp add: pbind_def)
    from same_store_trans[OF q quietD[OF assms(2) this]] show ?thesis .
  qed (use run m q in \<open>simp add: pbind_def\<close>)
qed

lemma quiet_pif [quiet_rules]: "quiet m \<Longrightarrow> quiet n \<Longrightarrow> quiet (pif b m n)"
  by (simp add: pif_def)

lemma quiet_case_option [quiet_rules]: "quiet m \<Longrightarrow> (\<And>x. quiet (f x)) \<Longrightarrow> quiet (case_option m f v)"
  by (cases v) simp_all

lemma quiet_case_prod [quiet_rules]: "(\<And>x y. quiet (f x y)) \<Longrightarrow> quiet (case_prod f p)"
  by (cases p) simp

lemma quiet_pfor [quiet_rules]: "(\<And>x. quiet (f x)) \<Longrightarrow> quiet (pfor xs f)"
  by (induction xs) (auto intro: quiet_rules)

lemma quiet_pfold [quiet_rules]: "(\<And>x a. quiet (f x a)) \<Longrightarrow> quiet (pfold xs f a)"
  by (induction xs arbitrary: a) (auto intro: quiet_rules)

text \<open>An operation is quiet when its successful runs are and its errors leave the store alone.\<close>

lemma quiet_on_txn:
  assumes "\<And>t x t'. m t = (Inr x, t') \<Longrightarrow> same_store (abs t) (abs t')"
    and "\<And>t e t'. m t = (Inl e, t') \<Longrightarrow> same_store (abs t) (abs t')"
  shows "quiet (on_txn m)"
  unfolding quiet_def
proof (intro allI impI)
  fix s r s' assume run: "on_txn m s = (r, s')"
  obtain x t' where x: "m (ss_txn s) = (x, t')" by fastforce
  then have "same_store (abs (ss_txn s)) (abs t')" using assms by (cases x) auto
  then show "same_store (abs (ss_txn s)) (abs (ss_txn s'))" using run x by (auto simp: on_txn_def)
qed

lemma quiet_ops [quiet_rules]:
  "quiet (txn_begin ops)" "quiet (txn_put ops k v)" "quiet (txn_delete ops k)" "quiet (txn_scan_prefix ops p)" "quiet (read_remote ops k)"
  "quiet (db_scan ops p lo hi)" "quiet (db_seq ops)" "quiet (on_txn (mark_read_op ops ks))" "quiet (on_txn (get_op ops k))"
  unfolding txn_begin_def txn_put_def txn_delete_def txn_scan_prefix_def read_remote_def db_scan_def db_seq_def
proof -
  show "quiet (on_txn (begin_op ops))" by (rule quiet_on_txn, erule map_ops_quiet(1)[OF begin_refines], erule begin_fault)
  show "quiet (on_txn (put_op ops k v))" by (rule quiet_on_txn, erule map_ops_quiet(5)[OF put_refines], erule put_fault)
  show "quiet (on_txn (delete_op ops k))" by (rule quiet_on_txn, erule map_ops_quiet(6)[OF delete_refines], erule delete_fault)
  show "quiet (on_txn (scan_prefix_op ops p))" by (rule quiet_on_txn, erule map_ops_quiet(4)[OF scan_refines], erule scan_fault)
  show "quiet (on_txn (db_get_op ops k))" by (rule quiet_on_txn, erule map_ops_quiet(7)[OF db_get_refines], erule db_get_fault)
  show "quiet (on_txn (db_scan_op ops p lo hi))" by (rule quiet_on_txn, erule map_ops_quiet(8)[OF db_scan_refines], erule db_scan_fault)
  show "quiet (on_txn (db_seq_op ops))" by (rule quiet_on_txn, erule map_ops_quiet(9)[OF db_seq_refines], erule db_seq_fault)
  show "quiet (on_txn (mark_read_op ops ks))" by (rule quiet_on_txn, erule map_ops_quiet(2)[OF mark_read_refines], erule mark_read_fault)
  show "quiet (on_txn (get_op ops k))" by (rule quiet_on_txn, erule map_ops_quiet(3)[OF get_refines], erule get_fault)
qed

lemma quiet_seqnum [quiet_rules]: "quiet (txn_seqnum ops)"
  by (simp add: quiet_def txn_seqnum_def)

lemma quiet_reads [quiet_rules]: "quiet (read_txn_remote ops k)" "quiet (scan_remote_prefix ops p)"
  unfolding read_txn_remote_def scan_remote_prefix_def by (intro quiet_rules)+

lemma quiet_helpers [quiet_rules]:
  "quiet (read_counter_txn ops k)" "quiet (next_epoch_txn ops c)" "quiet (edge_epoch_at_txn ops c t x y r)"
  "quiet (validate_write_fence_txn ops sh c oper)" "quiet (read_vertex_metadata_txn ops c v)"
  "quiet (read_edge_metadata_txn ops c t x y)" "quiet (out_segment_edge_record_at ops c t x y r)"
  unfolding read_counter_txn_def next_epoch_txn_def edge_epoch_at_txn_def out_segment_edges_for_src_txn_def Let_def
    validate_write_fence_txn_def read_vertex_metadata_txn_def read_edge_metadata_txn_def out_segment_edge_record_at_def
    out_segment_tombstone_epoch_at_def scan_out_segments_for_src_at_def
  by (intro quiet_rules)+

lemma quiet_metadata [quiet_rules]:
  "quiet (apply_vertex_metadata_update_txn ops c v m n e)" "quiet (apply_edge_metadata_update_txn ops g p p' e)"
  "quiet (delete_relationships_for_structural_edge_txn ops mut e)"
  unfolding apply_vertex_metadata_update_txn_def put_vertex_metadata_indexes_txn_def delete_vertex_metadata_indexes_txn_def
    apply_edge_metadata_update_txn_def put_edge_metadata_indexes_txn_def delete_edge_metadata_indexes_txn_def
    delete_relationships_for_structural_edge_txn_def live_relationships_for_edge_txn_def
    delete_relationship_property_indexes_txn_def Let_def
  by (intro quiet_rules)+

lemma quiet_floor [quiet_rules]: "quiet (floor_ensured token)" "quiet (ensure_floor token)"
  by (simp_all add: quiet_def floor_ensured_def ensure_floor_def)

lemma quiet_topology [quiet_rules]:
  "quiet (mark_topology_change_txn ops c t e xs)" "quiet (insert_edge_txn ops sh m e)"
  "quiet (changed_vertex_metadata ops c us)" "quiet (clear_edge_metadata_txn ops m r e p)"
  unfolding mark_topology_change_txn_def insert_edge_txn_def changed_vertex_metadata_def clear_edge_metadata_txn_def Let_def
  by (intro quiet_rules)+

text \<open>Success is that of the reference run; an error leaves the store as it was, or as the reference run
  leaves it.\<close>

definition outcome_sim :: "('t shard_state, 'a) prog \<Rightarrow> (map_txn shard_state, 'a) prog \<Rightarrow> bool" where
  "outcome_sim m n \<longleftrightarrow> sim m n \<and> (\<forall>s e s'. m s = (Inl e, s') \<longrightarrow> unchanged (abs_state s) (abs_state s')
     \<or> (\<exists>x s2. n (abs_state s) = (Inr x, s2) \<and> unchanged s2 (abs_state s')))"

lemma ss_txn_abs_state [simp]: "ss_txn (abs_state s) = abs (ss_txn s)"
  by (simp add: abs_state_def)

lemma outcome_quiet: "sim m n \<Longrightarrow> quiet m \<Longrightarrow> outcome_sim m n"
  by (auto simp: outcome_sim_def dest: quietD)

lemma outcome_return: "outcome_sim (preturn x) (preturn x)" "outcome_sim (pfail e) (pfail e)" "outcome_sim (plift r) (plift r)"
  by (intro outcome_quiet sim_rules quiet_rules)+

lemma outcome_pbind:
  assumes "sim m n" "quiet m" "\<And>x. outcome_sim (f x) (g x)"
  shows "outcome_sim (pbind m f) (pbind n g)"
  unfolding outcome_sim_def
proof (intro conjI allI impI)
  show "sim (pbind m f) (pbind n g)" using assms(1,3) by (auto intro: sim_pbind simp: outcome_sim_def)
  fix s e s' assume run: "pbind m f s = (Inl e, s')"
  obtain x s1 where m: "m s = (x, s1)" by fastforce
  note q = quietD[OF assms(2) m]
  show "unchanged (abs_state s) (abs_state s') \<or> (\<exists>x s2. pbind n g (abs_state s) = (Inr x, s2) \<and> unchanged s2 (abs_state s'))"
  proof (cases x)
    case (Inl e')
    then show ?thesis using run m q by (simp add: pbind_def)
  next
    case (Inr y)
    then have f: "f y s1 = (Inl e, s')" using run m by (simp add: pbind_def)
    have n: "pbind n g (abs_state s) = g y (abs_state s1)" using simD[OF assms(1)] m Inr by (simp add: pbind_def)
    from f assms(3)[of y] have "unchanged (abs_state s1) (abs_state s') \<or> (\<exists>x s2. g y (abs_state s1) = (Inr x, s2) \<and> unchanged s2 (abs_state s'))"
      unfolding outcome_sim_def by blast
    then show ?thesis unfolding n using same_store_trans[OF q] by auto
  qed
qed

lemma outcome_last:
  assumes "outcome_sim m n"
  shows "outcome_sim (pbind m (\<lambda>x. preturn (h x))) (pbind n (\<lambda>x. preturn (h x)))"
  unfolding outcome_sim_def
proof (intro conjI allI impI)
  show "sim (pbind m (\<lambda>x. preturn (h x))) (pbind n (\<lambda>x. preturn (h x)))"
    using assms by (auto intro: sim_pbind sim_preturn simp: outcome_sim_def)
  fix s e s' assume "pbind m (\<lambda>x. preturn (h x)) s = (Inl e, s')"
  then have "m s = (Inl e, s')" by (auto simp: pbind_def preturn_def split: prod.splits sum.splits)
  then show "unchanged (abs_state s) (abs_state s')
      \<or> (\<exists>x s2. pbind n (\<lambda>x. preturn (h x)) (abs_state s) = (Inr x, s2) \<and> unchanged s2 (abs_state s'))"
    using assms unfolding outcome_sim_def by (fastforce simp: pbind_def preturn_def)
qed

lemma outcome_pif: "outcome_sim m n \<Longrightarrow> outcome_sim m' n' \<Longrightarrow> outcome_sim (pif b m m') (pif b n n')"
  by (simp add: pif_def)

lemma outcome_case_option:
  "outcome_sim m n \<Longrightarrow> (\<And>x. outcome_sim (f x) (g x)) \<Longrightarrow> outcome_sim (case_option m f v) (case_option n g v)"
  by (cases v) simp_all

lemma outcome_commit_op: "outcome_sim (on_txn (commit_op ops d q)) (on_txn (commit_op map_ops d q))"
  unfolding outcome_sim_def
proof (intro conjI allI impI)
  fix s e s' assume "on_txn (commit_op ops d q) s = (Inl e, s')"
  then obtain t' where t: "commit_op ops d q (ss_txn s) = (Inl e, t')" "s' = s\<lparr>ss_txn := t'\<rparr>"
    by (auto simp: on_txn_def split: prod.splits)
  obtain h a where h: "commit_op map_ops d q (abs (ss_txn s)) = (Inr h, a)"
    by (cases "mt_dirty (abs (ss_txn s))") simp_all
  then have "on_txn (commit_op map_ops d q) (abs_state s) = (Inr h, (abs_state s)\<lparr>ss_txn := a\<rparr>)"
    by (simp only: on_txn_def ss_txn_abs_state prod.case)
  then show "unchanged (abs_state s) (abs_state s') \<or>
      (\<exists>x s2. on_txn (commit_op map_ops d q) (abs_state s) = (Inr x, s2) \<and> unchanged s2 (abs_state s'))"
    using commit_fault[OF t(1)] unfolding h t(2) by auto
qed (rule sim_commit_op)

lemma outcome_commit: "outcome_sim (commit_txn_strict ops d) (commit_txn_strict map_ops d)"
  unfolding commit_txn_strict_def commit_txn_strict_with_sequence_def
  by (intro outcome_last outcome_pbind outcome_commit_op sim_rules quiet_rules)

lemma outcome_results:
  "outcome_sim (commit_edge_result ops sh m r) (commit_edge_result map_ops sh m r)"
  "outcome_sim (commit_delete_result ops sh m d) (commit_delete_result map_ops sh m d)"
  unfolding commit_edge_result_def commit_delete_result_def
  by (intro outcome_pbind outcome_last outcome_commit sim_rules quiet_rules)+

lemma sim_edge_steps:
  "sim (insert_edge_txn ops sh m e) (insert_edge_txn map_ops sh m e)"
  "sim (changed_vertex_metadata ops c us) (changed_vertex_metadata map_ops c us)"
  "sim (clear_edge_metadata_txn ops m r e p) (clear_edge_metadata_txn map_ops m r e p)"
  unfolding insert_edge_txn_def changed_vertex_metadata_def clear_edge_metadata_txn_def Let_def
  by (intro sim_write_helpers)+

lemma outcome_write:
  "outcome_sim (write_edge_txn_locked_with_metadata ops sh m us e oper) (write_edge_txn_locked_with_metadata map_ops sh m us e oper)"
  unfolding write_edge_txn_locked_with_metadata_def write_edge_body_txn_def Let_def
  by (intro outcome_pbind outcome_pif outcome_case_option outcome_results outcome_return quiet_rules sim_edge_steps sim_write_helpers)

lemma outcome_delete: "outcome_sim (delete_edge_txn_locked ops sh m) (delete_edge_txn_locked map_ops sh m)"
  unfolding delete_edge_txn_locked_def delete_absent_edge_txn_def delete_segment_edge_txn_def delete_direct_edge_txn_def Let_def
  by (intro outcome_pbind outcome_pif outcome_case_option outcome_results outcome_return quiet_rules sim_edge_steps sim_write_helpers)

end

interpretation exact: txn_faults map_ops "\<lambda>t. t"
  by unfold_locales auto

subsection \<open>A store that fails by script\<close>

datatype fault = Runs | Conflicts | LosesAck

record flaky_txn =
  fk_txn :: map_txn
  fk_script :: "fault list"

definition conflict_error :: graph_error where
  "conflict_error = Slate (SlateError ''transaction conflict'' Transaction)"

definition flaky_step :: "(map_txn \<Rightarrow> 'a result \<times> map_txn) \<Rightarrow> flaky_txn \<Rightarrow> 'a result \<times> flaky_txn" where
  "flaky_step f t =
     (case fk_script t of
        [] \<Rightarrow> (fst (f (fk_txn t)), t\<lparr>fk_txn := snd (f (fk_txn t))\<rparr>)
      | Runs # fs \<Rightarrow> (fst (f (fk_txn t)), \<lparr>fk_txn = snd (f (fk_txn t)), fk_script = fs\<rparr>)
      | Conflicts # fs \<Rightarrow> (Inl conflict_error, \<lparr>fk_txn = fk_txn t, fk_script = fs\<rparr>)
      | LosesAck # fs \<Rightarrow> (Inl conflict_error, \<lparr>fk_txn = snd (f (fk_txn t)), fk_script = fs\<rparr>))"

definition flaky_ops :: "flaky_txn txn_ops" where
  "flaky_ops =
     \<lparr>begin_op = flaky_step (begin_op map_ops),
      mark_read_op = (\<lambda>ks. flaky_step (mark_read_op map_ops ks)),
      get_op = (\<lambda>k. flaky_step (get_op map_ops k)),
      scan_prefix_op = (\<lambda>p. flaky_step (scan_prefix_op map_ops p)),
      put_op = (\<lambda>k v. flaky_step (put_op map_ops k v)),
      delete_op = (\<lambda>k. flaky_step (delete_op map_ops k)),
      seqnum_op = (\<lambda>t. mt_seq (fk_txn t)),
      commit_op = (\<lambda>d q. flaky_step (commit_op map_ops d q)),
      db_get_op = (\<lambda>k. flaky_step (db_get_op map_ops k)),
      db_scan_op = (\<lambda>p lo hi. flaky_step (db_scan_op map_ops p lo hi)),
      db_seq_op = flaky_step (db_seq_op map_ops)\<rparr>"

lemma flaky_step_ok: "flaky_step f t = (Inr x, t') \<Longrightarrow> f (fk_txn t) = (Inr x, fk_txn t')"
  by (cases "f (fk_txn t)") (auto simp: flaky_step_def split: list.splits fault.splits)

lemma flaky_step_fault: "flaky_step f t = (Inl e, t') \<Longrightarrow> fk_txn t' = fk_txn t \<or> fk_txn t' = snd (f (fk_txn t))"
  by (auto simp: flaky_step_def split: list.splits fault.splits)

interpretation flaky: txn_faults flaky_ops fk_txn
proof
  show "seqnum_op flaky_ops t = seqnum_op map_ops (fk_txn t)" for t by (simp add: flaky_ops_def)
qed (simp_all only: flaky_ops_def txn_ops.simps, (erule flaky_step_ok | drule flaky_step_fault, auto simp: same_store_def)+)

end
