(* ===== verification/Write_Outcome.thy ===== *)
theory Write_Outcome
  imports Txn_Faults
begin

text \<open>
  What a write or a delete does to the committed records, whatever it returns: a call that fails, or
  that repeats an idempotency key, commits nothing, and a call that commits has the abstract effect
  \<open>insert_as\<close>, \<open>delete_direct_as\<close> or \<open>delete_segment_as\<close>.
\<close>

subsection \<open>Failure commits nothing\<close>

text \<open>A program that fails changes nothing, and one that commits fails at the last sequence.\<close>

definition all_or_nothing :: "(map_txn shard_state, 'a) prog \<Rightarrow> bool" where
  "all_or_nothing m \<longleftrightarrow> (\<forall>s r s'. m s = (r, s') \<longrightarrow> (\<not> is_ok r \<longrightarrow> unchanged s s') \<and> (seq s = - 1 \<longrightarrow> \<not> is_ok r))"

lemma atomic_bind: "exact.quiet m \<Longrightarrow> (\<And>x. all_or_nothing (f x)) \<Longrightarrow> all_or_nothing (pbind m f)"
  unfolding exact.quiet_def all_or_nothing_def pbind_def by (fastforce simp: same_store_def split: prod.splits sum.splits)

lemma atomic_pif: "all_or_nothing m \<Longrightarrow> all_or_nothing n \<Longrightarrow> all_or_nothing (pif b m n)"
  by (simp add: pif_def)

lemma atomic_case_option: "all_or_nothing m \<Longrightarrow> (\<And>x. all_or_nothing (f x)) \<Longrightarrow> all_or_nothing (case_option m f v)"
  by (cases v) simp_all

lemma atomic_commit: "all_or_nothing (commit_txn_strict map_ops d)" "all_or_nothing (pbind (commit_txn_strict map_ops d) (\<lambda>_. preturn r))"
  by (auto simp: all_or_nothing_def commit_txn_strict_def commit_txn_strict_with_sequence_def pbind_def preturn_def
      txn_seqnum_def plift_def on_txn_def checked_add_def u64_max split: sum.splits if_splits)

lemma atomic_results:
  "all_or_nothing (commit_edge_result map_ops sh m r)" "all_or_nothing (commit_delete_result map_ops sh m d)"
  unfolding commit_edge_result_def commit_delete_result_def by (intro atomic_bind quiet_rules atomic_commit)+

lemma atomic_write: "all_or_nothing (write_edge_body_txn map_ops sh m us e)"
  unfolding write_edge_body_txn_def Let_def
  by (intro atomic_bind atomic_pif atomic_results quiet_rules)

lemma atomic_delete: "all_or_nothing (delete_absent_edge_txn map_ops sh m)" "all_or_nothing (delete_direct_edge_txn map_ops sh m)"
  unfolding delete_absent_edge_txn_def delete_segment_edge_txn_def delete_direct_edge_txn_def Let_def
  by (intro atomic_bind atomic_pif atomic_case_option atomic_results quiet_rules)+

subsection \<open>Outcomes of the transactions\<close>

lemma fence_state: "snd (validate_write_fence_txn map_ops sh c oper s) = s"
  by (auto simp: validate_write_fence_txn_def pbind_def pif_def read_eval preturn_def pfail_def plift_def
      split: sum.splits prod.splits)

definition begun :: "map_txn shard_state \<Rightarrow> map_txn shard_state" where
  "begun s = s\<lparr>ss_txn := (ss_txn s)\<lparr>mt_view := db s, mt_dirty := False\<rparr>\<rparr>"

lemma begin_eval: "txn_begin map_ops s = (Inr (), begun s)"
  by (simp add: txn_begin_def on_txn_def begun_def)

lemma begun_models: "wf_store (db s) \<Longrightarrow> models is_meta (opened s) (begun s)"
  by (simp add: models_def begun_def)

lemma fence_rejects:
  assumes "wf_store (db s)" "valid_component c" "oper \<noteq> ''drop_cell''" "seq s \<noteq> - 1" "\<not> accepts sh c s" "sh_writer_open sh"
  shows "\<not> is_ok (fst (validate_write_fence_txn map_ops sh c oper (begun s)))"
proof (cases "kview (db s) (KCellDropMarker c) = None \<and> kview (db s) (KCellDropPending c) = None")
  case True
  then have "\<not> writable sh" using assms by (simp add: accepts_def)
  then have "\<not> is_ok (ensure_write_authority sh c oper)" using authority_ok[of sh c oper] by (auto simp: is_ok_iff)
  then show ?thesis
    by (auto simp: validate_write_fence_txn_def pbind_def pif_def read_eval preturn_def pfail_def plift_def
        split: sum.splits prod.splits)
next
  case False
  then show ?thesis using fence_dropped[OF begun_models[OF assms(1)] assms(2,3)] by auto
qed

text \<open>The frame of both transactions: unless the cell accepts writes and the idempotency key is new, nothing
  is committed.\<close>

lemma locked_run:
  assumes "pbind (plift (db_writer sh)) (\<lambda>_. pbind (txn_begin map_ops) (\<lambda>_.
    pbind (validate_write_fence_txn map_ops sh c oper) (\<lambda>_. pbind (read_txn_remote map_ops (render k)) rest))) s = (r, s')"
  shows "\<not> is_ok r \<and> unchanged s s' \<or> sh_writer_open sh \<and> rest (kview (db s) k) (begun s) = (r, s')
    \<and> is_ok (fst (validate_write_fence_txn map_ops sh c oper (begun s)))"
proof (cases "sh_writer_open sh")
  case True
  obtain f s1 where f: "validate_write_fence_txn map_ops sh c oper (begun s) = (f, s1)" by fastforce
  then have s1: "s1 = begun s" using fence_state[of sh c oper "begun s"] by simp
  have "(r, s') = (case f of Inl e \<Rightarrow> (Inl e, begun s) | Inr _ \<Rightarrow> rest (kview (db s) k) (begun s))"
    unfolding assms[symmetric] using True f s1
    by (cases f) (simp_all add: pbind_def plift_def db_writer_def begin_eval read_eval kview_def begun_def)
  then show ?thesis using True f by (cases f) (simp_all add: begun_def same_store_def)
qed (use assms in \<open>auto simp: pbind_def plift_def db_writer_def\<close>)

lemma locked_frame:
  assumes run: "pbind (plift (db_writer sh)) (\<lambda>_. pbind (txn_begin map_ops) (\<lambda>_.
    pbind (validate_write_fence_txn map_ops sh c oper) (\<lambda>_. pbind (read_txn_remote map_ops (render k)) rest))) s = (r, s')"
    and atomic: "all_or_nothing (rest None)" and quiet: "\<And>w. exact.quiet (rest (Some w))"
    and fence: "wf_store (db s)" "valid_component c" "oper \<noteq> ''drop_cell''"
  shows "unchanged s s' \<and> (is_ok r \<longrightarrow> kview (db s) k \<noteq> None) \<or> is_ok r \<and> accepts sh c s \<and> kview (db s) k = None"
  using locked_run[OF run]
proof (elim disjE conjE)
  assume w: "sh_writer_open sh" and rest: "rest (kview (db s) k) (begun s) = (r, s')"
    and f: "is_ok (fst (validate_write_fence_txn map_ops sh c oper (begun s)))"
  have b: "same_store (ss_txn s) (ss_txn (begun s))" "seq (begun s) = seq s" by (simp_all add: begun_def same_store_def)
  show ?thesis
  proof (cases "kview (db s) k")
    case None
    then have r: "\<not> is_ok r \<longrightarrow> unchanged (begun s) s'" "seq s = - 1 \<longrightarrow> \<not> is_ok r"
      using rest atomic[unfolded all_or_nothing_def, rule_format, of "begun s" r s'] b(2) by simp_all
    show ?thesis
    proof (cases "is_ok r")
      case True
      then have "accepts sh c s" using fence_rejects[OF fence _ _ w] f r(2) by blast
      then show ?thesis using True None by simp
    qed (use r(1) same_store_trans[OF b(1)] in auto)
  next
    case (Some v)
    then show ?thesis using exact.quietD[OF quiet] rest same_store_trans[OF b(1)] by auto
  qed
qed simp

text \<open>A request whose idempotency record exists commits nothing and returns what the record says.\<close>

lemma locked_known:
  assumes run: "pbind (plift (db_writer sh)) (\<lambda>_. pbind (txn_begin map_ops) (\<lambda>_.
    pbind (validate_write_fence_txn map_ops sh c oper) (\<lambda>_. pbind (read_txn_remote map_ops (render k)) rest))) s = (r, s')"
    and known: "kview (db s) k = Some w" and quiet: "exact.quiet (rest (Some w))"
  shows "unchanged s s' \<and> (is_ok r \<longrightarrow> r = fst (rest (Some w) (begun s)))"
  using locked_run[OF run]
proof (elim disjE conjE)
  assume rest: "rest (kview (db s) k) (begun s) = (r, s')"
  have b: "same_store (ss_txn s) (ss_txn (begun s))" by (simp add: begun_def same_store_def)
  show ?thesis using rest known same_store_trans[OF b exact.quietD[OF quiet]] by simp
qed simp

lemma write_known:
  assumes run: "write_edge_txn_locked_with_metadata map_ops sh m us em oper s = (r, s')" and v: "valid_mutation m"
    and known: "kview (db s) (idem_create m) = Some (encode_commit_idempotency m res)"
  shows "unchanged s s' \<and> (is_ok r \<longrightarrow> r = Inr res)"
proof -
  have dec: "decode_commit_idempotency key m (encode_commit_idempotency m res) = Inr res" for key
    using decode_commit_record[OF v, of key m res] by (simp add: same_edge_def)
  show ?thesis
    using locked_known[where k = "idem_create m", unfolded idem_keys(7), OF run[unfolded write_edge_txn_locked_with_metadata_def Let_def] known]
    by (simp add: dec quiet_rules plift_def)
qed

lemma delete_known:
  assumes run: "delete_edge_txn_locked map_ops sh m s = (r, s')" and v: "valid_mutation m"
    and known: "kview (db s) (idem_delete m) = Some (encode_delete_idempotency m res)"
  shows "unchanged s s' \<and> (is_ok r \<longrightarrow> r = Inr res)"
proof -
  have dec: "decode_delete_idempotency key m (encode_delete_idempotency m res) = Inr res" for key
    using decode_delete_record[OF v, of key m res] by (simp add: same_edge_def)
  show ?thesis
    using locked_known[where k = "idem_delete m", unfolded idem_keys(8), OF run[unfolded delete_edge_txn_locked_def Let_def] known]
    by (simp add: dec quiet_rules plift_def)
qed

lemma write_locked_outcome:
  assumes run: "write_edge_txn_locked_with_metadata map_ops sh m us em oper s = (r, s')"
    and wf: "wf_store (db s)" and v: "valid_mutation m" "wf_updates us" "wf_edge_metadata em" and oper: "oper \<noteq> ''drop_cell''"
  defines "vis \<equiv> edge_visible (db s) (em_cell_id m) (em_edge_type m) (em_src m) (seq s) (em_dst m)"
  shows "unchanged s s' \<and> (is_ok r \<longrightarrow> kview (db s) (idem_create m) \<noteq> None) \<or> (\<exists>res. r = Inr res \<and> seq s \<noteq> - 1 \<and> cr_already_existed res = vis
    \<and> committed is_meta (put_as (idem_create m) (encode_commit_idempotency m res)
         (if vis then opened s else insert_as sh m (seq s + 1) (opened s))) s')"
proof -
  note frame = locked_frame[where rest = "\<lambda>found. case found of None \<Rightarrow> write_edge_body_txn map_ops sh m us em
      | Some v \<Rightarrow> plift (decode_commit_idempotency (idempotency (em_cell_id m) ''create'' (em_idempotency_key m)) m v)"
      and k = "idem_create m" and c = "em_cell_id m", unfolded idem_keys(7),
      OF run[unfolded write_edge_txn_locked_with_metadata_def Let_def] _ _ wf _ oper]
  have "unchanged s s' \<and> (is_ok r \<longrightarrow> kview (db s) (idem_create m) \<noteq> None) \<or> is_ok r \<and> accepts sh (em_cell_id m) s \<and> kview (db s) (idem_create m) = None"
    by (rule frame) (use v in \<open>simp_all add: quiet_rules atomic_write valid_mutation_def\<close>)
  moreover have ?thesis if acc: "accepts sh (em_cell_id m) s" "kview (db s) (idem_create m) = None"
  proof -
    have "wp (write_edge_txn_locked_with_metadata map_ops sh m us em oper) (\<lambda>res s'. cr_already_existed res = vis
        \<and> committed is_meta (put_as (idem_create m) (encode_commit_idempotency m res)
         (if vis then opened s else insert_as sh m (seq s + 1) (opened s))) s') s"
      by (rule wp_write_locked[OF acc(1) v acc(2)]) (auto simp: vis_def)
    then show ?thesis using run acc(1) by (auto simp: wp_def accepts_def)
  qed
  ultimately show ?thesis by blast
qed

lemma delete_locked_outcome:
  assumes run: "delete_edge_txn_locked map_ops sh m s = (r, s')"
    and wf: "wf_store (db s)" and v: "valid_mutation m" and b: "bounded_tombstone (opened s) m"
  shows "unchanged s s' \<and> (is_ok r \<longrightarrow> kview (db s) (idem_delete m) \<noteq> None) \<or> (r = Inr (delete_outcome sh m (opened s)) \<and> seq s \<noteq> - 1
    \<and> committed is_meta (after_delete sh m (opened s)) s')"
proof -
  let ?oe = "out_edge (em_cell_id m) (em_edge_type m) (em_src m) (em_dst m)"
  note frame = locked_frame[where rest = "\<lambda>found. case found of
        None \<Rightarrow> pbind (read_txn_remote map_ops ?oe) (\<lambda>existing. case existing of
            None \<Rightarrow> delete_absent_edge_txn map_ops sh m
          | Some v \<Rightarrow> pbind (plift (decode_edge_record ?oe v)) (\<lambda>_. delete_direct_edge_txn map_ops sh m))
      | Some v \<Rightarrow> plift (decode_delete_idempotency (idempotency (em_cell_id m) ''delete'' (em_idempotency_key m)) m v)"
      and k = "idem_delete m" and c = "em_cell_id m" and oper = "''delete_edge''", unfolded idem_keys(8),
      OF run[unfolded delete_edge_txn_locked_def Let_def] _ _ wf]
  have "unchanged s s' \<and> (is_ok r \<longrightarrow> kview (db s) (idem_delete m) \<noteq> None) \<or> is_ok r \<and> accepts sh (em_cell_id m) s \<and> kview (db s) (idem_delete m) = None"
    by (rule frame) (use v in \<open>simp_all add: quiet_rules atomic_bind atomic_case_option atomic_delete valid_mutation_def\<close>)
  moreover have ?thesis if acc: "accepts sh (em_cell_id m) s" "kview (db s) (idem_delete m) = None"
  proof -
    have "wp (delete_edge_txn_locked map_ops sh m) (\<lambda>res s'. res = delete_outcome sh m (opened s)
        \<and> committed is_meta (after_delete sh m (opened s)) s') s"
      by (rule wp_delete_locked[OF acc(1) v acc(2) b]) auto
    then show ?thesis using run acc(1) by (auto simp: wp_def accepts_def)
  qed
  ultimately show ?thesis by blast
qed

end
