(* ===== verification/Graph_Invariant.thy ===== *)
theory Graph_Invariant
  imports Write_Outcome
begin

text \<open>
  The invariant of the committed records of a cell and edge type, and that the effects of a write and
  of a delete keep it: sequences in keys and tombstones are not ahead of the store, an edge has one
  representation, the reverse index mirrors the forward one, and the degree counters count.
\<close>

subsection \<open>The invariant\<close>

definition bounded :: "(graph_key \<Rightarrow> bytes option) \<Rightarrow> storage_sequence \<Rightarrow> string \<Rightarrow> string \<Rightarrow> bool" where
  "bounded f q c t \<longleftrightarrow>
     (\<forall>x r g. valid_component g \<and> f (KOutSegment c t x r g) \<noteq> None \<longrightarrow> r \<le> q)
     \<and> (\<forall>x y e. f (KOutTombstone c t x y) = Some (encode_u64 e) \<longrightarrow> e \<le> q)
     \<and> (\<forall>r x y. f (KXlogEntry c t r x y) \<noteq> None \<longrightarrow> r \<le> q)"

definition one_form :: "(graph_key \<Rightarrow> bytes option) \<Rightarrow> storage_sequence \<Rightarrow> string \<Rightarrow> string \<Rightarrow> bool" where
  "one_form f q c t \<longleftrightarrow> (\<forall>x y r. f (KOutEdge c t x y) \<noteq> None \<longrightarrow> \<not> segment_in f c t x q y r)"

text \<open>A shard with the reverse index holds no segments and a mirror of each record.\<close>

definition mirrored :: "(graph_key \<Rightarrow> bytes option) \<Rightarrow> string \<Rightarrow> string \<Rightarrow> bool" where
  "mirrored f c t \<longleftrightarrow>
     (\<forall>x r g. valid_component g \<longrightarrow> f (KOutSegment c t x r g) = None)
     \<and> (\<forall>x y. f (KOutEdge c t x y) = None \<longleftrightarrow> f (KInEdge c t y x) = None)"

definition counted_out :: "(graph_key \<Rightarrow> bytes option) \<Rightarrow> storage_sequence \<Rightarrow> string \<Rightarrow> string \<Rightarrow> bool" where
  "counted_out f q c t \<longleftrightarrow>
     (\<forall>x. counter_of (f (KDegreeOut c t x)) = word_of_nat (card {y. visible_in f c t x q y}))"

definition counted_in :: "(graph_key \<Rightarrow> bytes option) \<Rightarrow> storage_sequence \<Rightarrow> string \<Rightarrow> string \<Rightarrow> bool" where
  "counted_in f q c t \<longleftrightarrow>
     (\<forall>y. counter_of (f (KDegreeIn c t y)) = word_of_nat (card {x. visible_in f c t x q y}))"

text \<open>The vertex \<open>z\<close> is one that no edge uses: the counters are 64-bit words, and a vertex adjacent to all
  \<open>2 ^ 64\<close> vertices would wrap them.\<close>

definition spared :: "vertex_id \<Rightarrow> (graph_key \<Rightarrow> bytes option) \<Rightarrow> storage_sequence \<Rightarrow> string \<Rightarrow> string \<Rightarrow> bool" where
  "spared z f q c t \<longleftrightarrow> (\<forall>x y. visible_in f c t x q y \<longrightarrow> x \<noteq> z \<and> y \<noteq> z)"

definition type_inv :: "bool \<Rightarrow> vertex_id \<Rightarrow> (graph_key \<Rightarrow> bytes option) \<Rightarrow> storage_sequence \<Rightarrow> string \<Rightarrow> string \<Rightarrow> bool" where
  "type_inv mir z f q c t \<longleftrightarrow> bounded f q c t \<and> one_form f q c t \<and> counted_out f q c t \<and> spared z f q c t
     \<and> (mir \<longrightarrow> mirrored f c t \<and> counted_in f q c t)"

lemma type_invD:
  assumes "type_inv mir z f q c t"
  shows "bounded f q c t" "one_form f q c t" "counted_out f q c t" "spared z f q c t"
    "mir \<Longrightarrow> mirrored f c t" "mir \<Longrightarrow> counted_in f q c t"
  using assms by (simp_all add: type_inv_def)

definition graph_inv :: "shard_env \<Rightarrow> vertex_id \<Rightarrow> (graph_key \<Rightarrow> bytes option) \<Rightarrow> storage_sequence \<Rightarrow> bool" where
  "graph_inv sh z f q \<longleftrightarrow>
     (\<forall>c t. valid_component c \<longrightarrow> valid_component t \<longrightarrow> type_inv (writes_reverse_index sh) z f q c t)"

subsection \<open>What the invariant reads\<close>

lemma boundedD:
  assumes "bounded f q c t"
  shows "valid_component g \<Longrightarrow> f (KOutSegment c t x r g) = Some w \<Longrightarrow> r \<le> q"
    and "f (KOutTombstone c t x y) = Some (encode_u64 e) \<Longrightarrow> e \<le> q"
    and "f (KXlogEntry c t r x y) = Some w \<Longrightarrow> r \<le> q"
proof -
  note B = assms[unfolded bounded_def]
  show "r \<le> q" if "valid_component g" "f (KOutSegment c t x r g) = Some w"
    using B[THEN conjunct1, rule_format, of g x r] that by simp
  show "e \<le> q" if "f (KOutTombstone c t x y) = Some (encode_u64 e)"
    using B[THEN conjunct2, THEN conjunct1, rule_format, OF that] .
  show "r \<le> q" if "f (KXlogEntry c t r x y) = Some w"
    using B[THEN conjunct2, THEN conjunct2, rule_format, of r x y] that by simp
qed

lemma segment_in_later:
  assumes "bounded f q c t" "q \<le> q'"
  shows "segment_in f c t x q' y r \<longleftrightarrow> segment_in f c t x q y r"
proof -
  note B = boundedD[OF assms(1)]
  have tomb: "(\<forall>e. f (KOutTombstone c t x y) = Some (encode_u64 e) \<and> e \<le> q' \<longrightarrow> e < r)
      \<longleftrightarrow> (\<forall>e. f (KOutTombstone c t x y) = Some (encode_u64 e) \<and> e \<le> q \<longrightarrow> e < r)"
    using B(2)[of x y] assms(2) order_trans by blast
  let ?S = "\<exists>g ds. valid_component g \<and> f (KOutSegment c t x r g) = Some (encode_out_edge_segment_records ds) \<and> y \<in> set ds"
  have "r \<le> q" if ?S using that B(1)[of _ x r] by (elim exE conjE)
  then have "r \<le> q' \<and> ?S \<longleftrightarrow> r \<le> q \<and> ?S" using assms(2) order_trans[of r q q'] by fast
  then show ?thesis
    unfolding segment_in_def tomb by (simp only: conj_assoc[symmetric])
qed

lemma visible_in_later:
  "bounded f q c t \<Longrightarrow> q \<le> q' \<Longrightarrow> visible_in f c t x q' y \<longleftrightarrow> visible_in f c t x q y"
  unfolding visible_in_def using segment_in_later[of f q c t q' x y] by metis

text \<open>Two maps agree on the records of a type that decide visibility.\<close>

definition same_forms :: "(graph_key \<Rightarrow> bytes option) \<Rightarrow> (graph_key \<Rightarrow> bytes option) \<Rightarrow> string \<Rightarrow> string \<Rightarrow> vertex_id \<Rightarrow> vertex_id \<Rightarrow> bool" where
  "same_forms f g c t x y \<longleftrightarrow> f (KOutEdge c t x y) = g (KOutEdge c t x y)
     \<and> (\<forall>r h. valid_component h \<longrightarrow> f (KOutSegment c t x r h) = g (KOutSegment c t x r h))
     \<and> f (KOutTombstone c t x y) = g (KOutTombstone c t x y)"

lemma same_forms_segment: "same_forms f g c t x y \<Longrightarrow> segment_in f c t x q y r \<longleftrightarrow> segment_in g c t x q y r"
  unfolding same_forms_def segment_in_def by (metis (no_types, lifting))

lemma same_forms_visible: "same_forms f g c t x y \<Longrightarrow> visible_in f c t x q y \<longleftrightarrow> visible_in g c t x q y"
  unfolding visible_in_def using same_forms_segment[of f g c t x y q] by (metis same_forms_def)

text \<open>The second map has the same records of a type as the first, but may have lost changelog entries.\<close>

definition same_type_view :: "(graph_key \<Rightarrow> bytes option) \<Rightarrow> (graph_key \<Rightarrow> bytes option) \<Rightarrow> string \<Rightarrow> string \<Rightarrow> bool" where
  "same_type_view f g c t \<longleftrightarrow> (\<forall>x y. same_forms f g c t x y) \<and> (\<forall>x y. f (KInEdge c t x y) = g (KInEdge c t x y))
     \<and> (\<forall>r x y. g (KXlogEntry c t r x y) \<noteq> None \<longrightarrow> f (KXlogEntry c t r x y) \<noteq> None)
     \<and> (\<forall>x. f (KDegreeOut c t x) = g (KDegreeOut c t x)) \<and> (\<forall>y. f (KDegreeIn c t y) = g (KDegreeIn c t y))"

lemma same_type_viewI:
  assumes "\<And>k. valid_key k \<Longrightarrow> \<not> is_meta k \<Longrightarrow> f k = g k" "valid_component c" "valid_component t"
  shows "same_type_view f g c t"
proof -
  have "f (KXlogEntry c t r x y) = g (KXlogEntry c t r x y)" for r x y by (rule assms(1)) (simp_all add: valid_edge_keys[OF assms(2,3)])
  then show ?thesis unfolding same_type_view_def same_forms_def
    using assms(2,3) by (auto intro!: assms(1) simp: valid_edge_keys[OF assms(2,3)])
qed

lemma type_inv_same:
  assumes inv: "type_inv mir z f q c t" and same: "same_type_view f g c t" and le: "q \<le> q'"
  shows "type_inv mir z g q' c t"
proof -
  note D = type_invD[OF inv] and S = same[unfolded same_type_view_def same_forms_def]
  have v: "visible_in g c t x q' y \<longleftrightarrow> visible_in f c t x q y" for x y
    using same_forms_visible[of f g] same visible_in_later[OF D(1) le] by (simp add: same_type_view_def)
  have s: "segment_in g c t x q' y r \<longleftrightarrow> segment_in f c t x q y r" for x y r
    using same_forms_segment[of f g] same segment_in_later[OF D(1) le] by (simp add: same_type_view_def)
  have "bounded g q' c t"
    unfolding bounded_def
  proof (intro conjI allI impI)
    show "r \<le> q'" if "valid_component h \<and> g (KOutSegment c t x r h) \<noteq> None" for x r h
      using boundedD(1)[OF D(1), of h x r] that S le by (auto intro: order_trans)
    show "e \<le> q'" if "g (KOutTombstone c t x y) = Some (encode_u64 e)" for x y e
      using boundedD(2)[OF D(1), of x y e] that S le by (auto intro: order_trans)
    show "r \<le> q'" if "g (KXlogEntry c t r x y) \<noteq> None" for r x y
    proof -
      from that S have "f (KXlogEntry c t r x y) \<noteq> None" by blast
      then obtain w where "f (KXlogEntry c t r x y) = Some w" by blast
      from boundedD(3)[OF D(1) this] le show ?thesis by (rule order_trans)
    qed
  qed
  moreover have "one_form g q' c t" using D(2) S unfolding one_form_def s by simp
  moreover have "counted_out g q' c t" using D(3) S unfolding counted_out_def v by simp
  moreover have "spared z g q' c t" using D(4) unfolding spared_def v .
  moreover have "mirrored g c t" if mir using D(5)[OF that] S unfolding mirrored_def by simp
  moreover have "counted_in g q' c t" if mir using D(6)[OF that] S unfolding counted_in_def v by simp
  ultimately show ?thesis by (simp add: type_inv_def)
qed

subsection \<open>One edge more, one edge less\<close>

lemma finite_vertices: "finite (S :: vertex_id set)"
  by (rule finite_subset[OF subset_UNIV]) simp

lemma count_insert: "y \<notin> S \<Longrightarrow> word_of_nat (card (insert y S)) = (word_of_nat (card S) :: u64) + 1" for S :: "vertex_id set"
  using finite_vertices[of S] by (simp add: add.commute)

lemma card_spared: "z \<notin> S \<Longrightarrow> card S < 2 ^ 64" for S :: "vertex_id set"
proof -
  assume "z \<notin> S"
  then have "card S < card (UNIV :: vertex_id set)" by (intro psubset_card_mono) auto
  then show ?thesis by (simp add: card_word)
qed

lemma count_remove:
  fixes S :: "vertex_id set"
  assumes "y \<in> S" "z \<notin> S"
  shows "word_of_nat (card (S - {y})) = saturating_sub (word_of_nat (card S) :: u64) 1"
proof -
  have pos: "card S \<noteq> 0" using assms(1) finite_vertices[of S] by auto
  have lt: "card S < 2 ^ 64" "card (S - {y}) < 2 ^ 64" using card_spared[of z] assms(2) by auto
  have "unat (word_of_nat (card (S - {y})) :: u64) = unat (saturating_sub (word_of_nat (card S) :: u64) 1)"
    unfolding saturating_sub_unat using lt pos assms(1) finite_vertices[of S] by (simp add: unsigned_of_nat take_bit_nat_eq_self card_Diff_singleton)
  then show ?thesis by (rule unsigned_word_eqI)
qed

text \<open>The visible edges of a type before and after a change of one edge.\<close>

lemma type_inv_insert:
  assumes inv: "type_inv mir z f q c t" and q: "q \<noteq> - 1" and new: "\<not> visible_in f c t x q y" and z: "x \<noteq> z" "y \<noteq> z"
    and forms: "\<And>x' y'. (x', y') \<noteq> (x, y) \<Longrightarrow> same_forms f g c t x' y'"
    and at: "g (KOutEdge c t x y) \<noteq> None" "\<And>r h. valid_component h \<Longrightarrow> g (KOutSegment c t x r h) = f (KOutSegment c t x r h)"
      "g (KOutTombstone c t x y) = f (KOutTombstone c t x y)"
    and log: "\<And>r x' y'. g (KXlogEntry c t r x' y') \<noteq> None \<Longrightarrow> r = q + 1 \<or> f (KXlogEntry c t r x' y') \<noteq> None"
    and deg: "\<And>x'. counter_of (g (KDegreeOut c t x')) = counter_of (f (KDegreeOut c t x')) + (if x' = x then 1 else 0)"
    and mir: "\<And>x' y'. mir \<Longrightarrow> g (KInEdge c t y' x') = (if (x', y') = (x, y) then Some w else f (KInEdge c t y' x'))"
      "\<And>y'. mir \<Longrightarrow> counter_of (g (KDegreeIn c t y')) = counter_of (f (KDegreeIn c t y')) + (if y' = y then 1 else 0)"
  shows "type_inv mir z g (q + 1) c t"
    and "\<And>x' y'. visible_in g c t x' (q + 1) y' \<longleftrightarrow> (x', y') = (x, y) \<or> visible_in f c t x' q y'"
proof -
  note D = type_invD[OF inv] and B = boundedD[OF type_invD(1)[OF inv]]
  have le: "q \<le> q + 1" by (rule u64_le_add_one[OF q]) simp
  have seg0: "g (KOutSegment c t x' r h) = f (KOutSegment c t x' r h)" if "valid_component h" for x' r h
    using forms[of x' "if x' = x then y + 1 else y"] at(2)[OF that] that by (auto simp: same_forms_def split: if_splits)
  have tomb0: "g (KOutTombstone c t x' y') = f (KOutTombstone c t x' y')" for x' y'
    using forms[of x' y'] at(3) by (cases "(x', y') = (x, y)") (auto simp: same_forms_def)
  have seg: "segment_in g c t x' (q + 1) y' r \<longleftrightarrow> segment_in f c t x' q y' r" for x' y' r
    using segment_in_later[OF D(1) le, of x' y' r] unfolding segment_in_def tomb0 by (simp add: seg0 cong: conj_cong)
  show vis: "visible_in g c t x' (q + 1) y' \<longleftrightarrow> (x', y') = (x, y) \<or> visible_in f c t x' q y'" for x' y'
    using forms[of x' y'] at(1) by (cases "(x', y') = (x, y)") (auto simp: visible_in_def seg same_forms_def)
  have "bounded g (q + 1) c t"
    unfolding bounded_def
  proof (intro conjI allI impI)
    show "r \<le> q + 1" if "valid_component h \<and> g (KOutSegment c t x' r h) \<noteq> None" for x' r h
      using B(1)[of h x' r] that le by (auto simp: seg0 intro: order_trans)
    show "e \<le> q + 1" if "g (KOutTombstone c t x' y') = Some (encode_u64 e)" for x' y' e
      using B(2)[of x' y' e] that le by (auto simp: tomb0 intro: order_trans)
    show "r \<le> q + 1" if "g (KXlogEntry c t r x' y') \<noteq> None" for r x' y'
      using log[OF that] B(3)[of r x' y'] le by (auto intro: order_trans)
  qed
  moreover have "one_form g (q + 1) c t"
    unfolding one_form_def seg
  proof (intro allI impI)
    fix x' y' r assume "g (KOutEdge c t x' y') \<noteq> None"
    then show "\<not> segment_in f c t x' q y' r"
      using D(2) new forms[of x' y'] by (cases "(x', y') = (x, y)") (auto simp: one_form_def visible_in_def same_forms_def)
  qed
  moreover have "counted_out g (q + 1) c t"
    unfolding counted_out_def vis
  proof
    fix x'
    have "{y'. (x', y') = (x, y) \<or> visible_in f c t x' q y'} = (if x' = x then insert y {y'. visible_in f c t x q y'} else {y'. visible_in f c t x' q y'})"
      by auto
    then show "counter_of (g (KDegreeOut c t x')) = word_of_nat (card {y'. (x', y') = (x, y) \<or> visible_in f c t x' q y'})"
      using D(3) deg[of x'] new count_insert[of y "{y'. visible_in f c t x q y'}"] by (simp add: counted_out_def)
  qed
  moreover have "spared z g (q + 1) c t" using D(4) z unfolding spared_def vis by auto
  moreover have "mirrored g c t" if mir
    unfolding mirrored_def
  proof (intro conjI allI impI)
    show "g (KOutSegment c t x' r h) = None" if "valid_component h" for x' r h
      using D(5)[OF \<open>mir\<close>] that by (simp add: mirrored_def seg0)
    show "g (KOutEdge c t x' y') = None \<longleftrightarrow> g (KInEdge c t y' x') = None" for x' y'
    proof -
      have "f (KOutEdge c t x' y') = None \<longleftrightarrow> f (KInEdge c t y' x') = None" using D(5)[OF \<open>mir\<close>] unfolding mirrored_def by blast
      then show ?thesis
        using forms[of x' y'] at(1) mir(1)[OF \<open>mir\<close>, of y' x'] unfolding same_forms_def
        by (cases "(x', y') = (x, y)") (simp, metis)
    qed
  qed
  moreover have "counted_in g (q + 1) c t" if mir
    unfolding counted_in_def vis
  proof
    fix y'
    have "{x'. (x', y') = (x, y) \<or> visible_in f c t x' q y'} = (if y' = y then insert x {x'. visible_in f c t x' q y} else {x'. visible_in f c t x' q y'})"
      by auto
    then show "counter_of (g (KDegreeIn c t y')) = word_of_nat (card {x'. (x', y') = (x, y) \<or> visible_in f c t x' q y'})"
      using D(6)[OF \<open>mir\<close>] mir(2)[OF \<open>mir\<close>, of y'] new count_insert[of x "{x'. visible_in f c t x' q y}"] by (simp add: counted_in_def)
  qed
  ultimately show "type_inv mir z g (q + 1) c t" by (simp add: type_inv_def)
qed

lemma type_inv_remove:
  assumes inv: "type_inv mir z f q c t" and q: "q \<noteq> - 1" and old: "visible_in f c t x q y"
    and forms: "\<And>x' y'. (x', y') \<noteq> (x, y) \<Longrightarrow> same_forms f g c t x' y'"
    and seg0: "\<And>x' r h. valid_component h \<Longrightarrow> g (KOutSegment c t x' r h) = f (KOutSegment c t x' r h)"
    and at: "g (KOutEdge c t x y) = None" "\<And>r. \<not> segment_in g c t x (q + 1) y r"
      "\<And>e. g (KOutTombstone c t x y) = Some (encode_u64 e) \<Longrightarrow> e = q + 1 \<or> f (KOutTombstone c t x y) = Some (encode_u64 e)"
    and log: "\<And>r x' y'. g (KXlogEntry c t r x' y') \<noteq> None \<Longrightarrow> r = q + 1 \<or> f (KXlogEntry c t r x' y') \<noteq> None"
    and deg: "\<And>x'. counter_of (g (KDegreeOut c t x')) = (if x' = x then saturating_sub (counter_of (f (KDegreeOut c t x'))) 1 else counter_of (f (KDegreeOut c t x')))"
    and mir: "\<And>x' y'. mir \<Longrightarrow> g (KInEdge c t y' x') = (if (x', y') = (x, y) then None else f (KInEdge c t y' x'))"
      "\<And>y'. mir \<Longrightarrow> counter_of (g (KDegreeIn c t y')) = (if y' = y then saturating_sub (counter_of (f (KDegreeIn c t y'))) 1 else counter_of (f (KDegreeIn c t y')))"
  shows "type_inv mir z g (q + 1) c t"
    and "\<And>x' y'. visible_in g c t x' (q + 1) y' \<longleftrightarrow> (x', y') \<noteq> (x, y) \<and> visible_in f c t x' q y'"
proof -
  note D = type_invD[OF inv] and B = boundedD[OF type_invD(1)[OF inv]]
  have le: "q \<le> q + 1" by (rule u64_le_add_one[OF q]) simp
  have seg: "segment_in g c t x' (q + 1) y' r \<longleftrightarrow> segment_in f c t x' q y' r" if "(x', y') \<noteq> (x, y)" for x' y' r
    using same_forms_segment[OF forms[OF that]] segment_in_later[OF D(1) le, of x' y' r] by simp
  show vis: "visible_in g c t x' (q + 1) y' \<longleftrightarrow> (x', y') \<noteq> (x, y) \<and> visible_in f c t x' q y'" for x' y'
  proof (cases "(x', y') = (x, y)")
    case True
    then show ?thesis using at(1,2) by (simp add: visible_in_def)
  next
    case False
    have "g (KOutEdge c t x' y') = f (KOutEdge c t x' y')" using forms[OF False] by (simp add: same_forms_def)
    then show ?thesis using False unfolding visible_in_def seg[OF False] by simp
  qed
  have "bounded g (q + 1) c t"
    unfolding bounded_def
  proof (intro conjI allI impI)
    show "r \<le> q + 1" if "valid_component h \<and> g (KOutSegment c t x' r h) \<noteq> None" for x' r h
      using B(1)[of h x' r] that le by (auto simp: seg0 intro: order_trans)
    show "e \<le> q + 1" if e: "g (KOutTombstone c t x' y') = Some (encode_u64 e)" for x' y' e
    proof -
      have "e = q + 1 \<or> f (KOutTombstone c t x' y') = Some (encode_u64 e)"
        using e at(3)[of e] forms[of x' y'] by (cases "(x', y') = (x, y)") (simp_all add: same_forms_def)
      then show ?thesis using B(2)[of x' y' e] le by (auto intro: order_trans)
    qed
    show "r \<le> q + 1" if "g (KXlogEntry c t r x' y') \<noteq> None" for r x' y'
      using log[OF that] B(3)[of r x' y'] le by (auto intro: order_trans)
  qed
  moreover have "one_form g (q + 1) c t"
    unfolding one_form_def
  proof (intro allI impI)
    fix x' y' r assume e: "g (KOutEdge c t x' y') \<noteq> None"
    then have ne: "(x', y') \<noteq> (x, y)" using at(1) by auto
    then have "f (KOutEdge c t x' y') \<noteq> None" using e forms[OF ne] by (simp add: same_forms_def)
    then show "\<not> segment_in g c t x' (q + 1) y' r" unfolding seg[OF ne] using D(2) by (simp add: one_form_def)
  qed
  moreover have "counted_out g (q + 1) c t"
    unfolding counted_out_def vis
  proof
    fix x'
    have "{y'. (x', y') \<noteq> (x, y) \<and> visible_in f c t x' q y'} = (if x' = x then {y'. visible_in f c t x q y'} - {y} else {y'. visible_in f c t x' q y'})"
      by auto
    moreover have "z \<notin> {y'. visible_in f c t x q y'}" using D(4) by (auto simp: spared_def)
    ultimately show "counter_of (g (KDegreeOut c t x')) = word_of_nat (card {y'. (x', y') \<noteq> (x, y) \<and> visible_in f c t x' q y'})"
      using D(3) deg[of x'] old count_remove[of y "{y'. visible_in f c t x q y'}" z] by (simp add: counted_out_def)
  qed
  moreover have "spared z g (q + 1) c t" using D(4) unfolding spared_def vis by blast
  moreover have "mirrored g c t" if mir
    unfolding mirrored_def
  proof (intro conjI allI impI)
    show "g (KOutSegment c t x' r h) = None" if "valid_component h" for x' r h
      using D(5)[OF \<open>mir\<close>] that by (simp add: mirrored_def seg0)
    show "g (KOutEdge c t x' y') = None \<longleftrightarrow> g (KInEdge c t y' x') = None" for x' y'
    proof -
      have "f (KOutEdge c t x' y') = None \<longleftrightarrow> f (KInEdge c t y' x') = None" using D(5)[OF \<open>mir\<close>] unfolding mirrored_def by blast
      then show ?thesis
        using forms[of x' y'] at(1) mir(1)[OF \<open>mir\<close>, of y' x'] unfolding same_forms_def
        by (cases "(x', y') = (x, y)") (simp, metis)
    qed
  qed
  moreover have "counted_in g (q + 1) c t" if mir
    unfolding counted_in_def vis
  proof
    fix y'
    have "{x'. (x', y') \<noteq> (x, y) \<and> visible_in f c t x' q y'} = (if y' = y then {x'. visible_in f c t x' q y} - {x} else {x'. visible_in f c t x' q y'})"
      by auto
    moreover have "z \<notin> {x'. visible_in f c t x' q y}" using D(4) by (auto simp: spared_def)
    ultimately show "counter_of (g (KDegreeIn c t y')) = word_of_nat (card {x'. (x', y') \<noteq> (x, y) \<and> visible_in f c t x' q y'})"
      using D(6)[OF \<open>mir\<close>] mir(2)[OF \<open>mir\<close>, of y'] old count_remove[of x "{x'. visible_in f c t x' q y}" z] by (simp add: counted_in_def)
  qed
  ultimately show "type_inv mir z g (q + 1) c t" by (simp add: type_inv_def)
qed

subsection \<open>The effects of writes and deletes\<close>

lemma mark_as_map [simp]:
  "as_map (mark_as c t e [(x, y, b)] a) (KOutEdge c' t' x' y') = as_map a (KOutEdge c' t' x' y')"
  "as_map (mark_as c t e [(x, y, b)] a) (KInEdge c' t' x' y') = as_map a (KInEdge c' t' x' y')"
  "as_map (mark_as c t e [(x, y, b)] a) (KEdge c' t' x' y') = as_map a (KEdge c' t' x' y')"
  "as_map (mark_as c t e [(x, y, b)] a) (KOutSegment c' t' x' r g) = as_map a (KOutSegment c' t' x' r g)"
  "as_map (mark_as c t e [(x, y, b)] a) (KOutTombstone c' t' x' y') = as_map a (KOutTombstone c' t' x' y')"
  "as_map (mark_as c t e [(x, y, b)] a) (KDegreeOut c' t' x') = as_map a (KDegreeOut c' t' x')"
  "as_map (mark_as c t e [(x, y, b)] a) (KDegreeIn c' t' x') = as_map a (KDegreeIn c' t' x')"
  "as_map (mark_as c t e [(x, y, b)] a) (KXlogEntry c' t' r x' y') =
     (if (c', t', r, x', y') = (c, t, e, x, y) then Some (xlog_value b) else as_map a (KXlogEntry c' t' r x' y'))"
  by (simp_all add: mark_as_untouched mark_as_def mark_dirty_def set_floor_def log_change_def)

lemma insert_as_map:
  "as_map (insert_as sh m e a) (KOutEdge c t x y) =
     (if (c, t, x, y) = (em_cell_id m, em_edge_type m, em_src m, em_dst m) then Some edge_record_text else as_map a (KOutEdge c t x y))"
  "as_map (insert_as sh m e a) (KInEdge c t y x) =
     (if writes_reverse_index sh \<and> (c, t, x, y) = (em_cell_id m, em_edge_type m, em_src m, em_dst m) then Some edge_record_text
      else as_map a (KInEdge c t y x))"
  "as_map (insert_as sh m e a) (KOutSegment c t x r g) = as_map a (KOutSegment c t x r g)"
  "as_map (insert_as sh m e a) (KOutTombstone c t x y) = as_map a (KOutTombstone c t x y)"
  "as_map (insert_as sh m e a) (KDegreeOut c t x) =
     (if (c, t, x) = (em_cell_id m, em_edge_type m, em_src m) then Some (encode_u64 (counter_at a (KDegreeOut c t x) + 1)) else as_map a (KDegreeOut c t x))"
  "as_map (insert_as sh m e a) (KDegreeIn c t y) =
     (if writes_reverse_index sh \<and> (c, t, y) = (em_cell_id m, em_edge_type m, em_dst m) then Some (encode_u64 (counter_at a (KDegreeIn c t y) + 1))
      else as_map a (KDegreeIn c t y))"
  "as_map (insert_as sh m e a) (KXlogEntry c t r x y) =
     (if (c, t, r, x, y) = (em_cell_id m, em_edge_type m, e, em_src m, em_dst m) then Some (xlog_value True) else as_map a (KXlogEntry c t r x y))"
  unfolding insert_as_def Let_def by simp_all

lemma delete_direct_map:
  "as_map (delete_direct_as sh m e a) (KOutEdge c t x y) =
     (if (c, t, x, y) = (em_cell_id m, em_edge_type m, em_src m, em_dst m) then None else as_map a (KOutEdge c t x y))"
  "as_map (delete_direct_as sh m e a) (KInEdge c t y x) =
     (if (c, t, x, y) = (em_cell_id m, em_edge_type m, em_src m, em_dst m) then None else as_map a (KInEdge c t y x))"
  "as_map (delete_direct_as sh m e a) (KOutSegment c t x r g) = as_map a (KOutSegment c t x r g)"
  "as_map (delete_direct_as sh m e a) (KOutTombstone c t x y) = as_map a (KOutTombstone c t x y)"
  "as_map (delete_direct_as sh m e a) (KDegreeOut c t x) =
     (if (c, t, x) = (em_cell_id m, em_edge_type m, em_src m) then Some (encode_u64 (saturating_sub (counter_at a (KDegreeOut c t x)) 1)) else as_map a (KDegreeOut c t x))"
  "as_map (delete_direct_as sh m e a) (KDegreeIn c t y) =
     (if writes_reverse_index sh \<and> (c, t, y) = (em_cell_id m, em_edge_type m, em_dst m) then Some (encode_u64 (saturating_sub (counter_at a (KDegreeIn c t y)) 1))
      else as_map a (KDegreeIn c t y))"
  "as_map (delete_direct_as sh m e a) (KXlogEntry c t r x y) =
     (if (c, t, r, x, y) = (em_cell_id m, em_edge_type m, e, em_src m, em_dst m) then Some (xlog_value False) else as_map a (KXlogEntry c t r x y))"
  unfolding delete_direct_as_def Let_def by simp_all

lemma delete_segment_map:
  "as_map (delete_segment_as m e a) (KOutEdge c t x y) = as_map a (KOutEdge c t x y)"
  "as_map (delete_segment_as m e a) (KInEdge c t y x) = as_map a (KInEdge c t y x)"
  "as_map (delete_segment_as m e a) (KOutSegment c t x r g) = as_map a (KOutSegment c t x r g)"
  "as_map (delete_segment_as m e a) (KOutTombstone c t x y) =
     (if (c, t, x, y) = (em_cell_id m, em_edge_type m, em_src m, em_dst m) then Some (encode_u64 e) else as_map a (KOutTombstone c t x y))"
  "as_map (delete_segment_as m e a) (KDegreeOut c t x) =
     (if (c, t, x) = (em_cell_id m, em_edge_type m, em_src m) then Some (encode_u64 (saturating_sub (counter_at a (KDegreeOut c t x)) 1)) else as_map a (KDegreeOut c t x))"
  "as_map (delete_segment_as m e a) (KDegreeIn c t y) = as_map a (KDegreeIn c t y)"
  "as_map (delete_segment_as m e a) (KXlogEntry c t r x y) =
     (if (c, t, r, x, y) = (em_cell_id m, em_edge_type m, e, em_src m, em_dst m) then Some (xlog_value False) else as_map a (KXlogEntry c t r x y))"
  unfolding delete_segment_as_def Let_def by simp_all

text \<open>The edges of a type as a set.\<close>

definition edges_in :: "(graph_key \<Rightarrow> bytes option) \<Rightarrow> storage_sequence \<Rightarrow> string \<Rightarrow> string \<Rightarrow> (vertex_id \<times> vertex_id) set" where
  "edges_in f q c t = {(x, y). visible_in f c t x q y}"

abbreviation mutation_type :: "edge_mutation \<Rightarrow> string \<times> string" where
  "mutation_type m \<equiv> (em_cell_id m, em_edge_type m)"

lemma edges_in_visible: "(x, y) \<in> edges_in f q c t \<longleftrightarrow> visible_in f c t x q y"
  by (simp add: edges_in_def)

definition edges_after ::
    "(edge_mutation \<Rightarrow> (vertex_id \<times> vertex_id) set \<Rightarrow> (vertex_id \<times> vertex_id) set) \<Rightarrow> edge_mutation \<Rightarrow> abstract_store \<Rightarrow> abstract_store \<Rightarrow> bool" where
  "edges_after change m a b \<longleftrightarrow> (\<forall>c t. valid_component c \<longrightarrow> valid_component t \<longrightarrow>
     edges_in (as_map b) (as_seq a + 1) c t =
       (if (c, t) = mutation_type m then change m (edges_in (as_map a) (as_seq a) c t) else edges_in (as_map a) (as_seq a) c t))"

lemma graph_inv_change:
  assumes inv: "graph_inv sh z (as_map a) (as_seq a)" and q: "as_seq a \<noteq> - 1"
    and other: "\<And>c t. (c, t) \<noteq> mutation_type m \<Longrightarrow> same_type_view (as_map a) (as_map b) c t"
    and own: "type_inv (writes_reverse_index sh) z (as_map b) (as_seq a + 1) (em_cell_id m) (em_edge_type m)"
    and change: "edges_in (as_map b) (as_seq a + 1) (em_cell_id m) (em_edge_type m) = change m (edges_in (as_map a) (as_seq a) (em_cell_id m) (em_edge_type m))"
  shows "graph_inv sh z (as_map b) (as_seq a + 1) \<and> edges_after change m a b"
proof -
  have le: "as_seq a \<le> as_seq a + 1" by (rule u64_le_add_one[OF q]) simp
  have "type_inv (writes_reverse_index sh) z (as_map b) (as_seq a + 1) c t"
    "edges_in (as_map b) (as_seq a + 1) c t =
       (if (c, t) = mutation_type m then change m (edges_in (as_map a) (as_seq a) c t) else edges_in (as_map a) (as_seq a) c t)"
    if v: "valid_component c" "valid_component t" for c t
  proof -
    have i: "type_inv (writes_reverse_index sh) z (as_map a) (as_seq a) c t" using inv v by (simp add: graph_inv_def)
    show "type_inv (writes_reverse_index sh) z (as_map b) (as_seq a + 1) c t"
      using type_inv_same[OF i other le] own by (cases "(c, t) = mutation_type m") auto
    have "edges_in (as_map b) (as_seq a + 1) c t = edges_in (as_map a) (as_seq a) c t" if "(c, t) \<noteq> mutation_type m"
      using same_forms_visible visible_in_later[OF type_invD(1)[OF i] le] other[OF that]
      unfolding edges_in_def same_type_view_def by blast
    then show "edges_in (as_map b) (as_seq a + 1) c t =
       (if (c, t) = mutation_type m then change m (edges_in (as_map a) (as_seq a) c t) else edges_in (as_map a) (as_seq a) c t)"
      using change by auto
  qed
  then show ?thesis by (simp add: graph_inv_def edges_after_def)
qed

definition add_edge :: "edge_mutation \<Rightarrow> (vertex_id \<times> vertex_id) set \<Rightarrow> (vertex_id \<times> vertex_id) set" where
  "add_edge m E = insert (em_src m, em_dst m) E"

definition drop_edge :: "edge_mutation \<Rightarrow> (vertex_id \<times> vertex_id) set \<Rightarrow> (vertex_id \<times> vertex_id) set" where
  "drop_edge m E = E - {(em_src m, em_dst m)}"

lemma graph_inv_insert:
  assumes inv: "graph_inv sh z (as_map a) (as_seq a)" and q: "as_seq a \<noteq> - 1" and v: "valid_mutation m"
    and new: "\<not> visible_in (as_map a) (em_cell_id m) (em_edge_type m) (em_src m) (as_seq a) (em_dst m)"
    and z: "em_src m \<noteq> z" "em_dst m \<noteq> z"
  shows "graph_inv sh z (as_map (insert_as sh m (as_seq a + 1) a)) (as_seq a + 1)
    \<and> edges_after add_edge m a (insert_as sh m (as_seq a + 1) a)"
proof (rule graph_inv_change[OF inv q])
  let ?c = "em_cell_id m" and ?t = "em_edge_type m" and ?x = "em_src m" and ?y = "em_dst m" and ?b = "insert_as sh m (as_seq a + 1) a"
  show "same_type_view (as_map a) (as_map ?b) c t" if "(c, t) \<noteq> mutation_type m" for c t
    using that unfolding same_type_view_def same_forms_def by (auto simp: insert_as_map)
  have i: "type_inv (writes_reverse_index sh) z (as_map a) (as_seq a) ?c ?t"
    using inv v by (simp add: graph_inv_def valid_mutation_def)
  have "type_inv (writes_reverse_index sh) z (as_map ?b) (as_seq a + 1) ?c ?t
      \<and> (\<forall>x' y'. visible_in (as_map ?b) ?c ?t x' (as_seq a + 1) y' \<longleftrightarrow> (x', y') = (?x, ?y) \<or> visible_in (as_map a) ?c ?t x' (as_seq a) y')"
    by (intro conjI allI; rule type_inv_insert[OF i q new z, where w = edge_record_text])
      (auto simp: insert_as_map same_forms_def counter_at_def split: if_splits)
  then show "type_inv (writes_reverse_index sh) z (as_map ?b) (as_seq a + 1) ?c ?t"
    "edges_in (as_map ?b) (as_seq a + 1) ?c ?t = add_edge m (edges_in (as_map a) (as_seq a) ?c ?t)"
    by (auto simp: edges_in_def add_edge_def)
qed

lemma graph_inv_delete_direct:
  assumes inv: "graph_inv sh z (as_map a) (as_seq a)" and q: "as_seq a \<noteq> - 1" and v: "valid_mutation m"
    and old: "as_map a (KOutEdge (em_cell_id m) (em_edge_type m) (em_src m) (em_dst m)) \<noteq> None"
  shows "graph_inv sh z (as_map (delete_direct_as sh m (as_seq a + 1) a)) (as_seq a + 1)
    \<and> edges_after drop_edge m a (delete_direct_as sh m (as_seq a + 1) a)"
proof (rule graph_inv_change[OF inv q])
  let ?c = "em_cell_id m" and ?t = "em_edge_type m" and ?x = "em_src m" and ?y = "em_dst m" and ?b = "delete_direct_as sh m (as_seq a + 1) a"
  show "same_type_view (as_map a) (as_map ?b) c t" if "(c, t) \<noteq> mutation_type m" for c t
    using that unfolding same_type_view_def same_forms_def by (auto simp: delete_direct_map)
  have i: "type_inv (writes_reverse_index sh) z (as_map a) (as_seq a) ?c ?t"
    using inv v by (simp add: graph_inv_def valid_mutation_def)
  have vis: "visible_in (as_map a) ?c ?t ?x (as_seq a) ?y" using old by (simp add: visible_in_def)
  have le: "as_seq a \<le> as_seq a + 1" by (rule u64_le_add_one[OF q]) simp
  have gone: "\<not> segment_in (as_map ?b) ?c ?t ?x (as_seq a + 1) ?y r" for r
    using type_invD(2)[OF i] old segment_in_later[OF type_invD(1)[OF i] le, of ?x ?y r]
    unfolding one_form_def segment_in_def delete_direct_map by blast
  have "type_inv (writes_reverse_index sh) z (as_map ?b) (as_seq a + 1) ?c ?t
      \<and> (\<forall>x' y'. visible_in (as_map ?b) ?c ?t x' (as_seq a + 1) y' \<longleftrightarrow> (x', y') \<noteq> (?x, ?y) \<and> visible_in (as_map a) ?c ?t x' (as_seq a) y')"
    by (intro conjI allI; rule type_inv_remove[OF i q vis _ _ _ gone])
      (auto simp: delete_direct_map same_forms_def counter_at_def split: if_splits)
  then show "type_inv (writes_reverse_index sh) z (as_map ?b) (as_seq a + 1) ?c ?t"
    "edges_in (as_map ?b) (as_seq a + 1) ?c ?t = drop_edge m (edges_in (as_map a) (as_seq a) ?c ?t)"
    by (auto simp: edges_in_def drop_edge_def)
qed

lemma graph_inv_delete_segment:
  assumes inv: "graph_inv sh z (as_map a) (as_seq a)" and q: "as_seq a \<noteq> - 1" and v: "valid_mutation m"
    and none: "as_map a (KOutEdge (em_cell_id m) (em_edge_type m) (em_src m) (em_dst m)) = None" and mir: "\<not> writes_reverse_index sh"
    and old: "segment_in (as_map a) (em_cell_id m) (em_edge_type m) (em_src m) (as_seq a) (em_dst m) r0"
  shows "graph_inv sh z (as_map (delete_segment_as m (as_seq a + 1) a)) (as_seq a + 1)
    \<and> edges_after drop_edge m a (delete_segment_as m (as_seq a + 1) a)"
proof (rule graph_inv_change[OF inv q])
  let ?c = "em_cell_id m" and ?t = "em_edge_type m" and ?x = "em_src m" and ?y = "em_dst m" and ?b = "delete_segment_as m (as_seq a + 1) a"
  show "same_type_view (as_map a) (as_map ?b) c t" if "(c, t) \<noteq> mutation_type m" for c t
    using that unfolding same_type_view_def same_forms_def by (auto simp: delete_segment_map)
  have i: "type_inv (writes_reverse_index sh) z (as_map a) (as_seq a) ?c ?t"
    using inv v by (simp add: graph_inv_def valid_mutation_def)
  have vis: "visible_in (as_map a) ?c ?t ?x (as_seq a) ?y" using old unfolding visible_in_def by blast
  have gone: "\<not> segment_in (as_map ?b) ?c ?t ?x (as_seq a + 1) ?y r" for r
  proof
    assume s: "segment_in (as_map ?b) ?c ?t ?x (as_seq a + 1) ?y r"
    then have "as_seq a + 1 < r" "r \<le> as_seq a + 1" unfolding segment_in_def delete_segment_map by auto
    then show False by simp
  qed
  have "type_inv (writes_reverse_index sh) z (as_map ?b) (as_seq a + 1) ?c ?t
      \<and> (\<forall>x' y'. visible_in (as_map ?b) ?c ?t x' (as_seq a + 1) y' \<longleftrightarrow> (x', y') \<noteq> (?x, ?y) \<and> visible_in (as_map a) ?c ?t x' (as_seq a) y')"
    by (intro conjI allI; rule type_inv_remove[OF i q vis _ _ _ gone])
      (use none mir in \<open>auto simp: delete_segment_map same_forms_def counter_at_def split: if_splits\<close>)
  then show "type_inv (writes_reverse_index sh) z (as_map ?b) (as_seq a + 1) ?c ?t"
    "edges_in (as_map ?b) (as_seq a + 1) ?c ?t = drop_edge m (edges_in (as_map a) (as_seq a) ?c ?t)"
    by (auto simp: edges_in_def drop_edge_def)
qed

subsection \<open>Committed stores\<close>

definition graph_of :: "map_txn shard_state \<Rightarrow> string \<Rightarrow> string \<Rightarrow> (vertex_id \<times> vertex_id) set" where
  "graph_of s c t = edges_in (kview (db s)) (seq s) c t"

definition store_inv :: "shard_env \<Rightarrow> vertex_id \<Rightarrow> map_txn shard_state \<Rightarrow> bool" where
  "store_inv sh z s \<longleftrightarrow> wf_store (db s) \<and> graph_inv sh z (kview (db s)) (seq s)"

lemma edges_in_cong: "same_type_view f g c t \<Longrightarrow> edges_in f q c t = edges_in g q c t"
  using same_forms_visible[of f g c t] by (simp add: edges_in_def same_type_view_def)

lemma graph_inv_cong:
  assumes "\<And>k. valid_key k \<Longrightarrow> \<not> is_meta k \<Longrightarrow> f k = g k" "graph_inv sh z f q"
  shows "graph_inv sh z g q"
  unfolding graph_inv_def
proof (intro allI impI)
  fix c t assume "valid_component c" "valid_component t"
  then show "type_inv (writes_reverse_index sh) z g q c t"
    using assms by (intro type_inv_same[of _ _ f q _ _ g q] same_type_viewI) (simp_all add: graph_inv_def)
qed

lemma put_idem_same:
  "same_type_view (as_map a) (as_map (put_as (idem_create m) w a)) c t"
  "same_type_view (as_map a) (as_map (put_as (idem_delete m) w a)) c t"
  by (simp_all add: same_type_view_def same_forms_def idem_create_def idem_delete_def)

text \<open>A commit of an abstract store whose topology is that of \<open>b\<close>.\<close>

lemma committed_inv:
  assumes "committed is_meta d s'" "as_seq d = seq s" "\<And>c t. same_type_view (as_map b) (as_map d) c t"
    and "graph_inv sh z (as_map b) (seq s + 1)"
  shows "store_inv sh z s'" "\<And>c t. valid_component c \<Longrightarrow> valid_component t \<Longrightarrow> graph_of s' c t = edges_in (as_map b) (seq s + 1) c t"
proof -
  have eq: "valid_key k \<Longrightarrow> \<not> is_meta k \<Longrightarrow> as_map d k = kview (db s') k" for k
    using assms(1) by (simp add: committed_def)
  have q: "seq s' = seq s + 1" and wf: "wf_store (db s')"
    using assms(1,2) by (simp_all add: committed_def)
  have "graph_inv sh z (as_map d) (seq s + 1)"
    using assms(3,4) type_inv_same[OF _ _ order_refl] unfolding graph_inv_def by blast
  then show "store_inv sh z s'" using graph_inv_cong[OF eq] q wf by (simp add: store_inv_def)
  show "graph_of s' c t = edges_in (as_map b) (seq s + 1) c t" if "valid_component c" "valid_component t" for c t
    using edges_in_cong[OF assms(3)] edges_in_cong[OF same_type_viewI[OF eq that]] q by (simp add: graph_of_def)
qed

lemma unchanged_inv:
  assumes "unchanged s s'"
  shows "store_inv sh z s' \<longleftrightarrow> store_inv sh z s" "graph_of s' = graph_of s"
  using assms by (simp_all add: store_inv_def graph_of_def fun_eq_iff same_store_def)

definition graph_step ::
    "(edge_mutation \<Rightarrow> (vertex_id \<times> vertex_id) set \<Rightarrow> (vertex_id \<times> vertex_id) set) \<Rightarrow> edge_mutation
      \<Rightarrow> map_txn shard_state \<Rightarrow> map_txn shard_state \<Rightarrow> bool" where
  "graph_step change m s s' \<longleftrightarrow> seq s' = seq s + 1 \<and> (\<forall>c t. valid_component c \<longrightarrow> valid_component t \<longrightarrow>
     graph_of s' c t = (if (c, t) = mutation_type m then change m (graph_of s c t) else graph_of s c t))"

lemma committed_step:
  assumes com: "committed is_meta d s'" and d: "as_seq d = seq s" "\<And>c t. same_type_view (as_map b) (as_map d) c t"
    and b: "graph_inv sh z (as_map b) (seq s + 1) \<and> edges_after change m (opened s) b"
  shows "store_inv sh z s' \<and> graph_step change m s s'"
  using committed_inv[OF com d b[THEN conjunct1]] b[THEN conjunct2] com d(1)
  by (simp add: graph_step_def edges_after_def graph_of_def committed_def)

text \<open>A commit that leaves the topology alone.\<close>

lemma graph_inv_keep:
  assumes inv: "graph_inv sh z (as_map a) (as_seq a)" and q: "as_seq a \<noteq> - 1"
    and id: "change m (edges_in (as_map a) (as_seq a) (em_cell_id m) (em_edge_type m)) = edges_in (as_map a) (as_seq a) (em_cell_id m) (em_edge_type m)"
    and v: "valid_mutation m"
  shows "graph_inv sh z (as_map a) (as_seq a + 1) \<and> edges_after change m a a"
proof (rule graph_inv_change[OF inv q])
  have i: "type_inv (writes_reverse_index sh) z (as_map a) (as_seq a) (em_cell_id m) (em_edge_type m)"
    using inv v by (simp add: graph_inv_def valid_mutation_def)
  have le: "as_seq a \<le> as_seq a + 1" by (rule u64_le_add_one[OF q]) simp
  have same: "same_type_view (as_map a) (as_map a) c t" for c t by (simp add: same_type_view_def same_forms_def)
  then show "same_type_view (as_map a) (as_map a) c t" for c t .
  show "type_inv (writes_reverse_index sh) z (as_map a) (as_seq a + 1) (em_cell_id m) (em_edge_type m)"
    by (rule type_inv_same[OF i same le])
  show "edges_in (as_map a) (as_seq a + 1) (em_cell_id m) (em_edge_type m) = change m (edges_in (as_map a) (as_seq a) (em_cell_id m) (em_edge_type m))"
    using visible_in_later[OF type_invD(1)[OF i] le] unfolding id by (simp add: edges_in_def)
qed

lemma write_locked_step:
  assumes run: "write_edge_txn_locked_with_metadata map_ops sh m us em oper s = (r, s')" and inv: "store_inv sh z s"
    and v: "valid_mutation m" "wf_updates us" "wf_edge_metadata em" and oper: "oper \<noteq> ''drop_cell''"
    and z: "em_src m \<noteq> z" "em_dst m \<noteq> z"
  shows "unchanged s s' \<and> (is_ok r \<longrightarrow> kview (db s) (idem_create m) \<noteq> None)
    \<or> (\<exists>res. r = Inr res \<and> cr_already_existed res = ((em_src m, em_dst m) \<in> graph_of s (em_cell_id m) (em_edge_type m))
    \<and> store_inv sh z s' \<and> graph_step add_edge m s s' \<and> kview (db s') (idem_create m) = Some (encode_commit_idempotency m res))"
proof -
  let ?vis = "edge_visible (db s) (em_cell_id m) (em_edge_type m) (em_src m) (seq s) (em_dst m)"
  have vis: "?vis \<longleftrightarrow> (em_src m, em_dst m) \<in> graph_of s (em_cell_id m) (em_edge_type m)"
    by (simp add: edge_visible_in graph_of_def edges_in_def)
  have wf: "wf_store (db s)" and g: "graph_inv sh z (as_map (opened s)) (as_seq (opened s))" using inv by (simp_all add: store_inv_def)
  from write_locked_outcome[OF run wf v oper] show ?thesis
  proof (elim disjE exE conjE)
    fix res assume res: "r = Inr res" "seq s \<noteq> - 1" "cr_already_existed res = ?vis"
      and com: "committed is_meta (put_as (idem_create m) (encode_commit_idempotency m res)
         (if ?vis then opened s else insert_as sh m (seq s + 1) (opened s))) s'"
    let ?b = "if ?vis then opened s else insert_as sh m (seq s + 1) (opened s)"
    have q: "as_seq (opened s) \<noteq> - 1" using res(2) by simp
    have "graph_inv sh z (as_map ?b) (seq s + 1) \<and> edges_after add_edge m (opened s) ?b"
    proof (cases ?vis)
      case True
      have "add_edge m (edges_in (as_map (opened s)) (as_seq (opened s)) (em_cell_id m) (em_edge_type m))
          = edges_in (as_map (opened s)) (as_seq (opened s)) (em_cell_id m) (em_edge_type m)"
        using True unfolding vis by (auto simp: add_edge_def graph_of_def)
      from graph_inv_keep[where change = add_edge and m = m, OF g q this v(1)] True show ?thesis by simp
    next
      case False
      then have "\<not> visible_in (as_map (opened s)) (em_cell_id m) (em_edge_type m) (em_src m) (as_seq (opened s)) (em_dst m)"
        by (simp add: edge_visible_in)
      from graph_inv_insert[OF g q v(1) this z] False show ?thesis by simp
    qed
    from committed_step[OF com _ put_idem_same(1) this] have "store_inv sh z s' \<and> graph_step add_edge m s s'"
      by (simp split: if_splits add: insert_as_def Let_def)
    moreover have "kview (db s') (idem_create m) = Some (encode_commit_idempotency m res)"
      using com idem_keys(1)[OF v(1)] idem_keys(3) by (simp add: committed_def)
    ultimately show ?thesis using res unfolding vis by blast
  qed simp
qed

lemma delete_locked_step:
  assumes run: "delete_edge_txn_locked map_ops sh m s = (r, s')" and inv: "store_inv sh z s" and v: "valid_mutation m"
  shows "unchanged s s' \<and> (is_ok r \<longrightarrow> kview (db s) (idem_delete m) \<noteq> None)
    \<or> (\<exists>res. r = Inr res \<and> dr_deleted res = ((em_src m, em_dst m) \<in> graph_of s (em_cell_id m) (em_edge_type m))
    \<and> store_inv sh z s' \<and> graph_step drop_edge m s s' \<and> kview (db s') (idem_delete m) = Some (encode_delete_idempotency m res))"
proof -
  let ?c = "em_cell_id m" and ?t = "em_edge_type m" and ?x = "em_src m" and ?y = "em_dst m" and ?f = "as_map (opened s)" and ?q = "as_seq (opened s)"
  have wf: "wf_store (db s)" and g: "graph_inv sh z ?f ?q" using inv by (simp_all add: store_inv_def)
  have i: "type_inv (writes_reverse_index sh) z ?f ?q ?c ?t" using g v by (simp add: graph_inv_def valid_mutation_def)
  have bt: "bounded_tombstone (opened s) m" using boundedD(2)[OF type_invD(1)[OF i]] by (simp add: bounded_tombstone_def)
  have noseg: "\<not> segment_in ?f ?c ?t ?x ?q ?y r" if "writes_reverse_index sh" for r
    using type_invD(5)[OF i that] unfolding mirrored_def segment_in_def by auto
  from delete_locked_outcome[OF run wf v bt] show ?thesis
  proof (elim disjE conjE)
    assume res: "r = Inr (delete_outcome sh m (opened s))" "seq s \<noteq> - 1" and com: "committed is_meta (after_delete sh m (opened s)) s'"
    let ?b = "case delete_effect sh m (opened s) of None \<Rightarrow> opened s | Some b \<Rightarrow> b"
    have q: "?q \<noteq> - 1" using res(2) by simp
    have del: "dr_deleted (delete_outcome sh m (opened s)) \<longleftrightarrow> (?x, ?y) \<in> graph_of s ?c ?t"
      using noseg by (auto simp: delete_outcome_def delete_effect_def Let_def graph_of_def edges_in_def visible_in_def split: option.splits)
    have step: "graph_inv sh z (as_map ?b) (seq s + 1) \<and> edges_after drop_edge m (opened s) ?b"
    proof (cases "?f (KOutEdge ?c ?t ?x ?y) = None")
      case False
      then show ?thesis using graph_inv_delete_direct[OF g q v False] by (simp add: delete_effect_def Let_def)
    next
      case True
      show ?thesis
      proof (cases "\<not> writes_reverse_index sh \<and> (\<exists>r. segment_in ?f ?c ?t ?x ?q ?y r)")
        case seg: True
        then obtain r0 where "segment_in ?f ?c ?t ?x ?q ?y r0" by blast
        from graph_inv_delete_segment[OF g q v True _ this] seg True show ?thesis by (simp add: delete_effect_def Let_def)
      next
        case seg: False
        then have n: "delete_effect sh m (opened s) = None" using True by (auto simp: delete_effect_def Let_def)
        have "drop_edge m (edges_in ?f ?q ?c ?t) = edges_in ?f ?q ?c ?t"
          using True seg noseg by (auto simp: drop_edge_def edges_in_def visible_in_def)
        from graph_inv_keep[where change = drop_edge and m = m, OF g q this v] n show ?thesis by simp
      qed
    qed
    have "as_seq (after_delete sh m (opened s)) = seq s"
      by (auto simp: after_delete_def delete_effect_def Let_def split: option.splits if_splits)
    then have "store_inv sh z s' \<and> graph_step drop_edge m s s'"
      by (rule committed_step[OF com _ _ step]) (unfold after_delete_def, rule put_idem_same(2))
    moreover have "kview (db s') (idem_delete m) = Some (encode_delete_idempotency m (delete_outcome sh m (opened s)))"
      using com idem_keys(2)[OF v] idem_keys(4) by (simp add: committed_def after_delete_def)
    ultimately show ?thesis using res del by blast
  qed simp
qed

end
