(* ===== verification/Graph_History.thy ===== *)
theory Graph_History
  imports Graph_Invariant
begin

text \<open>
  The public edge operations of a shard over a store that may fail at any operation
  (\<open>txn_faults\<close>): the retry loop, exactly-once effects under an idempotency key, and the invariant of the
  committed records through every history of calls, whatever they return.
\<close>

subsection \<open>The retry loop\<close>

lemma attempts_rule:
  assumes "\<And>s r s'. J s \<Longrightarrow> m s = (r, s') \<Longrightarrow> J s' \<and> (\<forall>x. r = Inr x \<longrightarrow> K x s')"
    and "J s" "txn_attempts n m s = (r, s')"
  shows "J s' \<and> (\<forall>x. r = Inr x \<longrightarrow> K x s')"
  using assms(2,3)
proof (induction n arbitrary: s)
  case (Suc n)
  obtain r1 s1 where m: "m s = (r1, s1)" by fastforce
  note one = assms(1)[OF Suc.prems(1) m]
  show ?case
  proof (cases r1)
    case (Inl e)
    show ?thesis
    proof (cases "is_retryable_write_conflict e \<and> n \<noteq> 0")
      case True
      then have "txn_attempts n m s1 = (r, s')" using Suc.prems(2) m Inl by simp
      then show ?thesis using Suc.IH one by blast
    qed (use Suc.prems(2) m Inl one in auto)
  qed (use Suc.prems(2) m one in auto)
qed auto

definition attempt :: "('s, 'a) prog \<Rightarrow> 's \<Rightarrow> nat \<Rightarrow> 'a result \<times> 's" where
  "attempt m s k = m (((snd \<circ> m) ^^ k) s)"

definition retries :: "('s, 'a) prog \<Rightarrow> 's \<Rightarrow> nat \<Rightarrow> bool" where
  "retries m s k \<longleftrightarrow> (\<exists>e. fst (attempt m s k) = Inl e \<and> is_retryable_write_conflict e)"

lemma attempt_Suc: "attempt m s (Suc k) = attempt m (snd (m s)) k"
  by (simp add: attempt_def funpow_swap1)

lemma attempts_stop:
  "\<exists>k \<le> n. txn_attempts (Suc n) m s = attempt m s k \<and> (\<forall>j < k. retries m s j) \<and> (k < n \<longrightarrow> \<not> retries m s k)"
proof (induction n arbitrary: s)
  case 0
  show ?case by (rule exI[of _ 0]) (auto simp: attempt_def split: prod.splits sum.splits)
next
  case (Suc n)
  obtain r s1 where m: "m s = (r, s1)" by fastforce
  show ?case
  proof (cases "retries m s 0")
    case True
    then have "txn_attempts (Suc (Suc n)) m s = txn_attempts (Suc n) m s1"
      using m by (auto simp: retries_def attempt_def)
    moreover from Suc.IH[of s1] obtain k where k: "k \<le> n" "txn_attempts (Suc n) m s1 = attempt m s1 k"
      "\<forall>j < k. retries m s1 j" "k < n \<longrightarrow> \<not> retries m s1 k" by blast
    moreover have "retries m s1 j \<longleftrightarrow> retries m s (Suc j)" "attempt m s1 j = attempt m s (Suc j)" for j
      using m by (simp_all add: retries_def attempt_Suc)
    ultimately show ?thesis using True
      by (intro exI[of _ "Suc k"]) (auto simp: less_Suc_eq_0_disj simp del: txn_attempts.simps)
  next
    case False
    then have "txn_attempts (Suc (Suc n)) m s = m s"
      using m by (auto simp: retries_def attempt_def split: sum.splits)
    then show ?thesis using False by (intro exI[of _ 0]) (simp add: attempt_def)
  qed
qed

text \<open>C15 (retry_budget). The retry loop of every write runs the transaction at least once and at most 32 times, repeats it exactly
  after retryable conflicts, and returns what the last attempt returned: the exhausted-retries error
  behind the loop is never reached.\<close>

theorem retry_budget:
  "\<exists>k < GRAPH_TXN_MAX_RETRIES. txn_attempts GRAPH_TXN_MAX_RETRIES m s = attempt m s k
     \<and> (\<forall>j. j < k \<longrightarrow> retries m s j) \<and> (k + 1 < GRAPH_TXN_MAX_RETRIES \<longrightarrow> \<not> retries m s k)"
  using attempts_stop[of 31 m s] unfolding GRAPH_TXN_MAX_RETRIES_def by (simp add: numeral_eq_Suc less_Suc_eq_le)

definition third_time :: "(nat, nat) prog" where
  "third_time n = (if n < 2 then (Inl conflict_error, n + 1) else (Inr n, n))"

theorem retry_budget_witness:
  "txn_attempts GRAPH_TXN_MAX_RETRIES third_time 0 = (Inr 2, 2)
   \<and> (\<exists>k < GRAPH_TXN_MAX_RETRIES. txn_attempts GRAPH_TXN_MAX_RETRIES third_time 0 = attempt third_time 0 k)"
  using retry_budget[of third_time 0]
  by (auto simp: GRAPH_TXN_MAX_RETRIES_def numeral_eq_Suc third_time_def conflict_error_def is_retryable_write_conflict_def)

subsection \<open>Exactly once\<close>

text \<open>The store a shard state stands for.\<close>

abbreviation seen :: "('t \<Rightarrow> map_txn) \<Rightarrow> 't shard_state \<Rightarrow> map_txn shard_state" where
  "seen view s \<equiv> \<lparr>ss_txn = view (ss_txn s), ss_floor = ss_floor s\<rparr>"

text \<open>One request: the record \<open>k\<close> of its idempotency key, what a first execution does, and what a repetition
  does.\<close>

definition executed ::
    "shard_env \<Rightarrow> vertex_id \<Rightarrow> graph_key \<Rightarrow> ('a \<Rightarrow> bytes) \<Rightarrow> ('a \<Rightarrow> map_txn shard_state \<Rightarrow> bool)
      \<Rightarrow> (map_txn shard_state \<Rightarrow> map_txn shard_state \<Rightarrow> bool) \<Rightarrow> 'a \<Rightarrow> map_txn shard_state \<Rightarrow> map_txn shard_state \<Rightarrow> bool" where
  "executed sh z k enc said step res s s' \<longleftrightarrow>
     store_inv sh z s' \<and> said res s \<and> step s s' \<and> kview (db s') k = Some (enc res)"

lemma graph_step_unchanged: "unchanged s0 s \<Longrightarrow> unchanged s1 s' \<Longrightarrow> graph_step ch m s0 s1 \<longleftrightarrow> graph_step ch m s s'"
  by (simp add: graph_step_def graph_of_def same_store_def)

lemma executed_unchanged:
  assumes "unchanged s0 s" "unchanged s1 s'" "\<And>r. said r s0 \<longleftrightarrow> said r s"
  shows "executed sh z k enc said (graph_step ch m) res s0 s1 \<longleftrightarrow> executed sh z k enc said (graph_step ch m) res s s'"
  using graph_step_unchanged[OF assms(1,2)] unchanged_inv(1)[OF assms(2)] assms(2,3) by (simp add: executed_def same_store_def)

context txn_faults
begin

text \<open>A property of the committed records that successful runs of the reference transaction keep holds after a
  guarded call, whatever happened in between.\<close>

lemma guarded_rule:
  assumes osim: "outcome_sim tx rtx"
    and step: "\<And>s x s'. J s \<Longrightarrow> rtx s = (Inr x, s') \<Longrightarrow> J s' \<and> K x s'"
    and closed: "\<And>s s'. unchanged s s' \<Longrightarrow> J s \<Longrightarrow> J s'" "\<And>x s s'. unchanged s s' \<Longrightarrow> K x s \<Longrightarrow> K x s'"
    and start: "J (abs_state s)" and run: "guarded_write sh c oper tx s = (r, s')"
  shows "J (abs_state s') \<and> (\<forall>x. r = Inr x \<longrightarrow> K x (abs_state s'))"
proof (cases "sh_write_permit sh oper")
  case (Inl e)
  then show ?thesis using run start by (auto simp: guarded_write_def pbind_def plift_def)
next
  case (Inr u)
  have one: "J (abs_state s2) \<and> (\<forall>x. r1 = Inr x \<longrightarrow> K x (abs_state s2))"
    if J: "J (abs_state s1)" and one: "pbind (plift (acquire_local_write_guard sh c oper)) (\<lambda>_. tx) s1 = (r1, s2)" for s1 r1 s2
  proof (cases "acquire_local_write_guard sh c oper")
    case (Inl e)
    then show ?thesis using one J by (auto simp: pbind_def plift_def)
  next
    case (Inr u)
    then have tx: "tx s1 = (r1, s2)" using one by (simp add: pbind_def plift_def)
    show ?thesis
    proof (cases r1)
      case (Inl e)
      with osim tx have "unchanged (abs_state s1) (abs_state s2) \<or> (\<exists>x s3. rtx (abs_state s1) = (Inr x, s3) \<and> unchanged s3 (abs_state s2))"
        unfolding outcome_sim_def by blast
      then have "J (abs_state s2)" using J step closed(1) by blast
      then show ?thesis using Inl by simp
    next
      case (Inr x)
      then have "rtx (abs_state s1) = (Inr x, abs_state s2)" using simD[of tx rtx] osim tx by (simp add: outcome_sim_def)
      then show ?thesis using step[OF J] Inr by simp
    qed
  qed
  have loop: "txn_attempts GRAPH_TXN_MAX_RETRIES (pbind (plift (acquire_local_write_guard sh c oper)) (\<lambda>_. tx)) s = (r, s')"
    using run Inr by (simp add: guarded_write_def pbind_def plift_def)
  show ?thesis
    by (rule attempts_rule[where J = "\<lambda>s. J (abs_state s)" and K = "\<lambda>x s. K x (abs_state s)", OF _ start loop]) (rule one)
qed

lemma guarded_once:
  assumes osim: "outcome_sim tx rtx"
    and first: "\<And>s r s'. rtx s = (r, s') \<Longrightarrow> store_inv sh z s \<Longrightarrow> unchanged s s' \<and> (is_ok r \<longrightarrow> kview (db s) k \<noteq> None)
        \<or> (\<exists>res. r = Inr res \<and> executed sh z k enc said (graph_step ch m) res s s')"
    and again: "\<And>s r s' res. rtx s = (r, s') \<Longrightarrow> kview (db s) k = Some (enc res) \<Longrightarrow> unchanged s s' \<and> (is_ok r \<longrightarrow> r = Inr res)"
    and said: "\<And>r s s'. unchanged s s' \<Longrightarrow> said r s \<longleftrightarrow> said r s'"
    and inv: "store_inv sh z (abs_state s)" and fresh: "kview (db (abs_state s)) k = None"
    and run: "guarded_write sh c oper tx s = (r, s')"
  shows "\<not> is_ok r \<and> unchanged (abs_state s) (abs_state s')
    \<or> (\<exists>res. (is_ok r \<longrightarrow> r = Inr res) \<and> executed sh z k enc said (graph_step ch m) res (abs_state s) (abs_state s'))"
proof -
  let ?s0 = "abs_state s"
  let ?E = "executed sh z k enc said (graph_step ch m)"
  let ?J = "\<lambda>s1. unchanged ?s0 s1 \<or> (\<exists>res. ?E res ?s0 s1)" and ?K = "\<lambda>res s1. ?E res ?s0 s1"
  have E: "?E res ?s0 s2" if "unchanged s1 s2" "?E res ?s0 s1" for res s1 s2
    using executed_unchanged[where said = said, OF same_store_refl[of "ss_txn ?s0"] that(1)] that(2) by simp
  have step: "?J s2 \<and> ?K x s2" if J: "?J s1" and r: "rtx s1 = (Inr x, s2)" for s1 x s2
    using J
  proof (elim disjE exE)
    assume u: "unchanged ?s0 s1"
    then have "store_inv sh z s1" "kview (db s1) k = None"
      using inv fresh unchanged_inv(1)[OF u, of sh z] by (simp_all add: same_store_def)
    with first[OF r] have "?E x s1 s2" by simp
    then have "?E x ?s0 s2" using executed_unchanged[where said = said, OF u same_store_refl[of "ss_txn s2"]] said[OF u] by simp
    then show ?thesis by blast
  next
    fix res assume e: "?E res ?s0 s1"
    then have "kview (db s1) k = Some (enc res)" by (simp add: executed_def)
    from again[OF r this] have "unchanged s1 s2" "x = res" by simp_all
    then show ?thesis using E[OF _ e] by blast
  qed
  have "?J (abs_state s') \<and> (\<forall>x. r = Inr x \<longrightarrow> ?K x (abs_state s'))"
    by (rule guarded_rule[OF osim step _ _ _ run]) (use E same_store_trans in \<open>blast | simp\<close>)+
  then show ?thesis by (cases r) auto
qed

lemma guarded_again:
  assumes osim: "outcome_sim tx rtx"
    and again: "\<And>s r s' res. rtx s = (r, s') \<Longrightarrow> kview (db s) k = Some (enc res) \<Longrightarrow> unchanged s s' \<and> (is_ok r \<longrightarrow> r = Inr res)"
    and known: "kview (db (abs_state s)) k = Some (enc res)"
    and run: "guarded_write sh c oper tx s = (r, s')"
  shows "unchanged (abs_state s) (abs_state s') \<and> (is_ok r \<longrightarrow> r = Inr res)"
proof -
  have step: "unchanged (abs_state s) s2 \<and> x = res" if J: "unchanged (abs_state s) s1" and r: "rtx s1 = (Inr x, s2)" for s1 x s2
  proof -
    have "kview (db s1) k = Some (enc res)" using known J by (simp add: same_store_def)
    from again[OF r this] show ?thesis using same_store_trans[OF J, of "ss_txn s2"] by simp
  qed
  have "unchanged (abs_state s) (abs_state s') \<and> (\<forall>x. r = Inr x \<longrightarrow> x = res)"
    by (rule guarded_rule[OF osim step _ _ _ run]) (use same_store_trans in \<open>blast | simp\<close>)+
  then show ?thesis by (cases r) auto
qed

lemma guarded_keeps:
  assumes osim: "outcome_sim tx rtx" and keep: "\<And>s r s'. rtx s = (r, s') \<Longrightarrow> store_inv sh z s \<Longrightarrow> store_inv sh z s'"
    and inv: "store_inv sh z (abs_state s)" and run: "guarded_write sh c oper tx s = (r, s')"
  shows "store_inv sh z (abs_state s')"
  using guarded_rule[of tx rtx "store_inv sh z" "\<lambda>_ _. True", OF osim _ _ _ inv run] keep unchanged_inv(1) by blast

text \<open>Edge requests over any metadata.\<close>

lemma write_guarded:
  assumes v: "valid_mutation m" "wf_updates us" "wf_edge_metadata em" "oper \<noteq> ''drop_cell''" and z: "em_src m \<noteq> z" "em_dst m \<noteq> z"
    and inv: "store_inv sh z (abs_state s)" and run: "guarded_write sh c oper (write_edge_txn_locked_with_metadata ops sh m us em oper) s = (r, s')"
  shows "store_inv sh z (abs_state s')"
    and "kview (db (abs_state s)) (idem_create m) = None \<Longrightarrow> \<not> is_ok r \<and> unchanged (abs_state s) (abs_state s')
      \<or> (\<exists>res. (is_ok r \<longrightarrow> r = Inr res) \<and> executed sh z (idem_create m) (encode_commit_idempotency m)
           (\<lambda>res s. cr_already_existed res = ((em_src m, em_dst m) \<in> graph_of s (em_cell_id m) (em_edge_type m)))
           (graph_step add_edge m) res (abs_state s) (abs_state s'))"
    and "kview (db (abs_state s)) (idem_create m) = Some (encode_commit_idempotency m res) \<Longrightarrow>
      unchanged (abs_state s) (abs_state s') \<and> (is_ok r \<longrightarrow> r = Inr res)"
proof -
  note osim = outcome_write[of sh m us em oper]
  note step = write_locked_step[OF _ _ v z] and again = write_known[OF _ v(1)]
  show "store_inv sh z (abs_state s')"
    by (rule guarded_keeps[OF osim _ inv run]) (use step unchanged_inv(1) in blast)
  show "kview (db (abs_state s)) (idem_create m) = None \<Longrightarrow> \<not> is_ok r \<and> unchanged (abs_state s) (abs_state s')
      \<or> (\<exists>res. (is_ok r \<longrightarrow> r = Inr res) \<and> executed sh z (idem_create m) (encode_commit_idempotency m)
           (\<lambda>res s. cr_already_existed res = ((em_src m, em_dst m) \<in> graph_of s (em_cell_id m) (em_edge_type m)))
           (graph_step add_edge m) res (abs_state s) (abs_state s'))"
    by (rule guarded_once[OF osim _ again _ inv _ run], drule (1) step, unfold executed_def, blast, assumption, assumption,
        simp add: unchanged_inv(2))
  show "kview (db (abs_state s)) (idem_create m) = Some (encode_commit_idempotency m res) \<Longrightarrow>
      unchanged (abs_state s) (abs_state s') \<and> (is_ok r \<longrightarrow> r = Inr res)"
    by (rule guarded_again[where enc = "encode_commit_idempotency m", OF osim again _ run])
qed

lemma delete_guarded:
  assumes v: "valid_mutation m" and inv: "store_inv sh z (abs_state s)"
    and run: "guarded_write sh c oper (delete_edge_txn_locked ops sh m) s = (r, s')"
  shows "store_inv sh z (abs_state s')"
    and "kview (db (abs_state s)) (idem_delete m) = None \<Longrightarrow> \<not> is_ok r \<and> unchanged (abs_state s) (abs_state s')
      \<or> (\<exists>res. (is_ok r \<longrightarrow> r = Inr res) \<and> executed sh z (idem_delete m) (encode_delete_idempotency m)
           (\<lambda>res s. dr_deleted res = ((em_src m, em_dst m) \<in> graph_of s (em_cell_id m) (em_edge_type m)))
           (graph_step drop_edge m) res (abs_state s) (abs_state s'))"
    and "kview (db (abs_state s)) (idem_delete m) = Some (encode_delete_idempotency m res) \<Longrightarrow>
      unchanged (abs_state s) (abs_state s') \<and> (is_ok r \<longrightarrow> r = Inr res)"
proof -
  note osim = outcome_delete[of sh m]
  note step = delete_locked_step[OF _ _ v] and again = delete_known[OF _ v]
  show "store_inv sh z (abs_state s')"
    by (rule guarded_keeps[OF osim _ inv run]) (use step unchanged_inv(1) in blast)
  show "kview (db (abs_state s)) (idem_delete m) = None \<Longrightarrow> \<not> is_ok r \<and> unchanged (abs_state s) (abs_state s')
      \<or> (\<exists>res. (is_ok r \<longrightarrow> r = Inr res) \<and> executed sh z (idem_delete m) (encode_delete_idempotency m)
           (\<lambda>res s. dr_deleted res = ((em_src m, em_dst m) \<in> graph_of s (em_cell_id m) (em_edge_type m)))
           (graph_step drop_edge m) res (abs_state s) (abs_state s'))"
    by (rule guarded_once[OF osim _ again _ inv _ run], drule (1) step, unfold executed_def, blast, assumption, assumption,
        simp add: unchanged_inv(2))
  show "kview (db (abs_state s)) (idem_delete m) = Some (encode_delete_idempotency m res) \<Longrightarrow>
      unchanged (abs_state s) (abs_state s') \<and> (is_ok r \<longrightarrow> r = Inr res)"
    by (rule guarded_again[where enc = "encode_delete_idempotency m", OF osim again _ run])
qed

end

subsection \<open>The public operations\<close>

lemma plift_cases:
  "pbind (plift g) f s = (r, s') \<Longrightarrow> (\<exists>e. r = Inl e) \<and> s' = s \<or> (\<exists>x. g = Inr x \<and> f x s = (r, s'))"
  by (cases g) (auto simp: pbind_def plift_def)

lemma validate_edge_mutation_ok: "validate_edge_mutation m = Inr u \<Longrightarrow> valid_mutation m"
  by (auto simp: validate_edge_mutation_def valid_mutation_def rbind_Inr_iff validate_component_iff)

lemma write_edge_run:
  "write_edge ops sh m s = (r, s') \<Longrightarrow> (\<exists>e. r = Inl e) \<and> s' = s \<or> valid_mutation m \<and> guarded_write sh (em_cell_id m) ''write_edge''
     (write_edge_txn_locked_with_metadata ops sh m [] edge_metadata_default ''write_edge'') s = (r, s')"
  unfolding write_edge_def by (blast dest: plift_cases validate_edge_mutation_ok)

lemma delete_edge_run:
  "delete_edge ops sh m s = (r, s') \<Longrightarrow> (\<exists>e. r = Inl e) \<and> s' = s \<or> valid_mutation m
     \<and> guarded_write sh (em_cell_id m) ''delete_edge'' (delete_edge_txn_locked ops sh m) s = (r, s')"
  unfolding delete_edge_def by (blast dest: plift_cases validate_edge_mutation_ok)

lemma wf_no_updates: "wf_updates []"
  by (simp add: wf_updates_def)

lemma coalesce_wf:
  assumes res: "coalesce_vertex_metadata_updates us = Inr res" and wf: "wf_updates us"
  shows "wf_updates res"
  unfolding wf_updates_def
proof
  fix u assume "u \<in> set res"
  then obtain v e where u: "u = (v, e)" "(v, e) \<in> set res" by (metis surj_pair)
  have table: "vertex_table us res" using res coalesce_vertex_table by (simp add: coalesce_vertex_metadata_updates_def)
  then have "bt_get res v = Some e" using u(2) by (simp add: vertex_table_def bt_get_Some_iff)
  then have e: "union_entry (updates_for v us) e" using table by (simp add: vertex_table_def)
  have ms: "wf_vertex_metadata m" if "m \<in> set (updates_for v us)" for m
    using that wf by (auto simp: updates_for_def wf_updates_def)
  have "valid_component p \<and> wf_value w \<and> normal_value w" if "(p, w) \<in> set (vm_properties e)" for p w
  proof -
    have "bt_ok (vm_properties e)" using e by (simp add: union_entry_def unique_map_def)
    then have "bt_get (vm_properties e) p = Some w" using that by (simp only: bt_get_Some_iff)
    then obtain m where "m \<in> set (updates_for v us)" "(p, w) \<in> set (vm_properties m)"
      using e unfolding union_entry_def unique_map_def by fastforce
    then show ?thesis using ms by (auto simp: wf_vertex_metadata_def wf_properties_def)
  qed
  moreover have "valid_component l" if "l \<in> set (vm_labels e)" for l
    using e ms that by (auto simp: union_entry_def wf_vertex_metadata_def)
  ultimately show "wf_vertex_metadata (snd u)"
    using e by (auto simp: u(1) wf_vertex_metadata_def wf_properties_def union_entry_def unique_map_def)
qed

lemma wf_pair_updates: "wf_vertex_metadata a \<Longrightarrow> wf_vertex_metadata b \<Longrightarrow> wf_updates [(x, a), (y, b)]"
  by (simp add: wf_updates_def)

lemma write_vertex_run:
  assumes "write_edge_with_vertex_metadata ops sh m a b s = (r, s')" "wf_vertex_metadata a" "wf_vertex_metadata b"
  shows "(\<exists>e. r = Inl e) \<and> s' = s \<or> (\<exists>us. valid_mutation m \<and> wf_updates us
    \<and> guarded_write sh (em_cell_id m) ''write_edge_with_vertex_metadata''
        (write_edge_txn_locked_with_metadata ops sh m us edge_metadata_default ''write_edge_with_vertex_metadata'') s = (r, s'))"
  using assms(1) unfolding write_edge_with_vertex_metadata_def
  by (blast dest: plift_cases validate_edge_mutation_ok coalesce_wf[OF _ wf_pair_updates[OF assms(2,3)]])

lemma write_full_run:
  assumes "write_edge_with_full_metadata ops sh m a b em s = (r, s')" "wf_vertex_metadata a" "wf_vertex_metadata b"
  shows "(\<exists>e. r = Inl e) \<and> s' = s \<or> (\<exists>us. valid_mutation m \<and> wf_updates us
    \<and> guarded_write sh (em_cell_id m) ''write_edge_with_full_metadata''
        (write_edge_txn_locked_with_metadata ops sh m us em ''write_edge_with_full_metadata'') s = (r, s'))"
  using assms(1) unfolding write_edge_with_full_metadata_def
  by (blast dest: plift_cases validate_edge_mutation_ok coalesce_wf[OF _ wf_pair_updates[OF assms(2,3)]])

subsection \<open>A sample shard\<close>

definition sample_env :: shard_env where
  "sample_env = \<lparr>sh_index_policy = Full, sh_write_authority = AuthWriter, sh_await_durable_writes = True,
     sh_writer_open = True, sh_write_permit = (\<lambda>_. Inr ()), sh_refresh_writer_fence = Inr ()\<rparr>"

definition sample_write :: edge_mutation where
  "sample_write = \<lparr>em_cell_id = ''c'', em_edge_type = ''T'', em_src = 1, em_dst = 2, em_idempotency_key = ''k''\<rparr>"

definition empty_txn :: map_txn where
  "empty_txn = \<lparr>mt_view = [], mt_durable = [], mt_seq = 0, mt_dirty = False\<rparr>"

text \<open>The store is empty and its operations fail by script. Writing the sample edge takes 29 operations, the last of which
  is the commit, so this script loses the acknowledgement of the first commit.\<close>

definition flaky_shard :: "flaky_txn shard_state" where
  "flaky_shard = \<lparr>ss_txn = \<lparr>fk_txn = empty_txn, fk_script = replicate 28 Runs @ [LosesAck]\<rparr>, ss_floor = []\<rparr>"

definition empty_shard :: "map_txn shard_state" where
  "empty_shard = \<lparr>ss_txn = empty_txn, ss_floor = []\<rparr>"

lemma kview_empty [simp]: "kview [] k = None"
  by (simp add: kview_def)

lemma empty_inv: "store_inv sh z empty_shard"
proof -
  have "visible_in (kview []) c t x 0 y \<longleftrightarrow> False" "segment_in (kview []) c t x 0 y r \<longleftrightarrow> False" for c t x y r
    by (simp_all add: visible_in_def segment_in_def)
  then show ?thesis
    by (simp add: empty_shard_def empty_txn_def store_inv_def graph_inv_def type_inv_def bounded_def one_form_def counted_out_def
        spared_def mirrored_def counted_in_def)
qed

lemma flaky_seen: "seen fk_txn flaky_shard = empty_shard"
  by (simp add: flaky_shard_def empty_shard_def)

text \<open>C2 (write_edge_exactly_once). Over any store whose failed commits may or may not have taken effect, a write with a new idempotency key
  ends in one of two ways: it reports an error and the committed records are untouched, or the edge
  was added to the graph of its cell and type exactly once, at the next sequence and leaving every other graph
  alone, whether or not an error is reported, and the stored record holds the result, which says truly whether the edge already
  existed. A write whose key is known changes nothing and returns the stored result. The invariant of
  the store is kept.\<close>

theorem write_edge_exactly_once:
  assumes "txn_faults ops view" "store_inv sh z (seen view s)" "write_edge ops sh m s = (r, s')" "em_src m \<noteq> z" "em_dst m \<noteq> z"
  shows "store_inv sh z (seen view s')
    \<and> (kview (db (seen view s)) (idem_create m) = None \<longrightarrow> \<not> is_ok r \<and> unchanged (seen view s) (seen view s')
      \<or> (\<exists>res. (is_ok r \<longrightarrow> r = Inr res)
           \<and> cr_already_existed res = ((em_src m, em_dst m) \<in> graph_of (seen view s) (em_cell_id m) (em_edge_type m))
           \<and> graph_step add_edge m (seen view s) (seen view s')
           \<and> kview (db (seen view s')) (idem_create m) = Some (encode_commit_idempotency m res)))
    \<and> (\<forall>res. kview (db (seen view s)) (idem_create m) = Some (encode_commit_idempotency m res) \<longrightarrow>
      unchanged (seen view s) (seen view s') \<and> (is_ok r \<longrightarrow> r = Inr res))"
  using write_edge_run[OF assms(3)]
proof (elim disjE exE conjE)
  fix e assume "r = Inl e" "s' = s"
  then show ?thesis using assms(2) by simp
next
  assume v: "valid_mutation m" and run: "guarded_write sh (em_cell_id m) ''write_edge''
     (write_edge_txn_locked_with_metadata ops sh m [] edge_metadata_default ''write_edge'') s = (r, s')"
  have st: "txn_refines.abs_state view s1 = seen view s1" for s1
    using txn_refines.abs_state_def[OF txn_faults.axioms(1)[OF assms(1)]] .
  note W = txn_faults.write_guarded[OF assms(1) v wf_no_updates wf_default(2) _ assms(4,5) _ run, unfolded st, OF _ assms(2)]
  show ?thesis using W unfolding executed_def by simp
qed

theorem write_edge_exactly_once_witness:
  "store_inv sample_env 9 (seen fk_txn (snd (write_edge flaky_ops sample_env sample_write flaky_shard)))
   \<and> (unchanged empty_shard (seen fk_txn (snd (write_edge flaky_ops sample_env sample_write flaky_shard)))
      \<or> graph_step add_edge sample_write empty_shard (seen fk_txn (snd (write_edge flaky_ops sample_env sample_write flaky_shard))))"
  using write_edge_exactly_once[where sh = sample_env and z = 9 and m = sample_write, OF flaky.txn_faults_axioms
      empty_inv[folded flaky_seen] surjective_pairing, unfolded flaky_seen]
  by (auto simp: sample_write_def empty_shard_def empty_txn_def)

text \<open>C3 (delete_edge_exactly_once). A delete is exactly-once in the same sense: with a new idempotency key it either fails and leaves the
  committed records untouched or removes the edge, direct or in a segment, from the graph of its cell and type and from no
  other, with a stored result that says truly whether the edge was there.\<close>

theorem delete_edge_exactly_once:
  assumes "txn_faults ops view" "store_inv sh z (seen view s)" "delete_edge ops sh m s = (r, s')"
  shows "store_inv sh z (seen view s')
    \<and> (kview (db (seen view s)) (idem_delete m) = None \<longrightarrow> \<not> is_ok r \<and> unchanged (seen view s) (seen view s')
      \<or> (\<exists>res. (is_ok r \<longrightarrow> r = Inr res)
           \<and> dr_deleted res = ((em_src m, em_dst m) \<in> graph_of (seen view s) (em_cell_id m) (em_edge_type m))
           \<and> graph_step drop_edge m (seen view s) (seen view s')
           \<and> kview (db (seen view s')) (idem_delete m) = Some (encode_delete_idempotency m res)))
    \<and> (\<forall>res. kview (db (seen view s)) (idem_delete m) = Some (encode_delete_idempotency m res) \<longrightarrow>
      unchanged (seen view s) (seen view s') \<and> (is_ok r \<longrightarrow> r = Inr res))"
  using delete_edge_run[OF assms(3)]
proof (elim disjE exE conjE)
  fix e assume "r = Inl e" "s' = s"
  then show ?thesis using assms(2) by simp
next
  assume v: "valid_mutation m" and run: "guarded_write sh (em_cell_id m) ''delete_edge'' (delete_edge_txn_locked ops sh m) s = (r, s')"
  have st: "txn_refines.abs_state view s1 = seen view s1" for s1
    using txn_refines.abs_state_def[OF txn_faults.axioms(1)[OF assms(1)]] .
  note W = txn_faults.delete_guarded[OF assms(1) v _ run, unfolded st, OF assms(2)]
  show ?thesis using W unfolding executed_def by simp
qed

theorem delete_edge_exactly_once_witness:
  "store_inv sample_env 9 (seen fk_txn (snd (delete_edge flaky_ops sample_env sample_write flaky_shard)))
   \<and> (unchanged empty_shard (seen fk_txn (snd (delete_edge flaky_ops sample_env sample_write flaky_shard)))
      \<or> graph_step drop_edge sample_write empty_shard (seen fk_txn (snd (delete_edge flaky_ops sample_env sample_write flaky_shard))))"
  using delete_edge_exactly_once[where sh = sample_env and z = 9 and m = sample_write, OF flaky.txn_faults_axioms
      empty_inv[folded flaky_seen] surjective_pairing, unfolded flaky_seen]
  by (auto simp: empty_shard_def empty_txn_def)

subsection \<open>Histories\<close>

datatype edge_op =
    WriteEdge edge_mutation
  | WriteEdgeWithVertexMetadata edge_mutation vertex_metadata vertex_metadata
  | WriteEdgeWithFullMetadata edge_mutation vertex_metadata vertex_metadata edge_metadata
  | DeleteEdge edge_mutation

fun run_op :: "'t txn_ops \<Rightarrow> shard_env \<Rightarrow> edge_op \<Rightarrow> 't shard_state \<Rightarrow> 't shard_state" where
  "run_op ops sh (WriteEdge m) s = snd (write_edge ops sh m s)"
| "run_op ops sh (WriteEdgeWithVertexMetadata m a b) s = snd (write_edge_with_vertex_metadata ops sh m a b s)"
| "run_op ops sh (WriteEdgeWithFullMetadata m a b em) s = snd (write_edge_with_full_metadata ops sh m a b em s)"
| "run_op ops sh (DeleteEdge m) s = snd (delete_edge ops sh m s)"

text \<open>What the types of the arguments guarantee, and that the spared vertex is not used.\<close>

fun op_ok :: "vertex_id \<Rightarrow> edge_op \<Rightarrow> bool" where
  "op_ok z (WriteEdge m) \<longleftrightarrow> em_src m \<noteq> z \<and> em_dst m \<noteq> z"
| "op_ok z (WriteEdgeWithVertexMetadata m a b) \<longleftrightarrow> em_src m \<noteq> z \<and> em_dst m \<noteq> z \<and> wf_vertex_metadata a \<and> wf_vertex_metadata b"
| "op_ok z (WriteEdgeWithFullMetadata m a b em) \<longleftrightarrow>
     em_src m \<noteq> z \<and> em_dst m \<noteq> z \<and> wf_vertex_metadata a \<and> wf_vertex_metadata b \<and> wf_edge_metadata em"
| "op_ok z (DeleteEdge m) \<longleftrightarrow> True"

text \<open>What successful runs of the reference transactions keep, every operation keeps.\<close>

lemma run_op_rule:
  assumes F: "txn_faults ops view" and closed: "\<And>s s'. unchanged s s' \<Longrightarrow> J s \<Longrightarrow> J s'"
    and writes: "\<And>m us em oper s x s'. valid_mutation m \<Longrightarrow> wf_updates us \<Longrightarrow> wf_edge_metadata em \<Longrightarrow> oper \<noteq> ''drop_cell'' \<Longrightarrow>
      em_src m \<noteq> z \<Longrightarrow> em_dst m \<noteq> z \<Longrightarrow> J s \<Longrightarrow>
      write_edge_txn_locked_with_metadata map_ops sh m us em oper s = (Inr x, s') \<Longrightarrow> J s'"
    and deletes: "\<And>m s x s'. valid_mutation m \<Longrightarrow> J s \<Longrightarrow> delete_edge_txn_locked map_ops sh m s = (Inr x, s') \<Longrightarrow> J s'"
    and start: "J (seen view s)" and good: "op_ok z p"
  shows "J (seen view (run_op ops sh p s))"
proof -
  have st: "txn_refines.abs_state view s1 = seen view s1" for s1
    using txn_refines.abs_state_def[OF txn_faults.axioms(1)[OF F]] .
  have keep: "J (seen view s')" if "txn_faults.outcome_sim view tx rtx" "guarded_write sh c oper tx s = (r, s')"
    "\<And>s x s'. J s \<Longrightarrow> rtx s = (Inr x, s') \<Longrightarrow> J s'" for tx rtx c oper r s'
  proof -
    have "J (seen view s') \<and> (\<forall>x. r = Inr x \<longrightarrow> True)"
      by (rule txn_faults.guarded_rule[OF F that(1), where J = J and K = "\<lambda>_ _. True", unfolded st, OF _ _ _ start that(2)])
        (simp_all add: that(3), rule closed)
    then show ?thesis by simp
  qed
  have W: "J (seen view s')" if "guarded_write sh c oper' (write_edge_txn_locked_with_metadata ops sh m us em oper) s = (r, s')"
    "valid_mutation m" "wf_updates us" "wf_edge_metadata em" "oper \<noteq> ''drop_cell''" "em_src m \<noteq> z" "em_dst m \<noteq> z" for c oper' m us em oper r s'
    by (rule keep[OF txn_faults.outcome_write[OF F] that(1)]) (rule writes[OF that(2-7)])
  have D: "J (seen view s')" if "guarded_write sh c oper' (delete_edge_txn_locked ops sh m) s = (r, s')" "valid_mutation m" for c oper' m r s'
    by (rule keep[OF txn_faults.outcome_delete[OF F] that(1)]) (rule deletes[OF that(2)])
  show ?thesis
  proof (cases p)
    case (WriteEdge m)
    obtain r s' where run: "write_edge ops sh m s = (r, s')" by fastforce
    from write_edge_run[OF run] have "J (seen view s')"
    proof (elim disjE conjE exE)
      assume "s' = s" then show "J (seen view s')" using start by simp
    qed (erule W, use good WriteEdge in \<open>simp_all add: wf_no_updates\<close>)
    then show ?thesis using run WriteEdge by simp
  next
    case (WriteEdgeWithVertexMetadata m a b)
    obtain r s' where run: "write_edge_with_vertex_metadata ops sh m a b s = (r, s')" by fastforce
    have g: "wf_vertex_metadata a" "wf_vertex_metadata b" using good WriteEdgeWithVertexMetadata by simp_all
    from write_vertex_run[OF run g] have "J (seen view s')"
    proof (elim disjE conjE exE)
      assume "s' = s" then show "J (seen view s')" using start by simp
    qed (erule W, use good WriteEdgeWithVertexMetadata in simp_all)
    then show ?thesis using run WriteEdgeWithVertexMetadata by simp
  next
    case (WriteEdgeWithFullMetadata m a b em)
    obtain r s' where run: "write_edge_with_full_metadata ops sh m a b em s = (r, s')" by fastforce
    have g: "wf_vertex_metadata a" "wf_vertex_metadata b" using good WriteEdgeWithFullMetadata by simp_all
    from write_full_run[OF run g] have "J (seen view s')"
    proof (elim disjE conjE exE)
      assume "s' = s" then show "J (seen view s')" using start by simp
    qed (erule W, use good WriteEdgeWithFullMetadata in simp_all)
    then show ?thesis using run WriteEdgeWithFullMetadata by simp
  next
    case (DeleteEdge m)
    obtain r s' where run: "delete_edge ops sh m s = (r, s')" by fastforce
    from delete_edge_run[OF run] have "J (seen view s')"
    proof (elim disjE conjE exE)
      assume "s' = s" then show "J (seen view s')" using start by simp
    qed (erule D)
    then show ?thesis using run DeleteEdge by simp
  qed
qed

lemma run_op_inv:
  assumes "txn_faults ops view" "store_inv sh z (seen view s)" "op_ok z p"
  shows "store_inv sh z (seen view (run_op ops sh p s))"
proof (rule run_op_rule[where J = "store_inv sh z" and z = z, OF assms(1) _ _ _ assms(2,3)])
  show "store_inv sh z s'" if "unchanged s s'" "store_inv sh z s" for s s' using unchanged_inv(1)[OF that(1)] that(2) by simp
  show "store_inv sh z s'" if "valid_mutation m" "wf_updates us" "wf_edge_metadata em" "oper \<noteq> ''drop_cell''" "em_src m \<noteq> z" "em_dst m \<noteq> z"
    "store_inv sh z s" "write_edge_txn_locked_with_metadata map_ops sh m us em oper s = (Inr x, s')" for m us em oper s x s'
    using write_locked_step[OF that(8,7,1-6)] unchanged_inv(1) that(7) by blast
  show "store_inv sh z s'" if "valid_mutation m" "store_inv sh z s" "delete_edge_txn_locked map_ops sh m s = (Inr x, s')" for m s x s'
    using delete_locked_step[OF that(3,2,1)] unchanged_inv(1) that(2) by blast
qed

text \<open>C1 (graph_invariant_kept). Through every history of edge writes, with or without metadata, and deletes, on any store whose operations may
  fail, and whatever each call returned, the committed records keep the graph invariant: every edge has
  one representation, tombstones and changelog entries are not ahead of the store, the reverse index
  mirrors the forward one and the degree counters equal the numbers of visible edges.\<close>

theorem graph_invariant_kept:
  assumes "txn_faults ops view" "store_inv sh z (seen view s)" "\<forall>p \<in> set history. op_ok z p"
  shows "store_inv sh z (seen view (fold (run_op ops sh) history s))"
  using assms(2,3)
proof (induction history arbitrary: s)
  case (Cons p history)
  then show ?case using run_op_inv[OF assms(1) Cons.prems(1), of p] by simp
qed simp

theorem graph_invariant_kept_witness:
  "store_inv sample_env 9 (seen fk_txn (fold (run_op flaky_ops sample_env)
     [WriteEdge sample_write, WriteEdgeWithVertexMetadata sample_write vertex_metadata_default vertex_metadata_default,
      DeleteEdge sample_write] flaky_shard))"
  by (rule graph_invariant_kept[OF flaky.txn_faults_axioms empty_inv[folded flaky_seen]]) (simp add: sample_write_def)

subsection \<open>Progress\<close>

lemma attempts_first: "m s = (Inr x, s') \<Longrightarrow> txn_attempts (Suc n) m s = (Inr x, s')"
  by simp

lemma guarded_first:
  assumes "sh_write_permit sh oper = Inr ()" "sh_refresh_writer_fence sh = Inr ()" "valid_component c" "valid_component oper"
    and "wp tx Q s"
  shows "wp (guarded_write sh c oper tx) Q s"
proof -
  have g: "acquire_local_write_guard sh c oper = Inr ()" using assms(2-4) by (simp add: acquire_local_write_guard_def)
  obtain x s' where "tx s = (Inr x, s')" "Q x s'" using assms(5) by (auto simp: wp_def)
  then show ?thesis
    unfolding wp_def guarded_write_def assms(1) g prog_simps GRAPH_TXN_MAX_RETRIES_def
    by (metis attempts_first numeral_eq_Suc)
qed

text \<open>C14 (edge_requests_return). A cell that is not dropped, on a shard that holds the writer and admits the request, executes a valid write or delete
  at the first attempt: a new request commits and returns, and a repeated one returns its stored result.\<close>

theorem edge_requests_return:
  assumes "store_inv sh z s" "accepts sh (em_cell_id m) s" "valid_mutation m"
    and "\<forall>oper. sh_write_permit sh oper = Inr ()" "sh_refresh_writer_fence sh = Inr ()"
  shows "(kview (db s) (idem_create m) = None \<longrightarrow> (\<exists>res s'. write_edge map_ops sh m s = (Inr res, s')
       \<and> cr_already_existed res = ((em_src m, em_dst m) \<in> graph_of s (em_cell_id m) (em_edge_type m)) \<and> seq s' = seq s + 1))
    \<and> (kview (db s) (idem_delete m) = None \<longrightarrow> (\<exists>res s'. delete_edge map_ops sh m s = (Inr res, s')
       \<and> dr_deleted res = ((em_src m, em_dst m) \<in> graph_of s (em_cell_id m) (em_edge_type m)) \<and> seq s' = seq s + 1))
    \<and> (\<forall>res. kview (db s) (idem_create m) = Some (encode_commit_idempotency m res) \<longrightarrow>
        (\<exists>s'. write_edge map_ops sh m s = (Inr res, s')))
    \<and> (\<forall>res. kview (db s) (idem_delete m) = Some (encode_delete_idempotency m res) \<longrightarrow>
        (\<exists>s'. delete_edge map_ops sh m s = (Inr res, s')))"
proof -
  let ?w = "write_edge_txn_locked_with_metadata map_ops sh m [] edge_metadata_default ''write_edge''"
  let ?there = "(em_src m, em_dst m) \<in> graph_of s (em_cell_id m) (em_edge_type m)"
  have v: "validate_edge_mutation m = Inr ()" "valid_component (em_cell_id m)" "ensure_write_authority sh (em_cell_id m) oper = Inr ()" for oper
    using assms(2,3) by (simp_all add: validate_edge_mutation_def valid_mutation_def accepts_def authority_ok)
  have names: "valid_component ''write_edge''" "valid_component ''delete_edge''" by (simp_all add: valid_component_def component_byte_def)
  have writing: "wp (write_edge map_ops sh m) Q s" if "wp ?w Q s" for Q
    unfolding write_edge_def v prog_simps using assms(4,5) v names that by (intro guarded_first) simp_all
  have deleting: "wp (delete_edge map_ops sh m) Q s" if "wp (delete_edge_txn_locked map_ops sh m) Q s" for Q
    unfolding delete_edge_def v prog_simps using assms(4,5) v names that by (intro guarded_first) simp_all
  have g: "graph_inv sh z (as_map (opened s)) (as_seq (opened s))" using assms(1) by (simp add: store_inv_def)
  have bt: "bounded_tombstone (opened s) m"
    using g boundedD(2)[OF type_invD(1)] assms(3) unfolding graph_inv_def bounded_tombstone_def valid_mutation_def by metis
  have 1: "wp ?w (\<lambda>res s'. cr_already_existed res = ?there \<and> seq s' = seq s + 1) s" if "kview (db s) (idem_create m) = None"
    by (rule wp_write_locked[OF assms(2,3) wf_no_updates wf_default(2) that refl])
      (simp add: committed_def edge_visible_in graph_of_def edges_in_def insert_as_def Let_def split: if_splits)
  have 2: "wp (delete_edge_txn_locked map_ops sh m) (\<lambda>res s'. dr_deleted res = ?there \<and> seq s' = seq s + 1) s"
    if n: "kview (db s) (idem_delete m) = None"
  proof -
    obtain r s' where run: "delete_edge_txn_locked map_ops sh m s = (r, s')" by fastforce
    have "wp (delete_edge_txn_locked map_ops sh m) (\<lambda>_ _. True) s"
      by (rule wp_delete_locked[OF assms(2,3) n bt]) simp
    then have "is_ok r" using run by (auto simp: wp_def)
    then show ?thesis using delete_locked_step[OF run assms(1,3)] n run by (auto simp: wp_def graph_step_def)
  qed
  have 3: "wp ?w (\<lambda>x _. x = res) s" if "kview (db s) (idem_create m) = Some (encode_commit_idempotency m res)" for res
    by (rule wp_write_replay[OF assms(2,3) that]) simp
  have 4: "wp (delete_edge_txn_locked map_ops sh m) (\<lambda>x _. x = res) s"
    if "kview (db s) (idem_delete m) = Some (encode_delete_idempotency m res)" for res
    by (rule wp_delete_replay[OF assms(2,3) that]) simp
  show ?thesis
    using writing[OF 1] deleting[OF 2] writing[OF 3] deleting[OF 4] unfolding wp_def by blast
qed

theorem edge_requests_return_witness:
  "\<exists>res s'. write_edge map_ops sample_env sample_write empty_shard = (Inr res, s') \<and> \<not> cr_already_existed res \<and> seq s' = 1"
proof -
  have "accepts sample_env (em_cell_id sample_write) empty_shard"
    by (simp add: accepts_def writable_def sample_env_def empty_shard_def empty_txn_def)
  moreover have "valid_mutation sample_write"
    by (simp add: valid_mutation_def sample_write_def valid_component_def component_byte_def)
  moreover have "(em_src sample_write, em_dst sample_write) \<notin> graph_of empty_shard c t" for c t
    by (simp add: graph_of_def edges_in_def visible_in_def segment_in_def empty_shard_def empty_txn_def)
  ultimately show ?thesis
    using edge_requests_return[OF empty_inv, of sample_env sample_write] by (simp add: sample_env_def empty_shard_def empty_txn_def)
qed

end
