(* ===== verification/Write_Batch.thy ===== *)
theory Write_Batch
  imports Graph_History
begin

text \<open>
  Batches of writes: \<^verbatim>\<open>src/core/write_batch.rs\<close> and the batch writers of \<^verbatim>\<open>src/shard/maintenance.rs\<close>, through
  which maintenance, garbage collection and index publication change the store. A batch is a list of puts
  and deletes; a guarded batch first compares records. The local write guard only serialises writers of a
  cell and its release cannot fail, so taking it is its checks. Metrics and tracing are left out.
\<close>

datatype graph_write_op = PutOp bytes bytes | DeleteOp bytes

datatype graph_write_guard = AbsentGuard bytes | EqualsGuard bytes bytes

type_synonym graph_write_batch = "graph_write_op list"

definition batch_put :: "bytes \<Rightarrow> bytes \<Rightarrow> graph_write_batch \<Rightarrow> graph_write_batch" where
  "batch_put key value batch = batch @ [PutOp key value]"

definition batch_delete :: "bytes \<Rightarrow> graph_write_batch \<Rightarrow> graph_write_batch" where
  "batch_delete key batch = batch @ [DeleteOp key]"

definition read_counter :: "'t txn_ops \<Rightarrow> string \<Rightarrow> ('t shard_state, u64) prog" where
  "read_counter ops key =
     pbind (read_remote ops key) (\<lambda>value. case value of Some v \<Rightarrow> plift (decode_u64 key v) | None \<Rightarrow> preturn 0)"

fun write_graph_op :: "'t txn_ops \<Rightarrow> graph_write_op \<Rightarrow> ('t shard_state, unit) prog" where
  "write_graph_op ops (PutOp key value) = txn_put ops key value"
| "write_graph_op ops (DeleteOp key) = txn_delete ops key"

fun check_write_guard :: "'t txn_ops \<Rightarrow> string \<Rightarrow> graph_write_guard \<Rightarrow> ('t shard_state, unit) prog" where
  "check_write_guard ops operation (AbsentGuard key) =
     (let key_text = from_utf8_lossy key in
      pbind (read_txn_remote ops key_text) (\<lambda>actual.
        pif (actual \<noteq> None) (pfail (ConditionalWriteConflict operation key_text)) (preturn ())))"
| "check_write_guard ops operation (EqualsGuard key expected) =
     (let key_text = from_utf8_lossy key in
      pbind (read_txn_remote ops key_text) (\<lambda>actual.
        pif (actual \<noteq> Some expected) (pfail (ConditionalWriteConflict operation key_text)) (preturn ())))"

definition write_graph_batch_txn ::
    "'t txn_ops \<Rightarrow> shard_env \<Rightarrow> string \<Rightarrow> string \<Rightarrow> graph_write_batch \<Rightarrow> ('t shard_state, unit) prog" where
  "write_graph_batch_txn ops sh cell_id operation batch =
     pbind (plift (db_writer sh)) (\<lambda>_.
     pbind (txn_begin ops) (\<lambda>_.
     pbind (validate_write_fence_txn ops sh cell_id operation) (\<lambda>_.
     pbind (pfor batch (write_graph_op ops)) (\<lambda>_.
       commit_txn_strict ops (sh_await_durable_writes sh)))))"

definition write_graph_batch_guarded_txn ::
    "'t txn_ops \<Rightarrow> shard_env \<Rightarrow> string \<Rightarrow> string \<Rightarrow> graph_write_guard list \<Rightarrow> graph_write_batch \<Rightarrow> ('t shard_state, unit) prog" where
  "write_graph_batch_guarded_txn ops sh cell_id operation guards batch =
     pbind (plift (db_writer sh)) (\<lambda>_.
     pbind (txn_begin ops) (\<lambda>_.
     pbind (validate_write_fence_txn ops sh cell_id operation) (\<lambda>_.
     pbind (pfor guards (check_write_guard ops operation)) (\<lambda>_.
     pbind (pfor batch (write_graph_op ops)) (\<lambda>_.
       commit_txn_strict ops (sh_await_durable_writes sh))))))"

definition write_graph_batch_strict ::
    "'t txn_ops \<Rightarrow> shard_env \<Rightarrow> string \<Rightarrow> string \<Rightarrow> graph_write_batch \<Rightarrow> ('t shard_state, unit) prog" where
  "write_graph_batch_strict ops sh cell_id operation batch =
     pbind (plift (validate_component ''cell_id'' cell_id)) (\<lambda>_.
       pif (batch = []) (preturn ())
         (txn_attempts GRAPH_TXN_MAX_RETRIES (write_graph_batch_txn ops sh cell_id operation batch)))"

definition write_graph_batch_strict_guarded ::
    "'t txn_ops \<Rightarrow> shard_env \<Rightarrow> string \<Rightarrow> string \<Rightarrow> graph_write_guard list \<Rightarrow> graph_write_batch \<Rightarrow> ('t shard_state, unit) prog" where
  "write_graph_batch_strict_guarded ops sh cell_id operation guards batch =
     pbind (plift (validate_component ''cell_id'' cell_id)) (\<lambda>_.
       pif (batch = []) (preturn ())
         (txn_attempts GRAPH_TXN_MAX_RETRIES (write_graph_batch_guarded_txn ops sh cell_id operation guards batch)))"

definition write_graph_batch_strict_with_cell_lock ::
    "'t txn_ops \<Rightarrow> shard_env \<Rightarrow> string \<Rightarrow> string \<Rightarrow> graph_write_batch \<Rightarrow> ('t shard_state, unit) prog" where
  "write_graph_batch_strict_with_cell_lock ops sh cell_id operation batch =
     pif (batch = []) (preturn ())
       (pbind (plift (acquire_local_write_guard sh cell_id operation)) (\<lambda>_.
          write_graph_batch_strict ops sh cell_id operation batch))"

subsection \<open>The effect of a batch\<close>

fun apply_op :: "graph_write_op \<Rightarrow> (bytes, bytes) btmap \<Rightarrow> (bytes, bytes) btmap" where
  "apply_op (PutOp key value) m = bt_insert key value m"
| "apply_op (DeleteOp key) m = bt_remove key m"

definition apply_batch :: "graph_write_batch \<Rightarrow> (bytes, bytes) btmap \<Rightarrow> (bytes, bytes) btmap" where
  "apply_batch batch m = fold apply_op batch m"

fun op_key :: "graph_write_op \<Rightarrow> bytes" where
  "op_key (PutOp key value) = key"
| "op_key (DeleteOp key) = key"

fun op_value :: "graph_write_op \<Rightarrow> bytes option" where
  "op_value (PutOp key value) = Some value"
| "op_value (DeleteOp key) = None"

lemma apply_op_ok [simp]: "bt_ok m \<Longrightarrow> bt_ok (apply_op w m)"
  by (cases w) simp_all

lemma apply_op_get: "bt_ok m \<Longrightarrow> bt_get (apply_op w m) = (bt_get m)(op_key w := op_value w)"
  by (cases w) (simp_all add: bt_get_insert bt_get_remove)

lemma apply_batch_ok [simp]: "bt_ok m \<Longrightarrow> bt_ok (apply_batch ws m)"
  unfolding apply_batch_def by (induction ws arbitrary: m) simp_all

lemma apply_batch_Cons [simp]: "apply_batch (w # ws) m = apply_batch ws (apply_op w m)"
  by (simp add: apply_batch_def)

lemma apply_batch_Nil [simp]: "apply_batch [] m = m"
  by (simp add: apply_batch_def)

lemma apply_batch_append: "apply_batch (vs @ ws) m = apply_batch ws (apply_batch vs m)"
  by (simp add: apply_batch_def)

lemma apply_batch_other: "bt_ok m \<Longrightarrow> k \<notin> op_key ` set ws \<Longrightarrow> bt_get (apply_batch ws m) k = bt_get m k"
proof (induction ws arbitrary: m)
  case (Cons w ws)
  then show ?case using Cons.IH[of "apply_op w m"] by (simp add: apply_op_get)
qed simp

text \<open>The last operation on a key decides, so a batch has the same effect whatever held its keys before.\<close>

lemma apply_batch_agree:
  "bt_ok m \<Longrightarrow> bt_ok n \<Longrightarrow> (\<And>k. k \<notin> op_key ` set ws \<Longrightarrow> bt_get m k = bt_get n k) \<Longrightarrow> apply_batch ws m = apply_batch ws n"
proof (induction ws arbitrary: m n)
  case Nil
  then show ?case by (simp add: bt_ext fun_eq_iff)
next
  case (Cons w ws)
  show ?case unfolding apply_batch_Cons
    by (rule Cons.IH) (use Cons.prems in \<open>auto simp: apply_op_get\<close>)
qed

lemma apply_batch_again: "bt_ok m \<Longrightarrow> apply_batch ws (apply_batch ws m) = apply_batch ws m"
  by (rule apply_batch_agree) (simp_all add: apply_batch_other)

definition guard_holds :: "(bytes, bytes) btmap \<Rightarrow> graph_write_guard \<Rightarrow> bool" where
  "guard_holds m guard = (case guard of
     AbsentGuard key \<Rightarrow> bt_get m (from_utf8_lossy key) = None
   | EqualsGuard key expected \<Rightarrow> bt_get m (from_utf8_lossy key) = Some expected)"

subsection \<open>Runs on the reference store\<close>

lemma write_ops_run:
  "pfor ws (write_graph_op map_ops) s = (Inr (), s\<lparr>ss_txn := (ss_txn s)\<lparr>mt_view := apply_batch ws (mt_view (ss_txn s)),
     mt_dirty := (ws \<noteq> [] \<or> mt_dirty (ss_txn s))\<rparr>\<rparr>)"
proof (induction ws arbitrary: s)
  case (Cons w ws)
  then show ?case by (cases w) (simp_all add: pbind_def put_eval delete_eval)
qed (simp add: preturn_def)

lemma guards_run:
  "pfor gs (check_write_guard map_ops oper) s = (Inr u, s') \<Longrightarrow> s' = s \<and> list_all (guard_holds (mt_view (ss_txn s))) gs"
proof (induction gs arbitrary: s)
  case (Cons g gs)
  then show ?case
    by (cases g) (auto simp: pbind_def read_eval Let_def pif_def preturn_def pfail_def guard_holds_def split: if_splits)
qed (simp add: preturn_def)

lemma fence_run: "validate_write_fence_txn map_ops sh c oper s = (Inr u, s') \<Longrightarrow> s' = s"
  by (auto simp: validate_write_fence_txn_def pbind_def read_eval pif_def preturn_def pfail_def plift_def split: if_splits sum.splits)

lemma commit_run:
  assumes "commit_txn_strict map_ops d s = (Inr u, s')" "mt_dirty (ss_txn s)"
  shows "db s' = mt_view (ss_txn s) \<and> seq s' = seq s + 1 \<and> seq s \<noteq> - 1 \<and> ss_floor s' = ss_floor s"
  using assms u64_max
  by (auto simp: commit_txn_strict_def commit_txn_strict_with_sequence_def pbind_Inr txn_seqnum_def plift_def preturn_def on_txn_def
      checked_add_def ok_or_def split: if_splits option.splits)

lemma guarded_txn_run:
  assumes "write_graph_batch_guarded_txn map_ops sh c oper gs ws s = (Inr u, s')" "ws \<noteq> []"
  shows "db s' = apply_batch ws (db s)" "seq s' = seq s + 1" "seq s \<noteq> - 1" "ss_floor s' = ss_floor s" "list_all (guard_holds (db s)) gs"
proof -
  let ?s1 = "s\<lparr>ss_txn := (ss_txn s)\<lparr>mt_view := db s, mt_dirty := False\<rparr>\<rparr>"
  let ?s2 = "?s1\<lparr>ss_txn := (ss_txn ?s1)\<lparr>mt_view := apply_batch ws (db s), mt_dirty := True\<rparr>\<rparr>"
  have b: "txn_begin map_ops s = (Inr (), ?s1)" by (simp add: txn_begin_def on_txn_def)
  obtain s2 s3 where s2: "validate_write_fence_txn map_ops sh c oper ?s1 = (Inr (), s2)"
    and s3: "pfor gs (check_write_guard map_ops oper) s2 = (Inr (), s3)"
    and fin: "pbind (pfor ws (write_graph_op map_ops)) (\<lambda>_. commit_txn_strict map_ops (sh_await_durable_writes sh)) s3 = (Inr u, s')"
    using assms(1) b unfolding write_graph_batch_guarded_txn_def by (auto simp: pbind_Inr plift_def)
  have e: "s2 = ?s1" "s3 = ?s1" "list_all (guard_holds (db s)) gs"
    using fence_run[OF s2] guards_run[OF s3] by auto
  have "commit_txn_strict map_ops (sh_await_durable_writes sh) ?s2 = (Inr u, s')"
    using fin assms(2) unfolding e(2) by (simp add: pbind_def write_ops_run)
  from commit_run[OF this] show "db s' = apply_batch ws (db s)" "seq s' = seq s + 1" "seq s \<noteq> - 1" "ss_floor s' = ss_floor s" by simp_all
  show "list_all (guard_holds (db s)) gs" by (rule e(3))
qed

lemma unguarded_txn: "write_graph_batch_txn ops sh c oper ws = write_graph_batch_guarded_txn ops sh c oper [] ws"
  by (simp add: write_graph_batch_txn_def write_graph_batch_guarded_txn_def prog_simps)

lemma unguarded_strict: "write_graph_batch_strict ops sh c oper ws = write_graph_batch_strict_guarded ops sh c oper [] ws"
  by (simp add: write_graph_batch_strict_def write_graph_batch_strict_guarded_def unguarded_txn)

context txn_faults
begin

lemma sim_batch_steps:
  "sim (write_graph_op ops w) (write_graph_op map_ops w)" "quiet (write_graph_op ops w)"
  "sim (check_write_guard ops oper g) (check_write_guard map_ops oper g)" "quiet (check_write_guard ops oper g)"
proof -
  show "sim (write_graph_op ops w) (write_graph_op map_ops w)" by (cases w) (simp_all add: sim_ops)
  show "quiet (write_graph_op ops w)" by (cases w) (simp_all add: quiet_ops)
  show "sim (check_write_guard ops oper g) (check_write_guard map_ops oper g)"
    by (cases g; simp only: check_write_guard.simps Let_def; intro sim_rules)
  show "quiet (check_write_guard ops oper g)"
    by (cases g; simp only: check_write_guard.simps Let_def; intro quiet_rules)
qed

lemma outcome_batch:
  "outcome_sim (write_graph_batch_guarded_txn ops sh c oper gs ws) (write_graph_batch_guarded_txn map_ops sh c oper gs ws)"
  unfolding write_graph_batch_guarded_txn_def
  by (intro outcome_pbind outcome_commit sim_rules quiet_rules sim_batch_steps sim_fence)

text \<open>A property of the committed records that the batch keeps holds after the retry loop.\<close>

lemma batch_rule:
  assumes step: "\<And>s s'. J s \<Longrightarrow> db s' = apply_batch ws (db s) \<Longrightarrow> seq s' = seq s + 1 \<Longrightarrow> seq s \<noteq> - 1 \<Longrightarrow> list_all (guard_holds (db s)) gs \<Longrightarrow> J s' \<and> K s'"
    and closed: "\<And>s s'. unchanged s s' \<Longrightarrow> J s \<Longrightarrow> J s'" "\<And>s s'. unchanged s s' \<Longrightarrow> K s \<Longrightarrow> K s'"
    and start: "J (abs_state s)" and ws: "ws \<noteq> []" and run: "write_graph_batch_strict_guarded ops sh c oper gs ws s = (r, s')"
  shows "J (abs_state s') \<and> (is_ok r \<longrightarrow> K (abs_state s'))"
proof -
  let ?tx = "write_graph_batch_guarded_txn ops sh c oper gs ws" and ?rtx = "write_graph_batch_guarded_txn map_ops sh c oper gs ws"
  have tx: "J (abs_state s2) \<and> (\<forall>x. r1 = Inr x \<longrightarrow> K (abs_state s2))" if J: "J (abs_state s1)" and one: "?tx s1 = (r1, s2)" for s1 r1 s2
  proof -
    have st: "J s3 \<and> K s3" if "?rtx (abs_state s1) = (Inr x, s3)" for x s3
      using step[OF J] guarded_txn_run[OF that ws] by blast
    show ?thesis
    proof (cases r1)
      case (Inl e)
      with outcome_batch one have "unchanged (abs_state s1) (abs_state s2) \<or> (\<exists>x s3. ?rtx (abs_state s1) = (Inr x, s3) \<and> unchanged s3 (abs_state s2))"
        unfolding outcome_sim_def by blast
      then have "J (abs_state s2)" using J st closed(1) by blast
      then show ?thesis using Inl by simp
    next
      case (Inr x)
      then have "?rtx (abs_state s1) = (Inr x, abs_state s2)" using simD[of ?tx ?rtx] outcome_batch one by (simp add: outcome_sim_def)
      then show ?thesis using st by blast
    qed
  qed
  show ?thesis
  proof (cases "validate_component ''cell_id'' c")
    case (Inl e)
    then have "r = Inl e" "s' = s" using run by (auto simp: write_graph_batch_strict_guarded_def pbind_def plift_def)
    then show ?thesis using start by simp
  next
    case (Inr u)
    then have "txn_attempts GRAPH_TXN_MAX_RETRIES ?tx s = (r, s')"
      using run ws by (simp add: write_graph_batch_strict_guarded_def pbind_def plift_def pif_def)
    from attempts_rule[where J = "\<lambda>s. J (abs_state s)" and K = "\<lambda>x s. K (abs_state s)", OF tx start this]
    show ?thesis by (cases r) auto
  qed
qed

end

subsection \<open>Property\<close>

text \<open>C8 (batch_all_or_nothing). A guarded batch is atomic through faults and retries: whatever the call returns and however often the
  transaction was repeated, the committed records are either the old ones or the old ones with the whole batch applied once;
  an acknowledged batch has been applied, and when a guard does not hold the call fails and nothing has changed.\<close>

theorem batch_all_or_nothing:
  assumes "txn_faults ops view" "bt_ok (db (seen view s))" "batch \<noteq> []"
    and "write_graph_batch_strict_guarded ops sh c oper guards batch s = (r, s')"
  shows "db (seen view s') \<in> {db (seen view s), apply_batch batch (db (seen view s))}
    \<and> (is_ok r \<longrightarrow> db (seen view s') = apply_batch batch (db (seen view s)))
    \<and> (\<not> list_all (guard_holds (db (seen view s))) guards \<longrightarrow> \<not> is_ok r \<and> db (seen view s') = db (seen view s))"
proof -
  have st: "txn_refines.abs_state view s1 = seen view s1" for s1
    using txn_refines.abs_state_def[OF txn_faults.axioms(1)[OF assms(1)]] .
  let ?m = "db (seen view s)"
  let ?G = "list_all (guard_holds ?m) guards"
  have again: "apply_batch batch (apply_batch batch ?m) = apply_batch batch ?m" using assms(2) by (rule apply_batch_again)
  have "(db (seen view s') = ?m \<or> ?G \<and> db (seen view s') = apply_batch batch ?m)
      \<and> (is_ok r \<longrightarrow> ?G \<and> db (seen view s') = apply_batch batch ?m)"
    by (rule txn_faults.batch_rule[OF assms(1), where J = "\<lambda>s1. db s1 = ?m \<or> ?G \<and> db s1 = apply_batch batch ?m"
          and K = "\<lambda>s1. ?G \<and> db s1 = apply_batch batch ?m", unfolded st, OF _ _ _ _ assms(3,4)])
      (use again in \<open>auto simp: same_store_def\<close>)
  then show ?thesis by auto
qed

text \<open>Witness of C8 (batch_all_or_nothing): a batch of two operations under a guard that holds.\<close>

theorem batch_all_or_nothing_witness:
  "db (seen (\<lambda>t. t) (snd (write_graph_batch_strict_guarded map_ops sample_env ''c'' ''gc'' [AbsentGuard ''k'']
     [PutOp ''k'' ''v'', DeleteOp ''j''] empty_shard))) \<in> {[], [(''k'', ''v'')]}"
proof -
  obtain r s' where run: "write_graph_batch_strict_guarded map_ops sample_env ''c'' ''gc'' [AbsentGuard ''k'']
     [PutOp ''k'' ''v'', DeleteOp ''j''] empty_shard = (r, s')" by fastforce
  have "db (seen (\<lambda>t. t) empty_shard) = []" by (simp add: empty_shard_def empty_txn_def)
  with batch_all_or_nothing[OF exact.txn_faults_axioms _ _ run] run show ?thesis by (simp add: bt_remove_def)
qed

end
