(* ===== verification/Snapshot_Read.thy ===== *)
theory Snapshot_Read
  imports Segment_Read
begin

text \<open>
  \<^verbatim>\<open>src/shard/query.rs\<close>, adjacency reads against a pinned storage snapshot: existence of an edge, outgoing and
  incoming neighbours, and the stored degree. A snapshot is its point read, its prefix scan and its bounded
  prefix scan, each of which may fail; \<open>pinned\<close> is the contract of a snapshot of a store: a read that succeeds answers from that store.
  On a well-formed store the snapshot reads agree with the reads inside a transaction (\<^verbatim>\<open>src/codec.rs\<close>): both
  return the visible edges.
\<close>

record storage_snapshot =
  sn_get :: "bytes \<Rightarrow> bytes option result"
  sn_scan :: "bytes \<Rightarrow> (bytes \<times> bytes) list result"
  sn_range :: "bytes \<Rightarrow> bytes \<Rightarrow> bytes \<Rightarrow> (bytes \<times> bytes) list result"
  sn_seq :: storage_sequence

definition snapshot_of :: "(bytes, bytes) btmap \<Rightarrow> storage_sequence \<Rightarrow> storage_snapshot" where
  "snapshot_of m q = \<lparr>sn_get = (\<lambda>k. Inr (bt_get m k)), sn_scan = (\<lambda>p. Inr (scan p m)),
     sn_range = (\<lambda>p lo hi. Inr (filter (\<lambda>kv. in_subrange p (Some lo) (Some hi) (fst kv)) m)), sn_seq = q\<rparr>"

fun edge_exists_loop :: "storage_sequence \<Rightarrow> storage_sequence option \<Rightarrow> vertex_id \<Rightarrow> (bytes \<times> bytes) list \<Rightarrow> bool result" where
  "edge_exists_loop topology_sequence tombstone_epoch dst [] = Inr False"
| "edge_exists_loop topology_sequence tombstone_epoch dst (kv # kvs) =
     rbind (decode_out_edge_segment (from_utf8_lossy (fst kv)) (snd kv)) (\<lambda>segment.
       if topology_sequence < os_storage_sequence segment then Inr False
       else if list_ex (\<lambda>candidate. candidate = dst \<and> segment_edge_visible (os_storage_sequence segment) tombstone_epoch)
              (os_destinations segment) then Inr True
       else edge_exists_loop topology_sequence tombstone_epoch dst kvs)"

definition edge_exists_in_storage_snapshot ::
    "storage_snapshot \<Rightarrow> string \<Rightarrow> string \<Rightarrow> vertex_id \<Rightarrow> vertex_id \<Rightarrow> storage_sequence \<Rightarrow> bool result" where
  "edge_exists_in_storage_snapshot snapshot cell_id edge_type src dst topology_sequence =
     rbind (validate_component ''cell_id'' cell_id) (\<lambda>_.
     rbind (validate_component ''edge_type'' edge_type) (\<lambda>_.
     rbind (sn_get snapshot (out_edge cell_id edge_type src dst)) (\<lambda>direct.
     if direct \<noteq> None then Inr True
     else let tombstone_key = out_segment_tombstone cell_id edge_type src dst in
       rbind (sn_get snapshot tombstone_key) (\<lambda>tombstone.
       rbind (case tombstone of
                Some value \<Rightarrow> rbind (decode_u64 tombstone_key value) (\<lambda>epoch.
                  Inr (if epoch \<le> topology_sequence then Some epoch else None))
              | None \<Rightarrow> Inr None) (\<lambda>tombstone_epoch.
       rbind (sn_scan snapshot (out_segment_src_prefix cell_id edge_type src)) (\<lambda>kvs.
         edge_exists_loop topology_sequence tombstone_epoch dst kvs))))))"

definition snapshot_tombstone_step ::
    "string \<Rightarrow> string \<Rightarrow> vertex_id \<Rightarrow> storage_sequence \<Rightarrow> bytes \<times> bytes
     \<Rightarrow> (vertex_id, storage_sequence) btmap \<Rightarrow> (vertex_id, storage_sequence) btmap result" where
  "snapshot_tombstone_step cell_id edge_type src topology_sequence kv tombstones =
     (let key = from_utf8_lossy (fst kv) in
      rbind (parse_out_edge_segment_tombstone_key key) (\<lambda>(key_cell_id, key_edge_type, key_src, dst).
        if key_cell_id \<noteq> cell_id \<or> key_edge_type \<noteq> edge_type \<or> key_src \<noteq> src then
          Inl (CorruptValue key ''segment tombstone identity does not match snapshot prefix'')
        else rbind (decode_u64 key (snd kv)) (\<lambda>epoch.
          Inr (if epoch \<le> topology_sequence then bt_insert dst epoch tombstones else tombstones))))"

fun segment_neighbors_loop ::
    "storage_sequence \<Rightarrow> (vertex_id, storage_sequence) btmap \<Rightarrow> (bytes \<times> bytes) list \<Rightarrow> vertex_id btset \<Rightarrow> vertex_id btset result" where
  "segment_neighbors_loop topology_sequence tombstones [] neighbors = Inr neighbors"
| "segment_neighbors_loop topology_sequence tombstones (kv # kvs) neighbors =
     rbind (decode_out_edge_segment (from_utf8_lossy (fst kv)) (snd kv)) (\<lambda>segment.
       if topology_sequence < os_storage_sequence segment then Inr neighbors
       else segment_neighbors_loop topology_sequence tombstones kvs
              (bs_extend neighbors (filter (\<lambda>dst. segment_edge_visible (os_storage_sequence segment) (bt_get tombstones dst))
                 (os_destinations segment))))"

text \<open>
  The stored degree only chooses the block-cache policy of the scan, but reading it can fail, and a degree record
  that does not decode fails the whole read.
\<close>

definition degree_for_cache_admission :: "storage_snapshot \<Rightarrow> string \<Rightarrow> u64 result" where
  "degree_for_cache_admission snapshot key =
     rbind (sn_get snapshot key) (\<lambda>value. case value of Some v \<Rightarrow> decode_u64 key v | None \<Rightarrow> Inr (- 1))"

definition out_neighbors_in_storage_snapshot ::
    "storage_snapshot \<Rightarrow> string \<Rightarrow> string \<Rightarrow> vertex_id \<Rightarrow> storage_sequence \<Rightarrow> vertex_id list result" where
  "out_neighbors_in_storage_snapshot snapshot cell_id edge_type src topology_sequence =
     rbind (validate_component ''cell_id'' cell_id) (\<lambda>_.
     rbind (validate_component ''edge_type'' edge_type) (\<lambda>_.
     rbind (degree_for_cache_admission snapshot (degree_out cell_id edge_type src)) (\<lambda>_.
     rbind (sn_scan snapshot (out_prefix cell_id edge_type src)) (\<lambda>kvs.
     rbind (rfold edge_scan_step kvs []) (\<lambda>neighbors.
     rbind (sn_scan snapshot (out_segment_tombstone_src_prefix cell_id edge_type src)) (\<lambda>tombstone_kvs.
     rbind (rfold (snapshot_tombstone_step cell_id edge_type src topology_sequence) tombstone_kvs []) (\<lambda>tombstones.
     rbind (sn_scan snapshot (out_segment_src_prefix cell_id edge_type src)) (\<lambda>segments.
       segment_neighbors_loop topology_sequence tombstones segments neighbors))))))))"

definition out_degree_in_storage_snapshot :: "storage_snapshot \<Rightarrow> string \<Rightarrow> string \<Rightarrow> vertex_id \<Rightarrow> u64 result" where
  "out_degree_in_storage_snapshot snapshot cell_id edge_type src =
     rbind (validate_component ''cell_id'' cell_id) (\<lambda>_.
     rbind (validate_component ''edge_type'' edge_type) (\<lambda>_.
     let key = degree_out cell_id edge_type src in
     rbind (sn_get snapshot key) (\<lambda>value. case value of Some v \<Rightarrow> decode_u64 key v | None \<Rightarrow> Inr 0)))"

definition in_edge_step :: "bytes \<times> bytes \<Rightarrow> vertex_id btset \<Rightarrow> vertex_id btset result" where
  "in_edge_step kv neighbors =
     rbind (decode_edge_record (from_utf8_lossy (fst kv)) (snd kv)) (\<lambda>record.
       Inr (bs_insert (er_src record) neighbors))"

definition in_neighbors_in_storage_snapshot ::
    "storage_snapshot \<Rightarrow> string \<Rightarrow> string \<Rightarrow> vertex_id \<Rightarrow> vertex_id list result" where
  "in_neighbors_in_storage_snapshot snapshot cell_id edge_type dst =
     rbind (validate_component ''cell_id'' cell_id) (\<lambda>_.
     rbind (validate_component ''edge_type'' edge_type) (\<lambda>_.
     rbind (degree_for_cache_admission snapshot (degree_in cell_id edge_type dst)) (\<lambda>_.
     rbind (sn_scan snapshot (in_prefix cell_id edge_type dst)) (\<lambda>kvs.
       rfold in_edge_step kvs []))))"

subsection \<open>The scan loops\<close>

lemma add_segment_keys:
  "fst ` set (add_segment_edge T q d edges) = (if segment_edge_visible q (bt_get T d) then {d} else {}) \<union> fst ` set edges"
  by (auto simp: add_segment_edge_def bt_insert_keys)

lemma add_segment_keys_fold:
  "fst ` set (fold (add_segment_edge T q) ds edges) = {d \<in> set ds. segment_edge_visible q (bt_get T d)} \<union> fst ` set edges"
proof (induction ds arbitrary: edges)
  case (Cons d ds)
  then show ?case by (auto simp: add_segment_keys)
qed simp

lemma segment_scan_grows: "segment_scan_loop r T kvs edges = Inr edges' \<Longrightarrow> fst ` set edges \<subseteq> fst ` set edges'"
proof (induction r T kvs edges rule: segment_scan_loop.induct)
  case (2 r T kv kvs edges)
  then obtain segment where seg: "decode_out_edge_segment (from_utf8_lossy (fst kv)) (snd kv) = Inr segment"
    by (auto simp: rbind_Inr_iff)
  show ?case
  proof (cases "r < os_storage_sequence segment")
    case True
    then show ?thesis using "2.prems" seg by simp
  next
    case False
    then show ?thesis using "2.IH"[OF False] "2.prems" seg by (simp add: add_segment_keys_fold)
  qed
qed simp

lemma edge_exists_loop_scan:
  "segment_scan_loop r T kvs edges = Inr edges' \<Longrightarrow> dst \<notin> fst ` set edges \<Longrightarrow>
   edge_exists_loop r (bt_get T dst) dst kvs = Inr (dst \<in> fst ` set edges')"
proof (induction r T kvs edges rule: segment_scan_loop.induct)
  case (2 r T kv kvs edges)
  then obtain segment where seg: "decode_out_edge_segment (from_utf8_lossy (fst kv)) (snd kv) = Inr segment"
    by (auto simp: rbind_Inr_iff)
  show ?case
  proof (cases "r < os_storage_sequence segment")
    case True
    then show ?thesis using "2.prems" seg by simp
  next
    case False
    let ?q = "os_storage_sequence segment" and ?ds = "os_destinations segment"
    let ?edges = "fold (add_segment_edge T ?q) ?ds edges"
    have rest: "segment_scan_loop r T kvs ?edges = Inr edges'" using "2.prems"(1) False seg by simp
    have hit: "dst \<in> fst ` set ?edges \<longleftrightarrow> dst \<in> set ?ds \<and> segment_edge_visible ?q (bt_get T dst)"
      using "2.prems"(2) by (simp add: add_segment_keys_fold)
    show ?thesis
    proof (cases "dst \<in> fst ` set ?edges")
      case True
      then have "dst \<in> fst ` set edges'" using segment_scan_grows[OF rest] by blast
      then show ?thesis using True hit seg False by (auto simp: list_ex_iff)
    next
      case no: False
      then show ?thesis using "2.IH"[OF False rest no] hit seg False by (auto simp: list_ex_iff)
    qed
  qed
qed simp

lemma segment_neighbors_scan:
  "segment_scan_loop r T kvs edges = Inr edges' \<Longrightarrow> bs_ok ns \<Longrightarrow> set ns = N \<union> fst ` set edges \<Longrightarrow>
   \<exists>ns'. segment_neighbors_loop r T kvs ns = Inr ns' \<and> bs_ok ns' \<and> set ns' = N \<union> fst ` set edges'"
proof (induction r T kvs edges arbitrary: ns rule: segment_scan_loop.induct)
  case (2 r T kv kvs edges)
  then obtain segment where seg: "decode_out_edge_segment (from_utf8_lossy (fst kv)) (snd kv) = Inr segment"
    by (auto simp: rbind_Inr_iff)
  show ?case
  proof (cases "r < os_storage_sequence segment")
    case True
    then show ?thesis using "2.prems" seg by simp
  next
    case False
    let ?q = "os_storage_sequence segment" and ?ds = "os_destinations segment"
    let ?ns = "bs_extend ns (filter (\<lambda>dst. segment_edge_visible ?q (bt_get T dst)) ?ds)"
    have rest: "segment_scan_loop r T kvs (fold (add_segment_edge T ?q) ?ds edges) = Inr edges'" using "2.prems"(1) False seg by simp
    have "set ?ns = N \<union> fst ` set (fold (add_segment_edge T ?q) ?ds edges)" using "2.prems"(3) by (auto simp: add_segment_keys_fold)
    then show ?thesis using "2.IH"[OF False rest bs_ok_extend[OF "2.prems"(2)]] seg False by simp
  qed
qed simp

subsection \<open>Reads of a pinned store\<close>

locale pinned =
  fixes snap :: storage_snapshot
    and m :: "(bytes, bytes) btmap"
  assumes get_law: "sn_get snap k = Inr v \<Longrightarrow> v = bt_get m k"
    and scan_law: "sn_scan snap p = Inr kvs \<Longrightarrow> kvs = scan p m"
    and range_law: "sn_range snap p lo hi = Inr kvs \<Longrightarrow> kvs = filter (\<lambda>kv. in_subrange p (Some lo) (Some hi) (fst kv)) m"
begin

lemma get_agrees: "rbind (sn_get snap k) f = Inr x \<Longrightarrow> f (bt_get m k) = Inr x"
  using get_law by (auto simp: rbind_Inr_iff)

lemma scan_agrees: "rbind (sn_scan snap p) f = Inr x \<Longrightarrow> f (scan p m) = Inr x"
  using scan_law by (auto simp: rbind_Inr_iff)

lemma exists_agrees:
  assumes "edge_exists_in_storage_snapshot snap c t s d r = Inr b"
  shows "edge_exists_in_storage_snapshot (snapshot_of m q) c t s d r = Inr b"
  using assms unfolding edge_exists_in_storage_snapshot_def snapshot_of_def storage_snapshot.simps Let_def
  by (auto simp: rbind_Inr_iff split: if_splits dest: get_law scan_law)

lemma degree_agrees: "degree_for_cache_admission snap k = Inr n \<Longrightarrow> degree_for_cache_admission (snapshot_of m q) k = Inr n"
  by (auto simp: degree_for_cache_admission_def snapshot_of_def rbind_Inr_iff dest: get_law)

lemma out_neighbors_agrees:
  assumes "out_neighbors_in_storage_snapshot snap c t s r = Inr ns"
  shows "out_neighbors_in_storage_snapshot (snapshot_of m q) c t s r = Inr ns"
  using assms degree_agrees[of _ _ q] unfolding out_neighbors_in_storage_snapshot_def
  by (auto simp: rbind_Inr_iff snapshot_of_def dest!: scan_law)

lemma in_neighbors_agrees:
  assumes "in_neighbors_in_storage_snapshot snap c t d = Inr ns"
  shows "in_neighbors_in_storage_snapshot (snapshot_of m q) c t d = Inr ns"
  using assms degree_agrees[of _ _ q] unfolding in_neighbors_in_storage_snapshot_def
  by (auto simp: rbind_Inr_iff snapshot_of_def dest!: scan_law)

end

interpretation exact_snapshot: pinned "snapshot_of m q" m for m q
  by unfold_locales (simp_all add: snapshot_of_def)

lemma snapshot_of_simps [simp]:
  "sn_get (snapshot_of m q) k = Inr (bt_get m k)" "sn_scan (snapshot_of m q) p = Inr (scan p m)"
  "sn_range (snapshot_of m q) p lo hi = Inr (filter (\<lambda>kv. in_subrange p (Some lo) (Some hi) (fst kv)) m)" "sn_seq (snapshot_of m q) = q"
  by (simp_all add: snapshot_of_def)

lemma segment_scan_exact:
  assumes "wf_store m" "valid_component c" "valid_component t"
  shows "\<exists>T edges. rfold (tombstone_scan_step c t s r) (scan (out_segment_tombstone_src_prefix c t s) m) [] = Inr T
    \<and> (\<forall>d e. bt_get T d = Some e \<longleftrightarrow> kview m (KOutTombstone c t s d) = Some (encode_u64 e) \<and> e \<le> r)
    \<and> segment_scan_loop r T (scan (out_segment_src_prefix c t s) m) [] = Inr edges
    \<and> fst ` set edges = {d. \<exists>q. segment_visible m c t s r d q}"
proof -
  let ?st = "\<lparr>ss_txn = \<lparr>mt_view = m, mt_durable = m, mt_seq = 0, mt_dirty = False\<rparr>, ss_floor = []\<rparr>"
  obtain T where T: "rfold (tombstone_scan_step c t s r) (scan (out_segment_tombstone_src_prefix c t s) m) [] = Inr T"
    "\<forall>d e. bt_get T d = Some e \<longleftrightarrow> kview m (KOutTombstone c t s d) = Some (encode_u64 e) \<and> e \<le> r"
    using tombstone_scan_family[OF assms] by blast
  obtain edges where e: "out_segment_edges_for_src_txn map_ops c t s r ?st = (Inr edges, ?st)"
    "latest_of {(d, q). segment_visible m c t s r d q} edges"
    using segment_edges_exact[of ?st c t s r] assms by auto
  have "segment_scan_loop r T (scan (out_segment_src_prefix c t s) m) [] = Inr edges"
    using e(1) unfolding out_segment_edges_for_src_txn_def
    by (cases "segment_scan_loop r T (scan (out_segment_src_prefix c t s) m) []") (simp_all add: prog_simps T(1))
  then show ?thesis using T latest_of_keys[OF e(2)] by auto
qed

lemma edge_exists_exact:
  assumes wf: "wf_store m" and v: "valid_component c" "valid_component t"
  shows "edge_exists_in_storage_snapshot (snapshot_of m q) c t s d r = Inr (edge_visible m c t s r d)"
proof -
  obtain T edges where T: "\<forall>d e. bt_get T d = Some e \<longleftrightarrow> kview m (KOutTombstone c t s d) = Some (encode_u64 e) \<and> e \<le> r"
    "segment_scan_loop r T (scan (out_segment_src_prefix c t s) m) [] = Inr edges" "fst ` set edges = {d. \<exists>q. segment_visible m c t s r d q}"
    using segment_scan_exact[OF assms, of s r] by (elim exE conjE) (rule that)
  have loop: "edge_exists_loop r (bt_get T d) d (scan (out_segment_src_prefix c t s) m) = Inr (\<exists>q. segment_visible m c t s r d q)"
    using edge_exists_loop_scan[OF T(2)] T(3) by simp
  have valid: "validate_component ''cell_id'' c = Inr ()" "validate_component ''edge_type'' t = Inr ()" using v by (simp_all add: validate_component_iff)
  have tomb: "(case kview m (KOutTombstone c t s d) of
      Some value \<Rightarrow> rbind (decode_u64 (out_segment_tombstone c t s d) value) (\<lambda>epoch. Inr (if epoch \<le> r then Some epoch else None))
    | None \<Rightarrow> Inr None) = Inr (bt_get T d)"
  proof (cases "kview m (KOutTombstone c t s d)")
    case None
    then have "bt_get T d = None" using T(1) by (cases "bt_get T d") auto
    then show ?thesis using None by simp
  next
    case (Some w)
    have "valid_key (KOutTombstone c t s d)" using v by simp
    from wf_store_record[OF wf this Some] obtain e where e: "w = encode_u64 e" by auto
    have "bt_get T d = Some x \<longleftrightarrow> e = x \<and> x \<le> r" for x
      unfolding T(1)[rule_format] Some e using inj_encode_u64 by (simp add: inj_eq)
    then have "bt_get T d = (if e \<le> r then Some e else None)" by (cases "e \<le> r") (simp, metis not_Some_eq)
    then show ?thesis unfolding Some e by simp
  qed
  show ?thesis
  proof (cases "kview m (KOutEdge c t s d)")
    case None
    then show ?thesis using tomb loop valid
      by (simp add: edge_exists_in_storage_snapshot_def edge_visible_def kview_def Let_def)
  next
    case (Some w)
    then show ?thesis using valid by (simp add: edge_exists_in_storage_snapshot_def edge_visible_def kview_def)
  qed
qed

lemma rfold_implies:
  assumes "\<And>x s s'. f x s = Inr s' \<Longrightarrow> g x s = Inr s'"
  shows "rfold f xs s = Inr t \<Longrightarrow> rfold g xs s = Inr t"
proof (induction xs arbitrary: s)
  case (Cons x xs)
  then show ?case using assms[of x s] by (auto simp: rbind_Inr_iff)
qed simp

lemma snapshot_tombstone_agrees: "tombstone_scan_step c t s r kv T = Inr T' \<Longrightarrow> snapshot_tombstone_step c t s r kv T = Inr T'"
  unfolding tombstone_scan_step_def snapshot_tombstone_step_def Let_def
  by (cases "parse_out_edge_segment_tombstone_key (from_utf8_lossy (fst kv))") (auto split: prod.splits if_splits)

lemma degree_read:
  assumes "wf_store m" "valid_key k" "\<And>v. wf_record k v \<Longrightarrow> \<exists>n. v = encode_u64 n"
  shows "is_ok (degree_for_cache_admission (snapshot_of m q) (render k))"
proof (cases "kview m k")
  case None
  then show ?thesis by (simp add: degree_for_cache_admission_def kview_def)
next
  case (Some w)
  then obtain n where "w = encode_u64 n" using wf_store_record[OF assms(1,2) Some] assms(3) by blast
  then show ?thesis using Some by (simp add: degree_for_cache_admission_def kview_def)
qed

lemma valid_degree_keys:
  assumes "valid_component c" "valid_component t"
  shows "valid_key (KDegreeOut c t s)" "valid_key (KDegreeIn c t s)" "valid_key (KInEdge c t d s)"
  using assms literal_component by (simp_all add: valid_key_def)

lemma valid_names:
  assumes "valid_component c" "valid_component t"
  shows "validate_component ''cell_id'' c = Inr ()" "validate_component ''edge_type'' t = Inr ()"
  using assms by (simp_all add: validate_component_iff)

lemma out_neighbors_snapshot_exact:
  assumes wf: "wf_store m" and v: "valid_component c" "valid_component t"
  shows "\<exists>ns. out_neighbors_in_storage_snapshot (snapshot_of m q) c t s r = Inr ns \<and> bs_ok ns \<and> set ns = {d. edge_visible m c t s r d}"
proof -
  obtain T edges where T: "rfold (tombstone_scan_step c t s r) (scan (out_segment_tombstone_src_prefix c t s) m) [] = Inr T"
    "segment_scan_loop r T (scan (out_segment_src_prefix c t s) m) [] = Inr edges" "fst ` set edges = {d. \<exists>q. segment_visible m c t s r d q}"
    using segment_scan_exact[OF assms, of s r] by (elim exE conjE) (rule that)
  note T' = rfold_implies[OF snapshot_tombstone_agrees T(1)]
  obtain n0 where n0: "rfold edge_scan_step (scan (out_prefix c t s) m) [] = Inr n0" "bs_ok n0" "set n0 = {d. kview m (KOutEdge c t s d) \<noteq> None}"
    using out_scan_exact[OF assms] by blast
  obtain ns where ns: "segment_neighbors_loop r T (scan (out_segment_src_prefix c t s) m) n0 = Inr ns" "bs_ok ns" "set ns = set n0 \<union> fst ` set edges"
    using segment_neighbors_scan[OF T(2) n0(2), of "set n0"] by auto
  have deg: "is_ok (degree_for_cache_admission (snapshot_of m q) (degree_out c t s))"
    using degree_read[OF wf valid_degree_keys(1)[OF v], of s q] by simp
  have "out_neighbors_in_storage_snapshot (snapshot_of m q) c t s r = Inr ns"
    using deg by (auto simp: out_neighbors_in_storage_snapshot_def valid_names[OF v] n0(1) T' ns(1) is_ok_iff)
  moreover have "set ns = {d. edge_visible m c t s r d}" using ns(3) n0(3) T(3) by (auto simp: edge_visible_def)
  ultimately show ?thesis using ns(2) by blast
qed

lemma in_prefix_render:
  assumes "valid_key k" "valid_component c" "valid_component t"
  shows "starts_with (in_prefix c t d) (render k) \<longleftrightarrow> (\<exists>s. k = KInEdge c t d s)"
proof -
  have "in_prefix c t d = join_with SLASH [''cell'', c, ''e'', ''in'', t, fmt_020 d] @ [SLASH]"
    by (simp add: key_defs)
  then show ?thesis
    using prefix_render[OF assms(1), of "[''cell'', c, ''e'', ''in'', t, fmt_020 d]"] key_parts_in[of k c t d]
      assms(2,3) literal_component by simp
qed

lemma in_edge_fold:
  assumes "valid_component c" "valid_component t"
  shows "rfold in_edge_step (map (family_kv (KInEdge c t d) (\<lambda>u :: unit. edge_record_text)) ts) acc = Inr (bs_extend acc (map fst ts))"
proof (induction ts arbitrary: acc)
  case (Cons p ts)
  have "decode_edge_record (render (KInEdge c t d (fst p))) edge_record_text
      = Inr \<lparr>er_cell_id = c, er_edge_type = t, er_src = fst p, er_dst = d\<rparr>"
    by (simp add: decode_edge_record_def parse_edge_keys[OF assms])
  then have "in_edge_step (family_kv (KInEdge c t d) (\<lambda>u. edge_record_text) p) acc = Inr (bs_insert (fst p) acc)"
    unfolding in_edge_step_def family_kv_def fst_conv snd_conv
    by (subst render_lossy[OF valid_degree_keys(3)[OF assms]]) simp
  then show ?case using Cons by (simp add: bs_extend_def)
qed (simp add: bs_extend_def)

lemma in_neighbors_snapshot_exact:
  assumes wf: "wf_store m" and v: "valid_component c" "valid_component t"
  shows "\<exists>ns. in_neighbors_in_storage_snapshot (snapshot_of m q) c t d = Inr ns \<and> bs_ok ns \<and> set ns = {s. kview m (KInEdge c t d s) \<noteq> None}"
proof -
  let ?e = "\<lambda>u :: unit. edge_record_text"
  have dec: "\<exists>u. w = ?e u" if "valid_key (KInEdge c t d x)" "kview m (KInEdge c t d x) = Some w" for x w
    using wf_store_record[OF wf that] by simp
  have "\<exists>ts. scan (in_prefix c t d) m = map (family_kv (KInEdge c t d) ?e) ts
      \<and> sorted_wrt (<) (map (\<lambda>p. render (KInEdge c t d (fst p))) ts)
      \<and> (\<forall>x u. (x, u) \<in> set ts \<longleftrightarrow> valid_key (KInEdge c t d x) \<and> kview m (KInEdge c t d x) = Some (?e u))"
    by (rule scan_family[OF wf_store_keyed[OF wf] in_prefix_render[OF _ v]]) (assumption, rule dec, auto simp: inj_on_def)
  then obtain ts where ts: "scan (in_prefix c t d) m = map (family_kv (KInEdge c t d) ?e) ts"
    "\<And>x u. (x, u) \<in> set ts \<longleftrightarrow> valid_key (KInEdge c t d x) \<and> kview m (KInEdge c t d x) = Some (?e u)" by blast
  have mem: "x \<in> fst ` set ts \<longleftrightarrow> kview m (KInEdge c t d x) \<noteq> None" for x
  proof
    assume "kview m (KInEdge c t d x) \<noteq> None"
    then obtain w where w: "kview m (KInEdge c t d x) = Some w" by blast
    with dec[OF valid_degree_keys(3)[OF v] w] have "(x, ()) \<in> set ts" using ts(2) valid_degree_keys(3)[OF v] by auto
    then show "x \<in> fst ` set ts" by force
  qed (use ts(2) in force)
  have deg: "is_ok (degree_for_cache_admission (snapshot_of m q) (degree_in c t d))"
    using degree_read[OF wf valid_degree_keys(2)[OF v], of d q] by simp
  then have "in_neighbors_in_storage_snapshot (snapshot_of m q) c t d = Inr (bs_extend [] (map fst ts))"
    by (auto simp: in_neighbors_in_storage_snapshot_def valid_names[OF v] ts(1) in_edge_fold[OF v] is_ok_iff)
  then show ?thesis using mem bs_ok_extend[of "[]" "map fst ts"] by auto
qed

subsection \<open>Properties\<close>

text \<open>C18 (snapshot_reads_exact). A query reads adjacency from a pinned snapshot exactly as a transaction reads it: on a snapshot of a
  well-formed store, a successful existence check answers whether the edge is visible at the read sequence (directly, or in a
  segment that no tombstone hides), successful outgoing neighbours are the visible destinations in increasing order, and
  successful incoming neighbours are the sources of the incoming records. A snapshot whose reads succeed answers all three.\<close>

theorem snapshot_reads_exact:
  assumes "pinned snap m" "wf_store m" "valid_component c" "valid_component t"
  shows "(edge_exists_in_storage_snapshot snap c t s d r = Inr b \<longrightarrow> (b \<longleftrightarrow> edge_visible m c t s r d))
    \<and> (out_neighbors_in_storage_snapshot snap c t s r = Inr ns \<longrightarrow> sorted_wrt (<) ns \<and> set ns = {d. edge_visible m c t s r d})
    \<and> (in_neighbors_in_storage_snapshot snap c t d = Inr ms \<longrightarrow> sorted_wrt (<) ms \<and> set ms = {s. kview m (KInEdge c t d s) \<noteq> None})
    \<and> is_ok (edge_exists_in_storage_snapshot (snapshot_of m q) c t s d r) \<and> is_ok (out_neighbors_in_storage_snapshot (snapshot_of m q) c t s r)
    \<and> is_ok (in_neighbors_in_storage_snapshot (snapshot_of m q) c t d)"
proof -
  note e = edge_exists_exact[OF assms(2-4), of q s d r] and o = out_neighbors_snapshot_exact[OF assms(2-4), of q s r]
    and i = in_neighbors_snapshot_exact[OF assms(2-4), of q d]
  show ?thesis
  proof (intro conjI impI)
    assume "edge_exists_in_storage_snapshot snap c t s d r = Inr b"
    from pinned.exists_agrees[OF assms(1) this, of q] e show "b \<longleftrightarrow> edge_visible m c t s r d" by simp
  next
    assume "out_neighbors_in_storage_snapshot snap c t s r = Inr ns"
    from pinned.out_neighbors_agrees[OF assms(1) this, of q] o
    show "sorted_wrt (<) ns" "set ns = {d. edge_visible m c t s r d}" by (auto simp: bs_ok_def)
  next
    assume "in_neighbors_in_storage_snapshot snap c t d = Inr ms"
    from pinned.in_neighbors_agrees[OF assms(1) this, of q] i
    show "sorted_wrt (<) ms" "set ms = {s. kview m (KInEdge c t d s) \<noteq> None}" by (auto simp: bs_ok_def)
  qed (use e o i in \<open>auto simp: is_ok_iff\<close>)
qed

text \<open>Witness of C18 (snapshot_reads_exact): a direct edge, a segment and a tombstone.\<close>

theorem snapshot_reads_exact_witness:
  "\<exists>ns. out_neighbors_in_storage_snapshot (snapshot_of sample_view 4) ''c'' ''t'' 1 5 = Inr ns \<and> set ns = {d. edge_visible sample_view ''c'' ''t'' 1 5 d}"
proof -
  note th = snapshot_reads_exact[OF exact_snapshot.pinned_axioms[of sample_view 4] sample_view_wf sample_components(1,2), of 1 _ 5]
  obtain ns where ns: "out_neighbors_in_storage_snapshot (snapshot_of sample_view 4) ''c'' ''t'' 1 5 = Inr ns"
    using th[of 0 True "[]" "[]" 4] by (auto simp: is_ok_iff)
  then show ?thesis using th[of 0 True ns "[]" 4] by blast
qed

end
