(* ===== verification/Sparse_Kernel.thy ===== *)
theory Sparse_Kernel
  imports Graph_Model
begin

text \<open>
  \<^verbatim>\<open>src/sparse_kernel/mod.rs\<close>, the first rung of the kernel ladder: breadth-first expansion over an adjacency
  map, by a number of hops (\<^verbatim>\<open>expand_rust\<close>) and by a range of hops (\<^verbatim>\<open>expand_range_rust\<close>). Both are refined from
  expansions on sets of vertices, whose results are characterised by powers of the edge relation. The
  compiled kernel of the next theory is refined from the same set expansions.
\<close>

type_synonym u8 = "8 word"
type_synonym adjacency = "(vertex_id, vertex_id btset) btmap"

datatype sparse_kernel_backend = Adjacency | CompactCsc | SuiteSparse

record sparse_traversal =
  st_vertices :: "vertex_id list"
  st_edge_visits :: u64
  st_backend :: sparse_kernel_backend

definition visit_new :: "vertex_id \<Rightarrow> vertex_id btset \<times> vertex_id btset \<Rightarrow> vertex_id btset \<times> vertex_id btset" where
  "visit_new dst p = (case p of (seen, nxt) \<Rightarrow>
     if dst \<in> set seen then (seen, nxt) else (bs_insert dst seen, bs_insert dst nxt))"

definition expand_source ::
    "adjacency \<Rightarrow> vertex_id \<Rightarrow> (vertex_id btset \<times> vertex_id btset) \<times> u64 \<Rightarrow> (vertex_id btset \<times> vertex_id btset) \<times> u64" where
  "expand_source adjacency src p = (case p of (sets, edge_visits) \<Rightarrow>
     case bt_get adjacency src of
       None \<Rightarrow> (sets, edge_visits)
     | Some neighbors \<Rightarrow> (fold visit_new neighbors sets, edge_visits + word_of_nat (length neighbors)))"

fun expand_rust_loop ::
    "adjacency \<Rightarrow> nat \<Rightarrow> vertex_id btset \<Rightarrow> vertex_id btset \<Rightarrow> u64 \<Rightarrow> vertex_id btset \<times> u64" where
  "expand_rust_loop adjacency 0 frontier seen edge_visits = (seen, edge_visits)"
| "expand_rust_loop adjacency (Suc n) frontier seen edge_visits =
     (case fold (expand_source adjacency) frontier ((seen, []), edge_visits) of ((seen', nxt), edge_visits') \<Rightarrow>
        if nxt = [] then (seen', edge_visits') else expand_rust_loop adjacency n nxt seen' edge_visits')"

definition expand_rust :: "adjacency \<Rightarrow> vertex_id list \<Rightarrow> u8 \<Rightarrow> sparse_traversal" where
  "expand_rust adjacency starts hops =
     (let start_set = bs_extend [] starts in
      case expand_rust_loop adjacency (unat hops) start_set start_set 0 of (seen, edge_visits) \<Rightarrow>
        \<lparr>st_vertices = filter (\<lambda>vertex. vertex \<notin> set start_set) seen, st_edge_visits = edge_visits, st_backend = Adjacency\<rparr>)"

definition range_source ::
    "adjacency \<Rightarrow> vertex_id \<Rightarrow> vertex_id btset \<times> u64 \<Rightarrow> vertex_id btset \<times> u64" where
  "range_source adjacency src p = (case p of (nxt, edge_visits) \<Rightarrow>
     case bt_get adjacency src of
       None \<Rightarrow> (nxt, edge_visits)
     | Some neighbors \<Rightarrow> (bs_extend nxt neighbors, saturating_add edge_visits (word_of_nat (length neighbors))))"

text \<open>The depth is the number of hops done so far; the loop runs the remaining ones.\<close>

fun expand_range_rust_loop ::
    "adjacency \<Rightarrow> nat \<Rightarrow> nat \<Rightarrow> nat \<Rightarrow> vertex_id btset \<Rightarrow> vertex_id btset \<Rightarrow> u64 \<Rightarrow> vertex_id btset \<times> u64" where
  "expand_range_rust_loop adjacency min_hops depth 0 frontier reachable edge_visits = (reachable, edge_visits)"
| "expand_range_rust_loop adjacency min_hops depth (Suc n) frontier reachable edge_visits =
     (case fold (range_source adjacency) frontier ([], edge_visits) of (nxt, edge_visits') \<Rightarrow>
        let reachable' = (if min_hops \<le> Suc depth then bs_extend reachable nxt else reachable)
        in if nxt = [] then (reachable', edge_visits')
           else expand_range_rust_loop adjacency min_hops (Suc depth) n nxt reachable' edge_visits')"

definition expand_range_rust :: "adjacency \<Rightarrow> vertex_id list \<Rightarrow> u8 \<Rightarrow> u8 \<Rightarrow> sparse_traversal" where
  "expand_range_rust adjacency starts min_hops max_hops =
     (let frontier = bs_extend [] starts;
          reachable = (if min_hops = 0 then bs_extend [] frontier else []) in
      if max_hops = 0 \<or> frontier = [] then
        \<lparr>st_vertices = reachable, st_edge_visits = 0, st_backend = Adjacency\<rparr>
      else
        (case expand_range_rust_loop adjacency (unat min_hops) 0 (unat max_hops) frontier reachable 0 of (vertices, edge_visits) \<Rightarrow>
           \<lparr>st_vertices = vertices, st_edge_visits = edge_visits, st_backend = Adjacency\<rparr>))"

subsection \<open>Expansion of sets\<close>

fun bfs_sets :: "('v \<times> 'v) set \<Rightarrow> nat \<Rightarrow> 'v set \<Rightarrow> 'v set \<Rightarrow> 'v set" where
  "bfs_sets E 0 F seen = seen"
| "bfs_sets E (Suc n) F seen =
     (let N = E `` F - seen in if N = {} then seen else bfs_sets E n N (seen \<union> N))"

fun range_sets :: "('v \<times> 'v) set \<Rightarrow> nat \<Rightarrow> nat \<Rightarrow> nat \<Rightarrow> 'v set \<Rightarrow> 'v set \<Rightarrow> 'v set" where
  "range_sets E lo d 0 F R = R"
| "range_sets E lo d (Suc n) F R =
     (let N = E `` F; R' = (if lo \<le> Suc d then R \<union> N else R) in if N = {} then R' else range_sets E lo (Suc d) n N R')"

definition within_hops :: "('v \<times> 'v) set \<Rightarrow> nat \<Rightarrow> 'v set \<Rightarrow> 'v set" where
  "within_hops E n S = (\<Union>k \<in> {0..n}. (E ^^ k) `` S)"

definition hop_range :: "('v \<times> 'v) set \<Rightarrow> nat \<Rightarrow> nat \<Rightarrow> 'v set \<Rightarrow> 'v set" where
  "hop_range E lo hi S = (\<Union>k \<in> {lo..hi}. (E ^^ k) `` S)"

lemma in_within_hops: "v \<in> within_hops E n S \<longleftrightarrow> (\<exists>k \<le> n. \<exists>s \<in> S. (s, v) \<in> E ^^ k)"
  by (auto simp: within_hops_def Image_def)

lemma in_hop_range: "v \<in> hop_range E lo hi S \<longleftrightarrow> (\<exists>k. lo \<le> k \<and> k \<le> hi \<and> (\<exists>s \<in> S. (s, v) \<in> E ^^ k))"
  by (auto simp: hop_range_def Image_def)

lemma within_hops_Suc: "within_hops E (Suc n) S = within_hops E n (S \<union> E `` S)"
proof (rule set_eqI)
  fix v
  show "v \<in> within_hops E (Suc n) S \<longleftrightarrow> v \<in> within_hops E n (S \<union> E `` S)"
  proof
    assume "v \<in> within_hops E (Suc n) S"
    then obtain k s where k: "k \<le> Suc n" "s \<in> S" "(s, v) \<in> E ^^ k" unfolding in_within_hops by blast
    show "v \<in> within_hops E n (S \<union> E `` S)"
    proof (cases k)
      case 0
      then show ?thesis using k unfolding in_within_hops by (intro exI[of _ 0]) auto
    next
      case (Suc j)
      then obtain u where "(s, u) \<in> E" "(u, v) \<in> E ^^ j" using k(3) relpow_Suc_D2 by metis
      then show ?thesis using k Suc unfolding in_within_hops by (intro exI[of _ j]) auto
    qed
  next
    assume "v \<in> within_hops E n (S \<union> E `` S)"
    then obtain k u where k: "k \<le> n" "u \<in> S \<union> E `` S" "(u, v) \<in> E ^^ k" unfolding in_within_hops by blast
    from k(2) show "v \<in> within_hops E (Suc n) S"
    proof
      assume "u \<in> S"
      then show ?thesis using k unfolding in_within_hops by (intro exI[of _ k]) auto
    next
      assume "u \<in> E `` S"
      then obtain s where "s \<in> S" "(s, u) \<in> E" by blast
      then show ?thesis using k relpow_Suc_I2[of s u E v k] unfolding in_within_hops by (intro exI[of _ "Suc k"]) auto
    qed
  qed
qed

lemma within_hops_closed: "E `` S \<subseteq> S \<Longrightarrow> within_hops E n S = S"
proof (induction n)
  case (Suc n)
  then show ?case by (simp add: within_hops_Suc Un_absorb2)
qed (simp add: within_hops_def)

lemma bfs_sets_within:
  "F \<subseteq> seen \<Longrightarrow> E `` (seen - F) \<subseteq> seen \<Longrightarrow> bfs_sets E n F seen = within_hops E n seen"
proof (induction n arbitrary: F seen)
  case (Suc n)
  let ?N = "E `` F - seen"
  have un: "seen \<union> ?N = seen \<union> E `` seen" using Suc.prems by auto
  show ?case
  proof (cases "?N = {}")
    case True
    then have "E `` seen \<subseteq> seen" using un by (metis Un_upper2 sup_bot_right)
    then show ?thesis using True by (simp add: within_hops_closed)
  next
    case False
    then show ?thesis using Suc.IH[of ?N "seen \<union> ?N"] un by (auto simp: within_hops_Suc Let_def)
  qed
qed (simp add: within_hops_def)

lemma hops_Suc: "(\<exists>s \<in> F. (s, v) \<in> E ^^ Suc k) \<longleftrightarrow> (\<exists>u \<in> E `` F. (u, v) \<in> E ^^ k)"
  using relpow_Suc_D2[of _ v k E] relpow_Suc_I2[of _ _ E v k] by (auto simp del: relpow.simps) blast

lemma range_sets_hops:
  "v \<in> range_sets E lo d n F R \<longleftrightarrow> v \<in> R \<or> (\<exists>k. k < n \<and> lo \<le> Suc (d + k) \<and> (\<exists>s \<in> F. (s, v) \<in> E ^^ Suc k))"
proof (induction n arbitrary: d F R)
  case (Suc n)
  let ?N = "E `` F"
  let ?P = "\<lambda>k. lo \<le> Suc (d + k) \<and> (\<exists>u \<in> ?N. (u, v) \<in> E ^^ k)"
  have "(\<exists>k. k < Suc n \<and> ?P k) \<longleftrightarrow> ?P 0 \<or> (\<exists>k. k < n \<and> ?P (Suc k))"
    unfolding less_Suc_eq_0_disj by blast
  moreover have "(\<exists>u \<in> ?N. (u, v) \<in> E ^^ 0) \<longleftrightarrow> v \<in> ?N" by auto
  ultimately have split: "(\<exists>k. k < Suc n \<and> ?P k) \<longleftrightarrow> (lo \<le> Suc d \<and> v \<in> ?N)
      \<or> (\<exists>k. k < n \<and> lo \<le> Suc (Suc d + k) \<and> (\<exists>u \<in> ?N. (u, v) \<in> E ^^ Suc k))"
    by simp
  have rest: "v \<in> range_sets E lo (Suc d) n ?N R' \<longleftrightarrow> v \<in> R'
      \<or> (\<exists>k. k < n \<and> lo \<le> Suc (Suc d + k) \<and> (\<exists>u \<in> ?N. (u, v) \<in> E ^^ Suc k))" for R'
    by (rule Suc.IH)
  show ?case
  proof (cases "?N = {}")
    case True
    then show ?thesis unfolding hops_Suc by (simp add: Let_def)
  next
    case False
    then show ?thesis unfolding hops_Suc split by (simp add: Let_def rest hops_Suc del: relpow.simps)
  qed
qed simp

lemma ex_nat_split: "(\<exists>k. Q k) \<longleftrightarrow> Q 0 \<or> (\<exists>k. Q (Suc k))"
  by (metis not0_implies_Suc)

lemma range_sets_spec: "range_sets E lo 0 hi S (if lo = 0 then S else {}) = hop_range E lo hi S"
proof (rule set_eqI)
  fix v
  let ?Q = "\<lambda>k. lo \<le> k \<and> k \<le> hi \<and> (\<exists>s \<in> S. (s, v) \<in> E ^^ k)"
  have step: "(\<exists>k. ?Q k) \<longleftrightarrow> ?Q 0 \<or> (\<exists>k. ?Q (Suc k))" by (rule ex_nat_split)
  have zero: "?Q 0 \<longleftrightarrow> v \<in> (if lo = 0 then S else {})" by auto
  have suc: "(\<exists>k. ?Q (Suc k)) \<longleftrightarrow> (\<exists>k. k < hi \<and> lo \<le> Suc (0 + k) \<and> (\<exists>s \<in> S. (s, v) \<in> E ^^ Suc k))"
    unfolding Suc_le_eq add_0 by blast
  show "v \<in> range_sets E lo 0 hi S (if lo = 0 then S else {}) \<longleftrightarrow> v \<in> hop_range E lo hi S"
    unfolding range_sets_hops in_hop_range step zero suc ..
qed

subsection \<open>The adjacency kernel refines the expansion of sets\<close>

definition adj_edges :: "adjacency \<Rightarrow> (vertex_id \<times> vertex_id) set" where
  "adj_edges adjacency = {(s, d). \<exists>N. bt_get adjacency s = Some N \<and> d \<in> set N}"

lemma adj_edges_source: "adj_edges A `` {s} = (case bt_get A s of None \<Rightarrow> {} | Some N \<Rightarrow> set N)"
  by (auto simp: adj_edges_def split: option.splits)

lemma Image_split: "E `` insert f S = E `` {f} \<union> E `` S"
  by blast

lemma nested_pair: "\<exists>a b c. p = ((a, b), c)"
  by (cases p) auto

lemma visit_new_step [simp]:
  "visit_new d (seen, nxt) = (if d \<in> set seen then (seen, nxt) else (bs_insert d seen, bs_insert d nxt))"
  by (simp add: visit_new_def)

lemma visit_new_fold:
  assumes "fold visit_new ns (seen, nxt) = (seen', nxt')" "bs_ok seen" "bs_ok nxt"
  shows "bs_ok seen' \<and> bs_ok nxt' \<and> set seen' = set seen \<union> set ns \<and> set nxt' = set nxt \<union> (set ns - set seen)"
  using assms
proof (induction ns arbitrary: seen nxt)
  case (Cons n ns)
  show ?case
  proof (cases "n \<in> set seen")
    case True
    then show ?thesis using Cons.IH[of seen nxt] Cons.prems by auto
  next
    case False
    then have "fold visit_new ns (bs_insert n seen, bs_insert n nxt) = (seen', nxt')"
      using Cons.prems(1) by simp
    from Cons.IH[OF this] Cons.prems(2,3) False show ?thesis by auto
  qed
qed simp

lemma expand_source_fold:
  assumes "fold (expand_source A) fs ((seen, nxt), e) = ((seen', nxt'), e')" "bs_ok seen" "bs_ok nxt"
  shows "bs_ok seen' \<and> bs_ok nxt' \<and> set seen' = set seen \<union> adj_edges A `` set fs
    \<and> set nxt' = set nxt \<union> (adj_edges A `` set fs - set seen)"
  using assms
proof (induction fs arbitrary: seen nxt e)
  case (Cons f fs)
  obtain s1 n1 e1 where step: "expand_source A f ((seen, nxt), e) = ((s1, n1), e1)"
    using nested_pair[of "expand_source A f ((seen, nxt), e)"] by blast
  have one: "bs_ok s1 \<and> bs_ok n1 \<and> set s1 = set seen \<union> adj_edges A `` {f} \<and> set n1 = set nxt \<union> (adj_edges A `` {f} - set seen)"
    using step visit_new_fold[OF _ Cons.prems(2,3)] Cons.prems(2,3)
    by (auto simp: expand_source_def adj_edges_source split: option.splits prod.splits)
  from Cons.prems(1) step have "fold (expand_source A) fs ((s1, n1), e1) = ((seen', nxt'), e')" by simp
  from Cons.IH[OF this] one show ?case unfolding list.set Image_split[of _ f "set fs"] by blast
qed simp

lemma expand_rust_loop_sets:
  assumes "bs_ok seen" "set F \<subseteq> set seen"
  shows "bs_ok (fst (expand_rust_loop A n F seen e)) \<and>
    set (fst (expand_rust_loop A n F seen e)) = bfs_sets (adj_edges A) n (set F) (set seen)"
  using assms
proof (induction n arbitrary: F seen e)
  case (Suc n)
  obtain s1 n1 e1 where step: "fold (expand_source A) F ((seen, []), e) = ((s1, n1), e1)"
    using nested_pair[of "fold (expand_source A) F ((seen, []), e)"] by blast
  note one = expand_source_fold[OF step Suc.prems(1) bs_ok_Nil]
  have N: "adj_edges A `` set F - set seen = set n1" using one by simp
  have S: "set seen \<union> set n1 = set s1" using one by simp
  have s1: "bs_ok s1" "set n1 \<subseteq> set s1" using one by auto
  show ?case
  proof (cases "n1 = []")
    case True
    then show ?thesis using step s1(1) S N by (auto simp: Let_def)
  next
    case False
    then show ?thesis using Suc.IH[OF s1, of e1] step by (simp add: Let_def N S)
  qed
qed simp

lemma expand_rust_vertices:
  "bs_ok (st_vertices (expand_rust A starts hops)) \<and>
   set (st_vertices (expand_rust A starts hops)) = within_hops (adj_edges A) (unat hops) (set starts) - set starts"
proof -
  let ?S = "bs_extend [] starts :: vertex_id btset"
  have S: "bs_ok ?S" "set ?S = set starts" by (simp_all add: bs_ok_extend)
  have loop: "bs_ok (fst (expand_rust_loop A (unat hops) ?S ?S 0)) \<and>
      set (fst (expand_rust_loop A (unat hops) ?S ?S 0)) = within_hops (adj_edges A) (unat hops) (set starts)"
    using expand_rust_loop_sets[OF S(1), of ?S A "unat hops" 0] S(2) by (simp add: bfs_sets_within)
  then show ?thesis using S
    by (auto simp: expand_rust_def Let_def bs_ok_def case_prod_beta sorted_wrt_filter)
qed

lemma range_source_fold:
  assumes "bs_ok nxt"
  shows "bs_ok (fst (fold (range_source A) fs (nxt, e))) \<and>
    set (fst (fold (range_source A) fs (nxt, e))) = set nxt \<union> adj_edges A `` set fs"
  using assms
proof (induction fs arbitrary: nxt e)
  case (Cons f fs)
  obtain n1 e1 where step: "range_source A f (nxt, e) = (n1, e1)"
    by (cases "range_source A f (nxt, e)")
  then have "bs_ok n1 \<and> set n1 = set nxt \<union> adj_edges A `` {f}" using Cons.prems
    by (auto simp: range_source_def adj_edges_source bs_ok_extend split: option.splits)
  then show ?case using Cons.IH[of n1 e1] step by (simp add: Image_split[of _ f "set fs"] Un_assoc)
qed simp

lemma expand_range_rust_loop_sets:
  assumes "bs_ok R"
  shows "bs_ok (fst (expand_range_rust_loop A lo d n F R e)) \<and>
    set (fst (expand_range_rust_loop A lo d n F R e)) = range_sets (adj_edges A) lo d n (set F) (set R)"
  using assms
proof (induction n arbitrary: d F R e)
  case (Suc n)
  obtain n1 e1 where step: "fold (range_source A) F ([], e) = (n1, e1)"
    by (cases "fold (range_source A) F ([], e)")
  have N: "bs_ok n1" "adj_edges A `` set F = set n1" using range_source_fold[OF bs_ok_Nil, of A F e] step by auto
  let ?R = "if lo \<le> Suc d then bs_extend R n1 else R"
  have R: "bs_ok ?R" "set ?R = (if lo \<le> Suc d then set R \<union> set n1 else set R)"
    using Suc.prems by (simp_all add: bs_ok_extend)
  show ?case
  proof (cases "n1 = []")
    case True
    then show ?thesis using step N Suc.prems by (simp add: Let_def bs_extend_def)
  next
    case False
    then show ?thesis using Suc.IH[OF R(1), of "Suc d" n1 e1] step N R by (simp add: Let_def split del: if_split)
  qed
qed simp

lemma expand_range_rust_vertices:
  "bs_ok (st_vertices (expand_range_rust A starts lo hi)) \<and>
   set (st_vertices (expand_range_rust A starts lo hi)) = hop_range (adj_edges A) (unat lo) (unat hi) (set starts)"
proof -
  let ?F = "bs_extend [] starts :: vertex_id btset" and ?S = "set starts"
  let ?R = "if lo = 0 then bs_extend [] ?F else []"
  have F: "set ?F = ?S" by simp
  have R: "bs_ok ?R" "set ?R = (if unat lo = 0 then ?S else {})" by (simp_all add: bs_ok_extend unat_eq_0)
  note loop = expand_range_rust_loop_sets[OF R(1), of A "unat lo" 0 "unat hi" ?F 0, unfolded R(2) F range_sets_spec]
  show ?thesis
  proof (cases "hi = 0 \<or> ?F = []")
    case True
    have "set ?R = hop_range (adj_edges A) (unat lo) (unat hi) ?S"
    proof (cases "hi = 0")
      case False
      then have "?S = {}" using True F by auto
      then show ?thesis by (simp add: hop_range_def)
    qed (simp add: R(2) range_sets_spec[symmetric])
    then show ?thesis using True R(1) by (simp add: expand_range_rust_def Let_def split del: if_split)
  next
    case False
    then show ?thesis using loop by (simp add: expand_range_rust_def Let_def case_prod_beta split del: if_split)
  qed
qed

end
