(* ===== verification/Sparse_Csc.thy ===== *)
theory Sparse_Csc
  imports Sparse_Kernel Graph_Error
begin

text \<open>
  \<^verbatim>\<open>GraphBlasCsc\<close> of \<^verbatim>\<open>src/sparse_kernel/mod.rs\<close> and the second rung of the kernel ladder, the compact matrix
  of \<^verbatim>\<open>src/sparse_kernel/graphblas.rs\<close>: compressed rows of ordinals over a sorted vertex dictionary, with bitmaps
  and per-depth markers in place of sets. A \<^verbatim>\<open>usize\<close> is a \<^typ>\<open>nat\<close>: it only holds lengths and positions
  of vectors in memory. Every matrix comes from a compressed form that passed \<open>validate_csc\<close>; the lemmas
  under \<open>csc_ok\<close> show that every position the operations read is then in range.
\<close>

type_synonym u32 = "32 word"

record graph_blas_csc =
  gb_vertices :: "vertex_id list"
  gb_pointers :: "u64 list"
  gb_indices :: "u64 list"

text \<open>\<^verbatim>\<open>slice::get(start..end)\<close> and \<^verbatim>\<open>slice::binary_search(..).ok()\<close>.\<close>

definition slice_get :: "'a list \<Rightarrow> nat \<Rightarrow> nat \<Rightarrow> 'a list option" where
  "slice_get xs a b = (if a \<le> b \<and> b \<le> length xs then Some (take (b - a) (drop a xs)) else None)"

function search_base :: "'a::linorder list \<Rightarrow> 'a \<Rightarrow> nat \<Rightarrow> nat \<Rightarrow> nat" where
  "search_base xs x len base =
     (if len \<le> 1 then base
      else let half = len div 2; mid = base + half
           in search_base xs x (len - half) (if x < xs ! mid then base else mid))"
  by pat_completeness auto
termination by (relation "measure (\<lambda>(xs, x, len, base). len)") auto

declare search_base.simps [simp del]

definition binary_search :: "'a::linorder list \<Rightarrow> 'a \<Rightarrow> nat option" where
  "binary_search xs x =
     (if xs = [] then None
      else let base = search_base xs x (length xs) 0 in if xs ! base = x then Some base else None)"

text \<open>Saturating addition without the exponential, for evaluation.\<close>

lemma saturating_add_code [code]: "saturating_add a b = (if a \<le> - 1 - b then a + b else - 1)"
proof -
  have "unat (- 1 - b :: u64) = 2 ^ 64 - 1 - unat b" by (subst unat_sub) (simp_all add: u64_max)
  then have "a \<le> - 1 - b \<longleftrightarrow> unat a + unat b < 2 ^ 64" using u64_bound[of b] by (auto simp: word_le_nat_alt)
  then show ?thesis by (simp add: saturating_add_def)
qed

subsection \<open>The canonical adjacency of a compressed form\<close>

definition canonical_error :: "string \<Rightarrow> graph_error" where
  "canonical_error reason = SparseKernel ''CanonicalAdjacency'' reason"

definition adjacency_neighbor :: "graph_blas_csc \<Rightarrow> u64 \<Rightarrow> vertex_id btset \<Rightarrow> vertex_id btset result" where
  "adjacency_neighbor csc destination neighbors =
     (if unat destination < length (gb_vertices csc)
      then Inr (bs_insert (gb_vertices csc ! unat destination) neighbors)
      else Inl (canonical_error (''destination ordinal '' @ fmt_u64 destination @ '' is out of bounds'')))"

definition adjacency_row :: "graph_blas_csc \<Rightarrow> nat \<times> vertex_id \<Rightarrow> adjacency \<Rightarrow> adjacency result" where
  "adjacency_row csc p adjacency = (case p of (source_ordinal, source) \<Rightarrow>
     let start = unat (gb_pointers csc ! source_ordinal); stop = unat (gb_pointers csc ! (source_ordinal + 1)) in
     rbind (ok_or (canonical_error (''source row '' @ to_dec source_ordinal @ '' exceeds the index array''))
                  (slice_get (gb_indices csc) start stop)) (\<lambda>row.
     if row = [] then Inr adjacency
     else rbind (rfold (adjacency_neighbor csc) row []) (\<lambda>neighbors. Inr (bt_insert source neighbors adjacency))))"

definition to_adjacency :: "graph_blas_csc \<Rightarrow> adjacency result" where
  "to_adjacency csc =
     (if length (gb_pointers csc) \<noteq> length (gb_vertices csc) + 1
      then Inl (canonical_error ''pointer count does not match the vertex dictionary'')
      else rfold (adjacency_row csc) (enumerate 0 (gb_vertices csc)) [])"

subsection \<open>Validation\<close>

definition windows_all :: "('a \<Rightarrow> 'a \<Rightarrow> bool) \<Rightarrow> 'a list \<Rightarrow> bool" where
  "windows_all P xs \<longleftrightarrow> list_all (\<lambda>(a, b). P a b) (zip xs (tl xs))"

definition grb_index_max :: nat where
  "grb_index_max = 2 ^ 60 - 1"

definition grb_error :: "string \<Rightarrow> graph_error" where
  "grb_error reason = SparseKernel ''SuiteSparseGraphBlas'' reason"

definition last_or_zero :: "'w::len word list \<Rightarrow> 'w word" where
  "last_or_zero xs = (if xs = [] then 0 else last xs)"

definition validate_csc :: "graph_blas_csc \<Rightarrow> unit result" where
  "validate_csc csc =
     (if grb_index_max < length (gb_vertices csc) then
        Inl (grb_error (to_dec (length (gb_vertices csc)) @ '' local vertices exceed GraphBLAS index limit''))
      else if length (gb_pointers csc) \<noteq> length (gb_vertices csc) + 1 then
        Inl (grb_error (''CSC pointer count '' @ to_dec (length (gb_pointers csc)) @
          '' does not match vertex count '' @ to_dec (length (gb_vertices csc))))
      else if gb_pointers csc = [] \<or> gb_pointers csc ! 0 \<noteq> 0 then
        Inl (grb_error ''CSC first pointer must be zero'')
      else if \<not> windows_all (\<le>) (gb_pointers csc) then
        Inl (grb_error ''CSC pointers must be monotonic'')
      else if unat (last_or_zero (gb_pointers csc)) \<noteq> length (gb_indices csc) then
        Inl (grb_error (''CSC edge count '' @ fmt_u64 (last_or_zero (gb_pointers csc)) @
          '' does not match index count '' @ to_dec (length (gb_indices csc))))
      else case find (\<lambda>index. length (gb_vertices csc) \<le> unat index) (gb_indices csc) of
        Some index \<Rightarrow>
          Inl (grb_error (''CSC row index '' @ fmt_u64 index @ '' exceeds dimension '' @ to_dec (length (gb_vertices csc))))
      | None \<Rightarrow>
          if \<not> windows_all (<) (gb_vertices csc) then
            Inl (grb_error ''CSC vertices must be sorted and unique'')
          else Inr ())"

subsection \<open>The compact matrix\<close>

datatype compact_ordinal_vec = U32 "u32 list" | U64 "u64 list"

definition ordinals_from_u64 :: "u64 list \<Rightarrow> compact_ordinal_vec" where
  "ordinals_from_u64 values =
     (if list_all (\<lambda>value. value \<le> 4294967295) values then U32 (map ucast values) else U64 values)"

definition ordinals_from_u32 :: "u32 list \<Rightarrow> compact_ordinal_vec" where
  "ordinals_from_u32 values = U32 values"

fun ordinals_get :: "compact_ordinal_vec \<Rightarrow> nat \<Rightarrow> nat" where
  "ordinals_get (U32 values) index = unat (values ! index)"
| "ordinals_get (U64 values) index = unat (values ! index)"

fun ordinals_len :: "compact_ordinal_vec \<Rightarrow> nat" where
  "ordinals_len (U32 values) = length values"
| "ordinals_len (U64 values) = length values"

record compact_csc =
  cc_vertices :: "vertex_id list"
  cc_pointers :: compact_ordinal_vec
  cc_indices :: compact_ordinal_vec

definition from_csc :: "graph_blas_csc \<Rightarrow> compact_csc" where
  "from_csc csc = \<lparr>cc_vertices = gb_vertices csc, cc_pointers = ordinals_from_u64 (gb_pointers csc),
     cc_indices = ordinals_from_u64 (gb_indices csc)\<rparr>"

definition from_u32_parts :: "vertex_id list \<Rightarrow> u32 list \<Rightarrow> u32 list \<Rightarrow> compact_csc" where
  "from_u32_parts vertices pointers indices = \<lparr>cc_vertices = vertices,
     cc_pointers = ordinals_from_u32 pointers, cc_indices = ordinals_from_u32 indices\<rparr>"

definition dimension :: "compact_csc \<Rightarrow> nat" where
  "dimension m = length (cc_vertices m)"

definition ordinal :: "compact_csc \<Rightarrow> vertex_id \<Rightarrow> nat option" where
  "ordinal m vertex = binary_search (cc_vertices m) vertex"

definition pointer :: "compact_csc \<Rightarrow> nat \<Rightarrow> nat" where
  "pointer m i = ordinals_get (cc_pointers m) i"

definition degree :: "compact_csc \<Rightarrow> nat \<Rightarrow> u64" where
  "degree m i = word_of_nat (pointer m (i + 1) - pointer m i)"

definition vertex_degree :: "compact_csc \<Rightarrow> vertex_id \<Rightarrow> u64" where
  "vertex_degree m vertex = (case ordinal m vertex of None \<Rightarrow> 0 | Some i \<Rightarrow> degree m i)"

definition neighbor_range :: "compact_csc \<Rightarrow> nat \<Rightarrow> nat list" where
  "neighbor_range m i = [pointer m i..<pointer m (i + 1)]"

definition neighbor :: "compact_csc \<Rightarrow> nat \<Rightarrow> nat" where
  "neighbor m index = ordinals_get (cc_indices m) index"

definition contains_edge :: "compact_csc \<Rightarrow> vertex_id \<Rightarrow> vertex_id \<Rightarrow> bool" where
  "contains_edge m src dst =
     (case (ordinal m src, ordinal m dst) of
        (Some src_ordinal, Some dst_ordinal) \<Rightarrow>
          list_ex (\<lambda>index. neighbor m index = dst_ordinal) (neighbor_range m src_ordinal)
      | _ \<Rightarrow> False)"

definition neighbors :: "compact_csc \<Rightarrow> vertex_id \<Rightarrow> vertex_id list" where
  "neighbors m vertex =
     (case ordinal m vertex of None \<Rightarrow> []
      | Some i \<Rightarrow> map (\<lambda>index. cc_vertices m ! neighbor m index) (neighbor_range m i))"

definition neighbors_intersecting :: "compact_csc \<Rightarrow> vertex_id \<Rightarrow> vertex_id btset \<Rightarrow> vertex_id list" where
  "neighbors_intersecting m vertex allowed =
     (case ordinal m vertex of None \<Rightarrow> []
      | Some i \<Rightarrow> filter (\<lambda>v. v \<in> set allowed)
          (map (\<lambda>index. cc_vertices m ! neighbor m index) (neighbor_range m i)))"

definition start_ordinals :: "compact_csc \<Rightarrow> vertex_id list \<Rightarrow> nat list" where
  "start_ordinals m starts = remdups_adj (sort (List.map_filter (ordinal m) starts))"

subsection \<open>Traversals\<close>

definition compact_empty_traversal :: sparse_traversal where
  "compact_empty_traversal = \<lparr>st_vertices = [], st_edge_visits = 0, st_backend = CompactCsc\<rparr>"

definition set_all :: "nat list \<Rightarrow> bool list \<Rightarrow> bool list" where
  "set_all ordinals bitmap = fold (\<lambda>i b. b[i := True]) ordinals bitmap"

text \<open>
  One destination of a row. \<open>skip\<close> is the extra test of the traversal: \<^verbatim>\<open>seen[dst]\<close> in \<^verbatim>\<open>expand\<close>, nothing in
  \<^verbatim>\<open>expand_range\<close>. The marker of a depth is written at most once, so a destination is pushed at most once.
\<close>

definition visit_marked ::
    "nat \<Rightarrow> (nat \<Rightarrow> bool) \<Rightarrow> u8 \<Rightarrow> nat \<Rightarrow> u8 list \<times> nat list \<Rightarrow> u8 list \<times> nat list" where
  "visit_marked dim skip marker dst p = (case p of (next_seen, nxt) \<Rightarrow>
     if dim \<le> dst \<or> skip dst \<or> next_seen ! dst = marker then (next_seen, nxt)
     else (next_seen[dst := marker], nxt @ [dst]))"

definition visit_source ::
    "compact_csc \<Rightarrow> (nat \<Rightarrow> bool) \<Rightarrow> u8 \<Rightarrow> nat \<Rightarrow> (u8 list \<times> nat list) \<times> u64 \<Rightarrow> (u8 list \<times> nat list) \<times> u64" where
  "visit_source m skip marker src p = (case p of (marks, edge_visits) \<Rightarrow>
     (fold (\<lambda>index. visit_marked (dimension m) skip marker (neighbor m index)) (neighbor_range m src) marks,
      saturating_add edge_visits (degree m src)))"

fun csc_expand_loop ::
    "compact_csc \<Rightarrow> nat \<Rightarrow> nat \<Rightarrow> nat list \<Rightarrow> bool list \<Rightarrow> u8 list \<Rightarrow> u64 \<Rightarrow> bool list \<times> u64" where
  "csc_expand_loop m depth 0 frontier seen next_seen edge_visits = (seen, edge_visits)"
| "csc_expand_loop m depth (Suc n) frontier seen next_seen edge_visits =
     (case fold (visit_source m (\<lambda>dst. seen ! dst) (word_of_nat (Suc depth))) frontier ((next_seen, []), edge_visits) of
        ((next_seen', nxt), edge_visits') \<Rightarrow>
          if nxt = [] then (seen, edge_visits')
          else csc_expand_loop m (Suc depth) n nxt (set_all nxt seen) next_seen' edge_visits')"

definition csc_expand :: "compact_csc \<Rightarrow> vertex_id list \<Rightarrow> u8 \<Rightarrow> sparse_traversal result" where
  "csc_expand m starts hops =
     (if hops = 0 \<or> cc_vertices m = [] \<or> starts = [] then Inr compact_empty_traversal
      else let ordinals = start_ordinals m starts in
        if ordinals = [] then Inr compact_empty_traversal
        else let start_seen = set_all ordinals (replicate (dimension m) False) in
          case csc_expand_loop m 0 (unat hops) ordinals start_seen (replicate (dimension m) 0) 0 of
            (seen, edge_visits) \<Rightarrow>
              Inr \<lparr>st_vertices = map (\<lambda>i. cc_vertices m ! i) (filter (\<lambda>i. seen ! i \<and> \<not> start_seen ! i) [0..<dimension m]),
                   st_edge_visits = edge_visits, st_backend = CompactCsc\<rparr>)"

fun csc_range_loop ::
    "compact_csc \<Rightarrow> nat \<Rightarrow> nat \<Rightarrow> nat \<Rightarrow> nat list \<Rightarrow> bool list \<Rightarrow> u8 list \<Rightarrow> u64 \<Rightarrow> bool list \<times> u64" where
  "csc_range_loop m min_hops depth 0 frontier result_seen next_seen edge_visits = (result_seen, edge_visits)"
| "csc_range_loop m min_hops depth (Suc n) frontier result_seen next_seen edge_visits =
     (case fold (visit_source m (\<lambda>_. False) (word_of_nat (Suc depth))) frontier ((next_seen, []), edge_visits) of
        ((next_seen', nxt), edge_visits') \<Rightarrow>
          let result_seen' = (if min_hops \<le> Suc depth then set_all nxt result_seen else result_seen)
          in if nxt = [] then (result_seen', edge_visits')
             else csc_range_loop m min_hops (Suc depth) n nxt result_seen' next_seen' edge_visits')"

definition expand_range_bitmap :: "compact_csc \<Rightarrow> vertex_id list \<Rightarrow> u8 \<Rightarrow> u8 \<Rightarrow> (bool list \<times> u64) result" where
  "expand_range_bitmap m starts min_hops max_hops =
     (if max_hops < min_hops \<or> cc_vertices m = [] \<or> starts = [] then Inr ([], 0)
      else let frontier = start_ordinals m starts in
        if frontier = [] then Inr ([], 0)
        else let empty = replicate (dimension m) False;
                 result_seen = (if min_hops = 0 then set_all frontier empty else empty)
          in Inr (csc_range_loop m (unat min_hops) 0 (unat max_hops) frontier result_seen (replicate (dimension m) 0) 0))"

definition expand_range_ordinals :: "compact_csc \<Rightarrow> vertex_id list \<Rightarrow> u8 \<Rightarrow> u8 \<Rightarrow> (nat list \<times> u64) result" where
  "expand_range_ordinals m starts min_hops max_hops =
     rbind (expand_range_bitmap m starts min_hops max_hops) (\<lambda>(result_seen, edge_visits).
       Inr (filter (\<lambda>i. result_seen ! i) [0..<length result_seen], edge_visits))"

definition csc_expand_range :: "compact_csc \<Rightarrow> vertex_id list \<Rightarrow> u8 \<Rightarrow> u8 \<Rightarrow> sparse_traversal result" where
  "csc_expand_range m starts min_hops max_hops =
     rbind (expand_range_ordinals m starts min_hops max_hops) (\<lambda>(ordinals, edge_visits).
       Inr \<lparr>st_vertices = map (\<lambda>i. cc_vertices m ! i) ordinals, st_edge_visits = edge_visits, st_backend = CompactCsc\<rparr>)"

record sparse_traversal_count =
  sc_vertices :: u64
  sc_edge_visits :: u64
  sc_backend :: sparse_kernel_backend

definition csc_expand_range_count ::
    "compact_csc \<Rightarrow> vertex_id list \<Rightarrow> u8 \<Rightarrow> u8 \<Rightarrow> sparse_traversal_count result" where
  "csc_expand_range_count m starts min_hops max_hops =
     rbind (expand_range_bitmap m starts min_hops max_hops) (\<lambda>(result_seen, edge_visits).
       Inr \<lparr>sc_vertices = word_of_nat (length (filter (\<lambda>b. b) result_seen)),
            sc_edge_visits = edge_visits, sc_backend = CompactCsc\<rparr>)"

subsection \<open>Binary search\<close>

lemma search_base_range:
  "0 < n \<Longrightarrow> b + n \<le> length xs \<Longrightarrow> b \<le> search_base xs x n b \<and> search_base xs x n b < b + n"
proof (induction xs x n b rule: search_base.induct)
  case (1 xs x n b)
  show ?case
  proof (cases "n \<le> 1")
    case True
    then show ?thesis using "1.prems" by (simp add: search_base.simps[of xs x n b])
  next
    case False
    have h: "0 < n - n div 2" "n div 2 < n" using False by auto
    let ?b = "if x < xs ! (b + n div 2) then b else b + n div 2"
    have "?b + (n - n div 2) \<le> length xs" using "1.prems" by auto
    with "1.IH"[OF False refl refl] h have "?b \<le> search_base xs x (n - n div 2) ?b \<and> search_base xs x (n - n div 2) ?b < ?b + (n - n div 2)"
      by blast
    then have "b \<le> search_base xs x (n - n div 2) ?b \<and> search_base xs x (n - n div 2) ?b < b + n"
      using h by (auto split: if_splits)
    then show ?thesis using False by (simp add: search_base.simps[of xs x n b] Let_def)
  qed
qed

lemma search_base_finds:
  assumes "sorted_wrt (<) xs" "i < length xs" "xs ! i = x"
  shows "b \<le> i \<Longrightarrow> i < b + n \<Longrightarrow> b + n \<le> length xs \<Longrightarrow> search_base xs x n b = i"
  using assms
proof (induction xs x n b rule: search_base.induct)
  case (1 xs x n b)
  show ?case
  proof (cases "n \<le> 1")
    case True
    then show ?thesis using "1.prems" by (simp add: search_base.simps[of xs x n b])
  next
    case False
    let ?mid = "b + n div 2"
    have mid: "?mid < length xs" using False "1.prems" by simp
    have cmp: "x < xs ! ?mid \<longleftrightarrow> i < ?mid"
      using "1.prems"(4-6) mid sorted_wrt_nth_less[of "(<)" xs] by (metis linorder_neqE_nat order_less_asym)
    have "search_base xs x (n - n div 2) (if x < xs ! ?mid then b else ?mid) = i"
      by (rule "1.IH"[OF False refl refl]) (use "1.prems" cmp False in auto)
    then show ?thesis using False by (simp add: search_base.simps[of xs x n b] Let_def)
  qed
qed

lemma binary_search_iff:
  assumes "sorted_wrt (<) xs"
  shows "binary_search xs x = Some i \<longleftrightarrow> i < length xs \<and> xs ! i = x"
proof
  assume l: "binary_search xs x = Some i"
  then have "xs \<noteq> []" "xs ! i = x" "i = search_base xs x (length xs) 0"
    by (auto simp: binary_search_def Let_def split: if_splits)
  then show "i < length xs \<and> xs ! i = x" using search_base_range[of "length xs" 0 xs x] by simp
next
  assume r: "i < length xs \<and> xs ! i = x"
  then have "search_base xs x (length xs) 0 = i" by (intro search_base_finds[OF assms]) auto
  then show "binary_search xs x = Some i" using r by (auto simp: binary_search_def)
qed

subsection \<open>Well-formed matrices\<close>

definition csc_ok :: "compact_csc \<Rightarrow> bool" where
  "csc_ok m \<longleftrightarrow> sorted_wrt (<) (cc_vertices m) \<and> ordinals_len (cc_pointers m) = dimension m + 1 \<and> pointer m 0 = 0
     \<and> (\<forall>i < dimension m. pointer m i \<le> pointer m (i + 1)) \<and> pointer m (dimension m) = ordinals_len (cc_indices m)
     \<and> (\<forall>k < ordinals_len (cc_indices m). neighbor m k < dimension m)"

definition csc_row :: "compact_csc \<Rightarrow> nat \<Rightarrow> nat list" where
  "csc_row m i = map (neighbor m) (neighbor_range m i)"

definition csc_edges :: "compact_csc \<Rightarrow> (nat \<times> nat) set" where
  "csc_edges m = {(i, j). i < dimension m \<and> j \<in> set (csc_row m i)}"

lemma ordinals_from_u64_len [simp]: "ordinals_len (ordinals_from_u64 xs) = length xs"
  by (simp add: ordinals_from_u64_def)

lemma ordinals_from_u64_get [simp]: "i < length xs \<Longrightarrow> ordinals_get (ordinals_from_u64 xs) i = unat (xs ! i)"
  by (auto simp: ordinals_from_u64_def list_all_length word_le_nat_alt unsigned_ucast_eq take_bit_nat_eq_self)

lemma windows_all_iff: "windows_all P xs \<longleftrightarrow> (\<forall>i. Suc i < length xs \<longrightarrow> P (xs ! i) (xs ! Suc i))"
  by (auto simp: windows_all_def list_all_length nth_tl)

lemma windows_sorted: "windows_all (<) (xs :: 'a::linorder list) \<longleftrightarrow> sorted_wrt (<) xs"
  by (simp add: windows_all_iff sorted_wrt_iff_nth_Suc_transp[OF transp_on_less])

lemma validate_csc_iff:
  "validate_csc csc = Inr () \<longleftrightarrow>
     length (gb_vertices csc) \<le> grb_index_max \<and> length (gb_pointers csc) = length (gb_vertices csc) + 1 \<and> gb_pointers csc ! 0 = 0
     \<and> windows_all (\<le>) (gb_pointers csc) \<and> unat (last_or_zero (gb_pointers csc)) = length (gb_indices csc)
     \<and> (\<forall>k < length (gb_indices csc). unat (gb_indices csc ! k) < length (gb_vertices csc)) \<and> sorted_wrt (<) (gb_vertices csc)"
proof -
  have "find (\<lambda>index. length (gb_vertices csc) \<le> unat index) (gb_indices csc) = None \<longleftrightarrow>
      (\<forall>k < length (gb_indices csc). unat (gb_indices csc ! k) < length (gb_vertices csc))"
    by (metis find_None_iff in_set_conv_nth not_le)
  then show ?thesis
    by (auto simp: validate_csc_def windows_sorted split: option.splits)
qed

lemma from_csc_simps [simp]:
  "dimension (from_csc csc) = length (gb_vertices csc)"
  "cc_vertices (from_csc csc) = gb_vertices csc"
  "i < length (gb_pointers csc) \<Longrightarrow> pointer (from_csc csc) i = unat (gb_pointers csc ! i)"
  "k < length (gb_indices csc) \<Longrightarrow> neighbor (from_csc csc) k = unat (gb_indices csc ! k)"
  "ordinals_len (cc_pointers (from_csc csc)) = length (gb_pointers csc)"
  "ordinals_len (cc_indices (from_csc csc)) = length (gb_indices csc)"
  by (simp_all add: from_csc_def dimension_def pointer_def neighbor_def)

lemma validate_csc_ok: "validate_csc csc = Inr () \<Longrightarrow> csc_ok (from_csc csc)"
  unfolding validate_csc_iff csc_ok_def windows_all_iff
  by (elim conjE, cases "gb_pointers csc = []") (auto simp: last_or_zero_def last_conv_nth word_le_nat_alt)

lemma pointer_mono: "csc_ok m \<Longrightarrow> i \<le> j \<Longrightarrow> j \<le> dimension m \<Longrightarrow> pointer m i \<le> pointer m j"
proof (induction j)
  case (Suc j)
  then show ?case by (cases "i = Suc j") (auto simp: csc_ok_def intro: order_trans)
qed simp

lemma csc_row_bound:
  assumes "csc_ok m" "i < dimension m" "j \<in> set (csc_row m i)"
  shows "j < dimension m"
proof -
  obtain k where k: "k < pointer m (i + 1)" "j = neighbor m k" using assms(3) by (auto simp: csc_row_def neighbor_range_def)
  have "pointer m (i + 1) \<le> ordinals_len (cc_indices m)"
    using pointer_mono[OF assms(1), of "i + 1" "dimension m"] assms(1,2) by (simp add: csc_ok_def)
  then show ?thesis using k assms(1) by (simp add: csc_ok_def)
qed

lemma ordinal_iff: "csc_ok m \<Longrightarrow> ordinal m v = Some i \<longleftrightarrow> i < dimension m \<and> cc_vertices m ! i = v"
  by (simp add: csc_ok_def ordinal_def dimension_def binary_search_iff)

subsection \<open>Bitmaps and markers\<close>

definition bits :: "bool list \<Rightarrow> nat set" where
  "bits b = {i. i < length b \<and> b ! i}"

lemma length_set_all [simp]: "length (set_all xs b) = length b"
  unfolding set_all_def by (induction xs arbitrary: b) simp_all

lemma bits_update: "i < length b \<Longrightarrow> bits (b[i := True]) = insert i (bits b)"
  by (auto simp: bits_def nth_list_update)

lemma bits_set_all: "set xs \<subseteq> {..<length b} \<Longrightarrow> bits (set_all xs b) = bits b \<union> set xs"
  unfolding set_all_def
proof (induction xs arbitrary: b)
  case (Cons x xs)
  then show ?case by (simp add: bits_update)
qed simp

lemma bits_replicate [simp]: "bits (replicate n False) = {}"
  by (auto simp: bits_def)

definition marks_ok :: "nat \<Rightarrow> (nat \<Rightarrow> bool) \<Rightarrow> u8 \<Rightarrow> u8 list \<Rightarrow> nat list \<Rightarrow> bool" where
  "marks_ok dim skip marker ns nxt \<longleftrightarrow> length ns = dim \<and> set nxt \<subseteq> {..<dim} \<and> (\<forall>j < dim. ns ! j = marker \<longleftrightarrow> j \<in> set nxt)"

lemma visit_marked_step:
  assumes "marks_ok dim skip marker ns nxt"
  obtains ns' nxt' where "visit_marked dim skip marker d (ns, nxt) = (ns', nxt')" "marks_ok dim skip marker ns' nxt'"
    "set nxt' = set nxt \<union> {j \<in> {d}. j < dim \<and> \<not> skip j}" "\<forall>j < dim. ns' ! j = ns ! j \<or> ns' ! j = marker"
proof (cases "dim \<le> d \<or> skip d \<or> ns ! d = marker")
  case True
  then have "visit_marked dim skip marker d (ns, nxt) = (ns, nxt)" by (auto simp: visit_marked_def)
  then show ?thesis
    by (rule that) (use True assms in \<open>auto simp: marks_ok_def\<close>)
next
  case False
  then have "visit_marked dim skip marker d (ns, nxt) = (ns[d := marker], nxt @ [d])" by (simp add: visit_marked_def)
  then show ?thesis
    by (rule that) (use False assms in \<open>auto simp: marks_ok_def nth_list_update\<close>)
qed

lemma visit_marked_fold:
  assumes "marks_ok dim skip marker ns nxt"
  obtains ns' nxt' where "fold (visit_marked dim skip marker) ds (ns, nxt) = (ns', nxt')" "marks_ok dim skip marker ns' nxt'"
    "set nxt' = set nxt \<union> {j \<in> set ds. j < dim \<and> \<not> skip j}" "\<forall>j < dim. ns' ! j = ns ! j \<or> ns' ! j = marker"
  using assms
proof (induction ds arbitrary: ns nxt thesis)
  case Nil
  then show ?case by simp
next
  case (Cons d ds)
  obtain n1 x1 where one: "visit_marked dim skip marker d (ns, nxt) = (n1, x1)" "marks_ok dim skip marker n1 x1"
    "set x1 = set nxt \<union> {j \<in> {d}. j < dim \<and> \<not> skip j}" "\<forall>j < dim. n1 ! j = ns ! j \<or> n1 ! j = marker"
    by (rule visit_marked_step[OF Cons.prems(2), of d])
  obtain n2 x2 where two: "fold (visit_marked dim skip marker) ds (n1, x1) = (n2, x2)" "marks_ok dim skip marker n2 x2"
    "set x2 = set x1 \<union> {j \<in> set ds. j < dim \<and> \<not> skip j}" "\<forall>j < dim. n2 ! j = n1 ! j \<or> n2 ! j = marker"
    by (rule Cons.IH[OF _ one(2)])
  show ?case
  proof (rule Cons.prems(1))
    show "fold (visit_marked dim skip marker) (d # ds) (ns, nxt) = (n2, x2)" using one(1) two(1) by simp
    show "set x2 = set nxt \<union> {j \<in> set (d # ds). j < dim \<and> \<not> skip j}" using one(3) two(3) by auto
    show "\<forall>j < dim. n2 ! j = ns ! j \<or> n2 ! j = marker" using one(4) two(4) by metis
  qed (rule two(2))
qed

lemma visit_source_row:
  "visit_source m skip marker src (p, e) =
     (fold (visit_marked (dimension m) skip marker) (csc_row m src) p, saturating_add e (degree m src))"
  by (simp add: visit_source_def csc_row_def fold_map comp_def)

lemma csc_edges_source:
  assumes "csc_ok m" "i < dimension m"
  shows "{j \<in> set (csc_row m i). j < dimension m \<and> \<not> skip j} = {j \<in> csc_edges m `` {i}. \<not> skip j}"
  using csc_row_bound[OF assms] assms(2) by (auto simp: csc_edges_def)

lemma visit_source_fold:
  assumes "csc_ok m" "marks_ok (dimension m) skip marker ns nxt" "set fs \<subseteq> {..<dimension m}"
  obtains ns' nxt' e' where "fold (visit_source m skip marker) fs ((ns, nxt), e) = ((ns', nxt'), e')"
    "marks_ok (dimension m) skip marker ns' nxt'" "set nxt' = set nxt \<union> {j \<in> csc_edges m `` set fs. \<not> skip j}"
    "\<forall>j < dimension m. ns' ! j = ns ! j \<or> ns' ! j = marker"
  using assms
proof (induction fs arbitrary: ns nxt e thesis)
  case Nil
  then show ?case by simp
next
  case (Cons f fs)
  have f: "f < dimension m" and fs: "set fs \<subseteq> {..<dimension m}" using Cons.prems(4) by auto
  obtain n1 x1 where one: "fold (visit_marked (dimension m) skip marker) (csc_row m f) (ns, nxt) = (n1, x1)"
    "marks_ok (dimension m) skip marker n1 x1" "set x1 = set nxt \<union> {j \<in> set (csc_row m f). j < dimension m \<and> \<not> skip j}"
    "\<forall>j < dimension m. n1 ! j = ns ! j \<or> n1 ! j = marker"
    by (rule visit_marked_fold[OF Cons.prems(3)])
  obtain n2 x2 e2 where two: "fold (visit_source m skip marker) fs ((n1, x1), saturating_add e (degree m f)) = ((n2, x2), e2)"
    "marks_ok (dimension m) skip marker n2 x2" "set x2 = set x1 \<union> {j \<in> csc_edges m `` set fs. \<not> skip j}"
    "\<forall>j < dimension m. n2 ! j = n1 ! j \<or> n2 ! j = marker"
    by (rule Cons.IH[OF _ Cons.prems(2) one(2) fs])
  show ?case
  proof (rule Cons.prems(1))
    show "fold (visit_source m skip marker) (f # fs) ((ns, nxt), e) = ((n2, x2), e2)"
      using one(1) two(1) by (simp add: visit_source_row)
    show "set x2 = set nxt \<union> {j \<in> csc_edges m `` set (f # fs). \<not> skip j}"
      using one(3) two(3) unfolding csc_edges_source[OF Cons.prems(2) f] by auto
    show "\<forall>j < dimension m. n2 ! j = ns ! j \<or> n2 ! j = marker" using one(4) two(4) by metis
  qed (rule two(2))
qed

end
