(* ===== verification/Sparse_Compact.thy ===== *)
theory Sparse_Compact
  imports Sparse_Csc
begin

text \<open>
  The compact kernel computes the powers of the edge relation of its matrix: the bitmaps and the per-depth markers
  of its loops refine the expansions on sets, first on ordinals and then, through the sorted vertex dictionary, on
  vertices. The count of a range expansion is the length of its list, and \<^verbatim>\<open>to_adjacency\<close> of a validated
  compressed form never fails and keeps the edge relation.
\<close>

subsection \<open>The compact loops refine the expansion of sets\<close>

lemma marker_value: "Suc depth \<le> 255 \<Longrightarrow> unat (word_of_nat (Suc depth) :: u8) = Suc depth"
  by (simp add: unsigned_of_nat take_bit_nat_eq_self del: of_nat_Suc)

lemma u8_bound: "unat (w :: u8) \<le> 255"
proof -
  have "unat w < 2 ^ LENGTH(8)" by (rule unsigned_less)
  then show ?thesis by simp
qed

lemma fresh_marks:
  assumes "length ns = dim" "\<forall>j < dim. unat (ns ! j) \<le> depth" "Suc depth \<le> 255"
  shows "marks_ok dim skip (word_of_nat (Suc depth)) ns []"
proof -
  have "unat (word_of_nat (Suc depth) :: u8) = Suc depth" using assms(3) by (rule marker_value)
  then show ?thesis using assms unfolding marks_ok_def by (metis Suc_n_not_le_n empty_iff empty_set empty_subsetI)
qed

lemma kept_marks:
  assumes "\<forall>j < dim. unat (ns ! j :: u8) \<le> depth" "\<forall>j < dim. ns' ! j = ns ! j \<or> ns' ! j = word_of_nat (Suc depth)" "Suc depth \<le> 255"
  shows "\<forall>j < dim. unat (ns' ! j) \<le> Suc depth"
proof -
  have "unat (word_of_nat (Suc depth) :: u8) = Suc depth" using assms(3) by (rule marker_value)
  then show ?thesis using assms(1,2) by (metis le_SucI order_refl)
qed

lemma csc_expand_loop_sets:
  assumes "csc_ok m" "length seen = dimension m" "length ns = dimension m" "set F \<subseteq> {..<dimension m}"
    "\<forall>j < dimension m. unat (ns ! j) \<le> depth" "depth + n \<le> 255"
  shows "length (fst (csc_expand_loop m depth n F seen ns e)) = dimension m
    \<and> bits (fst (csc_expand_loop m depth n F seen ns e)) = bfs_sets (csc_edges m) n (set F) (bits seen)"
  using assms(2-)
proof (induction n arbitrary: depth F seen ns e)
  case (Suc n)
  let ?skip = "\<lambda>dst. seen ! dst" and ?marker = "word_of_nat (Suc depth) :: u8"
  have d: "Suc depth \<le> 255" using Suc.prems(5) by simp
  obtain ns' nxt e' where step: "fold (visit_source m ?skip ?marker) F ((ns, []), e) = ((ns', nxt), e')"
    "marks_ok (dimension m) ?skip ?marker ns' nxt" "set nxt = set [] \<union> {j \<in> csc_edges m `` set F. \<not> ?skip j}"
    "\<forall>j < dimension m. ns' ! j = ns ! j \<or> ns' ! j = ?marker"
    by (rule visit_source_fold[OF assms(1) fresh_marks[OF Suc.prems(2,4) d] Suc.prems(3)])
  have nxt: "set nxt \<subseteq> {..<dimension m}" "length ns' = dimension m" using step(2) by (simp_all add: marks_ok_def)
  have N: "csc_edges m `` set F - bits seen = set nxt"
    using step(3) Suc.prems(1) nxt(1) csc_row_bound[OF assms(1)] by (auto simp: bits_def csc_edges_def)
  show ?case
  proof (cases "nxt = []")
    case True
    then show ?thesis using step(1) N Suc.prems(1) by (simp del: of_nat_Suc add: Let_def)
  next
    case False
    have "bits (set_all nxt seen) = bits seen \<union> set nxt" using nxt(1) Suc.prems(1) by (simp add: bits_set_all)
    then show ?thesis
      using Suc.IH[of "set_all nxt seen" ns' nxt "Suc depth" e'] False nxt kept_marks[OF Suc.prems(4) step(4) d] Suc.prems(1,5)
      by (simp add: step(1) N Let_def del: of_nat_Suc)
  qed
qed simp

lemma csc_range_loop_sets:
  assumes "csc_ok m" "length res = dimension m" "length ns = dimension m" "set F \<subseteq> {..<dimension m}"
    "\<forall>j < dimension m. unat (ns ! j) \<le> depth" "depth + n \<le> 255"
  shows "length (fst (csc_range_loop m lo depth n F res ns e)) = dimension m
    \<and> bits (fst (csc_range_loop m lo depth n F res ns e)) = range_sets (csc_edges m) lo depth n (set F) (bits res)"
  using assms(2-)
proof (induction n arbitrary: depth F res ns e)
  case (Suc n)
  let ?marker = "word_of_nat (Suc depth) :: u8"
  have d: "Suc depth \<le> 255" using Suc.prems(5) by simp
  obtain ns' nxt e' where step: "fold (visit_source m (\<lambda>_. False) ?marker) F ((ns, []), e) = ((ns', nxt), e')"
    "marks_ok (dimension m) (\<lambda>_. False) ?marker ns' nxt" "set nxt = set [] \<union> {j \<in> csc_edges m `` set F. \<not> False}"
    "\<forall>j < dimension m. ns' ! j = ns ! j \<or> ns' ! j = ?marker"
    by (rule visit_source_fold[OF assms(1) fresh_marks[OF Suc.prems(2,4) d] Suc.prems(3)])
  have nxt: "set nxt \<subseteq> {..<dimension m}" "length ns' = dimension m" using step(2) by (simp_all add: marks_ok_def)
  have N: "csc_edges m `` set F = set nxt" using step(3) by simp
  let ?res = "if lo \<le> Suc depth then set_all nxt res else res"
  have R: "length ?res = dimension m" "bits ?res = (if lo \<le> Suc depth then bits res \<union> set nxt else bits res)"
    using nxt(1) Suc.prems(1) by (simp_all add: bits_set_all)
  show ?case
  proof (cases "nxt = []")
    case True
    then show ?thesis using step(1) N Suc.prems(1) by (simp del: of_nat_Suc add: Let_def set_all_def)
  next
    case False
    then show ?thesis
      using Suc.IH[of ?res ns' nxt "Suc depth" e'] R nxt kept_marks[OF Suc.prems(4) step(4) d] Suc.prems(5)
      by (simp add: step(1) N Let_def del: of_nat_Suc split del: if_split)
  qed
qed simp

subsection \<open>From ordinals to vertices\<close>

definition csc_graph :: "compact_csc \<Rightarrow> (vertex_id \<times> vertex_id) set" where
  "csc_graph m = {(u, v). \<exists>(i, j) \<in> csc_edges m. u = cc_vertices m ! i \<and> v = cc_vertices m ! j}"

definition known_ordinals :: "compact_csc \<Rightarrow> vertex_id set \<Rightarrow> nat set" where
  "known_ordinals m X = {i. i < dimension m \<and> cc_vertices m ! i \<in> X}"

lemma vertices_inj: "csc_ok m \<Longrightarrow> i < dimension m \<Longrightarrow> j < dimension m \<Longrightarrow> cc_vertices m ! i = cc_vertices m ! j \<Longrightarrow> i = j"
  by (metis csc_ok_def dimension_def nth_eq_iff_index_eq strict_sorted_iff)

lemma csc_edges_bound: "csc_ok m \<Longrightarrow> (i, j) \<in> csc_edges m \<Longrightarrow> i < dimension m \<and> j < dimension m"
  using csc_row_bound by (auto simp: csc_edges_def)

lemma csc_graph_step:
  assumes "csc_ok m"
  shows "csc_graph m `` X = (\<lambda>i. cc_vertices m ! i) ` (csc_edges m `` known_ordinals m X)"
proof (intro set_eqI iffI)
  fix v
  assume "v \<in> csc_graph m `` X"
  then obtain i j where ij: "(i, j) \<in> csc_edges m" "cc_vertices m ! i \<in> X" "v = cc_vertices m ! j" by (auto simp: csc_graph_def)
  then have "i \<in> known_ordinals m X" using csc_edges_bound[OF assms] by (auto simp: known_ordinals_def)
  with ij show "v \<in> (\<lambda>i. cc_vertices m ! i) ` (csc_edges m `` known_ordinals m X)" by blast
next
  fix v
  assume "v \<in> (\<lambda>i. cc_vertices m ! i) ` (csc_edges m `` known_ordinals m X)"
  then obtain i j where ij: "(i, j) \<in> csc_edges m" "i \<in> known_ordinals m X" "v = cc_vertices m ! j" by blast
  then show "v \<in> csc_graph m `` X" unfolding csc_graph_def known_ordinals_def Image_def by blast
qed

lemma known_image:
  assumes "csc_ok m" "I \<subseteq> {..<dimension m}"
  shows "known_ordinals m ((\<lambda>i. cc_vertices m ! i) ` I) = I"
proof (intro set_eqI iffI)
  fix i
  assume "i \<in> known_ordinals m ((\<lambda>i. cc_vertices m ! i) ` I)"
  then obtain j where j: "i < dimension m" "cc_vertices m ! i = cc_vertices m ! j" "j \<in> I" unfolding known_ordinals_def by blast
  then show "i \<in> I" using assms(2) vertices_inj[OF assms(1), of i j] by auto
qed (use assms(2) in \<open>auto simp: known_ordinals_def\<close>)

lemma known_step:
  assumes "csc_ok m"
  shows "known_ordinals m (csc_graph m `` X) = csc_edges m `` known_ordinals m X"
  unfolding csc_graph_step[OF assms] by (rule known_image[OF assms]) (use csc_edges_bound[OF assms] in auto)

lemma known_power:
  assumes "csc_ok m"
  shows "known_ordinals m ((csc_graph m ^^ k) `` X) = (csc_edges m ^^ k) `` known_ordinals m X"
proof (induction k)
  case (Suc k)
  then show ?case by (simp add: relcomp_Image known_step[OF assms])
qed simp

lemma graph_power:
  assumes "csc_ok m"
  shows "(csc_graph m ^^ Suc k) `` X = (\<lambda>i. cc_vertices m ! i) ` ((csc_edges m ^^ Suc k) `` known_ordinals m X)"
  by (simp add: relcomp_Image csc_graph_step[OF assms] known_power[OF assms])

lemma start_ordinals_set:
  assumes "csc_ok m"
  shows "set (start_ordinals m starts) = known_ordinals m (set starts)"
proof -
  have "set (List.map_filter (ordinal m) starts) = {i. \<exists>v \<in> set starts. ordinal m v = Some i}"
    by (force simp: List.map_filter_def)
  then show ?thesis by (auto simp: start_ordinals_def known_ordinals_def ordinal_iff[OF assms])
qed

lemma start_ordinals_bound: "csc_ok m \<Longrightarrow> set (start_ordinals m starts) \<subseteq> {..<dimension m}"
  by (auto simp: start_ordinals_set known_ordinals_def)

definition result_list :: "compact_csc \<Rightarrow> nat set \<Rightarrow> vertex_id list" where
  "result_list m I = map (\<lambda>i. cc_vertices m ! i) (filter (\<lambda>i. i \<in> I) [0..<dimension m])"

lemma result_list:
  assumes "csc_ok m" "I \<subseteq> {..<dimension m}"
  shows "bs_ok (result_list m I)" "set (result_list m I) = (\<lambda>i. cc_vertices m ! i) ` I"
proof -
  have "sorted_wrt (<) (map (\<lambda>i. cc_vertices m ! i) [0..<dimension m])"
    using assms(1) by (simp add: csc_ok_def dimension_def map_nth)
  then have "sorted_wrt (\<lambda>i j. cc_vertices m ! i < cc_vertices m ! j) [0..<dimension m]" by (simp add: sorted_wrt_map)
  then show "bs_ok (result_list m I)" by (simp add: result_list_def bs_ok_def sorted_wrt_map sorted_wrt_filter)
  show "set (result_list m I) = (\<lambda>i. cc_vertices m ! i) ` I" using assms(2) by (auto simp: result_list_def)
qed

lemma known_within:
  "csc_ok m \<Longrightarrow> known_ordinals m (within_hops (csc_graph m) n X) = within_hops (csc_edges m) n (known_ordinals m X)"
proof -
  assume c: "csc_ok m"
  have "known_ordinals m (\<Union>k \<in> K. B k) = (\<Union>k \<in> K. known_ordinals m (B k))" for K :: "nat set" and B
    by (auto simp: known_ordinals_def)
  then show ?thesis by (simp add: within_hops_def known_power[OF c])
qed

lemma graph_within:
  assumes "csc_ok m"
  shows "within_hops (csc_graph m) n X - X = (\<lambda>i. cc_vertices m ! i) ` (within_hops (csc_edges m) n (known_ordinals m X) - known_ordinals m X)"
proof (intro set_eqI iffI)
  fix v
  assume v: "v \<in> within_hops (csc_graph m) n X - X"
  then obtain k where k: "k \<le> n" "v \<in> (csc_graph m ^^ k) `` X" by (auto simp: in_within_hops)
  with v have "k \<noteq> 0" by (intro notI) simp
  then obtain j where "k = Suc j" using not0_implies_Suc by blast
  with k have "v \<in> (\<lambda>i. cc_vertices m ! i) ` ((csc_edges m ^^ k) `` known_ordinals m X)" using graph_power[OF assms, of j X] by simp
  then obtain i where i: "i \<in> (csc_edges m ^^ k) `` known_ordinals m X" "v = cc_vertices m ! i" by blast
  have "i \<notin> known_ordinals m X" using v i(2) by (auto simp: known_ordinals_def)
  moreover have "i \<in> within_hops (csc_edges m) n (known_ordinals m X)" using i(1) k(1) by (auto simp: in_within_hops)
  ultimately show "v \<in> (\<lambda>i. cc_vertices m ! i) ` (within_hops (csc_edges m) n (known_ordinals m X) - known_ordinals m X)"
    using i(2) by blast
next
  fix v
  assume "v \<in> (\<lambda>i. cc_vertices m ! i) ` (within_hops (csc_edges m) n (known_ordinals m X) - known_ordinals m X)"
  then show "v \<in> within_hops (csc_graph m) n X - X"
    unfolding known_within[OF assms, symmetric] by (auto simp: known_ordinals_def)
qed

subsection \<open>The compact kernel\<close>

lemma within_hops_0 [simp]: "within_hops E 0 S = S"
  by (simp add: within_hops_def)

lemma within_hops_empty [simp]: "within_hops E n {} = {}"
  by (simp add: within_hops_def)

lemma within_hops_bound: "E \<subseteq> D \<times> D \<Longrightarrow> S \<subseteq> D \<Longrightarrow> within_hops E n S \<subseteq> D"
proof (induction n arbitrary: S)
  case (Suc n)
  then have "S \<union> E `` S \<subseteq> D" by auto
  then show ?case using Suc unfolding within_hops_Suc by blast
qed simp

lemma csc_edges_subset: "csc_ok m \<Longrightarrow> csc_edges m \<subseteq> {..<dimension m} \<times> {..<dimension m}"
  using csc_edges_bound by auto

lemma csc_expand_spec:
  assumes "csc_ok m"
  shows "\<exists>t. csc_expand m starts hops = Inr t \<and> st_backend t = CompactCsc \<and> bs_ok (st_vertices t)
    \<and> set (st_vertices t) = within_hops (csc_graph m) (unat hops) (set starts) - set starts"
proof (cases "hops = 0 \<or> start_ordinals m starts = []")
  case True
  have none: "known_ordinals m (set starts) = {}" if "start_ordinals m starts = []"
    using start_ordinals_set[OF assms, of starts] that by simp
  have "within_hops (csc_graph m) (unat hops) (set starts) - set starts = {}"
  proof (cases "hops = 0")
    case False
    then show ?thesis using True none unfolding graph_within[OF assms] by simp
  qed simp
  moreover have "csc_expand m starts hops = Inr compact_empty_traversal" using True by (auto simp: csc_expand_def Let_def)
  ultimately show ?thesis by (simp add: compact_empty_traversal_def)
next
  case False
  let ?S = "start_ordinals m starts" and ?n = "dimension m"
  let ?b = "set_all ?S (replicate ?n False)"
  let ?seen = "fst (csc_expand_loop m 0 (unat hops) ?S ?b (replicate ?n 0) 0)"
  have nonempty: "cc_vertices m \<noteq> []" "starts \<noteq> []"
    using False start_ordinals_bound[OF assms, of starts] by (auto simp: dimension_def start_ordinals_def List.map_filter_def)
  have b: "bits ?b = set ?S" using start_ordinals_bound[OF assms] by (simp add: bits_set_all)
  have "0 + unat hops \<le> 255" using u8_bound[of hops] by simp
  then have loop: "length ?seen = ?n \<and> bits ?seen = within_hops (csc_edges m) (unat hops) (set ?S)"
    using csc_expand_loop_sets[OF assms, of ?b "replicate ?n 0" ?S 0 "unat hops" 0] start_ordinals_bound[OF assms]
    by (simp add: b bfs_sets_within)
  let ?I = "within_hops (csc_edges m) (unat hops) (set ?S) - set ?S"
  have I: "?I \<subseteq> {..<?n}" using within_hops_bound[OF csc_edges_subset[OF assms] start_ordinals_bound[OF assms]] by blast
  have mem: "?seen ! i \<and> \<not> ?b ! i \<longleftrightarrow> i \<in> ?I" if "i < ?n" for i
  proof -
    have "?seen ! i \<longleftrightarrow> i \<in> bits ?seen" "?b ! i \<longleftrightarrow> i \<in> bits ?b" using that loop by (simp_all add: bits_def)
    then show ?thesis using loop b by simp
  qed
  have list: "map (\<lambda>i. cc_vertices m ! i) (filter (\<lambda>i. ?seen ! i \<and> \<not> ?b ! i) [0..<?n]) = result_list m ?I"
    unfolding result_list_def by (rule arg_cong[where f = "map _"], rule filter_cong[OF refl], rule mem) simp
  have "\<exists>e. csc_expand m starts hops = Inr \<lparr>st_vertices = result_list m ?I, st_edge_visits = e, st_backend = CompactCsc\<rparr>"
    using False nonempty list[symmetric] by (simp add: csc_expand_def Let_def case_prod_beta)
  then show ?thesis using result_list[OF assms I] unfolding graph_within[OF assms] start_ordinals_set[OF assms, symmetric]
    by auto
qed

lemma graph_power_known:
  assumes "csc_ok m" "I \<subseteq> {..<dimension m}"
  shows "(csc_graph m ^^ k) `` ((\<lambda>i. cc_vertices m ! i) ` I) = (\<lambda>i. cc_vertices m ! i) ` ((csc_edges m ^^ k) `` I)"
proof (cases k)
  case (Suc j)
  then show ?thesis using graph_power[OF assms(1), of j "(\<lambda>i. cc_vertices m ! i) ` I"] by (simp only: known_image[OF assms])
qed simp

lemma graph_range:
  assumes "csc_ok m" "I \<subseteq> {..<dimension m}"
  shows "hop_range (csc_graph m) lo hi ((\<lambda>i. cc_vertices m ! i) ` I) = (\<lambda>i. cc_vertices m ! i) ` hop_range (csc_edges m) lo hi I"
  by (simp add: hop_range_def graph_power_known[OF assms] image_UN)

lemma hop_range_bound: "E \<subseteq> D \<times> D \<Longrightarrow> S \<subseteq> D \<Longrightarrow> hop_range E lo hi S \<subseteq> D"
proof -
  assume a: "E \<subseteq> D \<times> D" "S \<subseteq> D"
  have "hop_range E lo hi S \<subseteq> within_hops E hi S" unfolding hop_range_def within_hops_def by (rule UN_mono) auto
  then show ?thesis using within_hops_bound[OF a] by (rule order_trans)
qed

lemma known_starts:
  assumes "csc_ok m"
  shows "(\<lambda>i. cc_vertices m ! i) ` known_ordinals m X = X \<inter> set (cc_vertices m)"
  by (auto simp: known_ordinals_def dimension_def in_set_conv_nth)

definition bitmap_of :: "compact_csc \<Rightarrow> bool list \<Rightarrow> nat set \<Rightarrow> bool" where
  "bitmap_of m b I \<longleftrightarrow> bits b = I \<and> (length b = dimension m \<or> b = [])"

lemma bitmap_list: "bitmap_of m b I \<Longrightarrow> filter (\<lambda>i. b ! i) [0..<length b] = filter (\<lambda>i. i \<in> I) [0..<dimension m]"
  unfolding bitmap_of_def bits_def by (cases "b = []") (auto intro: filter_cong)

lemma bitmap_count: "length (filter (\<lambda>i. b ! i) [0..<length b]) = length (filter (\<lambda>x. x) b)"
proof -
  have "length (filter (\<lambda>x. x) (map ((!) b) [0..<length b])) = length (filter (\<lambda>i. b ! i) [0..<length b])"
    by (simp add: filter_map comp_def)
  then show ?thesis by (simp add: map_nth)
qed

lemma expand_range_bitmap_spec:
  assumes "csc_ok m"
  shows "\<exists>b e. expand_range_bitmap m starts lo hi = Inr (b, e)
    \<and> bitmap_of m b (hop_range (csc_edges m) (unat lo) (unat hi) (known_ordinals m (set starts)))"
proof -
  let ?F = "start_ordinals m starts" and ?n = "dimension m"
  note F = start_ordinals_set[OF assms, of starts] start_ordinals_bound[OF assms, of starts]
  show ?thesis
  proof (cases "hi < lo \<or> ?F = []")
    case True
    have "hop_range (csc_edges m) (unat lo) (unat hi) (set ?F) = {}"
      using True by (auto simp: hop_range_def word_less_nat_alt)
    moreover have "expand_range_bitmap m starts lo hi = Inr ([], 0)" using True by (auto simp: expand_range_bitmap_def Let_def)
    ultimately show ?thesis by (simp add: F(1) bitmap_of_def bits_def)
  next
    case False
    let ?res = "if lo = 0 then set_all ?F (replicate ?n False) else replicate ?n False"
    let ?out = "csc_range_loop m (unat lo) 0 (unat hi) ?F ?res (replicate ?n 0) 0"
    have nonempty: "cc_vertices m \<noteq> []" "starts \<noteq> []"
      using False F(2) by (auto simp: dimension_def start_ordinals_def List.map_filter_def)
    have res: "length ?res = ?n" "bits ?res = (if unat lo = 0 then set ?F else {})"
      using F(2) by (simp_all add: bits_set_all unat_eq_0)
    have "0 + unat hi \<le> 255" using u8_bound[of hi] by simp
    then have "length (fst ?out) = ?n \<and> bits (fst ?out) = range_sets (csc_edges m) (unat lo) 0 (unat hi) (set ?F) (bits ?res)"
      using F(2) res(1) by (intro csc_range_loop_sets[OF assms]) auto
    then have "bitmap_of m (fst ?out) (hop_range (csc_edges m) (unat lo) (unat hi) (set ?F))"
      unfolding res(2) range_sets_spec bitmap_of_def by simp
    moreover have "expand_range_bitmap m starts lo hi = Inr (fst ?out, snd ?out)"
      using False nonempty by (simp add: expand_range_bitmap_def Let_def)
    ultimately show ?thesis unfolding F(1) by blast
  qed
qed

lemma csc_expand_range_spec:
  assumes "csc_ok m"
  shows "\<exists>t. csc_expand_range m starts lo hi = Inr t \<and> st_backend t = CompactCsc \<and> bs_ok (st_vertices t)
    \<and> set (st_vertices t) = hop_range (csc_graph m) (unat lo) (unat hi) (set starts \<inter> set (cc_vertices m))
    \<and> csc_expand_range_count m starts lo hi = Inr \<lparr>sc_vertices = word_of_nat (length (st_vertices t)),
         sc_edge_visits = st_edge_visits t, sc_backend = CompactCsc\<rparr>"
proof -
  let ?K = "known_ordinals m (set starts)"
  let ?I = "hop_range (csc_edges m) (unat lo) (unat hi) ?K"
  obtain b e where b: "expand_range_bitmap m starts lo hi = Inr (b, e)" "bitmap_of m b ?I"
    using expand_range_bitmap_spec[OF assms] by blast
  have K: "?K \<subseteq> {..<dimension m}" by (auto simp: known_ordinals_def)
  note I = hop_range_bound[OF csc_edges_subset[OF assms] K, of "unat lo" "unat hi"]
  have list: "map (\<lambda>i. cc_vertices m ! i) (filter (\<lambda>i. b ! i) [0..<length b]) = result_list m ?I"
    by (simp add: bitmap_list[OF b(2)] result_list_def)
  have "csc_expand_range m starts lo hi = Inr \<lparr>st_vertices = result_list m ?I, st_edge_visits = e, st_backend = CompactCsc\<rparr>"
    by (simp add: csc_expand_range_def expand_range_ordinals_def b(1) list)
  moreover have "length (result_list m ?I) = length (filter (\<lambda>x. x) b)"
    unfolding list[symmetric] length_map by (rule bitmap_count)
  moreover have "set (result_list m ?I) = hop_range (csc_graph m) (unat lo) (unat hi) (set starts \<inter> set (cc_vertices m))"
    unfolding result_list(2)[OF assms I] graph_range[OF assms K, symmetric] known_starts[OF assms] ..
  ultimately show ?thesis using result_list(1)[OF assms I] by (simp add: csc_expand_range_count_def b(1))
qed

subsection \<open>The canonical adjacency\<close>

lemma adjacency_neighbor_fold:
  assumes "\<forall>d \<in> set row. unat d < length (gb_vertices csc)" "bs_ok acc"
  shows "\<exists>N. rfold (adjacency_neighbor csc) row acc = Inr N \<and> bs_ok N
    \<and> set N = set acc \<union> (\<lambda>d. gb_vertices csc ! unat d) ` set row"
  using assms
proof (induction row arbitrary: acc)
  case (Cons d row)
  let ?acc = "bs_insert (gb_vertices csc ! unat d) acc"
  have "adjacency_neighbor csc d acc = Inr ?acc" using Cons.prems by (simp add: adjacency_neighbor_def)
  then show ?case using Cons.IH[of ?acc] Cons.prems by auto
qed simp

lemma slice_row:
  assumes "validate_csc csc = Inr ()" "i < length (gb_vertices csc)"
  shows "\<exists>row. slice_get (gb_indices csc) (unat (gb_pointers csc ! i)) (unat (gb_pointers csc ! (i + 1))) = Some row
    \<and> map unat row = csc_row (from_csc csc) i"
proof -
  let ?m = "from_csc csc" and ?a = "unat (gb_pointers csc ! i)" and ?b = "unat (gb_pointers csc ! (i + 1))"
  have c: "csc_ok ?m" using assms(1) by (rule validate_csc_ok)
  have len: "length (gb_pointers csc) = length (gb_vertices csc) + 1" using assms(1) by (simp add: validate_csc_iff)
  have p: "pointer ?m i = ?a" "pointer ?m (i + 1) = ?b" using assms(2) len by simp_all
  have "?a \<le> ?b" using pointer_mono[OF c, of i "i + 1"] assms(2) p by simp
  moreover have b: "?b \<le> length (gb_indices csc)"
    using pointer_mono[OF c, of "i + 1" "dimension ?m"] assms(2) p c by (simp add: csc_ok_def)
  ultimately have "slice_get (gb_indices csc) ?a ?b = Some (take (?b - ?a) (drop ?a (gb_indices csc)))" by (simp add: slice_get_def)
  moreover have "map unat (take (?b - ?a) (drop ?a (gb_indices csc))) = csc_row ?m i"
    unfolding csc_row_def neighbor_range_def p using b by (intro nth_equalityI) auto
  ultimately show ?thesis by blast
qed

lemma adjacency_row_step:
  assumes "validate_csc csc = Inr ()" "i < length (gb_vertices csc)" "bt_ok A" "bt_get A (gb_vertices csc ! i) = None"
  shows "\<exists>A'. adjacency_row csc (i, gb_vertices csc ! i) A = Inr A' \<and> bt_ok A'
    \<and> adj_edges A' = adj_edges A \<union> {gb_vertices csc ! i} \<times> (\<lambda>j. gb_vertices csc ! j) ` set (csc_row (from_csc csc) i)
    \<and> (\<forall>v. v \<noteq> gb_vertices csc ! i \<longrightarrow> bt_get A' v = bt_get A v)
    \<and> (bt_get A' (gb_vertices csc ! i) = None \<longleftrightarrow> csc_row (from_csc csc) i = [])"
proof -
  let ?v = "gb_vertices csc ! i" and ?row = "csc_row (from_csc csc) i"
  obtain row where row: "slice_get (gb_indices csc) (unat (gb_pointers csc ! i)) (unat (gb_pointers csc ! (i + 1))) = Some row"
    "map unat row = ?row" using slice_row[OF assms(1,2)] by blast
  have bound: "\<forall>d \<in> set row. unat d < length (gb_vertices csc)"
    using csc_row_bound[OF validate_csc_ok[OF assms(1)], of i] assms(2) row(2) by (metis from_csc_simps(1) image_eqI set_map)
  obtain N where N: "rfold (adjacency_neighbor csc) row [] = Inr N" "bs_ok N" "set N = (\<lambda>d. gb_vertices csc ! unat d) ` set row"
    using adjacency_neighbor_fold[OF bound bs_ok_Nil] by auto
  have targets: "set N = (\<lambda>j. gb_vertices csc ! j) ` set ?row" unfolding N(3) row(2)[symmetric] by auto
  show ?thesis
  proof (cases "row = []")
    case True
    then have "adjacency_row csc (i, ?v) A = Inr A" using row(1) by (simp add: adjacency_row_def Let_def)
    then show ?thesis using assms(3,4) row(2) True by auto
  next
    case False
    then have "adjacency_row csc (i, ?v) A = Inr (bt_insert ?v N A)" using row(1) N(1) by (simp add: adjacency_row_def Let_def)
    moreover have "adj_edges (bt_insert ?v N A) = adj_edges A \<union> {?v} \<times> set N"
      using assms(3,4) unfolding adj_edges_def bt_get_insert[OF assms(3)] by (auto split: if_splits)
    ultimately show ?thesis using assms(3) targets False row(2) by (auto simp: bt_get_insert)
  qed
qed

lemma adjacency_rows:
  assumes "validate_csc csc = Inr ()"
  shows "distinct is \<Longrightarrow> \<forall>i \<in> set is. i < length (gb_vertices csc) \<Longrightarrow> bt_ok A \<Longrightarrow>
    \<forall>i \<in> set is. bt_get A (gb_vertices csc ! i) = None \<Longrightarrow>
    \<exists>A'. rfold (adjacency_row csc) (map (\<lambda>i. (i, gb_vertices csc ! i)) is) A = Inr A' \<and> bt_ok A'
      \<and> adj_edges A' = adj_edges A \<union> (\<Union>i \<in> set is. {gb_vertices csc ! i} \<times> (\<lambda>j. gb_vertices csc ! j) ` set (csc_row (from_csc csc) i))"
proof (induction "is" arbitrary: A)
  case (Cons i rest)
  let ?vs = "gb_vertices csc"
  obtain A1 where one: "adjacency_row csc (i, ?vs ! i) A = Inr A1" "bt_ok A1"
    "adj_edges A1 = adj_edges A \<union> {?vs ! i} \<times> (\<lambda>j. ?vs ! j) ` set (csc_row (from_csc csc) i)"
    "\<forall>v. v \<noteq> ?vs ! i \<longrightarrow> bt_get A1 v = bt_get A v"
    using adjacency_row_step[OF assms, of i A] Cons.prems by auto
  have "bt_get A1 (?vs ! j) = None" if "j \<in> set rest" for j
  proof -
    have "distinct ?vs" using assms by (simp add: validate_csc_iff strict_sorted_iff)
    then have "?vs ! j \<noteq> ?vs ! i" using that Cons.prems(1,2) by (auto simp: nth_eq_iff_index_eq)
    then show ?thesis using one(4) that Cons.prems(4) by simp
  qed
  then obtain A2 where "rfold (adjacency_row csc) (map (\<lambda>i. (i, ?vs ! i)) rest) A1 = Inr A2" "bt_ok A2"
    "adj_edges A2 = adj_edges A1 \<union> (\<Union>i \<in> set rest. {?vs ! i} \<times> (\<lambda>j. ?vs ! j) ` set (csc_row (from_csc csc) i))"
    using Cons.IH[of A1] Cons.prems(1,2) one(2) by auto
  then show ?case using one(1,3) by (simp add: Un_assoc)
qed simp

lemma to_adjacency_spec:
  assumes "validate_csc csc = Inr ()"
  shows "\<exists>A. to_adjacency csc = Inr A \<and> bt_ok A \<and> adj_edges A = csc_graph (from_csc csc)"
proof -
  let ?vs = "gb_vertices csc"
  have enum: "enumerate 0 ?vs = map (\<lambda>i. (i, ?vs ! i)) [0..<length ?vs]"
    by (rule nth_equalityI) (simp_all add: nth_enumerate_eq)
  obtain A where A: "rfold (adjacency_row csc) (map (\<lambda>i. (i, ?vs ! i)) [0..<length ?vs]) [] = Inr A" "bt_ok A"
    "adj_edges A = adj_edges [] \<union> (\<Union>i \<in> set [0..<length ?vs]. {?vs ! i} \<times> (\<lambda>j. ?vs ! j) ` set (csc_row (from_csc csc) i))"
    using adjacency_rows[OF assms, of "[0..<length ?vs]" "[]"] by auto
  have "adj_edges A = csc_graph (from_csc csc)"
    unfolding A(3) by (auto simp: adj_edges_def csc_graph_def csc_edges_def)
  then show ?thesis using A(1,2) enum assms by (simp add: to_adjacency_def validate_csc_iff)
qed

end
