(* ===== verification/Sparse_Build.thy ===== *)
theory Sparse_Build
  imports Sparse_Compact
begin

text \<open>
  Building compressed forms: \<^verbatim>\<open>graphblas_csc_from_adjacency\<close> of \<^verbatim>\<open>src/sparse_kernel/mod.rs\<close> and \<^verbatim>\<open>transpose\<close> of the
  compact matrix in \<^verbatim>\<open>graphblas.rs\<close>. Both count the entries of each row, turn the counts into offsets by a running
  sum, and place each entry at the next free position of its row; \<open>place_rows\<close> proves that step once for both. The
  counters are \<^typ>\<open>nat\<close>s until they are stored, since they count entries of vectors in memory; the bound of the
  stored u64 appears as a hypothesis on the number of edges.
\<close>

definition prefix_sums :: "nat list \<Rightarrow> nat list" where
  "prefix_sums ps = fold (\<lambda>i ps. ps[i := ps ! i + ps ! (i - 1)]) [1..<length ps] ps"

definition place :: "nat \<Rightarrow> nat \<Rightarrow> nat list \<times> nat list \<Rightarrow> nat list \<times> nat list" where
  "place row value p = (case p of (indices, offsets) \<Rightarrow>
     (indices[offsets ! row := value], offsets[row := offsets ! row + 1]))"

definition csc_vertex_ordinal :: "vertex_id list \<Rightarrow> vertex_id \<Rightarrow> string \<Rightarrow> nat result" where
  "csc_vertex_ordinal vertices vertex role =
     ok_or (grb_error (''missing CSC ordinal for '' @ role @ '' vertex '' @ fmt_u64 vertex)) (binary_search vertices vertex)"

definition graphblas_vertices_from_adjacency :: "adjacency \<Rightarrow> vertex_id list result" where
  "graphblas_vertices_from_adjacency adjacency =
     (let vertices = fold (\<lambda>(src, dsts) vertices. bs_extend (bs_insert src vertices) dsts) adjacency [] in
      if grb_index_max < length vertices then
        Inl (grb_error (to_dec (length vertices) @ '' local vertices exceed GraphBLAS index limit''))
      else Inr vertices)"

definition count_source :: "vertex_id list \<Rightarrow> vertex_id \<times> vertex_id btset \<Rightarrow> nat list \<Rightarrow> nat list result" where
  "count_source vertices p pointers = (case p of (src, dsts) \<Rightarrow>
     rbind (csc_vertex_ordinal vertices src ''source'') (\<lambda>src_ordinal.
       Inr (pointers[src_ordinal + 1 := pointers ! (src_ordinal + 1) + length dsts])))"

definition place_source ::
    "vertex_id list \<Rightarrow> vertex_id \<times> vertex_id btset \<Rightarrow> nat list \<times> nat list \<Rightarrow> (nat list \<times> nat list) result" where
  "place_source vertices p arrays = (case p of (src, dsts) \<Rightarrow>
     rbind (csc_vertex_ordinal vertices src ''source'') (\<lambda>src_ordinal.
       rfold (\<lambda>dst arrays. rbind (csc_vertex_ordinal vertices dst ''destination'') (\<lambda>dst_ordinal.
         Inr (place src_ordinal dst_ordinal arrays))) dsts arrays))"

definition graphblas_csc_from_adjacency :: "adjacency \<Rightarrow> graph_blas_csc result" where
  "graphblas_csc_from_adjacency adjacency =
     rbind (graphblas_vertices_from_adjacency adjacency) (\<lambda>vertices.
     rbind (rfold (count_source vertices) adjacency (replicate (length vertices + 1) 0)) (\<lambda>counts.
     let pointers = prefix_sums counts in
     rbind (rfold (place_source vertices) adjacency (replicate (last pointers) 0, take (length vertices) pointers)) (\<lambda>(indices, offsets).
     Inr \<lparr>gb_vertices = vertices, gb_pointers = map word_of_nat pointers, gb_indices = map word_of_nat indices\<rparr>)))"

definition csc_transpose :: "compact_csc \<Rightarrow> compact_csc" where
  "csc_transpose m =
     (let counts = fold (\<lambda>index ps. ps[neighbor m index + 1 := ps ! (neighbor m index + 1) + 1])
            [0..<ordinals_len (cc_indices m)] (replicate (dimension m + 1) 0);
          pointers = prefix_sums counts;
          (indices, offsets) = fold (\<lambda>src arrays. fold (\<lambda>index. place (neighbor m index) src) (neighbor_range m src) arrays)
            [0..<dimension m] (replicate (ordinals_len (cc_indices m)) 0, take (dimension m) pointers)
      in \<lparr>cc_vertices = cc_vertices m, cc_pointers = ordinals_from_u64 (map word_of_nat pointers),
          cc_indices = ordinals_from_u64 (map word_of_nat indices)\<rparr>)"

subsection \<open>Counting sort\<close>

lemma prefix_sums_upto:
  fixes ps :: "nat list"
  assumes "j \<le> length ps" "1 \<le> j"
  shows "length (fold (\<lambda>i ps. ps[i := ps ! i + ps ! (i - 1)]) [1..<j] ps) = length ps \<and>
    (\<forall>k < length ps. fold (\<lambda>i ps. ps[i := ps ! i + ps ! (i - 1)]) [1..<j] ps ! k =
       (if k < j then sum_list (take (Suc k) ps) else ps ! k))"
  using assms(2,1)
proof (induction j rule: dec_induct)
  case base
  then show ?case by (cases ps) auto
next
  case (step j)
  let ?q = "fold (\<lambda>i ps. ps[i := ps ! i + ps ! (i - 1)]) [1..<j] ps"
  have IH: "length ?q = length ps" "\<forall>k < length ps. ?q ! k = (if k < j then sum_list (take (Suc k) ps) else ps ! k)"
    using step by auto
  have "[1..<Suc j] = [1..<j] @ [j]" using step.hyps by simp
  then have fold: "fold (\<lambda>i ps. ps[i := ps ! i + ps ! (i - 1)]) [1..<Suc j] ps = ?q[j := ?q ! j + ?q ! (j - 1)]" by simp
  have "?q ! j + ?q ! (j - 1) = sum_list (take (Suc j) ps)"
    using IH(2) step.hyps step.prems by (simp add: take_Suc_conv_app_nth add.commute)
  then show ?case unfolding fold using IH by (auto simp: nth_list_update less_Suc_eq)
qed

lemma prefix_sums_spec:
  "length (prefix_sums ps) = length ps" "k < length ps \<Longrightarrow> prefix_sums ps ! k = sum_list (take (Suc k) ps)"
  using prefix_sums_upto[of "length ps" ps] by (cases ps; auto simp: prefix_sums_def)+

definition row_of :: "(nat \<times> nat) list \<Rightarrow> nat \<Rightarrow> nat list" where
  "row_of es k = map snd (filter (\<lambda>p. fst p = k) es)"

lemma row_of_simps [simp]:
  "row_of [] k = []" "row_of (es @ fs) k = row_of es k @ row_of fs k" "row_of ((r, v) # es) k = (if r = k then v # row_of es k else row_of es k)"
  by (simp_all add: row_of_def)

text \<open>
  The entries \<open>es\<close> placed in order, where \<open>base\<close> gives the first position of each row: row \<open>k\<close> holds its entries in
  the order they came.
\<close>

lemma place_rows:
  assumes "\<forall>k < n. base k + length (row_of es k) \<le> base (Suc k)" "\<forall>p \<in> set es. fst p < n" "base n \<le> length idx"
    "length offs = n" "\<forall>k < n. offs ! k = base k" "\<And>j k. j \<le> k \<Longrightarrow> k \<le> n \<Longrightarrow> base j \<le> base k"
  shows "\<exists>idx' offs'. fold (\<lambda>(r, v). place r v) es (idx, offs) = (idx', offs') \<and> length idx' = length idx \<and> length offs' = n
    \<and> set idx' \<subseteq> set idx \<union> snd ` set es
    \<and> (\<forall>k < n. offs' ! k = base k + length (row_of es k)) \<and> (\<forall>k < n. \<forall>i < length (row_of es k). idx' ! (base k + i) = row_of es k ! i)"
  using assms(1,2)
proof (induction es rule: rev_induct)
  case Nil
  then show ?case using assms(4,5) by auto
next
  case (snoc e es)
  obtain r v where e: "e = (r, v)" by (cases e)
  have room: "\<forall>k < n. base k + length (row_of es k) \<le> base (Suc k)" using snoc.prems(1) by fastforce
  obtain i1 o1 where one: "fold (\<lambda>(r, v). place r v) es (idx, offs) = (i1, o1)" "length i1 = length idx" "length o1 = n"
    "set i1 \<subseteq> set idx \<union> snd ` set es" "\<forall>k < n. o1 ! k = base k + length (row_of es k)"
    "\<forall>k < n. \<forall>i < length (row_of es k). i1 ! (base k + i) = row_of es k ! i"
    using snoc.IH[OF room] snoc.prems(2) by auto
  have r: "r < n" using snoc.prems(2) e by simp
  let ?at = "base r + length (row_of es r)"
  have at: "o1 ! r = ?at" "?at < base (Suc r)" using one(5) r snoc.prems(1) e by fastforce+
  have "base (Suc r) \<le> base n" using assms(6)[of "Suc r" n] r by simp
  then have range: "?at < length i1" using at(2) assms(3) one(2) by simp
  have other: "base k + i \<noteq> ?at" if k: "k < n" "k \<noteq> r" and i: "i < length (row_of es k)" for k i
  proof (cases "k < r")
    case True
    have "base k + i < base (Suc k)" using room k(1) i by (meson add_less_cancel_left less_le_trans)
    also have "base (Suc k) \<le> base r" using assms(6)[of "Suc k" r] True r by simp
    finally show ?thesis by simp
  next
    case False
    then have "base (Suc r) \<le> base k" using assms(6)[of "Suc r" k] k by simp
    then show ?thesis using at(2) by simp
  qed
  have "set (i1[?at := v]) \<subseteq> insert v (set i1)" by (rule set_update_subset_insert)
  then have sets: "set (i1[?at := v]) \<subseteq> set idx \<union> snd ` set (es @ [e])" using one(4) e by auto
  have rows: "i1[?at := v] ! (base k + i) = row_of (es @ [e]) k ! i" if "k < n" "i < length (row_of (es @ [e]) k)" for k i
  proof (cases "k = r")
    case True
    then show ?thesis using that range one(6) r e by (cases "i = length (row_of es r)") (auto simp: nth_append)
  next
    case False
    then have i: "i < length (row_of es k)" using that(2) e by simp
    show ?thesis using False other[OF that(1) False i] i one(6) that(1) e by simp
  qed
  have offs: "o1[r := ?at + 1] ! k = base k + length (row_of (es @ [e]) k)" if "k < n" for k
    using that one(3,5) e by (simp add: nth_list_update)
  have "fold (\<lambda>(r, v). place r v) (es @ [e]) (idx, offs) = (i1[?at := v], o1[r := ?at + 1])"
    using one(1) e at(1) by (simp add: place_def)
  then show ?case using one(2,3) sets rows offs by auto
qed

lemma row_lengths:
  "\<forall>p \<in> set es. fst p < n \<Longrightarrow> (\<Sum>k < n. length (row_of es k)) = length es"
proof (induction es)
  case (Cons e es)
  obtain r v where e: "e = (r, v)" by (cases e)
  have "length (row_of (e # es) k) = (if r = k then 1 else 0) + length (row_of es k)" for k by (simp add: e)
  then have "(\<Sum>k < n. length (row_of (e # es) k)) = (\<Sum>k < n. if r = k then 1 else 0) + (\<Sum>k < n. length (row_of es k))"
    by (simp add: sum.distrib)
  then show ?case using Cons e by simp
qed simp

lemma sum_list_take_rows:
  assumes "length counts = n + 1" "counts ! 0 = 0" "\<forall>k < n. counts ! Suc k = length (row_of es k)" "k \<le> n"
  shows "sum_list (take (Suc k) counts) = (\<Sum>j < k. length (row_of es j))"
  using assms(4)
proof (induction k)
  case 0
  then show ?case using assms(1,2) by (cases counts) auto
next
  case (Suc k)
  have "take (Suc (Suc k)) counts = take (Suc k) counts @ [counts ! Suc k]" using Suc.prems assms(1) by (simp add: take_Suc_conv_app_nth)
  then show ?case using Suc assms(3) by simp
qed

lemma counting_sort:
  assumes "length counts = n + 1" "counts ! 0 = 0" "\<forall>k < n. counts ! Suc k = length (row_of es k)" "\<forall>p \<in> set es. fst p < n"
  defines "P \<equiv> prefix_sums counts"
  shows "length P = n + 1" "P ! 0 = 0" "\<And>k. k < n \<Longrightarrow> P ! k \<le> P ! Suc k" "last P = length es" "\<And>k. k \<le> n \<Longrightarrow> P ! k \<le> length es"
    "\<exists>idx offs. fold (\<lambda>(r, v). place r v) es (replicate (length es) 0, take n P) = (idx, offs) \<and> length idx = length es
       \<and> set idx \<subseteq> insert 0 (snd ` set es) \<and> (\<forall>k < n. map ((!) idx) [P ! k..<P ! Suc k] = row_of es k)"
proof -
  show len: "length P = n + 1" by (simp add: P_def prefix_sums_spec assms(1))
  have at: "P ! k = (\<Sum>j < k. length (row_of es j))" if "k \<le> n" for k
    using that assms(1) sum_list_take_rows[OF assms(1-3) that] by (simp add: P_def prefix_sums_spec)
  show "P ! 0 = 0" by (simp add: at)
  show step: "P ! k \<le> P ! Suc k" if "k < n" for k using that by (simp add: at)
  have end_at: "P ! n = length es" using row_lengths[OF assms(4)] by (simp add: at)
  then show "last P = length es" using len by (metis add_diff_cancel_right' add_is_0 last_conv_nth length_0_conv one_neq_zero)
  have mono: "P ! j \<le> P ! k" if "j \<le> k" "k \<le> n" for j k using that by (auto simp: at intro: sum_mono2)
  show "P ! k \<le> length es" if "k \<le> n" for k using mono[OF that] end_at by simp
  have room: "\<forall>k < n. P ! k + length (row_of es k) \<le> P ! Suc k" by (simp add: at)
  obtain idx offs where out: "fold (\<lambda>(r, v). place r v) es (replicate (length es) 0, take n P) = (idx, offs)"
    "length idx = length es" "set idx \<subseteq> set (replicate (length es) 0) \<union> snd ` set es"
    "\<forall>k < n. \<forall>i < length (row_of es k). idx ! (P ! k + i) = row_of es k ! i"
    using place_rows[where base = "\<lambda>k. P ! k" and idx = "replicate (length es) 0" and offs = "take n P", OF room assms(4)]
      mono end_at len by auto
  have "map ((!) idx) [P ! k..<P ! Suc k] = row_of es k" if k: "k < n" for k
  proof (rule nth_equalityI)
    show "length (map ((!) idx) [P ! k..<P ! Suc k]) = length (row_of es k)" using k by (simp add: at)
    then show "map ((!) idx) [P ! k..<P ! Suc k] ! i = row_of es k ! i" if "i < length (map ((!) idx) [P ! k..<P ! Suc k])" for i
      using that k out(4) by simp
  qed
  then show "\<exists>idx offs. fold (\<lambda>(r, v). place r v) es (replicate (length es) 0, take n P) = (idx, offs) \<and> length idx = length es
       \<and> set idx \<subseteq> insert 0 (snd ` set es) \<and> (\<forall>k < n. map ((!) idx) [P ! k..<P ! Suc k] = row_of es k)"
    using out(1-3) by (intro exI[of _ idx] exI[of _ offs]) auto
qed

subsection \<open>Matrices from placed rows\<close>

lemma stored_get: "i < length xs \<Longrightarrow> xs ! i < 2 ^ 64 \<Longrightarrow> ordinals_get (ordinals_from_u64 (map word_of_nat xs)) i = xs ! i"
  by (simp add: unsigned_of_nat take_bit_nat_eq_self)

lemma stored_matrix:
  assumes "sorted_wrt (<) vs" "length counts = length vs + 1" "counts ! 0 = 0" "\<forall>k < length vs. counts ! Suc k = length (row_of es k)"
    "\<forall>p \<in> set es. fst p < length vs \<and> snd p < length vs" "length es < 2 ^ 64" "length vs \<le> grb_index_max"
    "fold (\<lambda>(r, v). place r v) es (replicate (length es) 0, take (length vs) (prefix_sums counts)) = (idx, offs)"
  defines "m \<equiv> \<lparr>cc_vertices = vs, cc_pointers = ordinals_from_u64 (map word_of_nat (prefix_sums counts)),
     cc_indices = ordinals_from_u64 (map word_of_nat idx)\<rparr>"
  shows "csc_ok m" "\<And>k. k < length vs \<Longrightarrow> csc_row m k = row_of es k"
    "validate_csc \<lparr>gb_vertices = vs, gb_pointers = map word_of_nat (prefix_sums counts), gb_indices = map word_of_nat idx\<rparr> = Inr ()"
    "length idx = length es"
proof -
  let ?P = "prefix_sums counts" and ?n = "length vs"
  have keys: "\<forall>p \<in> set es. fst p < ?n" using assms(5) by blast
  note sort = counting_sort[OF assms(2-4) keys]
  have idx: "length idx = length es" "set idx \<subseteq> insert 0 (snd ` set es)" "\<forall>k < ?n. map ((!) idx) [?P ! k..<?P ! Suc k] = row_of es k"
    using sort(6) assms(8) by auto
  show "length idx = length es" by (rule idx(1))
  have P64: "?P ! k < 2 ^ 64" if "k \<le> ?n" for k using sort(5)[OF that] assms(6) by simp
  have small: "idx ! k < ?n" if "k < length idx" for k
  proof -
    have "es \<noteq> []" using that idx(1) by auto
    then have "0 < ?n" using keys by (cases es) auto
    moreover have "idx ! k \<in> insert 0 (snd ` set es)" using that idx(2) nth_mem by blast
    ultimately show ?thesis using assms(5) by auto
  qed
  have n64: "?n < 2 ^ 64" using assms(7) by (simp add: grb_index_max_def)
  have get: "pointer m k = ?P ! k" if "k \<le> ?n" for k
    using that stored_get[of k ?P] P64[OF that] sort(1) by (simp add: m_def pointer_def)
  have nb: "neighbor m k = idx ! k" if "k < length idx" for k
    using that stored_get[of k idx] small[OF that] n64 by (simp add: m_def neighbor_def)
  have dim: "dimension m = ?n" by (simp add: m_def dimension_def)
  have Pn: "?P ! ?n = length es" using sort(1,4) by (metis add_diff_cancel_right' add_is_0 last_conv_nth length_0_conv one_neq_zero)
  show "csc_ok m"
    unfolding csc_ok_def dim using assms(1) sort(1-3) idx(1) get nb small Pn by (auto simp: m_def)
  show "csc_row m k = row_of es k" if k: "k < ?n" for k
  proof -
    have "?P ! Suc k \<le> length idx" using sort(5)[of "Suc k"] k idx(1) by simp
    then have "map (neighbor m) [?P ! k..<?P ! Suc k] = map ((!) idx) [?P ! k..<?P ! Suc k]" by (intro map_cong) (auto simp: nb)
    then show ?thesis using k idx(3) get by (simp add: csc_row_def neighbor_range_def)
  qed
  show "validate_csc \<lparr>gb_vertices = vs, gb_pointers = map word_of_nat ?P, gb_indices = map word_of_nat idx\<rparr> = Inr ()"
    unfolding validate_csc_iff windows_all_iff
  proof (simp, intro conjI)
    show "?n \<le> grb_index_max" by (rule assms(7))
    show "sorted_wrt (<) vs" by (rule assms(1))
    show "length ?P = Suc ?n" using sort(1) by simp
    then show "map word_of_nat ?P ! 0 = (0 :: u64)" using sort(2) by simp
    show "\<forall>i. Suc i < length ?P \<longrightarrow> (word_of_nat (?P ! i) :: u64) \<le> word_of_nat (?P ! Suc i)"
      using sort(1,3) P64 by (auto simp: word_le_nat_alt unsigned_of_nat take_bit_nat_eq_self)
    show "unat (last_or_zero (map word_of_nat ?P) :: u64) = length idx"
      using sort(1,4) idx(1) assms(6) by (auto simp: last_or_zero_def last_map unsigned_of_nat take_bit_nat_eq_self)
    show "\<forall>k < length idx. unat (word_of_nat (idx ! k) :: u64) < ?n"
    proof (intro allI impI)
      fix k
      assume "k < length idx"
      from small[OF this] n64 show "unat (word_of_nat (idx ! k) :: u64) < ?n"
        by (simp add: unsigned_of_nat take_bit_nat_eq_self)
    qed
  qed
qed

subsection \<open>From an adjacency\<close>

definition ord :: "vertex_id list \<Rightarrow> vertex_id \<Rightarrow> nat" where
  "ord vs v = (case binary_search vs v of None \<Rightarrow> 0 | Some i \<Rightarrow> i)"

definition adj_entries :: "vertex_id list \<Rightarrow> adjacency \<Rightarrow> (nat \<times> nat) list" where
  "adj_entries vs A = concat (map (\<lambda>(s, ds). map (\<lambda>d. (ord vs s, ord vs d)) ds) A)"

definition adj_vertices :: "adjacency \<Rightarrow> vertex_id list" where
  "adj_vertices A = fold (\<lambda>(src, dsts) vertices. bs_extend (bs_insert src vertices) dsts) A []"

lemma adj_vertices_fold:
  assumes "bs_ok vs"
  shows "bs_ok (fold (\<lambda>(src, dsts) vertices. bs_extend (bs_insert src vertices) dsts) A vs) \<and>
    set (fold (\<lambda>(src, dsts) vertices. bs_extend (bs_insert src vertices) dsts) A vs) = set vs \<union> (\<Union>(s, ds) \<in> set A. insert s (set ds))"
  using assms
proof (induction A arbitrary: vs)
  case (Cons p A)
  then show ?case by (cases p) (auto simp: bs_ok_extend)
qed simp

lemma adj_vertices_spec:
  "sorted_wrt (<) (adj_vertices A)" "set (adj_vertices A) = (\<Union>(s, ds) \<in> set A. insert s (set ds))"
  using adj_vertices_fold[OF bs_ok_Nil, of A] by (simp_all add: adj_vertices_def bs_ok_def)

lemma ord_spec:
  assumes "sorted_wrt (<) vs" "v \<in> set vs"
  shows "binary_search vs v = Some (ord vs v)" "ord vs v < length vs" "vs ! ord vs v = v"
proof -
  obtain i where i: "i < length vs" "vs ! i = v" using assms(2) by (auto simp: in_set_conv_nth)
  then have "binary_search vs v = Some i" by (simp add: binary_search_iff[OF assms(1)])
  then show "binary_search vs v = Some (ord vs v)" "ord vs v < length vs" "vs ! ord vs v = v" using i by (simp_all add: ord_def)
qed

lemma csc_vertex_ordinal_ok:
  "sorted_wrt (<) vs \<Longrightarrow> v \<in> set vs \<Longrightarrow> csc_vertex_ordinal vs v role = Inr (ord vs v)"
  by (simp add: csc_vertex_ordinal_def ord_spec(1))

lemma count_sources:
  assumes "sorted_wrt (<) vs" "(\<Union>(s, ds) \<in> set A. insert s (set ds)) \<subseteq> set vs" "length ps = length vs + 1"
  shows "\<exists>ps'. rfold (count_source vs) A ps = Inr ps' \<and> length ps' = length vs + 1 \<and> ps' ! 0 = ps ! 0
    \<and> (\<forall>k < length vs. ps' ! Suc k = ps ! Suc k + length (row_of (adj_entries vs A) k))"
  using assms(2,3)
proof (induction A arbitrary: ps)
  case (Cons p A)
  obtain s ds where p: "p = (s, ds)" by (cases p)
  let ?r = "ord vs s"
  have s: "s \<in> set vs" using Cons.prems(1) p by auto
  let ?ps = "ps[?r + 1 := ps ! (?r + 1) + length ds]"
  have step: "count_source vs p ps = Inr ?ps" by (simp add: count_source_def p csc_vertex_ordinal_ok[OF assms(1) s])
  obtain ps' where IH: "rfold (count_source vs) A ?ps = Inr ps'" "length ps' = length vs + 1" "ps' ! 0 = ?ps ! 0"
    "\<forall>k < length vs. ps' ! Suc k = ?ps ! Suc k + length (row_of (adj_entries vs A) k)"
    using Cons.IH[of ?ps] Cons.prems by auto
  have own: "length (row_of (map (\<lambda>d. (?r, ord vs d)) ds) k) = (if ?r = k then length ds else 0)" for k
    by (simp add: row_of_def filter_map comp_def)
  have "ps' ! Suc k = ps ! Suc k + length (row_of (adj_entries vs (p # A)) k)" if "k < length vs" for k
    using that IH(4) Cons.prems(2) by (simp add: adj_entries_def p own nth_list_update)
  then show ?case using step IH by simp
qed (simp add: adj_entries_def)

lemma place_neighbors:
  assumes "sorted_wrt (<) vs" "set ds \<subseteq> set vs"
  shows "rfold (\<lambda>dst arrays. rbind (csc_vertex_ordinal vs dst ''destination'') (\<lambda>dst_ordinal. Inr (place r dst_ordinal arrays))) ds arrays
    = Inr (fold (\<lambda>(r, v). place r v) (map (\<lambda>d. (r, ord vs d)) ds) arrays)"
  using assms(2) by (induction ds arbitrary: arrays) (simp_all add: csc_vertex_ordinal_ok[OF assms(1)])

lemma place_sources:
  assumes "sorted_wrt (<) vs" "(\<Union>(s, ds) \<in> set A. insert s (set ds)) \<subseteq> set vs"
  shows "rfold (place_source vs) A arrays = Inr (fold (\<lambda>(r, v). place r v) (adj_entries vs A) arrays)"
  using assms(2)
proof (induction A arbitrary: arrays)
  case (Cons p A)
  obtain s ds where p: "p = (s, ds)" by (cases p)
  then have "s \<in> set vs" "set ds \<subseteq> set vs" using Cons.prems by auto
  then have "place_source vs p arrays = Inr (fold (\<lambda>(r, v). place r v) (map (\<lambda>d. (ord vs s, ord vs d)) ds) arrays)"
    by (simp add: place_source_def p csc_vertex_ordinal_ok[OF assms(1)] place_neighbors[OF assms(1)])
  then show ?case using Cons by (simp add: adj_entries_def p)
qed (simp add: adj_entries_def)

lemma adj_entries_bound:
  assumes "sorted_wrt (<) vs" "(\<Union>(s, ds) \<in> set A. insert s (set ds)) \<subseteq> set vs"
  shows "\<forall>p \<in> set (adj_entries vs A). fst p < length vs \<and> snd p < length vs"
proof
  fix p
  assume "p \<in> set (adj_entries vs A)"
  then obtain s ds d where "(s, ds) \<in> set A" "d \<in> set ds" "p = (ord vs s, ord vs d)" by (auto simp: adj_entries_def)
  moreover from this have "s \<in> set vs" "d \<in> set vs" using assms(2) by auto
  ultimately show "fst p < length vs \<and> snd p < length vs" using ord_spec(2)[OF assms(1)] by simp
qed

lemma length_adj_entries: "length (adj_entries vs A) = sum_list (map (\<lambda>p. length (snd p)) A)"
  by (simp add: adj_entries_def length_concat comp_def case_prod_beta)

lemma csc_from_adjacency_spec:
  assumes "bt_ok A" "length (adj_vertices A) \<le> grb_index_max" "sum_list (map (\<lambda>p. length (snd p)) A) < 2 ^ 64"
  shows "\<exists>csc. graphblas_csc_from_adjacency A = Inr csc \<and> validate_csc csc = Inr () \<and> gb_vertices csc = adj_vertices A
    \<and> (\<forall>k < length (adj_vertices A). csc_row (from_csc csc) k = row_of (adj_entries (adj_vertices A) A) k)"
proof -
  let ?vs = "adj_vertices A"
  let ?es = "adj_entries ?vs A"
  note vs = adj_vertices_spec(1)[of A] adj_vertices_spec(2)[of A, THEN equalityD2]
  have vertices: "graphblas_vertices_from_adjacency A = Inr ?vs"
    using assms(2) by (simp add: graphblas_vertices_from_adjacency_def flip: adj_vertices_def)
  obtain counts where counts: "rfold (count_source ?vs) A (replicate (length ?vs + 1) 0) = Inr counts"
    "length counts = length ?vs + 1" "counts ! 0 = 0" "\<forall>k < length ?vs. counts ! Suc k = length (row_of ?es k)"
    using count_sources[OF vs, of "replicate (length ?vs + 1) 0"] by (auto simp del: replicate_Suc)
  let ?P = "prefix_sums counts"
  note bound = adj_entries_bound[OF vs]
  have last: "last ?P = length ?es" using counting_sort(4)[OF counts(2-4)] bound by blast
  obtain idx offs where placed: "fold (\<lambda>(r, v). place r v) ?es (replicate (length ?es) 0, take (length ?vs) ?P) = (idx, offs)"
    by (cases "fold (\<lambda>(r, v). place r v) ?es (replicate (length ?es) 0, take (length ?vs) ?P)")
  let ?csc = "\<lparr>gb_vertices = ?vs, gb_pointers = map word_of_nat ?P, gb_indices = map word_of_nat idx\<rparr>"
  have es64: "length ?es < 2 ^ 64" using assms(3) by (simp add: length_adj_entries)
  note stored = stored_matrix[OF vs(1) counts(2-4) bound es64 assms(2) placed]
  have "graphblas_csc_from_adjacency A = Inr ?csc"
    using counts(1) placed by (simp add: graphblas_csc_from_adjacency_def vertices Let_def last place_sources[OF vs] del: replicate_Suc)
  moreover have "csc_row (from_csc ?csc) k = row_of ?es k" if "k < length ?vs" for k
    using stored(2)[OF that] by (simp add: from_csc_def)
  ultimately show ?thesis using stored(3) by auto
qed

end
