(* ===== verification/Sparse_Ladder.thy ===== *)
theory Sparse_Ladder
  imports Sparse_Build
begin

text \<open>
  The kernel ladder of \<^verbatim>\<open>src/sparse_kernel/mod.rs\<close> as a whole. \<open>hop_kernel\<close> is the contract of a kernel on a graph:
  an expansion returns the sorted list of the vertices that the powers of the edge relation reach. The adjacency
  kernel and the compact kernel satisfy it, building a compressed form keeps the edge relation, and so does the
  canonical adjacency of a compressed form; so the rungs agree on every graph. The lazily built transpose, which
  answers the incoming side of the compiled matrix, is the converse relation.
\<close>

subsection \<open>Compiled matrices\<close>

record compiled_matrix =
  cm_out :: compact_csc
  cm_kernel :: sparse_kernel_backend
  cm_edge_count :: nat

fun compiled_kernel :: "sparse_kernel_backend \<Rightarrow> sparse_kernel_backend" where
  "compiled_kernel SuiteSparse = SuiteSparse"
| "compiled_kernel Adjacency = CompactCsc"
| "compiled_kernel CompactCsc = CompactCsc"

text \<open>
  SuiteSparse is a foreign library: its initialisation and the construction of its matrices (\<open>init\<close>, a parameter)
  may fail, and its expansions are the parameters \<open>suite\<close> of the operations below.
\<close>

definition new_from_csc :: "unit result \<Rightarrow> graph_blas_csc \<Rightarrow> sparse_kernel_backend \<Rightarrow> compiled_matrix result" where
  "new_from_csc init csc requested =
     rbind (validate_csc csc) (\<lambda>_.
     let backend = compiled_kernel requested;
         m = \<lparr>cm_out = from_csc csc, cm_kernel = backend, cm_edge_count = length (gb_indices csc)\<rparr>
     in if backend = CompactCsc then Inr m else rbind init (\<lambda>_. Inr m))"

definition new_from_adjacency :: "unit result \<Rightarrow> adjacency \<Rightarrow> sparse_kernel_backend \<Rightarrow> compiled_matrix result" where
  "new_from_adjacency init adjacency backend =
     rbind (graphblas_csc_from_adjacency adjacency) (\<lambda>csc. new_from_csc init csc backend)"

definition compiled_expand ::
    "(compact_csc \<Rightarrow> vertex_id list \<Rightarrow> u8 \<Rightarrow> sparse_traversal result) \<Rightarrow> compiled_matrix \<Rightarrow> vertex_id list \<Rightarrow> u8 \<Rightarrow> sparse_traversal result" where
  "compiled_expand suite m starts hops =
     (if cm_kernel m = CompactCsc then csc_expand (cm_out m) starts hops else suite (cm_out m) starts hops)"

definition compiled_expand_range ::
    "(compact_csc \<Rightarrow> vertex_id list \<Rightarrow> u8 \<Rightarrow> u8 \<Rightarrow> sparse_traversal result) \<Rightarrow> compiled_matrix \<Rightarrow> vertex_id list \<Rightarrow> u8 \<Rightarrow> u8 \<Rightarrow>
       sparse_traversal result" where
  "compiled_expand_range suite m starts min_hops max_hops =
     (if cm_kernel m = CompactCsc then csc_expand_range (cm_out m) starts min_hops max_hops
      else suite (cm_out m) starts min_hops max_hops)"

definition compiled_in_neighbors :: "compiled_matrix \<Rightarrow> vertex_id \<Rightarrow> vertex_id list" where
  "compiled_in_neighbors m vertex = neighbors (csc_transpose (cm_out m)) vertex"

definition compiled_out_neighbors :: "compiled_matrix \<Rightarrow> vertex_id \<Rightarrow> vertex_id list" where
  "compiled_out_neighbors m vertex = neighbors (cm_out m) vertex"

definition compiled_in_degree :: "compiled_matrix \<Rightarrow> vertex_id \<Rightarrow> u64" where
  "compiled_in_degree m vertex = vertex_degree (csc_transpose (cm_out m)) vertex"

definition compiled_out_degree :: "compiled_matrix \<Rightarrow> vertex_id \<Rightarrow> u64" where
  "compiled_out_degree m vertex = vertex_degree (cm_out m) vertex"

definition kernel_expand ::
    "(adjacency \<Rightarrow> vertex_id list \<Rightarrow> u8 \<Rightarrow> sparse_traversal result) \<Rightarrow> unit result \<Rightarrow>
       adjacency \<Rightarrow> vertex_id list \<Rightarrow> u8 \<Rightarrow> sparse_kernel_backend \<Rightarrow> sparse_traversal result" where
  "kernel_expand suite init adjacency starts hops backend =
     (case backend of
        Adjacency \<Rightarrow> Inr (expand_rust adjacency starts hops)
      | CompactCsc \<Rightarrow> rbind (new_from_adjacency init adjacency backend) (\<lambda>compiled.
          compiled_expand (\<lambda>_. suite adjacency) compiled starts hops)
      | SuiteSparse \<Rightarrow> suite adjacency starts hops)"

subsection \<open>The graph of a built matrix\<close>

lemma row_of_set: "j \<in> set (row_of es i) \<longleftrightarrow> (i, j) \<in> set es"
  by (force simp: row_of_def)

lemma adj_edges_set: "bt_ok A \<Longrightarrow> adj_edges A = {(s, d). \<exists>N. (s, N) \<in> set A \<and> d \<in> set N}"
  by (simp add: adj_edges_def bt_get_Some_iff)

lemma csc_from_adjacency_graph:
  assumes "bt_ok A" "length (adj_vertices A) \<le> grb_index_max" "sum_list (map (\<lambda>p. length (snd p)) A) < 2 ^ 64"
  shows "\<exists>csc. graphblas_csc_from_adjacency A = Inr csc \<and> validate_csc csc = Inr () \<and> csc_graph (from_csc csc) = adj_edges A"
proof -
  let ?vs = "adj_vertices A"
  obtain csc where csc: "graphblas_csc_from_adjacency A = Inr csc" "validate_csc csc = Inr ()" "gb_vertices csc = ?vs"
    "\<forall>k < length ?vs. csc_row (from_csc csc) k = row_of (adj_entries ?vs A) k"
    using csc_from_adjacency_spec[OF assms] by blast
  note vs = adj_vertices_spec[of A]
  have edges: "csc_edges (from_csc csc) = set (adj_entries ?vs A)"
    using adj_entries_bound[OF vs(1) vs(2)[THEN equalityD2]] csc(3,4) by (auto simp: csc_edges_def row_of_set)
  have entry: "(i, j) \<in> set (adj_entries ?vs A) \<longleftrightarrow> (\<exists>s N d. (s, N) \<in> set A \<and> d \<in> set N \<and> i = ord ?vs s \<and> j = ord ?vs d)" for i j
    by (force simp: adj_entries_def)
  have member: "s \<in> set ?vs \<and> d \<in> set ?vs" if "(s, N) \<in> set A" "d \<in> set N" for s d N using that unfolding vs(2) by auto
  have "(u, v) \<in> csc_graph (from_csc csc) \<longleftrightarrow> (u, v) \<in> adj_edges A" for u v
  proof
    assume "(u, v) \<in> csc_graph (from_csc csc)"
    then obtain s N d where "(s, N) \<in> set A" "d \<in> set N" "u = ?vs ! ord ?vs s" "v = ?vs ! ord ?vs d"
      unfolding csc_graph_def edges using entry csc(3) by auto
    then show "(u, v) \<in> adj_edges A" using member ord_spec(3)[OF vs(1)] by (auto simp: adj_edges_set[OF assms(1)])
  next
    assume "(u, v) \<in> adj_edges A"
    then obtain N where N: "(u, N) \<in> set A" "v \<in> set N" by (auto simp: adj_edges_set[OF assms(1)])
    then have "(ord ?vs u, ord ?vs v) \<in> csc_edges (from_csc csc)" unfolding edges using entry by blast
    moreover have "?vs ! ord ?vs u = u" "?vs ! ord ?vs v = v" using member[OF N] ord_spec(3)[OF vs(1)] by auto
    ultimately show "(u, v) \<in> csc_graph (from_csc csc)" unfolding csc_graph_def using csc(3) by force
  qed
  then show ?thesis using csc(1,2) by auto
qed

subsection \<open>The contract of a kernel\<close>

locale hop_kernel =
  fixes valid :: "'m \<Rightarrow> bool"
    and graph :: "'m \<Rightarrow> (vertex_id \<times> vertex_id) set"
    and expand :: "'m \<Rightarrow> vertex_id list \<Rightarrow> u8 \<Rightarrow> sparse_traversal result"
  assumes expand_law: "valid m \<Longrightarrow> \<exists>t. expand m starts hops = Inr t \<and> bs_ok (st_vertices t)
    \<and> set (st_vertices t) = within_hops (graph m) (unat hops) (set starts) - set starts"
begin

lemma expand_agrees:
  assumes "valid m" "bs_ok (st_vertices u)" "set (st_vertices u) = within_hops (graph m) (unat hops) (set starts) - set starts"
  shows "map_ok st_vertices (expand m starts hops) = Inr (st_vertices u)"
proof -
  obtain t where t: "expand m starts hops = Inr t" "bs_ok (st_vertices t)"
    "set (st_vertices t) = within_hops (graph m) (unat hops) (set starts) - set starts"
    using expand_law[OF assms(1)] by blast
  have "st_vertices t = st_vertices u" using t(2,3) assms(2,3) by (intro bs_ext) auto
  then show ?thesis using t(1) by simp
qed

lemma starts_as_set:
  assumes "valid m" "set starts = set starts'"
  shows "map_ok st_vertices (expand m starts hops) = map_ok st_vertices (expand m starts' hops)"
proof -
  obtain t where t: "expand m starts' hops = Inr t" "bs_ok (st_vertices t)"
    "set (st_vertices t) = within_hops (graph m) (unat hops) (set starts') - set starts'"
    using expand_law[OF assms(1)] by blast
  then show ?thesis using expand_agrees[OF assms(1), of t hops starts] assms(2) by simp
qed

end

interpretation adjacency_kernel: hop_kernel "\<lambda>_. True" adj_edges "\<lambda>A starts hops. Inr (expand_rust A starts hops)"
  by unfold_locales (use expand_rust_vertices in auto)

interpretation compact_kernel: hop_kernel csc_ok csc_graph csc_expand
  by unfold_locales (use csc_expand_spec in blast)

lemma compact_expand_built:
  assumes "graphblas_csc_from_adjacency A = Inr csc" "validate_csc csc = Inr ()"
  shows "kernel_expand suite init A starts hops CompactCsc = csc_expand (from_csc csc) starts hops"
  using assms by (simp add: kernel_expand_def new_from_adjacency_def new_from_csc_def compiled_expand_def Let_def)

subsection \<open>Round trips\<close>

definition adj_tight :: "adjacency \<Rightarrow> bool" where
  "adj_tight A \<longleftrightarrow> bt_ok A \<and> list_all (\<lambda>p. bs_ok (snd p) \<and> snd p \<noteq> []) A"

lemma adj_tight_get: "adj_tight A \<Longrightarrow> bt_get A s = Some N \<Longrightarrow> bs_ok N \<and> N \<noteq> []"
  unfolding adj_tight_def list_all_iff using bt_get_Some_iff by fastforce

lemma adj_tight_source:
  "adj_tight A \<Longrightarrow> bt_get A s = (let D = adj_edges A `` {s} in if D = {} then None else Some (sorted_list_of_set D))"
proof (cases "bt_get A s")
  case (Some N)
  assume "adj_tight A"
  then have "bs_ok N" "N \<noteq> []" using adj_tight_get Some by auto
  moreover have "adj_edges A `` {s} = set N" using Some by (simp add: adj_edges_source)
  ultimately show ?thesis using Some by (simp add: Let_def bs_ok_def strict_sorted_iff sorted_list_of_set.idem_if_sorted_distinct)
qed (simp add: adj_edges_source)

lemma adj_tight_ext: "adj_tight A \<Longrightarrow> adj_tight B \<Longrightarrow> adj_edges A = adj_edges B \<Longrightarrow> A = B"
  by (intro bt_ext) (auto simp: adj_tight_def adj_tight_source fun_eq_iff)

lemma adjacency_neighbor_tight:
  assumes "row \<noteq> []" "rfold (adjacency_neighbor csc) row [] = Inr N"
  shows "bs_ok N \<and> N \<noteq> []"
proof -
  obtain d ds where row: "row = d # ds" using assms(1) by (cases row) auto
  obtain N0 where N0: "adjacency_neighbor csc d [] = Inr N0" "rfold (adjacency_neighbor csc) ds N0 = Inr N"
    using assms(2) unfolding row by (auto simp: rbind_Inr_iff)
  show ?thesis
  proof (rule rfold_invariant[OF _ _ N0(2), where P = "\<lambda>N. bs_ok N \<and> N \<noteq> []"])
    show "bs_ok N0 \<and> N0 \<noteq> []" using N0(1) by (auto simp: adjacency_neighbor_def bs_ok_Cons split: if_splits)
    show "bs_ok t \<and> t \<noteq> []" if "bs_ok s \<and> s \<noteq> []" "adjacency_neighbor csc x s = Inr t" for x s t
    proof -
      have "t = bs_insert (gb_vertices csc ! unat x) s" using that(2) by (auto simp: adjacency_neighbor_def split: if_splits)
      then show ?thesis using that(1) by (metis bs_ok_insert empty_set insert_not_empty set_bs_insert)
    qed
  qed
qed

lemma to_adjacency_tight: "to_adjacency csc = Inr A \<Longrightarrow> adj_tight A"
proof -
  assume "to_adjacency csc = Inr A"
  then have fold: "rfold (adjacency_row csc) (enumerate 0 (gb_vertices csc)) [] = Inr A" by (auto simp: to_adjacency_def split: if_splits)
  show ?thesis
  proof (rule rfold_invariant[OF _ _ fold, where P = adj_tight])
    show "adj_tight []" by (simp add: adj_tight_def)
    show "adj_tight t" if tight: "adj_tight s" and step: "adjacency_row csc x s = Inr t" for x s t
    proof -
      obtain row where "t = s \<or> (\<exists>N. row \<noteq> [] \<and> rfold (adjacency_neighbor csc) row [] = Inr N \<and> t = bt_insert (snd x) N s)"
        using step by (auto simp: adjacency_row_def Let_def rbind_Inr_iff split: prod.splits if_splits)
      then show ?thesis
      proof
        assume "\<exists>N. row \<noteq> [] \<and> rfold (adjacency_neighbor csc) row [] = Inr N \<and> t = bt_insert (snd x) N s"
        then obtain N where N: "bs_ok N" "N \<noteq> []" "t = bt_insert (snd x) N s" using adjacency_neighbor_tight by blast
        show ?thesis using tight N set_bt_insert[of "snd x" N s] unfolding adj_tight_def list_all_iff by auto
      qed (use tight in simp)
    qed
  qed
qed

subsection \<open>The transpose\<close>

lemma fold_concat_map: "fold f (concat (map g xs)) s = fold (\<lambda>x s. fold f (g x) s) xs s"
  by (induction xs arbitrary: s) simp_all

lemma count_fold:
  assumes "length ps = n + 1" "\<forall>d \<in> set ds. d < n"
  shows "length (fold (\<lambda>d ps. ps[d + 1 := ps ! (d + 1) + 1]) ds ps) = n + 1 \<and> fold (\<lambda>d ps. ps[d + 1 := ps ! (d + 1) + 1]) ds ps ! 0 = ps ! 0
    \<and> (\<forall>k < n. fold (\<lambda>d ps. ps[d + 1 := ps ! (d + 1) + 1]) ds ps ! Suc k = ps ! Suc k + count_list ds k)"
  using assms
proof (induction ds arbitrary: ps)
  case (Cons d ds)
  let ?ps = "ps[d + 1 := ps ! (d + 1) + 1]"
  have "?ps ! Suc k = ps ! Suc k + (if d = k then 1 else 0)" if "k < n" for k using that Cons.prems(1) by (simp add: nth_list_update)
  then show ?case using Cons.IH[of ?ps] Cons.prems by auto
qed simp

definition flipped :: "compact_csc \<Rightarrow> (nat \<times> nat) list" where
  "flipped m = concat (map (\<lambda>src. map (\<lambda>d. (d, src)) (csc_row m src)) [0..<dimension m])"

lemma rows_cover:
  assumes "csc_ok m" "n \<le> dimension m"
  shows "concat (map (csc_row m) [0..<n]) = map (neighbor m) [0..<pointer m n]"
  using assms(2)
proof (induction n)
  case 0
  then show ?case using assms(1) by (simp add: csc_ok_def)
next
  case (Suc n)
  have "pointer m n \<le> pointer m (Suc n)" using pointer_mono[OF assms(1), of n "Suc n"] Suc.prems by simp
  then have "[0..<pointer m (Suc n)] = [0..<pointer m n] @ [pointer m n..<pointer m (Suc n)]"
    by (metis le_add_diff_inverse upt_add_eq_append zero_le)
  then show ?case using Suc by (simp add: csc_row_def neighbor_range_def)
qed

lemma flipped_fst: "csc_ok m \<Longrightarrow> map fst (flipped m) = map (neighbor m) [0..<ordinals_len (cc_indices m)]"
proof -
  assume c: "csc_ok m"
  have "map fst (flipped m) = concat (map (csc_row m) [0..<dimension m])"
    by (simp add: flipped_def map_concat comp_def)
  then show ?thesis using rows_cover[OF c order_refl] c by (simp add: csc_ok_def)
qed

lemma flipped_count: "length (row_of es k) = count_list (map fst es) k"
  by (induction es) auto

lemma flipped_bound: "csc_ok m \<Longrightarrow> \<forall>p \<in> set (flipped m). fst p < dimension m \<and> snd p < dimension m"
  using csc_row_bound by (auto simp: flipped_def)

lemma transpose_spec:
  assumes "csc_ok m" "dimension m \<le> grb_index_max" "ordinals_len (cc_indices m) < 2 ^ 64"
  shows "csc_ok (csc_transpose m) \<and> cc_vertices (csc_transpose m) = cc_vertices m
    \<and> (\<forall>k < dimension m. csc_row (csc_transpose m) k = row_of (flipped m) k)
    \<and> ordinals_len (cc_indices (csc_transpose m)) = ordinals_len (cc_indices m)"
proof -
  let ?n = "dimension m" and ?len = "ordinals_len (cc_indices m)" and ?es = "flipped m" and ?vs = "cc_vertices m"
  have n: "?n = length ?vs" by (simp add: dimension_def)
  have vs: "sorted_wrt (<) ?vs" using assms(1) by (simp add: csc_ok_def)
  have len: "length ?es = ?len" using arg_cong[OF flipped_fst[OF assms(1)], of length] by simp
  have low: "\<forall>d \<in> set (map (neighbor m) [0..<?len]). d < ?n" using assms(1) by (simp add: csc_ok_def)
  define counts :: "nat list" where "counts = fold (\<lambda>d ps. ps[d + 1 := ps ! (d + 1) + 1]) (map (neighbor m) [0..<?len]) (replicate (?n + 1) 0)"
  have counts: "length counts = ?n + 1" "counts ! 0 = 0" "\<forall>k < ?n. counts ! Suc k = length (row_of ?es k)"
    using count_fold[OF _ low, of "replicate (?n + 1) 0"] unfolding counts_def flipped_count flipped_fst[OF assms(1)] by auto
  note bound = flipped_bound[OF assms(1)]
  let ?P = "prefix_sums counts"
  obtain idx offs where placed: "fold (\<lambda>(r, v). place r v) ?es (replicate (length ?es) 0, take ?n ?P) = (idx, offs)"
    by (cases "fold (\<lambda>(r, v). place r v) ?es (replicate (length ?es) 0, take ?n ?P)")
  have es64: "length ?es < 2 ^ 64" using assms(3) len by simp
  note stored = stored_matrix[OF vs counts[unfolded n] bound[unfolded n] es64 assms(2)[unfolded n] placed[unfolded n]]
  let ?t = "\<lparr>cc_vertices = ?vs, cc_pointers = ordinals_from_u64 (map word_of_nat ?P), cc_indices = ordinals_from_u64 (map word_of_nat idx)\<rparr>"
  have place: "fold (\<lambda>src arrays. fold (\<lambda>index. place (neighbor m index) src) (neighbor_range m src) arrays) [0..<?n] arrays
      = fold (\<lambda>(r, v). place r v) ?es arrays" for arrays
    unfolding flipped_def fold_concat_map by (simp add: csc_row_def fold_map comp_def)
  have count: "fold (\<lambda>index ps. ps[neighbor m index + 1 := ps ! (neighbor m index + 1) + 1]) [0..<?len] (replicate (?n + 1) 0) = counts"
    unfolding counts_def by (simp add: fold_map comp_def del: replicate_Suc)
  have "csc_transpose m = ?t"
    unfolding csc_transpose_def Let_def count place placed[unfolded len] by simp
  then show ?thesis using stored(1,2,4) n len by simp
qed

lemma row_converse: "csc_ok m \<Longrightarrow> i < dimension m \<Longrightarrow> k < dimension m \<Longrightarrow> i \<in> set (row_of (flipped m) k) \<longleftrightarrow> k \<in> set (csc_row m i)"
  unfolding row_of_set by (auto simp: flipped_def)

lemma neighbors_iff:
  assumes "csc_ok m"
  shows "w \<in> set (neighbors m v) \<longleftrightarrow> (v, w) \<in> csc_graph m"
proof (cases "ordinal m v")
  case None
  have "(v, w) \<notin> csc_graph m"
  proof
    assume "(v, w) \<in> csc_graph m"
    then obtain i where "i < dimension m" "cc_vertices m ! i = v" using csc_edges_bound[OF assms] by (auto simp: csc_graph_def)
    then show False using None ordinal_iff[OF assms, of v i] by simp
  qed
  then show ?thesis using None by (simp add: neighbors_def)
next
  case (Some i)
  then have i: "i < dimension m" "cc_vertices m ! i = v" using ordinal_iff[OF assms] by auto
  have "neighbors m v = map (\<lambda>j. cc_vertices m ! j) (csc_row m i)" using Some by (simp add: neighbors_def csc_row_def)
  moreover have "(v, w) \<in> csc_graph m \<longleftrightarrow> (\<exists>j \<in> set (csc_row m i). w = cc_vertices m ! j)"
  proof
    assume "(v, w) \<in> csc_graph m"
    then obtain k j where k: "(k, j) \<in> csc_edges m" "v = cc_vertices m ! k" "w = cc_vertices m ! j" by (auto simp: csc_graph_def)
    then have "k = i" using vertices_inj[OF assms _ i(1), of k] csc_edges_bound[OF assms k(1)] i(2) by simp
    then show "\<exists>j \<in> set (csc_row m i). w = cc_vertices m ! j" using k by (auto simp: csc_edges_def)
  qed (use i in \<open>auto simp: csc_graph_def csc_edges_def\<close>)
  ultimately show ?thesis by auto
qed

lemma neighbors_length:
  assumes "csc_ok m" "ordinals_len (cc_indices m) < 2 ^ 64"
  shows "unat (vertex_degree m v) = length (neighbors m v)"
proof (cases "ordinal m v")
  case (Some i)
  then have i: "i < dimension m" using ordinal_iff[OF assms(1)] by auto
  have "pointer m (i + 1) \<le> ordinals_len (cc_indices m)"
    using pointer_mono[OF assms(1), of "i + 1" "dimension m"] assms(1) i by (simp add: csc_ok_def)
  then show ?thesis using Some assms(2)
    by (simp add: vertex_degree_def degree_def neighbors_def neighbor_range_def unsigned_of_nat take_bit_nat_eq_self)
qed (simp add: vertex_degree_def neighbors_def)

lemma contains_edge_iff:
  assumes "csc_ok m"
  shows "contains_edge m v w \<longleftrightarrow> (v, w) \<in> csc_graph m"
proof -
  have "contains_edge m v w \<longleftrightarrow> (\<exists>i j. ordinal m v = Some i \<and> ordinal m w = Some j \<and> j \<in> set (csc_row m i))"
    by (auto simp: contains_edge_def csc_row_def list_ex_iff split: option.splits)
  also have "\<dots> \<longleftrightarrow> (\<exists>i j. (i, j) \<in> csc_edges m \<and> cc_vertices m ! i = v \<and> cc_vertices m ! j = w)"
    unfolding ordinal_iff[OF assms] csc_edges_def using csc_row_bound[OF assms] by auto
  finally show ?thesis by (auto simp: csc_graph_def)
qed

lemma transpose_graph:
  assumes "csc_ok m" "dimension m \<le> grb_index_max" "ordinals_len (cc_indices m) < 2 ^ 64"
  shows "csc_graph (csc_transpose m) = (csc_graph m)\<inverse>"
proof -
  note t = transpose_spec[OF assms]
  have dim: "dimension (csc_transpose m) = dimension m" using t by (simp add: dimension_def)
  have pair: "(a, b) \<in> csc_edges (csc_transpose m) \<longleftrightarrow> (a, b) \<in> set (flipped m)" for a b
    unfolding csc_edges_def dim using t flipped_bound[OF assms(1)] by (auto simp: row_of_set)
  have "(a, b) \<in> csc_edges (csc_transpose m) \<longleftrightarrow> (b, a) \<in> csc_edges m" for a b
    unfolding pair using csc_row_bound[OF assms(1)] by (auto simp: csc_edges_def flipped_def)
  then have "csc_edges (csc_transpose m) = (csc_edges m)\<inverse>" by auto
  then show ?thesis using t by (auto simp: csc_graph_def)
qed

lemma range_known:
  assumes "csc_ok m" "0 < lo"
  shows "hop_range (csc_graph m) lo hi X = hop_range (csc_graph m) lo hi (X \<inter> set (cc_vertices m))"
proof -
  have "known_ordinals m X = known_ordinals m (X \<inter> set (cc_vertices m))" by (auto simp: known_ordinals_def dimension_def)
  then have "(csc_graph m ^^ k) `` X = (csc_graph m ^^ k) `` (X \<inter> set (cc_vertices m))" if "k \<in> {lo..hi}" for k
    using that assms(2) graph_power[OF assms(1), of "k - 1"] by (simp del: relpow.simps)
  then show ?thesis by (simp add: hop_range_def)
qed

subsection \<open>Properties\<close>

text \<open>C13 (kernels_agree). The rungs of the kernel ladder agree: on a well-formed adjacency of fewer than 2 ^ 60 vertices and
  2 ^ 64 edges, expanding through the compiled compact matrix (build the compressed form, validate it, compile it, run the
  bitmap traversal) succeeds and returns the same vertices as the adjacency kernel, namely, in increasing order, the vertices
  that are not starts and are reached by at most \<open>hops\<close> edges.\<close>

theorem kernels_agree:
  assumes "bt_ok A" "length (adj_vertices A) \<le> grb_index_max" "sum_list (map (\<lambda>p. length (snd p)) A) < 2 ^ 64"
  shows "map_ok st_vertices (kernel_expand suite init A starts hops CompactCsc) = map_ok st_vertices (kernel_expand suite init A starts hops Adjacency)
    \<and> (\<exists>vs. map_ok st_vertices (kernel_expand suite init A starts hops CompactCsc) = Inr vs \<and> sorted_wrt (<) vs
         \<and> set vs = within_hops (adj_edges A) (unat hops) (set starts) - set starts)"
proof -
  obtain csc where csc: "graphblas_csc_from_adjacency A = Inr csc" "validate_csc csc = Inr ()" "csc_graph (from_csc csc) = adj_edges A"
    using csc_from_adjacency_graph[OF assms] by blast
  have "map_ok st_vertices (csc_expand (from_csc csc) starts hops) = Inr (st_vertices (expand_rust A starts hops))"
    using expand_rust_vertices by (intro compact_kernel.expand_agrees[OF validate_csc_ok[OF csc(2)]]) (simp_all add: csc(3))
  then show ?thesis
    using expand_rust_vertices[of A starts hops] unfolding compact_expand_built[OF csc(1,2)] by (simp add: kernel_expand_def bs_ok_def)
qed

text \<open>Witness of C13 (kernels_agree): a cycle with a tail, two hops from two unordered, repeated starts.\<close>

theorem kernels_agree_witness:
  "map_ok st_vertices (kernel_expand (\<lambda>_ _ _. Inl (grb_error [])) (Inr ()) [(1, [2]), (2, [1, 3]), (3, [4]), (4, [5])] [1, 9, 1] 2 CompactCsc)
     = Inr [2, 3]"
proof -
  let ?A = "[(1, [2]), (2, [1, 3]), (3, [4]), (4, [5])] :: adjacency"
  have h: "bt_ok ?A" "length (adj_vertices ?A) \<le> grb_index_max" "sum_list (map (\<lambda>p. length (snd p)) ?A) < 2 ^ 64"
    by (simp_all add: bt_ok_def adj_vertices_def bs_extend_def grb_index_max_def)
  have "map_ok st_vertices (kernel_expand (\<lambda>_ _ _. Inl (grb_error [])) (Inr ()) ?A [1, 9, 1] 2 Adjacency) = Inr [2, 3]" by code_simp
  then show ?thesis using kernels_agree[OF h, of "\<lambda>_ _ _. Inl (grb_error [])" "Inr ()" "[1, 9, 1]" 2] by simp
qed

text \<open>C28 (range_kernels_agree). On a compressed form that passes validation, the canonical adjacency exists, and the range
  expansion of the compact kernel returns what the adjacency kernel returns on it: the vertices reached by some number of
  hops between the two bounds. The agreement needs the starts to be in the vertex dictionary when zero hops are allowed,
  since the compact kernel does not know other vertices. The count pushdown counts exactly the vertices of the list.\<close>

theorem range_kernels_agree:
  assumes "validate_csc csc = Inr ()" "0 < unat lo \<or> set starts \<subseteq> set (gb_vertices csc)"
  shows "\<exists>A t. to_adjacency csc = Inr A \<and> csc_expand_range (from_csc csc) starts lo hi = Inr t
    \<and> st_vertices t = st_vertices (expand_range_rust A starts lo hi)
    \<and> set (st_vertices t) = hop_range (csc_graph (from_csc csc)) (unat lo) (unat hi) (set starts)
    \<and> map_ok sc_vertices (csc_expand_range_count (from_csc csc) starts lo hi) = Inr (word_of_nat (length (st_vertices t)))"
proof -
  let ?m = "from_csc csc"
  have c: "csc_ok ?m" using assms(1) by (rule validate_csc_ok)
  obtain A where A: "to_adjacency csc = Inr A" "adj_edges A = csc_graph ?m" using to_adjacency_spec[OF assms(1)] by blast
  obtain t where t: "csc_expand_range ?m starts lo hi = Inr t" "bs_ok (st_vertices t)"
    "set (st_vertices t) = hop_range (csc_graph ?m) (unat lo) (unat hi) (set starts \<inter> set (gb_vertices csc))"
    "csc_expand_range_count ?m starts lo hi = Inr \<lparr>sc_vertices = word_of_nat (length (st_vertices t)), sc_edge_visits = st_edge_visits t, sc_backend = CompactCsc\<rparr>"
    using csc_expand_range_spec[OF c, of starts lo hi] by auto
  have set: "set (st_vertices t) = hop_range (csc_graph ?m) (unat lo) (unat hi) (set starts)"
    using assms(2) range_known[OF c, of "unat lo" "unat hi" "set starts"] t(3) by (auto simp: Int_absorb2)
  have "st_vertices t = st_vertices (expand_range_rust A starts lo hi)"
    using expand_range_rust_vertices[of A starts lo hi] t(2) set A(2) by (intro bs_ext) auto
  then show ?thesis using A(1) t(1,4) set by (intro exI[of _ A] exI[of _ t]) simp
qed

text \<open>Witness of C28 (range_kernels_agree): a self loop on 10 keeps 10 in the result of one hop.\<close>

theorem range_kernels_agree_witness:
  "validate_csc \<lparr>gb_vertices = [10, 20], gb_pointers = [0, 2, 2], gb_indices = [0, 1]\<rparr> = Inr () \<and>
   map_ok sc_vertices (csc_expand_range_count (from_csc \<lparr>gb_vertices = [10, 20], gb_pointers = [0, 2, 2], gb_indices = [0, 1]\<rparr>) [10] 1 1) = Inr 2"
proof -
  let ?csc = "\<lparr>gb_vertices = [10, 20], gb_pointers = [0, 2, 2], gb_indices = [0, 1]\<rparr>"
  have v: "validate_csc ?csc = Inr ()"
    by (simp add: validate_csc_def grb_index_max_def windows_all_def last_or_zero_def)
  have "0 < unat (1 :: u8) \<or> set [10] \<subseteq> set (gb_vertices ?csc)" by simp
  from range_kernels_agree[OF v this, of 1] obtain t where t: "csc_expand_range (from_csc ?csc) [10] 1 1 = Inr t"
    "map_ok sc_vertices (csc_expand_range_count (from_csc ?csc) [10] 1 1) = Inr (word_of_nat (length (st_vertices t)))"
    by blast
  have "map_ok st_vertices (csc_expand_range (from_csc ?csc) [10] 1 1) = Inr [10, 20]" by code_simp
  then have "st_vertices t = [10, 20]" unfolding t(1) by simp
  then show ?thesis using v unfolding t(2) by simp
qed

text \<open>C29 (csc_roundtrip). Building the compressed form of an adjacency and reading its canonical adjacency back gives the same
  adjacency, when the rows are sorted sets and none is empty.\<close>

theorem csc_roundtrip:
  assumes "adj_tight A" "length (adj_vertices A) \<le> grb_index_max" "sum_list (map (\<lambda>p. length (snd p)) A) < 2 ^ 64"
  shows "rbind (graphblas_csc_from_adjacency A) to_adjacency = Inr A"
proof -
  have ok: "bt_ok A" using assms(1) by (simp add: adj_tight_def)
  obtain csc where csc: "graphblas_csc_from_adjacency A = Inr csc" "validate_csc csc = Inr ()" "csc_graph (from_csc csc) = adj_edges A"
    using csc_from_adjacency_graph[OF ok assms(2,3)] by blast
  obtain B where B: "to_adjacency csc = Inr B" "adj_edges B = adj_edges A" using to_adjacency_spec[OF csc(2)] csc(3) by auto
  have "B = A" using to_adjacency_tight[OF B(1)] assms(1) B(2) by (rule adj_tight_ext)
  then show ?thesis using csc(1) B(1) by simp
qed

text \<open>Witness of C29 (csc_roundtrip).\<close>

theorem csc_roundtrip_witness:
  "rbind (graphblas_csc_from_adjacency [(7, [3, 8]), (8, [8])]) to_adjacency = Inr [(7, [3, 8]), (8, [8])]"
proof -
  have h: "adj_tight [(7, [3, 8]), (8, [8])]" "length (adj_vertices [(7, [3, 8]), (8, [8])]) \<le> grb_index_max"
    "sum_list (map (\<lambda>p. length (snd p)) ([(7, [3, 8]), (8, [8])] :: adjacency)) < 2 ^ 64"
    by (simp_all add: adj_tight_def bt_ok_def bs_ok_def adj_vertices_def bs_extend_def grb_index_max_def)
  show ?thesis by (rule csc_roundtrip[OF h])
qed

text \<open>C30 (incident_edges_exact). A compiled matrix answers both sides of a vertex from its rows and from their transpose: the outgoing
  neighbours of a vertex are the targets and the incoming ones the sources of the edges the matrix contains, and the degrees
  are the lengths of those lists.\<close>

theorem incident_edges_exact:
  assumes "new_from_csc init csc backend = Inr m"
  shows "set (compiled_out_neighbors m v) = {w. contains_edge (cm_out m) v w} \<and> set (compiled_in_neighbors m v) = {u. contains_edge (cm_out m) u v}
    \<and> unat (compiled_out_degree m v) = length (compiled_out_neighbors m v) \<and> unat (compiled_in_degree m v) = length (compiled_in_neighbors m v)"
proof -
  have v: "validate_csc csc = Inr ()" "cm_out m = from_csc csc"
    using assms by (auto simp: new_from_csc_def rbind_Inr_iff Let_def split: if_splits)
  note c = validate_csc_ok[OF v(1)]
  have "length (gb_indices csc) = unat (last_or_zero (gb_pointers csc))" using v(1) by (simp add: validate_csc_iff)
  moreover have "unat (last_or_zero (gb_pointers csc)) < 2 ^ LENGTH(64)" by (rule unsigned_less)
  ultimately have len: "ordinals_len (cc_indices (from_csc csc)) < 2 ^ 64" by simp
  have dim: "dimension (from_csc csc) \<le> grb_index_max" using v(1) by (simp add: validate_csc_iff)
  note t = transpose_spec[OF c dim len]
  have ct: "csc_ok (csc_transpose (from_csc csc))" using t by blast
  have tlen: "ordinals_len (cc_indices (csc_transpose (from_csc csc))) < 2 ^ 64"
    using t len by simp
  show ?thesis
    unfolding compiled_out_neighbors_def compiled_in_neighbors_def compiled_out_degree_def compiled_in_degree_def v(2)
    using neighbors_iff[OF c, of _ v] neighbors_iff[OF ct, of _ v] contains_edge_iff[OF c] transpose_graph[OF c dim len]
      neighbors_length[OF c len] neighbors_length[OF ct tlen] by auto
qed

text \<open>Witness of C30 (incident_edges_exact): two sources of vertex 30.\<close>

theorem incident_edges_exact_witness:
  "\<exists>m. new_from_csc (Inr ()) \<lparr>gb_vertices = [10, 20, 30], gb_pointers = [0, 2, 3, 3], gb_indices = [1, 2, 2]\<rparr> CompactCsc = Inr m
     \<and> compiled_in_neighbors m 30 = [10, 20] \<and> {u. contains_edge (cm_out m) u 30} = {10, 20} \<and> unat (compiled_in_degree m 30) = 2"
proof -
  let ?csc = "\<lparr>gb_vertices = [10, 20, 30], gb_pointers = [0, 2, 3, 3], gb_indices = [1, 2, 2]\<rparr>"
  let ?m = "\<lparr>cm_out = from_csc ?csc, cm_kernel = CompactCsc, cm_edge_count = 3\<rparr>"
  have m: "new_from_csc (Inr ()) ?csc CompactCsc = Inr ?m"
    by (simp add: new_from_csc_def validate_csc_def grb_index_max_def windows_all_def last_or_zero_def Let_def)
  have nb: "compiled_in_neighbors ?m 30 = [10, 20]" by code_simp
  have "{u. contains_edge (cm_out ?m) u 30} = {10, 20}" "unat (compiled_in_degree ?m 30) = 2"
    using incident_edges_exact[OF m, of 30] unfolding nb by (simp, elim conjE, simp)+
  then show ?thesis using m nb by blast
qed

end
