(* ===== verification/Topology_Overlay.thy ===== *)
theory Topology_Overlay
  imports Sparse_Ladder
begin

text \<open>
  \<^verbatim>\<open>GraphTopologyOverlay\<close> of \<^verbatim>\<open>src/shard/topology_tail.rs\<close>: the final existence of every edge that changed since an index
  generation. The incremental index build of \<^verbatim>\<open>src/engine/index_store.rs\<close> applies it to the adjacency of the previous
  generation; the query path applies it to neighbour sets, and \<^verbatim>\<open>expand_range_with_overlay\<close> to a traversal of the compiled
  matrix. \<open>effective\<close> is the specification of all of them: the overlay decides the edges it mentions, the base the others.
\<close>

type_synonym overlay = "(vertex_id, (vertex_id, bool) btmap) btmap"

definition overlay_set :: "vertex_id \<Rightarrow> vertex_id \<Rightarrow> bool \<Rightarrow> overlay \<Rightarrow> overlay" where
  "overlay_set src dst exists states =
     bt_insert src (bt_insert dst exists (case bt_get states src of None \<Rightarrow> [] | Some destinations \<Rightarrow> destinations)) states"

definition overlay_state :: "overlay \<Rightarrow> vertex_id \<Rightarrow> vertex_id \<Rightarrow> bool option" where
  "overlay_state states src dst = (case bt_get states src of None \<Rightarrow> None | Some destinations \<Rightarrow> bt_get destinations dst)"

definition overlay_entries :: "overlay \<Rightarrow> (vertex_id \<times> vertex_id \<times> bool) list" where
  "overlay_entries states = concat (map (\<lambda>(src, destinations). map (\<lambda>(dst, exists). (src, dst, exists)) destinations) states)"

definition bs_remove :: "'k \<Rightarrow> 'k btset \<Rightarrow> 'k btset" where
  "bs_remove x s = filter (\<lambda>y. y \<noteq> x) s"

definition apply_change :: "vertex_id \<times> bool \<Rightarrow> vertex_id btset \<Rightarrow> vertex_id btset" where
  "apply_change p found = (case p of (vertex, exists) \<Rightarrow> if exists then bs_insert vertex found else bs_remove vertex found)"

definition apply_out_neighbors :: "overlay \<Rightarrow> vertex_id \<Rightarrow> vertex_id btset \<Rightarrow> vertex_id btset \<times> u64" where
  "apply_out_neighbors states src found =
     (case bt_get states src of None \<Rightarrow> (found, 0)
      | Some destinations \<Rightarrow> (fold apply_change destinations found, word_of_nat (length destinations)))"

definition apply_in_neighbors :: "overlay \<Rightarrow> vertex_id \<Rightarrow> vertex_id btset \<Rightarrow> vertex_id btset \<times> u64" where
  "apply_in_neighbors states dst found =
     (fold (\<lambda>(src, destinations) found. case bt_get destinations dst of None \<Rightarrow> found | Some exists \<Rightarrow> apply_change (src, exists) found)
        states found, word_of_nat (length states))"

text \<open>One entry applied to the adjacency of the previous generation, in \<^verbatim>\<open>build_graph_index_incremental\<close>.\<close>

definition patch_entry :: "vertex_id \<times> vertex_id \<times> bool \<Rightarrow> adjacency \<Rightarrow> adjacency" where
  "patch_entry p adjacency = (case p of (src, dst, exists) \<Rightarrow>
     if exists then bt_insert src (bs_insert dst (case bt_get adjacency src of None \<Rightarrow> [] | Some N \<Rightarrow> N)) adjacency
     else (case bt_get adjacency src of None \<Rightarrow> adjacency
           | Some destinations \<Rightarrow>
               let remaining = bs_remove dst destinations in
               if remaining = [] then bt_remove src adjacency else bt_insert src remaining adjacency))"

definition patch_adjacency :: "overlay \<Rightarrow> adjacency \<Rightarrow> adjacency" where
  "patch_adjacency states adjacency = fold patch_entry (overlay_entries states) adjacency"

text \<open>
  The traversal. The expansion of the compiled matrix is the parameter \<open>expand1\<close> (one hop) and its edge test is
  \<open>contains\<close>; the compact kernel instantiates them.
\<close>

definition overlay_change ::
    "(vertex_id \<Rightarrow> vertex_id \<Rightarrow> bool) \<Rightarrow> overlay \<Rightarrow> vertex_id btset \<Rightarrow> vertex_id \<times> bool \<Rightarrow> vertex_id btset \<Rightarrow> vertex_id btset" where
  "overlay_change contains states frontier p nxt = (case p of (dst, exists) \<Rightarrow>
     if exists then bs_insert dst nxt
     else if dst \<in> set nxt \<and> \<not> list_ex (\<lambda>candidate. case overlay_state states candidate dst of Some e \<Rightarrow> e | None \<Rightarrow> contains candidate dst) frontier
     then bs_remove dst nxt else nxt)"

definition overlay_source ::
    "(vertex_id \<Rightarrow> vertex_id \<Rightarrow> bool) \<Rightarrow> overlay \<Rightarrow> vertex_id btset \<Rightarrow> vertex_id \<Rightarrow> vertex_id btset \<times> u64 \<Rightarrow> vertex_id btset \<times> u64" where
  "overlay_source contains states frontier src p = (case p of (nxt, edge_visits) \<Rightarrow>
     case bt_get states src of None \<Rightarrow> (nxt, edge_visits)
     | Some changes \<Rightarrow>
         (fold (overlay_change contains states frontier) changes nxt, saturating_add edge_visits (word_of_nat (length changes))))"

fun overlay_loop ::
    "(vertex_id list \<Rightarrow> u8 \<Rightarrow> sparse_traversal result) \<Rightarrow> (vertex_id \<Rightarrow> vertex_id \<Rightarrow> bool) \<Rightarrow> overlay \<Rightarrow> nat \<Rightarrow> nat \<Rightarrow> nat \<Rightarrow>
       vertex_id btset \<Rightarrow> vertex_id btset \<Rightarrow> u64 \<Rightarrow> (vertex_id btset \<times> u64) result" where
  "overlay_loop expand contains states min_hops hop 0 frontier reachable edge_visits = Inr (reachable, edge_visits)"
| "overlay_loop expand contains states min_hops hop (Suc n) frontier reachable edge_visits =
     (if frontier = [] then Inr (reachable, edge_visits)
      else rbind (expand frontier 1) (\<lambda>base.
        let (nxt, edge_visits') = fold (overlay_source contains states frontier) frontier
              (bs_extend [] (st_vertices base), saturating_add edge_visits (st_edge_visits base));
            reachable' = (if min_hops \<le> Suc hop then bs_extend reachable nxt else reachable)
        in overlay_loop expand contains states min_hops (Suc hop) n nxt reachable' edge_visits'))"

definition expand_range_with_overlay ::
    "(compact_csc \<Rightarrow> vertex_id list \<Rightarrow> u8 \<Rightarrow> sparse_traversal result) \<Rightarrow> compiled_matrix \<Rightarrow> overlay \<Rightarrow> vertex_id list \<Rightarrow> u8 \<Rightarrow> u8 \<Rightarrow>
       sparse_traversal result" where
  "expand_range_with_overlay suite compiled states starts min_hops max_hops =
     rbind (overlay_loop (compiled_expand suite compiled) (contains_edge (cm_out compiled)) states (unat min_hops) 0 (unat max_hops)
        (bs_extend [] starts) [] 0) (\<lambda>(reachable, edge_visits).
     Inr \<lparr>st_vertices = reachable, st_edge_visits = edge_visits, st_backend = cm_kernel compiled\<rparr>)"

subsection \<open>Overlays as partial maps\<close>

definition overlay_ok :: "overlay \<Rightarrow> bool" where
  "overlay_ok states \<longleftrightarrow> bt_ok states \<and> list_all (\<lambda>p. bt_ok (snd p)) states"

lemma overlay_ok_Nil [simp]: "overlay_ok []"
  by (simp add: overlay_ok_def)

lemma overlay_state_Nil [simp]: "overlay_state [] s d = None"
  by (simp add: overlay_state_def)

lemma overlay_row_ok: "overlay_ok W \<Longrightarrow> bt_get W s = Some ds \<Longrightarrow> bt_ok ds"
  unfolding overlay_ok_def list_all_iff using bt_get_Some_iff by fastforce

lemma overlay_set_ok: "overlay_ok W \<Longrightarrow> overlay_ok (overlay_set s d e W)"
proof -
  assume ok: "overlay_ok W"
  let ?row = "bt_insert d e (case bt_get W s of None \<Rightarrow> [] | Some ds \<Rightarrow> ds)"
  have "bt_ok ?row" using overlay_row_ok[OF ok] by (auto split: option.splits)
  then show ?thesis using ok set_bt_insert[of s ?row W] unfolding overlay_ok_def overlay_set_def list_all_iff by auto
qed

lemma overlay_state_set:
  assumes "overlay_ok W"
  shows "overlay_state (overlay_set s d e W) s' d' = (if s' = s \<and> d' = d then Some e else overlay_state W s' d')"
  using assms overlay_row_ok[OF assms, of s]
  by (cases "bt_get W s") (auto simp: overlay_state_def overlay_set_def overlay_ok_def bt_get_insert bt_get_def[of "[(d, e)]"])

lemma overlay_entry_iff: "overlay_ok W \<Longrightarrow> (s, d, e) \<in> set (overlay_entries W) \<longleftrightarrow> overlay_state W s d = Some e"
proof -
  assume ok: "overlay_ok W"
  have "(s, d, e) \<in> set (overlay_entries W) \<longleftrightarrow> (\<exists>ds. (s, ds) \<in> set W \<and> (d, e) \<in> set ds)"
    by (force simp: overlay_entries_def)
  also have "\<dots> \<longleftrightarrow> (\<exists>ds. bt_get W s = Some ds \<and> bt_get ds d = Some e)"
    using ok overlay_row_ok[OF ok, of s] by (auto simp: overlay_ok_def bt_get_Some_iff)
  also have "\<dots> \<longleftrightarrow> overlay_state W s d = Some e" by (auto simp: overlay_state_def split: option.splits)
  finally show ?thesis .
qed

definition effective :: "overlay \<Rightarrow> (vertex_id \<times> vertex_id) set \<Rightarrow> (vertex_id \<times> vertex_id) set" where
  "effective states E = {(s, d). case overlay_state states s d of Some e \<Rightarrow> e | None \<Rightarrow> (s, d) \<in> E}"

lemma effective_iff:
  "(s, d) \<in> effective W E \<longleftrightarrow> overlay_state W s d = Some True \<or> (overlay_state W s d = None \<and> (s, d) \<in> E)"
  by (cases "overlay_state W s d") (auto simp: effective_def)

subsection \<open>Neighbour sets\<close>

lemma set_bs_remove [simp]: "set (bs_remove x s) = set s - {x}"
  by (auto simp: bs_remove_def)

lemma bs_ok_remove [simp]: "bs_ok s \<Longrightarrow> bs_ok (bs_remove x s)"
  by (simp add: bs_ok_def bs_remove_def sorted_wrt_filter)

lemma apply_change_ok [simp]: "bs_ok ns \<Longrightarrow> bs_ok (apply_change p ns)"
  by (simp add: apply_change_def split: prod.splits)

lemma apply_change_set: "set (apply_change (v, e) ns) = (if e then insert v (set ns) else set ns - {v})"
  by (simp add: apply_change_def)

lemma apply_changes:
  "bs_ok ns \<Longrightarrow> distinct (map fst ps) \<Longrightarrow> bs_ok (fold apply_change ps ns) \<and>
     set (fold apply_change ps ns) = {v. case map_of ps v of Some e \<Rightarrow> e | None \<Rightarrow> v \<in> set ns}"
proof (induction ps arbitrary: ns)
  case (Cons p ps)
  obtain v e where p: "p = (v, e)" by (cases p)
  have none: "map_of ps v = None" using Cons.prems(2) p by (simp add: map_of_eq_None_iff)
  show ?case
    using Cons.IH[of "apply_change p ns"] Cons.prems none p by (auto simp: apply_change_set split: option.splits)
qed simp

lemma apply_out_spec:
  assumes "overlay_ok W" "bs_ok ns" "set ns = E `` {s}"
  shows "bs_ok (fst (apply_out_neighbors W s ns)) \<and> set (fst (apply_out_neighbors W s ns)) = effective W E `` {s}"
proof (cases "bt_get W s")
  case None
  then show ?thesis using assms by (auto simp: apply_out_neighbors_def effective_def overlay_state_def)
next
  case (Some ds)
  have "distinct (map fst ds)" using overlay_row_ok[OF assms(1) Some] by (rule bt_ok_distinct)
  from apply_changes[OF assms(2) this] show ?thesis
    using Some assms(3) by (auto simp: apply_out_neighbors_def effective_def overlay_state_def bt_get_def split: option.splits)
qed

lemma apply_in_fold:
  "bt_ok W \<Longrightarrow> bs_ok ns \<Longrightarrow>
   bs_ok (fold (\<lambda>(src, ds) ns. case bt_get ds d of None \<Rightarrow> ns | Some e \<Rightarrow> apply_change (src, e) ns) W ns) \<and>
   set (fold (\<lambda>(src, ds) ns. case bt_get ds d of None \<Rightarrow> ns | Some e \<Rightarrow> apply_change (src, e) ns) W ns)
     = {s. case overlay_state W s d of Some e \<Rightarrow> e | None \<Rightarrow> s \<in> set ns}"
proof (induction W arbitrary: ns)
  case (Cons p W)
  obtain s ds where p: "p = (s, ds)" by (cases p)
  let ?ns = "case bt_get ds d of None \<Rightarrow> ns | Some e \<Rightarrow> apply_change (s, e) ns"
  have "s \<notin> fst ` set W" using Cons.prems(1) p by (auto simp: bt_ok_Cons)
  then have fresh: "overlay_state W s d = None" by (simp add: overlay_state_def bt_get_None_iff[symmetric])
  have step: "overlay_state (p # W) s' d = (if s' = s then bt_get ds d else overlay_state W s' d)" for s'
    by (auto simp: overlay_state_def bt_get_def p)
  have "bs_ok ?ns" using Cons.prems(2) by (simp split: option.splits)
  then have IH: "bs_ok (fold (\<lambda>(src, ds) ns. case bt_get ds d of None \<Rightarrow> ns | Some e \<Rightarrow> apply_change (src, e) ns) W ?ns) \<and>
      set (fold (\<lambda>(src, ds) ns. case bt_get ds d of None \<Rightarrow> ns | Some e \<Rightarrow> apply_change (src, e) ns) W ?ns)
        = {s. case overlay_state W s d of Some e \<Rightarrow> e | None \<Rightarrow> s \<in> set ?ns}"
    using Cons.prems(1) by (intro Cons.IH) (simp_all add: bt_ok_Cons)
  have "{s. case overlay_state W s d of Some e \<Rightarrow> e | None \<Rightarrow> s \<in> set ?ns} = {s'. case overlay_state (p # W) s' d of Some e \<Rightarrow> e | None \<Rightarrow> s' \<in> set ns}"
  proof (rule Collect_cong)
    fix s'
    show "(case overlay_state W s' d of Some e \<Rightarrow> e | None \<Rightarrow> s' \<in> set ?ns) \<longleftrightarrow> (case overlay_state (p # W) s' d of Some e \<Rightarrow> e | None \<Rightarrow> s' \<in> set ns)"
      unfolding step using fresh by (cases "s' = s"; cases "bt_get ds d") (auto simp: apply_change_set split: option.splits)
  qed
  then show ?case using IH by (simp add: p)
qed (simp add: overlay_state_def)

subsection \<open>Patching an adjacency\<close>

lemma adj_tight_iff: "adj_tight A \<longleftrightarrow> bt_ok A \<and> (\<forall>s N. bt_get A s = Some N \<longrightarrow> bs_ok N \<and> N \<noteq> [])"
proof
  assume "bt_ok A \<and> (\<forall>s N. bt_get A s = Some N \<longrightarrow> bs_ok N \<and> N \<noteq> [])"
  then have ok: "bt_ok A" and get: "\<And>s N. (s, N) \<in> set A \<Longrightarrow> bs_ok N \<and> N \<noteq> []" by (auto simp: bt_get_Some_iff)
  then show "adj_tight A" unfolding adj_tight_def list_all_iff by auto
next
  assume t: "adj_tight A"
  then have "bt_ok A" by (simp add: adj_tight_def)
  then show "bt_ok A \<and> (\<forall>s N. bt_get A s = Some N \<longrightarrow> bs_ok N \<and> N \<noteq> [])" using adj_tight_get[OF t] by blast
qed

lemma patch_entry_spec:
  assumes "adj_tight A"
  shows "adj_tight (patch_entry (s, d, e) A) \<and> adj_edges (patch_entry (s, d, e) A) = (if e then insert (s, d) (adj_edges A) else adj_edges A - {(s, d)})"
proof -
  have ok: "bt_ok A" using assms by (simp add: adj_tight_def)
  note get = adj_tight_get[OF assms]
  show ?thesis
  proof (cases e)
    case True
    let ?N = "bs_insert d (case bt_get A s of None \<Rightarrow> [] | Some N \<Rightarrow> N)"
    have p: "patch_entry (s, d, e) A = bt_insert s ?N A" using True by (simp add: patch_entry_def)
    have N: "bs_ok ?N" using get[of s] by (auto split: option.splits)
    have ne: "?N \<noteq> []" by (metis empty_set insert_not_empty set_bs_insert)
    have "adj_tight (bt_insert s ?N A)" using ok get N ne unfolding adj_tight_iff bt_get_insert[OF ok] by auto
    moreover have "adj_edges (bt_insert s ?N A) = insert (s, d) (adj_edges A)"
      unfolding adj_edges_def bt_get_insert[OF ok] by (auto split: option.splits if_splits)
    ultimately show ?thesis unfolding p using True by simp
  next
    case False
    show ?thesis
    proof (cases "bt_get A s")
      case None
      then show ?thesis using False assms by (auto simp: patch_entry_def adj_edges_def)
    next
      case (Some N)
      show ?thesis
      proof (cases "bs_remove d N = []")
        case True
        then have "set N \<subseteq> {d}" using set_bs_remove[of d N] by auto
        moreover have p: "patch_entry (s, d, e) A = bt_remove s A" using False Some True by (simp add: patch_entry_def)
        moreover have "adj_tight (bt_remove s A)" using ok get unfolding adj_tight_iff bt_get_remove by (simp split: if_splits)
        ultimately show ?thesis using False Some unfolding p adj_edges_def bt_get_remove by (auto split: if_splits)
      next
        case ne: False
        then have p: "patch_entry (s, d, e) A = bt_insert s (bs_remove d N) A" using False Some by (simp add: patch_entry_def Let_def)
        have "adj_tight (bt_insert s (bs_remove d N) A)" using ok get Some ne unfolding adj_tight_iff bt_get_insert[OF ok] by auto
        moreover have "adj_edges (bt_insert s (bs_remove d N) A) = adj_edges A - {(s, d)}"
          using Some unfolding adj_edges_def bt_get_insert[OF ok] by (auto split: if_splits)
        ultimately show ?thesis unfolding p using False by simp
      qed
    qed
  qed
qed

lemma patch_fold:
  assumes "adj_tight A" "\<forall>s d e e'. (s, d, e) \<in> set es \<longrightarrow> (s, d, e') \<in> set es \<longrightarrow> e = e'"
  shows "adj_tight (fold patch_entry es A) \<and>
    (\<forall>s d. (s, d) \<in> adj_edges (fold patch_entry es A) \<longleftrightarrow> (s, d, True) \<in> set es \<or> ((s, d, False) \<notin> set es \<and> (s, d) \<in> adj_edges A))"
  using assms
proof (induction es arbitrary: A)
  case (Cons p es)
  obtain s d e where p: "p = (s, d, e)" by (cases p)
  note step = patch_entry_spec[OF Cons.prems(1), of s d e]
  have fn: "\<forall>s d e e'. (s, d, e) \<in> set es \<longrightarrow> (s, d, e') \<in> set es \<longrightarrow> e = e'"
    using Cons.prems(2) by (meson list.set_intros(2))
  have tight: "adj_tight (patch_entry p A)" using step p by simp
  note IH = Cons.IH[OF tight fn]
  have "(x, y) \<in> adj_edges (fold patch_entry (p # es) A) \<longleftrightarrow>
      (x, y, True) \<in> set (p # es) \<or> ((x, y, False) \<notin> set (p # es) \<and> (x, y) \<in> adj_edges A)" for x y
  proof (cases "(x, y) = (s, d)")
    case True
    have "(s, d, \<not> e) \<notin> set es" using Cons.prems(2) p by (metis list.set_intros)
    then show ?thesis using True IH step p by (cases e) auto
  next
    case False
    then show ?thesis using IH step p by (cases e) auto
  qed
  then show ?case using IH by simp
qed simp

lemma patch_adjacency_spec:
  assumes "adj_tight A" "overlay_ok W"
  shows "adj_tight (patch_adjacency W A) \<and> adj_edges (patch_adjacency W A) = effective W (adj_edges A)"
proof -
  have fn: "\<forall>s d e e'. (s, d, e) \<in> set (overlay_entries W) \<longrightarrow> (s, d, e') \<in> set (overlay_entries W) \<longrightarrow> e = e'"
    by (simp add: overlay_entry_iff[OF assms(2)])
  from patch_fold[OF assms(1) fn] show ?thesis
    by (auto simp: patch_adjacency_def effective_def overlay_entry_iff[OF assms(2)] split: option.splits)
qed

subsection \<open>Traversal with an overlay\<close>

definition overlay_next :: "overlay \<Rightarrow> (vertex_id \<times> vertex_id) set \<Rightarrow> vertex_id set \<Rightarrow> vertex_id set" where
  "overlay_next W E F = {d \<in> effective W E `` F. d \<notin> F \<or> (\<exists>s \<in> F. overlay_state W s d = Some True)}"

lemma overlay_change_spec:
  assumes "\<And>s d. contains s d \<longleftrightarrow> (s, d) \<in> E" "bs_ok nxt"
  shows "bs_ok (overlay_change contains W F (d, e) nxt) \<and>
    set (overlay_change contains W F (d, e) nxt) = (if e then insert d (set nxt) else set nxt - ({d} - effective W E `` set F))"
proof -
  have "list_ex (\<lambda>c. case overlay_state W c d of Some e \<Rightarrow> e | None \<Rightarrow> contains c d) F \<longleftrightarrow> d \<in> effective W E `` set F"
    unfolding list_ex_iff effective_def assms(1) by auto
  then show ?thesis using assms(2) by (auto simp: overlay_change_def)
qed

lemma overlay_changes_spec:
  assumes "\<And>s d. contains s d \<longleftrightarrow> (s, d) \<in> E"
  shows "bs_ok nxt \<Longrightarrow> {d. (d, True) \<in> set ps} \<subseteq> effective W E `` set F \<Longrightarrow>
    bs_ok (fold (overlay_change contains W F) ps nxt) \<and>
    set (fold (overlay_change contains W F) ps nxt) = (set nxt - ({d. (d, False) \<in> set ps} - effective W E `` set F)) \<union> {d. (d, True) \<in> set ps}"
proof (induction ps arbitrary: nxt)
  case (Cons p ps)
  obtain d e where p: "p = (d, e)" by (cases p)
  note step = overlay_change_spec[OF assms Cons.prems(1), of W F d e]
  have IH: "bs_ok (fold (overlay_change contains W F) ps (overlay_change contains W F p nxt)) \<and>
      set (fold (overlay_change contains W F) ps (overlay_change contains W F p nxt))
        = (set (overlay_change contains W F p nxt) - ({d. (d, False) \<in> set ps} - effective W E `` set F)) \<union> {d. (d, True) \<in> set ps}"
    using step p Cons.prems(2) by (intro Cons.IH) auto
  show ?case
  proof (cases e)
    case True
    then have "d \<in> effective W E `` set F" using Cons.prems(2) p by auto
    then show ?thesis using IH step p True by auto
  next
    case False
    then show ?thesis using IH step p by auto
  qed
qed simp

lemma overlay_row_iff: "bt_get W s = Some changes \<Longrightarrow> bt_ok changes \<Longrightarrow> (d, e) \<in> set changes \<longleftrightarrow> overlay_state W s d = Some e"
  by (simp add: overlay_state_def bt_get_Some_iff)

lemma overlay_sources_spec:
  assumes "\<And>s d. contains s d \<longleftrightarrow> (s, d) \<in> E" "overlay_ok W"
  shows "bs_ok nxt \<Longrightarrow> set ss \<subseteq> set F \<Longrightarrow>
    bs_ok (fst (fold (overlay_source contains W F) ss (nxt, e))) \<and>
    set (fst (fold (overlay_source contains W F) ss (nxt, e))) =
      (set nxt - ({d. \<exists>s \<in> set ss. overlay_state W s d = Some False} - effective W E `` set F)) \<union> {d. \<exists>s \<in> set ss. overlay_state W s d = Some True}"
proof (induction ss arbitrary: nxt e)
  case (Cons s ss)
  have s: "s \<in> set F" and ss: "set ss \<subseteq> set F" using Cons.prems(2) by auto
  show ?case
  proof (cases "bt_get W s")
    case None
    then have "overlay_state W s d = None" for d by (simp add: overlay_state_def)
    then show ?thesis using Cons.IH[OF Cons.prems(1) ss, of e] None by (simp add: overlay_source_def)
  next
    case (Some changes)
    note row = overlay_row_iff[OF Some overlay_row_ok[OF assms(2) Some]]
    let ?nxt = "fold (overlay_change contains W F) changes nxt"
    have true: "{d. (d, True) \<in> set changes} \<subseteq> effective W E `` set F" using s by (auto simp: row effective_iff Image_iff)
    note step = overlay_changes_spec[OF assms(1) Cons.prems(1) true]
    have sub: "{d. \<exists>s \<in> set ss. overlay_state W s d = Some True} \<subseteq> effective W E `` set F" using ss by (auto simp: effective_iff Image_iff)
    have sub1: "{d. overlay_state W s d = Some True} \<subseteq> effective W E `` set F" using true by (simp add: row)
    have set: "set ?nxt = (set nxt - ({d. overlay_state W s d = Some False} - effective W E `` set F)) \<union> {d. overlay_state W s d = Some True}"
      using step by (simp add: row)
    have "fold (overlay_source contains W F) (s # ss) (nxt, e) = fold (overlay_source contains W F) ss (?nxt, saturating_add e (word_of_nat (length changes)))"
      using Some by (simp add: overlay_source_def)
    then show ?thesis using Cons.IH[OF conjunct1[OF step] ss, of "saturating_add e (word_of_nat (length changes))"] set sub sub1 by auto
  qed
qed simp

lemma overlay_hop:
  assumes "\<And>s d. contains s d \<longleftrightarrow> (s, d) \<in> E" "overlay_ok W" "set base = E `` set F - set F"
  shows "bs_ok (fst (fold (overlay_source contains W F) F (bs_extend [] base, e)))
    \<and> set (fst (fold (overlay_source contains W F) F (bs_extend [] base, e))) = overlay_next W E (set F)"
proof -
  note step = overlay_sources_spec[OF assms(1,2) bs_ok_extend[OF bs_ok_Nil] subset_refl, of F base e]
  have "(E `` set F - set F - ({d. \<exists>s \<in> set F. overlay_state W s d = Some False} - effective W E `` set F)) \<union> {d. \<exists>s \<in> set F. overlay_state W s d = Some True}
      = overlay_next W E (set F)" (is "?l = _")
  proof (intro set_eqI iffI)
    fix d
    assume d: "d \<in> ?l"
    show "d \<in> overlay_next W E (set F)"
    proof (cases "\<exists>s \<in> set F. overlay_state W s d = Some True")
      case True
      then show ?thesis by (auto simp: overlay_next_def effective_iff Image_iff)
    next
      case False
      then obtain s where s: "s \<in> set F" "(s, d) \<in> E" "d \<notin> set F" using d by blast
      have "d \<in> effective W E `` set F"
      proof (cases "overlay_state W s d")
        case None
        then show ?thesis using s by (auto simp: effective_iff Image_iff)
      next
        case (Some b)
        then have "overlay_state W s d = Some False" using False s(1) by (cases b) auto
        then show ?thesis using d s(1) False by auto
      qed
      then show ?thesis using s(3) by (simp add: overlay_next_def)
    qed
  next
    fix d
    assume "d \<in> overlay_next W E (set F)"
    then show "d \<in> ?l" by (auto simp: overlay_next_def effective_iff)
  qed
  then show ?thesis using step assms(3) by simp
qed

subsection \<open>Kernels with an edge test\<close>

locale edge_kernel = hop_kernel +
  fixes contains :: "'a \<Rightarrow> vertex_id \<Rightarrow> vertex_id \<Rightarrow> bool"
  assumes contains_law: "valid m \<Longrightarrow> contains m s d \<longleftrightarrow> (s, d) \<in> graph m"
begin

lemma one_hop:
  assumes "valid m"
  shows "\<exists>t. expand m F 1 = Inr t \<and> set (st_vertices t) = graph m `` set F - set F"
proof -
  have "within_hops (graph m) (unat (1 :: u8)) (set F) = set F \<union> graph m `` set F"
    using within_hops_Suc[of "graph m" 0 "set F"] by simp
  then show ?thesis using expand_law[OF assms, of F 1] by auto
qed

lemma overlay_walk:
  assumes "valid m" "overlay_ok W"
  shows "bs_ok R \<Longrightarrow> \<forall>k < n. \<forall>s \<in> (effective W (graph m) ^^ k) `` set F. \<forall>d \<in> (effective W (graph m) ^^ k) `` set F.
        overlay_state W s d = None \<longrightarrow> (s, d) \<notin> graph m \<Longrightarrow>
    \<exists>vs e'. overlay_loop (expand m) (contains m) W lo hop n F R e = Inr (vs, e') \<and> bs_ok vs
      \<and> set vs = range_sets (effective W (graph m)) lo hop n (set F) (set R)"
proof (induction n arbitrary: hop F R e)
  case (Suc n)
  let ?G = "effective W (graph m)"
  show ?case
  proof (cases "F = []")
    case True
    then show ?thesis using Suc.prems(1) by (simp add: Let_def)
  next
    case False
    obtain t where t: "expand m F 1 = Inr t" "set (st_vertices t) = graph m `` set F - set F" using one_hop[OF assms(1)] by blast
    obtain nxt e1 where fold: "fold (overlay_source (contains m) W F) F (bs_extend [] (st_vertices t), saturating_add e (st_edge_visits t)) = (nxt, e1)"
      by (cases "fold (overlay_source (contains m) W F) F (bs_extend [] (st_vertices t), saturating_add e (st_edge_visits t))")
    have hop: "bs_ok nxt" "set nxt = overlay_next W (graph m) (set F)"
      using overlay_hop[OF contains_law[OF assms(1)] assms(2) t(2), of "saturating_add e (st_edge_visits t)"] fold by auto
    have layer: "overlay_state W s d = None \<longrightarrow> (s, d) \<notin> graph m" if "s \<in> set F" "d \<in> set F" for s d
      using Suc.prems(2)[rule_format, of 0 s d] that by simp
    have N: "set nxt = ?G `` set F"
    proof (intro set_eqI iffI)
      fix d
      assume "d \<in> ?G `` set F"
      then obtain s where s: "s \<in> set F" "(s, d) \<in> ?G" by blast
      have "overlay_state W s d = Some True \<or> d \<notin> set F" using s(2) layer[OF s(1), of d] unfolding effective_iff by blast
      then show "d \<in> set nxt" unfolding hop(2) overlay_next_def using s by blast
    qed (simp add: hop(2) overlay_next_def)
    let ?R = "if lo \<le> Suc hop then bs_extend R nxt else R"
    have R: "bs_ok ?R" "set ?R = (if lo \<le> Suc hop then set R \<union> set nxt else set R)" using Suc.prems(1) by (simp_all add: bs_ok_extend)
    have later: "\<forall>k < n. \<forall>s \<in> (?G ^^ k) `` set nxt. \<forall>d \<in> (?G ^^ k) `` set nxt. overlay_state W s d = None \<longrightarrow> (s, d) \<notin> graph m"
    proof -
      have shift: "(?G ^^ k) `` set nxt = (?G ^^ Suc k) `` set F" for k
        unfolding N using hops_Suc[where F = "set F" and E = ?G and k = k] by blast
      show ?thesis unfolding shift
      proof (intro allI impI)
        fix k
        assume "k < n"
        then have "Suc k < Suc n" by simp
        with Suc.prems(2) show "\<forall>s \<in> (?G ^^ Suc k) `` set F. \<forall>d \<in> (?G ^^ Suc k) `` set F. overlay_state W s d = None \<longrightarrow> (s, d) \<notin> graph m"
          by blast
      qed
    qed
    obtain vs e' where rest: "overlay_loop (expand m) (contains m) W lo (Suc hop) n nxt ?R e1 = Inr (vs, e')" "bs_ok vs"
      "set vs = range_sets ?G lo (Suc hop) n (set nxt) (set ?R)"
      using Suc.IH[OF R(1) later, of "Suc hop" e1] by blast
    have "range_sets ?G lo (Suc hop) n {} X = X" for X by (cases n) (simp_all add: Let_def)
    then have "range_sets ?G lo hop (Suc n) (set F) (set R) = range_sets ?G lo (Suc hop) n (set nxt) (set ?R)"
      by (cases "set nxt = {}") (simp_all add: Let_def N[symmetric] R(2))
    moreover have "overlay_loop (expand m) (contains m) W lo hop (Suc n) F R e = overlay_loop (expand m) (contains m) W lo (Suc hop) n nxt ?R e1"
      using False t(1) fold by (simp add: Let_def split del: if_split)
    ultimately show ?thesis using rest by simp
  qed
qed simp

end

interpretation compact_edges: edge_kernel csc_ok csc_graph csc_expand contains_edge
  by unfold_locales (rule contains_edge_iff)

subsection \<open>Properties\<close>

text \<open>An incremental index build gives the same compressed form as a full build: when an overlay records the
  final existence of every edge that differs between the previous adjacency and the current one (and of no edge wrongly),
  patching the previous adjacency yields the current adjacency itself, so the encoded index is the same. A removal that
  empties a source drops the source.\<close>

theorem incremental_index_exact:
  assumes "adj_tight A" "adj_tight B" "overlay_ok W"
    and "\<And>s d. overlay_state W s d = None \<Longrightarrow> (s, d) \<in> adj_edges B \<longleftrightarrow> (s, d) \<in> adj_edges A"
    and "\<And>s d e. overlay_state W s d = Some e \<Longrightarrow> (s, d) \<in> adj_edges B \<longleftrightarrow> e"
  shows "patch_adjacency W A = B \<and> graphblas_csc_from_adjacency (patch_adjacency W A) = graphblas_csc_from_adjacency B"
proof -
  note patch = patch_adjacency_spec[OF assms(1,3)]
  have mem: "(s, d) \<in> adj_edges B \<longleftrightarrow> (s, d) \<in> effective W (adj_edges A)" for s d
    using assms(4)[of s d] assms(5)[of s d] by (cases "overlay_state W s d") (auto simp: effective_def)
  have "adj_edges B = effective W (adj_edges A)" by (rule set_eqI) (use mem in force)
  then have "patch_adjacency W A = B" using patch assms(2) by (intro adj_tight_ext) simp_all
  then show ?thesis by simp
qed

text \<open>Witness of incremental_index_exact: one edge added, one removed with its source.\<close>

theorem incremental_index_exact_witness:
  "patch_adjacency (overlay_set 1 3 True (overlay_set 2 1 False [])) [(1, [2]), (2, [1])] = [(1, [2, 3])]"
proof -
  let ?A = "[(1, [2]), (2, [1])] :: adjacency" and ?B = "[(1, [2, 3])] :: adjacency"
  let ?W = "overlay_set 1 3 True (overlay_set 2 1 False [])"
  have t: "adj_tight ?A" "adj_tight ?B" by (simp_all add: adj_tight_def bt_ok_def bs_ok_def)
  have w: "overlay_ok ?W" by (intro overlay_set_ok overlay_ok_Nil)
  have st: "overlay_state ?W s d = (if s = 1 \<and> d = 3 then Some True else if s = 2 \<and> d = 1 then Some False else None)" for s d
    by (simp add: overlay_state_set overlay_set_ok)
  have A: "(s, d) \<in> adj_edges ?A \<longleftrightarrow> s = 1 \<and> d = 2 \<or> s = 2 \<and> d = 1" for s d by (auto simp: adj_edges_def bt_get_def)
  have B: "(s, d) \<in> adj_edges ?B \<longleftrightarrow> s = 1 \<and> (d = 2 \<or> d = 3)" for s d by (auto simp: adj_edges_def bt_get_def)
  have none: "overlay_state ?W s d = None \<Longrightarrow> (s, d) \<in> adj_edges ?B \<longleftrightarrow> (s, d) \<in> adj_edges ?A" for s d
    unfolding st A B by (auto split: if_splits)
  have some: "overlay_state ?W s d = Some e \<Longrightarrow> (s, d) \<in> adj_edges ?B \<longleftrightarrow> e" for s d e
    unfolding st B by (auto split: if_splits)
  from incremental_index_exact[OF t w none some] show ?thesis by blast
qed

text \<open>C31 (overlay_expansion_exact). Range expansion over a compiled matrix with an overlay of changes returns the vertices reached by some
  number of hops between the bounds (the lower one at least one) in the effective graph, in increasing order, provided no base
  edge of the effective graph joins two vertices of the same layer of the walk.\<close>

theorem overlay_expansion_exact:
  assumes "new_from_csc init csc CompactCsc = Inr m" "overlay_ok W" "0 < lo"
    and "\<forall>k < unat hi. \<forall>s \<in> (effective W (csc_graph (cm_out m)) ^^ k) `` set starts. \<forall>d \<in> (effective W (csc_graph (cm_out m)) ^^ k) `` set starts.
        overlay_state W s d = None \<longrightarrow> (s, d) \<notin> csc_graph (cm_out m)"
  shows "\<exists>t. expand_range_with_overlay suite m W starts lo hi = Inr t \<and> sorted_wrt (<) (st_vertices t)
    \<and> set (st_vertices t) = hop_range (effective W (csc_graph (cm_out m))) (unat lo) (unat hi) (set starts)"
proof -
  let ?G = "effective W (csc_graph (cm_out m))" and ?F = "bs_extend [] starts :: vertex_id btset"
  have m: "csc_ok (cm_out m)" "cm_kernel m = CompactCsc"
    using assms(1) validate_csc_ok by (auto simp: new_from_csc_def rbind_Inr_iff Let_def)
  have lo: "unat lo \<noteq> 0" using assms(3) by (simp add: word_less_nat_alt)
  have F: "set ?F = set starts" by simp
  obtain vs e where loop: "overlay_loop (csc_expand (cm_out m)) (contains_edge (cm_out m)) W (unat lo) 0 (unat hi) ?F [] 0 = Inr (vs, e)" "bs_ok vs"
    "set vs = range_sets ?G (unat lo) 0 (unat hi) (set ?F) (set [])"
    using compact_edges.overlay_walk[OF m(1) assms(2) bs_ok_Nil, of "unat hi" ?F "unat lo" 0 0] assms(4) unfolding F by blast
  have "set vs = hop_range ?G (unat lo) (unat hi) (set starts)"
    using loop(3) lo range_sets_spec[of ?G "unat lo" "unat hi" "set starts"] by simp
  moreover have "compiled_expand suite m = csc_expand (cm_out m)" using m(2) by (simp add: compiled_expand_def fun_eq_iff)
  ultimately show ?thesis using loop(1,2) by (simp add: expand_range_with_overlay_def bs_ok_def)
qed

definition chain_csc :: graph_blas_csc where
  "chain_csc = \<lparr>gb_vertices = [10, 20, 30], gb_pointers = [0, 1, 2, 2], gb_indices = [1, 2]\<rparr>"

definition chain_matrix :: compiled_matrix where
  "chain_matrix = \<lparr>cm_out = from_csc chain_csc, cm_kernel = CompactCsc, cm_edge_count = 2\<rparr>"

definition chain_overlay :: overlay where
  "chain_overlay = overlay_set 20 40 True (overlay_set 20 30 False [])"

lemma chain_compiled: "new_from_csc (Inr ()) chain_csc CompactCsc = Inr chain_matrix"
  by (simp add: new_from_csc_def validate_csc_def grb_index_max_def windows_all_def last_or_zero_def Let_def chain_csc_def chain_matrix_def)

lemma chain_valid: "csc_ok (cm_out chain_matrix)"
proof -
  have "validate_csc chain_csc = Inr ()" using chain_compiled by (auto simp: new_from_csc_def rbind_Inr_iff)
  then show ?thesis by (simp add: chain_matrix_def validate_csc_ok)
qed

lemma chain_graph: "(10, d) \<in> csc_graph (cm_out chain_matrix) \<longleftrightarrow> d = 20" "(20, d) \<in> csc_graph (cm_out chain_matrix) \<longleftrightarrow> d = 30"
proof -
  have "neighbors (cm_out chain_matrix) 10 = [20]" "neighbors (cm_out chain_matrix) 20 = [30]" by code_simp+
  then show "(10, d) \<in> csc_graph (cm_out chain_matrix) \<longleftrightarrow> d = 20" "(20, d) \<in> csc_graph (cm_out chain_matrix) \<longleftrightarrow> d = 30"
    using neighbors_iff[OF chain_valid, of d 10] neighbors_iff[OF chain_valid, of d 20] by auto
qed

lemma chain_state: "overlay_state chain_overlay s d = (if s = 20 \<and> d = 40 then Some True else if s = 20 \<and> d = 30 then Some False else None)"
  unfolding chain_overlay_def by (simp add: overlay_state_set overlay_set_ok)

text \<open>Witness of C31 (overlay_expansion_exact): one edge of a chain removed and another added after the index was built.\<close>

theorem overlay_expansion_exact_witness:
  "\<exists>t. expand_range_with_overlay (\<lambda>_ _ _. Inl (grb_error [])) chain_matrix chain_overlay [10] 1 2 = Inr t
     \<and> st_vertices t = [20, 40] \<and> hop_range (effective chain_overlay (csc_graph (cm_out chain_matrix))) 1 2 {10} = {20, 40}"
proof -
  let ?G = "effective chain_overlay (csc_graph (cm_out chain_matrix))"
  have w: "overlay_ok chain_overlay" unfolding chain_overlay_def by (intro overlay_set_ok overlay_ok_Nil)
  have one: "?G `` {10} = {20}" by (auto simp: effective_iff chain_state chain_graph)
  have layers: "\<forall>k < unat (2 :: u8). \<forall>s \<in> (?G ^^ k) `` set [10]. \<forall>d \<in> (?G ^^ k) `` set [10].
      overlay_state chain_overlay s d = None \<longrightarrow> (s, d) \<notin> csc_graph (cm_out chain_matrix)"
  proof (intro allI impI)
    fix k :: nat
    assume "k < unat (2 :: u8)"
    then consider "k = 0" | "k = 1" by fastforce
    then show "\<forall>s \<in> (?G ^^ k) `` set [10]. \<forall>d \<in> (?G ^^ k) `` set [10].
        overlay_state chain_overlay s d = None \<longrightarrow> (s, d) \<notin> csc_graph (cm_out chain_matrix)"
      by cases (simp_all add: one chain_graph)
  qed
  from overlay_expansion_exact[OF chain_compiled w _ layers, of 1] obtain t where
    t: "expand_range_with_overlay (\<lambda>_ _ _. Inl (grb_error [])) chain_matrix chain_overlay [10] 1 2 = Inr t"
    "set (st_vertices t) = hop_range ?G 1 2 {10}" by auto
  have "map_ok st_vertices (expand_range_with_overlay (\<lambda>_ _ _. Inl (grb_error [])) chain_matrix chain_overlay [10] 1 2) = Inr [20, 40]" by code_simp
  then have "st_vertices t = [20, 40]" unfolding t(1) by simp
  then show ?thesis using t by auto
qed

subsection \<open>Where the overlay traversal departs from the traversal without one\<close>

definition loop_matrix :: compiled_matrix where
  "loop_matrix = \<lparr>cm_out = from_csc \<lparr>gb_vertices = [10, 20], gb_pointers = [0, 2, 2], gb_indices = [0, 1]\<rparr>, cm_kernel = CompactCsc, cm_edge_count = 2\<rparr>"

text \<open>
  The one-hop expansion that the overlay traversal is built on leaves out its starting vertices, so an edge between two
  vertices of one layer is lost: with the self loop 10 \<open>\<rightarrow>\<close> 10 and the edge 10 \<open>\<rightarrow>\<close> 20, one hop from 10 gives 10 and
  20 without an overlay and 20 alone with an empty one. A lower bound of zero hops loses the starts as well.
\<close>

lemma overlay_loses_layer_edges:
  "map_ok st_vertices (compiled_expand_range suite loop_matrix [10] 1 1) = Inr [10, 20]
   \<and> map_ok st_vertices (expand_range_with_overlay suite1 loop_matrix [] [10] 1 1) = Inr [20]
   \<and> map_ok st_vertices (compiled_expand_range suite loop_matrix [20] 0 1) = Inr [20]
   \<and> map_ok st_vertices (expand_range_with_overlay suite1 loop_matrix [] [20] 0 1) = Inr []"
  by code_simp

definition cycle_matrix :: compiled_matrix where
  "cycle_matrix = \<lparr>cm_out = from_csc \<lparr>gb_vertices = [10, 20], gb_pointers = [0, 1, 2], gb_indices = [1, 0]\<rparr>, cm_kernel = CompactCsc, cm_edge_count = 2\<rparr>"

text \<open>
  Matrix reachability uses the range traversal from one hop when there is an overlay and the plain expansion otherwise. On
  the cycle 10 \<open>\<rightarrow>\<close> 20 \<open>\<rightarrow>\<close> 10 the first returns the start and the second does not.
\<close>

lemma overlay_returns_starts:
  "map_ok st_vertices (compiled_expand suite cycle_matrix [10] 2) = Inr [20]
   \<and> map_ok st_vertices (expand_range_with_overlay suite cycle_matrix [] [10] 1 2) = Inr [10, 20]"
  by code_simp

end
