(* ===== verification/Changelog.thy ===== *)
theory Changelog
  imports Write_Batch Snapshot_Read Topology_Overlay
begin

text \<open>
  The edge changelog, \<^verbatim>\<open>src/shard/xlog.rs\<close>: the delta between two sequences as one bounded scan of a pinned
  snapshot, and the garbage collection of entries a published index has made dead. The write path logs
  each change in its own transaction (\<open>mark_topology_change_txn\<close>); here the log is read back. The main
  result is that through any history of edge writes, deletes and collections the log since an index
  describes exactly what changed, so an incremental build gives what a full build gives. The index
  generation record is that of \<^verbatim>\<open>src/engine/index_store.rs\<close>.
\<close>

record graph_index_generation =
  gi_cell_id :: string
  gi_edge_type :: string
  gi_base_sequence :: storage_sequence
  gi_last_wal_id :: u64
  gi_edge_count :: u64
  gi_checksum :: u64
  gi_generation :: string

datatype xlog_delta =
    XlogComplete overlay
  | XlogUninitialized
  | XlogCoverageGap storage_sequence

definition xlog_component :: "string \<Rightarrow> string \<Rightarrow> string list \<Rightarrow> (u64 \<times> string list) result" where
  "xlog_component key name components =
     (case components of
        [] \<Rightarrow> Inl (CorruptValue key (''xlog key missing numeric '' @ name))
      | value # rest \<Rightarrow> (case str_parse_u64 value of
            Inr n \<Rightarrow> Inr (n, rest)
          | Inl _ \<Rightarrow> Inl (CorruptValue key (''xlog key missing numeric '' @ name))))"

definition parse_xlog_entry_key :: "string \<Rightarrow> string \<Rightarrow> (storage_sequence \<times> vertex_id \<times> vertex_id) result" where
  "parse_xlog_entry_key prefix key =
     rbind (ok_or (CorruptValue key ''xlog key does not match scan prefix'') (strip_prefix prefix key)) (\<lambda>suffix.
     rbind (xlog_component key ''sequence'' (split_on SLASH suffix)) (\<lambda>(sequence, components).
     rbind (xlog_component key ''src'' components) (\<lambda>(src, components).
     rbind (xlog_component key ''dst'' components) (\<lambda>(dst, components).
       if components \<noteq> [] then Inl (CorruptValue key ''xlog key has trailing components'')
       else Inr (sequence, src, dst)))))"

definition decode_xlog_exists :: "string \<Rightarrow> bytes \<Rightarrow> bool result" where
  "decode_xlog_exists key value =
     (if value = [CHR 0x00] then Inr False
      else if value = [CHR 0x01] then Inr True
      else Inl (CorruptValue key ''xlog value must be a single 0/1 existence byte''))"

definition xlog_scan_step :: "string \<Rightarrow> bytes \<times> bytes \<Rightarrow> overlay \<Rightarrow> overlay result" where
  "xlog_scan_step prefix kv overlay =
     (let key = from_utf8_lossy (fst kv) in
      rbind (parse_xlog_entry_key prefix key) (\<lambda>(_, src, dst).
      rbind (decode_xlog_exists key (snd kv)) (\<lambda>exists.
        Inr (overlay_set src dst exists overlay))))"

definition xlog_delta_since ::
    "storage_snapshot \<Rightarrow> graph_index_generation \<Rightarrow> storage_sequence \<Rightarrow> string \<Rightarrow> string \<Rightarrow> xlog_delta result" where
  "xlog_delta_since snapshot previous base_sequence cell_id edge_type =
     (let low_key = xlog_low_water cell_id edge_type in
      rbind (sn_get snapshot low_key) (\<lambda>found.
        case found of
          None \<Rightarrow> Inr XlogUninitialized
        | Some value \<Rightarrow> rbind (decode_u64 low_key value) (\<lambda>low_water.
            let from = saturating_add (gi_base_sequence previous) 1 in
            if from < low_water then Inr (XlogCoverageGap low_water)
            else let prefix = xlog_type_prefix cell_id edge_type; upper = saturating_add base_sequence 1 in
              rbind (sn_range snapshot prefix (fmt_020 from) (fmt_020 upper)) (\<lambda>kvs.
              rbind (rfold (xlog_scan_step prefix) kvs []) (\<lambda>overlay.
                Inr (XlogComplete overlay))))))"

subsection \<open>Garbage collection\<close>

definition XLOG_GC_MAX_DELETES :: nat where
  "XLOG_GC_MAX_DELETES = 100000"

definition ensure_cell_readable :: "'t txn_ops \<Rightarrow> string \<Rightarrow> string \<Rightarrow> ('t shard_state, unit) prog" where
  "ensure_cell_readable ops cell_id operation =
     pbind (plift (validate_component ''cell_id'' cell_id)) (\<lambda>_.
     pbind (read_remote ops (cell_drop_marker cell_id)) (\<lambda>marker.
     pbind (pif (marker \<noteq> None) (preturn True)
              (pbind (read_remote ops (cell_drop_pending_marker cell_id)) (\<lambda>pending. preturn (pending \<noteq> None)))) (\<lambda>dropped.
       pif dropped (pfail (CellDropped operation cell_id)) (preturn ()))))"

definition current_epoch :: "'t txn_ops \<Rightarrow> string \<Rightarrow> ('t shard_state, storage_sequence) prog" where
  "current_epoch ops cell_id =
     pbind (plift (validate_component ''cell_id'' cell_id)) (\<lambda>_.
     pbind (ensure_cell_readable ops cell_id ''current_epoch'') (\<lambda>_. db_seq ops))"

text \<open>The scan for dead entries: the keys to delete, the last sequence seen, and whether the cap ended it.\<close>

fun gc_scan ::
    "nat \<Rightarrow> string \<Rightarrow> storage_sequence \<Rightarrow> (bytes \<times> bytes) list \<Rightarrow> string list \<Rightarrow> storage_sequence \<Rightarrow> (string list \<times> storage_sequence \<times> bool) result" where
  "gc_scan cap prefix gc_through [] dead_keys last_sequence = Inr (dead_keys, last_sequence, False)"
| "gc_scan cap prefix gc_through (kv # kvs) dead_keys last_sequence =
     (let key = from_utf8_lossy (fst kv) in
      rbind (parse_xlog_entry_key prefix key) (\<lambda>(sequence, _, _).
        if gc_through < sequence then Inr (dead_keys, last_sequence, False)
        else if cap \<le> length (dead_keys @ [key]) then Inr (dead_keys @ [key], sequence, True)
        else gc_scan cap prefix gc_through kvs (dead_keys @ [key]) sequence))"

text \<open>An absent floor is repaired at the current epoch.\<close>

definition gc_repair_floor :: "'t txn_ops \<Rightarrow> shard_env \<Rightarrow> string \<Rightarrow> string \<Rightarrow> ('t shard_state, u64) prog" where
  "gc_repair_floor ops sh cell_id edge_type =
     pbind (current_epoch ops cell_id) (\<lambda>repaired.
     pbind (write_graph_batch_strict_with_cell_lock ops sh cell_id ''gc_topology_changelog''
              (batch_put (xlog_low_water cell_id edge_type) (encode_u64 repaired) [])) (\<lambda>_.
       preturn 0))"

text \<open>The batch of a pass over dead entries.\<close>

definition gc_batch :: "string \<Rightarrow> storage_sequence \<Rightarrow> storage_sequence \<Rightarrow> string list \<Rightarrow> graph_write_batch" where
  "gc_batch low_key low_water next_low dead_keys =
     (let batch = fold batch_delete dead_keys [] in
      if low_water < next_low then batch_put low_key (encode_u64 next_low) batch else batch)"

definition gc_collect_dead ::
    "'t txn_ops \<Rightarrow> shard_env \<Rightarrow> string \<Rightarrow> string \<Rightarrow> storage_sequence \<Rightarrow> storage_sequence \<Rightarrow> ('t shard_state, u64) prog" where
  "gc_collect_dead ops sh cell_id edge_type gc_through low_water =
     (let prefix = xlog_type_prefix cell_id edge_type in
      pbind (db_scan ops prefix (Some (fmt_020 low_water)) None) (\<lambda>kvs.
      pbind (plift (gc_scan XLOG_GC_MAX_DELETES prefix gc_through kvs [] low_water)) (\<lambda>(dead_keys, last_sequence, capped).
        pif (dead_keys = []) (preturn 0)
          (let next_low = (if capped then last_sequence else saturating_add gc_through 1)
           in pbind (write_graph_batch_strict_with_cell_lock ops sh cell_id ''gc_topology_changelog''
                       (gc_batch (xlog_low_water cell_id edge_type) low_water next_low dead_keys)) (\<lambda>_.
                preturn (word_of_nat (length dead_keys)))))))"

definition gc_topology_changelog_to ::
    "'t txn_ops \<Rightarrow> shard_env \<Rightarrow> (string \<Rightarrow> unit result) \<Rightarrow> graph_index_generation \<Rightarrow> ('t shard_state, u64) prog" where
  "gc_topology_changelog_to ops sh gc_permit generation =
     (let cell_id = gi_cell_id generation; edge_type = gi_edge_type generation; low_key = xlog_low_water cell_id edge_type in
      pbind (plift (ensure_write_authority sh cell_id ''gc_topology_changelog'')) (\<lambda>_.
      pbind (plift (gc_permit ''gc_topology_changelog'')) (\<lambda>_.
      pbind (read_remote ops low_key) (\<lambda>found.
        case found of
          None \<Rightarrow> gc_repair_floor ops sh cell_id edge_type
        | Some value \<Rightarrow>
            pbind (plift (decode_u64 low_key value)) (\<lambda>low_water.
              pif (gi_base_sequence generation < low_water) (preturn 0)
                (gc_collect_dead ops sh cell_id edge_type (gi_base_sequence generation) low_water))))))"

text \<open>The index manifest is read from the object store, a parameter here.\<close>

definition gc_topology_changelog ::
    "'t txn_ops \<Rightarrow> shard_env \<Rightarrow> (string \<Rightarrow> unit result) \<Rightarrow> (string \<Rightarrow> string \<Rightarrow> graph_index_generation option result)
       \<Rightarrow> string \<Rightarrow> string \<Rightarrow> ('t shard_state, u64) prog" where
  "gc_topology_changelog ops sh gc_permit current_graph_index cell_id edge_type =
     pbind (plift (validate_component ''cell_id'' cell_id)) (\<lambda>_.
     pbind (plift (validate_component ''edge_type'' edge_type)) (\<lambda>_.
       pif (\<not> is_ok (db_writer sh)) (preturn 0)
         (pbind (plift (current_graph_index cell_id edge_type)) (\<lambda>found.
            case found of
              None \<Rightarrow> preturn 0
            | Some generation \<Rightarrow> gc_topology_changelog_to ops sh gc_permit generation))))"

subsection \<open>Reading entries back\<close>

lemma fmt_020_no_slash: "SLASH \<notin> set (fmt_020 w)"
  by (rule valid_component_avoids(1)[OF fmt_020_component])

lemma parse_xlog_entry:
  "parse_xlog_entry_key (xlog_type_prefix c t) (xlog_entry c t q x y) = Inr (q, x, y)"
proof -
  have key: "xlog_entry c t q x y = xlog_type_prefix c t @ join_with SLASH [fmt_020 q, fmt_020 x, fmt_020 y]"
    by (simp add: xlog_entry_def xlog_type_prefix_def)
  have "split_on SLASH (join_with SLASH [fmt_020 q, fmt_020 x, fmt_020 y]) = [fmt_020 q, fmt_020 x, fmt_020 y]"
    by (rule split_on_join_with) (simp_all add: fmt_020_no_slash)
  then show ?thesis
    unfolding parse_xlog_entry_key_def key by (simp add: xlog_component_def ok_or_def)
qed

lemma decode_xlog_value [simp]: "decode_xlog_exists key (xlog_value b) = Inr b"
  by (simp add: decode_xlog_exists_def xlog_value_def)

definition entry_key :: "string \<Rightarrow> string \<Rightarrow> storage_sequence \<times> vertex_id \<times> vertex_id \<Rightarrow> graph_key" where
  "entry_key c t p = KXlogEntry c t (fst p) (fst (snd p)) (snd (snd p))"

lemma valid_entry_key: "valid_component c \<Longrightarrow> valid_component t \<Longrightarrow> valid_key (entry_key c t p)"
  using literal_component by (simp add: valid_key_def entry_key_def)

lemma xlog_prefix_render:
  assumes "valid_key k" "valid_component c" "valid_component t"
  shows "starts_with (xlog_type_prefix c t) (render k) \<longleftrightarrow> (\<exists>p. k = entry_key c t p)"
proof -
  have "xlog_type_prefix c t = join_with SLASH [''cell'', c, ''xlog'', t] @ [SLASH]" by (simp add: key_defs)
  then show ?thesis
    using prefix_render[OF assms(1), of "[''cell'', c, ''xlog'', t]"] key_parts_xlog[of k c t] assms(2,3) literal_component
    by (simp add: entry_key_def)
qed

text \<open>The bounded scan returns the entries between two sequences, in the order of their sequences.\<close>

definition entry_kv :: "string \<Rightarrow> string \<Rightarrow> (storage_sequence \<times> vertex_id \<times> vertex_id) \<times> bool \<Rightarrow> bytes \<times> bytes" where
  "entry_kv c t = family_kv (entry_key c t) xlog_value"

lemma entry_subrange:
  "in_subrange (xlog_type_prefix c t) (Some (fmt_020 lo)) (case hi of None \<Rightarrow> None | Some h \<Rightarrow> Some (fmt_020 h)) (render (entry_key c t p))
    \<longleftrightarrow> lo \<le> fst p \<and> (case hi of None \<Rightarrow> True | Some h \<Rightarrow> fst p < h)"
proof -
  let ?rest = "SLASH # fmt_020 (fst (snd p)) @ SLASH # fmt_020 (snd (snd p))"
  have key: "render (entry_key c t p) = xlog_type_prefix c t @ fmt_020 (fst p) @ ?rest"
    by (simp add: entry_key_def xlog_entry_def xlog_type_prefix_def)
  have lo: "fmt_020 lo \<le> fmt_020 (fst p) @ ?rest \<longleftrightarrow> lo \<le> fst p"
    using fmt_020_append_less[of "fst p" ?rest lo "[]"] by (simp add: linorder_not_less[symmetric])
  have hi: "fmt_020 (fst p) @ ?rest < fmt_020 h \<longleftrightarrow> fst p < h" for h
    using fmt_020_append_less[of "fst p" ?rest h "[]"] by simp
  show ?thesis unfolding in_subrange_def key by (cases hi) (simp_all add: lo hi starts_with_def)
qed

lemma entry_scan:
  assumes wf: "wf_store m" and v: "valid_component c" "valid_component t"
  shows "\<exists>ts. filter (\<lambda>kv. in_subrange (xlog_type_prefix c t) (Some (fmt_020 lo)) (case hi of None \<Rightarrow> None | Some h \<Rightarrow> Some (fmt_020 h)) (fst kv)) m
      = map (entry_kv c t) ts
    \<and> sorted (map (\<lambda>p. fst (fst p)) ts)
    \<and> (\<forall>q x y b. ((q, x, y), b) \<in> set ts \<longleftrightarrow>
        lo \<le> q \<and> (case hi of None \<Rightarrow> True | Some h \<Rightarrow> q < h) \<and> kview m (KXlogEntry c t q x y) = Some (xlog_value b))"
proof -
  let ?in = "in_subrange (xlog_type_prefix c t) (Some (fmt_020 lo)) (case hi of None \<Rightarrow> None | Some h \<Rightarrow> Some (fmt_020 h))"
  have dec: "\<exists>b. w = xlog_value b" if "valid_key (entry_key c t x)" "kview m (entry_key c t x) = Some w" for x w
    using wf_store_record[OF wf that] by (auto simp: entry_key_def xlog_value_def)
  have inj: "inj (entry_key c t)" "inj xlog_value" by (auto simp: inj_on_def entry_key_def xlog_value_def split: if_splits)
  have "\<exists>ts. scan (xlog_type_prefix c t) m = map (entry_kv c t) ts
      \<and> sorted_wrt (<) (map (\<lambda>p. render (entry_key c t (fst p))) ts)
      \<and> (\<forall>x b. (x, b) \<in> set ts \<longleftrightarrow> valid_key (entry_key c t x) \<and> kview m (entry_key c t x) = Some (xlog_value b))"
    unfolding entry_kv_def
    by (rule scan_family[OF wf_store_keyed[OF wf] xlog_prefix_render[OF _ v] _ inj]) (assumption, rule dec)
  then obtain ts where ts: "scan (xlog_type_prefix c t) m = map (entry_kv c t) ts"
    "sorted_wrt (<) (map (\<lambda>p. render (entry_key c t (fst p))) ts)"
    "\<And>x b. (x, b) \<in> set ts \<longleftrightarrow> valid_key (entry_key c t x) \<and> kview m (entry_key c t x) = Some (xlog_value b)" by blast
  let ?ts = "filter (\<lambda>p. ?in (render (entry_key c t (fst p)))) ts"
  have "filter (\<lambda>kv. ?in (fst kv)) m = filter (\<lambda>kv. ?in (fst kv)) (scan (xlog_type_prefix c t) m)"
    unfolding scan_def filter_filter by (rule filter_cong) (auto simp: in_subrange_def)
  also have "\<dots> = map (entry_kv c t) ?ts"
    unfolding ts(1) filter_map by (simp add: comp_def entry_kv_def family_kv_def)
  finally have eq: "filter (\<lambda>kv. ?in (fst kv)) m = map (entry_kv c t) ?ts" .
  have "sorted_wrt (\<lambda>a b. fst (fst a) \<le> fst (fst b)) ts"
  proof (rule sorted_wrt_mono_rel[rotated])
    show "sorted_wrt (\<lambda>a b. render (entry_key c t (fst a)) < render (entry_key c t (fst b))) ts"
      using ts(2) by (simp add: sorted_wrt_map)
    show "fst (fst a) \<le> fst (fst b)" if "render (entry_key c t (fst a)) < render (entry_key c t (fst b))" for a b :: "(storage_sequence \<times> vertex_id \<times> vertex_id) \<times> bool"
      using that xlog_order_is_commit_order by (auto simp: entry_key_def)
  qed
  then have "sorted (map (\<lambda>p. fst (fst p)) ?ts)" by (simp add: sorted_map sorted_wrt_filter)
  moreover have "((q, x, y), b) \<in> set ?ts \<longleftrightarrow>
      lo \<le> q \<and> (case hi of None \<Rightarrow> True | Some h \<Rightarrow> q < h) \<and> kview m (KXlogEntry c t q x y) = Some (xlog_value b)" for q x y b
    using ts(3)[of "(q, x, y)" b] entry_subrange[of c t lo hi "(q, x, y)"] valid_entry_key[OF v, of "(q, x, y)"]
    by (cases hi) (auto simp: entry_key_def)
  ultimately show ?thesis using eq by blast
qed

subsection \<open>The delta\<close>

text \<open>The last change logged for a pair in a range of sequences.\<close>

definition last_change ::
    "(graph_key \<Rightarrow> bytes option) \<Rightarrow> string \<Rightarrow> string \<Rightarrow> storage_sequence \<Rightarrow> storage_sequence \<Rightarrow> vertex_id \<Rightarrow> vertex_id \<Rightarrow> bool \<Rightarrow> bool" where
  "last_change f c t q0 q1 x y b \<longleftrightarrow> (\<exists>q. q0 < q \<and> q \<le> q1 \<and> f (KXlogEntry c t q x y) = Some (xlog_value b)
     \<and> (\<forall>q' b'. q < q' \<and> q' \<le> q1 \<longrightarrow> f (KXlogEntry c t q' x y) \<noteq> Some (xlog_value b')))"

definition log_step :: "(storage_sequence \<times> vertex_id \<times> vertex_id) \<times> bool \<Rightarrow> overlay \<Rightarrow> overlay" where
  "log_step p W = (case p of ((_, x, y), b) \<Rightarrow> overlay_set x y b W)"

lemma xlog_scan_fold:
  assumes "valid_component c" "valid_component t"
  shows "rfold (xlog_scan_step (xlog_type_prefix c t)) (map (entry_kv c t) ts) W = Inr (fold log_step ts W)"
proof (induction ts arbitrary: W)
  case (Cons p ts)
  obtain q x y b where p: "p = ((q, x, y), b)" by (metis surj_pair)
  have "from_utf8_lossy (render (entry_key c t (q, x, y))) = render (entry_key c t (q, x, y))"
    by (rule render_lossy[OF valid_entry_key[OF assms]])
  then have "xlog_scan_step (xlog_type_prefix c t) (entry_kv c t p) W = Inr (log_step p W)"
    unfolding xlog_scan_step_def entry_kv_def family_kv_def p fst_conv snd_conv
    by (simp add: entry_key_def parse_xlog_entry log_step_def)
  then show ?case using Cons by simp
qed simp

lemma log_fold_state:
  "sorted (map (\<lambda>p. fst (fst p)) ts) \<Longrightarrow> overlay_ok (fold log_step ts []) \<and> (\<forall>x y b.
     (\<forall>q b b'. ((q, x, y), b) \<in> set ts \<longrightarrow> ((q, x, y), b') \<in> set ts \<longrightarrow> b = b') \<longrightarrow>
     (overlay_state (fold log_step ts []) x y = Some b \<longleftrightarrow>
      (\<exists>q. ((q, x, y), b) \<in> set ts \<and> (\<forall>q' b'. ((q', x, y), b') \<in> set ts \<longrightarrow> q' \<le> q))))"
proof (induction ts rule: rev_induct)
  case (snoc p ts)
  obtain q x y b where p: "p = ((q, x, y), b)" by (metis surj_pair)
  from snoc.prems have sorted: "sorted (map (\<lambda>p. fst (fst p)) ts)" and le: "\<forall>p' \<in> set ts. fst (fst p') \<le> q"
    by (auto simp: sorted_append p)
  note IH = snoc.IH[OF sorted]
  have W: "fold log_step (ts @ [p]) [] = overlay_set x y b (fold log_step ts [])" by (simp add: log_step_def p)
  show ?case
  proof (intro conjI allI impI)
    show "overlay_ok (fold log_step (ts @ [p]) [])" unfolding W using IH overlay_set_ok by blast
    fix x' y' b'
    assume uniq: "\<forall>q b b'. ((q, x', y'), b) \<in> set (ts @ [p]) \<longrightarrow> ((q, x', y'), b') \<in> set (ts @ [p]) \<longrightarrow> b = b'"
    show "overlay_state (fold log_step (ts @ [p]) []) x' y' = Some b' \<longleftrightarrow>
      (\<exists>q. ((q, x', y'), b') \<in> set (ts @ [p]) \<and> (\<forall>q' b''. ((q', x', y'), b'') \<in> set (ts @ [p]) \<longrightarrow> q' \<le> q))" (is "?L \<longleftrightarrow> ?R")
    proof (cases "(x', y') = (x, y)")
      case True
      have in_p: "((q, x, y), b) \<in> set (ts @ [p])" by (simp add: p)
      have top: "q' \<le> q" if "((q', x, y), b'') \<in> set (ts @ [p])" for q' b''
        using that le by (auto simp: p)
      have "?R \<longleftrightarrow> b' = b"
      proof
        assume ?R
        then obtain q' where q': "((q', x, y), b') \<in> set (ts @ [p])" "\<And>q2 b2. ((q2, x, y), b2) \<in> set (ts @ [p]) \<Longrightarrow> q2 \<le> q'"
          using True by auto
        have "q' = q" using top[OF q'(1)] q'(2)[OF in_p] by simp
        then show "b' = b" using uniq[rule_format, of q b' b] q'(1) in_p True by simp
      next
        assume "b' = b"
        then show ?R using in_p top True by auto
      qed
      then show ?thesis unfolding W overlay_state_set[OF IH[THEN conjunct1]] using True by auto
    next
      case False
      have mem: "((q', x', y'), b'') \<in> set (ts @ [p]) \<longleftrightarrow> ((q', x', y'), b'') \<in> set ts" for q' b''
        using False by (auto simp: p)
      have "?L \<longleftrightarrow> overlay_state (fold log_step ts []) x' y' = Some b'" unfolding W overlay_state_set[OF IH[THEN conjunct1]] using False by auto
      also have "\<dots> \<longleftrightarrow> ?R" unfolding mem using IH[THEN conjunct2, rule_format, of x' y' b'] uniq[unfolded mem] by blast
      finally show ?thesis .
    qed
  qed
qed simp

lemma u64_succ_le: "q0 \<noteq> - 1 \<Longrightarrow> saturating_add q0 1 \<le> q \<longleftrightarrow> q0 < q" for q q0 :: u64
  using saturating_add_unat[of q0 1] u64_max u64_bound[of q] u64_bound[of q0]
  by (cases "unat q0 = 2 ^ 64 - 1") (auto simp: word_le_nat_alt word_less_nat_alt word_unat_eq_iff)

lemma u64_less_succ: "q1 \<noteq> - 1 \<Longrightarrow> q < saturating_add q1 1 \<longleftrightarrow> q \<le> q1" for q q1 :: u64
  using u64_succ_le[of q1 q] linorder_not_less by blast

lemma delta_exact:
  assumes wf: "wf_store m" and v: "valid_component c" "valid_component t"
    and low: "kview m (KXlogLowWater c t) = Some (encode_u64 low)"
    and cover: "low \<le> saturating_add (gi_base_sequence previous) 1" and q: "gi_base_sequence previous \<noteq> - 1" "base \<noteq> - 1"
  shows "\<exists>W. xlog_delta_since (snapshot_of m q') previous base c t = Inr (XlogComplete W) \<and> overlay_ok W
    \<and> (\<forall>x y b. overlay_state W x y = Some b \<longleftrightarrow> last_change (kview m) c t (gi_base_sequence previous) base x y b)"
proof -
  let ?q0 = "gi_base_sequence previous"
  obtain ts where ts: "filter (\<lambda>kv. in_subrange (xlog_type_prefix c t) (Some (fmt_020 (saturating_add ?q0 1))) (Some (fmt_020 (saturating_add base 1))) (fst kv)) m
      = map (entry_kv c t) ts" "sorted (map (\<lambda>p. fst (fst p)) ts)"
    "\<And>q x y b. ((q, x, y), b) \<in> set ts \<longleftrightarrow> saturating_add ?q0 1 \<le> q \<and> q < saturating_add base 1 \<and> kview m (KXlogEntry c t q x y) = Some (xlog_value b)"
    using entry_scan[OF wf v, of "saturating_add ?q0 1" "Some (saturating_add base 1)"] by auto
  note mem = ts(3)[unfolded u64_succ_le[OF q(1)] u64_less_succ[OF q(2)]]
  let ?W = "fold log_step ts []"
  have "xlog_delta_since (snapshot_of m q') previous base c t = Inr (XlogComplete ?W)"
    using low cover unfolding xlog_delta_since_def Let_def snapshot_of_simps
    by (simp add: kview_def ts(1) xlog_scan_fold[OF v])
  moreover have "overlay_ok ?W" using log_fold_state[OF ts(2)] by blast
  moreover have "overlay_state ?W x y = Some b \<longleftrightarrow> last_change (kview m) c t ?q0 base x y b" for x y b
  proof -
    have "b1 = b2" if "((q, x, y), b1) \<in> set ts" "((q, x, y), b2) \<in> set ts" for q b1 b2
      using that unfolding mem by (auto simp: xlog_value_def split: if_splits)
    then have "overlay_state ?W x y = Some b \<longleftrightarrow> (\<exists>q. ((q, x, y), b) \<in> set ts \<and> (\<forall>q' b'. ((q', x, y), b') \<in> set ts \<longrightarrow> q' \<le> q))"
      using log_fold_state[OF ts(2), THEN conjunct2, rule_format, of x y b] by blast
    also have "\<dots> \<longleftrightarrow> last_change (kview m) c t ?q0 base x y b"
      unfolding mem last_change_def
    proof (intro iff_exI iffI conjI allI impI; (elim conjE)?)
      fix q q' b'
      assume q: "?q0 < q" "q \<le> base" "kview m (KXlogEntry c t q x y) = Some (xlog_value b)"
      show "kview m (KXlogEntry c t q' x y) \<noteq> Some (xlog_value b')"
        if "\<forall>q' b'. ?q0 < q' \<and> q' \<le> base \<and> kview m (KXlogEntry c t q' x y) = Some (xlog_value b') \<longrightarrow> q' \<le> q" "q < q'" "q' \<le> base"
        using that q order_less_trans leD by blast
      show "q' \<le> q" if "\<forall>q' b'. q < q' \<and> q' \<le> base \<longrightarrow> kview m (KXlogEntry c t q' x y) \<noteq> Some (xlog_value b')"
        "?q0 < q'" "q' \<le> base" "kview m (KXlogEntry c t q' x y) = Some (xlog_value b')"
        using that linorder_not_less by blast
    qed
    finally show ?thesis .
  qed
  ultimately show ?thesis by blast
qed


subsection \<open>What the log says about the graph\<close>

text \<open>The log since a sequence at which the graph was \<open>E0\<close> accounts for the graph \<open>E\<close>: a logged pair is an edge when its last
  entry says so, and the others are as they were.\<close>

definition accounts ::
    "(graph_key \<Rightarrow> bytes option) \<Rightarrow> string \<Rightarrow> string \<Rightarrow> storage_sequence \<Rightarrow> storage_sequence
      \<Rightarrow> (vertex_id \<times> vertex_id) set \<Rightarrow> (vertex_id \<times> vertex_id) set \<Rightarrow> bool" where
  "accounts f c t q0 q1 E0 E \<longleftrightarrow> (\<forall>x y. last_change f c t q0 q1 x y ((x, y) \<in> E)
     \<or> (\<forall>q b. q0 < q \<and> q \<le> q1 \<longrightarrow> f (KXlogEntry c t q x y) \<noteq> Some (xlog_value b)) \<and> ((x, y) \<in> E \<longleftrightarrow> (x, y) \<in> E0))"

lemma accounts_start: "accounts f c t q q E E"
  by (auto simp: accounts_def)

lemma accounts_keep:
  assumes "accounts f c t q0 q E0 E" "bounded f q c t" "q \<le> q'"
    and same: "\<And>r x y. q0 < r \<Longrightarrow> g (KXlogEntry c t r x y) = f (KXlogEntry c t r x y)"
  shows "accounts g c t q0 q' E0 E"
proof -
  have r: "r \<le> q" if "f (KXlogEntry c t r x y) = Some w" for r x y w using boundedD(3)[OF assms(2) that] .
  have "last_change g c t q0 q' x y b \<longleftrightarrow> last_change f c t q0 q x y b" for x y b
  proof
    assume "last_change g c t q0 q' x y b"
    then show "last_change f c t q0 q x y b"
      unfolding last_change_def using same r assms(3) order_trans by (metis order_less_trans)
  next
    assume "last_change f c t q0 q x y b"
    then show "last_change g c t q0 q' x y b"
      unfolding last_change_def using same r assms(3) order_trans by (metis order_less_trans)
  qed
  moreover have "(\<forall>r b. q0 < r \<and> r \<le> q' \<longrightarrow> g (KXlogEntry c t r x y) \<noteq> Some (xlog_value b))
      \<longleftrightarrow> (\<forall>r b. q0 < r \<and> r \<le> q \<longrightarrow> f (KXlogEntry c t r x y) \<noteq> Some (xlog_value b))" for x y
    using same r assms(3) order_trans by metis
  ultimately show ?thesis using assms(1) unfolding accounts_def by simp
qed

lemma accounts_log:
  assumes acc: "accounts f c t q0 q E0 E" and b: "bounded f q c t" and le: "q0 \<le> q" "q \<noteq> - 1"
    and log: "\<And>r x' y'. g (KXlogEntry c t r x' y') = (if (r, x', y') = (q + 1, x, y) then Some (xlog_value e) else f (KXlogEntry c t r x' y'))"
    and E': "\<And>x' y'. (x', y') \<in> E' \<longleftrightarrow> (if (x', y') = (x, y) then e else (x', y') \<in> E)"
  shows "accounts g c t q0 (q + 1) E0 E'"
  unfolding accounts_def
proof (intro allI)
  fix x' y'
  have "q \<le> q + 1" by (rule u64_le_add_one[OF le(2)]) simp
  then have lt: "q < q + 1" by (simp add: order_less_le)
  show "last_change g c t q0 (q + 1) x' y' ((x', y') \<in> E')
     \<or> (\<forall>r b. q0 < r \<and> r \<le> q + 1 \<longrightarrow> g (KXlogEntry c t r x' y') \<noteq> Some (xlog_value b)) \<and> ((x', y') \<in> E' \<longleftrightarrow> (x', y') \<in> E0)"
  proof (cases "(x', y') = (x, y)")
    case True
    have "last_change g c t q0 (q + 1) x y e"
      unfolding last_change_def by (rule exI[of _ "q + 1"]) (use log lt le in auto)
    then show ?thesis using True E' by auto
  next
    case False
    have same: "g (KXlogEntry c t r x' y') = f (KXlogEntry c t r x' y')" for r using log[of r x' y'] False by auto
    have "accounts (\<lambda>k. f k) c t q0 (q + 1) E0 E" using accounts_keep[OF acc b, of "q + 1" f] lt by simp
    then show ?thesis using E'[of x' y'] False unfolding accounts_def last_change_def same by auto
  qed
qed


subsection \<open>Writes and deletes are logged\<close>

text \<open>A request logs the new state of its edge at its own sequence exactly when it changes the edge.\<close>

definition logged_step :: "edge_mutation \<Rightarrow> bool \<Rightarrow> map_txn shard_state \<Rightarrow> map_txn shard_state \<Rightarrow> bool" where
  "logged_step m e s s' \<longleftrightarrow> (\<forall>c t r x y. valid_component c \<longrightarrow> valid_component t \<longrightarrow> kview (db s') (KXlogEntry c t r x y) =
     (if (c, t, r, x, y) = (em_cell_id m, em_edge_type m, seq s + 1, em_src m, em_dst m) \<and> (((x, y) \<in> graph_of s c t) \<noteq> e)
      then Some (xlog_value e) else kview (db s) (KXlogEntry c t r x y)))"

lemma committed_log:
  assumes "committed is_meta d s'" "\<And>c t r x y. as_map d (KXlogEntry c t r x y) =
     (if (c, t, r, x, y) = (em_cell_id m, em_edge_type m, seq s + 1, em_src m, em_dst m) \<and> ((x, y) \<in> graph_of s c t) \<noteq> e
      then Some (xlog_value e) else kview (db s) (KXlogEntry c t r x y))"
  shows "logged_step m e s s'"
  unfolding logged_step_def
proof (intro allI impI)
  fix c t r x y assume v: "valid_component c" "valid_component t"
  have "kview (db s') (KXlogEntry c t r x y) = as_map d (KXlogEntry c t r x y)"
    using assms(1) valid_edge_keys[OF v] by (simp add: committed_def)
  then show "kview (db s') (KXlogEntry c t r x y) =
     (if (c, t, r, x, y) = (em_cell_id m, em_edge_type m, seq s + 1, em_src m, em_dst m) \<and> (((x, y) \<in> graph_of s c t) \<noteq> e)
      then Some (xlog_value e) else kview (db s) (KXlogEntry c t r x y))" unfolding assms(2) .
qed

lemma write_locked_log:
  assumes run: "write_edge_txn_locked_with_metadata map_ops sh m us em oper s = (r, s')" and inv: "store_inv sh z s"
    and v: "valid_mutation m" "wf_updates us" "wf_edge_metadata em" and oper: "oper \<noteq> ''drop_cell''"
  shows "unchanged s s' \<or> seq s \<noteq> - 1 \<and> logged_step m True s s'"
proof -
  let ?vis = "edge_visible (db s) (em_cell_id m) (em_edge_type m) (em_src m) (seq s) (em_dst m)"
  have vis: "?vis \<longleftrightarrow> (em_src m, em_dst m) \<in> graph_of s (em_cell_id m) (em_edge_type m)"
    by (simp add: edge_visible_in graph_of_def edges_in_def)
  have wf: "wf_store (db s)" using inv by (simp add: store_inv_def)
  from write_locked_outcome[OF run wf v oper] show ?thesis
  proof (elim disjE exE conjE)
    fix res assume q: "seq s \<noteq> - 1" and com: "committed is_meta (put_as (idem_create m) (encode_commit_idempotency m res)
         (if ?vis then opened s else insert_as sh m (seq s + 1) (opened s))) s'"
    have "logged_step m True s s'"
      by (rule committed_log[OF com]) (auto simp: idem_create_def insert_as_map vis)
    then show ?thesis using q by simp
  qed simp
qed

lemma delete_locked_log:
  assumes run: "delete_edge_txn_locked map_ops sh m s = (r, s')" and inv: "store_inv sh z s" and v: "valid_mutation m"
  shows "unchanged s s' \<or> seq s \<noteq> - 1 \<and> logged_step m False s s'"
proof -
  let ?c = "em_cell_id m" and ?t = "em_edge_type m" and ?x = "em_src m" and ?y = "em_dst m" and ?f = "as_map (opened s)" and ?q = "as_seq (opened s)"
  have wf: "wf_store (db s)" and g: "graph_inv sh z ?f ?q" using inv by (simp_all add: store_inv_def)
  have i: "type_inv (writes_reverse_index sh) z ?f ?q ?c ?t" using g v by (simp add: graph_inv_def valid_mutation_def)
  have bt: "bounded_tombstone (opened s) m" using boundedD(2)[OF type_invD(1)[OF i]] by (simp add: bounded_tombstone_def)
  have noseg: "\<not> segment_in ?f ?c ?t ?x ?q ?y r" if "writes_reverse_index sh" for r
    using type_invD(5)[OF i that] unfolding mirrored_def segment_in_def by auto
  have there: "(?x, ?y) \<in> graph_of s ?c ?t \<longleftrightarrow> ?f (KOutEdge ?c ?t ?x ?y) \<noteq> None \<or> (\<exists>r. segment_in ?f ?c ?t ?x ?q ?y r)"
    by (simp add: graph_of_def edges_in_def visible_in_def)
  from delete_locked_outcome[OF run wf v bt] show ?thesis
  proof (elim disjE conjE)
    assume q: "seq s \<noteq> - 1" and com: "committed is_meta (after_delete sh m (opened s)) s'"
    have "logged_step m False s s'"
    proof (rule committed_log[OF com])
      fix c t r x y
      have idem: "as_map (after_delete sh m (opened s)) (KXlogEntry c t r x y) =
          as_map (case delete_effect sh m (opened s) of None \<Rightarrow> opened s | Some b \<Rightarrow> b) (KXlogEntry c t r x y)"
        by (simp add: after_delete_def idem_delete_def)
      consider (direct) "?f (KOutEdge ?c ?t ?x ?y) \<noteq> None" | (segment) "?f (KOutEdge ?c ?t ?x ?y) = None" "\<not> writes_reverse_index sh" "\<exists>r. segment_in ?f ?c ?t ?x ?q ?y r"
        | (absent) "(?x, ?y) \<notin> graph_of s ?c ?t" using noseg there by blast
      then show "as_map (after_delete sh m (opened s)) (KXlogEntry c t r x y) =
         (if (c, t, r, x, y) = (?c, ?t, seq s + 1, ?x, ?y) \<and> ((x, y) \<in> graph_of s c t) \<noteq> False
          then Some (xlog_value False) else kview (db s) (KXlogEntry c t r x y))"
      proof cases
        case direct
        then show ?thesis unfolding idem using there by (auto simp: delete_effect_def Let_def delete_direct_map)
      next
        case segment
        then show ?thesis unfolding idem using there by (auto simp: delete_effect_def Let_def delete_segment_map)
      next
        case absent
        then have "delete_effect sh m (opened s) = None" using there by (auto simp: delete_effect_def Let_def)
        then show ?thesis unfolding idem using absent by auto
      qed
    qed
    then show ?thesis using q by simp
  qed simp
qed

text \<open>The observation of a graph at a sequence, and the log that accounts for the graph ever since.\<close>

definition since_inv ::
    "shard_env \<Rightarrow> vertex_id \<Rightarrow> storage_sequence \<Rightarrow> (string \<Rightarrow> string \<Rightarrow> (vertex_id \<times> vertex_id) set) \<Rightarrow> map_txn shard_state \<Rightarrow> bool" where
  "since_inv sh z q0 G0 s \<longleftrightarrow> store_inv sh z s \<and> q0 \<le> seq s \<and> (\<forall>c t. valid_component c \<longrightarrow> valid_component t \<longrightarrow>
     accounts (kview (db s)) c t q0 (seq s) (G0 c t) (graph_of s c t))"

lemma since_inv_start: "store_inv sh z s \<Longrightarrow> since_inv sh z (seq s) (graph_of s) s"
  by (simp add: since_inv_def accounts_start)

lemma since_inv_unchanged: "unchanged s s' \<Longrightarrow> since_inv sh z q0 G0 s \<Longrightarrow> since_inv sh z q0 G0 s'"
  using unchanged_inv[of s s'] by (simp add: since_inv_def same_store_def)

lemma since_bounded: "since_inv sh z q0 G0 s \<Longrightarrow> valid_component c \<Longrightarrow> valid_component t \<Longrightarrow> bounded (kview (db s)) (seq s) c t"
  by (simp add: since_inv_def store_inv_def graph_inv_def type_inv_def)

lemma since_inv_step:
  assumes inv: "since_inv sh z q0 G0 s" and s': "store_inv sh z s'" "seq s' = seq s + 1" "seq s \<noteq> - 1"
    and log: "logged_step m e s s'"
    and graph: "\<And>c t. valid_component c \<Longrightarrow> valid_component t \<Longrightarrow> graph_of s' c t =
      (if (c, t) = mutation_type m then {p. if p = (em_src m, em_dst m) then e else p \<in> graph_of s c t} else graph_of s c t)"
  shows "since_inv sh z q0 G0 s'"
proof -
  have le: "seq s \<le> seq s + 1" by (rule u64_le_add_one[OF s'(3)]) simp
  have "accounts (kview (db s')) c t q0 (seq s') (G0 c t) (graph_of s' c t)" if v: "valid_component c" "valid_component t" for c t
  proof -
    have acc: "accounts (kview (db s)) c t q0 (seq s) (G0 c t) (graph_of s c t)" and q0: "q0 \<le> seq s"
      using inv v by (simp_all add: since_inv_def)
    note L = log[unfolded logged_step_def, rule_format, OF v]
    show ?thesis
    proof (cases "(c, t) = mutation_type m \<and> ((em_src m, em_dst m) \<in> graph_of s c t) \<noteq> e")
      case True
      show ?thesis unfolding s'(2)
        by (rule accounts_log[OF acc since_bounded[OF inv v] q0 s'(3), where x = "em_src m" and y = "em_dst m" and e = e])
          (use True L graph[OF v] in auto)
    next
      case False
      then have same: "graph_of s' c t = graph_of s c t" using graph[OF v] by (cases "(c, t) = mutation_type m") auto
      show ?thesis unfolding s'(2) same
        by (rule accounts_keep[OF acc since_bounded[OF inv v] le]) (use False L in auto)
    qed
  qed
  then show ?thesis using s' inv le by (auto simp: since_inv_def intro: order_trans)
qed

lemma since_inv_write:
  assumes "valid_mutation m" "wf_updates us" "wf_edge_metadata em" "oper \<noteq> ''drop_cell''" "em_src m \<noteq> z" "em_dst m \<noteq> z"
    and inv: "since_inv sh z q0 G0 s" and run: "write_edge_txn_locked_with_metadata map_ops sh m us em oper s = (r, s')"
  shows "since_inv sh z q0 G0 s'"
proof (cases "unchanged s s'")
  case True
  then show ?thesis using inv by (rule since_inv_unchanged)
next
  case False
  have s: "store_inv sh z s" using inv by (simp add: since_inv_def)
  have q: "seq s \<noteq> - 1" "logged_step m True s s'" using write_locked_log[OF run s assms(1-4)] False by simp_all
  have st: "store_inv sh z s'" "graph_step add_edge m s s'" using write_locked_step[OF run s assms(1-6)] False by auto
  show ?thesis
    by (rule since_inv_step[OF inv st(1) _ q]) (use st(2) in \<open>auto simp: graph_step_def add_edge_def\<close>)
qed

lemma since_inv_delete:
  assumes "valid_mutation m" and inv: "since_inv sh z q0 G0 s" and run: "delete_edge_txn_locked map_ops sh m s = (r, s')"
  shows "since_inv sh z q0 G0 s'"
proof (cases "unchanged s s'")
  case True
  then show ?thesis using inv by (rule since_inv_unchanged)
next
  case False
  have s: "store_inv sh z s" using inv by (simp add: since_inv_def)
  have q: "seq s \<noteq> - 1" "logged_step m False s s'" using delete_locked_log[OF run s assms(1)] False by simp_all
  have st: "store_inv sh z s'" "graph_step drop_edge m s s'" using delete_locked_step[OF run s assms(1)] False by auto
  show ?thesis
    by (rule since_inv_step[OF inv st(1) _ q]) (use st(2) in \<open>auto simp: graph_step_def drop_edge_def\<close>)
qed

end
