(* ===== verification/Index_Codec.thy ===== *)
theory Index_Codec
  imports Changelog Rust_Hash
begin

text \<open>
  The encodings of a published index, \<^verbatim>\<open>src/engine/index_store.rs\<close>, with the checksum and the validation of a
  compressed matrix from \<^verbatim>\<open>src/engine.rs\<close>: the payload object (a magic, three little-endian integers and three
  counted arrays), the manifest (a tab-separated line) and the object paths. The decoders read at a cursor; the locale
  \<open>cursor_codec\<close> says what a cursor reader and its encoder promise each other. SHA-256 and the conversion of a string
  to an object path are library code and parameters. \<^verbatim>\<open>usize\<close> is 64 bits wide.
\<close>

subsection \<open>Little-endian integers\<close>

definition to_le_bytes :: "u64 \<Rightarrow> bytes" where
  "to_le_bytes w = rev (to_be_bytes w)"

definition from_le_bytes :: "bytes \<Rightarrow> u64" where
  "from_le_bytes bs = from_be_bytes (rev bs)"

lemma length_to_le_bytes [simp]: "length (to_le_bytes w) = 8"
  by (simp add: to_le_bytes_def)

lemma from_to_le_bytes [simp]: "from_le_bytes (to_le_bytes w) = w"
  by (simp add: from_le_bytes_def to_le_bytes_def)

lemma to_from_le_bytes: "length bs = 8 \<Longrightarrow> to_le_bytes (from_le_bytes bs) = bs"
  by (simp add: from_le_bytes_def to_le_bytes_def to_from_be_bytes)

text \<open>A slice of a value, absent when it is out of range, and bounded sums of positions.\<close>

definition slice_get :: "bytes \<Rightarrow> nat \<Rightarrow> nat \<Rightarrow> bytes option" where
  "slice_get value a b = (if a \<le> b \<and> b \<le> length value then Some (take (b - a) (drop a value)) else None)"

definition usize_saturating_add :: "nat \<Rightarrow> nat \<Rightarrow> nat" where
  "usize_saturating_add a b = (if a + b < 2 ^ 64 then a + b else 2 ^ 64 - 1)"

definition usize_checked :: "nat \<Rightarrow> nat option" where
  "usize_checked n = (if n < 2 ^ 64 then Some n else None)"

subsection \<open>Checksum and validation of a matrix\<close>

definition corrupt :: "string \<Rightarrow> string \<Rightarrow> 'a result" where
  "corrupt key reason = Inl (CorruptValue key reason)"

definition validate_graphblas_csc_artifact :: "string \<Rightarrow> graph_blas_csc \<Rightarrow> unit result" where
  "validate_graphblas_csc_artifact key csc =
     (if length (gb_pointers csc) \<noteq> length (gb_vertices csc) + 1 then
        corrupt key ''CSC pointer count does not match vertex count''
      else if gb_pointers csc = [] \<or> gb_pointers csc ! 0 \<noteq> 0 then corrupt key ''CSC first pointer must be zero''
      else if \<not> windows_all (\<le>) (gb_pointers csc) then corrupt key ''CSC pointers must be monotonic''
      else if unat (last_or_zero (gb_pointers csc)) \<noteq> length (gb_indices csc) then
        corrupt key ''CSC edge count does not match index count''
      else case find (\<lambda>index. length (gb_vertices csc) \<le> unat index) (gb_indices csc) of
        Some index \<Rightarrow> corrupt key (''CSC index '' @ fmt_u64 index @ '' exceeds vertex count'')
      | None \<Rightarrow>
          if \<not> windows_all (<) (gb_vertices csc) then corrupt key ''CSC vertices must be sorted and unique''
          else Inr ())"

definition checksum_u64 :: "u64 \<Rightarrow> u64 \<Rightarrow> u64" where
  "checksum_u64 value hash = fold fnv_step (to_le_bytes value) hash"

definition graphblas_csc_checksum :: "graph_blas_csc \<Rightarrow> u64" where
  "graphblas_csc_checksum csc =
     (let hash = fnv_offset;
          hash = checksum_u64 1 hash;
          hash = fold checksum_u64 (gb_vertices csc) hash;
          hash = checksum_u64 2 hash;
          hash = fold checksum_u64 (gb_pointers csc) hash;
          hash = checksum_u64 3 hash
      in fold checksum_u64 (gb_indices csc) hash)"

subsection \<open>The payload\<close>

definition INDEX_CSC_MAGIC :: bytes where
  "INDEX_CSC_MAGIC = ''hydradb-index-csc-v1'' @ [NUL]"

definition encode_index_u64s :: "u64 list \<Rightarrow> bytes" where
  "encode_index_u64s values = to_le_bytes (word_of_nat (length values)) @ concat (map to_le_bytes values)"

definition encode_graph_index_csc :: "u64 \<Rightarrow> u64 \<Rightarrow> u64 \<Rightarrow> graph_blas_csc \<Rightarrow> bytes" where
  "encode_graph_index_csc base_sequence last_wal_id checksum csc =
     INDEX_CSC_MAGIC @ to_le_bytes base_sequence @ to_le_bytes last_wal_id @ to_le_bytes checksum
     @ encode_index_u64s (gb_vertices csc) @ encode_index_u64s (gb_pointers csc) @ encode_index_u64s (gb_indices csc)"

definition decode_index_u64 :: "string \<Rightarrow> string \<Rightarrow> bytes \<Rightarrow> nat \<Rightarrow> (u64 \<times> nat) result" where
  "decode_index_u64 key field value cursor =
     (let stop = usize_saturating_add cursor 8 in
      case slice_get value cursor stop of
        None \<Rightarrow> corrupt key (''truncated '' @ field)
      | Some bytes \<Rightarrow> Inr (from_le_bytes bytes, stop))"

definition decode_index_u64s :: "string \<Rightarrow> string \<Rightarrow> bytes \<Rightarrow> nat \<Rightarrow> (u64 list \<times> nat) result" where
  "decode_index_u64s key field value cursor =
     rbind (decode_index_u64 key field value cursor) (\<lambda>(len, cursor).
     rbind (ok_or (CorruptValue key (field @ '' byte length overflow'')) (usize_checked (unat len * 8))) (\<lambda>byte_len.
     rbind (ok_or (CorruptValue key (field @ '' cursor overflow'')) (usize_checked (cursor + byte_len))) (\<lambda>stop.
       case slice_get value cursor stop of
         None \<Rightarrow> corrupt key (''truncated '' @ field)
       | Some bytes \<Rightarrow> Inr (map from_le_bytes (chunks_exact8 bytes), stop))))"

definition decode_graph_index_csc :: "string \<Rightarrow> bytes \<Rightarrow> u64 \<Rightarrow> u64 \<Rightarrow> u64 \<Rightarrow> graph_blas_csc result" where
  "decode_graph_index_csc key value expected_sequence expected_wal_id expected_checksum =
     (if \<not> starts_with INDEX_CSC_MAGIC value then corrupt key ''expected hydradb index CSC v1 payload''
      else
        rbind (decode_index_u64 key ''base_sequence'' value (length INDEX_CSC_MAGIC)) (\<lambda>(base_sequence, cursor).
        rbind (decode_index_u64 key ''last_wal_id'' value cursor) (\<lambda>(last_wal_id, cursor).
        rbind (decode_index_u64 key ''checksum'' value cursor) (\<lambda>(checksum, cursor).
          if (base_sequence, last_wal_id, checksum) \<noteq> (expected_sequence, expected_wal_id, expected_checksum) then
            corrupt key ''index CSC identity does not match manifest''
          else
            rbind (decode_index_u64s key ''vertices'' value cursor) (\<lambda>(vertices, cursor).
            rbind (decode_index_u64s key ''pointers'' value cursor) (\<lambda>(pointers, cursor).
            rbind (decode_index_u64s key ''indices'' value cursor) (\<lambda>(indices, cursor).
              let csc = \<lparr>gb_vertices = vertices, gb_pointers = pointers, gb_indices = indices\<rparr> in
              if cursor \<noteq> length value then corrupt key ''trailing bytes in index CSC payload''
              else
                rbind (validate_graphblas_csc_artifact key csc) (\<lambda>_.
                  if graphblas_csc_checksum csc \<noteq> checksum then corrupt key ''index CSC checksum mismatch''
                  else Inr csc))))))))"

subsection \<open>The manifest and the object paths\<close>

definition INDEX_MANIFEST_MAGIC :: string where
  "INDEX_MANIFEST_MAGIC = ''hydradb-index-current-v1''"

definition encode_graph_index_manifest :: "graph_index_generation \<Rightarrow> bytes" where
  "encode_graph_index_manifest manifest =
     tab_record [INDEX_MANIFEST_MAGIC, gi_cell_id manifest, gi_edge_type manifest, fmt_u64 (gi_base_sequence manifest),
       fmt_u64 (gi_last_wal_id manifest), fmt_u64 (gi_edge_count manifest), fmt_u64 (gi_checksum manifest), gi_generation manifest]"

definition is_ascii_hexdigit :: "char \<Rightarrow> bool" where
  "is_ascii_hexdigit c \<longleftrightarrow> (let n = of_char c :: nat in 48 \<le> n \<and> n \<le> 57 \<or> 65 \<le> n \<and> n \<le> 70 \<or> 97 \<le> n \<and> n \<le> 102)"

definition decode_graph_index_manifest :: "string \<Rightarrow> bytes \<Rightarrow> graph_index_generation result" where
  "decode_graph_index_manifest key value =
     rbind (record_parts key value) (\<lambda>fs.
       case fs of
         [magic, cell_id, edge_type, base_sequence, last_wal_id, edge_count, checksum, generation] \<Rightarrow>
           if magic \<noteq> INDEX_MANIFEST_MAGIC then corrupt key ''expected hydradb index current v1 manifest''
           else
             rbind (validate_component ''cell_id'' cell_id) (\<lambda>_.
             rbind (validate_component ''edge_type'' edge_type) (\<lambda>_.
               if length generation \<noteq> 64 \<or> \<not> list_all is_ascii_hexdigit generation then
                 corrupt key ''index generation must be a SHA-256 digest''
               else
                 rbind (parse_u64 key base_sequence ''base_sequence'') (\<lambda>base_sequence.
                 rbind (parse_u64 key last_wal_id ''last_wal_id'') (\<lambda>last_wal_id.
                 rbind (parse_u64 key edge_count ''edge_count'') (\<lambda>edge_count.
                 rbind (parse_u64 key checksum ''checksum'') (\<lambda>checksum.
                   Inr \<lparr>gi_cell_id = cell_id, gi_edge_type = edge_type, gi_base_sequence = base_sequence,
                        gi_last_wal_id = last_wal_id, gi_edge_count = edge_count, gi_checksum = checksum,
                        gi_generation = generation\<rparr>))))))
       | _ \<Rightarrow> corrupt key ''expected hydradb index current v1 manifest'')"

definition sha256_hex :: "(bytes \<Rightarrow> bytes) \<Rightarrow> bytes \<Rightarrow> string" where
  "sha256_hex sha256 value = hex_encode (sha256 value)"

definition graph_index_root :: "string \<Rightarrow> string" where
  "graph_index_root store_path = store_path @ ''/_graph_index''"

definition graph_index_manifest_path :: "(string \<Rightarrow> string) \<Rightarrow> string \<Rightarrow> string \<Rightarrow> string \<Rightarrow> string" where
  "graph_index_manifest_path into store_path cell_id edge_type =
     into (graph_index_root store_path @ ''/'' @ cell_id @ ''/'' @ edge_type @ ''/current'')"

definition graph_index_generation_path ::
    "(string \<Rightarrow> string) \<Rightarrow> string \<Rightarrow> string \<Rightarrow> string \<Rightarrow> storage_sequence \<Rightarrow> string \<Rightarrow> string" where
  "graph_index_generation_path into store_path cell_id edge_type base_sequence generation =
     into (graph_index_root store_path @ ''/'' @ cell_id @ ''/'' @ edge_type @ ''/generations/'' @ fmt_020 base_sequence
       @ ''-'' @ generation @ ''.csc'')"

definition graph_index_generations_prefix :: "(string \<Rightarrow> string) \<Rightarrow> string \<Rightarrow> string \<Rightarrow> string \<Rightarrow> string" where
  "graph_index_generations_prefix into store_path cell_id edge_type =
     into (graph_index_root store_path @ ''/'' @ cell_id @ ''/'' @ edge_type @ ''/generations'')"

definition is_ascii_digit :: "char \<Rightarrow> bool" where
  "is_ascii_digit c \<longleftrightarrow> (let n = of_char c :: nat in 48 \<le> n \<and> n \<le> 57)"

definition graph_index_sequence_from_path :: "string \<Rightarrow> storage_sequence result" where
  "graph_index_sequence_from_path key =
     (let file_name = last (split_on SLASH key) in
      rbind (ok_or (CorruptValue key ''index generation key is missing its sequence prefix'') (split_once (CHR ''-'') file_name)) (\<lambda>(sequence, _).
        if length sequence \<noteq> 20 \<or> \<not> list_all is_ascii_digit sequence then
          corrupt key ''index generation sequence must be a 20-digit decimal prefix''
        else parse_u64 key sequence ''base_sequence''))"

subsection \<open>Readers at a cursor\<close>

text \<open>A byte vector is at most \<open>isize::MAX\<close> long.\<close>

locale cursor_codec =
  fixes rd :: "bytes \<Rightarrow> nat \<Rightarrow> ('a \<times> nat) result"
    and enc :: "'a \<Rightarrow> bytes"
    and fits :: "'a \<Rightarrow> bool"
  assumes read_enc: "fits x \<Longrightarrow> length (pre @ enc x @ post) < 2 ^ 63 \<Longrightarrow>
      rd (pre @ enc x @ post) (length pre) = Inr (x, length (pre @ enc x))"
    and read_sound: "rd v c = Inr (x, c') \<Longrightarrow> c \<le> length v \<Longrightarrow> length v < 2 ^ 63 \<Longrightarrow>
      fits x \<and> drop c v = enc x @ drop c' v \<and> c' \<le> length v"
begin

lemma read_at:
  assumes "drop c v = enc x @ rest" "c \<le> length v" "length v < 2 ^ 63" "fits x"
  shows "rd v c = Inr (x, c + length (enc x)) \<and> drop (c + length (enc x)) v = rest \<and> c + length (enc x) \<le> length v"
proof -
  have v: "v = take c v @ enc x @ rest" using assms(1) append_take_drop_id[of c v] by simp
  have "rd (take c v @ enc x @ rest) (length (take c v)) = Inr (x, length (take c v @ enc x))"
    by (rule read_enc[OF assms(4)]) (use assms(3) v in simp)
  then have rd: "rd v c = Inr (x, c + length (enc x))" using v[symmetric] assms(2) by simp
  have "length v - c = length (enc x) + length rest" using arg_cong[OF assms(1), of length] by simp
  moreover have "drop (c + length (enc x)) v = rest" using arg_cong[OF assms(1), of "drop (length (enc x))"] by (simp add: add.commute)
  ultimately show ?thesis using rd assms(2) by linarith
qed

end

lemma slice_get_append: "slice_get (pre @ bs @ post) (length pre) (length pre + length bs) = Some bs"
  by (simp add: slice_get_def)

lemma slice_get_sound:
  assumes "slice_get v a b = Some bs"
  shows "drop a v = bs @ drop b v \<and> b \<le> length v \<and> a \<le> b \<and> length bs = b - a"
proof -
  have ab: "a \<le> b" "b \<le> length v" and bs: "bs = take (b - a) (drop a v)" using assms by (auto simp: slice_get_def split: if_splits)
  have "drop a v = take (b - a) (drop a v) @ drop (b - a) (drop a v)" by (rule append_take_drop_id[symmetric])
  also have "drop (b - a) (drop a v) = drop b v" using ab(1) by simp
  finally show ?thesis using ab bs by simp
qed

lemma small_sum: "c \<le> n \<Longrightarrow> n < 2 ^ 63 \<Longrightarrow> c + 8 < (2 ^ 64 :: nat)"
  by simp

interpretation index_u64: cursor_codec "decode_index_u64 key field" to_le_bytes "\<lambda>_. True" for key field
proof
  fix x pre post assume "length (pre @ to_le_bytes x @ post) < 2 ^ 63"
  then have "length pre + 8 < 2 ^ 64" by simp
  then show "decode_index_u64 key field (pre @ to_le_bytes x @ post) (length pre) = Inr (x, length (pre @ to_le_bytes x))"
    using slice_get_append[of pre "to_le_bytes x" post] by (simp add: decode_index_u64_def usize_saturating_add_def)
next
  fix v c x c' assume r: "decode_index_u64 key field v c = Inr (x, c')" and c: "c \<le> length v" "length v < 2 ^ 63"
  have end8: "usize_saturating_add c 8 = c + 8" using small_sum[OF c] by (simp add: usize_saturating_add_def)
  obtain bs where bs: "slice_get v c (c + 8) = Some bs" "x = from_le_bytes bs" "c' = c + 8"
    using r unfolding decode_index_u64_def Let_def end8 by (auto simp: corrupt_def split: option.splits)
  then show "True \<and> drop c v = to_le_bytes x @ drop c' v \<and> c' \<le> length v"
    using slice_get_sound[OF bs(1)] to_from_le_bytes[of bs] by simp
qed

lemma le_chunks: "map from_le_bytes (chunks_exact8 (concat (map to_le_bytes ds))) = ds"
  by (induction ds) (simp_all add: chunks_exact8.simps)

lemma length_le_concat [simp]: "length (concat (map to_le_bytes ds)) = 8 * length ds"
  by (induction ds) simp_all

lemma le_unchunk:
  assumes "length bs = 8 * n"
  shows "concat (map to_le_bytes (map from_le_bytes (chunks_exact8 bs))) = bs \<and> length (chunks_exact8 bs) = n"
proof -
  note ch = concat_chunks[OF assms]
  have "map to_le_bytes (map from_le_bytes (chunks_exact8 bs)) = chunks_exact8 bs"
    unfolding map_map comp_def by (rule map_idI) (use ch in \<open>simp add: to_from_le_bytes\<close>)
  then show ?thesis using ch by simp
qed

definition array_fits :: "u64 list \<Rightarrow> bool" where
  "array_fits values \<longleftrightarrow> length values < 2 ^ 60"

lemma decode_index_u64s_cases:
  assumes "decode_index_u64s key field v c = Inr (x, c')"
  obtains w c1 bs where "decode_index_u64 key field v c = Inr (w, c1)" "c' = c1 + unat w * 8" "slice_get v c1 c' = Some bs"
    "x = map from_le_bytes (chunks_exact8 bs)"
proof -
  obtain w c1 where one: "decode_index_u64 key field v c = Inr (w, c1)" using assms by (auto simp: decode_index_u64s_def rbind_Inr_iff)
  show ?thesis
  proof (cases "usize_checked (unat w * 8)")
    case None
    then show ?thesis using assms one by (simp add: decode_index_u64s_def ok_or_def)
  next
    case (Some bl)
    show ?thesis
    proof (cases "usize_checked (c1 + bl)")
      case None
      then show ?thesis using assms one Some by (simp add: decode_index_u64s_def ok_or_def)
    next
      case st: (Some stop)
      have e: "bl = unat w * 8" "stop = c1 + bl" using Some st by (simp_all add: usize_checked_def split: if_splits)
      have run: "(case slice_get v c1 stop of None \<Rightarrow> corrupt key (''truncated '' @ field)
          | Some bytes \<Rightarrow> Inr (map from_le_bytes (chunks_exact8 bytes), stop)) = Inr (x, c')"
        using assms one Some st by (simp add: decode_index_u64s_def ok_or_def)
      show ?thesis
      proof (cases "slice_get v c1 stop")
        case None
        then show ?thesis using run by (simp add: corrupt_def)
      next
        case sl: (Some bs)
        then show ?thesis using run e by (intro that[OF one, of bs]) simp_all
      qed
    qed
  qed
qed

lemma index_u64s_read:
  assumes fit: "array_fits x" and len: "length (pre @ encode_index_u64s x @ post) < 2 ^ 63"
  shows "decode_index_u64s key field (pre @ encode_index_u64s x @ post) (length pre) = Inr (x, length (pre @ encode_index_u64s x))"
proof -
  let ?v = "pre @ encode_index_u64s x @ post" and ?pre = "pre @ to_le_bytes (word_of_nat (length x))" and ?bs = "concat (map to_le_bytes x)"
  have v: "?v = pre @ to_le_bytes (word_of_nat (length x)) @ (?bs @ post)" by (simp add: encode_index_u64s_def)
  have v2: "?v = ?pre @ ?bs @ post" by (simp add: encode_index_u64s_def)
  have lt: "length x < 2 ^ 64" using fit by (simp add: array_fits_def)
  have n: "unat (word_of_nat (length x) :: u64) = length x" using lt by (simp add: unat_of_nat)
  have one: "decode_index_u64 key field ?v (length pre) = Inr (word_of_nat (length x), length ?pre)"
    unfolding v by (rule index_u64.read_enc[OF TrueI]) (use len in \<open>simp add: encode_index_u64s_def\<close>)
  have total: "length ?pre + length x * 8 < 2 ^ 63" using len by (simp add: encode_index_u64s_def)
  have c: "usize_checked (length x * 8) = Some (length x * 8)" "usize_checked (length ?pre + length x * 8) = Some (length ?pre + length x * 8)"
    using total by (simp_all add: usize_checked_def)
  have "slice_get ?v (length ?pre) (length ?pre + length x * 8) = Some ?bs"
    unfolding v2 using slice_get_append[of ?pre ?bs post] by (simp add: mult.commute)
  then have "decode_index_u64s key field ?v (length pre) = Inr (map from_le_bytes (chunks_exact8 ?bs), length ?pre + length x * 8)"
    unfolding decode_index_u64s_def one rbind.simps prod.case n c ok_or_def option.case by simp
  then show ?thesis unfolding le_chunks by (simp add: encode_index_u64s_def)
qed

lemma index_u64s_sound:
  assumes r: "decode_index_u64s key field v c = Inr (x, c')" and c: "c \<le> length v" "length v < 2 ^ 63"
  shows "array_fits x \<and> drop c v = encode_index_u64s x @ drop c' v \<and> c' \<le> length v"
proof -
  obtain w c1 bs where d: "decode_index_u64 key field v c = Inr (w, c1)" "c' = c1 + unat w * 8" "slice_get v c1 c' = Some bs"
    "x = map from_le_bytes (chunks_exact8 bs)" by (rule decode_index_u64s_cases[OF r])
  note s1 = index_u64.read_sound[OF d(1) c] and s2 = slice_get_sound[OF d(3)]
  have len: "length bs = 8 * unat w" using s2 d(2) by simp
  note ch = le_unchunk[OF len]
  have n: "length x = unat w" using ch d(4) by simp
  have "unat w * 8 \<le> length v" using s2 d(2) by linarith
  then have "unat w < 2 ^ 60" using c(2) by simp
  moreover have "encode_index_u64s x = to_le_bytes w @ bs" using ch d(4) n by (simp add: encode_index_u64s_def)
  ultimately show ?thesis using s1 s2 n by (simp add: array_fits_def)
qed

interpretation index_u64s: cursor_codec "decode_index_u64s key field" encode_index_u64s array_fits for key field
  by unfold_locales (rule index_u64s_read, assumption+, rule index_u64s_sound)

subsection \<open>Exactness of the payload codec\<close>

definition csc_fits :: "graph_blas_csc \<Rightarrow> bool" where
  "csc_fits csc \<longleftrightarrow> array_fits (gb_vertices csc) \<and> array_fits (gb_pointers csc) \<and> array_fits (gb_indices csc)"

lemma decode_payload_encode:
  assumes len: "length (encode_graph_index_csc q w k csc) < 2 ^ 63" and fit: "csc_fits csc"
    and ok: "validate_graphblas_csc_artifact key csc = Inr ()" "graphblas_csc_checksum csc = k"
  shows "decode_graph_index_csc key (encode_graph_index_csc q w k csc) q w k = Inr csc"
proof -
  let ?v = "encode_graph_index_csc q w k csc" and ?c = "length INDEX_CSC_MAGIC"
  have st: "starts_with INDEX_CSC_MAGIC ?v" by (simp add: encode_graph_index_csc_def starts_with_def)
  have d0: "drop ?c ?v = to_le_bytes q @ to_le_bytes w @ to_le_bytes k @ encode_index_u64s (gb_vertices csc) @ encode_index_u64s (gb_pointers csc) @ encode_index_u64s (gb_indices csc)"
    "?c \<le> length ?v" by (simp_all add: encode_graph_index_csc_def)
  note f = fit[unfolded csc_fits_def, THEN conjunct1] fit[unfolded csc_fits_def, THEN conjunct2, THEN conjunct1] fit[unfolded csc_fits_def, THEN conjunct2, THEN conjunct2]
  note r1 = index_u64.read_at[OF d0 len TrueI, of key "''base_sequence''"]
  note r2 = index_u64.read_at[OF r1[THEN conjunct2, THEN conjunct1] r1[THEN conjunct2, THEN conjunct2] len TrueI, of key "''last_wal_id''"]
  note r3 = index_u64.read_at[OF r2[THEN conjunct2, THEN conjunct1] r2[THEN conjunct2, THEN conjunct2] len TrueI, of key "''checksum''"]
  note r4 = index_u64s.read_at[OF r3[THEN conjunct2, THEN conjunct1] r3[THEN conjunct2, THEN conjunct2] len f(1), of key "''vertices''"]
  note r5 = index_u64s.read_at[OF r4[THEN conjunct2, THEN conjunct1] r4[THEN conjunct2, THEN conjunct2] len f(2), of key "''pointers''"]
  have d5: "drop (?c + length (to_le_bytes q) + length (to_le_bytes w) + length (to_le_bytes k) + length (encode_index_u64s (gb_vertices csc))
      + length (encode_index_u64s (gb_pointers csc))) ?v = encode_index_u64s (gb_indices csc) @ []" using r5 by simp
  note r6 = index_u64s.read_at[OF d5 r5[THEN conjunct2, THEN conjunct2] len f(3), of key "''indices''"]
  let ?fin = "?c + length (to_le_bytes q) + length (to_le_bytes w) + length (to_le_bytes k) + length (encode_index_u64s (gb_vertices csc))
      + length (encode_index_u64s (gb_pointers csc)) + length (encode_index_u64s (gb_indices csc))"
  have stop: "?fin = length ?v" by (simp add: encode_graph_index_csc_def)
  have csc: "\<lparr>gb_vertices = gb_vertices csc, gb_pointers = gb_pointers csc, gb_indices = gb_indices csc\<rparr> = csc" by simp
  show ?thesis
    unfolding decode_graph_index_csc_def r1[THEN conjunct1] r2[THEN conjunct1] r3[THEN conjunct1] r4[THEN conjunct1] r5[THEN conjunct1] r6[THEN conjunct1]
      rbind.simps prod.case Let_def csc stop ok(1)
    using st ok(2) by simp
qed

lemma decode_payload_sound:
  assumes dec: "decode_graph_index_csc key v q w k = Inr csc" and len: "length v < 2 ^ 63"
  shows "v = encode_graph_index_csc q w k csc" "csc_fits csc" "validate_graphblas_csc_artifact key csc = Inr ()" "graphblas_csc_checksum csc = k"
proof -
  let ?c = "length INDEX_CSC_MAGIC"
  have st: "starts_with INDEX_CSC_MAGIC v" using dec by (auto simp: decode_graph_index_csc_def corrupt_def split: if_splits)
  obtain q' c1 where r1: "decode_index_u64 key ''base_sequence'' v ?c = Inr (q', c1)"
    using dec st by (auto simp: decode_graph_index_csc_def rbind_Inr_iff)
  obtain w' c2 where r2: "decode_index_u64 key ''last_wal_id'' v c1 = Inr (w', c2)"
    using dec st r1 by (auto simp: decode_graph_index_csc_def rbind_Inr_iff)
  obtain k' c3 where r3: "decode_index_u64 key ''checksum'' v c2 = Inr (k', c3)"
    using dec st r1 r2 by (auto simp: decode_graph_index_csc_def rbind_Inr_iff)
  have id: "q' = q" "w' = w" "k' = k" using dec st r1 r2 r3 by (auto simp: decode_graph_index_csc_def corrupt_def split: if_splits)
  obtain vs c4 where r4: "decode_index_u64s key ''vertices'' v c3 = Inr (vs, c4)"
    using dec st r1 r2 r3 id by (auto simp: decode_graph_index_csc_def rbind_Inr_iff)
  obtain ps c5 where r5: "decode_index_u64s key ''pointers'' v c4 = Inr (ps, c5)"
    using dec st r1 r2 r3 r4 id by (auto simp: decode_graph_index_csc_def rbind_Inr_iff)
  obtain js c6 where r6: "decode_index_u64s key ''indices'' v c5 = Inr (js, c6)"
    using dec st r1 r2 r3 r4 r5 id by (auto simp: decode_graph_index_csc_def rbind_Inr_iff)
  let ?csc = "\<lparr>gb_vertices = vs, gb_pointers = ps, gb_indices = js\<rparr>"
  have rest: "(if c6 \<noteq> length v then corrupt key ''trailing bytes in index CSC payload''
      else rbind (validate_graphblas_csc_artifact key ?csc) (\<lambda>_.
        if graphblas_csc_checksum ?csc \<noteq> k then corrupt key ''index CSC checksum mismatch'' else Inr ?csc)) = Inr csc"
    using dec st r1 r2 r3 r4 r5 r6 id by (simp add: decode_graph_index_csc_def Let_def)
  then have c6: "c6 = length v" and ok: "validate_graphblas_csc_artifact key ?csc = Inr ()" "graphblas_csc_checksum ?csc = k" "csc = ?csc"
    by (auto simp: corrupt_def rbind_Inr_iff split: if_splits)
  have d0: "v = INDEX_CSC_MAGIC @ drop ?c v" using st append_take_drop_id[of ?c v] by (simp add: starts_with_def)
  have c0: "?c \<le> length v" using arg_cong[OF d0, of length] unfolding length_append by linarith
  note s1 = index_u64.read_sound[OF r1 c0 len]
  note s2 = index_u64.read_sound[OF r2 s1[THEN conjunct2, THEN conjunct2] len]
  note s3 = index_u64.read_sound[OF r3 s2[THEN conjunct2, THEN conjunct2] len]
  note s4 = index_u64s.read_sound[OF r4 s3[THEN conjunct2, THEN conjunct2] len]
  note s5 = index_u64s.read_sound[OF r5 s4[THEN conjunct2, THEN conjunct2] len]
  note s6 = index_u64s.read_sound[OF r6 s5[THEN conjunct2, THEN conjunct2] len]
  have "drop ?c v = to_le_bytes q @ to_le_bytes w @ to_le_bytes k @ encode_index_u64s vs @ encode_index_u64s ps @ encode_index_u64s js"
    using s1 s2 s3 s4 s5 s6 c6 unfolding id by simp
  then show "v = encode_graph_index_csc q w k csc" using d0 ok(3) by (simp add: encode_graph_index_csc_def)
  show "csc_fits csc" using s4 s5 s6 ok(3) by (simp add: csc_fits_def)
  show "validate_graphblas_csc_artifact key csc = Inr ()" "graphblas_csc_checksum csc = k" using ok by simp_all
qed

subsection \<open>The manifest\<close>

definition valid_generation :: "graph_index_generation \<Rightarrow> bool" where
  "valid_generation g \<longleftrightarrow> valid_component (gi_cell_id g) \<and> valid_component (gi_edge_type g)
     \<and> length (gi_generation g) = 64 \<and> list_all is_ascii_hexdigit (gi_generation g)"

lemma hexdigit_component: "is_ascii_hexdigit c \<Longrightarrow> component_byte c"
  by (auto simp: is_ascii_hexdigit_def component_byte_def Let_def)

lemma hex_component: "list_all is_ascii_hexdigit s \<Longrightarrow> length s = 64 \<Longrightarrow> valid_component s"
  using hexdigit_component by (auto simp: valid_component_def list_all_iff)

lemma decode_manifest_encode:
  assumes "valid_generation g"
  shows "decode_graph_index_manifest key (encode_graph_index_manifest g) = Inr g"
proof -
  have magic: "valid_component INDEX_MANIFEST_MAGIC" by (simp add: INDEX_MANIFEST_MAGIC_def valid_component_def component_byte_def)
  have gen: "valid_component (gi_generation g)" using assms by (simp add: valid_generation_def hex_component)
  have "record_parts key (encode_graph_index_manifest g) = Inr [INDEX_MANIFEST_MAGIC, gi_cell_id g, gi_edge_type g, fmt_u64 (gi_base_sequence g),
       fmt_u64 (gi_last_wal_id g), fmt_u64 (gi_edge_count g), fmt_u64 (gi_checksum g), gi_generation g]"
    unfolding encode_graph_index_manifest_def
    by (rule record_parts_tab_record) (use assms magic gen in \<open>simp_all add: valid_generation_def\<close>)
  then show ?thesis using assms
    by (simp add: decode_graph_index_manifest_def valid_generation_def validate_component_iff parse_u64_def)
qed

lemma eight_fields:
  assumes "(case fs of [a, b, c, d, e, f, g, h] \<Rightarrow> parse a b c d e f g h | _ \<Rightarrow> corrupt key reason) = Inr x"
  obtains a b c d e f g h where "fs = [a, b, c, d, e, f, g, h]" "parse a b c d e f g h = Inr x"
  using assms by (auto simp: corrupt_def split: list.splits)

lemma decode_manifest_valid:
  assumes "decode_graph_index_manifest key v = Inr gen"
  shows "valid_generation gen"
proof -
  obtain fs where "record_parts key v = Inr fs" using assms by (auto simp: decode_graph_index_manifest_def rbind_Inr_iff)
  note run = assms[unfolded decode_graph_index_manifest_def this rbind.simps]
  show ?thesis
    by (rule eight_fields[OF run])
      (auto simp: rbind_Inr_iff corrupt_def validate_component_iff valid_generation_def split: if_splits)
qed

lemma split_on_last:
  assumes "c \<notin> set b"
  shows "last (split_on c (a @ c # b)) = b"
proof -
  have "\<exists>w ws. split_on c (a @ c # b) = w # ws @ [b]"
    using assms by (induction a) (auto simp: split_on_no_sep intro: exI[where x = "[]"])
  then show ?thesis by auto
qed

lemma sequence_from_generation_path:
  assumes "SLASH \<notin> set generation"
  shows "graph_index_sequence_from_path (graph_index_generation_path (\<lambda>p. p) root c t q generation) = Inr q"
proof -
  let ?file = "fmt_020 q @ CHR ''-'' # generation @ ''.csc''"
  let ?key = "graph_index_generation_path (\<lambda>p. p) root c t q generation"
  have key: "?key = (graph_index_root root @ ''/'' @ c @ ''/'' @ t @ ''/generations'') @ SLASH # ?file"
    by (simp add: graph_index_generation_path_def)
  have digits: "list_all is_ascii_digit (fmt_020 q)"
    using fmt_020_digits[of q] by (auto simp: list_all_iff is_ascii_digit_def Let_def is_digit_of_def of_char_digit_char16)
  then have dash: "CHR ''-'' \<notin> set (fmt_020 q)" by (auto simp: list_all_iff is_ascii_digit_def)
  have "SLASH \<notin> set ?file" using assms fmt_020_no_slash[of q] by simp
  from split_on_last[OF this] have "last (split_on SLASH ?key) = ?file" unfolding key .
  then show ?thesis
    using split_once_append[OF dash] digits by (simp add: graph_index_sequence_from_path_def Let_def parse_u64_def)
qed

subsection \<open>The published index\<close>

text \<open>C20 (index_codec_exact). The reader of an index payload accepts exactly what the writer writes: for a value that fits
  in memory it returns a matrix if and only if the value is the encoding of that matrix under the expected base
  sequence, WAL position and checksum, the matrix is well formed and it has that checksum. So a payload truncated,
  extended, or altered in any byte is never read as a matrix it does not encode. A manifest read back is the one
  written, every manifest accepted names valid components and a 64-digit hexadecimal generation, and the sequence that
  garbage collection parses out of a generation's path is the base sequence it was published under.\<close>

theorem index_codec_exact:
  assumes "length v < 2 ^ 63" "valid_generation g"
  shows "(decode_graph_index_csc key v q w k = Inr csc
            \<longleftrightarrow> v = encode_graph_index_csc q w k csc \<and> csc_fits csc
                \<and> validate_graphblas_csc_artifact key csc = Inr () \<and> graphblas_csc_checksum csc = k)
      \<and> decode_graph_index_manifest key (encode_graph_index_manifest g) = Inr g
      \<and> (decode_graph_index_manifest key m = Inr g' \<longrightarrow> valid_generation g')
      \<and> graph_index_sequence_from_path
           (graph_index_generation_path (\<lambda>p. p) root (gi_cell_id g) (gi_edge_type g) q (gi_generation g)) = Inr q"
proof (intro conjI)
  show "decode_graph_index_csc key v q w k = Inr csc
      \<longleftrightarrow> v = encode_graph_index_csc q w k csc \<and> csc_fits csc
          \<and> validate_graphblas_csc_artifact key csc = Inr () \<and> graphblas_csc_checksum csc = k"
  proof
    assume "decode_graph_index_csc key v q w k = Inr csc"
    note s = decode_payload_sound[OF this assms(1)]
    show "v = encode_graph_index_csc q w k csc \<and> csc_fits csc
          \<and> validate_graphblas_csc_artifact key csc = Inr () \<and> graphblas_csc_checksum csc = k" by (intro conjI) (rule s)+
  next
    assume e: "v = encode_graph_index_csc q w k csc \<and> csc_fits csc
          \<and> validate_graphblas_csc_artifact key csc = Inr () \<and> graphblas_csc_checksum csc = k"
    show "decode_graph_index_csc key v q w k = Inr csc"
      unfolding e[THEN conjunct1] by (rule decode_payload_encode) (use e assms(1) in simp_all)
  qed
  show "decode_graph_index_manifest key (encode_graph_index_manifest g) = Inr g" by (rule decode_manifest_encode[OF assms(2)])
  show "decode_graph_index_manifest key m = Inr g' \<longrightarrow> valid_generation g'" using decode_manifest_valid by blast
  have "valid_component (gi_generation g)" using assms(2) by (simp add: valid_generation_def hex_component)
  then show "graph_index_sequence_from_path
      (graph_index_generation_path (\<lambda>p. p) root (gi_cell_id g) (gi_edge_type g) q (gi_generation g)) = Inr q"
    by (intro sequence_from_generation_path) (simp add: valid_component_avoids)
qed

theorem index_codec_exact_witness:
  "decode_graph_index_csc ''k''
     (encode_graph_index_csc 7 9 (graphblas_csc_checksum \<lparr>gb_vertices = [1, 2], gb_pointers = [0, 1, 1], gb_indices = [1]\<rparr>)
        \<lparr>gb_vertices = [1, 2], gb_pointers = [0, 1, 1], gb_indices = [1]\<rparr>)
     7 9 (graphblas_csc_checksum \<lparr>gb_vertices = [1, 2], gb_pointers = [0, 1, 1], gb_indices = [1]\<rparr>)
   = Inr \<lparr>gb_vertices = [1, 2], gb_pointers = [0, 1, 1], gb_indices = [1]\<rparr>"
proof -
  let ?csc = "\<lparr>gb_vertices = [1, 2], gb_pointers = [0, 1, 1], gb_indices = [1 :: u64]\<rparr>"
  let ?g = "\<lparr>gi_cell_id = ''c'', gi_edge_type = ''t'', gi_base_sequence = 7, gi_last_wal_id = 9, gi_edge_count = 1, gi_checksum = 0,
     gi_generation = replicate 64 (CHR ''a'')\<rparr>"
  have len: "length (encode_graph_index_csc 7 9 (graphblas_csc_checksum ?csc) ?csc) < 2 ^ 63"
    by (simp add: encode_graph_index_csc_def encode_index_u64s_def INDEX_CSC_MAGIC_def)
  have gen: "valid_generation ?g"
    by (simp add: valid_generation_def valid_component_def component_byte_def is_ascii_hexdigit_def list_all_iff)
  have fit: "csc_fits ?csc" by (simp add: csc_fits_def array_fits_def)
  have wf: "validate_graphblas_csc_artifact ''k'' ?csc = Inr ()" by (simp add: validate_graphblas_csc_artifact_def last_or_zero_def windows_all_def)
  show ?thesis by (subst index_codec_exact[OF len gen, THEN conjunct1]) (simp add: fit wf)
qed

end
