(* ===== verification/Changelog_History.thy ===== *)
theory Changelog_History
  imports Changelog
begin

text \<open>
  Histories of edge writes, deletes and changelog collections. Collection removes only entries at or
  below the sequence of the index it is given and moves the floor; so the log since that index stays
  complete, and patching the index with it gives the index of the current graph.
\<close>

subsection \<open>What a collection removes\<close>

lemma gc_scan_entries:
  assumes "valid_component c" "valid_component t"
  shows "\<exists>us. gc_scan cap (xlog_type_prefix c t) thr (map (entry_kv c t) ts) dead l0 =
      Inr (dead @ map (\<lambda>p. fst (entry_kv c t p)) us, if us = [] then l0 else fst (fst (last us)), us \<noteq> [] \<and> cap \<le> length dead + length us)
    \<and> (\<forall>p \<in> set us. fst (fst p) \<le> thr)"
proof (induction ts arbitrary: dead l0)
  case Nil
  show ?case by (rule exI[of _ "[]"]) simp
next
  case (Cons p ts)
  obtain q x y b where p: "p = ((q, x, y), b)" by (metis surj_pair)
  let ?key = "render (entry_key c t (q, x, y))"
  have "from_utf8_lossy ?key = ?key" by (rule render_lossy[OF valid_entry_key[OF assms]])
  then have step: "gc_scan cap (xlog_type_prefix c t) thr (map (entry_kv c t) (p # ts)) dead l0 =
      (if thr < q then Inr (dead, l0, False) else if cap \<le> Suc (length dead) then Inr (dead @ [?key], q, True)
       else gc_scan cap (xlog_type_prefix c t) thr (map (entry_kv c t) ts) (dead @ [?key]) q)"
    by (simp add: entry_kv_def family_kv_def p entry_key_def parse_xlog_entry)
  consider (stop) "thr < q" | (cap) "\<not> thr < q" "cap \<le> Suc (length dead)" | (go) "\<not> thr < q" "\<not> cap \<le> Suc (length dead)" by blast
  then show ?case
  proof cases
    case stop
    then show ?thesis unfolding step by (intro exI[of _ "[]"]) simp
  next
    case cap
    then show ?thesis unfolding step by (intro exI[of _ "[p]"]) (simp add: p entry_kv_def family_kv_def)
  next
    case go
    from Cons.IH[of "dead @ [?key]" q] obtain us where
      us: "gc_scan cap (xlog_type_prefix c t) thr (map (entry_kv c t) ts) (dead @ [?key]) q =
        Inr ((dead @ [?key]) @ map (\<lambda>p. fst (entry_kv c t p)) us, if us = [] then q else fst (fst (last us)),
          us \<noteq> [] \<and> cap \<le> length (dead @ [?key]) + length us)" "\<forall>p \<in> set us. fst (fst p) \<le> thr" by blast
    then show ?thesis unfolding step using go by (intro exI[of _ "p # us"]) (auto simp: p entry_kv_def family_kv_def)
  qed
qed

text \<open>Operations that touch the floor and entries up to a sequence only.\<close>

definition collects :: "storage_sequence \<Rightarrow> graph_write_op \<Rightarrow> bool" where
  "collects q0 w \<longleftrightarrow> (\<exists>c t. valid_component c \<and> valid_component t
     \<and> ((\<exists>e. w = PutOp (xlog_low_water c t) (encode_u64 e)) \<or> (\<exists>r x y. r \<le> q0 \<and> w = DeleteOp (xlog_entry c t r x y))))"

definition fewer :: "storage_sequence \<Rightarrow> (bytes, bytes) btmap \<Rightarrow> (bytes, bytes) btmap \<Rightarrow> bool" where
  "fewer q0 m m' \<longleftrightarrow> wf_store m' \<and> (\<forall>k. valid_key k \<longrightarrow> kview m' k = kview m k \<or> (\<exists>c t. k = KXlogLowWater c t)
     \<or> (\<exists>c t r x y. k = KXlogEntry c t r x y \<and> r \<le> q0 \<and> kview m' k = None))"

lemma fewer_trans: "fewer q0 l m \<Longrightarrow> fewer q0 m n \<Longrightarrow> fewer q0 l n"
  unfolding fewer_def by metis

lemma fewer_op:
  assumes "wf_store m" "collects q0 w"
  shows "fewer q0 m (apply_op w m)"
proof -
  obtain c t where v: "valid_component c" "valid_component t"
    and w: "(\<exists>e. w = PutOp (render (KXlogLowWater c t)) (encode_u64 e)) \<or> (\<exists>r x y. r \<le> q0 \<and> w = DeleteOp (render (KXlogEntry c t r x y)))"
    using assms(2) unfolding collects_def render.simps by blast
  note k = valid_edge_keys[OF v]
  have bt: "bt_ok m" using wf_store_keyed[OF assms(1)] by simp
  from w show ?thesis
  proof (elim disjE exE conjE)
    fix e assume w: "w = PutOp (render (KXlogLowWater c t)) (encode_u64 e)"
    have "wf_store (apply_op w m)" unfolding w apply_op.simps by (rule wf_store_insert[OF assms(1)]) (simp_all add: k)
    moreover have "kview (apply_op w m) k = (if k = KXlogLowWater c t then Some (encode_u64 e) else kview m k)" if "valid_key k" for k
      unfolding w apply_op.simps using kview_insert[OF bt k(4) that] .
    ultimately show ?thesis unfolding fewer_def by auto
  next
    fix r x y assume w: "r \<le> q0" "w = DeleteOp (render (KXlogEntry c t r x y))"
    have "wf_store (apply_op w m)" unfolding w apply_op.simps by (rule wf_store_remove[OF assms(1)]) (simp add: k)
    moreover have "kview (apply_op w m) k = (if k = KXlogEntry c t r x y then None else kview m k)" if "valid_key k" for k
      unfolding w(2) apply_op.simps using kview_remove[OF k(3) that] .
    ultimately show ?thesis unfolding fewer_def using w(1) by auto
  qed
qed

lemma fewer_batch: "wf_store m \<Longrightarrow> list_all (collects q0) ws \<Longrightarrow> fewer q0 m (apply_batch ws m)"
proof (induction ws arbitrary: m)
  case Nil
  then show ?case by (simp add: fewer_def)
next
  case (Cons w ws)
  have f: "fewer q0 m (apply_op w m)" using fewer_op Cons.prems by simp
  then have "fewer q0 (apply_op w m) (apply_batch ws (apply_op w m))" using Cons by (simp add: fewer_def)
  then show ?case using fewer_trans[OF f] by simp
qed

lemma fewer_view:
  assumes "fewer q0 m m'" "valid_component c" "valid_component t"
  shows "same_type_view (kview m) (kview m') c t"
    and "q0 < r \<Longrightarrow> kview m' (KXlogEntry c t r x y) = kview m (KXlogEntry c t r x y)"
proof -
  note v = valid_edge_keys[OF assms(2,3)]
  have eq: "kview m' k = kview m k" if "valid_key k" "\<And>c t. k \<noteq> KXlogLowWater c t" "\<And>c t r x y. k \<noteq> KXlogEntry c t r x y" for k
    using assms(1) that unfolding fewer_def by blast
  have log: "kview m' (KXlogEntry c t r x y) = kview m (KXlogEntry c t r x y) \<or> r \<le> q0 \<and> kview m' (KXlogEntry c t r x y) = None" for r x y
    using assms(1)[unfolded fewer_def, THEN conjunct2, rule_format, OF v(3), of r x y] by auto
  then show "kview m' (KXlogEntry c t r x y) = kview m (KXlogEntry c t r x y)" if "q0 < r" using that leD by blast
  have seg: "kview m' (KOutSegment c t x r h) = kview m (KOutSegment c t x r h)" if "valid_component h" for x r h
    by (rule eq) (use that assms(2,3) in \<open>simp_all add: valid_segment_keys\<close>)
  show "same_type_view (kview m) (kview m') c t"
    unfolding same_type_view_def same_forms_def
  proof (intro conjI allI impI)
    show "kview m (KXlogEntry c t r x y) \<noteq> None" if "kview m' (KXlogEntry c t r x y) \<noteq> None" for r x y using log[of r x y] that by auto
  qed (simp_all add: eq v seg)
qed

lemma since_inv_fewer:
  assumes inv: "since_inv sh z q0 G0 s" and f: "fewer q0 (db s) (db s')" and q: "seq s' = seq s + 1" "seq s \<noteq> - 1"
  shows "since_inv sh z q0 G0 s'"
proof -
  have le: "seq s \<le> seq s'" unfolding q(1) by (rule u64_le_add_one[OF q(2)]) simp
  have g: "graph_of s' c t = graph_of s c t" if v: "valid_component c" "valid_component t" for c t
    unfolding graph_of_def edges_in_cong[OF fewer_view(1)[OF f v], symmetric]
    using visible_in_later[OF since_bounded[OF inv v] le] by (simp add: edges_in_def)
  have "graph_inv sh z (kview (db s')) (seq s')"
    unfolding graph_inv_def
  proof (intro allI impI)
    fix c t assume v: "valid_component c" "valid_component t"
    then have "type_inv (writes_reverse_index sh) z (kview (db s)) (seq s) c t"
      using inv by (simp add: since_inv_def store_inv_def graph_inv_def)
    then show "type_inv (writes_reverse_index sh) z (kview (db s')) (seq s') c t" using fewer_view(1)[OF f v] le by (rule type_inv_same)
  qed
  moreover have "accounts (kview (db s')) c t q0 (seq s') (G0 c t) (graph_of s' c t)" if v: "valid_component c" "valid_component t" for c t
    unfolding g[OF v]
  proof (rule accounts_keep[OF _ since_bounded[OF inv v] le])
    show "accounts (kview (db s)) c t q0 (seq s) (G0 c t) (graph_of s c t)" using inv v by (simp add: since_inv_def)
  qed (rule fewer_view(2)[OF f v])
  moreover have "q0 \<le> seq s'" using inv le by (auto simp: since_inv_def intro: order_trans)
  moreover have "wf_store (db s')" using f by (simp add: fewer_def)
  ultimately show ?thesis by (simp add: since_inv_def store_inv_def)
qed

lemma since_inv_batch:
  assumes "since_inv sh z q0 G0 s" "list_all (collects q0) ws" "db s' = apply_batch ws (db s)" "seq s' = seq s + 1" "seq s \<noteq> - 1"
  shows "since_inv sh z q0 G0 s'"
proof (rule since_inv_fewer[OF assms(1) _ assms(4,5)])
  have "wf_store (db s)" using assms(1) by (simp add: since_inv_def store_inv_def)
  then show "fewer q0 (db s) (db s')" unfolding assms(3) using assms(2) by (rule fewer_batch)
qed

subsection \<open>Collections keep the log since a later index\<close>

lemma batch_deletes: "fold batch_delete ks ws = ws @ map DeleteOp ks"
  by (induction ks arbitrary: ws) (simp_all add: batch_delete_def)

context txn_faults
begin

text \<open>A read that succeeds tells what the committed records hold; a read that fails ends the program.\<close>

lemma read_cases:
  assumes "pbind m f s = (r, s')" "sim m n" "quiet m"
  shows "unchanged (abs_state s) (abs_state s')
    \<or> (\<exists>x s1. n (abs_state s) = (Inr x, abs_state s1) \<and> unchanged (abs_state s) (abs_state s1) \<and> f x s1 = (r, s'))"
proof -
  obtain x s1 where m: "m s = (x, s1)" by fastforce
  note u = quietD[OF assms(3) m]
  show ?thesis
  proof (cases x)
    case (Inl e)
    then show ?thesis using assms(1) m u by (simp add: pbind_def)
  next
    case (Inr y)
    then have "f y s1 = (r, s')" "n (abs_state s) = (Inr y, abs_state s1)" using assms(1) m simD[OF assms(2)] by (simp_all add: pbind_def)
    then show ?thesis using u by auto
  qed
qed

lemma lift_cases:
  assumes "pbind (plift g) f s = (r, s')"
  shows "unchanged (abs_state s) (abs_state s') \<or> (\<exists>x. g = Inr x \<and> f x s = (r, s'))"
  using plift_cases[OF assms] by auto

lemma batch_keeps:
  assumes J: "since_inv sh z q0 G0 (abs_state s)" and ws: "list_all (collects q0) ws"
    and run: "pbind (write_graph_batch_strict_with_cell_lock ops sh c oper ws) (\<lambda>_. preturn n) s = (r, s')"
  shows "since_inv sh z q0 G0 (abs_state s')"
proof (cases "ws = []")
  case True
  then have "s' = s" using run by (simp add: write_graph_batch_strict_with_cell_lock_def prog_simps pbind_def pif_def preturn_def)
  then show ?thesis using J by simp
next
  case False
  obtain r1 s1 where one: "write_graph_batch_strict_with_cell_lock ops sh c oper ws s = (r1, s1)" by fastforce
  then have "s' = s1" using run by (cases r1) (simp_all add: pbind_def preturn_def)
  moreover from one False have "s1 = s \<or> write_graph_batch_strict_guarded ops sh c oper [] ws s = (r1, s1)"
    using plift_cases[of "acquire_local_write_guard sh c oper" "\<lambda>_. write_graph_batch_strict ops sh c oper ws" s r1 s1]
    by (auto simp: write_graph_batch_strict_with_cell_lock_def pif_def unguarded_strict)
  ultimately show ?thesis
  proof (elim disjE)
    assume "write_graph_batch_strict_guarded ops sh c oper [] ws s = (r1, s1)" "s' = s1"
    then have "since_inv sh z q0 G0 (abs_state s1) \<and> (is_ok r1 \<longrightarrow> True)"
      by (intro batch_rule[where J = "since_inv sh z q0 G0" and K = "\<lambda>_. True", OF _ since_inv_unchanged _ J False])
        (auto intro: since_inv_batch[OF _ ws])
    then show ?thesis using \<open>s' = s1\<close> by simp
  qed (use J in simp)
qed

lemma collect_keeps:
  assumes J: "since_inv sh z q0 G0 (abs_state s)" and le: "thr \<le> q0" and v: "valid_component c" "valid_component t"
    and run: "gc_collect_dead ops sh c t thr low s = (r, s')"
  shows "since_inv sh z q0 G0 (abs_state s')"
proof -
  let ?pre = "xlog_type_prefix c t" and ?low = "xlog_low_water c t"
  let ?scan = "filter (\<lambda>kv. in_subrange ?pre (Some (fmt_020 low)) None (fst kv)) (db (abs_state s))"
  have ref: "db_scan map_ops ?pre (Some (fmt_020 low)) None (abs_state s) = (Inr ?scan, abs_state s)"
    by (simp add: db_scan_def on_txn_def)
  have wf: "wf_store (db (abs_state s))" using J by (simp add: since_inv_def store_inv_def)
  obtain ts where ts: "?scan = map (entry_kv c t) ts" using entry_scan[OF wf v, of low None] by auto
  obtain us l capped where us: "gc_scan XLOG_GC_MAX_DELETES ?pre thr ?scan [] low = Inr (map (\<lambda>p. fst (entry_kv c t p)) us, l, capped)"
    "\<forall>p \<in> set us. fst (fst p) \<le> thr"
    unfolding ts using gc_scan_entries[OF v, of XLOG_GC_MAX_DELETES thr ts "[]" low] by auto
  have dead: "collects q0 (DeleteOp (fst (entry_kv c t p)))" if "p \<in> set us" for p
  proof -
    have "fst (fst p) \<le> q0" using us(2) that le by (auto intro: order_trans)
    then show ?thesis unfolding collects_def entry_kv_def family_kv_def entry_key_def fst_conv render.simps using v by blast
  qed
  have low: "collects q0 (PutOp ?low (encode_u64 e))" for e using v unfolding collects_def by blast
  have ok: "list_all (collects q0) (gc_batch ?low low e (map (\<lambda>p. fst (entry_kv c t p)) us))" for e
    unfolding gc_batch_def Let_def batch_deletes batch_put_def using dead low by (auto simp: list_all_iff)
  from read_cases[OF run[unfolded gc_collect_dead_def Let_def] sim_ops(7) quiet_ops(6)] show ?thesis
  proof (elim disjE exE conjE)
    assume "unchanged (abs_state s) (abs_state s')"
    then show ?thesis using J by (rule since_inv_unchanged)
  next
    fix kvs s1
    assume kvs: "db_scan map_ops ?pre (Some (fmt_020 low)) None (abs_state s) = (Inr kvs, abs_state s1)"
      and u: "unchanged (abs_state s) (abs_state s1)"
      and rest: "pbind (plift (gc_scan XLOG_GC_MAX_DELETES ?pre thr kvs [] low)) (\<lambda>(dead_keys, last_sequence, capped).
        pif (dead_keys = []) (preturn 0)
          (pbind (write_graph_batch_strict_with_cell_lock ops sh c ''gc_topology_changelog''
                (gc_batch ?low low (if capped then last_sequence else saturating_add thr 1) dead_keys)) (\<lambda>_.
             preturn (word_of_nat (length dead_keys))))) s1 = (r, s')"
    have J1: "since_inv sh z q0 G0 (abs_state s1)" by (rule since_inv_unchanged[OF u J])
    have k: "kvs = ?scan" using kvs unfolding ref prod.inject sum.inject by (rule conjunct1[THEN sym])
    note rest' = rest[unfolded k us(1) pbind_plift prod.case]
    show ?thesis
    proof (cases "us = []")
      case True
      then show ?thesis using rest' J1 by (simp add: pif_def preturn_def)
    next
      case False
      then show ?thesis using rest' by (simp add: pif_def) (rule batch_keeps[OF J1 ok])
    qed
  qed
qed

lemma repair_keeps:
  assumes J: "since_inv sh z q0 G0 (abs_state s)" and v: "valid_component c" "valid_component t"
    and run: "gc_repair_floor ops sh c t s = (r, s')"
  shows "since_inv sh z q0 G0 (abs_state s')"
proof -
  have epoch: "sim (current_epoch ops c) (current_epoch map_ops c)" "quiet (current_epoch ops c)"
    unfolding current_epoch_def ensure_cell_readable_def by (intro sim_rules quiet_rules)+
  from read_cases[OF run[unfolded gc_repair_floor_def] epoch] show ?thesis
  proof (elim disjE exE conjE)
    assume "unchanged (abs_state s) (abs_state s')"
    then show ?thesis using J by (rule since_inv_unchanged)
  next
    fix e s1 assume u: "unchanged (abs_state s) (abs_state s1)"
      and rest: "pbind (write_graph_batch_strict_with_cell_lock ops sh c ''gc_topology_changelog'' (batch_put (xlog_low_water c t) (encode_u64 e) []))
        (\<lambda>_. preturn 0) s1 = (r, s')"
    show ?thesis by (rule batch_keeps[OF since_inv_unchanged[OF u J] _ rest]) (use v in \<open>auto simp: batch_put_def collects_def\<close>)
  qed
qed

lemma gc_keeps:
  assumes J: "since_inv sh z q0 G0 (abs_state s)" and le: "gi_base_sequence g \<le> q0"
    and v: "valid_component (gi_cell_id g)" "valid_component (gi_edge_type g)"
    and run: "gc_topology_changelog_to ops sh permit g s = (r, s')"
  shows "since_inv sh z q0 G0 (abs_state s')"
proof -
  let ?c = "gi_cell_id g" and ?t = "gi_edge_type g"
  let ?low = "xlog_low_water ?c ?t"
  let ?rest = "\<lambda>found. case found of None \<Rightarrow> gc_repair_floor ops sh ?c ?t
      | Some value \<Rightarrow> pbind (plift (decode_u64 ?low value)) (\<lambda>low_water.
          pif (gi_base_sequence g < low_water) (preturn 0) (gc_collect_dead ops sh ?c ?t (gi_base_sequence g) low_water))"
  have found: "since_inv sh z q0 G0 (abs_state s')" if J1: "since_inv sh z q0 G0 (abs_state s1)" and rest: "?rest found s1 = (r, s')" for found s1
  proof (cases found)
    case None
    then show ?thesis using repair_keeps[OF J1 v] rest by simp
  next
    case (Some w)
    show ?thesis
    proof (cases "decode_u64 ?low w")
      case (Inl e)
      then show ?thesis using rest Some J1 by (simp add: prog_simps pfail_def)
    next
      case (Inr low)
      show ?thesis
      proof (cases "gi_base_sequence g < low")
        case True
        then show ?thesis using rest Some Inr J1 by (simp add: prog_simps)
      next
        case False
        then have "gc_collect_dead ops sh ?c ?t (gi_base_sequence g) low s1 = (r, s')" using rest Some Inr by (simp add: prog_simps)
        then show ?thesis by (rule collect_keeps[OF J1 le v])
      qed
    qed
  qed
  from plift_cases[OF run[unfolded gc_topology_changelog_to_def Let_def]] show ?thesis
  proof (elim disjE exE conjE)
    fix u assume "pbind (plift (permit ''gc_topology_changelog'')) (\<lambda>_. pbind (read_remote ops ?low) ?rest) s = (r, s')"
    from plift_cases[OF this] show ?thesis
    proof (elim disjE exE conjE)
      assume "pbind (read_remote ops ?low) ?rest s = (r, s')"
      from read_cases[OF this sim_ops(6) quiet_ops(5)] show ?thesis
        using found since_inv_unchanged[OF _ J] by blast
    qed (use J in simp)
  qed (use J in simp)
qed

end

subsection \<open>Histories\<close>

datatype store_op = EdgeOp edge_op | CollectOp graph_index_generation

fun run_store_op :: "'t txn_ops \<Rightarrow> shard_env \<Rightarrow> (string \<Rightarrow> unit result) \<Rightarrow> store_op \<Rightarrow> 't shard_state \<Rightarrow> 't shard_state" where
  "run_store_op ops sh permit (EdgeOp p) s = run_op ops sh p s"
| "run_store_op ops sh permit (CollectOp g) s = snd (gc_topology_changelog_to ops sh permit g s)"

text \<open>Collections are run against indexes at or below the observed sequence.\<close>

fun store_op_ok :: "vertex_id \<Rightarrow> storage_sequence \<Rightarrow> store_op \<Rightarrow> bool" where
  "store_op_ok z q0 (EdgeOp p) \<longleftrightarrow> op_ok z p"
| "store_op_ok z q0 (CollectOp g) \<longleftrightarrow> valid_component (gi_cell_id g) \<and> valid_component (gi_edge_type g) \<and> gi_base_sequence g \<le> q0"

lemma run_store_op_since:
  assumes F: "txn_faults ops view" and J: "since_inv sh z q0 G0 (seen view s)" and good: "store_op_ok z q0 p"
  shows "since_inv sh z q0 G0 (seen view (run_store_op ops sh permit p s))"
proof (cases p)
  case (EdgeOp e)
  have "since_inv sh z q0 G0 (seen view (run_op ops sh e s))"
    by (rule run_op_rule[where J = "since_inv sh z q0 G0" and z = z, OF F since_inv_unchanged _ _ J])
      (use good EdgeOp in \<open>auto intro: since_inv_write since_inv_delete\<close>)
  then show ?thesis using EdgeOp by simp
next
  case (CollectOp g)
  have st: "txn_refines.abs_state view s1 = seen view s1" for s1
    using txn_refines.abs_state_def[OF txn_faults.axioms(1)[OF F]] .
  obtain r s' where run: "gc_topology_changelog_to ops sh permit g s = (r, s')" by fastforce
  show ?thesis using txn_faults.gc_keeps[OF F, unfolded st, OF J _ _ _ run] good run CollectOp by simp
qed

lemma history_since:
  assumes F: "txn_faults ops view" and good: "\<forall>p \<in> set history. store_op_ok z q0 p"
  shows "since_inv sh z q0 G0 (seen view s) \<Longrightarrow> since_inv sh z q0 G0 (seen view (fold (run_store_op ops sh permit) history s))"
  using good
proof (induction history arbitrary: s)
  case (Cons p history)
  then show ?case using run_store_op_since[OF F Cons.prems(1), of p] by simp
qed simp

subsection \<open>The delta of a pinned snapshot\<close>

context pinned
begin

lemma delta_agrees:
  assumes "xlog_delta_since snap previous base c t = Inr d"
  shows "xlog_delta_since (snapshot_of m q) previous base c t = Inr d"
proof -
  let ?low = "xlog_low_water c t" and ?from = "saturating_add (gi_base_sequence previous) 1" and ?upper = "saturating_add base 1"
  obtain found where found: "sn_get snap ?low = Inr found" using assms by (auto simp: xlog_delta_since_def rbind_Inr_iff Let_def)
  then have m: "bt_get m ?low = found" using get_law by simp
  show ?thesis
  proof (cases found)
    case (Some w)
    obtain low where low: "decode_u64 ?low w = Inr low" using assms found Some by (auto simp: xlog_delta_since_def rbind_Inr_iff Let_def)
    show ?thesis
    proof (cases "?from < low")
      case False
      then obtain kvs where kvs: "sn_range snap (xlog_type_prefix c t) (fmt_020 ?from) (fmt_020 ?upper) = Inr kvs"
        using assms found Some low by (auto simp: xlog_delta_since_def rbind_Inr_iff Let_def)
      then show ?thesis using assms found m Some low False range_law[OF kvs] by (simp add: xlog_delta_since_def Let_def)
    qed (use assms found m Some low in \<open>simp add: xlog_delta_since_def Let_def\<close>)
  qed (use assms found m in \<open>simp add: xlog_delta_since_def\<close>)
qed

end

lemma delta_complete_floor:
  assumes "wf_store m" "valid_component c" "valid_component t" "xlog_delta_since (snapshot_of m q) previous base c t = Inr (XlogComplete W)"
  obtains low where "kview m (KXlogLowWater c t) = Some (encode_u64 low)" "low \<le> saturating_add (gi_base_sequence previous) 1"
proof (cases "kview m (KXlogLowWater c t)")
  case None
  then show ?thesis using assms(4) by (simp add: xlog_delta_since_def kview_def)
next
  case (Some w)
  then obtain low where w: "w = encode_u64 low" using wf_store_record[OF assms(1) _ Some] valid_edge_keys[OF assms(2,3)] by auto
  show ?thesis
  proof (rule that)
    show "kview m (KXlogLowWater c t) = Some (encode_u64 low)" using Some w by simp
    show "low \<le> saturating_add (gi_base_sequence previous) 1"
      using assms(4) Some by (auto simp: xlog_delta_since_def kview_def w Let_def split: if_splits)
  qed
qed

text \<open>The overlay of a complete delta turns the graph at the old base into the current graph.\<close>

lemma delta_effective:
  assumes inv: "since_inv sh z q0 G0 s" and v: "valid_component c" "valid_component t" and q: "seq s \<noteq> - 1" "gi_base_sequence previous = q0"
    and delta: "xlog_delta_since (snapshot_of (db s) q') previous (seq s) c t = Inr (XlogComplete W)"
  shows "overlay_ok W" "effective W (G0 c t) = graph_of s c t"
proof -
  have wf: "wf_store (db s)" and acc: "accounts (kview (db s)) c t q0 (seq s) (G0 c t) (graph_of s c t)" and le: "q0 \<le> seq s"
    using inv v by (simp_all add: since_inv_def store_inv_def)
  obtain low where low: "kview (db s) (KXlogLowWater c t) = Some (encode_u64 low)" "low \<le> saturating_add (gi_base_sequence previous) 1"
    by (rule delta_complete_floor[OF wf v delta])
  have "q0 \<noteq> - 1" using le q(1) by (metis word_order.extremum_uniqueI)
  then obtain W' where "xlog_delta_since (snapshot_of (db s) q') previous (seq s) c t = Inr (XlogComplete W')" "overlay_ok W'"
    and st': "\<forall>x y b. overlay_state W' x y = Some b \<longleftrightarrow> last_change (kview (db s)) c t q0 (seq s) x y b"
    using delta_exact[OF wf v low _ q(1), of q'] unfolding q(2) by blast
  then have W: "overlay_ok W" and st: "overlay_state W x y = Some b \<longleftrightarrow> last_change (kview (db s)) c t q0 (seq s) x y b" for x y b
    using delta by simp_all
  show "overlay_ok W" by (rule W)
  have "(x, y) \<in> effective W (G0 c t) \<longleftrightarrow> (x, y) \<in> graph_of s c t" for x y
  proof (cases "last_change (kview (db s)) c t q0 (seq s) x y ((x, y) \<in> graph_of s c t)")
    case True
    then have "overlay_state W x y = Some ((x, y) \<in> graph_of s c t)" using st by blast
    then show ?thesis by (simp add: effective_def)
  next
    case False
    with acc have no: "\<forall>r b. q0 < r \<and> r \<le> seq s \<longrightarrow> kview (db s) (KXlogEntry c t r x y) \<noteq> Some (xlog_value b)"
      and same: "(x, y) \<in> graph_of s c t \<longleftrightarrow> (x, y) \<in> G0 c t" unfolding accounts_def by blast+
    have "overlay_state W x y = None" using st[of x y] no unfolding last_change_def by (metis not_Some_eq)
    then show ?thesis using same by (simp add: effective_def)
  qed
  then show "effective W (G0 c t) = graph_of s c t" by force
qed

subsection \<open>A sample history\<close>

definition sample_permit :: "string \<Rightarrow> unit result" where
  "sample_permit operation = Inr ()"

definition sample_index :: graph_index_generation where
  "sample_index = \<lparr>gi_cell_id = ''c'', gi_edge_type = ''T'', gi_base_sequence = 0, gi_last_wal_id = 0, gi_edge_count = 0, gi_checksum = 0,
     gi_generation = ''''\<rparr>"

definition sample_store :: "map_txn shard_state" where
  "sample_store = run_store_op map_ops sample_env sample_permit (EdgeOp (WriteEdge sample_write)) empty_shard"

lemma sample_valid: "valid_component ''c''" "valid_component ''T''" "valid_mutation sample_write"
  by (simp_all add: valid_mutation_def sample_write_def valid_component_def component_byte_def)

lemma sample_committed:
  "\<exists>res. committed is_meta (put_as (idem_create sample_write) (encode_commit_idempotency sample_write res)
     (insert_as sample_env sample_write 1 (opened empty_shard))) sample_store"
proof -
  let ?C = "\<lambda>res s'. committed is_meta (put_as (idem_create sample_write) (encode_commit_idempotency sample_write res)
     (insert_as sample_env sample_write 1 (opened empty_shard))) s'"
  have acc: "accepts sample_env (em_cell_id sample_write) empty_shard"
    by (simp add: accepts_def writable_def sample_env_def empty_shard_def empty_txn_def)
  have new: "\<not> edge_visible (db empty_shard) (em_cell_id sample_write) (em_edge_type sample_write) (em_src sample_write) (seq empty_shard) (em_dst sample_write)"
    by (simp add: edge_visible_in visible_in_def segment_in_def empty_shard_def empty_txn_def)
  have "wp (write_edge_txn_locked_with_metadata map_ops sample_env sample_write [] edge_metadata_default ''write_edge'') ?C empty_shard"
    by (rule wp_write_locked[OF acc sample_valid(3) wf_no_updates wf_default(2) _ refl])
      (use new in \<open>simp_all add: empty_shard_def empty_txn_def\<close>)
  then have "wp (write_edge map_ops sample_env sample_write) ?C empty_shard"
    using sample_valid(3) acc unfolding write_edge_def
    by (auto simp: validate_edge_mutation_def valid_mutation_def validate_component_iff accepts_def authority_ok prog_simps sample_env_def
        valid_component_def component_byte_def intro!: guarded_first)
  then show ?thesis unfolding wp_def sample_store_def by auto
qed

lemma sample_floor: "kview (db sample_store) (KXlogLowWater ''c'' ''T'') = Some (encode_u64 1)" "seq sample_store = 1" "wf_store (db sample_store)"
proof -
  obtain res where com: "committed is_meta (put_as (idem_create sample_write) (encode_commit_idempotency sample_write res)
     (insert_as sample_env sample_write 1 (opened empty_shard))) sample_store" using sample_committed by blast
  have "valid_key (KXlogLowWater ''c'' ''T'')" using valid_edge_keys[OF sample_valid(1,2)] by simp
  then have "kview (db sample_store) (KXlogLowWater ''c'' ''T'') = as_map (put_as (idem_create sample_write) (encode_commit_idempotency sample_write res)
     (insert_as sample_env sample_write 1 (opened empty_shard))) (KXlogLowWater ''c'' ''T'')"
    using com by (simp add: committed_def)
  also have "\<dots> = Some (encode_u64 1)"
    by (simp add: idem_create_def insert_as_def Let_def mark_as_def log_change_def set_floor_def mark_dirty_def sample_write_def empty_shard_def empty_txn_def opened_def)
  finally show "kview (db sample_store) (KXlogLowWater ''c'' ''T'') = Some (encode_u64 1)" .
  show "seq sample_store = 1" "wf_store (db sample_store)"
    using com by (simp_all add: committed_def insert_as_def Let_def empty_shard_def empty_txn_def)
qed

lemma sample_graph: "seq empty_shard = 0" "graph_of empty_shard c t = {}" "graph_of sample_store ''c'' ''T'' = {(1, 2)}"
proof -
  show e: "seq empty_shard = 0" "graph_of empty_shard c t = {}" for c t
    by (simp_all add: empty_shard_def empty_txn_def graph_of_def edges_in_def visible_in_def segment_in_def)
  let ?b = "insert_as sample_env sample_write (as_seq (opened empty_shard) + 1) (opened empty_shard)"
  obtain res where "committed is_meta (put_as (idem_create sample_write) (encode_commit_idempotency sample_write res)
     (insert_as sample_env sample_write 1 (opened empty_shard))) sample_store" using sample_committed by blast
  then have com: "committed is_meta (put_as (idem_create sample_write) (encode_commit_idempotency sample_write res) ?b) sample_store"
    using e(1) by simp
  have inv: "graph_inv sample_env 9 (as_map (opened empty_shard)) (as_seq (opened empty_shard))" using empty_inv by (simp add: store_inv_def)
  have new: "\<not> visible_in (as_map (opened empty_shard)) (em_cell_id sample_write) (em_edge_type sample_write) (em_src sample_write)
      (as_seq (opened empty_shard)) (em_dst sample_write)"
    by (simp add: visible_in_def segment_in_def empty_shard_def empty_txn_def)
  have q: "as_seq (opened empty_shard) \<noteq> - 1" using e(1) by simp
  have z: "em_src sample_write \<noteq> 9" "em_dst sample_write \<noteq> 9" by (simp_all add: sample_write_def)
  have seq: "as_seq (put_as (idem_create sample_write) (encode_commit_idempotency sample_write res) ?b) = seq empty_shard"
    by (simp add: insert_as_def Let_def)
  have "graph_step add_edge sample_write empty_shard sample_store"
    using committed_step[where sh = sample_env and z = 9 and change = add_edge and m = sample_write, OF com seq put_idem_same(1)] graph_inv_insert[OF inv q sample_valid(3) new z] by simp
  then show "graph_of sample_store ''c'' ''T'' = {(1, 2)}"
    using sample_valid e(2) by (simp add: graph_step_def sample_write_def add_edge_def)
qed

lemma seen_id [simp]: "seen (\<lambda>t. t) s = s"
  by simp

lemma sample_delta:
  "\<exists>W. xlog_delta_since (snapshot_of (db sample_store) 1) sample_index 1 ''c'' ''T'' = Inr (XlogComplete W)"
proof -
  have q: "gi_base_sequence sample_index \<noteq> - 1" "(1 :: u64) \<noteq> - 1" "(1 :: u64) \<le> saturating_add (gi_base_sequence sample_index) 1"
    by (simp_all add: sample_index_def saturating_add_def)
  from delta_exact[OF sample_floor(3) sample_valid(1,2) sample_floor(1) q(3,1,2)] show ?thesis by blast
qed

subsection \<open>Properties\<close>

text \<open>C7 (xlog_delta_exact). The delta of a pinned snapshot of a well-formed store: it is uninitialized exactly when no floor was ever
  recorded, a coverage gap exactly when the floor lies above the sequence after the old base, and otherwise complete; a
  complete delta maps each pair to the last state the changelog records for it after the old base and up to the new one, and
  holds no other pair.\<close>

theorem xlog_delta_exact:
  assumes "wf_store m" "valid_component c" "valid_component t" "gi_base_sequence previous \<noteq> - 1" "base \<noteq> - 1"
  shows "(kview m (KXlogLowWater c t) = None \<longrightarrow> xlog_delta_since (snapshot_of m q) previous base c t = Inr XlogUninitialized)
    \<and> (\<forall>low. kview m (KXlogLowWater c t) = Some (encode_u64 low) \<longrightarrow> gi_base_sequence previous + 1 < low \<longrightarrow>
         xlog_delta_since (snapshot_of m q) previous base c t = Inr (XlogCoverageGap low))
    \<and> (\<forall>low. kview m (KXlogLowWater c t) = Some (encode_u64 low) \<longrightarrow> low \<le> gi_base_sequence previous + 1 \<longrightarrow>
         (\<exists>W. xlog_delta_since (snapshot_of m q) previous base c t = Inr (XlogComplete W) \<and> overlay_ok W
           \<and> (\<forall>x y b. overlay_state W x y = Some b \<longleftrightarrow> last_change (kview m) c t (gi_base_sequence previous) base x y b)))"
proof -
  have sat: "saturating_add (gi_base_sequence previous) 1 = gi_base_sequence previous + 1"
    using checked_add_one[OF assms(4)] by (simp add: checked_add_def saturating_add_def split: if_splits)
  have "xlog_delta_since (snapshot_of m q) previous base c t = Inr XlogUninitialized" if "kview m (KXlogLowWater c t) = None"
    using that by (simp add: xlog_delta_since_def kview_def)
  moreover have "xlog_delta_since (snapshot_of m q) previous base c t = Inr (XlogCoverageGap low)"
    if "kview m (KXlogLowWater c t) = Some (encode_u64 low)" "gi_base_sequence previous + 1 < low" for low
    using that by (simp add: xlog_delta_since_def kview_def sat Let_def)
  ultimately show ?thesis using delta_exact[OF assms(1-3) _ _ assms(4,5), of _ q, unfolded sat] by blast
qed

text \<open>Witness of C7 (xlog_delta_exact): the store after one write, seen from the empty index.\<close>

theorem xlog_delta_exact_witness:
  "\<exists>W. xlog_delta_since (snapshot_of (db sample_store) 1) sample_index 1 ''c'' ''T'' = Inr (XlogComplete W) \<and> overlay_ok W"
proof -
  have q: "gi_base_sequence sample_index \<noteq> - 1" "(1 :: u64) \<noteq> - 1" "(1 :: u64) \<le> gi_base_sequence sample_index + 1"
    by (simp_all add: sample_index_def)
  from xlog_delta_exact[OF sample_floor(3) sample_valid(1,2) q(1,2), of 1] sample_floor(1) q(3) show ?thesis by blast
qed

text \<open>An incremental index build gives the index a full build gives, through any history of edge writes
  and deletes on a store that may fail at any operation, and of changelog collections against indexes no newer than the one
  that is patched: when the changelog covers the time since the previous index, patching that index with the delta yields
  the canonical adjacency of the current graph, and so the same compressed matrix.\<close>

theorem incremental_build_exact:
  assumes "txn_faults ops view" "store_inv sh z (seen view s0)" "\<forall>p \<in> set history. store_op_ok z (seq (seen view s0)) p"
    and "s = fold (run_store_op ops sh permit) history s0" "seq (seen view s) \<noteq> - 1"
    and "valid_component c" "valid_component t" "pinned snap (db (seen view s))"
    and "gi_base_sequence previous = seq (seen view s0)"
    and "xlog_delta_since snap previous (seq (seen view s)) c t = Inr (XlogComplete W)"
    and "adj_tight A" "adj_edges A = graph_of (seen view s0) c t" "adj_tight B" "adj_edges B = graph_of (seen view s) c t"
  shows "patch_adjacency W A = B \<and> graphblas_csc_from_adjacency (patch_adjacency W A) = graphblas_csc_from_adjacency B"
proof -
  have inv: "since_inv sh z (seq (seen view s0)) (graph_of (seen view s0)) (seen view s)"
    unfolding assms(4) by (rule history_since[OF assms(1,3) since_inv_start[OF assms(2)]])
  note delta = pinned.delta_agrees[OF assms(8,10), of 0]
  note W = delta_effective[OF inv assms(6,7,5,9) delta]
  have "patch_adjacency W A = B"
    using patch_adjacency_spec[OF assms(11) W(1)] W(2) assms(12-14) by (intro adj_tight_ext) simp_all
  then show ?thesis by simp
qed

text \<open>Witness of incremental_build_exact: one write after the empty index.\<close>

theorem incremental_build_exact_witness:
  "\<exists>W. xlog_delta_since (snapshot_of (db sample_store) 1) sample_index 1 ''c'' ''T'' = Inr (XlogComplete W)
     \<and> patch_adjacency W [] = [(1, [2])]"
proof -
  obtain W where W: "xlog_delta_since (snapshot_of (db sample_store) 1) sample_index 1 ''c'' ''T'' = Inr (XlogComplete W)"
    using sample_delta by blast
  have run: "sample_store = fold (run_store_op map_ops sample_env sample_permit) [EdgeOp (WriteEdge sample_write)] empty_shard"
    by (simp add: sample_store_def)
  have A: "adj_tight []" "adj_edges [] = {}" "adj_tight [(1, [2])]" "adj_edges [(1, [2])] = {(1, 2)}"
    by (auto simp: adj_tight_def adj_edges_def bt_ok_def bs_ok_def bt_get_def split: if_splits)
  have acts: "\<forall>p \<in> set [EdgeOp (WriteEdge sample_write)]. store_op_ok 9 (seq empty_shard) p" by (simp add: sample_write_def)
  note build = incremental_build_exact[where view = "\<lambda>t. t" and s = sample_store and snap = "snapshot_of (db sample_store) 1", unfolded seen_id,
      OF exact.txn_faults_axioms empty_inv acts run _ sample_valid(1,2) exact_snapshot.pinned_axioms _ _ A(1) _ A(3)]
  have "patch_adjacency W [] = [(1, [2])]"
    using build[of sample_index W] W sample_graph sample_floor(2) A by (simp add: sample_index_def)
  then show ?thesis using W by blast
qed

subsection \<open>Two weaknesses of the floor\<close>

text \<open>A collection pass that reaches its cap leaves the floor at a sequence of which it has deleted an entry.\<close>

lemma capped_pass_deletes_at_floor:
  assumes "valid_component c" "valid_component t"
    and "gc_scan cap (xlog_type_prefix c t) thr (map (entry_kv c t) ts) [] low = Inr (dead, floor, True)"
  shows "\<exists>x y. xlog_entry c t floor x y \<in> set dead"
proof -
  obtain us where us: "dead = map (\<lambda>p. fst (entry_kv c t p)) us" "us \<noteq> []" "floor = fst (fst (last us))"
    using gc_scan_entries[OF assms(1,2), of cap thr ts "[]" low] assms(3) by auto
  have "fst (entry_kv c t (last us)) \<in> set dead" using us(1,2) by simp
  then show ?thesis unfolding us(3) entry_kv_def family_kv_def entry_key_def by auto
qed

text \<open>Two changes of one edge type in one transaction, as bulk imports and batches make them: the second reads the pending floor of
  the first and caches it, although the transaction has not committed.\<close>

definition two_changes :: "(map_txn shard_state, unit) prog" where
  "two_changes = pbind (txn_begin map_ops) (\<lambda>_.
     pbind (mark_topology_change_txn map_ops ''c'' ''T'' 1 [(1, 2, True)]) (\<lambda>_.
       mark_topology_change_txn map_ops ''c'' ''T'' 1 [(1, 3, True)]))"

lemma floor_cached_before_commit:
  "floor_token ''c'' ''T'' \<in> set (ss_floor (snd (two_changes empty_shard)))
   \<and> bt_get (db (snd (two_changes empty_shard))) (xlog_low_water ''c'' ''T'') = None"
  by code_simp

end
