(* ===== verification/Matrix_Rows.thy ===== *)
theory Matrix_Rows
  imports Snapshot_Read Topology_Overlay Changelog_History
begin

text \<open>
  The full scan behind an index build: \<^verbatim>\<open>MatrixRows\<close> of \<^verbatim>\<open>src/engine.rs\<close> and \<^verbatim>\<open>current_matrix_rows\<close>,
  \<^verbatim>\<open>current_out_segment_tombstones\<close> and \<^verbatim>\<open>canonical_adjacency_at\<close> of \<^verbatim>\<open>src/engine/artifact_build.rs\<close>. The scans
  run inside a pinned snapshot. Both scan loops push edges into the rows under a limit; \<open>push_limited\<close> is their common
  step, and the lemmas show that the rows hold exactly the visible edges of the type.
\<close>

subsection \<open>Rows\<close>

record matrix_rows =
  mr_rows :: "(vertex_id, vertex_id list) btmap"
  mr_raw_edges :: u64
  mr_live_edges :: u64

definition matrix_rows_default :: matrix_rows where
  "matrix_rows_default = \<lparr>mr_rows = [], mr_raw_edges = 0, mr_live_edges = 0\<rparr>"

definition matrix_rows_push :: "vertex_id \<Rightarrow> vertex_id \<Rightarrow> matrix_rows \<Rightarrow> matrix_rows" where
  "matrix_rows_push src dst rows =
     rows\<lparr>mr_rows := bt_insert src ((case bt_get (mr_rows rows) src of None \<Rightarrow> [] | Some ds \<Rightarrow> ds) @ [dst]) (mr_rows rows),
          mr_raw_edges := saturating_add (mr_raw_edges rows) 1\<rparr>"

definition matrix_rows_normalize :: "matrix_rows \<Rightarrow> matrix_rows" where
  "matrix_rows_normalize rows =
     (let normal = map (\<lambda>(src, destinations). (src, remdups_adj (sort destinations))) (mr_rows rows) in
      rows\<lparr>mr_rows := filter (\<lambda>p. snd p \<noteq> []) normal,
           mr_live_edges := fold (\<lambda>p live_edges. saturating_add live_edges (word_of_nat (length (snd p)))) normal 0\<rparr>)"

definition matrix_rows_to_adjacency :: "matrix_rows \<Rightarrow> adjacency" where
  "matrix_rows_to_adjacency rows = bt_extend [] (map (\<lambda>(src, destinations). (src, bs_extend [] destinations)) (mr_rows rows))"

subsection \<open>Scans\<close>

definition edge_row_step :: "u64 \<Rightarrow> bytes \<times> bytes \<Rightarrow> matrix_rows \<Rightarrow> matrix_rows result" where
  "edge_row_step max_artifact_build_edges kv rows =
     rbind (decode_edge_record (from_utf8_lossy (fst kv)) (snd kv)) (\<lambda>record.
       let rows = matrix_rows_push (er_src record) (er_dst record) rows in
       rbind (ensure_limit ''build_matrix_tiles_edges'' (mr_raw_edges rows) max_artifact_build_edges) (\<lambda>_. Inr rows))"

definition type_tombstone_step ::
    "string \<Rightarrow> string \<Rightarrow> storage_sequence \<Rightarrow> bytes \<times> bytes
     \<Rightarrow> (vertex_id \<times> vertex_id, storage_sequence) btmap \<Rightarrow> (vertex_id \<times> vertex_id, storage_sequence) btmap result" where
  "type_tombstone_step cell_id edge_type base_epoch kv tombstones =
     (let key = from_utf8_lossy (fst kv) in
      rbind (parse_out_edge_segment_tombstone_key key) (\<lambda>(key_cell_id, key_edge_type, src, dst).
        if key_cell_id \<noteq> cell_id \<or> key_edge_type \<noteq> edge_type then
          Inl (CorruptValue key ''segment tombstone identity does not match scan prefix'')
        else rbind (decode_u64 key (snd kv)) (\<lambda>epoch.
          Inr (if epoch \<le> base_epoch then bt_insert (src, dst) epoch tombstones else tombstones))))"

definition current_out_segment_tombstones ::
    "storage_snapshot \<Rightarrow> string \<Rightarrow> string \<Rightarrow> storage_sequence \<Rightarrow> (vertex_id \<times> vertex_id, storage_sequence) btmap result" where
  "current_out_segment_tombstones snapshot cell_id edge_type base_epoch =
     rbind (sn_scan snapshot (out_segment_tombstone_edge_type_prefix cell_id edge_type)) (\<lambda>kvs.
       rfold (type_tombstone_step cell_id edge_type base_epoch) kvs [])"

definition segment_row_destination ::
    "u64 \<Rightarrow> (vertex_id \<times> vertex_id, storage_sequence) btmap \<Rightarrow> out_edge_segment \<Rightarrow> vertex_id \<Rightarrow> matrix_rows \<Rightarrow> matrix_rows result" where
  "segment_row_destination max_artifact_build_edges tombstones segment dst rows =
     (if segment_edge_visible (os_storage_sequence segment) (bt_get tombstones (os_src segment, dst)) then
        let rows = matrix_rows_push (os_src segment) dst rows in
        rbind (ensure_limit ''build_matrix_tiles_edges'' (mr_raw_edges rows) max_artifact_build_edges) (\<lambda>_. Inr rows)
      else Inr rows)"

definition segment_row_step ::
    "u64 \<Rightarrow> storage_sequence \<Rightarrow> (vertex_id \<times> vertex_id, storage_sequence) btmap \<Rightarrow> bytes \<times> bytes \<Rightarrow> matrix_rows \<Rightarrow> matrix_rows result" where
  "segment_row_step max_artifact_build_edges base_epoch tombstones kv rows =
     rbind (decode_out_edge_segment (from_utf8_lossy (fst kv)) (snd kv)) (\<lambda>segment.
       if base_epoch < os_storage_sequence segment then Inr rows
       else rfold (segment_row_destination max_artifact_build_edges tombstones segment) (os_destinations segment) rows)"

definition current_matrix_rows :: "u64 \<Rightarrow> storage_snapshot \<Rightarrow> string \<Rightarrow> string \<Rightarrow> storage_sequence \<Rightarrow> matrix_rows result" where
  "current_matrix_rows max_artifact_build_edges snapshot cell_id edge_type base_epoch =
     rbind (sn_scan snapshot (out_edge_type_prefix cell_id edge_type)) (\<lambda>kvs.
     rbind (rfold (edge_row_step max_artifact_build_edges) kvs matrix_rows_default) (\<lambda>rows.
     rbind (current_out_segment_tombstones snapshot cell_id edge_type base_epoch) (\<lambda>tombstones.
     rbind (sn_scan snapshot (out_segment_edge_type_prefix cell_id edge_type)) (\<lambda>kvs.
       rfold (segment_row_step max_artifact_build_edges base_epoch tombstones) kvs rows))))"

definition canonical_adjacency_at :: "u64 \<Rightarrow> storage_snapshot \<Rightarrow> string \<Rightarrow> string \<Rightarrow> storage_sequence \<Rightarrow> adjacency result" where
  "canonical_adjacency_at max_artifact_build_edges snapshot cell_id edge_type read_epoch =
     rbind (current_matrix_rows max_artifact_build_edges snapshot cell_id edge_type read_epoch) (\<lambda>rows.
       Inr (matrix_rows_to_adjacency (matrix_rows_normalize rows)))"

subsection \<open>Pushing under the limit\<close>

definition push_limited :: "u64 \<Rightarrow> vertex_id \<times> vertex_id \<Rightarrow> matrix_rows \<Rightarrow> matrix_rows result" where
  "push_limited cap p rows =
     (let rows = matrix_rows_push (fst p) (snd p) rows in
      rbind (ensure_limit ''build_matrix_tiles_edges'' (mr_raw_edges rows) cap) (\<lambda>_. Inr rows))"

definition push_all :: "(vertex_id \<times> vertex_id) list \<Rightarrow> matrix_rows \<Rightarrow> matrix_rows" where
  "push_all = fold (\<lambda>p. matrix_rows_push (fst p) (snd p))"

text \<open>The limit decides only whether the pushes are accepted: they are all made, or the build is refused.\<close>

lemma push_limited_run:
  "rfold (push_limited cap) es rows = Inr (push_all es rows)
   \<or> (\<exists>n. rfold (push_limited cap) es rows = Inl (AdmissionRejected ''build_matrix_tiles_edges'' n cap) \<and> cap < n)"
proof (induction es arbitrary: rows)
  case (Cons e es)
  then show ?case by (auto simp: push_limited_def push_all_def ensure_limit_def Let_def)
qed (simp add: push_all_def)

lemma push_limited_open: "rfold (push_limited (- 1)) es rows = Inr (push_all es rows)"
  by (induction es arbitrary: rows) (simp_all add: push_limited_def push_all_def ensure_limit_def Let_def not_less)

definition rows_ok :: "matrix_rows \<Rightarrow> bool" where
  "rows_ok rows \<longleftrightarrow> bt_ok (mr_rows rows) \<and> (\<forall>s ds. bt_get (mr_rows rows) s = Some ds \<longrightarrow> ds \<noteq> [])"

lemma push_all_edges:
  assumes "rows_ok rows"
  shows "rows_ok (push_all es rows) \<and> adj_edges (mr_rows (push_all es rows)) = adj_edges (mr_rows rows) \<union> set es"
  using assms
proof (induction es arbitrary: rows)
  case (Cons e es)
  have ok: "rows_ok (matrix_rows_push (fst e) (snd e) rows)"
    using Cons.prems by (auto simp: rows_ok_def matrix_rows_push_def bt_get_insert split: if_splits)
  have "adj_edges (mr_rows (matrix_rows_push (fst e) (snd e) rows)) = adj_edges (mr_rows rows) \<union> {e}"
    using Cons.prems by (auto simp: rows_ok_def matrix_rows_push_def adj_edges_def bt_get_insert prod_eq_iff split: option.splits if_splits)
  with Cons.IH[OF ok] show ?case by (auto simp: push_all_def)
qed (simp add: push_all_def)

subsection \<open>Normal form\<close>

lemma bt_get_map: "bt_get (map (\<lambda>(k, v). (k, f v)) m) k = map_option f (bt_get m k)"
  by (induction m) (auto simp: bt_get_def)

lemma bt_ok_map: "bt_ok m \<Longrightarrow> bt_ok (map (\<lambda>(k, v). (k, f v)) m)"
  by (simp add: bt_ok_def comp_def case_prod_beta)

lemma filter_all: "\<forall>x \<in> set xs. P x \<Longrightarrow> filter P xs = xs"
  by simp

lemma adjacency_of_rows:
  assumes "rows_ok rows"
  shows "adj_tight (matrix_rows_to_adjacency (matrix_rows_normalize rows))
    \<and> adj_edges (matrix_rows_to_adjacency (matrix_rows_normalize rows)) = adj_edges (mr_rows rows)"
proof -
  let ?R = "mr_rows rows" and ?f = "\<lambda>ds :: vertex_id list. remdups_adj (sort ds)" and ?g = "\<lambda>ds :: vertex_id list. bs_extend [] (remdups_adj (sort ds))"
  have ok: "bt_ok ?R" and ne: "\<forall>p \<in> set ?R. snd p \<noteq> []"
    using assms bt_get_Some_iff[of ?R] by (auto simp: rows_ok_def)
  have "?f ds \<noteq> []" if "ds \<noteq> []" for ds using that by (metis remdups_adj_Nil_iff set_empty set_sort)
  then have keep: "filter (\<lambda>p. snd p \<noteq> []) (map (\<lambda>(s, ds). (s, ?f ds)) ?R) = map (\<lambda>(s, ds). (s, ?f ds)) ?R"
    using ne by (intro filter_all) auto
  have twice: "map (\<lambda>(s, ds). (s, bs_extend [] ds)) (map (\<lambda>(s, ds). (s, ?f ds)) ?R) = map (\<lambda>(s, ds). (s, ?g ds)) ?R"
    by (simp add: comp_def case_prod_beta)
  have normal: "mr_rows (matrix_rows_normalize rows) = map (\<lambda>(s, ds). (s, ?f ds)) ?R"
    unfolding matrix_rows_normalize_def Let_def keep by simp
  have A: "matrix_rows_to_adjacency (matrix_rows_normalize rows) = map (\<lambda>(s, ds). (s, ?g ds)) ?R"
    unfolding matrix_rows_to_adjacency_def normal twice
    using bt_extend_rebuild[of "[]"] bt_ok_map[OF ok, of ?g] by simp
  have set_g: "set (?g ds) = set ds" for ds by simp
  have "adj_tight (map (\<lambda>(s, ds). (s, ?g ds)) ?R)"
    unfolding adj_tight_def list_all_iff
  proof (intro conjI ballI)
    show "bt_ok (map (\<lambda>(s, ds). (s, ?g ds)) ?R)" by (rule bt_ok_map[OF ok])
    fix p assume "p \<in> set (map (\<lambda>(s, ds). (s, ?g ds)) ?R)"
    then obtain s ds where p: "p = (s, ?g ds)" "(s, ds) \<in> set ?R" by auto
    then have "ds \<noteq> []" using ne by force
    then have "set (?g ds) \<noteq> {}" by simp
    then show "bs_ok (snd p)" "snd p \<noteq> []" unfolding p(1) snd_conv set_empty using bs_ok_extend[of "[]"] by (simp_all add: bs_ok_def)
  qed
  moreover have "adj_edges (map (\<lambda>(s, ds). (s, ?g ds)) ?R) = adj_edges ?R"
    by (auto simp: adj_edges_def bt_get_map)
  ultimately show ?thesis by (simp add: A)
qed

subsection \<open>What the scans read\<close>

lemma type_prefix_render:
  assumes k: "valid_key k" and v: "valid_component c" "valid_component t"
  shows "starts_with (out_edge_type_prefix c t) (render k) \<longleftrightarrow> (\<exists>p. k = KOutEdge c t (fst p) (snd p))"
    and "starts_with (out_segment_edge_type_prefix c t) (render k) \<longleftrightarrow> (\<exists>p. k = KOutSegment c t (fst p) (fst (snd p)) (snd (snd p)))"
    and "starts_with (out_segment_tombstone_edge_type_prefix c t) (render k) \<longleftrightarrow> (\<exists>p. k = KOutTombstone c t (fst p) (snd p))"
proof -
  have e: "out_edge_type_prefix c t = join_with SLASH [''cell'', c, ''e'', ''out'', t] @ [SLASH]"
    "out_segment_edge_type_prefix c t = join_with SLASH [''cell'', c, ''seg'', ''out'', t] @ [SLASH]"
    "out_segment_tombstone_edge_type_prefix c t = join_with SLASH [''cell'', c, ''seg'', ''tomb'', ''out'', t] @ [SLASH]"
    by (simp_all add: key_defs)
  have p1: "(\<exists>rs. rs \<noteq> [] \<and> key_parts k = [''cell'', c, ''e'', ''out'', t] @ rs) \<longleftrightarrow> (\<exists>p. k = KOutEdge c t (fst p) (snd p))" by (cases k) auto
  have p2: "(\<exists>rs. rs \<noteq> [] \<and> key_parts k = [''cell'', c, ''seg'', ''out'', t] @ rs) \<longleftrightarrow> (\<exists>p. k = KOutSegment c t (fst p) (fst (snd p)) (snd (snd p)))" by (cases k) auto
  have p3: "(\<exists>rs. rs \<noteq> [] \<and> key_parts k = [''cell'', c, ''seg'', ''tomb'', ''out'', t] @ rs) \<longleftrightarrow> (\<exists>p. k = KOutTombstone c t (fst p) (snd p))" by (cases k) auto
  note go = prefix_render[OF k]
  show "starts_with (out_edge_type_prefix c t) (render k) \<longleftrightarrow> (\<exists>p. k = KOutEdge c t (fst p) (snd p))"
    unfolding e p1[symmetric] by (rule go) (use v literal_component in simp_all)
  show "starts_with (out_segment_edge_type_prefix c t) (render k) \<longleftrightarrow> (\<exists>p. k = KOutSegment c t (fst p) (fst (snd p)) (snd (snd p)))"
    unfolding e p2[symmetric] by (rule go) (use v literal_component in simp_all)
  show "starts_with (out_segment_tombstone_edge_type_prefix c t) (render k) \<longleftrightarrow> (\<exists>p. k = KOutTombstone c t (fst p) (snd p))"
    unfolding e p3[symmetric] by (rule go) (use v literal_component in simp_all)
qed

lemma edge_row_kv:
  assumes "valid_component c" "valid_component t"
  shows "rfold (edge_row_step cap) (map (family_kv (\<lambda>p. KOutEdge c t (fst p) (snd p)) (\<lambda>u :: unit. edge_record_text)) ts) rows
    = rfold (push_limited cap) (map fst ts) rows"
proof (induction ts arbitrary: rows)
  case (Cons p ts)
  have "edge_row_step cap (family_kv (\<lambda>p. KOutEdge c t (fst p) (snd p)) (\<lambda>u. edge_record_text) p) rows = push_limited cap (fst p) rows"
    unfolding edge_row_step_def family_kv_def fst_conv snd_conv push_limited_def
    by (subst render_lossy[OF valid_segment_keys(2)[OF assms]], subst decode_edge_key[OF assms]) simp
  then show ?case using Cons by (cases "push_limited cap (fst p) rows") simp_all
qed simp

lemma type_tombstone_kv:
  assumes "valid_component c" "valid_component t"
  shows "rfold (type_tombstone_step c t q) (map (family_kv (\<lambda>p. KOutTombstone c t (fst p) (snd p)) encode_u64) ts) acc
    = Inr (bt_extend acc (filter (\<lambda>p. snd p \<le> q) ts))"
proof (induction ts arbitrary: acc)
  case (Cons p ts)
  have "type_tombstone_step c t q (family_kv (\<lambda>p. KOutTombstone c t (fst p) (snd p)) encode_u64 p) acc
      = Inr (if snd p \<le> q then bt_insert (fst p) (snd p) acc else acc)"
    using parse_tombstone_key[OF assms] render_lossy[OF valid_segment_keys(1)[OF assms]]
    by (simp add: type_tombstone_step_def family_kv_def Let_def)
  then show ?case using Cons by (simp add: bt_extend_def split_beta)
qed (simp add: bt_extend_def)

definition segment_pushes ::
    "storage_sequence \<Rightarrow> (vertex_id \<times> vertex_id, storage_sequence) btmap \<Rightarrow> (vertex_id \<times> storage_sequence \<times> string) \<times> vertex_id list
     \<Rightarrow> (vertex_id \<times> vertex_id) list" where
  "segment_pushes r T p = (case p of ((x, q, g), ds) \<Rightarrow>
     if r < q then [] else map (Pair x) (filter (\<lambda>d. segment_edge_visible q (bt_get T (x, d))) ds))"

lemma segment_destinations_run:
  "rfold (segment_row_destination cap T seg) ds rows = rfold (push_limited cap)
     (map (Pair (os_src seg)) (filter (\<lambda>d. segment_edge_visible (os_storage_sequence seg) (bt_get T (os_src seg, d))) ds)) rows"
proof (induction ds arbitrary: rows)
  case (Cons d ds)
  have "segment_row_destination cap T seg d rows = (if segment_edge_visible (os_storage_sequence seg) (bt_get T (os_src seg, d))
      then push_limited cap (os_src seg, d) rows else Inr rows)"
    by (simp add: segment_row_destination_def push_limited_def)
  then show ?case using Cons by (cases "push_limited cap (os_src seg, d) rows") simp_all
qed simp

lemma segment_row_kv:
  assumes v: "valid_component c" "valid_component t"
  shows "\<forall>p \<in> set ss. valid_component (snd (snd (fst p))) \<and> 8 * length (snd p) < 2 ^ 64 \<Longrightarrow>
    rfold (segment_row_step cap r T) (map (family_kv (\<lambda>p. KOutSegment c t (fst p) (fst (snd p)) (snd (snd p))) encode_out_edge_segment_records) ss) rows
    = rfold (push_limited cap) (concat (map (segment_pushes r T) ss)) rows"
proof (induction ss arbitrary: rows)
  case (Cons p ss)
  obtain x q g ds where p: "p = ((x, q, g), ds)" by (metis prod.collapse)
  have g: "valid_component g" "8 * length ds < 2 ^ 64" using Cons.prems p by simp_all
  note dec = decode_segment_encode[OF v g, of x q] and lossy = render_lossy[OF valid_segment_keys(3)[OF v, THEN iffD2, OF g(1)], of x q]
  have "segment_row_step cap r T (family_kv (\<lambda>p. KOutSegment c t (fst p) (fst (snd p)) (snd (snd p))) encode_out_edge_segment_records p) rows
      = rfold (push_limited cap) (segment_pushes r T p) rows"
    unfolding p segment_row_step_def family_kv_def fst_conv snd_conv segment_pushes_def prod.case
    using dec lossy by (simp add: segment_destinations_run)
  then show ?case using Cons by (cases "rfold (push_limited cap) (segment_pushes r T p) rows") (simp_all add: rfold_append)
qed simp

text \<open>On a store, the rows are the pushes of the visible edges, whatever the limit says of their number.\<close>

lemma current_rows_pushes:
  assumes wf: "wf_store m" and v: "valid_component c" "valid_component t"
  shows "\<exists>es. set es = {(x, y). edge_visible m c t x r y}
    \<and> (\<forall>cap. current_matrix_rows cap (snapshot_of m q) c t r = rfold (push_limited cap) es matrix_rows_default)"
proof -
  let ?E = "\<lambda>p. KOutEdge c t (fst p) (snd p)" and ?T = "\<lambda>p. KOutTombstone c t (fst p) (snd p)"
    and ?S = "\<lambda>p. KOutSegment c t (fst p) (fst (snd p)) (snd (snd p))" and ?e = "\<lambda>u :: unit. edge_record_text"
  have keyed: "well_keyed m" by (rule wf_store_keyed[OF wf])
  have inj: "inj ?E" "inj ?T" "inj ?S" by (auto intro!: injI simp: prod_eq_iff)
  have "\<exists>ts. scan (out_edge_type_prefix c t) m = map (family_kv ?E ?e) ts
      \<and> sorted_wrt (<) (map (\<lambda>p. render (?E (fst p))) ts)
      \<and> (\<forall>x u. (x, u) \<in> set ts \<longleftrightarrow> valid_key (?E x) \<and> kview m (?E x) = Some (?e u))"
    by (rule scan_family[OF keyed type_prefix_render(1)[OF _ v] _ inj(1)]) (auto simp: inj_on_def dest: wf_store_record[OF wf])
  then obtain ts where ts: "scan (out_edge_type_prefix c t) m = map (family_kv ?E ?e) ts"
    "\<And>x u. (x, u) \<in> set ts \<longleftrightarrow> valid_key (?E x) \<and> kview m (?E x) = Some (?e u)" by blast
  have "\<exists>ts. scan (out_segment_tombstone_edge_type_prefix c t) m = map (family_kv ?T encode_u64) ts
      \<and> sorted_wrt (<) (map (\<lambda>p. render (?T (fst p))) ts)
      \<and> (\<forall>x u. (x, u) \<in> set ts \<longleftrightarrow> valid_key (?T x) \<and> kview m (?T x) = Some (encode_u64 u))"
    by (rule scan_family[OF keyed type_prefix_render(3)[OF _ v] _ inj(2) inj_encode_u64]) (auto dest: wf_store_record[OF wf])
  then obtain ks where ks: "scan (out_segment_tombstone_edge_type_prefix c t) m = map (family_kv ?T encode_u64) ks"
    "sorted_wrt (<) (map (\<lambda>p. render (?T (fst p))) ks)"
    "\<And>x u. (x, u) \<in> set ks \<longleftrightarrow> valid_key (?T x) \<and> kview m (?T x) = Some (encode_u64 u)" by blast
  have seg_dec: "\<exists>u. w = encode_out_edge_segment_records u" if "valid_key (KOutSegment c t x s g)" "kview m (KOutSegment c t x s g) = Some w" for x s g w
    using wf_store_record[OF wf that] by auto
  have "\<exists>ts. scan (out_segment_edge_type_prefix c t) m = map (family_kv ?S encode_out_edge_segment_records) ts
      \<and> sorted_wrt (<) (map (\<lambda>p. render (?S (fst p))) ts)
      \<and> (\<forall>x u. (x, u) \<in> set ts \<longleftrightarrow> valid_key (?S x) \<and> kview m (?S x) = Some (encode_out_edge_segment_records u))"
    by (rule scan_family[OF keyed type_prefix_render(2)[OF _ v] _ inj(3) inj_encode_segment]) (use seg_dec in auto)
  then obtain ss where ss: "scan (out_segment_edge_type_prefix c t) m = map (family_kv ?S encode_out_edge_segment_records) ss"
    "\<And>x u. (x, u) \<in> set ss \<longleftrightarrow> valid_key (?S x) \<and> kview m (?S x) = Some (encode_out_edge_segment_records u)" by blast
  define T where "T = bt_extend [] (filter (\<lambda>p. snd p \<le> r) ks)"
  have "distinct (map fst (filter (\<lambda>p. snd p \<le> r) ks))"
    using distinct_fst_render[OF ks(2)] by (simp add: distinct_map_filter)
  note T = bt_get_extend_distinct[OF this, folded T_def]
  have T_iff: "bt_get T (x, y) = Some e \<longleftrightarrow> kview m (KOutTombstone c t x y) = Some (encode_u64 e) \<and> e \<le> r" for x y e
  proof -
    have "bt_get T (x, y) = Some e \<longleftrightarrow> ((x, y), e) \<in> set (filter (\<lambda>p. snd p \<le> r) ks)"
      unfolding T by (rule map_of_eq_Some_iff) (use distinct_fst_render[OF ks(2)] in \<open>simp add: distinct_map_filter\<close>)
    then show ?thesis using ks(3)[of "(x, y)" e] valid_segment_keys(1)[OF v] by auto
  qed
  have hidden: "segment_edge_visible s (bt_get T (x, y)) \<longleftrightarrow> (\<forall>e. kview m (KOutTombstone c t x y) = Some (encode_u64 e) \<and> e \<le> r \<longrightarrow> e < s)" for x y s
    unfolding T_iff[symmetric] segment_edge_visible_def by (cases "bt_get T (x, y)") auto
  have seg_ok: "\<forall>p \<in> set ss. valid_component (snd (snd (fst p))) \<and> 8 * length (snd p) < 2 ^ 64"
  proof
    fix p assume "p \<in> set ss"
    then have "valid_key (?S (fst p))" "kview m (?S (fst p)) = Some (encode_out_edge_segment_records (snd p))" using ss(2)[of "fst p" "snd p"] by simp_all
    with wf_store_record[OF wf this] show "valid_component (snd (snd (fst p))) \<and> 8 * length (snd p) < 2 ^ 64"
      using valid_segment_keys(3)[OF v] inj_encode_segment by (auto simp: inj_eq)
  qed
  have direct: "p \<in> fst ` set ts \<longleftrightarrow> kview m (?E p) \<noteq> None" for p
  proof -
    have "kview m (?E p) \<noteq> None \<longleftrightarrow> kview m (?E p) = Some edge_record_text"
      using wf_store_record[OF wf valid_segment_keys(2)[OF v], of "fst p" "snd p"] by auto
    then show ?thesis using ts(2)[of p "()"] valid_segment_keys(2)[OF v] by force
  qed
  have pushed: "(x, y) \<in> set (concat (map (segment_pushes r T) ss)) \<longleftrightarrow> (\<exists>s. segment_visible m c t x r y s)" for x y
  proof -
    have one: "(x, y) \<in> set (segment_pushes r T p) \<longleftrightarrow> (\<exists>s g ds. p = ((x, s, g), ds) \<and> s \<le> r \<and> y \<in> set ds \<and> segment_edge_visible s (bt_get T (x, y)))" for p
      by (cases p) (auto simp: segment_pushes_def not_less)
    have "(x, y) \<in> set (concat (map (segment_pushes r T) ss)) \<longleftrightarrow> (\<exists>p \<in> set ss. (x, y) \<in> set (segment_pushes r T p))" by simp
    then have "(x, y) \<in> set (concat (map (segment_pushes r T) ss))
        \<longleftrightarrow> (\<exists>s g ds. ((x, s, g), ds) \<in> set ss \<and> s \<le> r \<and> y \<in> set ds \<and> segment_edge_visible s (bt_get T (x, y)))"
      unfolding one by blast
    moreover have "segment_visible m c t x r y s \<longleftrightarrow> s \<le> r \<and> (\<exists>g ds. valid_component g \<and> kview m (KOutSegment c t x s g) = Some (encode_out_edge_segment_records ds)
        \<and> y \<in> set ds) \<and> segment_edge_visible s (bt_get T (x, y))" for s unfolding segment_visible_def hidden by (rule refl)
    ultimately show ?thesis unfolding ss(2) fst_conv snd_conv valid_segment_keys(3)[OF v] by blast
  qed
  let ?es = "map fst ts @ concat (map (segment_pushes r T) ss)"
  have "(x, y) \<in> set ?es \<longleftrightarrow> edge_visible m c t x r y" for x y
    unfolding set_append Un_iff set_map direct pushed edge_visible_def fst_conv snd_conv by (rule refl)
  then have "set ?es = {(x, y). edge_visible m c t x r y}" by auto
  moreover have "current_matrix_rows cap (snapshot_of m q) c t r = rfold (push_limited cap) ?es matrix_rows_default" for cap
  proof -
    have "current_out_segment_tombstones (snapshot_of m q) c t r = Inr T"
      by (simp add: current_out_segment_tombstones_def ks(1) type_tombstone_kv[OF v] T_def)
    then show ?thesis
      by (simp add: current_matrix_rows_def ts(1) ss(1) edge_row_kv[OF v] segment_row_kv[OF v seg_ok] rfold_append)
  qed
  ultimately show ?thesis by blast
qed

lemma default_rows_ok: "rows_ok matrix_rows_default" "adj_edges (mr_rows matrix_rows_default) = {}"
  by (simp_all add: rows_ok_def matrix_rows_default_def adj_edges_def)

lemma full_scan_cases:
  assumes "wf_store m" "valid_component c" "valid_component t"
  shows "(\<exists>A. canonical_adjacency_at cap (snapshot_of m q) c t r = Inr A \<and> adj_tight A \<and> adj_edges A = {(x, y). edge_visible m c t x r y})
    \<or> (cap \<noteq> - 1 \<and> (\<exists>n. canonical_adjacency_at cap (snapshot_of m q) c t r = Inl (AdmissionRejected ''build_matrix_tiles_edges'' n cap) \<and> cap < n))"
proof -
  obtain es where es: "set es = {(x, y). edge_visible m c t x r y}"
    "current_matrix_rows cap (snapshot_of m q) c t r = rfold (push_limited cap) es matrix_rows_default"
    using current_rows_pushes[OF assms, of r q] by blast
  let ?R = "push_all es matrix_rows_default"
  have R: "rows_ok ?R" "adj_edges (mr_rows ?R) = {(x, y). edge_visible m c t x r y}"
    using push_all_edges[OF default_rows_ok(1), of es] es(1) default_rows_ok(2) by auto
  have done_: "\<exists>A. canonical_adjacency_at cap (snapshot_of m q) c t r = Inr A \<and> adj_tight A \<and> adj_edges A = {(x, y). edge_visible m c t x r y}"
    if "rfold (push_limited cap) es matrix_rows_default = Inr ?R"
    using that adjacency_of_rows[OF R(1)] R(2) by (simp add: canonical_adjacency_at_def es(2))
  from push_limited_run[of cap es matrix_rows_default] show ?thesis
  proof
    assume "rfold (push_limited cap) es matrix_rows_default = Inr ?R"
    then show ?thesis using done_ by blast
  next
    assume r: "\<exists>n. rfold (push_limited cap) es matrix_rows_default = Inl (AdmissionRejected ''build_matrix_tiles_edges'' n cap) \<and> cap < n"
    then have "cap \<noteq> - 1" by (auto simp: word_order.extremum_strict)
    then show ?thesis using r by (auto simp: canonical_adjacency_at_def es(2))
  qed
qed

context pinned
begin

lemma full_scan_agrees:
  assumes "canonical_adjacency_at cap snap c t r = Inr A"
  shows "canonical_adjacency_at cap (snapshot_of m q) c t r = Inr A"
  using assms unfolding canonical_adjacency_at_def current_matrix_rows_def current_out_segment_tombstones_def
  by (auto simp: rbind_Inr_iff dest!: scan_law)

lemma full_scan_exact:
  assumes "canonical_adjacency_at cap snap c t r = Inr A" "wf_store m" "valid_component c" "valid_component t"
  shows "adj_tight A \<and> adj_edges A = {(x, y). edge_visible m c t x r y}"
  using full_scan_cases[OF assms(2-4), of cap 0 r] full_scan_agrees[OF assms(1), of 0] by auto

end

end
