(* ===== verification/Bounded_Cache.thy ===== *)
theory Bounded_Cache
  imports Rust_BTree
begin

text \<open>
  The bounded cache of \<^verbatim>\<open>src/core/cache.rs\<close>: entries with a tenant, a pin and a size, limits on the number of
  entries, on the entries of a tenant and on the resident bytes, and eviction of the least recently used entry, unpinned
  entries first. The eviction loops are recursive functions whose measure is the number of entries. Sizes and the clock
  are 64-bit words with saturating arithmetic; numbers of entries are naturals, as a map cannot hold \<open>2 ^ 64\<close> entries.
  The locale \<open>evicting\<close> collects what both eviction loops keep.
\<close>

subsection \<open>State\<close>

record 'v cache_entry =
  ce_value :: 'v
  ce_tenant :: string
  ce_pinned :: bool
  ce_last_access :: u64
  ce_resident_bytes :: u64

record ('k, 'v) bounded_cache =
  bc_max_entries :: nat
  bc_max_resident_bytes :: u64
  bc_resident_bytes :: u64
  bc_max_entries_per_tenant :: "nat option"
  bc_clock :: u64
  bc_entries :: "('k, 'v cache_entry) btmap"
  bc_tenant_entries :: "(string, nat) btmap"

text \<open>The counters a cache writes; atomic additions wrap.\<close>

record cache_metrics =
  cm_insertions :: u64
  cm_evictions :: u64
  cm_tenant_quota_rejections :: u64
  cm_pinned_insertions :: u64

definition new_with_byte_limit :: "nat \<Rightarrow> nat option \<Rightarrow> u64 \<Rightarrow> ('k, 'v) bounded_cache" where
  "new_with_byte_limit max_entries max_entries_per_tenant max_resident_bytes =
     \<lparr>bc_max_entries = max_entries, bc_max_resident_bytes = max_resident_bytes, bc_resident_bytes = 0,
      bc_max_entries_per_tenant = max_entries_per_tenant, bc_clock = 0, bc_entries = [], bc_tenant_entries = []\<rparr>"

definition cache_new :: "nat \<Rightarrow> nat option \<Rightarrow> ('k, 'v) bounded_cache" where
  "cache_new max_entries max_entries_per_tenant = new_with_byte_limit max_entries max_entries_per_tenant (- 1)"

definition cache_len :: "('k, 'v) bounded_cache \<Rightarrow> nat" where
  "cache_len cache = length (bc_entries cache)"

subsection \<open>Lookup\<close>

definition cache_get :: "'k::linorder \<Rightarrow> ('k, 'v) bounded_cache \<Rightarrow> 'v option \<times> ('k, 'v) bounded_cache" where
  "cache_get key cache =
     (let cache = cache\<lparr>bc_clock := saturating_add (bc_clock cache) 1\<rparr> in
      case bt_get (bc_entries cache) key of
        None \<Rightarrow> (None, cache)
      | Some entry \<Rightarrow>
          (Some (ce_value entry),
           cache\<lparr>bc_entries := bt_insert key (entry\<lparr>ce_last_access := bc_clock cache\<rparr>) (bc_entries cache)\<rparr>))"

text \<open>Of several entries with the largest score \<^verbatim>\<open>max_by_key\<close> returns the last, and of several with the least access \<^verbatim>\<open>min_by_key\<close> the first.\<close>

fun max_by_key :: "('a \<Rightarrow> 'b::linorder) \<Rightarrow> 'a list \<Rightarrow> 'a option" where
  "max_by_key f [] = None"
| "max_by_key f (x # xs) = (case max_by_key f xs of None \<Rightarrow> Some x | Some y \<Rightarrow> if f x \<le> f y then Some y else Some x)"

fun min_by_key :: "('a \<Rightarrow> 'b::linorder) \<Rightarrow> 'a list \<Rightarrow> 'a option" where
  "min_by_key f [] = None"
| "min_by_key f (x # xs) = (case min_by_key f xs of None \<Rightarrow> Some x | Some y \<Rightarrow> if f x \<le> f y then Some x else Some y)"

definition get_latest_by ::
    "('k::linorder \<Rightarrow> 'v \<Rightarrow> bool) \<Rightarrow> ('k \<Rightarrow> 'v \<Rightarrow> u64) \<Rightarrow> ('k, 'v) bounded_cache \<Rightarrow> 'v option \<times> ('k, 'v) bounded_cache" where
  "get_latest_by predicate score cache =
     (case max_by_key (\<lambda>p. score (fst p) (ce_value (snd p))) (filter (\<lambda>p. predicate (fst p) (ce_value (snd p))) (bc_entries cache)) of
        None \<Rightarrow> (None, cache)
      | Some p \<Rightarrow> cache_get (fst p) cache)"

subsection \<open>Removal and eviction\<close>

definition decrement_tenant :: "string \<Rightarrow> ('k, 'v) bounded_cache \<Rightarrow> ('k, 'v) bounded_cache" where
  "decrement_tenant tenant cache =
     (case bt_get (bc_tenant_entries cache) tenant of
        None \<Rightarrow> cache
      | Some count \<Rightarrow>
          if count - 1 = 0 then cache\<lparr>bc_tenant_entries := bt_remove tenant (bc_tenant_entries cache)\<rparr>
          else cache\<lparr>bc_tenant_entries := bt_insert tenant (count - 1) (bc_tenant_entries cache)\<rparr>)"

definition cache_remove :: "'k \<Rightarrow> ('k, 'v) bounded_cache \<Rightarrow> 'v option \<times> ('k, 'v) bounded_cache" where
  "cache_remove key cache =
     (case bt_get (bc_entries cache) key of
        None \<Rightarrow> (None, cache)
      | Some entry \<Rightarrow>
          (Some (ce_value entry),
           decrement_tenant (ce_tenant entry)
             (cache\<lparr>bc_entries := bt_remove key (bc_entries cache),
                    bc_resident_bytes := saturating_sub (bc_resident_bytes cache) (ce_resident_bytes entry)\<rparr>)))"

definition cache_retain :: "('k \<Rightarrow> 'v \<Rightarrow> bool) \<Rightarrow> ('k, 'v) bounded_cache \<Rightarrow> ('k, 'v) bounded_cache" where
  "cache_retain keep cache =
     fold (\<lambda>key cache. snd (cache_remove key cache))
       (map fst (filter (\<lambda>p. \<not> keep (fst p) (ce_value (snd p))) (bc_entries cache))) cache"

definition eviction_candidates :: "string option \<Rightarrow> bool \<Rightarrow> ('k, 'v) bounded_cache \<Rightarrow> ('k \<times> 'v cache_entry) list" where
  "eviction_candidates tenant allow_pinned cache =
     filter (\<lambda>p. (case tenant of Some t \<Rightarrow> t = ce_tenant (snd p) | None \<Rightarrow> True) \<and> (allow_pinned \<or> \<not> ce_pinned (snd p)))
       (bc_entries cache)"

definition evict_one ::
    "string option \<Rightarrow> bool \<Rightarrow> ('k, 'v) bounded_cache \<times> cache_metrics \<Rightarrow> (('k, 'v) bounded_cache \<times> cache_metrics) option" where
  "evict_one tenant allow_pinned s = (case s of (cache, metrics) \<Rightarrow>
     (case min_by_key (\<lambda>p. ce_last_access (snd p)) (eviction_candidates tenant allow_pinned cache) of
        None \<Rightarrow> None
      | Some p \<Rightarrow> Some (snd (cache_remove (fst p) cache), metrics\<lparr>cm_evictions := cm_evictions metrics + 1\<rparr>)))"

text \<open>One round of an eviction loop: an unpinned entry goes first, a pinned one when there is no other.\<close>

definition evict_some :: "string option \<Rightarrow> ('k, 'v) bounded_cache \<times> cache_metrics \<Rightarrow> (('k, 'v) bounded_cache \<times> cache_metrics) option" where
  "evict_some tenant s = (case evict_one tenant False s of None \<Rightarrow> evict_one tenant True s | Some s' \<Rightarrow> Some s')"

lemma cache_remove_entries [simp]: "bc_entries (snd (cache_remove k c)) = bt_remove k (bc_entries c)"
  by (auto simp: cache_remove_def decrement_tenant_def bt_remove_def bt_get_None_iff image_iff filter_empty_conv
      intro!: filter_True[symmetric] split: option.splits)

lemma min_by_key_in: "min_by_key f xs = Some x \<Longrightarrow> x \<in> set xs"
  by (induction xs arbitrary: x) (auto split: option.splits if_splits)

lemma min_by_key_None [simp]: "min_by_key f xs = None \<longleftrightarrow> xs = []"
  by (cases xs) (auto split: option.splits)

lemma evict_one_shrinks: "evict_one t b s = Some s' \<Longrightarrow> length (bc_entries (fst s')) < length (bc_entries (fst s))"
proof -
  assume "evict_one t b s = Some s'"
  then obtain p where p: "p \<in> set (bc_entries (fst s))" "bc_entries (fst s') = bt_remove (fst p) (bc_entries (fst s))"
    by (auto simp: evict_one_def eviction_candidates_def split: prod.splits option.splits dest!: min_by_key_in)
  then show ?thesis unfolding p(2) bt_remove_def by (intro length_filter_less[of p]) simp_all
qed

lemma evict_some_shrinks: "evict_some t s = Some s' \<Longrightarrow> length (bc_entries (fst s')) < length (bc_entries (fst s))"
  by (auto simp: evict_some_def split: option.splits dest: evict_one_shrinks)

definition tenant_count :: "string \<Rightarrow> ('k, 'v) bounded_cache \<Rightarrow> nat" where
  "tenant_count tenant cache = (case bt_get (bc_tenant_entries cache) tenant of None \<Rightarrow> 0 | Some n \<Rightarrow> n)"

function tenant_quota_loop ::
    "string \<Rightarrow> nat \<Rightarrow> ('k, 'v) bounded_cache \<times> cache_metrics \<Rightarrow> ('k, 'v) bounded_cache \<times> cache_metrics" where
  "tenant_quota_loop tenant limit s =
     (if limit < tenant_count tenant (fst s) then
        (case evict_some (Some tenant) s of
           None \<Rightarrow> (fst s, (snd s)\<lparr>cm_tenant_quota_rejections := cm_tenant_quota_rejections (snd s) + 1\<rparr>)
         | Some s' \<Rightarrow> tenant_quota_loop tenant limit s')
      else s)"
  by auto
termination by (relation "measure (\<lambda>(_, _, s). length (bc_entries (fst s)))") (auto dest: evict_some_shrinks)

definition enforce_tenant_quota ::
    "string \<Rightarrow> ('k, 'v) bounded_cache \<times> cache_metrics \<Rightarrow> ('k, 'v) bounded_cache \<times> cache_metrics" where
  "enforce_tenant_quota tenant s =
     (case bc_max_entries_per_tenant (fst s) of None \<Rightarrow> s | Some limit \<Rightarrow> tenant_quota_loop tenant limit s)"

function enforce_total_limit :: "('k, 'v) bounded_cache \<times> cache_metrics \<Rightarrow> ('k, 'v) bounded_cache \<times> cache_metrics" where
  "enforce_total_limit s =
     (if bc_max_entries (fst s) < length (bc_entries (fst s)) \<or> bc_max_resident_bytes (fst s) < bc_resident_bytes (fst s) then
        (case evict_some None s of None \<Rightarrow> s | Some s' \<Rightarrow> enforce_total_limit s')
      else s)"
  by auto
termination by (relation "measure (\<lambda>s. length (bc_entries (fst s)))") (auto dest: evict_some_shrinks)

declare tenant_quota_loop.simps [simp del] enforce_total_limit.simps [simp del]

subsection \<open>Insertion\<close>

text \<open>The entry is stored, its predecessor accounted for, and the limits enforced; the value returned is what a lookup
  then finds, nothing when the new entry was evicted at once.\<close>

definition store_entry :: "'k::linorder \<Rightarrow> 'v \<Rightarrow> string \<Rightarrow> bool \<Rightarrow> u64 \<Rightarrow> ('k, 'v) bounded_cache \<Rightarrow> ('k, 'v) bounded_cache" where
  "store_entry key value tenant pinned resident_bytes cache =
     (let cache = cache\<lparr>bc_clock := saturating_add (bc_clock cache) 1\<rparr>;
          previous = bt_get (bc_entries cache) key;
          cache = cache\<lparr>bc_entries := bt_insert key \<lparr>ce_value = value, ce_tenant = tenant, ce_pinned = pinned,
            ce_last_access = bc_clock cache, ce_resident_bytes = resident_bytes\<rparr> (bc_entries cache)\<rparr>;
          cache = (case previous of None \<Rightarrow> cache
            | Some entry \<Rightarrow> decrement_tenant (ce_tenant entry)
                (cache\<lparr>bc_resident_bytes := saturating_sub (bc_resident_bytes cache) (ce_resident_bytes entry)\<rparr>))
      in cache\<lparr>bc_resident_bytes := saturating_add (bc_resident_bytes cache) resident_bytes,
           bc_tenant_entries := bt_insert tenant (tenant_count tenant cache + 1) (bc_tenant_entries cache)\<rparr>)"

definition insert_sized ::
    "'k::linorder \<Rightarrow> 'v \<Rightarrow> string \<Rightarrow> bool \<Rightarrow> u64 \<Rightarrow> ('k, 'v) bounded_cache \<times> cache_metrics
     \<Rightarrow> 'v option \<times> ('k, 'v) bounded_cache \<times> cache_metrics" where
  "insert_sized key value tenant pinned resident_bytes s = (case s of (cache, metrics) \<Rightarrow>
     if bc_max_entries cache = 0 then
       (None, cache, metrics\<lparr>cm_tenant_quota_rejections := cm_tenant_quota_rejections metrics + 1\<rparr>)
     else
       let metrics = metrics\<lparr>cm_insertions := cm_insertions metrics + 1\<rparr>;
           metrics = (if pinned then metrics\<lparr>cm_pinned_insertions := cm_pinned_insertions metrics + 1\<rparr> else metrics);
           s = enforce_total_limit (enforce_tenant_quota tenant (store_entry key value tenant pinned resident_bytes cache, metrics));
           found = cache_get key (fst s)
       in (fst found, snd found, snd s))"

definition cache_insert ::
    "'k::linorder \<Rightarrow> 'v \<Rightarrow> string \<Rightarrow> bool \<Rightarrow> ('k, 'v) bounded_cache \<times> cache_metrics
     \<Rightarrow> 'v option \<times> ('k, 'v) bounded_cache \<times> cache_metrics" where
  "cache_insert key value tenant pinned s = insert_sized key value tenant pinned 0 s"

subsection \<open>Accounting\<close>

text \<open>Resident bytes and tenant counts are sums over the entries.\<close>

definition entry_sum :: "('v cache_entry \<Rightarrow> nat) \<Rightarrow> ('k, 'v cache_entry) btmap \<Rightarrow> nat" where
  "entry_sum w m = sum_list (map (\<lambda>p. w (snd p)) m)"

definition entry_bytes :: "'v cache_entry \<Rightarrow> nat" where
  "entry_bytes e = unat (ce_resident_bytes e)"

definition of_tenant :: "string \<Rightarrow> 'v cache_entry \<Rightarrow> nat" where
  "of_tenant t e = (if ce_tenant e = t then 1 else 0)"

lemma bt_remove_absent: "k \<notin> fst ` set m \<Longrightarrow> bt_remove k m = m"
  by (auto simp: bt_remove_def intro!: filter_True)

lemma entry_sum_remove:
  "bt_ok m \<Longrightarrow> bt_get m k = Some e \<Longrightarrow> entry_sum w (bt_remove k m) + w e = entry_sum w m"
proof (induction m)
  case (Cons p m)
  show ?case
  proof (cases "fst p = k")
    case True
    then have "k \<notin> fst ` set m" using Cons.prems(1) by (auto simp: bt_ok_Cons)
    then have "bt_remove k (p # m) = m" using True bt_remove_absent[of k m] by (simp add: bt_remove_def)
    moreover have "e = snd p" using Cons.prems(2) True by (cases p) (simp add: bt_get_def)
    ultimately show ?thesis by (simp add: entry_sum_def)
  next
    case False
    then have "bt_get m k = Some e" using Cons.prems(2) by (cases p) (simp add: bt_get_def)
    then show ?thesis using Cons False by (simp add: bt_ok_Cons bt_remove_def entry_sum_def)
  qed
qed (simp add: bt_get_def)

lemma entry_sum_insert:
  "bt_ok m \<Longrightarrow> entry_sum w (bt_insert k e m) = entry_sum w (bt_remove k m) + w e"
proof (induction m)
  case (Cons p m)
  consider "fst p < k" | "fst p = k" | "k < fst p" by fastforce
  then show ?case
  proof cases
    case 1
    then have "fst p \<noteq> k" by simp
    then show ?thesis using 1 Cons by (simp add: bt_ok_Cons bt_remove_def entry_sum_def)
  next
    case 2
    then have "k \<notin> fst ` set m" using Cons.prems by (auto simp: bt_ok_Cons)
    then show ?thesis using 2 bt_remove_absent[of k m] by (simp add: bt_remove_def entry_sum_def)
  next
    case 3
    then have "k \<notin> fst ` set (p # m)" using Cons.prems by (fastforce simp: bt_ok_Cons)
    moreover have "\<not> fst p < k" "fst p \<noteq> k" using 3 by auto
    ultimately show ?thesis using bt_remove_absent[of k "p # m"] by (simp add: entry_sum_def)
  qed
qed (simp add: bt_remove_def entry_sum_def)

definition tenant_table_ok :: "('k, 'v) bounded_cache \<Rightarrow> (string \<Rightarrow> nat) \<Rightarrow> bool" where
  "tenant_table_ok c n \<longleftrightarrow> bt_ok (bc_tenant_entries c)
     \<and> (\<forall>t. bt_get (bc_tenant_entries c) t = (if n t = 0 then None else Some (n t)))"

definition cache_ok :: "('k::linorder, 'v) bounded_cache \<Rightarrow> bool" where
  "cache_ok c \<longleftrightarrow> bt_ok (bc_entries c) \<and> unat (bc_resident_bytes c) = entry_sum entry_bytes (bc_entries c)
     \<and> tenant_table_ok c (\<lambda>t. entry_sum (of_tenant t) (bc_entries c))"

lemma tenant_count_ok: "cache_ok c \<Longrightarrow> tenant_count t c = entry_sum (of_tenant t) (bc_entries c)"
  by (simp add: cache_ok_def tenant_table_ok_def tenant_count_def)

lemma decrement_fields [simp]:
  "bc_entries (decrement_tenant t c) = bc_entries c" "bc_resident_bytes (decrement_tenant t c) = bc_resident_bytes c"
  "bc_max_entries (decrement_tenant t c) = bc_max_entries c" "bc_max_resident_bytes (decrement_tenant t c) = bc_max_resident_bytes c"
  "bc_max_entries_per_tenant (decrement_tenant t c) = bc_max_entries_per_tenant c" "bc_clock (decrement_tenant t c) = bc_clock c"
  by (auto simp: decrement_tenant_def split: option.splits)

lemma decrement_table:
  assumes "tenant_table_ok c n" "0 < n t"
  shows "tenant_table_ok (decrement_tenant t c) (n(t := n t - 1))"
  using assms by (auto simp: tenant_table_ok_def decrement_tenant_def bt_get_insert bt_get_remove)

lemma cache_ok_remove:
  assumes "cache_ok c"
  shows "cache_ok (snd (cache_remove k c))"
proof (cases "bt_get (bc_entries c) k")
  case None
  then show ?thesis using assms by (simp add: cache_remove_def)
next
  case (Some e)
  note D = assms[unfolded cache_ok_def]
  let ?m = "bc_entries c" and ?n = "\<lambda>t. entry_sum (of_tenant t) (bc_entries c)"
  have w: "entry_sum w (bt_remove k ?m) = entry_sum w ?m - w e" "w e \<le> entry_sum w ?m" for w
    using entry_sum_remove[of ?m k e w] D Some by simp_all
  have n: "0 < ?n (ce_tenant e)" using w(2)[of "of_tenant (ce_tenant e)"] by (simp add: of_tenant_def)
  let ?c = "c\<lparr>bc_entries := bt_remove k ?m, bc_resident_bytes := saturating_sub (bc_resident_bytes c) (ce_resident_bytes e)\<rparr>"
  have "tenant_table_ok ?c ?n" using D by (simp add: tenant_table_ok_def)
  note dec = decrement_table[where t = "ce_tenant e", OF this n]
  have "?n(ce_tenant e := ?n (ce_tenant e) - 1) = (\<lambda>t. entry_sum (of_tenant t) (bt_remove k ?m))"
    by (auto simp: w(1) of_tenant_def)
  moreover have "unat (saturating_sub (bc_resident_bytes c) (ce_resident_bytes e)) = entry_sum entry_bytes (bt_remove k ?m)"
    using D by (simp add: saturating_sub_unat w(1) entry_bytes_def[of e])
  ultimately show ?thesis using dec D Some by (simp add: cache_remove_def cache_ok_def)
qed

subsection \<open>Eviction\<close>

text \<open>What removing an entry keeps, both eviction loops keep.\<close>

locale evicting =
  fixes P :: "('k::linorder, 'v) bounded_cache \<Rightarrow> bool"
  assumes remove_keeps: "P c \<Longrightarrow> P (snd (cache_remove k c))"
begin

lemma evict_one_keeps: "evict_one t b s = Some s' \<Longrightarrow> P (fst s) \<Longrightarrow> P (fst s')"
  by (auto simp: evict_one_def intro: remove_keeps split: prod.splits option.splits)

lemma evict_some_keeps: "evict_some t s = Some s' \<Longrightarrow> P (fst s) \<Longrightarrow> P (fst s')"
  by (auto simp: evict_some_def intro: evict_one_keeps split: option.splits)

lemma quota_loop_keeps: "P (fst s) \<Longrightarrow> P (fst (tenant_quota_loop t n s))"
proof (induction t n s rule: tenant_quota_loop.induct)
  case (1 t n s)
  then show ?case
    by (subst tenant_quota_loop.simps) (auto split: option.splits dest: evict_some_keeps)
qed

lemma quota_keeps: "P (fst s) \<Longrightarrow> P (fst (enforce_tenant_quota t s))"
  by (simp add: enforce_tenant_quota_def quota_loop_keeps split: option.splits)

lemma total_keeps: "P (fst s) \<Longrightarrow> P (fst (enforce_total_limit s))"
proof (induction s rule: enforce_total_limit.induct)
  case (1 s)
  then show ?case
    by (subst enforce_total_limit.simps) (auto split: option.splits dest: evict_some_keeps)
qed

lemma limits_keep: "P (fst s) \<Longrightarrow> P (fst (enforce_total_limit (enforce_tenant_quota t s)))"
  by (intro total_keeps quota_keeps)

lemma retain_keeps:
  assumes "P c"
  shows "P (cache_retain keep c)"
proof -
  have "P (fold (\<lambda>key c. snd (cache_remove key c)) ks c')" if "P c'" for ks c'
    using that by (induction ks arbitrary: c') (auto intro: remove_keeps)
  then show ?thesis using assms by (simp add: cache_retain_def)
qed

end

text \<open>The three instances: the accounts stay right, the limits stay what they are, and no entry appears or changes.\<close>

definition same_limits :: "('k, 'v) bounded_cache \<Rightarrow> ('k, 'v) bounded_cache \<Rightarrow> bool" where
  "same_limits a c \<longleftrightarrow> bc_max_entries c = bc_max_entries a \<and> bc_max_resident_bytes c = bc_max_resident_bytes a
     \<and> bc_max_entries_per_tenant c = bc_max_entries_per_tenant a"

definition within :: "('k, 'v) bounded_cache \<Rightarrow> ('k, 'v) bounded_cache \<Rightarrow> bool" where
  "within a c \<longleftrightarrow> (\<forall>k e. bt_get (bc_entries c) k = Some e \<longrightarrow> bt_get (bc_entries a) k = Some e)"

definition tenants_below :: "(string \<Rightarrow> nat) \<Rightarrow> ('k, 'v) bounded_cache \<Rightarrow> bool" where
  "tenants_below n c \<longleftrightarrow> (\<forall>t. entry_sum (of_tenant t) (bc_entries c) \<le> n t)"

lemma remove_fields:
  "bc_max_entries (snd (cache_remove k c)) = bc_max_entries c" "bc_max_resident_bytes (snd (cache_remove k c)) = bc_max_resident_bytes c"
  "bc_max_entries_per_tenant (snd (cache_remove k c)) = bc_max_entries_per_tenant c"
  by (auto simp: cache_remove_def split: option.splits)

lemma entry_sum_remove_le: "entry_sum w (bt_remove k m) \<le> entry_sum w m"
  by (induction m) (auto simp: entry_sum_def bt_remove_def)

interpretation accounts: evicting cache_ok
  by unfold_locales (rule cache_ok_remove)

interpretation limits: evicting "same_limits a" for a
  by unfold_locales (simp add: same_limits_def remove_fields)

interpretation entries: evicting "within a" for a
  by unfold_locales (auto simp: within_def bt_get_remove)

interpretation tenants: evicting "tenants_below n" for n
  by unfold_locales (auto simp: tenants_below_def intro: order_trans[OF entry_sum_remove_le])

lemma evict_some_None:
  assumes "evict_some t s = None" "p \<in> set (bc_entries (fst s))"
  shows "t \<noteq> None \<and> t \<noteq> Some (ce_tenant (snd p))"
  using assms by (cases s) (auto simp: evict_some_def evict_one_def eviction_candidates_def filter_empty_conv split: option.splits)

lemma entry_sum_zero: "\<forall>p \<in> set m. w (snd p) = 0 \<Longrightarrow> entry_sum w m = 0"
  by (induction m) (auto simp: entry_sum_def)

lemma quota_loop_bound:
  "cache_ok (fst s) \<Longrightarrow> entry_sum (of_tenant t) (bc_entries (fst (tenant_quota_loop t n s))) \<le> n"
proof (induction t n s rule: tenant_quota_loop.induct)
  case (1 t n s)
  show ?case
  proof (cases "n < tenant_count t (fst s)")
    case False
    then show ?thesis using tenant_count_ok[OF "1.prems"] by (subst tenant_quota_loop.simps) simp
  next
    case True
    show ?thesis
    proof (cases "evict_some (Some t) s")
      case None
      then have "entry_sum (of_tenant t) (bc_entries (fst s)) = 0"
        using evict_some_None[OF None] by (intro entry_sum_zero) (auto simp: of_tenant_def)
      then show ?thesis using True tenant_count_ok[OF "1.prems"] by simp
    next
      case (Some s')
      then show ?thesis using "1.IH"[OF True Some] accounts.evict_some_keeps[OF Some "1.prems"] True
        by (subst tenant_quota_loop.simps) simp
    qed
  qed
qed

lemma total_limit_bound:
  "cache_ok (fst s) \<Longrightarrow> length (bc_entries (fst (enforce_total_limit s))) \<le> bc_max_entries (fst s)
     \<and> bc_resident_bytes (fst (enforce_total_limit s)) \<le> bc_max_resident_bytes (fst s)"
proof (induction s rule: enforce_total_limit.induct)
  case (1 s)
  let ?over = "bc_max_entries (fst s) < length (bc_entries (fst s)) \<or> bc_max_resident_bytes (fst s) < bc_resident_bytes (fst s)"
  show ?case
  proof (cases ?over)
    case False
    then show ?thesis by (subst (1 2) enforce_total_limit.simps) auto
  next
    case True
    show ?thesis
    proof (cases "evict_some None s")
      case None
      have "p \<notin> set (bc_entries (fst s))" for p using evict_some_None[OF None] by blast
      then have "bc_entries (fst s) = []" by (cases "bc_entries (fst s)") auto
      then have "bc_resident_bytes (fst s) = 0" using "1.prems" by (simp add: cache_ok_def entry_sum_def unat_eq_zero)
      then show ?thesis using True \<open>bc_entries (fst s) = []\<close> by simp
    next
      case (Some s')
      have same: "bc_max_entries (fst s') = bc_max_entries (fst s)" "bc_max_resident_bytes (fst s') = bc_max_resident_bytes (fst s)"
        using limits.evict_some_keeps[OF Some, of "fst s"] by (simp_all add: same_limits_def)
      show ?thesis using "1.IH"[OF True Some] accounts.evict_some_keeps[OF Some "1.prems"] True Some same
        by (subst (1 2) enforce_total_limit.simps) simp
    qed
  qed
qed

subsection \<open>The operations\<close>

definition cache_bounded :: "('k::linorder, 'v) bounded_cache \<Rightarrow> bool" where
  "cache_bounded c \<longleftrightarrow> cache_ok c \<and> length (bc_entries c) \<le> bc_max_entries c \<and> bc_resident_bytes c \<le> bc_max_resident_bytes c
     \<and> (case bc_max_entries_per_tenant c of None \<Rightarrow> True | Some n \<Rightarrow> tenants_below (\<lambda>_. n) c)"

definition value_of :: "('k, 'v) bounded_cache \<Rightarrow> 'k \<Rightarrow> 'v option" where
  "value_of c k = map_option ce_value (bt_get (bc_entries c) k)"

lemma new_with_byte_limit_fields:
  "bc_max_entries (new_with_byte_limit n t b) = n" "bc_max_resident_bytes (new_with_byte_limit n t b) = b"
  "bc_max_entries_per_tenant (new_with_byte_limit n t b) = t"
  by (simp_all add: new_with_byte_limit_def)

lemma value_of_new: "value_of (new_with_byte_limit n t b) k = None"
  by (simp add: value_of_def new_with_byte_limit_def)

lemma bounded_empty: "cache_bounded (new_with_byte_limit n t b)"
  by (auto simp: cache_bounded_def new_with_byte_limit_def cache_ok_def tenant_table_ok_def entry_sum_def tenants_below_def split: option.splits)

lemma length_bt_remove: "length (bt_remove k m) \<le> length m"
  by (simp add: bt_remove_def)

lemma bounded_remove: "cache_bounded c \<Longrightarrow> cache_bounded (snd (cache_remove k c))"
proof -
  assume b: "cache_bounded c"
  have "bc_resident_bytes (snd (cache_remove k c)) \<le> bc_resident_bytes c"
    by (auto simp: cache_remove_def saturating_sub_unat word_le_nat_alt split: option.splits)
  then show ?thesis using b cache_ok_remove tenants.remove_keeps order_trans[OF length_bt_remove]
    unfolding cache_bounded_def remove_fields cache_remove_entries by (auto split: option.splits)
qed

interpretation bounds: evicting cache_bounded
  by unfold_locales (rule bounded_remove)

lemma get_same_sums:
  assumes "bt_ok m" "bt_get m k = Some e" "w e' = w e"
  shows "entry_sum w (bt_insert k e' m) = entry_sum w m"
  using entry_sum_insert[OF assms(1), of w k e'] entry_sum_remove[OF assms(1,2), of w] assms(3) by simp

lemma length_bt_insert_present: "bt_ok m \<Longrightarrow> bt_get m k = Some e \<Longrightarrow> length (bt_insert k e' m) = length m"
proof -
  assume ok: "bt_ok m" and g: "bt_get m k = Some e"
  have "k \<in> fst ` set m" using g bt_get_None_iff[of m k] by auto
  then have "card (fst ` set (bt_insert k e' m)) = card (fst ` set m)" by (simp only: bt_insert_keys insert_absorb)
  then show ?thesis using bt_ok_distinct[OF ok] bt_ok_distinct[OF bt_ok_insert[OF ok]] by (metis distinct_card length_map list.set_map)
qed

lemma cache_get_spec:
  assumes "cache_bounded c"
  shows "cache_bounded (snd (cache_get k c))" "fst (cache_get k c) = value_of c k" "value_of (snd (cache_get k c)) = value_of c"
    "same_limits c (snd (cache_get k c))"
proof -
  note D = assms[unfolded cache_bounded_def cache_ok_def]
  have "cache_bounded (snd (cache_get k c)) \<and> fst (cache_get k c) = value_of c k \<and> value_of (snd (cache_get k c)) = value_of c
      \<and> same_limits c (snd (cache_get k c))"
  proof (cases "bt_get (bc_entries c) k")
    case None
    then show ?thesis using assms
      by (auto simp: cache_get_def Let_def value_of_def cache_bounded_def cache_ok_def tenant_table_ok_def tenants_below_def same_limits_def fun_eq_iff split: option.splits)
  next
    case (Some e)
    let ?e = "e\<lparr>ce_last_access := saturating_add (bc_clock c) 1\<rparr>"
    have sums: "entry_sum entry_bytes (bt_insert k ?e (bc_entries c)) = entry_sum entry_bytes (bc_entries c)"
      "entry_sum (of_tenant t) (bt_insert k ?e (bc_entries c)) = entry_sum (of_tenant t) (bc_entries c)" for t
      using D Some by (auto intro!: get_same_sums simp: entry_bytes_def of_tenant_def)
    note len = length_bt_insert_present[of "bc_entries c" k e ?e]
    show ?thesis using D Some len
      by (auto simp: cache_get_def Let_def value_of_def cache_bounded_def cache_ok_def tenant_table_ok_def tenants_below_def same_limits_def sums
          bt_get_insert fun_eq_iff split: option.splits)
  qed
  then show "cache_bounded (snd (cache_get k c))" "fst (cache_get k c) = value_of c k" "value_of (snd (cache_get k c)) = value_of c"
    "same_limits c (snd (cache_get k c))" by blast+
qed

lemma store_entry_ok:
  assumes ok: "cache_ok c" and fit: "unat (bc_resident_bytes c) + unat b < 2 ^ 64"
  shows "cache_ok (store_entry k v t pin b c)"
proof -
  let ?m = "bc_entries c" and ?e = "\<lparr>ce_value = v, ce_tenant = t, ce_pinned = pin, ce_last_access = saturating_add (bc_clock c) 1, ce_resident_bytes = b\<rparr>"
  let ?r = "snd (cache_remove k c)"
  note R = cache_ok_remove[OF ok, of k, unfolded cache_ok_def cache_remove_entries]
  have ok_m: "bt_ok ?m" using ok by (simp add: cache_ok_def)
  have same: "bc_entries (store_entry k v t pin b c) = bt_insert k ?e ?m"
    "bc_resident_bytes (store_entry k v t pin b c) = saturating_add (bc_resident_bytes ?r) b"
    "bc_tenant_entries (store_entry k v t pin b c) = bt_insert t (tenant_count t ?r + 1) (bc_tenant_entries ?r)"
    by (auto simp: store_entry_def cache_remove_def decrement_tenant_def tenant_count_def Let_def split: option.splits)
  have "unat (bc_resident_bytes ?r) \<le> unat (bc_resident_bytes c)"
    using R ok entry_sum_remove_le[of entry_bytes k ?m] by (simp add: cache_ok_def)
  then have bytes: "unat (saturating_add (bc_resident_bytes ?r) b) = entry_sum entry_bytes (bt_insert k ?e ?m)"
    using fit R by (simp add: saturating_add_unat entry_sum_insert[OF ok_m] entry_bytes_def)
  have count: "entry_sum (of_tenant u) (bt_insert k ?e ?m) = entry_sum (of_tenant u) (bt_remove k ?m) + (if u = t then 1 else 0)" for u
    by (auto simp: entry_sum_insert[OF ok_m] of_tenant_def)
  have "tenant_table_ok (store_entry k v t pin b c) (\<lambda>u. entry_sum (of_tenant u) (bt_insert k ?e ?m))"
    using R tenant_count_ok[OF cache_ok_remove[OF ok, of k], of t]
    unfolding tenant_table_ok_def same count cache_remove_entries by (auto simp: bt_get_insert)
  then show ?thesis using bytes ok_m by (simp add: cache_ok_def same)
qed

lemma store_entry_fields:
  "bc_max_entries (store_entry k v t pin b c) = bc_max_entries c" "bc_max_resident_bytes (store_entry k v t pin b c) = bc_max_resident_bytes c"
  "bc_max_entries_per_tenant (store_entry k v t pin b c) = bc_max_entries_per_tenant c"
  "bt_ok (bc_entries c) \<Longrightarrow> value_of (store_entry k v t pin b c) = (value_of c)(k := Some v)"
  "bt_ok (bc_entries c) \<Longrightarrow> u \<noteq> t \<Longrightarrow> entry_sum (of_tenant u) (bc_entries (store_entry k v t pin b c)) \<le> entry_sum (of_tenant u) (bc_entries c)"
  by (auto simp: store_entry_def Let_def value_of_def bt_get_insert entry_sum_insert of_tenant_def fun_eq_iff
      intro: entry_sum_remove_le split: option.splits)

lemma insert_sized_spec:
  assumes b: "cache_bounded c" and fit: "unat (bc_max_resident_bytes c) + unat bytes < 2 ^ 64"
    and run: "insert_sized k v t pin bytes (c, metrics) = (r, c', metrics')"
  shows "cache_bounded c'" "same_limits c c'" "r = value_of c' k" "value_of c' x = Some y \<Longrightarrow> ((value_of c)(k := Some v)) x = Some y"
proof -
  note D = b[unfolded cache_bounded_def]
  have "cache_bounded c' \<and> same_limits c c' \<and> r = value_of c' k \<and> (\<forall>x y. value_of c' x = Some y \<longrightarrow> ((value_of c)(k := Some v)) x = Some y)"
  proof (cases "bc_max_entries c = 0")
    case True
    then have "bc_entries c = []" using D by simp
    then have "value_of c = (\<lambda>_. None)" by (simp add: value_of_def fun_eq_iff)
    then show ?thesis using run True b by (auto simp: insert_sized_def same_limits_def)
  next
    case False
    define a where "a = store_entry k v t pin bytes c"
    define m1 where "m1 = (let metrics = metrics\<lparr>cm_insertions := cm_insertions metrics + 1\<rparr> in
      if pin then metrics\<lparr>cm_pinned_insertions := cm_pinned_insertions metrics + 1\<rparr> else metrics)"
    define q where "q = enforce_tenant_quota t (a, m1)"
    define s where "s = enforce_total_limit q"
    have r: "r = fst (cache_get k (fst s))" "c' = snd (cache_get k (fst s))"
      using run False by (simp_all add: insert_sized_def Let_def a_def m1_def s_def q_def)
    have "unat (bc_resident_bytes c) \<le> unat (bc_max_resident_bytes c)" using D by (simp add: word_le_nat_alt)
    then have ok: "cache_ok a" unfolding a_def using D fit by (intro store_entry_ok) simp_all
    have ok_m: "bt_ok (bc_entries c)" using D by (simp add: cache_ok_def)
    have okq: "cache_ok (fst q)" unfolding q_def by (rule accounts.quota_keeps) (simp add: ok)
    have oks: "cache_ok (fst s)" unfolding s_def by (rule accounts.total_keeps[OF okq])
    have lim: "same_limits a (fst q)" "same_limits a (fst s)"
      unfolding s_def q_def by (intro limits.total_keeps limits.quota_keeps; simp add: same_limits_def)+
    have lims: "same_limits c (fst s)" using lim(2) by (simp add: same_limits_def a_def store_entry_fields)
    have tot: "length (bc_entries (fst s)) \<le> bc_max_entries (fst s)" "bc_resident_bytes (fst s) \<le> bc_max_resident_bytes (fst s)"
      using total_limit_bound[OF okq] lim by (simp_all add: s_def same_limits_def)
    have ten: "tenants_below (\<lambda>_. n) (fst s)" if "bc_max_entries_per_tenant c = Some n" for n
    proof -
      have "tenants_below (\<lambda>_. n) c" using D that by simp
      then have "tenants_below (\<lambda>u. if u = t then entry_sum (of_tenant t) (bc_entries a) else n) a"
        unfolding tenants_below_def a_def using order_trans[OF store_entry_fields(5)[OF ok_m, of _ t k v pin bytes]] by simp
      then have "tenants_below (\<lambda>u. if u = t then entry_sum (of_tenant t) (bc_entries a) else n) (fst q)"
        unfolding q_def by (intro tenants.quota_keeps) simp
      moreover have "entry_sum (of_tenant t) (bc_entries (fst q)) \<le> n"
        using quota_loop_bound[of "(a, m1)" t n] ok that by (simp add: q_def enforce_tenant_quota_def a_def store_entry_fields)
      ultimately have "entry_sum (of_tenant u) (bc_entries (fst q)) \<le> n" for u
        unfolding tenants_below_def by (cases "u = t") (auto dest: spec[of _ u])
      then have "tenants_below (\<lambda>_. n) (fst q)" by (simp add: tenants_below_def)
      then show ?thesis unfolding s_def by (rule tenants.total_keeps)
    qed
    have bs: "cache_bounded (fst s)" using oks tot ten lims by (auto simp: cache_bounded_def same_limits_def split: option.splits)
    have "within a (fst s)" unfolding s_def q_def by (rule entries.limits_keep) (simp add: within_def)
    then have "value_of (fst s) x = Some y \<Longrightarrow> value_of a x = Some y" for x y by (auto simp: within_def value_of_def)
    then have "value_of (fst s) x = Some y \<Longrightarrow> ((value_of c)(k := Some v)) x = Some y" for x y
      unfolding a_def store_entry_fields(4)[OF ok_m] .
    then show ?thesis using cache_get_spec[OF bs, of k] lims bs unfolding r by (auto simp: same_limits_def)
  qed
  then show "cache_bounded c'" "same_limits c c'" "r = value_of c' k" "value_of c' x = Some y \<Longrightarrow> ((value_of c)(k := Some v)) x = Some y" by blast+
qed

lemma latest_spec:
  assumes "cache_bounded c"
  shows "cache_bounded (snd (get_latest_by p f c))" "value_of (snd (get_latest_by p f c)) = value_of c" "same_limits c (snd (get_latest_by p f c))"
  using assms cache_get_spec[OF assms] by (auto simp: get_latest_by_def same_limits_def split: option.splits)

lemma remove_value: "value_of (snd (cache_remove k c)) = (value_of c)(k := None)"
  by (auto simp: value_of_def bt_get_remove fun_eq_iff)

lemma remove_all_value:
  "value_of (fold (\<lambda>key c. snd (cache_remove key c)) ks c) = (\<lambda>k. if k \<in> set ks then None else value_of c k)"
  by (induction ks arbitrary: c) (auto simp: remove_value fun_eq_iff)

lemma retain_value:
  assumes "value_of (cache_retain keep c) k = Some v"
  shows "value_of c k = Some v \<and> keep k v"
proof -
  let ?drop = "map fst (filter (\<lambda>p. \<not> keep (fst p) (ce_value (snd p))) (bc_entries c))"
  have v: "k \<notin> set ?drop" "value_of c k = Some v"
    using assms unfolding cache_retain_def remove_all_value by (simp_all split: if_split_asm)
  then obtain e where e: "bt_get (bc_entries c) k = Some e" "v = ce_value e" by (auto simp: value_of_def)
  then have "(k, e) \<in> set (bc_entries c)" by (simp add: bt_get_def map_of_SomeD)
  then show ?thesis using v e by force
qed

subsection \<open>Histories\<close>

datatype ('k, 'v) cache_op =
    GetOp 'k
  | LatestOp "'k \<Rightarrow> 'v \<Rightarrow> bool" "'k \<Rightarrow> 'v \<Rightarrow> u64"
  | InsertOp 'k 'v string bool u64
  | RemoveOp 'k
  | RetainOp "'k \<Rightarrow> 'v \<Rightarrow> bool"

fun run_cache_op :: "('k::linorder, 'v) cache_op \<Rightarrow> ('k, 'v) bounded_cache \<times> cache_metrics \<Rightarrow> ('k, 'v) bounded_cache \<times> cache_metrics" where
  "run_cache_op (GetOp k) s = (snd (cache_get k (fst s)), snd s)"
| "run_cache_op (LatestOp p f) s = (snd (get_latest_by p f (fst s)), snd s)"
| "run_cache_op (InsertOp k v t pin b) s = snd (insert_sized k v t pin b s)"
| "run_cache_op (RemoveOp k) s = (snd (cache_remove k (fst s)), snd s)"
| "run_cache_op (RetainOp keep) s = (cache_retain keep (fst s), snd s)"

text \<open>An unbounded cache: what was inserted last and not removed since.\<close>

fun written :: "('k, 'v) cache_op \<Rightarrow> ('k \<Rightarrow> 'v option) \<Rightarrow> ('k \<Rightarrow> 'v option)" where
  "written (InsertOp k v t pin b) f = f(k := Some v)"
| "written (RemoveOp k) f = f(k := None)"
| "written (RetainOp keep) f = (\<lambda>k. case f k of Some v \<Rightarrow> if keep k v then Some v else None | None \<Rightarrow> None)"
| "written _ f = f"

fun op_fits :: "u64 \<Rightarrow> ('k, 'v) cache_op \<Rightarrow> bool" where
  "op_fits limit (InsertOp k v t pin b) \<longleftrightarrow> unat limit + unat b < 2 ^ 64"
| "op_fits limit _ \<longleftrightarrow> True"

lemma run_cache_op_spec:
  assumes b: "cache_bounded (fst s)" and fit: "op_fits (bc_max_resident_bytes (fst s)) oper" and old: "\<And>k v. value_of (fst s) k = Some v \<Longrightarrow> f k = Some v"
  shows "cache_bounded (fst (run_cache_op oper s)) \<and> same_limits (fst s) (fst (run_cache_op oper s))
    \<and> (\<forall>k v. value_of (fst (run_cache_op oper s)) k = Some v \<longrightarrow> written oper f k = Some v)"
proof (cases oper)
  case (GetOp k)
  then show ?thesis using cache_get_spec[OF b] old by simp
next
  case (LatestOp p g)
  then show ?thesis using latest_spec[OF b] old by simp
next
  case (InsertOp k v t pin bytes)
  obtain r c' m' where run: "insert_sized k v t pin bytes (fst s, snd s) = (r, c', m')" by (metis prod_cases3)
  have "unat (bc_max_resident_bytes (fst s)) + unat bytes < 2 ^ 64" using fit InsertOp by simp
  note spec = insert_sized_spec[OF b this run]
  have "written oper f x = Some y" if "value_of c' x = Some y" for x y
    using spec(4)[OF that] old InsertOp by (cases "x = k") simp_all
  then show ?thesis using spec(1,2) run InsertOp by simp
next
  case (RemoveOp k)
  have "same_limits (fst s) (snd (cache_remove k (fst s)))" by (simp add: same_limits_def remove_fields)
  then show ?thesis using bounded_remove[OF b] old RemoveOp by (auto simp: remove_value)
next
  case (RetainOp keep)
  have "same_limits (fst s) (cache_retain keep (fst s))" by (rule limits.retain_keeps) (simp add: same_limits_def)
  then show ?thesis using bounds.retain_keeps[OF b] RetainOp by (auto dest!: retain_value old)
qed

lemma cache_history:
  assumes "cache_bounded (fst s)" "\<forall>oper \<in> set ops. op_fits (bc_max_resident_bytes (fst s)) oper" "\<And>k v. value_of (fst s) k = Some v \<Longrightarrow> f k = Some v"
  shows "cache_bounded (fst (fold run_cache_op ops s)) \<and> same_limits (fst s) (fst (fold run_cache_op ops s))
    \<and> (\<forall>k v. value_of (fst (fold run_cache_op ops s)) k = Some v \<longrightarrow> fold written ops f k = Some v)"
  using assms
proof (induction ops arbitrary: s f)
  case Nil
  then show ?case by (simp add: same_limits_def)
next
  case (Cons oper ops)
  have fits: "op_fits (bc_max_resident_bytes (fst s)) oper" using Cons.prems(2) by simp
  have one: "cache_bounded (fst (run_cache_op oper s)) \<and> same_limits (fst s) (fst (run_cache_op oper s))
      \<and> (\<forall>k v. value_of (fst (run_cache_op oper s)) k = Some v \<longrightarrow> written oper f k = Some v)"
    by (rule run_cache_op_spec[OF Cons.prems(1) fits]) (rule Cons.prems(3))
  have same: "same_limits (fst s) (fst (run_cache_op oper s))" using one by blast
  have "cache_bounded (fst (fold run_cache_op ops (run_cache_op oper s))) \<and> same_limits (fst (run_cache_op oper s)) (fst (fold run_cache_op ops (run_cache_op oper s)))
      \<and> (\<forall>k v. value_of (fst (fold run_cache_op ops (run_cache_op oper s))) k = Some v \<longrightarrow> fold written ops (written oper f) k = Some v)"
    by (rule Cons.IH) (use one Cons.prems same in \<open>auto simp: same_limits_def\<close>)
  then show ?case using same by (auto simp: same_limits_def)
qed

lemma evict_one_oldest:
  assumes "evict_one tenant pinned s = Some s'"
  shows "\<exists>p \<in> set (eviction_candidates tenant pinned (fst s)). fst s' = snd (cache_remove (fst p) (fst s))
    \<and> (\<forall>x \<in> set (eviction_candidates tenant pinned (fst s)). ce_last_access (snd p) \<le> ce_last_access (snd x))"
proof -
  have least: "min_by_key f xs = Some p \<Longrightarrow> p \<in> set xs \<and> (\<forall>x \<in> set xs. f p \<le> f x)" for f :: "'x \<Rightarrow> u64" and xs p
    by (induction xs arbitrary: p) (force split: option.splits if_splits)+
  obtain p where "min_by_key (\<lambda>p. ce_last_access (snd p)) (eviction_candidates tenant pinned (fst s)) = Some p"
    "fst s' = snd (cache_remove (fst p) (fst s))"
    using assms by (auto simp: evict_one_def split: prod.splits option.splits)
  with least[of "\<lambda>p. ce_last_access (snd p)" "eviction_candidates tenant pinned (fst s)" p] show ?thesis by blast
qed

subsection \<open>Properties\<close>

text \<open>C19 (cache_stays_bounded). Through any history of lookups, insertions, removals and retentions a cache keeps within its limits: it
  has at most its number of entries, the sizes of its entries sum up to its resident bytes and to no more than the byte
  limit, and no tenant has more entries than its quota, provided each inserted size and the byte limit together fit in 64
  bits (a larger size would saturate the count). It never serves a stale value: a lookup that finds something finds the value inserted last
  under the key, with no removal since.\<close>

theorem cache_stays_bounded:
  assumes "\<forall>oper \<in> set ops. op_fits max_bytes oper"
    and "s = fold run_cache_op ops (new_with_byte_limit max_entries quota max_bytes, metrics)"
  shows "cache_len (fst s) \<le> max_entries
    \<and> unat (bc_resident_bytes (fst s)) = (\<Sum>p\<leftarrow>bc_entries (fst s). unat (ce_resident_bytes (snd p)))
    \<and> bc_resident_bytes (fst s) \<le> max_bytes
    \<and> (\<forall>limit tenant. quota = Some limit \<longrightarrow> length (filter (\<lambda>p. ce_tenant (snd p) = tenant) (bc_entries (fst s))) \<le> limit)
    \<and> (\<forall>k v. fst (cache_get k (fst s)) = Some v \<longrightarrow> fold written ops (\<lambda>_. None) k = Some v)"
proof -
  let ?s = "(new_with_byte_limit max_entries quota max_bytes, metrics)"
  have run: "cache_bounded (fst s) \<and> same_limits (fst ?s) (fst s) \<and> (\<forall>k v. value_of (fst s) k = Some v \<longrightarrow> fold written ops (\<lambda>_. None) k = Some v)"
    unfolding assms(2) by (rule cache_history) (use assms(1) in \<open>simp_all add: bounded_empty value_of_new new_with_byte_limit_fields\<close>)
  have eqs: "bc_max_entries (fst s) = max_entries" "bc_max_resident_bytes (fst s) = max_bytes" "bc_max_entries_per_tenant (fst s) = quota"
    using run by (simp_all add: same_limits_def new_with_byte_limit_fields)
  have count: "entry_sum (of_tenant t) m = length (filter (\<lambda>p. ce_tenant (snd p) = t) m)" for t and m :: "('a \<times> 'b cache_entry) list"
    by (induction m) (simp_all add: entry_sum_def of_tenant_def)
  note b = run[THEN conjunct1]
  show ?thesis
  proof (intro conjI allI impI)
    show "fold written ops (\<lambda>_. None) k = Some v" if "fst (cache_get k (fst s)) = Some v" for k v
      using that run unfolding cache_get_spec(2)[OF b] by blast
    show "length (filter (\<lambda>p. ce_tenant (snd p) = tenant) (bc_entries (fst s))) \<le> limit" if "quota = Some limit" for limit tenant
      using b that unfolding cache_bounded_def eqs by (simp add: tenants_below_def count)
  qed (use b[unfolded cache_bounded_def eqs] in \<open>simp_all add: cache_len_def cache_ok_def entry_sum_def entry_bytes_def\<close>)
qed

text \<open>Witness of C19 (cache_stays_bounded): two entries of sixty bytes in a cache of a hundred.\<close>

theorem cache_stays_bounded_witness:
  "bc_resident_bytes (fst (fold run_cache_op
      [InsertOp (1 :: nat) ''first'' ''cell'' False 60, InsertOp 2 ''second'' ''cell'' False 60]
      (new_with_byte_limit 10 None 100, \<lparr>cm_insertions = 0, cm_evictions = 0, cm_tenant_quota_rejections = 0, cm_pinned_insertions = 0\<rparr>)))
    \<le> (100 :: u64)"
proof -
  have fit: "\<forall>oper \<in> set [InsertOp (1 :: nat) ''first'' ''cell'' False 60, InsertOp 2 ''second'' ''cell'' False 60]. op_fits 100 oper" by simp
  show ?thesis
    by (rule cache_stays_bounded[OF fit refl, where max_entries = 10 and quota = None, THEN conjunct2, THEN conjunct2, THEN conjunct1])
qed

end
