(* ===== verification/Object_Store.thy ===== *)
theory Object_Store
  imports Graph_Error
begin

text \<open>
  What the sources use of the object store (the crate \<^verbatim>\<open>object_store\<close>): its errors, as far as the sources tell them
  apart, and the modes of a write. The version that a conditional write names is a value of the store, so its type is a
  parameter. A write in a mode is admitted by what the path holds: nothing, the version named, or anything.
\<close>

datatype object_error = ObjNotFound string | ObjAlreadyExists string | ObjPrecondition string | ObjNotImplemented string | ObjOther string

fun object_error_text :: "object_error \<Rightarrow> string" where
  "object_error_text (ObjNotFound e) = e"
| "object_error_text (ObjAlreadyExists e) = e"
| "object_error_text (ObjPrecondition e) = e"
| "object_error_text (ObjNotImplemented e) = e"
| "object_error_text (ObjOther e) = e"

datatype 'ver put_mode = PutCreate | PutUpdate 'ver | PutOverwrite

fun admits :: "'ver put_mode \<Rightarrow> 'ver option \<Rightarrow> bool" where
  "admits PutCreate held \<longleftrightarrow> held = None"
| "admits (PutUpdate ver) held \<longleftrightarrow> held = Some ver"
| "admits PutOverwrite held \<longleftrightarrow> True"

end
