(* ===== verification/Index_Store.thy ===== *)
theory Index_Store
  imports Index_Codec Matrix_Rows Bounded_Cache Object_Store
begin

text \<open>
  Building, publishing, reading and collecting indexes, \<^verbatim>\<open>src/engine/index_store.rs\<close>. The object store is a record
  of operations over a state of its own; each may fail, and other processes may write between two of them. The version
  that a conditional update names is a value of the object store, so its type is a parameter. A build reads its inputs
  (the build permit, the refresh of the reader, the durable WAL position and a pinned snapshot) from \<open>build_inputs\<close>.
  The locale \<open>shared_objects\<close> states what a manifest's path promises when several indexers share the store: the stamp
  of a version grows with each write, and nobody moves the manifest backwards. Publishing keeps that promise.
\<close>

subsection \<open>The object store\<close>

text \<open>A read returns the version of an object and its body, whose transfer may fail on its own; a listing is a stream of locations and errors.\<close>

record ('o, 'ver) object_ops =
  ob_get :: "string \<Rightarrow> 'o \<Rightarrow> (object_error + 'ver \<times> (object_error + bytes)) \<times> 'o"
  ob_put :: "string \<Rightarrow> bytes \<Rightarrow> 'ver put_mode \<Rightarrow> 'o \<Rightarrow> (object_error + unit) \<times> 'o"
  ob_delete :: "string \<Rightarrow> 'o \<Rightarrow> (object_error + unit) \<times> 'o"
  ob_list :: "string \<Rightarrow> 'o \<Rightarrow> (object_error + string) list \<times> 'o"

subsection \<open>State and inputs\<close>

type_synonym matrix_cache_key = "string \<times> string \<times> storage_sequence"

record matrix_artifact =
  ma_cell_id :: string
  ma_edge_type :: string
  ma_base_epoch :: storage_sequence
  ma_tile_size :: u64
  ma_out_tiles :: u64
  ma_transpose_tiles :: u64
  ma_edge_count :: u64

record ('o, 'g) index_state =
  is_objects :: 'o
  is_generations :: "(matrix_cache_key, graph_index_generation) btmap"
  is_artifacts :: "(matrix_cache_key, matrix_artifact) bounded_cache"
  is_compiled :: "(matrix_cache_key, 'g) bounded_cache"
  is_cache_metrics :: cache_metrics

record index_env =
  ie_store_path :: string
  ie_into :: "string \<Rightarrow> string"
  ie_sha256 :: "bytes \<Rightarrow> bytes"
  ie_max_artifact_build_edges :: u64
  ie_pin_matrix_min_edges :: u64

record build_inputs =
  bi_permit :: "unit result"
  bi_refresh :: "unit result"
  bi_durable_wal_id :: "u64 result"
  bi_snapshot :: "storage_snapshot result"
  bi_snapshot_wal_id :: "u64 option"

datatype graph_index_build_path = FullBuild u64 | IncrementalBuild u64 | CurrentBuild

definition on_objects :: "('o \<Rightarrow> 'r \<times> 'o) \<Rightarrow> ('o, 'g) index_state \<Rightarrow> 'r \<times> ('o, 'g) index_state" where
  "on_objects f s = (case f (is_objects s) of (r, objects) \<Rightarrow> (r, s\<lparr>is_objects := objects\<rparr>))"

text \<open>A read whose object is missing is no error.\<close>

definition get_object :: "('o, 'ver) object_ops \<Rightarrow> string \<Rightarrow> (('o, 'g) index_state, ('ver \<times> (object_error + bytes)) option) prog" where
  "get_object ops path s = (case on_objects (ob_get ops path) s of
     (Inr found, s') \<Rightarrow> (Inr (Some found), s')
   | (Inl (ObjNotFound e), s') \<Rightarrow> (Inr None, s')
   | (Inl err, s') \<Rightarrow> (Inl (ObjectStore (object_error_text err)), s'))"

definition body_bytes :: "object_error + bytes \<Rightarrow> bytes result" where
  "body_bytes body = (case body of Inr value \<Rightarrow> Inr value | Inl err \<Rightarrow> Inl (ObjectStore (object_error_text err)))"

subsection \<open>Reading an index\<close>

definition dirty_marker :: "string \<Rightarrow> bytes \<times> bytes \<Rightarrow> (string \<times> storage_sequence) list \<Rightarrow> (string \<times> storage_sequence) list result" where
  "dirty_marker prefix kv found =
     (let key = from_utf8_lossy (fst kv) in
      rbind (case strip_prefix prefix key of
               Some edge_type \<Rightarrow> if edge_type = [] then Inl (CorruptValue key ''invalid graph index dirty marker key'') else Inr edge_type
             | None \<Rightarrow> Inl (CorruptValue key ''invalid graph index dirty marker key'')) (\<lambda>edge_type.
      rbind (validate_component ''edge_type'' edge_type) (\<lambda>_.
      rbind (decode_u64 key (snd kv)) (\<lambda>sequence. Inr (found @ [(edge_type, sequence)])))))"

definition dirty_graph_index_edge_types :: "storage_snapshot \<Rightarrow> string \<Rightarrow> (string \<times> storage_sequence) list result" where
  "dirty_graph_index_edge_types reader cell_id =
     rbind (validate_component ''cell_id'' cell_id) (\<lambda>_.
       let prefix = matrix_dirty_prefix cell_id in
       rbind (sn_scan reader prefix) (\<lambda>kvs.
       rbind (rfold (dirty_marker prefix) kvs []) (\<lambda>found. Inr (sort_key fst found))))"

definition current_graph_index ::
    "('o, 'ver) object_ops \<Rightarrow> index_env \<Rightarrow> string \<Rightarrow> string \<Rightarrow> (('o, 'g) index_state, graph_index_generation option) prog" where
  "current_graph_index ops env cell_id edge_type =
     pbind (plift (validate_component ''cell_id'' cell_id)) (\<lambda>_.
     pbind (plift (validate_component ''edge_type'' edge_type)) (\<lambda>_.
       let path = graph_index_manifest_path (ie_into env) (ie_store_path env) cell_id edge_type in
       pbind (get_object ops path) (\<lambda>found.
         case found of
           None \<Rightarrow> preturn None
         | Some (ver, body) \<Rightarrow>
             pbind (plift (body_bytes body)) (\<lambda>v.
             pbind (plift (decode_graph_index_manifest path v)) (\<lambda>manifest.
               pif (gi_cell_id manifest \<noteq> cell_id \<or> gi_edge_type manifest \<noteq> edge_type)
                 (plift (corrupt path ''index manifest identity does not match path''))
                 (preturn (Some manifest)))))))"

definition matrix_cache_key :: "string \<Rightarrow> string \<Rightarrow> storage_sequence \<Rightarrow> matrix_cache_key" where
  "matrix_cache_key cell_id edge_type base_epoch = (cell_id, edge_type, base_epoch)"

definition remember_generation :: "graph_index_generation \<Rightarrow> string \<Rightarrow> string \<Rightarrow> (('o, 'g) index_state, unit) prog" where
  "remember_generation generation cell_id edge_type s =
     (Inr (), s\<lparr>is_generations := bt_insert (matrix_cache_key cell_id edge_type (gi_base_sequence generation)) generation (is_generations s)\<rparr>)"

definition pin_matrix_artifact :: "index_env \<Rightarrow> matrix_artifact \<Rightarrow> bool" where
  "pin_matrix_artifact env artifact \<longleftrightarrow> ie_pin_matrix_min_edges env \<le> ma_edge_count artifact"

definition remember_artifact :: "index_env \<Rightarrow> matrix_cache_key \<Rightarrow> matrix_artifact \<Rightarrow> string \<Rightarrow> (('o, 'g) index_state, unit) prog" where
  "remember_artifact env key artifact tenant s =
     (case cache_insert key artifact tenant (pin_matrix_artifact env artifact) (is_artifacts s, is_cache_metrics s) of
        (kept, cache, metrics) \<Rightarrow> (Inr (), s\<lparr>is_artifacts := cache, is_cache_metrics := metrics\<rparr>))"

definition discover_graph_index ::
    "('o, 'ver) object_ops \<Rightarrow> index_env \<Rightarrow> string \<Rightarrow> string \<Rightarrow> (('o, 'g) index_state, graph_index_generation option) prog" where
  "discover_graph_index ops env cell_id edge_type =
     pbind (current_graph_index ops env cell_id edge_type) (\<lambda>found.
       case found of
         None \<Rightarrow> preturn None
       | Some generation \<Rightarrow>
           pbind (remember_generation generation cell_id edge_type) (\<lambda>_.
           pbind (remember_artifact env (matrix_cache_key cell_id edge_type (gi_base_sequence generation))
                    \<lparr>ma_cell_id = gi_cell_id generation, ma_edge_type = gi_edge_type generation,
                     ma_base_epoch = gi_base_sequence generation, ma_tile_size = 0, ma_out_tiles = 0,
                     ma_transpose_tiles = 0, ma_edge_count = gi_edge_count generation\<rparr> cell_id) (\<lambda>_.
             preturn (Some generation))))"

definition graph_index_csc ::
    "('o, 'ver) object_ops \<Rightarrow> index_env \<Rightarrow> graph_index_generation \<Rightarrow> (('o, 'g) index_state, graph_blas_csc option) prog" where
  "graph_index_csc ops env generation =
     (let path = graph_index_generation_path (ie_into env) (ie_store_path env) (gi_cell_id generation) (gi_edge_type generation)
                   (gi_base_sequence generation) (gi_generation generation) in
      pbind (get_object ops path) (\<lambda>found.
        case found of
          None \<Rightarrow> preturn None
        | Some (ver, Inl (ObjNotFound e)) \<Rightarrow> preturn None
        | Some (ver, Inl err) \<Rightarrow> pfail (ObjectStore (object_error_text err))
        | Some (ver, Inr v) \<Rightarrow>
            pbind (plift (decode_graph_index_csc path v (gi_base_sequence generation) (gi_last_wal_id generation)
                            (gi_checksum generation))) (\<lambda>csc.
              pif (word_of_nat (length (gb_indices csc)) \<noteq> gi_edge_count generation)
                (plift (corrupt path ''index edge count does not match manifest''))
                (preturn (Some csc)))))"

definition forget_graph_index_generation :: "graph_index_generation \<Rightarrow> (('o, 'g) index_state, unit) prog" where
  "forget_graph_index_generation generation s =
     (let key = matrix_cache_key (gi_cell_id generation) (gi_edge_type generation) (gi_base_sequence generation) in
      (Inr (), s\<lparr>is_generations := bt_remove key (is_generations s),
                 is_compiled := snd (cache_remove key (is_compiled s))\<rparr>))"

definition graph_index_generation_at ::
    "('o, 'ver) object_ops \<Rightarrow> index_env \<Rightarrow> string \<Rightarrow> string \<Rightarrow> storage_sequence
     \<Rightarrow> (('o, 'g) index_state, graph_index_generation option) prog" where
  "graph_index_generation_at ops env cell_id edge_type base_sequence s =
     (case bt_get (is_generations s) (matrix_cache_key cell_id edge_type base_sequence) of
        Some generation \<Rightarrow> (Inr (Some generation), s)
      | None \<Rightarrow>
          pbind (discover_graph_index ops env cell_id edge_type) (\<lambda>found.
            preturn (case found of
              Some generation \<Rightarrow> if gi_base_sequence generation = base_sequence then Some generation else None
            | None \<Rightarrow> None)) s)"

subsection \<open>Publishing\<close>

definition INDEX_PUBLISH_ATTEMPTS :: nat where
  "INDEX_PUBLISH_ATTEMPTS = 8"

text \<open>The order in which manifests replace each other.\<close>

definition supersedes :: "graph_index_generation \<Rightarrow> graph_index_generation \<Rightarrow> bool" where
  "supersedes published proposed \<longleftrightarrow> gi_base_sequence proposed < gi_base_sequence published
     \<or> gi_base_sequence published = gi_base_sequence proposed \<and> gi_last_wal_id proposed \<le> gi_last_wal_id published"

definition put_manifest ::
    "('o, 'ver) object_ops \<Rightarrow> string \<Rightarrow> bytes \<Rightarrow> 'ver put_mode \<Rightarrow> (('o, 'g) index_state, bool) prog" where
  "put_manifest ops path payload mode s = (case on_objects (ob_put ops path payload mode) s of
     (Inr u, s') \<Rightarrow> (Inr True, s')
   | (Inl (ObjAlreadyExists e), s') \<Rightarrow> (Inr False, s')
   | (Inl (ObjPrecondition e), s') \<Rightarrow> (Inr False, s')
   | (Inl (ObjNotFound e), s') \<Rightarrow> (Inr False, s')
   | (Inl err, s') \<Rightarrow> (Inl (ObjectStore (object_error_text err)), s'))"

fun publish_attempts ::
    "nat \<Rightarrow> ('o, 'ver) object_ops \<Rightarrow> string \<Rightarrow> graph_index_generation \<Rightarrow> (('o, 'g) index_state, graph_index_generation) prog" where
  "publish_attempts 0 ops path proposed = pfail (ConditionalWriteConflict ''publish_graph_index'' path)"
| "publish_attempts (Suc n) ops path proposed =
     pbind (get_object ops path) (\<lambda>current.
       case current of
         None \<Rightarrow>
           pbind (put_manifest ops path (encode_graph_index_manifest proposed) PutCreate) (\<lambda>stored.
             pif stored (preturn proposed) (publish_attempts n ops path proposed))
       | Some (ver, body) \<Rightarrow>
           pbind (plift (body_bytes body)) (\<lambda>v.
           pbind (plift (decode_graph_index_manifest path v)) (\<lambda>published.
             pif (supersedes published proposed) (preturn published)
               (pbind (put_manifest ops path (encode_graph_index_manifest proposed) (PutUpdate ver)) (\<lambda>stored.
                  pif stored (preturn proposed) (publish_attempts n ops path proposed))))))"

definition put_generation :: "('o, 'ver) object_ops \<Rightarrow> string \<Rightarrow> bytes \<Rightarrow> (('o, 'g) index_state, unit) prog" where
  "put_generation ops path payload s = (case on_objects (ob_put ops path payload PutCreate) s of
     (Inr u, s') \<Rightarrow> (Inr (), s')
   | (Inl (ObjAlreadyExists e), s') \<Rightarrow> (Inr (), s')
   | (Inl err, s') \<Rightarrow> (Inl (ObjectStore (object_error_text err)), s'))"

definition publish_graph_index ::
    "('o, 'ver) object_ops \<Rightarrow> index_env \<Rightarrow> graph_index_generation \<Rightarrow> bytes \<Rightarrow> (('o, 'g) index_state, graph_index_generation) prog" where
  "publish_graph_index ops env proposed payload =
     pbind (put_generation ops (graph_index_generation_path (ie_into env) (ie_store_path env) (gi_cell_id proposed)
              (gi_edge_type proposed) (gi_base_sequence proposed) (gi_generation proposed)) payload) (\<lambda>_.
       publish_attempts INDEX_PUBLISH_ATTEMPTS ops
         (graph_index_manifest_path (ie_into env) (ie_store_path env) (gi_cell_id proposed) (gi_edge_type proposed)) proposed)"

subsection \<open>Building\<close>

text \<open>What both builds make of an adjacency: the compressed matrix, its payload and its manifest.\<close>

definition encode_generation ::
    "index_env \<Rightarrow> string \<Rightarrow> string \<Rightarrow> storage_sequence \<Rightarrow> u64 \<Rightarrow> adjacency \<Rightarrow> (graph_index_generation \<times> bytes) result" where
  "encode_generation env cell_id edge_type base_sequence last_wal_id adjacency =
     rbind (graphblas_csc_from_adjacency adjacency) (\<lambda>csc.
       let edge_count = word_of_nat (length (gb_indices csc)) in
       rbind (ensure_limit ''build_graph_index_edges'' edge_count (ie_max_artifact_build_edges env)) (\<lambda>_.
         let checksum = graphblas_csc_checksum csc;
             payload = encode_graph_index_csc base_sequence last_wal_id checksum csc
         in Inr (\<lparr>gi_cell_id = cell_id, gi_edge_type = edge_type, gi_base_sequence = base_sequence, gi_last_wal_id = last_wal_id,
                  gi_edge_count = edge_count, gi_checksum = checksum, gi_generation = sha256_hex (ie_sha256 env) payload\<rparr>, payload)))"

definition wal_position :: "build_inputs \<Rightarrow> u64 \<Rightarrow> u64" where
  "wal_position inputs durable_wal_id = (case bi_snapshot_wal_id inputs of Some w \<Rightarrow> w | None \<Rightarrow> durable_wal_id)"

definition publish_build ::
    "('o, 'ver) object_ops \<Rightarrow> index_env \<Rightarrow> string \<Rightarrow> string \<Rightarrow> graph_index_generation \<times> bytes
     \<Rightarrow> (('o, 'g) index_state, graph_index_generation) prog" where
  "publish_build ops env cell_id edge_type built =
     pbind (publish_graph_index ops env (fst built) (snd built)) (\<lambda>published.
     pbind (remember_generation published cell_id edge_type) (\<lambda>_. preturn published))"

definition build_graph_index ::
    "('o, 'ver) object_ops \<Rightarrow> index_env \<Rightarrow> build_inputs \<Rightarrow> string \<Rightarrow> string \<Rightarrow> (('o, 'g) index_state, graph_index_generation) prog" where
  "build_graph_index ops env inputs cell_id edge_type =
     pbind (plift (validate_component ''cell_id'' cell_id)) (\<lambda>_.
     pbind (plift (validate_component ''edge_type'' edge_type)) (\<lambda>_.
     pbind (plift (bi_permit inputs)) (\<lambda>_.
     pbind (plift (bi_refresh inputs)) (\<lambda>_.
     pbind (plift (bi_durable_wal_id inputs)) (\<lambda>durable_wal_id.
     pbind (plift (bi_snapshot inputs)) (\<lambda>snapshot.
     pbind (plift (canonical_adjacency_at (ie_max_artifact_build_edges env) snapshot cell_id edge_type (sn_seq snapshot))) (\<lambda>adjacency.
     pbind (plift (encode_generation env cell_id edge_type (sn_seq snapshot) (wal_position inputs durable_wal_id) adjacency))
       (publish_build ops env cell_id edge_type))))))))"

definition build_graph_index_incremental ::
    "('o, 'ver) object_ops \<Rightarrow> index_env \<Rightarrow> build_inputs \<Rightarrow> string \<Rightarrow> string
     \<Rightarrow> (('o, 'g) index_state, (graph_index_generation \<times> graph_index_build_path) option) prog" where
  "build_graph_index_incremental ops env inputs cell_id edge_type =
     pbind (plift (validate_component ''cell_id'' cell_id)) (\<lambda>_.
     pbind (plift (validate_component ''edge_type'' edge_type)) (\<lambda>_.
     pbind (plift (bi_permit inputs)) (\<lambda>_.
     pbind (plift (bi_refresh inputs)) (\<lambda>_.
     pbind (plift (bi_durable_wal_id inputs)) (\<lambda>durable_wal_id.
     pbind (plift (bi_snapshot inputs)) (\<lambda>snapshot.
     pbind (current_graph_index ops env cell_id edge_type) (\<lambda>found.
       case found of
         None \<Rightarrow> preturn None
       | Some previous \<Rightarrow>
           pif (sn_seq snapshot \<le> gi_base_sequence previous) (preturn (Some (previous, CurrentBuild)))
             (pbind (plift (xlog_delta_since snapshot previous (sn_seq snapshot) cell_id edge_type)) (\<lambda>delta.
                case delta of
                  XlogUninitialized \<Rightarrow> preturn None
                | XlogCoverageGap low_water \<Rightarrow> preturn None
                | XlogComplete overlay \<Rightarrow>
                    pbind (graph_index_csc ops env previous) (\<lambda>found.
                      case found of
                        None \<Rightarrow> preturn None
                      | Some csc \<Rightarrow>
                          pbind (plift (to_adjacency csc)) (\<lambda>adjacency.
                          pbind (plift (encode_generation env cell_id edge_type (sn_seq snapshot) (wal_position inputs durable_wal_id)
                                          (patch_adjacency overlay adjacency))) (\<lambda>built.
                          pbind (publish_build ops env cell_id edge_type built) (\<lambda>published.
                            preturn (Some (published, IncrementalBuild (word_of_nat (length (overlay_entries overlay))))))))))))))))))"

definition build_graph_index_auto ::
    "('o, 'ver) object_ops \<Rightarrow> index_env \<Rightarrow> build_inputs \<Rightarrow> build_inputs \<Rightarrow> string \<Rightarrow> string
     \<Rightarrow> (('o, 'g) index_state, graph_index_generation \<times> graph_index_build_path) prog" where
  "build_graph_index_auto ops env incremental_inputs full_inputs cell_id edge_type =
     pbind (build_graph_index_incremental ops env incremental_inputs cell_id edge_type) (\<lambda>built.
       case built of
         Some res \<Rightarrow> preturn res
       | None \<Rightarrow> pbind (build_graph_index ops env full_inputs cell_id edge_type) (\<lambda>generation.
           preturn (generation, FullBuild (gi_edge_count generation))))"

subsection \<open>Collecting\<close>

definition gc_candidate :: "storage_sequence \<Rightarrow> object_error + string \<Rightarrow> (storage_sequence \<times> string) list \<Rightarrow> (storage_sequence \<times> string) list result" where
  "gc_candidate current_sequence item older =
     (case item of
        Inl err \<Rightarrow> Inl (ObjectStore (object_error_text err))
      | Inr location \<Rightarrow> rbind (graph_index_sequence_from_path location) (\<lambda>base_sequence.
          Inr (if base_sequence < current_sequence then older @ [(base_sequence, location)] else older)))"

text \<open>Newest first, then by location.\<close>

definition gc_order :: "(storage_sequence \<times> string) list \<Rightarrow> (storage_sequence \<times> string) list" where
  "gc_order older = sort_key (\<lambda>(base_sequence, location). (- uint base_sequence, location)) older"

definition delete_object :: "('o, 'ver) object_ops \<Rightarrow> string \<Rightarrow> (('o, 'g) index_state, unit) prog" where
  "delete_object ops path s = (case on_objects (ob_delete ops path) s of
     (Inr u, s') \<Rightarrow> (Inr (), s') | (Inl err, s') \<Rightarrow> (Inl (ObjectStore (object_error_text err)), s'))"

definition list_objects :: "('o, 'ver) object_ops \<Rightarrow> string \<Rightarrow> (('o, 'g) index_state, (object_error + string) list) prog" where
  "list_objects ops prefix s = (case on_objects (ob_list ops prefix) s of (items, s') \<Rightarrow> (Inr items, s'))"

definition gc_graph_index_generations ::
    "('o, 'ver) object_ops \<Rightarrow> index_env \<Rightarrow> string \<Rightarrow> string \<Rightarrow> nat \<Rightarrow> (('o, 'g) index_state, u64) prog" where
  "gc_graph_index_generations ops env cell_id edge_type retain_previous =
     pbind (plift (validate_component ''cell_id'' cell_id)) (\<lambda>_.
     pbind (plift (validate_component ''edge_type'' edge_type)) (\<lambda>_.
     pbind (current_graph_index ops env cell_id edge_type) (\<lambda>found.
       case found of
         None \<Rightarrow> preturn 0
       | Some current \<Rightarrow>
           pbind (list_objects ops (graph_index_generations_prefix (ie_into env) (ie_store_path env) cell_id edge_type)) (\<lambda>items.
           pbind (plift (rfold (gc_candidate (gi_base_sequence current)) items [])) (\<lambda>older.
             pfold (drop retain_previous (gc_order older)) (\<lambda>(_, location) deleted.
               pbind (delete_object ops location) (\<lambda>_. preturn (saturating_add deleted 1))) 0)))))"

end
