(* ===== verification/Index_Publish.thy ===== *)
theory Index_Publish
  imports Index_Store
begin

text \<open>
  Properties of \<^verbatim>\<open>src/engine/index_store.rs\<close>. Publishing: several indexers share the object store, and each of them
  only ever moves a manifest forward, to a later base sequence or at the same one to a later WAL position. Building: an
  incremental build makes, byte for byte, the payload and the manifest that a full build makes at the same snapshot.
  Collecting: only generations older than the current one go, the newest of them last.
\<close>

subsection \<open>The order of manifests\<close>

text \<open>A manifest is at least as late as another when its base sequence is later, or the same with no earlier WAL position.\<close>

definition at_least :: "graph_index_generation \<Rightarrow> graph_index_generation \<Rightarrow> bool" where
  "at_least g' g \<longleftrightarrow> (gi_base_sequence g, gi_last_wal_id g) \<le> (gi_base_sequence g', gi_last_wal_id g')"

lemma supersedes_at_least: "supersedes g' g \<longleftrightarrow> at_least g' g"
  by (auto simp: supersedes_def at_least_def less_eq_prod_def)

lemma at_least_refl [simp]: "at_least g g"
  by (simp add: at_least_def)

lemma at_least_trans: "at_least c b \<Longrightarrow> at_least b a \<Longrightarrow> at_least c a"
  unfolding at_least_def by (rule order_trans)

lemma at_least_total: "\<not> at_least a b \<Longrightarrow> at_least b a"
  unfolding at_least_def by (rule linorder_le_cases) auto

text \<open>The object at a path moves forward: it stays, or a later write replaces it by a manifest at least as late.\<close>

definition forward ::
    "('ver \<Rightarrow> nat) \<Rightarrow> string \<Rightarrow> (string \<Rightarrow> ('ver \<times> bytes) option) \<Rightarrow> (string \<Rightarrow> ('ver \<times> bytes) option) \<Rightarrow> bool" where
  "forward stamp p h h' \<longleftrightarrow> (\<forall>ver v. h p = Some (ver, v) \<longrightarrow> (\<exists>ver' v'. h' p = Some (ver', v') \<and>
     ((ver', v') = (ver, v) \<or> stamp ver < stamp ver' \<and> (\<forall>g. decode_graph_index_manifest p v = Inr g \<longrightarrow>
        (\<exists>g'. decode_graph_index_manifest p v' = Inr g' \<and> at_least g' g)))))"

lemma forward_refl [simp]: "forward stamp p h h"
  by (simp add: forward_def)

lemma forward_trans:
  assumes ab: "forward stamp p a b" and bc: "forward stamp p b c"
  shows "forward stamp p a c"
  unfolding forward_def
proof (intro allI impI)
  fix ver v assume a: "a p = Some (ver, v)"
  obtain ver1 v1 where b: "b p = Some (ver1, v1)" "(ver1, v1) = (ver, v) \<or> stamp ver < stamp ver1 \<and> (\<forall>g. decode_graph_index_manifest p v = Inr g \<longrightarrow>
      (\<exists>g'. decode_graph_index_manifest p v1 = Inr g' \<and> at_least g' g))"
    using ab[unfolded forward_def, rule_format, OF a] by blast
  obtain ver2 v2 where c: "c p = Some (ver2, v2)" "(ver2, v2) = (ver1, v1) \<or> stamp ver1 < stamp ver2 \<and> (\<forall>g. decode_graph_index_manifest p v1 = Inr g \<longrightarrow>
      (\<exists>g'. decode_graph_index_manifest p v2 = Inr g' \<and> at_least g' g))"
    using bc[unfolded forward_def, rule_format, OF b(1)] by blast
  have "(ver2, v2) = (ver, v) \<or> stamp ver < stamp ver2 \<and> (\<forall>g. decode_graph_index_manifest p v = Inr g \<longrightarrow>
      (\<exists>g'. decode_graph_index_manifest p v2 = Inr g' \<and> at_least g' g))"
  proof (cases "(ver1, v1) = (ver, v)")
    case True
    then show ?thesis using c(2) by auto
  next
    case one: False
    show ?thesis
    proof (cases "(ver2, v2) = (ver1, v1)")
      case True
      then show ?thesis using b(2) one by auto
    next
      case False
      then show ?thesis using b(2) c(2) one by (meson less_trans at_least_trans)
    qed
  qed
  then show "\<exists>ver' v'. c p = Some (ver', v') \<and> ((ver', v') = (ver, v) \<or> stamp ver < stamp ver' \<and>
      (\<forall>g. decode_graph_index_manifest p v = Inr g \<longrightarrow> (\<exists>g'. decode_graph_index_manifest p v' = Inr g' \<and> at_least g' g)))"
    using c(1) by blast
qed

lemma forward_same:
  assumes "forward stamp p h h'" "h p = Some (ver, v)" "h' p = Some (ver, w)"
  shows "w = v"
  using assms unfolding forward_def by force

definition reached :: "string \<Rightarrow> graph_index_generation \<Rightarrow> (string \<Rightarrow> ('ver \<times> bytes) option) \<Rightarrow> bool" where
  "reached p g h \<longleftrightarrow> (\<exists>ver v g'. h p = Some (ver, v) \<and> decode_graph_index_manifest p v = Inr g' \<and> at_least g' g)"

lemma reached_forward:
  assumes "forward stamp p h h'" "reached p g h"
  shows "reached p g h'"
proof -
  obtain ver v g1 where h: "h p = Some (ver, v)" "decode_graph_index_manifest p v = Inr g1" "at_least g1 g"
    using assms(2) unfolding reached_def by blast
  from assms(1)[unfolded forward_def, rule_format, OF h(1)] obtain ver' v' g' where
    "h' p = Some (ver', v')" "decode_graph_index_manifest p v' = Inr g'" "at_least g' g1"
    using h(2) by (elim exE conjE disjE) auto
  then show ?thesis unfolding reached_def using at_least_trans[OF _ h(3)] by blast
qed

subsection \<open>Publishing on a shared store\<close>

text \<open>
  The promise of a shared store for one manifest path. Between two operations others may have moved the manifest
  forward. A read returns what is there when it happens. A conditional write that is applied found its condition true,
  and its version has a later stamp; a write may be applied although it returns an error.
\<close>

locale shared_objects =
  fixes ops :: "('o, 'ver) object_ops"
    and held :: "'o \<Rightarrow> string \<Rightarrow> ('ver \<times> bytes) option"
    and stamp :: "'ver \<Rightarrow> nat"
    and p :: string
  assumes get_law: "ob_get ops q x = (r, x') \<Longrightarrow>
      forward stamp p (held x) (held x') \<and> (\<forall>ver v. r = Inr (ver, Inr v) \<longrightarrow> held x' q = Some (ver, v))"
    and put_law: "ob_put ops q v mode x = (u, x') \<Longrightarrow> \<exists>h. forward stamp p (held x) h \<and>
      (held x' = h \<and> u \<noteq> Inr () \<or>
       admits mode (map_option fst (h q)) \<and> (\<exists>ver. held x' = h(q \<mapsto> (ver, v)) \<and> (\<forall>ver0 v0. h q = Some (ver0, v0) \<longrightarrow> stamp ver0 < stamp ver)))"
begin

abbreviation manifests :: "('o, 'g) index_state \<Rightarrow> string \<Rightarrow> ('ver \<times> bytes) option" where
  "manifests s \<equiv> held (is_objects s)"

lemma get_forward:
  assumes "get_object ops q s = (r, s1)"
  shows "forward stamp p (manifests s) (manifests s1) \<and> (\<forall>ver v. r = Inr (Some (ver, Inr v)) \<longrightarrow> manifests s1 q = Some (ver, v))"
proof -
  obtain x o1 where g: "ob_get ops q (is_objects s) = (x, o1)" by fastforce
  have o1: "is_objects s1 = o1" and r: "\<And>f. r = Inr (Some f) \<Longrightarrow> x = Inr f"
    using assms g by (auto simp: get_object_def on_objects_def split: sum.splits object_error.splits)
  show ?thesis using get_law[OF g] o1 r by auto
qed

lemma put_other_forward:
  assumes "put_generation ops q v s = (r, s1)" "q \<noteq> p"
  shows "forward stamp p (manifests s) (manifests s1)"
proof -
  obtain x o1 where g: "ob_put ops q v PutCreate (is_objects s) = (x, o1)" by fastforce
  have o1: "is_objects s1 = o1"
    using assms g by (auto simp: put_generation_def on_objects_def split: sum.splits object_error.splits)
  obtain h where h: "forward stamp p (manifests s) h" "held o1 = h \<or> (\<exists>ver. held o1 = h(q \<mapsto> (ver, v)))"
    using put_law[OF g] by blast
  have "forward stamp p h (held o1)" using h(2) assms(2) by (auto simp: forward_def)
  then show ?thesis using forward_trans[OF h(1)] o1 by simp
qed

lemma put_manifest_forward:
  assumes run: "put_manifest ops p (encode_graph_index_manifest g) mode s = (r, s1)" and g: "valid_generation g"
    and cond: "mode = PutCreate \<or> (\<exists>ver v g0. mode = PutUpdate ver \<and> manifests s p = Some (ver, v)
        \<and> decode_graph_index_manifest p v = Inr g0 \<and> at_least g g0)"
  shows "forward stamp p (manifests s) (manifests s1) \<and> (r = Inr True \<longrightarrow> reached p g (manifests s1))"
proof -
  let ?v = "encode_graph_index_manifest g"
  obtain x o1 where put: "ob_put ops p ?v mode (is_objects s) = (x, o1)" by fastforce
  have o1: "is_objects s1 = o1" and r: "r = Inr True \<Longrightarrow> x = Inr ()"
    using run put by (auto simp: put_manifest_def on_objects_def split: sum.splits object_error.splits)
  obtain h where h: "forward stamp p (manifests s) h" and res: "held o1 = h \<and> x \<noteq> Inr () \<or>
       admits mode (map_option fst (h p)) \<and> (\<exists>ver. held o1 = h(p \<mapsto> (ver, ?v)) \<and> (\<forall>ver0 v0. h p = Some (ver0, v0) \<longrightarrow> stamp ver0 < stamp ver))"
    using put_law[OF put] by blast
  from res show ?thesis
  proof
    assume "held o1 = h \<and> x \<noteq> Inr ()"
    then show ?thesis using h o1 r by auto
  next
    assume app: "admits mode (map_option fst (h p)) \<and> (\<exists>ver. held o1 = h(p \<mapsto> (ver, ?v)) \<and> (\<forall>ver0 v0. h p = Some (ver0, v0) \<longrightarrow> stamp ver0 < stamp ver))"
    then obtain ver where ver: "held o1 = h(p \<mapsto> (ver, ?v))" "\<And>ver0 v0. h p = Some (ver0, v0) \<Longrightarrow> stamp ver0 < stamp ver" by blast
    note dec = decode_manifest_encode[OF g, of p]
    have older: "at_least g g1" if "h p = Some (ver1, v1)" "decode_graph_index_manifest p v1 = Inr g1" for ver1 v1 g1
    proof -
      have "mode \<noteq> PutCreate" using app that(1) by auto
      then obtain ver0 v0 g0 where m: "mode = PutUpdate ver0" "manifests s p = Some (ver0, v0)"
        "decode_graph_index_manifest p v0 = Inr g0" "at_least g g0" using cond by blast
      have "h p = Some (ver0, v1)" using app m(1) that(1) by auto
      then have "v1 = v0" using forward_same[OF h m(2)] by blast
      then show ?thesis using m that(2) by simp
    qed
    have "forward stamp p h (held o1)"
      unfolding forward_def ver(1) using ver(2) older dec by (auto intro!: exI)
    moreover have "reached p g (held o1)" unfolding reached_def ver(1) using dec by simp
    ultimately show ?thesis using forward_trans[OF h] o1 by simp
  qed
qed

lemma publish_attempts_forward:
  assumes "publish_attempts n ops p g s = (r, s1)" "valid_generation g"
  shows "forward stamp p (manifests s) (manifests s1) \<and> (\<forall>x. r = Inr x \<longrightarrow> at_least x g \<and> reached p x (manifests s1))"
  using assms(1)
proof (induction n arbitrary: s r s1)
  case 0
  then show ?case by (auto simp: pfail_def)
next
  case (Suc n)
  obtain f s2 where get: "get_object ops p s = (f, s2)" by fastforce
  note gf = get_forward[OF get]
  have stored: "forward stamp p (manifests s) (manifests s1) \<and> (\<forall>x. r = Inr x \<longrightarrow> at_least x g \<and> reached p x (manifests s1))"
    if run: "pbind (put_manifest ops p (encode_graph_index_manifest g) mode) (\<lambda>stored.
        pif stored (preturn g) (publish_attempts n ops p g)) s2 = (r, s1)"
      and cond: "mode = PutCreate \<or> (\<exists>ver v g0. mode = PutUpdate ver \<and> manifests s2 p = Some (ver, v)
        \<and> decode_graph_index_manifest p v = Inr g0 \<and> at_least g g0)" for mode
  proof -
    obtain w s3 where put: "put_manifest ops p (encode_graph_index_manifest g) mode s2 = (w, s3)" by fastforce
    note pf = put_manifest_forward[OF put assms(2) cond]
    have to3: "forward stamp p (manifests s) (manifests s3)" using gf pf forward_trans by blast
    consider e where "w = Inl e" | "w = Inr True" | "w = Inr False" by (metis (full_types) sum.exhaust)
    then show ?thesis
    proof cases
      case 1
      then show ?thesis using run put to3 by (auto simp: pbind_def)
    next
      case 2
      then show ?thesis using run put to3 pf by (auto simp: pbind_def pif_def preturn_def)
    next
      case 3
      then have "publish_attempts n ops p g s3 = (r, s1)" using run put by (simp add: pbind_def pif_def)
      from Suc.IH[OF this] to3 show ?thesis using forward_trans by blast
    qed
  qed
  show ?case
  proof (cases f)
    case (Inl e)
    then show ?thesis using Suc.prems get gf by (auto simp: pbind_def)
  next
    case (Inr found)
    show ?thesis
    proof (cases found)
      case None
      then show ?thesis using Suc.prems get Inr by (intro stored[of PutCreate]) (simp_all add: pbind_def)
    next
      case (Some vb)
      obtain ver body where vb: "vb = (ver, body)" by fastforce
      show ?thesis
      proof (cases "rbind (body_bytes body) (decode_graph_index_manifest p)")
        case (Inl e)
        then have "r = Inl e \<and> s1 = s2" using Suc.prems get Inr Some vb \<open>f = Inr found\<close>
          by (cases "body_bytes body") (auto simp: pbind_def plift_def)
        then show ?thesis using gf by auto
      next
        case (Inr g0)
        then obtain v where v: "body = Inr v" "decode_graph_index_manifest p v = Inr g0"
          by (auto simp: rbind_Inr_iff body_bytes_def split: sum.splits)
        have at: "manifests s2 p = Some (ver, v)" using gf \<open>f = Inr found\<close> Some vb v(1) by blast
        show ?thesis
        proof (cases "at_least g0 g")
          case True
          then have "r = Inr g0 \<and> s1 = s2" using Suc.prems get \<open>f = Inr found\<close> Some vb v
            by (auto simp: pbind_def plift_def body_bytes_def pif_def preturn_def supersedes_at_least)
          then show ?thesis using True gf at v(2) by (auto simp: reached_def)
        next
          case False
          then show ?thesis using Suc.prems get \<open>f = Inr found\<close> Some vb v at at_least_total[OF False]
            by (intro stored[of "PutUpdate ver"]) (auto simp: pbind_def plift_def body_bytes_def pif_def supersedes_at_least)
        qed
      qed
    qed
  qed
qed

text \<open>Programs that only move the manifest forward.\<close>

definition keeps :: "(('o, 'g) index_state, 'a) prog \<Rightarrow> bool" where
  "keeps f \<longleftrightarrow> (\<forall>s r s'. f s = (r, s') \<longrightarrow> forward stamp p (manifests s) (manifests s'))"

lemma keepsI: "(\<And>s r s'. f s = (r, s') \<Longrightarrow> forward stamp p (manifests s) (manifests s')) \<Longrightarrow> keeps f"
  by (simp add: keeps_def)

lemma keeps_pbind:
  assumes "keeps f" "\<And>x. keeps (k x)"
  shows "keeps (pbind f k)"
proof (rule keepsI)
  fix s r s' assume run: "pbind f k s = (r, s')"
  obtain y s1 where f: "f s = (y, s1)" by fastforce
  have to1: "forward stamp p (manifests s) (manifests s1)" using assms(1) f unfolding keeps_def by blast
  show "forward stamp p (manifests s) (manifests s')"
  proof (cases y)
    case (Inl e)
    then show ?thesis using run f to1 by (simp add: pbind_def)
  next
    case (Inr x)
    then have "k x s1 = (r, s')" using run f by (simp add: pbind_def)
    then show ?thesis using assms(2)[of x] forward_trans[OF to1] unfolding keeps_def by blast
  qed
qed

lemma keeps_plift_bind: "(\<And>x. res = Inr x \<Longrightarrow> keeps (k x)) \<Longrightarrow> keeps (pbind (plift res) k)"
  unfolding keeps_def by (cases res) (auto simp: pbind_def plift_def)

lemma keeps_pure: "keeps (preturn x)" "keeps (plift res)" "keeps (pfail e)"
  by (simp_all add: keeps_def preturn_def plift_def pfail_def)

lemma keeps_pif: "keeps a \<Longrightarrow> keeps b \<Longrightarrow> keeps (pif c a b)"
  by (simp add: pif_def)

lemma keeps_get: "keeps (get_object ops q)"
  using get_forward by (intro keepsI) blast

lemma keeps_remember: "keeps (remember_generation g c t)"
  by (intro keepsI) (auto simp: remember_generation_def)

lemmas keeps_rules = keeps_pbind keeps_plift_bind keeps_pure keeps_pif keeps_get keeps_remember

lemma keeps_current: "keeps (current_graph_index ops env c t)"
  unfolding current_graph_index_def Let_def
  by (intro keeps_rules) (auto split: option.split prod.split intro!: keeps_rules)

lemma keeps_csc: "keeps (graph_index_csc ops env g)"
  unfolding graph_index_csc_def Let_def
  by (intro keeps_rules) (auto split: option.split prod.split sum.split object_error.split intro!: keeps_rules)

lemma publish_forward:
  assumes run: "publish_graph_index ops env g payload s = (r, s1)" and g: "valid_generation g"
    and path: "p = graph_index_manifest_path (ie_into env) (ie_store_path env) (gi_cell_id g) (gi_edge_type g)"
    and other: "graph_index_generation_path (ie_into env) (ie_store_path env) (gi_cell_id g) (gi_edge_type g) (gi_base_sequence g) (gi_generation g) \<noteq> p"
  shows "forward stamp p (manifests s) (manifests s1) \<and> (\<forall>x. r = Inr x \<longrightarrow> at_least x g \<and> reached p x (manifests s1))"
proof -
  obtain u s2 where put: "put_generation ops (graph_index_generation_path (ie_into env) (ie_store_path env) (gi_cell_id g) (gi_edge_type g)
      (gi_base_sequence g) (gi_generation g)) payload s = (u, s2)" by fastforce
  note pf = put_other_forward[OF put other]
  show ?thesis
  proof (cases u)
    case (Inl e)
    then show ?thesis using run put pf by (auto simp: publish_graph_index_def pbind_def)
  next
    case (Inr x)
    then have "publish_attempts INDEX_PUBLISH_ATTEMPTS ops p g s2 = (r, s1)" using run put path by (simp add: publish_graph_index_def pbind_def)
    from publish_attempts_forward[OF this g] show ?thesis using forward_trans[OF pf] by blast
  qed
qed

end

subsection \<open>Manifests of builds\<close>

text \<open>
  What the object store documents of its paths: a string becomes a path by segments, empty ones are left out, and each of
  the others is encoded on its own, into a non-empty segment without a delimiter. Different strings may become one path.
  A generation still lies elsewhere than the manifest, one level deeper.
\<close>

definition path_segments :: "string \<Rightarrow> string list" where
  "path_segments s = filter (\<lambda>w. w \<noteq> []) (split_on SLASH s)"

definition converts_segments :: "(string \<Rightarrow> string) \<Rightarrow> (string \<Rightarrow> string) \<Rightarrow> bool" where
  "converts_segments into enc \<longleftrightarrow> (\<forall>s. into s = join_with SLASH (map enc (path_segments s)))
     \<and> (\<forall>w. w \<noteq> [] \<longrightarrow> enc w \<noteq> [] \<and> SLASH \<notin> set (enc w))"

lemma split_on_both: "split_on sep (a @ sep # b) = split_on sep a @ split_on sep b"
proof (induction a)
  case (Cons x a)
  obtain w ws where "split_on sep a = w # ws" by (metis neq_Nil_conv split_on_nonempty)
  then show ?case using Cons by auto
qed simp

lemma path_segments_slash: "path_segments (a @ SLASH # b) = path_segments a @ path_segments b"
  by (simp add: path_segments_def split_on_both)

lemma path_segments_one: "w \<noteq> [] \<Longrightarrow> SLASH \<notin> set w \<Longrightarrow> path_segments w = [w]"
  by (simp add: path_segments_def split_on_no_sep)

lemma path_segments_some: "w \<noteq> [] \<Longrightarrow> SLASH \<notin> set w \<Longrightarrow> path_segments (w @ x) \<noteq> []"
proof (induction w arbitrary: x)
  case (Cons b w)
  obtain v vs where "split_on SLASH (w @ x) = v # vs" by (metis neq_Nil_conv split_on_nonempty)
  then show ?case using Cons.prems by (auto simp: path_segments_def)
qed simp

lemma converted_depth:
  assumes "converts_segments into enc" "into a = into b" "path_segments a \<noteq> []" "path_segments b \<noteq> []"
  shows "length (path_segments a) = length (path_segments b)"
proof -
  have parts: "split_on SLASH (into s) = map enc (path_segments s)" if "path_segments s \<noteq> []" for s
  proof -
    have "\<forall>w \<in> set (map enc (path_segments s)). SLASH \<notin> set w"
      using assms(1) by (auto simp: converts_segments_def path_segments_def)
    then show ?thesis using assms(1) that by (simp add: converts_segments_def split_on_join_with)
  qed
  have "map enc (path_segments a) = map enc (path_segments b)" using parts[OF assms(3)] parts[OF assms(4)] assms(2) by simp
  then show ?thesis by (rule map_eq_imp_length_eq)
qed

lemma generation_not_manifest:
  assumes "converts_segments (ie_into env) enc" "valid_component c" "valid_component t"
  shows "graph_index_generation_path (ie_into env) (ie_store_path env) c t q g \<noteq> graph_index_manifest_path (ie_into env) (ie_store_path env) c t"
proof
  let ?root = "graph_index_root (ie_store_path env)" and ?file = "fmt_020 q @ CHR ''-'' # g @ ''.csc''"
  let ?gen = "?root @ SLASH # c @ SLASH # t @ SLASH # ''generations'' @ SLASH # ?file" and ?man = "?root @ SLASH # c @ SLASH # t @ SLASH # ''current''"
  assume "graph_index_generation_path (ie_into env) (ie_store_path env) c t q g = graph_index_manifest_path (ie_into env) (ie_store_path env) c t"
  then have same: "ie_into env ?gen = ie_into env ?man" by (simp add: graph_index_generation_path_def graph_index_manifest_path_def)
  have ct: "path_segments c = [c]" "path_segments t = [t]"
    using assms(2,3) by (auto intro!: path_segments_one simp: valid_component_avoids valid_component_def)
  have names: "path_segments ''generations'' = [''generations'']" "path_segments ''current'' = [''current'']" by (simp_all add: path_segments_one)
  have f: "path_segments ?file \<noteq> []"
    using path_segments_some[of "fmt_020 q"] fmt_020_no_slash[of q] fmt_020_component[of q] by (auto simp: valid_component_def)
  have "path_segments ?gen = path_segments ?root @ [c, t, ''generations''] @ path_segments ?file"
    "path_segments ?man = path_segments ?root @ [c, t, ''current'']"
    using names path_segments_slash[of "''generations''" ?file] by (simp_all add: path_segments_slash ct)
  moreover have "0 < length (path_segments ?file)" using f by simp
  ultimately show False using converted_depth[OF assms(1) same] by simp
qed

lemma hex_encode_hexdigits: "list_all is_ascii_hexdigit (hex_encode bs)"
  using hex_encode_digits[of bs] is_digit_of_code[of 16] by (fastforce simp: list_all_iff is_ascii_hexdigit_def Let_def)

lemma encode_generation_valid:
  assumes "encode_generation env c t q w A = Inr (g, payload)" "valid_component c" "valid_component t" "\<And>v. length (ie_sha256 env v) = 32"
  shows "valid_generation g \<and> gi_cell_id g = c \<and> gi_edge_type g = t"
  using assms hex_encode_hexdigits length_hex_encode
  by (auto simp: encode_generation_def rbind_Inr_iff Let_def valid_generation_def sha256_hex_def)

context shared_objects
begin

lemma keeps_publish_build:
  assumes "valid_generation (fst built)" "gi_cell_id (fst built) = c" "gi_edge_type (fst built) = t"
    and "p = graph_index_manifest_path (ie_into env) (ie_store_path env) c t" "converts_segments (ie_into env) enc"
  shows "keeps (publish_build ops env c t built)"
proof -
  have "keeps (publish_graph_index ops env (fst built) (snd built))"
    by (rule keepsI) (drule publish_forward[OF _ assms(1)], use assms generation_not_manifest[OF assms(5)] in \<open>auto simp: valid_generation_def\<close>)
  then show ?thesis unfolding publish_build_def by (intro keeps_rules)
qed

lemma keeps_built:
  assumes "encode_generation env c t q w A = Inr built" "valid_component c" "valid_component t" "\<And>v. length (ie_sha256 env v) = 32"
    and "p = graph_index_manifest_path (ie_into env) (ie_store_path env) c t" "converts_segments (ie_into env) enc"
  shows "keeps (publish_build ops env c t built)"
  using encode_generation_valid[of env c t q w A "fst built" "snd built"] assms by (intro keeps_publish_build) auto

lemma keeps_full_build:
  assumes "\<And>v. length (ie_sha256 env v) = 32"
    and "p = graph_index_manifest_path (ie_into env) (ie_store_path env) c t" "converts_segments (ie_into env) enc"
  shows "keeps (build_graph_index ops env inputs c t)"
  unfolding build_graph_index_def
proof (intro keeps_plift_bind)
  fix built q w A u u' assume "validate_component ''cell_id'' c = Inr u" "validate_component ''edge_type'' t = Inr u'" "encode_generation env c t q w A = Inr built"
  then show "keeps (publish_build ops env c t built)" using assms by (intro keeps_built) (auto simp: validate_component_iff)
qed

lemma keeps_incremental_build:
  assumes "\<And>v. length (ie_sha256 env v) = 32"
    and "p = graph_index_manifest_path (ie_into env) (ie_store_path env) c t" "converts_segments (ie_into env) enc"
  shows "keeps (build_graph_index_incremental ops env inputs c t)"
proof -
  have k: "keeps (publish_build ops env c t built)" if "validate_component ''cell_id'' c = Inr u" "validate_component ''edge_type'' t = Inr u'"
    "encode_generation env c t q w A = Inr built" for built q w A u u'
    using that assms by (intro keeps_built) (auto simp: validate_component_iff)
  show ?thesis
    unfolding build_graph_index_incremental_def
    by (intro keeps_plift_bind keeps_pbind[OF keeps_current])
      (auto split: option.split xlog_delta.split intro!: keeps_plift_bind keeps_pbind[OF keeps_csc] keeps_pbind[OF k] keeps_pif keeps_pure)
qed

lemma keeps_auto_build:
  assumes "\<And>v. length (ie_sha256 env v) = 32"
    and "p = graph_index_manifest_path (ie_into env) (ie_store_path env) c t" "converts_segments (ie_into env) enc"
  shows "keeps (build_graph_index_auto ops env inputs inputs' c t)"
  unfolding build_graph_index_auto_def
  by (rule keeps_pbind[OF keeps_incremental_build[OF assms]])
    (auto split: option.split intro!: keeps_pbind[OF keeps_full_build[OF assms]] keeps_pure)

end

subsection \<open>A store that keeps its objects\<close>

type_synonym object_map = "(string \<times> nat \<times> bytes) list"

fun map_put :: "string \<Rightarrow> bytes \<Rightarrow> nat put_mode \<Rightarrow> object_map \<Rightarrow> (object_error + unit) \<times> object_map" where
  "map_put q v PutCreate m = (case map_of m q of
     None \<Rightarrow> (Inr (), (q, 0, v) # m) | Some e \<Rightarrow> (Inl (ObjAlreadyExists q), m))"
| "map_put q v PutOverwrite m = (Inr (), (q, case map_of m q of None \<Rightarrow> 0 | Some e \<Rightarrow> Suc (fst e), v) # m)"
| "map_put q v (PutUpdate ver) m = (case map_of m q of
     None \<Rightarrow> (Inl (ObjPrecondition q), m)
   | Some e \<Rightarrow> if fst e = ver then (Inr (), (q, Suc ver, v) # m) else (Inl (ObjPrecondition q), m))"

definition map_objects :: "(object_map, nat) object_ops" where
  "map_objects = \<lparr>ob_get = (\<lambda>q m. (case map_of m q of None \<Rightarrow> Inl (ObjNotFound q) | Some (n, v) \<Rightarrow> Inr (n, Inr v), m)),
     ob_put = map_put, ob_delete = (\<lambda>q m. (Inr (), filter (\<lambda>e. fst e \<noteq> q) m)),
     ob_list = (\<lambda>prefix m. (map (\<lambda>e. Inr (fst e)) (filter (\<lambda>e. starts_with prefix (fst e)) m), m))\<rparr>"

lemma map_put_law:
  "map_put q v mode m = (u, m') \<Longrightarrow> map_of m' = map_of m \<and> u \<noteq> Inr () \<or>
     admits mode (map_option fst (map_of m q)) \<and> (\<exists>ver. map_of m' = (map_of m)(q \<mapsto> (ver, v)) \<and> (\<forall>ver0 v0. map_of m q = Some (ver0, v0) \<longrightarrow> ver0 < ver))"
  by (cases mode) (auto split: option.splits if_splits)

interpretation map_store: shared_objects map_objects map_of "\<lambda>n. n" p for p
proof
  show "forward (\<lambda>n. n) p (map_of x) (map_of x') \<and> (\<forall>ver v. r = Inr (ver, Inr v) \<longrightarrow> map_of x' q = Some (ver, v))"
    if "ob_get map_objects q x = (r, x')" for q x x' and r :: "object_error + nat \<times> (object_error + bytes)"
    using that by (auto simp: map_objects_def split: option.splits)
  show "\<exists>h. forward (\<lambda>n. n) p (map_of x) h \<and> (map_of x' = h \<and> u \<noteq> Inr () \<or>
      admits mode (map_option fst (h q)) \<and> (\<exists>ver. map_of x' = h(q \<mapsto> (ver, v)) \<and> (\<forall>ver0 v0. h q = Some (ver0, v0) \<longrightarrow> ver0 < ver)))"
    if "ob_put map_objects q v mode x = (u, x')" for q v mode x x' u
    using that map_put_law[of q v mode x u x'] by (intro exI[of _ "map_of x"]) (simp add: map_objects_def)
qed

text \<open>The same store with rivals: before each operation the next of them publishes, when its manifest is at least as late as the one in place.\<close>

definition rival_write :: "string \<Rightarrow> graph_index_generation \<Rightarrow> object_map \<Rightarrow> object_map" where
  "rival_write p g m =
     (if \<not> valid_generation g then m
      else case map_of m p of
        None \<Rightarrow> (p, 0, encode_graph_index_manifest g) # m
      | Some (n, v) \<Rightarrow> (case decode_graph_index_manifest p v of
          Inl e \<Rightarrow> m
        | Inr g0 \<Rightarrow> if at_least g g0 then (p, Suc n, encode_graph_index_manifest g) # m else m))"

definition contend :: "string \<Rightarrow> (object_map \<Rightarrow> 'r \<times> object_map) \<Rightarrow> object_map \<times> graph_index_generation list \<Rightarrow> 'r \<times> object_map \<times> graph_index_generation list" where
  "contend p f x = (case x of
     (m, []) \<Rightarrow> (case f m of (r, m') \<Rightarrow> (r, m', []))
   | (m, g # rivals) \<Rightarrow> (case f (rival_write p g m) of (r, m') \<Rightarrow> (r, m', rivals)))"

definition contended_objects :: "string \<Rightarrow> (object_map \<times> graph_index_generation list, nat) object_ops" where
  "contended_objects p = \<lparr>ob_get = (\<lambda>q. contend p (ob_get map_objects q)), ob_put = (\<lambda>q v mode. contend p (ob_put map_objects q v mode)),
     ob_delete = (\<lambda>q. contend p (ob_delete map_objects q)), ob_list = (\<lambda>q. contend p (ob_list map_objects q))\<rparr>"

lemma rival_forward: "forward (\<lambda>n. n) p (map_of m) (map_of (rival_write p g m))"
  unfolding rival_write_def forward_def
  using decode_manifest_encode[of g p] by (auto split: option.splits sum.splits)

lemma contend_run:
  assumes "contend p f x = (r, x')"
  obtains m where "forward (\<lambda>n. n) p (map_of (fst x)) (map_of m)" "f m = (r, fst x')"
proof (cases "snd x")
  case Nil
  then show ?thesis using assms by (intro that[of "fst x"]) (cases x, auto simp: contend_def split: prod.splits)
next
  case (Cons g rivals)
  then show ?thesis using assms by (intro that[of "rival_write p g (fst x)"] rival_forward) (cases x, auto simp: contend_def split: prod.splits)
qed

interpretation contended: shared_objects "contended_objects p" "\<lambda>x. map_of (fst x)" "\<lambda>n. n" p for p
proof
  show "forward (\<lambda>n. n) p (map_of (fst x)) (map_of (fst x')) \<and> (\<forall>ver v. r = Inr (ver, Inr v) \<longrightarrow> map_of (fst x') q = Some (ver, v))"
    if get: "ob_get (contended_objects p) q x = (r, x')" for q x x' and r :: "object_error + nat \<times> (object_error + bytes)"
  proof -
    have "contend p (ob_get map_objects q) x = (r, x')" using get by (simp add: contended_objects_def)
    then obtain m where m: "forward (\<lambda>n. n) p (map_of (fst x)) (map_of m)" "ob_get map_objects q m = (r, fst x')" by (rule contend_run)
    from map_store.get_law[where p = p, OF m(2)] show ?thesis using forward_trans[OF m(1)] by blast
  qed
  show "\<exists>h. forward (\<lambda>n. n) p (map_of (fst x)) h \<and> (map_of (fst x') = h \<and> u \<noteq> Inr () \<or>
      admits mode (map_option fst (h q)) \<and> (\<exists>ver. map_of (fst x') = h(q \<mapsto> (ver, v)) \<and> (\<forall>ver0 v0. h q = Some (ver0, v0) \<longrightarrow> ver0 < ver)))"
    if put: "ob_put (contended_objects p) q v mode x = (u, x')" for q v mode x x' u
  proof -
    have "contend p (ob_put map_objects q v mode) x = (u, x')" using put by (simp add: contended_objects_def)
    then obtain m where m: "forward (\<lambda>n. n) p (map_of (fst x)) (map_of m)" "ob_put map_objects q v mode m = (u, fst x')" by (rule contend_run)
    obtain h where h: "forward (\<lambda>n. n) p (map_of m) h" "map_of (fst x') = h \<and> u \<noteq> Inr () \<or>
      admits mode (map_option fst (h q)) \<and> (\<exists>ver. map_of (fst x') = h(q \<mapsto> (ver, v)) \<and> (\<forall>ver0 v0. h q = Some (ver0, v0) \<longrightarrow> ver0 < ver))"
      using map_store.put_law[where p = p, OF m(2)] by blast
    from forward_trans[OF m(1) h(1)] h(2) show ?thesis by blast
  qed
qed

subsection \<open>Properties of publishing\<close>

text \<open>C12 (manifest_moves_forward). The manifest of a cell and edge type never moves backwards, however many indexers build and publish
  on the store at the same time and whichever of their operations fail, also after taking effect: a whole build,
  incremental or full, leaves the manifest or replaces it by one with a later base sequence, or the same one and a later
  WAL position. A publication that returns a generation returns the proposed one or one at least as late, and a manifest
  at least as late stands in the store. The store is one whose conditional writes are honoured and whose versions do
  not recur, SHA-256 has 32 bytes, and strings become object paths segment by segment, empty segments left out.\<close>

theorem manifest_moves_forward:
  assumes "shared_objects ops held stamp p" "p = graph_index_manifest_path (ie_into env) (ie_store_path env) c t"
    and "converts_segments (ie_into env) enc" "\<And>v. length (ie_sha256 env v) = 32"
  shows "(build_graph_index_auto ops env inputs inputs' c t s = (r, s') \<longrightarrow>
       forward stamp p (held (is_objects s)) (held (is_objects s')))
    \<and> (valid_generation g \<and> gi_cell_id g = c \<and> gi_edge_type g = t \<and> publish_graph_index ops env g payload s = (r', s'') \<longrightarrow>
       forward stamp p (held (is_objects s)) (held (is_objects s''))
       \<and> (\<forall>x. r' = Inr x \<longrightarrow> at_least x g \<and> reached p x (held (is_objects s''))))"
proof (intro conjI impI)
  assume "build_graph_index_auto ops env inputs inputs' c t s = (r, s')"
  then show "forward stamp p (held (is_objects s)) (held (is_objects s'))"
    using shared_objects.keeps_auto_build[OF assms(1,4,2,3)] shared_objects.keeps_def[OF assms(1)] by blast
next
  assume g: "valid_generation g \<and> gi_cell_id g = c \<and> gi_edge_type g = t \<and> publish_graph_index ops env g payload s = (r', s'')"
  note pub = shared_objects.publish_forward[OF assms(1), of env g payload s r' s'']
  have "graph_index_generation_path (ie_into env) (ie_store_path env) (gi_cell_id g) (gi_edge_type g) (gi_base_sequence g) (gi_generation g) \<noteq> p"
    using generation_not_manifest[OF assms(3)] g assms(2) by (auto simp: valid_generation_def)
  then show "forward stamp p (held (is_objects s)) (held (is_objects s''))"
    "\<forall>x. r' = Inr x \<longrightarrow> at_least x g \<and> reached p x (held (is_objects s''))"
    using pub g assms(2) by auto
qed

text \<open>Witness of C12 (manifest_moves_forward): a manifest at sequence 5 stays or is replaced by a later one while two indexers publish.\<close>

definition sample_generation :: "u64 \<Rightarrow> graph_index_generation" where
  "sample_generation q = \<lparr>gi_cell_id = ''c'', gi_edge_type = ''t'', gi_base_sequence = q, gi_last_wal_id = 0, gi_edge_count = 0,
     gi_checksum = 0, gi_generation = replicate 64 (CHR ''a'')\<rparr>"

definition sample_segment :: "string \<Rightarrow> string" where
  "sample_segment w = (if w = ''.'' then ''%2E'' else if w = ''..'' then ''%2E%2E''
     else concat (map (\<lambda>b. if b = SLASH then ''%2F'' else [b]) w))"

definition sample_index_env :: index_env where
  "sample_index_env = \<lparr>ie_store_path = ''db'', ie_into = (\<lambda>s. join_with SLASH (map sample_segment (path_segments s))), ie_sha256 = (\<lambda>_. replicate 32 (CHR ''a'')), ie_max_artifact_build_edges = 9,
     ie_pin_matrix_min_edges = 9\<rparr>"

definition sample_path :: string where
  "sample_path = graph_index_manifest_path (ie_into sample_index_env) (ie_store_path sample_index_env) ''c'' ''t''"

definition sample_objects :: "(object_map \<times> graph_index_generation list, unit) index_state" where
  "sample_objects = \<lparr>is_objects = ([(sample_path, 3, encode_graph_index_manifest (sample_generation 5))], [sample_generation 8]),
     is_generations = [], is_artifacts = cache_new 4 None, is_compiled = cache_new 4 None,
     is_cache_metrics = \<lparr>cm_insertions = 0, cm_evictions = 0, cm_tenant_quota_rejections = 0, cm_pinned_insertions = 0\<rparr>\<rparr>"

lemma sample_conversion: "converts_segments (ie_into sample_index_env) sample_segment"
proof -
  have "concat (map (\<lambda>b. if b = SLASH then ''%2F'' else [b]) w) \<noteq> []" if "w \<noteq> []" for w using that by (cases w) auto
  then show ?thesis by (auto simp: converts_segments_def sample_index_env_def sample_segment_def)
qed

lemma sample_generation_valid: "valid_generation (sample_generation q)"
  by (simp add: sample_generation_def valid_generation_def valid_component_def component_byte_def is_ascii_hexdigit_def list_all_iff)

theorem manifest_moves_forward_witness:
  "\<exists>ver v g. map_of (fst (is_objects (snd (publish_graph_index (contended_objects sample_path) sample_index_env (sample_generation 7) [] sample_objects)))) sample_path = Some (ver, v)
     \<and> decode_graph_index_manifest sample_path v = Inr g \<and> at_least g (sample_generation 5)"
proof -
  let ?run = "publish_graph_index (contended_objects sample_path) sample_index_env (sample_generation 7) [] sample_objects"
  note inj = sample_conversion
  have len: "length (ie_sha256 sample_index_env v) = 32" for v by (simp add: sample_index_env_def)
  have fwd: "forward (\<lambda>n. n) sample_path (map_of (fst (is_objects sample_objects))) (map_of (fst (is_objects (snd ?run))))"
    using manifest_moves_forward[OF contended.shared_objects_axioms sample_path_def inj len, of _ _ sample_objects _ _ "sample_generation 7" "[]" "fst ?run" "snd ?run"]
      sample_generation_valid[of 7] by (simp add: sample_generation_def)
  have "reached sample_path (sample_generation 5) (map_of (fst (is_objects sample_objects)))"
    by (simp add: reached_def sample_objects_def decode_manifest_encode[OF sample_generation_valid])
  from reached_forward[OF fwd this] show ?thesis unfolding reached_def .
qed

subsection \<open>Collecting\<close>

lemma gc_candidates:
  assumes "rfold (gc_candidate q) items acc = Inr older" "\<forall>e \<in> set acc. graph_index_sequence_from_path (snd e) = Inr (fst e) \<and> fst e < q"
  shows "\<forall>e \<in> set older. graph_index_sequence_from_path (snd e) = Inr (fst e) \<and> fst e < q"
  using assms
proof (induction items arbitrary: acc)
  case (Cons i items)
  then obtain acc' where one: "gc_candidate q i acc = Inr acc'" "rfold (gc_candidate q) items acc' = Inr older" by (auto simp: rbind_Inr_iff)
  have "\<forall>e \<in> set acc'. graph_index_sequence_from_path (snd e) = Inr (fst e) \<and> fst e < q"
    using one(1) Cons.prems(2) by (auto simp: gc_candidate_def rbind_Inr_iff split: sum.splits if_splits)
  then show ?case by (rule Cons.IH[OF one(2)])
qed simp

text \<open>A collection deletes generations that are older than the current one only, and none that is newer than one it retains.\<close>

lemma gc_deletes_oldest:
  assumes "rfold (gc_candidate q) items [] = Inr older" "e \<in> set (drop n (gc_order older))"
  shows "graph_index_sequence_from_path (snd e) = Inr (fst e) \<and> fst e < q \<and> (\<forall>k \<in> set (take n (gc_order older)). fst e \<le> fst k)"
proof (intro conjI ballI)
  have "e \<in> set older" using assms(2) by (auto simp: gc_order_def dest: in_set_dropD)
  then show "graph_index_sequence_from_path (snd e) = Inr (fst e)" "fst e < q" using gc_candidates[OF assms(1)] by auto
  fix k assume "k \<in> set (take n (gc_order older))"
  moreover have "sorted (map (\<lambda>(b, l). (- uint b, l)) (gc_order older))" unfolding gc_order_def by (rule sorted_sort_key)
  then have "sorted_wrt (\<lambda>x y. (- uint (fst x), snd x) \<le> (- uint (fst y), snd y)) (take n (gc_order older) @ drop n (gc_order older))"
    by (simp add: sorted_wrt_map case_prod_beta)
  ultimately have "(- uint (fst k), snd k) \<le> (- uint (fst e), snd e)" using assms(2) unfolding sorted_wrt_append by blast
  then show "fst e \<le> fst k" by (auto simp: word_le_def less_eq_prod_def)
qed

end
