(* ===== verification/Index_Build.thy ===== *)
theory Index_Build
  imports Index_Publish
begin

text \<open>
  The oracle of the incremental build in \<^verbatim>\<open>src/engine/index_store.rs\<close>: generations are addressed by their content, so
  an incremental build has to make the very payload that a full build makes at the same snapshot. The previous
  generation is read back from its payload, the changelog supplies the delta, and the full build scans the records.
\<close>

lemma validate_both: "validate_csc csc = Inr () \<Longrightarrow> validate_graphblas_csc_artifact key csc = Inr ()"
proof -
  assume v: "validate_csc csc = Inr ()"
  have "find (\<lambda>index. length (gb_vertices csc) \<le> unat index) (gb_indices csc) = None"
    using v unfolding validate_csc_iff by (metis find_None_iff in_set_conv_nth not_le)
  moreover have "windows_all (<) (gb_vertices csc)" using v unfolding validate_csc_iff by (simp add: windows_sorted)
  ultimately show ?thesis using v unfolding validate_csc_iff by (auto simp: validate_graphblas_csc_artifact_def)
qed

lemma adjacency_back:
  assumes "adj_tight A" "length (adj_vertices A) \<le> grb_index_max" "sum_list (map (\<lambda>p. length (snd p)) A) < 2 ^ 64"
  shows "\<exists>csc. graphblas_csc_from_adjacency A = Inr csc \<and> validate_csc csc = Inr () \<and> to_adjacency csc = Inr A"
proof -
  have bt: "bt_ok A" using assms(1) by (simp add: adj_tight_def)
  obtain csc where csc: "graphblas_csc_from_adjacency A = Inr csc" "validate_csc csc = Inr ()" "csc_graph (from_csc csc) = adj_edges A"
    using csc_from_adjacency_graph[OF bt assms(2,3)] by blast
  obtain B where B: "to_adjacency csc = Inr B" "adj_edges B = adj_edges A" using to_adjacency_spec[OF csc(2)] csc(3) by auto
  have "B = A" using to_adjacency_tight[OF B(1)] assms(1) B(2) by (rule adj_tight_ext)
  then show ?thesis using csc(1,2) B(1) by blast
qed

lemma payload_fits:
  assumes "length (encode_graph_index_csc q w k csc) < 2 ^ 63"
  shows "csc_fits csc"
  using assms by (simp add: encode_graph_index_csc_def encode_index_u64s_def csc_fits_def array_fits_def)

lemma placed_length: "length (fst (fold (\<lambda>(r, v). place r v) es arrays)) = length (fst arrays)"
  by (induction es arbitrary: arrays) (auto simp: place_def split: prod.splits)

lemma built_size:
  assumes "graphblas_csc_from_adjacency A = Inr csc"
  shows "length (adj_vertices A) \<le> grb_index_max" "length (gb_indices csc) = sum_list (map (\<lambda>p. length (snd p)) A)"
proof -
  let ?vs = "adj_vertices A"
  note vs = adj_vertices_spec(1)[of A] adj_vertices_spec(2)[of A, THEN equalityD2]
  show small: "length ?vs \<le> grb_index_max"
    using assms by (cases "grb_index_max < length ?vs")
      (simp_all add: graphblas_csc_from_adjacency_def graphblas_vertices_from_adjacency_def flip: adj_vertices_def)
  have vertices: "graphblas_vertices_from_adjacency A = Inr ?vs"
    using small by (simp add: graphblas_vertices_from_adjacency_def flip: adj_vertices_def)
  obtain counts where counts: "rfold (count_source ?vs) A (replicate (length ?vs + 1) 0) = Inr counts"
    "length counts = length ?vs + 1" "counts ! 0 = 0" "\<forall>k < length ?vs. counts ! Suc k = length (row_of (adj_entries ?vs A) k)"
    using count_sources[OF vs, of "replicate (length ?vs + 1) 0"] by (auto simp del: replicate_Suc)
  have last: "last (prefix_sums counts) = length (adj_entries ?vs A)"
    using counting_sort(4)[OF counts(2-4)] adj_entries_bound[OF vs] by blast
  show "length (gb_indices csc) = sum_list (map (\<lambda>p. length (snd p)) A)"
    using assms counts(1) placed_length[of "adj_entries ?vs A" "(replicate (length (adj_entries ?vs A)) 0, take (length ?vs) (prefix_sums counts))"]
    by (auto simp: graphblas_csc_from_adjacency_def vertices Let_def last place_sources[OF vs] length_adj_entries rbind_Inr_iff
        simp del: replicate_Suc split: prod.splits)
qed

lemma payload_size:
  assumes "encode_generation env c t q w A = Inr (g, payload)" "length payload < 2 ^ 63"
  shows "length (adj_vertices A) \<le> grb_index_max" "sum_list (map (\<lambda>p. length (snd p)) A) < 2 ^ 64"
proof -
  obtain csc where csc: "graphblas_csc_from_adjacency A = Inr csc" "payload = encode_graph_index_csc q w (graphblas_csc_checksum csc) csc"
    using assms(1) by (auto simp: encode_generation_def rbind_Inr_iff Let_def)
  show "length (adj_vertices A) \<le> grb_index_max" by (rule built_size(1)[OF csc(1)])
  have "csc_fits csc" using assms(2) unfolding csc(2) by (rule payload_fits)
  then have "length (gb_indices csc) < 2 ^ 60" by (simp add: csc_fits_def array_fits_def)
  then show "sum_list (map (\<lambda>p. length (snd p)) A) < 2 ^ 64" using built_size(2)[OF csc(1)] by simp
qed

lemma generation_read_back:
  assumes enc: "encode_generation env c t q w A = Inr (g, payload)" and len: "length payload < 2 ^ 63" and A: "adj_tight A"
  shows "\<exists>csc. decode_graph_index_csc key payload (gi_base_sequence g) (gi_last_wal_id g) (gi_checksum g) = Inr csc
    \<and> word_of_nat (length (gb_indices csc)) = gi_edge_count g \<and> to_adjacency csc = Inr A"
proof -
  obtain csc where csc: "graphblas_csc_from_adjacency A = Inr csc" "validate_csc csc = Inr ()" "to_adjacency csc = Inr A"
    using adjacency_back[OF A payload_size[OF enc len]] by blast
  have g: "payload = encode_graph_index_csc q w (graphblas_csc_checksum csc) csc" "gi_base_sequence g = q" "gi_last_wal_id g = w"
    "gi_checksum g = graphblas_csc_checksum csc" "gi_edge_count g = word_of_nat (length (gb_indices csc))"
    using enc csc(1) by (auto simp: encode_generation_def rbind_Inr_iff Let_def)
  have "decode_graph_index_csc key payload (gi_base_sequence g) (gi_last_wal_id g) (gi_checksum g) = Inr csc"
    unfolding g by (rule decode_payload_encode) (use len g(1) payload_fits validate_both[OF csc(2)] in auto)
  then show ?thesis using csc(3) g(5) by auto
qed

lemma scan_graph:
  assumes "pinned snap (db s)" "canonical_adjacency_at cap snap c t (seq s) = Inr A" "store_inv sh z s" "valid_component c" "valid_component t"
  shows "adj_tight A" "adj_edges A = graph_of s c t"
proof -
  have "adj_tight A \<and> adj_edges A = {(x, y). edge_visible (db s) c t x (seq s) y}"
    by (rule pinned.full_scan_exact[OF assms(1,2) _ assms(4,5)]) (use assms(3) in \<open>simp add: store_inv_def\<close>)
  then show "adj_tight A" "adj_edges A = graph_of s c t" by (simp_all add: graph_of_def edges_in_def edge_visible_in)
qed

subsection \<open>The builds as programs\<close>

lemma plift_Inr [simp]: "pbind (plift (Inr v)) f s = f v s"
  by (simp add: pbind_def plift_def)

abbreviation generation_object :: "index_env \<Rightarrow> graph_index_generation \<Rightarrow> string" where
  "generation_object env g \<equiv> graph_index_generation_path (ie_into env) (ie_store_path env) (gi_cell_id g) (gi_edge_type g)
     (gi_base_sequence g) (gi_generation g)"

abbreviation manifest_object :: "index_env \<Rightarrow> string \<Rightarrow> string \<Rightarrow> string" where
  "manifest_object env c t \<equiv> graph_index_manifest_path (ie_into env) (ie_store_path env) c t"

text \<open>The first full build leaves its payload and its manifest.\<close>

lemma first_publication:
  assumes "is_objects x = []" "generation_object env g \<noteq> manifest_object env (gi_cell_id g) (gi_edge_type g)"
  shows "publish_graph_index map_objects env g payload x = (Inr g, x\<lparr>is_objects :=
    [(manifest_object env (gi_cell_id g) (gi_edge_type g), 0, encode_graph_index_manifest g), (generation_object env g, 0, payload)]\<rparr>)"
proof -
  have attempt: "publish_attempts (Suc n) map_objects p g y = (Inr g, y\<lparr>is_objects := (p, 0, encode_graph_index_manifest g) # is_objects y\<rparr>)"
    if "map_of (is_objects y) p = None" for n p and y :: "(object_map, 'a) index_state"
    using that by (simp add: pbind_def on_objects_def map_objects_def get_object_def put_manifest_def pif_def preturn_def)
  let ?p = "manifest_object env (gi_cell_id g) (gi_edge_type g)" and ?x = "x\<lparr>is_objects := [(generation_object env g, 0, payload)]\<rparr>"
  have "INDEX_PUBLISH_ATTEMPTS = Suc 7" by (simp add: INDEX_PUBLISH_ATTEMPTS_def)
  moreover have "put_generation map_objects (generation_object env g) payload x = (Inr (), ?x)"
    using assms(1) by (simp add: put_generation_def on_objects_def map_objects_def)
  ultimately show ?thesis using attempt[of ?x ?p 7] assms(2) by (simp add: publish_graph_index_def pbind_def)
qed

lemma first_build:
  assumes "is_objects x = []" "build_graph_index map_objects env inputs c t x = (Inr g, x')" "bi_snapshot inputs = Inr snap"
    and "converts_segments (ie_into env) enc"
  obtains A w payload where "valid_component c" "valid_component t" "canonical_adjacency_at (ie_max_artifact_build_edges env) snap c t (sn_seq snap) = Inr A"
    "encode_generation env c t (sn_seq snap) w A = Inr (g, payload)" "gi_cell_id g = c" "gi_edge_type g = t" "gi_base_sequence g = sn_seq snap"
    "is_objects x' = [(manifest_object env c t, 0, encode_graph_index_manifest g), (generation_object env g, 0, payload)]"
proof -
  obtain u1 u2 durable A built where parts: "validate_component ''cell_id'' c = Inr u1" "validate_component ''edge_type'' t = Inr u2"
    "canonical_adjacency_at (ie_max_artifact_build_edges env) snap c t (sn_seq snap) = Inr A"
    "encode_generation env c t (sn_seq snap) (wal_position inputs durable) A = Inr built" and pub: "publish_build map_objects env c t built x = (Inr g, x')"
    using assms(2,3) unfolding build_graph_index_def by (auto simp: pbind_def plift_def split: sum.splits)
  obtain g0 payload where built: "built = (g0, payload)" by (cases built)
  have ct: "valid_component c" "valid_component t" using parts(1,2) by (auto simp: validate_component_iff)
  have g0: "gi_cell_id g0 = c" "gi_edge_type g0 = t" "gi_base_sequence g0 = sn_seq snap"
    using parts(4) built by (auto simp: encode_generation_def rbind_Inr_iff Let_def)
  have "generation_object env g0 \<noteq> manifest_object env c t" using generation_not_manifest[OF assms(4) ct] g0 by simp
  then have "g = g0" "is_objects x' = [(manifest_object env c t, 0, encode_graph_index_manifest g0), (generation_object env g0, 0, payload)]"
    using pub built g0 first_publication[OF assms(1), of env g0 payload]
    by (auto simp: publish_build_def pbind_def remember_generation_def preturn_def)
  then show thesis using that[OF ct parts(3), of "wal_position inputs durable" payload] parts(4) built g0 by simp
qed

text \<open>What a build does once its inputs and its adjacency are there.\<close>

lemma full_build_run:
  assumes "valid_component c" "valid_component t" "bi_permit inputs = Inr ()" "bi_refresh inputs = Inr ()" "bi_durable_wal_id inputs = Inr wal"
    and "bi_snapshot inputs = Inr snap" "canonical_adjacency_at (ie_max_artifact_build_edges env) snap c t (sn_seq snap) = Inr B"
  shows "build_graph_index objects env inputs c t y =
    pbind (plift (encode_generation env c t (sn_seq snap) (wal_position inputs wal) B)) (publish_build objects env c t) y"
  using assms by (simp add: build_graph_index_def)

lemma csc_run:
  assumes "get_object objects (generation_object env g) y = (Inr (Some (ver, Inr payload)), y')"
    and "decode_graph_index_csc (generation_object env g) payload (gi_base_sequence g) (gi_last_wal_id g) (gi_checksum g) = Inr csc"
    and "word_of_nat (length (gb_indices csc)) = gi_edge_count g"
  shows "graph_index_csc objects env g y = (Inr (Some csc), y')"
  using assms by (simp add: graph_index_csc_def Let_def pbind_def plift_def pif_def preturn_def)

lemma incremental_build_run:
  assumes "valid_component c" "valid_component t" "bi_permit inputs = Inr ()" "bi_refresh inputs = Inr ()" "bi_durable_wal_id inputs = Inr wal"
    and "bi_snapshot inputs = Inr snap" "current_graph_index objects env c t y = (Inr (Some previous), y0)" "gi_base_sequence previous < sn_seq snap"
    and "xlog_delta_since snap previous (sn_seq snap) c t = Inr (XlogComplete W)"
    and "graph_index_csc objects env previous y0 = (Inr (Some csc), y1)" "to_adjacency csc = Inr A"
  shows "build_graph_index_incremental objects env inputs c t y =
    pbind (pbind (plift (encode_generation env c t (sn_seq snap) (wal_position inputs wal) (patch_adjacency W A))) (publish_build objects env c t))
      (\<lambda>g. preturn (Some (g, IncrementalBuild (word_of_nat (length (overlay_entries W)))))) y1"
proof -
  have "\<not> sn_seq snap \<le> gi_base_sequence previous" using assms(8) by simp
  then have "build_graph_index_incremental objects env inputs c t y =
    pbind (graph_index_csc objects env previous) (\<lambda>found. case found of None \<Rightarrow> preturn None | Some csc \<Rightarrow>
      pbind (plift (to_adjacency csc)) (\<lambda>adjacency.
      pbind (plift (encode_generation env c t (sn_seq snap) (wal_position inputs wal) (patch_adjacency W adjacency))) (\<lambda>built.
      pbind (publish_build objects env c t built) (\<lambda>published.
        preturn (Some (published, IncrementalBuild (word_of_nat (length (overlay_entries W))))))))) y0"
    using assms(1-7,9) by (simp add: build_graph_index_incremental_def pbind_def[of "current_graph_index objects env c t"] pif_def)
  also have "\<dots> = pbind (plift (encode_generation env c t (sn_seq snap) (wal_position inputs wal) (patch_adjacency W A))) (\<lambda>built.
      pbind (publish_build objects env c t built) (\<lambda>published.
        preturn (Some (published, IncrementalBuild (word_of_nat (length (overlay_entries W))))))) y1"
    using assms(10,11) by (simp add: pbind_def[of "graph_index_csc objects env previous"])
  finally show ?thesis unfolding pbind_assoc .
qed

text \<open>C4 (incremental_matches_full_build). An incremental index build does what a full build at the same snapshot does: from the state in which
  it has read the previous index, it publishes the same bytes under the same content address and manifest, with the same
  outcome on any object store, also where a write fails or is contended. The previous index is one that a full build made
  at an earlier point of the history: the manifest it returned, and the payload it left. Between the two points lie any
  edge writes and deletes, and changelog collections against indexes no newer than the previous one, on a store that may
  fail at any operation. The hypotheses are those under which the incremental path is taken (the inputs are there, the
  manifest and the payload are read, the changelog covers the gap, the snapshot is later) and that the full scan stays
  within its limit, with a payload below 2^63 bytes, object paths made segment by segment, and a sequence that has not
  reached the last 64-bit value.\<close>

theorem incremental_matches_full_build:
  assumes "txn_faults ops view" "store_inv sh z (seen view s0)" "\<forall>p \<in> set history. store_op_ok z (seq (seen view s0)) p"
    and "s = fold (run_store_op ops sh permit) history s0" "seq (seen view s0) < seq (seen view s)" "seq (seen view s) \<noteq> - 1"
    and "bi_snapshot inputs0 = Inr snap0" "pinned snap0 (db (seen view s0))" "sn_seq snap0 = seq (seen view s0)"
    and "is_objects x = []" "build_graph_index map_objects env inputs0 c t x = (Inr previous, x')" "converts_segments (ie_into env) enc"
    and "map_of (is_objects x') (generation_object env previous) = Some (n, payload)" "length payload < 2 ^ 63"
    and "bi_permit inputs = Inr ()" "bi_refresh inputs = Inr ()" "bi_durable_wal_id inputs = Inr wal" "bi_snapshot inputs = Inr snap"
    and "pinned snap (db (seen view s))" "sn_seq snap = seq (seen view s)"
    and "current_graph_index objects env c t y = (Inr (Some previous), y0)"
    and "xlog_delta_since snap previous (sn_seq snap) c t = Inr (XlogComplete W)"
    and "get_object objects (generation_object env previous) y0 = (Inr (Some (ver, Inr payload)), y1)"
    and "canonical_adjacency_at (ie_max_artifact_build_edges env) snap c t (sn_seq snap) = Inr B"
  shows "build_graph_index_incremental objects env inputs c t y =
    pbind (build_graph_index objects env inputs c t)
      (\<lambda>g. preturn (Some (g, IncrementalBuild (word_of_nat (length (overlay_entries W)))))) y1"
proof -
  obtain A w0 payload0 where first: "valid_component c" "valid_component t"
    "canonical_adjacency_at (ie_max_artifact_build_edges env) snap0 c t (sn_seq snap0) = Inr A"
    "encode_generation env c t (sn_seq snap0) w0 A = Inr (previous, payload0)" "gi_cell_id previous = c" "gi_edge_type previous = t"
    "gi_base_sequence previous = sn_seq snap0"
    "is_objects x' = [(manifest_object env c t, 0, encode_graph_index_manifest previous), (generation_object env previous, 0, payload0)]"
    by (rule first_build[OF assms(10,11,7,12)])
  have "generation_object env previous \<noteq> manifest_object env c t"
    using generation_not_manifest[OF assms(12) first(1,2)] first(5,6) by simp
  then have payload: "payload0 = payload" using assms(13) first(8) by simp
  note scan0 = scan_graph[OF assms(8) first(3)[unfolded assms(9)] assms(2) first(1,2)]
  have "since_inv sh z (seq (seen view s0)) (graph_of (seen view s0)) (seen view s)"
    unfolding assms(4) by (rule history_since[OF assms(1,3) since_inv_start[OF assms(2)]])
  then have inv: "store_inv sh z (seen view s)" by (simp add: since_inv_def)
  note scan = scan_graph[OF assms(19) assms(24)[unfolded assms(20)] inv first(1,2)]
  obtain csc where csc: "decode_graph_index_csc (generation_object env previous) payload (gi_base_sequence previous) (gi_last_wal_id previous) (gi_checksum previous) = Inr csc"
    "word_of_nat (length (gb_indices csc)) = gi_edge_count previous" "to_adjacency csc = Inr A"
    using generation_read_back[OF first(4) _ scan0(1)] assms(14) payload by blast
  have base: "gi_base_sequence previous = seq (seen view s0)" using first(7) assms(9) by simp
  have patched: "patch_adjacency W A = B"
    by (rule incremental_build_exact[OF assms(1-4,6) first(1,2) assms(19) base assms(22)[unfolded assms(20)] scan0 scan, THEN conjunct1])
  have late: "gi_base_sequence previous < sn_seq snap" using base assms(5,20) by simp
  show ?thesis
    unfolding incremental_build_run[OF first(1,2) assms(15-18,21) late assms(22) csc_run[OF assms(23) csc(1,2)] csc(3)] patched
    using full_build_run[OF first(1,2) assms(15-18,24), of objects y1] by (simp only: pbind_def)
qed

text \<open>Witness of C4 (incremental_matches_full_build): the index of an empty store, one write, and both builds.\<close>

definition open_env :: index_env where
  "open_env = sample_index_env\<lparr>ie_max_artifact_build_edges := - 1\<rparr>"

lemma empty_adjacency:
  "canonical_adjacency_at (- 1) (snapshot_of (db empty_shard) 0) ''c'' ''T'' (seq empty_shard) = Inr []"
proof -
  have inv: "wf_store (db empty_shard)" using empty_inv by (simp add: store_inv_def)
  obtain A where A: "canonical_adjacency_at (- 1) (snapshot_of (db empty_shard) 0) ''c'' ''T'' (seq empty_shard) = Inr A"
    using full_scan_cases[OF inv sample_valid(1,2), of "- 1" 0 "seq empty_shard"] by blast
  note g = scan_graph[OF exact_snapshot.pinned_axioms A empty_inv sample_valid(1,2)]
  have "A = []" by (rule adj_tight_ext[OF g(1)]) (use g(2) sample_graph(2) in \<open>simp_all add: adj_tight_def adj_edges_def\<close>)
  then show ?thesis using A by simp
qed

lemma empty_generation:
  "\<exists>g payload. encode_generation open_env ''c'' ''T'' 0 0 [] = Inr (g, payload) \<and> length payload < 2 ^ 63 \<and> gi_base_sequence g = 0"
proof -
  have "graphblas_csc_from_adjacency [] = Inr \<lparr>gb_vertices = [], gb_pointers = [0], gb_indices = []\<rparr>"
    by (simp add: graphblas_csc_from_adjacency_def graphblas_vertices_from_adjacency_def prefix_sums_def bs_extend_def)
  then show ?thesis
    by (simp add: encode_generation_def ensure_limit_def open_env_def sample_index_env_def Let_def encode_graph_index_csc_def
        encode_index_u64s_def INDEX_CSC_MAGIC_def)
qed

definition sample_inputs :: "map_txn shard_state \<Rightarrow> build_inputs" where
  "sample_inputs s = \<lparr>bi_permit = Inr (), bi_refresh = Inr (), bi_durable_wal_id = Inr 0, bi_snapshot = Inr (snapshot_of (db s) (seq s)),
     bi_snapshot_wal_id = None\<rparr>"

definition no_objects :: "(object_map, unit) index_state" where
  "no_objects = \<lparr>is_objects = [], is_generations = [], is_artifacts = cache_new 4 None, is_compiled = cache_new 4 None,
     is_cache_metrics = \<lparr>cm_insertions = 0, cm_evictions = 0, cm_tenant_quota_rejections = 0, cm_pinned_insertions = 0\<rparr>\<rparr>"

lemma read_back:
  assumes "map_of (is_objects y) (manifest_object env c t) = Some (n, encode_graph_index_manifest g)"
    and "valid_generation g" "gi_cell_id g = c" "gi_edge_type g = t"
  shows "current_graph_index map_objects env c t y = (Inr (Some g), y)"
  using assms by (auto simp: current_graph_index_def Let_def get_object_def on_objects_def map_objects_def pbind_def plift_def pif_def
      preturn_def body_bytes_def decode_manifest_encode valid_generation_def)

lemma sample_inputs_parts:
  "bi_permit (sample_inputs s) = Inr ()" "bi_refresh (sample_inputs s) = Inr ()" "bi_durable_wal_id (sample_inputs s) = Inr 0"
  "bi_snapshot (sample_inputs s) = Inr (snapshot_of (db s) (seq s))" "wal_position (sample_inputs s) w = w" "sn_seq (snapshot_of m q) = q"
  by (simp_all add: sample_inputs_def wal_position_def snapshot_of_def)

lemma open_env_parts: "ie_max_artifact_build_edges open_env = - 1" "length (ie_sha256 open_env v) = 32"
    "converts_segments (ie_into open_env) sample_segment"
  using sample_conversion by (simp_all add: open_env_def sample_index_env_def)

lemma empty_build:
  obtains g payload x where "build_graph_index map_objects open_env (sample_inputs empty_shard) ''c'' ''T'' no_objects = (Inr g, x)"
    "gi_base_sequence g = 0" "length payload < 2 ^ 63" "current_graph_index map_objects open_env ''c'' ''T'' x = (Inr (Some g), x)"
    "map_of (is_objects x) (generation_object open_env g) = Some (0, payload)"
    "get_object map_objects (generation_object open_env g) x = (Inr (Some (0, Inr payload)), x)"
proof -
  let ?c = "''c''" and ?t = "''T''"
  obtain g payload where enc: "encode_generation open_env ?c ?t 0 0 [] = Inr (g, payload)" "length payload < 2 ^ 63" "gi_base_sequence g = 0"
    using empty_generation by blast
  have g: "valid_generation g" "gi_cell_id g = ?c" "gi_edge_type g = ?t"
    using encode_generation_valid[OF enc(1) sample_valid(1,2) open_env_parts(2)] by auto
  have other: "generation_object open_env g \<noteq> manifest_object open_env ?c ?t"
    using generation_not_manifest[OF open_env_parts(3) sample_valid(1,2)] g by simp
  let ?o = "[(manifest_object open_env ?c ?t, 0, encode_graph_index_manifest g), (generation_object open_env g, 0, payload)]"
  obtain x where x: "publish_build map_objects open_env ?c ?t (g, payload) no_objects = (Inr g, x)" "is_objects x = ?o"
    using first_publication[of no_objects open_env g payload] g(2,3) other
    by (simp add: no_objects_def publish_build_def pbind_def remember_generation_def preturn_def)
  have scan: "canonical_adjacency_at (ie_max_artifact_build_edges open_env) (snapshot_of (db empty_shard) (seq empty_shard)) ?c ?t
      (sn_seq (snapshot_of (db empty_shard) (seq empty_shard))) = Inr []"
    using empty_adjacency by (simp add: open_env_parts sample_inputs_parts sample_graph(1))
  have "build_graph_index map_objects open_env (sample_inputs empty_shard) ?c ?t no_objects = (Inr g, x)"
    using full_build_run[OF sample_valid(1,2) sample_inputs_parts(1-4) scan, of map_objects no_objects] enc(1) x(1)
    by (simp add: sample_inputs_parts sample_graph(1))
  moreover have "map_of (is_objects x) (generation_object open_env g) = Some (0, payload)" using x(2) other by simp
  moreover from this have "get_object map_objects (generation_object open_env g) x = (Inr (Some (0, Inr payload)), x)"
    by (simp add: get_object_def on_objects_def map_objects_def)
  moreover have "current_graph_index map_objects open_env ?c ?t x = (Inr (Some g), x)"
    by (rule read_back[OF _ g]) (simp add: x(2))
  ultimately show thesis using that enc(2,3) by blast
qed

theorem incremental_matches_full_build_witness:
  "\<exists>previous x W. build_graph_index map_objects open_env (sample_inputs empty_shard) ''c'' ''T'' no_objects = (Inr previous, x)
     \<and> xlog_delta_since (snapshot_of (db sample_store) 1) previous 1 ''c'' ''T'' = Inr (XlogComplete W)
     \<and> build_graph_index_incremental map_objects open_env (sample_inputs sample_store) ''c'' ''T'' x =
         pbind (build_graph_index map_objects open_env (sample_inputs sample_store) ''c'' ''T'')
           (\<lambda>g. preturn (Some (g, IncrementalBuild (word_of_nat (length (overlay_entries W)))))) x"
proof -
  let ?snap = "snapshot_of (db sample_store) (seq sample_store)"
  obtain g payload x where x: "build_graph_index map_objects open_env (sample_inputs empty_shard) ''c'' ''T'' no_objects = (Inr g, x)"
    "gi_base_sequence g = 0" "length payload < 2 ^ 63" "current_graph_index map_objects open_env ''c'' ''T'' x = (Inr (Some g), x)"
    "map_of (is_objects x) (generation_object open_env g) = Some (0, payload)"
    "get_object map_objects (generation_object open_env g) x = (Inr (Some (0, Inr payload)), x)" by (rule empty_build)
  have q: "gi_base_sequence g \<noteq> - 1" "(1 :: u64) \<noteq> - 1" "(1 :: u64) \<le> saturating_add (gi_base_sequence g) 1"
    by (simp_all add: x(2) saturating_add_def)
  obtain W where W: "xlog_delta_since (snapshot_of (db sample_store) 1) g 1 ''c'' ''T'' = Inr (XlogComplete W)"
    using delta_exact[OF sample_floor(3) sample_valid(1,2) sample_floor(1) q(3,1,2)] by blast
  obtain B where B: "canonical_adjacency_at (- 1) (snapshot_of (db sample_store) 1) ''c'' ''T'' 1 = Inr B"
    using full_scan_cases[OF sample_floor(3) sample_valid(1,2), of "- 1" 1 1] by blast
  have run: "sample_store = fold (run_store_op map_ops sample_env sample_permit) [EdgeOp (WriteEdge sample_write)] empty_shard"
    by (simp add: sample_store_def)
  have acts: "\<forall>p \<in> set [EdgeOp (WriteEdge sample_write)]. store_op_ok 9 (seq empty_shard) p" by (simp add: sample_write_def)
  have later: "seq empty_shard < seq sample_store" "seq sample_store \<noteq> - 1" by (simp_all add: sample_floor(2) sample_graph(1))
  have fresh: "is_objects no_objects = []" by (simp add: no_objects_def)
  have s1: "xlog_delta_since ?snap g (sn_seq ?snap) ''c'' ''T'' = Inr (XlogComplete W)"
    "canonical_adjacency_at (ie_max_artifact_build_edges open_env) ?snap ''c'' ''T'' (sn_seq ?snap) = Inr B"
    using W B by (simp_all add: sample_floor(2) sample_inputs_parts open_env_parts)
  note both = incremental_matches_full_build[where view = "\<lambda>t. t" and s = sample_store and objects = map_objects, unfolded seen_id,
      OF exact.txn_faults_axioms empty_inv acts run later sample_inputs_parts(4) exact_snapshot.pinned_axioms sample_inputs_parts(6)
         fresh x(1) open_env_parts(3) x(5,3) sample_inputs_parts(1-4) exact_snapshot.pinned_axioms sample_inputs_parts(6) x(4) s1(1) x(6) s1(2)]
  from both show ?thesis using x(1) W by blast
qed

end
