(* ===== verification/Lease_Codec.thy ===== *)
theory Lease_Codec
  imports Namespace Index_Codec
begin

text \<open>
  The text of a writer lease, \<^verbatim>\<open>encode_writer_lease\<close> and \<^verbatim>\<open>decode_writer_lease\<close> of \<^verbatim>\<open>src/engine/writer_lease.rs\<close>:
  seven lines, the format, the node, the process that holds the lease, a generation, a heartbeat, a duration in
  milliseconds and a state. A \<^verbatim>\<open>Duration\<close> is a natural number of nanoseconds.
\<close>

type_synonym duration = nat

definition from_secs :: "nat \<Rightarrow> duration" where
  "from_secs n = n * 1000000000"

definition from_millis :: "nat \<Rightarrow> duration" where
  "from_millis n = n * 1000000"

definition as_millis :: "duration \<Rightarrow> nat" where
  "as_millis d = d div 1000000"

lemma as_from_millis [simp]: "as_millis (from_millis n) = n"
  by (simp add: as_millis_def from_millis_def)

text \<open>A conversion to 64 bits that saturates, as \<^verbatim>\<open>u64::try_from(..).unwrap_or(u64::MAX)\<close> does.\<close>

definition u64_or_max :: "nat \<Rightarrow> u64" where
  "u64_or_max n = (if n < 2 ^ 64 then word_of_nat n else - 1)"

definition WRITER_LEASE_FORMAT :: string where
  "WRITER_LEASE_FORMAT = ''hydradb-writer-lease2''"

record decoded_writer_lease =
  wl_node_id :: string
  wl_holder_id :: string
  wl_generation :: u64
  wl_heartbeat :: u64
  wl_duration_ms :: u64
  wl_released :: bool

definition encode_writer_lease :: "string \<Rightarrow> string \<Rightarrow> u64 \<Rightarrow> u64 \<Rightarrow> duration \<Rightarrow> bool \<Rightarrow> string result" where
  "encode_writer_lease node_id holder_id generation heartbeat duration released =
     rbind (validate_component ''node_id'' node_id) (\<lambda>_.
     rbind (validate_component ''writer_lease_holder'' holder_id) (\<lambda>_.
     rbind (if as_millis duration < 2 ^ 64 then Inr (word_of_nat (as_millis duration) :: u64)
            else Inl (CorruptValue ''writer-lease/duration'' ''writer lease duration exceeds u64 milliseconds'')) (\<lambda>duration_ms.
       Inr (WRITER_LEASE_FORMAT @ [NL] @ node_id @ [NL] @ holder_id @ [NL] @ fmt_u64 generation @ [NL] @ fmt_u64 heartbeat @ [NL]
            @ fmt_u64 duration_ms @ [NL] @ (if released then ''released'' else ''active'') @ [NL]))))"

definition line_at :: "string list \<Rightarrow> nat \<Rightarrow> string option" where
  "line_at ls i = (if i < length ls then Some (ls ! i) else None)"

definition or_default :: "string option \<Rightarrow> string" where
  "or_default l = (case l of None \<Rightarrow> [] | Some s \<Rightarrow> s)"

definition parse_lease_u64 :: "string \<Rightarrow> string \<Rightarrow> string option \<Rightarrow> u64 result" where
  "parse_lease_u64 path field value =
     map_err (\<lambda>err. CorruptValue path (''invalid writer lease '' @ field @ '': '' @ int_error_display err))
       (str_parse_u64 (or_default value))"

definition decode_writer_lease :: "string \<Rightarrow> bytes \<Rightarrow> decoded_writer_lease result" where
  "decode_writer_lease path bytes =
     rbind (map_err (\<lambda>err. CorruptValue path (''writer lease is not UTF-8: '' @ utf8_error_display err)) (from_utf8 bytes)) (\<lambda>value.
       let ls = str_lines value in
       if line_at ls 0 \<noteq> Some WRITER_LEASE_FORMAT then corrupt path ''unsupported writer lease format''
       else
         let node_id = or_default (line_at ls 1); holder_id = or_default (line_at ls 2) in
         rbind (validate_component ''node_id'' node_id) (\<lambda>_.
         rbind (validate_component ''writer_lease_holder'' holder_id) (\<lambda>_.
         rbind (parse_lease_u64 path ''generation'' (line_at ls 3)) (\<lambda>generation.
         rbind (parse_lease_u64 path ''heartbeat'' (line_at ls 4)) (\<lambda>heartbeat.
         rbind (parse_lease_u64 path ''duration_ms'' (line_at ls 5)) (\<lambda>duration_ms.
         rbind (if line_at ls 6 = Some ''active'' then Inr False
                else if line_at ls 6 = Some ''released'' then Inr True
                else corrupt path ''writer lease has an invalid state'') (\<lambda>released.
           if generation = 0 \<or> heartbeat = 0 \<or> duration_ms = 0 \<or> line_at ls 7 \<noteq> None then
             corrupt path ''writer lease has an invalid duration or trailing fields''
           else Inr \<lparr>wl_node_id = node_id, wl_holder_id = holder_id, wl_generation = generation, wl_heartbeat = heartbeat,
                     wl_duration_ms = duration_ms, wl_released = released\<rparr>)))))))"

definition valid_lease :: "decoded_writer_lease \<Rightarrow> bool" where
  "valid_lease d \<longleftrightarrow> valid_component (wl_node_id d) \<and> valid_component (wl_holder_id d) \<and> wl_generation d \<noteq> 0 \<and> wl_heartbeat d \<noteq> 0
     \<and> wl_duration_ms d \<noteq> 0"

lemma decode_lease_valid: "decode_writer_lease path v = Inr d \<Longrightarrow> valid_lease d"
  by (auto simp: decode_writer_lease_def Let_def rbind_Inr_iff corrupt_def validate_component_iff valid_lease_def split: if_splits)

lemma decode_encode_lease:
  assumes "encode_writer_lease n h g b dur r = Inr v" "g \<noteq> 0" "b \<noteq> 0" "as_millis dur \<noteq> 0"
  shows "decode_writer_lease path v = Inr \<lparr>wl_node_id = n, wl_holder_id = h, wl_generation = g, wl_heartbeat = b,
    wl_duration_ms = word_of_nat (as_millis dur), wl_released = r\<rparr>"
proof -
  have n: "valid_component n" "valid_component h" and ms: "as_millis dur < 2 ^ 64"
    and v: "v = WRITER_LEASE_FORMAT @ [NL] @ n @ [NL] @ h @ [NL] @ fmt_u64 g @ [NL] @ fmt_u64 b @ [NL]
            @ fmt_u64 (word_of_nat (as_millis dur)) @ [NL] @ (if r then ''released'' else ''active'') @ [NL]"
    using assms(1) by (auto simp: encode_writer_lease_def rbind_Inr_iff validate_component_iff split: if_splits)
  let ?ls = "[WRITER_LEASE_FORMAT, n, h, fmt_u64 g, fmt_u64 b, fmt_u64 (word_of_nat (as_millis dur)), if r then ''released'' else ''active'']"
  have doc: "v = concat (map (\<lambda>l. l @ [NL]) ?ls)" by (simp add: v)
  have parts: "valid_component WRITER_LEASE_FORMAT" "valid_component (if r then ''released'' else ''active'')"
    by (simp_all add: WRITER_LEASE_FORMAT_def valid_component_def component_byte_def)
  have comp: "\<forall>l \<in> set ?ls. valid_component l" using n parts by simp
  have "str_lines v = ?ls"
    unfolding doc by (rule str_lines_concat) (use comp valid_component_avoids(3,4) in blast)
  moreover have "is_ascii v" unfolding doc is_ascii_concat using comp by simp
  then have "from_utf8 v = Inr v" by (intro from_utf8_valid ascii_utf8_valid)
  moreover have "word_of_nat (as_millis dur) \<noteq> (0 :: u64)"
  proof -
    have "unat (word_of_nat (as_millis dur) :: u64) = as_millis dur" using ms by (simp add: unsigned_of_nat take_bit_nat_eq_self)
    then show ?thesis using assms(4) by auto
  qed
  ultimately show ?thesis using assms(2,3) n
    by (simp add: decode_writer_lease_def Let_def line_at_def or_default_def parse_lease_u64_def validate_component_iff)
qed

end
