(* ===== verification/Writer_Lease.thy ===== *)
theory Writer_Lease
  imports Lease_Codec Object_Store Txn_Store
begin

text \<open>
  The directory of writer leases, \<^verbatim>\<open>src/engine/writer_lease.rs\<close>: a process owns a cell while it holds an unexpired lease,
  an object that it creates, renews and releases by conditional writes. A directory keeps the leases it holds, those it
  has stopped renewing, the number of users of each scope, and for each lease it has seen an estimate of the time that remains.
  Instants are nanoseconds of a monotonic clock; the timestamps of the store are milliseconds of the server's clock. The
  store and the clocks are a world of their own with the operations of \<open>lease_ops\<close>. Each method of a directory runs on
  its own: the locks around the maps are not modelled, and concurrent renewals of different cells run one after another.
\<close>

subsection \<open>State\<close>

type_synonym instant = nat

record local_writer_lease =
  ll_scope :: graph_scope
  ll_cell_id :: string
  ll_node_id :: string
  ll_generation :: u64
  ll_valid_until :: instant

record 'ver stored_writer_lease =
  sw_node_id :: string
  sw_holder_id :: string
  sw_generation :: u64
  sw_heartbeat :: u64
  sw_duration :: duration
  sw_version :: 'ver
  sw_last_modified_ms :: int
  sw_released :: bool

type_synonym writer_lease_fingerprint = "string \<times> string \<times> u64 \<times> u64 \<times> u64 \<times> bool"

record observed_writer_lease =
  ow_fingerprint :: writer_lease_fingerprint
  ow_observed_at :: instant
  ow_remaining_at_observation :: duration

type_synonym scope_lease_user_key = "string list \<times> string \<times> string"

record 'w lease_state =
  ld_world :: 'w
  ld_base_path :: string
  ld_lease_duration :: duration
  ld_holder_id :: string
  ld_local :: "(string, local_writer_lease) btmap"
  ld_abandoned :: "(string, local_writer_lease) btmap"
  ld_scope_users :: "(scope_lease_user_key, nat) btmap"
  ld_observed :: "(string, observed_writer_lease) btmap"
  ld_clock_probe :: u64

record writer_lease_owner =
  wo_node_id :: string
  wo_generation :: u64
  wo_remaining_ms :: u64

record writer_lease_renewal_failure =
  rf_scope :: graph_scope
  rf_cell_id :: string
  rf_error :: graph_error
  rf_ownership_lost :: bool

record ('w, 'ver) lease_ops =
  lo_path :: "string \<Rightarrow> string"
  lo_now :: "'w \<Rightarrow> instant \<times> 'w"
  lo_get :: "string \<Rightarrow> 'w \<Rightarrow> (object_error + 'ver \<times> int \<times> (object_error + bytes)) \<times> 'w"
  lo_put :: "string \<Rightarrow> bytes \<Rightarrow> 'ver put_mode \<Rightarrow> 'w \<Rightarrow> (object_error + unit) \<times> 'w"
  lo_head :: "string \<Rightarrow> 'w \<Rightarrow> (object_error + int) \<times> 'w"
  lo_delete :: "string \<Rightarrow> 'w \<Rightarrow> (object_error + unit) \<times> 'w"

definition DEFAULT_WRITER_LEASE_DURATION :: duration where
  "DEFAULT_WRITER_LEASE_DURATION = from_secs 30"

definition SERVER_TIMESTAMP_RESOLUTION_GUARD :: duration where
  "SERVER_TIMESTAMP_RESOLUTION_GUARD = from_secs 1"

definition MAX_WRITER_LEASE_CAS_ATTEMPTS :: nat where
  "MAX_WRITER_LEASE_CAS_ATTEMPTS = 16"

definition MAX_OBSERVED_WRITER_LEASES :: nat where
  "MAX_OBSERVED_WRITER_LEASES = 65536"

definition with_duration_and_holder :: "'w \<Rightarrow> string \<Rightarrow> duration \<Rightarrow> string \<Rightarrow> 'w lease_state" where
  "with_duration_and_holder world base_path lease_duration holder_id =
     \<lparr>ld_world = world, ld_base_path = trim_end_matches SLASH base_path, ld_lease_duration = max lease_duration (from_secs 1),
      ld_holder_id = holder_id, ld_local = [], ld_abandoned = [], ld_scope_users = [], ld_observed = [], ld_clock_probe = 0\<rparr>"

subsection \<open>Small programs\<close>

definition preads :: "('s \<Rightarrow> 'a) \<Rightarrow> ('s, 'a) prog" where
  "preads f s = (Inr (f s), s)"

definition pmodify :: "('s \<Rightarrow> 's) \<Rightarrow> ('s, unit) prog" where
  "pmodify f s = (Inr (), f s)"

definition ptry :: "('s, 'a) prog \<Rightarrow> ('s, 'a result) prog" where
  "ptry m s = (case m s of (r, s') \<Rightarrow> (Inr r, s'))"

definition in_world :: "('w \<Rightarrow> 'r \<times> 'w) \<Rightarrow> ('w lease_state, 'r) prog" where
  "in_world f s = (case f (ld_world s) of (r, world) \<Rightarrow> (Inr r, s\<lparr>ld_world := world\<rparr>))"

definition object_result :: "object_error + 'a \<Rightarrow> 'a result" where
  "object_result r = (case r of Inr x \<Rightarrow> Inr x | Inl err \<Rightarrow> Inl (ObjectStore (object_error_text err)))"

definition instant_now :: "('w, 'ver) lease_ops \<Rightarrow> ('w lease_state, instant) prog" where
  "instant_now ops = in_world (lo_now ops)"

definition lease_path :: "('w, 'ver) lease_ops \<Rightarrow> 'w lease_state \<Rightarrow> graph_scope \<Rightarrow> string \<Rightarrow> string" where
  "lease_path ops s scope cell_id = lo_path ops (scoped_store_path scope (ld_base_path s) @ ''/_writer_leases/v2/'' @ cell_id)"

definition scope_user_key :: "graph_scope \<Rightarrow> string \<Rightarrow> scope_lease_user_key" where
  "scope_user_key scope node_id = (np_segments (gs_namespace scope), gs_graph_id scope, node_id)"

definition register_scope :: "graph_scope \<Rightarrow> string \<Rightarrow> ('w lease_state, unit) prog" where
  "register_scope scope node_id = pmodify (\<lambda>s.
     let key = scope_user_key scope node_id in
     s\<lparr>ld_scope_users := bt_insert key ((case bt_get (ld_scope_users s) key of None \<Rightarrow> 0 | Some n \<Rightarrow> n) + 1) (ld_scope_users s)\<rparr>)"

subsection \<open>What a lease has left\<close>

definition read_stored :: "('w, 'ver) lease_ops \<Rightarrow> string \<Rightarrow> ('w lease_state, 'ver stored_writer_lease option) prog" where
  "read_stored ops path =
     pbind (in_world (lo_get ops path)) (\<lambda>found.
       case found of
         Inl (ObjNotFound e) \<Rightarrow> preturn None
       | Inl err \<Rightarrow> pfail (ObjectStore (object_error_text err))
       | Inr (version, last_modified_ms, body) \<Rightarrow>
           pbind (plift (object_result body)) (\<lambda>bytes.
           pbind (plift (decode_writer_lease path bytes)) (\<lambda>decoded.
             preturn (Some \<lparr>sw_node_id = wl_node_id decoded, sw_holder_id = wl_holder_id decoded,
               sw_generation = wl_generation decoded, sw_heartbeat = wl_heartbeat decoded,
               sw_duration = from_millis (unat (wl_duration_ms decoded)), sw_version = version,
               sw_last_modified_ms = last_modified_ms, sw_released = wl_released decoded\<rparr>))))"

definition probe_server_time :: "('w, 'ver) lease_ops \<Rightarrow> ('w lease_state, int) prog" where
  "probe_server_time ops =
     pbind (preads (\<lambda>s. (lo_path ops (ld_base_path s @ ''/_coordination/v1/server-clock''), ld_clock_probe s))) (\<lambda>(path, probe).
     pbind (pmodify (\<lambda>s. s\<lparr>ld_clock_probe := ld_clock_probe s + 1\<rparr>)) (\<lambda>_.
     pbind (in_world (lo_put ops path (fmt_u64 probe) PutOverwrite)) (\<lambda>stored.
     pbind (plift (object_result stored)) (\<lambda>_.
     pbind (in_world (lo_head ops path)) (\<lambda>found.
       plift (object_result found))))))"

definition remaining_after_elapsed :: "observed_writer_lease \<Rightarrow> instant \<Rightarrow> u64" where
  "remaining_after_elapsed entry now =
     u64_or_max (as_millis (ow_remaining_at_observation entry - (now - ow_observed_at entry)))"

definition fingerprint_of :: "'ver stored_writer_lease \<Rightarrow> writer_lease_fingerprint" where
  "fingerprint_of stored = (sw_node_id stored, sw_holder_id stored, sw_generation stored, sw_heartbeat stored,
     u64_or_max (as_millis (sw_duration stored)), sw_released stored)"

definition remember_observed :: "string \<Rightarrow> observed_writer_lease \<Rightarrow> ('w lease_state, unit) prog" where
  "remember_observed path entry = pmodify (\<lambda>s.
     let observed = ld_observed s;
         observed = (if MAX_OBSERVED_WRITER_LEASES \<le> length observed \<and> bt_get observed path = None then tl observed else observed)
     in s\<lparr>ld_observed := bt_insert path entry observed\<rparr>)"

definition shared_remaining_ms :: "('w, 'ver) lease_ops \<Rightarrow> string \<Rightarrow> 'ver stored_writer_lease \<Rightarrow> ('w lease_state, u64) prog" where
  "shared_remaining_ms ops path stored =
     pbind (instant_now ops) (\<lambda>now.
     pbind (preads (\<lambda>s. bt_get (ld_observed s) path)) (\<lambda>seen.
       case (case seen of Some entry \<Rightarrow> if ow_fingerprint entry = fingerprint_of stored then Some entry else None | None \<Rightarrow> None) of
         Some entry \<Rightarrow> preturn (remaining_after_elapsed entry now)
       | None \<Rightarrow>
           pbind (probe_server_time ops) (\<lambda>server_now.
             let durable_age = from_millis (nat (min (server_now - sw_last_modified_ms stored) (2 ^ 63 - 1)));
                 remaining = sw_duration stored + SERVER_TIMESTAMP_RESOLUTION_GUARD - durable_age
             in pbind (remember_observed path \<lparr>ow_fingerprint = fingerprint_of stored, ow_observed_at = now,
                         ow_remaining_at_observation = remaining\<rparr>) (\<lambda>_.
                preturn (u64_or_max (as_millis remaining))))))"

definition observe_successful_write :: "string \<Rightarrow> writer_lease_fingerprint \<Rightarrow> instant \<Rightarrow> ('w lease_state, unit) prog" where
  "observe_successful_write path fingerprint observed_at = (case fingerprint of (_, _, _, _, duration_ms, released) \<Rightarrow>
     pmodify (\<lambda>s. s\<lparr>ld_observed := bt_insert path \<lparr>ow_fingerprint = fingerprint, ow_observed_at = observed_at,
       ow_remaining_at_observation = (if released then 0 else from_millis (unat duration_ms) + SERVER_TIMESTAMP_RESOLUTION_GUARD)\<rparr>
       (ld_observed s)\<rparr>))"

definition current_owner :: "('w, 'ver) lease_ops \<Rightarrow> graph_scope \<Rightarrow> string \<Rightarrow> ('w lease_state, writer_lease_owner option) prog" where
  "current_owner ops scope cell_id =
     pbind (plift (validate_component ''cell_id'' cell_id)) (\<lambda>_.
     pbind (preads (\<lambda>s. lease_path ops s scope cell_id)) (\<lambda>path.
     pbind (read_stored ops path) (\<lambda>found.
       case found of
         None \<Rightarrow> preturn None
       | Some stored \<Rightarrow>
           pif (sw_released stored) (preturn None)
             (pbind (shared_remaining_ms ops path stored) (\<lambda>remaining_ms.
                preturn (if 0 < remaining_ms then Some \<lparr>wo_node_id = sw_node_id stored, wo_generation = sw_generation stored,
                  wo_remaining_ms = remaining_ms\<rparr> else None))))))"

subsection \<open>Local leases\<close>

definition is_valid_lease :: "('w, 'ver) lease_ops \<Rightarrow> local_writer_lease option \<Rightarrow> string \<Rightarrow> ('w lease_state, bool) prog" where
  "is_valid_lease ops lease node_id =
     (case lease of
        None \<Rightarrow> preturn False
      | Some lease \<Rightarrow> pif (ll_node_id lease = node_id)
          (pbind (instant_now ops) (\<lambda>now. preturn (now < ll_valid_until lease))) (preturn False))"

definition holds_valid_local :: "('w, 'ver) lease_ops \<Rightarrow> graph_scope \<Rightarrow> string \<Rightarrow> string \<Rightarrow> ('w lease_state, bool) prog" where
  "holds_valid_local ops scope cell_id node_id =
     pbind (preads (\<lambda>s. bt_get (ld_local s) (lease_path ops s scope cell_id))) (\<lambda>lease. is_valid_lease ops lease node_id)"

definition forget_local :: "string \<Rightarrow> ('w lease_state, unit) prog" where
  "forget_local key = pmodify (\<lambda>s. s\<lparr>ld_local := bt_remove key (ld_local s)\<rparr>)"

definition forget_abandoned :: "string \<Rightarrow> ('w lease_state, unit) prog" where
  "forget_abandoned key = pmodify (\<lambda>s. s\<lparr>ld_abandoned := bt_remove key (ld_abandoned s)\<rparr>)"

definition holds_abandoned_local :: "('w, 'ver) lease_ops \<Rightarrow> graph_scope \<Rightarrow> string \<Rightarrow> string \<Rightarrow> ('w lease_state, bool) prog" where
  "holds_abandoned_local ops scope cell_id node_id =
     pbind (preads (\<lambda>s. lease_path ops s scope cell_id)) (\<lambda>key.
     pbind (preads (\<lambda>s. bt_get (ld_abandoned s) key)) (\<lambda>lease.
       case lease of
         None \<Rightarrow> preturn False
       | Some _ \<Rightarrow> pbind (is_valid_lease ops lease node_id) (\<lambda>valid.
           pif valid (preturn True) (pbind (forget_abandoned key) (\<lambda>_. preturn False)))))"

subsection \<open>Acquiring and renewing\<close>

definition not_cell_writer :: "string \<Rightarrow> string option \<Rightarrow> ('s, 'a) prog" where
  "not_cell_writer cell_id owner_id = pfail (NotCellWriter cell_id owner_id)"

text \<open>The refusal of a lease that another process holds.\<close>

definition check_lease_free ::
    "('w, 'ver) lease_ops \<Rightarrow> string \<Rightarrow> string \<Rightarrow> string \<Rightarrow> string \<Rightarrow> 'ver stored_writer_lease option \<Rightarrow> ('w lease_state, unit) prog" where
  "check_lease_free ops path cell_id node_id holder_id current =
     (case current of
        None \<Rightarrow> preturn ()
      | Some stored \<Rightarrow> pif (sw_released stored) (preturn ())
          (pbind (shared_remaining_ms ops path stored) (\<lambda>remaining_ms.
             pif (0 < remaining_ms \<and> \<not> (sw_node_id stored = node_id \<and> sw_holder_id stored = holder_id))
               (pbind (forget_local path) (\<lambda>_. pbind (forget_abandoned path) (\<lambda>_.
                  not_cell_writer cell_id (Some (sw_node_id stored)))))
               (preturn ()))))"

definition same_lease_holder :: "string \<Rightarrow> string \<Rightarrow> 'ver stored_writer_lease option \<Rightarrow> bool" where
  "same_lease_holder node_id holder_id current = (case current of None \<Rightarrow> False
     | Some stored \<Rightarrow> \<not> sw_released stored \<and> sw_node_id stored = node_id \<and> sw_holder_id stored = holder_id)"

definition next_generation :: "bool \<Rightarrow> 'ver stored_writer_lease option \<Rightarrow> u64" where
  "next_generation same_holder current = (case current of None \<Rightarrow> 1
     | Some stored \<Rightarrow> if same_holder then sw_generation stored else saturating_add (sw_generation stored) 1)"

definition next_heartbeat :: "'ver stored_writer_lease option \<Rightarrow> u64" where
  "next_heartbeat current = (case current of None \<Rightarrow> 1 | Some stored \<Rightarrow> saturating_add (sw_heartbeat stored) 1)"

text \<open>A store without conditional updates lets the incumbent overwrite its own lease.\<close>

definition write_lease ::
    "('w, 'ver) lease_ops \<Rightarrow> string \<Rightarrow> bytes \<Rightarrow> bool \<Rightarrow> 'ver stored_writer_lease option \<Rightarrow> ('w lease_state, object_error + unit) prog" where
  "write_lease ops path payload same_holder current =
     pbind (in_world (lo_put ops path payload (case current of None \<Rightarrow> PutCreate | Some stored \<Rightarrow> PutUpdate (sw_version stored)))) (\<lambda>written.
       case written of
         Inl (ObjNotImplemented e) \<Rightarrow>
           pif same_holder (in_world (lo_put ops path payload PutOverwrite)) (preturn written)
       | _ \<Rightarrow> preturn written)"

definition keep_lease ::
    "string \<Rightarrow> local_writer_lease \<Rightarrow> bool \<Rightarrow> ('w lease_state, u64) prog" where
  "keep_lease key lease force_renew =
     pbind (preads (\<lambda>s. bt_get (ld_scope_users s) (scope_user_key (ll_scope lease) (ll_node_id lease)))) (\<lambda>user.
       pif (force_renew \<and> user = None) (not_cell_writer (ll_cell_id lease) (Some (ll_node_id lease)))
         (pbind (forget_abandoned key) (\<lambda>_.
          pbind (pmodify (\<lambda>s. s\<lparr>ld_local := bt_insert key lease (ld_local s)\<rparr>)) (\<lambda>_.
            preturn (ll_generation lease)))))"

fun lease_attempts ::
    "nat \<Rightarrow> ('w, 'ver) lease_ops \<Rightarrow> string \<Rightarrow> graph_scope \<Rightarrow> string \<Rightarrow> string \<Rightarrow> bool \<Rightarrow> ('w lease_state, u64) prog" where
  "lease_attempts 0 ops path scope cell_id node_id force_renew =
     pfail (RetryExhausted ''writer_lease_cas'' MAX_WRITER_LEASE_CAS_ATTEMPTS)"
| "lease_attempts (Suc n) ops path scope cell_id node_id force_renew =
     pbind (preads ld_holder_id) (\<lambda>holder_id.
     pbind (preads ld_lease_duration) (\<lambda>lease_duration.
     pbind (read_stored ops path) (\<lambda>current.
     pbind (check_lease_free ops path cell_id node_id holder_id current) (\<lambda>_.
       let same_holder = same_lease_holder node_id holder_id current;
           generation = next_generation same_holder current;
           heartbeat = next_heartbeat current in
       pbind (plift (encode_writer_lease node_id holder_id generation heartbeat lease_duration False)) (\<lambda>payload.
       pbind (instant_now ops) (\<lambda>write_started.
       pbind (write_lease ops path payload same_holder current) (\<lambda>written.
         case written of
           Inr _ \<Rightarrow>
             let valid_until = write_started + lease_duration in
             pbind (instant_now ops) (\<lambda>now.
               pif (valid_until \<le> now) (lease_attempts n ops path scope cell_id node_id force_renew)
                 (pbind (observe_successful_write path (node_id, holder_id, generation, heartbeat,
                           u64_or_max (as_millis lease_duration), False) write_started) (\<lambda>_.
                    keep_lease path \<lparr>ll_scope = scope, ll_cell_id = cell_id, ll_node_id = node_id, ll_generation = generation,
                      ll_valid_until = valid_until\<rparr> force_renew)))
         | Inl (ObjAlreadyExists e) \<Rightarrow> lease_attempts n ops path scope cell_id node_id force_renew
         | Inl (ObjPrecondition e) \<Rightarrow> lease_attempts n ops path scope cell_id node_id force_renew
         | Inl err \<Rightarrow> pfail (ObjectStore (object_error_text err)))))))))"

definition acquire_or_renew_inner ::
    "('w, 'ver) lease_ops \<Rightarrow> graph_scope \<Rightarrow> string \<Rightarrow> string \<Rightarrow> bool \<Rightarrow> ('w lease_state, u64) prog" where
  "acquire_or_renew_inner ops scope cell_id node_id force_renew =
     pbind (plift (validate_component ''cell_id'' cell_id)) (\<lambda>_.
     pbind (plift (validate_component ''node_id'' node_id)) (\<lambda>_.
     pbind (preads ld_holder_id) (\<lambda>holder_id.
     pbind (plift (validate_component ''writer_lease_holder'' holder_id)) (\<lambda>_.
     pbind (preads (\<lambda>s. lease_path ops s scope cell_id)) (\<lambda>path.
     pbind (preads ld_lease_duration) (\<lambda>lease_duration.
     pbind (preads (\<lambda>s. bt_get (ld_local s) path)) (\<lambda>lease.
       pif force_renew
         (pbind (is_valid_lease ops lease node_id) (\<lambda>local_is_valid.
            pif local_is_valid (lease_attempts MAX_WRITER_LEASE_CAS_ATTEMPTS ops path scope cell_id node_id True)
              (pbind (forget_local path) (\<lambda>_. not_cell_writer cell_id None))))
         (case lease of
            None \<Rightarrow> lease_attempts MAX_WRITER_LEASE_CAS_ATTEMPTS ops path scope cell_id node_id False
          | Some held \<Rightarrow>
              pif (ll_node_id held = node_id)
                (pbind (instant_now ops) (\<lambda>now.
                   pif (now + lease_duration div 3 < ll_valid_until held) (preturn (ll_generation held))
                     (lease_attempts MAX_WRITER_LEASE_CAS_ATTEMPTS ops path scope cell_id node_id False)))
                (lease_attempts MAX_WRITER_LEASE_CAS_ATTEMPTS ops path scope cell_id node_id False)))))))))"

definition acquire_or_renew :: "('w, 'ver) lease_ops \<Rightarrow> graph_scope \<Rightarrow> string \<Rightarrow> string \<Rightarrow> ('w lease_state, u64) prog" where
  "acquire_or_renew ops scope cell_id node_id = acquire_or_renew_inner ops scope cell_id node_id False"

definition renew_one ::
    "('w, 'ver) lease_ops \<Rightarrow> string \<Rightarrow> local_writer_lease \<Rightarrow> writer_lease_renewal_failure list
     \<Rightarrow> ('w lease_state, writer_lease_renewal_failure list) prog" where
  "renew_one ops node_id lease failures =
     pbind (ptry (acquire_or_renew_inner ops (ll_scope lease) (ll_cell_id lease) node_id True)) (\<lambda>res.
       case res of
         Inr _ \<Rightarrow> preturn failures
       | Inl error \<Rightarrow>
           pbind (holds_valid_local ops (ll_scope lease) (ll_cell_id lease) node_id) (\<lambda>valid.
           pbind (preads (\<lambda>s. lease_path ops s (ll_scope lease) (ll_cell_id lease))) (\<lambda>key.
           pbind (pif valid (preturn ()) (forget_local key)) (\<lambda>_.
             preturn (failures @ [\<lparr>rf_scope = ll_scope lease, rf_cell_id = ll_cell_id lease, rf_error = error,
               rf_ownership_lost = (\<not> valid)\<rparr>])))))"

definition renew_local :: "('w, 'ver) lease_ops \<Rightarrow> string \<Rightarrow> ('w lease_state, writer_lease_renewal_failure list) prog" where
  "renew_local ops node_id =
     pbind (preads (\<lambda>s. filter (\<lambda>lease. ll_node_id lease = node_id) (map snd (ld_local s)))) (\<lambda>leases.
       pfold leases (renew_one ops node_id) [])"

subsection \<open>Releasing\<close>

fun release_attempts ::
    "nat \<Rightarrow> ('w, 'ver) lease_ops \<Rightarrow> string \<Rightarrow> string \<Rightarrow> u64 \<Rightarrow> ('w lease_state, unit) prog" where
  "release_attempts 0 ops path node_id generation =
     pfail (RetryExhausted ''writer_lease_release_cas'' MAX_WRITER_LEASE_CAS_ATTEMPTS)"
| "release_attempts (Suc n) ops path node_id generation =
     pbind (preads ld_holder_id) (\<lambda>holder_id.
     pbind (read_stored ops path) (\<lambda>found.
       case found of
         None \<Rightarrow> preturn ()
       | Some current \<Rightarrow>
           pif (sw_node_id current \<noteq> node_id \<or> sw_holder_id current \<noteq> holder_id \<or> sw_generation current \<noteq> generation) (preturn ())
             (let heartbeat = saturating_add (sw_heartbeat current) 1; duration = sw_duration current in
              pbind (plift (encode_writer_lease node_id holder_id generation heartbeat duration True)) (\<lambda>payload.
              pbind (instant_now ops) (\<lambda>write_started.
              pbind (in_world (lo_put ops path payload (PutUpdate (sw_version current)))) (\<lambda>written.
                case written of
                  Inr _ \<Rightarrow> observe_successful_write path (node_id, holder_id, generation, heartbeat,
                    u64_or_max (as_millis duration), True) write_started
                | Inl (ObjNotImplemented e) \<Rightarrow>
                    pbind (in_world (lo_delete ops path)) (\<lambda>deleted. plift (object_result deleted))
                | Inl (ObjAlreadyExists e) \<Rightarrow> release_attempts n ops path node_id generation
                | Inl (ObjPrecondition e) \<Rightarrow> release_attempts n ops path node_id generation
                | Inl err \<Rightarrow> pfail (ObjectStore (object_error_text err))))))))"

definition release_stored :: "('w, 'ver) lease_ops \<Rightarrow> graph_scope \<Rightarrow> string \<Rightarrow> string \<Rightarrow> u64 \<Rightarrow> ('w lease_state, unit) prog" where
  "release_stored ops scope cell_id node_id generation =
     pbind (preads (\<lambda>s. lease_path ops s scope cell_id)) (\<lambda>path.
       release_attempts MAX_WRITER_LEASE_CAS_ATTEMPTS ops path node_id generation)"

definition release_cell :: "('w, 'ver) lease_ops \<Rightarrow> graph_scope \<Rightarrow> string \<Rightarrow> string \<Rightarrow> ('w lease_state, unit) prog" where
  "release_cell ops scope cell_id node_id =
     pbind (preads (\<lambda>s. lease_path ops s scope cell_id)) (\<lambda>path.
     pbind (preads (\<lambda>s. (bt_get (ld_local s) path, bt_get (ld_abandoned s) path))) (\<lambda>found.
       case found of
         (Some lease, _) \<Rightarrow> pbind (forget_local path) (\<lambda>_. release_stored ops scope cell_id node_id (ll_generation lease))
       | (None, Some lease) \<Rightarrow> pbind (forget_abandoned path) (\<lambda>_. release_stored ops scope cell_id node_id (ll_generation lease))
       | (None, None) \<Rightarrow> preturn ()))"

text \<open>A user of a scope leaves; the answer is whether it was the last.\<close>

definition leave_scope :: "graph_scope \<Rightarrow> string \<Rightarrow> ('w lease_state, bool) prog" where
  "leave_scope scope node_id s =
     (let key = scope_user_key scope node_id in
      case bt_get (ld_scope_users s) key of
        None \<Rightarrow> (Inr True, s)
      | Some count \<Rightarrow>
          if 1 < count then (Inr False, s\<lparr>ld_scope_users := bt_insert key (count - 1) (ld_scope_users s)\<rparr>)
          else (Inr True, s\<lparr>ld_scope_users := bt_remove key (ld_scope_users s)\<rparr>))"

definition of_scope :: "graph_scope \<Rightarrow> string \<Rightarrow> string \<times> local_writer_lease \<Rightarrow> bool" where
  "of_scope scope node_id p \<longleftrightarrow> ll_scope (snd p) = scope \<and> ll_node_id (snd p) = node_id"

definition release_one ::
    "('w, 'ver) lease_ops \<Rightarrow> graph_scope \<Rightarrow> string \<Rightarrow> local_writer_lease \<Rightarrow> (string \<times> graph_error) list
     \<Rightarrow> ('w lease_state, (string \<times> graph_error) list) prog" where
  "release_one ops scope node_id lease failures =
     pbind (ptry (release_stored ops scope (ll_cell_id lease) node_id (ll_generation lease))) (\<lambda>res.
       preturn (case res of Inr _ \<Rightarrow> failures | Inl error \<Rightarrow> failures @ [(ll_cell_id lease, error)]))"

definition release_scope :: "('w, 'ver) lease_ops \<Rightarrow> graph_scope \<Rightarrow> string \<Rightarrow> ('w lease_state, (string \<times> graph_error) list) prog" where
  "release_scope ops scope node_id =
     pbind (leave_scope scope node_id) (\<lambda>should_release.
       pif should_release
         (pbind (preads (\<lambda>s. map snd (filter (of_scope scope node_id) (ld_local s)) @ map snd (filter (of_scope scope node_id) (ld_abandoned s)))) (\<lambda>leases.
          pbind (pmodify (\<lambda>s. s\<lparr>ld_local := filter (\<lambda>p. \<not> of_scope scope node_id p) (ld_local s),
                                ld_abandoned := filter (\<lambda>p. \<not> of_scope scope node_id p) (ld_abandoned s)\<rparr>)) (\<lambda>_.
            pfold leases (release_one ops scope node_id) [])))
         (preturn []))"

definition abandon_scope :: "('w, 'ver) lease_ops \<Rightarrow> graph_scope \<Rightarrow> string \<Rightarrow> ('w lease_state, unit) prog" where
  "abandon_scope ops scope node_id =
     pbind (leave_scope scope node_id) (\<lambda>should_abandon.
       pif should_abandon
         (pbind (preads (\<lambda>s. filter (of_scope scope node_id) (ld_local s))) (\<lambda>leases.
          pbind (pmodify (\<lambda>s. s\<lparr>ld_local := filter (\<lambda>p. \<not> of_scope scope node_id p) (ld_local s)\<rparr>)) (\<lambda>_.
          pbind (instant_now ops) (\<lambda>now.
            pmodify (\<lambda>s. s\<lparr>ld_abandoned := bt_extend (filter (\<lambda>p. now < ll_valid_until (snd p)) (ld_abandoned s)) leases\<rparr>)))))
         (preturn ()))"

end
