(* ===== verification/Lease_Log.thy ===== *)
theory Lease_Log
  imports Writer_Lease
begin

text \<open>
  The history of a lease object: the writes to one path in the order in which they took effect. \<open>follows\<close> says when one
  write may come after another, and on a history in which every write follows its predecessor (\<open>lawful\<close>), two processes
  never hold unexpired leases at the same time, and the generation grows with every change of ownership. Nothing in this
  theory depends on how the writes come about.
\<close>

record 'ver lease_entry =
  le_time :: instant
  le_modified :: int
  le_version :: 'ver
  le_payload :: bytes

definition reads :: "string \<Rightarrow> 'ver lease_entry \<Rightarrow> decoded_writer_lease \<Rightarrow> bool" where
  "reads p e d \<longleftrightarrow> decode_writer_lease p (le_payload e) = Inr d"

definition lease_owner :: "decoded_writer_lease \<Rightarrow> string \<times> string" where
  "lease_owner d = (wl_node_id d, wl_holder_id d)"

definition expiry :: "'ver lease_entry \<Rightarrow> decoded_writer_lease \<Rightarrow> instant" where
  "expiry e d = le_time e + from_millis (unat (wl_duration_ms d))"

text \<open>A lease passes to another owner only when it was released or has expired; only the owner releases it.\<close>

definition follows_as :: "'ver lease_entry \<Rightarrow> decoded_writer_lease \<Rightarrow> 'ver lease_entry \<Rightarrow> decoded_writer_lease \<Rightarrow> bool" where
  "follows_as e d e' d' \<longleftrightarrow> le_time e \<le> le_time e' \<and> wl_heartbeat d < wl_heartbeat d'
     \<and> (lease_owner d' = lease_owner d \<longrightarrow> wl_duration_ms d' = wl_duration_ms d)
     \<and> (wl_released d' \<longrightarrow> lease_owner d' = lease_owner d)
     \<and> (wl_released d \<or> lease_owner d' = lease_owner d \<or> expiry e d \<le> le_time e')
     \<and> wl_generation d \<le> wl_generation d' \<and> (lease_owner d' \<noteq> lease_owner d \<longrightarrow> wl_generation d < wl_generation d')"

definition follows :: "string \<Rightarrow> 'ver lease_entry \<Rightarrow> 'ver lease_entry \<Rightarrow> bool" where
  "follows p e e' \<longleftrightarrow> (\<exists>d d'. reads p e d \<and> reads p e' d' \<and> follows_as e d e' d')"

definition lawful :: "string \<Rightarrow> 'ver lease_entry list \<Rightarrow> bool" where
  "lawful p L \<longleftrightarrow> successively (follows p) L \<and> (\<forall>e \<in> set L. \<exists>d. reads p e d)"

lemma reads_unique: "reads p e d \<Longrightarrow> reads p e d' \<Longrightarrow> d' = d"
  by (simp add: reads_def)

lemma followsD: "follows p e e' \<Longrightarrow> reads p e d \<Longrightarrow> reads p e' d' \<Longrightarrow> follows_as e d e' d'"
  unfolding follows_def by (metis reads_unique)

lemma lawful_snoc:
  "lawful p (L @ [e]) \<longleftrightarrow> lawful p L \<and> (\<exists>d. reads p e d) \<and> (L = [] \<or> follows p (last L) e)"
  by (auto simp: lawful_def successively_append_iff)

lemma lawful_step: "lawful p L \<Longrightarrow> Suc i < length L \<Longrightarrow> follows p (L ! i) (L ! Suc i)"
  by (simp add: lawful_def successively_conv_nth)

lemma lawful_reads: "lawful p L \<Longrightarrow> i < length L \<Longrightarrow> \<exists>d. reads p (L ! i) d"
  by (simp add: lawful_def)

text \<open>Along a lawful history times do not decrease, heartbeats increase and generations do not decrease.\<close>

lemma lawful_later:
  assumes L: "lawful p L" and ij: "i < j" "j < length L" and d: "reads p (L ! i) d" "reads p (L ! j) d'"
  shows "le_time (L ! i) \<le> le_time (L ! j) \<and> wl_heartbeat d < wl_heartbeat d' \<and> wl_generation d \<le> wl_generation d'"
  using ij d(2)
proof (induction j arbitrary: d' rule: less_induct)
  case (less j)
  obtain k where j: "j = Suc k" using less.prems(1) by (cases j) auto
  obtain dk where dk: "reads p (L ! k) dk" using lawful_reads[OF L, of k] less.prems(2) j by auto
  have last: "follows_as (L ! k) dk (L ! j) d'"
    using followsD[OF lawful_step[OF L] dk] less.prems(2,3) j by auto
  show ?case
  proof (cases "i = k")
    case True
    then show ?thesis using last reads_unique[OF d(1)] dk by (auto simp: follows_as_def)
  next
    case False
    then have "i < k" using less.prems(1) j by simp
    then show ?thesis using less.IH[OF _ \<open>i < k\<close> _ dk] less.prems(2) j last by (auto simp: follows_as_def)
  qed
qed

lemma lawful_heartbeat_unique:
  assumes "lawful p L" "e \<in> set L" "e' \<in> set L" "reads p e d" "reads p e' d'" "wl_heartbeat d = wl_heartbeat d'"
  shows "e' = e"
proof -
  obtain i j where ij: "i < length L" "j < length L" "e = L ! i" "e' = L ! j" using assms(2,3) by (metis in_set_conv_nth)
  consider "i < j" | "j < i" | "i = j" by linarith
  then show ?thesis
  proof cases
    case 1
    then show ?thesis using lawful_later[OF assms(1) 1 ij(2), of d d'] assms(4-6) ij by simp
  next
    case 2
    then show ?thesis using lawful_later[OF assms(1) 2 ij(1), of d' d] assms(4-6) ij by simp
  qed (use ij in simp)
qed

text \<open>A local lease is backed by a write of its process that the process has not released since.\<close>

definition backed :: "string \<Rightarrow> string \<Rightarrow> 'ver lease_entry list \<Rightarrow> local_writer_lease \<Rightarrow> bool" where
  "backed p holder L l \<longleftrightarrow> (\<exists>i d. i < length L \<and> reads p (L ! i) d \<and> lease_owner d = (ll_node_id l, holder) \<and> \<not> wl_released d
     \<and> wl_generation d = ll_generation l \<and> ll_valid_until l \<le> expiry (L ! i) d
     \<and> (\<forall>j d'. i < j \<and> j < length L \<and> reads p (L ! j) d' \<and> wl_holder_id d' = holder \<longrightarrow> \<not> wl_released d'))"

lemma backed_append:
  assumes "backed p holder L l" "\<And>e d. e \<in> set xs \<Longrightarrow> reads p e d \<Longrightarrow> wl_holder_id d = holder \<Longrightarrow> \<not> wl_released d"
  shows "backed p holder (L @ xs) l"
proof -
  obtain i d where i: "i < length L" "reads p (L ! i) d" "lease_owner d = (ll_node_id l, holder)" "\<not> wl_released d"
    "wl_generation d = ll_generation l" "ll_valid_until l \<le> expiry (L ! i) d"
    "\<And>j d'. i < j \<Longrightarrow> j < length L \<Longrightarrow> reads p (L ! j) d' \<Longrightarrow> wl_holder_id d' = holder \<Longrightarrow> \<not> wl_released d'"
    using assms(1) unfolding backed_def by blast
  have later: "\<not> wl_released d'" if j: "i < j" "j < length (L @ xs)" "reads p ((L @ xs) ! j) d'" "wl_holder_id d' = holder" for j d'
  proof (cases "j < length L")
    case True
    then show ?thesis using i(7)[of j d'] j by (simp add: nth_append)
  next
    case False
    then have "(L @ xs) ! j \<in> set xs" using j(2) by (simp add: nth_append)
    then show ?thesis using assms(2) j(3,4) by blast
  qed
  have "(L @ xs) ! i = L ! i" using i(1) by (simp add: nth_append)
  then show ?thesis unfolding backed_def using i(1-6) by (intro exI[of _ i] exI[of _ d] conjI allI impI) (simp_all, elim conjE, rule later, simp_all)
qed

lemma backed_last:
  assumes "reads p e d" "lease_owner d = (ll_node_id l, holder)" "\<not> wl_released d" "wl_generation d = ll_generation l" "ll_valid_until l \<le> expiry e d"
  shows "backed p holder (L @ [e]) l"
  unfolding backed_def using assms by (intro exI[of _ "length L"] exI[of _ d]) auto

text \<open>While a backed lease is unexpired, all later writes are its owner's.\<close>

lemma unexpired_keeps_owner:
  assumes L: "lawful p L" and now: "\<And>e. e \<in> set L \<Longrightarrow> le_time e \<le> now"
    and i: "i < length L" "reads p (L ! i) d" "\<not> wl_released d" "now < expiry (L ! i) d"
    and rel: "\<And>j d'. i < j \<Longrightarrow> j < length L \<Longrightarrow> reads p (L ! j) d' \<Longrightarrow> wl_holder_id d' = wl_holder_id d \<Longrightarrow> \<not> wl_released d'"
    and j: "i \<le> j" "j < length L" "reads p (L ! j) d'"
  shows "lease_owner d' = lease_owner d \<and> \<not> wl_released d' \<and> wl_duration_ms d' = wl_duration_ms d"
  using j
proof (induction j arbitrary: d' rule: dec_induct)
  case base
  then show ?case using i reads_unique by metis
next
  case (step k)
  obtain dk where dk: "reads p (L ! k) dk" using lawful_reads[OF L, of k] step.prems(1) by auto
  note IH = step.IH[OF _ dk]
  have fol: "follows_as (L ! k) dk (L ! Suc k) d'" by (rule followsD[OF lawful_step[OF L] dk step.prems(2)]) (rule step.prems(1))
  have "le_time (L ! i) \<le> le_time (L ! k)"
  proof (cases "i = k")
    case False
    then show ?thesis using lawful_later[OF L _ _ i(2) dk] step.hyps step.prems(1) by simp
  qed simp
  moreover have "le_time (L ! Suc k) \<le> now" using now step.prems(1) by simp
  ultimately have "\<not> expiry (L ! k) dk \<le> le_time (L ! Suc k)" using IH i(4) step.prems(1) by (simp add: expiry_def)
  then have own: "lease_owner d' = lease_owner d" "wl_duration_ms d' = wl_duration_ms d" using fol IH step.prems(1) by (auto simp: follows_as_def)
  moreover have "\<not> wl_released d'" using rel[of "Suc k" d'] step own(1) by (simp add: lease_owner_def)
  ultimately show ?case by blast
qed

lemma owner_change_generation:
  assumes L: "lawful p L" and ij: "i < j" "j < length L" and d: "reads p (L ! i) d" "reads p (L ! j) d'"
    and new: "lease_owner d' \<noteq> lease_owner d"
  shows "wl_generation d < wl_generation d'"
  using ij d(2) new
proof (induction j arbitrary: d' rule: less_induct)
  case (less j)
  obtain k where j: "j = Suc k" using less.prems(1) by (cases j) auto
  obtain dk where dk: "reads p (L ! k) dk" using lawful_reads[OF L, of k] less.prems(2) j by auto
  have fol: "follows_as (L ! k) dk (L ! j) d'" using followsD[OF lawful_step[OF L] dk] less.prems(2,3) j by auto
  have le: "wl_generation d \<le> wl_generation dk"
  proof (cases "i = k")
    case True
    then show ?thesis using reads_unique[OF d(1)] dk by auto
  next
    case False
    then show ?thesis using lawful_later[OF L _ _ d(1) dk] less.prems(1,2) j by auto
  qed
  show ?case
  proof (cases "lease_owner dk = lease_owner d")
    case True
    then have "wl_generation dk < wl_generation d'" using fol less.prems(4) by (simp add: follows_as_def)
    then show ?thesis using le by (rule order.strict_trans1[rotated])
  next
    case False
    then have "i \<noteq> k" using reads_unique[OF d(1)] dk by auto
    then have "wl_generation d < wl_generation dk" using less.IH[OF _ _ _ dk False] less.prems(1,2) j by simp
    then show ?thesis using fol by (auto simp: follows_as_def)
  qed
qed

theorem backed_exclusive:
  assumes L: "lawful p L" and now: "\<And>e. e \<in> set L \<Longrightarrow> le_time e \<le> now"
    and a: "backed p a L l" and b: "backed p b L m" and ab: "a \<noteq> b"
  shows "\<not> (now < ll_valid_until l \<and> now < ll_valid_until m)" and "ll_generation l \<noteq> ll_generation m"
proof -
  obtain i d where i: "i < length L" "reads p (L ! i) d" "lease_owner d = (ll_node_id l, a)" "\<not> wl_released d"
    "wl_generation d = ll_generation l" "ll_valid_until l \<le> expiry (L ! i) d"
    "\<And>j d'. i < j \<Longrightarrow> j < length L \<Longrightarrow> reads p (L ! j) d' \<Longrightarrow> wl_holder_id d' = a \<Longrightarrow> \<not> wl_released d'"
    using a unfolding backed_def by blast
  obtain j d' where j: "j < length L" "reads p (L ! j) d'" "lease_owner d' = (ll_node_id m, b)" "\<not> wl_released d'"
    "wl_generation d' = ll_generation m" "ll_valid_until m \<le> expiry (L ! j) d'"
    "\<And>k d''. j < k \<Longrightarrow> k < length L \<Longrightarrow> reads p (L ! k) d'' \<Longrightarrow> wl_holder_id d'' = b \<Longrightarrow> \<not> wl_released d''"
    using b unfolding backed_def by blast
  have hold: "wl_holder_id d = a" "wl_holder_id d' = b" using i(3) j(3) by (auto simp: lease_owner_def)
  have neq: "lease_owner d' \<noteq> lease_owner d" "lease_owner d \<noteq> lease_owner d'" using i(3) j(3) ab by auto
  have "i \<noteq> j" using i(2) j(2) neq reads_unique by blast
  then consider "i < j" | "j < i" by linarith
  then have "\<not> (now < ll_valid_until l \<and> now < ll_valid_until m) \<and> ll_generation l \<noteq> ll_generation m"
  proof cases
    case 1
    have "\<not> now < ll_valid_until l"
    proof
      assume "now < ll_valid_until l"
      then have "now < expiry (L ! i) d" using i(6) by simp
      from unexpired_keeps_owner[OF L now i(1,2,4) this _ _ j(1,2)] i(7) hold(1) 1 neq show False by auto
    qed
    moreover have "wl_generation d < wl_generation d'" by (rule owner_change_generation[OF L 1 j(1) i(2) j(2) neq(1)])
    ultimately show ?thesis using i(5) j(5) by auto
  next
    case 2
    have "\<not> now < ll_valid_until m"
    proof
      assume "now < ll_valid_until m"
      then have "now < expiry (L ! j) d'" using j(6) by simp
      from unexpired_keeps_owner[OF L now j(1,2,4) this _ _ i(1,2)] j(7) hold(2) 2 neq show False by auto
    qed
    moreover have "wl_generation d' < wl_generation d" by (rule owner_change_generation[OF L 2 i(1) j(2) i(2) neq(2)])
    ultimately show ?thesis using i(5) j(5) by auto
  qed
  then show "\<not> (now < ll_valid_until l \<and> now < ll_valid_until m)" "ll_generation l \<noteq> ll_generation m" by auto
qed

end
