(* ===== verification/Lease_World.thy ===== *)
theory Lease_World
  imports Lease_Log
begin

text \<open>
  What a directory of writer leases relies on: the store orders the writes to a lease object, applies a conditional write
  only when its condition holds, and stamps an object at most \<open>res\<close> before the time of its write; between two operations
  of a process others may extend the history, lawfully. The locale \<open>lease_world\<close> states this for one lease object, one
  process and one node.
\<close>

subsection \<open>Histories a process can find\<close>

definition numbered :: "string \<Rightarrow> 'ver lease_entry list \<Rightarrow> bool" where
  "numbered p L \<longleftrightarrow> (\<forall>i d. i < length L \<and> reads p (L ! i) d \<longrightarrow> unat (wl_heartbeat d) = Suc i \<and> unat (wl_generation d) \<le> Suc i)"

definition stamped :: "nat \<Rightarrow> int \<Rightarrow> 'ver lease_entry \<Rightarrow> bool" where
  "stamped res ofs e \<longleftrightarrow> int (le_time e) + ofs - int res \<le> le_modified e * 1000000"

definition good :: "string \<Rightarrow> nat \<Rightarrow> int \<Rightarrow> instant \<Rightarrow> 'ver lease_entry list \<Rightarrow> bool" where
  "good p res ofs t L \<longleftrightarrow> lawful p L \<and> numbered p L \<and> distinct (map le_version L) \<and> (\<forall>e \<in> set L. le_time e \<le> t \<and> stamped res ofs e)"

text \<open>What the other processes may do in the meantime: time passes and they extend the history.\<close>

definition env :: "string \<Rightarrow> nat \<Rightarrow> int \<Rightarrow> string \<Rightarrow> instant \<Rightarrow> 'ver lease_entry list \<Rightarrow> instant \<Rightarrow> 'ver lease_entry list \<Rightarrow> bool" where
  "env p res ofs me t L t' L' \<longleftrightarrow> t \<le> t' \<and> (good p res ofs t L \<longrightarrow> good p res ofs t' L')
     \<and> (\<exists>xs. L' = L @ xs \<and> (\<forall>e \<in> set xs. \<forall>d. reads p e d \<longrightarrow> wl_holder_id d \<noteq> me))"

lemma numbered_snoc:
  assumes "numbered p L" "\<And>d. reads p e d \<Longrightarrow> unat (wl_heartbeat d) = Suc (length L) \<and> unat (wl_generation d) \<le> Suc (length L)"
  shows "numbered p (L @ [e])"
  unfolding numbered_def
proof (intro allI impI)
  fix i d assume i: "i < length (L @ [e]) \<and> reads p ((L @ [e]) ! i) d"
  show "unat (wl_heartbeat d) = Suc i \<and> unat (wl_generation d) \<le> Suc i"
  proof (cases "i < length L")
    case True
    then show ?thesis using assms(1) i by (simp add: numbered_def nth_append)
  next
    case False
    then have "i = length L" using i by simp
    then show ?thesis using assms(2) i by simp
  qed
qed

lemma good_later: "good p res ofs t L \<Longrightarrow> t \<le> t' \<Longrightarrow> good p res ofs t' L"
  unfolding good_def by (meson order_trans)

lemma env_refl: "t \<le> t' \<Longrightarrow> env p res ofs me t L t' L"
  by (auto simp: env_def intro: good_later)

lemma env_trans: "env p res ofs me t L t1 L1 \<Longrightarrow> env p res ofs me t1 L1 t2 L2 \<Longrightarrow> env p res ofs me t L t2 L2"
  unfolding env_def by (elim conjE exE, intro conjI) (auto simp: ball_Un)

lemma env_good: "env p res ofs me t L t' L' \<Longrightarrow> good p res ofs t L \<Longrightarrow> good p res ofs t' L'"
  by (simp add: env_def)

lemma numbered_last:
  assumes "numbered p L" "L \<noteq> []" "reads p (last L) d"
  shows "unat (wl_heartbeat d) = length L" "unat (wl_generation d) \<le> length L"
  using assms(1)[unfolded numbered_def, rule_format, of "length L - 1" d] assms(2,3) by (simp_all add: last_conv_nth)

text \<open>The write that a process adds to a good history.\<close>

lemma good_snoc:
  assumes good: "good p res ofs t L" and e: "reads p e d" "t \<le> le_time e" "stamped res ofs e" "le_version e \<notin> le_version ` set L"
    and num: "unat (wl_heartbeat d) = Suc (length L)" "unat (wl_generation d) \<le> Suc (length L)"
    and fol: "L \<noteq> [] \<Longrightarrow> follows p (last L) e"
  shows "good p res ofs (le_time e) (L @ [e])"
proof -
  have "lawful p (L @ [e])" using good e(1) fol by (auto simp: lawful_snoc good_def)
  moreover have "numbered p (L @ [e])" using good num reads_unique[OF e(1)] by (intro numbered_snoc) (auto simp: good_def)
  moreover have "\<forall>x \<in> set (L @ [e]). le_time x \<le> le_time e \<and> stamped res ofs x"
    using good e(2,3) by (auto simp: good_def intro: order_trans)
  ultimately show ?thesis using good e(4) by (auto simp: good_def)
qed

text \<open>A version names one write.\<close>

lemma version_unchanged:
  assumes "distinct (map le_version (L @ xs))" "L \<noteq> []" "le_version (last (L @ xs)) = le_version (last L)"
  shows "xs = []"
proof (rule ccontr)
  assume "xs \<noteq> []"
  then have "le_version (last xs) \<in> le_version ` set L" using assms(2,3) by (metis image_eqI last_appendR last_in_set)
  moreover have "le_version (last xs) \<in> le_version ` set xs" using \<open>xs \<noteq> []\<close> by simp
  ultimately show False using assms(1) by auto
qed

subsection \<open>The world\<close>

definition held_version :: "'ver lease_entry list \<Rightarrow> 'ver option" where
  "held_version L = (if L = [] then None else Some (le_version (last L)))"

locale lease_world =
  fixes ops :: "('w, 'ver) lease_ops"
    and clock :: "'w \<Rightarrow> instant"
    and log :: "'w \<Rightarrow> 'ver lease_entry list"
    and p pc :: string
    and me node :: string
    and res lat :: nat
    and ofs :: int
  assumes now_law: "lo_now ops wn = (t, wn') \<Longrightarrow> t = clock wn' \<and> env p res ofs me (clock wn) (log wn) (clock wn') (log wn')"
    and get_law: "lo_get ops qg wg = (rg, wg') \<Longrightarrow> env p res ofs me (clock wg) (log wg) (clock wg') (log wg')
      \<and> (qg = p \<longrightarrow> (\<forall>ver lm v. rg = Inr (ver, lm, Inr v) \<longrightarrow> log wg' \<noteq> []
            \<and> ver = le_version (last (log wg')) \<and> lm = le_modified (last (log wg')) \<and> v = le_payload (last (log wg')))
        \<and> (\<forall>err. rg = Inl (ObjNotFound err) \<longrightarrow> log wg' = []))"
    and put_law: "lo_put ops p v mode wu = (rp, wu') \<Longrightarrow>
      (\<forall>err. rp \<noteq> Inl (ObjNotImplemented err)) \<and>
      (rp \<noteq> Inr () \<and> env p res ofs me (clock wu) (log wu) (clock wu') (log wu') \<or>
       (\<exists>t1 L1 e. env p res ofs me (clock wu) (log wu) t1 L1 \<and> admits mode (held_version L1) \<and> Suc (length L1) < 2 ^ 64
          \<and> le_payload e = v \<and> t1 \<le> le_time e \<and> stamped res ofs e \<and> le_version e \<notin> le_version ` set L1
          \<and> env p res ofs me (le_time e) (L1 @ [e]) (clock wu') (log wu')))"
    and put_other: "lo_put ops qo vo modeo wo = (ro, wo') \<Longrightarrow> qo \<noteq> p \<Longrightarrow>
      env p res ofs me (clock wo) (log wo) (clock wo') (log wo') \<and> (qo = pc \<longrightarrow> clock wo' \<le> clock wo + lat)"
    and delete_other: "lo_delete ops qd wd = (rd, wd') \<Longrightarrow> qd \<noteq> p \<Longrightarrow> env p res ofs me (clock wd) (log wd) (clock wd') (log wd')"
    and head_law: "lo_head ops pc wh = (rh, wh') \<Longrightarrow> env p res ofs me (clock wh) (log wh) (clock wh') (log wh')
      \<and> clock wh' \<le> clock wh + lat \<and> (\<forall>lm. rh = Inr lm \<longrightarrow> lm * 1000000 \<le> int (clock wh') + ofs)"
    and clock_path: "pc \<noteq> p"
    and guard: "2 * lat + res + 1000000 \<le> SERVER_TIMESTAMP_RESOLUTION_GUARD"
begin

abbreviation envs :: "'w \<Rightarrow> 'w \<Rightarrow> bool" where
  "envs w w' \<equiv> env p res ofs me (clock w) (log w) (clock w') (log w')"

abbreviation history :: "'w lease_state \<Rightarrow> 'ver lease_entry list" where
  "history s \<equiv> log (ld_world s)"

abbreviation time :: "'w lease_state \<Rightarrow> instant" where
  "time s \<equiv> clock (ld_world s)"

subsection \<open>The invariant of a directory\<close>

text \<open>What the directory remembers of the lease object describes a write, and its estimate is not early.\<close>

definition known :: "'ver lease_entry list \<Rightarrow> observed_writer_lease \<Rightarrow> bool" where
  "known L ob \<longleftrightarrow> (\<exists>e d. e \<in> set L \<and> reads p e d
     \<and> ow_fingerprint ob = (wl_node_id d, wl_holder_id d, wl_generation d, wl_heartbeat d, wl_duration_ms d, wl_released d)
     \<and> (wl_released d \<or> wl_holder_id d = me \<or> expiry e d + 1000000 \<le> ow_observed_at ob + ow_remaining_at_observation ob))"

definition own_writes :: "nat \<Rightarrow> 'ver lease_entry list \<Rightarrow> bool" where
  "own_writes n L \<longleftrightarrow> (\<forall>e \<in> set L. \<forall>d. reads p e d \<and> wl_holder_id d = me \<longrightarrow> wl_node_id d = node \<and> unat (wl_duration_ms d) = n)"

definition configured :: "nat \<Rightarrow> 'w lease_state \<Rightarrow> bool" where
  "configured n s \<longleftrightarrow> ld_holder_id s = me \<and> lo_path ops (ld_base_path s @ ''/_coordination/v1/server-clock'') = pc
     \<and> ld_lease_duration s = from_millis n \<and> 0 < n"

definition keyed_leases :: "'w lease_state \<Rightarrow> (string, local_writer_lease) btmap \<Rightarrow> bool" where
  "keyed_leases s m \<longleftrightarrow> bt_ok m \<and> (\<forall>q l. bt_get m q = Some l \<longrightarrow> lease_path ops s (ll_scope l) (ll_cell_id l) = q)"

definition lease_inv :: "nat \<Rightarrow> 'w lease_state \<Rightarrow> bool" where
  "lease_inv n s \<longleftrightarrow> good p res ofs (time s) (history s) \<and> configured n s \<and> own_writes n (history s)
     \<and> bt_ok (ld_observed s) \<and> (\<forall>ob. bt_get (ld_observed s) p = Some ob \<longrightarrow> known (history s) ob \<and> ow_observed_at ob \<le> time s)
     \<and> keyed_leases s (ld_local s) \<and> keyed_leases s (ld_abandoned s)
     \<and> (bt_get (ld_local s) p = None \<or> bt_get (ld_abandoned s) p = None)
     \<and> (\<forall>l. bt_get (ld_local s) p = Some l \<longrightarrow> ll_node_id l = node \<and> backed p me (history s) l)"

lemma known_append: "known L ob \<Longrightarrow> known (L @ xs) ob"
  unfolding known_def set_append by blast

lemma backed_env: "backed p me L l \<Longrightarrow> env p res ofs me t L t' L' \<Longrightarrow> backed p me L' l"
  unfolding env_def by (elim conjE exE, simp only:, rule backed_append) auto

lemma own_writes_env: "own_writes n L \<Longrightarrow> env p res ofs me t L t' L' \<Longrightarrow> own_writes n L'"
  unfolding env_def own_writes_def by (elim conjE exE) auto

lemma keyed_world [simp]: "keyed_leases (s\<lparr>ld_world := w\<rparr>) m = keyed_leases s m"
  by (simp add: keyed_leases_def lease_path_def)

lemma configured_world [simp]: "configured n (s\<lparr>ld_world := w\<rparr>) = configured n s"
  by (simp add: configured_def)

lemma inv_env:
  assumes "lease_inv n s" "envs (ld_world s) w'"
  shows "lease_inv n (s\<lparr>ld_world := w'\<rparr>)"
proof -
  have "good p res ofs (clock w') (log w')" using assms by (auto simp: lease_inv_def intro: env_good)
  moreover have "own_writes n (log w')" using assms own_writes_env by (auto simp: lease_inv_def)
  moreover have "\<exists>xs. log w' = history s @ xs" "time s \<le> clock w'" using assms(2) by (auto simp: env_def)
  ultimately show ?thesis using assms backed_env known_append by (auto simp: lease_inv_def intro: order_trans)
qed

subsection \<open>Programs that keep the invariant\<close>

text \<open>The program keeps the invariant on both outcomes, and establishes a fact when it succeeds.\<close>

definition safe :: "nat \<Rightarrow> ('w lease_state, 'a) prog \<Rightarrow> 'w lease_state \<Rightarrow> ('a \<Rightarrow> 'w lease_state \<Rightarrow> bool) \<Rightarrow> bool" where
  "safe n m s Q \<longleftrightarrow> (\<forall>r s'. m s = (r, s') \<longrightarrow> lease_inv n s' \<and> (\<forall>x. r = Inr x \<longrightarrow> Q x s'))"

lemma safe_bind:
  assumes "safe n m s R" "\<And>x s'. lease_inv n s' \<Longrightarrow> R x s' \<Longrightarrow> safe n (f x) s' Q"
  shows "safe n (pbind m f) s Q"
proof -
  obtain r s1 where m: "m s = (r, s1)" by fastforce
  then have inv: "lease_inv n s1" and R: "\<And>x. r = Inr x \<Longrightarrow> R x s1" using assms(1) by (auto simp: safe_def)
  show ?thesis
  proof (cases r)
    case (Inl e)
    then show ?thesis using m inv by (simp add: safe_def pbind_def)
  next
    case (Inr x)
    then show ?thesis using m assms(2)[OF inv R[OF Inr]] by (simp add: safe_def pbind_def)
  qed
qed

lemma safe_return: "lease_inv n s \<Longrightarrow> Q x s \<Longrightarrow> safe n (preturn x) s Q"
  by (simp add: safe_def preturn_def)

lemma safe_fail: "lease_inv n s \<Longrightarrow> safe n (pfail e) s Q"
  by (simp add: safe_def pfail_def)

lemma safe_lift: "lease_inv n s \<Longrightarrow> (\<And>x. r = Inr x \<Longrightarrow> Q x s) \<Longrightarrow> safe n (plift r) s Q"
  by (simp add: safe_def plift_def)

lemma safe_reads: "lease_inv n s \<Longrightarrow> Q (f s) s \<Longrightarrow> safe n (preads f) s Q"
  by (simp add: safe_def preads_def)

lemma safe_modify: "lease_inv n (f s) \<Longrightarrow> Q () (f s) \<Longrightarrow> safe n (pmodify f) s Q"
  by (simp add: safe_def pmodify_def)

lemma safe_lift_bind: "lease_inv n s \<Longrightarrow> (\<And>x. r = Inr x \<Longrightarrow> safe n (f x) s Q) \<Longrightarrow> safe n (pbind (plift r) f) s Q"
  by (cases r) (simp_all add: safe_def pbind_def plift_def)

lemma safe_reads_bind: "safe n (f (g s)) s Q \<Longrightarrow> safe n (pbind (preads g) f) s Q"
  by (simp add: safe_def pbind_def preads_def)

lemma safe_modify_bind: "safe n (f ()) (g s) Q \<Longrightarrow> safe n (pbind (pmodify g) f) s Q"
  by (simp add: safe_def pbind_def pmodify_def)

lemma safe_if: "(b \<Longrightarrow> safe n a s Q) \<Longrightarrow> (\<not> b \<Longrightarrow> safe n c s Q) \<Longrightarrow> safe n (pif b a c) s Q"
  by (simp add: pif_def)

lemma safe_try: "safe n m s (\<lambda>_ _. True) \<Longrightarrow> safe n (ptry m) s (\<lambda>_ _. True)"
  by (auto simp: safe_def ptry_def split: prod.splits)

lemma safe_weaken: "safe n m s R \<Longrightarrow> (\<And>x s'. R x s' \<Longrightarrow> Q x s') \<Longrightarrow> safe n m s Q"
  unfolding safe_def by blast

lemma safe_world:
  assumes "lease_inv n s" "\<And>r w'. f (ld_world s) = (r, w') \<Longrightarrow> envs (ld_world s) w' \<and> Q r (s\<lparr>ld_world := w'\<rparr>)"
  shows "safe n (in_world f) s Q"
  using assms(2) inv_env[OF assms(1)] by (auto simp: safe_def in_world_def split: prod.splits)

text \<open>Only the world changes, as the environment may change it.\<close>

definition moves :: "'w lease_state \<Rightarrow> 'w lease_state \<Rightarrow> bool" where
  "moves s s' \<longleftrightarrow> (\<exists>w'. s' = s\<lparr>ld_world := w'\<rparr> \<and> envs (ld_world s) w')"

lemma moves_trans: "moves s s1 \<Longrightarrow> moves s1 s2 \<Longrightarrow> moves s s2"
  unfolding moves_def using env_trans by fastforce

lemma movesI: "envs (ld_world s) w' \<Longrightarrow> moves s (s\<lparr>ld_world := w'\<rparr>)"
  unfolding moves_def by blast

text \<open>The leases of the directory stay, whatever happens to the rest.\<close>

definition quiet :: "'w lease_state \<Rightarrow> 'w lease_state \<Rightarrow> bool" where
  "quiet s s' \<longleftrightarrow> ld_local s' = ld_local s \<and> ld_abandoned s' = ld_abandoned s \<and> ld_base_path s' = ld_base_path s
     \<and> envs (ld_world s) (ld_world s')"

lemma moves_quiet: "moves s s' \<Longrightarrow> quiet s s'"
  by (auto simp: moves_def quiet_def)

lemma quiet_trans: "quiet s s1 \<Longrightarrow> quiet s1 s2 \<Longrightarrow> quiet s s2"
  unfolding quiet_def using env_trans by auto

lemma quiet_refl [simp]: "quiet s s"
  by (simp add: quiet_def env_refl)

lemma quiet_time: "quiet s s' \<Longrightarrow> time s \<le> time s'"
  by (simp add: quiet_def env_def)

lemma quiet_history: "quiet s s' \<Longrightarrow> \<exists>xs. history s' = history s @ xs"
  by (auto simp: quiet_def env_def)

lemma quiet_member: "quiet s s' \<Longrightarrow> e \<in> set (history s) \<Longrightarrow> e \<in> set (history s')"
  using quiet_history by fastforce

lemma safe_now: "lease_inv n s \<Longrightarrow> safe n (instant_now ops) s (\<lambda>t s'. moves s s' \<and> t = time s')"
  unfolding instant_now_def by (rule safe_world) (auto dest: now_law intro: movesI)

end

end
