(* ===== verification/Lease_Safety.thy ===== *)
theory Lease_Safety
  imports Lease_World
begin

text \<open>
  The operations of a directory of writer leases keep its invariant, whatever the other processes do within the rules: its
  estimates of the other processes' leases are not early, its own writes are lawful, and the leases it holds are backed.
\<close>

context lease_world
begin

subsection \<open>Reading a lease\<close>

definition stored_of :: "'ver lease_entry \<Rightarrow> decoded_writer_lease \<Rightarrow> 'ver stored_writer_lease" where
  "stored_of e d = \<lparr>sw_node_id = wl_node_id d, sw_holder_id = wl_holder_id d, sw_generation = wl_generation d,
     sw_heartbeat = wl_heartbeat d, sw_duration = from_millis (unat (wl_duration_ms d)), sw_version = le_version e,
     sw_last_modified_ms = le_modified e, sw_released = wl_released d\<rparr>"

text \<open>What a process has read is the last write at that moment.\<close>

definition read_as :: "string \<Rightarrow> 'ver lease_entry list \<Rightarrow> 'ver stored_writer_lease option \<Rightarrow> bool" where
  "read_as q L current \<longleftrightarrow> q \<noteq> p \<or> (case current of None \<Rightarrow> L = []
     | Some stored \<Rightarrow> L \<noteq> [] \<and> (\<exists>d. reads p (last L) d \<and> stored = stored_of (last L) d))"

lemma fingerprint_stored_of:
  "fingerprint_of (stored_of e d) = (wl_node_id d, wl_holder_id d, wl_generation d, wl_heartbeat d, wl_duration_ms d, wl_released d)"
proof -
  have "u64_or_max (unat (wl_duration_ms d)) = wl_duration_ms d"
    using unsigned_less[of "wl_duration_ms d", where ?'a = nat] by (simp add: u64_or_max_def)
  then show ?thesis by (simp add: fingerprint_of_def stored_of_def)
qed

lemma safe_read:
  assumes "lease_inv n s"
  shows "safe n (read_stored ops q) s (\<lambda>current s'. moves s s' \<and> read_as q (history s') current)"
  unfolding read_stored_def
proof (rule safe_bind[where R = "\<lambda>r s'. moves s s' \<and> (q = p \<longrightarrow>
      (\<forall>ver lm v. r = Inr (ver, lm, Inr v) \<longrightarrow> history s' \<noteq> [] \<and> ver = le_version (last (history s'))
         \<and> lm = le_modified (last (history s')) \<and> v = le_payload (last (history s')))
      \<and> (\<forall>err. r = Inl (ObjNotFound err) \<longrightarrow> history s' = []))"], goal_cases)
  case 1
  show ?case by (rule safe_world[OF assms]) (auto dest: get_law intro: movesI)
next
  case (2 r s1)
  note inv = 2(1) and R = 2(2)
  show ?case
  proof (cases r)
    case (Inl err)
    show ?thesis
    proof (cases err)
      case (ObjNotFound x)
      then show ?thesis using Inl inv R by (auto simp: read_as_def intro!: safe_return)
    qed (simp_all add: Inl safe_fail[OF inv])
  next
    case (Inr found)
    obtain ver lm body where f: "found = (ver, lm, body)" by (cases found) auto
    have at: "history s1 \<noteq> [] \<and> ver = le_version (last (history s1)) \<and> lm = le_modified (last (history s1)) \<and> v = le_payload (last (history s1))"
      if "object_result body = Inr v" "q = p" for v
      using R that Inr f by (cases body) (auto simp: object_result_def)
    show ?thesis unfolding Inr f sum.case prod.case
      by (intro safe_lift_bind safe_return inv) (use R at in \<open>auto simp: read_as_def reads_def stored_of_def\<close>)
  qed
qed

subsection \<open>What another process's lease has left\<close>

lemma bt_tl:
  assumes "bt_ok m"
  shows "bt_ok (tl m)" "bt_get (tl m) k = None \<or> bt_get (tl m) k = bt_get m k"
  using assms by (cases m; auto simp: bt_ok_Cons bt_get_def map_of_eq_None_iff)+

lemma inv_observe:
  assumes "lease_inv n s" "bt_ok m" "bt_get m p = None \<or> bt_get m p = bt_get (ld_observed s) p"
    and "q = p \<Longrightarrow> known (history s) ob \<and> ow_observed_at ob \<le> time s"
  shows "lease_inv n (s\<lparr>ld_observed := bt_insert q ob m\<rparr>)"
  using assms unfolding lease_inv_def keyed_leases_def configured_def lease_path_def by (auto simp: bt_get_insert)

lemma safe_probe:
  assumes "lease_inv n s"
  shows "safe n (probe_server_time ops) s (\<lambda>m s'. quiet s s' \<and> time s' \<le> time s + 2 * lat \<and> m * 1000000 \<le> int (time s') + ofs)"
proof -
  let ?s = "s\<lparr>ld_clock_probe := ld_clock_probe s + 1\<rparr>"
  have pc: "lo_path ops (ld_base_path s @ ''/_coordination/v1/server-clock'') = pc" using assms by (simp add: lease_inv_def configured_def)
  have inv: "lease_inv n ?s" using assms by (simp add: lease_inv_def keyed_leases_def configured_def lease_path_def)
  show ?thesis unfolding probe_server_time_def
    apply (rule safe_reads_bind)
    apply (simp only: prod.case pc)
    apply (rule safe_modify_bind)
    apply (rule safe_bind[where R = "\<lambda>_ s1. quiet s s1 \<and> time s1 \<le> time s + lat"])
    subgoal by (rule safe_world[OF inv]) (use put_other clock_path in \<open>fastforce simp: quiet_def\<close>)
    apply (rule safe_lift_bind, assumption)
    apply (rule safe_bind[where R = "\<lambda>r s1. quiet s s1 \<and> time s1 \<le> time s + 2 * lat \<and> (\<forall>m. r = Inr m \<longrightarrow> m * 1000000 \<le> int (time s1) + ofs)"])
    subgoal for u s1 x
      by (erule safe_world) (use head_law env_trans in \<open>fastforce simp: quiet_def\<close>)
    apply (rule safe_lift, assumption)
    apply (auto simp: object_result_def split: sum.splits)
    done
qed

lemma estimate_late:
  assumes "lease_inv n s" "e \<in> set (history s)" "reads p e d" "t \<le> time s" "t' \<le> t + 2 * lat" "le_time e \<le> t" "m * 1000000 \<le> int t' + ofs"
  shows "expiry e d + 1000000 \<le> t + (from_millis (unat (wl_duration_ms d)) + SERVER_TIMESTAMP_RESOLUTION_GUARD
    - from_millis (nat (min (m - le_modified e) (2 ^ 63 - 1))))"
proof -
  have st: "int (le_time e) + ofs - int res \<le> le_modified e * 1000000" using assms(1,2) by (auto simp: lease_inv_def good_def stamped_def)
  have "int (from_millis (nat (min (m - le_modified e) (2 ^ 63 - 1)))) \<le> max 0 (int t' - int (le_time e) + int res)"
    using st assms(7) by (simp add: from_millis_def min_def max_def)
  moreover have "int t' \<le> int t + 2 * int lat" using assms(5) by linarith
  moreover have "2 * int lat + int res + 1000000 \<le> int SERVER_TIMESTAMP_RESOLUTION_GUARD" using guard by linarith
  moreover have "int (le_time e) \<le> int t" using assms(6) by simp
  ultimately show ?thesis unfolding expiry_def by linarith
qed

lemma u64_or_max_0: "u64_or_max k = 0 \<longleftrightarrow> k = 0"
proof (cases "k < 2 ^ 64")
  case True
  then have "unat (u64_or_max k) = k" by (simp add: u64_or_max_def unsigned_of_nat take_bit_nat_eq_self)
  then show ?thesis by (metis unat_eq_zero unsigned_0)
next
  case False
  then have "k \<noteq> 0" by (intro notI) simp
  then show ?thesis using False by (simp add: u64_or_max_def)
qed

lemma expired_by_now: "as_millis (remaining - (t - seen_at)) = 0 \<Longrightarrow> x + 1000000 \<le> seen_at + remaining \<Longrightarrow> seen_at \<le> t \<Longrightarrow> x \<le> t"
  by (auto simp: as_millis_def div_eq_0_iff)

lemma safe_remaining:
  assumes inv: "lease_inv n s" and e: "q = p \<Longrightarrow> e \<in> set (history s) \<and> reads p e d \<and> stored = stored_of e d \<and> \<not> wl_released d"
  shows "safe n (shared_remaining_ms ops q stored) s
    (\<lambda>ms s'. quiet s s' \<and> (q = p \<and> ms = 0 \<longrightarrow> wl_holder_id d = me \<or> expiry e d \<le> time s'))"
  unfolding shared_remaining_ms_def
proof (rule safe_bind[OF safe_now[OF inv]], rule safe_reads_bind, goal_cases)
  case (1 t s1)
  note inv1 = 1(1)
  have q1: "quiet s s1" and t: "t = time s1" using 1(2) moves_quiet by auto
  have e1: "e \<in> set (history s1)" "reads p e d" "stored = stored_of e d" "\<not> wl_released d" if "q = p" using e[OF that] quiet_member[OF q1] by auto
  show ?case
  proof (cases "\<exists>ob. bt_get (ld_observed s1) q = Some ob \<and> ow_fingerprint ob = fingerprint_of stored")
    case True
    then obtain ob where ob: "bt_get (ld_observed s1) q = Some ob" "ow_fingerprint ob = fingerprint_of stored" by blast
    have "wl_holder_id d = me \<or> expiry e d \<le> t" if "q = p" "remaining_after_elapsed ob t = 0"
    proof -
      have k: "known (history s1) ob" "ow_observed_at ob \<le> t" using inv1 ob(1) that(1) t by (auto simp: lease_inv_def)
      then obtain e' d' where e': "e' \<in> set (history s1)" "reads p e' d'"
        "ow_fingerprint ob = (wl_node_id d', wl_holder_id d', wl_generation d', wl_heartbeat d', wl_duration_ms d', wl_released d')"
        "wl_released d' \<or> wl_holder_id d' = me \<or> expiry e' d' + 1000000 \<le> ow_observed_at ob + ow_remaining_at_observation ob"
        unfolding known_def by blast
      have hb: "wl_heartbeat d' = wl_heartbeat d" using ob(2) e1(3)[OF that(1)] e'(3) fingerprint_stored_of by auto
      have "lawful p (history s1)" using inv1 by (simp add: lease_inv_def good_def)
      from lawful_heartbeat_unique[OF this e1(1)[OF that(1)] e'(1) e1(2)[OF that(1)] e'(2)] hb have ee: "e' = e" by simp
      then have "d' = d" using reads_unique[OF e1(2)[OF that(1)]] e'(2) by blast
      moreover have "as_millis (ow_remaining_at_observation ob - (t - ow_observed_at ob)) = 0"
        using that(2) unfolding remaining_after_elapsed_def u64_or_max_0 .
      ultimately show ?thesis using e'(4) e1(4)[OF that(1)] ee expired_by_now k(2) by blast
    qed
    then show ?thesis using ob inv1 q1 t by (simp add: safe_return)
  next
    case False
    have miss: "(case bt_get (ld_observed s1) q of None \<Rightarrow> None | Some entry \<Rightarrow>
        if ow_fingerprint entry = fingerprint_of stored then Some entry else None) = None"
      using False by (auto split: option.splits)
    show ?thesis unfolding miss option.case
    proof (rule safe_bind[OF safe_probe[OF inv1]], goal_cases)
      case (1 m s2)
      let ?age = "from_millis (nat (min (m - sw_last_modified_ms stored) (2 ^ 63 - 1)))"
      let ?rem = "sw_duration stored + SERVER_TIMESTAMP_RESOLUTION_GUARD - ?age"
      let ?ob = "\<lparr>ow_fingerprint = fingerprint_of stored, ow_observed_at = t, ow_remaining_at_observation = ?rem\<rparr>"
      have q2: "quiet s s2" "quiet s1 s2" using 1(2) q1 quiet_trans by blast+
      have late: "expiry e d + 1000000 \<le> t + ?rem" if "q = p"
        using estimate_late[OF inv1 e1(1,2)[OF that], of t "time s2" m] t 1(2) inv1 e1(1,3)[OF that]
        by (auto simp: stored_of_def lease_inv_def good_def)
      have kn: "known (history s2) ?ob \<and> ow_observed_at ?ob \<le> time s2" if "q = p"
        using late[OF that] e1[OF that] quiet_member[OF q2(2)] t quiet_time[OF q2(2)] fingerprint_stored_of
        by (auto simp: known_def)
      let ?m = "if MAX_OBSERVED_WRITER_LEASES \<le> length (ld_observed s2) \<and> bt_get (ld_observed s2) q = None then tl (ld_observed s2) else ld_observed s2"
      let ?s3 = "s2\<lparr>ld_observed := bt_insert q ?ob ?m\<rparr>"
      have "bt_ok (ld_observed s2)" using 1(1) by (simp add: lease_inv_def)
      from bt_tl[OF this] this have m: "bt_ok ?m" "bt_get ?m p = None \<or> bt_get ?m p = bt_get (ld_observed s2) p" by auto
      have inv3: "lease_inv n ?s3" using inv_observe[OF 1(1) m kn] .
      have q3: "quiet s ?s3" using q2(1) by (simp add: quiet_def)
      have gone: "wl_holder_id d = me \<or> expiry e d \<le> time ?s3" if "q = p" "u64_or_max (as_millis ?rem) = 0"
        using expired_by_now[of ?rem t t "expiry e d"] late[OF that(1)] that(2) t quiet_time[OF q2(2)] by (simp add: u64_or_max_0)
      show ?case unfolding Let_def remember_observed_def
        by (rule safe_modify_bind, rule safe_return[OF inv3[unfolded Let_def]]) (use q3 gone in auto)
    qed
  qed
qed

subsection \<open>Writing a lease\<close>

text \<open>What is known of a write of this process that was applied.\<close>

definition wrote :: "nat \<Rightarrow> decoded_writer_lease \<Rightarrow> instant \<Rightarrow> 'ver lease_entry list \<Rightarrow> bool" where
  "wrote n d t L \<longleftrightarrow> (\<exists>e \<in> set L. reads p e d) \<and> (\<not> wl_released d \<longrightarrow> (\<forall>l. ll_node_id l = node \<and> ll_generation l = wl_generation d
     \<and> ll_valid_until l \<le> t + from_millis n \<longrightarrow> backed p me L l))"

lemma wrote_env: "wrote n d t L \<Longrightarrow> env p res ofs me t1 L t2 L' \<Longrightarrow> wrote n d t L'"
  unfolding wrote_def using backed_env by (fastforce simp: env_def)

lemma owner_iff: "own_writes n L \<Longrightarrow> e \<in> set L \<Longrightarrow> reads p e d \<Longrightarrow> lease_owner d = (node, me) \<longleftrightarrow> wl_holder_id d = me"
  by (auto simp: own_writes_def lease_owner_def)

lemma own_follows:
  assumes good: "good p res ofs t L" and own: "own_writes n L" and L: "L \<noteq> []" "reads p (last L) d0"
    and e: "reads p e d'" "t \<le> le_time e" "lease_owner d' = (node, me)" "unat (wl_duration_ms d') = n" "unat (wl_heartbeat d') = Suc (length L)"
    and gen: "wl_generation d0 \<le> wl_generation d'" "lease_owner d0 \<noteq> (node, me) \<Longrightarrow> wl_generation d0 < wl_generation d'"
    and free: "wl_released d0 \<or> lease_owner d0 = (node, me) \<or> expiry (last L) d0 \<le> t"
    and rel: "wl_released d' \<Longrightarrow> lease_owner d0 = (node, me)"
  shows "follows p (last L) e"
proof -
  have mem: "last L \<in> set L" using L(1) by simp
  have time: "le_time (last L) \<le> le_time e" using good mem e(2) by (auto simp: good_def intro: order_trans)
  have "unat (wl_heartbeat d0) = length L" using numbered_last[OF _ L] good by (simp add: good_def)
  then have hb: "wl_heartbeat d0 < wl_heartbeat d'" using e(5) by (simp add: word_less_nat_alt)
  have dur: "wl_duration_ms d' = wl_duration_ms d0" if "lease_owner d' = lease_owner d0"
    using own mem L(2) that e(3,4) by (auto simp: own_writes_def lease_owner_def intro!: word_unat_eq_iff[THEN iffD2])
  have "follows_as (last L) d0 e d'"
    unfolding follows_as_def using time hb dur gen free rel e(2,3) by (auto intro: order_trans)
  then show ?thesis unfolding follows_def using L(2) e(1) by blast
qed

lemma safe_put:
  assumes inv: "lease_inv n s" and L0: "history s = L0 @ ys" "mode = (if L0 = [] then PutCreate else PutUpdate (le_version (last L0)))"
    and v: "decode_writer_lease p v = Inr d'" "lease_owner d' = (node, me)" "unat (wl_duration_ms d') = n"
    and num: "Suc (length L0) < 2 ^ 64 \<Longrightarrow> unat (wl_heartbeat d') = Suc (length L0) \<and> unat (wl_generation d') \<le> Suc (length L0)"
    and prev: "L0 \<noteq> [] \<Longrightarrow> reads p (last L0) d0 \<and> (wl_released d0 \<or> lease_owner d0 = (node, me) \<or> expiry (last L0) d0 \<le> time s)"
    and gen: "L0 \<noteq> [] \<Longrightarrow> Suc (length L0) < 2 ^ 64 \<Longrightarrow>
       wl_generation d0 \<le> wl_generation d' \<and> (lease_owner d0 \<noteq> (node, me) \<longrightarrow> wl_generation d0 < wl_generation d')"
    and rel: "wl_released d' \<Longrightarrow> L0 \<noteq> [] \<and> lease_owner d0 = (node, me) \<and> bt_get (ld_local s) p = None"
  shows "safe n (in_world (lo_put ops p v mode)) s (\<lambda>r s'. (\<exists>w'. s' = s\<lparr>ld_world := w'\<rparr> \<and> time s \<le> clock w')
     \<and> (\<forall>err. r \<noteq> Inl (ObjNotImplemented err)) \<and> (r = Inr () \<longrightarrow> wrote n d' (time s) (history s')))"
proof -
  obtain r w' where put: "lo_put ops p v mode (ld_world s) = (r, w')" by fastforce
  let ?s' = "s\<lparr>ld_world := w'\<rparr>"
  have noimpl: "\<forall>err. r \<noteq> Inl (ObjNotImplemented err)" using put_law[OF put] by blast
  have G: "good p res ofs (time s) (history s)" and own: "own_writes n (history s)" using inv by (simp_all add: lease_inv_def)
  have "lease_inv n ?s' \<and> time s \<le> clock w' \<and> (r = Inr () \<longrightarrow> wrote n d' (time s) (log w'))"
  proof (cases "r \<noteq> Inr () \<and> envs (ld_world s) w'")
    case True
    then show ?thesis using inv_env[OF inv] by (auto simp: env_def)
  next
    case False
    then obtain t1 L1 e where e: "env p res ofs me (time s) (history s) t1 L1" "admits mode (held_version L1)" "Suc (length L1) < 2 ^ 64"
      "le_payload e = v" "t1 \<le> le_time e" "stamped res ofs e" "le_version e \<notin> le_version ` set L1"
      "env p res ofs me (le_time e) (L1 @ [e]) (clock w') (log w')"
      using put_law[OF put] by blast
    have G1: "good p res ofs t1 L1" and own1: "own_writes n L1" using e(1) G own env_good own_writes_env by blast+
    obtain xs where "L1 = history s @ xs" and t1: "time s \<le> t1" using e(1) by (auto simp: env_def)
    then have L1: "L1 = L0 @ ys @ xs" using L0(1) by simp
    have zs: "ys @ xs = []"
    proof (cases "L0 = []")
      case True
      then show ?thesis using e(2) L0(2) L1 by (auto simp: held_version_def split: if_splits)
    next
      case False
      have "distinct (map le_version (L0 @ ys @ xs))" using G1 L1 by (simp add: good_def)
      moreover have "le_version (last (L0 @ ys @ xs)) = le_version (last L0)"
        using e(2) L0(2) False unfolding L1 held_version_def by simp
      ultimately show ?thesis using version_unchanged False by blast
    qed
    have L10: "L1 = L0" "L0 = history s" using zs L1 L0(1) by auto
    have rd: "reads p e d'" using v(1) e(4) by (simp add: reads_def)
    have n1: "unat (wl_heartbeat d') = Suc (length L1)" "unat (wl_generation d') \<le> Suc (length L1)" using num e(3) L10 by auto
    have fol: "follows p (last L1) e" if "L1 \<noteq> []"
      by (rule own_follows[OF G1 own1 that _ rd e(5) v(2,3) n1(1)]) (use prev gen rel that e(3) t1 L10 in auto)
    have G2: "good p res ofs (le_time e) (L1 @ [e])"
      by (rule good_snoc[OF G1 rd e(5,6,7) n1 fol])
    have G3: "good p res ofs (clock w') (log w')" using env_good[OF e(8) G2] .
    have own3: "own_writes n (log w')"
    proof (rule own_writes_env[OF _ e(8)], unfold own_writes_def, intro ballI allI impI)
      fix x d assume x: "x \<in> set (L1 @ [e])" "reads p x d \<and> wl_holder_id d = me"
      show "wl_node_id d = node \<and> unat (wl_duration_ms d) = n"
      proof (cases "x = e")
        case True
        then show ?thesis using x(2) reads_unique[OF rd] v(2,3) by (auto simp: lease_owner_def)
      next
        case False
        then show ?thesis using x own1 by (simp add: own_writes_def)
      qed
    qed
    obtain zs' where log': "log w' = (history s @ [e]) @ zs'" using e(8) L10 by (auto simp: env_def)
    have tm: "time s \<le> clock w'" using t1 e(5,8) by (auto simp: env_def)
    have hold: "backed p me (log w') l" if "bt_get (ld_local s) p = Some l" for l
    proof (rule backed_env[OF _ e(8)], rule backed_append)
      show "backed p me L1 l" using inv that L10 by (simp add: lease_inv_def)
      fix x d assume "x \<in> set [e]" "reads p x d"
      then have "d = d'" using reads_unique[OF rd] by simp
      then show "\<not> wl_released d" using rel that by auto
    qed
    have "lease_inv n ?s'"
      using inv G3 own3 tm hold known_append[of "history s" _ "[e] @ zs'"] order_trans[OF _ tm] by (simp add: lease_inv_def log')
    moreover have "wrote n d' (time s) (log w')"
    proof (rule wrote_env[OF _ e(8)], unfold wrote_def, intro conjI impI allI)
      show "\<exists>x \<in> set (L1 @ [e]). reads p x d'" using rd by auto
      fix l :: local_writer_lease assume "\<not> wl_released d'" "ll_node_id l = node \<and> ll_generation l = wl_generation d' \<and> ll_valid_until l \<le> time s + from_millis n"
      then show "backed p me (L1 @ [e]) l"
        using rd v(2,3) t1 e(5) by (intro backed_last[where d = d']) (auto simp: expiry_def)
    qed
    ultimately show ?thesis using tm by blast
  qed
  then show ?thesis using put noimpl by (auto simp: safe_def in_world_def)
qed

subsection \<open>Acquiring and renewing\<close>

lemma inv_forget:
  assumes "lease_inv n s"
  shows "lease_inv n (s\<lparr>ld_local := bt_remove q (ld_local s)\<rparr>)" "lease_inv n (s\<lparr>ld_abandoned := bt_remove q (ld_abandoned s)\<rparr>)"
  using assms unfolding lease_inv_def keyed_leases_def configured_def lease_path_def by (auto simp: bt_get_remove)

lemma inv_keep:
  assumes "lease_inv n s" "lease_path ops s (ll_scope l) (ll_cell_id l) = q" "q = p \<Longrightarrow> ll_node_id l = node \<and> backed p me (history s) l"
  shows "lease_inv n (s\<lparr>ld_abandoned := bt_remove q (ld_abandoned s), ld_local := bt_insert q l (ld_local s)\<rparr>)"
  using assms unfolding lease_inv_def keyed_leases_def configured_def lease_path_def
  by (auto simp: bt_get_remove bt_get_insert)

lemma safe_check:
  assumes inv: "lease_inv n s" and L: "read_as q L current" "history s = L @ ys"
  shows "safe n (check_lease_free ops q cell node me current) s (\<lambda>_ s'. quiet s s' \<and> (q = p \<and> current \<noteq> None \<longrightarrow>
     (\<forall>d. reads p (last L) d \<longrightarrow> wl_released d \<or> lease_owner d = (node, me) \<or> expiry (last L) d \<le> time s')))"
proof (cases current)
  case None
  then show ?thesis using inv by (simp add: check_lease_free_def safe_return)
next
  case (Some stored)
  obtain d where d: "reads p (last L) d" "stored = stored_of (last L) d" "last L \<in> set (history s)" if "q = p"
    using L Some by (cases "q = p") (auto simp: read_as_def)
  have un: "d' = d" if "q = p" "reads p (last L) d'" for d' using reads_unique[OF d(1)[OF that(1)] that(2)] .
  have own: "own_writes n (history s)" using inv by (simp add: lease_inv_def)
  show ?thesis
  proof (cases "sw_released stored")
    case True
    then have "wl_released d" if "q = p" using d(2)[OF that] by (simp add: stored_of_def)
    then show ?thesis using inv True Some un by (auto simp: check_lease_free_def pif_def intro!: safe_return)
  next
    case False
    have e: "last L \<in> set (history s) \<and> reads p (last L) d \<and> stored = stored_of (last L) d \<and> \<not> wl_released d" if "q = p"
      using d[OF that] False by (auto simp: stored_of_def)
    have "safe n (pbind (shared_remaining_ms ops q stored) (\<lambda>remaining_ms.
        pif (0 < remaining_ms \<and> \<not> (sw_node_id stored = node \<and> sw_holder_id stored = me))
          (pbind (forget_local q) (\<lambda>_. pbind (forget_abandoned q) (\<lambda>_. not_cell_writer cell (Some (sw_node_id stored)))))
          (preturn ()))) s (\<lambda>_ s'. quiet s s' \<and> (q = p \<longrightarrow> lease_owner d = (node, me) \<or> expiry (last L) d \<le> time s'))"
    proof (rule safe_bind[OF safe_remaining[OF inv e]], assumption, rule safe_if, goal_cases)
      case (1 ms s1)
      show ?case unfolding forget_local_def forget_abandoned_def not_cell_writer_def
        by (intro safe_modify_bind safe_fail inv_forget 1(1))
    next
      case (2 ms s1)
      have "lease_owner d = (node, me) \<or> expiry (last L) d \<le> time s1" if "q = p"
      proof (cases "ms = 0")
        case True
        then show ?thesis using 2(2) that owner_iff[OF own d(3,1)[OF that]] by auto
      next
        case False
        then have "0 < ms" using word_neq_0_conv by blast
        then show ?thesis using 2(3) d(2)[OF that] by (auto simp: stored_of_def lease_owner_def)
      qed
      then show ?case using 2(1,2) by (intro safe_return) auto
    qed
    then show ?thesis unfolding check_lease_free_def Some option.case pif_def[of "sw_released stored"]
      using False un by (auto elim!: safe_weaken)
  qed
qed

text \<open>The next generation and heartbeat.\<close>

lemma next_lease:
  assumes num: "numbered p L" and cur: "read_as p L current"
  shows "next_generation (same_lease_holder node me current) current \<noteq> 0" "next_heartbeat current \<noteq> 0"
    and "Suc (length L) < 2 ^ 64 \<Longrightarrow> unat (next_heartbeat current) = Suc (length L)
       \<and> unat (next_generation (same_lease_holder node me current) current) \<le> Suc (length L)"
    and "L \<noteq> [] \<Longrightarrow> reads p (last L) d0 \<Longrightarrow> Suc (length L) < 2 ^ 64 \<Longrightarrow>
       wl_generation d0 \<le> next_generation (same_lease_holder node me current) current
       \<and> (lease_owner d0 \<noteq> (node, me) \<longrightarrow> wl_generation d0 < next_generation (same_lease_holder node me current) current)"
proof -
  let ?g = "next_generation (same_lease_holder node me current) current" and ?h = "next_heartbeat current"
  have sat: "saturating_add x 1 \<noteq> 0" for x
  proof
    assume "saturating_add x 1 = 0"
    then have "unat (saturating_add x 1) = 0" by simp
    then show False unfolding saturating_add_unat by (simp add: min_def split: if_splits)
  qed
  have "?g \<noteq> 0 \<and> ?h \<noteq> 0 \<and> (Suc (length L) < 2 ^ 64 \<longrightarrow> unat ?h = Suc (length L) \<and> unat ?g \<le> Suc (length L))
    \<and> (L \<noteq> [] \<and> reads p (last L) d0 \<and> Suc (length L) < 2 ^ 64 \<longrightarrow> wl_generation d0 \<le> ?g \<and> (lease_owner d0 \<noteq> (node, me) \<longrightarrow> wl_generation d0 < ?g))"
  proof (cases current)
    case None
    then show ?thesis using cur by (simp add: read_as_def next_generation_def next_heartbeat_def)
  next
    case (Some stored)
    then obtain d where L: "L \<noteq> []" and d: "reads p (last L) d" "stored = stored_of (last L) d" using cur by (auto simp: read_as_def)
    have valid: "wl_generation d \<noteq> 0" using d(1) decode_lease_valid by (auto simp: reads_def valid_lease_def)
    have n: "unat (wl_heartbeat d) = length L" "unat (wl_generation d) \<le> length L" using numbered_last[OF num L d(1)] by auto
    have g: "?g = (if \<not> wl_released d \<and> lease_owner d = (node, me) then wl_generation d else saturating_add (wl_generation d) 1)"
      and h: "?h = saturating_add (wl_heartbeat d) 1"
      using Some d(2) by (auto simp: next_generation_def next_heartbeat_def same_lease_holder_def stored_of_def lease_owner_def)
    have up: "unat (saturating_add x 1) = Suc (unat x)" if "Suc (length L) < 2 ^ 64" "unat x \<le> length L" for x
      using that unfolding saturating_add_unat by simp
    have d0: "d0 = d" if "reads p (last L) d0" using reads_unique[OF d(1) that] .
    show ?thesis
    proof (intro conjI impI)
      show "?g \<noteq> 0" "?h \<noteq> 0" unfolding g h using valid sat by auto
      assume room: "Suc (length L) < 2 ^ 64"
      show "unat ?h = Suc (length L)" unfolding h using up[OF room] n(1) by simp
      show "unat ?g \<le> Suc (length L)" unfolding g using up[OF room n(2)] n(2) by simp
    next
      assume a: "L \<noteq> [] \<and> reads p (last L) d0 \<and> Suc (length L) < 2 ^ 64"
      then have room: "Suc (length L) < 2 ^ 64" and eq: "d0 = d" using d0 by auto
      have lt: "wl_generation d < saturating_add (wl_generation d) 1" unfolding word_less_nat_alt using up[OF room n(2)] by simp
      show "wl_generation d0 \<le> ?g" unfolding g eq using lt by auto
      assume "lease_owner d0 \<noteq> (node, me)"
      then show "wl_generation d0 < ?g" unfolding g eq using lt by auto
    qed
  qed
  then show "?g \<noteq> 0" "?h \<noteq> 0" "Suc (length L) < 2 ^ 64 \<Longrightarrow> unat ?h = Suc (length L) \<and> unat ?g \<le> Suc (length L)"
    "L \<noteq> [] \<Longrightarrow> reads p (last L) d0 \<Longrightarrow> Suc (length L) < 2 ^ 64 \<Longrightarrow> wl_generation d0 \<le> ?g \<and> (lease_owner d0 \<noteq> (node, me) \<longrightarrow> wl_generation d0 < ?g)"
    by blast+
qed

text \<open>The conditional write, at the lease object or elsewhere.\<close>

lemma safe_other_put:
  assumes "lease_inv n s" "q \<noteq> p"
  shows "safe n (in_world (lo_put ops q v mode)) s (\<lambda>r s'. quiet s s')"
  by (rule safe_world[OF assms(1)]) (use put_other assms(2) in \<open>fastforce simp: quiet_def\<close>)

definition same_base :: "'w lease_state \<Rightarrow> 'w lease_state \<Rightarrow> bool" where
  "same_base s s' \<longleftrightarrow> ld_base_path s' = ld_base_path s \<and> ld_local s' = ld_local s \<and> time s \<le> time s'"

lemma quiet_same_base: "quiet s s' \<Longrightarrow> same_base s s'"
  using quiet_time by (auto simp: quiet_def same_base_def)

lemma safe_write_lease:
  assumes inv: "lease_inv n s" and L: "read_as q L current" "history s = L @ ys" "numbered p L"
    and free: "q = p \<and> current \<noteq> None \<Longrightarrow> reads p (last L) d0 \<and> (wl_released d0 \<or> lease_owner d0 = (node, me) \<or> expiry (last L) d0 \<le> time s)"
    and enc: "encode_writer_lease node me (next_generation (same_lease_holder node me current) current) (next_heartbeat current) (from_millis n) False = Inr v"
  shows "safe n (write_lease ops q v (same_lease_holder node me current) current) s (\<lambda>r s'. same_base s s' \<and> (q = p \<and> r = Inr () \<longrightarrow>
     wrote n \<lparr>wl_node_id = node, wl_holder_id = me, wl_generation = next_generation (same_lease_holder node me current) current,
       wl_heartbeat = next_heartbeat current, wl_duration_ms = word_of_nat n, wl_released = False\<rparr> (time s) (history s')))"
proof (cases "q = p")
  case False
  show ?thesis unfolding write_lease_def
  proof (rule safe_bind[OF safe_other_put[OF inv False]], goal_cases)
    case (1 r s1)
    have put: "safe n (in_world (lo_put ops q v PutOverwrite)) s1 (\<lambda>r s'. quiet s s')"
      by (rule safe_weaken[OF safe_other_put[OF 1(1) False]]) (use 1(2) quiet_trans in blast)
    have ret: "safe n (preturn r) s1 (\<lambda>r s'. quiet s s')" by (rule safe_return[OF 1(1)]) (rule 1(2))
    have "safe n (case r of Inl (ObjNotImplemented e) \<Rightarrow> pif (same_lease_holder node me current) (in_world (lo_put ops q v PutOverwrite)) (preturn r)
        | _ \<Rightarrow> preturn r) s1 (\<lambda>r s'. quiet s s')"
      using put ret by (auto split: sum.split object_error.split intro: safe_if)
    then show ?case by (rule safe_weaken) (use False quiet_same_base in auto)
  qed
next
  case True
  let ?g = "next_generation (same_lease_holder node me current) current" and ?h = "next_heartbeat current"
  let ?d = "\<lparr>wl_node_id = node, wl_holder_id = me, wl_generation = ?g, wl_heartbeat = ?h, wl_duration_ms = word_of_nat n, wl_released = False\<rparr>"
  note nx = next_lease[OF L(3) L(1)[unfolded True]]
  have n: "0 < n" using inv by (simp add: lease_inv_def configured_def)
  have n64: "n < 2 ^ 64" using enc by (auto simp: encode_writer_lease_def rbind_Inr_iff split: if_splits)
  have dec: "decode_writer_lease p v = Inr ?d" using decode_encode_lease[OF enc nx(1,2)] n by simp
  have ms: "unat (wl_duration_ms ?d) = n" using n64 by (simp add: unsigned_of_nat take_bit_nat_eq_self)
  have mode: "(case current of None \<Rightarrow> PutCreate | Some stored \<Rightarrow> PutUpdate (sw_version stored)) = (if L = [] then PutCreate else PutUpdate (le_version (last L)))"
    and some: "current \<noteq> None \<longleftrightarrow> L \<noteq> []"
    using L(1) True by (auto simp: read_as_def stored_of_def split: option.splits)
  have put: "safe n (in_world (lo_put ops p v (if L = [] then PutCreate else PutUpdate (le_version (last L))))) s
     (\<lambda>r s'. (\<exists>w'. s' = s\<lparr>ld_world := w'\<rparr> \<and> time s \<le> clock w') \<and> (\<forall>err. r \<noteq> Inl (ObjNotImplemented err)) \<and> (r = Inr () \<longrightarrow> wrote n ?d (time s) (history s')))"
    by (rule safe_put[OF inv L(2) refl dec _ ms, where ?d0.0 = d0]) (use nx free some True in \<open>auto simp: lease_owner_def\<close>)
  show ?thesis unfolding write_lease_def mode unfolding True
  proof (rule safe_bind[OF put], goal_cases)
    case (1 r s1)
    have "(case r of Inl (ObjNotImplemented e) \<Rightarrow> pif (same_lease_holder node me current) (in_world (lo_put ops p v PutOverwrite)) (preturn r)
        | _ \<Rightarrow> preturn r) = preturn r" using 1(2) by (auto split: sum.split object_error.split)
    then show ?case using 1 by (auto simp: same_base_def intro!: safe_return)
  qed
qed

end

end
