(* ===== verification/Lease_Operations.thy ===== *)
theory Lease_Operations
  imports Lease_Safety
begin

text \<open>
  Every operation of a directory of writer leases keeps its invariant: acquiring and renewing, releasing a cell or a scope,
  abandoning a scope, and the queries.
\<close>

context lease_world
begin

subsection \<open>Acquiring and renewing\<close>

lemma safe_keep:
  assumes "lease_inv n s" "lease_path ops s (ll_scope l) (ll_cell_id l) = q" "q = p \<Longrightarrow> ll_node_id l = node \<and> backed p me (history s) l"
  shows "safe n (keep_lease q l force) s (\<lambda>_ _. True)"
  unfolding keep_lease_def not_cell_writer_def forget_abandoned_def
proof (rule safe_reads_bind, rule safe_if)
  show "safe n (pfail (NotCellWriter (ll_cell_id l) (Some (ll_node_id l)))) s (\<lambda>_ _. True)" by (rule safe_fail[OF assms(1)])
  show "safe n (pbind (pmodify (\<lambda>s. s\<lparr>ld_abandoned := bt_remove q (ld_abandoned s)\<rparr>)) (\<lambda>_.
      pbind (pmodify (\<lambda>s. s\<lparr>ld_local := bt_insert q l (ld_local s)\<rparr>)) (\<lambda>_. preturn (ll_generation l)))) s (\<lambda>_ _. True)"
    by (intro safe_modify_bind safe_return) (use inv_keep[OF assms] in simp_all)
qed

text \<open>A write that was applied is remembered as such.\<close>

lemma inv_observe_own:
  assumes inv: "lease_inv n s" and w: "q = p \<Longrightarrow> wrote n d t (history s) \<and> wl_holder_id d = me \<and> at \<le> time s
      \<and> fp = (wl_node_id d, wl_holder_id d, wl_generation d, wl_heartbeat d, wl_duration_ms d, wl_released d)"
  shows "safe n (observe_successful_write q fp at) s (\<lambda>_ s'. quiet s s')"
proof -
  obtain a b c h ms rl where fp: "fp = (a, b, c, h, ms, rl)" by (cases fp)
  let ?ob = "\<lparr>ow_fingerprint = fp, ow_observed_at = at, ow_remaining_at_observation =
    (if rl then 0 else from_millis (unat ms) + SERVER_TIMESTAMP_RESOLUTION_GUARD)\<rparr>"
  have kn: "known (history s) ?ob \<and> ow_observed_at ?ob \<le> time s" if "q = p"
    using w[OF that] by (auto simp: known_def wrote_def)
  have "bt_ok (ld_observed s)" using inv by (simp add: lease_inv_def)
  from inv_observe[OF inv this _ kn] have "lease_inv n (s\<lparr>ld_observed := bt_insert q ?ob (ld_observed s)\<rparr>)" by simp
  then show ?thesis unfolding observe_successful_write_def fp prod.case
    by (intro safe_modify) (simp_all add: fp quiet_def env_refl)
qed

lemma moves_base: "moves s s' \<Longrightarrow> same_base s s'" "quiet s s' \<Longrightarrow> same_base s s'"
  using moves_quiet quiet_same_base by blast+

lemma same_base_trans: "same_base s s1 \<Longrightarrow> same_base s1 s2 \<Longrightarrow> same_base s s2"
  by (auto simp: same_base_def)

lemma lease_path_base: "same_base s s' \<Longrightarrow> lease_path ops s' scope cell = lease_path ops s scope cell"
  by (simp add: same_base_def lease_path_def)

lemma wrote_quiet: "wrote n d t (history s) \<Longrightarrow> quiet s s' \<Longrightarrow> wrote n d t (history s')"
  unfolding quiet_def using wrote_env by blast

lemma safe_attempts:
  assumes "lease_inv n s" "lease_path ops s scope cell = q"
  shows "safe n (lease_attempts k ops q scope cell node force) s (\<lambda>_ _. True)"
  using assms
proof (induction k arbitrary: s)
  case 0
  then show ?case by (simp add: safe_fail)
next
  case (Suc k)
  have cfg: "ld_holder_id s = me" "ld_lease_duration s = from_millis n" using Suc.prems by (simp_all add: lease_inv_def configured_def)
  have again: "safe n (lease_attempts k ops q scope cell node force) s' (\<lambda>_ _. True)" if "lease_inv n s'" "same_base s s'" for s'
    using Suc.IH[OF that(1)] lease_path_base[OF that(2)] Suc.prems(2) by simp
  show ?case unfolding lease_attempts.simps
  proof (rule safe_reads_bind, rule safe_reads_bind, unfold cfg, rule safe_bind[OF safe_read[OF Suc.prems(1)]], goal_cases)
    case (1 current s1)
    let ?same = "same_lease_holder node me current"
    let ?g = "next_generation ?same current" and ?h = "next_heartbeat current"
    let ?d = "\<lparr>wl_node_id = node, wl_holder_id = me, wl_generation = ?g, wl_heartbeat = ?h, wl_duration_ms = word_of_nat n, wl_released = False\<rparr>"
    note inv1 = 1(1)
    have b1: "same_base s s1" and r1: "read_as q (history s1) current" using 1(2) moves_base by auto
    have num: "numbered p (history s1)" using inv1 by (simp add: lease_inv_def good_def)
    have "history s1 = history s1 @ []" by simp
    from safe_check[OF inv1 r1 this] show ?case
    proof (rule safe_bind, unfold Let_def, goal_cases)
      case (1 u s2)
      note inv2 = 1(1)
      have b2: "same_base s s2" and q2: "quiet s1 s2" using 1(2) b1 moves_base same_base_trans by blast+
      have free: "\<forall>d. reads p (last (history s1)) d \<longrightarrow> wl_released d \<or> lease_owner d = (node, me) \<or> expiry (last (history s1)) d \<le> time s2"
        if "q = p" "current \<noteq> None" using 1(2) that by blast
      show ?case
      proof (rule safe_lift_bind[OF inv2], rule safe_bind[OF safe_now[OF inv2]], goal_cases)
        case (1 v t s3)
        note enc = 1(1) and inv3 = 1(2)
        have m3: "quiet s2 s3" "t = time s3" using 1(3) moves_quiet by auto
        have q3: "quiet s1 s3" using quiet_trans[OF q2 m3(1)] .
        have b3: "same_base s s3" using same_base_trans[OF b2] moves_base(2)[OF m3(1)] .
        obtain ys where h3: "history s3 = history s1 @ ys" using quiet_history[OF q3] by blast
        obtain d0 where d0: "reads p (last (history s1)) d0" if "q = p \<and> current \<noteq> None"
          using r1 by (cases "q = p \<and> current \<noteq> None") (auto simp: read_as_def)
        have fr: "reads p (last (history s1)) d0 \<and> (wl_released d0 \<or> lease_owner d0 = (node, me) \<or> expiry (last (history s1)) d0 \<le> time s3)"
          if "q = p \<and> current \<noteq> None"
          using free d0[OF that] that quiet_time[OF m3(1)] by (auto intro: order_trans)
        show ?case
        proof (rule safe_bind[OF safe_write_lease[OF inv3 r1 h3 num fr enc]], assumption, goal_cases)
          case (1 r s4)
          note inv4 = 1(1)
          have b4: "same_base s s4" "t \<le> time s4" using 1(2) same_base_trans[OF b3] m3(2) by (auto simp: same_base_def)
          have w4: "wrote n ?d t (history s4)" if "q = p" "r = Inr ()" using 1(2) that m3(2) by blast
          have fin: "safe n (pbind (instant_now ops) (\<lambda>now.
               pif (t + from_millis n \<le> now) (lease_attempts k ops q scope cell node force)
                 (pbind (observe_successful_write q (node, me, ?g, ?h, u64_or_max (as_millis (from_millis n)), False) t) (\<lambda>_.
                    keep_lease q \<lparr>ll_scope = scope, ll_cell_id = cell, ll_node_id = node, ll_generation = ?g,
                      ll_valid_until = t + from_millis n\<rparr> force)))) s4 (\<lambda>_ _. True)" if "r = Inr ()"
          proof (rule safe_bind[OF safe_now[OF inv4]], rule safe_if, goal_cases)
            case (1 now s5)
            show ?case by (rule again[OF 1(1)]) (use 1(2) b4(1) moves_base same_base_trans in blast)
          next
            case (2 now s5)
            note inv5 = 2(1)
            have m5: "quiet s4 s5" using 2(2) moves_quiet by blast
            have w5: "wrote n ?d t (history s5)" "t \<le> time s5" if "q = p"
              using wrote_quiet[OF w4[OF that \<open>r = Inr ()\<close>] m5] b4(2) quiet_time[OF m5] by auto
            have n64: "n < 2 ^ 64" using enc by (auto simp: encode_writer_lease_def rbind_Inr_iff split: if_splits)
            show ?case
            proof (rule safe_bind[OF inv_observe_own[OF inv5, where d = ?d and t = t]], goal_cases)
              case 1
              then show ?case using w5 n64 by (simp add: u64_or_max_def)
            next
              case (2 u s6)
              have b6: "same_base s s6" using b4(1) m5 2(2) moves_base(2) same_base_trans by blast
              show ?case
                by (rule safe_keep[OF 2(1)]) (use lease_path_base[OF b6] Suc.prems(2) wrote_quiet[OF w5(1) 2(2)] in \<open>auto simp: wrote_def\<close>)
            qed
          qed
          show ?case
          proof (cases r)
            case (Inl err)
            then show ?thesis using again[OF inv4 b4(1)] safe_fail[OF inv4] by (cases err) auto
          next
            case (Inr x)
            then show ?thesis using fin by simp
          qed
        qed
      qed
    qed
  qed
qed

lemma moves_refl: "moves s s"
  using movesI[of s "ld_world s"] by (simp add: env_refl)

lemma safe_is_valid: "lease_inv n s \<Longrightarrow> safe n (is_valid_lease ops l v) s (\<lambda>_ s'. moves s s')"
  unfolding is_valid_lease_def
  by (cases l) (auto intro!: safe_if safe_return safe_bind[OF safe_now] simp: moves_refl)

lemma safe_acquire:
  assumes inv: "lease_inv n s"
  shows "safe n (acquire_or_renew_inner ops scope cell node force) s (\<lambda>_ _. True)"
proof -
  let ?q = "lease_path ops s scope cell" and ?k = MAX_WRITER_LEASE_CAS_ATTEMPTS
  have go: "safe n (lease_attempts ?k ops ?q scope cell node f) s' (\<lambda>_ _. True)" if "lease_inv n s'" "moves s s'" for f s'
    using safe_attempts[OF that(1) lease_path_base[OF moves_base(1)[OF that(2)]]] .
  have forced: "safe n (pbind (is_valid_lease ops l node) (\<lambda>local_is_valid. pif local_is_valid (lease_attempts ?k ops ?q scope cell node True)
       (pbind (forget_local ?q) (\<lambda>_. not_cell_writer cell None)))) s (\<lambda>_ _. True)" for l
    unfolding forget_local_def not_cell_writer_def
    by (rule safe_bind[OF safe_is_valid[OF inv]]) (auto intro!: safe_if go safe_modify_bind safe_fail inv_forget)
  have cached: "safe n (pbind (instant_now ops) (\<lambda>now. pif (now + m < ll_valid_until l) (preturn (ll_generation l))
       (lease_attempts ?k ops ?q scope cell node False))) s (\<lambda>_ _. True)" for m l
    by (rule safe_bind[OF safe_now[OF inv]]) (auto intro!: safe_if go safe_return)
  show ?thesis unfolding acquire_or_renew_inner_def
    by (intro safe_lift_bind safe_reads_bind inv safe_if forced)
       (auto split: option.split intro!: safe_if cached go inv simp: moves_refl)
qed

subsection \<open>Releasing\<close>

text \<open>Programs that leave the leases the directory holds alone, whether they succeed or fail.\<close>

definition keeps_local :: "('w lease_state, 'a) prog \<Rightarrow> bool" where
  "keeps_local m \<longleftrightarrow> (\<forall>s r s'. m s = (r, s') \<longrightarrow> ld_local s' = ld_local s \<and> ld_base_path s' = ld_base_path s)"

lemma keeps_local_bind: "keeps_local m \<Longrightarrow> (\<And>x. keeps_local (f x)) \<Longrightarrow> keeps_local (pbind m f)"
  by (fastforce simp: keeps_local_def pbind_def split: prod.splits sum.splits)

lemma keeps_local_basic:
  "keeps_local (preturn x)" "keeps_local (pfail e)" "keeps_local (plift r)" "keeps_local (preads g)"
  "keeps_local (in_world h)" "keeps_local (instant_now ops)" "keeps_local (observe_successful_write q fp at)"
  by (auto simp: keeps_local_def preturn_def pfail_def plift_def preads_def in_world_def instant_now_def
      observe_successful_write_def pmodify_def split: prod.splits)

lemma keeps_local_if: "keeps_local a \<Longrightarrow> keeps_local b \<Longrightarrow> keeps_local (pif c a b)"
  by (simp add: pif_def)

lemmas keeps_local_rules = keeps_local_bind keeps_local_basic keeps_local_if

lemma keeps_local_read: "keeps_local (read_stored ops q)"
  unfolding read_stored_def by (intro keeps_local_rules) (auto split: sum.split object_error.split intro!: keeps_local_rules)

lemma keeps_local_release: "keeps_local (release_attempts k ops q v g)"
  by (induction k) (auto simp: Let_def split: option.split sum.split object_error.split intro!: keeps_local_rules keeps_local_read)

text \<open>The write that releases a lease of this process.\<close>

lemma release_put:
  assumes inv1: "lease_inv n s1" and rd: "read_as p (history s1) (Some st)" and inv2: "lease_inv n s2" and q2: "quiet s1 s2"
    and mine: "\<not> (sw_node_id st \<noteq> node \<or> sw_holder_id st \<noteq> me \<or> sw_generation st \<noteq> g)" and none: "bt_get (ld_local s2) p = None"
    and enc: "encode_writer_lease node me g (saturating_add (sw_heartbeat st) 1) (sw_duration st) True = Inr v"
  obtains d where "decode_writer_lease p v = Inr d" "wl_holder_id d = me"
    "(node, me, g, saturating_add (sw_heartbeat st) 1, u64_or_max (as_millis (sw_duration st)), True)
      = (wl_node_id d, wl_holder_id d, wl_generation d, wl_heartbeat d, wl_duration_ms d, wl_released d)"
    "safe n (in_world (lo_put ops p v (PutUpdate (sw_version st)))) s2 (\<lambda>r s'. (\<exists>w'. s' = s2\<lparr>ld_world := w'\<rparr> \<and> time s2 \<le> clock w')
       \<and> (\<forall>err. r \<noteq> Inl (ObjNotImplemented err)) \<and> (r = Inr () \<longrightarrow> wrote n d (time s2) (history s')))"
proof -
  let ?L = "history s1"
  obtain d0 where L: "?L \<noteq> []" and d0: "reads p (last ?L) d0" "st = stored_of (last ?L) d0" using rd by (auto simp: read_as_def)
  obtain ys where ys: "history s2 = ?L @ ys" using quiet_history[OF q2] by blast
  have own: "own_writes n ?L" and num: "numbered p ?L" using inv1 by (simp_all add: lease_inv_def good_def)
  have me0: "lease_owner d0 = (node, me)" "wl_generation d0 = g" using mine d0(2) by (auto simp: stored_of_def lease_owner_def)
  have valid: "valid_lease d0" using d0(1) decode_lease_valid by (auto simp: reads_def)
  have dur: "unat (wl_duration_ms d0) = n" using own L d0(1) me0 by (auto simp: own_writes_def lease_owner_def)
  have ms: "as_millis (sw_duration st) = n" using d0(2) dur by (simp add: stored_of_def)
  have word: "word_of_nat n = wl_duration_ms d0" unfolding dur[symmetric] by simp
  let ?h = "saturating_add (wl_heartbeat d0) 1"
  have n0: "n \<noteq> 0" using inv1 by (simp add: lease_inv_def configured_def)
  have room: "unat ?h = Suc (length ?L)" "unat g \<le> Suc (length ?L)" if "Suc (length ?L) < 2 ^ 64"
    using numbered_last[OF num L d0(1)] me0(2) that unfolding saturating_add_unat by auto
  have h0: "?h \<noteq> 0"
  proof
    assume "?h = 0"
    then have "unat ?h = 0" by simp
    then show False unfolding saturating_add_unat by (simp add: min_def split: if_splits)
  qed
  let ?d = "\<lparr>wl_node_id = node, wl_holder_id = me, wl_generation = g, wl_heartbeat = ?h, wl_duration_ms = word_of_nat n, wl_released = True\<rparr>"
  have hb: "sw_heartbeat st = wl_heartbeat d0" "sw_version st = le_version (last ?L)" using d0(2) by (simp_all add: stored_of_def)
  have dec: "decode_writer_lease p v = Inr ?d"
    using decode_encode_lease[OF enc[unfolded hb]] valid me0(2) h0 ms n0 by (auto simp: valid_lease_def)
  have put: "safe n (in_world (lo_put ops p v (PutUpdate (sw_version st)))) s2 (\<lambda>r s'. (\<exists>w'. s' = s2\<lparr>ld_world := w'\<rparr> \<and> time s2 \<le> clock w')
       \<and> (\<forall>err. r \<noteq> Inl (ObjNotImplemented err)) \<and> (r = Inr () \<longrightarrow> wrote n ?d (time s2) (history s')))"
    by (rule safe_put[OF inv2 ys _ dec, where ?d0.0 = d0]) (use L room none me0 d0(1) dur word hb(2) in \<open>auto simp: lease_owner_def\<close>)
  have max: "u64_or_max n = word_of_nat n" using dur unsigned_less[of "wl_duration_ms d0", where ?'a = nat] by (simp add: u64_or_max_def)
  show ?thesis by (rule that[OF dec _ _ put]) (simp_all add: hb ms max)
qed

lemma safe_release:
  assumes "lease_inv n s" "q = p \<Longrightarrow> bt_get (ld_local s) p = None"
  shows "safe n (release_attempts k ops q node g) s (\<lambda>_ _. True)"
  using assms
proof (induction k arbitrary: s)
  case 0
  then show ?case by (simp add: safe_fail)
next
  case (Suc k)
  have cfg: "ld_holder_id s = me" using Suc.prems by (simp add: lease_inv_def configured_def)
  have again: "safe n (release_attempts k ops q node g) s' (\<lambda>_ _. True)" if "lease_inv n s'" "ld_local s' = ld_local s" for s'
    using Suc.IH[OF that(1)] Suc.prems(2) that(2) by simp
  show ?case unfolding release_attempts.simps
  proof (rule safe_reads_bind, unfold cfg, rule safe_bind[OF safe_read[OF Suc.prems(1)]], goal_cases)
    case (1 current s1)
    note inv1 = 1(1)
    have q1: "ld_local s1 = ld_local s" and r1: "read_as q (history s1) current" using 1(2) moves_quiet by (auto simp: quiet_def)
    show ?case
    proof (cases current)
      case None
      then show ?thesis using inv1 by (simp add: safe_return)
    next
      case (Some st)
      show ?thesis unfolding Some option.case Let_def
      proof (rule safe_if, rule safe_return[OF inv1], rule TrueI, rule safe_lift_bind[OF inv1], rule safe_bind[OF safe_now[OF inv1]], goal_cases)
        case (1 v t s2)
        note mine = 1(1) and enc = 1(2) and inv2 = 1(3)
        have m2: "quiet s1 s2" "t = time s2" and l2: "ld_local s2 = ld_local s" using 1(4) moves_quiet q1 by (auto simp: quiet_def)
        let ?fp = "(node, me, g, saturating_add (sw_heartbeat st) 1, u64_or_max (as_millis (sw_duration st)), True)"
        obtain d where d: "decode_writer_lease p v = Inr d \<and> wl_holder_id d = me
            \<and> ?fp = (wl_node_id d, wl_holder_id d, wl_generation d, wl_heartbeat d, wl_duration_ms d, wl_released d)
            \<and> safe n (in_world (lo_put ops p v (PutUpdate (sw_version st)))) s2 (\<lambda>r s'. (\<exists>w'. s' = s2\<lparr>ld_world := w'\<rparr> \<and> time s2 \<le> clock w')
               \<and> (\<forall>err. r \<noteq> Inl (ObjNotImplemented err)) \<and> (r = Inr () \<longrightarrow> wrote n d (time s2) (history s')))" if "q = p"
        proof (cases "q = p")
          case True
          then have "read_as p (history s1) (Some st)" "bt_get (ld_local s2) p = None" using r1 Some Suc.prems(2) l2 by auto
          from release_put[OF inv1 this(1) inv2 m2(1) mine this(2) enc] show ?thesis using that by blast
        qed (use that in blast)
        have dh: "wl_holder_id d = me" and dfp: "?fp = (wl_node_id d, wl_holder_id d, wl_generation d, wl_heartbeat d, wl_duration_ms d, wl_released d)"
          if "q = p" using d[OF that] by blast+
        show ?case
        proof (rule safe_bind[where R = "\<lambda>r s'. ld_local s' = ld_local s \<and> time s2 \<le> time s' \<and> (q = p \<longrightarrow>
             (\<forall>err. r \<noteq> Inl (ObjNotImplemented err)) \<and> (r = Inr () \<longrightarrow> wrote n d (time s2) (history s')))"], goal_cases)
          case 1
          show ?case
          proof (cases "q = p")
            case True
            show ?thesis unfolding True by (rule safe_weaken, rule d[OF True, THEN conjunct2, THEN conjunct2, THEN conjunct2]) (use l2 in auto)
          next
            case False
            show ?thesis by (rule safe_weaken[OF safe_other_put[OF inv2 False]]) (use False l2 quiet_time in \<open>auto simp: quiet_def\<close>)
          qed
        next
          case (2 r s3)
          note inv3 = 2(1)
          show ?case
          proof (cases r)
            case (Inr u)
            show ?thesis unfolding Inr sum.case
            proof (rule safe_weaken[OF inv_observe_own[OF inv3, where d = d and t = t]], goal_cases)
              case 1
              then show ?case using dh dfp 2(2) m2(2) Inr by simp
            qed simp
          next
            case (Inl err)
            have del: "safe n (pbind (in_world (lo_delete ops q)) (\<lambda>deleted. plift (object_result deleted))) s3 (\<lambda>_ _. True)" if "q \<noteq> p"
              by (rule safe_bind[OF safe_world[OF inv3, where Q = "\<lambda>_ _. True"]]) (use delete_other that in \<open>auto intro: safe_lift\<close>)
            show ?thesis using again[OF inv3] 2(2) del safe_fail[OF inv3] unfolding Inl by (cases err) auto
          qed
        qed
      qed
    qed
  qed
qed

subsection \<open>The other operations\<close>

lemma safe_release_stored:
  assumes "lease_inv n s" "lease_path ops s scope cell = p \<Longrightarrow> bt_get (ld_local s) p = None"
  shows "safe n (release_stored ops scope cell node g) s (\<lambda>_ _. True)"
  unfolding release_stored_def by (rule safe_reads_bind, rule safe_release[OF assms(1)]) (rule assms(2))

lemma safe_release_cell:
  assumes inv: "lease_inv n s"
  shows "safe n (release_cell ops scope cell node) s (\<lambda>_ _. True)"
proof -
  let ?q = "lease_path ops s scope cell"
  have path: "lease_path ops (s\<lparr>ld_local := m\<rparr>) scope cell = ?q" "lease_path ops (s\<lparr>ld_abandoned := m\<rparr>) scope cell = ?q" for m
    by (simp_all add: lease_path_def)
  have loc: "safe n (pbind (forget_local ?q) (\<lambda>_. release_stored ops scope cell node g)) s (\<lambda>_ _. True)" for g
    unfolding forget_local_def
    by (rule safe_modify_bind, rule safe_release_stored[OF inv_forget(1)[OF inv]]) (simp add: path bt_get_remove)
  have aban: "safe n (pbind (forget_abandoned ?q) (\<lambda>_. release_stored ops scope cell node g)) s (\<lambda>_ _. True)"
    if "bt_get (ld_local s) ?q = None" for g
    unfolding forget_abandoned_def
    by (rule safe_modify_bind, rule safe_release_stored[OF inv_forget(2)[OF inv]]) (use that in \<open>auto simp: path\<close>)
  show ?thesis unfolding release_cell_def
    by (intro safe_reads_bind) (auto split: option.split intro!: loc aban safe_return[OF inv])
qed

lemma inv_scope_users [simp]: "lease_inv n (s\<lparr>ld_scope_users := u\<rparr>) = lease_inv n s"
  by (simp add: lease_inv_def keyed_leases_def configured_def lease_path_def)

lemma safe_leave: "lease_inv n s \<Longrightarrow> safe n (leave_scope scope v) s (\<lambda>_ _. True)"
  by (auto simp: safe_def leave_scope_def Let_def split: option.splits if_splits)

lemma bt_filter:
  assumes "bt_ok m"
  shows "bt_ok (filter P m)" "bt_get (filter P m) k = (case bt_get m k of None \<Rightarrow> None | Some v \<Rightarrow> if P (k, v) then Some v else None)"
proof -
  show ok: "bt_ok (filter P m)" using assms unfolding bt_ok_def by (induction m) auto
  show "bt_get (filter P m) k = (case bt_get m k of None \<Rightarrow> None | Some v \<Rightarrow> if P (k, v) then Some v else None)"
  proof (cases "bt_get m k")
    case None
    then have "bt_get (filter P m) k = None" by (auto simp: bt_get_None_iff)
    then show ?thesis using None by simp
  next
    case (Some v)
    then have "(k, v) \<in> set m" using bt_get_Some_iff[OF assms] by blast
    show ?thesis
    proof (cases "P (k, v)")
      case True
      then show ?thesis using \<open>(k, v) \<in> set m\<close> bt_get_Some_iff[OF ok] Some by auto
    next
      case False
      have "v' = v" if "(k, v') \<in> set m" for v' using that Some bt_get_Some_iff[OF assms, of k v'] by simp
      then have "(k, v') \<notin> set (filter P m)" for v' using False by auto
      then show ?thesis using False Some by (auto simp: bt_get_None_iff)
    qed
  qed
qed

lemma keyed_filter: "keyed_leases s m \<Longrightarrow> keyed_leases s (filter P m)"
  unfolding keyed_leases_def by (auto simp: bt_filter split: option.splits if_splits)

lemma inv_filter:
  assumes "lease_inv n s"
  shows "lease_inv n (s\<lparr>ld_local := filter P (ld_local s)\<rparr>)" "lease_inv n (s\<lparr>ld_abandoned := filter P (ld_abandoned s)\<rparr>)"
proof -
  have ok: "bt_ok (ld_local s)" "bt_ok (ld_abandoned s)" using assms by (simp_all add: lease_inv_def keyed_leases_def)
  have k: "keyed_leases (s\<lparr>ld_local := a\<rparr>) m = keyed_leases s m" "keyed_leases (s\<lparr>ld_abandoned := a\<rparr>) m = keyed_leases s m" for a m
    by (simp_all add: keyed_leases_def lease_path_def)
  show "lease_inv n (s\<lparr>ld_local := filter P (ld_local s)\<rparr>)" "lease_inv n (s\<lparr>ld_abandoned := filter P (ld_abandoned s)\<rparr>)"
    using assms keyed_filter[of s] bt_filter(2)[OF ok(1), of P p] bt_filter(2)[OF ok(2), of P p]
    by (auto simp: lease_inv_def k configured_def split: option.splits if_splits)
qed

lemma keeps_local_release_one: "keeps_local (release_one ops scope v l fs)"
  unfolding release_one_def release_stored_def
  by (intro keeps_local_bind keeps_local_basic) (auto simp: keeps_local_def ptry_def split: prod.splits
      dest!: keeps_local_bind[OF keeps_local_basic(4) keeps_local_release, unfolded keeps_local_def, rule_format])

lemma safe_release_all:
  assumes "lease_inv n s" "\<And>l. l \<in> set ls \<Longrightarrow> lease_path ops s scope (ll_cell_id l) = p \<Longrightarrow> bt_get (ld_local s) p = None"
  shows "safe n (pfold ls (release_one ops scope node) fs) s (\<lambda>_ _. True)"
  using assms
proof (induction ls arbitrary: s fs)
  case Nil
  then show ?case by (simp add: safe_return)
next
  case (Cons l ls)
  have one: "safe n (release_one ops scope node l fs) s (\<lambda>_ _. True)"
    unfolding release_one_def
    by (rule safe_bind[OF safe_try[OF safe_release_stored[OF Cons.prems(1)]]]) (use Cons.prems(2) in \<open>auto intro: safe_return\<close>)
  have "safe n (release_one ops scope node l fs) s (\<lambda>_ s'. ld_local s' = ld_local s \<and> ld_base_path s' = ld_base_path s)"
    using one keeps_local_release_one[of scope node l fs] unfolding safe_def keeps_local_def by blast
  then show ?case unfolding pfold.simps
  proof (rule safe_bind, goal_cases)
    case (1 x s1)
    have "lease_path ops s1 scope c = lease_path ops s scope c" for c using 1(2) by (simp add: lease_path_def)
    then show ?case by (intro Cons.IH[OF 1(1)]) (use Cons.prems(2) 1(2) in auto)
  qed
qed

lemma safe_release_scope:
  assumes "lease_inv n s"
  shows "safe n (release_scope ops scope node) s (\<lambda>_ _. True)"
  unfolding release_scope_def
proof (rule safe_bind[OF safe_leave[OF assms]], rule safe_if, goal_cases)
  case (1 b s1)
  let ?s = "s1\<lparr>ld_local := filter (\<lambda>x. \<not> of_scope scope node x) (ld_local s1), ld_abandoned := filter (\<lambda>x. \<not> of_scope scope node x) (ld_abandoned s1)\<rparr>"
  have inv: "lease_inv n ?s"
    using inv_filter(2)[OF inv_filter(1)[OF 1(1), of "\<lambda>x. \<not> of_scope scope node x"], of "\<lambda>x. \<not> of_scope scope node x"] by simp
  have ok: "bt_ok (ld_local s1)" "bt_ok (ld_abandoned s1)" using 1(1) by (simp_all add: lease_inv_def keyed_leases_def)
  have key: "lease_path ops s1 (ll_scope l) (ll_cell_id l) = q" if "(q, l) \<in> set (ld_local s1) \<or> (q, l) \<in> set (ld_abandoned s1)" for q l
    using that 1(1) bt_get_Some_iff[OF ok(1)] bt_get_Some_iff[OF ok(2)] by (auto simp: lease_inv_def keyed_leases_def)
  have none: "bt_get (ld_local ?s) p = None"
    if l: "l \<in> snd ` set (filter (of_scope scope node) (ld_local s1)) \<union> snd ` set (filter (of_scope scope node) (ld_abandoned s1))"
      and path: "lease_path ops ?s scope (ll_cell_id l) = p" for l
  proof -
    have path': "lease_path ops s1 scope (ll_cell_id l) = p" using path by (simp add: lease_path_def)
    obtain x where x: "x \<in> set (ld_local s1) \<or> x \<in> set (ld_abandoned s1)" "of_scope scope node x" "l = snd x" using l by auto
    obtain q where q: "(q, l) \<in> set (ld_local s1) \<or> (q, l) \<in> set (ld_abandoned s1)" "of_scope scope node (q, l)"
      by (rule that[of "fst x"]) (use x in simp_all)
    have "q = p" using key[OF q(1)] q(2) path' by (simp add: of_scope_def)
    then have "bt_get (ld_local s1) p = Some l \<or> bt_get (ld_abandoned s1) p = Some l"
      using q(1) bt_get_Some_iff[OF ok(1)] bt_get_Some_iff[OF ok(2)] by auto
    then show ?thesis using q(2) 1(1) \<open>q = p\<close> by (auto simp: bt_filter(2)[OF ok(1)] lease_inv_def split: option.splits)
  qed
  show ?case
    by (rule safe_reads_bind, rule safe_modify_bind, rule safe_release_all[OF inv], rule none) auto
next
  case (2 b s1)
  then show ?case by (simp add: safe_return)
qed

lemma inv_abandon:
  assumes inv: "lease_inv n s" and m: "bt_ok m" "\<And>q l. bt_get m q = Some l \<Longrightarrow> lease_path ops s (ll_scope l) (ll_cell_id l) = q"
    and none: "bt_get m p = None \<or> bt_get (ld_local s) p = None"
  shows "lease_inv n (s\<lparr>ld_abandoned := bt_extend (filter P (ld_abandoned s)) m\<rparr>)"
proof -
  have ok: "bt_ok (ld_abandoned s)" using inv by (simp add: lease_inv_def keyed_leases_def)
  have get: "bt_get (bt_extend (filter P (ld_abandoned s)) m) q = (case bt_get m q of Some v \<Rightarrow> Some v | None \<Rightarrow>
      (case bt_get (ld_abandoned s) q of None \<Rightarrow> None | Some v \<Rightarrow> if P (q, v) then Some v else None))" for q
    unfolding bt_get_extend[OF bt_filter(1)[OF ok] m(1)] bt_filter(2)[OF ok] by (rule refl)
  have "keyed_leases s (bt_extend (filter P (ld_abandoned s)) m)"
    using inv m(2) bt_ok_extend[OF bt_filter(1)[OF ok]] unfolding keyed_leases_def lease_inv_def by (auto simp: get split: option.splits if_splits)
  moreover have "bt_get (ld_local s) p = None \<or> bt_get (bt_extend (filter P (ld_abandoned s)) m) p = None"
    using inv none by (auto simp: get lease_inv_def split: option.splits)
  ultimately show ?thesis using inv by (simp add: lease_inv_def keyed_leases_def configured_def lease_path_def)
qed

lemma safe_abandon:
  assumes "lease_inv n s"
  shows "safe n (abandon_scope ops scope node) s (\<lambda>_ _. True)"
  unfolding abandon_scope_def
proof (rule safe_bind[OF safe_leave[OF assms]], rule safe_if, rule safe_reads_bind, rule safe_modify_bind, goal_cases)
  case (1 b s1)
  let ?m = "filter (of_scope scope node) (ld_local s1)"
  let ?s = "s1\<lparr>ld_local := filter (\<lambda>x. \<not> of_scope scope node x) (ld_local s1)\<rparr>"
  have ok: "bt_ok (ld_local s1)" using 1(1) by (simp add: lease_inv_def keyed_leases_def)
  have m: "lease_path ops s1 (ll_scope l) (ll_cell_id l) = q" if "bt_get ?m q = Some l" for q l
    using that 1(1) by (auto simp: bt_filter[OF ok] lease_inv_def keyed_leases_def split: option.splits if_splits)
  have okm: "bt_ok ?m" by (rule bt_filter(1)[OF ok])
  show ?case
  proof (rule safe_bind[OF safe_now[OF inv_filter(1)[OF 1(1)]]], rule safe_modify, goal_cases)
    case (1 t s2)
    obtain w where s2: "s2 = ?s\<lparr>ld_world := w\<rparr>" using 1(2) by (auto simp: moves_def)
    have "lease_path ops s2 scope' c = lease_path ops s1 scope' c" for scope' c by (simp add: s2 lease_path_def)
    then have path: "lease_path ops s2 (ll_scope l) (ll_cell_id l) = q" if "bt_get ?m q = Some l" for q l using m[OF that] by simp
    have "bt_get ?m p = None \<or> bt_get (ld_local s2) p = None" by (simp add: s2 bt_filter(2)[OF ok] split: option.split)
    then show ?case using inv_abandon[OF 1(1) okm path] by simp
  qed simp
next
  case (2 b s1)
  then show ?case by (simp add: safe_return)
qed

lemma safe_register: "lease_inv n s \<Longrightarrow> safe n (register_scope scope v) s (\<lambda>_ _. True)"
  unfolding register_scope_def Let_def by (rule safe_modify) simp_all

lemma safe_owner:
  assumes "lease_inv n s"
  shows "safe n (current_owner ops scope cell) s (\<lambda>_ _. True)"
  unfolding current_owner_def
proof (rule safe_lift_bind[OF assms], rule safe_reads_bind, rule safe_bind[OF safe_read[OF assms]], goal_cases)
  case (1 u found s1)
  show ?case
  proof (cases found)
    case None
    then show ?thesis using 1(2) by (simp add: safe_return)
  next
    case (Some st)
    show ?thesis unfolding Some option.case
    proof (rule safe_if, rule safe_return[OF 1(2)], rule TrueI)
      assume r: "\<not> sw_released st"
      obtain d where d: "lease_path ops s scope cell = p \<Longrightarrow> last (history s1) \<in> set (history s1) \<and> reads p (last (history s1)) d
          \<and> st = stored_of (last (history s1)) d \<and> \<not> wl_released d"
        using 1(3) Some r by (cases "lease_path ops s scope cell = p") (auto simp: read_as_def stored_of_def)
      show "safe n (pbind (shared_remaining_ms ops (lease_path ops s scope cell) st) (\<lambda>remaining_ms.
          preturn (if 0 < remaining_ms then Some \<lparr>wo_node_id = sw_node_id st, wo_generation = sw_generation st,
                  wo_remaining_ms = remaining_ms\<rparr> else None))) s1 (\<lambda>_ _. True)"
        by (rule safe_bind[OF safe_remaining[OF 1(2) d]], assumption, rule safe_return, assumption, rule TrueI)
    qed
  qed
qed

lemma safe_holds: 
  assumes "lease_inv n s"
  shows "safe n (holds_valid_local ops scope cell v) s (\<lambda>_ _. True)" "safe n (holds_abandoned_local ops scope cell v) s (\<lambda>_ _. True)"
proof -
  show "safe n (holds_valid_local ops scope cell v) s (\<lambda>_ _. True)"
    unfolding holds_valid_local_def by (rule safe_reads_bind, rule safe_weaken[OF safe_is_valid[OF assms]]) simp
  have "safe n (pbind (is_valid_lease ops l v) (\<lambda>valid. pif valid (preturn True) (pbind (forget_abandoned q) (\<lambda>_. preturn False)))) s (\<lambda>_ _. True)" for l q
    unfolding forget_abandoned_def
    by (rule safe_bind[OF safe_is_valid[OF assms]]) (auto intro!: safe_if safe_modify_bind safe_return inv_forget)
  then show "safe n (holds_abandoned_local ops scope cell v) s (\<lambda>_ _. True)"
    unfolding holds_abandoned_local_def by (intro safe_reads_bind) (auto split: option.split intro: safe_return[OF assms])
qed

lemma safe_renew_one:
  assumes "lease_inv n s"
  shows "safe n (renew_one ops node l fs) s (\<lambda>_ _. True)"
  unfolding renew_one_def forget_local_def
proof (rule safe_bind[OF safe_try[OF safe_acquire[OF assms]]], goal_cases)
  case (1 r s1)
  show ?case
  proof (cases r)
    case (Inl e)
    show ?thesis unfolding Inl sum.case
      by (rule safe_bind[OF safe_holds(1)[OF 1(1)]], rule safe_reads_bind, rule safe_bind[where R = "\<lambda>_ _. True"])
         (auto intro!: safe_if safe_modify safe_return inv_forget)
  qed (simp add: safe_return 1(1))
qed

lemma safe_renew: "lease_inv n s \<Longrightarrow> safe n (renew_local ops node) s (\<lambda>_ _. True)"
  unfolding renew_local_def
proof (rule safe_reads_bind)
  fix ls fs
  show "lease_inv n s \<Longrightarrow> safe n (pfold ls (renew_one ops node) fs) s (\<lambda>_ _. True)" for s
  proof (induction ls arbitrary: s fs)
    case Nil
    then show ?case by (simp add: safe_return)
  next
    case (Cons l ls)
    then show ?case unfolding pfold.simps by (intro safe_bind[OF safe_renew_one]) auto
  qed
qed

end

end
