(* ===== verification/Lease_Store.thy ===== *)
theory Lease_Store
  imports Lease_Operations
begin

text \<open>
  A store that several processes share, with no promise about what the others write. \<open>lease_world\<close> lets a process rely on
  lawful writes of the others; here that reliance is discharged. A process is run against the store with its operations
  suspended (\<open>guarded\<close>) as soon as a write of another process is out of order; up to that moment the run is the real one,
  and there \<open>lease_world\<close> applies. So the first write out of order would be one of a process that saw only lawful writes
  before, which none makes. The argument never looks at how the operations of two processes interleave.
\<close>

subsection \<open>Writes in order\<close>

text \<open>What a good history asks of each write, given the writes before it.\<close>

definition in_order :: "string \<Rightarrow> nat \<Rightarrow> int \<Rightarrow> 'ver lease_entry list \<Rightarrow> 'ver lease_entry \<Rightarrow> bool" where
  "in_order p res ofs L e \<longleftrightarrow> (\<exists>d. reads p e d \<and> unat (wl_heartbeat d) = Suc (length L) \<and> unat (wl_generation d) \<le> Suc (length L))
     \<and> (L \<noteq> [] \<longrightarrow> follows p (last L) e) \<and> stamped res ofs e \<and> le_version e \<notin> le_version ` set L"

lemma good_snoc_iff: "good p res ofs t (L @ [e]) \<longleftrightarrow> good p res ofs t L \<and> in_order p res ofs L e \<and> le_time e \<le> t"
proof
  assume g: "good p res ofs t (L @ [e])"
  have "numbered p L" using g unfolding good_def numbered_def by (auto simp: nth_append)
  moreover obtain d where "reads p e d" using g by (auto simp: good_def lawful_snoc)
  moreover from this have "unat (wl_heartbeat d) = Suc (length L) \<and> unat (wl_generation d) \<le> Suc (length L)"
    using g unfolding good_def numbered_def by (metis length_append_singleton lessI nth_append_length)
  ultimately show "good p res ofs t L \<and> in_order p res ofs L e \<and> le_time e \<le> t"
    using g by (auto simp: good_def in_order_def lawful_snoc)
next
  assume a: "good p res ofs t L \<and> in_order p res ofs L e \<and> le_time e \<le> t"
  then obtain d where d: "reads p e d" "unat (wl_heartbeat d) = Suc (length L)" "unat (wl_generation d) \<le> Suc (length L)"
    by (auto simp: in_order_def)
  have g: "lawful p L" "numbered p L" "distinct (map le_version L)" "\<forall>x \<in> set L. le_time x \<le> t \<and> stamped res ofs x"
    and e: "L \<noteq> [] \<longrightarrow> follows p (last L) e" "stamped res ofs e" "le_version e \<notin> le_version ` set L" "le_time e \<le> t"
    using a by (simp_all add: good_def in_order_def)
  have "numbered p (L @ [e])" by (rule numbered_snoc[OF g(2)]) (use d reads_unique[OF d(1)] in blast)
  moreover have "lawful p (L @ [e])" using g(1) d(1) e(1) by (auto simp: lawful_snoc)
  ultimately show "good p res ofs t (L @ [e])" using g(3,4) e(2-4) by (simp add: good_def)
qed

lemma good_iff:
  "good p res ofs t L \<longleftrightarrow> (\<forall>i < length L. in_order p res ofs (take i L) (L ! i)) \<and> (\<forall>e \<in> set L. le_time e \<le> t)"
proof (induction L rule: rev_induct)
  case Nil
  show ?case by (simp add: good_def lawful_def numbered_def)
next
  case (snoc e L)
  have "(\<forall>i < length (L @ [e]). in_order p res ofs (take i (L @ [e])) ((L @ [e]) ! i)) \<longleftrightarrow>
      (\<forall>i < length L. in_order p res ofs (take i L) (L ! i)) \<and> in_order p res ofs L e"
    by (auto simp: less_Suc_eq nth_append)
  then show ?case using snoc by (auto simp: good_snoc_iff)
qed

text \<open>The part of a history before the first write of another process that is out of order.\<close>

definition foreign :: "string \<Rightarrow> string \<Rightarrow> 'ver lease_entry \<Rightarrow> bool" where
  "foreign p me e \<longleftrightarrow> (\<forall>d. reads p e d \<longrightarrow> wl_holder_id d \<noteq> me)"

definition stray :: "string \<Rightarrow> nat \<Rightarrow> int \<Rightarrow> string \<Rightarrow> 'ver lease_entry list \<Rightarrow> nat \<Rightarrow> bool" where
  "stray p res ofs me L i \<longleftrightarrow> i < length L \<and> foreign p me (L ! i) \<and> \<not> in_order p res ofs (take i L) (L ! i)"

definition sound :: "string \<Rightarrow> nat \<Rightarrow> int \<Rightarrow> string \<Rightarrow> 'ver lease_entry list \<Rightarrow> bool" where
  "sound p res ofs me L \<longleftrightarrow> (\<forall>i. \<not> stray p res ofs me L i)"

definition cut :: "string \<Rightarrow> nat \<Rightarrow> int \<Rightarrow> string \<Rightarrow> 'ver lease_entry list \<Rightarrow> 'ver lease_entry list" where
  "cut p res ofs me L = (if sound p res ofs me L then L else take (Least (stray p res ofs me L)) L)"

lemma stray_append: "i < length L \<Longrightarrow> stray p res ofs me (L @ xs) i \<longleftrightarrow> stray p res ofs me L i"
  by (simp add: stray_def nth_append)

lemma stray_take: "i < k \<Longrightarrow> stray p res ofs me (take k L) i \<longleftrightarrow> stray p res ofs me L i"
  by (auto simp: stray_def min_def)

lemma sound_prefix: "sound p res ofs me (L @ xs) \<Longrightarrow> sound p res ofs me L"
  unfolding sound_def using stray_append by (metis stray_def)

lemma sound_cut: "sound p res ofs me (cut p res ofs me L)"
proof (cases "sound p res ofs me L")
  case False
  let ?k = "Least (stray p res ofs me L)"
  have "\<not> stray p res ofs me (take ?k L) i" for i
    using not_less_Least[of i] stray_take[of i ?k] by (metis length_take min_less_iff_conj stray_def)
  then show ?thesis using False by (simp add: cut_def sound_def)
qed (simp add: cut_def)

lemma cut_prefix: "\<exists>k. cut p res ofs me L = take k L"
  unfolding cut_def by (metis take_all_iff order_refl)

lemma cut_stray_append:
  assumes "\<not> sound p res ofs me L"
  shows "cut p res ofs me (L @ xs) = cut p res ofs me L" "\<not> sound p res ofs me (L @ xs)"
proof -
  let ?k = "Least (stray p res ofs me L)"
  have k: "stray p res ofs me L ?k" using assms LeastI_ex[of "stray p res ofs me L"] by (simp add: sound_def)
  then have len: "?k < length L" by (simp add: stray_def)
  show n: "\<not> sound p res ofs me (L @ xs)" using assms sound_prefix by blast
  have "Least (stray p res ofs me (L @ xs)) = ?k"
  proof (rule Least_equality)
    show "stray p res ofs me (L @ xs) ?k" using k stray_append[OF len] by blast
    fix i assume i: "stray p res ofs me (L @ xs) i"
    show "?k \<le> i"
    proof (rule ccontr)
      assume "\<not> ?k \<le> i"
      then show False using i stray_append[of i L p res ofs me xs] not_less_Least[of i "stray p res ofs me L"] len by auto
    qed
  qed
  then show "cut p res ofs me (L @ xs) = cut p res ofs me L" using n assms len by (simp add: cut_def)
qed

lemma cut_longest:
  assumes "sound p res ofs me (take k L)"
  shows "\<exists>ys. cut p res ofs me L = take k L @ ys"
proof (cases "sound p res ofs me L")
  case True
  then show ?thesis by (intro exI[of _ "drop k L"]) (simp add: cut_def)
next
  case False
  let ?j = "Least (stray p res ofs me L)"
  have j: "stray p res ofs me L ?j" using False LeastI_ex[of "stray p res ofs me L"] by (simp add: sound_def)
  have "\<not> ?j < k" using assms j stray_take[of ?j k p res ofs me L] unfolding sound_def by blast
  then have "take ?j L = take k L @ take (?j - k) (drop k L)" by (metis le_add_diff_inverse not_less take_add)
  then show ?thesis using False by (auto simp: cut_def)
qed

lemma cut_stray_snoc:
  assumes "\<not> sound p res ofs me (L @ [e])"
  shows "cut p res ofs me (L @ [e]) = cut p res ofs me L"
proof (cases "sound p res ofs me L")
  case True
  let ?j = "Least (stray p res ofs me (L @ [e]))"
  have j: "stray p res ofs me (L @ [e]) ?j" using assms LeastI_ex[of "stray p res ofs me (L @ [e])"] by (simp add: sound_def)
  have "\<not> ?j < length L" using True j stray_append[of ?j L p res ofs me "[e]"] by (auto simp: sound_def)
  then have "?j = length L" using j by (simp add: stray_def)
  then show ?thesis using True assms by (simp add: cut_def)
qed (rule cut_stray_append(1))

lemma cut_append: "\<exists>ys. cut p res ofs me (L @ xs) = cut p res ofs me L @ ys \<and> set ys \<subseteq> set xs"
proof (cases "sound p res ofs me L")
  case True
  obtain ys where ys: "cut p res ofs me (L @ xs) = L @ ys" using cut_longest[of p res ofs me "length L" "L @ xs"] True by auto
  obtain k where "cut p res ofs me (L @ xs) = take k (L @ xs)" using cut_prefix by blast
  then have "take k (L @ xs) = L @ ys" using ys by simp
  then have "ys = take (k - length L) xs" by (metis append_eq_append_conv_if append_take_drop_id length_append linorder_le_cases take_all_iff
      take_append append_Nil2 append.right_neutral diff_is_0_eq take0 same_append_eq self_append_conv)
  then show ?thesis using True ys by (auto simp: cut_def dest: in_set_takeD)
next
  case False
  then show ?thesis using cut_stray_append(1)[OF False] by (intro exI[of _ "[]"]) simp
qed

subsection \<open>Runs of a directory\<close>

datatype lease_call = Acquire graph_scope string | Renew | ReleaseCell graph_scope string | ReleaseScope graph_scope
  | AbandonScope graph_scope | RegisterScope graph_scope | CurrentOwner graph_scope string | HoldsLocal graph_scope string
  | HoldsAbandoned graph_scope string

definition after_run :: "('s, 'a) prog \<Rightarrow> 's \<Rightarrow> 's" where
  "after_run m s = snd (m s)"

fun perform :: "('w, 'ver) lease_ops \<Rightarrow> string \<Rightarrow> lease_call \<Rightarrow> 'w lease_state \<Rightarrow> 'w lease_state" where
  "perform ops node (Acquire scope cell) s = after_run (acquire_or_renew ops scope cell node) s"
| "perform ops node Renew s = after_run (renew_local ops node) s"
| "perform ops node (ReleaseCell scope cell) s = after_run (release_cell ops scope cell node) s"
| "perform ops node (ReleaseScope scope) s = after_run (release_scope ops scope node) s"
| "perform ops node (AbandonScope scope) s = after_run (abandon_scope ops scope node) s"
| "perform ops node (RegisterScope scope) s = after_run (register_scope scope node) s"
| "perform ops node (CurrentOwner scope cell) s = after_run (current_owner ops scope cell) s"
| "perform ops node (HoldsLocal scope cell) s = after_run (holds_valid_local ops scope cell node) s"
| "perform ops node (HoldsAbandoned scope cell) s = after_run (holds_abandoned_local ops scope cell node) s"

text \<open>Between two calls the world may change as the other processes change it.\<close>

inductive directory_run ::
    "('w, 'ver) lease_ops \<Rightarrow> string \<Rightarrow> ('w \<Rightarrow> 'w \<Rightarrow> bool) \<Rightarrow> 'w lease_state \<Rightarrow> 'w lease_state \<Rightarrow> bool"
    for ops node others s0 where
  start: "directory_run ops node others s0 s0"
| call: "directory_run ops node others s0 s \<Longrightarrow> directory_run ops node others s0 (perform ops node c s)"
| elsewhere: "directory_run ops node others s0 s \<Longrightarrow> others (ld_world s) w' \<Longrightarrow> directory_run ops node others s0 (s\<lparr>ld_world := w'\<rparr>)"

context lease_world
begin

lemma call_keeps_inv:
  assumes "lease_inv n s"
  shows "lease_inv n (perform ops node c s)"
proof -
  have step: "lease_inv n (after_run m s)" if "safe n m s (\<lambda>_ _. True)" for m :: "('w lease_state, 'x) prog"
    using that by (cases "m s") (auto simp: safe_def after_run_def)
  show ?thesis
    by (cases c) (simp_all add: acquire_or_renew_def step safe_acquire safe_renew safe_release_cell safe_release_scope safe_abandon
        safe_register safe_owner safe_holds assms)
qed

lemma run_keeps_inv:
  assumes "directory_run ops node envs s0 s" "lease_inv n s0"
  shows "lease_inv n s"
  using assms by (induction rule: directory_run.induct) (auto intro: call_keeps_inv inv_env)

text \<open>A directory starts with nothing.\<close>

lemma initial_inv:
  assumes "good p res ofs (clock w) (log w)" "\<And>e d. e \<in> set (log w) \<Longrightarrow> reads p e d \<Longrightarrow> wl_holder_id d \<noteq> me"
    and "lo_path ops (trim_end_matches SLASH base @ ''/_coordination/v1/server-clock'') = pc" "1000 \<le> n"
  shows "lease_inv n (with_duration_and_holder w base (from_millis n) me)"
proof -
  have "max (from_millis n) (from_secs 1) = from_millis n" using assms(4) by (simp add: from_millis_def from_secs_def)
  then show ?thesis using assms
    by (auto simp: lease_inv_def with_duration_and_holder_def configured_def own_writes_def keyed_leases_def)
qed

lemma backed_owns:
  assumes inv: "lease_inv n s" and l: "bt_get (ld_local s) p = Some l" and now: "time s < ll_valid_until l"
  shows "\<exists>d. history s \<noteq> [] \<and> reads p (last (history s)) d \<and> lease_owner d = (node, me) \<and> \<not> wl_released d"
proof -
  let ?L = "history s"
  have L: "lawful p ?L" and tm: "\<And>e. e \<in> set ?L \<Longrightarrow> le_time e \<le> time s" and b: "backed p me ?L l" and nd: "ll_node_id l = node"
    using inv l by (auto simp: lease_inv_def good_def)
  obtain i d where i: "i < length ?L" "reads p (?L ! i) d" "lease_owner d = (node, me)" "\<not> wl_released d" "ll_valid_until l \<le> expiry (?L ! i) d"
    and later: "\<And>j d'. i < j \<Longrightarrow> j < length ?L \<Longrightarrow> reads p (?L ! j) d' \<Longrightarrow> wl_holder_id d' = me \<Longrightarrow> \<not> wl_released d'"
    using b nd unfolding backed_def by blast
  have mine: "wl_holder_id d = me" using i(3) by (simp add: lease_owner_def)
  have "length ?L - 1 < length ?L" using i(1) by simp
  from lawful_reads[OF L this] obtain d' where d': "reads p (?L ! (length ?L - 1)) d'" by blast
  have "lease_owner d' = lease_owner d \<and> \<not> wl_released d' \<and> wl_duration_ms d' = wl_duration_ms d"
    by (rule unexpired_keeps_owner[OF L tm i(1,2,4) _ _ _ _ d']) (use now i(1,5) later mine in auto)
  moreover have "?L \<noteq> []" using i(1) by auto
  ultimately show ?thesis using d' i(3) by (intro exI[of _ d']) (simp add: last_conv_nth)
qed

lemma valid_local_owns:
  assumes inv: "lease_inv n s" and q: "lease_path ops s scope cell = p"
    and held: "holds_valid_local ops scope cell node s = (Inr True, s')"
  shows "\<exists>d. history s' \<noteq> [] \<and> reads p (last (history s')) d \<and> lease_owner d = (node, me) \<and> \<not> wl_released d"
proof -
  obtain l where l: "bt_get (ld_local s) p = Some l" and now: "pbind (instant_now ops) (\<lambda>now. preturn (now < ll_valid_until l)) s = (Inr True, s')"
    using held q by (auto simp: holds_valid_local_def pbind_def preads_def is_valid_lease_def pif_def preturn_def split: option.splits if_splits)
  obtain t s1 where t: "instant_now ops s = (t, s1)" by fastforce
  obtain x where x: "t = Inr x" "x < ll_valid_until l" "s1 = s'" using now t by (cases t) (auto simp: pbind_def preturn_def)
  have "lease_inv n s' \<and> moves s s' \<and> x = time s'" using safe_now[OF inv] t x unfolding safe_def by blast
  then show ?thesis using backed_owns[of n s' l] l x(2) moves_quiet[of s s'] by (auto simp: quiet_def)
qed

end

subsection \<open>The promise of a shared store\<close>

text \<open>Between two moments the others may write whatever they like, but not in the name of this process.\<close>

definition others :: "string \<Rightarrow> string \<Rightarrow> instant \<Rightarrow> 'ver lease_entry list \<Rightarrow> instant \<Rightarrow> 'ver lease_entry list \<Rightarrow> bool" where
  "others p me t L t' L' \<longleftrightarrow> t \<le> t' \<and> (\<exists>xs. L' = L @ xs \<and> (\<forall>e \<in> set xs. le_time e \<le> t' \<and> foreign p me e))"

text \<open>
  The store orders the writes to the lease object at \<open>p\<close>; a read finds the last of them; a write is applied only when its
  condition holds, also when its answer is lost, with a new version and a timestamp no more than \<open>res\<close> behind. The clock of
  the store is probed at \<open>pc\<close>, and each of the two requests of a probe takes at most \<open>lat\<close>.
\<close>

locale lease_store =
  fixes ops :: "('w, 'ver) lease_ops"
    and clock :: "'w \<Rightarrow> instant"
    and log :: "'w \<Rightarrow> 'ver lease_entry list"
    and p pc :: string
    and me node :: string
    and res lat :: nat
    and ofs :: int
  assumes now_law: "lo_now ops wn = (t, wn') \<Longrightarrow> t = clock wn' \<and> others p me (clock wn) (log wn) (clock wn') (log wn')"
    and get_law: "lo_get ops qg wg = (rg, wg') \<Longrightarrow> others p me (clock wg) (log wg) (clock wg') (log wg')
      \<and> (qg = p \<longrightarrow> (\<forall>ver lm v. rg = Inr (ver, lm, Inr v) \<longrightarrow> log wg' \<noteq> []
            \<and> ver = le_version (last (log wg')) \<and> lm = le_modified (last (log wg')) \<and> v = le_payload (last (log wg')))
        \<and> (\<forall>err. rg = Inl (ObjNotFound err) \<longrightarrow> log wg' = []))"
    and put_law: "lo_put ops p v mode wu = (rp, wu') \<Longrightarrow>
      (\<forall>err. rp \<noteq> Inl (ObjNotImplemented err)) \<and>
      (rp \<noteq> Inr () \<and> others p me (clock wu) (log wu) (clock wu') (log wu') \<or>
       (\<exists>t1 L1 e. others p me (clock wu) (log wu) t1 L1 \<and> admits mode (held_version L1) \<and> Suc (length L1) < 2 ^ 64
          \<and> le_payload e = v \<and> t1 \<le> le_time e \<and> stamped res ofs e \<and> le_version e \<notin> le_version ` set L1
          \<and> others p me (le_time e) (L1 @ [e]) (clock wu') (log wu')))"
    and put_other: "lo_put ops qo vo modeo wo = (ro, wo') \<Longrightarrow> qo \<noteq> p \<Longrightarrow>
      others p me (clock wo) (log wo) (clock wo') (log wo') \<and> (qo = pc \<longrightarrow> clock wo' \<le> clock wo + lat)"
    and delete_other: "lo_delete ops qd wd = (rd, wd') \<Longrightarrow> others p me (clock wd) (log wd) (clock wd') (log wd')"
    and head_law: "lo_head ops qh wh = (rh, wh') \<Longrightarrow> others p me (clock wh) (log wh) (clock wh') (log wh')
      \<and> (qh = pc \<longrightarrow> clock wh' \<le> clock wh + lat \<and> (\<forall>lm. rh = Inr lm \<longrightarrow> lm * 1000000 \<le> int (clock wh') + ofs))"
    and clock_path: "pc \<noteq> p"
    and guard: "2 * lat + res + 1000000 \<le> SERVER_TIMESTAMP_RESOLUTION_GUARD"
begin

abbreviation dead :: "'w \<Rightarrow> bool" where
  "dead w \<equiv> \<not> sound p res ofs me (log w)"

abbreviation trusted :: "'w \<Rightarrow> 'ver lease_entry list" where
  "trusted w \<equiv> cut p res ofs me (log w)"

definition suspended :: "('w \<Rightarrow> (object_error + 'r) \<times> 'w) \<Rightarrow> 'w \<Rightarrow> (object_error + 'r) \<times> 'w" where
  "suspended f w = (if dead w then (Inl (ObjOther []), w)
     else case f w of (r, w') \<Rightarrow> (if dead w' then Inl (ObjOther []) else r, w'))"

definition guarded :: "('w, 'ver) lease_ops" where
  "guarded = \<lparr>lo_path = lo_path ops, lo_now = (\<lambda>w. if dead w then (clock w, w) else lo_now ops w),
     lo_get = (\<lambda>q. suspended (lo_get ops q)), lo_put = (\<lambda>q v mode. suspended (lo_put ops q v mode)),
     lo_head = (\<lambda>q. suspended (lo_head ops q)), lo_delete = (\<lambda>q. suspended (lo_delete ops q))\<rparr>"

lemma env_cut:
  assumes "others p me t L t' L'"
  shows "env p res ofs me t (cut p res ofs me L) t' (cut p res ofs me L')"
proof -
  obtain xs where xs: "L' = L @ xs" "\<forall>e \<in> set xs. le_time e \<le> t' \<and> foreign p me e" and t: "t \<le> t'" using assms by (auto simp: others_def)
  obtain ys where ys: "cut p res ofs me L' = cut p res ofs me L @ ys" "set ys \<subseteq> set xs" using cut_append[of p res ofs me L xs] xs(1) by blast
  let ?C = "cut p res ofs me L'"
  have "good p res ofs t' ?C" if g: "good p res ofs t (cut p res ofs me L)"
    unfolding good_iff
  proof (intro conjI allI impI ballI)
    fix i assume i: "i < length ?C"
    show "in_order p res ofs (take i ?C) (?C ! i)"
    proof (cases "i < length (cut p res ofs me L)")
      case True
      then show ?thesis using g unfolding good_iff ys(1) by (simp add: nth_append)
    next
      case False
      then have "?C ! i \<in> set ys" using i unfolding ys(1) by (simp add: nth_append)
      then have "foreign p me (?C ! i)" using ys(2) xs(2) by blast
      then show ?thesis using sound_cut[of p res ofs me L'] i by (auto simp: sound_def stray_def)
    qed
  next
    fix e assume "e \<in> set ?C"
    then show "le_time e \<le> t'" using g t ys(2) xs(2) unfolding ys(1) good_iff by (auto intro: order_trans)
  qed
  then show ?thesis unfolding env_def using t ys xs(2) by (auto simp: foreign_def)
qed

lemma env_stay: "env p res ofs me (clock w) (trusted w) (clock w) (trusted w)"
  by (simp add: env_refl)

lemma suspended_cases:
  assumes "suspended f w = (r, w')"
  shows "dead w \<and> w' = w \<and> r = Inl (ObjOther []) \<or> \<not> dead w \<and> (\<exists>x. f w = (x, w') \<and> (dead w' \<and> r = Inl (ObjOther []) \<or> \<not> dead w' \<and> r = x))"
  using assms unfolding suspended_def by (auto split: if_splits prod.splits)

lemma suspended_env:
  assumes "suspended f w = (r, w')" "\<And>x w1. f w = (x, w1) \<Longrightarrow> others p me (clock w) (log w) (clock w1) (log w1)"
  shows "env p res ofs me (clock w) (trusted w) (clock w') (trusted w')"
  using suspended_cases[OF assms(1)] env_cut[OF assms(2)] env_stay by auto

lemma guarded_put:
  assumes "suspended (lo_put ops p v mode) w = (r, w')"
  shows "(\<forall>err. r \<noteq> Inl (ObjNotImplemented err)) \<and>
      (r \<noteq> Inr () \<and> env p res ofs me (clock w) (trusted w) (clock w') (trusted w') \<or>
       (\<exists>t1 L1 e. env p res ofs me (clock w) (trusted w) t1 L1 \<and> admits mode (held_version L1) \<and> Suc (length L1) < 2 ^ 64
          \<and> le_payload e = v \<and> t1 \<le> le_time e \<and> stamped res ofs e \<and> le_version e \<notin> le_version ` set L1
          \<and> env p res ofs me (le_time e) (L1 @ [e]) (clock w') (trusted w')))"
proof (cases "dead w")
  case True
  then show ?thesis using assms env_stay by (auto simp: suspended_def)
next
  case alive: False
  obtain x where x: "lo_put ops p v mode w = (x, w')" and r: "r = (if dead w' then Inl (ObjOther []) else x)"
    using assms alive by (auto simp: suspended_def split: prod.splits)
  note law = put_law[OF x]
  have noimpl: "\<forall>err. r \<noteq> Inl (ObjNotImplemented err)" using law r by auto
  from law have "x \<noteq> Inr () \<and> others p me (clock w) (log w) (clock w') (log w') \<or>
       (\<exists>t1 L1 e. others p me (clock w) (log w) t1 L1 \<and> admits mode (held_version L1) \<and> Suc (length L1) < 2 ^ 64
          \<and> le_payload e = v \<and> t1 \<le> le_time e \<and> stamped res ofs e \<and> le_version e \<notin> le_version ` set L1
          \<and> others p me (le_time e) (L1 @ [e]) (clock w') (log w'))" by blast
  then show ?thesis
  proof (elim disjE exE conjE)
    assume "x \<noteq> Inr ()" "others p me (clock w) (log w) (clock w') (log w')"
    then show ?thesis using noimpl r env_cut by auto
  next
    fix t1 L1 e
    assume a: "others p me (clock w) (log w) t1 L1" "admits mode (held_version L1)" "Suc (length L1) < 2 ^ 64" "le_payload e = v"
      "t1 \<le> le_time e" "stamped res ofs e" "le_version e \<notin> le_version ` set L1" "others p me (le_time e) (L1 @ [e]) (clock w') (log w')"
    show ?thesis
    proof (cases "sound p res ofs me (L1 @ [e])")
      case True
      then have "cut p res ofs me (L1 @ [e]) = L1 @ [e]" "cut p res ofs me L1 = L1" using sound_prefix[OF True] by (simp_all add: cut_def)
      then have "env p res ofs me (clock w) (trusted w) t1 L1" "env p res ofs me (le_time e) (L1 @ [e]) (clock w') (trusted w')"
        using env_cut[OF a(1)] env_cut[OF a(8)] by simp_all
      then show ?thesis using noimpl a(2-7) by blast
    next
      case False
      obtain xs where xs: "log w' = (L1 @ [e]) @ xs" using a(8) unfolding others_def by blast
      have "dead w'" unfolding xs by (rule cut_stray_append(2)[OF False])
      moreover have "env p res ofs me (clock w) (trusted w) (clock w') (trusted w')"
      proof -
        have "trusted w' = cut p res ofs me (L1 @ [e])" unfolding xs by (rule cut_stray_append(1)[OF False])
        also have "\<dots> = cut p res ofs me L1" by (rule cut_stray_snoc[OF False])
        finally have "trusted w' = cut p res ofs me L1" .
        moreover have "t1 \<le> clock w'" using a(5,8) by (simp add: others_def)
        ultimately show ?thesis using env_trans[OF env_cut[OF a(1)] env_refl] by simp
      qed
      ultimately show ?thesis using noimpl r by auto
    qed
  qed
qed

end

text \<open>On the suspended operations a process may rely on the others.\<close>

sublocale lease_store \<subseteq> world: lease_world guarded clock "\<lambda>w. cut p res ofs me (log w)" p pc me node res lat ofs
proof (unfold_locales, goal_cases)
  case (1 wn t wn')
  show ?case
  proof (cases "dead wn")
    case True
    then have "t = clock wn" "wn' = wn" using 1 by (auto simp: guarded_def)
    then show ?thesis using env_stay by simp
  next
    case False
    then have "lo_now ops wn = (t, wn')" using 1 by (simp add: guarded_def)
    from now_law[OF this] show ?thesis using env_cut by blast
  qed
next
  case (2 qg wg rg wg')
  then have run: "suspended (lo_get ops qg) wg = (rg, wg')" by (simp add: guarded_def)
  note c = suspended_cases[OF run]
  have "(\<forall>ver lm v. rg = Inr (ver, lm, Inr v) \<longrightarrow> trusted wg' \<noteq> [] \<and> ver = le_version (last (trusted wg'))
      \<and> lm = le_modified (last (trusted wg')) \<and> v = le_payload (last (trusted wg'))) \<and> (\<forall>err. rg = Inl (ObjNotFound err) \<longrightarrow> trusted wg' = [])"
    if q: "qg = p"
  proof (cases "rg = Inl (ObjOther [])")
    case False
    then have run: "lo_get ops qg wg = (rg, wg')" and t: "trusted wg' = log wg'" using c by (auto simp: cut_def)
    show ?thesis unfolding t using get_law[OF run] q by blast
  qed simp
  moreover have "env p res ofs me (clock wg) (trusted wg) (clock wg') (trusted wg')"
    by (rule suspended_env[OF run]) (drule get_law, erule conjunct1)
  ultimately show ?case by blast
next
  case (3 v mode wu rp wu')
  then show ?case by (intro guarded_put) (simp add: guarded_def)
next
  case (4 qo vo modeo wo ro wo')
  then have run: "suspended (lo_put ops qo vo modeo) wo = (ro, wo')" by (simp add: guarded_def)
  have "env p res ofs me (clock wo) (trusted wo) (clock wo') (trusted wo')"
    by (rule suspended_env[OF run]) (drule put_other[OF _ 4(2)], erule conjunct1)
  then show ?case using suspended_cases[OF run] put_other[OF _ 4(2)] by auto
next
  case (5 qd wd rd wd')
  then have run: "suspended (lo_delete ops qd) wd = (rd, wd')" by (simp add: guarded_def)
  show ?case by (rule suspended_env[OF run delete_other])
next
  case (6 wh rh wh')
  then have run: "suspended (lo_head ops pc) wh = (rh, wh')" by (simp add: guarded_def)
  have "clock wh' \<le> clock wh + lat \<and> (\<forall>lm. rh = Inr lm \<longrightarrow> lm * 1000000 \<le> int (clock wh') + ofs)"
    using suspended_cases[OF run] head_law[of pc wh] by auto
  moreover have "env p res ofs me (clock wh) (trusted wh) (clock wh') (trusted wh')"
    by (rule suspended_env[OF run]) (drule head_law, erule conjunct1)
  ultimately show ?case by blast
next
  case 7
  show ?case by (rule clock_path)
next
  case 8
  show ?case by (rule guard)
qed


subsection \<open>Runs until a write is out of order\<close>

context lease_store
begin

abbreviation history_of :: "'w lease_state \<Rightarrow> 'ver lease_entry list" where
  "history_of s \<equiv> log (ld_world s)"

definition extends :: "'w lease_state \<Rightarrow> 'w lease_state \<Rightarrow> bool" where
  "extends s s' \<longleftrightarrow> (\<exists>xs. history_of s' = history_of s @ xs)"

text \<open>A program and its suspended form: the history only grows, a suspended world stays, and the two runs agree until then.\<close>

definition tracked :: "('w lease_state, 'a) prog \<Rightarrow> ('w lease_state, 'a) prog \<Rightarrow> bool" where
  "tracked m mg \<longleftrightarrow> (\<forall>s. extends s (snd (m s))) \<and> (\<forall>s. dead (ld_world s) \<longrightarrow> ld_world (snd (mg s)) = ld_world s)
     \<and> (\<forall>s. \<not> dead (ld_world s) \<longrightarrow> mg s = m s \<or> dead (ld_world (snd (mg s))) \<and> extends (snd (mg s)) (snd (m s)))"

lemma extends_refl [simp]: "extends s s"
  by (simp add: extends_def)

lemma extends_trans: "extends s s1 \<Longrightarrow> extends s1 s2 \<Longrightarrow> extends s s2"
  by (auto simp: extends_def)

lemma extends_same: "ld_world s1 = ld_world s2 \<Longrightarrow> extends s1 s = extends s2 s"
  by (simp add: extends_def)

lemma trackedI:
  assumes "\<And>s. extends s (snd (m s))" "\<And>s. dead (ld_world s) \<Longrightarrow> ld_world (snd (mg s)) = ld_world s"
    and "\<And>s. \<not> dead (ld_world s) \<Longrightarrow> mg s = m s \<or> dead (ld_world (snd (mg s))) \<and> extends (snd (mg s)) (snd (m s))"
  shows "tracked m mg"
  using assms unfolding tracked_def by blast

lemma tracked_pure: "(\<And>s. ld_world (snd (m s)) = ld_world s) \<Longrightarrow> tracked m m"
  by (rule trackedI) (auto simp: extends_def)

lemma tracked_basic:
  "tracked (preturn x) (preturn x)" "tracked (pfail e) (pfail e)" "tracked (plift r) (plift r)" "tracked (preads g) (preads g)"
  by (rule tracked_pure, simp add: preturn_def pfail_def plift_def preads_def)+

lemma tracked_modify: "(\<And>s. ld_world (f s) = ld_world s) \<Longrightarrow> tracked (pmodify f) (pmodify f)"
  by (rule tracked_pure) (simp add: pmodify_def)

lemma tracked_bind:
  assumes m: "tracked m mg" and f: "\<And>x. tracked (f x) (g x)"
  shows "tracked (pbind m f) (pbind mg g)"
proof (rule trackedI)
  fix s
  obtain r s1 where r: "m s = (r, s1)" by fastforce
  have e1: "extends s s1" using m r unfolding tracked_def by (metis snd_conv)
  have ef: "extends s1 (snd (f x s1))" for x using f unfolding tracked_def by blast
  show ext: "extends s (snd (pbind m f s))" using r e1 extends_trans[OF e1 ef] by (cases r) (simp_all add: pbind_def)
  obtain rg sg where rg: "mg s = (rg, sg)" by fastforce
  have stay: "ld_world (snd (g x s2)) = ld_world s2" if "dead (ld_world s2)" for x s2 using f that unfolding tracked_def by blast
  {
    assume d: "dead (ld_world s)"
    then have "ld_world sg = ld_world s" using m rg unfolding tracked_def by (metis snd_conv)
    then show "ld_world (snd (pbind mg g s)) = ld_world s" using rg stay[of sg] d by (cases rg) (simp_all add: pbind_def)
  }
  assume alive: "\<not> dead (ld_world s)"
  have "(rg, sg) = (r, s1) \<or> dead (ld_world sg) \<and> extends sg s1" using m alive r rg unfolding tracked_def by (metis snd_conv)
  then show "pbind mg g s = pbind m f s \<or> dead (ld_world (snd (pbind mg g s))) \<and> extends (snd (pbind mg g s)) (snd (pbind m f s))"
  proof (elim disjE conjE)
    assume "dead (ld_world sg)" "extends sg s1"
    then have "ld_world (snd (pbind mg g s)) = ld_world sg" "extends sg (snd (pbind m f s))"
      using rg r stay[of sg] extends_trans[OF _ ef] by (cases rg; cases r; simp add: pbind_def)+
    then show ?thesis using \<open>dead (ld_world sg)\<close> by (simp add: extends_def)
  next
    assume same: "(rg, sg) = (r, s1)"
    show ?thesis
    proof (cases r)
      case (Inr x)
      have run: "pbind mg g s = g x s1" "pbind m f s = f x s1" using rg r same Inr by (simp_all add: pbind_def)
      show ?thesis
      proof (cases "dead (ld_world s1)")
        case True
        then show ?thesis using run stay[OF True, of x] ef[of x] by (simp add: extends_def)
      next
        case False
        then show ?thesis using f[of x] unfolding run tracked_def by blast
      qed
    qed (use rg r same in \<open>simp add: pbind_def\<close>)
  qed
qed

lemma tracked_if: "tracked a ag \<Longrightarrow> tracked b bg \<Longrightarrow> tracked (pif c a b) (pif c ag bg)"
  by (simp add: pif_def)

lemma tracked_try: "tracked m mg \<Longrightarrow> tracked (ptry m) (ptry mg)"
  unfolding tracked_def ptry_def by (simp add: case_prod_beta) (metis)

lemma tracked_fold:
  assumes "\<And>x acc. tracked (f x acc) (g x acc)"
  shows "tracked (pfold xs f acc) (pfold xs g acc)"
  by (induction xs arbitrary: acc) (auto intro!: tracked_basic tracked_bind assms)

lemma tracked_world:
  assumes "\<And>w r w'. f w = (r, w') \<Longrightarrow> \<exists>xs. log w' = log w @ xs" "\<And>w. dead w \<Longrightarrow> snd (fg w) = w"
    and "\<And>w. \<not> dead w \<Longrightarrow> fg w = f w \<or> dead (snd (fg w)) \<and> snd (fg w) = snd (f w)"
  shows "tracked (in_world f) (in_world fg)"
proof (rule trackedI)
  fix s
  show "extends s (snd (in_world f s))" using assms(1) by (auto simp: in_world_def extends_def split: prod.splits)
  show "ld_world (snd (in_world fg s)) = ld_world s" if "dead (ld_world s)" using assms(2)[OF that] by (auto simp: in_world_def split: prod.splits)
  show "in_world fg s = in_world f s \<or> dead (ld_world (snd (in_world fg s))) \<and> extends (snd (in_world fg s)) (snd (in_world f s))" if "\<not> dead (ld_world s)"
    using assms(3)[OF that] by (auto simp: in_world_def extends_def split: prod.splits)
qed

lemma tracked_suspended:
  assumes "\<And>w r w'. f w = (r, w') \<Longrightarrow> \<exists>xs. log w' = log w @ xs"
  shows "tracked (in_world f) (in_world (suspended f))"
  by (rule tracked_world) (use assms in \<open>auto simp: suspended_def split: prod.splits\<close>)

lemma others_extend: "others p me t L t' L' \<Longrightarrow> \<exists>xs. L' = L @ xs"
  by (auto simp: others_def)

lemma put_extends: "lo_put ops q v mode w = (r, w') \<Longrightarrow> \<exists>xs. log w' = log w @ xs"
proof (cases "q = p")
  case True
  assume "lo_put ops q v mode w = (r, w')"
  from put_law[OF this[unfolded True]] show ?thesis by (auto dest!: others_extend)
next
  case False
  assume "lo_put ops q v mode w = (r, w')"
  from put_other[OF this False] show ?thesis using others_extend by blast
qed

lemma tracked_ops:
  "tracked (in_world (lo_get ops q)) (in_world (lo_get guarded q))" "tracked (in_world (lo_put ops q v mode)) (in_world (lo_put guarded q v mode))"
  "tracked (in_world (lo_head ops q)) (in_world (lo_head guarded q))" "tracked (in_world (lo_delete ops q)) (in_world (lo_delete guarded q))"
  "tracked (instant_now ops) (instant_now guarded)"
proof -
  have "tracked (in_world (lo_now ops)) (in_world (lo_now guarded))"
    by (rule tracked_world) (auto simp: guarded_def dest!: now_law others_extend)
  then show "tracked (instant_now ops) (instant_now guarded)" by (simp add: instant_now_def)
  have g: "lo_get guarded q = suspended (lo_get ops q)" "lo_put guarded q v mode = suspended (lo_put ops q v mode)"
    "lo_head guarded q = suspended (lo_head ops q)" "lo_delete guarded q = suspended (lo_delete ops q)" by (simp_all add: guarded_def)
  show "tracked (in_world (lo_get ops q)) (in_world (lo_get guarded q))"
    unfolding g by (rule tracked_suspended) (drule get_law[THEN conjunct1], erule others_extend)
  show "tracked (in_world (lo_put ops q v mode)) (in_world (lo_put guarded q v mode))"
    unfolding g by (rule tracked_suspended) (erule put_extends)
  show "tracked (in_world (lo_head ops q)) (in_world (lo_head guarded q))"
    unfolding g by (rule tracked_suspended) (drule head_law[THEN conjunct1], erule others_extend)
  show "tracked (in_world (lo_delete ops q)) (in_world (lo_delete guarded q))"
    unfolding g by (rule tracked_suspended) (drule delete_other, erule others_extend)
qed

lemmas tracked_rules = tracked_basic tracked_bind tracked_if tracked_try tracked_fold tracked_ops

lemma guarded_path [simp]: "lo_path guarded = lo_path ops" "lease_path guarded s scope cell = lease_path ops s scope cell"
  by (simp_all add: guarded_def lease_path_def)

lemma tracked_maps:
  "tracked (forget_local q) (forget_local q)" "tracked (forget_abandoned q) (forget_abandoned q)"
  "tracked (remember_observed q ob) (remember_observed q ob)" "tracked (observe_successful_write q fp at) (observe_successful_write q fp at)"
  "tracked (register_scope scope v) (register_scope scope v)" "tracked (leave_scope scope v) (leave_scope scope v)"
  "tracked (not_cell_writer c o') (not_cell_writer c o')"
  by (rule tracked_pure, simp add: forget_local_def forget_abandoned_def remember_observed_def observe_successful_write_def register_scope_def
      leave_scope_def not_cell_writer_def pfail_def pmodify_def Let_def split: prod.split option.split)+

lemmas tracked_all = tracked_rules tracked_maps

lemma tracked_read: "tracked (read_stored ops q) (read_stored guarded q)"
  unfolding read_stored_def by (intro tracked_bind tracked_ops) (auto split: sum.split object_error.split prod.split intro!: tracked_rules)

lemma tracked_probe: "tracked (probe_server_time ops) (probe_server_time guarded)"
  unfolding probe_server_time_def by (auto split: prod.split intro!: tracked_rules tracked_modify)

lemma tracked_remaining: "tracked (shared_remaining_ms ops q stored) (shared_remaining_ms guarded q stored)"
  unfolding shared_remaining_ms_def Let_def by (intro tracked_bind tracked_ops tracked_basic) (auto split: option.split intro!: tracked_all tracked_probe)

lemma tracked_valid: "tracked (is_valid_lease ops l v) (is_valid_lease guarded l v)"
  unfolding is_valid_lease_def by (auto split: option.split intro!: tracked_rules)

lemma tracked_check: "tracked (check_lease_free ops q cell v h current) (check_lease_free guarded q cell v h current)"
  unfolding check_lease_free_def by (auto split: option.split intro!: tracked_all tracked_remaining)

lemma tracked_write: "tracked (write_lease ops q v same current) (write_lease guarded q v same current)"
  unfolding write_lease_def by (intro tracked_bind tracked_ops) (auto split: sum.split object_error.split intro!: tracked_rules)

lemma tracked_keep: "tracked (keep_lease q l force) (keep_lease q l force)"
  unfolding keep_lease_def by (intro tracked_all tracked_modify) simp_all

lemma tracked_attempts: "tracked (lease_attempts k ops q scope cell v force) (lease_attempts k guarded q scope cell v force)"
proof (induction k)
  case (Suc k)
  show ?case unfolding lease_attempts.simps Let_def
    by (intro tracked_bind tracked_basic tracked_ops tracked_read tracked_check tracked_write)
       (auto split: sum.split object_error.split intro!: tracked_all tracked_keep Suc)
qed (simp add: tracked_basic)

lemma tracked_acquire: "tracked (acquire_or_renew_inner ops scope cell v force) (acquire_or_renew_inner guarded scope cell v force)"
  unfolding acquire_or_renew_inner_def guarded_path
  by (intro tracked_bind tracked_basic tracked_if) (auto split: option.split intro!: tracked_all tracked_valid tracked_attempts)

lemma tracked_holds: "tracked (holds_valid_local ops scope cell v) (holds_valid_local guarded scope cell v)"
  unfolding holds_valid_local_def guarded_path by (intro tracked_bind tracked_basic tracked_valid)

lemma tracked_release_attempts: "tracked (release_attempts k ops q v g) (release_attempts k guarded q v g)"
proof (induction k)
  case (Suc k)
  show ?case unfolding release_attempts.simps Let_def
    by (intro tracked_bind tracked_basic tracked_read)
       (auto split: option.split sum.split object_error.split intro!: tracked_all Suc)
qed (simp add: tracked_basic)

lemma tracked_release: "tracked (release_stored ops scope cell v g) (release_stored guarded scope cell v g)"
  unfolding release_stored_def guarded_path by (intro tracked_bind tracked_basic tracked_release_attempts)

lemma tracked_renew: "tracked (renew_local ops v) (renew_local guarded v)"
proof -
  have "tracked (renew_one ops v l fs) (renew_one guarded v l fs)" for l fs
    unfolding renew_one_def guarded_path
    by (intro tracked_bind tracked_try tracked_acquire) (auto split: sum.split intro!: tracked_all tracked_holds)
  then show ?thesis unfolding renew_local_def by (intro tracked_bind tracked_basic tracked_fold)
qed

lemma tracked_release_scope: "tracked (release_scope ops scope v) (release_scope guarded scope v)"
proof -
  have "tracked (release_one ops scope v l fs) (release_one guarded scope v l fs)" for l fs
    unfolding release_one_def by (intro tracked_bind tracked_try tracked_release tracked_basic)
  then show ?thesis unfolding release_scope_def by (intro tracked_bind tracked_maps tracked_if tracked_basic tracked_modify tracked_fold) simp_all
qed

lemma tracked_release_cell: "tracked (release_cell ops scope cell v) (release_cell guarded scope cell v)"
  unfolding release_cell_def guarded_path
  by (intro tracked_bind tracked_basic) (auto split: option.split intro!: tracked_all tracked_release)

lemma tracked_abandon: "tracked (abandon_scope ops scope v) (abandon_scope guarded scope v)"
  unfolding abandon_scope_def by (intro tracked_bind tracked_maps tracked_if tracked_basic tracked_modify tracked_ops) simp_all

lemma tracked_owner: "tracked (current_owner ops scope cell) (current_owner guarded scope cell)"
  unfolding current_owner_def guarded_path
  by (intro tracked_bind tracked_basic tracked_read) (auto split: option.split intro!: tracked_rules tracked_remaining)

lemma tracked_abandoned: "tracked (holds_abandoned_local ops scope cell v) (holds_abandoned_local guarded scope cell v)"
  unfolding holds_abandoned_local_def guarded_path
  by (intro tracked_bind tracked_basic) (auto split: option.split intro!: tracked_all tracked_valid)

lemmas tracked_calls = tracked_acquire tracked_renew tracked_release_cell tracked_release_scope tracked_abandon tracked_maps(5)
  tracked_owner tracked_holds tracked_abandoned

lemma tracked_perform:
  "extends s (perform ops node c s)"
  "\<not> dead (ld_world s) \<Longrightarrow> perform guarded node c s = perform ops node c s
     \<or> dead (ld_world (perform guarded node c s)) \<and> extends (perform guarded node c s) (perform ops node c s)"
proof -
  have call: "extends s (after_run m s) \<and> (\<not> dead (ld_world s) \<longrightarrow> after_run mg s = after_run m s
     \<or> dead (ld_world (after_run mg s)) \<and> extends (after_run mg s) (after_run m s))" if "tracked m mg" for m mg :: "('w lease_state, 'x) prog"
    using that unfolding tracked_def after_run_def by metis
  show "extends s (perform ops node c s)" by (cases c) (simp_all add: acquire_or_renew_def call[OF tracked_acquire] call[OF tracked_renew]
    call[OF tracked_release_cell] call[OF tracked_release_scope] call[OF tracked_abandon] call[OF tracked_maps(5)] call[OF tracked_owner]
    call[OF tracked_holds] call[OF tracked_abandoned])
  assume "\<not> dead (ld_world s)"
  then show "perform guarded node c s = perform ops node c s
     \<or> dead (ld_world (perform guarded node c s)) \<and> extends (perform guarded node c s) (perform ops node c s)"
    using call[OF tracked_acquire] call[OF tracked_renew] call[OF tracked_release_cell] call[OF tracked_release_scope]
      call[OF tracked_abandon] call[OF tracked_maps(5)] call[OF tracked_owner] call[OF tracked_holds] call[OF tracked_abandoned]
    by (cases c) (simp_all add: acquire_or_renew_def)
qed

text \<open>A run on the store, as far as it goes with the operations suspended.\<close>

abbreviation other_writes :: "'w \<Rightarrow> 'w \<Rightarrow> bool" where
  "other_writes w w' \<equiv> others p me (clock w) (log w) (clock w') (log w')"

lemma tracked_run:
  assumes "directory_run ops node other_writes s0 s"
  shows "\<exists>sg. directory_run guarded node world.envs s0 sg \<and> (sg = s \<and> \<not> dead (ld_world s) \<or> dead (ld_world sg) \<and> extends sg s)"
  using assms
proof (induction rule: directory_run.induct)
  case start
  show ?case by (intro exI[of _ s0]) (auto intro: directory_run.start)
next
  case (call s c)
  then obtain sg where run: "directory_run guarded node world.envs s0 sg" and sg: "sg = s \<and> \<not> dead (ld_world s) \<or> dead (ld_world sg) \<and> extends sg s" by blast
  from sg show ?case
  proof (elim disjE conjE)
    assume s: "sg = s" "\<not> dead (ld_world s)"
    let ?g = "perform guarded node c s"
    have run': "directory_run guarded node world.envs s0 ?g" using directory_run.call[OF run, of c] s(1) by simp
    have "?g = perform ops node c s \<and> \<not> dead (ld_world ?g) \<or> dead (ld_world ?g) \<and> extends ?g (perform ops node c s)"
      using tracked_perform(2)[OF s(2), of c] by (cases "?g = perform ops node c s") auto
    then show ?thesis using run' by (intro exI[of _ ?g]) auto
  next
    assume "dead (ld_world sg)" "extends sg s"
    then show ?thesis using run extends_trans[OF _ tracked_perform(1)] by blast
  qed
next
  case (elsewhere s w')
  then obtain sg where run: "directory_run guarded node world.envs s0 sg" and sg: "sg = s \<and> \<not> dead (ld_world s) \<or> dead (ld_world sg) \<and> extends sg s" by blast
  let ?s = "s\<lparr>ld_world := w'\<rparr>"
  from sg show ?case
  proof (elim disjE conjE)
    assume "sg = s" "\<not> dead (ld_world s)"
    then have "directory_run guarded node world.envs s0 ?s" using directory_run.elsewhere[OF run] env_cut[OF elsewhere.hyps(2)] by simp
    then show ?thesis by (intro exI[of _ ?s]) auto
  next
    assume "dead (ld_world sg)" "extends sg s"
    moreover have "extends s ?s" using others_extend[OF elsewhere.hyps(2)] by (simp add: extends_def)
    ultimately show ?thesis using run extends_trans by blast
  qed
qed

end

subsection \<open>What a run guarantees\<close>

context lease_store
begin

lemma run_result:
  assumes run: "directory_run ops node other_writes (with_duration_and_holder w base (from_millis n) me) s"
    and start: "\<forall>e \<in> set (log w). le_time e \<le> clock w \<and> foreign p me e"
    and config: "lo_path ops (trim_end_matches SLASH base @ ''/_coordination/v1/server-clock'') = pc" "1000 \<le> n"
  shows own_in_order: "k < length (history_of s) \<Longrightarrow> sound p res ofs me (take (Suc k) (history_of s)) \<Longrightarrow>
      in_order p res ofs (take k (history_of s)) (history_of s ! k)"
    and alive_inv: "\<not> dead (ld_world s) \<Longrightarrow> world.lease_inv n s"
proof -
  obtain sg where run': "directory_run guarded node world.envs (with_duration_and_holder w base (from_millis n) me) sg"
    and sg: "sg = s \<and> \<not> dead (ld_world s) \<or> dead (ld_world sg) \<and> extends sg s" using tracked_run[OF run] by blast
  obtain j where j: "trusted w = take j (log w)" using cut_prefix by blast
  have mem: "e \<in> set (log w)" if "e \<in> set (trusted w)" for e using that unfolding j by (rule in_set_takeD)
  have "good p res ofs (clock w) (trusted w)"
    unfolding good_iff
  proof (intro conjI allI impI ballI)
    fix i assume i: "i < length (trusted w)"
    then have "foreign p me (trusted w ! i)" using start mem[OF nth_mem] by blast
    then show "in_order p res ofs (take i (trusted w)) (trusted w ! i)" using sound_cut[of p res ofs me "log w"] i by (auto simp: sound_def stray_def)
  qed (use start mem in blast)
  then have inv: "world.lease_inv n sg"
    by (intro world.run_keeps_inv[OF run'] world.initial_inv) (use start mem config in \<open>auto simp: foreign_def\<close>)
  then have good: "good p res ofs (clock (ld_world sg)) (trusted (ld_world sg))" by (simp add: world.lease_inv_def)
  have same: "trusted (ld_world sg) = trusted (ld_world s) \<and> (dead (ld_world sg) \<longrightarrow> dead (ld_world s))"
    using sg
  proof (elim disjE conjE)
    assume d: "dead (ld_world sg)" and e: "extends sg s"
    obtain xs where xs: "history_of s = history_of sg @ xs" using e by (auto simp: extends_def)
    show ?thesis unfolding xs using cut_stray_append[OF d, of xs] by metis
  qed simp
  {
    assume k: "k < length (history_of s)" and ok: "sound p res ofs me (take (Suc k) (history_of s))"
    obtain ys where ys: "trusted (ld_world s) = take (Suc k) (history_of s) @ ys" using cut_longest[OF ok] by blast
    have "k < length (trusted (ld_world s))" using k unfolding ys by simp
    then have "in_order p res ofs (take k (trusted (ld_world s))) (trusted (ld_world s) ! k)"
      using good unfolding same[THEN conjunct1] good_iff by blast
    moreover have "take k (trusted (ld_world s)) = take k (history_of s)" "trusted (ld_world s) ! k = history_of s ! k"
      using k unfolding ys by (simp_all add: nth_append)
    ultimately show "in_order p res ofs (take k (history_of s)) (history_of s ! k)" by simp
  }
  assume "\<not> dead (ld_world s)"
  then have "sg = s" using sg same by blast
  then show "world.lease_inv n s" using inv by simp
qed

lemma check_true:
  assumes "lease_path ops s scope cell = p" "holds_valid_local ops scope cell node s = (Inr True, s')"
  shows "\<exists>l. bt_get (ld_local s') p = Some l \<and> clock (ld_world s') < ll_valid_until l"
proof -
  obtain l where l: "bt_get (ld_local s) p = Some l" and now: "pbind (instant_now ops) (\<lambda>now. preturn (now < ll_valid_until l)) s = (Inr True, s')"
    using assms by (auto simp: holds_valid_local_def pbind_def preads_def is_valid_lease_def pif_def preturn_def split: option.splits if_splits)
  obtain t w' where t: "lo_now ops (ld_world s) = (t, w')" by fastforce
  then have "s' = s\<lparr>ld_world := w'\<rparr>" "t < ll_valid_until l" using now by (auto simp: instant_now_def in_world_def pbind_def preturn_def)
  then show ?thesis using l now_law[OF t] by auto
qed

lemma alive_owns:
  assumes "world.lease_inv n s" "\<not> dead (ld_world s)" "bt_get (ld_local s) p = Some l" "clock (ld_world s) < ll_valid_until l"
  shows "\<exists>d. history_of s \<noteq> [] \<and> reads p (last (history_of s)) d \<and> lease_owner d = (node, me) \<and> \<not> wl_released d"
  using world.backed_owns[OF assms(1,3,4)] assms(2) by (simp add: cut_def)

end

end
