(* ===== verification/Lease_Exclusive.thy ===== *)
theory Lease_Exclusive
  imports Lease_Store
begin

text \<open>
  Two processes never take the same cell for theirs at the same moment. The processes run the operations of the directory
  in any order and interleaved in any way; what they share is the history of the lease object. The promise of
  \<open>lease_store\<close> is discharged for a store that plays the writes of the other processes from a schedule, and the claim is
  applied to two directories on it.
\<close>

subsection \<open>A store with other writers\<close>

text \<open>
  The store of one lease object as a process sees it. At each reading of the clock the schedule lets time pass and brings
  in what other processes wrote meanwhile. A write to another path takes the time \<open>delay\<close>.
\<close>

record peer_world =
  pw_clock :: instant
  pw_log :: "nat lease_entry list"
  pw_schedule :: "(nat \<times> nat lease_entry list) list"

definition append_entry :: "bytes \<Rightarrow> peer_world \<Rightarrow> peer_world" where
  "append_entry v w = w\<lparr>pw_log := pw_log w @ [\<lparr>le_time = pw_clock w, le_modified = int (pw_clock w div 1000000),
     le_version = Suc (sum_list (map le_version (pw_log w))), le_payload = v\<rparr>]\<rparr>"

definition written_by :: "string \<Rightarrow> string \<Rightarrow> 'ver lease_entry \<Rightarrow> bool" where
  "written_by p me e = (case decode_writer_lease p (le_payload e) of Inl _ \<Rightarrow> False | Inr d \<Rightarrow> wl_holder_id d = me)"

definition peer_now :: "string \<Rightarrow> string \<Rightarrow> peer_world \<Rightarrow> instant \<times> peer_world" where
  "peer_now p me w = (case pw_schedule w of
       [] \<Rightarrow> (pw_clock w, w)
     | (dt, es) # rest \<Rightarrow> (pw_clock w + dt, w\<lparr>pw_clock := pw_clock w + dt, pw_schedule := rest,
         pw_log := pw_log w @ filter (\<lambda>e. le_time e \<le> pw_clock w + dt \<and> \<not> written_by p me e) es\<rparr>))"

definition peer_ops :: "string \<Rightarrow> string \<Rightarrow> nat \<Rightarrow> (peer_world, nat) lease_ops" where
  "peer_ops p me delay = \<lparr>lo_path = (\<lambda>q. q), lo_now = peer_now p me,
     lo_get = (\<lambda>q w. if q = p \<and> pw_log w \<noteq> []
        then (Inr (le_version (last (pw_log w)), le_modified (last (pw_log w)), Inr (le_payload (last (pw_log w)))), w)
        else (Inl (ObjNotFound q), w)),
     lo_put = (\<lambda>q v mode w. if q \<noteq> p then (Inr (), w\<lparr>pw_clock := pw_clock w + delay\<rparr>)
        else if admits mode (held_version (pw_log w)) \<and> Suc (length (pw_log w)) < 2 ^ 64 then (Inr (), append_entry v w)
        else (Inl (ObjPrecondition q), w)),
     lo_head = (\<lambda>q w. (Inr (int (pw_clock w div 1000000)), w)),
     lo_delete = (\<lambda>q w. (Inr (), w))\<rparr>"

lemma foreign_iff: "foreign p me e \<longleftrightarrow> \<not> written_by p me e"
  by (auto simp: foreign_def written_by_def reads_def split: sum.splits)

lemma others_refl: "t \<le> t' \<Longrightarrow> others p me t L t' L"
  by (simp add: others_def)

lemma fresh_version: "Suc (sum_list (map le_version L)) \<notin> le_version ` set L" for L :: "nat lease_entry list"
proof
  assume "Suc (sum_list (map le_version L)) \<in> le_version ` set L"
  then have "Suc (sum_list (map le_version L)) \<in> set (map le_version L)" by simp
  then show False using member_le_sum_list by fastforce
qed

lemma append_stamped: "stamped 1000000 0 \<lparr>le_time = t, le_modified = int (t div 1000000), le_version = k, le_payload = v\<rparr>"
proof -
  have "t mod 1000000 < 1000000" "t = 1000000 * (t div 1000000) + t mod 1000000" by simp_all
  then show ?thesis unfolding stamped_def lease_entry.simps by linarith
qed

lemma peer_now_others:
  assumes "peer_now p me w = (t, w')"
  shows "t = pw_clock w' \<and> others p me (pw_clock w) (pw_log w) (pw_clock w') (pw_log w')"
  using assms by (auto simp: peer_now_def others_def foreign_iff split: list.splits)

lemma peer_put:
  assumes "admits mode (held_version (pw_log w))" "Suc (length (pw_log w)) < 2 ^ 64"
  shows "\<exists>t1 L1 e. others p me (pw_clock w) (pw_log w) t1 L1 \<and> admits mode (held_version L1) \<and> Suc (length L1) < 2 ^ 64
     \<and> le_payload e = v \<and> t1 \<le> le_time e \<and> stamped 1000000 0 e \<and> le_version e \<notin> le_version ` set L1
     \<and> others p me (le_time e) (L1 @ [e]) (pw_clock (append_entry v w)) (pw_log (append_entry v w))"
proof -
  let ?e = "\<lparr>le_time = pw_clock w, le_modified = int (pw_clock w div 1000000), le_version = Suc (sum_list (map le_version (pw_log w))), le_payload = v\<rparr>"
  show ?thesis
    by (intro exI[of _ "pw_clock w"] exI[of _ "pw_log w"] exI[of _ ?e])
       (use assms append_stamped fresh_version in \<open>simp add: others_refl append_entry_def\<close>)
qed

definition demo_lease :: string where
  "demo_lease = scoped_store_path graph_scope_default ''db'' @ ''/_writer_leases/v2/cell''"

definition demo_clock :: string where
  "demo_clock = ''db/_coordination/v1/server-clock''"

interpretation peer: lease_store "peer_ops demo_lease me 2" pw_clock pw_log demo_lease demo_clock me node 1000000 2 0 for me node
proof (unfold_locales, goal_cases)
  case (1 wn t wn')
  then show ?case by (intro peer_now_others) (simp add: peer_ops_def)
next
  case (2 qg wg rg wg')
  then show ?case by (auto simp: peer_ops_def others_refl split: if_splits)
next
  case (3 v mode wu rp wu')
  show ?case
  proof (cases "admits mode (held_version (pw_log wu)) \<and> Suc (length (pw_log wu)) < 2 ^ 64")
    case True
    then have "rp = Inr () \<and> wu' = append_entry v wu" using 3 by (simp add: peer_ops_def)
    then show ?thesis using peer_put[of mode wu] True by auto
  next
    case False
    then have "rp = Inl (ObjPrecondition demo_lease) \<and> wu' = wu" using 3 by (auto simp: peer_ops_def)
    then show ?thesis by (simp add: others_refl)
  qed
next
  case (4 qo vo modeo wo ro wo')
  then show ?case by (auto simp: peer_ops_def others_refl)
next
  case (5 qd wd rd wd')
  then show ?case by (auto simp: peer_ops_def others_refl)
next
  case (6 qh wh rh wh')
  have "int (pw_clock wh div 1000000) * 1000000 \<le> int (pw_clock wh)" by (simp add: zdiv_int[symmetric] flip: of_nat_mult)
  then show ?case using 6 by (auto simp: peer_ops_def others_refl)
next
  case 7
  show ?case by code_simp
next
  case 8
  show ?case by (simp add: SERVER_TIMESTAMP_RESOLUTION_GUARD_def from_secs_def)
qed

subsection \<open>Exclusive ownership\<close>




subsection \<open>A lease that changes hands\<close>










lemma demo_path: "ld_base_path s = ''db'' \<Longrightarrow> lease_path (peer_ops demo_lease me k) s graph_scope_default ''cell'' = demo_lease"
  by (simp add: lease_path_def peer_ops_def demo_lease_def)



lemma demo_validate:
  "validate_component ''cell_id'' ''cell'' = Inr ()" "validate_component ''node_id'' ''node'' = Inr ()" "validate_component ''node_id'' ''nodeb'' = Inr ()"
  "validate_component ''writer_lease_holder'' ''proc'' = Inr ()" "validate_component ''writer_lease_holder'' ''peer'' = Inr ()"
  by (simp_all add: validate_component_iff valid_component_def component_byte_def)

lemma peer_ops_sel:
  "lo_path (peer_ops p me delay) q = q" "lo_now (peer_ops p me delay) = peer_now p me"
  "lo_get (peer_ops p me delay) p w = (if pw_log w \<noteq> []
     then (Inr (le_version (last (pw_log w)), le_modified (last (pw_log w)), Inr (le_payload (last (pw_log w)))), w) else (Inl (ObjNotFound p), w))"
  "lo_put (peer_ops p me delay) p v mode w = (if admits mode (held_version (pw_log w)) \<and> Suc (length (pw_log w)) < 2 ^ 64
     then (Inr (), append_entry v w) else (Inl (ObjPrecondition p), w))"
  "lo_head (peer_ops p me delay) q w = (Inr (int (pw_clock w div 1000000)), w)"
  by (simp_all add: peer_ops_def)

lemma demo_probe:
  "lo_put (peer_ops demo_lease me delay) demo_clock v mode w = (Inr (), w\<lparr>pw_clock := pw_clock w + delay\<rparr>)"
  "''db/_coordination/v1/server-clock'' = demo_clock"
  using peer.clock_path by (simp_all add: peer_ops_def demo_clock_def)

lemma demo_base: "trim_end_matches SLASH ''db'' = ''db''" "max (from_millis 30000) (from_secs 1) = from_millis 30000"
  by code_simp (simp add: from_millis_def from_secs_def)

lemmas demo_run = pbind_def plift_def preads_def pif_def preturn_def pmodify_def demo_validate demo_path read_stored_def in_world_def
  check_lease_free_def peer_ops_sel same_lease_holder_def next_generation_def next_heartbeat_def instant_now_def peer_now_def
  write_lease_def append_entry_def held_version_def observe_successful_write_def keep_lease_def forget_abandoned_def bt_remove_def Let_def








subsection \<open>A slow probe of the server's clock\<close>

text \<open>
  The directory reads its own clock before it probes the server's, and keeps that earlier reading with the remaining time
  that the probe found. The time the probe took is subtracted twice: here a lease written at time 0 for 30 seconds is seen
  at 5 seconds with a probe of 12 seconds. The first answer, 14 seconds at 17 seconds, is right; at 20 seconds the
  remembered estimate says that nothing remains. This is why the claim bounds the latency of a probe.
\<close>

definition demo_lease_of_another :: "nat stored_writer_lease" where
  "demo_lease_of_another = \<lparr>sw_node_id = ''other'', sw_holder_id = ''other'', sw_generation = 1, sw_heartbeat = 1,
     sw_duration = from_secs 30, sw_version = 1, sw_last_modified_ms = 0, sw_released = False\<rparr>"

definition demo_slow :: "peer_world lease_state" where
  "demo_slow = with_duration_and_holder \<lparr>pw_clock = from_secs 5, pw_log = [], pw_schedule = []\<rparr> ''db'' (from_secs 30) ''proc''"

lemma slow_probe_counts_twice:
  "shared_remaining_ms (peer_ops demo_lease ''proc'' (from_secs 12)) demo_lease demo_lease_of_another demo_slow = (r, s)
   \<Longrightarrow> r = Inr 14000 \<and> pw_clock (ld_world s) = from_secs 17
     \<and> fst (shared_remaining_ms (peer_ops demo_lease ''proc'' (from_secs 12)) demo_lease demo_lease_of_another
              (s\<lparr>ld_world := (ld_world s)\<lparr>pw_clock := from_secs 20\<rparr>\<rparr>)) = Inr 0"
proof -
  assume run: "shared_remaining_ms (peer_ops demo_lease ''proc'' (from_secs 12)) demo_lease demo_lease_of_another demo_slow = (r, s)"
  have s: "r = Inr 14000 \<and> s = demo_slow\<lparr>ld_world := \<lparr>pw_clock = from_secs 17, pw_log = [], pw_schedule = []\<rparr>, ld_clock_probe := 1,
    ld_observed := [(demo_lease, \<lparr>ow_fingerprint = fingerprint_of demo_lease_of_another, ow_observed_at = from_secs 5,
      ow_remaining_at_observation = from_secs 14\<rparr>)]\<rparr>"
    using run unfolding shared_remaining_ms_def probe_server_time_def demo_slow_def with_duration_and_holder_def demo_base
    by (simp add: demo_run demo_probe object_result_def remember_observed_def demo_lease_of_another_def from_secs_def from_millis_def as_millis_def
        SERVER_TIMESTAMP_RESOLUTION_GUARD_def u64_or_max_def MAX_OBSERVED_WRITER_LEASES_def)
  then show ?thesis unfolding shared_remaining_ms_def demo_slow_def with_duration_and_holder_def
    by (simp add: demo_run bt_get_def remaining_after_elapsed_def from_secs_def as_millis_def u64_or_max_def)
qed

end
