(* ===== verification/Cell_Drop.thy ===== *)
theory Cell_Drop
  imports Changelog_History
begin

text \<open>
  Dropping a cell, \<^verbatim>\<open>drop_cell\<close> of \<^verbatim>\<open>src/shard/write.rs\<close>: a pending marker closes the read gate and the write fence of the cell, the records
  go in batches of their own transactions, and a last transaction replaces the pending marker by the final one and stores the
  result. The records a scan returns are read before the first batch is deleted; renewing the write guard does nothing. The states a drop
  goes through are the relation \<open>drop_moves\<close>, and every run, failed ones included, is a sequence of its moves.
\<close>

subsection \<open>The operation\<close>

definition GRAPH_MAINTENANCE_BATCH_KEYS :: nat where
  "GRAPH_MAINTENANCE_BATCH_KEYS = 512"

definition flush_drop_cell_batch :: "'t txn_ops \<Rightarrow> shard_env \<Rightarrow> string \<Rightarrow> string list \<Rightarrow> ('t shard_state, u64) prog" where
  "flush_drop_cell_batch ops sh cell_id keys =
     pif (keys = []) (preturn 0)
       (pbind (plift (db_writer sh)) (\<lambda>_.
        pbind (txn_begin ops) (\<lambda>_.
        pbind (validate_write_fence_txn ops sh cell_id ''drop_cell'') (\<lambda>_.
        pbind (pfor keys (txn_delete ops)) (\<lambda>_.
        pbind (commit_txn_strict ops (sh_await_durable_writes sh)) (\<lambda>_.
          preturn (word_of_nat (length keys))))))))"

text \<open>The sweep over the scanned keys: the keys pending deletion, and how many keys and batches went.\<close>

fun drop_sweep ::
    "'t txn_ops \<Rightarrow> shard_env \<Rightarrow> string \<Rightarrow> (bytes \<times> bytes) list \<Rightarrow> string list \<Rightarrow> u64 \<Rightarrow> u64 \<Rightarrow> ('t shard_state, u64 \<times> u64) prog" where
  "drop_sweep ops sh cell_id [] pending deleted_keys batches =
     pif (pending = []) (preturn (deleted_keys, batches))
       (pbind (flush_drop_cell_batch ops sh cell_id pending) (\<lambda>deleted.
          preturn (saturating_add deleted_keys deleted, saturating_add batches 1)))"
| "drop_sweep ops sh cell_id (kv # kvs) pending deleted_keys batches =
     (let key = from_utf8_lossy (fst kv) in
      if key = cell_drop_pending_marker cell_id then drop_sweep ops sh cell_id kvs pending deleted_keys batches
      else let pending = pending @ [key] in
        if GRAPH_MAINTENANCE_BATCH_KEYS \<le> length pending then
          pbind (flush_drop_cell_batch ops sh cell_id pending) (\<lambda>deleted.
            drop_sweep ops sh cell_id kvs [] (saturating_add deleted_keys deleted) (saturating_add batches 1))
        else drop_sweep ops sh cell_id kvs pending deleted_keys batches)"

text \<open>The first transaction: the result when there is nothing left to do, else the epoch of the marker.\<close>

definition drop_begin :: "'t txn_ops \<Rightarrow> shard_env \<Rightarrow> string \<Rightarrow> string \<Rightarrow> ('t shard_state, graph_cell_drop_result + storage_sequence) prog" where
  "drop_begin ops sh cell_id idempotency_key =
     (let idem_key = cell_drop_idempotency cell_id idempotency_key; marker_key = cell_drop_marker cell_id;
          pending_marker_key = cell_drop_pending_marker cell_id
      in pbind (plift (db_writer sh)) (\<lambda>_.
         pbind (txn_begin ops) (\<lambda>_.
         pbind (read_txn_remote ops idem_key) (\<lambda>known.
           case known of
             Some value \<Rightarrow> pbind (plift (decode_cell_drop_idempotency idem_key cell_id idempotency_key value)) (\<lambda>result. preturn (Inl result))
           | None \<Rightarrow>
               pbind (read_txn_remote ops marker_key) (\<lambda>marker.
                 case marker of
                   Some value \<Rightarrow>
                     pbind (plift (decode_u64 marker_key value)) (\<lambda>marker_epoch.
                       let result = \<lparr>cd_marker_epoch = marker_epoch, cd_deleted_keys = 0, cd_batches = 0, cd_already_dropped = True\<rparr>
                       in pbind (txn_put ops idem_key (encode_cell_drop_idempotency cell_id idempotency_key result)) (\<lambda>_.
                          pbind (commit_txn_strict ops (sh_await_durable_writes sh)) (\<lambda>_. preturn (Inl result))))
                 | None \<Rightarrow>
                     pbind (validate_write_fence_txn ops sh cell_id ''drop_cell'') (\<lambda>_.
                     pbind (read_txn_remote ops pending_marker_key) (\<lambda>found.
                     pbind (case found of
                              Some value \<Rightarrow> plift (decode_u64 pending_marker_key value)
                            | None \<Rightarrow>
                                pbind (txn_seqnum ops) (\<lambda>seqnum.
                                  let epoch = saturating_add seqnum 1
                                  in pbind (txn_put ops pending_marker_key (encode_u64 epoch)) (\<lambda>_. preturn epoch))) (\<lambda>marker_epoch.
                     pbind (commit_txn_strict ops (sh_await_durable_writes sh)) (\<lambda>_. preturn (Inr marker_epoch))))))))))"

definition drop_finish ::
    "'t txn_ops \<Rightarrow> shard_env \<Rightarrow> string \<Rightarrow> string \<Rightarrow> graph_cell_drop_result \<Rightarrow> ('t shard_state, graph_cell_drop_result) prog" where
  "drop_finish ops sh cell_id idempotency_key result =
     (let idem_key = cell_drop_idempotency cell_id idempotency_key
      in pbind (plift (db_writer sh)) (\<lambda>_.
         pbind (txn_begin ops) (\<lambda>_.
         pbind (validate_write_fence_txn ops sh cell_id ''drop_cell'') (\<lambda>_.
         pbind (read_txn_remote ops idem_key) (\<lambda>known.
           case known of
             Some value \<Rightarrow> plift (decode_cell_drop_idempotency idem_key cell_id idempotency_key value)
           | None \<Rightarrow>
               pbind (txn_put ops (cell_drop_marker cell_id) (encode_u64 (cd_marker_epoch result))) (\<lambda>_.
               pbind (txn_delete ops (cell_drop_pending_marker cell_id)) (\<lambda>_.
               pbind (txn_put ops idem_key (encode_cell_drop_idempotency cell_id idempotency_key result)) (\<lambda>_.
               pbind (commit_txn_strict ops (sh_await_durable_writes sh)) (\<lambda>_. preturn result)))))))))"

definition drop_cell_locked :: "'t txn_ops \<Rightarrow> shard_env \<Rightarrow> string \<Rightarrow> string \<Rightarrow> ('t shard_state, graph_cell_drop_result) prog" where
  "drop_cell_locked ops sh cell_id idempotency_key =
     pbind (drop_begin ops sh cell_id idempotency_key) (\<lambda>begun.
       case begun of
         Inl result \<Rightarrow> preturn result
       | Inr marker_epoch \<Rightarrow>
           pbind (scan_remote_prefix ops (cell_prefix cell_id)) (\<lambda>kvs.
           pbind (drop_sweep ops sh cell_id kvs [] 0 0) (\<lambda>(deleted_keys, batches).
             drop_finish ops sh cell_id idempotency_key
               \<lparr>cd_marker_epoch = marker_epoch, cd_deleted_keys = deleted_keys, cd_batches = batches, cd_already_dropped = False\<rparr>)))"

definition drop_cell :: "'t txn_ops \<Rightarrow> shard_env \<Rightarrow> string \<Rightarrow> string \<Rightarrow> ('t shard_state, graph_cell_drop_result) prog" where
  "drop_cell ops sh cell_id idempotency_key =
     pbind (plift (validate_component ''cell_id'' cell_id)) (\<lambda>_.
     pbind (plift (validate_component ''idempotency_key'' idempotency_key)) (\<lambda>_.
     pbind (plift (ensure_write_authority sh cell_id ''drop_cell'')) (\<lambda>_.
       guarded_write sh cell_id ''drop_cell'' (drop_cell_locked ops sh cell_id idempotency_key))))"

subsection \<open>The states of a drop\<close>

abbreviation emptied :: "(bytes, bytes) btmap \<Rightarrow> string \<Rightarrow> bool" where
  "emptied m c \<equiv> \<forall>k. valid_key k \<longrightarrow> key_cell k = Some c \<longrightarrow> kview m k = None"

text \<open>One change of the committed records: a result is noted for a dropped cell, a drop is announced, a record of an announced
  drop goes, and the drop of an emptied cell is concluded.\<close>

inductive drop_moves :: "string \<Rightarrow> string \<Rightarrow> (bytes, bytes) btmap \<Rightarrow> (bytes, bytes) btmap \<Rightarrow> bool" for c i where
  repeat: "kview m (KCellDropMarker c) \<noteq> None \<Longrightarrow> cd_already_dropped res \<Longrightarrow>
    drop_moves c i m (bt_insert (render (KCellDropIdempotency c i)) (encode_cell_drop_idempotency c i res) m)"
| announce: "kview m (KCellDropMarker c) = None \<Longrightarrow> drop_moves c i m (bt_insert (render (KCellDropPending c)) (encode_u64 e) m)"
| sweep: "kview m (KCellDropMarker c) = None \<Longrightarrow> kview m (KCellDropPending c) \<noteq> None \<Longrightarrow> valid_key k \<Longrightarrow> key_cell k = Some c \<Longrightarrow> drop_moves c i m (bt_remove (render k) m)"
| conclude: "kview m (KCellDropPending c) \<noteq> None \<Longrightarrow> emptied m c \<Longrightarrow>
    drop_moves c i m (bt_insert (render (KCellDropIdempotency c i)) (encode_cell_drop_idempotency c i res)
      (bt_remove (render (KCellDropPending c)) (bt_insert (render (KCellDropMarker c)) (encode_u64 e) m)))"

text \<open>What holds between the records before a drop and at any later moment.\<close>

definition dropping :: "string \<Rightarrow> string \<Rightarrow> (bytes, bytes) btmap \<Rightarrow> (bytes, bytes) btmap \<Rightarrow> bool" where
  "dropping c i m m' \<longleftrightarrow> wf_store m'
     \<and> (\<forall>k. valid_key k \<longrightarrow> key_cell k \<noteq> Some c \<longrightarrow> k \<notin> {KCellDropMarker c, KCellDropPending c, KCellDropIdempotency c i} \<longrightarrow> kview m' k = kview m k)
     \<and> (\<forall>k. valid_key k \<longrightarrow> key_cell k = Some c \<longrightarrow> kview m' k = kview m k
          \<or> kview m' k = None \<and> (kview m' (KCellDropMarker c) \<noteq> None \<or> kview m' (KCellDropPending c) \<noteq> None))
     \<and> (kview m' (KCellDropMarker c) \<noteq> None \<longrightarrow> kview m (KCellDropMarker c) \<noteq> None \<or> emptied m' c)
     \<and> (kview m (KCellDropIdempotency c i) = None \<longrightarrow> kview m' (KCellDropIdempotency c i) = None
          \<or> (\<exists>res. kview m' (KCellDropIdempotency c i) = Some (encode_cell_drop_idempotency c i res) \<and> kview m' (KCellDropMarker c) \<noteq> None
               \<and> (\<not> cd_already_dropped res \<longrightarrow> emptied m' c)))"

lemma drop_keys:
  assumes "valid_component c" "valid_component i"
  shows "valid_key (KCellDropMarker c)" "valid_key (KCellDropPending c)" "valid_key (KCellDropIdempotency c i)"
  using assms by (simp_all add: valid_key_def literal_component family_components)

lemma dropping_move:
  assumes v: "valid_component c" "valid_component i" and D: "dropping c i m m1" and step: "drop_moves c i m1 m2"
  shows "dropping c i m m2"
proof -
  note k = drop_keys[OF v]
  have wf: "wf_store m1" and bt: "bt_ok m1" using D by (simp_all add: dropping_def)
  from step show ?thesis
  proof cases
    case (repeat res)
    have "wf_store m2" unfolding repeat by (rule wf_store_insert[OF wf k(3)]) simp
    moreover have "kview m2 j = (if j = KCellDropIdempotency c i then Some (encode_cell_drop_idempotency c i res) else kview m1 j)" if "valid_key j" for j
      unfolding repeat by (rule kview_insert[OF bt k(3) that])
    ultimately show ?thesis using D repeat(2,3) k unfolding dropping_def by auto
  next
    case (announce e)
    have "wf_store m2" unfolding announce by (rule wf_store_insert[OF wf k(2)]) simp
    moreover have "kview m2 j = (if j = KCellDropPending c then Some (encode_u64 e) else kview m1 j)" if "valid_key j" for j
      unfolding announce by (rule kview_insert[OF bt k(2) that])
    ultimately show ?thesis using D announce(2) k unfolding dropping_def by auto
  next
    case (sweep j0)
    have "wf_store m2" unfolding sweep by (rule wf_store_remove[OF wf sweep(4)])
    moreover have "kview m2 j = (if j = j0 then None else kview m1 j)" if "valid_key j" for j
      unfolding sweep by (rule kview_remove[OF sweep(4) that])
    ultimately show ?thesis using D sweep k unfolding dropping_def by auto
  next
    case (conclude res e)
    let ?a = "bt_insert (render (KCellDropMarker c)) (encode_u64 e) m1"
    let ?b = "bt_remove (render (KCellDropPending c)) ?a"
    have a: "wf_store ?a" by (rule wf_store_insert[OF wf k(1)]) simp
    have b: "wf_store ?b" by (rule wf_store_remove[OF a k(2)])
    have view: "kview m2 j = (if j = KCellDropIdempotency c i then Some (encode_cell_drop_idempotency c i res)
        else if j = KCellDropPending c then None else if j = KCellDropMarker c then Some (encode_u64 e) else kview m1 j)" if j: "valid_key j" for j
      unfolding conclude kview_insert[OF well_keyed_ok[OF wf_store_keyed[OF b]] k(3) j] kview_remove[OF k(2) j] kview_insert[OF bt k(1) j] ..
    have cell: "kview m2 j = None" if "valid_key j" "key_cell j = Some c" for j
      using view[OF that(1)] conclude(3) that by auto
    have marks: "kview m2 (KCellDropMarker c) = Some (encode_u64 e)" "kview m2 (KCellDropIdempotency c i) = Some (encode_cell_drop_idempotency c i res)"
      using view[OF k(1)] view[OF k(3)] by simp_all
    have "wf_store m2" unfolding conclude by (rule wf_store_insert[OF b k(3)]) simp
    moreover have "kview m2 j = kview m j" if "valid_key j" "key_cell j \<noteq> Some c" "j \<notin> {KCellDropMarker c, KCellDropPending c, KCellDropIdempotency c i}" for j
      using view[OF that(1)] D that unfolding dropping_def by auto
    ultimately show ?thesis using cell marks unfolding dropping_def by auto
  qed
qed


lemma dropping_start: "wf_store m \<Longrightarrow> dropping c i m m"
  by (simp add: dropping_def)

lemma dropping_moves:
  assumes "(drop_moves c i)\<^sup>*\<^sup>* m m1" "valid_component c" "valid_component i" "wf_store m"
  shows "dropping c i m m1"
  using assms(1)
proof (induction rule: rtranclp_induct)
  case (step m1 m2)
  then show ?case using dropping_move[OF assms(2,3)] by blast
qed (rule dropping_start[OF assms(4)])

text \<open>The keys of a cell go in any number of steps once the drop is announced.\<close>

lemma sweep_moves:
  assumes "kview m (KCellDropMarker c) = None" "kview m (KCellDropPending c) \<noteq> None" "valid_component c"
    and "\<forall>k \<in> set ks. valid_key k \<and> key_cell k = Some c"
  shows "(drop_moves c i)\<^sup>*\<^sup>* m (apply_batch (map (\<lambda>k. DeleteOp (render k)) ks) m)"
  using assms(1,2,4)
proof (induction ks arbitrary: m)
  case (Cons k ks)
  have k: "valid_key k" "key_cell k = Some c" using Cons.prems(3) by simp_all
  have v: "valid_key (KCellDropMarker c)" "valid_key (KCellDropPending c)" using drop_keys(1,2)[OF assms(3)] assms(3) by blast+
  have "kview (bt_remove (render k) m) (KCellDropMarker c) = None" "kview (bt_remove (render k) m) (KCellDropPending c) \<noteq> None"
    using Cons.prems(1,2) k kview_remove[OF k(1) v(1), of m] kview_remove[OF k(1) v(2), of m] by auto
  from Cons.IH[OF this] Cons.prems(3) drop_moves.sweep[OF Cons.prems(1,2) k, of i] show ?case
    by (simp add: converse_rtranclp_into_rtranclp)
qed simp

subsection \<open>Runs\<close>

text \<open>A flush is a batch of deletes.\<close>

lemma pfor_deletes: "pfor (map DeleteOp keys) (write_graph_op ops) = pfor keys (txn_delete ops)"
  by (induction keys) simp_all

lemma flush_batch:
  "flush_drop_cell_batch ops sh c keys = pif (keys = []) (preturn 0)
     (pbind (write_graph_batch_guarded_txn ops sh c ''drop_cell'' [] (map DeleteOp keys)) (\<lambda>_. preturn (word_of_nat (length keys))))"
  unfolding flush_drop_cell_batch_def unguarded_txn[symmetric] write_graph_batch_txn_def pfor_deletes pbind_assoc ..

lemma clean_commit:
  assumes "commit_txn_strict map_ops d s = (Inr u, s')" "\<not> mt_dirty (ss_txn s)"
  shows "db s' = db s"
  using assms
  by (auto simp: commit_txn_strict_def commit_txn_strict_with_sequence_def pbind_Inr txn_seqnum_def plift_def preturn_def on_txn_def
      checked_add_def ok_or_def split: if_splits option.splits)

lemma dirty_commit:
  assumes "commit_txn_strict map_ops d s = (Inr u, s')" "mt_dirty (ss_txn s)"
  shows "db s' = mt_view (ss_txn s)"
  using commit_run[OF assms] by blast

text \<open>The first transaction on the reference store.\<close>

lemma drop_begin_run:
  assumes "drop_begin map_ops sh c i s = (Inr x, s')"
  shows "(\<exists>w res. kview (db s) (KCellDropIdempotency c i) = Some w \<and> decode_cell_drop_idempotency (cell_drop_idempotency c i) c i w = Inr res
        \<and> x = Inl res \<and> db s' = db s)
    \<or> (\<exists>res. kview (db s) (KCellDropIdempotency c i) = None \<and> kview (db s) (KCellDropMarker c) \<noteq> None \<and> cd_already_dropped res \<and> x = Inl res
        \<and> db s' = bt_insert (render (KCellDropIdempotency c i)) (encode_cell_drop_idempotency c i res) (db s))
    \<or> kview (db s) (KCellDropMarker c) = None \<and> kview (db s) (KCellDropIdempotency c i) = None \<and> (\<exists>e. x = Inr e \<and> (kview (db s) (KCellDropPending c) \<noteq> None \<and> db s' = db s
         \<or> db s' = bt_insert (render (KCellDropPending c)) (encode_u64 e) (db s)))"
proof -
  let ?s1 = "s\<lparr>ss_txn := (ss_txn s)\<lparr>mt_view := db s, mt_dirty := False\<rparr>\<rparr>"
  have b: "txn_begin map_ops s = (Inr (), ?s1)" by (simp add: txn_begin_def on_txn_def)
  note defs = kview_def render.simps
  have rd: "read_txn_remote map_ops k ?s1 = (Inr (bt_get (db s) k), ?s1)" for k by (simp add: read_eval)
  show ?thesis
  proof (cases "bt_get (db s) (cell_drop_idempotency c i)")
    case (Some w)
    then show ?thesis using assms b rd unfolding drop_begin_def Let_def defs
      by (auto simp: pbind_Inr plift_def preturn_def)
  next
    case idem: None
    show ?thesis
    proof (cases "bt_get (db s) (cell_drop_marker c)")
      case (Some w)
      then show ?thesis using assms b rd idem unfolding drop_begin_def Let_def defs
        by (auto simp: pbind_Inr plift_def preturn_def put_eval dest!: dirty_commit)
    next
      case None
      have run: "pbind (validate_write_fence_txn map_ops sh c ''drop_cell'') (\<lambda>_.
          pbind (read_txn_remote map_ops (cell_drop_pending_marker c)) (\<lambda>found.
          pbind (case found of Some value \<Rightarrow> plift (decode_u64 (cell_drop_pending_marker c) value)
            | None \<Rightarrow> pbind (txn_seqnum map_ops) (\<lambda>seqnum. pbind (txn_put map_ops (cell_drop_pending_marker c) (encode_u64 (saturating_add seqnum 1))) (\<lambda>_. preturn (saturating_add seqnum 1)))) (\<lambda>marker_epoch.
          pbind (commit_txn_strict map_ops (sh_await_durable_writes sh)) (\<lambda>_. preturn (Inr marker_epoch))))) ?s1 = (Inr x, s')"
        using assms b rd idem None unfolding drop_begin_def Let_def by (auto simp: pbind_Inr plift_def)
      then obtain u s2 where f: "validate_write_fence_txn map_ops sh c ''drop_cell'' ?s1 = (Inr u, s2)" by (auto simp: pbind_Inr)
      have s2: "s2 = ?s1" by (rule fence_run[OF f])
      show ?thesis
      proof (cases "bt_get (db s) (cell_drop_pending_marker c)")
        case (Some w)
        then show ?thesis using run f s2 rd idem None unfolding defs
          by (auto simp: pbind_Inr plift_def preturn_def dest!: clean_commit)
      next
        case pend: None
        then show ?thesis using run f s2 rd idem None unfolding defs
          by (auto simp: pbind_Inr plift_def preturn_def txn_seqnum_def put_eval dest!: dirty_commit)
      qed
    qed
  qed
qed

lemma drop_finish_run:
  assumes "drop_finish map_ops sh c i res s = (Inr x, s')"
  shows "(\<exists>w. kview (db s) (KCellDropIdempotency c i) = Some w \<and> db s' = db s
        \<and> decode_cell_drop_idempotency (cell_drop_idempotency c i) c i w = Inr x)
    \<or> x = res \<and> db s' = bt_insert (render (KCellDropIdempotency c i)) (encode_cell_drop_idempotency c i res)
        (bt_remove (render (KCellDropPending c)) (bt_insert (render (KCellDropMarker c)) (encode_u64 (cd_marker_epoch res)) (db s)))"
proof -
  let ?s1 = "s\<lparr>ss_txn := (ss_txn s)\<lparr>mt_view := db s, mt_dirty := False\<rparr>\<rparr>"
  have b: "txn_begin map_ops s = (Inr (), ?s1)" by (simp add: txn_begin_def on_txn_def)
  have rd: "read_txn_remote map_ops k ?s1 = (Inr (bt_get (db s) k), ?s1)" for k by (simp add: read_eval)
  obtain u s2 where f: "validate_write_fence_txn map_ops sh c ''drop_cell'' ?s1 = (Inr u, s2)"
    using assms b unfolding drop_finish_def Let_def by (auto simp: pbind_Inr plift_def)
  have s2: "s2 = ?s1" by (rule fence_run[OF f])
  show ?thesis
  proof (cases "bt_get (db s) (cell_drop_idempotency c i)")
    case (Some w)
    then show ?thesis using assms b rd f s2 unfolding drop_finish_def Let_def kview_def render.simps
      by (auto simp: pbind_Inr plift_def)
  next
    case None
    then show ?thesis using assms b rd f s2 unfolding drop_finish_def Let_def kview_def render.simps
      by (auto simp: pbind_Inr plift_def preturn_def put_eval delete_eval dest!: dirty_commit)
  qed
qed


text \<open>The keys the sweep sees.\<close>

lemma cell_scan:
  assumes m: "well_keyed m" and c: "valid_component c"
  obtains ks where "map fst (scan (cell_prefix c) m) = map render ks" "\<forall>k \<in> set ks. valid_key k \<and> key_cell k = Some c"
    "\<And>k. valid_key k \<Longrightarrow> key_cell k = Some c \<Longrightarrow> kview m k \<noteq> None \<Longrightarrow> k \<in> set ks"
proof -
  have form: "\<forall>b \<in> set (map fst (scan (cell_prefix c) m)). \<exists>k. b = render k \<and> valid_key k \<and> key_cell k = Some c"
  proof
    fix b assume "b \<in> set (map fst (scan (cell_prefix c) m))"
    then obtain kv where kv: "kv \<in> set m" "starts_with (cell_prefix c) b" "b = fst kv" by (auto simp: scan_def)
    then obtain k where "valid_key k" "b = render k" using m unfolding well_keyed_def by blast
    then show "\<exists>k. b = render k \<and> valid_key k \<and> key_cell k = Some c" using kv(2) cell_prefix_exact[OF _ c] by blast
  qed
  obtain ks where ks: "map fst (scan (cell_prefix c) m) = map render ks" "\<forall>k \<in> set ks. valid_key k \<and> key_cell k = Some c"
    using ex_map_valid[OF form] by blast
  have "k \<in> set ks" if k: "valid_key k" "key_cell k = Some c" "kview m k \<noteq> None" for k
  proof -
    obtain w where "(render k, w) \<in> set m" using k(3) bt_get_Some_iff[OF well_keyed_ok[OF m]] by (auto simp: kview_def)
    then have "(render k, w) \<in> set (scan (cell_prefix c) m)" using cell_prefix_exact[OF k(1) c] k(2) by (simp add: scan_def)
    then have "render k \<in> set (map render ks)" unfolding ks(1)[symmetric] by force
    then obtain j where "j \<in> set ks" "render k = render j" by auto
    then show ?thesis using render_eq_iff[OF k(1), of j] ks(2) by metis
  qed
  then show thesis using that ks by blast
qed

lemma kview_deletes:
  assumes "\<forall>k \<in> set ks. valid_key k" "valid_key j"
  shows "kview (apply_batch (map (\<lambda>k. DeleteOp (render k)) ks) m) j = (if j \<in> set ks then None else kview m j)"
  using assms(1)
proof (induction ks arbitrary: m)
  case (Cons k ks)
  then show ?case using kview_remove[OF _ assms(2), of k m] by auto
qed simp

lemma emptied_deletes:
  assumes "\<forall>k \<in> set ks. valid_key k" "\<And>k. valid_key k \<Longrightarrow> key_cell k = Some c \<Longrightarrow> kview m k \<noteq> None \<Longrightarrow> k \<in> set ks"
  shows "emptied (apply_batch (map (\<lambda>k. DeleteOp (render k)) ks) m) c"
proof (intro allI impI)
  fix k assume k: "valid_key k" "key_cell k = Some c"
  show "kview (apply_batch (map (\<lambda>k. DeleteOp (render k)) ks) m) k = None"
    using kview_deletes[OF assms(1) k(1), of m] assms(2)[OF k] by (metis (full_types))
qed

context txn_faults
begin

lemma outcome_drop:
  "outcome_sim (drop_begin ops sh c i) (drop_begin map_ops sh c i)"
  "outcome_sim (drop_finish ops sh c i res) (drop_finish map_ops sh c i res)"
  "outcome_sim (flush_drop_cell_batch ops sh c keys) (flush_drop_cell_batch map_ops sh c keys)"
  unfolding drop_begin_def drop_finish_def flush_drop_cell_batch_def Let_def
  by (intro outcome_pbind outcome_pif outcome_last outcome_commit outcome_case_option outcome_return sim_rules sim_fence quiet_rules)+

text \<open>A transaction has the effect of its reference run, or none.\<close>

lemma outcome_cases:
  assumes "outcome_sim m n" "m s = (r, s')"
  shows "\<not> is_ok r \<and> unchanged (abs_state s) (abs_state s')
    \<or> (\<exists>x s2. n (abs_state s) = (Inr x, s2) \<and> unchanged s2 (abs_state s') \<and> (is_ok r \<longrightarrow> r = Inr x))"
proof (cases r)
  case (Inl e)
  then show ?thesis using assms unfolding outcome_sim_def by auto
next
  case (Inr x)
  then show ?thesis using assms simD[of m n] unfolding outcome_sim_def by (intro disjI2 exI[of _ x] exI[of _ "abs_state s'"]) auto
qed

abbreviation moves :: "string \<Rightarrow> string \<Rightarrow> 't shard_state \<Rightarrow> 't shard_state \<Rightarrow> bool" where
  "moves c i s s' \<equiv> (drop_moves c i)\<^sup>*\<^sup>* (db (abs_state s)) (db (abs_state s'))"

lemma flush_cases:
  assumes run: "flush_drop_cell_batch ops sh c keys s = (r, s')"
  shows "\<not> is_ok r \<and> db (abs_state s') = db (abs_state s) \<or> db (abs_state s') = apply_batch (map DeleteOp keys) (db (abs_state s))"
proof (cases "keys = []")
  case True
  then show ?thesis using run by (simp add: flush_drop_cell_batch_def pif_def preturn_def)
next
  case False
  have "db s2 = apply_batch (map DeleteOp keys) (db s1)" if run1: "flush_drop_cell_batch map_ops sh c keys s1 = (Inr x, s2)" for s1 x s2
    using run1 False guarded_txn_run(1)[of sh c "''drop_cell''" "[]" "map DeleteOp keys" s1] unfolding flush_batch
    by (auto simp: pif_def pbind_Inr preturn_def)
  then show ?thesis using outcome_cases[OF outcome_drop(3) run] by (auto simp: same_store_def)
qed

lemma flush_prefix:
  assumes run: "flush_drop_cell_batch ops sh c (map render ps) s = (r, s')"
  shows "\<exists>n \<le> length ps. db (abs_state s') = apply_batch (map (\<lambda>k. DeleteOp (render k)) (take n ps)) (db (abs_state s)) \<and> (is_ok r \<longrightarrow> length ps = n)"
  using flush_cases[OF run]
proof (elim disjE conjE)
  assume "\<not> is_ok r" "db (abs_state s') = db (abs_state s)"
  then show ?thesis by (intro exI[of _ 0]) simp
next
  assume "db (abs_state s') = apply_batch (map DeleteOp (map render ps)) (db (abs_state s))"
  then show ?thesis by (intro exI[of _ "length ps"]) (simp add: comp_def)
qed

text \<open>However a sweep ends, it has deleted the keys up to one of them, and all of them when it succeeds.\<close>

lemma sweep_run:
  assumes c: "valid_component c" and ks: "\<forall>k \<in> set ks. valid_key k \<and> key_cell k = Some c" and kvs: "map fst kvs = map render ks"
    and run: "drop_sweep ops sh c kvs (map render ps) d b s = (r, s')"
  shows "\<exists>n. db (abs_state s') = apply_batch (map (\<lambda>k. DeleteOp (render k)) (take n (ps @ ks))) (db (abs_state s)) \<and> (is_ok r \<longrightarrow> length (ps @ ks) \<le> n)"
  using ks kvs run
proof (induction ks arbitrary: kvs ps d b s)
  case Nil
  show ?case
  proof (cases "ps = []")
    case True
    then show ?thesis using Nil by (simp add: pif_def preturn_def)
  next
    case False
    obtain r1 s1 where f: "flush_drop_cell_batch ops sh c (map render ps) s = (r1, s1)" by fastforce
    have e: "s' = s1" "is_ok r \<longrightarrow> is_ok r1" using Nil f False by (auto simp: pif_def pbind_def preturn_def split: sum.splits)
    from flush_prefix[OF f] e show ?thesis unfolding append_Nil2 by auto
  qed
next
  case (Cons k ks)
  obtain kv kvs' where kv: "kvs = kv # kvs'" "fst kv = render k" "map fst kvs' = map render ks" using Cons.prems(2) by (cases kvs) auto
  have k: "valid_key k" "key_cell k = Some c" using Cons.prems(1) by simp_all
  have "k \<noteq> KCellDropPending c" using k(2) by auto
  then have ne: "render k \<noteq> cell_drop_pending_marker c" using render_eq_iff[OF k(1) drop_keys(2)[OF c c]] by simp
  have ks: "\<forall>k \<in> set ks. valid_key k \<and> key_cell k = Some c" using Cons.prems(1) by simp
  show ?case
  proof (cases "GRAPH_MAINTENANCE_BATCH_KEYS \<le> length (ps @ [k])")
    case False
    then have "drop_sweep ops sh c kvs' (map render (ps @ [k])) d b s = (r, s')"
      using Cons.prems(3) kv(1,2) k ne by (simp add: Let_def)
    from Cons.IH[OF ks kv(3) this] show ?thesis by simp
  next
    case True
    obtain r1 s1 where f: "flush_drop_cell_batch ops sh c (map render (ps @ [k])) s = (r1, s1)" by fastforce
    have run: "pbind (flush_drop_cell_batch ops sh c (map render (ps @ [k])))
        (\<lambda>deleted. drop_sweep ops sh c kvs' [] (saturating_add d deleted) (saturating_add b 1)) s = (r, s')"
      using Cons.prems(3) kv(1,2) k ne True by (simp add: Let_def)
    show ?thesis
    proof (cases r1)
      case (Inl e)
      then have e: "s' = s1" "\<not> is_ok r" using run f by (auto simp: pbind_def)
      from flush_prefix[OF f] obtain n where "n \<le> length (ps @ [k])"
        "db (abs_state s1) = apply_batch (map (\<lambda>k. DeleteOp (render k)) (take n (ps @ [k]))) (db (abs_state s))" by blast
      then show ?thesis using e by (intro exI[of _ n]) (cases "n \<le> length ps", auto simp: le_Suc_eq)
    next
      case (Inr x)
      then have rest: "drop_sweep ops sh c kvs' (map render []) (saturating_add d x) (saturating_add b 1) s1 = (r, s')" using run f by (simp add: pbind_def)
      have one: "db (abs_state s1) = apply_batch (map (\<lambda>k. DeleteOp (render k)) (ps @ [k])) (db (abs_state s))"
        using flush_prefix[OF f] Inr by auto
      from Cons.IH[OF ks kv(3) rest] obtain n
        where n: "db (abs_state s') = apply_batch (map (\<lambda>k. DeleteOp (render k)) (take n ks)) (db (abs_state s1))" "is_ok r \<longrightarrow> length ks \<le> n" by auto
      show ?thesis by (rule exI[of _ "length (ps @ [k]) + n"]) (use n one in \<open>simp add: apply_batch_append\<close>)
    qed
  qed
qed


text \<open>The call under the lock.\<close>

abbreviation recorded :: "string \<Rightarrow> string \<Rightarrow> graph_cell_drop_result \<Rightarrow> (bytes, bytes) btmap \<Rightarrow> bool" where
  "recorded c i res m \<equiv> \<exists>w. kview m (KCellDropIdempotency c i) = Some w \<and> decode_cell_drop_idempotency (cell_drop_idempotency c i) c i w = Inr res"

lemma drop_scan:
  assumes "scan_remote_prefix ops p s = (x, s')"
  shows "db (abs_state s') = db (abs_state s)" "x = Inr kvs \<Longrightarrow> kvs = scan p (db (abs_state s))"
proof -
  show "db (abs_state s') = db (abs_state s)" using quietD[OF quiet_reads(2) assms] by (simp add: same_store_def)
  have "scan_remote_prefix map_ops p (abs_state s) = (Inr (scan p (db (abs_state s))), abs_state s)"
    by (simp add: scan_remote_prefix_def db_scan_def on_txn_def in_subrange_def scan_def)
  then show "x = Inr kvs \<Longrightarrow> kvs = scan p (db (abs_state s))" using simD[OF sim_ops(8), of p s kvs s'] assms by simp
qed

lemma begin_cases:
  assumes v: "valid_component c" "valid_component i" and ok: "bt_ok (db (abs_state s))" and run: "drop_begin ops sh c i s = (r, s')"
  shows "moves c i s s'" "r = Inr (Inl res) \<Longrightarrow> recorded c i res (db (abs_state s'))"
    "r = Inr (Inr e) \<Longrightarrow> kview (db (abs_state s')) (KCellDropMarker c) = None \<and> kview (db (abs_state s')) (KCellDropPending c) \<noteq> None"
proof -
  let ?a = "db (abs_state s)" and ?b = "db (abs_state s')"
  note k = drop_keys[OF v] and view = kview_insert[OF ok]
  have "?b = ?a \<and> \<not> is_ok r
      \<or> (\<exists>res. ?b = ?a \<and> recorded c i res ?a \<and> (is_ok r \<longrightarrow> r = Inr (Inl res)))
      \<or> (\<exists>res. ?b = bt_insert (render (KCellDropIdempotency c i)) (encode_cell_drop_idempotency c i res) ?a \<and> kview ?a (KCellDropMarker c) \<noteq> None
           \<and> cd_already_dropped res \<and> (is_ok r \<longrightarrow> r = Inr (Inl res)))
      \<or> (\<exists>e. kview ?a (KCellDropMarker c) = None \<and> (is_ok r \<longrightarrow> r = Inr (Inr e))
           \<and> (?b = ?a \<and> kview ?a (KCellDropPending c) \<noteq> None \<or> ?b = bt_insert (render (KCellDropPending c)) (encode_u64 e) ?a))"
    using outcome_cases[OF outcome_drop(1) run]
  proof (elim disjE exE conjE)
    fix x s2 assume n: "drop_begin map_ops sh c i (abs_state s) = (Inr x, s2)" and s2: "unchanged s2 (abs_state s')" and r: "is_ok r \<longrightarrow> r = Inr x"
    have e: "db (abs_state s') = db s2" using s2 by (simp add: same_store_def)
    show ?thesis using drop_begin_run[OF n, folded e] r by (elim disjE exE conjE; simp; blast)
  qed (simp add: same_store_def)
  then consider (fault) "?b = ?a" "\<not> is_ok r"
    | (known) res' where "?b = ?a" "recorded c i res' ?a" "is_ok r \<longrightarrow> r = Inr (Inl res')"
    | (again) res' where "?b = bt_insert (render (KCellDropIdempotency c i)) (encode_cell_drop_idempotency c i res') ?a" "kview ?a (KCellDropMarker c) \<noteq> None"
        "cd_already_dropped res'" "is_ok r \<longrightarrow> r = Inr (Inl res')"
    | (pending) e' where "?b = ?a" "kview ?a (KCellDropMarker c) = None" "kview ?a (KCellDropPending c) \<noteq> None" "is_ok r \<longrightarrow> r = Inr (Inr e')"
    | (announced) e' where "?b = bt_insert (render (KCellDropPending c)) (encode_u64 e') ?a" "kview ?a (KCellDropMarker c) = None" "is_ok r \<longrightarrow> r = Inr (Inr e')"
    by blast
  then have "moves c i s s' \<and> (\<forall>res. r = Inr (Inl res) \<longrightarrow> recorded c i res ?b)
    \<and> (\<forall>e. r = Inr (Inr e) \<longrightarrow> kview ?b (KCellDropMarker c) = None \<and> kview ?b (KCellDropPending c) \<noteq> None)"
  proof cases
    case fault
    then show ?thesis by auto
  next
    case known
    then show ?thesis by auto
  next
    case (again res')
    have "moves c i s s'" unfolding again(1) by (rule r_into_rtranclp, rule drop_moves.repeat[OF again(2,3)])
    moreover have "recorded c i res' ?b" unfolding again(1) view[OF k(3,3)] by (simp add: decode_cell_drop_record[OF v])
    ultimately show ?thesis using again(4) by auto
  next
    case pending
    then show ?thesis by auto
  next
    case (announced e')
    have "moves c i s s'" unfolding announced(1) by (rule r_into_rtranclp, rule drop_moves.announce[OF announced(2)])
    moreover have "kview ?b (KCellDropMarker c) = None" "kview ?b (KCellDropPending c) \<noteq> None"
      unfolding announced(1) view[OF k(2,1)] view[OF k(2,2)] using announced(2) by simp_all
    ultimately show ?thesis using announced(3) by auto
  qed
  then show "moves c i s s'" "r = Inr (Inl res) \<Longrightarrow> recorded c i res ?b"
    "r = Inr (Inr e) \<Longrightarrow> kview ?b (KCellDropMarker c) = None \<and> kview ?b (KCellDropPending c) \<noteq> None"
    by blast+
qed

lemma finish_cases:
  assumes v: "valid_component c" "valid_component i" and wf: "wf_store (db (abs_state s))"
    and pre: "kview (db (abs_state s)) (KCellDropPending c) \<noteq> None" "emptied (db (abs_state s)) c"
    and run: "drop_finish ops sh c i res s = (r, s')"
  shows "moves c i s s'" "r = Inr x \<Longrightarrow> recorded c i x (db (abs_state s'))"
proof -
  let ?a = "db (abs_state s)" and ?b = "db (abs_state s')"
  note k = drop_keys[OF v]
  let ?n = "bt_remove (render (KCellDropPending c)) (bt_insert (render (KCellDropMarker c)) (encode_u64 (cd_marker_epoch res)) ?a)"
  have ok: "bt_ok ?n" using wf by (simp add: bt_ok_remove)
  have "?b = ?a \<and> \<not> is_ok r \<or> (\<exists>x. ?b = ?a \<and> recorded c i x ?a \<and> (is_ok r \<longrightarrow> r = Inr x))
      \<or> ?b = bt_insert (render (KCellDropIdempotency c i)) (encode_cell_drop_idempotency c i res) ?n \<and> (is_ok r \<longrightarrow> r = Inr res)"
    using outcome_cases[OF outcome_drop(2) run]
  proof (elim disjE exE conjE)
    fix y s2 assume n: "drop_finish map_ops sh c i res (abs_state s) = (Inr y, s2)" and s2: "unchanged s2 (abs_state s')" and r: "is_ok r \<longrightarrow> r = Inr y"
    have e: "db (abs_state s') = db s2" using s2 by (simp add: same_store_def)
    show ?thesis using drop_finish_run[OF n, folded e] r by blast
  qed (simp add: same_store_def)
  then have "moves c i s s' \<and> (\<forall>x. r = Inr x \<longrightarrow> recorded c i x ?b)"
  proof (elim disjE exE conjE)
    assume e: "?b = bt_insert (render (KCellDropIdempotency c i)) (encode_cell_drop_idempotency c i res) ?n" and r: "is_ok r \<longrightarrow> r = Inr res"
    have "moves c i s s'" unfolding e by (rule r_into_rtranclp, rule drop_moves.conclude[OF pre])
    moreover have "recorded c i res ?b" unfolding e kview_insert[OF ok k(3,3)] by (simp add: decode_cell_drop_record[OF v])
    ultimately show ?thesis using r by auto
  qed auto
  then show "moves c i s s'" "r = Inr x \<Longrightarrow> recorded c i x ?b" by blast+
qed

lemma drop_locked_run:
  assumes v: "valid_component c" "valid_component i" and wf: "wf_store (db (abs_state s))"
    and run: "drop_cell_locked ops sh c i s = (r, s')"
  shows "moves c i s s' \<and> (\<forall>res. r = Inr res \<longrightarrow> recorded c i res (db (abs_state s')))"
proof -
  have ok: "bt_ok (db (abs_state s))" using wf by simp
  have kept: "wf_store (db (abs_state s1))" if "moves c i s s1" for s1 using dropping_moves[OF that v wf] by (simp add: dropping_def)
  obtain r1 s1 where b: "drop_begin ops sh c i s = (r1, s1)" by fastforce
  note B = begin_cases[OF v ok b]
  consider (stop) "\<not> is_ok r" "s' = s1" | (result) res where "r1 = Inr (Inl res)" "r = Inr res" "s' = s1"
    | (go) e where "r1 = Inr (Inr e)"
    using run b unfolding drop_cell_locked_def by (cases r1) (auto simp: pbind_def preturn_def split: sum.splits)
  then show ?thesis
  proof cases
    case (go e)
    have mark: "kview (db (abs_state s1)) (KCellDropMarker c) = None" "kview (db (abs_state s1)) (KCellDropPending c) \<noteq> None" using B(3) go by auto
    obtain r2 s2 where sc: "scan_remote_prefix ops (cell_prefix c) s1 = (r2, s2)" by fastforce
    have e2: "db (abs_state s2) = db (abs_state s1)" using drop_scan(1)[OF sc] .
    show ?thesis
    proof (cases r2)
      case (Inl e)
      then have "s' = s2" "\<not> is_ok r" using run b go sc unfolding drop_cell_locked_def by (auto simp: pbind_def)
      then show ?thesis using B(1) e2 by auto
    next
      case (Inr kvs)
      note keyed = wf_store_keyed[OF kept[OF B(1)]]
      obtain ks where ks: "map fst kvs = map render ks" "\<forall>k \<in> set ks. valid_key k \<and> key_cell k = Some c"
        "\<And>k. valid_key k \<Longrightarrow> key_cell k = Some c \<Longrightarrow> kview (db (abs_state s1)) k \<noteq> None \<Longrightarrow> k \<in> set ks"
        using cell_scan[OF keyed v(1)] drop_scan(2)[OF sc Inr] by metis
      obtain r3 s3 where sw: "drop_sweep ops sh c kvs [] 0 0 s2 = (r3, s3)" by fastforce
      obtain n where n: "db (abs_state s3) = apply_batch (map (\<lambda>k. DeleteOp (render k)) (take n ks)) (db (abs_state s1))" "is_ok r3 \<longrightarrow> length ks \<le> n"
        using sweep_run[OF v(1) ks(2,1), of sh "[]" 0 0 s2 r3 s3] sw e2 by auto
      have "(drop_moves c i)\<^sup>*\<^sup>* (db (abs_state s1)) (db (abs_state s3))"
        unfolding n(1) by (rule sweep_moves[OF mark v(1)]) (use ks(2) in \<open>blast dest: in_set_takeD\<close>)
      with B(1) have mv: "moves c i s s3" by (rule rtranclp_trans)
      have rest: "(case r3 of Inl err \<Rightarrow> (Inl err, s3) | Inr p \<Rightarrow> (case p of (dk, bs) \<Rightarrow> drop_finish ops sh c i
          \<lparr>cd_marker_epoch = e, cd_deleted_keys = dk, cd_batches = bs, cd_already_dropped = False\<rparr>) s3) = (r, s')"
        using run unfolding drop_cell_locked_def pbind_def b go sc Inr prod.case sum.case sw .
      show ?thesis
      proof (cases r3)
        case (Inl err)
        then have "s' = s3" "\<not> is_ok r" using rest by auto
        then show ?thesis using mv by auto
      next
        case (Inr db')
        obtain dk bs where p: "db' = (dk, bs)" by fastforce
        have fin: "drop_finish ops sh c i \<lparr>cd_marker_epoch = e, cd_deleted_keys = dk, cd_batches = bs, cd_already_dropped = False\<rparr> s3 = (r, s')"
          using rest Inr p by simp
        have all: "db (abs_state s3) = apply_batch (map (\<lambda>k. DeleteOp (render k)) ks) (db (abs_state s1))" using n Inr by simp
        have vks: "\<forall>k \<in> set ks. valid_key k" using ks(2) by blast
        have "KCellDropPending c \<notin> set ks" using ks(2) by fastforce
        then have "kview (db (abs_state s3)) (KCellDropPending c) \<noteq> None"
          unfolding all using kview_deletes[OF vks drop_keys(2)[OF v]] mark(2) by simp
        note F = finish_cases[OF v kept[OF mv] this _ fin]
        have E: "emptied (db (abs_state s3)) c" unfolding all by (rule emptied_deletes[OF vks ks(3)])
        show ?thesis using rtranclp_trans[OF mv F(1)[OF E]] F(2)[OF E] by blast
      qed
    qed
  qed (use B in auto)
qed

lemma drop_cell_run:
  assumes wf: "wf_store (db (abs_state s))" and run: "drop_cell ops sh c i s = (r, s')"
  shows "s' = s \<and> \<not> is_ok r \<or> valid_component c \<and> valid_component i \<and> moves c i s s' \<and> (\<forall>res. r = Inr res \<longrightarrow> recorded c i res (db (abs_state s')))"
proof (cases "valid_component c \<and> valid_component i \<and> ensure_write_authority sh c ''drop_cell'' = Inr ()
    \<and> sh_write_permit sh ''drop_cell'' = Inr ()")
  case True
  then have v: "valid_component c" "valid_component i" by simp_all
  let ?m = "pbind (plift (acquire_local_write_guard sh c ''drop_cell'')) (\<lambda>_. drop_cell_locked ops sh c i)"
  have att: "txn_attempts GRAPH_TXN_MAX_RETRIES ?m s = (r, s')"
    using run True unfolding drop_cell_def guarded_write_def by (simp add: pbind_def plift_def validate_component_iff[of _ _ "()"])
  let ?J = "\<lambda>s1. moves c i s s1" and ?K = "\<lambda>res s1. recorded c i res (db (abs_state s1))"
  have "?J s' \<and> (\<forall>x. r = Inr x \<longrightarrow> ?K x s')"
  proof (rule attempts_rule[OF _ _ att])
    fix s1 r1 s2 assume J: "?J s1" and run1: "?m s1 = (r1, s2)"
    have wf1: "wf_store (db (abs_state s1))" using dropping_moves[OF J v wf] by (simp add: dropping_def)
    show "?J s2 \<and> (\<forall>x. r1 = Inr x \<longrightarrow> ?K x s2)"
    proof (cases "acquire_local_write_guard sh c ''drop_cell''")
      case (Inl e)
      then show ?thesis using run1 J by (auto simp: pbind_def plift_def)
    next
      case (Inr u)
      then have "drop_cell_locked ops sh c i s1 = (r1, s2)" using run1 by (simp add: pbind_def plift_def)
      from drop_locked_run[OF v wf1 this] J show ?thesis using rtranclp_trans[of "drop_moves c i"] by blast
    qed
  qed simp
  then show ?thesis using v by blast
next
  case False
  then show ?thesis using run unfolding drop_cell_def guarded_write_def
    by (auto simp: pbind_def plift_def validate_component_iff[of _ _ "()"] split: sum.splits)
qed

text \<open>A repeated request returns what was recorded.\<close>

lemma drop_cell_repeated:
  assumes rec: "kview (db (abs_state s)) (KCellDropIdempotency c i) = Some w" and run: "drop_cell ops sh c i s = (r, s')"
  shows "db (abs_state s') = db (abs_state s) \<and> (\<forall>res. r = Inr res \<longrightarrow> decode_cell_drop_idempotency (cell_drop_idempotency c i) c i w = Inr res)"
proof -
  let ?J = "\<lambda>s1. db (abs_state s1) = db (abs_state s)" and ?K = "\<lambda>res s1 :: 't shard_state. decode_cell_drop_idempotency (cell_drop_idempotency c i) c i w = Inr res"
  let ?m = "pbind (plift (acquire_local_write_guard sh c ''drop_cell'')) (\<lambda>_. drop_cell_locked ops sh c i)"
  have locked: "?J s2 \<and> (\<forall>x. r1 = Inr x \<longrightarrow> ?K x s2)" if J: "?J s1" and run1: "drop_cell_locked ops sh c i s1 = (r1, s2)" for s1 r1 s2
  proof -
    obtain r0 s0 where b: "drop_begin ops sh c i s1 = (r0, s0)" by fastforce
    have e: "db (abs_state s0) = db (abs_state s1) \<and> (\<not> is_ok r0 \<or> (\<exists>res. r0 = Inr (Inl res) \<and> decode_cell_drop_idempotency (cell_drop_idempotency c i) c i w = Inr res))"
      using outcome_cases[OF outcome_drop(1) b]
    proof (elim disjE exE conjE)
      fix x s3 assume n: "drop_begin map_ops sh c i (abs_state s1) = (Inr x, s3)" and u: "unchanged s3 (abs_state s0)" and r: "is_ok r0 \<longrightarrow> r0 = Inr x"
      have "db (abs_state s0) = db s3" using u by (simp add: same_store_def)
      then show ?thesis using drop_begin_run[OF n] rec r unfolding J by auto
    qed (simp add: same_store_def)
    have "s2 = s0 \<and> (\<forall>res. r1 = Inr res \<longrightarrow> r0 = Inr (Inl res))"
    proof (cases r0)
      case (Inl err)
      then show ?thesis using run1 b unfolding drop_cell_locked_def by (auto simp: pbind_def)
    next
      case (Inr x)
      then obtain res where "r0 = Inr (Inl res)" using e by auto
      then show ?thesis using run1 b unfolding drop_cell_locked_def by (auto simp: pbind_def preturn_def)
    qed
    then show ?thesis using e J by auto
  qed
  have step: "?J s2 \<and> (\<forall>x. r1 = Inr x \<longrightarrow> ?K x s2)" if J: "?J s1" and run1: "?m s1 = (r1, s2)" for s1 r1 s2
  proof (cases "acquire_local_write_guard sh c ''drop_cell''")
    case (Inl e)
    then have "s2 = s1" "r1 = Inl e" using run1 by (simp_all add: pbind_def plift_def)
    then show ?thesis using J by simp
  next
    case (Inr u)
    then have "drop_cell_locked ops sh c i s1 = (r1, s2)" using run1 by (simp add: pbind_def plift_def)
    from locked[OF J this] show ?thesis .
  qed
  have "s' = s \<and> \<not> is_ok r \<or> txn_attempts GRAPH_TXN_MAX_RETRIES ?m s = (r, s')"
    using run unfolding drop_cell_def guarded_write_def by (auto simp: pbind_def plift_def split: sum.splits)
  then show ?thesis
  proof
    assume att: "txn_attempts GRAPH_TXN_MAX_RETRIES ?m s = (r, s')"
    show ?thesis by (rule attempts_rule[of ?J ?m ?K, OF _ _ att]) (use step in blast, rule refl)
  qed auto
qed

end

end
