(* ===== verification/Compaction.thy ===== *)
theory Compaction
  imports Index_Store Codec_Hash
begin

text \<open>
  Compaction of outgoing segments, \<^verbatim>\<open>compact_out_adjacency_segments\<close> of \<^verbatim>\<open>src/shard/maintenance.rs\<close>: the segments of a vertex up
  to the sequence of a published index become one segment, and the tombstones up to that sequence, which it has absorbed, go.
  The writer lane and the local write guard serialise the writers of a cell; renewing and releasing the guard does nothing.
  A snapshot of the database is taken by an operation of the store, \<open>take_snapshot\<close>; the lookup of the latest matrix
  artifact, which reads the object store and a cache, and the admission of maintenance work are parameters. Metrics are left out.
\<close>

subsection \<open>The operation\<close>

text \<open>\<^verbatim>\<open>out_neighbors\<close> of a shard: the neighbours in a snapshot taken now.\<close>

definition shard_snapshot ::
    "('t shard_state, storage_snapshot) prog \<Rightarrow> string \<Rightarrow> ('t shard_state, storage_snapshot) prog" where
  "shard_snapshot take_snapshot cell_id =
     pbind (plift (validate_component ''cell_id'' cell_id)) (\<lambda>_. take_snapshot)"

definition shard_out_neighbors ::
    "'t txn_ops \<Rightarrow> ('t shard_state, storage_snapshot) prog \<Rightarrow> string \<Rightarrow> string \<Rightarrow> vertex_id \<Rightarrow> ('t shard_state, vertex_id list) prog" where
  "shard_out_neighbors ops take_snapshot cell_id edge_type src =
     pbind (plift (validate_component ''cell_id'' cell_id)) (\<lambda>_.
     pbind (plift (validate_component ''edge_type'' edge_type)) (\<lambda>_.
     pbind (ensure_cell_readable ops cell_id ''out_neighbors'') (\<lambda>_.
     pbind (shard_snapshot take_snapshot cell_id) (\<lambda>snapshot.
       plift (out_neighbors_in_storage_snapshot snapshot cell_id edge_type src (sn_seq snapshot))))))"

text \<open>The segments up to the sequence, in the order of the scan, and how many edges they hold.\<close>

fun source_segments_loop ::
    "storage_sequence \<Rightarrow> (bytes \<times> bytes) list \<Rightarrow> (string \<times> out_edge_segment) list \<Rightarrow> u64
      \<Rightarrow> ((string \<times> out_edge_segment) list \<times> u64) result" where
  "source_segments_loop compacted_through_epoch [] source_segments input_edges = Inr (source_segments, input_edges)"
| "source_segments_loop compacted_through_epoch (kv # kvs) source_segments input_edges =
     (let key = from_utf8_lossy (fst kv) in
      rbind (decode_out_edge_segment key (snd kv)) (\<lambda>segment.
        if compacted_through_epoch < os_storage_sequence segment then Inr (source_segments, input_edges)
        else source_segments_loop compacted_through_epoch kvs (source_segments @ [(key, segment)])
               (saturating_add input_edges (word_of_nat (length (os_destinations segment))))))"

definition compaction_tombstone_step ::
    "string \<Rightarrow> string \<Rightarrow> vertex_id \<Rightarrow> storage_sequence \<Rightarrow> bytes \<times> bytes
      \<Rightarrow> (vertex_id, storage_sequence \<times> string) btmap \<Rightarrow> (vertex_id, storage_sequence \<times> string) btmap result" where
  "compaction_tombstone_step cell_id edge_type src current kv tombstones =
     (let key = from_utf8_lossy (fst kv) in
      rbind (parse_out_edge_segment_tombstone_key key) (\<lambda>(key_cell_id, key_edge_type, key_src, dst).
        if key_cell_id \<noteq> cell_id \<or> key_edge_type \<noteq> edge_type \<or> key_src \<noteq> src then
          Inl (CorruptValue key ''segment tombstone identity does not match scan prefix'')
        else rbind (decode_u64 key (snd kv)) (\<lambda>epoch.
          Inr (if epoch \<le> current then bt_insert dst (epoch, key) tombstones else tombstones))))"

definition compaction_tombstone_epoch ::
    "storage_sequence \<Rightarrow> (vertex_id, storage_sequence \<times> string) btmap \<Rightarrow> vertex_id \<Rightarrow> storage_sequence option" where
  "compaction_tombstone_epoch compacted_through_epoch tombstones dst =
     (case bt_get tombstones dst of
        Some (epoch, _) \<Rightarrow> if epoch \<le> compacted_through_epoch then Some epoch else None
      | None \<Rightarrow> None)"

definition live_destination ::
    "storage_sequence \<Rightarrow> (vertex_id, storage_sequence \<times> string) btmap \<Rightarrow> storage_sequence \<Rightarrow> vertex_id
      \<Rightarrow> (vertex_id, storage_sequence) btmap \<Rightarrow> (vertex_id, storage_sequence) btmap" where
  "live_destination compacted_through_epoch tombstones segment_sequence dst live =
     (if segment_edge_visible segment_sequence (compaction_tombstone_epoch compacted_through_epoch tombstones dst)
      then bt_insert dst (case bt_get live dst of Some existing \<Rightarrow> max existing segment_sequence | None \<Rightarrow> segment_sequence) live
      else live)"

definition compacted_destinations ::
    "storage_sequence \<Rightarrow> (vertex_id, storage_sequence \<times> string) btmap \<Rightarrow> (string \<times> out_edge_segment) list \<Rightarrow> vertex_id list" where
  "compacted_destinations compacted_through_epoch tombstones source_segments =
     map fst (fold (\<lambda>(_, segment). fold (live_destination compacted_through_epoch tombstones (os_storage_sequence segment))
                (os_destinations segment)) source_segments [])"

text \<open>The keys of the tombstones that go, in the order of their destinations.\<close>

definition dead_tombstones ::
    "storage_sequence \<Rightarrow> (vertex_id, storage_sequence \<times> string) btmap \<Rightarrow> string list" where
  "dead_tombstones compacted_through_epoch tombstones =
     map (\<lambda>(_, _, key). key) (filter (\<lambda>(_, epoch, _). epoch \<le> compacted_through_epoch) tombstones)"

definition compaction_result ::
    "storage_sequence \<Rightarrow> (string \<times> out_edge_segment) list \<Rightarrow> u64 \<Rightarrow> string list \<Rightarrow> vertex_id list \<Rightarrow> segment_compaction_result" where
  "compaction_result compacted_through_epoch source_segments input_edges dead destinations =
     \<lparr>sc_compacted_through_epoch = compacted_through_epoch,
      sc_source_segments = word_of_nat (length source_segments),
      sc_deleted_segment_keys = word_of_nat (length source_segments),
      sc_deleted_tombstone_keys = fold (\<lambda>_ n. saturating_add n 1) dead 0,
      sc_input_edges = input_edges,
      sc_output_edges = word_of_nat (length destinations)\<rparr>"

definition compaction_segment_id :: "string \<Rightarrow> string" where
  "compaction_segment_id idempotency_key = ''compact-'' @ idempotency_key"

definition compaction_batch ::
    "string \<Rightarrow> string \<Rightarrow> vertex_id \<Rightarrow> storage_sequence \<Rightarrow> string \<Rightarrow> (string \<times> out_edge_segment) list \<Rightarrow> string list \<Rightarrow> vertex_id list
      \<Rightarrow> u64 \<Rightarrow> string \<Rightarrow> segment_compaction_result \<Rightarrow> graph_write_batch" where
  "compaction_batch cell_id edge_type src compacted_through_epoch idempotency_key source_segments dead destinations current_degree idem_key result =
     (let batch = fold (\<lambda>(key, _). batch_delete key) source_segments [];
          batch = fold batch_delete dead batch;
          batch = (if destinations \<noteq> []
            then batch_put (out_segment cell_id edge_type src compacted_through_epoch (compaction_segment_id idempotency_key))
                   (encode_out_edge_segment_records destinations) batch
            else batch);
          batch = batch_put (degree_out cell_id edge_type src) (encode_u64 current_degree) batch
      in batch_put idem_key (encode_segment_compaction_idempotency idempotency_key result) batch)"

text \<open>What follows the reads: the new segment is computed and one batch replaces the old records.\<close>

definition compact_sources ::
    "'t txn_ops \<Rightarrow> shard_env \<Rightarrow> string \<Rightarrow> string \<Rightarrow> vertex_id \<Rightarrow> storage_sequence \<Rightarrow> string \<Rightarrow> string \<Rightarrow> u64
      \<Rightarrow> (string \<times> out_edge_segment) list \<Rightarrow> u64 \<Rightarrow> (vertex_id, storage_sequence \<times> string) btmap
      \<Rightarrow> ('t shard_state, segment_compaction_result) prog" where
  "compact_sources ops sh cell_id edge_type src compacted_through_epoch idempotency_key idem_key current_degree source_segments input_edges tombstones =
     (let destinations = compacted_destinations compacted_through_epoch tombstones source_segments;
          dead = dead_tombstones compacted_through_epoch tombstones;
          result = compaction_result compacted_through_epoch source_segments input_edges dead destinations
      in pbind (write_graph_batch_strict ops sh cell_id ''compact_out_adjacency_segments''
             (compaction_batch cell_id edge_type src compacted_through_epoch idempotency_key source_segments dead destinations
                current_degree idem_key result)) (\<lambda>_. preturn result))"

text \<open>The reads: the degree the vertex has now, its segments up to the sequence and how many edges they hold, and its tombstones.\<close>

definition compaction_reads ::
    "'t txn_ops \<Rightarrow> ('t shard_state, storage_snapshot) prog \<Rightarrow> string \<Rightarrow> string \<Rightarrow> vertex_id \<Rightarrow> storage_sequence \<Rightarrow> storage_sequence
      \<Rightarrow> ('t shard_state, u64 \<times> ((string \<times> out_edge_segment) list \<times> u64) \<times> (vertex_id, storage_sequence \<times> string) btmap) prog" where
  "compaction_reads ops take_snapshot cell_id edge_type src compacted_through_epoch current =
     pbind (shard_out_neighbors ops take_snapshot cell_id edge_type src) (\<lambda>neighbors.
     pbind (scan_remote_prefix ops (out_segment_src_prefix cell_id edge_type src)) (\<lambda>segments.
     pbind (plift (source_segments_loop compacted_through_epoch segments [] 0)) (\<lambda>source_segments.
     pbind (scan_remote_prefix ops (out_segment_tombstone_src_prefix cell_id edge_type src)) (\<lambda>tombstone_kvs.
     pbind (plift (rfold (compaction_tombstone_step cell_id edge_type src current) tombstone_kvs [])) (\<lambda>tombstones.
       preturn (word_of_nat (length neighbors), source_segments, tombstones))))))"

definition compact_at_artifact ::
    "'t txn_ops \<Rightarrow> shard_env \<Rightarrow> ('t shard_state, storage_snapshot) prog \<Rightarrow> string \<Rightarrow> string \<Rightarrow> vertex_id \<Rightarrow> storage_sequence \<Rightarrow> string
      \<Rightarrow> string \<Rightarrow> storage_sequence \<Rightarrow> ('t shard_state, segment_compaction_result) prog" where
  "compact_at_artifact ops sh take_snapshot cell_id edge_type src compacted_through_epoch idempotency_key idem_key current =
     pbind (compaction_reads ops take_snapshot cell_id edge_type src compacted_through_epoch current)
       (\<lambda>(current_degree, (source_segments, input_edges), tombstones).
          compact_sources ops sh cell_id edge_type src compacted_through_epoch idempotency_key idem_key
            current_degree source_segments input_edges tombstones)"

text \<open>A request that was not made before: the sequence must be reached and be that of the latest artifact.\<close>

definition compact_fresh ::
    "'t txn_ops \<Rightarrow> shard_env \<Rightarrow> (string \<Rightarrow> string \<Rightarrow> storage_sequence \<Rightarrow> matrix_artifact option result)
      \<Rightarrow> ('t shard_state, storage_snapshot) prog \<Rightarrow> string \<Rightarrow> string \<Rightarrow> vertex_id \<Rightarrow> storage_sequence \<Rightarrow> string \<Rightarrow> string
      \<Rightarrow> ('t shard_state, segment_compaction_result) prog" where
  "compact_fresh ops sh latest_matrix_artifact take_snapshot cell_id edge_type src compacted_through_epoch idempotency_key idem_key =
     (let prefix = out_segment_src_prefix cell_id edge_type src
      in pbind (current_epoch ops cell_id) (\<lambda>current.
           pif (current < compacted_through_epoch) (pfail (SnapshotAhead cell_id compacted_through_epoch current))
             (pbind (plift (latest_matrix_artifact cell_id edge_type compacted_through_epoch)) (\<lambda>artifact.
                case artifact of
                  None \<Rightarrow> pfail (CorruptValue prefix ''cannot compact adjacency segments without a matrix artifact'')
                | Some a \<Rightarrow>
                    pif (ma_base_epoch a \<noteq> compacted_through_epoch)
                      (pfail (CorruptValue prefix (''latest matrix artifact is at epoch '' @ fmt_u64 (ma_base_epoch a)
                         @ '', expected '' @ fmt_u64 compacted_through_epoch)))
                      (compact_at_artifact ops sh take_snapshot cell_id edge_type src compacted_through_epoch idempotency_key
                         idem_key current)))))"

definition compact_out_adjacency_segments_locked ::
    "'t txn_ops \<Rightarrow> shard_env \<Rightarrow> (string \<Rightarrow> string \<Rightarrow> storage_sequence \<Rightarrow> matrix_artifact option result)
      \<Rightarrow> ('t shard_state, storage_snapshot) prog \<Rightarrow> string \<Rightarrow> string \<Rightarrow> vertex_id \<Rightarrow> storage_sequence \<Rightarrow> string
      \<Rightarrow> ('t shard_state, segment_compaction_result) prog" where
  "compact_out_adjacency_segments_locked ops sh latest_matrix_artifact take_snapshot cell_id edge_type src compacted_through_epoch idempotency_key =
     (let idem_key = idempotency cell_id (segment_compaction_idempotency_operation edge_type src) idempotency_key
      in pbind (read_remote ops idem_key) (\<lambda>found.
        case found of
          Some value \<Rightarrow> plift (decode_segment_compaction_idempotency idem_key idempotency_key compacted_through_epoch value)
        | None \<Rightarrow> compact_fresh ops sh latest_matrix_artifact take_snapshot cell_id edge_type src compacted_through_epoch
                    idempotency_key idem_key))"

definition compact_out_adjacency_segments ::
    "'t txn_ops \<Rightarrow> shard_env \<Rightarrow> (string \<Rightarrow> unit result) \<Rightarrow> (string \<Rightarrow> string \<Rightarrow> storage_sequence \<Rightarrow> matrix_artifact option result)
      \<Rightarrow> ('t shard_state, storage_snapshot) prog \<Rightarrow> string \<Rightarrow> string \<Rightarrow> vertex_id \<Rightarrow> storage_sequence \<Rightarrow> string
      \<Rightarrow> ('t shard_state, segment_compaction_result) prog" where
  "compact_out_adjacency_segments ops sh gc_permit latest_matrix_artifact take_snapshot cell_id edge_type src compacted_through_epoch idempotency_key =
     (let oper = ''compact_out_adjacency_segments'' in
      pbind (plift (validate_component ''cell_id'' cell_id)) (\<lambda>_.
      pbind (plift (validate_component ''edge_type'' edge_type)) (\<lambda>_.
      pbind (plift (validate_component ''idempotency_key'' idempotency_key)) (\<lambda>_.
      pbind (plift (ensure_write_authority sh cell_id oper)) (\<lambda>_.
      pbind (plift (gc_permit oper)) (\<lambda>_.
      pbind (plift (acquire_local_write_guard sh cell_id oper)) (\<lambda>_.
        compact_out_adjacency_segments_locked ops sh latest_matrix_artifact take_snapshot cell_id edge_type src
          compacted_through_epoch idempotency_key)))))))"


subsection \<open>What compaction does to the records\<close>

text \<open>The new records of one vertex: one segment with the destinations \<open>L\<close>, the later segments and tombstones, and the counted degree.\<close>

definition compacted_view ::
    "(graph_key \<Rightarrow> bytes option) \<Rightarrow> (graph_key \<Rightarrow> bytes option) \<Rightarrow> string \<Rightarrow> string \<Rightarrow> vertex_id \<Rightarrow> storage_sequence \<Rightarrow> string
      \<Rightarrow> vertex_id list \<Rightarrow> u64 \<Rightarrow> bool" where
  "compacted_view f g c t x E h0 L n \<longleftrightarrow>
     (\<forall>r h. valid_component h \<longrightarrow> g (KOutSegment c t x r h) =
        (if E < r then f (KOutSegment c t x r h)
         else if r = E \<and> h = h0 \<and> L \<noteq> [] then Some (encode_out_edge_segment_records L) else None))
     \<and> (\<forall>y. g (KOutTombstone c t x y) =
        (if \<exists>e. f (KOutTombstone c t x y) = Some (encode_u64 e) \<and> e \<le> E then None else f (KOutTombstone c t x y)))
     \<and> g (KDegreeOut c t x) = Some (encode_u64 n)
     \<and> (\<forall>k. valid_key k \<longrightarrow> (\<forall>r h. k \<noteq> KOutSegment c t x r h) \<longrightarrow> (\<forall>y. k \<noteq> KOutTombstone c t x y) \<longrightarrow> k \<noteq> KDegreeOut c t x
          \<longrightarrow> (\<forall>p i. k \<noteq> KIdempotency c p i) \<longrightarrow> g k = f k)"

lemma compacted_viewD:
  assumes "compacted_view f g c t x E h0 L n"
  shows "valid_component h \<Longrightarrow> E < r \<Longrightarrow> g (KOutSegment c t x r h) = f (KOutSegment c t x r h)"
    and "valid_component h \<Longrightarrow> \<not> E < r \<Longrightarrow> g (KOutSegment c t x r h) = (if r = E \<and> h = h0 \<and> L \<noteq> [] then Some (encode_out_edge_segment_records L) else None)"
    and "g (KOutTombstone c t x y) = Some (encode_u64 e) \<longleftrightarrow> f (KOutTombstone c t x y) = Some (encode_u64 e) \<and> E < e"
    and "g (KDegreeOut c t x) = Some (encode_u64 n)"
proof -
  note D = assms[unfolded compacted_view_def]
  show "g (KOutSegment c t x r h) = f (KOutSegment c t x r h)" if "valid_component h" "E < r"
    using D[THEN conjunct1, rule_format, OF that(1), of r] that(2) by simp
  show "g (KOutSegment c t x r h) = (if r = E \<and> h = h0 \<and> L \<noteq> [] then Some (encode_out_edge_segment_records L) else None)"
    if "valid_component h" "\<not> E < r" using D[THEN conjunct1, rule_format, OF that(1), of r] that(2) by simp
  have inj: "encode_u64 a = encode_u64 b \<longleftrightarrow> a = b" for a b using inj_encode_u64 by (simp add: inj_eq)
  show "g (KOutTombstone c t x y) = Some (encode_u64 e) \<longleftrightarrow> f (KOutTombstone c t x y) = Some (encode_u64 e) \<and> E < e"
    using D[THEN conjunct2, THEN conjunct1, rule_format, of y] by (auto simp: inj linorder_not_less split: if_splits)
  show "g (KDegreeOut c t x) = Some (encode_u64 n)" using D by blast
qed

lemma compacted_view_other:
  assumes "compacted_view f g c t x E h0 L n" "valid_component c'" "valid_component t'"
  shows "g (KOutEdge c' t' x' y) = f (KOutEdge c' t' x' y)" "g (KInEdge c' t' x' y) = f (KInEdge c' t' x' y)"
    "g (KXlogEntry c' t' r x' y) = f (KXlogEntry c' t' r x' y)" "g (KDegreeIn c' t' x') = f (KDegreeIn c' t' x')"
    "(c', t', x') \<noteq> (c, t, x) \<Longrightarrow> g (KDegreeOut c' t' x') = f (KDegreeOut c' t' x')"
    "(c', t', x') \<noteq> (c, t, x) \<Longrightarrow> g (KOutTombstone c' t' x' y) = f (KOutTombstone c' t' x' y)"
    "(c', t', x') \<noteq> (c, t, x) \<Longrightarrow> valid_component h \<Longrightarrow> g (KOutSegment c' t' x' r h) = f (KOutSegment c' t' x' r h)"
proof -
  note R = assms(1)[unfolded compacted_view_def, THEN conjunct2, THEN conjunct2, THEN conjunct2, rule_format]
  note v = valid_edge_keys[OF assms(2,3)]
  show "g (KOutEdge c' t' x' y) = f (KOutEdge c' t' x' y)" by (rule R) (simp_all add: v)
  show "g (KInEdge c' t' x' y) = f (KInEdge c' t' x' y)" by (rule R) (simp_all add: v)
  show "g (KXlogEntry c' t' r x' y) = f (KXlogEntry c' t' r x' y)" by (rule R) (simp_all add: v)
  show "g (KDegreeIn c' t' x') = f (KDegreeIn c' t' x')" by (rule R) (simp_all add: v)
  show "g (KDegreeOut c' t' x') = f (KDegreeOut c' t' x')" if "(c', t', x') \<noteq> (c, t, x)" by (rule R) (use that in \<open>auto simp: v\<close>)
  show "g (KOutTombstone c' t' x' y) = f (KOutTombstone c' t' x' y)" if "(c', t', x') \<noteq> (c, t, x)" by (rule R) (use that in \<open>auto simp: v\<close>)
  show "g (KOutSegment c' t' x' r h) = f (KOutSegment c' t' x' r h)" if "(c', t', x') \<noteq> (c, t, x)" "valid_component h"
    by (rule R) (use that assms(2,3) in auto)
qed

lemma compacted_segments:
  assumes cv: "compacted_view f g c t x E h0 L n" and b: "bounded f q c t" and E: "E \<le> q" and h0: "valid_component h0"
    and L: "set L = {y. \<exists>r. segment_in f c t x E y r}"
  shows "(\<exists>r. segment_in g c t x q y r) \<longleftrightarrow> (\<exists>r. segment_in f c t x q y r)"
proof -
  note D = compacted_viewD[OF cv] and B = boundedD[OF b]
  have inj: "encode_out_edge_segment_records a = encode_out_edge_segment_records b \<longleftrightarrow> a = b" for a b
    using inj_encode_segment by (simp add: inj_eq)
  have late: "segment_in g c t x q y r \<longleftrightarrow> segment_in f c t x q y r" if r: "E < r" for r
  proof -
    have "(\<forall>e. g (KOutTombstone c t x y) = Some (encode_u64 e) \<and> e \<le> q \<longrightarrow> e < r)
        \<longleftrightarrow> (\<forall>e. f (KOutTombstone c t x y) = Some (encode_u64 e) \<and> e \<le> q \<longrightarrow> e < r)"
      unfolding D(3) using r order_le_less_trans linorder_not_less by metis
    then show ?thesis unfolding segment_in_def by (simp add: D(1)[OF _ r] cong: conj_cong)
  qed
  have early: "(\<exists>r. \<not> E < r \<and> segment_in g c t x q y r) \<longleftrightarrow> (\<exists>r. \<not> E < r \<and> segment_in f c t x q y r)"
  proof
    assume "\<exists>r. \<not> E < r \<and> segment_in g c t x q y r"
    then obtain r h ds where r: "\<not> E < r" and h: "valid_component h" "g (KOutSegment c t x r h) = Some (encode_out_edge_segment_records ds)" "y \<in> set ds"
      and tomb: "\<forall>e. g (KOutTombstone c t x y) = Some (encode_u64 e) \<and> e \<le> q \<longrightarrow> e < r" unfolding segment_in_def by blast
    then have y: "y \<in> set L" "r = E" using D(2)[OF h(1) r] inj by (auto split: if_splits)
    then obtain r0 where r0: "segment_in f c t x E y r0" using L by blast
    have "e < r0" if e: "f (KOutTombstone c t x y) = Some (encode_u64 e)" "e \<le> q" for e
    proof -
      have "\<not> E < e" using tomb e D(3)[of y e] y(2) by auto
      then show ?thesis using r0 e(1) unfolding segment_in_def by (auto simp: linorder_not_less)
    qed
    then have "segment_in f c t x q y r0" using r0 E unfolding segment_in_def by (auto intro: order_trans)
    moreover have "\<not> E < r0" using r0 by (simp add: segment_in_def linorder_not_less)
    ultimately show "\<exists>r. \<not> E < r \<and> segment_in f c t x q y r" by blast
  next
    assume "\<exists>r. \<not> E < r \<and> segment_in f c t x q y r"
    then obtain r where r: "\<not> E < r" "segment_in f c t x q y r" by blast
    then have "segment_in f c t x E y r" using E unfolding segment_in_def by (auto intro: order_trans simp: linorder_not_less)
    then have y: "y \<in> set L" using L by blast
    have "\<not> (f (KOutTombstone c t x y) = Some (encode_u64 e) \<and> E < e)" for e
      using r B(2)[of x y e] unfolding segment_in_def by (auto dest: order_less_trans)
    then have "segment_in g c t x q y E"
      unfolding segment_in_def D(3) using y E h0 D(2)[OF h0, of E] by (intro conjI exI[of _ h0] exI[of _ L]) auto
    then show "\<exists>r. \<not> E < r \<and> segment_in g c t x q y r" by blast
  qed
  show ?thesis using late early by blast
qed

lemma compacted_bounded:
  assumes cv: "compacted_view f g c t x E h0 L n" and b: "bounded f q c' t'" and E: "E \<le> q" and v: "valid_component c'" "valid_component t'"
  shows "bounded g q c' t'"
  unfolding bounded_def
proof (intro conjI allI impI)
  note B = boundedD[OF b] and O = compacted_view_other[OF cv v] and C = compacted_viewD[OF cv]
  show "r \<le> q" if "valid_component h \<and> g (KOutSegment c' t' x' r h) \<noteq> None" for x' r h
  proof (cases "(c', t', x') = (c, t, x) \<and> \<not> E < r")
    case True
    then have "r = E" using that C(2)[of h r] by (auto split: if_splits)
    then show ?thesis using E by simp
  next
    case False
    then have "g (KOutSegment c' t' x' r h) = f (KOutSegment c' t' x' r h)"
      using that O(7)[of x' h r] C(1)[of h r] by (cases "(c', t', x') = (c, t, x)") auto
    then have "f (KOutSegment c' t' x' r h) \<noteq> None" using that by simp
    then show ?thesis using B(1)[of h x' r] that by auto
  qed
  show "e \<le> q" if "g (KOutTombstone c' t' x' y) = Some (encode_u64 e)" for x' y e
    using that B(2)[of x' y e] O(6)[of x' y] C(3)[of y e] by (cases "(c', t', x') = (c, t, x)") auto
  show "r \<le> q" if "g (KXlogEntry c' t' r x' y) \<noteq> None" for r x' y using that B(3)[of r x' y] by (auto simp: O(3))
qed

lemma compacted_mirrored:
  assumes cv: "compacted_view f g c t x E h0 L n" and M: "mirrored f c' t'" and v: "valid_component c'" "valid_component t'"
    and L: "set L = {y. \<exists>r. segment_in f c t x E y r}"
  shows "mirrored g c' t'"
  unfolding mirrored_def compacted_view_other(1,2)[OF cv v]
proof (intro conjI allI impI)
  note M = M[unfolded mirrored_def] and C = compacted_viewD[OF cv]
  show "f (KOutEdge c' t' x' y) = None \<longleftrightarrow> f (KInEdge c' t' y x') = None" for x' y using M by blast
  show "g (KOutSegment c' t' x' r h) = None" if h: "valid_component h" for x' r h
  proof (cases "(c', t', x') = (c, t, x)")
    case True
    then have "set L = {}" unfolding L segment_in_def using M by auto
    then show ?thesis using True C(1,2)[OF h, of r] M h by (cases "E < r") auto
  next
    case False
    then show ?thesis using compacted_view_other(7)[OF cv v False h] M h by simp
  qed
qed

lemma compacted_type:
  assumes cv: "compacted_view f g c t x E h0 L n" and inv: "type_inv mir z f q c' t'" and E: "E \<le> q" and h0: "valid_component h0"
    and L: "set L = {y. \<exists>r. segment_in f c t x E y r}" and n: "n = word_of_nat (card {y. visible_in f c t x q y})"
    and v: "valid_component c'" "valid_component t'"
  shows "type_inv mir z g q c' t'" and "edges_in g q c' t' = edges_in f q c' t'"
proof -
  note D = type_invD[OF inv] and O = compacted_view_other[OF cv v]
  have seg: "(\<exists>r. segment_in g c' t' x' q y r) \<longleftrightarrow> (\<exists>r. segment_in f c' t' x' q y r)" for x' y
  proof (cases "(c', t', x') = (c, t, x)")
    case True
    then show ?thesis using compacted_segments[OF cv _ E h0 L] D(1) by simp
  next
    case False
    then have "same_forms f g c' t' x' y" using O by (simp add: same_forms_def)
    then show ?thesis using same_forms_segment by blast
  qed
  have vis: "visible_in g c' t' x' q y \<longleftrightarrow> visible_in f c' t' x' q y" for x' y
    unfolding visible_in_def O(1) seg ..
  show "edges_in g q c' t' = edges_in f q c' t'" by (simp add: edges_in_def vis)
  have "counted_out g q c' t'"
    unfolding counted_out_def vis
  proof
    fix x' show "counter_of (g (KDegreeOut c' t' x')) = word_of_nat (card {y. visible_in f c' t' x' q y})"
      using D(3) O(5)[of x'] compacted_viewD(4)[OF cv] n by (cases "(c', t', x') = (c, t, x)") (auto simp: counted_out_def)
  qed
  moreover have "one_form g q c' t'" using D(2) seg unfolding one_form_def O(1) by blast
  moreover have "spared z g q c' t'" using D(4) unfolding spared_def vis .
  moreover have "counted_in g q c' t'" if mir using D(6)[OF that] unfolding counted_in_def vis O(4) .
  ultimately show "type_inv mir z g q c' t'"
    using compacted_bounded[OF cv D(1) E v] compacted_mirrored[OF cv D(5) v L] by (simp add: type_inv_def)
qed

subsection \<open>What the scans find\<close>

definition scanned_segment :: "string \<Rightarrow> string \<Rightarrow> vertex_id \<Rightarrow> (storage_sequence \<times> string) \<times> vertex_id list \<Rightarrow> string \<times> out_edge_segment" where
  "scanned_segment c t s p = (render (KOutSegment c t s (fst (fst p)) (snd (fst p))),
     \<lparr>os_cell_id = c, os_edge_type = t, os_src = s, os_storage_sequence = fst (fst p), os_destinations = snd p\<rparr>)"

lemma source_segments_scan:
  assumes v: "valid_component c" "valid_component t"
  shows "\<forall>p \<in> set ss. valid_component (snd (fst p)) \<and> 8 * length (snd p) < 2 ^ 64 \<Longrightarrow>
    \<exists>n'. source_segments_loop E (map (segment_kv c t s) ss) acc n =
      Inr (acc @ map (scanned_segment c t s) (takeWhile (\<lambda>p. \<not> E < fst (fst p)) ss), n')"
proof (induction ss arbitrary: acc n)
  case (Cons p ss)
  obtain q g ds where p: "p = ((q, g), ds)" by (metis surj_pair)
  have g: "valid_component g" "8 * length ds < 2 ^ 64" using Cons.prems by (simp_all add: p)
  have key: "from_utf8_lossy (fst (segment_kv c t s p)) = render (KOutSegment c t s q g)"
    using render_lossy[of "KOutSegment c t s q g"] v g(1) by (simp add: segment_kv_def family_kv_def p)
  have "decode_out_edge_segment (from_utf8_lossy (fst (segment_kv c t s p))) (snd (segment_kv c t s p)) = Inr (snd (scanned_segment c t s p))"
    using decode_segment_kv[OF v] g by (simp add: p scanned_segment_def)
  note dec = this[unfolded key]
  show ?case
  proof (cases "E < q")
    case True
    then show ?thesis using dec by (simp add: Let_def key) (simp add: p scanned_segment_def)
  next
    case False
    have at: "(render (KOutSegment c t s q g), snd (scanned_segment c t s p)) = scanned_segment c t s p"
      by (simp add: scanned_segment_def p)
    from Cons.IH[of "acc @ [scanned_segment c t s p]"] Cons.prems False dec at show ?thesis
      by (simp add: Let_def key) (simp add: p scanned_segment_def)
  qed
qed simp

lemma takeWhile_sorted_bound:
  "sorted (map f xs) \<Longrightarrow> set (takeWhile (\<lambda>x. \<not> b < f x) xs) = {x \<in> set xs. f x \<le> b}" for b :: "'b :: linorder"
  by (induction xs) (auto simp: linorder_not_less)

definition marked_tombstone :: "string \<Rightarrow> string \<Rightarrow> vertex_id \<Rightarrow> vertex_id \<times> storage_sequence \<Rightarrow> vertex_id \<times> storage_sequence \<times> string" where
  "marked_tombstone c t s p = (fst p, snd p, render (KOutTombstone c t s (fst p)))"

lemma compaction_tombstone_fold:
  assumes "valid_component c" "valid_component t"
  shows "rfold (compaction_tombstone_step c t s r) (map (family_kv (KOutTombstone c t s) encode_u64) ts) acc
    = Inr (bt_extend acc (map (marked_tombstone c t s) (filter (\<lambda>p. snd p \<le> r) ts)))"
proof (induction ts arbitrary: acc)
  case (Cons p ts)
  have "compaction_tombstone_step c t s r (family_kv (KOutTombstone c t s) encode_u64 p) acc
      = Inr (if snd p \<le> r then bt_insert (fst p) (snd p, render (KOutTombstone c t s (fst p))) acc else acc)"
    using assms parse_tombstone_key[OF assms, of s "fst p"] render_lossy[OF valid_segment_keys(1)[OF assms, of s "fst p"]]
    by (simp add: compaction_tombstone_step_def family_kv_def Let_def)
  then show ?case using Cons by (simp add: bt_extend_def split_beta marked_tombstone_def)
qed (simp add: bt_extend_def)

lemma compaction_tombstone_scan:
  assumes wf: "wf_store m" and v: "valid_component c" "valid_component t"
  shows "\<exists>T. rfold (compaction_tombstone_step c t s r) (scan (out_segment_tombstone_src_prefix c t s) m) [] = Inr T \<and> bt_ok T
    \<and> (\<forall>d e k. bt_get T d = Some (e, k) \<longleftrightarrow>
         kview m (KOutTombstone c t s d) = Some (encode_u64 e) \<and> e \<le> r \<and> k = render (KOutTombstone c t s d))"
proof -
  have tdec: "\<exists>e. w = encode_u64 e" if "valid_key (KOutTombstone c t s x)" "kview m (KOutTombstone c t s x) = Some w" for x w
    using wf_store_record[OF wf that] by simp
  have "inj (KOutTombstone c t s)" by (auto simp: inj_on_def)
  then have "\<exists>ts. scan (out_segment_tombstone_src_prefix c t s) m = map (family_kv (KOutTombstone c t s) encode_u64) ts
      \<and> sorted_wrt (<) (map (\<lambda>p. render (KOutTombstone c t s (fst p))) ts)
      \<and> (\<forall>d e. (d, e) \<in> set ts \<longleftrightarrow>
            valid_key (KOutTombstone c t s d) \<and> kview m (KOutTombstone c t s d) = Some (encode_u64 e))"
    using scan_family[OF wf_store_keyed[OF wf] tombstone_prefix_render[OF _ v] _ _ inj_encode_u64] tdec by blast
  then obtain ts where
    ts: "scan (out_segment_tombstone_src_prefix c t s) m = map (family_kv (KOutTombstone c t s) encode_u64) ts"
    "sorted_wrt (<) (map (\<lambda>p. render (KOutTombstone c t s (fst p))) ts)"
    "\<And>d e. (d, e) \<in> set ts \<longleftrightarrow> kview m (KOutTombstone c t s d) = Some (encode_u64 e)"
    using valid_segment_keys(1)[OF v] by metis
  let ?ts = "map (marked_tombstone c t s) (filter (\<lambda>p. snd p \<le> r) ts)"
  have "distinct (map fst (filter (\<lambda>p. snd p \<le> r) ts))"
    using distinct_fst_render[OF ts(2)] by (rule distinct_map_filter)
  moreover have "map fst ?ts = map fst (filter (\<lambda>p. snd p \<le> r) ts)" by (simp add: marked_tombstone_def)
  ultimately have "distinct (map fst ?ts)" by (simp only:)
  then have "bt_get (bt_extend [] ?ts) d = Some (e, k) \<longleftrightarrow>
      kview m (KOutTombstone c t s d) = Some (encode_u64 e) \<and> e \<le> r \<and> k = render (KOutTombstone c t s d)" for d e k
    using ts(3) by (force simp: bt_get_extend_distinct marked_tombstone_def image_iff)
  then show ?thesis unfolding ts(1) compaction_tombstone_fold[OF v] using bt_ok_extend[OF bt_ok_Nil] by blast
qed

lemma live_keys:
  "fst ` set (fold (live_destination E T q) ds live) =
     {d \<in> set ds. segment_edge_visible q (compaction_tombstone_epoch E T d)} \<union> fst ` set live"
proof (induction ds arbitrary: live)
  case (Cons d ds)
  have "fst ` set (live_destination E T q d live) =
      (if segment_edge_visible q (compaction_tombstone_epoch E T d) then {d} else {}) \<union> fst ` set live"
    by (auto simp: live_destination_def bt_insert_keys)
  then show ?case using Cons by auto
qed simp

lemma live_ok: "bt_ok live \<Longrightarrow> bt_ok (fold (live_destination E T q) ds live)"
  by (induction ds arbitrary: live) (simp_all add: live_destination_def)

lemma compacted_destinations_fold:
  "fst ` set (fold (\<lambda>(_, segment). fold (live_destination E T (os_storage_sequence segment)) (os_destinations segment)) sources live) =
     {d. \<exists>(k, segment) \<in> set sources. d \<in> set (os_destinations segment)
        \<and> segment_edge_visible (os_storage_sequence segment) (compaction_tombstone_epoch E T d)} \<union> fst ` set live"
  (is "fst ` set (fold ?f sources live) = _")
proof (induction sources arbitrary: live)
  case (Cons p sources)
  show ?case unfolding fold_Cons comp_apply Cons.IH by (auto simp: live_keys split: prod.splits)
qed simp

lemma compacted_destinations_ok: "distinct (compacted_destinations E T sources)"
proof -
  have "bt_ok live \<Longrightarrow> bt_ok (fold (\<lambda>(_, segment). fold (live_destination E T (os_storage_sequence segment)) (os_destinations segment)) sources live)" for live
    by (induction sources arbitrary: live) (auto simp: live_ok split: prod.splits)
  then show ?thesis unfolding compacted_destinations_def by (rule bt_ok_distinct) simp
qed

lemma sources_found:
  assumes wf: "wf_store m" and v: "valid_component c" "valid_component t"
    and src: "source_segments_loop E (scan (out_segment_src_prefix c t x) m) [] 0 = Inr (sources, input)"
  obtains us where "sources = map (scanned_segment c t x) us"
    "\<And>r g ds. ((r, g), ds) \<in> set us \<longleftrightarrow>
       r \<le> E \<and> valid_component g \<and> kview m (KOutSegment c t x r g) = Some (encode_out_edge_segment_records ds)"
proof -
  obtain ss where ss: "scan (out_segment_src_prefix c t x) m = map (segment_kv c t x) ss" "sorted (map (\<lambda>p. fst (fst p)) ss)"
    "\<forall>p \<in> set ss. valid_component (snd (fst p)) \<and> 8 * length (snd p) < 2 ^ 64"
    "\<And>q g ds. ((q, g), ds) \<in> set ss \<longleftrightarrow> valid_component g \<and> kview m (KOutSegment c t x q g) = Some (encode_out_edge_segment_records ds)"
    using segment_scan_family[OF wf v, of x] by blast
  let ?us = "takeWhile (\<lambda>p. \<not> E < fst (fst p)) ss"
  have us: "set ?us = {p \<in> set ss. fst (fst p) \<le> E}" by (rule takeWhile_sorted_bound[OF ss(2)])
  show ?thesis
  proof (rule that[of ?us])
    show "sources = map (scanned_segment c t x) ?us"
      using src source_segments_scan[OF v ss(3), of E x "[]" 0] unfolding ss(1) by auto
    show "((r, g), ds) \<in> set ?us \<longleftrightarrow> r \<le> E \<and> valid_component g \<and> kview m (KOutSegment c t x r g) = Some (encode_out_edge_segment_records ds)" for r g ds
      unfolding us using ss(4)[of r g ds] by auto
  qed
qed

lemma tombstones_found:
  assumes wf: "wf_store m" and v: "valid_component c" "valid_component t" and E: "E \<le> q"
    and tomb: "rfold (compaction_tombstone_step c t x q) (scan (out_segment_tombstone_src_prefix c t x) m) [] = Inr T"
  shows "(d, e, k) \<in> set T \<and> e \<le> E \<longleftrightarrow> kview m (KOutTombstone c t x d) = Some (encode_u64 e) \<and> e \<le> E \<and> k = render (KOutTombstone c t x d)"
    and "compaction_tombstone_epoch E T d = Some e \<longleftrightarrow> kview m (KOutTombstone c t x d) = Some (encode_u64 e) \<and> e \<le> E"
proof -
  obtain T' where T': "rfold (compaction_tombstone_step c t x q) (scan (out_segment_tombstone_src_prefix c t x) m) [] = Inr T'" "bt_ok T'"
    "\<And>d e k. bt_get T' d = Some (e, k) \<longleftrightarrow> kview m (KOutTombstone c t x d) = Some (encode_u64 e) \<and> e \<le> q \<and> k = render (KOutTombstone c t x d)"
    using compaction_tombstone_scan[OF wf v, of x q] by blast
  have T: "bt_ok T" "\<And>d e k. bt_get T d = Some (e, k) \<longleftrightarrow> kview m (KOutTombstone c t x d) = Some (encode_u64 e) \<and> e \<le> q \<and> k = render (KOutTombstone c t x d)"
    using T' tomb by simp_all
  have le: "e \<le> q" if "e \<le> E" for e using that E by (rule order_trans)
  show "(d, e, k) \<in> set T \<and> e \<le> E \<longleftrightarrow> kview m (KOutTombstone c t x d) = Some (encode_u64 e) \<and> e \<le> E \<and> k = render (KOutTombstone c t x d)"
    unfolding bt_get_Some_iff[OF T(1), of d "(e, k)", symmetric] T(2) using le by blast
  show "compaction_tombstone_epoch E T d = Some e \<longleftrightarrow> kview m (KOutTombstone c t x d) = Some (encode_u64 e) \<and> e \<le> E"
  proof (cases "bt_get T d")
    case None
    then show ?thesis using T(2)[of d e] le by (auto simp: compaction_tombstone_epoch_def)
  next
    case (Some p)
    obtain e' k' where p: "p = (e', k')" by fastforce
    then have "kview m (KOutTombstone c t x d) = Some (encode_u64 e')" using Some T(2)[of d e' k'] by simp
    moreover have "encode_u64 e' = encode_u64 e \<longleftrightarrow> e' = e" using inj_encode_u64 by (simp add: inj_eq)
    ultimately show ?thesis using Some p by (auto simp: compaction_tombstone_epoch_def)
  qed
qed

text \<open>The keys to delete are those of the old segments and tombstones, and the new segment holds what the old segments show at
  the sequence of the compaction.\<close>

lemma source_keys:
  assumes wf: "wf_store m" and v: "valid_component c" "valid_component t"
    and src: "source_segments_loop E (scan (out_segment_src_prefix c t x) m) [] 0 = Inr (sources, input)"
  shows "\<exists>ps. map fst sources = map (\<lambda>p. render (KOutSegment c t x (fst p) (snd p))) ps
    \<and> set ps = {(r, h). r \<le> E \<and> valid_component h \<and> kview m (KOutSegment c t x r h) \<noteq> None}"
proof -
  obtain us where us: "sources = map (scanned_segment c t x) us"
    "\<And>r g ds. ((r, g), ds) \<in> set us \<longleftrightarrow> r \<le> E \<and> valid_component g \<and> kview m (KOutSegment c t x r g) = Some (encode_out_edge_segment_records ds)"
    by (rule sources_found[OF assms], rule that)
  have mem: "(r, h) \<in> set (map fst us) \<longleftrightarrow> r \<le> E \<and> valid_component h \<and> kview m (KOutSegment c t x r h) \<noteq> None" for r h
  proof
    assume "(r, h) \<in> set (map fst us)"
    then show "r \<le> E \<and> valid_component h \<and> kview m (KOutSegment c t x r h) \<noteq> None" using us(2) by auto
  next
    assume r: "r \<le> E \<and> valid_component h \<and> kview m (KOutSegment c t x r h) \<noteq> None"
    then obtain w where w: "kview m (KOutSegment c t x r h) = Some w" by blast
    with wf_store_record[OF wf _ w] v r obtain ds where "((r, h), ds) \<in> set us" using us(2) by auto
    then show "(r, h) \<in> set (map fst us)" by force
  qed
  have keys: "map fst sources = map (\<lambda>p. render (KOutSegment c t x (fst p) (snd p))) (map fst us)"
    by (simp add: us(1) scanned_segment_def)
  show ?thesis by (intro exI[of _ "map fst us"] conjI keys set_eqI) (use mem in \<open>simp only: split_paired_all mem_Collect_eq prod.case\<close>)
qed

lemma dead_tombstone_keys:
  assumes "wf_store m" "valid_component c" "valid_component t" "E \<le> q"
    and "rfold (compaction_tombstone_step c t x q) (scan (out_segment_tombstone_src_prefix c t x) m) [] = Inr T"
  shows "\<exists>ys. dead_tombstones E T = map (\<lambda>y. render (KOutTombstone c t x y)) ys
    \<and> set ys = {y. \<exists>e. kview m (KOutTombstone c t x y) = Some (encode_u64 e) \<and> e \<le> E}"
proof (intro exI[of _ "map fst (filter (\<lambda>(_, epoch, _). epoch \<le> E) T)"] conjI set_eqI)
  note mem = tombstones_found(1)[OF assms]
  show "dead_tombstones E T = map (\<lambda>y. render (KOutTombstone c t x y)) (map fst (filter (\<lambda>(_, epoch, _). epoch \<le> E) T))"
    unfolding dead_tombstones_def map_map
  proof (rule map_cong[OF refl])
    fix p assume p: "p \<in> set (filter (\<lambda>(_, epoch, _). epoch \<le> E) T)"
    obtain d e k where eq: "p = (d, e, k)" by (metis surj_pair)
    then have "k = render (KOutTombstone c t x d)" using p mem[of d e k] by simp
    then show "(\<lambda>(_, _, key). key) p = ((\<lambda>y. render (KOutTombstone c t x y)) \<circ> fst) p" by (simp add: eq)
  qed
  fix y
  have "y \<in> set (map fst (filter (\<lambda>(_, epoch, _). epoch \<le> E) T)) \<longleftrightarrow> (\<exists>e k. (y, e, k) \<in> set T \<and> e \<le> E)" by force
  then show "y \<in> set (map fst (filter (\<lambda>(_, epoch, _). epoch \<le> E) T)) \<longleftrightarrow>
      y \<in> {y. \<exists>e. kview m (KOutTombstone c t x y) = Some (encode_u64 e) \<and> e \<le> E}" unfolding mem by simp
qed

lemma live_destinations:
  assumes "wf_store m" "valid_component c" "valid_component t" "E \<le> q"
    and src: "source_segments_loop E (scan (out_segment_src_prefix c t x) m) [] 0 = Inr (sources, input)"
    and tomb: "rfold (compaction_tombstone_step c t x q) (scan (out_segment_tombstone_src_prefix c t x) m) [] = Inr T"
  shows "set (compacted_destinations E T sources) = {y. \<exists>r. segment_in (kview m) c t x E y r}"
proof (rule set_eqI)
  fix y
  obtain us where us: "sources = map (scanned_segment c t x) us"
    "\<And>r g ds. ((r, g), ds) \<in> set us \<longleftrightarrow> r \<le> E \<and> valid_component g \<and> kview m (KOutSegment c t x r g) = Some (encode_out_edge_segment_records ds)"
    by (rule sources_found[OF assms(1-3) src], rule that)
  have shown: "segment_edge_visible r (compaction_tombstone_epoch E T y) \<longleftrightarrow>
      (\<forall>e. kview m (KOutTombstone c t x y) = Some (encode_u64 e) \<and> e \<le> E \<longrightarrow> e < r)" for r
    unfolding tombstones_found(2)[OF assms(1-4) tomb, symmetric] by (auto simp: segment_edge_visible_def split: option.splits)
  have "y \<in> set (compacted_destinations E T sources) \<longleftrightarrow>
      (\<exists>p \<in> set us. y \<in> set (snd p) \<and> segment_edge_visible (fst (fst p)) (compaction_tombstone_epoch E T y))"
    unfolding compacted_destinations_def set_map compacted_destinations_fold us(1) by (simp add: scanned_segment_def)
  also have "\<dots> \<longleftrightarrow> (\<exists>r. segment_in (kview m) c t x E y r)"
    unfolding segment_in_def shown Bex_def split_paired_Ex us(2) fst_conv snd_conv by blast
  finally show "y \<in> set (compacted_destinations E T sources) \<longleftrightarrow> y \<in> {y. \<exists>r. segment_in (kview m) c t x E y r}" by simp
qed

subsection \<open>The batch\<close>

lemma deletes_view:
  assumes "wf_store m" "\<forall>k \<in> set ks. valid_key k"
  shows "wf_store (apply_batch (map (\<lambda>k. DeleteOp (render k)) ks) m)"
    and "valid_key k \<Longrightarrow> kview (apply_batch (map (\<lambda>k. DeleteOp (render k)) ks) m) k = (if k \<in> set ks then None else kview m k)"
proof -
  have "wf_store (apply_batch (map (\<lambda>k. DeleteOp (render k)) ks) m)
      \<and> (\<forall>k. valid_key k \<longrightarrow> kview (apply_batch (map (\<lambda>k. DeleteOp (render k)) ks) m) k = (if k \<in> set ks then None else kview m k))"
    using assms
  proof (induction ks arbitrary: m)
    case (Cons j ks)
    have m: "wf_store (bt_remove (render j) m)" using Cons.prems by (simp add: wf_store_remove)
    from Cons.IH[OF m] Cons.prems(2) kview_remove[of j _ m] show ?case by simp
  qed simp
  then show "wf_store (apply_batch (map (\<lambda>k. DeleteOp (render k)) ks) m)"
    and "valid_key k \<Longrightarrow> kview (apply_batch (map (\<lambda>k. DeleteOp (render k)) ks) m) k = (if k \<in> set ks then None else kview m k)" by blast+
qed

lemma put_view:
  assumes "wf_store m" "valid_key j" "wf_record j w"
  shows "wf_store (apply_batch [PutOp (render j) w] m)"
    and "valid_key k \<Longrightarrow> kview (apply_batch [PutOp (render j) w] m) k = (if k = j then Some w else kview m k)"
  using assms wf_store_insert[OF assms] kview_insert[of m j k w] wf_store_keyed[OF assms(1)] by (simp_all add: well_keyed_def)

definition compaction_puts ::
    "string \<Rightarrow> string \<Rightarrow> vertex_id \<Rightarrow> storage_sequence \<Rightarrow> string \<Rightarrow> vertex_id list \<Rightarrow> graph_write_batch" where
  "compaction_puts c t x E i L = (if L \<noteq> [] then [PutOp (render (KOutSegment c t x E (compaction_segment_id i))) (encode_out_edge_segment_records L)] else [])"

lemma compaction_puts_view:
  assumes m: "wf_store m" and v: "valid_component c" "valid_component t" "valid_component (compaction_segment_id i)" and L: "8 * length L < 2 ^ 64"
  shows "wf_store (apply_batch (compaction_puts c t x E i L) m)"
    and "valid_key k \<Longrightarrow> kview (apply_batch (compaction_puts c t x E i L) m) k =
      (if L \<noteq> [] \<and> k = KOutSegment c t x E (compaction_segment_id i) then Some (encode_out_edge_segment_records L) else kview m k)"
proof -
  let ?j = "KOutSegment c t x E (compaction_segment_id i)"
  have j: "valid_key ?j" "wf_record ?j (encode_out_edge_segment_records L)" using v L unfolding wf_record.simps by auto
  note P = put_view[OF m j]
  show "wf_store (apply_batch (compaction_puts c t x E i L) m)"
    unfolding compaction_puts_def using P(1) m by (simp only: apply_batch_Nil split: if_split) simp
  show "kview (apply_batch (compaction_puts c t x E i L) m) k =
      (if L \<noteq> [] \<and> k = ?j then Some (encode_out_edge_segment_records L) else kview m k)" if "valid_key k"
    unfolding compaction_puts_def using P(2)[OF that] by (simp only: apply_batch_Nil split: if_split) simp
qed

lemma fold_delete_keys: "fold (\<lambda>(key, _). batch_delete key) xs ws = ws @ map DeleteOp (map fst xs)"
  by (induction xs arbitrary: ws) (auto simp: batch_delete_def)

lemma compaction_batch_parts:
  assumes "map fst sources = map (\<lambda>p. render (KOutSegment c t x (fst p) (snd p))) ps" "dead = map (\<lambda>y. render (KOutTombstone c t x y)) ys"
  shows "compaction_batch c t x E i sources dead L n (render j) res =
    map (\<lambda>k. DeleteOp (render k)) (map (\<lambda>p. KOutSegment c t x (fst p) (snd p)) ps @ map (KOutTombstone c t x) ys)
    @ compaction_puts c t x E i L @ [PutOp (render (KDegreeOut c t x)) (encode_u64 n)] @ [PutOp (render j) (encode_segment_compaction_idempotency i res)]"
  unfolding compaction_batch_def Let_def fold_delete_keys batch_deletes batch_put_def compaction_puts_def assms by simp

lemma compaction_batch_view:
  assumes wf: "wf_store m" and v: "valid_component c" "valid_component t" "valid_component i" "valid_component p"
    and ps: "map fst sources = map (\<lambda>p. render (KOutSegment c t x (fst p) (snd p))) ps"
      "set ps = {(r, h). r \<le> E \<and> valid_component h \<and> kview m (KOutSegment c t x r h) \<noteq> None}"
    and ys: "dead = map (\<lambda>y. render (KOutTombstone c t x y)) ys" "set ys = {y. \<exists>e. kview m (KOutTombstone c t x y) = Some (encode_u64 e) \<and> e \<le> E}"
    and L: "8 * length L < 2 ^ 64"
    and ws: "ws = compaction_batch c t x E i sources dead L n (idempotency c p i) res"
  shows "wf_store (apply_batch ws m)" "compacted_view (kview m) (kview (apply_batch ws m)) c t x E (compaction_segment_id i) L n"
    "kview (apply_batch ws m) (KIdempotency c p i) = Some (encode_segment_compaction_idempotency i res)"
proof -
  let ?j = "KIdempotency c p i" and ?h = "compaction_segment_id i"
  let ?ks = "map (\<lambda>p. KOutSegment c t x (fst p) (snd p)) ps @ map (KOutTombstone c t x) ys"
  let ?m1 = "apply_batch (map (\<lambda>k. DeleteOp (render k)) ?ks) m"
  let ?m2 = "apply_batch (compaction_puts c t x E i L) ?m1"
  let ?m3 = "apply_batch [PutOp (render (KDegreeOut c t x)) (encode_u64 n)] ?m2"
  have h: "valid_component ?h" using v(3) by (auto simp: compaction_segment_id_def valid_component_def component_byte_def)
  have vk: "valid_key ?j" "valid_key (KDegreeOut c t x)" "valid_key (KOutSegment c t x E ?h)"
    using v h by (simp_all add: valid_keys valid_edge_keys)
  have ks: "\<forall>k \<in> set ?ks. valid_key k" using ps(2) v by auto
  note m1 = deletes_view[OF wf ks]
  note m2 = compaction_puts_view[where x = x and E = E, OF m1(1) v(1,2) h L]
  have deg: "wf_record (KDegreeOut c t x) (encode_u64 n)" by auto
  note m3 = put_view[OF m2(1) vk(2) deg]
  have idem: "wf_record ?j (encode_segment_compaction_idempotency i res)" by simp
  note m4 = put_view[OF m3(1) vk(1) idem]
  have eq: "apply_batch ws m = apply_batch [PutOp (render ?j) (encode_segment_compaction_idempotency i res)] ?m3"
    unfolding ws using compaction_batch_parts[OF ps(1) ys(1), of E i L n ?j res] by (simp only: render.simps apply_batch_append)
  have view: "kview (apply_batch ws m) k = (if k = ?j then Some (encode_segment_compaction_idempotency i res)
      else if k = KDegreeOut c t x then Some (encode_u64 n)
      else if L \<noteq> [] \<and> k = KOutSegment c t x E ?h then Some (encode_out_edge_segment_records L)
      else if k \<in> set ?ks then None else kview m k)" if k: "valid_key k" for k
    unfolding eq m4(2)[OF k] m3(2)[OF k] m2(2)[OF k] m1(2)[OF k] ..
  show "wf_store (apply_batch ws m)" unfolding eq by (rule m4(1))
  show "kview (apply_batch ws m) ?j = Some (encode_segment_compaction_idempotency i res)" using view[OF vk(1)] by simp
  show "compacted_view (kview m) (kview (apply_batch ws m)) c t x E ?h L n"
    unfolding compacted_view_def
  proof (intro conjI allI impI)
    fix r h assume h: "valid_component h"
    have k: "valid_key (KOutSegment c t x r h)" using v h by simp
    have in_ks: "KOutSegment c t x r h \<in> set ?ks \<longleftrightarrow> (r, h) \<in> set ps" by force
    show "kview (apply_batch ws m) (KOutSegment c t x r h) = (if E < r then kview m (KOutSegment c t x r h)
        else if r = E \<and> h = ?h \<and> L \<noteq> [] then Some (encode_out_edge_segment_records L) else None)"
      unfolding view[OF k] in_ks ps(2) using h by (auto simp: linorder_not_less)
  next
    fix y
    have k: "valid_key (KOutTombstone c t x y)" using v by simp
    have in_ks: "KOutTombstone c t x y \<in> set ?ks \<longleftrightarrow> y \<in> set ys" by force
    show "kview (apply_batch ws m) (KOutTombstone c t x y) =
        (if \<exists>e. kview m (KOutTombstone c t x y) = Some (encode_u64 e) \<and> e \<le> E then None else kview m (KOutTombstone c t x y))"
      unfolding view[OF k] in_ks ys(2) by simp
  next
    show "kview (apply_batch ws m) (KDegreeOut c t x) = Some (encode_u64 n)" using view[OF vk(2)] by simp
  next
    fix k assume k: "valid_key k" and ne: "\<forall>r h. k \<noteq> KOutSegment c t x r h" "\<forall>y. k \<noteq> KOutTombstone c t x y" "k \<noteq> KDegreeOut c t x" "\<forall>p i. k \<noteq> KIdempotency c p i"
    show "kview (apply_batch ws m) k = kview m k" unfolding view[OF k] using ne by auto
  qed
qed

lemma compaction_operation_component:
  "valid_component t \<Longrightarrow> valid_component (segment_compaction_idempotency_operation t x)"
  using fmt_020_component[of x] unfolding segment_compaction_idempotency_operation_def
  by (auto simp: valid_component_def component_byte_def)

end
