(* ===== verification/Compaction_Safety.thy ===== *)
theory Compaction_Safety
  imports Compaction
begin

text \<open>
  What compacting the segments of a vertex does to a store: the effect of its batch on the committed records, its runs over a
  store that may fail at any operation, and that it returns. The locale \<open>snapshots\<close> adds the snapshots of the database
  to the contract of its transactions.
\<close>

subsection \<open>The effect\<close>

abbreviation compaction_key :: "string \<Rightarrow> string \<Rightarrow> vertex_id \<Rightarrow> string \<Rightarrow> graph_key" where
  "compaction_key c t x i \<equiv> KIdempotency c (segment_compaction_idempotency_operation t x) i"

text \<open>The destinations of the segments of a vertex.\<close>

definition segment_targets :: "(bytes, bytes) btmap \<Rightarrow> string \<Rightarrow> string \<Rightarrow> vertex_id \<Rightarrow> vertex_id set" where
  "segment_targets m c t x = {y. \<exists>r h ds. valid_component h \<and> kview m (KOutSegment c t x r h) = Some (encode_out_edge_segment_records ds) \<and> y \<in> set ds}"

text \<open>After a compaction the graph is what it was, its result is stored, and up to its sequence the vertex has at most one segment
  and no tombstone.\<close>

definition compaction_done ::
    "shard_env \<Rightarrow> vertex_id \<Rightarrow> string \<Rightarrow> string \<Rightarrow> vertex_id \<Rightarrow> storage_sequence \<Rightarrow> string \<Rightarrow> segment_compaction_result
      \<Rightarrow> map_txn shard_state \<Rightarrow> map_txn shard_state \<Rightarrow> bool" where
  "compaction_done sh z c t x E i res s s' \<longleftrightarrow> store_inv sh z s'
     \<and> (\<forall>c t. valid_component c \<longrightarrow> valid_component t \<longrightarrow> graph_of s' c t = graph_of s c t)
     \<and> kview (db s') (compaction_key c t x i) = Some (encode_segment_compaction_idempotency i res)
     \<and> (\<forall>r h. valid_component h \<and> r \<le> E \<and> kview (db s') (KOutSegment c t x r h) \<noteq> None \<longrightarrow> r = E \<and> h = compaction_segment_id i)
     \<and> (\<forall>y e. kview (db s') (KOutTombstone c t x y) = Some (encode_u64 e) \<longrightarrow> E < e)"

lemma segment_id_component: "valid_component i \<Longrightarrow> valid_component (compaction_segment_id i)"
  by (auto simp: compaction_segment_id_def valid_component_def component_byte_def)

lemma same_type_view_refl: "same_type_view f f c t"
  by (simp add: same_type_view_def same_forms_def)

lemma compaction_effect:
  assumes inv: "store_inv sh z s" and v: "valid_component c" "valid_component t" "valid_component i"
    and E: "E \<le> seq s" and fit: "8 * card (segment_targets (db s) c t x) < 2 ^ 64"
    and src: "source_segments_loop E (scan (out_segment_src_prefix c t x) (db s)) [] 0 = Inr (sources, input)"
    and tomb: "rfold (compaction_tombstone_step c t x (seq s)) (scan (out_segment_tombstone_src_prefix c t x) (db s)) [] = Inr T"
    and L: "L = compacted_destinations E T sources"
    and n: "n = word_of_nat (card {y. visible_in (kview (db s)) c t x (seq s) y})"
    and ws: "ws = compaction_batch c t x E i sources (dead_tombstones E T) L n (render (compaction_key c t x i)) res"
    and s': "db s' = apply_batch ws (db s)" "seq s \<le> seq s'"
  shows "compaction_done sh z c t x E i res s s'"
proof -
  have wf: "wf_store (db s)" and types: "\<And>c t. valid_component c \<Longrightarrow> valid_component t \<Longrightarrow> type_inv (writes_reverse_index sh) z (kview (db s)) (seq s) c t"
    using inv by (simp_all add: store_inv_def graph_inv_def)
  obtain ps where ps: "map fst sources = map (\<lambda>p. render (KOutSegment c t x (fst p) (snd p))) ps"
    "set ps = {(r, h). r \<le> E \<and> valid_component h \<and> kview (db s) (KOutSegment c t x r h) \<noteq> None}" using source_keys[OF wf v(1,2) src] by blast
  obtain ys where ys: "dead_tombstones E T = map (\<lambda>y. render (KOutTombstone c t x y)) ys"
    "set ys = {y. \<exists>e. kview (db s) (KOutTombstone c t x y) = Some (encode_u64 e) \<and> e \<le> E}" using dead_tombstone_keys[OF wf v(1,2) E tomb] by blast
  have Ls: "set L = {y. \<exists>r. segment_in (kview (db s)) c t x E y r}" unfolding L by (rule live_destinations[OF wf v(1,2) E src tomb])
  have "set L \<subseteq> segment_targets (db s) c t x" unfolding Ls segment_targets_def segment_in_def by blast
  then have "card (set L) \<le> card (segment_targets (db s) c t x)" by (rule card_mono[OF finite_vertices])
  then have len: "8 * length L < 2 ^ 64" using fit distinct_card[OF compacted_destinations_ok, of E T sources] unfolding L by linarith
  have ws': "ws = compaction_batch c t x E i sources (dead_tombstones E T) L n (idempotency c (segment_compaction_idempotency_operation t x) i) res"
    unfolding ws by simp
  note batch = compaction_batch_view[OF wf v compaction_operation_component[OF v(2)] ps ys len ws']
  note h = segment_id_component[OF v(3)]
  note new = compacted_type[OF batch(2) types E h Ls n]
  let ?g = "kview (db s')"
  have g: "?g = kview (apply_batch ws (db s))" by (simp add: s'(1))
  have "type_inv (writes_reverse_index sh) z ?g (seq s') c' t'" if "valid_component c'" "valid_component t'" for c' t'
    unfolding g by (rule type_inv_same[OF new(1)[OF that that] same_type_view_refl s'(2)])
  then have "store_inv sh z s'" using batch(1) by (simp add: store_inv_def graph_inv_def s'(1))
  moreover have "graph_of s' c' t' = graph_of s c' t'" if "valid_component c'" "valid_component t'" for c' t'
    unfolding graph_of_def g new(2)[OF that that, symmetric]
    using visible_in_later[OF type_invD(1)[OF new(1)[OF that that]] s'(2)] by (simp add: edges_in_def)
  moreover have "?g (compaction_key c t x i) = Some (encode_segment_compaction_idempotency i res)" unfolding g by (rule batch(3))
  moreover have "r = E \<and> h = compaction_segment_id i" if "valid_component h \<and> r \<le> E \<and> ?g (KOutSegment c t x r h) \<noteq> None" for r h
    using that compacted_viewD(2)[OF batch(2), of h r] unfolding g by (auto simp: linorder_not_less split: if_splits)
  moreover have "E < e" if "?g (KOutTombstone c t x y) = Some (encode_u64 e)" for y e
    using that compacted_viewD(3)[OF batch(2), of y e] unfolding g by simp
  ultimately show ?thesis unfolding compaction_done_def by blast
qed


lemma compaction_done_unchanged:
  "unchanged a b \<Longrightarrow> compaction_done sh z c t x E i res b d \<longleftrightarrow> compaction_done sh z c t x E i res a d"
  using unchanged_inv(2)[of a b] by (simp add: compaction_done_def)

text \<open>A compaction has its effect, or it fails and nothing has changed.\<close>

abbreviation compacts :: "shard_env \<Rightarrow> vertex_id \<Rightarrow> string \<Rightarrow> string \<Rightarrow> vertex_id \<Rightarrow> storage_sequence \<Rightarrow> string
    \<Rightarrow> segment_compaction_result result \<Rightarrow> map_txn shard_state \<Rightarrow> map_txn shard_state \<Rightarrow> bool" where
  "compacts sh z c t x E i r a b \<equiv> \<not> is_ok r \<and> unchanged a b
     \<or> (\<exists>res. (is_ok r \<longrightarrow> r = Inr res) \<and> compaction_done sh z c t x E i res a b)"

lemma compacts_from: "unchanged a b \<Longrightarrow> compacts sh z c t x E i r b d \<Longrightarrow> compacts sh z c t x E i r a d"
  using compaction_done_unchanged[of a b] same_store_trans[of "ss_txn a" "ss_txn b"] by blast

subsection \<open>Runs over a store with faults and snapshots\<close>

text \<open>What SlateDB promises of a snapshot: taking it changes nothing, and it answers from the records committed at its sequence.\<close>

locale snapshots = txn_faults ops abs for ops :: "'t txn_ops" and abs :: "'t \<Rightarrow> map_txn" +
  fixes take_snapshot :: "('t shard_state, storage_snapshot) prog"
  assumes snapshot_quiet: "take_snapshot s = (r, s') \<Longrightarrow> same_store (abs (ss_txn s)) (abs (ss_txn s'))"
    and snapshot_pins: "take_snapshot s = (Inr snap, s') \<Longrightarrow> pinned snap (mt_durable (abs (ss_txn s))) \<and> sn_seq snap = mt_seq (abs (ss_txn s))"
begin

lemma quiet_snapshot: "quiet take_snapshot"
  using snapshot_quiet by (simp add: quiet_def)

lemma quiet_readable: "quiet (ensure_cell_readable ops c oper)" "quiet (current_epoch ops c)"
  unfolding current_epoch_def ensure_cell_readable_def by (intro quiet_rules)+

lemma quiet_neighbors: "quiet (shard_out_neighbors ops take_snapshot c t x)"
  unfolding shard_out_neighbors_def shard_snapshot_def by (intro quiet_rules quiet_readable quiet_snapshot)

lemma quiet_cases:
  assumes "pbind m f s = (r, s')" "quiet m"
  shows "\<not> is_ok r \<and> unchanged (abs_state s) (abs_state s')
    \<or> (\<exists>y s1. m s = (Inr y, s1) \<and> unchanged (abs_state s) (abs_state s1) \<and> f y s1 = (r, s'))"
proof -
  obtain y s1 where m: "m s = (y, s1)" by fastforce
  then show ?thesis using assms(1) quietD[OF assms(2) m] by (cases y) (auto simp: pbind_def)
qed

lemma neighbors_counted:
  assumes wf: "wf_store (db (abs_state s))" and v: "valid_component c" "valid_component t"
    and run: "shard_out_neighbors ops take_snapshot c t x s = (Inr ns, s')"
  shows "length ns = card {y. visible_in (kview (db (abs_state s))) c t x (seq (abs_state s)) y}"
proof -
  obtain s1 snap s2 where s1: "ensure_cell_readable ops c ''out_neighbors'' s = (Inr (), s1)"
    and snap: "take_snapshot s1 = (Inr snap, s2)" and ns: "out_neighbors_in_storage_snapshot snap c t x (sn_seq snap) = Inr ns"
    using run unfolding shard_out_neighbors_def shard_snapshot_def by (auto simp: pbind_Inr plift_def)
  have u: "db (abs_state s1) = db (abs_state s)" "seq (abs_state s1) = seq (abs_state s)"
    using quietD[OF quiet_readable(1) s1] by (simp_all add: same_store_def)
  have pin: "pinned snap (db (abs_state s))" "sn_seq snap = seq (abs_state s)" using snapshot_pins[OF snap] u by simp_all
  from pinned.out_neighbors_agrees[OF pin(1) ns] out_neighbors_snapshot_exact[OF wf v, of 0 x "sn_seq snap"]
  have "bs_ok ns" "set ns = {y. edge_visible (db (abs_state s)) c t x (sn_seq snap) y}" by auto
  then have "distinct ns" "set ns = {y. visible_in (kview (db (abs_state s))) c t x (seq (abs_state s)) y}"
    by (simp_all add: bs_ok_def strict_sorted_iff pin(2) edge_visible_in)
  then show ?thesis using distinct_card by metis
qed

lemma remote_scan:
  assumes "scan_remote_prefix ops p s = (Inr kvs, s')"
  shows "kvs = scan p (db (abs_state s))"
proof -
  have "scan_remote_prefix map_ops p (abs_state s) = (Inr (scan p (db (abs_state s))), abs_state s)"
    by (simp add: scan_remote_prefix_def db_scan_def on_txn_def in_subrange_def scan_def)
  then show ?thesis using simD[OF sim_ops(8) assms] by simp
qed

text \<open>The batch is applied once, however often the transaction is repeated.\<close>

lemma batch_applied:
  assumes ok: "bt_ok (db (abs_state s))" and ws: "ws \<noteq> []"
    and run: "pbind (write_graph_batch_strict ops sh c oper ws) (\<lambda>_. preturn res) s = (r, s')"
  shows "unchanged (abs_state s) (abs_state s') \<and> \<not> is_ok r
    \<or> (is_ok r \<longrightarrow> r = Inr res) \<and> db (abs_state s') = apply_batch ws (db (abs_state s)) \<and> seq (abs_state s) \<le> seq (abs_state s')"
proof -
  let ?a = "abs_state s"
  let ?K = "\<lambda>b. db b = apply_batch ws (db ?a) \<and> seq ?a \<le> seq b"
  let ?J = "\<lambda>b. unchanged ?a b \<or> ?K b"
  obtain r1 where one: "write_graph_batch_strict_guarded ops sh c oper [] ws s = (r1, s')" and r: "is_ok r \<longleftrightarrow> is_ok r1" "is_ok r \<longrightarrow> r = Inr res"
    using run unfolding unguarded_strict[symmetric]
    by (cases "write_graph_batch_strict ops sh c oper ws s"; cases "fst (write_graph_batch_strict ops sh c oper ws s)") (auto simp: pbind_def preturn_def)
  have step: "?J b' \<and> ?K b'" if J: "?J b" and b': "db b' = apply_batch ws (db b)" "seq b' = seq b + 1" "seq b \<noteq> - 1" for b b'
  proof -
    have le: "seq b \<le> seq b'" unfolding b'(2) by (rule u64_le_add_one[OF b'(3)]) simp
    from J show ?thesis
    proof
      assume "unchanged ?a b"
      then show ?thesis using b'(1) le by (simp add: same_store_def)
    next
      assume "?K b"
      then show ?thesis using b'(1) le apply_batch_again[OF ok, of ws] by (auto intro: order_trans)
    qed
  qed
  have "?J (abs_state s') \<and> (is_ok r1 \<longrightarrow> ?K (abs_state s'))"
    by (rule batch_rule[where J = ?J and K = ?K, OF _ _ _ _ ws one]) (use step in \<open>auto simp: same_store_def\<close>)
  then show ?thesis using r by blast
qed


lemma sources_run:
  assumes inv: "store_inv sh z (abs_state s)" and v: "valid_component c" "valid_component t" "valid_component i"
    and E: "E \<le> seq (abs_state s)" and fit: "8 * card (segment_targets (db (abs_state s)) c t x) < 2 ^ 64"
    and src: "source_segments_loop E (scan (out_segment_src_prefix c t x) (db (abs_state s))) [] 0 = Inr (sources, input)"
    and tomb: "rfold (compaction_tombstone_step c t x (seq (abs_state s))) (scan (out_segment_tombstone_src_prefix c t x) (db (abs_state s))) [] = Inr T"
    and n: "n = word_of_nat (card {y. visible_in (kview (db (abs_state s))) c t x (seq (abs_state s)) y})"
    and run: "compact_sources ops sh c t x E i (render (compaction_key c t x i)) n sources input T s = (r, s')"
  shows "\<not> is_ok r \<and> unchanged (abs_state s) (abs_state s')
    \<or> (\<exists>res. (is_ok r \<longrightarrow> r = Inr res) \<and> compaction_done sh z c t x E i res (abs_state s) (abs_state s'))"
proof -
  let ?L = "compacted_destinations E T sources" and ?dead = "dead_tombstones E T"
  let ?res = "compaction_result E sources input ?dead ?L"
  let ?ws = "compaction_batch c t x E i sources ?dead ?L n (render (compaction_key c t x i)) ?res"
  have ok: "bt_ok (db (abs_state s))" using inv wf_store_keyed[of "db (abs_state s)"] by (simp add: store_inv_def)
  have ne: "?ws \<noteq> []" by (simp add: compaction_batch_def Let_def batch_put_def)
  note eff = compaction_effect[OF inv v E fit src tomb refl n refl, of _ ?res]
  from batch_applied[OF ok ne run[unfolded compact_sources_def Let_def]] show ?thesis using eff by blast
qed

lemma reads_run:
  assumes wf: "wf_store (db (abs_state s))" and v: "valid_component c" "valid_component t"
    and run: "compaction_reads ops take_snapshot c t x E q s = (Inr (n, (sources, input), T), s')"
  shows "source_segments_loop E (scan (out_segment_src_prefix c t x) (db (abs_state s))) [] 0 = Inr (sources, input)"
    "rfold (compaction_tombstone_step c t x q) (scan (out_segment_tombstone_src_prefix c t x) (db (abs_state s))) [] = Inr T"
    "n = word_of_nat (card {y. visible_in (kview (db (abs_state s))) c t x (seq (abs_state s)) y})"
proof -
  obtain ns s1 segs s2 kvs s3 where ns: "shard_out_neighbors ops take_snapshot c t x s = (Inr ns, s1)"
    and segs: "scan_remote_prefix ops (out_segment_src_prefix c t x) s1 = (Inr segs, s2)" "source_segments_loop E segs [] 0 = Inr (sources, input)"
    and kvs: "scan_remote_prefix ops (out_segment_tombstone_src_prefix c t x) s2 = (Inr kvs, s3)"
      "rfold (compaction_tombstone_step c t x q) kvs [] = Inr T" and n: "n = word_of_nat (length ns)"
    using run unfolding compaction_reads_def by (auto simp: pbind_Inr plift_def preturn_def)
  have "same_store (abs (ss_txn s)) (abs (ss_txn s1))" "same_store (abs (ss_txn s1)) (abs (ss_txn s2))"
    using quietD[OF quiet_neighbors ns] quietD[OF quiet_reads(2) segs(1)] by simp_all
  then have eq: "db (abs_state s1) = db (abs_state s)" "db (abs_state s2) = db (abs_state s)" by (simp_all add: same_store_def)
  show "source_segments_loop E (scan (out_segment_src_prefix c t x) (db (abs_state s))) [] 0 = Inr (sources, input)"
    using segs(2) remote_scan[OF segs(1)] eq by simp
  show "rfold (compaction_tombstone_step c t x q) (scan (out_segment_tombstone_src_prefix c t x) (db (abs_state s))) [] = Inr T"
    using kvs(2) remote_scan[OF kvs(1)] eq by simp
  show "n = word_of_nat (card {y. visible_in (kview (db (abs_state s))) c t x (seq (abs_state s)) y})"
    using n neighbors_counted[OF wf v ns] by simp
qed

lemma artifact_run:
  assumes inv: "store_inv sh z (abs_state s)" and v: "valid_component c" "valid_component t" "valid_component i"
    and E: "E \<le> seq (abs_state s)" and fit: "8 * card (segment_targets (db (abs_state s)) c t x) < 2 ^ 64"
    and run: "compact_at_artifact ops sh take_snapshot c t x E i (render (compaction_key c t x i)) (seq (abs_state s)) s = (r, s')"
  shows "compacts sh z c t x E i r (abs_state s) (abs_state s')"
proof -
  let ?a = "abs_state s"
  have wf: "wf_store (db ?a)" using inv by (simp add: store_inv_def)
  have quiet: "quiet (compaction_reads ops take_snapshot c t x E (seq ?a))"
    unfolding compaction_reads_def by (intro quiet_rules quiet_neighbors)
  from quiet_cases[OF run[unfolded compact_at_artifact_def] quiet] show ?thesis
  proof (elim disjE exE conjE)
    fix p s1 assume p: "compaction_reads ops take_snapshot c t x E (seq ?a) s = (Inr p, s1)" and u: "unchanged ?a (abs_state s1)"
      and fin: "(\<lambda>(n, (sources, input), T). compact_sources ops sh c t x E i (render (compaction_key c t x i)) n sources input T) p s1 = (r, s')"
    obtain n sources input T where eq: "p = (n, (sources, input), T)" by (metis surj_pair)
    note R = reads_run[OF wf v(1,2) p[unfolded eq]] and s1 = u[unfolded same_store_def]
    have "compacts sh z c t x E i r (abs_state s1) (abs_state s')"
    proof (rule sources_run[OF _ v _ _ _ _ _ fin[unfolded eq prod.case]])
      show "store_inv sh z (abs_state s1)" using inv unchanged_inv(1)[OF u] by simp
    qed (use E fit R s1 in simp_all)
    then show ?thesis by (rule compacts_from[OF u])
  qed blast
qed

lemma epoch_run:
  assumes "current_epoch ops c s = (Inr q, s')"
  shows "q = seq (abs_state s)"
proof -
  obtain s1 where s1: "ensure_cell_readable ops c ''current_epoch'' s = (Inr (), s1)" "db_seq ops s1 = (Inr q, s')"
    using assms unfolding current_epoch_def by (auto simp: pbind_Inr plift_def)
  have "db_seq map_ops (abs_state s1) = (Inr q, abs_state s')" by (rule simD[OF sim_ops(9) s1(2)])
  then show ?thesis using quietD[OF quiet_readable(1) s1(1)] by (simp add: db_seq_def on_txn_def same_store_def)
qed

lemma fresh_run:
  assumes inv: "store_inv sh z (abs_state s)" and v: "valid_component c" "valid_component t" "valid_component i"
    and fit: "8 * card (segment_targets (db (abs_state s)) c t x) < 2 ^ 64"
    and run: "compact_fresh ops sh artifacts take_snapshot c t x E i (render (compaction_key c t x i)) s = (r, s')"
  shows "compacts sh z c t x E i r (abs_state s) (abs_state s')"
proof (cases "fst (current_epoch ops c s)")
  case (Inl e)
  then obtain s1 where s1: "current_epoch ops c s = (Inl e, s1)" by (metis prod.collapse)
  then have "r = Inl e" "s' = s1" using run by (simp_all add: compact_fresh_def Let_def pbind_def)
  then show ?thesis using quietD[OF quiet_readable(2) s1] by simp
next
  case (Inr q)
  let ?k = "render (compaction_key c t x i)"
  obtain s1 where s1: "current_epoch ops c s = (Inr q, s1)" using Inr by (metis prod.collapse)
  have u: "unchanged (abs_state s) (abs_state s1)" using quietD[OF quiet_readable(2) s1] by simp
  have q: "q = seq (abs_state s1)" using epoch_run[OF s1] u by (simp add: same_store_def)
  have "(\<exists>e. r = Inl e) \<and> s' = s1 \<or> E \<le> q \<and> compact_at_artifact ops sh take_snapshot c t x E i ?k q s1 = (r, s')"
    using run s1 unfolding compact_fresh_def Let_def
    by (cases "artifacts c t E") (auto simp: pif_def pfail_def plift_def pbind_def linorder_not_less split: if_splits option.splits)
  then show ?thesis
  proof (elim disjE conjE exE)
    assume at: "E \<le> q" "compact_at_artifact ops sh take_snapshot c t x E i ?k q s1 = (r, s')"
    have inv1: "store_inv sh z (abs_state s1)" using inv unchanged_inv(1)[OF u] by simp
    have "compacts sh z c t x E i r (abs_state s1) (abs_state s')"
      by (rule artifact_run[OF inv1 v _ _ at(2)[unfolded q]]) (use at(1) q fit u in \<open>simp_all add: same_store_def\<close>)
    then show ?thesis by (rule compacts_from[OF u])
  qed (use u in simp)
qed

text \<open>A repeated request finds its record and changes nothing.\<close>

lemma compact_locked_run:
  assumes "compact_out_adjacency_segments_locked ops sh artifacts take_snapshot c t x E i s = (r, s')"
  shows "\<not> is_ok r \<and> unchanged (abs_state s) (abs_state s')
    \<or> (\<exists>s1. unchanged (abs_state s) (abs_state s1) \<and> (case kview (db (abs_state s)) (compaction_key c t x i) of
         Some w \<Rightarrow> r = decode_segment_compaction_idempotency (render (compaction_key c t x i)) i E w \<and> s' = s1
       | None \<Rightarrow> compact_fresh ops sh artifacts take_snapshot c t x E i (render (compaction_key c t x i)) s1 = (r, s')))"
proof -
  from quiet_cases[OF assms[unfolded compact_out_adjacency_segments_locked_def Let_def] quiet_ops(5)] show ?thesis
  proof (elim disjE exE conjE)
    fix found s1
    assume found: "read_remote ops (idempotency c (segment_compaction_idempotency_operation t x) i) s = (Inr found, s1)"
      and u: "unchanged (abs_state s) (abs_state s1)"
      and rest: "(case found of None \<Rightarrow> compact_fresh ops sh artifacts take_snapshot c t x E i (idempotency c (segment_compaction_idempotency_operation t x) i)
        | Some value \<Rightarrow> plift (decode_segment_compaction_idempotency (idempotency c (segment_compaction_idempotency_operation t x) i) i E value)) s1 = (r, s')"
    have "found = kview (db (abs_state s)) (compaction_key c t x i)"
      using simD[OF sim_ops(6) found] by (simp add: read_remote_def on_txn_def kview_def)
    then show ?thesis using u rest by (intro disjI2 exI[of _ s1]) (auto simp: plift_def split: option.splits)
  qed simp
qed

end


interpretation exact_snapshots: snapshots map_ops "\<lambda>t. t" "\<lambda>s. (Inr (snapshot_of (db s) (seq s)), s)"
  by unfold_locales (auto simp: exact_snapshot.pinned_axioms)

definition flaky_snapshot :: "(flaky_txn shard_state, storage_snapshot) prog" where
  "flaky_snapshot = on_txn (flaky_step (\<lambda>t. (Inr (snapshot_of (mt_durable t) (mt_seq t)), t)))"

interpretation flaky_snapshots: snapshots flaky_ops fk_txn flaky_snapshot
proof unfold_locales
  show "same_store (fk_txn (ss_txn s)) (fk_txn (ss_txn s'))" if "flaky_snapshot s = (r, s')" for s r s'
    using that by (auto simp: flaky_snapshot_def on_txn_def flaky_step_def split: list.splits fault.splits)
  show "pinned snap (mt_durable (fk_txn (ss_txn s))) \<and> sn_seq snap = mt_seq (fk_txn (ss_txn s))" if "flaky_snapshot s = (Inr snap, s')" for s snap s'
    using that by (auto simp: flaky_snapshot_def on_txn_def flaky_step_def exact_snapshot.pinned_axioms split: list.splits fault.splits)
qed

lemma compaction_request:
  assumes "compact_out_adjacency_segments ops sh permit artifacts take_snapshot c t x E i s = (r, s')"
  shows "\<not> is_ok r \<and> s' = s \<or> valid_component c \<and> valid_component t \<and> valid_component i
    \<and> compact_out_adjacency_segments_locked ops sh artifacts take_snapshot c t x E i s = (r, s')"
  using assms unfolding compact_out_adjacency_segments_def Let_def
  by (auto simp: validate_component_iff dest!: plift_cases)

subsection \<open>Progress\<close>

text \<open>On a store without faults, a cell that accepts writes executes a batch at the first attempt.\<close>

lemma strict_batch_returns:
  assumes acc: "accepts sh c s" and c: "valid_component c"
  shows "\<exists>s'. write_graph_batch_strict map_ops sh c oper ws s = (Inr (), s')"
proof -
  let ?tail = "pbind (pfor ws (write_graph_op map_ops)) (\<lambda>_. commit_txn_strict map_ops (sh_await_durable_writes sh))"
  have "wp ?tail (\<lambda>_ _. True) s1" if "models is_meta (opened s) s1" for s1
  proof -
    have "mt_seq (ss_txn s1) \<noteq> - 1" using that acc by (simp add: models_def accepts_def)
    then show ?thesis
      by (auto simp: wp_def pbind_def write_ops_run commit_txn_strict_def commit_txn_strict_with_sequence_def txn_seqnum_def plift_def
          on_txn_def preturn_def checked_add_one ok_or_def)
  qed
  from wp_open[OF acc c this] obtain s' where "write_graph_batch_txn map_ops sh c oper ws s = (Inr (), s')"
    unfolding write_graph_batch_txn_def wp_def by auto
  then have "txn_attempts GRAPH_TXN_MAX_RETRIES (write_graph_batch_txn map_ops sh c oper ws) s = (Inr (), s')"
    unfolding GRAPH_TXN_MAX_RETRIES_def by (metis attempts_first numeral_eq_Suc)
  then show ?thesis using c by (auto simp: write_graph_batch_strict_def pbind_def plift_def pif_def preturn_def validate_component_iff[of _ _ "()"])
qed

lemma readable_returns:
  assumes "accepts sh c s" "valid_component c"
  shows "ensure_cell_readable map_ops c oper s = (Inr (), s)" "current_epoch map_ops c s = (Inr (seq s), s)"
proof -
  have "kview (db s) (KCellDropMarker c) = None" "kview (db s) (KCellDropPending c) = None" using assms(1) by (simp_all add: accepts_def)
  moreover have "validate_component ''cell_id'' c = Inr ()" using assms(2) by (simp add: validate_component_iff)
  ultimately show "ensure_cell_readable map_ops c oper s = (Inr (), s)" "current_epoch map_ops c s = (Inr (seq s), s)"
    unfolding current_epoch_def ensure_cell_readable_def
    by (simp_all add: pbind_def plift_def read_remote_def on_txn_def kview_def pif_def preturn_def db_seq_def)
qed

lemma compaction_reads_return:
  assumes acc: "accepts sh c s" and v: "valid_component c" "valid_component t"
  shows "\<exists>p. compaction_reads map_ops (\<lambda>s. (Inr (snapshot_of (db s) (seq s)), s)) c t x E q s = (Inr p, s)"
proof -
  have wf: "wf_store (db s)" using acc by (simp add: accepts_def)
  obtain ns where ns: "out_neighbors_in_storage_snapshot (snapshot_of (db s) (seq s)) c t x (seq s) = Inr ns"
    using out_neighbors_snapshot_exact[OF wf v] by blast
  obtain ss where "scan (out_segment_src_prefix c t x) (db s) = map (segment_kv c t x) ss"
    "\<forall>p \<in> set ss. valid_component (snd (fst p)) \<and> 8 * length (snd p) < 2 ^ 64" using segment_scan_family[OF wf v, of x] by blast
  then obtain src where src: "source_segments_loop E (scan (out_segment_src_prefix c t x) (db s)) [] 0 = Inr src"
    using source_segments_scan[OF v] by metis
  obtain T where T: "rfold (compaction_tombstone_step c t x q) (scan (out_segment_tombstone_src_prefix c t x) (db s)) [] = Inr T"
    using compaction_tombstone_scan[OF wf v] by blast
  have scans: "scan_remote_prefix map_ops p s = (Inr (scan p (db s)), s)" for p
    by (simp add: scan_remote_prefix_def db_scan_def on_txn_def in_subrange_def scan_def)
  have "shard_out_neighbors map_ops (\<lambda>s. (Inr (snapshot_of (db s) (seq s)), s)) c t x s = (Inr ns, s)"
    unfolding shard_out_neighbors_def shard_snapshot_def using readable_returns(1)[OF acc v(1)] valid_names[OF v] ns
    by (simp add: pbind_def plift_def)
  then show ?thesis unfolding compaction_reads_def using src T by (simp add: pbind_def plift_def scans preturn_def)
qed

lemma compaction_returns:
  assumes acc: "accepts sh c s" and v: "valid_component c" "valid_component t" "valid_component i" and E: "E \<le> seq s"
    and art: "artifacts c t E = Inr (Some a)" "ma_base_epoch a = E"
    and admitted: "permit ''compact_out_adjacency_segments'' = Inr ()" "sh_refresh_writer_fence sh = Inr ()"
    and fresh: "kview (db s) (compaction_key c t x i) = None"
  shows "\<exists>res s'. compact_out_adjacency_segments map_ops sh permit artifacts (\<lambda>s. (Inr (snapshot_of (db s) (seq s)), s)) c t x E i s = (Inr res, s')"
proof -
  let ?take = "\<lambda>s. (Inr (snapshot_of (db s) (seq s)), s)" and ?k = "render (compaction_key c t x i)"
  obtain p where p: "compaction_reads map_ops ?take c t x E (seq s) s = (Inr p, s)" using compaction_reads_return[OF acc v(1,2)] by blast
  obtain n sources input T where eq: "p = (n, (sources, input), T)" by (metis surj_pair)
  have "\<exists>res s'. compact_sources map_ops sh c t x E i ?k n sources input T s = (Inr res, s')"
    unfolding compact_sources_def Let_def pbind_def preturn_def
    using strict_batch_returns[OF acc v(1), of "''compact_out_adjacency_segments''"] by (metis (no_types, lifting) old.prod.case sum.case(2))
  then obtain res s' where fin: "compact_at_artifact map_ops sh ?take c t x E i ?k (seq s) s = (Inr res, s')"
    unfolding compact_at_artifact_def using p eq by (auto simp: pbind_def)
  have "compact_fresh map_ops sh artifacts ?take c t x E i ?k s = (Inr res, s')"
    unfolding compact_fresh_def Let_def using readable_returns(2)[OF acc v(1)] fin E art
    by (simp add: pbind_def plift_def pif_def linorder_not_less[symmetric])
  then have "compact_out_adjacency_segments_locked map_ops sh artifacts ?take c t x E i s = (Inr res, s')"
    unfolding compact_out_adjacency_segments_locked_def Let_def using fresh
    by (simp add: pbind_def read_remote_def on_txn_def kview_def)
  moreover have "acquire_local_write_guard sh c ''compact_out_adjacency_segments'' = Inr ()" "ensure_write_authority sh c ''compact_out_adjacency_segments'' = Inr ()"
    using v(1) admitted(2) acc by (simp_all add: acquire_local_write_guard_def validate_component_iff accepts_def authority_ok valid_component_def component_byte_def)
  ultimately show ?thesis
    unfolding compact_out_adjacency_segments_def Let_def using v admitted(1)
    by (simp add: pbind_def plift_def validate_component_iff[of _ _ "()"])
qed

subsection \<open>A sample store\<close>

text \<open>Two segments of one vertex, one of their destinations deleted: a compaction through sequence 2 keeps the other two.\<close>

definition segmented_records :: "(bytes, bytes) btmap" where
  "segmented_records =
     bt_insert (render (KOutSegment ''c'' ''T'' 1 1 ''a'')) (encode_out_edge_segment_records [2, 3])
    (bt_insert (render (KOutSegment ''c'' ''T'' 1 2 ''b'')) (encode_out_edge_segment_records [4])
    (bt_insert (render (KOutTombstone ''c'' ''T'' 1 3)) (encode_u64 2)
    (bt_insert (render (KDegreeOut ''c'' ''T'' 1)) (encode_u64 2) [])))"

definition segmented_shard :: "map_txn shard_state" where
  "segmented_shard = \<lparr>ss_txn = \<lparr>mt_view = segmented_records, mt_durable = segmented_records, mt_seq = 2, mt_dirty = False\<rparr>, ss_floor = []\<rparr>"

definition forward_env :: shard_env where
  "forward_env = sample_env\<lparr>sh_index_policy := OutboundOnly\<rparr>"

definition sample_artifact :: "string \<Rightarrow> string \<Rightarrow> storage_sequence \<Rightarrow> matrix_artifact option result" where
  "sample_artifact c t q = Inr (Some \<lparr>ma_cell_id = c, ma_edge_type = t, ma_base_epoch = 2, ma_tile_size = 0, ma_out_tiles = 0,
     ma_transpose_tiles = 0, ma_edge_count = 0\<rparr>)"

lemma segmented_wf: "wf_store segmented_records"
proof -
  have e: "wf_store []" by (simp add: wf_store_def well_keyed_def kview_def)
  have v: "valid_component ''c''" "valid_component ''T''" "valid_component ''a''" "valid_component ''b''"
    by (simp_all add: valid_component_def component_byte_def)
  have r: "wf_record (KOutSegment ''c'' ''T'' 1 1 ''a'') (encode_out_edge_segment_records [2, 3])"
    "wf_record (KOutSegment ''c'' ''T'' 1 2 ''b'') (encode_out_edge_segment_records [4])"
    unfolding wf_record.simps by (rule exI[of _ "[2, 3]"], simp, rule exI[of _ "[4]"], simp)
  show ?thesis unfolding segmented_records_def
    by (intro wf_store_insert e r) (use v in \<open>auto simp: valid_edge_keys\<close>)
qed

lemma segmented_view:
  assumes "valid_key k"
  shows "kview segmented_records k =
    (if k = KOutSegment ''c'' ''T'' 1 1 ''a'' then Some (encode_out_edge_segment_records [2, 3])
     else if k = KOutSegment ''c'' ''T'' 1 2 ''b'' then Some (encode_out_edge_segment_records [4])
     else if k = KOutTombstone ''c'' ''T'' 1 3 then Some (encode_u64 2)
     else if k = KDegreeOut ''c'' ''T'' 1 then Some (encode_u64 2) else None)"
proof -
  have v: "valid_component ''c''" "valid_component ''T''" "valid_component ''a''" "valid_component ''b''"
    by (simp_all add: valid_component_def component_byte_def)
  have k: "valid_key (KOutSegment ''c'' ''T'' 1 1 ''a'')" "valid_key (KOutSegment ''c'' ''T'' 1 2 ''b'')"
    "valid_key (KOutTombstone ''c'' ''T'' 1 3)" "valid_key (KDegreeOut ''c'' ''T'' 1)"
    using v by (simp_all add: valid_edge_keys)
  have e: "kview [] k = None" by (simp add: kview_def)
  show ?thesis
    unfolding segmented_records_def by (subst kview_insert; (intro bt_ok_insert bt_ok_Nil k assms)?)+ (simp only: e)
qed

lemma segmented_keys:
  assumes v: "valid_component c" "valid_component t"
  shows "valid_component h \<Longrightarrow> kview segmented_records (KOutSegment c t x r h) = Some (encode_out_edge_segment_records ds) \<longleftrightarrow>
      (c, t, x) = (''c'', ''T'', 1) \<and> ((r, h, ds) = (1, ''a'', [2, 3]) \<or> (r, h, ds) = (2, ''b'', [4]))"
    and "kview segmented_records (KOutTombstone c t x y) = Some (encode_u64 e) \<longleftrightarrow> (c, t, x, y, e) = (''c'', ''T'', 1, 3, 2)"
    and "kview segmented_records (KOutEdge c t x y) = None" "kview segmented_records (KXlogEntry c t r x y) = None"
    and "kview segmented_records (KDegreeOut c t x) = (if (c, t, x) = (''c'', ''T'', 1) then Some (encode_u64 2) else None)"
proof -
  have inj: "encode_out_edge_segment_records as = encode_out_edge_segment_records bs \<longleftrightarrow> as = bs" "encode_u64 m = encode_u64 n \<longleftrightarrow> m = n" for as bs m n
    using inj_encode_segment inj_encode_u64 by (simp_all add: inj_eq)
  note k = valid_edge_keys[OF v]
  show "kview segmented_records (KOutSegment c t x r h) = Some (encode_out_edge_segment_records ds) \<longleftrightarrow>
      (c, t, x) = (''c'', ''T'', 1) \<and> ((r, h, ds) = (1, ''a'', [2, 3]) \<or> (r, h, ds) = (2, ''b'', [4]))" if "valid_component h"
    by (subst segmented_view) (use v that in \<open>auto simp: inj\<close>)
  show "kview segmented_records (KOutTombstone c t x y) = Some (encode_u64 e) \<longleftrightarrow> (c, t, x, y, e) = (''c'', ''T'', 1, 3, 2)"
    by (subst segmented_view) (auto simp: k inj)
  show "kview segmented_records (KOutEdge c t x y) = None" "kview segmented_records (KXlogEntry c t r x y) = None"
    "kview segmented_records (KDegreeOut c t x) = (if (c, t, x) = (''c'', ''T'', 1) then Some (encode_u64 2) else None)"
    by (simp_all add: segmented_view k)
qed

lemma segmented_visible:
  assumes v: "valid_component c" "valid_component t"
  shows "visible_in (kview segmented_records) c t x 2 y \<longleftrightarrow> (c, t, x) = (''c'', ''T'', 1) \<and> y \<in> {2, 4}"
proof -
  have ab: "valid_component ''a''" "valid_component ''b''" by (simp_all add: valid_component_def component_byte_def)
  have seg: "(\<exists>g ds. valid_component g \<and> kview segmented_records (KOutSegment c t x r g) = Some (encode_out_edge_segment_records ds) \<and> y \<in> set ds)
      \<longleftrightarrow> (c, t, x) = (''c'', ''T'', 1) \<and> (r = 1 \<and> y \<in> {2, 3} \<or> r = 2 \<and> y = 4)" for r
  proof
    assume "\<exists>g ds. valid_component g \<and> kview segmented_records (KOutSegment c t x r g) = Some (encode_out_edge_segment_records ds) \<and> y \<in> set ds"
    then obtain g ds where "valid_component g" "kview segmented_records (KOutSegment c t x r g) = Some (encode_out_edge_segment_records ds)" "y \<in> set ds" by blast
    then show "(c, t, x) = (''c'', ''T'', 1) \<and> (r = 1 \<and> y \<in> {2, 3} \<or> r = 2 \<and> y = 4)" using segmented_keys(1)[OF v] by auto
  next
    assume "(c, t, x) = (''c'', ''T'', 1) \<and> (r = 1 \<and> y \<in> {2, 3} \<or> r = 2 \<and> y = 4)"
    then show "\<exists>g ds. valid_component g \<and> kview segmented_records (KOutSegment c t x r g) = Some (encode_out_edge_segment_records ds) \<and> y \<in> set ds"
      using segmented_keys(1)[OF v ab(1), of x r "[2, 3]"] segmented_keys(1)[OF v ab(2), of x r "[4]"] ab
      by (elim conjE disjE; intro exI[of _ "if r = 1 then ''a'' else ''b''"] exI[of _ "if r = 1 then [2, 3] else [4]"]) auto
  qed
  show ?thesis unfolding visible_in_def segment_in_def seg segmented_keys(2,3)[OF v] by auto
qed

lemma segmented_inv: "store_inv forward_env 9 segmented_shard"
proof -
  have "type_inv False 9 (kview segmented_records) 2 c t" if v: "valid_component c" "valid_component t" for c t
  proof -
    note K = segmented_keys[OF v] and V = segmented_visible[OF v]
    have "bounded (kview segmented_records) 2 c t"
      unfolding bounded_def
    proof (intro conjI allI impI)
      fix x r h assume h: "valid_component h \<and> kview segmented_records (KOutSegment c t x r h) \<noteq> None"
      then obtain w where w: "kview segmented_records (KOutSegment c t x r h) = Some w" by blast
      from wf_store_record[OF segmented_wf _ w] v h obtain ds where "w = encode_out_edge_segment_records ds" by auto
      then show "r \<le> 2" using K(1)[of h x r ds] h w by auto
    qed (use K in auto)
    moreover have "counted_out (kview segmented_records) 2 c t" unfolding counted_out_def V K(5)
    proof
      fix x
      have "{y :: vertex_id. y = 2 \<or> y = 4} = {2, 4}" by auto
      then show "counter_of (if (c, t, x) = (''c'', ''T'', 1) then Some (encode_u64 2) else None) =
          word_of_nat (card {y :: vertex_id. (c, t, x) = (''c'', ''T'', 1) \<and> y \<in> {2, 4}})" by auto
    qed
    ultimately show ?thesis using K(3) V by (auto simp: type_inv_def one_form_def spared_def)
  qed
  then show ?thesis
    using segmented_wf by (simp add: store_inv_def graph_inv_def segmented_shard_def forward_env_def sample_env_def writes_reverse_index_def write_reverse_index_def)
qed

subsection \<open>Property\<close>

text \<open>C9 (compaction_keeps_graph). Compacting the segments of a vertex never changes the graph: on a store that may fail at any operation, and
  whatever the call returns, the invariant of the committed records holds afterwards and every edge type has the edges it had.
  A request under a new idempotency key either fails and has changed nothing, or has had its effect exactly once: its
  result is stored, up to the sequence of the compaction the vertex has at most one segment, the new one, and no tombstone
  up to it is left. A repeated request changes nothing and returns the stored result. The hypothesis bounds the size of the
  new segment by memory.\<close>

theorem compaction_keeps_graph:
  assumes "snapshots ops view take_snapshot" "store_inv sh z (seen view s)"
    and "8 * card (segment_targets (db (seen view s)) c t x) < 2 ^ 64"
    and "compact_out_adjacency_segments ops sh permit artifacts take_snapshot c t x E i s = (r, s')"
  shows "store_inv sh z (seen view s')
    \<and> (\<forall>c' t'. valid_component c' \<longrightarrow> valid_component t' \<longrightarrow> graph_of (seen view s') c' t' = graph_of (seen view s) c' t')
    \<and> (kview (db (seen view s)) (compaction_key c t x i) = None \<longrightarrow> compacts sh z c t x E i r (seen view s) (seen view s'))
    \<and> (\<forall>res. kview (db (seen view s)) (compaction_key c t x i) = Some (encode_segment_compaction_idempotency i res)
        \<and> sc_compacted_through_epoch res = E \<longrightarrow> unchanged (seen view s) (seen view s') \<and> (is_ok r \<longrightarrow> r = Inr res))"
proof -
  have st: "txn_refines.abs_state view s1 = seen view s1" for s1
    using txn_refines.abs_state_def[OF txn_faults.axioms(1)[OF snapshots.axioms(1)[OF assms(1)]]] .
  note R = snapshots.compact_locked_run[OF assms(1), unfolded st] and F = snapshots.fresh_run[OF assms(1), unfolded st]
  let ?a = "seen view s" and ?b = "seen view s'"
  let ?rec = "kview (db ?a) (compaction_key c t x i)"
  have fresh: "compacts sh z c t x E i r ?a ?b" if none: "?rec = None"
    using compaction_request[OF assms(4)]
  proof (elim disjE conjE)
    assume v: "valid_component c" "valid_component t" "valid_component i"
      and run: "compact_out_adjacency_segments_locked ops sh artifacts take_snapshot c t x E i s = (r, s')"
    from R[OF run] none show ?thesis
    proof (elim disjE exE conjE)
      fix s1 assume u: "unchanged ?a (seen view s1)" and rest: "case ?rec of
           Some w \<Rightarrow> r = decode_segment_compaction_idempotency (render (compaction_key c t x i)) i E w \<and> s' = s1
         | None \<Rightarrow> compact_fresh ops sh artifacts take_snapshot c t x E i (render (compaction_key c t x i)) s1 = (r, s')"
      have run1: "compact_fresh ops sh artifacts take_snapshot c t x E i (render (compaction_key c t x i)) s1 = (r, s')" using rest none by simp
      have "compacts sh z c t x E i r (seen view s1) ?b"
        by (rule F[OF _ v _ run1]) (use assms(2,3) u unchanged_inv(1)[OF u] in \<open>simp_all add: same_store_def\<close>)
      then show ?thesis by (rule compacts_from[OF u])
    qed blast
  qed simp
  have known: "unchanged ?a ?b \<and> (is_ok r \<longrightarrow> valid_component i \<and> r = decode_segment_compaction_idempotency (render (compaction_key c t x i)) i E w)"
    if "?rec = Some w" for w
    using compaction_request[OF assms(4)] R that by fastforce
  have "store_inv sh z ?b \<and> (\<forall>c' t'. valid_component c' \<longrightarrow> valid_component t' \<longrightarrow> graph_of ?b c' t' = graph_of ?a c' t')"
  proof (cases ?rec)
    case None
    then show ?thesis using fresh assms(2) unchanged_inv[of ?a ?b] unfolding compaction_done_def by metis
  next
    case (Some w)
    then show ?thesis using known assms(2) unchanged_inv[of ?a ?b] by simp
  qed
  moreover have "unchanged ?a ?b \<and> (is_ok r \<longrightarrow> r = Inr res)"
    if "?rec = Some (encode_segment_compaction_idempotency i res) \<and> sc_compacted_through_epoch res = E" for res
    using that known decode_segment_compaction_record[of i "render (compaction_key c t x i)" E res] by auto
  ultimately show ?thesis using fresh by blast
qed


text \<open>Witness of C9 (compaction_keeps_graph): the sample store through sequence 2.\<close>

theorem compaction_keeps_graph_witness:
  "\<exists>res s'. compact_out_adjacency_segments map_ops forward_env sample_permit sample_artifact
       (\<lambda>s. (Inr (snapshot_of (db s) (seq s)), s)) ''c'' ''T'' 1 2 ''k'' segmented_shard = (Inr res, s')
     \<and> graph_of s' ''c'' ''T'' = {(1, 2), (1, 4)} \<and> compaction_done forward_env 9 ''c'' ''T'' 1 2 ''k'' res segmented_shard s'"
proof -
  have v: "valid_component ''c''" "valid_component ''T''" "valid_component ''k''" by (simp_all add: valid_component_def component_byte_def)
  have nonew: "kview (db segmented_shard) (compaction_key ''c'' ''T'' 1 ''k'') = None"
    unfolding segmented_shard_def using segmented_view[of "compaction_key ''c'' ''T'' 1 ''k''"] v
    by (simp add: valid_keys compaction_operation_component)
  have acc: "accepts forward_env ''c'' segmented_shard"
    using segmented_wf segmented_view[of "KCellDropMarker ''c''"] segmented_view[of "KCellDropPending ''c''"] valid_keys(1,2)[OF v(1)]
    by (simp add: accepts_def segmented_shard_def forward_env_def sample_env_def writable_def)
  obtain res s' where run: "compact_out_adjacency_segments map_ops forward_env sample_permit sample_artifact
       (\<lambda>s. (Inr (snapshot_of (db s) (seq s)), s)) ''c'' ''T'' 1 2 ''k'' segmented_shard = (Inr res, s')"
    using compaction_returns[OF acc v _ _ _ _ _ nonew, of 2 sample_artifact _ sample_permit]
    by (auto simp: sample_artifact_def sample_permit_def segmented_shard_def forward_env_def sample_env_def)
  have "segment_targets (db segmented_shard) ''c'' ''T'' 1 \<subseteq> {2, 3, 4}"
    unfolding segment_targets_def segmented_shard_def using segmented_keys(1)[OF v(1,2)] by auto
  from card_mono[OF _ this] have fit: "8 * card (segment_targets (db (seen (\<lambda>t. t) segmented_shard)) ''c'' ''T'' 1) < 2 ^ 64"
    by (simp add: card_insert_if)
  have inv: "store_inv forward_env 9 (seen (\<lambda>t. t) segmented_shard)" using segmented_inv by simp
  note th = compaction_keeps_graph[OF exact_snapshots.snapshots_axioms inv fit run, unfolded seen_id]
  have g: "graph_of segmented_shard ''c'' ''T'' = {(1, 2), (1, 4)}"
    using segmented_visible[OF v(1,2)] by (auto simp: graph_of_def edges_in_def segmented_shard_def)
  have "compacts forward_env 9 ''c'' ''T'' 1 2 ''k'' (Inr res) segmented_shard s'" using th nonew by blast
  then have "compaction_done forward_env 9 ''c'' ''T'' 1 2 ''k'' res segmented_shard s'" by auto
  moreover have "graph_of s' ''c'' ''T'' = {(1, 2), (1, 4)}" using th v g by blast
  ultimately show ?thesis using run by blast
qed

end
