(* ===== verification/Drop_Safety.thy ===== *)
theory Drop_Safety
  imports Cell_Drop Compaction_Safety
begin

text \<open>
  What a drop of a cell guarantees: the property \<open>drop_cell_safe\<close>, and that a drop returns on the reference store.
\<close>

subsection \<open>Drops that return\<close>

lemma kept_absent: "bt_get m k = None \<Longrightarrow> bt_get (apply_batch (map DeleteOp keys) m) k = None"
  by (induction keys arbitrary: m) (auto simp: bt_get_remove)

lemma length_bt_insert: "length (bt_insert k v m) \<le> Suc (length m)"
  by (induction m) auto

lemma unat_add_one: "unat (a + 1 :: u64) \<le> Suc (unat a)"
proof -
  have "unat (a + 1) = (unat a + unat (1 :: u64)) mod 2 ^ LENGTH(64)" by (rule unat_word_ariths(1))
  also have "\<dots> \<le> unat a + unat (1 :: u64)" by (rule mod_less_eq_dividend)
  finally show ?thesis by simp
qed

lemma below_max: "unat (a :: u64) + 1 < 2 ^ 64 \<Longrightarrow> a \<noteq> - 1"
  using u64_max by auto

lemma commit_returns:
  assumes "seq s \<noteq> - 1"
  obtains s' where "commit_txn_strict map_ops d s = (Inr (), s')" "unat (seq s') \<le> Suc (unat (seq s))"
proof -
  have "\<exists>s'. commit_txn_strict map_ops d s = (Inr (), s') \<and> unat (seq s') \<le> Suc (unat (seq s))"
    using assms unat_add_one[of "seq s"]
    by (auto simp: commit_txn_strict_def commit_txn_strict_with_sequence_def pbind_def txn_seqnum_def plift_def
        on_txn_def preturn_def checked_add_one ok_or_def)
  then show thesis using that by blast
qed

lemma drop_fence: "writable sh \<Longrightarrow> validate_write_fence_txn map_ops sh c ''drop_cell'' s = (Inr (), s)"
  using authority_ok[of sh c "''drop_cell''" "()"] by (simp add: validate_write_fence_txn_def pbind_def pif_def preturn_def plift_def)

lemma writer_open: "writable sh \<Longrightarrow> db_writer sh = Inr ()"
  by (simp add: writable_def db_writer_def)

lemma flush_returns:
  assumes "writable sh" "seq s \<noteq> - 1" "keys \<noteq> []"
  obtains n s' where "flush_drop_cell_batch map_ops sh c keys s = (Inr n, s')" "unat (seq s') \<le> Suc (unat (seq s))"
    "db s' = apply_batch (map DeleteOp keys) (db s)"
proof -
  let ?s = "(begun s)\<lparr>ss_txn := (ss_txn (begun s))\<lparr>mt_view := apply_batch (map DeleteOp keys) (db s), mt_dirty := True\<rparr>\<rparr>"
  have sq: "seq ?s = seq s" by (simp add: begun_def)
  obtain s' where s': "commit_txn_strict map_ops (sh_await_durable_writes sh) ?s = (Inr (), s')" "unat (seq s') \<le> Suc (unat (seq ?s))"
    using commit_returns[of ?s] assms(2) unfolding sq by blast
  have del: "pfor keys (txn_delete map_ops) (begun s) = (Inr (), ?s)"
    using write_ops_run[of "map DeleteOp keys" "begun s"] assms(3) unfolding pfor_deletes by (simp add: begun_def)
  have "flush_drop_cell_batch map_ops sh c keys s = (Inr (word_of_nat (length keys)), s')"
    unfolding flush_drop_cell_batch_def using assms(3) s'(1) del
    by (simp add: pif_def pbind_def plift_def writer_open[OF assms(1)] begin_eval drop_fence[OF assms(1)] preturn_def)
  then show thesis using that s'(2) dirty_commit[OF s'(1)] unfolding sq by simp
qed

lemma sweep_returns:
  assumes w: "writable sh"
  shows "unat (seq s) + length kvs + 2 < 2 ^ 64 \<Longrightarrow> \<exists>p s'. drop_sweep map_ops sh c kvs pending d b s = (Inr p, s')
    \<and> unat (seq s') \<le> unat (seq s) + length kvs + 1 \<and> (\<forall>k. bt_get (db s) k = None \<longrightarrow> bt_get (db s') k = None)"
proof (induction kvs arbitrary: pending d b s)
  case Nil
  show ?case
  proof (cases "pending = []")
    case True
    then show ?thesis by (simp add: pif_def preturn_def)
  next
    case False
    obtain n s' where "flush_drop_cell_batch map_ops sh c pending s = (Inr n, s')" "unat (seq s') \<le> Suc (unat (seq s))"
      "db s' = apply_batch (map DeleteOp pending) (db s)"
      using flush_returns[OF w _ False, of s c] Nil below_max[of "seq s"] by auto
    then show ?thesis using False kept_absent by (simp add: pif_def pbind_def preturn_def)
  qed
next
  case (Cons kv kvs)
  let ?key = "from_utf8_lossy (fst kv)"
  have fit: "unat (seq s) + length kvs + 2 < 2 ^ 64" "seq s \<noteq> - 1" using Cons.prems below_max[of "seq s"] by simp_all
  consider (skip) "?key = cell_drop_pending_marker c" | (push) "?key \<noteq> cell_drop_pending_marker c" "\<not> GRAPH_MAINTENANCE_BATCH_KEYS \<le> length (pending @ [?key])"
    | (flush) "?key \<noteq> cell_drop_pending_marker c" "GRAPH_MAINTENANCE_BATCH_KEYS \<le> length (pending @ [?key])" by blast
  then show ?case
  proof cases
    case skip
    then have e: "drop_sweep map_ops sh c (kv # kvs) pending d b s = drop_sweep map_ops sh c kvs pending d b s" by (simp add: Let_def)
    show ?thesis unfolding e using Cons.IH[OF fit(1), of pending d b] by fastforce
  next
    case push
    then have e: "drop_sweep map_ops sh c (kv # kvs) pending d b s = drop_sweep map_ops sh c kvs (pending @ [?key]) d b s" by (simp add: Let_def)
    show ?thesis unfolding e using Cons.IH[OF fit(1), of "pending @ [?key]" d b] by fastforce
  next
    case flush
    obtain n s1 where s1: "flush_drop_cell_batch map_ops sh c (pending @ [?key]) s = (Inr n, s1)" "unat (seq s1) \<le> Suc (unat (seq s))"
      "db s1 = apply_batch (map DeleteOp (pending @ [?key])) (db s)"
      using flush_returns[OF w fit(2), of "pending @ [?key]" c] by blast
    have e: "drop_sweep map_ops sh c (kv # kvs) pending d b s = drop_sweep map_ops sh c kvs [] (saturating_add d n) (saturating_add b 1) s1"
      using flush s1(1) by (simp add: Let_def pbind_def)
    have "unat (seq s1) + length kvs + 2 < 2 ^ 64" using s1(2) Cons.prems by simp
    from Cons.IH[OF this, of "[]" "saturating_add d n" "saturating_add b 1"] obtain p s'
      where p: "drop_sweep map_ops sh c kvs [] (saturating_add d n) (saturating_add b 1) s1 = (Inr p, s')"
        "unat (seq s') \<le> unat (seq s1) + length kvs + 1" "\<forall>k. bt_get (db s1) k = None \<longrightarrow> bt_get (db s') k = None" by blast
    have "unat (seq s') \<le> unat (seq s) + length (kv # kvs) + 1" using p(2) s1(2) by simp
    moreover have "\<forall>k. bt_get (db s) k = None \<longrightarrow> bt_get (db s') k = None" using p(3) kept_absent unfolding s1(3) by blast
    ultimately show ?thesis unfolding e using p(1) by blast
  qed
qed

lemma begin_returns:
  assumes w: "writable sh" and q: "seq s \<noteq> - 1" and none: "kview (db s) (KCellDropMarker c) = None"
    "kview (db s) (KCellDropPending c) = None" "kview (db s) (KCellDropIdempotency c i) = None"
  obtains e s' where "drop_begin map_ops sh c i s = (Inr (Inr e), s')" "unat (seq s') \<le> Suc (unat (seq s))"
    "db s' = bt_insert (render (KCellDropPending c)) (encode_u64 e) (db s)"
proof -
  let ?e = "saturating_add (seq s) 1"
  let ?s = "(begun s)\<lparr>ss_txn := (ss_txn (begun s))\<lparr>mt_view := bt_insert (cell_drop_pending_marker c) (encode_u64 ?e) (db s), mt_dirty := True\<rparr>\<rparr>"
  have sq: "seq ?s = seq s" by (simp add: begun_def)
  obtain s' where s': "commit_txn_strict map_ops (sh_await_durable_writes sh) ?s = (Inr (), s')" "unat (seq s') \<le> Suc (unat (seq ?s))"
    using commit_returns[of ?s] q unfolding sq by blast
  have rd: "read_txn_remote map_ops k (begun s) = (Inr (bt_get (db s) k), begun s)" for k by (simp add: read_eval begun_def)
  have put: "txn_put map_ops (cell_drop_pending_marker c) (encode_u64 ?e) (begun s) = (Inr (), ?s)" by (simp add: put_eval begun_def)
  have sn: "txn_seqnum map_ops (begun s) = (Inr (seq s), begun s)" by (simp add: txn_seqnum_def begun_def)
  note absent = none[unfolded kview_def render.simps]
  have "drop_begin map_ops sh c i s = (Inr (Inr ?e), s')"
    unfolding drop_begin_def Let_def using s'(1) put sn
    by (simp add: pbind_def plift_def writer_open[OF w] begin_eval rd absent drop_fence[OF w] preturn_def)
  then show thesis using that s'(2) dirty_commit[OF s'(1)] unfolding sq by simp
qed

lemma finish_returns:
  assumes w: "writable sh" and q: "seq s \<noteq> - 1" and none: "kview (db s) (KCellDropIdempotency c i) = None"
  shows "\<exists>s'. drop_finish map_ops sh c i res s = (Inr res, s')"
proof -
  let ?v = "bt_insert (cell_drop_idempotency c i) (encode_cell_drop_idempotency c i res)
    (bt_remove (cell_drop_pending_marker c) (bt_insert (cell_drop_marker c) (encode_u64 (cd_marker_epoch res)) (db s)))"
  let ?s = "(begun s)\<lparr>ss_txn := (ss_txn (begun s))\<lparr>mt_view := ?v, mt_dirty := True\<rparr>\<rparr>"
  have "seq ?s \<noteq> - 1" using q by (simp add: begun_def)
  from commit_returns[OF this] obtain s' where s': "commit_txn_strict map_ops (sh_await_durable_writes sh) ?s = (Inr (), s')" by blast
  have rd: "read_txn_remote map_ops k (begun s) = (Inr (bt_get (db s) k), begun s)" for k by (simp add: read_eval begun_def)
  have puts: "pbind (txn_put map_ops (cell_drop_marker c) (encode_u64 (cd_marker_epoch res))) (\<lambda>_.
      pbind (txn_delete map_ops (cell_drop_pending_marker c)) (\<lambda>_.
      pbind (txn_put map_ops (cell_drop_idempotency c i) (encode_cell_drop_idempotency c i res)) m)) (begun s) = m () ?s" for m
    by (simp add: pbind_def put_eval delete_eval begun_def)
  have "drop_finish map_ops sh c i res s = pbind (commit_txn_strict map_ops (sh_await_durable_writes sh)) (\<lambda>_. preturn res) ?s"
    unfolding drop_finish_def Let_def using none puts unfolding kview_def render.simps
    by (simp add: pbind_def[of "plift _"] pbind_def[of "txn_begin _"] pbind_def[of "validate_write_fence_txn _ _ _ _"] pbind_def[of "read_txn_remote _ _"]
        plift_def writer_open[OF w] begin_eval rd drop_fence[OF w])
  then show ?thesis using s' by (simp add: pbind_def preturn_def)
qed

lemma drop_returns:
  assumes acc: "accepts sh c s" and v: "valid_component c" "valid_component i" and room: "unat (seq s) + length (db s) + 5 < 2 ^ 64"
    and fresh: "kview (db s) (KCellDropIdempotency c i) = None"
    and admitted: "sh_write_permit sh ''drop_cell'' = Inr ()" "sh_refresh_writer_fence sh = Inr ()"
  shows "\<exists>res s'. drop_cell map_ops sh c i s = (Inr res, s') \<and> \<not> cd_already_dropped res"
proof -
  have w: "writable sh" and none: "kview (db s) (KCellDropMarker c) = None" "kview (db s) (KCellDropPending c) = None"
    and ok: "bt_ok (db s)" and q: "seq s \<noteq> - 1" using acc by (simp_all add: accepts_def)
  obtain e s1 where s1: "drop_begin map_ops sh c i s = (Inr (Inr e), s1)" "unat (seq s1) \<le> Suc (unat (seq s))"
    "db s1 = bt_insert (render (KCellDropPending c)) (encode_u64 e) (db s)" using begin_returns[OF w q none fresh] by blast
  let ?kvs = "scan (cell_prefix c) (db s1)"
  have sc: "scan_remote_prefix map_ops (cell_prefix c) s1 = (Inr ?kvs, s1)"
    by (simp add: scan_remote_prefix_def db_scan_def on_txn_def in_subrange_def scan_def)
  have "length ?kvs \<le> Suc (length (db s))"
    unfolding scan_def s1(3) by (rule order_trans[OF length_filter_le length_bt_insert])
  then have fit: "unat (seq s1) + length ?kvs + 3 < 2 ^ 64" using s1(2) room by linarith
  then obtain dk bs s2 where s2: "drop_sweep map_ops sh c ?kvs [] 0 0 s1 = (Inr (dk, bs), s2)" "unat (seq s2) \<le> unat (seq s1) + length ?kvs + 1"
    "\<forall>k. bt_get (db s1) k = None \<longrightarrow> bt_get (db s2) k = None"
    using sweep_returns[OF w, of s1 ?kvs c "[]" 0 0] by auto
  have "kview (db s1) (KCellDropIdempotency c i) = None"
    unfolding s1(3) kview_insert[OF ok drop_keys(2,3)[OF v]] using fresh by simp
  then have idem: "kview (db s2) (KCellDropIdempotency c i) = None" using s2(3) unfolding kview_def by blast
  have q2: "seq s2 \<noteq> - 1" by (rule below_max) (use fit s2(2) in linarith)
  let ?res = "\<lparr>cd_marker_epoch = e, cd_deleted_keys = dk, cd_batches = bs, cd_already_dropped = False\<rparr>"
  obtain s3 where s3: "drop_finish map_ops sh c i ?res s2 = (Inr ?res, s3)" using finish_returns[OF w q2 idem] by blast
  have run: "drop_cell_locked map_ops sh c i s = (Inr ?res, s3)"
    unfolding drop_cell_locked_def pbind_def s1(1) sc s2(1) prod.case sum.case by (rule s3)
  have "acquire_local_write_guard sh c ''drop_cell'' = Inr ()" "ensure_write_authority sh c ''drop_cell'' = Inr ()"
    using v(1) admitted(2) w by (simp_all add: acquire_local_write_guard_def validate_component_iff authority_ok valid_component_def component_byte_def)
  moreover from this run have "pbind (plift (acquire_local_write_guard sh c ''drop_cell'')) (\<lambda>_. drop_cell_locked map_ops sh c i) s = (Inr ?res, s3)"
    by (simp add: pbind_def plift_def)
  then have "txn_attempts GRAPH_TXN_MAX_RETRIES (pbind (plift (acquire_local_write_guard sh c ''drop_cell'')) (\<lambda>_. drop_cell_locked map_ops sh c i)) s = (Inr ?res, s3)"
    unfolding GRAPH_TXN_MAX_RETRIES_def by (metis attempts_first numeral_eq_Suc)
  ultimately have "drop_cell map_ops sh c i s = (Inr ?res, s3)"
    unfolding drop_cell_def guarded_write_def using v admitted(1) by (simp add: pbind_def plift_def validate_component_iff[of _ _ "()"])
  then show ?thesis by auto
qed

subsection \<open>Property\<close>

text \<open>
  The two gates of a cell: the check that most reads make first, and the fence of every write transaction. \<open>refused\<close> is
  an operation that fails and commits nothing. A cell refuses when both gates are closed, and with them the operations behind
  them: edge writes and deletes, batches of any operation but a drop, the current epoch, the neighbours of a vertex. A
  snapshot is taken without passing a gate (\<^verbatim>\<open>snapshot\<close> and \<^verbatim>\<open>snapshot_at\<close> of \<^verbatim>\<open>src/shard/lifecycle.rs\<close>), so what is
  read through one, \<^verbatim>\<open>in_neighbors\<close> over the reverse index included, is not refused.
\<close>

definition refused :: "(map_txn shard_state, 'a) prog \<Rightarrow> map_txn shard_state \<Rightarrow> bool" where
  "refused f s \<longleftrightarrow> \<not> is_ok (fst (f s)) \<and> db (snd (f s)) = db s"

definition gates_closed :: "string \<Rightarrow> map_txn shard_state \<Rightarrow> bool" where
  "gates_closed c s \<longleftrightarrow> (\<forall>oper. ensure_cell_readable map_ops c oper s = (Inl (CellDropped oper c), s))
     \<and> (\<forall>sh oper. oper \<noteq> ''drop_cell'' \<longrightarrow> validate_write_fence_txn map_ops sh c oper (begun s) = (Inl (CellDropped oper c), begun s))"

definition refuses :: "string \<Rightarrow> map_txn shard_state \<Rightarrow> bool" where
  "refuses c s \<longleftrightarrow> gates_closed c s
     \<and> (\<forall>sh m. em_cell_id m = c \<longrightarrow> refused (write_edge map_ops sh m) s \<and> refused (delete_edge map_ops sh m) s)
     \<and> (\<forall>sh oper batch guards. oper \<noteq> ''drop_cell'' \<longrightarrow> batch \<noteq> [] \<longrightarrow> refused (write_graph_batch_strict map_ops sh c oper batch) s
          \<and> refused (write_graph_batch_strict_guarded map_ops sh c oper guards batch) s)
     \<and> refused (current_epoch map_ops c) s
     \<and> (\<forall>take_snapshot t x. refused (shard_out_neighbors map_ops take_snapshot c t x) s)"

lemma refused_plift: "(\<And>x. r = Inr x \<Longrightarrow> refused (f x) s) \<Longrightarrow> refused (pbind (plift r) f) s"
  by (cases r) (simp_all add: refused_def pbind_def plift_def)

lemma refused_attempts:
  assumes "\<And>s1. db s1 = db s \<Longrightarrow> refused m s1"
  shows "refused (txn_attempts n m) s"
  using assms
proof (induction n arbitrary: s)
  case (Suc n)
  obtain r s1 where m: "m s = (r, s1)" by fastforce
  then have r: "\<not> is_ok r" "db s1 = db s" using Suc.prems[of s] by (simp_all add: refused_def)
  have "refused (txn_attempts n m) s1" by (rule Suc.IH) (use Suc.prems r(2) in simp)
  then show ?case using m r by (cases r) (simp_all add: refused_def)
qed (simp add: refused_def)

lemma gates_marked:
  assumes "wf_store (db s)" "valid_component c" "kview (db s) (KCellDropMarker c) \<noteq> None \<or> kview (db s) (KCellDropPending c) \<noteq> None"
  shows "gates_closed c s"
proof -
  have "validate_component ''cell_id'' c = Inr ()" using assms(2) by (simp add: validate_component_iff)
  then have "ensure_cell_readable map_ops c oper s = (Inl (CellDropped oper c), s)" for oper
    using assms(3) by (auto simp: ensure_cell_readable_def pbind_def plift_def read_remote_def on_txn_def kview_def pif_def preturn_def pfail_def)
  moreover have "validate_write_fence_txn map_ops sh c oper (begun s) = (Inl (CellDropped oper c), begun s)" if "oper \<noteq> ''drop_cell''" for sh oper
    by (rule fence_dropped[OF begun_models[OF assms(1)] assms(2) that]) (use assms(3) in simp)
  ultimately show ?thesis by (simp add: gates_closed_def)
qed

lemma refused_behind_fence:
  assumes "gates_closed c s" "oper \<noteq> ''drop_cell''"
  shows "refused (pbind (plift (db_writer sh)) (\<lambda>_. pbind (txn_begin map_ops) (\<lambda>_. pbind (validate_write_fence_txn map_ops sh c oper) f))) s"
proof (rule refused_plift)
  have f: "validate_write_fence_txn map_ops sh c oper (begun s) = (Inl (CellDropped oper c), begun s)" using assms by (simp add: gates_closed_def)
  show "refused (pbind (txn_begin map_ops) (\<lambda>_. pbind (validate_write_fence_txn map_ops sh c oper) f)) s"
    unfolding refused_def pbind_def begin_eval prod.case sum.case f by (simp add: begun_def)
qed

lemma refused_behind_gate:
  assumes "gates_closed c s"
  shows "refused (pbind (ensure_cell_readable map_ops c oper) f) s"
  using assms by (simp add: refused_def pbind_def gates_closed_def)

lemma marked_refuses:
  assumes "wf_store (db s)" "valid_component c" "kview (db s) (KCellDropMarker c) \<noteq> None \<or> kview (db s) (KCellDropPending c) \<noteq> None"
  shows "refuses c s"
proof -
  have gates: "gates_closed c s1" if "db s1 = db s" for s1 by (rule gates_marked) (use assms that in simp_all)
  note fence = refused_behind_fence[OF gates] and now = gates[OF refl]
  have edge: "refused (write_edge map_ops sh m) s" "refused (delete_edge map_ops sh m) s" if "em_cell_id m = c" for sh m
    unfolding write_edge_def delete_edge_def guarded_write_def write_edge_txn_locked_with_metadata_def delete_edge_txn_locked_def that
    by (intro refused_plift refused_attempts fence; simp)+
  have batch: "refused (write_graph_batch_strict map_ops sh c oper batch) s" "refused (write_graph_batch_strict_guarded map_ops sh c oper guards batch) s"
    if "oper \<noteq> ''drop_cell''" "batch \<noteq> []" for sh oper batch guards
    unfolding write_graph_batch_strict_def write_graph_batch_strict_guarded_def write_graph_batch_txn_def write_graph_batch_guarded_txn_def pif_def
    using that by (simp_all only: if_False) (intro refused_plift refused_attempts fence; simp)+
  have reads: "refused (current_epoch map_ops c) s" "refused (shard_out_neighbors map_ops take_snapshot c t x) s" for take_snapshot t x
    unfolding current_epoch_def shard_out_neighbors_def by (intro refused_plift refused_behind_gate[OF now])+
  show ?thesis unfolding refuses_def using now edge batch reads by blast
qed

text \<open>C10 (drop_cell_safe). Dropping a cell on a store that may fail at any operation, and whatever the call returns: no record of another cell
  changes; a record of the cell is as it was or gone, and once one is gone both gates of the cell are closed, so that the
  operations behind them fail and commit nothing: edge writes and deletes, batches of any operation but a drop, the current
  epoch and the neighbours of a vertex. Reads through a snapshot pass no gate and are not covered. The final marker is set only over an
  emptied cell. A request under a new idempotency key that succeeds has stored the result it returns and closed the cell, emptied unless
  the cell was dropped before. A repeated request changes nothing and returns the stored result.\<close>

theorem drop_cell_safe:
  assumes "txn_faults ops view" "wf_store (db (seen view s))" "drop_cell ops sh c i s = (r, s')"
  shows "wf_store (db (seen view s'))
    \<and> (\<forall>k. valid_key k \<and> key_cell k \<noteq> Some c \<and> k \<notin> {KCellDropMarker c, KCellDropPending c, KCellDropIdempotency c i}
         \<longrightarrow> kview (db (seen view s')) k = kview (db (seen view s)) k)
    \<and> (\<forall>k. valid_key k \<and> key_cell k = Some c \<and> kview (db (seen view s')) k \<noteq> kview (db (seen view s)) k
         \<longrightarrow> kview (db (seen view s')) k = None \<and> refuses c (seen view s'))
    \<and> (kview (db (seen view s)) (KCellDropMarker c) = None \<and> kview (db (seen view s')) (KCellDropMarker c) \<noteq> None \<longrightarrow> emptied (db (seen view s')) c)
    \<and> (\<forall>res. r = Inr res \<and> kview (db (seen view s)) (KCellDropIdempotency c i) = None
         \<longrightarrow> kview (db (seen view s')) (KCellDropIdempotency c i) = Some (encode_cell_drop_idempotency c i res)
           \<and> refuses c (seen view s') \<and> (cd_already_dropped res \<or> emptied (db (seen view s')) c))
    \<and> (\<forall>res. kview (db (seen view s)) (KCellDropIdempotency c i) = Some (encode_cell_drop_idempotency c i res)
         \<longrightarrow> db (seen view s') = db (seen view s) \<and> (is_ok r \<longrightarrow> r = Inr res))"
proof -
  have st: "txn_refines.abs_state view s1 = seen view s1" for s1
    using txn_refines.abs_state_def[OF txn_faults.axioms(1)[OF assms(1)]] .
  let ?m = "db (seen view s)" and ?n = "db (seen view s')"
  from txn_faults.drop_cell_run[OF assms(1), unfolded st, OF assms(2,3)] show ?thesis
  proof (elim disjE conjE)
    assume "s' = s" "\<not> is_ok r"
    then show ?thesis using assms(2) by auto
  next
    assume v: "valid_component c" "valid_component i" and mv: "(drop_moves c i)\<^sup>*\<^sup>* ?m ?n"
      and rec: "\<forall>res. r = Inr res \<longrightarrow> (\<exists>w. kview ?n (KCellDropIdempotency c i) = Some w \<and> decode_cell_drop_idempotency (cell_drop_idempotency c i) c i w = Inr res)"
    note D = dropping_moves[OF mv v assms(2), unfolded dropping_def] and dec = decode_cell_drop_record[OF v, of _ c i]
    have wf: "wf_store ?n" using D by blast
    note shut = marked_refuses[OF wf v(1)]
    have "kview ?n (KCellDropIdempotency c i) = Some (encode_cell_drop_idempotency c i res) \<and> refuses c (seen view s') \<and> (cd_already_dropped res \<or> emptied ?n c)"
      if ret: "r = Inr res \<and> kview ?m (KCellDropIdempotency c i) = None" for res
    proof -
      obtain w where w: "kview ?n (KCellDropIdempotency c i) = Some w" "decode_cell_drop_idempotency (cell_drop_idempotency c i) c i w = Inr res" using rec ret by blast
      have "kview ?n (KCellDropIdempotency c i) = None \<or> (\<exists>res'. kview ?n (KCellDropIdempotency c i) = Some (encode_cell_drop_idempotency c i res')
          \<and> kview ?n (KCellDropMarker c) \<noteq> None \<and> (\<not> cd_already_dropped res' \<longrightarrow> emptied ?n c))"
        by (rule mp[OF D[THEN conjunct2, THEN conjunct2, THEN conjunct2, THEN conjunct2]]) (use ret in blast)
      then obtain res' where r': "w = encode_cell_drop_idempotency c i res'" "kview ?n (KCellDropMarker c) \<noteq> None" "\<not> cd_already_dropped res' \<longrightarrow> emptied ?n c"
        using w(1) by auto
      have "res' = res" using w(2) dec unfolding r'(1) by simp
      then show ?thesis using w(1) r' shut by blast
    qed
    moreover have "?n = ?m \<and> (is_ok r \<longrightarrow> r = Inr res)" if known: "kview ?m (KCellDropIdempotency c i) = Some (encode_cell_drop_idempotency c i res)" for res
      using txn_faults.drop_cell_repeated[OF assms(1), unfolded st, OF known assms(3)] dec by (auto simp: is_ok_iff)
    moreover have "kview ?n k = None \<and> refuses c (seen view s')" if ch: "valid_key k \<and> key_cell k = Some c \<and> kview ?n k \<noteq> kview ?m k" for k
      using D ch shut by blast
    ultimately show ?thesis using D by blast
  qed
qed

text \<open>Witness of C10 (drop_cell_safe): a cell of four records.\<close>

theorem drop_cell_safe_witness:
  "\<exists>res s'. drop_cell map_ops forward_env ''c'' ''k'' segmented_shard = (Inr res, s') \<and> refuses ''c'' s'
     \<and> kview (db s') (KDegreeOut ''c'' ''T'' 1) = None \<and> kview (db s') (KCellDropIdempotency ''c'' ''k'') = Some (encode_cell_drop_idempotency ''c'' ''k'' res)"
proof -
  have v: "valid_component ''c''" "valid_component ''T''" "valid_component ''k''" by (simp_all add: valid_component_def component_byte_def)
  note k = drop_keys[OF v(1,3)]
  have none: "kview (db segmented_shard) (KCellDropMarker ''c'') = None" "kview (db segmented_shard) (KCellDropPending ''c'') = None"
    "kview (db segmented_shard) (KCellDropIdempotency ''c'' ''k'') = None"
    unfolding segmented_shard_def using segmented_view[OF k(1)] segmented_view[OF k(2)] segmented_view[OF k(3)] by simp_all
  have acc: "accepts forward_env ''c'' segmented_shard"
    using segmented_wf none by (simp add: accepts_def segmented_shard_def forward_env_def sample_env_def writable_def)
  have l: "length (bt_insert a b m) \<le> Suc n" if "length m \<le> n" for a b n and m :: "(bytes, bytes) btmap"
    using length_bt_insert[of a b m] that by linarith
  have "length segmented_records \<le> Suc (Suc (Suc (Suc 0)))" unfolding segmented_records_def by (intro l) simp
  then have room: "unat (seq segmented_shard) + length (db segmented_shard) + 5 < 2 ^ 64" by (simp add: segmented_shard_def)
  obtain res s' where run: "drop_cell map_ops forward_env ''c'' ''k'' segmented_shard = (Inr res, s')" and new: "\<not> cd_already_dropped res"
    using drop_returns[OF acc v(1,3) room none(3)] by (auto simp: forward_env_def sample_env_def)
  have wf: "wf_store (db (seen (\<lambda>t. t) segmented_shard))" using segmented_wf by (simp add: segmented_shard_def)
  note th = drop_cell_safe[OF exact.txn_faults_axioms wf run, unfolded seen_id]
  have "kview (db s') (KCellDropIdempotency ''c'' ''k'') = Some (encode_cell_drop_idempotency ''c'' ''k'' res)" "refuses ''c'' s'" "emptied (db s') ''c''"
    using th none(3) new by blast+
  moreover have "valid_key (KDegreeOut ''c'' ''T'' 1)" "key_cell (KDegreeOut ''c'' ''T'' 1) = Some ''c''" using v by (simp_all add: valid_edge_keys)
  ultimately show ?thesis using run by blast
qed

end
