(* ===== verification/Wal_Tail.thy ===== *)
theory Wal_Tail
  imports Changelog_History
begin

text \<open>
  \<^verbatim>\<open>src/shard/topology_tail.rs\<close>, the tail of the write-ahead log behind an index: \<^verbatim>\<open>topology_tail_since\<close> reads the log
  files after the one the index was built at, collects the edges their records touch and resolves each of them against the snapshot. The
  log of SlateDB is foreign: its operations are the record \<open>wal_ops\<close>, and the locale \<open>wal_reader\<close> says that a file that is
  read has its immutable content. Fetches run concurrently but are consumed in order, so they are modelled in order.
\<close>

subsection \<open>Records of a log file\<close>

record wal_row =
  wr_key :: bytes
  wr_value :: "bytes option"
  wr_seq :: u64

datatype wal_decoded =
    WalEdge vertex_id vertex_id
  | WalCorrupt string string

record wal_topology_entry =
  we_cell_id :: string
  we_edge_type :: string
  we_seq :: u64
  we_decoded :: wal_decoded

definition affected_edge_for ::
    "graph_index_generation \<Rightarrow> storage_sequence \<Rightarrow> wal_topology_entry \<Rightarrow> (vertex_id \<times> vertex_id) option result" where
  "affected_edge_for generation read_sequence entry =
     (if we_seq entry \<le> gi_base_sequence generation \<or> read_sequence < we_seq entry
         \<or> we_cell_id entry \<noteq> gi_cell_id generation \<or> we_edge_type entry \<noteq> gi_edge_type generation then Inr None
      else case we_decoded entry of
             WalEdge src dst \<Rightarrow> Inr (Some (src, dst))
           | WalCorrupt key reason \<Rightarrow> Inl (CorruptValue key reason))"

definition corrupt_wal_topology_entry :: "string \<Rightarrow> string \<Rightarrow> string \<Rightarrow> u64 \<Rightarrow> graph_error \<Rightarrow> wal_topology_entry" where
  "corrupt_wal_topology_entry cell_id edge_type fallback_key sequence error =
     \<lparr>we_cell_id = cell_id, we_edge_type = edge_type, we_seq = sequence,
      we_decoded = (case error of CorruptValue key reason \<Rightarrow> WalCorrupt key reason
                    | _ \<Rightarrow> WalCorrupt fallback_key (graph_error_display error))\<rparr>"

definition push_wal_topology_edge ::
    "string \<Rightarrow> string \<Rightarrow> string \<Rightarrow> string \<Rightarrow> string \<Rightarrow> u64 \<Rightarrow> wal_topology_entry list \<Rightarrow> wal_topology_entry list" where
  "push_wal_topology_edge cell_id edge_type key src dst sequence parsed =
     parsed @ [case rbind (parse_u64 key src ''src'') (\<lambda>src. rbind (parse_u64 key dst ''dst'') (\<lambda>dst. Inr (src, dst))) of
        Inr (src, dst) \<Rightarrow> \<lparr>we_cell_id = cell_id, we_edge_type = edge_type, we_seq = sequence, we_decoded = WalEdge src dst\<rparr>
      | Inl error \<Rightarrow> corrupt_wal_topology_entry cell_id edge_type key sequence error]"

definition push_wal_segment ::
    "string \<Rightarrow> string \<Rightarrow> string \<Rightarrow> bytes option \<Rightarrow> u64 \<Rightarrow> wal_topology_entry list \<Rightarrow> wal_topology_entry list" where
  "push_wal_segment cell edge_type key row_value sequence parsed =
     (case row_value of
        None \<Rightarrow> parsed
      | Some bs \<Rightarrow>
          (case decode_out_edge_segment key bs of
             Inr segment \<Rightarrow>
               parsed @ map (\<lambda>dst. \<lparr>we_cell_id = cell, we_edge_type = edge_type, we_seq = sequence, we_decoded = WalEdge (os_src segment) dst\<rparr>)
                 (os_destinations segment)
           | Inl error \<Rightarrow> parsed @ [corrupt_wal_topology_entry cell edge_type key sequence error]))"

definition collect_wal_topology_entry :: "wal_row \<Rightarrow> wal_topology_entry list \<Rightarrow> wal_topology_entry list" where
  "collect_wal_topology_entry row parsed =
     (case from_utf8 (wr_key row) of
        Inl _ \<Rightarrow> parsed
      | Inr key \<Rightarrow>
          (case split_on SLASH key of
             [root, cell, kind, direction, edge_type, src, dst] \<Rightarrow>
               if root = ''cell'' \<and> kind = ''e'' \<and> direction = ''out''
               then push_wal_topology_edge cell edge_type key src dst (wr_seq row) parsed else parsed
           | [root, cell, kind, a, b, d, src, dst] \<Rightarrow>
               if root = ''cell'' \<and> kind = ''seg'' \<and> a = ''tomb'' \<and> b = ''out''
               then push_wal_topology_edge cell d key src dst (wr_seq row) parsed
               else if root = ''cell'' \<and> kind = ''seg'' \<and> a = ''out''
               then push_wal_segment cell b key (wr_value row) (wr_seq row) parsed
               else parsed
           | _ \<Rightarrow> parsed))"

definition parse_wal_file :: "wal_row list \<Rightarrow> wal_topology_entry list" where
  "parse_wal_file rows = fold collect_wal_topology_entry rows []"

subsection \<open>The cache of parsed files\<close>

record wal_tail_file_cache =
  wc_files :: "(u64, wal_topology_entry list) btmap"
  wc_total_entries :: nat

definition WAL_TAIL_CACHE_MAX_ENTRIES :: nat where
  "WAL_TAIL_CACHE_MAX_ENTRIES = 65536"

definition wal_cache_get :: "u64 \<Rightarrow> wal_tail_file_cache \<Rightarrow> wal_topology_entry list option" where
  "wal_cache_get wal_id cache = bt_get (wc_files cache) wal_id"

fun wal_cache_evict :: "(u64, wal_topology_entry list) btmap \<Rightarrow> nat \<Rightarrow> wal_tail_file_cache" where
  "wal_cache_evict [] entries_total = \<lparr>wc_files = [], wc_total_entries = entries_total\<rparr>"
| "wal_cache_evict ((wal_id, evicted) # files) entries_total =
     (if WAL_TAIL_CACHE_MAX_ENTRIES < entries_total then wal_cache_evict files (entries_total - length evicted)
      else \<lparr>wc_files = (wal_id, evicted) # files, wc_total_entries = entries_total\<rparr>)"

definition wal_cache_insert :: "u64 \<Rightarrow> wal_topology_entry list \<Rightarrow> wal_tail_file_cache \<Rightarrow> wal_tail_file_cache" where
  "wal_cache_insert wal_id entries cache =
     (if WAL_TAIL_CACHE_MAX_ENTRIES < length entries then cache
      else let entries_total = (case bt_get (wc_files cache) wal_id of
                          None \<Rightarrow> wc_total_entries cache
                        | Some previous \<Rightarrow> wc_total_entries cache - length previous)
           in wal_cache_evict (bt_insert wal_id entries (wc_files cache)) (entries_total + length entries))"

subsection \<open>The tail\<close>

record 'w wal_ops =
  budget_op :: "string \<Rightarrow> 'w \<Rightarrow> unit result \<times> 'w"
  last_wal_op :: "'w \<Rightarrow> u64 result \<times> 'w"
  wal_file_op :: "u64 \<Rightarrow> 'w \<Rightarrow> wal_row list result option \<times> 'w"

record 'w wal_shard =
  ws_world :: 'w
  ws_cache :: wal_tail_file_cache

datatype topology_tail =
    TailComplete overlay
  | TailUnavailable

datatype wal_file_fetch =
    WalParsed "wal_topology_entry list"
  | WalUnavailable

record wal_limits =
  wl_max_wal_tail_files :: u64
  wl_max_query_scan_edges :: u64

definition on_world :: "('w \<Rightarrow> 'a \<times> 'w) \<Rightarrow> 'w wal_shard \<Rightarrow> 'a \<times> 'w wal_shard" where
  "on_world f s = (case f (ws_world s) of (x, w) \<Rightarrow> (x, s\<lparr>ws_world := w\<rparr>))"

abbreviation budget_check :: "'w wal_ops \<Rightarrow> string \<Rightarrow> ('w wal_shard, unit) prog" where
  "budget_check ops operation \<equiv> on_world (budget_op ops operation)"

text \<open>One fetch. The log reader answers nothing when the file cannot be opened, an error when a record cannot be read.\<close>

definition fetch_wal_file :: "'w wal_ops \<Rightarrow> u64 \<Rightarrow> ('w wal_shard, wal_file_fetch) prog" where
  "fetch_wal_file ops wal_id =
     pbind (budget_check ops ''graph_index_wal_file'') (\<lambda>_ s.
       case on_world (wal_file_op ops wal_id) s of
         (None, s') \<Rightarrow> (Inr WalUnavailable, s')
       | (Some rows, s') \<Rightarrow> (map_ok (\<lambda>rows. WalParsed (parse_wal_file rows)) rows, s'))"

fun fetch_missing :: "'w wal_ops \<Rightarrow> u64 list \<Rightarrow> (u64, wal_topology_entry list) btmap
    \<Rightarrow> ('w wal_shard, (u64, wal_topology_entry list) btmap option) prog" where
  "fetch_missing ops [] files = preturn (Some files)"
| "fetch_missing ops (wal_id # missing) files =
     pbind (fetch_wal_file ops wal_id) (\<lambda>fetch.
       case fetch of
         WalUnavailable \<Rightarrow> preturn None
       | WalParsed parsed \<Rightarrow> fetch_missing ops missing (bt_insert wal_id parsed files))"

definition cached_files :: "wal_tail_file_cache \<Rightarrow> u64 list \<Rightarrow> (u64, wal_topology_entry list) btmap \<times> u64 list" where
  "cached_files cache wal_ids =
     fold (\<lambda>wal_id (files, missing). case wal_cache_get wal_id cache of
             Some parsed \<Rightarrow> (bt_insert wal_id parsed files, missing)
           | None \<Rightarrow> (files, missing @ [wal_id])) wal_ids ([], [])"

definition cache_fetched :: "(u64, wal_topology_entry list) btmap \<Rightarrow> u64 list \<Rightarrow> wal_tail_file_cache \<Rightarrow> wal_tail_file_cache" where
  "cache_fetched files missing cache =
     fold (\<lambda>wal_id cache. case bt_get files wal_id of None \<Rightarrow> cache | Some parsed \<Rightarrow> wal_cache_insert wal_id parsed cache) missing cache"

definition affected_step ::
    "'w wal_ops \<Rightarrow> wal_limits \<Rightarrow> graph_index_generation \<Rightarrow> storage_sequence \<Rightarrow> wal_topology_entry \<Rightarrow> (vertex_id \<times> vertex_id) list
     \<Rightarrow> ('w wal_shard, (vertex_id \<times> vertex_id) list) prog" where
  "affected_step ops limits generation read_sequence entry affected =
     pbind (budget_check ops ''graph_index_wal_entry'') (\<lambda>_.
     pbind (plift (affected_edge_for generation read_sequence entry)) (\<lambda>found.
       case found of
         None \<Rightarrow> preturn affected
       | Some edge \<Rightarrow>
           let affected = bs_insert edge affected
           in pbind (plift (ensure_limit ''graph_index_wal_affected_edges'' (word_of_nat (length affected)) (wl_max_query_scan_edges limits)))
                (\<lambda>_. preturn affected)))"

definition resolve_step ::
    "'w wal_ops \<Rightarrow> graph_index_generation \<Rightarrow> storage_snapshot \<Rightarrow> storage_sequence \<Rightarrow> vertex_id \<times> vertex_id \<Rightarrow> overlay \<Rightarrow> ('w wal_shard, overlay) prog" where
  "resolve_step ops generation snapshot read_sequence edge states = (case edge of (src, dst) \<Rightarrow>
     pbind (budget_check ops ''graph_index_wal_resolve_edge'') (\<lambda>_.
     pbind (plift (edge_exists_in_storage_snapshot snapshot (gi_cell_id generation) (gi_edge_type generation) src dst read_sequence)) (\<lambda>exists.
       preturn (overlay_set src dst exists states))))"

definition wal_ids_between :: "u64 \<Rightarrow> u64 \<Rightarrow> u64 list" where
  "wal_ids_between first final = map word_of_nat [unat first ..< Suc (unat final)]"

definition walk_wal_tail ::
    "'w wal_ops \<Rightarrow> wal_limits \<Rightarrow> graph_index_generation \<Rightarrow> storage_snapshot \<Rightarrow> storage_sequence \<Rightarrow> u64 \<Rightarrow> ('w wal_shard, topology_tail) prog" where
  "walk_wal_tail ops limits generation snapshot read_sequence last_wal_id s =
     (let wal_ids = wal_ids_between (saturating_add (gi_last_wal_id generation) 1) last_wal_id;
          (files, missing) = cached_files (ws_cache s) wal_ids
      in pbind (fetch_missing ops missing files) (\<lambda>fetched.
           case fetched of
             None \<Rightarrow> preturn TailUnavailable
           | Some files \<Rightarrow>
               pbind (\<lambda>s. (Inr (), s\<lparr>ws_cache := cache_fetched files missing (ws_cache s)\<rparr>)) (\<lambda>_.
               pbind (pfold (concat (map snd files)) (affected_step ops limits generation read_sequence) []) (\<lambda>affected.
               pbind (pfold affected (resolve_step ops generation snapshot read_sequence) []) (\<lambda>states.
                 preturn (TailComplete states))))) s)"

definition topology_tail_since ::
    "'w wal_ops \<Rightarrow> wal_limits \<Rightarrow> graph_index_generation \<Rightarrow> storage_snapshot \<Rightarrow> storage_sequence \<Rightarrow> ('w wal_shard, topology_tail) prog" where
  "topology_tail_since ops limits generation snapshot read_sequence =
     pif (sn_seq snapshot \<noteq> read_sequence) (preturn TailUnavailable)
       (pif (read_sequence \<le> gi_base_sequence generation) (preturn (TailComplete []))
         (pbind (on_world (last_wal_op ops)) (\<lambda>last_wal_id.
            pif (last_wal_id \<le> gi_last_wal_id generation) (preturn (TailComplete []))
              (pif (wl_max_wal_tail_files limits < saturating_sub last_wal_id (gi_last_wal_id generation)) (preturn TailUnavailable)
                (walk_wal_tail ops limits generation snapshot read_sequence last_wal_id)))))"

subsection \<open>The cache stays bounded and true\<close>

abbreviation entry_count :: "(u64, wal_topology_entry list) btmap \<Rightarrow> nat" where
  "entry_count files \<equiv> sum_list (map (length \<circ> snd) files)"

definition wal_cache_ok :: "(u64 \<Rightarrow> wal_row list) \<Rightarrow> wal_tail_file_cache \<Rightarrow> bool" where
  "wal_cache_ok wal cache \<longleftrightarrow> bt_ok (wc_files cache) \<and> wc_total_entries cache = entry_count (wc_files cache)
     \<and> wc_total_entries cache \<le> WAL_TAIL_CACHE_MAX_ENTRIES
     \<and> (\<forall>wal_id parsed. bt_get (wc_files cache) wal_id = Some parsed \<longrightarrow> parsed = parse_wal_file (wal wal_id))"

lemma evict_ok:
  assumes "bt_ok files"
  shows "bt_ok (wc_files (wal_cache_evict files (entry_count files)))
    \<and> wc_total_entries (wal_cache_evict files (entry_count files)) = entry_count (wc_files (wal_cache_evict files (entry_count files)))
    \<and> wc_total_entries (wal_cache_evict files (entry_count files)) \<le> WAL_TAIL_CACHE_MAX_ENTRIES
    \<and> set (wc_files (wal_cache_evict files (entry_count files))) \<subseteq> set files"
  using assms
proof (induction files)
  case (Cons p files)
  obtain wal_id evicted where p: "p = (wal_id, evicted)" by fastforce
  have "bt_ok files" using Cons.prems by (simp add: bt_ok_def)
  from Cons.IH[OF this] Cons.prems show ?case unfolding p by auto
qed (simp add: bt_ok_def)

lemma entry_count_insert:
  assumes "bt_ok files"
  shows "entry_count (bt_insert wal_id entries files) + (case bt_get files wal_id of None \<Rightarrow> 0 | Some previous \<Rightarrow> length previous)
    = entry_count files + length entries"
  using assms
proof (induction files)
  case (Cons p files)
  have ok: "bt_ok files" and above: "\<forall>q \<in> set files. fst p < fst q" using Cons.prems by (auto simp: bt_ok_def)
  have "bt_get files wal_id = None" if "wal_id < fst p"
    using above that bt_get_Some_iff[OF ok, of wal_id] by (cases "bt_get files wal_id") fastforce+
  moreover have "bt_get (p # files) wal_id = (if fst p = wal_id then Some (snd p) else bt_get files wal_id)" by (cases p) (simp add: bt_get_def)
  ultimately show ?case using Cons.IH[OF ok] by (cases "fst p < wal_id"; cases "fst p = wal_id") (auto split: option.splits)
qed (simp add: bt_get_def)

lemma wal_cache_insert_ok:
  assumes ok: "wal_cache_ok wal cache"
  shows "wal_cache_ok wal (wal_cache_insert wal_id (parse_wal_file (wal wal_id)) cache)"
proof (cases "WAL_TAIL_CACHE_MAX_ENTRIES < length (parse_wal_file (wal wal_id))")
  case True
  then show ?thesis using ok by (simp add: wal_cache_insert_def)
next
  case False
  let ?p = "parse_wal_file (wal wal_id)" and ?old = "wc_files cache"
  let ?new = "bt_insert wal_id ?p ?old"
  have bt: "bt_ok ?old" and count: "wc_total_entries cache = entry_count ?old" and true: "bt_get ?old k = Some p \<Longrightarrow> p = parse_wal_file (wal k)" for k p
    using ok by (simp_all add: wal_cache_ok_def)
  have "(case bt_get ?old wal_id of None \<Rightarrow> wc_total_entries cache | Some previous \<Rightarrow> wc_total_entries cache - length previous) + length ?p = entry_count ?new"
  proof (cases "bt_get ?old wal_id")
    case None
    then show ?thesis using entry_count_insert[OF bt, of wal_id ?p] count by simp
  next
    case (Some previous)
    then have "(wal_id, previous) \<in> set ?old" using bt_get_Some_iff[OF bt] by simp
    then have "length previous \<le> entry_count ?old" using member_le_sum_list[of "length previous" "map (length \<circ> snd) ?old"] by force
    then show ?thesis using entry_count_insert[OF bt, of wal_id ?p] count Some by simp
  qed
  then have e: "wal_cache_insert wal_id ?p cache = wal_cache_evict ?new (entry_count ?new)" using False by (simp add: wal_cache_insert_def Let_def)
  have new: "bt_ok ?new" using bt by simp
  have true': "bt_get ?new k = Some q \<Longrightarrow> q = parse_wal_file (wal k)" for k q
    using true bt_get_insert[OF bt, of wal_id ?p] by (auto split: if_splits)
  note E = evict_ok[OF new]
  have "q = parse_wal_file (wal k)" if got: "bt_get (wc_files (wal_cache_evict ?new (entry_count ?new))) k = Some q" for k q
  proof -
    have "(k, q) \<in> set (wc_files (wal_cache_evict ?new (entry_count ?new)))" by (rule iffD1[OF bt_get_Some_iff[OF E[THEN conjunct1]] got])
    then have "(k, q) \<in> set ?new" using E[THEN conjunct2, THEN conjunct2, THEN conjunct2] by (rule set_mp[rotated])
    then have "bt_get ?new k = Some q" by (rule iffD2[OF bt_get_Some_iff[OF new]])
    then show ?thesis by (rule true')
  qed
  then show ?thesis unfolding e wal_cache_ok_def using E by (intro conjI allI impI) (elim conjE, assumption)+
qed

lemma cache_fetched_ok:
  assumes "wal_cache_ok wal cache" "\<And>wal_id p. bt_get files wal_id = Some p \<Longrightarrow> p = parse_wal_file (wal wal_id)"
  shows "wal_cache_ok wal (cache_fetched files missing cache)"
  unfolding cache_fetched_def using assms(1)
proof (induction missing arbitrary: cache)
  case (Cons wal_id missing)
  have "wal_cache_ok wal (case bt_get files wal_id of None \<Rightarrow> cache | Some parsed \<Rightarrow> wal_cache_insert wal_id parsed cache)"
    using Cons.prems wal_cache_insert_ok[OF Cons.prems, of wal_id] assms(2)[of wal_id] by (cases "bt_get files wal_id") simp_all
  from Cons.IH[OF this] show ?case by simp
qed simp

subsection \<open>Walks of the log\<close>

lemma cached_files_spec:
  assumes "cached_files cache wal_ids = (files, missing)"
  shows "bt_ok files" "bt_get files k = (if k \<in> set wal_ids then wal_cache_get k cache else None)"
    "set missing = {k \<in> set wal_ids. wal_cache_get k cache = None}"
proof -
  let ?f = "\<lambda>wal_id (files, missing). case wal_cache_get wal_id cache of
      Some parsed \<Rightarrow> (bt_insert wal_id parsed files, missing) | None \<Rightarrow> (files, missing @ [wal_id])"
  have "bt_ok files' \<and> (\<forall>k. bt_get files' k = (if k \<in> set wal_ids then (case wal_cache_get k cache of None \<Rightarrow> bt_get F k | Some p \<Rightarrow> Some p) else bt_get F k))
      \<and> set missing' = set M \<union> {k \<in> set wal_ids. wal_cache_get k cache = None}"
    if "bt_ok F" "fold ?f wal_ids (F, M) = (files', missing')" for F M files' missing'
    using that
  proof (induction wal_ids arbitrary: F M)
    case (Cons w ws)
    show ?case
    proof (cases "wal_cache_get w cache")
      case None
      then have "fold ?f ws (F, M @ [w]) = (files', missing')" using Cons.prems(2) by simp
      from Cons.IH[OF Cons.prems(1) this] None show ?thesis by (auto split: option.splits)
    next
      case (Some p)
      have ok: "bt_ok (bt_insert w p F)" using Cons.prems(1) by simp
      have "fold ?f ws (bt_insert w p F, M) = (files', missing')" using Cons.prems(2) Some by simp
      from Cons.IH[OF ok this] Some bt_get_insert[OF Cons.prems(1), of w p] show ?thesis by (auto split: option.splits)
    qed
  qed simp
  from this[of "[]" "[]" files missing] assms show "bt_ok files" "bt_get files k = (if k \<in> set wal_ids then wal_cache_get k cache else None)"
    "set missing = {k \<in> set wal_ids. wal_cache_get k cache = None}"
    unfolding cached_files_def by (auto simp: bt_ok_def bt_get_def split: option.splits)
qed

lemma on_world_cache: "on_world f s = (x, s') \<Longrightarrow> ws_cache s' = ws_cache s"
  by (auto simp: on_world_def split: prod.splits)

lemma wal_ids_set:
  assumes "a < n"
  shows "set (wal_ids_between (saturating_add a 1) n) = {k. a < k \<and> k \<le> n}"
proof -
  have lo: "unat (saturating_add a 1) = Suc (unat a)"
    using assms saturating_add_unat[of a 1] u64_bound[of n] by (simp add: word_less_nat_alt)
  show ?thesis
  proof (rule set_eqI)
    fix k
    show "k \<in> set (wal_ids_between (saturating_add a 1) n) \<longleftrightarrow> k \<in> {k. a < k \<and> k \<le> n}"
    proof
      assume "k \<in> set (wal_ids_between (saturating_add a 1) n)"
      then obtain i where i: "k = word_of_nat i" "Suc (unat a) \<le> i" "i \<le> unat n" unfolding wal_ids_between_def lo by auto
      then have "unat k = i" using u64_bound[of n] by (simp add: unat_of_nat take_bit_eq_mod)
      then show "k \<in> {k. a < k \<and> k \<le> n}" using i by (simp add: word_less_nat_alt word_le_nat_alt)
    next
      assume "k \<in> {k. a < k \<and> k \<le> n}"
      then have "unat k \<in> set [Suc (unat a) ..< Suc (unat n)]" by (auto simp: word_less_nat_alt word_le_nat_alt)
      then have "(word_of_nat (unat k) :: u64) \<in> word_of_nat ` set [Suc (unat a) ..< Suc (unat n)]" by (rule imageI)
      then show "k \<in> set (wal_ids_between (saturating_add a 1) n)" unfolding wal_ids_between_def lo set_map by simp
    qed
  qed
qed

text \<open>The edges the tail touches: those the log files after the one of the index mention at a sequence after its base.\<close>

definition tail_touches ::
    "(u64 \<Rightarrow> wal_row list) \<Rightarrow> graph_index_generation \<Rightarrow> storage_sequence \<Rightarrow> u64 \<Rightarrow> vertex_id \<times> vertex_id \<Rightarrow> bool" where
  "tail_touches wal g q n e \<longleftrightarrow> (\<exists>k entry. gi_last_wal_id g < k \<and> k \<le> n \<and> entry \<in> set (parse_wal_file (wal k)) \<and> affected_edge_for g q entry = Inr (Some e))"

locale wal_reader =
  fixes ops :: "'w wal_ops" and wal :: "u64 \<Rightarrow> wal_row list"
  assumes file_law: "wal_file_op ops wal_id w = (Some (Inr rows), w') \<Longrightarrow> rows = wal wal_id"
begin

lemma fetch_run:
  assumes "fetch_wal_file ops wal_id s = (r, s')"
  shows "ws_cache s' = ws_cache s" "r = Inr (WalParsed p) \<Longrightarrow> p = parse_wal_file (wal wal_id)"
proof -
  obtain r1 s1 where b: "budget_check ops ''graph_index_wal_file'' s = (r1, s1)" by fastforce
  obtain r2 s2 where o: "on_world (wal_file_op ops wal_id) s1 = (r2, s2)" by fastforce
  have c: "ws_cache s1 = ws_cache s" "ws_cache s2 = ws_cache s1" using on_world_cache[OF b] on_world_cache[OF o] by simp_all
  show "ws_cache s' = ws_cache s"
    using assms b o c unfolding fetch_wal_file_def by (cases r1; cases r2) (auto simp: pbind_def)
  show "p = parse_wal_file (wal wal_id)" if res: "r = Inr (WalParsed p)"
  proof -
    obtain rows where "r2 = Some (Inr rows)" "p = parse_wal_file rows"
      using assms b o res unfolding fetch_wal_file_def by (cases r1; cases r2) (auto simp: pbind_def map_ok_Inr_iff)
    then show ?thesis using o file_law by (auto simp: on_world_def split: prod.splits)
  qed
qed

lemma fetch_missing_run:
  assumes "fetch_missing ops missing files s = (r, s')" "bt_ok files"
  shows "ws_cache s' = ws_cache s \<and> (\<forall>files'. r = Inr (Some files') \<longrightarrow> bt_ok files'
    \<and> (\<forall>k. bt_get files' k = (if k \<in> set missing then Some (parse_wal_file (wal k)) else bt_get files k)))"
  using assms
proof (induction missing arbitrary: files s)
  case Nil
  then show ?case by (auto simp: preturn_def)
next
  case (Cons w ws)
  obtain r1 s1 where f: "fetch_wal_file ops w s = (r1, s1)" by fastforce
  note F = fetch_run[OF f]
  consider (stop) "s' = s1" "\<forall>files'. r \<noteq> Inr (Some files')"
    | (next_file) p where "r1 = Inr (WalParsed p)" "fetch_missing ops ws (bt_insert w p files) s1 = (r, s')"
    using Cons.prems(1) f by (cases r1) (auto simp: pbind_def preturn_def split: wal_file_fetch.splits)
  then show ?case
  proof cases
    case (next_file p)
    have "bt_ok (bt_insert w p files)" using Cons.prems(2) by simp
    from Cons.IH[OF next_file(2) this] F(1) F(2)[OF next_file(1)] bt_get_insert[OF Cons.prems(2), of w p] show ?thesis by auto
  qed (use F(1) in simp)
qed

lemma affected_run:
  assumes "pfold entries (affected_step ops limits g q) affected s = (r, s')"
  shows "ws_cache s' = ws_cache s \<and> (\<forall>affected'. r = Inr affected' \<longrightarrow>
    set affected' = set affected \<union> {e. \<exists>entry \<in> set entries. affected_edge_for g q entry = Inr (Some e)})"
  using assms
proof (induction entries arbitrary: affected s)
  case (Cons entry entries)
  obtain r1 s1 where b: "budget_check ops ''graph_index_wal_entry'' s = (r1, s1)" by fastforce
  note c = on_world_cache[OF b]
  obtain r2 s2 where st: "affected_step ops limits g q entry affected s = (r2, s2)" by fastforce
  have s2: "s2 = s1" and grown: "r2 = Inr a \<Longrightarrow> set a = set affected \<union> {e. affected_edge_for g q entry = Inr (Some e)}" for a
    using st b unfolding affected_step_def
    by (cases r1; cases "affected_edge_for g q entry"; auto simp: pbind_def plift_def preturn_def Let_def split: option.splits sum.splits)+
  show ?case
  proof (cases r2)
    case (Inl e)
    then show ?thesis using Cons.prems st s2 c by (auto simp: pbind_def)
  next
    case (Inr a)
    then have "pfold entries (affected_step ops limits g q) a s1 = (r, s')" using Cons.prems st s2 by (simp add: pbind_def)
    from Cons.IH[OF this] grown[OF Inr] c show ?thesis by auto
  qed
qed (auto simp: preturn_def)

lemma resolve_run:
  assumes "pfold edges (resolve_step ops g snap q) W s = (r, s')" "overlay_ok W"
    and exact: "\<And>x y b. edge_exists_in_storage_snapshot snap (gi_cell_id g) (gi_edge_type g) x y q = Inr b \<Longrightarrow> b = V x y"
  shows "ws_cache s' = ws_cache s \<and> (\<forall>W'. r = Inr W' \<longrightarrow> overlay_ok W'
    \<and> (\<forall>x y. overlay_state W' x y = (if (x, y) \<in> set edges then Some (V x y) else overlay_state W x y)))"
  using assms(1,2)
proof (induction edges arbitrary: W s)
  case (Cons edge edges)
  obtain x y where e: "edge = (x, y)" by fastforce
  obtain r1 s1 where b: "budget_check ops ''graph_index_wal_resolve_edge'' s = (r1, s1)" by fastforce
  note c = on_world_cache[OF b]
  obtain r2 s2 where st: "resolve_step ops g snap q edge W s = (r2, s2)" by fastforce
  have s2: "s2 = s1" using st b unfolding resolve_step_def e
    by (cases r1; cases "edge_exists_in_storage_snapshot snap (gi_cell_id g) (gi_edge_type g) x y q") (auto simp: pbind_def plift_def preturn_def)
  have grown: "a = overlay_set x y (V x y) W" if "r2 = Inr a" for a
    using st b that exact[of x y] unfolding resolve_step_def e
    by (cases r1; cases "edge_exists_in_storage_snapshot snap (gi_cell_id g) (gi_edge_type g) x y q") (auto simp: pbind_def plift_def preturn_def)
  show ?case
  proof (cases r2)
    case (Inl err)
    then show ?thesis using Cons.prems st s2 c by (auto simp: pbind_def)
  next
    case (Inr a)
    then have run: "pfold edges (resolve_step ops g snap q) a s1 = (r, s')" using Cons.prems st s2 by (simp add: pbind_def)
    have ok: "overlay_ok a" unfolding grown[OF Inr] by (rule overlay_set_ok[OF Cons.prems(2)])
    from Cons.IH[OF run ok] overlay_state_set[OF Cons.prems(2), of x y "V x y"] c show ?thesis unfolding grown[OF Inr] e by auto
  qed
qed (auto simp: preturn_def)

lemma walk_run:
  assumes run: "walk_wal_tail ops limits g snap q n s = (r, s')" and cache: "wal_cache_ok wal (ws_cache s)" and n: "gi_last_wal_id g < n"
    and exact: "\<And>x y b. edge_exists_in_storage_snapshot snap (gi_cell_id g) (gi_edge_type g) x y q = Inr b \<Longrightarrow> b = V x y"
  shows "wal_cache_ok wal (ws_cache s') \<and> (\<forall>W. r = Inr (TailComplete W) \<longrightarrow> overlay_ok W
    \<and> (\<forall>x y. overlay_state W x y = (if tail_touches wal g q n (x, y) then Some (V x y) else None)))"
proof -
  let ?ids = "wal_ids_between (saturating_add (gi_last_wal_id g) 1) n"
  obtain files missing where cf: "cached_files (ws_cache s) ?ids = (files, missing)" by fastforce
  note C = cached_files_spec[OF cf]
  obtain r1 s1 where f: "fetch_missing ops missing files s = (r1, s1)" by fastforce
  note F = fetch_missing_run[OF f C(1)]
  have c1: "ws_cache s1 = ws_cache s" using F by blast
  consider (stop) "s' = s1" "\<forall>W. r \<noteq> Inr (TailComplete W)" | (go) files' where "r1 = Inr (Some files')"
    using run f cf unfolding walk_wal_tail_def Let_def by (cases r1) (auto simp: pbind_def preturn_def split: option.splits)
  then show ?thesis
  proof cases
    case stop
    then show ?thesis using cache c1 by simp
  next
    case (go files')
    have ok: "bt_ok files'" using F go by blast
    have got: "bt_get files' k = (if k \<in> set ?ids then Some (parse_wal_file (wal k)) else None)" for k
      using F go C(2,3) cache unfolding wal_cache_ok_def wal_cache_get_def by (cases "bt_get (wc_files (ws_cache s)) k") auto
    let ?s2 = "s1\<lparr>ws_cache := cache_fetched files' missing (ws_cache s1)\<rparr>"
    have c2: "wal_cache_ok wal (ws_cache ?s2)"
    proof -
      have "p = parse_wal_file (wal k)" if "bt_get files' k = Some p" for k p using that unfolding got by (simp split: if_splits)
      from cache_fetched_ok[OF cache this] c1 show ?thesis by simp
    qed
    let ?es = "concat (map snd files')"
    have es: "entry \<in> set ?es \<longleftrightarrow> (\<exists>k. gi_last_wal_id g < k \<and> k \<le> n \<and> entry \<in> set (parse_wal_file (wal k)))" for entry
    proof -
      have "entry \<in> set ?es \<longleftrightarrow> (\<exists>k p. (k, p) \<in> set files' \<and> entry \<in> set p)" by force
      also have "\<dots> \<longleftrightarrow> (\<exists>k. k \<in> set ?ids \<and> entry \<in> set (parse_wal_file (wal k)))" unfolding bt_get_Some_iff[OF ok, symmetric] got by auto
      finally show ?thesis unfolding wal_ids_set[OF n] by blast
    qed
    obtain r3 s3 where a: "pfold ?es (affected_step ops limits g q) [] ?s2 = (r3, s3)" by fastforce
    note A = affected_run[OF a]
    have rest: "pbind (pfold ?es (affected_step ops limits g q) []) (\<lambda>affected. pbind (pfold affected (resolve_step ops g snap q) []) (\<lambda>states. preturn (TailComplete states))) ?s2 = (r, s')"
      using run f cf go unfolding walk_wal_tail_def Let_def by (simp add: pbind_def)
    have c3: "wal_cache_ok wal (ws_cache s3)" using A c2 by simp
    show ?thesis
    proof (cases r3)
      case (Inl e)
      then have "s' = s3" "r = Inl e" using rest a by (simp_all add: pbind_def)
      then show ?thesis using c3 by simp
    next
      case (Inr affected)
      have aff: "e \<in> set affected \<longleftrightarrow> tail_touches wal g q n e" for e
      proof -
        have "set affected = {e. \<exists>entry \<in> set ?es. affected_edge_for g q entry = Inr (Some e)}" using A[THEN conjunct2, rule_format, OF Inr] by simp
        then have "e \<in> set affected \<longleftrightarrow> (\<exists>entry. entry \<in> set ?es \<and> affected_edge_for g q entry = Inr (Some e))" by blast
        then show ?thesis unfolding es tail_touches_def by blast
      qed
      obtain r4 s4 where rs: "pfold affected (resolve_step ops g snap q) [] s3 = (r4, s4)" by fastforce
      note R = resolve_run[where V = V, OF rs overlay_ok_Nil exact]
      have "s' = s4" "r = map_ok TailComplete r4"
        using rest a Inr rs by (cases r4; simp add: pbind_def preturn_def)+
      then show ?thesis using R c3 aff by (auto simp: map_ok_Inr_iff)
    qed
  qed
qed

lemma tail_run:
  assumes run: "topology_tail_since ops limits g snap q s = (r, s')" and cache: "wal_cache_ok wal (ws_cache s)"
    and exact: "\<And>x y b. edge_exists_in_storage_snapshot snap (gi_cell_id g) (gi_edge_type g) x y q = Inr b \<Longrightarrow> b = V x y"
  shows "wal_cache_ok wal (ws_cache s') \<and> (\<forall>W. r = Inr (TailComplete W) \<longrightarrow> sn_seq snap = q \<and> overlay_ok W
    \<and> (q \<le> gi_base_sequence g \<and> W = [] \<or> (\<exists>n w. last_wal_op ops (ws_world s) = (Inr n, w)
      \<and> (\<forall>x y. overlay_state W x y = (if tail_touches wal g q n (x, y) then Some (V x y) else None)))))"
proof (cases "sn_seq snap \<noteq> q \<or> q \<le> gi_base_sequence g")
  case True
  then show ?thesis using run cache unfolding topology_tail_since_def by (auto simp: pif_def preturn_def split: if_splits)
next
  case False
  obtain r1 w where l: "last_wal_op ops (ws_world s) = (r1, w)" by fastforce
  then have o: "on_world (last_wal_op ops) s = (r1, s\<lparr>ws_world := w\<rparr>)" by (simp add: on_world_def)
  let ?s1 = "s\<lparr>ws_world := w\<rparr>"
  have c1: "wal_cache_ok wal (ws_cache ?s1)" using cache by simp
  show ?thesis
  proof (cases r1)
    case (Inl e)
    then show ?thesis using run o cache False unfolding topology_tail_since_def by (auto simp: pif_def pbind_def)
  next
    case (Inr n)
    have rest: "pif (n \<le> gi_last_wal_id g) (preturn (TailComplete []))
        (pif (wl_max_wal_tail_files limits < saturating_sub n (gi_last_wal_id g)) (preturn TailUnavailable) (walk_wal_tail ops limits g snap q n)) ?s1 = (r, s')"
      using run o False Inr unfolding topology_tail_since_def by (simp add: pif_def pbind_def)
    consider (none) "n \<le> gi_last_wal_id g" "r = Inr (TailComplete [])" "s' = ?s1" | (far) "r = Inr TailUnavailable" "s' = ?s1"
      | (walk) "gi_last_wal_id g < n" "walk_wal_tail ops limits g snap q n ?s1 = (r, s')"
      using rest by (auto simp: pif_def preturn_def split: if_splits)
    then show ?thesis
    proof cases
      case none
      then have "\<not> tail_touches wal g q n e" for e by (auto simp: tail_touches_def)
      then show ?thesis using none c1 l Inr False by simp
    next
      case far
      then show ?thesis using c1 by simp
    next
      case walk
      from walk_run[where V = V, OF walk(2) c1 walk(1) exact] l Inr False show ?thesis by auto
    qed
  qed
qed

end

end
