(* ===== verification/Wal_History.thy ===== *)
theory Wal_History
  imports Wal_Tail
begin

text \<open>
  The tail of the log against the history of the store. A history is a sequence of commits whose changed records are in the log; every edge that appears
  or disappears on the way is touched by a record that the tail collects, so that the overlay of the tail turns the graph at the base of an
  index into the graph of the snapshot: the property \<open>wal_tail_exact\<close>.
\<close>

subsection \<open>What a file is parsed to\<close>

lemma push_append:
  "push_wal_topology_edge c t k x y q ps = ps @ push_wal_topology_edge c t k x y q []"
  "push_wal_segment c t k v q ps = ps @ push_wal_segment c t k v q []"
  by (simp_all add: push_wal_topology_edge_def push_wal_segment_def split: option.split sum.split)

lemma collect_append: "collect_wal_topology_entry row ps = ps @ collect_wal_topology_entry row []"
  unfolding collect_wal_topology_entry_def
  using push_append(1)[of _ _ _ _ _ _ ps] push_append(2)[of _ _ _ _ _ ps]
  by (auto split: sum.split list.split)

lemma parse_wal_set: "set (parse_wal_file rows) = (\<Union>row \<in> set rows. set (collect_wal_topology_entry row []))"
proof -
  have "set (fold collect_wal_topology_entry rows ps) = set ps \<union> (\<Union>row \<in> set rows. set (collect_wal_topology_entry row []))" for ps
  proof (induction rows arbitrary: ps)
    case (Cons row rows)
    have "set (collect_wal_topology_entry row ps) = set ps \<union> set (collect_wal_topology_entry row [])"
      by (subst collect_append) simp
    then show ?case using Cons.IH by (simp add: Un_assoc)
  qed simp
  then show ?thesis by (simp add: parse_wal_file_def)
qed

fun collected :: "graph_key \<Rightarrow> bytes option \<Rightarrow> u64 \<Rightarrow> wal_topology_entry list" where
  "collected (KOutEdge c t x y) v q = [\<lparr>we_cell_id = c, we_edge_type = t, we_seq = q, we_decoded = WalEdge x y\<rparr>]"
| "collected (KOutTombstone c t x y) v q = [\<lparr>we_cell_id = c, we_edge_type = t, we_seq = q, we_decoded = WalEdge x y\<rparr>]"
| "collected (KOutSegment c t x r h) v q = push_wal_segment c t (out_segment c t x r h) v q []"
| "collected _ v q = []"

lemma collect_render:
  assumes "valid_key k" "wr_key row = render k"
  shows "collect_wal_topology_entry row [] = collected k (wr_value row) (wr_seq row)"
proof -
  have u: "from_utf8 (wr_key row) = Inr (render k)" unfolding assms(2) by (rule from_utf8_valid) (simp add: ascii_utf8_valid assms(1))
  show ?thesis
    unfolding collect_wal_topology_entry_def u sum.case split_render[OF assms(1)]
    by (cases k) (simp_all add: push_wal_topology_edge_def split: list.split)
qed

lemma collected_segment:
  assumes "valid_component c" "valid_component t" "valid_component h" "8 * length ds < 2 ^ 64"
  shows "collected (KOutSegment c t x r h) (Some (encode_out_edge_segment_records ds)) q
    = map (\<lambda>y. \<lparr>we_cell_id = c, we_edge_type = t, we_seq = q, we_decoded = WalEdge x y\<rparr>) ds"
  using decode_segment_encode[OF assms] by (simp add: push_wal_segment_def)

subsection \<open>Commits and their log records\<close>

definition segments_grow :: "map_txn shard_state \<Rightarrow> map_txn shard_state \<Rightarrow> bool" where
  "segments_grow s s' \<longleftrightarrow> (\<forall>c t x r h. valid_component c \<longrightarrow> valid_component t \<longrightarrow> valid_component h \<longrightarrow>
     kview (db s) (KOutSegment c t x r h) \<noteq> None \<longrightarrow> kview (db s') (KOutSegment c t x r h) = kview (db s) (KOutSegment c t x r h))"

text \<open>The log has every record a commit changed, under the sequence of the commit.\<close>

definition logged :: "wal_row set \<Rightarrow> map_txn shard_state \<Rightarrow> map_txn shard_state \<Rightarrow> bool" where
  "logged L s s' \<longleftrightarrow> (\<forall>k. bt_get (db s') k \<noteq> bt_get (db s) k \<longrightarrow> \<lparr>wr_key = k, wr_value = bt_get (db s') k, wr_seq = seq s'\<rparr> \<in> L)"

text \<open>A commit: a transaction that writes or deletes an edge; an import, which adds segments; or maintenance, which keeps the graph, as compaction
  does.\<close>

inductive topology_commit :: "shard_env \<Rightarrow> vertex_id \<Rightarrow> map_txn shard_state \<Rightarrow> map_txn shard_state \<Rightarrow> bool" for sh z where
  written: "write_edge_txn_locked_with_metadata map_ops sh m us em oper s = (Inr x, s') \<Longrightarrow> valid_mutation m \<Longrightarrow> wf_updates us \<Longrightarrow>
    wf_edge_metadata em \<Longrightarrow> oper \<noteq> ''drop_cell'' \<Longrightarrow> em_src m \<noteq> z \<Longrightarrow> em_dst m \<noteq> z \<Longrightarrow> topology_commit sh z s s'"
| deleted: "delete_edge_txn_locked map_ops sh m s = (Inr y, s') \<Longrightarrow> valid_mutation m \<Longrightarrow> topology_commit sh z s s'"
| imported: "store_inv sh z s' \<Longrightarrow> seq s < seq s' \<Longrightarrow> segments_grow s s' \<Longrightarrow> topology_commit sh z s s'"
| maintained: "store_inv sh z s' \<Longrightarrow> seq s \<le> seq s' \<Longrightarrow>
    (\<And>c t. valid_component c \<Longrightarrow> valid_component t \<Longrightarrow> graph_of s' c t = graph_of s c t) \<Longrightarrow> topology_commit sh z s s'"

inductive logged_history :: "shard_env \<Rightarrow> vertex_id \<Rightarrow> wal_row set \<Rightarrow> map_txn shard_state \<Rightarrow> map_txn shard_state \<Rightarrow> bool" for sh z L s0 where
  base: "logged_history sh z L s0 s0"
| commit: "logged_history sh z L s0 s \<Longrightarrow> topology_commit sh z s s' \<Longrightarrow> logged L s s' \<Longrightarrow> logged_history sh z L s0 s'"

lemma committed_segments:
  assumes "committed is_meta b s'" "\<And>c t x r h. as_map b (KOutSegment c t x r h) = kview (db s) (KOutSegment c t x r h)"
  shows "segments_grow s s'"
  unfolding segments_grow_def
proof (intro allI impI)
  fix c t x r h assume v: "valid_component c" "valid_component t" "valid_component h"
  have "valid_key (KOutSegment c t x r h)" using v by (simp add: valid_edge_keys)
  then show "kview (db s') (KOutSegment c t x r h) = kview (db s) (KOutSegment c t x r h)" using assms by (simp add: committed_def)
qed

text \<open>What a commit does to the graph: nothing, or it keeps the segments there are.\<close>

lemma commit_cases:
  assumes "topology_commit sh z s s'" "store_inv sh z s"
  shows "store_inv sh z s' \<and> seq s \<le> seq s' \<and>
    ((\<forall>c t. valid_component c \<longrightarrow> valid_component t \<longrightarrow> graph_of s' c t = graph_of s c t) \<or> seq s < seq s' \<and> segments_grow s s')"
  using assms(1)
proof cases
  case (written m us em oper x)
  have wf: "wf_store (db s)" using assms(2) by (simp add: store_inv_def)
  let ?vis = "edge_visible (db s) (em_cell_id m) (em_edge_type m) (em_src m) (seq s) (em_dst m)"
  from write_locked_outcome[OF written(1) wf written(2-5)] show ?thesis
  proof (elim disjE exE conjE)
    assume "unchanged s s'"
    then show ?thesis using unchanged_inv[of s s'] assms(2) by (simp add: same_store_def)
  next
    fix res assume res: "seq s \<noteq> - 1" "(Inr x :: commit_result result) = Inr res" and com: "committed is_meta (put_as (idem_create m) (encode_commit_idempotency m res)
         (if ?vis then opened s else insert_as sh m (seq s + 1) (opened s))) s'"
    have "segments_grow s s'" by (rule committed_segments[OF com]) (simp add: idem_create_def insert_as_map)
    moreover have "seq s' = seq s + 1" using com by (simp add: committed_def insert_as_def Let_def split: if_splits)
    moreover have "store_inv sh z s'"
      using write_locked_step[OF written(1) assms(2) written(2-7)] unchanged_inv(1)[of s s'] assms(2) by blast
    ultimately show ?thesis using checked_add_1_less[OF checked_add_one[OF res(1)]] by (simp add: less_imp_le)
  qed
next
  case (deleted m y)
  have wf: "wf_store (db s)" and g: "graph_inv sh z (as_map (opened s)) (as_seq (opened s))" using assms(2) by (simp_all add: store_inv_def)
  have i: "type_inv (writes_reverse_index sh) z (as_map (opened s)) (as_seq (opened s)) (em_cell_id m) (em_edge_type m)"
    using g deleted(2) by (simp add: graph_inv_def valid_mutation_def)
  have bt: "bounded_tombstone (opened s) m" using boundedD(2)[OF type_invD(1)[OF i]] by (simp add: bounded_tombstone_def)
  from delete_locked_outcome[OF deleted(1) wf deleted(2) bt] show ?thesis
  proof (elim disjE conjE)
    assume "unchanged s s'"
    then show ?thesis using unchanged_inv[of s s'] assms(2) by (simp add: same_store_def)
  next
    assume res: "seq s \<noteq> - 1" and com: "committed is_meta (after_delete sh m (opened s)) s'"
    have "segments_grow s s'"
      by (rule committed_segments[OF com])
        (auto simp: after_delete_def delete_effect_def Let_def idem_delete_def delete_direct_map delete_segment_map split: option.splits if_splits)
    moreover have "as_seq (after_delete sh m (opened s)) = seq s"
      by (auto simp: after_delete_def delete_effect_def Let_def split: option.splits if_splits)
    then have "seq s' = seq s + 1" using com by (simp add: committed_def)
    moreover have "store_inv sh z s'"
      using delete_locked_step[OF deleted(1) assms(2) deleted(2)] unchanged_inv(1)[of s s'] assms(2) by blast
    ultimately show ?thesis using checked_add_1_less[OF checked_add_one[OF res]] by (simp add: less_imp_le)
  qed
next
  case imported
  then show ?thesis by simp
next
  case maintained
  then show ?thesis by blast
qed

text \<open>A log record that touches an edge.\<close>

definition touches :: "string \<Rightarrow> string \<Rightarrow> vertex_id \<Rightarrow> vertex_id \<Rightarrow> wal_row \<Rightarrow> bool" where
  "touches c t x y row \<longleftrightarrow> wr_key row = render (KOutEdge c t x y) \<or> wr_key row = render (KOutTombstone c t x y)
     \<or> (\<exists>r h ds. valid_component h \<and> 8 * length ds < 2 ^ 64 \<and> wr_key row = render (KOutSegment c t x r h)
          \<and> wr_value row = Some (encode_out_edge_segment_records ds) \<and> y \<in> set ds)"

lemma touches_collected:
  assumes v: "valid_component c" "valid_component t" and "touches c t x y row"
  shows "\<lparr>we_cell_id = c, we_edge_type = t, we_seq = wr_seq row, we_decoded = WalEdge x y\<rparr> \<in> set (collect_wal_topology_entry row [])"
proof -
  note k = valid_edge_keys[OF v]
  from assms(3) consider (out) "wr_key row = render (KOutEdge c t x y)" | (tomb) "wr_key row = render (KOutTombstone c t x y)"
    | (seg) r h ds where "valid_component h" "8 * length ds < 2 ^ 64" "wr_key row = render (KOutSegment c t x r h)"
        "wr_value row = Some (encode_out_edge_segment_records ds)" "y \<in> set ds"
    unfolding touches_def by blast
  then show ?thesis
  proof cases
    case out
    have "valid_key (KOutEdge c t x y)" by (simp add: k)
    from collect_render[OF this out] show ?thesis by simp
  next
    case tomb
    have "valid_key (KOutTombstone c t x y)" by (simp add: k)
    from collect_render[OF this tomb] show ?thesis by simp
  next
    case (seg r h ds)
    have "valid_key (KOutSegment c t x r h)" using v seg(1) by (simp add: valid_edge_keys)
    from collect_render[OF this seg(3)] collected_segment[OF v seg(1,2), of x r "wr_seq row"] seg(4,5) show ?thesis by simp
  qed
qed

lemma same_segments_visible:
  assumes out: "f (KOutEdge c t x y) = g (KOutEdge c t x y)" and tomb: "f (KOutTombstone c t x y) = g (KOutTombstone c t x y)"
    and seg: "\<And>r h ds. valid_component h \<Longrightarrow> f (KOutSegment c t x r h) = Some (encode_out_edge_segment_records ds) \<Longrightarrow> y \<in> set ds \<Longrightarrow>
      g (KOutSegment c t x r h) = Some (encode_out_edge_segment_records ds)"
    and vis: "visible_in f c t x q y"
  shows "visible_in g c t x q y"
proof (cases "f (KOutEdge c t x y) = None")
  case False
  then show ?thesis using out by (simp add: visible_in_def)
next
  case True
  then obtain r where r: "segment_in f c t x q y r" using vis by (auto simp: visible_in_def)
  then obtain h ds where h: "valid_component h" "f (KOutSegment c t x r h) = Some (encode_out_edge_segment_records ds)" "y \<in> set ds"
    by (auto simp: segment_in_def)
  have "segment_in g c t x q y r"
    unfolding segment_in_def tomb[symmetric]
  proof (intro conjI)
    show "\<exists>h ds. valid_component h \<and> g (KOutSegment c t x r h) = Some (encode_out_edge_segment_records ds) \<and> y \<in> set ds"
      using h(1,3) seg[OF h] by blast
  qed (use r in \<open>simp_all add: segment_in_def\<close>)
  then show ?thesis by (auto simp: visible_in_def)
qed

text \<open>An edge that a commit adds or removes is touched by a record of its log.\<close>

lemma commit_touches:
  assumes inv: "store_inv sh z s" "store_inv sh z s'" and le: "seq s \<le> seq s'" and grow: "segments_grow s s'" and log: "logged L s s'"
    and v: "valid_component c" "valid_component t" and ch: "(x, y) \<in> graph_of s' c t \<longleftrightarrow> (x, y) \<notin> graph_of s c t"
  shows "\<exists>row \<in> L. wr_seq row = seq s' \<and> touches c t x y row"
proof (rule ccontr)
  assume no: "\<not> (\<exists>row \<in> L. wr_seq row = seq s' \<and> touches c t x y row)"
  note k = valid_edge_keys[OF v]
  let ?f = "kview (db s)" and ?g = "kview (db s')"
  have row: "\<lparr>wr_key = render j, wr_value = ?g j, wr_seq = seq s'\<rparr> \<in> L" if "?g j \<noteq> ?f j" for j
    using log that unfolding logged_def kview_def by blast
  have same: "?g j = ?f j" if "j = KOutEdge c t x y \<or> j = KOutTombstone c t x y" for j
  proof (rule ccontr)
    assume "?g j \<noteq> ?f j"
    from row[OF this] no that show False unfolding touches_def by fastforce
  qed
  have seg: "?f (KOutSegment c t x r h) = Some (encode_out_edge_segment_records ds)"
    if h: "valid_component h" "?g (KOutSegment c t x r h) = Some (encode_out_edge_segment_records ds)" "y \<in> set ds" for r h ds
  proof (rule ccontr)
    assume ne: "?f (KOutSegment c t x r h) \<noteq> Some (encode_out_edge_segment_records ds)"
    have wf: "wf_store (db s')" using inv(2) by (simp add: store_inv_def)
    have vk: "valid_key (KOutSegment c t x r h)" using v h(1) by (simp add: valid_edge_keys)
    from wf_store_record[OF wf vk h(2)] inj_encode_segment have "8 * length ds < 2 ^ 64" by (auto simp: inj_eq)
    moreover have "\<lparr>wr_key = render (KOutSegment c t x r h), wr_value = Some (encode_out_edge_segment_records ds), wr_seq = seq s'\<rparr> \<in> L"
      using row[of "KOutSegment c t x r h"] h(2) ne by metis
    ultimately show False using no h(1,3) unfolding touches_def by fastforce
  qed
  have seg': "?g (KOutSegment c t x r h) = Some (encode_out_edge_segment_records ds)"
    if "valid_component h" "?f (KOutSegment c t x r h) = Some (encode_out_edge_segment_records ds)" for r h ds
    using grow v that unfolding segments_grow_def by (metis option.distinct(1))
  have "type_inv (writes_reverse_index sh) z ?f (seq s) c t" using inv(1) v by (simp add: store_inv_def graph_inv_def)
  then have "bounded ?f (seq s) c t" by (rule type_invD(1))
  then have late: "visible_in ?f c t x (seq s') y \<longleftrightarrow> visible_in ?f c t x (seq s) y" by (rule visible_in_later[OF _ le])
  have "visible_in ?g c t x (seq s') y \<longleftrightarrow> visible_in ?f c t x (seq s') y"
  proof
    assume "visible_in ?g c t x (seq s') y"
    then show "visible_in ?f c t x (seq s') y" by (rule same_segments_visible[rotated -1]) (use same seg in simp_all)
  next
    assume "visible_in ?f c t x (seq s') y"
    then show "visible_in ?g c t x (seq s') y" by (rule same_segments_visible[rotated -1]) (use same seg' in simp_all)
  qed
  then show False using ch late by (simp add: graph_of_def edges_in_def)
qed

lemma history_touches:
  assumes "logged_history sh z L s0 s" "store_inv sh z s0"
  shows "store_inv sh z s \<and> seq s0 \<le> seq s \<and> (\<forall>c t x y. valid_component c \<longrightarrow> valid_component t \<longrightarrow> ((x, y) \<in> graph_of s c t \<longleftrightarrow> (x, y) \<notin> graph_of s0 c t) \<longrightarrow>
    (\<exists>row \<in> L. seq s0 < wr_seq row \<and> wr_seq row \<le> seq s \<and> touches c t x y row))"
  using assms(1)
proof induction
  case base
  then show ?case using assms(2) by simp
next
  case (commit s s')
  have inv: "store_inv sh z s" and le: "seq s0 \<le> seq s" using commit.IH by blast+
  note C = commit_cases[OF commit.hyps(2) inv]
  have inv': "store_inv sh z s'" and le': "seq s \<le> seq s'" using C by blast+
  have "\<exists>row \<in> L. seq s0 < wr_seq row \<and> wr_seq row \<le> seq s' \<and> touches c t x y row"
    if v: "valid_component c" "valid_component t" and ch: "(x, y) \<in> graph_of s' c t \<longleftrightarrow> (x, y) \<notin> graph_of s0 c t" for c t x y
  proof (cases "(x, y) \<in> graph_of s' c t \<longleftrightarrow> (x, y) \<in> graph_of s c t")
    case True
    then obtain row where "row \<in> L" "seq s0 < wr_seq row" "wr_seq row \<le> seq s" "touches c t x y row" using commit.IH v ch by blast
    then show ?thesis using le' by (meson order_trans)
  next
    case False
    then have grow: "seq s < seq s'" "segments_grow s s'" using C v by auto
    from commit_touches[OF inv inv' le' grow(2) commit.hyps(3) v] False
    obtain row where "row \<in> L" "wr_seq row = seq s'" "touches c t x y row" by blast
    then show ?thesis using le grow(1) by (intro bexI[of _ row]) auto
  qed
  then show ?case using inv' order_trans[OF le le'] by blast
qed

subsection \<open>A log that can be read\<close>

definition steady_ops :: "(u64 \<Rightarrow> wal_row list) \<Rightarrow> u64 \<Rightarrow> unit wal_ops" where
  "steady_ops wal n = \<lparr>budget_op = (\<lambda>_ w. (Inr (), w)), last_wal_op = (\<lambda>w. (Inr n, w)), wal_file_op = (\<lambda>k w. (Some (Inr (wal k)), w))\<rparr>"

interpretation steady: wal_reader "steady_ops wal n" wal for wal n
  by unfold_locales (simp add: steady_ops_def)

lemma steady_simps [simp]:
  "on_world (budget_op (steady_ops wal n) oper) st = (Inr (), st)" "on_world (last_wal_op (steady_ops wal n)) st = (Inr n, st)"
  "on_world (wal_file_op (steady_ops wal n) k) st = (Some (Inr (wal k)), st)"
  by (simp_all add: on_world_def steady_ops_def)

lemma steady_fetch: "\<exists>F. fetch_missing (steady_ops wal n) missing files st = (Inr (Some F), st)"
  by (induction missing arbitrary: files) (simp_all add: fetch_wal_file_def pbind_def preturn_def)

lemma steady_affected:
  assumes "\<forall>entry \<in> set entries. \<exists>x y. we_decoded entry = WalEdge x y" "wl_max_query_scan_edges limits = - 1"
  shows "\<exists>A. pfold entries (affected_step (steady_ops wal n) limits g q) affected st = (Inr A, st)"
  using assms(1)
proof (induction entries arbitrary: affected)
  case (Cons entry entries)
  obtain x y where "we_decoded entry = WalEdge x y" using Cons.prems by auto
  then have "\<exists>a. affected_step (steady_ops wal n) limits g q entry affected st = (Inr a, st)"
    using assms(2) by (auto simp: affected_step_def affected_edge_for_def ensure_limit_def pbind_def plift_def preturn_def Let_def word_order.extremum_strict)
  then obtain a where "affected_step (steady_ops wal n) limits g q entry affected st = (Inr a, st)" by blast
  then show ?case using Cons.IH[of a] Cons.prems by (simp add: pbind_def)
qed (simp add: preturn_def)

lemma steady_resolve:
  assumes "wf_store m" "valid_component (gi_cell_id g)" "valid_component (gi_edge_type g)"
  shows "\<exists>W'. pfold edges (resolve_step (steady_ops wal n) g (snapshot_of m q) q) W st = (Inr W', st)"
proof (induction edges arbitrary: W)
  case (Cons e edges)
  obtain x y where "e = (x, y)" by fastforce
  then have "\<exists>a. resolve_step (steady_ops wal n) g (snapshot_of m q) q e W st = (Inr a, st)"
    by (simp add: resolve_step_def edge_exists_exact[OF assms] pbind_def plift_def preturn_def)
  then obtain a where "resolve_step (steady_ops wal n) g (snapshot_of m q) q e W st = (Inr a, st)" by blast
  then show ?case using Cons.IH[of a] by (simp add: pbind_def)
qed (simp add: preturn_def)

text \<open>On a log that can be read and whose records are well-formed, within the limits, the tail is complete.\<close>

lemma steady_returns:
  assumes wf: "wf_store m" "valid_component (gi_cell_id g)" "valid_component (gi_edge_type g)" and cache: "wal_cache_ok wal (ws_cache st)"
    and clean: "\<And>k entry. entry \<in> set (parse_wal_file (wal k)) \<Longrightarrow> \<exists>x y. we_decoded entry = WalEdge x y"
    and limits: "wl_max_query_scan_edges limits = - 1" "saturating_sub n (gi_last_wal_id g) \<le> wl_max_wal_tail_files limits"
    and new: "gi_base_sequence g < q" "gi_last_wal_id g < n"
  shows "\<exists>W st'. topology_tail_since (steady_ops wal n) limits g (snapshot_of m q) q st = (Inr (TailComplete W), st')"
proof -
  obtain files missing where cf: "cached_files (ws_cache st) (wal_ids_between (saturating_add (gi_last_wal_id g) 1) n) = (files, missing)" by fastforce
  note C = cached_files_spec[OF cf]
  obtain F where F: "fetch_missing (steady_ops wal n) missing files st = (Inr (Some F), st)" using steady_fetch by blast
  have FR: "bt_ok F" "\<And>k. bt_get F k = (if k \<in> set missing then Some (parse_wal_file (wal k)) else bt_get files k)"
    using steady.fetch_missing_run[OF F C(1)] by blast+
  have "p = parse_wal_file (wal k)" if "(k, p) \<in> set F" for k p
  proof -
    have "bt_get F k = Some p" using that bt_get_Some_iff[OF FR(1)] by simp
    then show ?thesis using FR(2)[of k] C(2)[of k] cache unfolding wal_cache_ok_def wal_cache_get_def by (auto split: if_splits)
  qed
  then have es: "\<forall>entry \<in> set (concat (map snd F)). \<exists>x y. we_decoded entry = WalEdge x y" using clean by fastforce
  let ?s = "st\<lparr>ws_cache := cache_fetched F missing (ws_cache st)\<rparr>"
  obtain A where A: "pfold (concat (map snd F)) (affected_step (steady_ops wal n) limits g q) [] ?s = (Inr A, ?s)" using steady_affected[OF es limits(1)] by blast
  obtain W where W: "pfold A (resolve_step (steady_ops wal n) g (snapshot_of m q) q) [] ?s = (Inr W, ?s)" using steady_resolve[OF wf] by blast
  have "walk_wal_tail (steady_ops wal n) limits g (snapshot_of m q) q n st = (Inr (TailComplete W), ?s)"
    unfolding walk_wal_tail_def Let_def cf using F A W by (simp add: pbind_def preturn_def)
  moreover have "\<not> q \<le> gi_base_sequence g" "\<not> n \<le> gi_last_wal_id g" "\<not> wl_max_wal_tail_files limits < saturating_sub n (gi_last_wal_id g)"
    using new limits(2) by (simp_all add: linorder_not_le linorder_not_less)
  ultimately have "topology_tail_since (steady_ops wal n) limits g (snapshot_of m q) q st = (Inr (TailComplete W), ?s)"
    unfolding topology_tail_since_def by (simp add: pif_def pbind_def snapshot_of_def)
  then show ?thesis by blast
qed

lemma collected_clean:
  assumes "valid_key k" "wf_record k v" "entry \<in> set (collected k (Some v) q)"
  shows "\<exists>x y. we_decoded entry = WalEdge x y"
proof (cases "\<exists>c t x r h. k = KOutSegment c t x r h")
  case True
  then obtain c t x r h where k: "k = KOutSegment c t x r h" by blast
  then obtain ds where ds: "v = encode_out_edge_segment_records ds" "8 * length ds < 2 ^ 64" using assms(2) by auto
  have "valid_component c" "valid_component t" "valid_component h" using assms(1) unfolding k valid_key_def by simp_all
  from collected_segment[OF this ds(2), of x r q] assms(3) show ?thesis unfolding k ds(1) by auto
next
  case False
  then show ?thesis using assms(3) by (cases k) auto
qed

subsection \<open>Property\<close>

definition rows_between :: "(u64 \<Rightarrow> wal_row list) \<Rightarrow> u64 \<Rightarrow> u64 \<Rightarrow> wal_row set" where
  "rows_between wal lo n = {row. \<exists>k. lo < k \<and> k \<le> n \<and> row \<in> set (wal k)}"

lemma touched_in_tail:
  assumes "row \<in> rows_between wal (gi_last_wal_id g) n" "gi_base_sequence g < wr_seq row" "wr_seq row \<le> q"
    and "valid_component (gi_cell_id g)" "valid_component (gi_edge_type g)" "touches (gi_cell_id g) (gi_edge_type g) x y row"
  shows "tail_touches wal g q n (x, y)"
proof -
  let ?e = "\<lparr>we_cell_id = gi_cell_id g, we_edge_type = gi_edge_type g, we_seq = wr_seq row, we_decoded = WalEdge x y\<rparr>"
  obtain k where k: "gi_last_wal_id g < k" "k \<le> n" "row \<in> set (wal k)" using assms(1) by (auto simp: rows_between_def)
  have "?e \<in> set (parse_wal_file (wal k))" unfolding parse_wal_set using k(3) touches_collected[OF assms(4-6)] by blast
  moreover have "affected_edge_for g q ?e = Inr (Some (x, y))" using assms(2,3) by (simp add: affected_edge_for_def linorder_not_le linorder_not_less)
  ultimately show ?thesis unfolding tail_touches_def using k(1,2) by blast
qed

text \<open>C5 (wal_tail_exact). The tail of the log behind an index, for an index whose base is the store at one moment of a history of commits and a snapshot pinned
  at a later moment, when the files after the log position of the index have the records of the history: a tail that is complete is an overlay that turns the
  edges of the index into the edges of the snapshot, and says of every pair it has whether the snapshot has the edge. Whatever the call
  returns, the cache of parsed files stays true to the log and within its bound.\<close>

theorem wal_tail_exact:
  assumes "wal_reader ops wal" "wal_cache_ok wal (ws_cache st)" "pinned snap (db s)" "sn_seq snap = seq s"
    and "store_inv sh z s0" "gi_base_sequence g = seq s0" "valid_component (gi_cell_id g)" "valid_component (gi_edge_type g)"
    and "logged_history sh z L s0 s" "\<And>n w. last_wal_op ops (ws_world st) = (Inr n, w) \<Longrightarrow> L \<subseteq> rows_between wal (gi_last_wal_id g) n"
    and "topology_tail_since ops limits g snap q st = (r, st')"
  shows "wal_cache_ok wal (ws_cache st')
    \<and> (\<forall>W. r = Inr (TailComplete W) \<longrightarrow> overlay_ok W
         \<and> effective W (graph_of s0 (gi_cell_id g) (gi_edge_type g)) = graph_of s (gi_cell_id g) (gi_edge_type g)
         \<and> (\<forall>x y b. overlay_state W x y = Some b \<longrightarrow> (b \<longleftrightarrow> (x, y) \<in> graph_of s (gi_cell_id g) (gi_edge_type g))))"
proof -
  let ?c = "gi_cell_id g" and ?t = "gi_edge_type g"
  let ?G = "graph_of s ?c ?t" and ?Old = "graph_of s0 ?c ?t" and ?V = "\<lambda>x y. edge_visible (db s) ?c ?t x q y"
  note H = history_touches[OF assms(9,5)]
  have inv: "store_inv sh z s" and le: "seq s0 \<le> seq s" using H by blast+
  have wf: "wf_store (db s)" using inv by (simp add: store_inv_def)
  have exact: "b = ?V x y" if "edge_exists_in_storage_snapshot snap ?c ?t x y q = Inr b" for x y b
    using pinned.exists_agrees[OF assms(3) that] edge_exists_exact[OF wf assms(7,8)] by simp
  note T = wal_reader.tail_run[where V = ?V, OF assms(1,11,2) exact]
  have "overlay_ok W \<and> effective W ?Old = ?G \<and> (\<forall>x y b. overlay_state W x y = Some b \<longrightarrow> (b \<longleftrightarrow> (x, y) \<in> ?G))" if res: "r = Inr (TailComplete W)" for W
  proof -
    have q: "q = seq s" and ok: "overlay_ok W" using T res assms(4) by blast+
    have V: "?V x y \<longleftrightarrow> (x, y) \<in> ?G" for x y by (simp add: edge_visible_in graph_of_def edges_in_def q)
    have moved: "\<exists>row \<in> L. seq s0 < wr_seq row \<and> wr_seq row \<le> seq s \<and> touches ?c ?t x y row" if "(x, y) \<in> ?G \<longleftrightarrow> (x, y) \<notin> ?Old" for x y
      using H assms(7,8) that by blast
    from T res have "q \<le> gi_base_sequence g \<and> W = [] \<or> (\<exists>n w. last_wal_op ops (ws_world st) = (Inr n, w)
      \<and> (\<forall>x y. overlay_state W x y = (if tail_touches wal g q n (x, y) then Some (?V x y) else None)))" by blast
    then have "\<forall>x y. overlay_state W x y = Some ((x, y) \<in> ?G) \<or> overlay_state W x y = None \<and> ((x, y) \<in> ?G \<longleftrightarrow> (x, y) \<in> ?Old)"
    proof (elim disjE exE conjE)
      assume "q \<le> gi_base_sequence g" "W = []"
      moreover have "(x, y) \<in> ?G \<longleftrightarrow> (x, y) \<in> ?Old" for x y
      proof (rule ccontr)
        assume "\<not> ((x, y) \<in> ?G \<longleftrightarrow> (x, y) \<in> ?Old)"
        then have "(x, y) \<in> ?G \<longleftrightarrow> (x, y) \<notin> ?Old" by argo
        from moved[OF this] obtain row where "row \<in> L" "seq s0 < wr_seq row" "wr_seq row \<le> seq s" by blast
        then have "seq s0 < seq s" by (elim less_le_trans)
        then show False using \<open>q \<le> gi_base_sequence g\<close> assms(6) q by simp
      qed
      ultimately show ?thesis by simp
    next
      fix n w assume n: "last_wal_op ops (ws_world st) = (Inr n, w)"
        and W: "\<forall>x y. overlay_state W x y = (if tail_touches wal g q n (x, y) then Some (?V x y) else None)"
      have "tail_touches wal g q n (x, y)" if ch: "(x, y) \<in> ?G \<longleftrightarrow> (x, y) \<notin> ?Old" for x y
      proof -
        obtain row where row: "row \<in> L" "seq s0 < wr_seq row" "wr_seq row \<le> seq s" "touches ?c ?t x y row" using moved[OF ch] by blast
        show ?thesis by (rule touched_in_tail[of row]) (use row assms(6-8,10) n q in auto)
      qed
      then show ?thesis using W V by auto
    qed
    then have st: "overlay_state W x y = Some ((x, y) \<in> ?G) \<or> overlay_state W x y = None \<and> ((x, y) \<in> ?G \<longleftrightarrow> (x, y) \<in> ?Old)" for x y by blast
    have "(x, y) \<in> effective W ?Old \<longleftrightarrow> (x, y) \<in> ?G" for x y unfolding effective_iff using st[of x y] by auto
    then have "effective W ?Old = ?G" by (intro set_eqI) (simp add: split_paired_all)
    moreover have "b \<longleftrightarrow> (x, y) \<in> ?G" if "overlay_state W x y = Some b" for x y b using st[of x y] that by auto
    ultimately show ?thesis using ok by blast
  qed
  then show ?thesis using T by blast
qed

subsection \<open>A sample log\<close>

definition sample_wal :: "u64 \<Rightarrow> wal_row list" where
  "sample_wal k = (if k = 1 then map (\<lambda>kv. \<lparr>wr_key = fst kv, wr_value = Some (snd kv), wr_seq = 1\<rparr>) (db sample_store) else [])"

definition sample_tail_state :: "unit wal_shard" where
  "sample_tail_state = \<lparr>ws_world = (), ws_cache = \<lparr>wc_files = [], wc_total_entries = 0\<rparr>\<rparr>"

definition sample_limits :: wal_limits where
  "sample_limits = \<lparr>wl_max_wal_tail_files = 4096, wl_max_query_scan_edges = - 1\<rparr>"

lemma sample_wal_clean:
  assumes "entry \<in> set (parse_wal_file (sample_wal k))"
  shows "\<exists>x y. we_decoded entry = WalEdge x y"
proof -
  from assms obtain row where row: "row \<in> set (sample_wal k)" "entry \<in> set (collect_wal_topology_entry row [])" unfolding parse_wal_set by blast
  then obtain b v where bv: "(b, v) \<in> set (db sample_store)" "row = \<lparr>wr_key = b, wr_value = Some v, wr_seq = 1\<rparr>"
    by (auto simp: sample_wal_def split: if_splits)
  obtain j where j: "valid_key j" "b = render j" using bv(1) sample_floor(3) unfolding wf_store_def well_keyed_def by fastforce
  have "bt_ok (db sample_store)" using sample_floor(3) by simp
  then have "kview (db sample_store) j = Some v" using bv(1) bt_get_Some_iff[of "db sample_store"] unfolding kview_def j(2) by simp
  from wf_store_record[OF sample_floor(3) j(1) this] have "wf_record j v" .
  moreover have "entry \<in> set (collected j (Some v) 1)" using row(2) collect_render[OF j(1), of row] bv(2) j(2) by simp
  ultimately show ?thesis using collected_clean[OF j(1)] by blast
qed

lemma sample_logged: "logged_history sample_env 9 (rows_between sample_wal 0 1) empty_shard sample_store"
proof -
  have "store_inv sample_env 9 sample_store"
    using run_op_inv[OF exact.txn_faults_axioms, of sample_env 9 empty_shard "WriteEdge sample_write"] empty_inv
    by (simp add: sample_store_def sample_write_def)
  moreover have "seq empty_shard < seq sample_store" using sample_graph(1) sample_floor(2) by simp
  moreover have "segments_grow empty_shard sample_store" by (simp add: segments_grow_def empty_shard_def empty_txn_def)
  ultimately have step: "topology_commit sample_env 9 empty_shard sample_store" by (rule topology_commit.imported)
  have "logged (rows_between sample_wal 0 1) empty_shard sample_store" unfolding logged_def
  proof (intro allI impI)
    fix k assume ne: "bt_get (db sample_store) k \<noteq> bt_get (db empty_shard) k"
    have "bt_get (db empty_shard) k = None" by (simp add: empty_shard_def empty_txn_def)
    then obtain v where v: "bt_get (db sample_store) k = Some v" using ne by auto
    have "bt_ok (db sample_store)" using sample_floor(3) by simp
    from bt_get_Some_iff[OF this, THEN iffD1, OF v] have "\<lparr>wr_key = k, wr_value = Some v, wr_seq = 1\<rparr> \<in> set (sample_wal 1)"
      by (force simp: sample_wal_def)
    then show "\<lparr>wr_key = k, wr_value = bt_get (db sample_store) k, wr_seq = seq sample_store\<rparr> \<in> rows_between sample_wal 0 1"
      unfolding v sample_floor(2) rows_between_def by (intro CollectI exI[of _ 1]) simp
  qed
  from logged_history.commit[OF logged_history.base step this] show ?thesis .
qed

text \<open>Witness of C5 (wal_tail_exact): one log file with the records of one write, behind the empty index.\<close>

theorem wal_tail_exact_witness:
  "\<exists>W st'. topology_tail_since (steady_ops sample_wal 1) sample_limits sample_index (snapshot_of (db sample_store) 1) 1 sample_tail_state = (Inr (TailComplete W), st')
     \<and> overlay_ok W \<and> effective W {} = {(1, 2)} \<and> wal_cache_ok sample_wal (ws_cache st')"
proof -
  have i: "gi_cell_id sample_index = ''c''" "gi_edge_type sample_index = ''T''" "gi_base_sequence sample_index = 0" "gi_last_wal_id sample_index = 0"
    by (simp_all add: sample_index_def)
  have v: "valid_component (gi_cell_id sample_index)" "valid_component (gi_edge_type sample_index)" using sample_valid i by simp_all
  have cache: "wal_cache_ok sample_wal (ws_cache sample_tail_state)" by (simp add: wal_cache_ok_def sample_tail_state_def)
  have "\<exists>W st'. topology_tail_since (steady_ops sample_wal 1) sample_limits sample_index (snapshot_of (db sample_store) 1) 1 sample_tail_state = (Inr (TailComplete W), st')"
    by (rule steady_returns[OF sample_floor(3) v cache]) (erule sample_wal_clean, simp_all add: i sample_limits_def saturating_sub_def)
  then obtain W st' where run: "topology_tail_since (steady_ops sample_wal 1) sample_limits sample_index (snapshot_of (db sample_store) 1) 1 sample_tail_state = (Inr (TailComplete W), st')"
    by blast
  have base: "gi_base_sequence sample_index = seq empty_shard" using i sample_graph(1) by simp
  have at: "sn_seq (snapshot_of (db sample_store) 1) = seq sample_store" using sample_floor(2) by (simp add: snapshot_of_def)
  have log: "rows_between sample_wal 0 1 \<subseteq> rows_between sample_wal (gi_last_wal_id sample_index) n"
    if "last_wal_op (steady_ops sample_wal 1) (ws_world sample_tail_state) = (Inr n, w)" for n w using that i by (simp add: steady_ops_def)
  note th = wal_tail_exact[OF steady.wal_reader_axioms cache exact_snapshot.pinned_axioms at empty_inv[of sample_env 9] base v sample_logged log run]
  then show ?thesis using run sample_graph(2,3) i by auto
qed

end
