(* ===== verification/Bolt_Wire.thy ===== *)
theory Bolt_Wire
  imports Rust_Text "HOL-Library.Word"
begin

unbundle bit_operations_syntax

text \<open>
  The wire side of the Bolt server, \<^verbatim>\<open>src/client/bolt/wire.rs\<close>: the handshake that fixes the protocol version, and the
  check that a message holds exactly the PackStream values its signature asks for, nested no deeper than the limit. A
  message is a list of bytes; a connection is what is left to read and what was written, and a read beyond the end is an
  I/O error. Writes are taken to succeed: a failed one only ends the connection. The markers and signatures are constants
  of the crate \<^verbatim>\<open>boltr\<close>, so they are parameters.
\<close>

type_synonym u8 = "8 word"

datatype bolt_error = BoltProtocol string | BoltIo

type_synonym 'a bolt_result = "bolt_error + 'a"

definition fmt_02x :: "u8 \<Rightarrow> string" where
  "fmt_02x b = [digit_char (unat b div 16), digit_char (unat b mod 16)]"

subsection \<open>Messages\<close>

record packstream_markers =
  pm_null :: u8
  pm_false :: u8
  pm_true :: u8
  pm_float_64 :: u8
  pm_int_8 :: u8
  pm_int_16 :: u8
  pm_int_32 :: u8
  pm_int_64 :: u8
  pm_bytes_8 :: u8
  pm_bytes_16 :: u8
  pm_bytes_32 :: u8
  pm_string_8 :: u8
  pm_string_16 :: u8
  pm_string_32 :: u8
  pm_list_8 :: u8
  pm_list_16 :: u8
  pm_list_32 :: u8
  pm_dict_8 :: u8
  pm_dict_16 :: u8
  pm_dict_32 :: u8
  pm_tiny_string_nibble :: u8
  pm_tiny_list_nibble :: u8
  pm_tiny_dict_nibble :: u8
  pm_tiny_struct_nibble :: u8

record bolt_signatures =
  sig_hello :: u8
  sig_logon :: u8
  sig_pull :: u8
  sig_discard :: u8
  sig_begin :: u8
  sig_telemetry :: u8
  sig_run :: u8
  sig_route :: u8
  sig_logoff :: u8
  sig_goodbye :: u8
  sig_reset :: u8
  sig_commit :: u8
  sig_rollback :: u8

definition BOLT_MAX_PACKSTREAM_DEPTH :: nat where
  "BOLT_MAX_PACKSTREAM_DEPTH = 32"

text \<open>Big-endian lengths of one, two or four bytes. They fit a 64-bit \<^verbatim>\<open>usize\<close>, and so does twice a length.\<close>

fun be_value :: "u8 list \<Rightarrow> nat" where
  "be_value [] = 0"
| "be_value (b # bs) = unat b * 256 ^ length bs + be_value bs"

definition read_packstream_length :: "u8 list \<Rightarrow> nat \<Rightarrow> (nat \<times> u8 list) bolt_result" where
  "read_packstream_length input width =
     (if length input < width then Inl (BoltProtocol ''PackStream length ended unexpectedly'')
      else Inr (be_value (take width input), drop width input))"

definition skip_packstream_bytes :: "u8 list \<Rightarrow> nat \<Rightarrow> u8 list bolt_result" where
  "skip_packstream_bytes input len =
     (if length input < len then Inl (BoltProtocol ''PackStream payload ended unexpectedly'') else Inr (drop len input))"

definition checked_dict_values :: "nat \<Rightarrow> nat bolt_result" where
  "checked_dict_values entries =
     (if entries * 2 < 2 ^ 64 then Inr (entries * 2) else Inl (BoltProtocol ''PackStream dictionary is too large''))"

definition push_packstream_container :: "nat list \<Rightarrow> nat \<Rightarrow> nat list bolt_result" where
  "push_packstream_container containers values =
     (if BOLT_MAX_PACKSTREAM_DEPTH \<le> length containers
      then Inl (BoltProtocol (''PackStream nesting exceeds depth limit '' @ to_dec BOLT_MAX_PACKSTREAM_DEPTH))
      else Inr (values # containers))"

definition bbind :: "'a bolt_result \<Rightarrow> ('a \<Rightarrow> 'b bolt_result) \<Rightarrow> 'b bolt_result" where
  "bbind r f = (case r of Inl e \<Rightarrow> Inl e | Inr x \<Rightarrow> f x)"

definition skip_value :: "nat list \<Rightarrow> u8 list \<Rightarrow> nat \<Rightarrow> (nat list \<times> u8 list) bolt_result" where
  "skip_value containers input len = bbind (skip_packstream_bytes input len) (\<lambda>input. Inr (containers, input))"

definition skip_sized :: "nat list \<Rightarrow> u8 list \<Rightarrow> nat \<Rightarrow> (nat list \<times> u8 list) bolt_result" where
  "skip_sized containers input width =
     bbind (read_packstream_length input width) (\<lambda>(len, input). skip_value containers input len)"

definition push_list :: "nat list \<Rightarrow> u8 list \<Rightarrow> nat \<Rightarrow> (nat list \<times> u8 list) bolt_result" where
  "push_list containers input width =
     bbind (read_packstream_length input width) (\<lambda>(len, input).
     bbind (push_packstream_container containers len) (\<lambda>containers. Inr (containers, input)))"

definition push_dict :: "nat list \<Rightarrow> u8 list \<Rightarrow> nat \<Rightarrow> (nat list \<times> u8 list) bolt_result" where
  "push_dict containers input width =
     bbind (read_packstream_length input width) (\<lambda>(len, input).
     bbind (checked_dict_values len) (\<lambda>values.
     bbind (push_packstream_container containers values) (\<lambda>containers. Inr (containers, input))))"

text \<open>The body of one round: what a marker asks of the rest of the input. The innermost container comes first.\<close>

definition packstream_marker :: "packstream_markers \<Rightarrow> u8 \<Rightarrow> nat list \<Rightarrow> u8 list \<Rightarrow> (nat list \<times> u8 list) bolt_result" where
  "packstream_marker mk b cs input =
     (let high = b AND 0xf0; low = unat (b AND 0x0f) in
      if b = pm_null mk \<or> b = pm_false mk \<or> b = pm_true mk then Inr (cs, input)
      else if b = pm_float_64 mk \<or> b = pm_int_64 mk then skip_value cs input 8
      else if b = pm_int_8 mk then skip_value cs input 1
      else if b = pm_int_16 mk then skip_value cs input 2
      else if b = pm_int_32 mk then skip_value cs input 4
      else if b = pm_bytes_8 mk \<or> b = pm_string_8 mk then skip_sized cs input 1
      else if b = pm_bytes_16 mk \<or> b = pm_string_16 mk then skip_sized cs input 2
      else if b = pm_bytes_32 mk \<or> b = pm_string_32 mk then skip_sized cs input 4
      else if b = pm_list_8 mk then push_list cs input 1
      else if b = pm_list_16 mk then push_list cs input 2
      else if b = pm_list_32 mk then push_list cs input 4
      else if b = pm_dict_8 mk then push_dict cs input 1
      else if b = pm_dict_16 mk then push_dict cs input 2
      else if b = pm_dict_32 mk then push_dict cs input 4
      else if b \<le> 0x7f \<or> 0xf0 \<le> b then Inr (cs, input)
      else if high = pm_tiny_string_nibble mk then skip_value cs input low
      else if high = pm_tiny_list_nibble mk then bbind (push_packstream_container cs low) (\<lambda>cs. Inr (cs, input))
      else if high = pm_tiny_dict_nibble mk then
        bbind (checked_dict_values low) (\<lambda>values. bbind (push_packstream_container cs values) (\<lambda>cs. Inr (cs, input)))
      else if high = pm_tiny_struct_nibble mk then
        bbind (skip_packstream_bytes input 1) (\<lambda>input. bbind (push_packstream_container cs low) (\<lambda>cs. Inr (cs, input)))
      else Inl (BoltProtocol (''unknown PackStream marker 0x'' @ fmt_02x b)))"

lemmas marker_defs = packstream_marker_def skip_value_def skip_sized_def push_list_def push_dict_def bbind_def
  read_packstream_length_def skip_packstream_bytes_def checked_dict_values_def push_packstream_container_def

lemma marker_shrinks: "packstream_marker mk b cs input = Inr (cs', input') \<Longrightarrow> length input' \<le> length input"
  unfolding marker_defs Let_def by (auto split: if_splits sum.splits prod.splits)

text \<open>Every round closes a container or reads a marker.\<close>

function packstream_loop :: "packstream_markers \<Rightarrow> nat list \<Rightarrow> u8 list \<Rightarrow> u8 list bolt_result" where
  "packstream_loop mk [] input = Inr input"
| "packstream_loop mk (0 # cs) input = packstream_loop mk cs input"
| "packstream_loop mk (Suc n # cs) [] = Inl (BoltProtocol ''PackStream value ended unexpectedly'')"
| "packstream_loop mk (Suc n # cs) (b # input) =
     (case packstream_marker mk b (n # cs) input of Inl e \<Rightarrow> Inl e | Inr (cs', input') \<Rightarrow> packstream_loop mk cs' input')"
  by pat_completeness auto
termination
  by (relation "measures [\<lambda>(mk, cs, input). length input, \<lambda>(mk, cs, input). length cs]")
     (auto dest: marker_shrinks)

definition validate_packstream_values :: "packstream_markers \<Rightarrow> u8 list \<Rightarrow> nat \<Rightarrow> unit bolt_result" where
  "validate_packstream_values mk input root_values =
     bbind (packstream_loop mk [root_values] input) (\<lambda>rest.
       if rest \<noteq> [] then Inl (BoltProtocol ''Bolt message contains trailing PackStream data'') else Inr ())"

definition expected_bolt_fields :: "bolt_signatures \<Rightarrow> u8 \<Rightarrow> nat bolt_result" where
  "expected_bolt_fields sg tag =
     (if tag \<in> {sig_hello sg, sig_logon sg, sig_pull sg, sig_discard sg, sig_begin sg, sig_telemetry sg} then Inr 1
      else if tag \<in> {sig_run sg, sig_route sg} then Inr 3
      else if tag \<in> {sig_logoff sg, sig_goodbye sg, sig_reset sg, sig_commit sg, sig_rollback sg} then Inr 0
      else Inl (BoltProtocol (''unknown Bolt message signature 0x'' @ fmt_02x tag)))"

text \<open>The decoder of the crate is a parameter; it is reached with checked messages only.\<close>

definition strict_decode_client_message ::
    "packstream_markers \<Rightarrow> bolt_signatures \<Rightarrow> (u8 list \<Rightarrow> 'msg bolt_result) \<Rightarrow> u8 list \<Rightarrow> 'msg bolt_result" where
  "strict_decode_client_message mk sg decode_client_message data =
     (if length data < 2 \<or> data ! 0 AND 0xf0 \<noteq> pm_tiny_struct_nibble mk
      then Inl (BoltProtocol ''Bolt message must be a PackStream structure'')
      else let field_count = unat (data ! 0 AND 0x0f) in
        bbind (expected_bolt_fields sg (data ! 1)) (\<lambda>expected.
          if field_count \<noteq> expected then Inl (BoltProtocol (''Bolt message 0x'' @ fmt_02x (data ! 1) @ '' has ''
            @ to_dec field_count @ '' fields; expected '' @ to_dec expected))
          else bbind (validate_packstream_values mk (drop 2 data) field_count) (\<lambda>_. decode_client_message data)))"

text \<open>The messages of a connection, until one is malformed or the receiver is gone.\<close>

fun read_bolt_messages ::
    "(u8 list \<Rightarrow> 'msg bolt_result) \<Rightarrow> u8 list bolt_result list \<Rightarrow> bool list \<Rightarrow> 'msg bolt_result list" where
  "read_bolt_messages decode (chunk # chunks) sends =
     (case chunk of
        Inr [] \<Rightarrow> read_bolt_messages decode chunks sends
      | _ \<Rightarrow>
          let message = bbind chunk decode; stop = isl message in
          case sends of
            sent # sends \<Rightarrow> if \<not> sent then [] else message # (if stop then [] else read_bolt_messages decode chunks sends)
          | [] \<Rightarrow> [])"
| "read_bolt_messages decode [] sends = []"

subsection \<open>The handshake\<close>

record connection =
  cn_input :: "u8 list"
  cn_output :: "u8 list"

definition BOLT_MAGIC :: "u8 list" where
  "BOLT_MAGIC = [0x60, 0x60, 0xb0, 0x17]"

definition BOLT_MANIFEST_V1 :: "u8 list" where
  "BOLT_MANIFEST_V1 = [0x00, 0x00, 0x01, 0xff]"

definition BOLT_NO_VERSION :: "u8 list" where
  "BOLT_NO_VERSION = [0, 0, 0, 0]"

definition BOLT_SUPPORTED_VERSIONS :: "(u8 \<times> u8) list" where
  "BOLT_SUPPORTED_VERSIONS = [(5, 4), (5, 3), (5, 2), (5, 1)]"

definition matching_bolt_version :: "u8 list \<Rightarrow> (u8 \<times> u8) option" where
  "matching_bolt_version proposal =
     (if length proposal \<noteq> 4 then None
      else let range = proposal ! 1; minor = proposal ! 2; major = proposal ! 3 in
        find (\<lambda>candidate. fst candidate = major \<and> snd candidate \<le> minor \<and> unat minor - unat range \<le> unat (snd candidate))
          BOLT_SUPPORTED_VERSIONS)"

definition exact_bolt_version :: "u8 list \<Rightarrow> (u8 \<times> u8) option" where
  "exact_bolt_version selected =
     (if selected ! 0 \<noteq> 0 \<or> selected ! 1 \<noteq> 0 then None
      else let candidate = (selected ! 3, selected ! 2) in
        if candidate \<in> set BOLT_SUPPORTED_VERSIONS then Some candidate else None)"

definition read_exact :: "nat \<Rightarrow> connection \<Rightarrow> (u8 list bolt_result \<times> connection)" where
  "read_exact n c = (if length (cn_input c) < n then (Inl BoltIo, c\<lparr>cn_input := []\<rparr>)
     else (Inr (take n (cn_input c)), c\<lparr>cn_input := drop n (cn_input c)\<rparr>))"

definition write_all :: "u8 list \<Rightarrow> connection \<Rightarrow> connection" where
  "write_all bs c = c\<lparr>cn_output := cn_output c @ bs\<rparr>"

text \<open>A number in groups of seven bits, the lowest first; every byte but the last has its high bit set.\<close>

function varint_bytes :: "u64 \<Rightarrow> u8 list" where
  "varint_bytes v =
     (let byte = ucast (v AND 0x7f); v' = drop_bit 7 v in
      if v' = 0 then [byte] else (byte OR 0x80) # varint_bytes v')"
  by pat_completeness auto
termination
proof (relation "measure unat")
  fix v :: u64 and x :: u8 and xa :: u64
  assume a: "xa = drop_bit 7 v" "xa \<noteq> 0"
  have "unat (drop_bit 7 v) = unat v div 128" by (simp add: drop_bit_eq_div unat_div_distrib)
  moreover have "v \<noteq> 0" using a by auto
  then have "0 < unat v" by (simp add: unat_gt_0)
  ultimately show "(xa, v) \<in> measure unat" using a by simp
qed simp

declare varint_bytes.simps [simp del]

definition write_varint :: "u64 \<Rightarrow> connection \<Rightarrow> connection" where
  "write_varint v c = write_all (varint_bytes v) c"

definition varint_too_large :: "u64 bolt_result" where
  "varint_too_large = Inl (BoltProtocol ''manifest VarInt is too large'')"

function varint_loop :: "nat \<Rightarrow> u64 \<Rightarrow> connection \<Rightarrow> (u64 bolt_result \<times> connection)" where
  "varint_loop index v c =
     (if 10 \<le> index then (varint_too_large, c)
      else case read_exact 1 c of
        (Inl e, c) \<Rightarrow> (Inl e, c)
      | (Inr bs, c) \<Rightarrow>
          let byte = bs ! 0 in
          if index = 9 \<and> byte AND 0x7e \<noteq> 0 then (varint_too_large, c)
          else let v = v OR push_bit (index * 7) (ucast (byte AND 0x7f)) in
            if byte AND 0x80 = 0 then (Inr v, c) else varint_loop (index + 1) v c)"
  by pat_completeness auto
termination
  by (relation "measure (\<lambda>(index, v, c). 10 - index)") auto

declare varint_loop.simps [simp del]

definition read_varint :: "connection \<Rightarrow> (u64 bolt_result \<times> connection)" where
  "read_varint c = varint_loop 0 0 c"

definition bolt_manifest :: "connection \<Rightarrow> ((u8 \<times> u8) bolt_result \<times> connection)" where
  "bolt_manifest c =
     (let c = write_varint 0 (write_all [0, 3, 4, 5] (write_varint 1 (write_all BOLT_MANIFEST_V1 c))) in
      case read_exact 4 c of
        (Inl e, c) \<Rightarrow> (Inl e, c)
      | (Inr selected, c) \<Rightarrow>
          case read_varint c of
            (Inl e, c) \<Rightarrow> (Inl e, c)
          | (Inr capabilities, c) \<Rightarrow>
              (case exact_bolt_version selected of
                 Some version \<Rightarrow> if capabilities = 0 then Inr version
                   else Inl (BoltProtocol ''client selected an unsupported manifest version or capability'')
               | None \<Rightarrow> Inl (BoltProtocol ''client selected an unsupported manifest version or capability''), c))"

fun bolt_proposals :: "u8 list list \<Rightarrow> connection \<Rightarrow> ((u8 \<times> u8) bolt_result \<times> connection)" where
  "bolt_proposals [] c = (Inl (BoltProtocol ''no compatible Bolt protocol version''), write_all BOLT_NO_VERSION c)"
| "bolt_proposals (proposal # proposals) c =
     (if proposal = BOLT_MANIFEST_V1 then bolt_manifest c
      else case matching_bolt_version proposal of
        Some version \<Rightarrow> (Inr version, write_all [0, 0, snd version, fst version] c)
      | None \<Rightarrow> bolt_proposals proposals c)"

definition chunks_exact_4 :: "u8 list \<Rightarrow> u8 list list" where
  "chunks_exact_4 bs = map (\<lambda>i. take 4 (drop (4 * i) bs)) [0..<length bs div 4]"

definition bolt_server_handshake :: "connection \<Rightarrow> ((u8 \<times> u8) bolt_result \<times> connection)" where
  "bolt_server_handshake c =
     (case read_exact 4 c of
        (Inl e, c) \<Rightarrow> (Inl e, c)
      | (Inr magic, c) \<Rightarrow>
          if magic \<noteq> BOLT_MAGIC then (Inl (BoltProtocol ''invalid Bolt magic preamble''), c)
          else case read_exact 16 c of
            (Inl e, c) \<Rightarrow> (Inl e, c)
          | (Inr proposals, c) \<Rightarrow> bolt_proposals (chunks_exact_4 proposals) c)"

subsection \<open>Nested values\<close>

text \<open>
  The grammar of PackStream, written from the side of the encoder and apart from the check: the bytes of a value without
  parts, and the head of a container of \<open>k\<close> values. A length stands in 1, 2 or 4 bytes, the highest first, and a short
  one in the low half of the marker. A dictionary of \<open>k\<close> entries holds \<open>2 * k\<close> values, and a structure has its tag after
  the marker.
\<close>

fun be_bytes :: "nat \<Rightarrow> nat \<Rightarrow> u8 list" where
  "be_bytes 0 n = []"
| "be_bytes (Suc width) n = be_bytes width (n div 256) @ [word_of_nat n]"

inductive packed_leaf :: "packstream_markers \<Rightarrow> u8 list \<Rightarrow> bool" for mk where
  literal: "b \<in> {pm_null mk, pm_false mk, pm_true mk} \<Longrightarrow> packed_leaf mk [b]"
| tiny_integer: "b \<le> 0x7f \<or> 0xf0 \<le> b \<Longrightarrow> packed_leaf mk [b]"
| number: "(b, width) \<in> {(pm_int_8 mk, 1), (pm_int_16 mk, 2), (pm_int_32 mk, 4), (pm_int_64 mk, 8), (pm_float_64 mk, 8)} \<Longrightarrow>
    length payload = width \<Longrightarrow> packed_leaf mk (b # payload)"
| text_or_bytes: "(b, width) \<in> {(pm_bytes_8 mk, 1), (pm_bytes_16 mk, 2), (pm_bytes_32 mk, 4),
      (pm_string_8 mk, 1), (pm_string_16 mk, 2), (pm_string_32 mk, 4)} \<Longrightarrow>
    length payload < 256 ^ width \<Longrightarrow> packed_leaf mk (b # be_bytes width (length payload) @ payload)"
| tiny_string: "length payload < 16 \<Longrightarrow> packed_leaf mk ((pm_tiny_string_nibble mk OR word_of_nat (length payload)) # payload)"

inductive packed_head :: "packstream_markers \<Rightarrow> nat \<Rightarrow> u8 list \<Rightarrow> bool" for mk where
  list_head: "(b, width) \<in> {(pm_list_8 mk, 1), (pm_list_16 mk, 2), (pm_list_32 mk, 4)} \<Longrightarrow> k < 256 ^ width \<Longrightarrow>
    packed_head mk k (b # be_bytes width k)"
| dict_head: "(b, width) \<in> {(pm_dict_8 mk, 1), (pm_dict_16 mk, 2), (pm_dict_32 mk, 4)} \<Longrightarrow> k < 256 ^ width \<Longrightarrow>
    packed_head mk (2 * k) (b # be_bytes width k)"
| tiny_list: "k < 16 \<Longrightarrow> packed_head mk k [pm_tiny_list_nibble mk OR word_of_nat k]"
| tiny_dict: "k < 16 \<Longrightarrow> packed_head mk (2 * k) [pm_tiny_dict_nibble mk OR word_of_nat k]"
| tiny_struct: "k < 16 \<Longrightarrow> packed_head mk k [pm_tiny_struct_nibble mk OR word_of_nat k, tag]"

text \<open>The bytes of \<open>n\<close> values in sequence, with containers nested at most \<open>room\<close> levels deep.\<close>

inductive packed :: "packstream_markers \<Rightarrow> nat \<Rightarrow> nat \<Rightarrow> u8 list \<Rightarrow> bool" for mk where
  nothing: "packed mk room 0 []"
| leaf: "packed_leaf mk v \<Longrightarrow> packed mk room n vs \<Longrightarrow> packed mk room (Suc n) (v @ vs)"
| container: "packed_head mk k h \<Longrightarrow> packed mk room k items \<Longrightarrow> packed mk (Suc room) n vs \<Longrightarrow>
    packed mk (Suc room) (Suc n) (h @ items @ vs)"

text \<open>
  What PackStream documents of its markers: the ones of a full byte are distinct and lie between the short forms and the
  negative tiny integers, and the short forms have the four nibbles from 8 to B, each its own.
\<close>

definition byte_markers :: "packstream_markers \<Rightarrow> u8 list" where
  "byte_markers mk = [pm_null mk, pm_false mk, pm_true mk, pm_float_64 mk, pm_int_8 mk, pm_int_16 mk, pm_int_32 mk,
     pm_int_64 mk, pm_bytes_8 mk, pm_bytes_16 mk, pm_bytes_32 mk, pm_string_8 mk, pm_string_16 mk, pm_string_32 mk,
     pm_list_8 mk, pm_list_16 mk, pm_list_32 mk, pm_dict_8 mk, pm_dict_16 mk, pm_dict_32 mk]"

definition nibble_markers :: "packstream_markers \<Rightarrow> u8 list" where
  "nibble_markers mk = [pm_tiny_string_nibble mk, pm_tiny_list_nibble mk, pm_tiny_dict_nibble mk, pm_tiny_struct_nibble mk]"

definition documented_markers :: "packstream_markers \<Rightarrow> bool" where
  "documented_markers mk \<longleftrightarrow> distinct (byte_markers mk) \<and> list_all (\<lambda>b. 0xc0 \<le> b \<and> b \<le> 0xef) (byte_markers mk) \<and>
     distinct (nibble_markers mk) \<and> set (nibble_markers mk) = {0x80, 0x90, 0xa0, 0xb0}"

text \<open>The values of the published format.\<close>

definition packstream_v1 :: packstream_markers where
  "packstream_v1 = \<lparr>pm_null = 0xc0, pm_false = 0xc2, pm_true = 0xc3, pm_float_64 = 0xc1, pm_int_8 = 0xc8, pm_int_16 = 0xc9,
     pm_int_32 = 0xca, pm_int_64 = 0xcb, pm_bytes_8 = 0xcc, pm_bytes_16 = 0xcd, pm_bytes_32 = 0xce, pm_string_8 = 0xd0,
     pm_string_16 = 0xd1, pm_string_32 = 0xd2, pm_list_8 = 0xd4, pm_list_16 = 0xd5, pm_list_32 = 0xd6, pm_dict_8 = 0xd8,
     pm_dict_16 = 0xd9, pm_dict_32 = 0xda, pm_tiny_string_nibble = 0x80, pm_tiny_list_nibble = 0x90,
     pm_tiny_dict_nibble = 0xa0, pm_tiny_struct_nibble = 0xb0\<rparr>"

text \<open>What the rounds of the loop read, a leaf or the head of a container at a time.\<close>

inductive consumed :: "packstream_markers \<Rightarrow> nat \<Rightarrow> nat \<Rightarrow> u8 list \<Rightarrow> u8 list \<Rightarrow> bool" for mk where
  nothing: "consumed mk room 0 input input"
| leaf: "packstream_marker mk b [] input = Inr ([], after) \<Longrightarrow> consumed mk room n after rest \<Longrightarrow> consumed mk room (Suc n) (b # input) rest"
| container: "packstream_marker mk b [] input = Inr ([k], after) \<Longrightarrow> consumed mk room k after inner_end \<Longrightarrow>
    consumed mk (Suc room) n inner_end rest \<Longrightarrow> consumed mk (Suc room) (Suc n) (b # input) rest"

lemma be_bytes_length [simp]: "length (be_bytes width n) = width"
  by (induction width arbitrary: n) simp_all

lemma be_value_snoc: "be_value (bs @ [b]) = be_value bs * 256 + unat b"
  by (induction bs) (simp_all add: algebra_simps)

lemma be_value_bytes: "n < 256 ^ width \<Longrightarrow> be_value (be_bytes width n) = n"
proof (induction width arbitrary: n)
  case (Suc width)
  have "unat (word_of_nat n :: u8) = n mod 256" by (simp add: unat_of_nat)
  moreover have "n div 256 < 256 ^ width" using Suc.prems by (simp add: less_mult_imp_div_less mult.commute)
  ultimately show ?case using Suc.IH by (simp add: be_value_snoc)
qed simp

lemma be_bytes_value: "be_bytes (length bs) (be_value bs) = bs"
proof (induction bs rule: rev_induct)
  case (snoc b bs)
  have b: "unat b < 256" using unsigned_less[of b] by simp
  then have "(be_value bs * 256 + unat b) div 256 = be_value bs" by simp
  moreover have "(word_of_nat (be_value bs * 256 + unat b) :: u8) = b"
    unfolding of_nat_eq by (rule exI[of _ "be_value bs"]) simp
  ultimately show ?case using snoc by (simp add: be_value_snoc)
qed simp

lemma be_value_less: "be_value bs < 256 ^ length bs"
proof (induction bs rule: rev_induct)
  case (snoc b bs)
  then have "be_value bs + 1 \<le> 256 ^ length bs" by simp
  then have "(be_value bs + 1) * 256 \<le> 256 ^ length bs * 256" by (rule mult_right_mono) simp
  moreover have "unat b < 256" using unsigned_less[of b, where 'a = nat] by simp
  ultimately show ?case by (simp add: be_value_snoc)
qed simp

text \<open>The steps of a round in terms of the bytes they read.\<close>

lemma skip_value_iff: "skip_value [] input len = Inr r \<longleftrightarrow> (\<exists>p. length p = len \<and> input = p @ snd r) \<and> fst r = []"
proof -
  have "(\<exists>p. length p = len \<and> input = p @ rest) \<longleftrightarrow> len \<le> length input \<and> drop len input = rest" for rest
    by (metis append_eq_conv_conj append_take_drop_id length_append le_add1 length_take min_absorb2)
  then show ?thesis by (cases r) (auto simp: skip_value_def skip_packstream_bytes_def bbind_def not_less)
qed

lemma read_length_iff:
  "read_packstream_length input width = Inr (n, after) \<longleftrightarrow> n < 256 ^ width \<and> input = be_bytes width n @ after"
proof
  assume "read_packstream_length input width = Inr (n, after)"
  then have l: "width \<le> length input" "n = be_value (take width input)" "after = drop width input"
    by (auto simp: read_packstream_length_def split: if_splits)
  then show "n < 256 ^ width \<and> input = be_bytes width n @ after"
    using be_value_less[of "take width input"] be_bytes_value[of "take width input"] by (simp add: min_absorb2)
next
  assume "n < 256 ^ width \<and> input = be_bytes width n @ after"
  then show "read_packstream_length input width = Inr (n, after)" by (simp add: read_packstream_length_def be_value_bytes)
qed

lemma bbind_Inr: "bbind r f = Inr y \<longleftrightarrow> (\<exists>x. r = Inr x \<and> f x = Inr y)"
  by (cases r) (simp_all add: bbind_def)

lemma skip_sized_iff:
  "skip_sized [] input width = Inr r \<longleftrightarrow>
     (\<exists>p. length p < 256 ^ width \<and> input = be_bytes width (length p) @ p @ snd r) \<and> fst r = []"
  unfolding skip_sized_def bbind_Inr by (fastforce simp: read_length_iff skip_value_iff)

lemma push_container_iff: "push_packstream_container [] k = Inr cs \<longleftrightarrow> cs = [k]"
  by (auto simp: push_packstream_container_def BOLT_MAX_PACKSTREAM_DEPTH_def)

lemma push_list_iff:
  "push_list [] input width = Inr r \<longleftrightarrow> (\<exists>k. k < 256 ^ width \<and> input = be_bytes width k @ snd r \<and> fst r = [k])"
  unfolding push_list_def bbind_Inr by (cases r) (auto simp: read_length_iff push_container_iff bbind_Inr)

lemma push_dict_iff:
  assumes "width \<le> 4"
  shows "push_dict [] input width = Inr r \<longleftrightarrow> (\<exists>k. k < 256 ^ width \<and> input = be_bytes width k @ snd r \<and> fst r = [2 * k])"
proof -
  have "k * 2 < 2 ^ 64" if "k < 256 ^ width" for k :: nat
    using that power_increasing[OF assms, of "256 :: nat"] by simp
  then show ?thesis unfolding push_dict_def bbind_Inr
    by (cases r) (auto simp: read_length_iff push_container_iff bbind_Inr checked_dict_values_def mult.commute)
qed
text \<open>A marker means the same at every depth, up to the limit.\<close>

definition framed :: "(nat list \<Rightarrow> (nat list \<times> u8 list) bolt_result) \<Rightarrow> bool" where
  "framed f \<longleftrightarrow> (\<forall>cs cs' rest. f cs = Inr (cs', rest) \<longleftrightarrow> (f [] = Inr ([], rest) \<and> cs' = cs) \<or>
     (\<exists>k. f [] = Inr ([k], rest) \<and> cs' = k # cs \<and> length cs < BOLT_MAX_PACKSTREAM_DEPTH))"

lemma framed_skip: "framed (\<lambda>cs. skip_value cs input len)" "framed (\<lambda>cs. skip_sized cs input width)"
  by (auto simp: framed_def skip_value_def skip_sized_def bbind_def split: sum.splits)

lemma framed_push: "framed (\<lambda>cs. bbind (push_packstream_container cs k) (\<lambda>cs. Inr (cs, input)))"
  by (auto simp: framed_def bbind_def push_packstream_container_def BOLT_MAX_PACKSTREAM_DEPTH_def)

lemma framed_pure: "framed (\<lambda>cs. Inr (cs, input))" "framed (\<lambda>cs. Inl e)"
  by (auto simp: framed_def)

lemma framed_bind: "(\<And>x. framed (f x)) \<Longrightarrow> framed (\<lambda>cs. bbind r (\<lambda>x. f x cs))"
  by (cases r) (simp_all add: bbind_def framed_pure)

lemma framed_if: "framed f \<Longrightarrow> framed g \<Longrightarrow> framed (\<lambda>cs. if b then f cs else g cs)"
  by (cases b) simp_all

lemma framed_case: "(\<And>x y. framed (f x y)) \<Longrightarrow> framed (\<lambda>cs. case p of (x, y) \<Rightarrow> f x y cs)"
  by (cases p) simp

lemmas framed_rules = framed_skip framed_push framed_pure framed_bind framed_if framed_case

lemma framed_list: "framed (\<lambda>cs. push_list cs input width)" "framed (\<lambda>cs. push_dict cs input width)"
  unfolding push_list_def push_dict_def by (intro framed_rules)+

lemma marker_at_depth:
  "packstream_marker mk b cs input = Inr (cs', rest) \<longleftrightarrow>
     (packstream_marker mk b [] input = Inr ([], rest) \<and> cs' = cs) \<or>
     (\<exists>k. packstream_marker mk b [] input = Inr ([k], rest) \<and> cs' = k # cs \<and> length cs < BOLT_MAX_PACKSTREAM_DEPTH)"
proof -
  have "framed (\<lambda>cs. packstream_marker mk b cs input)"
    unfolding packstream_marker_def Let_def by (intro framed_if framed_rules framed_list)
  then show ?thesis unfolding framed_def by blast
qed

lemma consumed_loop:
  assumes "consumed mk room n input rest" "room + length cs = BOLT_MAX_PACKSTREAM_DEPTH - 1"
  shows "packstream_loop mk (n # cs) input = packstream_loop mk cs rest"
  using assms
proof (induction arbitrary: cs rule: consumed.induct)
  case (nothing room input)
  then show ?case by simp
next
  case (leaf b input after room n rest)
  then have "packstream_marker mk b (n # cs) input = Inr (n # cs, after)" using marker_at_depth[of mk b "n # cs"] by blast
  then show ?case using leaf.IH[of cs] leaf.prems by simp
next
  case (container b input k after room inner_end n rest)
  have "length (n # cs) < BOLT_MAX_PACKSTREAM_DEPTH" using container.prems by (simp add: BOLT_MAX_PACKSTREAM_DEPTH_def)
  then have "packstream_marker mk b (n # cs) input = Inr (k # n # cs, after)" using marker_at_depth[of mk b "n # cs"] container.hyps(1) by blast
  then show ?case using container.IH(1)[of "n # cs"] container.IH(2)[of cs] container.prems by simp
qed

fun consumed_stack :: "packstream_markers \<Rightarrow> nat list \<Rightarrow> u8 list \<Rightarrow> u8 list \<Rightarrow> bool" where
  "consumed_stack mk [] input rest \<longleftrightarrow> input = rest"
| "consumed_stack mk (n # cs) input rest \<longleftrightarrow> (\<exists>mid. consumed mk (BOLT_MAX_PACKSTREAM_DEPTH - 1 - length cs) n input mid \<and> consumed_stack mk cs mid rest)"

lemma loop_consumed:
  assumes "packstream_loop mk cs input = Inr rest" "length cs \<le> BOLT_MAX_PACKSTREAM_DEPTH"
  shows "consumed_stack mk cs input rest"
  using assms
proof (induction mk cs input rule: packstream_loop.induct)
  case (2 mk cs input)
  then show ?case by (auto intro: consumed.nothing)
next
  case (4 mk n cs b input)
  obtain cs' after where m: "packstream_marker mk b (n # cs) input = Inr (cs', after)" and run: "packstream_loop mk cs' after = Inr rest"
    using "4.prems"(1) by (auto split: sum.splits prod.splits)
  show ?case
  proof (cases "packstream_marker mk b [] input = Inr ([], after) \<and> cs' = n # cs")
    case True
    then have "consumed_stack mk (n # cs) after rest" using "4.IH"[OF m refl run] "4.prems"(2) by simp
    then show ?thesis using True by (auto intro: consumed.leaf)
  next
    case False
    then obtain k where k: "packstream_marker mk b [] input = Inr ([k], after)" "cs' = k # n # cs" "length (n # cs) < BOLT_MAX_PACKSTREAM_DEPTH"
      using m marker_at_depth by blast
    then have "consumed_stack mk (k # n # cs) after rest" using "4.IH"[OF m refl run] by simp
    then obtain inner mid where i: "consumed mk (BOLT_MAX_PACKSTREAM_DEPTH - 1 - length (n # cs)) k after inner"
      "consumed mk (BOLT_MAX_PACKSTREAM_DEPTH - 1 - length cs) n inner mid" "consumed_stack mk cs mid rest" by auto
    have "BOLT_MAX_PACKSTREAM_DEPTH - 1 - length cs = Suc (BOLT_MAX_PACKSTREAM_DEPTH - 1 - length (n # cs))" using k(3) by simp
    then show ?thesis using i(2,3) consumed.container[OF k(1) i(1)] by auto
  qed
qed auto

text \<open>One round of the loop reads a leaf or the head of a container, and refuses everything else.\<close>

lemma nibble_parts:
  assumes "nib \<in> {0x80, 0x90, 0xa0, 0xb0 :: u8}" "k < 16"
  shows "(nib OR word_of_nat k) AND 0xf0 = nib" "unat ((nib OR word_of_nat k) AND 0x0f) = k"
    "\<not> nib OR word_of_nat k \<le> 0x7f" "nib OR word_of_nat k < 0xc0"
proof -
  have "k = 0 \<or> k = 1 \<or> k = 2 \<or> k = 3 \<or> k = 4 \<or> k = 5 \<or> k = 6 \<or> k = 7 \<or> k = 8 \<or> k = 9 \<or> k = 10 \<or> k = 11 \<or>
    k = 12 \<or> k = 13 \<or> k = 14 \<or> k = 15" using assms(2) by presburger
  then have "(nib OR word_of_nat k) AND 0xf0 = nib \<and> unat ((nib OR word_of_nat k) AND 0x0f) = k \<and>
      \<not> nib OR word_of_nat k \<le> 0x7f \<and> nib OR word_of_nat k < 0xc0"
    using assms(1) by auto
  then show "(nib OR word_of_nat k) AND 0xf0 = nib" "unat ((nib OR word_of_nat k) AND 0x0f) = k"
    "\<not> nib OR word_of_nat k \<le> 0x7f" "nib OR word_of_nat k < 0xc0" by blast+
qed

lemma nibble_whole: "b = (b AND 0xf0) OR word_of_nat (unat (b AND 0x0f))" "unat (b AND 0x0f) < 16" for b :: u8
proof -
  have "(0xf0 OR 0x0f :: u8) = - 1" by simp
  then have "b AND (0xf0 OR 0x0f) = b" by (simp only: and.right_neutral)
  then show "b = (b AND 0xf0) OR word_of_nat (unat (b AND 0x0f))" by (simp only: of_nat_unat ucast_id bit.conj_disj_distrib)
  have "b AND 0x0f \<le> 0x0f" by (rule word_and_le1)
  then show "unat (b AND 0x0f) < 16" by (simp add: word_le_nat_alt)
qed

lemma documented_places:
  assumes "documented_markers mk" "b \<in> set (byte_markers mk)"
  shows "\<not> b \<le> 0x7f" "\<not> 0xf0 \<le> b" "\<not> b < 0xc0"
proof -
  have b: "0xc0 \<le> unat b" "unat b \<le> 0xef" using assms by (auto simp: documented_markers_def list_all_iff word_le_nat_alt)
  then show "\<not> b \<le> 0x7f" "\<not> 0xf0 \<le> b" "\<not> b < 0xc0" by (simp_all add: word_le_nat_alt word_less_nat_alt)
qed

lemma nibble_not_byte:
  assumes "documented_markers mk" "nb \<in> set (nibble_markers mk)" "k < 16"
  shows "nb OR word_of_nat k \<notin> set (byte_markers mk)"
  using documented_places(3)[OF assms(1)] nibble_parts(4)[OF _ assms(3), of nb] assms(1,2) by (auto simp: documented_markers_def)

lemma byte_marker:
  assumes "documented_markers mk"
  shows "b \<in> {pm_null mk, pm_false mk, pm_true mk} \<Longrightarrow> packstream_marker mk b cs input = Inr (cs, input)"
    "(b, width) \<in> {(pm_int_8 mk, 1), (pm_int_16 mk, 2), (pm_int_32 mk, 4), (pm_int_64 mk, 8), (pm_float_64 mk, 8)} \<Longrightarrow>
      packstream_marker mk b cs input = skip_value cs input width"
    "(b, width) \<in> {(pm_bytes_8 mk, 1), (pm_bytes_16 mk, 2), (pm_bytes_32 mk, 4), (pm_string_8 mk, 1), (pm_string_16 mk, 2), (pm_string_32 mk, 4)} \<Longrightarrow>
      packstream_marker mk b cs input = skip_sized cs input width"
    "(b, width) \<in> {(pm_list_8 mk, 1), (pm_list_16 mk, 2), (pm_list_32 mk, 4)} \<Longrightarrow> packstream_marker mk b cs input = push_list cs input width"
    "(b, width) \<in> {(pm_dict_8 mk, 1), (pm_dict_16 mk, 2), (pm_dict_32 mk, 4)} \<Longrightarrow> packstream_marker mk b cs input = push_dict cs input width"
proof -
  have ds: "distinct (byte_markers mk)" using assms by (simp only: documented_markers_def)
  then have "distinct (rev (byte_markers mk))" by simp
  note d = ds[unfolded byte_markers_def, simplified] this[unfolded byte_markers_def rev.simps append.simps, simplified]
  show "b \<in> {pm_null mk, pm_false mk, pm_true mk} \<Longrightarrow> packstream_marker mk b cs input = Inr (cs, input)"
    by (auto simp: packstream_marker_def)
  show "(b, width) \<in> {(pm_int_8 mk, 1), (pm_int_16 mk, 2), (pm_int_32 mk, 4), (pm_int_64 mk, 8), (pm_float_64 mk, 8)} \<Longrightarrow>
      packstream_marker mk b cs input = skip_value cs input width"
    by (elim insertE emptyE; simp only: prod.inject; elim conjE; simp only: packstream_marker_def Let_def d simp_thms if_True if_False)
  show "(b, width) \<in> {(pm_bytes_8 mk, 1), (pm_bytes_16 mk, 2), (pm_bytes_32 mk, 4), (pm_string_8 mk, 1), (pm_string_16 mk, 2), (pm_string_32 mk, 4)} \<Longrightarrow>
      packstream_marker mk b cs input = skip_sized cs input width"
    by (elim insertE emptyE; simp only: prod.inject; elim conjE; simp only: packstream_marker_def Let_def d simp_thms if_True if_False)
  show "(b, width) \<in> {(pm_list_8 mk, 1), (pm_list_16 mk, 2), (pm_list_32 mk, 4)} \<Longrightarrow> packstream_marker mk b cs input = push_list cs input width"
    by (elim insertE emptyE; simp only: prod.inject; elim conjE; simp only: packstream_marker_def Let_def d simp_thms if_True if_False)
  show "(b, width) \<in> {(pm_dict_8 mk, 1), (pm_dict_16 mk, 2), (pm_dict_32 mk, 4)} \<Longrightarrow> packstream_marker mk b cs input = push_dict cs input width"
    by (elim insertE emptyE; simp only: prod.inject; elim conjE; simp only: packstream_marker_def Let_def d simp_thms if_True if_False)
qed

text \<open>The part of a round for the markers that are not a full byte, and their forms.\<close>

definition nibble_round :: "packstream_markers \<Rightarrow> u8 \<Rightarrow> nat list \<Rightarrow> u8 list \<Rightarrow> (nat list \<times> u8 list) bolt_result" where
  "nibble_round mk b cs input =
     (let high = b AND 0xf0; low = unat (b AND 0x0f) in
      if b \<le> 0x7f \<or> 0xf0 \<le> b then Inr (cs, input)
      else if high = pm_tiny_string_nibble mk then skip_value cs input low
      else if high = pm_tiny_list_nibble mk then bbind (push_packstream_container cs low) (\<lambda>cs. Inr (cs, input))
      else if high = pm_tiny_dict_nibble mk then
        bbind (checked_dict_values low) (\<lambda>values. bbind (push_packstream_container cs values) (\<lambda>cs. Inr (cs, input)))
      else if high = pm_tiny_struct_nibble mk then
        bbind (skip_packstream_bytes input 1) (\<lambda>input. bbind (push_packstream_container cs low) (\<lambda>cs. Inr (cs, input)))
      else Inl (BoltProtocol (''unknown PackStream marker 0x'' @ fmt_02x b)))"

lemma other_marker: "b \<notin> set (byte_markers mk) \<Longrightarrow> packstream_marker mk b cs input = nibble_round mk b cs input"
  by (simp add: byte_markers_def packstream_marker_def nibble_round_def)

lemma nibble_round_iff:
  assumes "documented_markers mk"
  shows "nibble_round mk b [] input = Inr (cs, after) \<longleftrightarrow>
    (cs = [] \<and> input = after \<and> (b \<le> 0x7f \<or> 0xf0 \<le> b)) \<or>
    (cs = [] \<and> (\<exists>p. length p < 16 \<and> b = pm_tiny_string_nibble mk OR word_of_nat (length p) \<and> input = p @ after)) \<or>
    (\<exists>k < 16. (cs = [k] \<and> b = pm_tiny_list_nibble mk OR word_of_nat k \<and> input = after) \<or>
      (cs = [2 * k] \<and> b = pm_tiny_dict_nibble mk OR word_of_nat k \<and> input = after) \<or>
      (cs = [k] \<and> b = pm_tiny_struct_nibble mk OR word_of_nat k \<and> (\<exists>tag. input = tag # after)))"
  (is "?L \<longleftrightarrow> ?int \<or> ?str \<or> ?box")
proof -
  have ns: "distinct (nibble_markers mk)" "set (nibble_markers mk) = {0x80, 0x90, 0xa0, 0xb0}"
    using assms by (simp_all only: documented_markers_def)
  note nd = ns(1)[unfolded nibble_markers_def, simplified]
  have nib: "(b = nb OR word_of_nat k \<and> k < 16) \<longleftrightarrow> b AND 0xf0 = nb \<and> k = unat (b AND 0x0f)" if "nb \<in> set (nibble_markers mk)" for nb k
    using that nibble_parts(1,2)[of nb k] nibble_whole[of b] unfolding ns(2) by auto
  have ex: "(\<exists>k. k < 16 \<and> b = nb OR word_of_nat k \<and> P k) \<longleftrightarrow> b AND 0xf0 = nb \<and> P (unat (b AND 0x0f))"
    if "nb \<in> set (nibble_markers mk)" for nb P
  proof -
    have "(\<exists>k. k < 16 \<and> b = nb OR word_of_nat k \<and> P k) = (\<exists>k. (b = nb OR word_of_nat k \<and> k < 16) \<and> P k)" by (simp only: conj_ac)
    then show ?thesis unfolding nib[OF that] by simp
  qed
  have low: "\<not> (b \<le> 0x7f \<or> 0xf0 \<le> b)" if "nb \<in> set (nibble_markers mk)" "b AND 0xf0 = nb" for nb
    using that(1) nibble_parts(3,4)[of nb "unat (b AND 0x0f)"] nibble_whole[of b] unfolding that(2) ns(2)
    by (auto simp: word_le_nat_alt word_less_nat_alt)
  let ?low = "unat (b AND 0x0f)"
  have ms: "pm_tiny_string_nibble mk \<in> set (nibble_markers mk)" "pm_tiny_list_nibble mk \<in> set (nibble_markers mk)"
    "pm_tiny_dict_nibble mk \<in> set (nibble_markers mk)" "pm_tiny_struct_nibble mk \<in> set (nibble_markers mk)"
    by (simp_all add: nibble_markers_def)
  have str: "?str \<longleftrightarrow> b AND 0xf0 = pm_tiny_string_nibble mk \<and> skip_value [] input ?low = Inr (cs, after)"
    using nib[OF ms(1)] by (auto simp: skip_value_iff)
  have box: "?box \<longleftrightarrow> (b AND 0xf0 = pm_tiny_list_nibble mk \<and> cs = [?low] \<and> input = after) \<or>
    (b AND 0xf0 = pm_tiny_dict_nibble mk \<and> cs = [2 * ?low] \<and> input = after) \<or>
    (b AND 0xf0 = pm_tiny_struct_nibble mk \<and> cs = [?low] \<and> (\<exists>tag. input = tag # after))"
    unfolding ex_disj_distrib conj_disj_distribL
    using ex[OF ms(2), of "\<lambda>k. cs = [k] \<and> input = after"] ex[OF ms(3), of "\<lambda>k. cs = [2 * k] \<and> input = after"]
      ex[OF ms(4), of "\<lambda>k. cs = [k] \<and> (\<exists>tag. input = tag # after)"] by (simp only: conj_ac)
  have tag: "skip_packstream_bytes input (Suc 0) = Inr rest \<longleftrightarrow> (\<exists>tag. input = tag # rest)" for rest
    by (cases input) (auto simp: skip_packstream_bytes_def)
  have dict: "checked_dict_values ?low = Inr v \<longleftrightarrow> v = 2 * ?low" for v
    using nibble_whole(2)[of b] by (auto simp: checked_dict_values_def)
  note rounds = nibble_round_def Let_def bbind_Inr push_container_iff tag dict
  consider (i) "b \<le> 0x7f \<or> 0xf0 \<le> b" | (s) "b AND 0xf0 \<in> set (nibble_markers mk)" | 
    (n) "\<not> (b \<le> 0x7f \<or> 0xf0 \<le> b)" "b AND 0xf0 \<notin> set (nibble_markers mk)" by blast
  then show ?thesis
  proof cases
    case i
    then have "b AND 0xf0 \<notin> set (nibble_markers mk)" using low by blast
    then show ?thesis unfolding str box using i by (auto simp: nibble_round_def nibble_markers_def)
  next
    case s
    then have "\<not> (b \<le> 0x7f \<or> 0xf0 \<le> b)" by (rule low) simp
    then show ?thesis unfolding str box using s nd by (auto simp: rounds nibble_markers_def)
  next
    case n
    then show ?thesis unfolding str box by (simp add: nibble_round_def nibble_markers_def)
  qed
qed

lemma marker_exact:
  assumes "documented_markers mk"
  shows "packstream_marker mk b [] input = Inr (cs, after) \<longleftrightarrow>
    (cs = [] \<and> (\<exists>v. packed_leaf mk v \<and> b # input = v @ after)) \<or> (\<exists>k h. cs = [k] \<and> packed_head mk k h \<and> b # input = h @ after)"
  (is "_ \<longleftrightarrow> ?R")
proof
  assume m: "packstream_marker mk b [] input = Inr (cs, after)"
  show ?R
  proof (cases "b \<in> set (byte_markers mk)")
    case False
    then have "nibble_round mk b [] input = Inr (cs, after)" using m other_marker by simp
    then show ?thesis unfolding nibble_round_iff[OF assms]
      by (elim disjE exE conjE; simp) (auto intro: packed_leaf.intros packed_head.intros)
  next
    case True
    then consider (c) "b \<in> {pm_null mk, pm_false mk, pm_true mk}"
      | (num) width :: nat where "(b, width) \<in> {(pm_int_8 mk, 1), (pm_int_16 mk, 2), (pm_int_32 mk, 4), (pm_int_64 mk, 8), (pm_float_64 mk, 8)}"
      | (sized) width :: nat where "(b, width) \<in> {(pm_bytes_8 mk, 1), (pm_bytes_16 mk, 2), (pm_bytes_32 mk, 4), (pm_string_8 mk, 1), (pm_string_16 mk, 2), (pm_string_32 mk, 4)}"
      | (list) width :: nat where "(b, width) \<in> {(pm_list_8 mk, 1), (pm_list_16 mk, 2), (pm_list_32 mk, 4)}"
      | (dict) width :: nat where "(b, width) \<in> {(pm_dict_8 mk, 1), (pm_dict_16 mk, 2), (pm_dict_32 mk, 4)}"
      unfolding byte_markers_def by (simp only: set_simps insert_iff empty_iff prod.inject) blast
    then show ?thesis
    proof cases
      case c
      then show ?thesis using m byte_marker(1)[OF assms c, of "[]" input] packed_leaf.literal[OF c] by auto
    next
      case (num width)
      then obtain p where "length p = width" "input = p @ after" "cs = []"
        using m byte_marker(2)[OF assms num, of "[]" input] by (auto simp: skip_value_iff)
      then show ?thesis using packed_leaf.number[OF num] by (auto intro!: exI[of _ "b # p"])
    next
      case (sized width)
      then obtain p where "length p < 256 ^ width" "input = be_bytes width (length p) @ p @ after" "cs = []"
        using m byte_marker(3)[OF assms sized, of "[]" input] by (auto simp: skip_sized_iff)
      then show ?thesis using packed_leaf.text_or_bytes[OF sized] by (auto intro!: exI[of _ "b # be_bytes width (length p) @ p"])
    next
      case (list width)
      then show ?thesis using m byte_marker(4)[OF assms list, of "[]" input] packed_head.list_head[OF list]
        by (fastforce simp: push_list_iff)
    next
      case (dict width)
      then have "width \<le> 4" by auto
      then show ?thesis using m byte_marker(5)[OF assms dict, of "[]" input] packed_head.dict_head[OF dict]
        by (fastforce simp: push_dict_iff)
    qed
  qed
next
  have leaf: "packstream_marker mk b [] input = Inr ([], after)" if "packed_leaf mk v" "b # input = v @ after" for v
    using that
  proof (cases rule: packed_leaf.cases)
    case (tiny_integer c)
    then have "b \<notin> set (byte_markers mk)" using that(2) documented_places(1,2)[OF assms] by auto
    then show ?thesis using tiny_integer that(2) by (simp add: other_marker nibble_round_iff[OF assms])
  next
    case (tiny_string p)
    then have "b \<notin> set (byte_markers mk)" using that(2) nibble_not_byte[OF assms] by (auto simp: nibble_markers_def)
    then show ?thesis using tiny_string that(2) by (auto simp: other_marker nibble_round_iff[OF assms])
  qed (use that(2) byte_marker(1,2,3)[OF assms] in \<open>auto simp: skip_value_iff skip_sized_iff\<close>)
  have head: "packstream_marker mk b [] input = Inr ([k], after)" if "packed_head mk k h" "b # input = h @ after" for k h
    using that(1)
  proof (cases rule: packed_head.cases)
    case (list_head c width)
    then show ?thesis using that(2) byte_marker(4)[OF assms list_head(2), of "[]" input] by (simp add: push_list_iff)
  next
    case (dict_head c width j)
    then have "width \<le> 4" by auto
    then show ?thesis using dict_head that(2) byte_marker(5)[OF assms dict_head(3), of "[]" input] by (simp add: push_dict_iff)
  qed (use that(2) nibble_not_byte[OF assms] in \<open>auto simp: other_marker nibble_round_iff[OF assms] nibble_markers_def\<close>)
  assume ?R
  then show "packstream_marker mk b [] input = Inr (cs, after)" using leaf head by blast
qed

lemma consumed_packed:
  assumes "documented_markers mk"
  shows "consumed mk room n input rest \<longleftrightarrow> (\<exists>bs. packed mk room n bs \<and> input = bs @ rest)"
proof
  assume "consumed mk room n input rest"
  then show "\<exists>bs. packed mk room n bs \<and> input = bs @ rest"
  proof (induction rule: consumed.induct)
    case (leaf b input after room n rest)
    then show ?case using marker_exact[OF assms, of b input "[]" after] by (fastforce intro: packed.leaf)
  next
    case (container b input k after room inner_end n rest)
    obtain h where h: "packed_head mk k h" "b # input = h @ after" using container.hyps(1) marker_exact[OF assms] by auto
    obtain items vs where "packed mk room k items" "after = items @ inner_end" "packed mk (Suc room) n vs" "inner_end = vs @ rest"
      using container.IH by blast
    then show ?case using packed.container[OF h(1)] h(2) by (auto intro!: exI[of _ "h @ items @ vs"])
  qed (auto intro: packed.nothing)
next
  assume "\<exists>bs. packed mk room n bs \<and> input = bs @ rest"
  then obtain bs where "packed mk room n bs" "input = bs @ rest" by blast
  then show "consumed mk room n input rest"
  proof (induction arbitrary: input rest rule: packed.induct)
    case (leaf v room n vs)
    obtain b body where v: "v = b # body" using leaf.hyps(1) by (cases rule: packed_leaf.cases) auto
    then have "packstream_marker mk b [] (body @ vs @ rest) = Inr ([], vs @ rest)" using marker_exact[OF assms] leaf.hyps(1) by auto
    then show ?case using leaf.IH[OF refl] leaf.prems v by (auto intro: consumed.leaf)
  next
    case (container k h room items n vs)
    obtain b body where h: "h = b # body" using container.hyps(1) by (cases rule: packed_head.cases) auto
    then have "packstream_marker mk b [] (body @ items @ vs @ rest) = Inr ([k], items @ vs @ rest)"
      using marker_exact[OF assms] container.hyps(1) by auto
    then show ?case using container.IH(1)[OF refl] container.IH(2)[OF refl] container.prems h by (auto intro: consumed.container)
  qed (auto intro: consumed.nothing)
qed
text \<open>C40 (packstream_check_exact). The check of a message's values, which keeps a stack of open containers and looks at one
  marker at a time, accepts exactly the encodings of the given number of PackStream values and nothing more, with containers
  no deeper than 31 levels below the message; it ends on every input. The grammar is stated with the encodings themselves:
  payload widths, big-endian lengths, two values for an entry of a dictionary, a tag for a structure. The markers are those
  of the crate, of which only their documented places are used.\<close>

theorem packstream_check_exact:
  assumes "documented_markers mk"
  shows "validate_packstream_values mk input n = Inr () \<longleftrightarrow> packed mk 31 n input"
proof -
  have "validate_packstream_values mk input n = Inr () \<longleftrightarrow> packstream_loop mk [n] input = Inr []"
    by (auto simp: validate_packstream_values_def bbind_def split: sum.splits if_splits)
  also have "\<dots> \<longleftrightarrow> consumed mk 31 n input []"
    using loop_consumed[of mk "[n]" input "[]"] consumed_loop[of mk 31 n input "[]" "[]"]
    by (auto simp: BOLT_MAX_PACKSTREAM_DEPTH_def)
  also have "\<dots> \<longleftrightarrow> packed mk 31 n input" using consumed_packed[OF assms] by simp
  finally show ?thesis .
qed

lemma loop_numeral:
  "packstream_loop mk (numeral m # cs) (b # input) =
     (case packstream_marker mk b (pred_numeral m # cs) input of Inl e \<Rightarrow> Inl e | Inr (cs', input') \<Rightarrow> packstream_loop mk cs' input')"
  "packstream_loop mk (numeral m # cs) [] = Inl (BoltProtocol ''PackStream value ended unexpectedly'')"
  by (simp_all add: numeral_eq_Suc)

text \<open>A dictionary with one entry, whose value is a list of a small integer and null.\<close>

theorem packstream_check_exact_witness:
  "documented_markers packstream_v1 \<and> packed packstream_v1 31 1 [0xa1, 0x81, 0x61, 0x92, 0x01, 0xc0] \<and>
   \<not> packed packstream_v1 31 1 [0xd8, 0x01, 0x81, 0x61]"
proof -
  have d: "documented_markers packstream_v1"
    by (auto simp: documented_markers_def byte_markers_def nibble_markers_def packstream_v1_def)
  have "validate_packstream_values packstream_v1 [0xa1, 0x81, 0x61, 0x92, 0x01, 0xc0] 1 = Inr ()"
    by (simp add: validate_packstream_values_def packstream_v1_def marker_defs BOLT_MAX_PACKSTREAM_DEPTH_def loop_numeral)
  moreover have "validate_packstream_values packstream_v1 [0xd8, 0x01, 0x81, 0x61] 1 \<noteq> Inr ()"
    by (simp add: validate_packstream_values_def packstream_v1_def marker_defs BOLT_MAX_PACKSTREAM_DEPTH_def loop_numeral)
  ultimately show ?thesis using packstream_check_exact[OF d] d by simp
qed

subsection \<open>Numbers of the handshake\<close>

lemma low_bits: "(0x7f :: 'a :: len word) = mask 7"
  by (simp add: mask_eq_exp_minus_1)

lemma high_bit: "bit (0x80 :: 'a :: len word) n \<longleftrightarrow> n = 7 \<and> n < LENGTH('a)"
proof -
  have "(0x80 :: 'a word) = push_bit 7 1" by simp
  then show ?thesis by (simp only: bit_push_bit_iff bit_1_iff possible_bit_word) auto
qed

lemma middle_bits: "bit (0x7e :: 'a :: len word) n \<longleftrightarrow> 1 \<le> n \<and> n < 7 \<and> n < LENGTH('a)"
proof -
  have "(0x7e :: 'a word) = push_bit 1 (mask 6)" by (simp add: mask_eq_exp_minus_1)
  then show ?thesis by (simp only: bit_push_bit_iff bit_mask_iff possible_bit_word) auto
qed

lemma dropped_bits: "drop_bit k (w :: u64) = 0 \<Longrightarrow> k \<le> n \<Longrightarrow> \<not> bit w n"
  using bit_drop_bit_eq[of k w] by (metis bit_0_eq bot_apply bot_bool_def le_add_diff_inverse comp_apply)

lemma varint_group:
  fixes w :: u64
  shows "(ucast ((ucast (w AND 0x7f) :: u8) AND 0x7f) :: u64) = w AND 0x7f"
    "(ucast (((ucast (w AND 0x7f) :: u8) OR 0x80) AND 0x7f) :: u64) = w AND 0x7f"
    "(ucast (w AND 0x7f) :: u8) AND 0x80 = 0" "((ucast (w AND 0x7f) :: u8) OR 0x80) AND 0x80 \<noteq> 0"
proof -
  show "(ucast ((ucast (w AND 0x7f) :: u8) AND 0x7f) :: u64) = w AND 0x7f"
    unfolding low_bits by (rule bit_word_eqI) (auto simp: bit_simps)
  have "(ucast (((ucast (w AND mask 7) :: u8) OR h) AND mask 7) :: u64) = w AND mask 7" if "\<And>n. bit h n \<longleftrightarrow> n = 7 \<and> n < LENGTH(8)" for h :: u8
    by (rule bit_word_eqI) (auto simp: bit_simps that)
  from this[OF high_bit] show "(ucast (((ucast (w AND 0x7f) :: u8) OR 0x80) AND 0x7f) :: u64) = w AND 0x7f" unfolding low_bits .
  have "(ucast (w AND mask 7) :: u8) AND h = 0 \<and> bit (((ucast (w AND mask 7) :: u8) OR h) AND h) 7"
    if "\<And>n. bit h n \<longleftrightarrow> n = 7 \<and> n < LENGTH(8)" for h :: u8
    by (intro conjI bit_word_eqI) (auto simp: bit_simps that)
  from this[OF high_bit] show "(ucast (w AND 0x7f) :: u8) AND 0x80 = 0" "((ucast (w AND 0x7f) :: u8) OR 0x80) AND 0x80 \<noteq> 0"
    unfolding low_bits by (auto simp del: push_bit_and push_bit_or)
qed

lemma varint_join: "push_bit k (w AND 0x7f) OR push_bit (7 + k) (drop_bit 7 w) = push_bit k (w :: u64)"
  unfolding low_bits
proof (rule bit_word_eqI)
  fix n assume "n < LENGTH(64)"
  show "bit (push_bit k (w AND mask 7) OR push_bit (7 + k) (drop_bit 7 w)) n = bit (push_bit k w) n"
  proof (cases "7 + k \<le> n")
    case True
    then have "7 + (n - (7 + k)) = n - k" by simp
    then show ?thesis using True by (auto simp: bit_simps)
  next
    case False
    then show ?thesis by (auto simp: bit_simps)
  qed
qed

lemma varint_loop_bytes:
  assumes "i \<le> 9" "drop_bit (64 - 7 * i) w = 0" "cn_input c = varint_bytes w @ rest"
  shows "varint_loop i acc c = (Inr (acc OR push_bit (7 * i) w), c\<lparr>cn_input := rest\<rparr>)"
  using assms
proof (induction w arbitrary: i acc c rule: varint_bytes.induct)
  case (1 w)
  let ?b = "ucast (w AND 0x7f) :: u8"
  have small: "?b AND 0x7e = 0" "drop_bit 7 w = 0" if "i = 9"
  proof -
    have "\<not> bit w n" if "1 \<le> n" for n using dropped_bits[of 1 w n] "1.prems"(2) \<open>i = 9\<close> that by simp
    then have w0: "\<not> bit w n" if "1 \<le> n" for n using that by blast
    show "drop_bit 7 w = 0" by (rule bit_word_eqI) (use w0 in \<open>simp add: bit_simps\<close>)
    have "(ucast (w AND mask 7) :: u8) AND h = 0" if "\<And>n. bit h n \<longleftrightarrow> 1 \<le> n \<and> n < 7 \<and> n < LENGTH(8)" for h :: u8
      by (rule bit_word_eqI) (use w0 in \<open>auto simp: bit_simps that\<close>)
    from this[OF middle_bits] show "?b AND 0x7e = 0" unfolding low_bits .
  qed
  show ?case
  proof (cases "drop_bit 7 w = 0")
    case True
    then have "varint_bytes w = [?b]" by (simp add: varint_bytes.simps Let_def)
    moreover have "w AND 0x7f = w"
      unfolding low_bits by (rule bit_word_eqI) (use dropped_bits[OF True] in \<open>auto simp: bit_simps not_le[symmetric]\<close>)
    ultimately have b: "varint_bytes w = [?b]" "ucast (?b AND 0x7f) = w" using varint_group(1)[of w] by simp_all
    have rd: "read_exact 1 c = (Inr [?b], c\<lparr>cn_input := rest\<rparr>)" using "1.prems"(3) b(1) by (simp add: read_exact_def)
    have ok: "\<not> 10 \<le> i" "\<not> (i = 9 \<and> ?b AND 0x7e \<noteq> 0)" using "1.prems"(1) small(1) by auto
    show ?thesis
      by (subst varint_loop.simps) (simp only: ok rd if_False prod.case sum.case Let_def nth_Cons_0 varint_group(3) if_True b(2) mult.commute refl)
  next
    case False
    then have bytes: "varint_bytes w = (?b OR 0x80) # varint_bytes (drop_bit 7 w)" by (subst varint_bytes.simps) (simp add: Let_def)
    have i: "i < 9" using small(2) False "1.prems"(1) by (cases "i = 9") auto
    have "64 - 7 * Suc i + 7 = 64 - 7 * i" using i by simp
    then have "drop_bit (64 - 7 * Suc i) (drop_bit 7 w) = 0" using "1.prems"(2) by (metis drop_bit_drop_bit)
    note IH = "1.IH"[OF refl refl False _ this, of "c\<lparr>cn_input := varint_bytes (drop_bit 7 w) @ rest\<rparr>" "acc OR push_bit (7 * i) (w AND 0x7f)"]
    let ?c = "c\<lparr>cn_input := varint_bytes (drop_bit 7 w) @ rest\<rparr>"
    have rd: "read_exact 1 c = (Inr [?b OR 0x80], ?c)" using "1.prems"(3) bytes by (simp add: read_exact_def)
    have ok: "\<not> 10 \<le> i" "\<not> (i = 9 \<and> (?b OR 0x80) AND 0x7e \<noteq> 0)" using i by auto
    have "varint_loop i acc c = varint_loop (i + 1) (acc OR push_bit (i * 7) (w AND 0x7f)) ?c"
      by (subst varint_loop.simps) (simp only: ok rd if_False prod.case sum.case Let_def nth_Cons_0 varint_group(2,4))
    also have "\<dots> = (Inr (acc OR (push_bit (7 * i) (w AND 0x7f) OR push_bit (7 + 7 * i) (drop_bit 7 w))), c\<lparr>cn_input := rest\<rparr>)"
      using IH i by (simp only: mult.commute[of i 7] Suc_eq_plus1[symmetric] or.assoc mult_Suc_right connection.simps connection.update_convs) simp
    finally show ?thesis unfolding varint_join .
  qed
qed

theorem varint_roundtrip: "cn_input c = varint_bytes v @ rest \<Longrightarrow> read_varint c = (Inr v, c\<lparr>cn_input := rest\<rparr>)"
  unfolding read_varint_def using varint_loop_bytes[of 0 v c rest 0] by simp

subsection \<open>Versions\<close>

lemma find_first: "find P xs = Some x \<Longrightarrow> x \<in> set xs \<and> P x"
  by (induction xs) (auto split: if_splits)

lemma matching_supported:
  assumes "matching_bolt_version proposal = Some v"
  shows "v \<in> set BOLT_SUPPORTED_VERSIONS" "fst v = proposal ! 3" "snd v \<le> proposal ! 2" "unat (proposal ! 2) - unat (proposal ! 1) \<le> unat (snd v)"
  using assms find_first unfolding matching_bolt_version_def Let_def by (auto split: if_splits dest!: find_first)

text \<open>Of several supported versions in the range, the highest is chosen.\<close>

lemma find_sorted:
  assumes "find P xs = Some x" "sorted_wrt (\<lambda>a b. f b \<le> f a) xs" "y \<in> set xs" "P y"
  shows "f y \<le> (f x :: 'a :: linorder)"
  using assms by (induction xs) (auto split: if_splits)

lemma matching_highest:
  assumes "matching_bolt_version proposal = Some v" "w \<in> set BOLT_SUPPORTED_VERSIONS" "fst w = proposal ! 3" "snd w \<le> proposal ! 2"
    "unat (proposal ! 2) - unat (proposal ! 1) \<le> unat (snd w)"
  shows "snd w \<le> snd v"
proof -
  let ?P = "\<lambda>candidate. fst candidate = proposal ! 3 \<and> snd candidate \<le> proposal ! 2 \<and> unat (proposal ! 2) - unat (proposal ! 1) \<le> unat (snd candidate)"
  have "find ?P BOLT_SUPPORTED_VERSIONS = Some v" using assms(1) by (auto simp: matching_bolt_version_def Let_def split: if_splits)
  moreover have "sorted_wrt (\<lambda>a b. snd b \<le> snd a) BOLT_SUPPORTED_VERSIONS" by (simp add: BOLT_SUPPORTED_VERSIONS_def)
  ultimately show ?thesis using find_sorted[of ?P BOLT_SUPPORTED_VERSIONS v snd w] assms(2-5) by simp
qed

lemma proposals_supported: "bolt_proposals ps c = (Inr v, c') \<Longrightarrow> v \<in> set BOLT_SUPPORTED_VERSIONS"
proof (induction ps arbitrary: c)
  case (Cons proposal ps)
  have "v \<in> set BOLT_SUPPORTED_VERSIONS" if "bolt_manifest c = (Inr v, c')"
    using that by (auto simp: bolt_manifest_def exact_bolt_version_def Let_def split: prod.splits sum.splits option.splits if_splits)
  then show ?case using Cons matching_supported(1) by (auto split: if_splits option.splits)
qed simp

theorem handshake_supported: "bolt_server_handshake c = (Inr v, c') \<Longrightarrow> v \<in> set BOLT_SUPPORTED_VERSIONS"
  by (auto simp: bolt_server_handshake_def dest: proposals_supported split: prod.splits sum.splits if_splits)

text \<open>A client that offers the manifest and selects a supported version without capabilities gets it.\<close>

theorem manifest_accepted:
  assumes "v \<in> set BOLT_SUPPORTED_VERSIONS" "cn_input c = [0, 0, snd v, fst v] @ varint_bytes 0 @ rest"
  shows "bolt_manifest c = (Inr v, \<lparr>cn_input = rest, cn_output = cn_output c @ BOLT_MANIFEST_V1 @ [1, 0, 3, 4, 5, 0]\<rparr>)"
proof -
  let ?c = "write_varint 0 (write_all [0, 3, 4, 5] (write_varint 1 (write_all BOLT_MANIFEST_V1 c)))"
  have vb: "varint_bytes 1 = [1]" "varint_bytes 0 = [0]" by (subst varint_bytes.simps, simp add: Let_def)+
  have rd: "read_exact 4 ?c = (Inr [0, 0, snd v, fst v], ?c\<lparr>cn_input := varint_bytes 0 @ rest\<rparr>)"
    using assms(2) by (simp add: read_exact_def write_varint_def write_all_def)
  have vi: "read_varint (?c\<lparr>cn_input := varint_bytes 0 @ rest\<rparr>) = (Inr 0, ?c\<lparr>cn_input := rest\<rparr>)"
    using varint_roundtrip[of "?c\<lparr>cn_input := varint_bytes 0 @ rest\<rparr>" 0 rest] by simp
  show ?thesis unfolding bolt_manifest_def Let_def rd prod.case sum.case vi
    using assms(1) by (simp add: exact_bolt_version_def write_varint_def write_all_def vb)
qed

end
