(* ===== verification/Spec2Isabelle.thy ===== *)
theory Spec2Isabelle
  imports Codec_Hash Placement_Liveness Namespace Locality Index_Build Lease_Exclusive Drop_Safety Wal_History Bolt_Wire
begin

text \<open>
  Verification development of HydraDB, the graph engine under \<^verbatim>\<open>src/hydradb\<close>. File names below are relative to that
  directory. HydraDB stores a property graph as ordered key-value records in SlateDB, one locality cell per key prefix; several
  nodes share an object store, one writer per cell.

  \<^bold>\<open>The parts and how they interact.\<close> A request names a cell, an edge type and vertices. The write path
  (\<^verbatim>\<open>src/shard/write.rs\<close>) validates it, runs one serializable transaction per attempt and retries conflicts; the transaction
  reads and writes records whose keys come from \<^verbatim>\<open>src/keys.rs\<close> and whose values come from \<^verbatim>\<open>src/codec.rs\<close>: edge
  records in both directions, degree counters, segments with their tombstones, an idempotency record per request, and one
  changelog entry per change (\<^verbatim>\<open>src/shard/xlog.rs\<close>). Queries read adjacency from pinned snapshots
  (\<^verbatim>\<open>src/shard/query.rs\<close>). Indexers scan a snapshot, or patch the previous index with the changelog, compress the
  adjacency (\<^verbatim>\<open>src/sparse_kernel\<close>) and publish it as an immutable generation behind a manifest in the object store
  (\<^verbatim>\<open>src/engine/index_store.rs\<close>); maintenance then compacts segments and collects the changelog
  (\<^verbatim>\<open>src/shard/maintenance.rs\<close>). Cells are placed on nodes by rendezvous hashing over the live nodes
  (\<^verbatim>\<open>crates/placement\<close>), and a writer owns a cell by a lease object (\<^verbatim>\<open>src/engine/writer_lease.rs\<close>). Clients
  come in through the Bolt protocol (\<^verbatim>\<open>src/client/bolt/wire.rs\<close>).

  \<^bold>\<open>Theories and sources.\<close>
  \<^item> \<open>Rust_Prelude\<close>, \<open>Rust_Text\<close>, \<open>Rust_BTree\<close>, \<open>Rust_Hash\<close>: what the sources use of the language and its standard library.
    Results are sums, \<open>rbind\<close> is the question mark; a \<^verbatim>\<open>u64\<close> is a 64-bit word, with checked, saturating and wrapping
    operations; ordered maps and sets are sorted lists behind the locale \<open>ordered_map\<close>; formatting, parsing, UTF-8; FNV-1a and splitmix64.
  \<^item> \<open>Graph_Error\<close>, \<open>Graph_Model\<close>: \<^verbatim>\<open>src/core/error.rs\<close> and \<^verbatim>\<open>src/core/model.rs\<close>.
  \<^item> \<open>Graph_Keys\<close>, \<open>Locality\<close>, \<open>Namespace\<close>: \<^verbatim>\<open>src/keys.rs\<close>, \<^verbatim>\<open>src/locality.rs\<close>, \<^verbatim>\<open>src/core/namespace.rs\<close>. Keys are
    rendered from a datatype of abstract keys; rendering is injective and every prefix scan selects one family.
  \<^item> \<open>Codec_Basic\<close>, \<open>Codec_Value\<close>, \<open>Codec_Keys\<close>, \<open>Codec_Metadata\<close>, \<open>Codec_Idempotency\<close>, \<open>Codec_Segment\<close>, \<open>Codec_Hash\<close>:
    \<^verbatim>\<open>src/codec.rs\<close>. Round trips, exact decoders, idempotency records, order of index keys.
  \<^item> \<open>Txn_Store\<close>, \<open>Txn_Logic\<close>, \<open>Txn_Faults\<close>: transactions. A program is a function from a shard state to a result and a
    state. The store is a record of operations \<open>txn_ops\<close>; the locale \<open>txn_refines\<close> says that successful operations agree with a
    store of two maps (\<open>map_ops\<close>), \<open>txn_faults\<close> what failed ones leave behind, and \<open>wp\<close> is a weakest precondition for runs of the
    reference store. Both locales hold of \<open>map_ops\<close> and of a store that fails by script.
  \<^item> \<open>Write_Txn\<close>, \<open>Write_Edge\<close>, \<open>Delete_Edge\<close>, \<open>Write_Outcome\<close>, \<open>Write_Metadata\<close>, \<open>Write_Batch\<close>: \<^verbatim>\<open>src/shard/write.rs\<close> and
    \<^verbatim>\<open>src/core/write_batch.rs\<close>. Writing and deleting an edge with everything the transaction touches, merges of metadata, batches.
  \<^item> \<open>Segment_Read\<close>, \<open>Snapshot_Read\<close>: adjacency reads in a transaction and in a snapshot (the locale \<open>pinned\<close>); both
    return the visible edges.
  \<^item> \<open>Graph_Invariant\<close>, \<open>Graph_History\<close>: the invariant of the committed records and its preservation by every
    history, exactly-once effects, the retry loop, progress.
  \<^item> \<open>Changelog\<close>, \<open>Changelog_History\<close>: \<^verbatim>\<open>src/shard/xlog.rs\<close>. The delta of a snapshot is exact, and collections keep
    what a later index needs.
  \<^item> \<open>Compaction\<close>, \<open>Compaction_Safety\<close>: \<^verbatim>\<open>compact_out_adjacency_segments\<close>; the locale \<open>snapshots\<close> adds snapshots to
    \<open>txn_faults\<close>. Compaction keeps the graph and the invariant.
  \<^item> \<open>Cell_Drop\<close>, \<open>Drop_Safety\<close>: \<^verbatim>\<open>drop_cell\<close> of \<^verbatim>\<open>src/shard/write.rs\<close>, a sequence of transactions whose states are
    the step relation \<open>drop_moves\<close>. Other cells keep their records, and a half-dropped cell has its gates closed: what passes the read check or the
    write fence is refused. Snapshots pass neither.
  \<^item> \<open>Wal_Tail\<close>, \<open>Wal_History\<close>: \<^verbatim>\<open>topology_tail_since\<close> of \<^verbatim>\<open>src/shard/topology_tail.rs\<close>, with its cache of parsed files. The
    write-ahead log is the locale \<open>wal_reader\<close>; \<open>logged_history\<close> are the commits whose records the log has. A complete tail turns the
    edges of an index into those of the snapshot.
  \<^item> \<open>Sparse_Kernel\<close>, \<open>Sparse_Csc\<close>, \<open>Sparse_Compact\<close>, \<open>Sparse_Build\<close>, \<open>Sparse_Ladder\<close>, \<open>Topology_Overlay\<close>:
    \<^verbatim>\<open>src/sparse_kernel/mod.rs\<close>, the compact kernel of \<^verbatim>\<open>graphblas.rs\<close>, and \<^verbatim>\<open>src/shard/topology_tail.rs\<close>. Every kernel
    interprets \<open>hop_kernel\<close>: it computes powers of the edge relation of its matrix.
  \<^item> \<open>Index_Codec\<close>, \<open>Bounded_Cache\<close>, \<open>Object_Store\<close>, \<open>Index_Store\<close>, \<open>Index_Publish\<close>, \<open>Matrix_Rows\<close>, \<open>Index_Build\<close>:
    \<^verbatim>\<open>src/engine/index_store.rs\<close>, \<^verbatim>\<open>src/core/cache.rs\<close> and the full scan of \<^verbatim>\<open>src/engine/artifact_build.rs\<close>. The object
    store is the locale \<open>shared_objects\<close>. Published manifests only move forward, and an incremental build does what a full one does.
  \<^item> \<open>Placement_Hash\<close>, \<open>Placement_Liveness\<close>: \<^verbatim>\<open>crates/placement/src\<close>. Owners are unique, agree between nodes, and move
    only with the nodes that come or go.
  \<^item> \<open>Lease_Codec\<close>, \<open>Writer_Lease\<close>, \<open>Lease_Log\<close>, \<open>Lease_World\<close>, \<open>Lease_Safety\<close>, \<open>Lease_Operations\<close>, \<open>Lease_Store\<close>,
    \<open>Lease_Exclusive\<close>: \<^verbatim>\<open>src/engine/writer_lease.rs\<close>. In \<open>lease_world\<close> a process relies on lawful writes of the others; \<open>lease_store\<close>
    only has the laws of the store and its clock, and discharges that reliance. Of any number of processes, at most one takes a lease for valid at a time.
  \<^item> \<open>Bolt_Wire\<close>: \<^verbatim>\<open>src/client/bolt/wire.rs\<close>. The check of message values accepts a grammar of encodings that
    is stated without it, numbers survive their
    encoding, a handshake ends in a supported version.

  \<^bold>\<open>Bounds and termination.\<close> Every function is total. Retry loops have the bounds of the code as fuel: 32 attempts of a
  transaction, 8 of a publication, 16 of a lease; \<open>retry_budget\<close> shows that the error behind the transaction loop is not
  reached. Hop counts are bytes, a changelog collection deletes at most 100000 entries, the cache of log files keeps at most 65536, PackStream values nest up to 32 containers,
  numbers of the handshake have at most 10 bytes. Lengths that the code keeps in \<^verbatim>\<open>usize\<close> are natural numbers, and
  the statements that need it say that an encoded value is shorter than \<open>2 ^ 64\<close>, or a matrix smaller than \<open>2 ^ 60\<close>. Degree
  counters wrap, so the invariant spares one vertex, which no edge uses.

  \<^bold>\<open>What is assumed.\<close> SlateDB, the object store, SHA-256, the printing of floating-point numbers, clocks and SuiteSparse are
  foreign: they are parameters, and what the code relies on is a locale or a named hypothesis, each with an instance that
  satisfies it. Of the object store: conditional writes are honoured, versions do not recur, strings become paths segment by segment. For leases,
  two requests of a clock probe, the resolution of the store's timestamps and a millisecond fit in the guard of one second; the code does not check
  that, and \<open>slow_probe_counts_twice\<close> shows what a slower probe does. The write guard of a cell only serialises writers, so taking it is its checks.

  \<^bold>\<open>What is not modelled.\<close> The Cypher front end, planner and executor, and the coordination of queries between nodes:
  they only read the graph, and the reads and kernels they rest on are modelled. Bulk and relationship imports, which repeat the
  single-edge transaction on batches. Opening and closing of shards. HTTP, the sessions of Bolt, binaries,
  metrics, tracing and telemetry: they transport or count. The Python service and the web page are outside the engine.

  The properties stand in the theories of their components, each after a paragraph that states it.
\<close>

end
